(* ===== verification/Prelude.thy ===== *)
theory Prelude
  imports Main "HOL-Library.Word" "HOL-Library.Monad_Syntax"
begin

text \<open>
  Shared ground of the development: the fixed-width integer types of the C sources, little-endian
  conversion between integers and bytes, the byte-addressed memory of a 64-bit iOS process with
  its malloc heap, and the sequencing combinator that stands for the C idiom
  \<^verbatim>\<open>if (!f(...)) return false;\<close>.

  Results of modelled C functions are options: \<^term>\<open>None\<close> stands for undefined behaviour (an
  access outside every live object, a call through a NULL function pointer) or for fuel that ran
  out where a function takes fuel.  A theorem that a result is \<^term>\<open>Some\<close> therefore says that
  the code neither faults nor loops.
\<close>

unbundle bit_operations_syntax

type_synonym byte = "8 word"
type_synonym u16 = "16 word"
type_synonym u32 = "32 word"
type_synonym u64 = "64 word"
type_synonym addr = nat
type_synonym bytes = "8 word list"

named_theorems mem_simps \<open>rewrite rules for loads and stores\<close>
named_theorems le_simps \<open>rewrite rules for little-endian conversion\<close>

section \<open>Sequencing\<close>

definition and_then :: "(bool \<times> 's) option \<Rightarrow> ('s \<Rightarrow> (bool \<times> 's) option) \<Rightarrow> (bool \<times> 's) option" where
  "and_then f k = do { (ok, s) \<leftarrow> f; if ok then k s else Some (False, s) }"

lemma and_then_simps [simp]:
  "and_then None k = None"
  "and_then (Some (True, s)) k = k s"
  "and_then (Some (False, s)) k = Some (False, s)"
  by (simp_all add: and_then_def)

lemma and_then_eq_Some:
  "and_then f k = Some r \<longleftrightarrow>
     (\<exists>s. f = Some (True, s) \<and> k s = Some r) \<or> (\<exists>s. f = Some (False, s) \<and> r = (False, s))"
  by (cases f) (auto simp: and_then_def split: if_splits)

lemma and_then_split:
  "P (and_then f k) \<longleftrightarrow>
     (f = None \<longrightarrow> P None) \<and> (\<forall>s. f = Some (True, s) \<longrightarrow> P (k s)) \<and>
     (\<forall>s. f = Some (False, s) \<longrightarrow> P (Some (False, s)))"
  by (cases f) (auto simp: and_then_def)

lemma bind_eq_SomeI: "f = Some x \<Longrightarrow> k x = y \<Longrightarrow> Option.bind f k = y"
  by simp

lemma and_then_eq_None:
  "and_then f k = None \<longleftrightarrow> f = None \<or> (\<exists>s. f = Some (True, s) \<and> k s = None)"
  by (cases f) (auto simp: and_then_def split: if_splits)

section \<open>Little-endian integers\<close>

definition word_le_bytes :: "nat \<Rightarrow> 'a::len word \<Rightarrow> bytes" where
  "word_le_bytes n w = map (\<lambda>i. ucast (drop_bit (8 * i) w)) [0..<n]"

fun le_word :: "bytes \<Rightarrow> 'a::len word" where
  "le_word [] = 0"
| "le_word (b # bs) = ucast b OR push_bit 8 (le_word bs)"

lemma length_word_le_bytes [simp, le_simps]: "length (word_le_bytes n w) = n"
  by (simp add: word_le_bytes_def)

lemma bit_le_word:
  "bit (le_word bs :: 'a::len word) i \<longleftrightarrow>
     i < LENGTH('a) \<and> i div 8 < length bs \<and> bit (bs ! (i div 8)) (i mod 8)"
proof (induction bs arbitrary: i)
  case Nil
  then show ?case by simp
next
  case (Cons b bs)
  show ?case
  proof (cases "i < 8")
    case True
    then show ?thesis
      by (auto simp: bit_or_iff bit_push_bit_iff bit_ucast_iff)
  next
    case False
    then have "i div 8 = Suc ((i - 8) div 8)" and "i mod 8 = (i - 8) mod 8"
      by (auto simp: le_div_geq le_mod_geq not_less)
    moreover have "\<not> bit b i"
      using False bit_imp_le_length [of b i] by auto
    ultimately show ?thesis
      using False Cons.IH [of "i - 8"]
      by (auto simp: bit_or_iff bit_push_bit_iff bit_ucast_iff)
  qed
qed

lemma nth_word_le_bytes: "i < n \<Longrightarrow> word_le_bytes n w ! i = ucast (drop_bit (8 * i) w)"
  by (simp add: word_le_bytes_def)

lemma le_word_le_bytes:
  "LENGTH('a) \<le> 8 * n \<Longrightarrow> le_word (word_le_bytes n w) = (w :: 'a::len word)"
  by (rule bit_word_eqI)
    (auto simp: bit_le_word nth_word_le_bytes bit_ucast_iff bit_drop_bit_eq less_mult_imp_div_less
       mult.commute)

lemma le_word_le_bytes_std [simp, le_simps]:
  "le_word (word_le_bytes 1 v) = (v :: 8 word)"
  "le_word (word_le_bytes 4 x) = (x :: 32 word)"
  "le_word (word_le_bytes 8 y) = (y :: 64 word)"
  by (simp_all add: le_word_le_bytes)

lemma word_le_bytes_le_word:
  assumes "length bs = n" "8 * n \<le> LENGTH('a)"
  shows "word_le_bytes n (le_word bs :: 'a::len word) = bs"
proof (rule nth_equalityI)
  show "length (word_le_bytes n (le_word bs :: 'a word)) = length bs" using assms by simp
  fix i assume "i < length (word_le_bytes n (le_word bs :: 'a word))"
  then have i: "i < n" by simp
  show "word_le_bytes n (le_word bs :: 'a word) ! i = bs ! i"
  proof (rule bit_word_eqI)
    fix k assume k: "k < LENGTH(8)"
    have "8 * i + k < LENGTH('a)" using i k assms by simp
    then show "bit (word_le_bytes n (le_word bs :: 'a word) ! i) k = bit (bs ! i) k"
      using i k assms by (simp add: nth_word_le_bytes bit_ucast_iff bit_drop_bit_eq bit_le_word)
  qed
qed

lemma unat_u64_less: "unat (w :: u64) < 2 ^ 64"
  using unsigned_less [of w] by simp

lemma unat_u32_less: "unat (w :: u32) < 2 ^ 32"
  using unsigned_less [of w] by simp

lemma unat_byte_less: "unat (w :: byte) < 256"
  using unsigned_less [of w] by simp

section \<open>Words\<close>

lemma and_7F: "v AND 0x7F = take_bit 7 (v :: 'a::len word)"
  by (simp add: take_bit_eq_mask mask_eq_exp_minus_1)

lemma w80: "(0x80 :: 'a::len word) = push_bit 7 1" by (simp add: push_bit_eq_mult)

lemma bit_80: "bit (0x80 :: 'a::len word) n \<Longrightarrow> n = 7"
  by (simp only: w80 bit_push_bit_iff bit_1_iff) auto

lemma and_7F_or_80: "(v AND 0x7F) OR 0x80 = take_bit 7 (v :: u64) + 0x80"
proof -
  have "\<not> bit (take_bit 7 v) n \<or> \<not> bit (0x80 :: u64) n" for n
    using bit_80 [where n = n and 'a = 64] by (auto simp: bit_take_bit_iff)
  then show ?thesis by (simp add: disjunctive_add and_7F)
qed

lemma unat_take_bit: "unat (take_bit n (w::'a::len word)) = unat w mod 2 ^ n"
  by (simp add: unsigned_take_bit_eq flip: take_bit_eq_mod)

lemma unat_ucast: "unat (ucast (w::'a::len word) :: 'b::len word) = unat w mod 2 ^ LENGTH('b)"
  by (simp add: unsigned_ucast_eq take_bit_eq_mod)

lemma bit_pos_less: "bit (w :: 'a::len word) n \<Longrightarrow> n < LENGTH('a)"
  by (rule bit_imp_le_length)

lemma unat_of_nat_byte: "n < 256 \<Longrightarrow> unat (of_nat n :: byte) = n"
  by (simp add: unat_of_nat)

lemma unat_drop_bit: "unat (drop_bit k (w :: 'a::len word)) = unat w div 2 ^ k"
  by (simp only: unat_drop_bit_eq) (simp add: drop_bit_eq_div)

lemma push_bit_or_add:
  assumes "unat y < 2 ^ k"
  shows "push_bit k x OR y = push_bit k x + (y :: 'a::len word)"
proof -
  have "take_bit k y = y"
    using assms by (intro word_unat_eq_iff [THEN iffD2]) (simp add: unat_take_bit)
  then have "\<not> bit y i" if "k \<le> i" for i using that by (metis bit_take_bit_iff not_le)
  then have "\<not> bit (push_bit k x) i \<or> \<not> bit y i" for i
    by (cases "k \<le> i") (auto simp: bit_push_bit_iff)
  then show ?thesis by (intro disjunctive_add [symmetric]) blast
qed

lemma unat_push_bit_or:
  assumes "unat y < 2 ^ k" "unat x * 2 ^ k + unat y < 2 ^ LENGTH('a)"
  shows "unat (push_bit k x OR y) = unat x * 2 ^ k + unat (y :: 'a::len word)"
proof -
  have "push_bit k x OR y = push_bit k x + y" by (rule push_bit_or_add [OF assms(1)])
  also have "\<dots> = of_nat (unat x * 2 ^ k + unat y)" by (simp add: push_bit_eq_mult)
  finally show ?thesis using assms(2) by (simp only: unat_of_nat) simp
qed

lemma unat_ucast_byte [simp]: "unat (ucast (x :: byte) :: u32) = unat x"
  using unat_byte_less [of x] by (simp add: unat_ucast take_bit_eq_mod)

lemma ucast_of_nat_byte: "n < 256 \<Longrightarrow> ucast (of_nat n :: byte) = (of_nat n :: u32)"
  by (rule word_unat_eq_iff [THEN iffD2]) (simp add: unat_ucast unat_of_nat)

text \<open>A number from four digits of six bits.\<close>

definition num4 :: "nat \<Rightarrow> nat \<Rightarrow> nat \<Rightarrow> nat \<Rightarrow> nat" where
  "num4 a b c d = a * 2 ^ 18 + (b * 2 ^ 12 + (c * 2 ^ 6 + d))"

lemma unat_four:
  assumes "a < 64" "b < 64" "c < 64" "d < 64"
  shows "unat (push_bit 18 (of_nat a) OR push_bit 12 (of_nat b) OR push_bit 6 (of_nat c) OR of_nat d :: u32) =
    num4 a b c d"
proof -
  have u: "k < 64 \<Longrightarrow> unat (of_nat k :: u32) = k" for k by (simp add: unat_of_nat)
  have 1: "unat (push_bit 6 (of_nat c) OR of_nat d :: u32) = c * 2 ^ 6 + d"
    using assms u [of c] u [of d] by (subst unat_push_bit_or) simp_all
  have 2: "unat (push_bit 12 (of_nat b) OR push_bit 6 (of_nat c) OR of_nat d :: u32) = b * 2 ^ 12 + (c * 2 ^ 6 + d)"
    using assms u [of b] 1 by (subst unat_push_bit_or) simp_all
  show ?thesis
    using assms u [of a] 2 unfolding num4_def by (subst unat_push_bit_or) simp_all
qed

section \<open>Base 128\<close>

text \<open>
  The base-128 code of an unsigned number, the groups of seven bits least significant first: a
  protobuf varint and a DWARF ULEB128.
\<close>

function uvarint :: "nat \<Rightarrow> bytes" where
  "uvarint n = (if n < 128 then [of_nat n] else of_nat (n mod 128 + 128) # uvarint (n div 128))"
  by pat_completeness auto
termination by (relation "measure id") auto

declare uvarint.simps [simp del]

lemma uvarint_small: "n < 128 \<Longrightarrow> uvarint n = [of_nat n]" by (simp add: uvarint.simps)

lemma uvarint_big: "128 \<le> n \<Longrightarrow> uvarint n = of_nat (n mod 128 + 128) # uvarint (n div 128)"
  by (simp add: uvarint.simps [of n])

lemma uvarint_not_Nil [simp]: "uvarint n \<noteq> []"
  by (cases "n < 128") (simp_all add: uvarint_small uvarint_big)

lemma length_uvarint: "length (uvarint n) \<le> k \<longleftrightarrow> 0 < k \<and> n < 2 ^ (7 * k)"
proof (induction k arbitrary: n)
  case 0
  then show ?case by simp
next
  case (Suc k)
  show ?case
  proof (cases "n < 128")
    case True
    have "(128::nat) \<le> 2 ^ (7 * Suc k)" by (simp add: power_add)
    then show ?thesis using True by (simp add: uvarint_small)
  next
    case False
    then have d: "0 < n div 128" by (simp add: div_greater_zero_iff)
    have "n div 128 < 2 ^ (7 * k) \<longleftrightarrow> n < 2 ^ (7 * Suc k)"
      by (simp add: div_less_iff_less_mult power_add mult.commute)
    moreover have "0 < k \<or> \<not> n div 128 < 2 ^ (7 * k)" using d by (cases k) auto
    ultimately show ?thesis using False Suc.IH [of "n div 128"] by (auto simp: uvarint_big)
  qed
qed

lemma length_uvarint_u64: "n < 2 ^ 64 \<Longrightarrow> length (uvarint n) \<le> 10"
  using length_uvarint [of n 10] by simp

lemma last_group: "n < 128 \<Longrightarrow> of_nat (n + 128) AND 0x7F = (of_nat n :: byte)"
  by (rule word_unat_eq_iff [THEN iffD2])
    (simp add: and_7F unat_take_bit unat_of_nat unat_word_ariths)

lemma and_80: "b AND 0x80 = 0 \<longleftrightarrow> unat (b :: byte) < 128"
proof -
  have "b AND 2 ^ 7 = 0 \<longleftrightarrow> \<not> bit b 7" by (rule and_exp_eq_0_iff_not_bit)
  moreover have "bit b 7 \<longleftrightarrow> bit (unat b) 7" by (simp add: bit_unsigned_iff)
  moreover have "bit (unat b) 7 \<longleftrightarrow> odd (unat b div 128)" by (simp add: bit_iff_odd)
  ultimately show ?thesis
    using unat_byte_less [of b] by (cases "unat b < 128") (auto simp: odd_iff_mod_2_eq_one)
qed

lemma nat_groups: "n mod 128 OR push_bit 7 (n div 128) = (n::nat)"
proof -
  have "take_bit 7 n OR push_bit 7 (drop_bit 7 n) = n"
    by (rule bit_eqI) (auto simp: bit_or_iff bit_take_bit_iff bit_push_bit_iff bit_drop_bit_eq,
      metis le_add_diff_inverse not_less)
  then show ?thesis by (simp add: take_bit_eq_mod drop_bit_eq_div)
qed

lemma word_groups:
  "push_bit k (of_nat (n mod 128)) OR push_bit (k + 7) (of_nat (n div 128)) = push_bit k (of_nat n :: 'a::len word)"
proof -
  have "of_nat (n mod 128) OR push_bit 7 (of_nat (n div 128)) = (of_nat (n mod 128 OR push_bit 7 (n div 128)) :: 'a word)"
    by (simp only: of_nat_or_eq of_nat_push_bit)
  also have "\<dots> = of_nat n" by (simp only: nat_groups)
  finally show ?thesis
    by (simp only: push_bit_or [symmetric] push_bit_push_bit [symmetric])
qed

lemma ucast_of_nat_small: "n < 256 \<Longrightarrow> ucast (of_nat n :: byte) = (of_nat n :: 'a::len word)"
  by (rule word_unat_eq_iff [THEN iffD2]) (simp add: unat_ucast unat_of_nat)

lemma group_and_7F: "of_nat (n mod 128 + 128) AND (0x7F :: byte) = of_nat (n mod 128)"
  by (rule last_group) simp

lemma last_and_7F: "n < 128 \<Longrightarrow> of_nat n AND (0x7F :: byte) = of_nat n"
  by (rule word_unat_eq_iff [THEN iffD2])
    (simp add: and_7F unat_take_bit unat_of_nat)

lemma group_and_80: "of_nat (n mod 128 + 128) AND (0x80 :: byte) \<noteq> 0"
  using unat_of_nat_byte [of "n mod 128 + 128"] by (simp add: and_80 del: of_nat_add)

lemma last_and_80: "n < 128 \<Longrightarrow> of_nat n AND (0x80 :: byte) = 0"
  by (simp add: and_80 unat_of_nat)

lemma groups_left:
  assumes "128 \<le> (n::nat)" "n * 2 ^ (7 * i) < 2 ^ k"
  shows "n div 128 * 2 ^ (7 * Suc i) < 2 ^ k" "7 * Suc i < k"
proof -
  have le: "n div 128 * 2 ^ (7 * Suc i) \<le> n * 2 ^ (7 * i)"
    by (simp add: power_add)
  then show "n div 128 * 2 ^ (7 * Suc i) < 2 ^ k" using assms(2) by linarith
  have "1 \<le> n div 128" using assms(1) by (simp add: Suc_le_eq div_greater_zero_iff)
  then have "2 ^ (7 * Suc i) \<le> n div 128 * (2::nat) ^ (7 * Suc i)" by simp
  then have "(2::nat) ^ (7 * Suc i) < 2 ^ k" using le assms(2) by linarith
  then show "7 * Suc i < k" by (rule power_less_imp_less_exp [rotated]) simp
qed

section \<open>Memory\<close>

text \<open>
  \<open>cbytes\<close> maps each address of a live object to its byte; an address outside the domain may
  not be accessed.  \<open>cblocks\<close> records the blocks malloc has handed out, by start address.
\<close>

record cmem =
  cbytes :: "addr \<Rightarrow> byte option"
  cblocks :: "addr \<Rightarrow> nat option"

fun load_bytes :: "cmem \<Rightarrow> addr \<Rightarrow> nat \<Rightarrow> bytes option" where
  "load_bytes m a 0 = Some []"
| "load_bytes m a (Suc n) =
     do { b \<leftarrow> cbytes m a; bs \<leftarrow> load_bytes m (Suc a) n; Some (b # bs) }"

fun store_bytes :: "cmem \<Rightarrow> addr \<Rightarrow> bytes \<Rightarrow> cmem option" where
  "store_bytes m a [] = Some m"
| "store_bytes m a (b # bs) =
     (if cbytes m a = None then None
      else store_bytes (m\<lparr>cbytes := (cbytes m)(a \<mapsto> b)\<rparr>) (Suc a) bs)"

definition load_word :: "cmem \<Rightarrow> addr \<Rightarrow> nat \<Rightarrow> 'a::len word option" where
  "load_word m a n = map_option le_word (load_bytes m a n)"

definition store_word :: "cmem \<Rightarrow> addr \<Rightarrow> nat \<Rightarrow> 'a::len word \<Rightarrow> cmem option" where
  "store_word m a n w = store_bytes m a (word_le_bytes n w)"

text \<open>Pointers take eight bytes; NULL is address 0.\<close>

definition load_ptr :: "cmem \<Rightarrow> addr \<Rightarrow> addr option" where
  "load_ptr m a = map_option unat (load_word m a 8 :: u64 option)"

definition store_ptr :: "cmem \<Rightarrow> addr \<Rightarrow> addr \<Rightarrow> cmem option" where
  "store_ptr m a p = store_word m a 8 (of_nat p :: u64)"

definition valid_range :: "cmem \<Rightarrow> addr \<Rightarrow> nat \<Rightarrow> bool" where
  "valid_range m a n \<longleftrightarrow> {a..<a + n} \<subseteq> dom (cbytes m)"

lemma valid_range_0 [simp]: "valid_range m a 0"
  by (simp add: valid_range_def)

lemma valid_range_Suc:
  "valid_range m a (Suc n) \<longleftrightarrow> cbytes m a \<noteq> None \<and> valid_range m (Suc a) n"
proof -
  have "{a..<a + Suc n} = insert a {Suc a..<Suc a + n}" by auto
  then show ?thesis by (auto simp: valid_range_def)
qed

lemma valid_range_sub:
  "valid_range m a n \<Longrightarrow> a \<le> b \<Longrightarrow> b + k \<le> a + n \<Longrightarrow> valid_range m b k"
  unfolding valid_range_def by (rule subset_trans) auto

lemma load_bytes_length [mem_simps]: "load_bytes m a n = Some bs \<Longrightarrow> length bs = n"
  by (induction m a n arbitrary: bs rule: load_bytes.induct)
    (auto split: Option.bind_splits)

lemma load_bytes_valid: "load_bytes m a n \<noteq> None \<longleftrightarrow> valid_range m a n"
  by (induction m a n rule: load_bytes.induct)
    (auto simp: valid_range_Suc split: Option.bind_splits)

lemma load_bytes_valid_Some: "valid_range m a n \<Longrightarrow> \<exists>bs. load_bytes m a n = Some bs \<and> length bs = n"
  using load_bytes_valid [of m a n] load_bytes_length [of m a n] by auto

lemma load_bytes_cong:
  "(\<And>x. a \<le> x \<Longrightarrow> x < a + n \<Longrightarrow> cbytes m x = cbytes m' x) \<Longrightarrow> load_bytes m a n = load_bytes m' a n"
proof (induction n arbitrary: a)
  case 0
  then show ?case by simp
next
  case (Suc n)
  have "load_bytes m (Suc a) n = load_bytes m' (Suc a) n"
    using Suc.prems by (intro Suc.IH) auto
  then show ?case using Suc.prems [of a] by simp
qed

lemma store_bytes_valid: "store_bytes m a bs \<noteq> None \<longleftrightarrow> valid_range m a (length bs)"
proof (induction m a bs rule: store_bytes.induct)
  case (1 m a)
  then show ?case by simp
next
  case (2 m a b bs)
  have "valid_range (m\<lparr>cbytes := (cbytes m)(a \<mapsto> b)\<rparr>) (Suc a) (length bs) \<longleftrightarrow>
        valid_range m (Suc a) (length bs)"
    if "cbytes m a \<noteq> None"
    using that by (auto simp: valid_range_def)
  then show ?case using 2 by (auto simp: valid_range_Suc)
qed

text \<open>What a store leaves: the bytes written, everything else as before, the same objects.\<close>

lemma store_bytes_effect:
  assumes "store_bytes m a bs = Some m'"
  shows "cbytes m' = (\<lambda>x. if a \<le> x \<and> x < a + length bs then Some (bs ! (x - a)) else cbytes m x)"
    and "cblocks m' = cblocks m"
proof -
  have "cbytes m' = (\<lambda>x. if a \<le> x \<and> x < a + length bs then Some (bs ! (x - a)) else cbytes m x) \<and>
        cblocks m' = cblocks m"
    using assms
  proof (induction bs arbitrary: m a)
    case Nil
    then show ?case by (auto simp: fun_eq_iff)
  next
    case (Cons b bs)
    from Cons.prems have
      "store_bytes (m\<lparr>cbytes := (cbytes m)(a \<mapsto> b)\<rparr>) (Suc a) bs = Some m'"
      by (simp split: if_splits)
    from Cons.IH [OF this] show ?case
      by (auto simp: fun_eq_iff nth_Cons' Suc_diff_Suc split: nat.split)
  qed
  then show "cbytes m' = (\<lambda>x. if a \<le> x \<and> x < a + length bs then Some (bs ! (x - a)) else cbytes m x)"
    and "cblocks m' = cblocks m" by auto
qed

text \<open>A memory that holds one object.\<close>

definition mem_at :: "nat \<Rightarrow> bytes \<Rightarrow> cmem" where
  "mem_at base bs = \<lparr>cbytes = (\<lambda>a. if base \<le> a \<and> a < base + length bs then Some (bs ! (a - base)) else None),
     cblocks = (\<lambda>_. None)\<rparr>"

lemma load_mem_at:
  "base \<le> a \<Longrightarrow> a + n \<le> base + length bs \<Longrightarrow> load_bytes (mem_at base bs) a n = Some (take n (drop (a - base) bs))"
proof (induction n arbitrary: a)
  case (Suc n)
  then have "drop (a - base) bs = bs ! (a - base) # drop (Suc (a - base)) bs" by (intro Cons_nth_drop_Suc [symmetric]) simp
  moreover have "Suc a - base = Suc (a - base)" using Suc.prems(1) by simp
  ultimately show ?case using Suc.IH [of "Suc a"] Suc.prems by (simp add: mem_at_def)
qed simp

section \<open>Words and naturals\<close>

lemma unat_of_nat_u32: "n < 2 ^ 32 \<Longrightarrow> unat (of_nat n :: u32) = n"
  by (simp add: unat_of_nat)

lemma unat_ucast_u32: "unat (ucast (w :: u32) :: u64) = unat w"
  using unsigned_less [where w = w and 'a = nat] by (simp add: unat_ucast)

lemma ucast_sum:
  assumes "unat (a + b :: u32) = unat a + unat b"
  shows "(ucast (a + b) :: u64) = ucast a + ucast b"
proof (rule word_unat_eq_iff [THEN iffD2])
  have "unat a < 2 ^ 32" "unat b < 2 ^ 32" using unsigned_less [where w = a and 'a = nat] unsigned_less [where w = b and 'a = nat] by simp_all
  then have "unat (ucast a + ucast b :: u64) = unat a + unat b"
    by (subst unat_word_ariths) (simp add: unat_ucast_u32)
  then show "unat (ucast (a + b) :: u64) = unat (ucast a + ucast b :: u64)"
    using assms by (simp add: unat_ucast_u32)
qed

section \<open>Lists\<close>

lemma find_SomeD: "List.find P xs = Some x \<Longrightarrow> x \<in> set xs \<and> P x"
  by (induction xs) (auto split: if_splits)

end
