(* ===== verification/PbTypes.thy ===== *)
theory PbTypes
  imports Prelude
begin

text \<open>
  nanopb, \<^verbatim>\<open>ios/Pods/nanopb/pb.h\<close>, \<^verbatim>\<open>pb_encode.h\<close>, \<^verbatim>\<open>pb_decode.h\<close> and \<^verbatim>\<open>pb_common.h\<close>: field
  descriptors, the type byte and its three parts, wire types, the two stream structures, the error
  macro, and the parameters that stand for code a user of the library supplies.

  The configuration is the one the Pods project builds: \<^verbatim>\<open>PB_FIELD_32BIT=1\<close>,
  \<^verbatim>\<open>PB_NO_PACKED_STRUCTS=1\<close>, \<^verbatim>\<open>PB_ENABLE_MALLOC=1\<close> on 64-bit little-endian iOS.
\<close>

section \<open>The type byte\<close>

definition PB_LTYPE_BOOL :: byte where "PB_LTYPE_BOOL = 0x00"
definition PB_LTYPE_VARINT :: byte where "PB_LTYPE_VARINT = 0x01"
definition PB_LTYPE_UVARINT :: byte where "PB_LTYPE_UVARINT = 0x02"
definition PB_LTYPE_SVARINT :: byte where "PB_LTYPE_SVARINT = 0x03"
definition PB_LTYPE_FIXED32 :: byte where "PB_LTYPE_FIXED32 = 0x04"
definition PB_LTYPE_FIXED64 :: byte where "PB_LTYPE_FIXED64 = 0x05"
definition PB_LTYPE_LAST_PACKABLE :: byte where "PB_LTYPE_LAST_PACKABLE = 0x05"
definition PB_LTYPE_BYTES :: byte where "PB_LTYPE_BYTES = 0x06"
definition PB_LTYPE_STRING :: byte where "PB_LTYPE_STRING = 0x07"
definition PB_LTYPE_SUBMESSAGE :: byte where "PB_LTYPE_SUBMESSAGE = 0x08"
definition PB_LTYPE_EXTENSION :: byte where "PB_LTYPE_EXTENSION = 0x09"
definition PB_LTYPE_FIXED_LENGTH_BYTES :: byte where "PB_LTYPE_FIXED_LENGTH_BYTES = 0x0A"
definition PB_LTYPES_COUNT :: byte where "PB_LTYPES_COUNT = 0x0B"
definition PB_LTYPE_MASK :: byte where "PB_LTYPE_MASK = 0x0F"

definition PB_HTYPE_REQUIRED :: byte where "PB_HTYPE_REQUIRED = 0x00"
definition PB_HTYPE_OPTIONAL :: byte where "PB_HTYPE_OPTIONAL = 0x10"
definition PB_HTYPE_REPEATED :: byte where "PB_HTYPE_REPEATED = 0x20"
definition PB_HTYPE_ONEOF :: byte where "PB_HTYPE_ONEOF = 0x30"
definition PB_HTYPE_MASK :: byte where "PB_HTYPE_MASK = 0x30"

definition PB_ATYPE_STATIC :: byte where "PB_ATYPE_STATIC = 0x00"
definition PB_ATYPE_POINTER :: byte where "PB_ATYPE_POINTER = 0x80"
definition PB_ATYPE_CALLBACK :: byte where "PB_ATYPE_CALLBACK = 0x40"
definition PB_ATYPE_MASK :: byte where "PB_ATYPE_MASK = 0xC0"

definition PB_ATYPE :: "byte \<Rightarrow> byte" where "PB_ATYPE x = x AND PB_ATYPE_MASK"
definition PB_HTYPE :: "byte \<Rightarrow> byte" where "PB_HTYPE x = x AND PB_HTYPE_MASK"
definition PB_LTYPE :: "byte \<Rightarrow> byte" where "PB_LTYPE x = x AND PB_LTYPE_MASK"

lemmas pb_type_defs =
  PB_LTYPE_BOOL_def PB_LTYPE_VARINT_def PB_LTYPE_UVARINT_def PB_LTYPE_SVARINT_def
  PB_LTYPE_FIXED32_def PB_LTYPE_FIXED64_def PB_LTYPE_LAST_PACKABLE_def PB_LTYPE_BYTES_def
  PB_LTYPE_STRING_def PB_LTYPE_SUBMESSAGE_def PB_LTYPE_EXTENSION_def
  PB_LTYPE_FIXED_LENGTH_BYTES_def PB_LTYPES_COUNT_def PB_LTYPE_MASK_def
  PB_HTYPE_REQUIRED_def PB_HTYPE_OPTIONAL_def PB_HTYPE_REPEATED_def PB_HTYPE_ONEOF_def
  PB_HTYPE_MASK_def PB_ATYPE_STATIC_def PB_ATYPE_POINTER_def PB_ATYPE_CALLBACK_def
  PB_ATYPE_MASK_def

definition PB_SIZE_MAX :: u32 where "PB_SIZE_MAX = - 1"
definition PB_MAX_REQUIRED_FIELDS :: u32 where "PB_MAX_REQUIRED_FIELDS = 64"

section \<open>Field descriptors\<close>

text \<open>
  \<open>ptr\<close> of a descriptor is NULL, the descriptor array of a submessage type (a key of the table
  \<open>descs\<close> below, so that message types may refer to each other), or the bytes of a default value.
\<close>

datatype pb_ptr = PtrNull | PtrFields nat | PtrDefault bytes

record pb_field_t =
  fld_tag :: u32
  fld_type :: byte
  fld_data_offset :: u32
  fld_size_offset :: u32
  fld_data_size :: u32
  fld_array_size :: u32
  fld_ptr :: pb_ptr

definition PB_LAST_FIELD :: pb_field_t where
  "PB_LAST_FIELD = \<lparr>fld_tag = 0, fld_type = 0, fld_data_offset = 0, fld_size_offset = 0,
     fld_data_size = 0, fld_array_size = 0, fld_ptr = PtrNull\<rparr>"

text \<open>Pointer arithmetic with the signed \<open>size_offset\<close>.\<close>

definition offset_ptr :: "addr \<Rightarrow> u32 \<Rightarrow> addr" where
  "offset_ptr p d = nat (int p + sint d)"

text \<open>
  Where \<open>iter->pSize\<close> points: at a \<open>has_\<close>, \<open>_count\<close> or \<open>which_\<close> member of the message, or at the
  local variable \<open>fixed_count_size\<close> of \<open>pb_decode_noinit\<close>, whose value is \<open>it_local\<close>.
\<close>

datatype size_ref = SizeAt addr | SizeLocal

record pb_field_iter_t =
  it_start :: "pb_field_t list"
  it_pos :: nat
  it_required_field_index :: u32
  it_dest_struct :: addr
  it_pData :: addr
  it_pSize :: size_ref
  it_local :: u32

datatype pb_wire_type_t = PB_WT_VARINT | PB_WT_64BIT | PB_WT_STRING | PB_WT_32BIT | PB_WT_OTHER u32

definition wire_type_value :: "pb_wire_type_t \<Rightarrow> u64" where
  "wire_type_value wt = (case wt of PB_WT_VARINT \<Rightarrow> 0 | PB_WT_64BIT \<Rightarrow> 1 | PB_WT_STRING \<Rightarrow> 2
     | PB_WT_32BIT \<Rightarrow> 5 | PB_WT_OTHER w \<Rightarrow> ucast w)"

text \<open>The cast of a number to the enumeration; values 3, 4, 6, 7 have no enumerator.\<close>

definition wire_type_of :: "u32 \<Rightarrow> pb_wire_type_t" where
  "wire_type_of w = (if w = 0 then PB_WT_VARINT else if w = 1 then PB_WT_64BIT
     else if w = 2 then PB_WT_STRING else if w = 5 then PB_WT_32BIT else PB_WT_OTHER w)"

section \<open>Streams\<close>

text \<open>
  An output stream: no callback (a sizing stream), \<open>buf_write\<close>, or a callback of the user.
  \<open>os_state\<close> of a buffer stream is the pointer \<open>state\<close> into the caller's buffer, represented by
  the bytes between the start of that buffer and the pointer.
\<close>

datatype ocallback = OutNull | OutBuf | OutUser nat

record pb_ostream_t =
  os_callback :: ocallback
  os_state :: bytes
  os_max_size :: u64
  os_bytes_written :: u64
  os_errmsg :: "string option"

text \<open>
  An input stream: \<open>buf_read\<close> or a callback of the user.  \<open>is_state\<close> of a buffer stream is the
  pointer \<open>state\<close>, represented by the bytes from there to the end of the buffer object.
\<close>

datatype icallback = InBuf | InUser nat

record pb_istream_t =
  is_callback :: icallback
  is_state :: bytes
  is_bytes_left :: u64
  is_errmsg :: "string option"

text \<open>\<open>PB_RETURN_ERROR\<close>: the first message stays.\<close>

definition os_set_error :: "pb_ostream_t \<Rightarrow> string \<Rightarrow> pb_ostream_t" where
  "os_set_error s msg =
     s\<lparr>os_errmsg := (case os_errmsg s of None \<Rightarrow> Some msg | Some e \<Rightarrow> Some e)\<rparr>"

definition is_set_error :: "pb_istream_t \<Rightarrow> string \<Rightarrow> pb_istream_t" where
  "is_set_error s msg =
     s\<lparr>is_errmsg := (case is_errmsg s of None \<Rightarrow> Some msg | Some e \<Rightarrow> Some e)\<rparr>"

definition os_fail :: "pb_ostream_t \<Rightarrow> string \<Rightarrow> (bool \<times> pb_ostream_t) option" where
  "os_fail s msg = Some (False, os_set_error s msg)"

section \<open>Parameters: the user's code and the allocator\<close>

text \<open>
  \<open>pb_extension_type_t\<close>: function pointers are addresses, 0 is NULL; \<open>arg\<close> points at one
  field descriptor.
\<close>

record pb_extension_type_t =
  et_decode :: addr
  et_encode :: addr
  et_arg :: pb_field_t

text \<open>
  What the library calls but does not define.  \<open>descs\<close> is the table of generated descriptor
  arrays, \<open>ext_types\<close> the generated extension types by address; \<open>out_cb\<close>, \<open>in_cb\<close> are stream
  callbacks of the user, which work on the \<open>state\<close> member (\<open>in_cb\<close> sees \<open>bytes_left\<close> and the
  count too and returns the bytes it delivers), \<open>enc_cb\<close>, \<open>dec_cb\<close>, \<open>ext_enc_cb\<close>, \<open>ext_dec_cb\<close> field and extension
  callbacks by function address.  \<open>pick\<close> is the placement policy of malloc and \<open>fill\<close> what fresh
  memory holds.
\<close>

record pb_env =
  descs :: "nat \<Rightarrow> pb_field_t list"
  ext_types :: "addr \<Rightarrow> pb_extension_type_t option"
  out_cb :: "nat \<Rightarrow> bytes \<Rightarrow> bytes \<Rightarrow> bool \<times> bytes"
  in_cb :: "nat \<Rightarrow> bytes \<Rightarrow> u64 \<Rightarrow> nat \<Rightarrow> bool \<times> bytes \<times> bytes"
  enc_cb :: "addr \<Rightarrow> cmem \<Rightarrow> pb_ostream_t \<Rightarrow> pb_field_t \<Rightarrow> addr \<Rightarrow> (bool \<times> pb_ostream_t) option"
  dec_cb :: "addr \<Rightarrow> pb_field_t \<Rightarrow> addr \<Rightarrow> pb_istream_t \<times> cmem \<Rightarrow>
    (bool \<times> pb_istream_t \<times> cmem) option"
  ext_enc_cb :: "addr \<Rightarrow> cmem \<Rightarrow> pb_ostream_t \<Rightarrow> addr \<Rightarrow> (bool \<times> pb_ostream_t) option"
  ext_dec_cb :: "addr \<Rightarrow> addr \<Rightarrow> u32 \<Rightarrow> pb_wire_type_t \<Rightarrow> pb_istream_t \<times> cmem \<Rightarrow>
    (bool \<times> pb_istream_t \<times> cmem) option"
  pick :: "cmem \<Rightarrow> nat \<Rightarrow> addr option"
  fill :: "addr \<Rightarrow> byte"

text \<open>An environment with no user code, in which malloc always fails.\<close>

definition plain_env :: "(nat \<Rightarrow> pb_field_t list) \<Rightarrow> pb_env" where
  "plain_env ds = \<lparr>descs = ds, ext_types = (\<lambda>_. None),
     out_cb = (\<lambda>_ s _. (False, s)), in_cb = (\<lambda>_ s _ _. (False, s, [])),
     enc_cb = (\<lambda>_ _ _ _ _. None), dec_cb = (\<lambda>_ _ _ _. None),
     ext_enc_cb = (\<lambda>_ _ _ _. None), ext_dec_cb = (\<lambda>_ _ _ _ _. None),
     pick = (\<lambda>_ _. None), fill = (\<lambda>_. 0)\<rparr>"

section \<open>Simple facts about the type byte and the error macro\<close>

lemma PB_LTYPE_le: "PB_LTYPE x \<le> 15"
  by (simp add: PB_LTYPE_def PB_LTYPE_MASK_def word_and_le1)

lemma os_set_error_fields [simp]:
  "os_callback (os_set_error s e) = os_callback s"
  "os_state (os_set_error s e) = os_state s"
  "os_max_size (os_set_error s e) = os_max_size s"
  "os_bytes_written (os_set_error s e) = os_bytes_written s"
  by (simp_all add: os_set_error_def)

lemma is_set_error_fields [simp]:
  "is_callback (is_set_error s e) = is_callback s"
  "is_state (is_set_error s e) = is_state s"
  "is_bytes_left (is_set_error s e) = is_bytes_left s"
  by (simp_all add: is_set_error_def)

lemma is_set_error_errmsg: "is_errmsg (is_set_error s e) \<noteq> None"
  by (simp add: is_set_error_def split: option.splits)

lemma wire_type_of_value: "wire_type_value (wire_type_of w) = ucast w"
  by (simp add: wire_type_of_def wire_type_value_def)

end
