(* ===== verification/PbIter.thy ===== *)
theory PbIter
  imports PbTypes
begin

text \<open>
  nanopb, \<^verbatim>\<open>ios/Pods/nanopb/pb_common.c\<close>: the iterator over the fields of a message.  A descriptor
  array is a list that ends with a field of tag 0; \<open>it_pos\<close> is the index of \<open>iter->pos\<close> in it.
  Reading a descriptor past the end of the array is undefined behaviour (\<^term>\<open>None\<close>).
\<close>

definition cur_field :: "pb_field_iter_t \<Rightarrow> pb_field_t option" where
  "cur_field it = (if it_pos it < length (it_start it) then Some (it_start it ! it_pos it) else None)"

definition pb_field_iter_begin ::
  "pb_field_t list \<Rightarrow> addr \<Rightarrow> u32 \<Rightarrow> (bool \<times> pb_field_iter_t) option" where
  "pb_field_iter_begin fs dest_struct local =
     (case fs of
        [] \<Rightarrow> None
      | f # _ \<Rightarrow>
          let pData = (if dest_struct = 0 then 0 else dest_struct + unat (fld_data_offset f));
              pSize = (if dest_struct = 0 then 0 else offset_ptr pData (fld_size_offset f))
          in Some (fld_tag f \<noteq> 0,
               \<lparr>it_start = fs, it_pos = 0, it_required_field_index = 0,
                it_dest_struct = dest_struct, it_pData = pData, it_pSize = SizeAt pSize,
                it_local = local\<rparr>))"

text \<open>How far the iterator moves its data pointer over a field, before the next field's offset.\<close>

definition prev_size_of :: "pb_field_t \<Rightarrow> nat" where
  "prev_size_of f =
     (if PB_ATYPE (fld_type f) = PB_ATYPE_STATIC \<and> PB_HTYPE (fld_type f) = PB_HTYPE_REPEATED
      then unat (ucast (fld_data_size f) * ucast (fld_array_size f) :: u64)
      else if PB_ATYPE (fld_type f) = PB_ATYPE_POINTER then 8
      else unat (fld_data_size f))"

definition in_same_union :: "pb_field_t \<Rightarrow> pb_field_t \<Rightarrow> bool" where
  "in_same_union prev_field f \<longleftrightarrow>
     PB_HTYPE (fld_type prev_field) = PB_HTYPE_ONEOF \<and> PB_HTYPE (fld_type f) = PB_HTYPE_ONEOF \<and>
     fld_data_offset f = PB_SIZE_MAX"

definition pb_field_iter_next :: "pb_field_iter_t \<Rightarrow> (bool \<times> pb_field_iter_t) option" where
  "pb_field_iter_next it = do {
     prev_field \<leftarrow> cur_field it;
     if fld_tag prev_field = 0 then Some (False, it)
     else do {
       let it = it\<lparr>it_pos := it_pos it + 1\<rparr>;
       f \<leftarrow> cur_field it;
       if fld_tag f = 0 then do {
         (_, it') \<leftarrow> pb_field_iter_begin (it_start it) (it_dest_struct it) (it_local it);
         Some (False, it')
       }
       else if in_same_union prev_field f then Some (True, it)
       else
         let it = (if PB_HTYPE (fld_type prev_field) = PB_HTYPE_REQUIRED
                   then it\<lparr>it_required_field_index := it_required_field_index it + 1\<rparr> else it);
             pData = it_pData it + prev_size_of prev_field + unat (fld_data_offset f)
         in Some (True, it\<lparr>it_pData := pData,
                           it_pSize := SizeAt (offset_ptr pData (fld_size_offset f))\<rparr>)
     }
   }"

text \<open>
  The search loop, \<open>do \<dots> while (iter->pos != start)\<close>.  The counter bounds the rounds; a search
  visits every field of the array at most once, so the length of the array is enough
  (\<open>pb_field_iter_find_total\<close>).
\<close>

fun find_loop ::
  "nat \<Rightarrow> (pb_field_t \<Rightarrow> bool) \<Rightarrow> nat \<Rightarrow> pb_field_iter_t \<Rightarrow> (bool \<times> pb_field_iter_t) option" where
  "find_loop 0 wanted start it = None"
| "find_loop (Suc k) wanted start it = do {
     f \<leftarrow> cur_field it;
     if wanted f then Some (True, it)
     else do {
       (_, it) \<leftarrow> pb_field_iter_next it;
       if it_pos it \<noteq> start then find_loop k wanted start it else Some (False, it)
     }
   }"

definition pb_field_iter_find :: "pb_field_iter_t \<Rightarrow> u32 \<Rightarrow> (bool \<times> pb_field_iter_t) option" where
  "pb_field_iter_find it tag =
     find_loop (length (it_start it))
       (\<lambda>f. fld_tag f = tag \<and> PB_LTYPE (fld_type f) \<noteq> PB_LTYPE_EXTENSION) (it_pos it) it"

section \<open>Well-formed descriptor arrays\<close>

text \<open>
  What the generator emits: fields with tags other than 0, then \<open>PB_LAST_FIELD\<close>.
\<close>

definition wf_fields :: "pb_field_t list \<Rightarrow> bool" where
  "wf_fields fs \<longleftrightarrow> fs \<noteq> [] \<and> fld_tag (last fs) = 0 \<and> (\<forall>f \<in> set (butlast fs). fld_tag f \<noteq> 0)"

definition n_fields :: "pb_field_t list \<Rightarrow> nat" where
  "n_fields fs = length fs - 1"

text \<open>
  The layout that the iterator computes: where field \<open>i\<close> lies relative to the start of the struct,
  and how many required fields precede it.  Both are by recursion on the index.
\<close>

fun field_offset :: "pb_field_t list \<Rightarrow> nat \<Rightarrow> nat" where
  "field_offset fs 0 = unat (fld_data_offset (fs ! 0))"
| "field_offset fs (Suc i) =
     (if in_same_union (fs ! i) (fs ! Suc i) then field_offset fs i
      else field_offset fs i + prev_size_of (fs ! i) + unat (fld_data_offset (fs ! Suc i)))"

text \<open>Inside a union \<open>pSize\<close> stays at the \<open>which_\<close> member of the first alternative.\<close>

fun field_psize :: "pb_field_t list \<Rightarrow> addr \<Rightarrow> nat \<Rightarrow> addr" where
  "field_psize fs p 0 = offset_ptr (p + field_offset fs 0) (fld_size_offset (fs ! 0))"
| "field_psize fs p (Suc i) =
     (if in_same_union (fs ! i) (fs ! Suc i) then field_psize fs p i
      else offset_ptr (p + field_offset fs (Suc i)) (fld_size_offset (fs ! Suc i)))"

fun required_before :: "pb_field_t list \<Rightarrow> nat \<Rightarrow> nat" where
  "required_before fs 0 = 0"
| "required_before fs (Suc i) =
     (if PB_HTYPE (fld_type (fs ! i)) = PB_HTYPE_REQUIRED then Suc (required_before fs i)
      else required_before fs i)"

text \<open>The iterator standing at field \<open>i\<close> of the message at \<open>p\<close>.\<close>

definition iter_at :: "pb_field_t list \<Rightarrow> addr \<Rightarrow> u32 \<Rightarrow> nat \<Rightarrow> pb_field_iter_t" where
  "iter_at fs p local i = \<lparr>it_start = fs, it_pos = i,
     it_required_field_index = of_nat (required_before fs i), it_dest_struct = p,
     it_pData = p + field_offset fs i, it_pSize = SizeAt (field_psize fs p i), it_local = local\<rparr>"

lemma iter_at_fields [simp]:
  "it_start (iter_at fs p l i) = fs" "it_pos (iter_at fs p l i) = i"
  "it_dest_struct (iter_at fs p l i) = p" "it_local (iter_at fs p l i) = l"
  "it_pData (iter_at fs p l i) = p + field_offset fs i"
  "it_pSize (iter_at fs p l i) = SizeAt (field_psize fs p i)"
  "it_required_field_index (iter_at fs p l i) = of_nat (required_before fs i)"
  by (simp_all add: iter_at_def)

lemma wf_fields_length: "wf_fields fs \<Longrightarrow> length fs = Suc (n_fields fs)"
  by (simp add: wf_fields_def n_fields_def)

lemma wf_fields_tag:
  assumes "wf_fields fs" "i < length fs"
  shows "fld_tag (fs ! i) = 0 \<longleftrightarrow> i = n_fields fs"
proof (cases "i = n_fields fs")
  case True
  moreover from assms(1) have "fs \<noteq> []" and "fld_tag (last fs) = 0" by (simp_all add: wf_fields_def)
  ultimately show ?thesis by (simp add: n_fields_def last_conv_nth)
next
  case False
  with assms have "i < length (butlast fs)"
    by (simp add: n_fields_def)
  then have "fs ! i \<in> set (butlast fs)"
    using nth_mem [of i "butlast fs"] by (simp add: nth_butlast)
  with False assms show ?thesis by (simp add: wf_fields_def)
qed

lemma cur_field_iter_at: "i < length fs \<Longrightarrow> cur_field (iter_at fs p l i) = Some (fs ! i)"
  by (simp add: cur_field_def)

lemma iter_begin_wf:
  assumes "wf_fields fs" "p \<noteq> 0"
  shows "pb_field_iter_begin fs p l = Some (n_fields fs \<noteq> 0, iter_at fs p l 0)"
proof -
  from assms obtain f fs' where fs: "fs = f # fs'" by (cases fs) (auto simp: wf_fields_def)
  have "fld_tag (fs ! 0) = 0 \<longleftrightarrow> 0 = n_fields fs"
    using assms(1) fs by (intro wf_fields_tag) auto
  then show ?thesis using assms(2) fs
    by (simp add: pb_field_iter_begin_def iter_at_def Let_def)
qed

text \<open>One step: to the next field, or back to the first after the last.\<close>

lemma iter_next_wf:
  assumes wf: "wf_fields fs" and p: "p \<noteq> 0" and i: "i < n_fields fs"
  shows "pb_field_iter_next (iter_at fs p l i) =
    Some (if Suc i < n_fields fs then (True, iter_at fs p l (Suc i)) else (False, iter_at fs p l 0))"
proof -
  have len: "i < length fs" "Suc i < length fs" using wf_fields_length [OF wf] i by auto
  have tag: "fld_tag (fs ! i) \<noteq> 0" using wf_fields_tag [OF wf len(1)] i by simp
  have tag': "fld_tag (fs ! Suc i) = 0 \<longleftrightarrow> Suc i = n_fields fs" by (rule wf_fields_tag [OF wf len(2)])
  have cur: "cur_field (iter_at fs p l i) = Some (fs ! i)" by (rule cur_field_iter_at [OF len(1)])
  have cur': "cur_field (iter_at fs p l i\<lparr>it_pos := Suc i\<rparr>) = Some (fs ! Suc i)"
    using len by (simp add: cur_field_def)
  have req: "PB_HTYPE (fld_type (fs ! i)) = PB_HTYPE_ONEOF \<Longrightarrow>
      PB_HTYPE (fld_type (fs ! i)) \<noteq> PB_HTYPE_REQUIRED"
    by (simp add: pb_type_defs)
  show ?thesis
  proof (cases "Suc i < n_fields fs")
    case False
    then have "fld_tag (fs ! Suc i) = 0" using i tag' by simp
    then show ?thesis using False tag iter_begin_wf [OF wf p, of l]
      by (simp add: pb_field_iter_next_def cur cur' Let_def)
  next
    case True
    then have t: "fld_tag (fs ! Suc i) \<noteq> 0" using tag' by simp
    show ?thesis
    proof (cases "in_same_union (fs ! i) (fs ! Suc i)")
      case u: True
      then have "PB_HTYPE (fld_type (fs ! i)) \<noteq> PB_HTYPE_REQUIRED"
        by (intro req) (simp add: in_same_union_def)
      then show ?thesis using True t tag u
        by (simp add: pb_field_iter_next_def cur cur' Let_def)
    next
      case False
      then show ?thesis using True t tag
        by (simp add: pb_field_iter_next_def cur cur' Let_def add.assoc)
    qed
  qed
qed

lemma iter_next_empty:
  "wf_fields fs \<Longrightarrow> n_fields fs = 0 \<Longrightarrow> pb_field_iter_next (iter_at fs p l 0) = Some (False, iter_at fs p l 0)"
  using wf_fields_tag [of fs 0] wf_fields_length [of fs]
  by (simp add: pb_field_iter_next_def cur_field_iter_at)

section \<open>Searching for a field\<close>

text \<open>The fields still to visit, in order, when the search that began at \<open>i\<close> stands at \<open>j\<close>.\<close>

definition to_visit :: "nat \<Rightarrow> nat \<Rightarrow> nat \<Rightarrow> nat list" where
  "to_visit n i j = (if i \<le> j then [j..<n] @ [0..<i] else [j..<i])"

lemma to_visit_step:
  assumes "i < n" "j < n"
  shows "to_visit n i j = j # (let j' = (if Suc j < n then Suc j else 0)
           in if j' = i then [] else to_visit n i j')"
proof (cases "i \<le> j")
  case True
  with assms show ?thesis
    by (cases "Suc j < n") (auto simp: to_visit_def Let_def upt_conv_Cons)
next
  case False
  with assms show ?thesis
    by (auto simp: to_visit_def Let_def upt_conv_Cons)
qed

lemma length_to_visit: "i < n \<Longrightarrow> j < n \<Longrightarrow> length (to_visit n i j) \<le> n"
  by (auto simp: to_visit_def)

lemma find_loop_spec:
  assumes wf: "wf_fields fs" and p: "p \<noteq> 0" and i: "i < n_fields fs"
  shows "j < n_fields fs \<Longrightarrow> length (to_visit (n_fields fs) i j) \<le> k \<Longrightarrow>
    find_loop k wanted i (iter_at fs p l j) =
      Some (case List.find (\<lambda>j. wanted (fs ! j)) (to_visit (n_fields fs) i j) of
              Some j' \<Rightarrow> (True, iter_at fs p l j') | None \<Rightarrow> (False, iter_at fs p l i))"
proof (induction k arbitrary: j)
  case 0
  then show ?case using to_visit_step [OF i, of j] by simp
next
  case (Suc k)
  let ?n = "n_fields fs"
  let ?j' = "if Suc j < ?n then Suc j else 0"
  have len: "j < length fs" using Suc.prems wf_fields_length [OF wf] by simp
  have cur: "cur_field (iter_at fs p l j) = Some (fs ! j)" by (rule cur_field_iter_at [OF len])
  have next': "pb_field_iter_next (iter_at fs p l j) = Some (Suc j < ?n, iter_at fs p l ?j')"
    using iter_next_wf [OF wf p Suc.prems(1), of l] by (auto split: if_splits)
  have j': "?j' < ?n" using i by auto
  show ?case
  proof (cases "wanted (fs ! j)")
    case True
    then show ?thesis using to_visit_step [OF i Suc.prems(1)] cur by simp
  next
    case nw: False
    show ?thesis
    proof (cases "?j' = i")
      case True
      then show ?thesis using nw to_visit_step [OF i Suc.prems(1)] cur next' by (simp add: Let_def)
    next
      case False
      then have visit: "to_visit ?n i j = j # to_visit ?n i ?j'"
        using to_visit_step [OF i Suc.prems(1)] by (simp add: Let_def)
      then have "length (to_visit ?n i ?j') \<le> k" using Suc.prems(2) by simp
      from Suc.IH [OF j' this] show ?thesis using False nw cur next' visit by simp
    qed
  qed
qed

text \<open>The search from field \<open>i\<close> looks at \<open>i, i + 1, \<dots>\<close> and wraps around; it always ends.\<close>

definition field_with_tag :: "pb_field_t list \<Rightarrow> u32 \<Rightarrow> nat \<Rightarrow> nat option" where
  "field_with_tag fs tag i =
     List.find (\<lambda>j. fld_tag (fs ! j) = tag \<and> PB_LTYPE (fld_type (fs ! j)) \<noteq> PB_LTYPE_EXTENSION)
       ([i..<n_fields fs] @ [0..<i])"

lemma iter_find_wf:
  assumes "wf_fields fs" "p \<noteq> 0" "i < n_fields fs"
  shows "pb_field_iter_find (iter_at fs p l i) tag =
    Some (case field_with_tag fs tag i of
            Some j \<Rightarrow> (True, iter_at fs p l j) | None \<Rightarrow> (False, iter_at fs p l i))"
proof -
  have "to_visit (n_fields fs) i i = [i..<n_fields fs] @ [0..<i]" by (simp add: to_visit_def)
  moreover have "length (to_visit (n_fields fs) i i) \<le> length fs"
    using length_to_visit [OF assms(3) assms(3)] wf_fields_length [OF assms(1)] by simp
  ultimately show ?thesis
    using find_loop_spec [OF assms assms(3), of "length fs"
        "\<lambda>f. fld_tag f = tag \<and> PB_LTYPE (fld_type f) \<noteq> PB_LTYPE_EXTENSION" l]
    by (simp add: pb_field_iter_find_def field_with_tag_def)
qed

lemma field_with_tag_Some:
  assumes "field_with_tag fs tag i = Some j" "i < n_fields fs"
  shows "j < n_fields fs" "fld_tag (fs ! j) = tag" "PB_LTYPE (fld_type (fs ! j)) \<noteq> PB_LTYPE_EXTENSION"
  using find_SomeD [OF assms(1) [unfolded field_with_tag_def]] assms(2) by auto

lemma field_with_tag_None:
  assumes "field_with_tag fs tag i = None" "i < n_fields fs" "j < n_fields fs"
  shows "fld_tag (fs ! j) \<noteq> tag \<or> PB_LTYPE (fld_type (fs ! j)) = PB_LTYPE_EXTENSION"
  using assms by (auto simp: field_with_tag_def find_None_iff)

end
