(* ===== verification/PbIn.thy ===== *)
theory PbIn
  imports PbIter
begin

text \<open>
  nanopb, \<^verbatim>\<open>ios/Pods/nanopb/pb_decode.c\<close>, input streams and the decoders of single values:
  \<open>buf_read\<close>, \<open>pb_read\<close>, \<open>pb_readbyte\<close>, varints, tags, skipping, string substreams, zigzag and
  fixed-width integers.  A function that fills a caller's variable returns the value beside the
  status; after a failure that value is not to be used.
\<close>

definition is_fail :: "pb_istream_t \<Rightarrow> string \<Rightarrow> 'a \<Rightarrow> (bool \<times> pb_istream_t \<times> 'a) option" where
  "is_fail s msg x = Some (False, is_set_error s msg, x)"

section \<open>Reading bytes\<close>

text \<open>Reading past the end of the buffer object is undefined behaviour.\<close>

definition buf_read :: "pb_istream_t \<Rightarrow> nat \<Rightarrow> (bool \<times> pb_istream_t \<times> bytes) option" where
  "buf_read s count =
     (if count \<le> length (is_state s)
      then Some (True, s\<lparr>is_state := drop count (is_state s)\<rparr>, take count (is_state s))
      else None)"

definition pb_istream_from_buffer :: "bytes \<Rightarrow> u64 \<Rightarrow> pb_istream_t" where
  "pb_istream_from_buffer buf bufsize = \<lparr>is_callback = InBuf, is_state = buf,
     is_bytes_left = bufsize, is_errmsg = None\<rparr>"

definition run_icallback ::
  "pb_env \<Rightarrow> pb_istream_t \<Rightarrow> nat \<Rightarrow> (bool \<times> pb_istream_t \<times> bytes) option" where
  "run_icallback env s count =
     (case is_callback s of
        InBuf \<Rightarrow> buf_read s count
      | InUser k \<Rightarrow>
          let (ok, st, bs) = in_cb env k (is_state s) (is_bytes_left s) count
          in Some (ok, s\<lparr>is_state := st\<rparr>, take count bs))"

text \<open>\<open>pb_read\<close> from the check of \<open>bytes_left\<close> on.\<close>

definition pb_read_checked ::
  "pb_env \<Rightarrow> pb_istream_t \<Rightarrow> u64 \<Rightarrow> (bool \<times> pb_istream_t \<times> bytes) option" where
  "pb_read_checked env s count =
     (if is_bytes_left s < count then is_fail s ''end-of-stream'' []
      else do {
        (ok, s, bs) \<leftarrow> run_icallback env s (unat count);
        if \<not> ok then is_fail s ''io error'' bs
        else Some (True, s\<lparr>is_bytes_left := is_bytes_left s - count\<rparr>, bs)
      })"

lemma is_fail_simps [simp]:
  "is_fail s msg x = Some (b, s', y) \<longleftrightarrow> \<not> b \<and> s' = is_set_error s msg \<and> y = x"
  "is_fail s msg x \<noteq> None"
  by (auto simp: is_fail_def)

lemma run_icallback_fields:
  "run_icallback env s n = Some (ok, s', bs) \<Longrightarrow>
     is_bytes_left s' = is_bytes_left s \<and> is_callback s' = is_callback s \<and>
     is_errmsg s' = is_errmsg s \<and> length bs \<le> n"
  by (auto simp: run_icallback_def buf_read_def split: icallback.splits if_splits prod.splits)

lemma pb_read_checked_left:
  "pb_read_checked env s count = Some (True, s', bs) \<Longrightarrow>
     count \<le> is_bytes_left s \<and> is_bytes_left s' = is_bytes_left s - count \<and>
     is_callback s' = is_callback s"
  by (auto simp: pb_read_checked_def not_less split: if_splits Option.bind_splits
      dest!: run_icallback_fields)

text \<open>The branch that skips input of a user stream in pieces of 16 bytes.\<close>

function skip_loop :: "pb_env \<Rightarrow> pb_istream_t \<Rightarrow> u64 \<Rightarrow> (bool \<times> pb_istream_t \<times> bytes) option" where
  "skip_loop env s count =
     (if count > 16 then do {
        (ok, s, _) \<leftarrow> pb_read_checked env s 16;
        if \<not> ok then Some (False, s, []) else skip_loop env s (count - 16)
      }
      else do { (ok, s, _) \<leftarrow> pb_read_checked env s count; Some (ok, s, []) })"
  by pat_completeness auto
termination
proof (relation "measure (\<lambda>(env, s, count). unat count)", simp)
  fix count :: u64 assume "count > 16"
  then have "unat (count - 16) = unat count - 16" "unat count > 16"
    by (simp_all add: unat_sub_if' word_less_nat_alt word_le_nat_alt)
  then show "((env, s', count - 16), env, s, count) \<in> measure (\<lambda>(env, s, count). unat count)"
    for env s s' by simp
qed

declare skip_loop.simps [simp del]

text \<open>\<open>has_buf\<close> says that the \<open>buf\<close> argument is not NULL.\<close>

definition pb_read ::
  "pb_env \<Rightarrow> pb_istream_t \<Rightarrow> bool \<Rightarrow> u64 \<Rightarrow> (bool \<times> pb_istream_t \<times> bytes) option" where
  "pb_read env s has_buf count =
     (if count = 0 then Some (True, s, [])
      else if \<not> has_buf \<and> is_callback s \<noteq> InBuf then skip_loop env s count
      else pb_read_checked env s count)"

definition pb_readbyte :: "pb_env \<Rightarrow> pb_istream_t \<Rightarrow> (bool \<times> pb_istream_t \<times> byte) option" where
  "pb_readbyte env s =
     (if is_bytes_left s = 0 then is_fail s ''end-of-stream'' 0
      else do {
        (ok, s, bs) \<leftarrow> run_icallback env s 1;
        if \<not> ok then is_fail s ''io error'' 0
        else case bs of [] \<Rightarrow> None
             | b # _ \<Rightarrow> Some (True, s\<lparr>is_bytes_left := is_bytes_left s - 1\<rparr>, b)
      })"

lemma unat_minus_one_less: "(w :: u64) \<noteq> 0 \<Longrightarrow> unat (w - 1) < unat w"
  by (simp add: unat_minus_one unat_gt_0)

lemma pb_readbyte_left:
  "pb_readbyte env s = Some (True, s', b) \<Longrightarrow>
     is_bytes_left s \<noteq> 0 \<and> is_bytes_left s' = is_bytes_left s - 1 \<and>
     is_callback s' = is_callback s \<and> is_errmsg s' = is_errmsg s"
  by (auto simp: pb_readbyte_def split: if_splits Option.bind_splits list.splits
      dest!: run_icallback_fields)

lemma pb_readbyte_decreases:
  "pb_readbyte env s = Some (True, s', b) \<Longrightarrow> unat (is_bytes_left s') < unat (is_bytes_left s)"
  by (auto dest!: pb_readbyte_left intro: unat_minus_one_less)

section \<open>Varints\<close>

text \<open>
  The multibyte case.  \<open>bitpos\<close> is a \<open>uint_fast8_t\<close>, one byte on iOS, so \<open>bitpos + 7\<close> wraps
  around at 256.
\<close>

function varint32_loop ::
  "pb_env \<Rightarrow> pb_istream_t \<Rightarrow> byte \<Rightarrow> u32 \<Rightarrow> (bool \<times> pb_istream_t \<times> u32) option" where
  "varint32_loop env s bitpos result = do {
     (ok, s, b) \<leftarrow> pb_readbyte env s;
     if \<not> ok then Some (False, s, 0)
     else
       let sign_extension = (if bitpos < 63 then 0xFF else 0x01) in
       if bitpos \<ge> 32 \<and> b AND 0x7F \<noteq> 0 \<and> (drop_bit 31 result = 0 \<or> b \<noteq> sign_extension)
       then is_fail s ''varint overflow'' 0
       else
         let result = (if bitpos \<ge> 32 then result
                       else result OR push_bit (unat bitpos) (ucast (b AND 0x7F)));
             bitpos = bitpos + 7 in
         if b AND 0x80 \<noteq> 0 then varint32_loop env s bitpos result
         else if bitpos = 35 \<and> b AND 0x70 \<noteq> 0 then is_fail s ''varint overflow'' 0
         else Some (True, s, result)
   }"
  by pat_completeness auto
termination
  by (relation "measure (\<lambda>(env, s, bitpos, result). unat (is_bytes_left s))")
    (auto dest: pb_readbyte_decreases)

declare varint32_loop.simps [simp del]

text \<open>The last component says whether \<open>*eof\<close> was set.\<close>

definition pb_decode_varint32_eof ::
  "pb_env \<Rightarrow> pb_istream_t \<Rightarrow> (bool \<times> pb_istream_t \<times> u32 \<times> bool) option" where
  "pb_decode_varint32_eof env s = do {
     (ok, s, b) \<leftarrow> pb_readbyte env s;
     if \<not> ok then Some (False, s, 0, is_bytes_left s = 0)
     else if b AND 0x80 = 0 then Some (True, s, ucast b, False)
     else do {
       (ok, s, result) \<leftarrow> varint32_loop env s 7 (ucast (b AND 0x7F));
       Some (ok, s, result, False)
     }
   }"

definition pb_decode_varint32 ::
  "pb_env \<Rightarrow> pb_istream_t \<Rightarrow> (bool \<times> pb_istream_t \<times> u32) option" where
  "pb_decode_varint32 env s = do {
     (ok, s, dest, _) \<leftarrow> pb_decode_varint32_eof env s; Some (ok, s, dest) }"

function varint64_loop ::
  "pb_env \<Rightarrow> pb_istream_t \<Rightarrow> byte \<Rightarrow> u64 \<Rightarrow> (bool \<times> pb_istream_t \<times> u64) option" where
  "varint64_loop env s bitpos result =
     (if bitpos \<ge> 64 then is_fail s ''varint overflow'' 0
      else do {
        (ok, s, b) \<leftarrow> pb_readbyte env s;
        if \<not> ok then Some (False, s, 0)
        else
          let result = result OR push_bit (unat bitpos) (ucast (b AND 0x7F));
              bitpos = bitpos + 7 in
          if b AND 0x80 \<noteq> 0 then varint64_loop env s bitpos result
          else Some (True, s, result)
      })"
  by pat_completeness auto
termination
  by (relation "measure (\<lambda>(env, s, bitpos, result). unat (is_bytes_left s))")
    (auto dest: pb_readbyte_decreases)

declare varint64_loop.simps [simp del]

definition pb_decode_varint ::
  "pb_env \<Rightarrow> pb_istream_t \<Rightarrow> (bool \<times> pb_istream_t \<times> u64) option" where
  "pb_decode_varint env s = varint64_loop env s 0 0"

lemma pb_read_1_decreases:
  "pb_read env s True 1 = Some (True, s', bs) \<Longrightarrow> unat (is_bytes_left s') < unat (is_bytes_left s)"
proof -
  assume "pb_read env s True 1 = Some (True, s', bs)"
  then have "1 \<le> is_bytes_left s" "is_bytes_left s' = is_bytes_left s - 1"
    by (auto simp: pb_read_def dest: pb_read_checked_left)
  then show ?thesis by (auto intro!: unat_minus_one_less)
qed

text \<open>A byte that a callback claims to have read but did not deliver is indeterminate.\<close>

function pb_skip_varint :: "pb_env \<Rightarrow> pb_istream_t \<Rightarrow> (bool \<times> pb_istream_t) option" where
  "pb_skip_varint env s = do {
     (ok, s, bs) \<leftarrow> pb_read env s True 1;
     if \<not> ok then Some (False, s)
     else case bs of [] \<Rightarrow> None
          | b # _ \<Rightarrow> if b AND 0x80 \<noteq> 0 then pb_skip_varint env s else Some (True, s)
   }"
  by pat_completeness auto
termination
  by (relation "measure (\<lambda>(env, s). unat (is_bytes_left s))") (auto dest: pb_read_1_decreases)

declare pb_skip_varint.simps [simp del]

section \<open>Tags and skipping\<close>

definition pb_skip_string :: "pb_env \<Rightarrow> pb_istream_t \<Rightarrow> (bool \<times> pb_istream_t) option" where
  "pb_skip_string env s = do {
     (ok, s, len) \<leftarrow> pb_decode_varint32 env s;
     if \<not> ok then Some (False, s)
     else do { (ok, s, _) \<leftarrow> pb_read env s False (ucast len); Some (ok, s) }
   }"

text \<open>Status, stream, wire type, tag, eof.\<close>

definition pb_decode_tag ::
  "pb_env \<Rightarrow> pb_istream_t \<Rightarrow> (bool \<times> pb_istream_t \<times> pb_wire_type_t \<times> u32 \<times> bool) option" where
  "pb_decode_tag env s = do {
     (ok, s, temp, eof) \<leftarrow> pb_decode_varint32_eof env s;
     if \<not> ok then Some (False, s, PB_WT_VARINT, 0, eof)
     else if temp = 0 then Some (False, s, PB_WT_VARINT, 0, True)
     else Some (True, s, wire_type_of (temp AND 7), drop_bit 3 temp, False)
   }"

definition pb_skip_field ::
  "pb_env \<Rightarrow> pb_istream_t \<Rightarrow> pb_wire_type_t \<Rightarrow> (bool \<times> pb_istream_t) option" where
  "pb_skip_field env s wire_type =
     (case wire_type of
        PB_WT_VARINT \<Rightarrow> pb_skip_varint env s
      | PB_WT_64BIT \<Rightarrow> do { (ok, s, _) \<leftarrow> pb_read env s False 8; Some (ok, s) }
      | PB_WT_STRING \<Rightarrow> pb_skip_string env s
      | PB_WT_32BIT \<Rightarrow> do { (ok, s, _) \<leftarrow> pb_read env s False 4; Some (ok, s) }
      | PB_WT_OTHER _ \<Rightarrow> Some (False, is_set_error s ''invalid wire_type''))"

text \<open>The varint case of \<open>read_raw_value\<close>; \<open>sz\<close> is \<open>*size\<close>, \<open>acc\<close> what is in the buffer so far.\<close>

function raw_varint_loop ::
  "pb_env \<Rightarrow> pb_istream_t \<Rightarrow> nat \<Rightarrow> nat \<Rightarrow> bytes \<Rightarrow> (bool \<times> pb_istream_t \<times> bytes) option" where
  "raw_varint_loop env s max_size sz acc =
     (if sz + 1 > max_size then Some (False, s, acc)
      else do {
        (ok, s, bs) \<leftarrow> pb_read env s True 1;
        if \<not> ok then Some (False, s, acc)
        else case bs of [] \<Rightarrow> None
             | b # _ \<Rightarrow> if b AND 0x80 \<noteq> 0 then raw_varint_loop env s max_size (sz + 1) (acc @ [b])
                        else Some (True, s, acc @ [b])
      })"
  by pat_completeness auto
termination
  by (relation "measure (\<lambda>(env, s, max_size, sz, acc). max_size - sz)") auto

declare raw_varint_loop.simps [simp del]

definition read_raw_value ::
  "pb_env \<Rightarrow> pb_istream_t \<Rightarrow> pb_wire_type_t \<Rightarrow> nat \<Rightarrow> (bool \<times> pb_istream_t \<times> bytes) option" where
  "read_raw_value env s wire_type max_size =
     (case wire_type of
        PB_WT_VARINT \<Rightarrow> raw_varint_loop env s max_size 0 []
      | PB_WT_64BIT \<Rightarrow> pb_read env s True 8
      | PB_WT_32BIT \<Rightarrow> pb_read env s True 4
      | _ \<Rightarrow> is_fail s ''invalid wire_type'' [])"

section \<open>Substreams\<close>

definition pb_make_string_substream ::
  "pb_env \<Rightarrow> pb_istream_t \<Rightarrow> (bool \<times> pb_istream_t \<times> pb_istream_t) option" where
  "pb_make_string_substream env s = do {
     (ok, s, sz) \<leftarrow> pb_decode_varint32 env s;
     if \<not> ok then Some (False, s, s)
     else if is_bytes_left s < ucast sz then is_fail s ''parent stream too short'' s
     else Some (True, s\<lparr>is_bytes_left := is_bytes_left s - ucast sz\<rparr>,
                      s\<lparr>is_bytes_left := ucast sz\<rparr>)
   }"

definition pb_close_string_substream ::
  "pb_env \<Rightarrow> pb_istream_t \<Rightarrow> pb_istream_t \<Rightarrow> (bool \<times> pb_istream_t) option" where
  "pb_close_string_substream env s substream = do {
     (ok, substream, _) \<leftarrow>
        (if is_bytes_left substream \<noteq> 0
         then pb_read env substream False (is_bytes_left substream)
         else Some (True, substream, []));
     if \<not> ok then Some (False, s)
     else Some (True, s\<lparr>is_state := is_state substream, is_errmsg := is_errmsg substream\<rparr>)
   }"

section \<open>Values\<close>

definition unzigzag :: "u64 \<Rightarrow> u64" where
  "unzigzag value = (if value AND 1 \<noteq> 0 then NOT (drop_bit 1 value) else drop_bit 1 value)"

definition pb_decode_svarint ::
  "pb_env \<Rightarrow> pb_istream_t \<Rightarrow> (bool \<times> pb_istream_t \<times> u64) option" where
  "pb_decode_svarint env s = do {
     (ok, s, value) \<leftarrow> pb_decode_varint env s;
     if \<not> ok then Some (False, s, 0) else Some (True, s, unzigzag value)
   }"

text \<open>The destination variable is written only on success.\<close>

definition pb_decode_fixed32 ::
  "pb_env \<Rightarrow> pb_istream_t \<times> cmem \<Rightarrow> addr \<Rightarrow> (bool \<times> pb_istream_t \<times> cmem) option" where
  "pb_decode_fixed32 env sm dest = do {
     let (s, m) = sm;
     (ok, s, bs) \<leftarrow> pb_read env s True 4;
     if \<not> ok then Some (False, s, m)
     else if length bs < 4 then None
     else do {
       let w = (ucast (bs ! 0) OR push_bit 8 (ucast (bs ! 1)) OR push_bit 16 (ucast (bs ! 2)) OR
                push_bit 24 (ucast (bs ! 3)) :: u32);
       m \<leftarrow> store_word m dest 4 w;
       Some (True, s, m)
     }
   }"

definition pb_decode_fixed64 ::
  "pb_env \<Rightarrow> pb_istream_t \<times> cmem \<Rightarrow> addr \<Rightarrow> (bool \<times> pb_istream_t \<times> cmem) option" where
  "pb_decode_fixed64 env sm dest = do {
     let (s, m) = sm;
     (ok, s, bs) \<leftarrow> pb_read env s True 8;
     if \<not> ok then Some (False, s, m)
     else if length bs < 8 then None
     else do {
       let w = (ucast (bs ! 0) OR push_bit 8 (ucast (bs ! 1)) OR push_bit 16 (ucast (bs ! 2)) OR
                push_bit 24 (ucast (bs ! 3)) OR push_bit 32 (ucast (bs ! 4)) OR
                push_bit 40 (ucast (bs ! 5)) OR push_bit 48 (ucast (bs ! 6)) OR
                push_bit 56 (ucast (bs ! 7)) :: u64);
       m \<leftarrow> store_word m dest 8 w;
       Some (True, s, m)
     }
   }"

end
