(* ===== verification/PbMem.thy ===== *)
theory PbMem
  imports PbIn
begin

text \<open>
  nanopb, \<^verbatim>\<open>ios/Pods/nanopb/pb_decode.c\<close>, what the decoder does to memory apart from storing values:
  the heap (\<open>allocate_field\<close> over \<open>realloc\<close> and \<open>free\<close>), setting a message to its defaults, and
  releasing a message.  Recursion into submessages takes fuel, as in the encoder.
\<close>

section \<open>The C heap\<close>

definition alloc_block :: "pb_env \<Rightarrow> cmem \<Rightarrow> addr \<Rightarrow> nat \<Rightarrow> cmem" where
  "alloc_block env m a n = m\<lparr>
     cbytes := (\<lambda>x. if a \<le> x \<and> x < a + n then Some (fill env x) else cbytes m x),
     cblocks := (cblocks m)(a \<mapsto> n)\<rparr>"

definition free_block :: "cmem \<Rightarrow> addr \<Rightarrow> nat \<Rightarrow> cmem" where
  "free_block m a n = m\<lparr>
     cbytes := (\<lambda>x. if a \<le> x \<and> x < a + n then None else cbytes m x),
     cblocks := (cblocks m)(a := None)\<rparr>"

text \<open>\<open>free\<close>: freeing what is not the start of a live block is undefined behaviour.\<close>

definition pb_free :: "cmem \<Rightarrow> addr \<Rightarrow> cmem option" where
  "pb_free m p = (if p = 0 then Some m else do { n \<leftarrow> cblocks m p; Some (free_block m p n) })"

text \<open>\<open>realloc\<close>: NULL leaves the old block alone; otherwise the common prefix moves.\<close>

definition pb_realloc :: "pb_env \<Rightarrow> cmem \<Rightarrow> addr \<Rightarrow> nat \<Rightarrow> (addr \<times> cmem) option" where
  "pb_realloc env m p n =
     (if p = 0 then
        (case pick env m n of None \<Rightarrow> Some (0, m) | Some a \<Rightarrow> Some (a, alloc_block env m a n))
      else do {
        old \<leftarrow> cblocks m p;
        bs \<leftarrow> load_bytes m p (min old n);
        let m' = free_block m p old;
        case pick env m' n of
          None \<Rightarrow> Some (0, m)
        | Some a \<Rightarrow> do { m'' \<leftarrow> store_bytes (alloc_block env m' a n) a bs; Some (a, m'') }
      })"

text \<open>What the code relies on from malloc: a fresh region that is not at NULL and fits the address space.\<close>

definition pick_ok :: "pb_env \<Rightarrow> bool" where
  "pick_ok env \<longleftrightarrow> (\<forall>m n a. pick env m n = Some a \<longrightarrow>
     a \<noteq> 0 \<and> a + n < 2 ^ 64 \<and> cblocks m a = None \<and> {a..<a + n} \<inter> dom (cbytes m) = {})"

text \<open>The overflow test of \<open>allocate_field\<close>: true when it reports \<open>size too large\<close>.\<close>

definition size_overflows :: "u64 \<Rightarrow> u64 \<Rightarrow> bool" where
  "size_overflows data_size array_size \<longleftrightarrow>
     (let check_limit = push_bit 32 (1 :: u64) in
      (data_size \<ge> check_limit \<or> array_size \<ge> check_limit) \<and> (- 1) div array_size < data_size)"

definition allocate_field ::
  "pb_env \<Rightarrow> pb_istream_t \<times> cmem \<Rightarrow> addr \<Rightarrow> u64 \<Rightarrow> u64 \<Rightarrow> (bool \<times> pb_istream_t \<times> cmem) option" where
  "allocate_field env sm pData data_size array_size = do {
     let (s, m) = sm;
     ptr \<leftarrow> load_ptr m pData;
     if data_size = 0 \<or> array_size = 0 then is_fail s ''invalid size'' m
     else if size_overflows data_size array_size then is_fail s ''size too large'' m
     else do {
       (ptr, m) \<leftarrow> pb_realloc env m ptr (unat (array_size * data_size));
       if ptr = 0 then is_fail s ''realloc failed'' m
       else do { m \<leftarrow> store_ptr m pData ptr; Some (True, s, m) }
     }
   }"

section \<open>The count, has or which member\<close>

definition read_psize :: "cmem \<Rightarrow> pb_field_iter_t \<Rightarrow> u32 option" where
  "read_psize m it = (case it_pSize it of SizeAt a \<Rightarrow> load_word m a 4 | SizeLocal \<Rightarrow> Some (it_local it))"

definition write_psize ::
  "cmem \<Rightarrow> pb_field_iter_t \<Rightarrow> u32 \<Rightarrow> (cmem \<times> pb_field_iter_t) option" where
  "write_psize m it w =
     (case it_pSize it of
        SizeAt a \<Rightarrow> map_option (\<lambda>m. (m, it)) (store_word m a 4 w)
      | SizeLocal \<Rightarrow> Some (m, it\<lparr>it_local := w\<rparr>))"

text \<open>A \<open>bool\<close> written through \<open>pSize\<close>; the local counter is never used so.\<close>

definition write_phas :: "cmem \<Rightarrow> pb_field_iter_t \<Rightarrow> bool \<Rightarrow> cmem option" where
  "write_phas m it b =
     (case it_pSize it of
        SizeAt a \<Rightarrow> store_word m a 1 (if b then 1 else 0 :: byte)
      | SizeLocal \<Rightarrow> None)"

definition memset_zero :: "cmem \<Rightarrow> addr \<Rightarrow> u32 \<Rightarrow> cmem option" where
  "memset_zero m p n = store_bytes m p (replicate (unat n) 0)"

section \<open>Extensions\<close>

text \<open>A fake iterator for one extension: \<open>dest\<close> at offset 8, \<open>found\<close> at offset 24.\<close>

definition iter_from_extension :: "pb_env \<Rightarrow> cmem \<Rightarrow> addr \<Rightarrow> pb_field_iter_t option" where
  "iter_from_extension env m extension = do {
     type \<leftarrow> load_ptr m extension;
     et \<leftarrow> ext_types env type;
     dest \<leftarrow> load_ptr m (extension + 8);
     (_, it) \<leftarrow> pb_field_iter_begin [et_arg et] dest 0;
     let it = it\<lparr>it_pData := dest, it_pSize := SizeAt (extension + 24)\<rparr>;
     Some (if PB_ATYPE (fld_type (et_arg et)) = PB_ATYPE_POINTER
           then it\<lparr>it_pData := extension + 8\<rparr> else it)
   }"

definition find_extension_field :: "pb_field_iter_t \<Rightarrow> (bool \<times> pb_field_iter_t) option" where
  "find_extension_field it =
     find_loop (length (it_start it)) (\<lambda>f. PB_LTYPE (fld_type f) = PB_LTYPE_EXTENSION) (it_pos it) it"

section \<open>Default values\<close>

text \<open>Walk an extension list, doing \<open>step\<close> to each; \<open>next\<close> is at offset 16.\<close>

fun extension_list_loop :: "nat \<Rightarrow> (cmem \<Rightarrow> addr \<Rightarrow> cmem option) \<Rightarrow> cmem \<Rightarrow> addr \<Rightarrow> cmem option" where
  "extension_list_loop 0 step m ext = None"
| "extension_list_loop (Suc k) step m ext =
     (if ext = 0 then Some m
      else do { m \<leftarrow> step m ext; next_ext \<leftarrow> load_ptr m (ext + 16);
                extension_list_loop k step m next_ext })"

text \<open>Walk the fields of a message, doing \<open>step\<close> at each position of the iterator.\<close>

fun message_loop ::
  "nat \<Rightarrow> (cmem \<Rightarrow> pb_field_iter_t \<Rightarrow> cmem option) \<Rightarrow> cmem \<Rightarrow> pb_field_iter_t \<Rightarrow> cmem option" where
  "message_loop 0 step m it = None"
| "message_loop (Suc k) step m it = do {
     m \<leftarrow> step m it;
     (more, it) \<leftarrow> pb_field_iter_next it;
     if more then message_loop k step m it else Some m
   }"

text \<open>\<open>pb_message_set_to_defaults\<close> and \<open>pb_release\<close> after their NULL test have this shape.\<close>

definition for_each_field ::
  "(cmem \<Rightarrow> pb_field_iter_t \<Rightarrow> cmem option) \<Rightarrow> cmem \<Rightarrow> pb_field_t list \<Rightarrow> addr \<Rightarrow> cmem option" where
  "for_each_field step m fs dest_struct = do {
     (nonempty, it) \<leftarrow> pb_field_iter_begin fs dest_struct 0;
     if \<not> nonempty then Some m else message_loop (length fs) step m it
   }"

text \<open>The initial contents of a static field that is not repeated or in a oneof.\<close>

definition init_static_data ::
  "pb_env \<Rightarrow> (cmem \<Rightarrow> pb_field_iter_t \<Rightarrow> cmem option) \<Rightarrow> cmem \<Rightarrow> pb_field_t \<Rightarrow> addr \<Rightarrow> cmem option" where
  "init_static_data env step m f pData =
     (if PB_LTYPE (fld_type f) = PB_LTYPE_SUBMESSAGE then
        (case fld_ptr f of
           PtrFields d \<Rightarrow> for_each_field step m (descs env d) pData
         | _ \<Rightarrow> None)
      else case fld_ptr f of
        PtrNull \<Rightarrow> memset_zero m pData (fld_data_size f)
      | PtrDefault bs \<Rightarrow>
          if length bs < unat (fld_data_size f) then None
          else store_bytes m pData (take (unat (fld_data_size f)) bs)
      | PtrFields _ \<Rightarrow> None)"

definition set_default_body ::
  "pb_env \<Rightarrow> nat \<Rightarrow> (cmem \<Rightarrow> pb_field_iter_t \<Rightarrow> cmem option) \<Rightarrow> cmem \<Rightarrow> pb_field_iter_t \<Rightarrow> cmem option" where
  "set_default_body env n step m it = do {
     f \<leftarrow> cur_field it;
     let type = fld_type f;
     if PB_LTYPE type = PB_LTYPE_EXTENSION then do {
       ext \<leftarrow> load_ptr m (it_pData it);
       extension_list_loop (Suc n) (\<lambda>m ext. do {
         m \<leftarrow> store_word m (ext + 24) 1 (0 :: byte);
         ext_iter \<leftarrow> iter_from_extension env m ext;
         step m ext_iter }) m ext
     }
     else if PB_ATYPE type = PB_ATYPE_STATIC then
       if PB_HTYPE type = PB_HTYPE_OPTIONAL \<and> it_pSize it \<noteq> SizeAt (it_pData it) then do {
         m \<leftarrow> write_phas m it False;
         init_static_data env step m f (it_pData it)
       }
       else if PB_HTYPE type = PB_HTYPE_REPEATED \<or> PB_HTYPE type = PB_HTYPE_ONEOF then
         map_option fst (write_psize m it 0)
       else init_static_data env step m f (it_pData it)
     else if PB_ATYPE type = PB_ATYPE_POINTER then do {
       m \<leftarrow> store_ptr m (it_pData it) 0;
       if PB_HTYPE type = PB_HTYPE_REPEATED \<or> PB_HTYPE type = PB_HTYPE_ONEOF
       then map_option fst (write_psize m it 0) else Some m
     }
     else Some m
   }"

fun pb_field_set_to_default ::
  "pb_env \<Rightarrow> nat \<Rightarrow> cmem \<Rightarrow> pb_field_iter_t \<Rightarrow> cmem option" where
  "pb_field_set_to_default env 0 m it = None"
| "pb_field_set_to_default env (Suc n) m it =
     set_default_body env n (pb_field_set_to_default env n) m it"

definition pb_message_set_to_defaults ::
  "pb_env \<Rightarrow> nat \<Rightarrow> cmem \<Rightarrow> pb_field_t list \<Rightarrow> addr \<Rightarrow> cmem option" where
  "pb_message_set_to_defaults env n m fs dest_struct =
     for_each_field (pb_field_set_to_default env n) m fs dest_struct"

section \<open>Releasing a message\<close>

text \<open>\<open>for (; count > 0; count--) pb_release(\<dots>, pItem)\<close>, \<open>pItem\<close> moving by \<open>sz\<close>.\<close>

fun release_items ::
  "nat \<Rightarrow> (cmem \<Rightarrow> addr \<Rightarrow> cmem option) \<Rightarrow> nat \<Rightarrow> cmem \<Rightarrow> addr \<Rightarrow> cmem option" where
  "release_items 0 rel sz m pItem = Some m"
| "release_items (Suc k) rel sz m pItem =
     do { m \<leftarrow> rel m pItem; release_items k rel sz m (pItem + sz) }"

text \<open>\<open>pb_free( *pItem); *pItem++ = NULL\<close> for each entry of an array of pointers.\<close>

fun free_entries :: "nat \<Rightarrow> cmem \<Rightarrow> addr \<Rightarrow> cmem option" where
  "free_entries 0 m pItem = Some m"
| "free_entries (Suc k) m pItem = do {
     p \<leftarrow> load_ptr m pItem;
     m \<leftarrow> pb_free m p;
     m \<leftarrow> store_ptr m pItem 0;
     free_entries k m (pItem + 8)
   }"

text \<open>\<open>pb_release\<close>, given the release of one field.\<close>

definition pb_release_with ::
  "(cmem \<Rightarrow> pb_field_iter_t \<Rightarrow> cmem option) \<Rightarrow> cmem \<Rightarrow> pb_field_t list \<Rightarrow> addr \<Rightarrow> cmem option" where
  "pb_release_with step m fs dest_struct =
     (if dest_struct = 0 then Some m else for_each_field step m fs dest_struct)"

definition release_submessages ::
  "pb_env \<Rightarrow> (cmem \<Rightarrow> pb_field_iter_t \<Rightarrow> cmem option) \<Rightarrow> cmem \<Rightarrow> pb_field_t \<Rightarrow> pb_field_iter_t \<Rightarrow>
     cmem option" where
  "release_submessages env step m f it = do {
     let type = fld_type f;
     pItem \<leftarrow> (if PB_ATYPE type = PB_ATYPE_POINTER then load_ptr m (it_pData it)
               else Some (it_pData it));
     count \<leftarrow> (if PB_HTYPE type = PB_HTYPE_REPEATED then do {
                 count \<leftarrow> (if PB_ATYPE type = PB_ATYPE_STATIC \<and> it_pSize it = SizeAt (it_pData it)
                           then Some (fld_array_size f) else read_psize m it);
                 Some (if PB_ATYPE type = PB_ATYPE_STATIC \<and> count > fld_array_size f
                       then fld_array_size f else count)
               } else Some 1);
     if pItem \<noteq> 0 then
       (case fld_ptr f of
          PtrFields d \<Rightarrow> release_items (unat count) (\<lambda>m p. pb_release_with step m (descs env d) p)
                           (unat (fld_data_size f)) m pItem
        | _ \<Rightarrow> if count = 0 then Some m else None)
     else Some m
   }"

definition release_pointer :: "cmem \<Rightarrow> pb_field_t \<Rightarrow> pb_field_iter_t \<Rightarrow> cmem option" where
  "release_pointer m f it = do {
     let type = fld_type f;
     m \<leftarrow> (if PB_HTYPE type = PB_HTYPE_REPEATED \<and>
               (PB_LTYPE type = PB_LTYPE_STRING \<or> PB_LTYPE type = PB_LTYPE_BYTES)
            then do {
              pItem \<leftarrow> load_ptr m (it_pData it);
              count \<leftarrow> read_psize m it;
              free_entries (unat count) m pItem
            } else Some m);
     m \<leftarrow> (if PB_HTYPE type = PB_HTYPE_REPEATED then map_option fst (write_psize m it 0)
           else Some m);
     p \<leftarrow> load_ptr m (it_pData it);
     m \<leftarrow> pb_free m p;
     store_ptr m (it_pData it) 0
   }"

definition release_body ::
  "pb_env \<Rightarrow> nat \<Rightarrow> (cmem \<Rightarrow> pb_field_iter_t \<Rightarrow> cmem option) \<Rightarrow> cmem \<Rightarrow> pb_field_iter_t \<Rightarrow> cmem option" where
  "release_body env n step m it = do {
     f \<leftarrow> cur_field it;
     let type = fld_type f;
     current \<leftarrow> (if PB_HTYPE type = PB_HTYPE_ONEOF
                 then map_option (\<lambda>w. w = fld_tag f) (read_psize m it) else Some True);
     if \<not> current then Some m
     else do {
       m \<leftarrow> (if PB_LTYPE type = PB_LTYPE_EXTENSION then do {
                ext \<leftarrow> load_ptr m (it_pData it);
                extension_list_loop (Suc n) (\<lambda>m ext. do {
                  ext_iter \<leftarrow> iter_from_extension env m ext;
                  step m ext_iter }) m ext
              }
              else if PB_LTYPE type = PB_LTYPE_SUBMESSAGE \<and> PB_ATYPE type \<noteq> PB_ATYPE_CALLBACK
              then release_submessages env step m f it
              else Some m);
       if PB_ATYPE type = PB_ATYPE_POINTER then release_pointer m f it else Some m
     }
   }"

fun pb_release_single_field ::
  "pb_env \<Rightarrow> nat \<Rightarrow> cmem \<Rightarrow> pb_field_iter_t \<Rightarrow> cmem option" where
  "pb_release_single_field env 0 m it = None"
| "pb_release_single_field env (Suc n) m it =
     release_body env n (pb_release_single_field env n) m it"

definition pb_release ::
  "pb_env \<Rightarrow> nat \<Rightarrow> cmem \<Rightarrow> pb_field_t list \<Rightarrow> addr \<Rightarrow> cmem option" where
  "pb_release env n m fs dest_struct =
     pb_release_with (pb_release_single_field env n) m fs dest_struct"

text \<open>
  \<open>pb_release_union_field\<close>: before a member of a oneof is decoded, free what another member holds.
\<close>

definition pb_release_union_field ::
  "pb_env \<Rightarrow> nat \<Rightarrow> pb_istream_t \<times> cmem \<times> pb_field_iter_t \<Rightarrow>
     (bool \<times> pb_istream_t \<times> cmem \<times> pb_field_iter_t) option" where
  "pb_release_union_field env n st = do {
     let (s, m, it) = st;
     f \<leftarrow> cur_field it;
     old_tag \<leftarrow> read_psize m it;
     let new_tag = fld_tag f;
     if old_tag = 0 then Some (True, s, m, it)
     else if old_tag = new_tag then Some (True, s, m, it)
     else do {
       (found, it) \<leftarrow> pb_field_iter_find it old_tag;
       if \<not> found then is_fail s ''invalid union tag'' (m, it)
       else do {
         m \<leftarrow> pb_release_single_field env n m it;
         (found, it) \<leftarrow> pb_field_iter_find it new_tag;
         if \<not> found then is_fail s ''iterator error'' (m, it)
         else do {
           f \<leftarrow> cur_field it;
           m \<leftarrow> (if PB_ATYPE (fld_type f) = PB_ATYPE_POINTER then store_ptr m (it_pData it) 0
                 else Some m);
           Some (True, s, m, it)
         }
       }
     }
   }"

end
