(* ===== verification/PbDecode.thy ===== *)
theory PbDecode
  imports PbMem
begin

text \<open>
  nanopb, \<^verbatim>\<open>ios/Pods/nanopb/pb_decode.c\<close>: decoding of fields and messages.  As in the encoder, the
  functions take the decoder of nested messages, \<open>rec\<close>, as an argument, and \<open>pb_decode_noinit\<close>
  ties the knot with fuel for the nesting depth.  The state of a decoder is the stream with the
  memory; where the source passes the iterator on, the iterator too.
\<close>

type_synonym dec_state = "pb_istream_t \<times> cmem"
type_synonym field_state = "pb_istream_t \<times> cmem \<times> pb_field_iter_t"
type_synonym pb_decoder_t = "dec_state \<Rightarrow> pb_field_t \<Rightarrow> addr \<Rightarrow> (bool \<times> dec_state) option"
type_synonym message_decoder = "dec_state \<Rightarrow> pb_field_t list \<Rightarrow> addr \<Rightarrow> (bool \<times> dec_state) option"

section \<open>Field decoders\<close>

definition pb_dec_bool :: "pb_env \<Rightarrow> pb_decoder_t" where
  "pb_dec_bool env sm f dest = do {
     let (s, m) = sm;
     (ok, s, value) \<leftarrow> pb_decode_varint32 env s;
     if \<not> ok then Some (False, s, m)
     else do { m \<leftarrow> store_word m dest 1 (if value \<noteq> 0 then 1 else 0 :: byte); Some (True, s, m) }
   }"

text \<open>
  Storing \<open>svalue\<close> in an integer member of the given size and reading it back with the sign;
  \<^term>\<open>None\<close> inside is the branch for other sizes.
\<close>

definition clamp_signed :: "u32 \<Rightarrow> u64 \<Rightarrow> u64 option" where
  "clamp_signed data_size svalue =
     (if data_size = 8 then Some svalue
      else if data_size = 4 then Some (scast (ucast svalue :: u32))
      else if data_size = 2 then Some (scast (ucast svalue :: u16))
      else if data_size = 1 then Some (scast (ucast svalue :: byte))
      else None)"

definition clamp_unsigned :: "u32 \<Rightarrow> u64 \<Rightarrow> u64 option" where
  "clamp_unsigned data_size value =
     (if data_size = 8 then Some value
      else if data_size = 4 then Some (ucast (ucast value :: u32))
      else if data_size = 2 then Some (ucast (ucast value :: u16))
      else if data_size = 1 then Some (ucast (ucast value :: byte))
      else None)"

definition store_clamped ::
  "pb_istream_t \<Rightarrow> cmem \<Rightarrow> pb_field_t \<Rightarrow> addr \<Rightarrow> u64 \<Rightarrow> u64 option \<Rightarrow> (bool \<times> dec_state) option" where
  "store_clamped s m f dest value clamped =
     (case clamped of
        None \<Rightarrow> is_fail s ''invalid data_size'' m
      | Some c \<Rightarrow> do {
          m \<leftarrow> store_word m dest (unat (fld_data_size f)) value;
          if c \<noteq> value then is_fail s ''integer too large'' m else Some (True, s, m)
        })"

definition pb_dec_varint :: "pb_env \<Rightarrow> pb_decoder_t" where
  "pb_dec_varint env sm f dest = do {
     let (s, m) = sm;
     (ok, s, value) \<leftarrow> pb_decode_varint env s;
     if \<not> ok then Some (False, s, m)
     else
       let svalue = (if fld_data_size f = 8 then value else scast (ucast value :: u32)) in
       store_clamped s m f dest svalue (clamp_signed (fld_data_size f) svalue)
   }"

definition pb_dec_uvarint :: "pb_env \<Rightarrow> pb_decoder_t" where
  "pb_dec_uvarint env sm f dest = do {
     let (s, m) = sm;
     (ok, s, value) \<leftarrow> pb_decode_varint env s;
     if \<not> ok then Some (False, s, m)
     else store_clamped s m f dest value (clamp_unsigned (fld_data_size f) value)
   }"

definition pb_dec_svarint :: "pb_env \<Rightarrow> pb_decoder_t" where
  "pb_dec_svarint env sm f dest = do {
     let (s, m) = sm;
     (ok, s, value) \<leftarrow> pb_decode_svarint env s;
     if \<not> ok then Some (False, s, m)
     else store_clamped s m f dest value (clamp_signed (fld_data_size f) value)
   }"

definition pb_dec_fixed32 :: "pb_env \<Rightarrow> pb_decoder_t" where
  "pb_dec_fixed32 env sm f dest = pb_decode_fixed32 env sm dest"

definition pb_dec_fixed64 :: "pb_env \<Rightarrow> pb_decoder_t" where
  "pb_dec_fixed64 env sm f dest = pb_decode_fixed64 env sm dest"

text \<open>\<open>PB_BYTES_ARRAY_T_ALLOCSIZE\<close>: \<open>pb_bytes_array_t\<close> has its bytes at offset 4.\<close>

definition bytes_allocsize :: "u32 \<Rightarrow> u64" where
  "bytes_allocsize n = ucast n + 4"

text \<open>Reading \<open>sz\<close> bytes straight into memory: what a failing callback delivered stays there.\<close>

definition read_into ::
  "pb_env \<Rightarrow> pb_istream_t \<Rightarrow> cmem \<Rightarrow> addr \<Rightarrow> u64 \<Rightarrow> (bool \<times> dec_state) option" where
  "read_into env s m dest sz = do {
     (ok, s, bs) \<leftarrow> pb_read env s True sz;
     m \<leftarrow> store_bytes m dest bs;
     Some (ok, s, m)
   }"

definition pb_dec_bytes :: "pb_env \<Rightarrow> pb_decoder_t" where
  "pb_dec_bytes env sm f dest = do {
     let (s, m) = sm;
     (ok, s, sz) \<leftarrow> pb_decode_varint32 env s;
     if \<not> ok then Some (False, s, m)
     else if sz > PB_SIZE_MAX then is_fail s ''bytes overflow'' m
     else
       let alloc_size = bytes_allocsize sz in
       if ucast sz > alloc_size then is_fail s ''size too large'' m
       else if PB_ATYPE (fld_type f) = PB_ATYPE_POINTER then
         if is_bytes_left s < ucast sz then is_fail s ''end-of-stream'' m
         else and_then (allocate_field env (s, m) dest alloc_size 1) (\<lambda>(s, m). do {
           bdest \<leftarrow> load_ptr m dest;
           m \<leftarrow> store_word m bdest 4 sz;
           read_into env s m (bdest + 4) (ucast sz)
         })
       else if alloc_size > ucast (fld_data_size f) then is_fail s ''bytes overflow'' m
       else do {
         m \<leftarrow> store_word m dest 4 sz;
         read_into env s m (dest + 4) (ucast sz)
       }
   }"

text \<open>
  \<open>alloc_size = size + 1\<close> is computed in 32 bits before it is widened to \<open>size_t\<close>, so the
  overflow test sees the wrap-around.  The terminator is written even after a failed read.
\<close>

definition read_string_into ::
  "pb_env \<Rightarrow> pb_istream_t \<Rightarrow> cmem \<Rightarrow> addr \<Rightarrow> u32 \<Rightarrow> (bool \<times> dec_state) option" where
  "read_string_into env s m dest sz = do {
     (status, s, m) \<leftarrow> read_into env s m dest (ucast sz);
     m \<leftarrow> store_word m (dest + unat sz) 1 (0 :: byte);
     Some (status, s, m)
   }"

definition pb_dec_string :: "pb_env \<Rightarrow> pb_decoder_t" where
  "pb_dec_string env sm f dest = do {
     let (s, m) = sm;
     (ok, s, sz) \<leftarrow> pb_decode_varint32 env s;
     if \<not> ok then Some (False, s, m)
     else
       let alloc_size = ucast (sz + 1) :: u64 in
       if alloc_size < ucast sz then is_fail s ''size too large'' m
       else if PB_ATYPE (fld_type f) = PB_ATYPE_POINTER then
         if is_bytes_left s < ucast sz then is_fail s ''end-of-stream'' m
         else and_then (allocate_field env (s, m) dest alloc_size 1) (\<lambda>(s, m). do {
           dest \<leftarrow> load_ptr m dest;
           read_string_into env s m dest sz
         })
       else if alloc_size > ucast (fld_data_size f) then is_fail s ''string overflow'' m
       else read_string_into env s m dest sz
   }"

definition pb_dec_fixed_length_bytes :: "pb_env \<Rightarrow> pb_decoder_t" where
  "pb_dec_fixed_length_bytes env sm f dest = do {
     let (s, m) = sm;
     (ok, s, sz) \<leftarrow> pb_decode_varint32 env s;
     if \<not> ok then Some (False, s, m)
     else if sz > PB_SIZE_MAX then is_fail s ''bytes overflow'' m
     else if sz = 0 then do { m \<leftarrow> memset_zero m dest (fld_data_size f); Some (True, s, m) }
     else if sz \<noteq> fld_data_size f then is_fail s ''incorrect fixed length bytes size'' m
     else read_into env s m dest (ucast (fld_data_size f))
   }"

text \<open>\<open>pb_decode\<close> over a given \<open>pb_decode_noinit\<close>.\<close>

definition pb_decode_with :: "pb_env \<Rightarrow> nat \<Rightarrow> message_decoder \<Rightarrow> message_decoder" where
  "pb_decode_with env n rec sm fs dest_struct = do {
     let (s, m) = sm;
     m \<leftarrow> pb_message_set_to_defaults env n m fs dest_struct;
     (status, s, m) \<leftarrow> rec (s, m) fs dest_struct;
     if \<not> status then do { m \<leftarrow> pb_release env n m fs dest_struct; Some (status, s, m) }
     else Some (status, s, m)
   }"

definition pb_dec_submessage :: "pb_env \<Rightarrow> nat \<Rightarrow> message_decoder \<Rightarrow> pb_decoder_t" where
  "pb_dec_submessage env n rec sm f dest = do {
     let (s, m) = sm;
     (ok, s, substream) \<leftarrow> pb_make_string_substream env s;
     if \<not> ok then Some (False, s, m)
     else case fld_ptr f of
       PtrNull \<Rightarrow> is_fail s ''invalid field descriptor'' m
     | PtrDefault _ \<Rightarrow> None
     | PtrFields d \<Rightarrow> do {
         (status, substream, m) \<leftarrow>
           (if PB_HTYPE (fld_type f) = PB_HTYPE_REPEATED
            then pb_decode_with env n rec (substream, m) (descs env d) dest
            else rec (substream, m) (descs env d) dest);
         (ok, s) \<leftarrow> pb_close_string_substream env s substream;
         if \<not> ok then Some (False, s, m) else Some (status, s, m)
       }
   }"

definition PB_DECODERS :: "pb_env \<Rightarrow> nat \<Rightarrow> message_decoder \<Rightarrow> byte \<Rightarrow> pb_decoder_t option" where
  "PB_DECODERS env n rec lt =
     (if lt = PB_LTYPE_BOOL then Some (pb_dec_bool env)
      else if lt = PB_LTYPE_VARINT then Some (pb_dec_varint env)
      else if lt = PB_LTYPE_UVARINT then Some (pb_dec_uvarint env)
      else if lt = PB_LTYPE_SVARINT then Some (pb_dec_svarint env)
      else if lt = PB_LTYPE_FIXED32 then Some (pb_dec_fixed32 env)
      else if lt = PB_LTYPE_FIXED64 then Some (pb_dec_fixed64 env)
      else if lt = PB_LTYPE_BYTES then Some (pb_dec_bytes env)
      else if lt = PB_LTYPE_STRING then Some (pb_dec_string env)
      else if lt = PB_LTYPE_SUBMESSAGE then Some (pb_dec_submessage env n rec)
      else if lt = PB_LTYPE_EXTENSION then Some (\<lambda>_ _ _. None)
      else if lt = PB_LTYPE_FIXED_LENGTH_BYTES then Some (pb_dec_fixed_length_bytes env)
      else None)"

section \<open>Static fields\<close>

text \<open>Run a field decoder and keep the iterator.\<close>

definition run_decoder ::
  "pb_decoder_t \<Rightarrow> field_state \<Rightarrow> pb_field_t \<Rightarrow> addr \<Rightarrow> (bool \<times> field_state) option" where
  "run_decoder func st f dest = do {
     let (s, m, it) = st;
     (ok, s, m) \<leftarrow> func (s, m) f dest;
     Some (ok, s, m, it)
   }"

text \<open>
  The address of array entry \<open>i\<close>: the product \<open>data_size * ( *size)\<close> has type \<open>pb_size_t\<close>.
\<close>

definition item_addr :: "addr \<Rightarrow> pb_field_t \<Rightarrow> u32 \<Rightarrow> addr" where
  "item_addr base f i = base + unat (fld_data_size f * i)"

text \<open>
  The loop over a packed array, on the substream.  The counter bounds the rounds: every entry takes
  at least one byte.
\<close>

fun static_packed_loop ::
  "nat \<Rightarrow> pb_decoder_t \<Rightarrow> pb_field_t \<Rightarrow> field_state \<Rightarrow> (bool \<times> field_state) option" where
  "static_packed_loop 0 func f st = None"
| "static_packed_loop (Suc k) func f (substream, m, it) = do {
     sz \<leftarrow> (if is_bytes_left substream > 0 then read_psize m it else Some 0);
     if is_bytes_left substream > 0 \<and> sz < fld_array_size f then do {
       (ok, substream, m) \<leftarrow> func (substream, m) f (item_addr (it_pData it) f sz);
       if \<not> ok then Some (False, substream, m, it)
       else do {
         sz \<leftarrow> read_psize m it;
         (m, it) \<leftarrow> write_psize m it (sz + 1);
         static_packed_loop k func f (substream, m, it)
       }
     }
     else Some (True, substream, m, it)
   }"

definition decode_static_field ::
  "pb_env \<Rightarrow> nat \<Rightarrow> message_decoder \<Rightarrow> pb_wire_type_t \<Rightarrow> field_state \<Rightarrow> (bool \<times> field_state) option" where
  "decode_static_field env n rec wire_type st = do {
     let (s, m, it) = st;
     f \<leftarrow> cur_field it;
     let type = fld_type f;
     func \<leftarrow> PB_DECODERS env n rec (PB_LTYPE type);
     if PB_HTYPE type = PB_HTYPE_REQUIRED then run_decoder func (s, m, it) f (it_pData it)
     else if PB_HTYPE type = PB_HTYPE_OPTIONAL then do {
       m \<leftarrow> (if it_pSize it \<noteq> SizeAt (it_pData it) then write_phas m it True else Some m);
       run_decoder func (s, m, it) f (it_pData it)
     }
     else if PB_HTYPE type = PB_HTYPE_REPEATED then
       if wire_type = PB_WT_STRING \<and> PB_LTYPE type \<le> PB_LTYPE_LAST_PACKABLE then do {
         (ok, s, substream) \<leftarrow> pb_make_string_substream env s;
         if \<not> ok then Some (False, s, m, it)
         else do {
           (status, substream, m, it) \<leftarrow>
             static_packed_loop (Suc (unat (is_bytes_left substream))) func f (substream, m, it);
           if is_bytes_left substream \<noteq> 0 then is_fail s ''array overflow'' (m, it)
           else do {
             (ok, s) \<leftarrow> pb_close_string_substream env s substream;
             if \<not> ok then Some (False, s, m, it) else Some (status, s, m, it)
           }
         }
       }
       else do {
         sz \<leftarrow> read_psize m it;
         let pItem = item_addr (it_pData it) f sz;
         (m, it) \<leftarrow> write_psize m it (sz + 1);
         if sz \<ge> fld_array_size f then is_fail s ''array overflow'' (m, it)
         else run_decoder func (s, m, it) f pItem
       }
     else if PB_HTYPE type = PB_HTYPE_ONEOF then do {
       m \<leftarrow> (if PB_LTYPE type = PB_LTYPE_SUBMESSAGE then do {
                which \<leftarrow> read_psize m it;
                if which \<noteq> fld_tag f then do {
                  m \<leftarrow> memset_zero m (it_pData it) (fld_data_size f);
                  case fld_ptr f of
                    PtrFields d \<Rightarrow> pb_message_set_to_defaults env n m (descs env d) (it_pData it)
                  | _ \<Rightarrow> None
                }
                else Some m
              } else Some m);
       (m, it) \<leftarrow> write_psize m it (fld_tag f);
       run_decoder func (s, m, it) f (it_pData it)
     }
     else is_fail s ''invalid field type'' (m, it)
   }"

section \<open>Dynamically allocated fields\<close>

definition initialize_pointer_field ::
  "pb_env \<Rightarrow> nat \<Rightarrow> cmem \<Rightarrow> addr \<Rightarrow> pb_field_t \<Rightarrow> cmem option" where
  "initialize_pointer_field env n m pItem f =
     (if PB_LTYPE (fld_type f) = PB_LTYPE_STRING \<or> PB_LTYPE (fld_type f) = PB_LTYPE_BYTES
      then store_ptr m pItem 0
      else if PB_LTYPE (fld_type f) = PB_LTYPE_SUBMESSAGE then do {
        m \<leftarrow> memset_zero m pItem (fld_data_size f);
        case fld_ptr f of
          PtrFields d \<Rightarrow> pb_message_set_to_defaults env n m (descs env d) pItem
        | _ \<Rightarrow> None
      }
      else Some m)"

text \<open>
  How many entries to have room for when the array is full: the guess \<open>remain\<close>, or one more.  The
  division by \<open>data_size\<close> is undefined for 0.
\<close>

definition grow_size :: "u64 \<Rightarrow> u32 \<Rightarrow> u64 \<Rightarrow> u64 option" where
  "grow_size bytes_left data_size allocated_size =
     (if data_size = 0 then None
      else
        let remain = (bytes_left - 1) div ucast data_size + 1 in
        Some (if remain < ucast PB_SIZE_MAX - allocated_size then allocated_size + remain
              else allocated_size + 1))"

text \<open>
  The loop over a packed array with allocation, on the substream; \<open>msg\<close> is the error the loop
  leaves in the parent stream.  The counter bounds the rounds as for static arrays.
\<close>

fun pointer_packed_loop ::
  "pb_env \<Rightarrow> nat \<Rightarrow> nat \<Rightarrow> pb_decoder_t \<Rightarrow> pb_field_t \<Rightarrow> u64 \<Rightarrow> field_state \<Rightarrow>
     (bool \<times> string option \<times> field_state) option" where
  "pointer_packed_loop env n 0 func f allocated_size st = None"
| "pointer_packed_loop env n (Suc k) func f allocated_size (substream, m, it) =
     (if is_bytes_left substream = 0 then Some (True, None, substream, m, it)
      else do {
        sz \<leftarrow> read_psize m it;
        if sz = PB_SIZE_MAX
        then Some (False, Some ''too many array entries'', substream, m, it)
        else do {
          (ok, allocated_size, substream, m) \<leftarrow>
            (if ucast sz + 1 > allocated_size then do {
               allocated_size \<leftarrow> grow_size (is_bytes_left substream) (fld_data_size f) allocated_size;
               (ok, substream, m) \<leftarrow>
                 allocate_field env (substream, m) (it_pData it) (ucast (fld_data_size f)) allocated_size;
               Some (ok, allocated_size, substream, m)
             } else Some (True, allocated_size, substream, m));
          if \<not> ok then Some (False, None, substream, m, it)
          else do {
            base \<leftarrow> load_ptr m (it_pData it);
            sz \<leftarrow> read_psize m it;
            let pItem = item_addr base f sz;
            if pItem = 0 then Some (False, None, substream, m, it)
            else do {
              m \<leftarrow> initialize_pointer_field env n m pItem f;
              (ok, substream, m) \<leftarrow> func (substream, m) f pItem;
              if \<not> ok then Some (False, None, substream, m, it)
              else do {
                sz \<leftarrow> read_psize m it;
                (m, it) \<leftarrow> write_psize m it (sz + 1);
                pointer_packed_loop env n k func f allocated_size (substream, m, it)
              }
            }
          }
        }
      })"

definition decode_pointer_single ::
  "pb_env \<Rightarrow> nat \<Rightarrow> pb_decoder_t \<Rightarrow> pb_field_t \<Rightarrow> field_state \<Rightarrow> (bool \<times> field_state) option" where
  "decode_pointer_single env n func f st = do {
     let (s, m, it) = st;
     let type = fld_type f;
     m \<leftarrow> (if PB_LTYPE type = PB_LTYPE_SUBMESSAGE then do {
              p \<leftarrow> load_ptr m (it_pData it);
              if p \<noteq> 0 then pb_release_single_field env n m it else Some m
            } else Some m);
     (m, it) \<leftarrow> (if PB_HTYPE type = PB_HTYPE_ONEOF then write_psize m it (fld_tag f)
                 else Some (m, it));
     if PB_LTYPE type = PB_LTYPE_STRING \<or> PB_LTYPE type = PB_LTYPE_BYTES
     then run_decoder func (s, m, it) f (it_pData it)
     else do {
       (ok, s, m) \<leftarrow> allocate_field env (s, m) (it_pData it) (ucast (fld_data_size f)) 1;
       if \<not> ok then Some (False, s, m, it)
       else do {
         p \<leftarrow> load_ptr m (it_pData it);
         m \<leftarrow> initialize_pointer_field env n m p f;
         run_decoder func (s, m, it) f p
       }
     }
   }"

definition decode_pointer_repeated ::
  "pb_env \<Rightarrow> nat \<Rightarrow> pb_decoder_t \<Rightarrow> pb_wire_type_t \<Rightarrow> pb_field_t \<Rightarrow> field_state \<Rightarrow>
     (bool \<times> field_state) option" where
  "decode_pointer_repeated env n func wire_type f st = do {
     let (s, m, it) = st;
     if wire_type = PB_WT_STRING \<and> PB_LTYPE (fld_type f) \<le> PB_LTYPE_LAST_PACKABLE then do {
       allocated_size \<leftarrow> read_psize m it;
       (ok, s, substream) \<leftarrow> pb_make_string_substream env s;
       if \<not> ok then Some (False, s, m, it)
       else do {
         (status, msg, substream, m, it) \<leftarrow>
           pointer_packed_loop env n (Suc (unat (is_bytes_left substream))) func f
             (ucast allocated_size) (substream, m, it);
         let s = (case msg of None \<Rightarrow> s | Some e \<Rightarrow> s\<lparr>is_errmsg := Some e\<rparr>);
         (ok, s) \<leftarrow> pb_close_string_substream env s substream;
         if \<not> ok then Some (False, s, m, it) else Some (status, s, m, it)
       }
     }
     else do {
       sz \<leftarrow> read_psize m it;
       if sz = PB_SIZE_MAX then is_fail s ''too many array entries'' (m, it)
       else do {
         (ok, s, m) \<leftarrow>
           allocate_field env (s, m) (it_pData it) (ucast (fld_data_size f)) (ucast (sz + 1));
         if \<not> ok then Some (False, s, m, it)
         else do {
           base \<leftarrow> load_ptr m (it_pData it);
           sz \<leftarrow> read_psize m it;
           let pItem = item_addr base f sz;
           (m, it) \<leftarrow> write_psize m it (sz + 1);
           m \<leftarrow> initialize_pointer_field env n m pItem f;
           run_decoder func (s, m, it) f pItem
         }
       }
     }
   }"

definition decode_pointer_field ::
  "pb_env \<Rightarrow> nat \<Rightarrow> message_decoder \<Rightarrow> pb_wire_type_t \<Rightarrow> field_state \<Rightarrow> (bool \<times> field_state) option" where
  "decode_pointer_field env n rec wire_type st = do {
     let (s, m, it) = st;
     f \<leftarrow> cur_field it;
     let type = fld_type f;
     func \<leftarrow> PB_DECODERS env n rec (PB_LTYPE type);
     if PB_HTYPE type = PB_HTYPE_REQUIRED \<or> PB_HTYPE type = PB_HTYPE_OPTIONAL \<or>
        PB_HTYPE type = PB_HTYPE_ONEOF
     then decode_pointer_single env n func f (s, m, it)
     else if PB_HTYPE type = PB_HTYPE_REPEATED
     then decode_pointer_repeated env n func wire_type f (s, m, it)
     else is_fail s ''invalid field type'' (m, it)
   }"

section \<open>Callback fields\<close>

text \<open>
  \<open>do \<dots> while (substream.bytes_left)\<close>: a callback that succeeds without reading runs forever,
  so this loop takes fuel.
\<close>

fun callback_loop ::
  "pb_env \<Rightarrow> addr \<Rightarrow> pb_field_t \<Rightarrow> addr \<Rightarrow> nat \<Rightarrow> dec_state \<Rightarrow> (bool \<times> dec_state) option" where
  "callback_loop env fn f arg 0 sm = None"
| "callback_loop env fn f arg (Suc k) sm = do {
     (ok, substream, m) \<leftarrow> dec_cb env fn f arg sm;
     if \<not> ok then Some (False, substream, m)
     else if is_bytes_left substream \<noteq> 0 then callback_loop env fn f arg k (substream, m)
     else Some (True, substream, m)
   }"

definition decode_callback_field ::
  "pb_env \<Rightarrow> nat \<Rightarrow> pb_wire_type_t \<Rightarrow> field_state \<Rightarrow> (bool \<times> field_state) option" where
  "decode_callback_field env n wire_type st = do {
     let (s, m, it) = st;
     f \<leftarrow> cur_field it;
     fn \<leftarrow> (if it_pData it = 0 then Some 0 else load_ptr m (it_pData it));
     let arg = it_pData it + 8;
     if fn = 0 then do { (ok, s) \<leftarrow> pb_skip_field env s wire_type; Some (ok, s, m, it) }
     else if wire_type = PB_WT_STRING then do {
       (ok, s, substream) \<leftarrow> pb_make_string_substream env s;
       if \<not> ok then Some (False, s, m, it)
       else do {
         (ok, substream, m) \<leftarrow> callback_loop env fn f arg (Suc n) (substream, m);
         if \<not> ok then is_fail s ''callback failed'' (m, it)
         else do { (ok, s) \<leftarrow> pb_close_string_substream env s substream; Some (ok, s, m, it) }
       }
     }
     else do {
       (ok, s, buffer) \<leftarrow> read_raw_value env s wire_type 10;
       if \<not> ok then Some (False, s, m, it)
       else do {
         (ok, _, m) \<leftarrow>
           dec_cb env fn f arg (pb_istream_from_buffer buffer (of_nat (length buffer)), m);
         Some (ok, s, m, it)
       }
     }
   }"

section \<open>Any field\<close>

definition decode_field ::
  "pb_env \<Rightarrow> nat \<Rightarrow> message_decoder \<Rightarrow> pb_wire_type_t \<Rightarrow> field_state \<Rightarrow> (bool \<times> field_state) option" where
  "decode_field env n rec wire_type st = do {
     let (s, m, it) = st;
     f \<leftarrow> cur_field it;
     and_then (if PB_HTYPE (fld_type f) = PB_HTYPE_ONEOF
               then pb_release_union_field env n (s, m, it) else Some (True, s, m, it))
       (\<lambda>(s, m, it). do {
         f \<leftarrow> cur_field it;
         if PB_ATYPE (fld_type f) = PB_ATYPE_STATIC
         then decode_static_field env n rec wire_type (s, m, it)
         else if PB_ATYPE (fld_type f) = PB_ATYPE_POINTER
         then decode_pointer_field env n rec wire_type (s, m, it)
         else if PB_ATYPE (fld_type f) = PB_ATYPE_CALLBACK
         then decode_callback_field env n wire_type (s, m, it)
         else is_fail s ''invalid field type'' (m, it)
       })
   }"

section \<open>Extensions\<close>

definition default_extension_decoder ::
  "pb_env \<Rightarrow> nat \<Rightarrow> message_decoder \<Rightarrow> pb_extension_type_t \<Rightarrow> addr \<Rightarrow> u32 \<Rightarrow> pb_wire_type_t \<Rightarrow>
     dec_state \<Rightarrow> (bool \<times> dec_state) option" where
  "default_extension_decoder env n rec et extension tag wire_type sm = do {
     let (s, m) = sm;
     if fld_tag (et_arg et) \<noteq> tag then Some (True, s, m)
     else do {
       it \<leftarrow> iter_from_extension env m extension;
       m \<leftarrow> store_word m (extension + 24) 1 (1 :: byte);
       (ok, s, m, _) \<leftarrow> decode_field env n rec wire_type (s, m, it);
       Some (ok, s, m)
     }
   }"

fun extension_decode_loop ::
  "pb_env \<Rightarrow> nat \<Rightarrow> message_decoder \<Rightarrow> nat \<Rightarrow> u32 \<Rightarrow> pb_wire_type_t \<Rightarrow> u64 \<Rightarrow> dec_state \<Rightarrow> addr \<Rightarrow>
     (bool \<times> dec_state) option" where
  "extension_decode_loop env n rec 0 tag wire_type pos sm extension = None"
| "extension_decode_loop env n rec (Suc k) tag wire_type pos (s, m) extension =
     (if extension = 0 \<or> pos \<noteq> is_bytes_left s then Some (True, s, m)
      else do {
        type \<leftarrow> load_ptr m extension;
        et \<leftarrow> ext_types env type;
        and_then
          (if et_decode et \<noteq> 0 then ext_dec_cb env (et_decode et) extension tag wire_type (s, m)
           else default_extension_decoder env n rec et extension tag wire_type (s, m))
          (\<lambda>(s, m). do {
             next_ext \<leftarrow> load_ptr m (extension + 16);
             extension_decode_loop env n rec k tag wire_type pos (s, m) next_ext })
      })"

definition decode_extension ::
  "pb_env \<Rightarrow> nat \<Rightarrow> message_decoder \<Rightarrow> u32 \<Rightarrow> pb_wire_type_t \<Rightarrow> pb_field_iter_t \<Rightarrow> dec_state \<Rightarrow>
     (bool \<times> dec_state) option" where
  "decode_extension env n rec tag wire_type it sm = do {
     let (s, m) = sm;
     extension \<leftarrow> load_ptr m (it_pData it);
     extension_decode_loop env n rec (Suc n) tag wire_type (is_bytes_left s) (s, m) extension
   }"

section \<open>Messages\<close>

text \<open>
  The local variables of \<open>pb_decode_noinit\<close>: the bit set of required fields seen, where the
  extension range starts, and the fixed-count field in progress (its index; NULL is \<^term>\<open>None\<close>).
  \<open>fixed_count_size\<close> is \<open>it_local\<close> of the iterator.
\<close>

record decode_locals =
  dl_fields_seen :: "u32 list"
  dl_extension_range_start :: u32
  dl_fixed_count_field :: "nat option"

definition init_locals :: decode_locals where
  "init_locals = \<lparr>dl_fields_seen = [0, 0], dl_extension_range_start = 0,
     dl_fixed_count_field = None\<rparr>"

text \<open>The test that a fixed-count field got all its entries; true when it did not.\<close>

definition fixed_count_wrong :: "decode_locals \<Rightarrow> pb_field_iter_t \<Rightarrow> bool" where
  "fixed_count_wrong dl it =
     (case dl_fixed_count_field dl of
        None \<Rightarrow> False
      | Some i \<Rightarrow> it_local it \<noteq> fld_array_size (it_start it ! i))"

text \<open>A field the iterator did not find: an extension, or unknown data to skip.\<close>

definition decode_unknown ::
  "pb_env \<Rightarrow> nat \<Rightarrow> message_decoder \<Rightarrow> u32 \<Rightarrow> pb_wire_type_t \<Rightarrow> decode_locals \<Rightarrow> field_state \<Rightarrow>
     (bool \<times> decode_locals \<times> field_state) option" where
  "decode_unknown env n rec tag wire_type dl st = do {
     let (s, m, it) = st;
     (dl, it, try_ext) \<leftarrow>
       (if tag \<ge> dl_extension_range_start dl then do {
          (found, it) \<leftarrow> find_extension_field it;
          f \<leftarrow> cur_field it;
          let start = (if \<not> found then - 1 else fld_tag f);
          Some (dl\<lparr>dl_extension_range_start := start\<rparr>, it, tag \<ge> start)
        } else Some (dl, it, False));
     let pos = is_bytes_left s;
     (ok, s, m) \<leftarrow> (if try_ext then decode_extension env n rec tag wire_type it (s, m)
                   else Some (True, s, m));
     if \<not> ok then Some (False, dl, s, m, it)
     else if try_ext \<and> pos \<noteq> is_bytes_left s then Some (True, dl, s, m, it)
     else do {
       (ok, s) \<leftarrow> pb_skip_field env s wire_type;
       Some (ok, dl, s, m, it)
     }
   }"

text \<open>The bookkeeping before a known field is decoded; \<^term>\<open>None\<close> inside is the error return.\<close>

definition track_fixed_count ::
  "pb_field_t \<Rightarrow> decode_locals \<Rightarrow> pb_field_iter_t \<Rightarrow> (decode_locals \<times> pb_field_iter_t) option" where
  "track_fixed_count f dl it =
     (if PB_HTYPE (fld_type f) = PB_HTYPE_REPEATED \<and> it_pSize it = SizeAt (it_pData it) then
        if dl_fixed_count_field dl \<noteq> Some (it_pos it) then
          if fixed_count_wrong dl it then None
          else Some (dl\<lparr>dl_fixed_count_field := Some (it_pos it)\<rparr>,
                     it\<lparr>it_local := 0, it_pSize := SizeLocal\<rparr>)
        else Some (dl, it\<lparr>it_pSize := SizeLocal\<rparr>)
      else Some (dl, it))"

definition track_required :: "pb_field_t \<Rightarrow> pb_field_iter_t \<Rightarrow> u32 list \<Rightarrow> u32 list" where
  "track_required f it seen =
     (if PB_HTYPE (fld_type f) = PB_HTYPE_REQUIRED \<and>
         it_required_field_index it < PB_MAX_REQUIRED_FIELDS
      then
        let tmp = push_bit (unat (it_required_field_index it AND 31)) 1;
            w = unat (drop_bit 5 (it_required_field_index it))
        in seen[w := seen ! w OR tmp]
      else seen)"

definition decode_known ::
  "pb_env \<Rightarrow> nat \<Rightarrow> message_decoder \<Rightarrow> pb_wire_type_t \<Rightarrow> decode_locals \<Rightarrow> field_state \<Rightarrow>
     (bool \<times> decode_locals \<times> field_state) option" where
  "decode_known env n rec wire_type dl st = do {
     let (s, m, it) = st;
     f \<leftarrow> cur_field it;
     case track_fixed_count f dl it of
       None \<Rightarrow> is_fail s ''wrong size for fixed count field'' (m, it) \<bind>
                 (\<lambda>(ok, s, m, it). Some (ok, dl, s, m, it))
     | Some (dl, it) \<Rightarrow> do {
         let dl = dl\<lparr>dl_fields_seen := track_required f it (dl_fields_seen dl)\<rparr>;
         (ok, s, m, it) \<leftarrow> decode_field env n rec wire_type (s, m, it);
         Some (ok, dl, s, m, it)
       }
   }"

text \<open>
  The main loop.  Every round reads at least one byte of the tag, so \<open>bytes_left\<close> rounds are enough
  as long as callbacks do not push bytes back.
\<close>

fun decode_loop ::
  "pb_env \<Rightarrow> nat \<Rightarrow> message_decoder \<Rightarrow> nat \<Rightarrow> decode_locals \<Rightarrow> field_state \<Rightarrow>
     (bool \<times> decode_locals \<times> field_state) option" where
  "decode_loop env n rec 0 dl st = None"
| "decode_loop env n rec (Suc k) dl (s, m, it) =
     (if is_bytes_left s = 0 then Some (True, dl, s, m, it)
      else do {
        (ok, s, wire_type, tag, eof) \<leftarrow> pb_decode_tag env s;
        if \<not> ok then Some (eof, dl, s, m, it)
        else do {
          (found, it) \<leftarrow> pb_field_iter_find it tag;
          (ok, dl, s, m, it) \<leftarrow>
            (if \<not> found then decode_unknown env n rec tag wire_type dl (s, m, it)
             else decode_known env n rec wire_type dl (s, m, it));
          if \<not> ok then Some (False, dl, s, m, it)
          else decode_loop env n rec k dl (s, m, it)
        }
      })"

text \<open>
  Seeking to the end of the field array: the last index and type before the iterator wraps around,
  and the iterator after that.
\<close>

fun seek_end :: "nat \<Rightarrow> pb_field_iter_t \<Rightarrow> (u32 \<times> byte \<times> pb_field_iter_t) option" where
  "seek_end 0 it = None"
| "seek_end (Suc k) it = do {
     f \<leftarrow> cur_field it;
     (more, it') \<leftarrow> pb_field_iter_next it;
     if more then seek_end k it' else Some (it_required_field_index it, fld_type f, it')
   }"

definition required_count :: "pb_field_iter_t \<Rightarrow> u32 option" where
  "required_count it = do {
     (req_field_count, last_type, it) \<leftarrow> seek_end (length (it_start it)) it;
     f \<leftarrow> cur_field it;
     let req_field_count =
       (if PB_HTYPE last_type = PB_HTYPE_REQUIRED \<and> fld_tag f \<noteq> 0 then req_field_count + 1
        else req_field_count);
     Some (if req_field_count > PB_MAX_REQUIRED_FIELDS then PB_MAX_REQUIRED_FIELDS
           else req_field_count)
   }"

definition all_required_seen :: "u32 \<Rightarrow> u32 list \<Rightarrow> bool" where
  "all_required_seen req_field_count fields_seen \<longleftrightarrow>
     (\<forall>i < unat (drop_bit 5 req_field_count). fields_seen ! i = - 1) \<and>
     (req_field_count AND 31 \<noteq> 0 \<longrightarrow>
        fields_seen ! unat (drop_bit 5 req_field_count) =
          drop_bit (unat (32 - (req_field_count AND 31))) (- 1))"

definition noinit_body :: "pb_env \<Rightarrow> nat \<Rightarrow> message_decoder \<Rightarrow> message_decoder" where
  "noinit_body env n rec sm fs dest_struct = do {
     let (s, m) = sm;
     (_, it) \<leftarrow> pb_field_iter_begin fs dest_struct 0;
     (ok, dl, s, m, it) \<leftarrow> decode_loop env n rec (Suc (unat (is_bytes_left s))) init_locals (s, m, it);
     if \<not> ok then Some (False, s, m)
     else if fixed_count_wrong dl it then is_fail s ''wrong size for fixed count field'' m
     else do {
       req_field_count \<leftarrow> required_count it;
       if req_field_count > 0 \<and> \<not> all_required_seen req_field_count (dl_fields_seen dl)
       then is_fail s ''missing required field'' m
       else Some (True, s, m)
     }
   }"

fun pb_decode_noinit :: "pb_env \<Rightarrow> nat \<Rightarrow> message_decoder" where
  "pb_decode_noinit env 0 sm fs dest = None"
| "pb_decode_noinit env (Suc n) sm fs dest = noinit_body env n (pb_decode_noinit env n) sm fs dest"

definition pb_decode :: "pb_env \<Rightarrow> nat \<Rightarrow> message_decoder" where
  "pb_decode env n sm fs dest_struct =
     pb_decode_with env n (pb_decode_noinit env n) sm fs dest_struct"

definition decode_delimited_with :: "pb_env \<Rightarrow> message_decoder \<Rightarrow> message_decoder" where
  "decode_delimited_with env dec sm fs dest_struct = do {
     let (s, m) = sm;
     (ok, s, substream) \<leftarrow> pb_make_string_substream env s;
     if \<not> ok then Some (False, s, m)
     else do {
       (status, substream, m) \<leftarrow> dec (substream, m) fs dest_struct;
       (ok, s) \<leftarrow> pb_close_string_substream env s substream;
       if \<not> ok then Some (False, s, m) else Some (status, s, m)
     }
   }"

definition pb_decode_delimited_noinit :: "pb_env \<Rightarrow> nat \<Rightarrow> message_decoder" where
  "pb_decode_delimited_noinit env n = decode_delimited_with env (pb_decode_noinit env n)"

definition pb_decode_delimited :: "pb_env \<Rightarrow> nat \<Rightarrow> message_decoder" where
  "pb_decode_delimited env n = decode_delimited_with env (pb_decode env n)"

definition pb_decode_nullterminated :: "pb_env \<Rightarrow> nat \<Rightarrow> message_decoder" where
  "pb_decode_nullterminated env n sm fs dest_struct = pb_decode env n sm fs dest_struct"

definition pb_decode_bool ::
  "pb_env \<Rightarrow> dec_state \<Rightarrow> addr \<Rightarrow> (bool \<times> dec_state) option" where
  "pb_decode_bool env sm dest = pb_dec_bool env sm PB_LAST_FIELD dest"

end
