(* ===== verification/PbOut.thy ===== *)
theory PbOut
  imports PbIter
begin

text \<open>
  nanopb, \<^verbatim>\<open>ios/Pods/nanopb/pb_encode.c\<close>, output streams and the encoders of single values:
  \<open>buf_write\<close>, \<open>pb_ostream_from_buffer\<close>, \<open>pb_write\<close>, varints, zigzag, fixed-width integers,
  tags and length-prefixed strings.  The memory argument \<open>m\<close> holds the message being encoded, which
  the encoder only reads.
\<close>

section \<open>Streams\<close>

text \<open>The source of a write: NULL, a local array, or a place in memory.\<close>

datatype csrc = CNull | CLocal bytes | CMem addr

fun read_src :: "cmem \<Rightarrow> csrc \<Rightarrow> nat \<Rightarrow> bytes option" where
  "read_src m CNull n = (if n = 0 then Some [] else None)"
| "read_src m (CLocal bs) n = (if n \<le> length bs then Some (take n bs) else None)"
| "read_src m (CMem a) n = load_bytes m a n"

definition buf_write :: "pb_ostream_t \<Rightarrow> bytes \<Rightarrow> bool \<times> pb_ostream_t" where
  "buf_write s bs = (True, s\<lparr>os_state := os_state s @ bs\<rparr>)"

definition pb_ostream_from_buffer :: "u64 \<Rightarrow> pb_ostream_t" where
  "pb_ostream_from_buffer bufsize = \<lparr>os_callback = OutBuf, os_state = [], os_max_size = bufsize,
     os_bytes_written = 0, os_errmsg = None\<rparr>"

definition PB_OSTREAM_SIZING :: pb_ostream_t where
  "PB_OSTREAM_SIZING = \<lparr>os_callback = OutNull, os_state = [], os_max_size = 0,
     os_bytes_written = 0, os_errmsg = None\<rparr>"

definition pb_write ::
  "pb_env \<Rightarrow> cmem \<Rightarrow> pb_ostream_t \<Rightarrow> csrc \<Rightarrow> u64 \<Rightarrow> (bool \<times> pb_ostream_t) option" where
  "pb_write env m s buf count =
     (if count > 0 \<and> os_callback s \<noteq> OutNull then
        if os_bytes_written s + count < os_bytes_written s \<or>
           os_bytes_written s + count > os_max_size s
        then os_fail s ''stream full''
        else do {
          bs \<leftarrow> read_src m buf (unat count);
          let (ok, s) = (case os_callback s of
                OutUser k \<Rightarrow> (let (ok, st) = out_cb env k (os_state s) bs in (ok, s\<lparr>os_state := st\<rparr>))
              | _ \<Rightarrow> buf_write s bs);
          if \<not> ok then os_fail s ''io error''
          else Some (True, s\<lparr>os_bytes_written := os_bytes_written s + count\<rparr>)
        }
      else Some (True, s\<lparr>os_bytes_written := os_bytes_written s + count\<rparr>))"

section \<open>Integers\<close>

text \<open>The loop \<open>while (value)\<close> that fills \<open>buffer\<close>, least significant group first.\<close>

function varint_loop :: "u64 \<Rightarrow> bytes" where
  "varint_loop v =
     (if v = 0 then [] else ucast ((v AND 0x7F) OR 0x80) # varint_loop (drop_bit 7 v))"
  by pat_completeness auto
termination
  by (relation "measure unat")
    (auto simp: drop_bit_eq_div unat_div unat_gt_0 intro!: div_less_dividend)

declare varint_loop.simps [simp del]

text \<open>\<open>buffer\<close> has room for ten bytes (\<open>length_varint_loop\<close>: it is enough).\<close>

definition pb_encode_varint ::
  "pb_env \<Rightarrow> cmem \<Rightarrow> pb_ostream_t \<Rightarrow> u64 \<Rightarrow> (bool \<times> pb_ostream_t) option" where
  "pb_encode_varint env m s value =
     (if value \<le> 0x7F then pb_write env m s (CLocal [ucast value]) 1
      else
        let buffer = varint_loop value; i = length buffer in
        if i > 10 then None
        else pb_write env m s (CLocal (buffer[i - 1 := buffer ! (i - 1) AND 0x7F])) (of_nat i))"

definition zigzag :: "u64 \<Rightarrow> u64" where
  "zigzag value = (if sint value < 0 then NOT (push_bit 1 value) else push_bit 1 value)"

definition pb_encode_svarint ::
  "pb_env \<Rightarrow> cmem \<Rightarrow> pb_ostream_t \<Rightarrow> u64 \<Rightarrow> (bool \<times> pb_ostream_t) option" where
  "pb_encode_svarint env m s value = pb_encode_varint env m s (zigzag value)"

definition pb_encode_fixed32 ::
  "pb_env \<Rightarrow> cmem \<Rightarrow> pb_ostream_t \<Rightarrow> addr \<Rightarrow> (bool \<times> pb_ostream_t) option" where
  "pb_encode_fixed32 env m s value = do {
     val \<leftarrow> load_word m value 4;
     pb_write env m s (CLocal [
        ucast ((val :: u32) AND 0xFF), ucast (drop_bit 8 val AND 0xFF),
        ucast (drop_bit 16 val AND 0xFF), ucast (drop_bit 24 val AND 0xFF)]) 4
   }"

definition pb_encode_fixed64 ::
  "pb_env \<Rightarrow> cmem \<Rightarrow> pb_ostream_t \<Rightarrow> addr \<Rightarrow> (bool \<times> pb_ostream_t) option" where
  "pb_encode_fixed64 env m s value = do {
     val \<leftarrow> load_word m value 8;
     pb_write env m s (CLocal [
        ucast ((val :: u64) AND 0xFF), ucast (drop_bit 8 val AND 0xFF),
        ucast (drop_bit 16 val AND 0xFF), ucast (drop_bit 24 val AND 0xFF),
        ucast (drop_bit 32 val AND 0xFF), ucast (drop_bit 40 val AND 0xFF),
        ucast (drop_bit 48 val AND 0xFF), ucast (drop_bit 56 val AND 0xFF)]) 8
   }"

section \<open>Tags and strings\<close>

definition pb_encode_tag ::
  "pb_env \<Rightarrow> cmem \<Rightarrow> pb_ostream_t \<Rightarrow> pb_wire_type_t \<Rightarrow> u32 \<Rightarrow> (bool \<times> pb_ostream_t) option" where
  "pb_encode_tag env m s wiretype field_number =
     (let tag = push_bit 3 (ucast field_number) OR wire_type_value wiretype
      in pb_encode_varint env m s tag)"

text \<open>The wire type of a field type; \<^term>\<open>None\<close> is the \<open>default\<close> case of the switch.\<close>

definition wire_type_for :: "byte \<Rightarrow> pb_wire_type_t option" where
  "wire_type_for lt =
     (if lt = PB_LTYPE_BOOL \<or> lt = PB_LTYPE_VARINT \<or> lt = PB_LTYPE_UVARINT \<or> lt = PB_LTYPE_SVARINT
      then Some PB_WT_VARINT
      else if lt = PB_LTYPE_FIXED32 then Some PB_WT_32BIT
      else if lt = PB_LTYPE_FIXED64 then Some PB_WT_64BIT
      else if lt = PB_LTYPE_BYTES \<or> lt = PB_LTYPE_STRING \<or> lt = PB_LTYPE_SUBMESSAGE \<or>
              lt = PB_LTYPE_FIXED_LENGTH_BYTES
      then Some PB_WT_STRING
      else None)"

definition pb_encode_tag_for_field ::
  "pb_env \<Rightarrow> cmem \<Rightarrow> pb_ostream_t \<Rightarrow> pb_field_t \<Rightarrow> (bool \<times> pb_ostream_t) option" where
  "pb_encode_tag_for_field env m s f =
     (case wire_type_for (PB_LTYPE (fld_type f)) of
        None \<Rightarrow> os_fail s ''invalid field type''
      | Some wiretype \<Rightarrow> pb_encode_tag env m s wiretype (fld_tag f))"

definition pb_encode_string ::
  "pb_env \<Rightarrow> cmem \<Rightarrow> pb_ostream_t \<Rightarrow> csrc \<Rightarrow> u64 \<Rightarrow> (bool \<times> pb_ostream_t) option" where
  "pb_encode_string env m s buffer sz =
     and_then (pb_encode_varint env m s sz) (\<lambda>s. pb_write env m s buffer sz)"

end
