(* ===== verification/PbWire.thy ===== *)
theory PbWire
  imports PbOut PbIn
begin

text \<open>
  The protobuf wire format of single values, as functions from numbers to bytes, and the proof that
  the encoders of \<^verbatim>\<open>pb_encode.c\<close> write exactly these bytes and the decoders of \<^verbatim>\<open>pb_decode.c\<close>
  read them back.

  \<open>writes f bs\<close> is the contract every encoder meets on a sizing stream or a buffer stream: if
  there is room, \<open>f\<close> succeeds and the stream has grown by \<open>bs\<close>; if there is none, \<open>f\<close> fails and has
  written at most a prefix of \<open>bs\<close>, inside the limit of the stream.
\<close>

section \<open>The contract of an encoder\<close>

definition plain_stream :: "pb_ostream_t \<Rightarrow> bool" where
  "plain_stream s \<longleftrightarrow> os_callback s = OutNull \<or>
     (os_callback s = OutBuf \<and> os_bytes_written s \<le> os_max_size s)"

definition room :: "pb_ostream_t \<Rightarrow> nat \<Rightarrow> bool" where
  "room s n \<longleftrightarrow> os_callback s = OutNull \<or> unat (os_bytes_written s) + n \<le> unat (os_max_size s)"

definition emit :: "pb_ostream_t \<Rightarrow> bytes \<Rightarrow> pb_ostream_t" where
  "emit s bs = s\<lparr>os_state := (if os_callback s = OutNull then os_state s else os_state s @ bs),
     os_bytes_written := os_bytes_written s + of_nat (length bs)\<rparr>"

text \<open>A failed run: part of the output, within the limit, and an error message.\<close>

definition partial_emit :: "pb_ostream_t \<Rightarrow> bytes \<Rightarrow> pb_ostream_t \<Rightarrow> bool" where
  "partial_emit s bs s' \<longleftrightarrow> (\<exists>k e. k \<le> length bs \<and> room s k \<and>
     s' = emit s (take k bs)\<lparr>os_errmsg := Some e\<rparr>)"

definition writes_on :: "(pb_ostream_t \<Rightarrow> bool) \<Rightarrow> (pb_ostream_t \<Rightarrow> (bool \<times> pb_ostream_t) option) \<Rightarrow> bytes \<Rightarrow> bool" where
  "writes_on P f bs \<longleftrightarrow> (\<forall>s. plain_stream s \<and> P s \<longrightarrow>
     (if room s (length bs) then f s = Some (True, emit s bs)
      else \<exists>s'. f s = Some (False, s') \<and> partial_emit s bs s'))"

abbreviation writes :: "(pb_ostream_t \<Rightarrow> (bool \<times> pb_ostream_t) option) \<Rightarrow> bytes \<Rightarrow> bool" where
  "writes \<equiv> writes_on (\<lambda>_. True)"

lemma writes_def: "writes f bs \<longleftrightarrow> (\<forall>s. plain_stream s \<longrightarrow>
     (if room s (length bs) then f s = Some (True, emit s bs)
      else \<exists>s'. f s = Some (False, s') \<and> partial_emit s bs s'))"
  by (simp add: writes_on_def)

lemma writes_onD_room:
  "writes_on P f bs \<Longrightarrow> plain_stream s \<Longrightarrow> P s \<Longrightarrow> room s (length bs) \<Longrightarrow> f s = Some (True, emit s bs)"
  by (auto simp: writes_on_def)

lemma writes_onD_full:
  "writes_on P f bs \<Longrightarrow> plain_stream s \<Longrightarrow> P s \<Longrightarrow> \<not> room s (length bs) \<Longrightarrow>
     \<exists>s'. f s = Some (False, s') \<and> partial_emit s bs s'"
  by (auto simp: writes_on_def)

lemma writes_on_mono: "writes_on P f bs \<Longrightarrow> (\<And>s. Q s \<Longrightarrow> P s) \<Longrightarrow> writes_on Q f bs"
  by (auto simp: writes_on_def)

lemma writesD_room: "writes f bs \<Longrightarrow> plain_stream s \<Longrightarrow> room s (length bs) \<Longrightarrow> f s = Some (True, emit s bs)"
  by (auto simp: writes_def)

lemma writesD_full:
  "writes f bs \<Longrightarrow> plain_stream s \<Longrightarrow> \<not> room s (length bs) \<Longrightarrow>
     \<exists>s'. f s = Some (False, s') \<and> partial_emit s bs s'"
  by (auto simp: writes_def)

lemma emit_Nil [simp]: "emit s [] = s"
  by (simp add: emit_def)

lemma emit_callback [simp]: "os_callback (emit s bs) = os_callback s" "os_max_size (emit s bs) = os_max_size s"
  "os_errmsg (emit s bs) = os_errmsg s"
  by (simp_all add: emit_def)

lemma emit_emit [simp]: "emit (emit s as) bs = emit s (as @ bs)"
  by (simp add: emit_def add.assoc)

lemma emit_written:
  assumes "os_callback s \<noteq> OutNull" "room s (length bs)"
  shows "unat (os_bytes_written (emit s bs)) = unat (os_bytes_written s) + length bs"
proof -
  have "unat (os_bytes_written s) + length bs < 2 ^ 64"
    using assms unat_u64_less [of "os_max_size s"] by (simp add: room_def)
  then show ?thesis
    by (simp add: emit_def unat_word_ariths unat_of_nat)
qed

lemma room_0 [simp]: "plain_stream s \<Longrightarrow> room s 0"
  by (auto simp: room_def plain_stream_def word_le_nat_alt)

lemma plain_emit: "plain_stream s \<Longrightarrow> room s (length bs) \<Longrightarrow> plain_stream (emit s bs)"
  using emit_written [of s bs] by (auto simp: plain_stream_def room_def word_le_nat_alt)

lemma room_emit:
  "plain_stream s \<Longrightarrow> room s (length as) \<Longrightarrow> room (emit s as) k \<longleftrightarrow> room s (length as + k)"
  using emit_written [of s as] by (cases "os_callback s = OutNull") (auto simp: room_def)

lemma room_mono: "room s n \<Longrightarrow> k \<le> n \<Longrightarrow> room s k"
  by (auto simp: room_def)

lemma partial_emit_append_left:
  assumes "partial_emit s as s'"
  shows "partial_emit s (as @ bs) s'"
proof -
  from assms obtain k e where "k \<le> length as" "room s k"
    "s' = emit s (take k as)\<lparr>os_errmsg := Some e\<rparr>"
    by (auto simp: partial_emit_def)
  then show ?thesis
    unfolding partial_emit_def by (intro exI [of _ k] exI [of _ e]) simp
qed

lemma partial_emit_append_right:
  assumes "plain_stream s" "room s (length as)" "partial_emit (emit s as) bs s'"
  shows "partial_emit s (as @ bs) s'"
proof -
  from assms(3) obtain k e where k: "k \<le> length bs" "room (emit s as) k"
    "s' = emit (emit s as) (take k bs)\<lparr>os_errmsg := Some e\<rparr>"
    by (auto simp: partial_emit_def)
  have "room s (length as + k)" using k(2) assms room_emit by blast
  then show ?thesis using k
    by (auto simp: partial_emit_def intro!: exI [of _ "length as + k"])
qed

text \<open>Sequencing, the rule behind all composite encoders.\<close>

lemma writes_on_seq:
  assumes f: "writes_on P f as" and g: "writes_on P g bs" and P: "\<And>s as. P (emit s as) = P s"
  shows "writes_on P (\<lambda>s. and_then (f s) g) (as @ bs)"
  unfolding writes_on_def
proof (intro allI impI, elim conjE)
  fix s assume s: "plain_stream s" "P s"
  show "if room s (length (as @ bs)) then and_then (f s) g = Some (True, emit s (as @ bs))
        else \<exists>s'. and_then (f s) g = Some (False, s') \<and> partial_emit s (as @ bs) s'"
  proof (cases "room s (length as)")
    case False
    then obtain s' where s': "f s = Some (False, s')" "partial_emit s as s'"
      using writes_onD_full [OF f s] by auto
    moreover have "\<not> room s (length (as @ bs))" using False room_mono by fastforce
    ultimately show ?thesis using partial_emit_append_left by simp
  next
    case r: True
    have fs: "f s = Some (True, emit s as)" by (rule writes_onD_room [OF f s r])
    have p: "plain_stream (emit s as)" "P (emit s as)" using plain_emit [OF s(1) r] s(2) P by simp_all
    have "room (emit s as) (length bs) \<longleftrightarrow> room s (length (as @ bs))"
      using room_emit [OF s(1) r] by simp
    then show ?thesis
      using fs writes_onD_room [OF g p] writes_onD_full [OF g p] partial_emit_append_right [OF s(1) r] by auto
  qed
qed

lemma writes_seq: "writes f as \<Longrightarrow> writes g bs \<Longrightarrow> writes (\<lambda>s. and_then (f s) g) (as @ bs)"
  by (rule writes_on_seq) simp_all

lemma writes_cong: "(\<And>s. f s = g s) \<Longrightarrow> writes f bs \<longleftrightarrow> writes g bs"
  by (simp add: writes_def)

lemma writes_nothing: "writes (\<lambda>s. Some (True, s)) []"
  by (auto simp: writes_def)

section \<open>Writing bytes\<close>

lemma set_error_partial: "plain_stream s \<Longrightarrow> partial_emit s bs (os_set_error s msg)"
  unfolding partial_emit_def
  by (intro exI [of _ 0] exI [of _ "case os_errmsg s of None \<Rightarrow> msg | Some e \<Rightarrow> e"])
    (auto simp: os_set_error_def split: option.splits)

lemma no_room_test:
  assumes "plain_stream s" "os_callback s \<noteq> OutNull"
  shows "\<not> room s (unat count) \<longleftrightarrow>
    os_bytes_written s + count < os_bytes_written s \<or> os_bytes_written s + count > os_max_size s"
proof -
  have le: "unat (os_bytes_written s) \<le> unat (os_max_size s)"
    using assms by (simp add: plain_stream_def word_le_nat_alt)
  show ?thesis
  proof (cases "unat (os_bytes_written s) + unat count < 2 ^ 64")
    case True
    then have "unat (os_bytes_written s + count) = unat (os_bytes_written s) + unat count"
      by (simp add: unat_word_ariths)
    then show ?thesis using assms(2) by (auto simp: room_def word_less_nat_alt)
  next
    case False
    then have "\<not> room s (unat count)"
      using assms(2) unat_u64_less [of "os_max_size s"] by (auto simp: room_def)
    moreover have "unat (os_bytes_written s + count) < unat (os_bytes_written s)"
      using False unat_u64_less [of "os_bytes_written s"] unat_u64_less [of count]
      by (auto simp: unat_word_ariths mod_if)
    ultimately show ?thesis by (simp add: word_less_nat_alt)
  qed
qed

lemma pb_write_writes:
  assumes src: "read_src m buf (unat count) = Some bs" and len: "length bs = unat count"
  shows "writes (\<lambda>s. pb_write env m s buf count) bs"
  unfolding writes_def
proof (intro allI impI)
  fix s assume s: "plain_stream s"
  show "if room s (length bs) then pb_write env m s buf count = Some (True, emit s bs)
        else \<exists>s'. pb_write env m s buf count = Some (False, s') \<and> partial_emit s bs s'"
  proof (cases "os_callback s = OutNull \<or> count = 0")
    case True
    have "of_nat (length bs) = count" using len by simp
    moreover have "count = 0 \<Longrightarrow> bs = []" using len by simp
    moreover have "room s (length bs)"
      using True s len by (auto simp: room_def plain_stream_def word_le_nat_alt)
    ultimately show ?thesis using True
      by (auto simp: pb_write_def emit_def)
  next
    case False
    then have cb: "os_callback s = OutBuf" and c: "count > 0"
      using s by (auto simp: plain_stream_def word_gt_0)
    show ?thesis
    proof (cases "room s (length bs)")
      case True
      then have "\<not> (os_bytes_written s + count < os_bytes_written s \<or>
          os_bytes_written s + count > os_max_size s)"
        using no_room_test [OF s, of count] cb len by simp
      then show ?thesis using True cb c src len
        by (auto simp: pb_write_def buf_write_def emit_def)
    next
      case full: False
      then have "os_bytes_written s + count < os_bytes_written s \<or>
          os_bytes_written s + count > os_max_size s"
        using no_room_test [OF s, of count] cb len by simp
      then have "pb_write env m s buf count = os_fail s ''stream full''"
        using cb c by (simp add: pb_write_def)
      then show ?thesis using full set_error_partial [OF s] by (simp add: os_fail_def)
    qed
  qed
qed

lemma pb_write_local:
  "length bs < 2 ^ 64 \<Longrightarrow> writes (\<lambda>s. pb_write env m s (CLocal bs) (of_nat (length bs))) bs"
  by (rule pb_write_writes) (simp_all add: unat_of_nat)

section \<open>Varints\<close>

lemma varint_loop_0 [simp]: "varint_loop 0 = []"
  by (subst varint_loop.simps) simp

lemma drop_bit_7_nat: "unat (drop_bit 7 (v::u64)) = unat v div 128"
  by (simp add: drop_bit_eq_div unat_div)

lemma update_last_Cons:
  "bs \<noteq> [] \<Longrightarrow> (x # bs)[length (x # bs) - 1 := (x # bs) ! (length (x # bs) - 1) AND k] =
     x # bs[length bs - 1 := bs ! (length bs - 1) AND k]"
  by (cases bs) auto

lemma group_byte: "ucast ((v AND 0x7F) OR 0x80) = (of_nat (unat (v::u64) mod 128 + 128) :: byte)"
  by (rule word_unat_eq_iff [THEN iffD2])
    (simp add: and_7F_or_80 unat_ucast unat_word_ariths unat_of_nat unat_take_bit)

text \<open>The buffer of \<^verbatim>\<open>pb_encode_varint\<close>.\<close>
lemma varint_loop_uvarint:
  "v \<noteq> 0 \<Longrightarrow> let bs = varint_loop v in
     bs \<noteq> [] \<and> bs[length bs - 1 := bs ! (length bs - 1) AND 0x7F] = uvarint (unat v)"
proof (induction v rule: varint_loop.induct)
  case (1 v)
  let ?bs = "varint_loop (drop_bit 7 v)"
  have split: "varint_loop v = of_nat (unat v mod 128 + 128) # ?bs"
    using "1.prems" by (subst varint_loop.simps) (simp add: group_byte)
  show ?case
  proof (cases "unat v < 128")
    case True
    then have "unat (drop_bit 7 v) = 0" by (simp only: drop_bit_7_nat div_less)
    then have "drop_bit 7 v = 0" by (simp only: unat_eq_zero)
    then have "?bs = []" by simp
    then show ?thesis using split True last_group [of "unat v"] by (simp add: uvarint_small)
  next
    case False
    then have "unat (drop_bit 7 v) \<noteq> 0" by (simp add: drop_bit_7_nat)
    then have nz: "drop_bit 7 v \<noteq> 0" by (metis unat_0)
    have IH: "?bs \<noteq> [] \<and> ?bs[length ?bs - 1 := ?bs ! (length ?bs - 1) AND 0x7F] = uvarint (unat v div 128)"
      using "1.IH" [OF "1.prems" nz] by (simp only: Let_def drop_bit_7_nat) simp
    have "uvarint (unat v) = of_nat (unat v mod 128 + 128) # uvarint (unat v div 128)"
      using False by (intro uvarint_big) simp
    then show ?thesis
      by (simp only: split Let_def update_last_Cons [OF conjunct1 [OF IH]] conjunct2 [OF IH]) simp
  qed
qed

lemma length_varint_loop: "length (varint_loop v) \<le> 10"
proof (cases "v = 0")
  case True then show ?thesis by simp
next
  case False
  then have "length (varint_loop v) = length (uvarint (unat v))"
    using varint_loop_uvarint [of v] by (metis length_list_update)
  then show ?thesis using length_uvarint_u64 [OF unat_u64_less [of v]] by simp
qed

lemma pb_encode_varint_writes: "writes (\<lambda>s. pb_encode_varint env m s v) (uvarint (unat v))"
proof (cases "v \<le> 0x7F")
  case True
  then have n: "unat v < 128" by (simp add: word_le_nat_alt)
  have "ucast v = (of_nat (unat v) :: byte)" by simp
  then have "pb_encode_varint env m s v = pb_write env m s (CLocal (uvarint (unat v))) (of_nat (length (uvarint (unat v))))" for s
    using True n by (simp add: pb_encode_varint_def uvarint_small)
  then show ?thesis using pb_write_local [of "uvarint (unat v)"] length_uvarint_u64 [OF unat_u64_less [of v]] by simp
next
  case False
  then have "v \<noteq> 0" by auto
  from varint_loop_uvarint [OF this] have
    "pb_encode_varint env m s v = pb_write env m s (CLocal (uvarint (unat v))) (of_nat (length (uvarint (unat v))))" for s
    using False length_varint_loop [of v]
    by (auto simp: pb_encode_varint_def Let_def) (metis length_list_update)
  then show ?thesis using pb_write_local [of "uvarint (unat v)"] length_uvarint_u64 [OF unat_u64_less [of v]] by simp
qed

section \<open>Reading bytes\<close>

definition advance :: "pb_istream_t \<Rightarrow> nat \<Rightarrow> pb_istream_t" where
  "advance s k = s\<lparr>is_state := drop k (is_state s), is_bytes_left := is_bytes_left s - of_nat k\<rparr>"

definition offers :: "pb_istream_t \<Rightarrow> bytes \<Rightarrow> bool" where
  "offers s bs \<longleftrightarrow> is_callback s = InBuf \<and> length bs \<le> unat (is_bytes_left s) \<and>
     (\<exists>rest. is_state s = bs @ rest)"

lemma advance_0 [simp]: "advance s 0 = s" by (simp add: advance_def)

lemma advance_advance [simp]: "advance (advance s j) k = advance s (j + k)"
  by (simp add: advance_def add.commute)

lemma advance_fields [simp]: "is_callback (advance s k) = is_callback s" "is_errmsg (advance s k) = is_errmsg s"
  by (simp_all add: advance_def)

lemma offers_left: "offers s bs \<Longrightarrow> unat (is_bytes_left (advance s (length bs))) = unat (is_bytes_left s) - length bs"
proof -
  assume "offers s bs"
  then have le: "length bs \<le> unat (is_bytes_left s)" by (simp add: offers_def)
  then have "length bs < 2 ^ 64" using unat_u64_less [of "is_bytes_left s"] by simp
  then have u: "unat (of_nat (length bs) :: u64) = length bs" by (simp add: unat_of_nat)
  with le have "(of_nat (length bs) :: u64) \<le> is_bytes_left s" by (simp add: word_le_nat_alt)
  then show ?thesis using u by (simp add: advance_def unat_sub)
qed

lemma offers_append: "offers s (as @ bs) \<longleftrightarrow> offers s as \<and> offers (advance s (length as)) bs"
proof
  assume a: "offers s (as @ bs)"
  then have "offers s as" by (auto simp: offers_def)
  moreover then have "offers (advance s (length as)) bs"
    using a offers_left [of s as] by (auto simp: offers_def advance_def)
  ultimately show "offers s as \<and> offers (advance s (length as)) bs" by simp
next
  assume "offers s as \<and> offers (advance s (length as)) bs"
  then show "offers s (as @ bs)"
    using offers_left [of s as] by (auto simp: offers_def advance_def)
qed

lemma offers_Cons: "offers s (b # bs) \<longleftrightarrow> offers s [b] \<and> offers (advance s 1) bs"
  using offers_append [of s "[b]" bs] by simp

lemma pb_readbyte_offers: "offers s [b] \<Longrightarrow> pb_readbyte env s = Some (True, advance s 1, b)"
  by (auto simp: offers_def pb_readbyte_def run_icallback_def buf_read_def advance_def unat_eq_zero)

lemma varint64_last:
  "offers s [of_nat n] \<Longrightarrow> n < 128 \<Longrightarrow> unat p < 64 \<Longrightarrow>
     varint64_loop env s p acc = Some (True, advance s 1, acc OR push_bit (unat p) (of_nat n))"
  using pb_readbyte_offers [of s "of_nat n" env] last_and_7F [of n] last_and_80 [of n]
    ucast_of_nat_small [of n, where 'a = 64]
  by (subst varint64_loop.simps) (simp add: word_le_nat_alt Let_def)

lemma varint64_more:
  "offers s [of_nat (n mod 128 + 128)] \<Longrightarrow> unat p < 64 \<Longrightarrow>
     varint64_loop env s p acc =
       varint64_loop env (advance s 1) (p + 7) (acc OR push_bit (unat p) (of_nat (n mod 128)))"
  using pb_readbyte_offers [of s "of_nat (n mod 128 + 128)" env] group_and_7F [of n]
    group_and_80 [of n] ucast_of_nat_small [of "n mod 128", where 'a = 64]
  by (subst varint64_loop.simps) (simp add: word_le_nat_alt Let_def del: of_nat_add)

lemma varint64_loop_uvarint:
  assumes "offers s (uvarint n)" "n * 2 ^ (7 * i) < 2 ^ 64" "unat p = 7 * i" "7 * i < 64"
  shows "varint64_loop env s p acc =
    Some (True, advance s (length (uvarint n)), acc OR push_bit (7 * i) (of_nat n))"
  using assms
proof (induction n arbitrary: s i p acc rule: uvarint.induct)
  case (1 n)
  show ?case
  proof (cases "n < 128")
    case True
    then show ?thesis using "1.prems" varint64_last [of s n p env acc] by (simp add: uvarint_small)
  next
    case False
    then have off: "offers s [of_nat (n mod 128 + 128)]" "offers (advance s 1) (uvarint (n div 128))"
      using "1.prems"(1) offers_Cons [of s "of_nat (n mod 128 + 128)" "uvarint (n div 128)"]
        uvarint_big [of n] by (simp_all del: of_nat_add)
    have left: "n div 128 * 2 ^ (7 * Suc i) < 2 ^ 64" "7 * Suc i < 64"
      using groups_left [OF _ "1.prems"(2)] False by auto
    have nxt: "unat (p + 7) = 7 * Suc i"
      using "1.prems"(3) left(2) by (simp add: unat_word_ariths)
    have "varint64_loop env s p acc =
        varint64_loop env (advance s 1) (p + 7) (acc OR push_bit (7 * i) (of_nat (n mod 128)))"
      using varint64_more [OF off(1), of p env acc] "1.prems" by simp
    also have "\<dots> = Some (True, advance s (1 + length (uvarint (n div 128))),
        acc OR push_bit (7 * i) (of_nat (n mod 128)) OR push_bit (7 * i + 7) (of_nat (n div 128)))"
      using "1.IH" [OF False off(2) left(1) nxt left(2)] by (simp add: add.commute or.assoc)
    also have "\<dots> = Some (True, advance s (length (uvarint n)), acc OR push_bit (7 * i) (of_nat n))"
      using False word_groups [of "7 * i" n, where 'a = 64] by (simp add: uvarint_big or.assoc)
    finally show ?thesis .
  qed
qed

lemma pb_decode_varint_uvarint:
  "offers s (uvarint n) \<Longrightarrow> n < 2 ^ 64 \<Longrightarrow>
     pb_decode_varint env s = Some (True, advance s (length (uvarint n)), of_nat n)"
  using varint64_loop_uvarint [of s n 0 0 env 0] by (simp add: pb_decode_varint_def)

lemma and_70_small: "n < 16 \<Longrightarrow> of_nat n AND (0x70 :: byte) = 0"
proof -
  assume "n < 16"
  have "\<forall>k \<in> set [0..<16]. of_nat k AND (0x70 :: byte) = 0" by (simp add: upt_rec)
  with \<open>n < 16\<close> show ?thesis by auto
qed

lemma varint32_last:
  "offers s [of_nat n] \<Longrightarrow> n < 128 \<Longrightarrow> unat p < 32 \<Longrightarrow> (unat p = 28 \<longrightarrow> n < 16) \<Longrightarrow>
     varint32_loop env s p acc = Some (True, advance s 1, acc OR push_bit (unat p) (of_nat n))"
proof -
  assume a: "offers s [of_nat n]" "n < 128" "unat p < 32" "unat p = 28 \<longrightarrow> n < 16"
  have "\<not> (p + 7 = 35 \<and> of_nat n AND (0x70 :: byte) \<noteq> 0)"
  proof
    assume b: "p + 7 = 35 \<and> of_nat n AND (0x70 :: byte) \<noteq> 0"
    then have "p = 35 - 7" by (metis add_diff_cancel_right')
    then have "unat p = 28" by simp
    then show False using a(4) b and_70_small by blast
  qed
  moreover have "\<not> 32 \<le> p" using a(3) by (simp add: word_le_nat_alt)
  ultimately show ?thesis
    using a pb_readbyte_offers [of s "of_nat n" env] last_and_7F [of n] last_and_80 [of n]
      ucast_of_nat_small [of n, where 'a = 32]
    by (subst varint32_loop.simps) (simp add: Let_def)
qed

lemma varint32_more:
  "offers s [of_nat (n mod 128 + 128)] \<Longrightarrow> unat p < 32 \<Longrightarrow>
     varint32_loop env s p acc =
       varint32_loop env (advance s 1) (p + 7) (acc OR push_bit (unat p) (of_nat (n mod 128)))"
  using pb_readbyte_offers [of s "of_nat (n mod 128 + 128)" env] group_and_7F [of n]
    group_and_80 [of n] ucast_of_nat_small [of "n mod 128", where 'a = 32]
  by (subst varint32_loop.simps) (simp add: word_le_nat_alt Let_def del: of_nat_add)

lemma varint32_loop_uvarint:
  assumes "offers s (uvarint n)" "n * 2 ^ (7 * i) < 2 ^ 32" "unat p = 7 * i" "7 * i < 32"
  shows "varint32_loop env s p acc =
    Some (True, advance s (length (uvarint n)), acc OR push_bit (7 * i) (of_nat n))"
  using assms
proof (induction n arbitrary: s i p acc rule: uvarint.induct)
  case (1 n)
  show ?case
  proof (cases "n < 128")
    case True
    have "unat p = 28 \<longrightarrow> n < 16"
    proof
      assume "unat p = 28" then have "i = 4" using "1.prems"(3) by simp
      then show "n < 16" using "1.prems"(2) by simp
    qed
    then show ?thesis using True "1.prems" varint32_last [of s n p env acc]
      by (simp add: uvarint_small)
  next
    case False
    then have off: "offers s [of_nat (n mod 128 + 128)]" "offers (advance s 1) (uvarint (n div 128))"
      using "1.prems"(1) offers_Cons [of s "of_nat (n mod 128 + 128)" "uvarint (n div 128)"]
        uvarint_big [of n] by (simp_all del: of_nat_add)
    have left: "n div 128 * 2 ^ (7 * Suc i) < 2 ^ 32" "7 * Suc i < 32"
      using groups_left [OF _ "1.prems"(2)] False by auto
    have nxt: "unat (p + 7) = 7 * Suc i"
      using "1.prems"(3) left(2) by (simp add: unat_word_ariths)
    have "varint32_loop env s p acc =
        varint32_loop env (advance s 1) (p + 7) (acc OR push_bit (7 * i) (of_nat (n mod 128)))"
      using varint32_more [OF off(1), of p env acc] "1.prems" by simp
    also have "\<dots> = Some (True, advance s (1 + length (uvarint (n div 128))),
        acc OR push_bit (7 * i) (of_nat (n mod 128)) OR push_bit (7 * i + 7) (of_nat (n div 128)))"
      using "1.IH" [OF False off(2) left(1) nxt left(2)] by (simp add: add.commute or.assoc)
    also have "\<dots> = Some (True, advance s (length (uvarint n)), acc OR push_bit (7 * i) (of_nat n))"
      using False word_groups [of "7 * i" n, where 'a = 32] by (simp add: uvarint_big or.assoc)
    finally show ?thesis .
  qed
qed

lemma varint32_eof_uvarint:
  assumes "offers s (uvarint n)" "n < 2 ^ 32"
  shows "pb_decode_varint32_eof env s = Some (True, advance s (length (uvarint n)), of_nat n, False)"
proof (cases "n < 128")
  case True
  then show ?thesis
    using assms pb_readbyte_offers [of s "of_nat n" env] last_and_80 [of n]
      ucast_of_nat_small [of n, where 'a = 32]
    by (simp add: pb_decode_varint32_eof_def uvarint_small)
next
  case False
  then have off: "offers s [of_nat (n mod 128 + 128)]" "offers (advance s 1) (uvarint (n div 128))"
    using assms(1) offers_Cons [of s "of_nat (n mod 128 + 128)" "uvarint (n div 128)"]
      uvarint_big [of n] by (simp_all del: of_nat_add)
  have "varint32_loop env (advance s 1) 7 (of_nat (n mod 128)) =
      Some (True, advance (advance s 1) (length (uvarint (n div 128))), of_nat n)"
    using varint32_loop_uvarint [OF off(2), of 1 7 env "of_nat (n mod 128)"] False assms(2)
      word_groups [of 0 n, where 'a = 32] groups_left(1) [of n 0 32] by simp
  then show ?thesis
    using False pb_readbyte_offers [OF off(1), of env] group_and_7F [of n] group_and_80 [of n]
      ucast_of_nat_small [of "n mod 128", where 'a = 32]
    by (simp add: pb_decode_varint32_eof_def uvarint_big del: of_nat_add)
qed

lemma pb_decode_varint32_uvarint:
  "offers s (uvarint n) \<Longrightarrow> n < 2 ^ 32 \<Longrightarrow>
     pb_decode_varint32 env s = Some (True, advance s (length (uvarint n)), of_nat n)"
  by (simp add: pb_decode_varint32_def varint32_eof_uvarint)

lemma unzigzag_zigzag [simp]: "unzigzag (zigzag v) = v"
proof (cases "sint v < 0")
  case True
  then have top: "bit v 63" using bit_last_iff [of v] by simp
  have "bit (NOT (drop_bit 1 (NOT (push_bit 1 v)))) n = bit v n" if "n < 64" for n
    using that top by (cases "n = 63")
      (simp_all only: bit_not_iff bit_drop_bit_eq bit_push_bit_iff possible_bit_word o_apply, auto)
  then have "NOT (drop_bit 1 (NOT (push_bit 1 v))) = v"
    by (intro bit_word_eqI) simp
  moreover have "NOT (push_bit 1 v) AND 1 \<noteq> 0"
    using and_exp_eq_0_iff_not_bit [of "NOT (push_bit 1 v)" 0]
    by (simp only: power_0 bit_not_iff bit_push_bit_iff) simp
  ultimately show ?thesis using True by (simp only: unzigzag_def zigzag_def if_True simp_thms)
next
  case False
  then have top: "\<not> bit v 63" using bit_last_iff [of v] by simp
  have "bit (drop_bit 1 (push_bit 1 v)) n = bit v n" if "n < 64" for n
    using that top by (cases "n = 63")
      (simp_all only: bit_drop_bit_eq bit_push_bit_iff possible_bit_word o_apply, auto)
  then have "drop_bit 1 (push_bit 1 v) = v"
    by (intro bit_word_eqI) simp
  moreover have "push_bit 1 v AND 1 = 0"
    using and_exp_eq_0_iff_not_bit [of "push_bit 1 v" 0]
    by (simp only: power_0 bit_push_bit_iff) simp
  ultimately show ?thesis using False by (simp only: unzigzag_def zigzag_def if_False simp_thms)
qed

lemma uint_zigzag: "uint (zigzag v) = (if sint v < 0 then - 2 * sint v - 1 else 2 * sint v)"
proof -
  have lo: "- (2 ^ 63) \<le> sint v" and hi: "sint v < 2 ^ 63"
    using sint_greater_eq [of v] sint_lt [of v] by simp_all
  have "push_bit 1 v = of_int (2 * sint v)"
    by (simp add: push_bit_eq_mult)
  moreover have "NOT (push_bit 1 v) = of_int (- 2 * sint v - 1)"
    by (simp add: not_eq_complement push_bit_eq_mult)
  ultimately have "zigzag v = of_int (if sint v < 0 then - 2 * sint v - 1 else 2 * sint v)"
    by (simp only: zigzag_def split: if_splits) simp
  then have "uint (zigzag v) = (if sint v < 0 then - 2 * sint v - 1 else 2 * sint v) mod 2 ^ 64"
    by (simp only: uint_word_of_int) simp
  also have "\<dots> = (if sint v < 0 then - 2 * sint v - 1 else 2 * sint v)"
    using lo hi by (intro mod_pos_pos_trivial) auto
  finally show ?thesis .
qed

text \<open>The tag and string writers.\<close>

lemma ucast_u32_u64: "unat (ucast (w :: u32) :: u64) = unat w"
  using unat_u32_less [of w] by (simp add: unat_ucast)

lemma wire_type_value_of_nat: "wt \<in> {PB_WT_VARINT, PB_WT_64BIT, PB_WT_STRING, PB_WT_32BIT} \<Longrightarrow>
   unat (wire_type_value wt) < 8 \<and> wire_type_of (of_nat (unat (wire_type_value wt))) = wt"
  by (auto simp: wire_type_value_def wire_type_of_def)

lemma unat_and_7: "unat (w AND (7 :: u32)) = unat w mod 8"
  using unat_take_bit [of 3 w] by (simp add: take_bit_eq_mask mask_eq_exp_minus_1)

definition tag_number :: "pb_wire_type_t \<Rightarrow> u32 \<Rightarrow> nat" where
  "tag_number wt n = unat n * 8 + unat (wire_type_value wt)"

definition std_wire_type :: "pb_wire_type_t \<Rightarrow> bool" where
  "std_wire_type wt \<longleftrightarrow> wt \<in> {PB_WT_VARINT, PB_WT_64BIT, PB_WT_STRING, PB_WT_32BIT}"

lemma tag_value:
  assumes "std_wire_type wt"
  shows "unat (push_bit 3 (ucast n) OR wire_type_value wt) = tag_number wt n"
proof -
  let ?w = "wire_type_value wt"
  have w: "unat ?w < 8" using assms wire_type_value_of_nat by (auto simp: std_wire_type_def)
  show ?thesis
    using w unat_u32_less [of n] unat_push_bit_or [of ?w 3 "ucast n"]
    by (simp only: tag_number_def ucast_u32_u64) simp
qed

lemma pb_encode_tag_writes:
  "std_wire_type wt \<Longrightarrow> writes (\<lambda>s. pb_encode_tag env m s wt n) (uvarint (tag_number wt n))"
  using pb_encode_varint_writes [of env m "push_bit 3 (ucast n) OR wire_type_value wt"]
  by (simp add: pb_encode_tag_def Let_def tag_value)

lemma pb_decode_tag_reads:
  assumes wt: "std_wire_type wt" and n: "0 < unat n" "unat n < 2 ^ 29"
    and off: "offers s (uvarint (tag_number wt n))"
  shows "pb_decode_tag env s =
    Some (True, advance s (length (uvarint (tag_number wt n))), wt, n, False)"
proof -
  let ?t = "tag_number wt n"
  have w: "unat (wire_type_value wt) < 8" "wire_type_of (of_nat (unat (wire_type_value wt))) = wt"
    using wt wire_type_value_of_nat by (auto simp: std_wire_type_def)
  have t: "?t < 2 ^ 32" "0 < ?t" using n w by (auto simp: tag_number_def)
  have u: "unat (of_nat ?t :: u32) = ?t" using t by (simp add: unat_of_nat)
  have "unat (of_nat ?t AND (7 :: u32)) = unat (wire_type_value wt)"
    using w(1) by (simp only: unat_and_7 u) (simp add: tag_number_def)
  then have "of_nat ?t AND (7 :: u32) = of_nat (unat (wire_type_value wt))"
    by (metis of_nat_unat ucast_id)
  moreover have "drop_bit 3 (of_nat ?t :: u32) = n"
    using u w(1) by (intro word_unat_eq_iff [THEN iffD2])
      (simp add: drop_bit_eq_div unat_div tag_number_def)
  moreover have "(of_nat ?t :: u32) \<noteq> 0" using u t(2) by auto
  ultimately show ?thesis
    using varint32_eof_uvarint [OF off t(1), of env] w(2) by (simp add: pb_decode_tag_def)
qed

lemma pb_encode_string_writes:
  assumes "read_src m buf (unat sz) = Some bs" "length bs = unat sz"
  shows "writes (\<lambda>s. pb_encode_string env m s buf sz) (uvarint (unat sz) @ bs)"
  unfolding pb_encode_string_def
  by (rule writes_seq [OF pb_encode_varint_writes pb_write_writes [OF assms]])

lemma pb_read_offers:
  assumes "offers s bs" "length bs = unat count"
  shows "pb_read env s hb count = Some (True, advance s (length bs), bs)"
proof (cases "count = 0")
  case True then show ?thesis using assms by (simp add: pb_read_def)
next
  case False
  have c: "of_nat (length bs) = count" using assms(2) by simp
  have "\<not> is_bytes_left s < count" using assms by (simp add: offers_def word_less_nat_alt)
  then show ?thesis using False assms c
    by (auto simp: pb_read_def pb_read_checked_def run_icallback_def buf_read_def offers_def advance_def)
qed

lemma take_le_word: "of_nat (length bs) = w \<Longrightarrow> length bs < 2 ^ LENGTH('a) \<Longrightarrow> unat (w :: 'a::len word) = length bs"
  by (auto simp: unat_of_nat)

lemma make_substream_offers:
  assumes off: "offers s (uvarint (length bs) @ bs)" and n: "length bs < 2 ^ 32"
  shows "pb_make_string_substream env s =
    Some (True,
      (advance s (length (uvarint (length bs))))
        \<lparr>is_bytes_left := is_bytes_left s - of_nat (length (uvarint (length bs)) + length bs)\<rparr>,
      (advance s (length (uvarint (length bs))))\<lparr>is_bytes_left := of_nat (length bs)\<rparr>)"
proof -
  let ?k = "length (uvarint (length bs))"
  have "offers s (uvarint (length bs))" and off2: "offers (advance s ?k) bs"
    using off offers_append by auto
  then have "pb_decode_varint32 env s = Some (True, advance s ?k, of_nat (length bs))"
    using pb_decode_varint32_uvarint n by blast
  moreover have c: "ucast (of_nat (length bs) :: u32) = (of_nat (length bs) :: u64)"
    using n by (intro word_unat_eq_iff [THEN iffD2]) (simp add: unat_ucast unat_of_nat)
  moreover have "unat (of_nat (length bs) :: u64) = length bs"
    using n by (simp add: unat_of_nat)
  moreover have "\<not> is_bytes_left (advance s ?k) < of_nat (length bs)"
    using off2 n by (simp add: offers_def word_less_nat_alt unat_of_nat)
  ultimately show ?thesis
    by (simp add: pb_make_string_substream_def c)
      (simp add: advance_def algebra_simps)
qed

text \<open>Closing skips what is left of the substream, however much of it was read.\<close>

lemma close_substream_offers:
  assumes sub: "offers sub rest" "unat (is_bytes_left sub) = length rest"
  shows "pb_close_string_substream env s sub =
    Some (True, s\<lparr>is_state := drop (length rest) (is_state sub), is_errmsg := is_errmsg sub\<rparr>)"
proof (cases "is_bytes_left sub = 0")
  case True
  then have "rest = []" using sub by simp
  then show ?thesis using True by (simp add: pb_close_string_substream_def)
next
  case False
  then show ?thesis
    using pb_read_offers [OF sub(1), of "is_bytes_left sub" env False] sub(2)
    by (simp add: pb_close_string_substream_def) (simp add: advance_def)
qed

lemma pb_skip_varint_more: "offers s [b] \<Longrightarrow> 128 \<le> unat b \<Longrightarrow> pb_skip_varint env s = pb_skip_varint env (advance s 1)"
  using pb_read_offers [of s "[b]" 1 env True] and_80 [of b]
  by (subst pb_skip_varint.simps) simp

lemma pb_skip_varint_last: "offers s [b] \<Longrightarrow> unat b < 128 \<Longrightarrow> pb_skip_varint env s = Some (True, advance s 1)"
  using pb_read_offers [of s "[b]" 1 env True] and_80 [of b]
  by (subst pb_skip_varint.simps) simp

lemma pb_skip_varint_offers:
  "offers s (as @ [b]) \<Longrightarrow> \<forall>a \<in> set as. 128 \<le> unat a \<Longrightarrow> unat b < 128 \<Longrightarrow>
     pb_skip_varint env s = Some (True, advance s (length as + 1))"
proof (induction as arbitrary: s)
  case Nil
  then show ?case by (simp add: pb_skip_varint_last)
next
  case (Cons a as)
  have "offers s [a]" "offers (advance s 1) (as @ [b])"
    using Cons.prems(1) offers_Cons [of s a "as @ [b]"] by simp_all
  then show ?case using Cons pb_skip_varint_more [of s a env] by simp
qed

lemma uvarint_shape: "\<exists>as b. uvarint n = as @ [b] \<and> (\<forall>a \<in> set as. 128 \<le> unat a) \<and> unat b < 128"
proof (induction n rule: uvarint.induct)
  case (1 n)
  show ?case
  proof (cases "n < 128")
    case True
    then show ?thesis using unat_of_nat_byte [of n] by (intro exI [of _ "[]"]) (simp add: uvarint_small)
  next
    case False
    then obtain as b where "uvarint (n div 128) = as @ [b]" "\<forall>a \<in> set as. 128 \<le> unat a" "unat b < 128"
      using 1 by auto
    then show ?thesis using False unat_of_nat_byte [of "n mod 128 + 128"]
      by (intro exI [of _ "of_nat (n mod 128 + 128) # as"]) (simp add: uvarint_big del: of_nat_add)
  qed
qed

lemma pb_skip_varint_uvarint:
  "offers s (uvarint n) \<Longrightarrow> pb_skip_varint env s = Some (True, advance s (length (uvarint n)))"
  using uvarint_shape [of n] pb_skip_varint_offers by fastforce

text \<open>The payloads of the four wire types.\<close>

definition payload :: "pb_wire_type_t \<Rightarrow> bytes \<Rightarrow> bool" where
  "payload wt bs \<longleftrightarrow> (case wt of
     PB_WT_VARINT \<Rightarrow> bs \<noteq> [] \<and> (\<forall>b \<in> set (butlast bs). 128 \<le> unat b) \<and> unat (last bs) < 128
   | PB_WT_64BIT \<Rightarrow> length bs = 8
   | PB_WT_STRING \<Rightarrow> (\<exists>cs. length cs < 2 ^ 32 \<and> bs = uvarint (length cs) @ cs)
   | PB_WT_32BIT \<Rightarrow> length bs = 4
   | PB_WT_OTHER _ \<Rightarrow> False)"

lemma pb_skip_string_offers:
  assumes "offers s (uvarint (length cs) @ cs)" "length cs < 2 ^ 32"
  shows "pb_skip_string env s = Some (True, advance s (length (uvarint (length cs) @ cs)))"
proof -
  let ?k = "length (uvarint (length cs))"
  have "offers s (uvarint (length cs))" and off2: "offers (advance s ?k) cs"
    using assms(1) offers_append by auto
  then have "pb_decode_varint32 env s = Some (True, advance s ?k, of_nat (length cs))"
    using pb_decode_varint32_uvarint assms(2) by blast
  moreover have "unat (ucast (of_nat (length cs) :: u32) :: u64) = length cs"
    using assms(2) by (simp add: unat_ucast unat_of_nat)
  ultimately show ?thesis
    using pb_read_offers [OF off2, of "ucast (of_nat (length cs) :: u32)" env False]
    by (simp add: pb_skip_string_def)
qed

lemma pb_skip_field_payload:
  assumes off: "offers s bs" and p: "payload wt bs"
  shows "pb_skip_field env s wt = Some (True, advance s (length bs))"
proof (cases wt)
  case PB_WT_VARINT
  then have "bs = butlast bs @ [last bs]" using p by (simp add: payload_def)
  then show ?thesis
    using pb_skip_varint_offers [of s "butlast bs" "last bs" env] off p PB_WT_VARINT
    by (simp add: payload_def pb_skip_field_def)
next
  case PB_WT_64BIT
  then show ?thesis using p pb_read_offers [OF off, of 8 env False]
    by (simp add: payload_def pb_skip_field_def)
next
  case PB_WT_STRING
  then show ?thesis using p off pb_skip_string_offers
    by (auto simp: payload_def pb_skip_field_def)
next
  case PB_WT_32BIT
  then show ?thesis using p pb_read_offers [OF off, of 4 env False]
    by (simp add: payload_def pb_skip_field_def)
next
  case (PB_WT_OTHER w)
  then show ?thesis using p by (simp add: payload_def)
qed

lemma ucast_and_FF: "ucast (w AND 0xFF) = (ucast (w :: 'a::len word) :: byte)"
proof -
  have "(0xFF :: 'a word) = mask 8" by (simp add: mask_eq_exp_minus_1)
  then have "w AND 0xFF = take_bit 8 w" by (simp only: take_bit_eq_mask)
  then show ?thesis
    by (intro word_unat_eq_iff [THEN iffD2]) (simp add: unat_ucast unat_take_bit)
qed

lemma word_le_bytes_4:
  "word_le_bytes 4 w = [ucast w, ucast (drop_bit 8 w), ucast (drop_bit 16 w), ucast (drop_bit 24 w)]"
  by (simp add: word_le_bytes_def upt_rec)

lemma word_le_bytes_8:
  "word_le_bytes 8 w = [ucast w, ucast (drop_bit 8 w), ucast (drop_bit 16 w), ucast (drop_bit 24 w),
     ucast (drop_bit 32 w), ucast (drop_bit 40 w), ucast (drop_bit 48 w), ucast (drop_bit 56 w)]"
  by (simp add: word_le_bytes_def upt_rec)

lemma le_word_4: "length bs = 4 \<Longrightarrow>
  ucast (bs ! 0) OR push_bit 8 (ucast (bs ! 1)) OR push_bit 16 (ucast (bs ! 2)) OR
  push_bit 24 (ucast (bs ! 3)) = (le_word bs :: 'a::len word)"
  by (auto simp: length_Suc_conv numeral_eq_Suc push_bit_or simp del: push_bit_Suc)

lemma le_word_8: "length bs = 8 \<Longrightarrow>
  ucast (bs ! 0) OR push_bit 8 (ucast (bs ! 1)) OR push_bit 16 (ucast (bs ! 2)) OR
  push_bit 24 (ucast (bs ! 3)) OR push_bit 32 (ucast (bs ! 4)) OR push_bit 40 (ucast (bs ! 5)) OR
  push_bit 48 (ucast (bs ! 6)) OR push_bit 56 (ucast (bs ! 7)) = (le_word bs :: 'a::len word)"
  by (auto simp: length_Suc_conv numeral_eq_Suc push_bit_or or.assoc simp del: push_bit_Suc)

lemma pb_encode_fixed32_writes:
  "load_word m a 4 = Some w \<Longrightarrow> writes (\<lambda>s. pb_encode_fixed32 env m s a) (word_le_bytes 4 (w :: u32))"
  using pb_write_local [of "word_le_bytes 4 w" env m]
  by (simp add: pb_encode_fixed32_def word_le_bytes_4 ucast_and_FF)

lemma pb_encode_fixed64_writes:
  "load_word m a 8 = Some w \<Longrightarrow> writes (\<lambda>s. pb_encode_fixed64 env m s a) (word_le_bytes 8 (w :: u64))"
  using pb_write_local [of "word_le_bytes 8 w" env m]
  by (simp add: pb_encode_fixed64_def word_le_bytes_8 ucast_and_FF)

lemma pb_decode_fixed32_reads:
  assumes "offers s bs" "length bs = 4"
  shows "pb_decode_fixed32 env (s, m) a =
    do { m' \<leftarrow> store_word m a 4 (le_word bs :: u32); Some (True, advance s 4, m') }"
  using pb_read_offers [OF assms(1), of 4 env True] assms(2) le_word_4 [OF assms(2), where 'a = 32]
  by (simp add: pb_decode_fixed32_def Let_def)

lemma pb_decode_fixed64_reads:
  assumes "offers s bs" "length bs = 8"
  shows "pb_decode_fixed64 env (s, m) a =
    do { m' \<leftarrow> store_word m a 8 (le_word bs :: u64); Some (True, advance s 8, m') }"
  using pb_read_offers [OF assms(1), of 8 env True] assms(2) le_word_8 [OF assms(2), where 'a = 64]
  by (simp add: pb_decode_fixed64_def Let_def)

section \<open>Codecs\<close>

text \<open>
  The interface between an encoder and the decoder for the same values: the encoder writes the code
  of a value, the decoder reads the value back from any stream that begins with the code and
  consumes exactly the code.
\<close>

locale wire_codec =
  fixes enc :: "'v \<Rightarrow> pb_ostream_t \<Rightarrow> (bool \<times> pb_ostream_t) option"
    and dec :: "pb_istream_t \<Rightarrow> (bool \<times> pb_istream_t \<times> 'v) option"
    and code :: "'v \<Rightarrow> bytes"
    and valid :: "'v \<Rightarrow> bool"
  assumes enc_writes: "valid v \<Longrightarrow> writes (enc v) (code v)"
    and dec_reads: "valid v \<Longrightarrow> offers s (code v) \<Longrightarrow> dec s = Some (True, advance s (length (code v)), v)"
    and code_short: "valid v \<Longrightarrow> length (code v) < 2 ^ 32"
begin

lemma buffer_write:
  assumes "valid v"
  shows "if length (code v) \<le> unat cap
         then \<exists>s. enc v (pb_ostream_from_buffer cap) = Some (True, s) \<and> os_state s = code v \<and>
                  unat (os_bytes_written s) = length (code v)
         else \<exists>s. enc v (pb_ostream_from_buffer cap) = Some (False, s) \<and> length (os_state s) \<le> unat cap \<and>
                  os_errmsg s \<noteq> None"
proof -
  let ?s = "pb_ostream_from_buffer cap"
  have p: "plain_stream ?s" by (simp add: plain_stream_def pb_ostream_from_buffer_def)
  have r: "room ?s k \<longleftrightarrow> k \<le> unat cap" for k by (simp add: room_def pb_ostream_from_buffer_def)
  show ?thesis
  proof (cases "length (code v) \<le> unat cap")
    case True
    have "unat (of_nat (length (code v)) :: u64) = length (code v)"
      using code_short [OF assms] by (simp add: unat_of_nat)
    then show ?thesis
      using True writesD_room [OF enc_writes [OF assms] p] r
      by (simp add: emit_def) (simp add: pb_ostream_from_buffer_def)
  next
    case False
    then obtain s k e where "enc v ?s = Some (False, s)" "room ?s k" "k \<le> length (code v)"
      "s = emit ?s (take k (code v))\<lparr>os_errmsg := Some e\<rparr>"
      using writesD_full [OF enc_writes [OF assms] p] r by (auto simp: partial_emit_def)
    then show ?thesis using False r by (simp add: emit_def) (simp add: pb_ostream_from_buffer_def)
  qed
qed

text \<open>Reading back what was written, with any bytes after it.\<close>

lemma roundtrip:
  assumes v: "valid v" and w: "enc v (pb_ostream_from_buffer cap) = Some (True, s)"
    and len: "length (os_state s @ rest) < 2 ^ 64"
  shows "dec (pb_istream_from_buffer (os_state s @ rest) (of_nat (length (os_state s @ rest)))) =
    Some (True, pb_istream_from_buffer rest (of_nat (length rest)), v)"
proof -
  have s: "os_state s = code v"
    using buffer_write [OF v, of cap] w by (auto split: if_splits)
  let ?i = "pb_istream_from_buffer (code v @ rest) (of_nat (length (code v @ rest)))"
  have "unat (of_nat (length (code v @ rest)) :: u64) = length (code v @ rest)"
    using len s by (simp only: unat_of_nat) simp
  then have "offers ?i (code v)"
    by (simp add: offers_def pb_istream_from_buffer_def)
  then have "dec ?i = Some (True, advance ?i (length (code v)), v)" by (rule dec_reads [OF v])
  then show ?thesis by (simp add: s advance_def pb_istream_from_buffer_def)
qed

lemma fits_roundtrip:
  assumes v: "valid v" and cap: "length (code v) \<le> unat cap" and rest: "length rest < 2 ^ 63"
  shows "\<exists>s. enc v (pb_ostream_from_buffer cap) = Some (True, s) \<and> os_state s = code v \<and>
    dec (pb_istream_from_buffer (os_state s @ rest) (os_bytes_written s + of_nat (length rest))) =
      Some (True, pb_istream_from_buffer rest (of_nat (length rest)), v)"
proof -
  from buffer_write [OF v, of cap] cap
  obtain s where s: "enc v (pb_ostream_from_buffer cap) = Some (True, s)" "os_state s = code v"
      "unat (os_bytes_written s) = length (code v)" by auto
  then have w: "os_bytes_written s = of_nat (length (code v))" by (metis of_nat_unat ucast_id)
  have "length (os_state s @ rest) < 2 ^ 64" using s(2) rest code_short [OF v] by simp
  from roundtrip [OF v s(1) this] show ?thesis using s w by (simp add: add.commute)
qed

text \<open>No code is a proper prefix of another, so a sequence of codes is parsed in one way.\<close>

lemma prefix_free:
  assumes "valid v" "valid w" "code v @ xs = code w @ ys"
  shows "v = w \<and> xs = ys"
proof -
  let ?i = "pb_istream_from_buffer (code v @ xs) (2 ^ 32)"
  have u: "unat (2 ^ 32 :: u64) = 2 ^ 32" by simp
  have "\<exists>rest. code v @ xs = code w @ rest" using assms(3) by blast
  then have "offers ?i (code v)" "offers ?i (code w)"
    using assms(1,2) code_short [of v] code_short [of w] u
    by (auto simp: offers_def pb_istream_from_buffer_def)
  then have "v = w" using dec_reads [of v ?i] dec_reads [of w ?i] assms by simp
  then show ?thesis using assms(3) by simp
qed

text \<open>The size a sizing stream reports is the size a buffer needs.\<close>

lemma sizing:
  assumes "valid v"
  shows "enc v PB_OSTREAM_SIZING =
    Some (True, PB_OSTREAM_SIZING\<lparr>os_bytes_written := of_nat (length (code v))\<rparr>)"
proof -
  have "plain_stream PB_OSTREAM_SIZING" "room PB_OSTREAM_SIZING (length (code v))"
    by (simp_all add: plain_stream_def room_def PB_OSTREAM_SIZING_def)
  then show ?thesis
    using writesD_room [OF enc_writes [OF assms]] by (simp add: emit_def PB_OSTREAM_SIZING_def)
qed

end

interpretation varint_codec: wire_codec
  "\<lambda>v s. pb_encode_varint env m s v" "pb_decode_varint env" "\<lambda>v. uvarint (unat v)" "\<lambda>_. True"
proof
  show "writes (\<lambda>s. pb_encode_varint env m s v) (uvarint (unat v))" for v
    by (rule pb_encode_varint_writes)
  show "pb_decode_varint env s = Some (True, advance s (length (uvarint (unat v))), v)"
    if "offers s (uvarint (unat v))" for s v
    using pb_decode_varint_uvarint [OF that] unat_u64_less [of v] by simp
  show "length (uvarint (unat v)) < 2 ^ 32" for v :: u64
    using length_uvarint_u64 [OF unat_u64_less [of v]] by simp
qed

interpretation svarint_codec: wire_codec
  "\<lambda>v s. pb_encode_svarint env m s v" "pb_decode_svarint env" "\<lambda>v. uvarint (unat (zigzag v))" "\<lambda>_. True"
proof
  show "writes (\<lambda>s. pb_encode_svarint env m s v) (uvarint (unat (zigzag v)))" for v
    unfolding pb_encode_svarint_def by (rule pb_encode_varint_writes)
  show "pb_decode_svarint env s = Some (True, advance s (length (uvarint (unat (zigzag v)))), v)"
    if "offers s (uvarint (unat (zigzag v)))" for s v
    using varint_codec.dec_reads [OF _ that] by (simp add: pb_decode_svarint_def)
  show "length (uvarint (unat (zigzag v))) < 2 ^ 32" for v
    by (rule varint_codec.code_short) simp
qed

interpretation tag_codec: wire_codec
  "\<lambda>(wt, n) s. pb_encode_tag env m s wt n"
  "\<lambda>s. map_option (\<lambda>(ok, s, wt, n, eof). (ok \<and> \<not> eof, s, (wt, n))) (pb_decode_tag env s)"
  "\<lambda>(wt, n). uvarint (tag_number wt n)"
  "\<lambda>(wt, n). std_wire_type wt \<and> 0 < unat n \<and> unat n < 2 ^ 29"
proof
  fix v :: "pb_wire_type_t \<times> u32"
  obtain wt n where v: "v = (wt, n)" by (cases v)
  assume "case v of (wt, n) \<Rightarrow> std_wire_type wt \<and> 0 < unat n \<and> unat n < 2 ^ 29"
  then have a: "std_wire_type wt" "0 < unat n" "unat n < 2 ^ 29" by (auto simp: v)
  show "writes ((\<lambda>(wt, n) s. pb_encode_tag env m s wt n) v) ((\<lambda>(wt, n). uvarint (tag_number wt n)) v)"
    using pb_encode_tag_writes [OF a(1)] by (simp add: v)
  show "map_option (\<lambda>(ok, s, wt, n, eof). (ok \<and> \<not> eof, s, (wt, n))) (pb_decode_tag env s) =
      Some (True, advance s (length ((\<lambda>(wt, n). uvarint (tag_number wt n)) v)), v)"
    if "offers s ((\<lambda>(wt, n). uvarint (tag_number wt n)) v)" for s
    using pb_decode_tag_reads [OF a] that by (simp add: v)
  have "tag_number wt n < 2 ^ 64"
    using a wire_type_value_of_nat [of wt] by (auto simp: tag_number_def std_wire_type_def)
  from length_uvarint_u64 [OF this] show "length ((\<lambda>(wt, n). uvarint (tag_number wt n)) v) < 2 ^ 32"
    by (simp add: v)
qed

section \<open>Properties of the wire format\<close>

text \<open>C18: Every 64-bit number survives a varint round trip: \<^verbatim>\<open>pb_encode_varint\<close> succeeds in a
  buffer of ten bytes, and \<^verbatim>\<open>pb_decode_varint\<close> on what it wrote, followed by any other bytes,
  returns the number and leaves exactly the other bytes.\<close>

theorem varint_roundtrip:
  assumes "length rest < 2 ^ 63"
  shows "\<exists>s. pb_encode_varint env m (pb_ostream_from_buffer 10) v = Some (True, s) \<and>
     pb_decode_varint env
       (pb_istream_from_buffer (os_state s @ rest) (os_bytes_written s + of_nat (length rest))) =
       Some (True, pb_istream_from_buffer rest (of_nat (length rest)), v)"
  using varint_codec.fits_roundtrip [OF TrueI _ assms, of v 10 env m]
    length_uvarint_u64 [OF unat_u64_less [of v]] by auto

lemma varint_roundtrip_witness:
  "\<exists>s. pb_encode_varint (plain_env (\<lambda>_. [])) \<lparr>cbytes = \<lambda>_. None, cblocks = \<lambda>_. None\<rparr>
       (pb_ostream_from_buffer 10) 300 = Some (True, s) \<and>
     pb_decode_varint (plain_env (\<lambda>_. []))
       (pb_istream_from_buffer (os_state s @ [0x80]) (os_bytes_written s + of_nat (length [0x80 :: byte]))) =
       Some (True, pb_istream_from_buffer [0x80] (of_nat (length [0x80 :: byte])), 300)"
  by (rule varint_roundtrip) simp

text \<open>C27: Every signed 64-bit number survives the zigzag round trip of \<^verbatim>\<open>pb_encode_svarint\<close> and
  \<^verbatim>\<open>pb_decode_svarint\<close>, and a number of small magnitude, of either sign, takes few bytes: the
  \<open>k\<close>-byte codes are those of the numbers in \<open>- 2\<^sup>7\<^sup>k\<^sup>-\<^sup>1 .. 2\<^sup>7\<^sup>k\<^sup>-\<^sup>1 - 1\<close>.\<close>

theorem svarint_roundtrip:
  assumes "length rest < 2 ^ 63" "0 < k"
  shows "\<exists>s. pb_encode_svarint env m (pb_ostream_from_buffer 10) v = Some (True, s) \<and>
     pb_decode_svarint env
       (pb_istream_from_buffer (os_state s @ rest) (os_bytes_written s + of_nat (length rest))) =
       Some (True, pb_istream_from_buffer rest (of_nat (length rest)), v) \<and>
     (length (os_state s) \<le> k \<longleftrightarrow> - (2 ^ (7 * k - 1)) \<le> sint v \<and> sint v < 2 ^ (7 * k - 1))"
proof -
  let ?z = "unat (zigzag v)"
  have p: "(2::int) ^ (7 * k) = 2 * 2 ^ (7 * k - 1)"
    using assms(2) by (subst power_Suc [symmetric]) simp
  have "length (uvarint ?z) \<le> k \<longleftrightarrow> int ?z < 2 ^ (7 * k)"
    using assms(2) length_uvarint [of ?z k] of_nat_less_iff [of ?z "2 ^ (7 * k)", where 'a = int]
    by (simp del: of_nat_less_iff)
  also have "\<dots> \<longleftrightarrow> - (2 ^ (7 * k - 1)) \<le> sint v \<and> sint v < 2 ^ (7 * k - 1)"
    unfolding p using uint_zigzag [of v] by auto
  finally have "length (uvarint ?z) \<le> k \<longleftrightarrow> - (2 ^ (7 * k - 1)) \<le> sint v \<and> sint v < 2 ^ (7 * k - 1)" .
  then show ?thesis
    using svarint_codec.fits_roundtrip [OF TrueI _ assms(1), of v 10 env m]
      length_uvarint_u64 [OF unat_u64_less [of "zigzag v"]] by auto
qed

lemma svarint_roundtrip_witness:
  "\<exists>s. pb_encode_svarint (plain_env (\<lambda>_. [])) \<lparr>cbytes = \<lambda>_. None, cblocks = \<lambda>_. None\<rparr>
       (pb_ostream_from_buffer 10) (- 3) = Some (True, s) \<and>
     pb_decode_svarint (plain_env (\<lambda>_. []))
       (pb_istream_from_buffer (os_state s @ []) (os_bytes_written s + of_nat (length ([] :: bytes)))) =
       Some (True, pb_istream_from_buffer [] (of_nat (length ([] :: bytes))), - 3) \<and>
     (length (os_state s) \<le> 1 \<longleftrightarrow> - (2 ^ (7 * 1 - 1)) \<le> sint (- 3 :: u64) \<and> sint (- 3 :: u64) < 2 ^ (7 * 1 - 1))"
  by (rule svarint_roundtrip) simp_all

text \<open>A field tag survives its round trip for every wire type and every field number protobuf
  allows (up to 2^29 - 1): \<^verbatim>\<open>pb_decode_tag\<close> returns the wire type and the number that
  \<^verbatim>\<open>pb_encode_tag\<close> wrote, does not report the end of the message, and leaves the bytes after it.\<close>

theorem tag_roundtrip:
  assumes wt: "wt \<in> {PB_WT_VARINT, PB_WT_64BIT, PB_WT_STRING, PB_WT_32BIT}"
    and n: "0 < unat n" "unat n < 2 ^ 29" and rest: "length rest < 2 ^ 63"
  shows "\<exists>s. pb_encode_tag env m (pb_ostream_from_buffer 5) wt n = Some (True, s) \<and>
     pb_decode_tag env
       (pb_istream_from_buffer (os_state s @ rest) (os_bytes_written s + of_nat (length rest))) =
       Some (True, pb_istream_from_buffer rest (of_nat (length rest)), wt, n, False)"
proof -
  have std: "std_wire_type wt" using wt by (simp add: std_wire_type_def)
  have "unat (wire_type_value wt) < 8" using wt wire_type_value_of_nat by blast
  then have "length (uvarint (tag_number wt n)) \<le> 5"
    using n length_uvarint [of "tag_number wt n" 5] by (simp add: tag_number_def)
  then show ?thesis
    using tag_codec.fits_roundtrip [of "(wt, n)" 5 rest env m] std n rest by auto
qed

lemma tag_roundtrip_witness:
  "\<exists>s. pb_encode_tag (plain_env (\<lambda>_. [])) \<lparr>cbytes = \<lambda>_. None, cblocks = \<lambda>_. None\<rparr>
       (pb_ostream_from_buffer 5) PB_WT_STRING 1000 = Some (True, s) \<and>
     pb_decode_tag (plain_env (\<lambda>_. []))
       (pb_istream_from_buffer (os_state s @ [7]) (os_bytes_written s + of_nat (length [7 :: byte]))) =
       Some (True, pb_istream_from_buffer [7] (of_nat (length [7 :: byte])), PB_WT_STRING, 1000, False)"
  by (rule tag_roundtrip) simp_all

text \<open>C26: \<^verbatim>\<open>pb_skip_field\<close> skips exactly one value: on a stream that begins with a well-formed value
  of the wire type (any run of continuation bytes closed by a byte below 128, four or eight bytes,
  or a length and that many bytes) it succeeds and leaves the stream right behind the value.\<close>

theorem skip_field_exact:
  assumes "payload wt bs" "length bs + length rest < 2 ^ 64"
  shows "pb_skip_field env
      (pb_istream_from_buffer (bs @ rest) (of_nat (length (bs @ rest)))) wt =
    Some (True, pb_istream_from_buffer rest (of_nat (length rest)))"
proof -
  let ?s = "pb_istream_from_buffer (bs @ rest) (of_nat (length (bs @ rest)))"
  have "unat (of_nat (length (bs @ rest)) :: u64) = length (bs @ rest)"
    using assms(2) by (simp only: unat_of_nat) simp
  then have "offers ?s bs" by (simp add: offers_def pb_istream_from_buffer_def)
  from pb_skip_field_payload [OF this assms(1)] show ?thesis
    by (simp add: advance_def pb_istream_from_buffer_def)
qed

lemma skip_field_exact_witness:
  "pb_skip_field (plain_env (\<lambda>_. []))
      (pb_istream_from_buffer ([2, 10, 11] @ [8]) (of_nat (length ([2, 10, 11] @ [8 :: byte])))) PB_WT_STRING =
    Some (True, pb_istream_from_buffer [8] (of_nat (length [8 :: byte])))"
proof -
  have "[2, 10, 11] = uvarint (length [10, 11 :: byte]) @ [10, 11 :: byte]" by (simp add: uvarint_small)
  then have "payload PB_WT_STRING [2, 10, 11]" unfolding payload_def
    by (simp only: pb_wire_type_t.case) (rule exI [of _ "[10, 11]"], simp)
  then show ?thesis by (rule skip_field_exact) simp
qed

end
