(* ===== verification/PbEncode.thy ===== *)
theory PbEncode
  imports PbOut
begin

text \<open>
  nanopb, \<^verbatim>\<open>ios/Pods/nanopb/pb_encode.c\<close>: encoding of fields and messages.  The functions of the
  source call each other through \<open>pb_encode\<close>; here every one of them takes the encoder of nested
  messages as its argument \<open>rec\<close>, and \<open>pb_encode\<close> ties the knot with fuel that bounds the nesting
  depth of submessages and the length of an extension list.
\<close>

type_synonym message_encoder =
  "pb_ostream_t \<Rightarrow> pb_field_t list \<Rightarrow> addr \<Rightarrow> (bool \<times> pb_ostream_t) option"
type_synonym pb_encoder_t =
  "pb_ostream_t \<Rightarrow> pb_field_t \<Rightarrow> addr \<Rightarrow> (bool \<times> pb_ostream_t) option"

section \<open>Field encoders\<close>

definition safe_read_bool :: "cmem \<Rightarrow> addr \<Rightarrow> bool option" where
  "safe_read_bool m pSize = map_option (\<lambda>w. (w :: byte) \<noteq> 0) (load_word m pSize 1)"

definition pb_enc_bool :: "pb_env \<Rightarrow> cmem \<Rightarrow> pb_encoder_t" where
  "pb_enc_bool env m s f src = do {
     b \<leftarrow> safe_read_bool m src;
     pb_encode_varint env m s (if b then 1 else 0)
   }"

text \<open>An integer member of 1, 2, 4 or 8 bytes, sign-extended or zero-extended to 64 bits.\<close>

definition load_signed :: "cmem \<Rightarrow> addr \<Rightarrow> u32 \<Rightarrow> u64 option option" where
  "load_signed m src data_size =
     (if data_size = 1 then map_option (\<lambda>w. Some (scast (w :: byte))) (load_word m src 1)
      else if data_size = 2 then map_option (\<lambda>w. Some (scast (w :: u16))) (load_word m src 2)
      else if data_size = 4 then map_option (\<lambda>w. Some (scast (w :: u32))) (load_word m src 4)
      else if data_size = 8 then map_option Some (load_word m src 8)
      else Some None)"

definition load_unsigned :: "cmem \<Rightarrow> addr \<Rightarrow> u32 \<Rightarrow> u64 option option" where
  "load_unsigned m src data_size =
     (if data_size = 1 then map_option (\<lambda>w. Some (ucast (w :: byte))) (load_word m src 1)
      else if data_size = 2 then map_option (\<lambda>w. Some (ucast (w :: u16))) (load_word m src 2)
      else if data_size = 4 then map_option (\<lambda>w. Some (ucast (w :: u32))) (load_word m src 4)
      else if data_size = 8 then map_option Some (load_word m src 8)
      else Some None)"

definition pb_enc_varint :: "pb_env \<Rightarrow> cmem \<Rightarrow> pb_encoder_t" where
  "pb_enc_varint env m s f src = do {
     value \<leftarrow> load_signed m src (fld_data_size f);
     case value of None \<Rightarrow> os_fail s ''invalid data_size''
     | Some v \<Rightarrow> pb_encode_varint env m s v
   }"

definition pb_enc_uvarint :: "pb_env \<Rightarrow> cmem \<Rightarrow> pb_encoder_t" where
  "pb_enc_uvarint env m s f src = do {
     value \<leftarrow> load_unsigned m src (fld_data_size f);
     case value of None \<Rightarrow> os_fail s ''invalid data_size''
     | Some v \<Rightarrow> pb_encode_varint env m s v
   }"

definition pb_enc_svarint :: "pb_env \<Rightarrow> cmem \<Rightarrow> pb_encoder_t" where
  "pb_enc_svarint env m s f src = do {
     value \<leftarrow> load_signed m src (fld_data_size f);
     case value of None \<Rightarrow> os_fail s ''invalid data_size''
     | Some v \<Rightarrow> pb_encode_svarint env m s v
   }"

definition pb_enc_fixed64 :: "pb_env \<Rightarrow> cmem \<Rightarrow> pb_encoder_t" where
  "pb_enc_fixed64 env m s f src = pb_encode_fixed64 env m s src"

definition pb_enc_fixed32 :: "pb_env \<Rightarrow> cmem \<Rightarrow> pb_encoder_t" where
  "pb_enc_fixed32 env m s f src = pb_encode_fixed32 env m s src"

text \<open>\<open>pb_bytes_array_t\<close>: the size at offset 0, the bytes at offset 4.\<close>

definition bytes_offset :: nat where "bytes_offset = 4"

definition pb_enc_bytes :: "pb_env \<Rightarrow> cmem \<Rightarrow> pb_encoder_t" where
  "pb_enc_bytes env m s f src =
     (if src = 0 then pb_encode_string env m s CNull 0
      else do {
        size \<leftarrow> load_word m src 4;
        if PB_ATYPE (fld_type f) = PB_ATYPE_STATIC \<and>
           ucast (size :: u32) > (ucast (fld_data_size f) - of_nat bytes_offset :: u64)
        then os_fail s ''bytes size exceeded''
        else pb_encode_string env m s (CMem (src + bytes_offset)) (ucast size)
      })"

text \<open>The loop \<open>while (size < max_size && *p != 0)\<close>; \<open>p\<close> is \<open>src + sz\<close>, where
  \<open>sz\<close> is \<open>size\<close>.\<close>

function string_loop :: "cmem \<Rightarrow> addr \<Rightarrow> nat \<Rightarrow> nat \<Rightarrow> nat option" where
  "string_loop m src max_size sz =
     (if sz < max_size then do {
        c \<leftarrow> cbytes m (src + sz);
        if c \<noteq> 0 then string_loop m src max_size (sz + 1) else Some sz
      } else Some sz)"
  by pat_completeness auto
termination
  by (relation "measure (\<lambda>(m, src, max_size, sz). max_size - sz)") auto

declare string_loop.simps [simp del]

definition pb_enc_string :: "pb_env \<Rightarrow> cmem \<Rightarrow> pb_encoder_t" where
  "pb_enc_string env m s f src =
     (let max_size = (if PB_ATYPE (fld_type f) = PB_ATYPE_POINTER then - 1
                      else ucast (fld_data_size f) :: u64) in
      if src = 0 then pb_encode_string env m s CNull 0
      else do {
        size \<leftarrow> string_loop m src (unat max_size) 0;
        pb_encode_string env m s (CMem src) (of_nat size)
      })"

definition pb_encode_submessage ::
  "pb_env \<Rightarrow> cmem \<Rightarrow> message_encoder \<Rightarrow> pb_ostream_t \<Rightarrow> pb_field_t list \<Rightarrow> addr \<Rightarrow>
     (bool \<times> pb_ostream_t) option" where
  "pb_encode_submessage env m rec s fs src = do {
     (ok, substream) \<leftarrow> rec PB_OSTREAM_SIZING fs src;
     if \<not> ok then Some (False, s\<lparr>os_errmsg := os_errmsg substream\<rparr>)
     else
       let size = os_bytes_written substream in
       and_then (pb_encode_varint env m s size) (\<lambda>s.
         if os_callback s = OutNull then pb_write env m s CNull size
         else if os_bytes_written s + size > os_max_size s then os_fail s ''stream full''
         else do {
           (status, substream) \<leftarrow>
             rec \<lparr>os_callback = os_callback s, os_state = os_state s, os_max_size = size,
                  os_bytes_written = 0, os_errmsg = None\<rparr> fs src;
           let s = s\<lparr>os_bytes_written := os_bytes_written s + os_bytes_written substream,
                     os_state := os_state substream, os_errmsg := os_errmsg substream\<rparr>;
           if os_bytes_written substream \<noteq> size then os_fail s ''submsg size changed''
           else Some (status, s)
         })
   }"

definition pb_enc_submessage :: "pb_env \<Rightarrow> cmem \<Rightarrow> message_encoder \<Rightarrow> pb_encoder_t" where
  "pb_enc_submessage env m rec s f src =
     (case fld_ptr f of
        PtrNull \<Rightarrow> os_fail s ''invalid field descriptor''
      | PtrFields d \<Rightarrow> pb_encode_submessage env m rec s (descs env d) src
      | PtrDefault _ \<Rightarrow> None)"

definition pb_enc_fixed_length_bytes :: "pb_env \<Rightarrow> cmem \<Rightarrow> pb_encoder_t" where
  "pb_enc_fixed_length_bytes env m s f src =
     pb_encode_string env m s (if src = 0 then CNull else CMem src) (ucast (fld_data_size f))"

text \<open>
  The table of field encoders.  Indexing it past its end is undefined (\<^term>\<open>None\<close>); the entry for
  extensions is NULL and faults when called.
\<close>

definition PB_ENCODERS :: "pb_env \<Rightarrow> cmem \<Rightarrow> message_encoder \<Rightarrow> byte \<Rightarrow> pb_encoder_t option" where
  "PB_ENCODERS env m rec lt =
     (if lt = PB_LTYPE_BOOL then Some (pb_enc_bool env m)
      else if lt = PB_LTYPE_VARINT then Some (pb_enc_varint env m)
      else if lt = PB_LTYPE_UVARINT then Some (pb_enc_uvarint env m)
      else if lt = PB_LTYPE_SVARINT then Some (pb_enc_svarint env m)
      else if lt = PB_LTYPE_FIXED32 then Some (pb_enc_fixed32 env m)
      else if lt = PB_LTYPE_FIXED64 then Some (pb_enc_fixed64 env m)
      else if lt = PB_LTYPE_BYTES then Some (pb_enc_bytes env m)
      else if lt = PB_LTYPE_STRING then Some (pb_enc_string env m)
      else if lt = PB_LTYPE_SUBMESSAGE then Some (pb_enc_submessage env m rec)
      else if lt = PB_LTYPE_EXTENSION then Some (\<lambda>_ _ _. None)
      else if lt = PB_LTYPE_FIXED_LENGTH_BYTES then Some (pb_enc_fixed_length_bytes env m)
      else None)"

section \<open>Arrays\<close>

fun packed_loop ::
  "nat \<Rightarrow> pb_encoder_t \<Rightarrow> pb_field_t \<Rightarrow> pb_ostream_t \<Rightarrow> addr \<Rightarrow> (bool \<times> pb_ostream_t) option" where
  "packed_loop 0 func f s p = Some (True, s)"
| "packed_loop (Suc k) func f s p =
     and_then (func s f p) (\<lambda>s. packed_loop k func f s (p + unat (fld_data_size f)))"

definition array_entry_is_pointer :: "pb_field_t \<Rightarrow> bool" where
  "array_entry_is_pointer f \<longleftrightarrow>
     PB_ATYPE (fld_type f) = PB_ATYPE_POINTER \<and>
     (PB_LTYPE (fld_type f) = PB_LTYPE_STRING \<or> PB_LTYPE (fld_type f) = PB_LTYPE_BYTES)"

fun unpacked_loop ::
  "pb_env \<Rightarrow> cmem \<Rightarrow> nat \<Rightarrow> pb_encoder_t \<Rightarrow> pb_field_t \<Rightarrow> pb_ostream_t \<Rightarrow> addr \<Rightarrow>
     (bool \<times> pb_ostream_t) option" where
  "unpacked_loop env m 0 func f s p = Some (True, s)"
| "unpacked_loop env m (Suc k) func f s p =
     and_then (pb_encode_tag_for_field env m s f) (\<lambda>s.
     and_then (if array_entry_is_pointer f then do { q \<leftarrow> load_ptr m p; func s f q } else func s f p)
       (\<lambda>s. unpacked_loop env m k func f s (p + unat (fld_data_size f))))"

text \<open>The byte size of a packed array, by arithmetic or by a dry run on a sizing stream.\<close>

definition packed_size :: "pb_encoder_t \<Rightarrow> pb_field_t \<Rightarrow> addr \<Rightarrow> u64 \<Rightarrow> (bool \<times> u64) option" where
  "packed_size func f pData count =
     (if PB_LTYPE (fld_type f) = PB_LTYPE_FIXED32 then Some (True, 4 * count)
      else if PB_LTYPE (fld_type f) = PB_LTYPE_FIXED64 then Some (True, 8 * count)
      else do {
        (ok, sizestream) \<leftarrow> packed_loop (unat count) func f PB_OSTREAM_SIZING pData;
        Some (ok, os_bytes_written sizestream)
      })"

definition encode_array ::
  "pb_env \<Rightarrow> cmem \<Rightarrow> pb_encoder_t \<Rightarrow> pb_ostream_t \<Rightarrow> pb_field_t \<Rightarrow> addr \<Rightarrow> u64 \<Rightarrow>
     (bool \<times> pb_ostream_t) option" where
  "encode_array env m func s f pData count =
     (if count = 0 then Some (True, s)
      else if PB_ATYPE (fld_type f) \<noteq> PB_ATYPE_POINTER \<and> count > ucast (fld_array_size f)
      then os_fail s ''array max size exceeded''
      else if PB_LTYPE (fld_type f) \<le> PB_LTYPE_LAST_PACKABLE then
        and_then (pb_encode_tag env m s PB_WT_STRING (fld_tag f)) (\<lambda>s. do {
          (ok, size) \<leftarrow> packed_size func f pData count;
          if \<not> ok then Some (False, s)
          else and_then (pb_encode_varint env m s size) (\<lambda>s.
            if os_callback s = OutNull then pb_write env m s CNull size
            else packed_loop (unat count) func f s pData)
        })
      else unpacked_loop env m (unat count) func f s pData)"

section \<open>Proto3 default values\<close>

fun zero_loop :: "cmem \<Rightarrow> addr \<Rightarrow> nat \<Rightarrow> bool option" where
  "zero_loop m p 0 = Some True"
| "zero_loop m p (Suc k) = do { b \<leftarrow> cbytes m p; if b \<noteq> 0 then Some False else zero_loop m (p + 1) k }"

fun check_loop ::
  "nat \<Rightarrow> (pb_field_t \<Rightarrow> addr \<Rightarrow> bool option) \<Rightarrow> pb_field_iter_t \<Rightarrow> bool option" where
  "check_loop 0 chk it = None"
| "check_loop (Suc k) chk it = do {
     f \<leftarrow> cur_field it;
     b \<leftarrow> chk f (it_pData it);
     if \<not> b then Some False
     else do {
       (more, it) \<leftarrow> pb_field_iter_next it;
       if more then check_loop k chk it else Some True
     }
   }"

definition check_default_body ::
  "pb_env \<Rightarrow> cmem \<Rightarrow> (pb_field_t \<Rightarrow> addr \<Rightarrow> bool option) \<Rightarrow> pb_field_t \<Rightarrow> addr \<Rightarrow> bool option" where
  "check_default_body env m chk f pData =
     (let type = fld_type f;
          pSize = offset_ptr pData (fld_size_offset f) in
      if PB_HTYPE type = PB_HTYPE_REQUIRED then Some False
      else if PB_HTYPE type = PB_HTYPE_REPEATED \<and> fld_size_offset f \<noteq> 0 then
        map_option (\<lambda>w. (w :: u32) = 0) (load_word m pSize 4)
      else if PB_HTYPE type = PB_HTYPE_REPEATED \<and> PB_ATYPE type = PB_ATYPE_STATIC then Some False
      else if PB_HTYPE type = PB_HTYPE_ONEOF then
        map_option (\<lambda>w. (w :: u32) = 0) (load_word m pSize 4)
      else if PB_HTYPE type = PB_HTYPE_OPTIONAL \<and> fld_size_offset f \<noteq> 0 then
        map_option Not (safe_read_bool m pSize)
      else if PB_ATYPE type = PB_ATYPE_STATIC \<and> PB_LTYPE type = PB_LTYPE_BYTES then
        map_option (\<lambda>w. (w :: u32) = 0) (load_word m pData 4)
      else if PB_ATYPE type = PB_ATYPE_STATIC \<and> PB_LTYPE type = PB_LTYPE_STRING then
        map_option (\<lambda>c. c = 0) (cbytes m pData)
      else if PB_ATYPE type = PB_ATYPE_STATIC \<and> PB_LTYPE type = PB_LTYPE_FIXED_LENGTH_BYTES then
        Some (fld_data_size f = 0)
      else if PB_ATYPE type = PB_ATYPE_STATIC \<and> PB_LTYPE type = PB_LTYPE_SUBMESSAGE then
        (case fld_ptr f of
           PtrFields d \<Rightarrow> do {
             (nonempty, it) \<leftarrow> pb_field_iter_begin (descs env d) pData 0;
             if nonempty then check_loop (length (descs env d)) chk it else Some True
           }
         | _ \<Rightarrow> None)
      else if PB_ATYPE type = PB_ATYPE_POINTER \<and> PB_LTYPE type > PB_LTYPE_LAST_PACKABLE then
        map_option (\<lambda>p. p = 0) (load_ptr m pData)
      else zero_loop m pData (unat (fld_data_size f)))"

fun pb_check_proto3_default_value ::
  "pb_env \<Rightarrow> cmem \<Rightarrow> nat \<Rightarrow> pb_field_t \<Rightarrow> addr \<Rightarrow> bool option" where
  "pb_check_proto3_default_value env m 0 f pData = None"
| "pb_check_proto3_default_value env m (Suc n) f pData =
     check_default_body env m (pb_check_proto3_default_value env m n) f pData"

section \<open>Fields\<close>

text \<open>
  \<open>implicit_has\<close> before and after the pointer of a dynamically allocated field is followed, and
  the \<open>has\<close> value that \<open>pSize\<close> designates when it points at \<open>implicit_has\<close>.
\<close>

definition implicit_has_of :: "pb_env \<Rightarrow> cmem \<Rightarrow> nat \<Rightarrow> pb_field_t \<Rightarrow> addr \<Rightarrow> bool option" where
  "implicit_has_of env m n f pData =
     (if fld_size_offset f \<noteq> 0 then Some False
      else if PB_HTYPE (fld_type f) = PB_HTYPE_OPTIONAL
      then map_option Not (pb_check_proto3_default_value env m n f pData)
      else Some True)"

definition encode_basic_field ::
  "pb_env \<Rightarrow> cmem \<Rightarrow> nat \<Rightarrow> message_encoder \<Rightarrow> pb_encoder_t" where
  "encode_basic_field env m n rec s f pData = do {
     func \<leftarrow> PB_ENCODERS env m rec (PB_LTYPE (fld_type f));
     implicit_has \<leftarrow> implicit_has_of env m n f pData;
     let pSize = offset_ptr pData (fld_size_offset f);
     let is_ptr = (PB_ATYPE (fld_type f) = PB_ATYPE_POINTER);
     pData \<leftarrow> (if is_ptr then load_ptr m pData else Some pData);
     let implicit_has = (if is_ptr then pData \<noteq> 0 else implicit_has);
     if PB_HTYPE (fld_type f) = PB_HTYPE_REQUIRED then
       if pData = 0 then os_fail s ''missing required field''
       else and_then (pb_encode_tag_for_field env m s f) (\<lambda>s. func s f pData)
     else if PB_HTYPE (fld_type f) = PB_HTYPE_OPTIONAL then do {
       has \<leftarrow> (if fld_size_offset f \<noteq> 0 then safe_read_bool m pSize else Some implicit_has);
       if has then and_then (pb_encode_tag_for_field env m s f) (\<lambda>s. func s f pData)
       else Some (True, s)
     }
     else if PB_HTYPE (fld_type f) = PB_HTYPE_REPEATED then do {
       count \<leftarrow> (if fld_size_offset f \<noteq> 0 then load_word m pSize 4 else Some (fld_array_size f));
       encode_array env m func s f pData (ucast (count :: u32))
     }
     else if PB_HTYPE (fld_type f) = PB_HTYPE_ONEOF then do {
       which \<leftarrow> (if fld_size_offset f \<noteq> 0 then load_word m pSize 4 else None);
       if (which :: u32) = fld_tag f
       then and_then (pb_encode_tag_for_field env m s f) (\<lambda>s. func s f pData)
       else Some (True, s)
     }
     else os_fail s ''invalid field type''
   }"

text \<open>A callback field: \<open>pb_callback_t\<close> holds the function at offset 0 and \<open>arg\<close> at offset 8.\<close>

definition encode_callback_field :: "pb_env \<Rightarrow> cmem \<Rightarrow> pb_encoder_t" where
  "encode_callback_field env m s f pData = do {
     fn \<leftarrow> load_ptr m pData;
     if fn \<noteq> 0 then do {
       (ok, s) \<leftarrow> enc_cb env fn m s f (pData + 8);
       if \<not> ok then os_fail s ''callback error'' else Some (True, s)
     }
     else Some (True, s)
   }"

definition encode_field :: "pb_env \<Rightarrow> cmem \<Rightarrow> nat \<Rightarrow> message_encoder \<Rightarrow> pb_encoder_t" where
  "encode_field env m n rec s f pData =
     (if PB_ATYPE (fld_type f) = PB_ATYPE_STATIC \<or> PB_ATYPE (fld_type f) = PB_ATYPE_POINTER
      then encode_basic_field env m n rec s f pData
      else if PB_ATYPE (fld_type f) = PB_ATYPE_CALLBACK then encode_callback_field env m s f pData
      else os_fail s ''invalid field type'')"

text \<open>
  \<open>pb_extension_t\<close>: type at offset 0, dest at 8, next at 16, found at 24.
\<close>

definition default_extension_encoder ::
  "pb_env \<Rightarrow> cmem \<Rightarrow> nat \<Rightarrow> message_encoder \<Rightarrow> pb_extension_type_t \<Rightarrow> pb_ostream_t \<Rightarrow> addr \<Rightarrow>
     (bool \<times> pb_ostream_t) option" where
  "default_extension_encoder env m n rec et s extension =
     (let f = et_arg et in
      if PB_ATYPE (fld_type f) = PB_ATYPE_POINTER
      then encode_field env m n rec s f (extension + 8)
      else do { dest \<leftarrow> load_ptr m (extension + 8); encode_field env m n rec s f dest })"

fun extension_encode_loop ::
  "pb_env \<Rightarrow> cmem \<Rightarrow> nat \<Rightarrow> message_encoder \<Rightarrow> nat \<Rightarrow> pb_ostream_t \<Rightarrow> addr \<Rightarrow>
     (bool \<times> pb_ostream_t) option" where
  "extension_encode_loop env m n rec 0 s extension = None"
| "extension_encode_loop env m n rec (Suc k) s extension =
     (if extension = 0 then Some (True, s)
      else do {
        type \<leftarrow> load_ptr m extension;
        et \<leftarrow> ext_types env type;
        and_then
          (if et_encode et \<noteq> 0 then ext_enc_cb env (et_encode et) m s extension
           else default_extension_encoder env m n rec et s extension)
          (\<lambda>s. do { next_ext \<leftarrow> load_ptr m (extension + 16);
                    extension_encode_loop env m n rec k s next_ext })
      })"

definition encode_extension_field ::
  "pb_env \<Rightarrow> cmem \<Rightarrow> nat \<Rightarrow> message_encoder \<Rightarrow> pb_encoder_t" where
  "encode_extension_field env m n rec s f pData = do {
     extension \<leftarrow> load_ptr m pData;
     extension_encode_loop env m n rec (Suc n) s extension
   }"

section \<open>Messages\<close>

fun encode_loop ::
  "nat \<Rightarrow> pb_encoder_t \<Rightarrow> pb_ostream_t \<Rightarrow> pb_field_iter_t \<Rightarrow> (bool \<times> pb_ostream_t) option" where
  "encode_loop 0 enc s it = None"
| "encode_loop (Suc k) enc s it = do {
     f \<leftarrow> cur_field it;
     and_then (enc s f (it_pData it)) (\<lambda>s. do {
       (more, it) \<leftarrow> pb_field_iter_next it;
       if more then encode_loop k enc s it else Some (True, s)
     })
   }"

definition encode_one :: "pb_env \<Rightarrow> cmem \<Rightarrow> nat \<Rightarrow> message_encoder \<Rightarrow> pb_encoder_t" where
  "encode_one env m n rec s f pData =
     (if PB_LTYPE (fld_type f) = PB_LTYPE_EXTENSION
      then encode_extension_field env m n rec s f pData
      else encode_field env m n rec s f pData)"

definition encode_body :: "pb_env \<Rightarrow> cmem \<Rightarrow> nat \<Rightarrow> message_encoder \<Rightarrow> message_encoder" where
  "encode_body env m n rec s fs src = do {
     (nonempty, it) \<leftarrow> pb_field_iter_begin fs src 0;
     if \<not> nonempty then Some (True, s)
     else encode_loop (length fs) (encode_one env m n rec) s it
   }"

fun pb_encode :: "pb_env \<Rightarrow> cmem \<Rightarrow> nat \<Rightarrow> message_encoder" where
  "pb_encode env m 0 s fs src = None"
| "pb_encode env m (Suc n) s fs src = encode_body env m n (pb_encode env m n) s fs src"

definition pb_encode_delimited :: "pb_env \<Rightarrow> cmem \<Rightarrow> nat \<Rightarrow> message_encoder" where
  "pb_encode_delimited env m n s fs src = pb_encode_submessage env m (pb_encode env m n) s fs src"

definition pb_encode_nullterminated :: "pb_env \<Rightarrow> cmem \<Rightarrow> nat \<Rightarrow> message_encoder" where
  "pb_encode_nullterminated env m n s fs src =
     and_then (pb_encode env m n s fs src) (\<lambda>s. pb_write env m s (CLocal [0]) 1)"

text \<open>\<^term>\<open>Some None\<close> is the return value false, with \<open>*size\<close> untouched.\<close>

definition pb_get_encoded_size ::
  "pb_env \<Rightarrow> cmem \<Rightarrow> nat \<Rightarrow> pb_field_t list \<Rightarrow> addr \<Rightarrow> u64 option option" where
  "pb_get_encoded_size env m n fs src = do {
     (ok, stream) \<leftarrow> pb_encode env m n PB_OSTREAM_SIZING fs src;
     Some (if ok then Some (os_bytes_written stream) else None)
   }"

end
