(* ===== verification/PbMessage.thy ===== *)
theory PbMessage
  imports PbWire PbEncode
begin

text \<open>
  Whole messages: \<^verbatim>\<open>pb_encode\<close>, \<^verbatim>\<open>pb_get_encoded_size\<close> and the delimited forms.  Every encoder
  of \<^verbatim>\<open>pb_encode.c\<close> that succeeds once writes the same bytes wherever it is run again, on a buffer or
  on a sizing stream; this is what makes the two-pass scheme for submessages and packed arrays, a
  dry run for the length and then the writing, correct.  The rules \<open>uniform_intros\<close> carry the claim
  through the functions of the source, and induction on the nesting depth ties the knot.
\<close>

section \<open>Uniform encoders\<close>

text \<open>
  Streams without a pending error and with a limit a C object can have.  An encoder is uniform when
  its success on one buffer stream fixes its output: it then meets the contract \<open>writes_on\<close> with
  the same bytes on every stream, sizing streams included.  The output must be one a C object can
  hold: nothing in the source stops the sum of a count and a size from wrapping around.
\<close>

definition fresh :: "pb_ostream_t \<Rightarrow> bool" where
  "fresh s \<longleftrightarrow> os_errmsg s = None \<and> unat (os_max_size s) < 2 ^ 63"

definition grown :: "pb_ostream_t \<Rightarrow> bytes \<Rightarrow> pb_ostream_t \<Rightarrow> bool" where
  "grown s bs s' \<longleftrightarrow> plain_stream s' \<and> os_callback s' = OutBuf \<and> os_state s' = os_state s @ bs \<and>
     os_bytes_written s' = os_bytes_written s + of_nat (length bs)"

definition uniform :: "(pb_ostream_t \<Rightarrow> (bool \<times> pb_ostream_t) option) \<Rightarrow> bool" where
  "uniform f \<longleftrightarrow> (\<forall>s s'. plain_stream s \<and> os_callback s = OutBuf \<and> f s = Some (True, s') \<longrightarrow>
     (\<exists>bs. grown s bs s' \<and> (fresh s \<and> length bs < 2 ^ 63 \<longrightarrow> writes_on fresh f bs)))"

named_theorems uniform_intros \<open>the encoders that are uniform\<close>

lemma fresh_emit [simp]: "fresh (emit s bs) = fresh s"
  by (simp add: fresh_def)

lemma uniformI:
  "(\<And>s s'. plain_stream s \<Longrightarrow> os_callback s = OutBuf \<Longrightarrow> f s = Some (True, s') \<Longrightarrow>
     \<exists>bs. grown s bs s' \<and> (fresh s \<and> length bs < 2 ^ 63 \<longrightarrow> writes_on fresh f bs)) \<Longrightarrow> uniform f"
  unfolding uniform_def by blast

lemma grown_emit: "plain_stream s \<Longrightarrow> os_callback s = OutBuf \<Longrightarrow> room s (length bs) \<Longrightarrow> grown s bs (emit s bs)"
  using plain_emit [of s bs] by (simp add: grown_def) (simp add: emit_def)

lemma uniform_success:
  assumes "uniform f" "plain_stream s" "os_callback s = OutBuf" "f s = Some (True, s')"
  obtains bs where "grown s bs s'"
    "fresh s \<Longrightarrow> length bs < 2 ^ 63 \<Longrightarrow> writes_on fresh f bs \<and> room s (length bs) \<and> s' = emit s bs"
proof -
  obtain bs where g: "grown s bs s'" and w: "fresh s \<Longrightarrow> length bs < 2 ^ 63 \<Longrightarrow> writes_on fresh f bs"
    using assms unfolding uniform_def by blast
  have "room s (length bs) \<and> s' = emit s bs" if "fresh s" "length bs < 2 ^ 63"
    using writes_onD_full [OF w [OF that] assms(2) that(1)] writes_onD_room [OF w [OF that] assms(2) that(1)]
      assms(4) by auto
  then show ?thesis using that g w by blast
qed

lemma uniform_writes: "writes f bs \<Longrightarrow> uniform f"
proof (rule uniformI)
  fix s s'
  assume f: "writes f bs" and s: "plain_stream s" "os_callback s = OutBuf" "f s = Some (True, s')"
  have "room s (length bs)" using writesD_full [OF f s(1)] s(3) by auto
  then have "grown s bs s'" using grown_emit [OF s(1,2)] writesD_room [OF f s(1)] s(3) by auto
  then show "\<exists>bs. grown s bs s' \<and> (fresh s \<and> length bs < 2 ^ 63 \<longrightarrow> writes_on fresh f bs)"
    using f by (blast intro: writes_on_mono)
qed

lemma uniform_nothing [uniform_intros]: "uniform (\<lambda>s. Some (True, s))"
  by (rule uniform_writes [OF writes_nothing])

lemma uniform_none [uniform_intros]: "uniform (\<lambda>s. None)"
  by (rule uniformI) simp

lemma uniform_fail [uniform_intros]: "uniform (\<lambda>s. os_fail s msg)" "uniform (\<lambda>s. Some (False, g s))"
  by (rule uniformI, simp add: os_fail_def)+

lemma uniform_seq [uniform_intros]:
  assumes f: "uniform f" and g: "uniform g"
  shows "uniform (\<lambda>s. and_then (f s) g)"
proof (rule uniformI)
  fix s s'
  assume s: "plain_stream s" "os_callback s = OutBuf" and r: "and_then (f s) g = Some (True, s')"
  then obtain t where t: "f s = Some (True, t)" "g t = Some (True, s')" by (auto simp: and_then_eq_Some)
  obtain as where as: "grown s as t"
    "fresh s \<Longrightarrow> length as < 2 ^ 63 \<Longrightarrow> writes_on fresh f as \<and> room s (length as) \<and> t = emit s as"
    using uniform_success [OF f s t(1)] by metis
  have "plain_stream t" "os_callback t = OutBuf" using as(1) by (simp_all add: grown_def)
  then obtain bs where bs: "grown t bs s'" "fresh t \<Longrightarrow> length bs < 2 ^ 63 \<Longrightarrow> writes_on fresh g bs"
    using uniform_success [OF g _ _ t(2)] by metis
  have "grown s (as @ bs) s'" using as(1) bs(1) by (simp add: grown_def add.assoc)
  moreover have "writes_on fresh (\<lambda>s. and_then (f s) g) (as @ bs)" if "fresh s" "length (as @ bs) < 2 ^ 63"
    using as(2) bs(2) that by (intro writes_on_seq) auto
  ultimately show "\<exists>bs. grown s bs s' \<and> (fresh s \<and> length bs < 2 ^ 63 \<longrightarrow> writes_on fresh (\<lambda>s. and_then (f s) g) bs)"
    by blast
qed

lemma uniform_bind [uniform_intros]:
  "(\<And>x. e = Some x \<Longrightarrow> uniform (f x)) \<Longrightarrow> uniform (\<lambda>s. Option.bind e (\<lambda>x. f x s))"
  by (cases e) (simp_all add: uniform_none)

lemma uniform_if [uniform_intros]:
  "(b \<Longrightarrow> uniform f) \<Longrightarrow> (\<not> b \<Longrightarrow> uniform g) \<Longrightarrow> uniform (\<lambda>s. if b then f s else g s)"
  by (cases b) simp_all

lemma uniform_case_option [uniform_intros]:
  "uniform f \<Longrightarrow> (\<And>x. e = Some x \<Longrightarrow> uniform (g x)) \<Longrightarrow> uniform (\<lambda>s. case e of None \<Rightarrow> f s | Some x \<Rightarrow> g x s)"
  by (cases e) simp_all

lemma length_load_bytes: "load_bytes m a n = Some bs \<Longrightarrow> length bs = n"
  by (induction n arbitrary: a bs) (auto simp: Option.bind_eq_Some_conv)

lemma length_read_src: "read_src m buf n = Some bs \<Longrightarrow> length bs = n"
  by (cases buf) (auto simp: length_load_bytes split: if_splits)

lemma uniform_write [uniform_intros]: "uniform (\<lambda>s. pb_write env m s buf count)"
proof (cases "count = 0")
  case True
  then have "writes (\<lambda>s. pb_write env m s buf count) []"
    by (subst writes_cong [where g = "\<lambda>s. Some (True, s)"]) (simp_all add: pb_write_def writes_nothing)
  then show ?thesis by (rule uniform_writes)
next
  case False
  show ?thesis
  proof (cases "read_src m buf (unat count)")
    case None
    have "pb_write env m s buf count \<noteq> Some (True, s')" if "os_callback s = OutBuf" for s s'
      using that False None by (auto simp: pb_write_def os_fail_def word_gt_0)
    then show ?thesis by (intro uniformI) blast
  next
    case (Some bs)
    then show ?thesis using uniform_writes [OF pb_write_writes] length_read_src by blast
  qed
qed

lemma uniform_varint [uniform_intros]: "uniform (\<lambda>s. pb_encode_varint env m s v)"
  by (rule uniform_writes [OF pb_encode_varint_writes])

lemma uniform_svarint [uniform_intros]: "uniform (\<lambda>s. pb_encode_svarint env m s v)"
  unfolding pb_encode_svarint_def by (rule uniform_varint)

lemma uniform_fixed [uniform_intros]:
  "uniform (\<lambda>s. pb_encode_fixed32 env m s a)" "uniform (\<lambda>s. pb_encode_fixed64 env m s a)"
  unfolding pb_encode_fixed32_def pb_encode_fixed64_def by (intro uniform_intros)+

lemma uniform_tag [uniform_intros]: "uniform (\<lambda>s. pb_encode_tag env m s wt n)"
  unfolding pb_encode_tag_def Let_def by (intro uniform_intros)

lemma uniform_tag_for_field [uniform_intros]: "uniform (\<lambda>s. pb_encode_tag_for_field env m s f)"
  unfolding pb_encode_tag_for_field_def by (intro uniform_intros)

lemma uniform_string [uniform_intros]: "uniform (\<lambda>s. pb_encode_string env m s buf sz)"
  unfolding pb_encode_string_def by (intro uniform_intros)

section \<open>Submessages\<close>

lemma sub_stream:
  assumes "writes_on fresh f bs" "length bs < 2 ^ 63" "os_errmsg s = None" "os_callback s \<noteq> OutNull" "plain_stream s"
  defines "sub \<equiv> \<lparr>os_callback = os_callback s, os_state = os_state s, os_max_size = of_nat (length bs),
                  os_bytes_written = 0, os_errmsg = None\<rparr>"
  shows "f sub = Some (True, \<lparr>os_callback = os_callback s, os_state = os_state s @ bs,
    os_max_size = of_nat (length bs), os_bytes_written = of_nat (length bs), os_errmsg = None\<rparr>)"
proof -
  have len: "unat (of_nat (length bs) :: u64) = length bs" using assms(2) by (simp add: unat_of_nat)
  have "plain_stream sub" using assms(4,5) by (simp add: plain_stream_def sub_def)
  moreover have "fresh sub" using len assms(2) by (simp add: fresh_def sub_def)
  moreover have "room sub (length bs)" using len by (simp add: room_def sub_def)
  ultimately have "f sub = Some (True, emit sub bs)" by (rule writes_onD_room [OF assms(1)])
  then show ?thesis using assms(4) by (simp add: emit_def sub_def)
qed

lemma sizing_stream:
  assumes "writes_on fresh f bs"
  shows "f PB_OSTREAM_SIZING = Some (True, PB_OSTREAM_SIZING\<lparr>os_bytes_written := of_nat (length bs)\<rparr>)"
proof -
  have "plain_stream PB_OSTREAM_SIZING" "fresh PB_OSTREAM_SIZING" "room PB_OSTREAM_SIZING (length bs)"
    by (simp_all add: plain_stream_def fresh_def room_def PB_OSTREAM_SIZING_def)
  then show ?thesis using writes_onD_room [OF assms] by (simp add: emit_def PB_OSTREAM_SIZING_def)
qed

text \<open>What follows the length of a submessage, and the submessage as a whole.\<close>

definition sub_body :: "pb_env \<Rightarrow> cmem \<Rightarrow> message_encoder \<Rightarrow> pb_field_t list \<Rightarrow> addr \<Rightarrow> u64 \<Rightarrow> pb_ostream_t \<Rightarrow>
    (bool \<times> pb_ostream_t) option" where
  "sub_body env m rec fs src len s =
    (if os_callback s = OutNull then pb_write env m s CNull len
     else if os_bytes_written s + len > os_max_size s then os_fail s ''stream full''
     else do {
       (status, substream) \<leftarrow>
         rec \<lparr>os_callback = os_callback s, os_state = os_state s, os_max_size = len,
              os_bytes_written = 0, os_errmsg = None\<rparr> fs src;
       let s = s\<lparr>os_bytes_written := os_bytes_written s + os_bytes_written substream,
                 os_state := os_state substream, os_errmsg := os_errmsg substream\<rparr>;
       if os_bytes_written substream \<noteq> len then os_fail s ''submsg size changed''
       else Some (status, s)
     })"

lemma submessage_eq:
  "pb_encode_submessage env m rec s fs src = do {
     (ok, substream) \<leftarrow> rec PB_OSTREAM_SIZING fs src;
     if \<not> ok then Some (False, s\<lparr>os_errmsg := os_errmsg substream\<rparr>)
     else and_then (pb_encode_varint env m s (os_bytes_written substream))
       (sub_body env m rec fs src (os_bytes_written substream))
   }"
  unfolding pb_encode_submessage_def sub_body_def Let_def ..

lemma sub_body_writes:
  assumes rec: "writes_on fresh (\<lambda>s. rec s fs src) bs" and len: "length bs < 2 ^ 63"
  shows "writes_on fresh (sub_body env m rec fs src (of_nat (length bs))) bs"
  unfolding writes_on_def
proof (intro allI impI, elim conjE)
  fix s assume s: "plain_stream s" "fresh s"
  let ?body = "sub_body env m rec fs src (of_nat (length bs))"
  have l: "unat (of_nat (length bs) :: u64) = length bs" using len by (simp add: unat_of_nat)
  show "if room s (length bs) then ?body s = Some (True, emit s bs)
        else \<exists>s'. ?body s = Some (False, s') \<and> partial_emit s bs s'"
  proof (cases "os_callback s = OutNull")
    case True
    then show ?thesis by (simp add: sub_body_def room_def pb_write_def emit_def)
  next
    case False
    have small: "unat (os_bytes_written s) + length bs < 2 ^ 64"
      using s len False by (auto simp: plain_stream_def fresh_def word_le_nat_alt)
    then have "os_bytes_written s + of_nat (length bs) > os_max_size s \<longleftrightarrow> \<not> room s (length bs)"
      using False l by (auto simp: room_def word_less_nat_alt unat_word_ariths)
    then show ?thesis
      using False sub_stream [OF rec len _ False s(1)] s set_error_partial [OF s(1)]
      by (auto simp: sub_body_def Let_def os_fail_def fresh_def emit_def)
  qed
qed

lemma submessage_writes:
  assumes rec: "writes_on fresh (\<lambda>s. rec s fs src) bs" and len: "length bs < 2 ^ 63"
  shows "writes_on fresh (\<lambda>s. pb_encode_submessage env m rec s fs src) (uvarint (length bs) @ bs)"
proof -
  have l: "unat (of_nat (length bs) :: u64) = length bs" using len by (simp add: unat_of_nat)
  have "pb_encode_submessage env m rec s fs src =
      and_then (pb_encode_varint env m s (of_nat (length bs))) (sub_body env m rec fs src (of_nat (length bs)))" for s
    using sizing_stream [OF rec] by (simp add: submessage_eq)
  moreover have "writes_on fresh (\<lambda>s. pb_encode_varint env m s (of_nat (length bs))) (uvarint (length bs))"
    using pb_encode_varint_writes [of env m "of_nat (length bs)"] l by (auto intro: writes_on_mono)
  ultimately show ?thesis using writes_on_seq [OF _ sub_body_writes [where rec = rec and env = env and m = m, OF rec len]] by simp
qed

lemma uniform_submessage [uniform_intros]:
  assumes "uniform (\<lambda>s. rec s fs src)"
  shows "uniform (\<lambda>s. pb_encode_submessage env m rec s fs src)"
proof (rule uniformI)
  fix s s'
  assume s: "plain_stream s" "os_callback s = OutBuf"
    and r: "pb_encode_submessage env m rec s fs src = Some (True, s')"
  from r obtain len t where t: "pb_encode_varint env m s len = Some (True, t)"
    and b: "sub_body env m rec fs src len t = Some (True, s')"
    by (auto simp: submessage_eq Option.bind_eq_Some_conv and_then_eq_Some split: if_splits)
  obtain as where as: "grown s as t" using uniform_success [OF uniform_varint s t] by metis
  let ?sub = "\<lparr>os_callback = OutBuf, os_state = os_state t, os_max_size = len,
                os_bytes_written = 0, os_errmsg = None\<rparr>"
  have ot: "os_callback t = OutBuf" using as by (simp add: grown_def)
  with b obtain sub where sub: "rec ?sub fs src = Some (True, sub)"
    and len: "os_bytes_written sub = len" "\<not> os_bytes_written t + len > os_max_size t"
    and s': "s' = t\<lparr>os_bytes_written := os_bytes_written t + os_bytes_written sub,
                     os_state := os_state sub, os_errmsg := os_errmsg sub\<rparr>"
    by (auto simp: sub_body_def Let_def os_fail_def Option.bind_eq_Some_conv split: if_splits)
  have ps: "plain_stream ?sub" "os_callback ?sub = OutBuf" by (simp_all add: plain_stream_def)
  obtain bs where bs: "grown ?sub bs sub"
    "fresh ?sub \<Longrightarrow> length bs < 2 ^ 63 \<Longrightarrow> writes_on fresh (\<lambda>s. rec s fs src) bs \<and> room ?sub (length bs) \<and> sub = emit ?sub bs"
    using uniform_success [OF assms ps sub] by metis
  have l: "len = of_nat (length bs)" using bs(1) len(1) by (simp add: grown_def)
  have "grown s (as @ bs) s'"
    using as bs(1) len s' ot by (simp add: grown_def plain_stream_def not_less l add.assoc)
  moreover have "writes_on fresh (\<lambda>s. pb_encode_submessage env m rec s fs src) (as @ bs)"
    if f: "fresh s" "length (as @ bs) < 2 ^ 63"
  proof -
    have u: "unat len = length bs" using f(2) by (simp add: l unat_of_nat)
    then have "fresh ?sub" using f(2) by (simp add: fresh_def)
    then have w: "writes_on fresh (\<lambda>s. rec s fs src) bs" using bs(2) f(2) by simp
    have v: "writes_on fresh (\<lambda>s. pb_encode_varint env m s len) (uvarint (length bs))"
      using writes_on_mono [OF pb_encode_varint_writes] u by metis
    have "as = uvarint (length bs)"
    proof -
      have "room s (length (uvarint (length bs)))"
        using writes_onD_full [OF v s(1) f(1)] t by auto
      then have "t = emit s (uvarint (length bs))" using writes_onD_room [OF v s(1) f(1)] t by simp
      then show ?thesis using as s(2) by (simp add: grown_def emit_def)
    qed
    then show ?thesis using submessage_writes [where rec = rec and env = env and m = m, OF w] f(2) by simp
  qed
  ultimately show "\<exists>bs. grown s bs s' \<and> (fresh s \<and> length bs < 2 ^ 63 \<longrightarrow>
      writes_on fresh (\<lambda>s. pb_encode_submessage env m rec s fs src) bs)"
    by blast
qed

section \<open>Arrays, fields and messages\<close>

lemma uniform_packed_loop [uniform_intros]:
  "(\<And>p. uniform (\<lambda>s. func s f p)) \<Longrightarrow> uniform (\<lambda>s. packed_loop k func f s p)"
  by (induction k arbitrary: p) (auto intro!: uniform_intros)

lemma uniform_unpacked_loop [uniform_intros]:
  "(\<And>p. uniform (\<lambda>s. func s f p)) \<Longrightarrow> uniform (\<lambda>s. unpacked_loop env m k func f s p)"
  by (induction k arbitrary: p) (auto intro!: uniform_intros)

text \<open>The size computed for a packed array is that of its entries: by arithmetic for entries of fixed
  size, which the encoder must then write, else by a run on a sizing stream.\<close>

definition entry_size :: "pb_field_t \<Rightarrow> nat option" where
  "entry_size f = (if PB_LTYPE (fld_type f) = PB_LTYPE_FIXED32 then Some 4
     else if PB_LTYPE (fld_type f) = PB_LTYPE_FIXED64 then Some 8 else None)"

definition fixed_entries :: "pb_encoder_t \<Rightarrow> pb_field_t \<Rightarrow> bool" where
  "fixed_entries func f \<longleftrightarrow> (\<forall>p n bs. entry_size f = Some n \<longrightarrow> writes_on fresh (\<lambda>s. func s f p) bs \<longrightarrow>
     length bs < 2 ^ 63 \<longrightarrow> length bs = n)"

lemma writes_on_witness:
  assumes "writes_on fresh f bs" "length bs < 2 ^ 63"
  obtains s where "plain_stream s" "fresh s" "os_callback s = OutBuf" "os_state s = []"
    "f s = Some (True, emit s bs)"
proof -
  define s where "s = pb_ostream_from_buffer (of_nat (length bs))"
  have u: "unat (of_nat (length bs) :: u64) = length bs" using assms(2) by (simp add: unat_of_nat)
  have s: "plain_stream s" "fresh s" "room s (length bs)" "os_state s = []" "os_callback s = OutBuf"
    using assms(2) u by (simp_all add: s_def plain_stream_def fresh_def room_def pb_ostream_from_buffer_def)
  show ?thesis using that s writes_onD_room [OF assms(1) s(1,2,3)] by blast
qed

lemma writes_on_unique:
  assumes "writes_on fresh f as" "writes_on fresh f bs" "length as < 2 ^ 63"
  shows "as = bs"
proof -
  obtain s where s: "plain_stream s" "fresh s" "os_callback s = OutBuf" "os_state s = []" "f s = Some (True, emit s as)"
    using writes_on_witness [OF assms(1,3)] .
  then have "room s (length bs)" using writes_onD_full [OF assms(2)] by fastforce
  then have "emit s as = emit s bs" using writes_onD_room [OF assms(2) s(1,2)] s(5) by simp
  then have "os_state (emit s as) = os_state (emit s bs)" by simp
  then show ?thesis by (simp add: emit_def s)
qed

lemma packed_loop_length:
  assumes func: "\<And>p. uniform (\<lambda>s. func s f p)" and fixed: "fixed_entries func f" "entry_size f = Some n"
  shows "writes_on fresh (\<lambda>s. packed_loop k func f s p) bs \<Longrightarrow> length bs < 2 ^ 63 \<Longrightarrow> length bs = n * k"
proof (induction k arbitrary: p bs)
  case 0
  have "writes_on fresh (\<lambda>s. Some (True, s)) []" by (rule writes_on_mono [OF writes_nothing]) simp
  then show ?case using writes_on_unique [of "\<lambda>s. Some (True, s)" bs "[]"] 0 by simp
next
  case (Suc k)
  let ?rest = "\<lambda>s. packed_loop k func f s (p + unat (fld_data_size f))"
  obtain s where s: "plain_stream s" "fresh s" "os_callback s = OutBuf" "os_state s = []"
      "and_then (func s f p) ?rest = Some (True, emit s bs)"
    using writes_on_witness [OF Suc.prems] by auto
  then obtain t where t: "func s f p = Some (True, t)" "?rest t = Some (True, emit s bs)"
    by (auto simp: and_then_eq_Some)
  obtain as where as: "grown s as t"
    "fresh s \<Longrightarrow> length as < 2 ^ 63 \<Longrightarrow> writes_on fresh (\<lambda>s. func s f p) as \<and> room s (length as) \<and> t = emit s as"
    using uniform_success [OF func s(1,3) t(1)] by metis
  have ts: "plain_stream t" "os_callback t = OutBuf" using as(1) by (simp_all add: grown_def)
  obtain cs where cs: "grown t cs (emit s bs)"
    "fresh t \<Longrightarrow> length cs < 2 ^ 63 \<Longrightarrow> writes_on fresh ?rest cs"
    using uniform_success [OF uniform_packed_loop [where func = func and f = f, OF func] ts t(2)] by metis
  have bs: "bs = as @ cs" using as(1) cs(1) s(3,4) by (auto simp: grown_def emit_def)
  then have "length as = n" using as(2) s(2) Suc.prems(2) fixed by (auto simp: fixed_entries_def)
  moreover have "length cs = n * k"
    using as(2) cs(2) s(2) bs Suc.prems(2) by (intro Suc.IH) auto
  ultimately show ?case by (simp add: bs)
qed

lemma uniform_dry_run:
  assumes f: "uniform f" and len: "\<And>bs. writes_on fresh f bs \<Longrightarrow> length bs < 2 ^ 63 \<Longrightarrow> len = of_nat (length bs)"
  shows "uniform (\<lambda>s. if os_callback s = OutNull then pb_write env m s CNull len else f s)"
proof (rule uniformI)
  fix s s'
  assume s: "plain_stream s" "os_callback s = OutBuf"
    and r: "(if os_callback s = OutNull then pb_write env m s CNull len else f s) = Some (True, s')"
  let ?g = "\<lambda>s. if os_callback s = OutNull then pb_write env m s CNull len else f s"
  from r s(2) have "f s = Some (True, s')" by simp
  then obtain bs where bs: "grown s bs s'" "fresh s \<Longrightarrow> length bs < 2 ^ 63 \<Longrightarrow> writes_on fresh f bs"
    using uniform_success [OF f s] by metis
  have "writes_on fresh ?g bs" if "fresh s" "length bs < 2 ^ 63"
    using bs(2) [OF that] len [OF bs(2) [OF that] that(2)]
    unfolding writes_on_def by (auto simp: room_def pb_write_def emit_def)
  then show "\<exists>bs. grown s bs s' \<and> (fresh s \<and> length bs < 2 ^ 63 \<longrightarrow> writes_on fresh ?g bs)"
    using bs(1) by blast
qed

lemma uniform_array [uniform_intros]:
  assumes func: "\<And>p. uniform (\<lambda>s. func s f p)" and fixed: "fixed_entries func f"
  shows "uniform (\<lambda>s. encode_array env m func s f p (ucast (count :: u32)))"
proof -
  have c: "unat (ucast count :: u64) = unat count" by (rule ucast_u32_u64)
  have size: "len = of_nat (length bs)"
    if p: "packed_size func f p (ucast count) = Some (True, len)"
      and w: "writes_on fresh (\<lambda>s. packed_loop (unat (ucast count :: u64)) func f s p) bs" "length bs < 2 ^ 63" for len bs
  proof (cases "entry_size f")
    case (Some n)
    then have "length bs = n * unat count" using packed_loop_length [OF func fixed Some w] c by simp
    moreover have "len = of_nat n * ucast count"
      using p Some by (auto simp: packed_size_def entry_size_def split: if_splits)
    ultimately show ?thesis by simp
  next
    case None
    then show ?thesis
      using p sizing_stream [OF w(1)] by (auto simp: packed_size_def entry_size_def split: if_splits)
  qed
  have "uniform (\<lambda>s. do {
      (ok, size) \<leftarrow> packed_size func f p (ucast count);
      if \<not> ok then Some (False, s)
      else and_then (pb_encode_varint env m s size) (\<lambda>s.
        if os_callback s = OutNull then pb_write env m s CNull size
        else packed_loop (unat (ucast count :: u64)) func f s p)
    })"
    by (intro uniform_bind) (auto intro!: uniform_intros uniform_dry_run func size split: prod.splits)
  then show ?thesis
    unfolding encode_array_def
    by (intro uniform_if uniform_nothing uniform_fail uniform_seq uniform_tag uniform_unpacked_loop func)
qed


text \<open>
  What the library asks of the callbacks of the user: a callback may run several times, for sizing and
  for writing, and must write the same data each time.
\<close>

definition uniform_callbacks :: "pb_env \<Rightarrow> cmem \<Rightarrow> bool" where
  "uniform_callbacks env m \<longleftrightarrow>
     (\<forall>fn f arg. uniform (\<lambda>s. enc_cb env fn m s f arg)) \<and> (\<forall>fn ext. uniform (\<lambda>s. ext_enc_cb env fn m s ext))"

lemma uniform_enc_callback [uniform_intros]:
  assumes "uniform_callbacks env m"
  shows "uniform (\<lambda>s. encode_callback_field env m s f p)"
proof -
  have "uniform (\<lambda>s. Option.bind (enc_cb env fn m s f arg) (\<lambda>(ok, s). if \<not> ok then os_fail s msg else Some (True, s)))"
    for fn arg msg
  proof (rule uniformI)
    let ?f = "\<lambda>s. enc_cb env fn m s f arg"
    let ?g = "\<lambda>s. Option.bind (?f s) (\<lambda>(ok, s). if \<not> ok then os_fail s msg else Some (True, s))"
    fix s s'
    assume s: "plain_stream s" "os_callback s = OutBuf" and r: "?g s = Some (True, s')"
    have u: "uniform ?f" using assms by (simp add: uniform_callbacks_def)
    from r have "?f s = Some (True, s')" by (auto simp: Option.bind_eq_Some_conv os_fail_def split: if_splits)
    then obtain bs where bs: "grown s bs s'" "fresh s \<Longrightarrow> length bs < 2 ^ 63 \<Longrightarrow> writes_on fresh ?f bs"
      using uniform_success [OF u s] by metis
    have "writes_on fresh ?g bs" if w: "writes_on fresh ?f bs"
      unfolding writes_on_def
    proof (intro allI impI, elim conjE)
      fix s assume s: "plain_stream s" "fresh s"
      show "if room s (length bs) then ?g s = Some (True, emit s bs) else \<exists>s'. ?g s = Some (False, s') \<and> partial_emit s bs s'"
      proof (cases "room s (length bs)")
        case True
        then show ?thesis using writes_onD_room [OF w s] by simp
      next
        case False
        then obtain s' where s': "?f s = Some (False, s')" "partial_emit s bs s'" using writes_onD_full [OF w s] by auto
        then have "os_set_error s' msg = s'" by (auto simp: os_set_error_def partial_emit_def)
        then show ?thesis using False s' by (simp add: os_fail_def)
      qed
    qed
    then show "\<exists>bs. grown s bs s' \<and> (fresh s \<and> length bs < 2 ^ 63 \<longrightarrow> writes_on fresh ?g bs)" using bs by blast
  qed
  then show ?thesis unfolding encode_callback_field_def by (intro uniform_bind uniform_if uniform_nothing)
qed

text \<open>The table of field encoders.\<close>

lemma uniform_encoders:
  assumes rec: "\<And>fs src. uniform (\<lambda>s. rec s fs src)" and func: "PB_ENCODERS env m rec lt = Some func"
  shows "uniform (\<lambda>s. func s f p)"
proof -
  have "uniform (\<lambda>s. pb_enc_bool env m s f p)" "uniform (\<lambda>s. pb_enc_varint env m s f p)"
    "uniform (\<lambda>s. pb_enc_uvarint env m s f p)" "uniform (\<lambda>s. pb_enc_svarint env m s f p)"
    "uniform (\<lambda>s. pb_enc_fixed32 env m s f p)" "uniform (\<lambda>s. pb_enc_fixed64 env m s f p)"
    "uniform (\<lambda>s. pb_enc_bytes env m s f p)" "uniform (\<lambda>s. pb_enc_string env m s f p)"
    "uniform (\<lambda>s. pb_enc_fixed_length_bytes env m s f p)"
    unfolding pb_enc_bool_def pb_enc_varint_def pb_enc_uvarint_def pb_enc_svarint_def pb_enc_fixed32_def
      pb_enc_fixed64_def pb_enc_bytes_def pb_enc_string_def pb_enc_fixed_length_bytes_def Let_def
    by (intro uniform_intros)+
  moreover have "uniform (\<lambda>s. pb_enc_submessage env m rec s f p)"
    unfolding pb_enc_submessage_def by (cases "fld_ptr f") (auto intro!: uniform_intros rec)
  ultimately show ?thesis using func by (auto simp: PB_ENCODERS_def uniform_none split: if_splits)
qed

lemma fixed_encoders:
  assumes "PB_ENCODERS env m rec (PB_LTYPE (fld_type f)) = Some func"
  shows "fixed_entries func f"
  unfolding fixed_entries_def
proof (intro allI impI)
  fix p n bs
  assume n: "entry_size f = Some n" and w: "writes_on fresh (\<lambda>s. func s f p) bs" "length bs < 2 ^ 63"
  obtain s where s: "func s f p = Some (True, emit s bs)" using writes_on_witness [OF w] by metis
  consider "n = 4" "func = pb_enc_fixed32 env m" | "n = 8" "func = pb_enc_fixed64 env m"
  proof -
    have "PB_ENCODERS env m rec PB_LTYPE_FIXED32 = Some (pb_enc_fixed32 env m)"
      "PB_ENCODERS env m rec PB_LTYPE_FIXED64 = Some (pb_enc_fixed64 env m)"
      by (simp_all add: PB_ENCODERS_def pb_type_defs)
    then show ?thesis using that n assms by (auto simp: entry_size_def split: if_splits)
  qed
  then show "length bs = n"
  proof cases
    case 1
    then obtain v where "load_word m p 4 = Some (v :: u32)"
      using s by (auto simp: pb_enc_fixed32_def pb_encode_fixed32_def Option.bind_eq_Some_conv)
    from writes_on_mono [OF pb_encode_fixed32_writes [OF this]]
    have "writes_on fresh (\<lambda>s. func s f p) (word_le_bytes 4 v)" using 1 by (simp add: pb_enc_fixed32_def)
    then show ?thesis using writes_on_unique [OF w(1) _ w(2)] 1 by auto
  next
    case 2
    then obtain v where "load_word m p 8 = Some (v :: u64)"
      using s by (auto simp: pb_enc_fixed64_def pb_encode_fixed64_def Option.bind_eq_Some_conv)
    from writes_on_mono [OF pb_encode_fixed64_writes [OF this]]
    have "writes_on fresh (\<lambda>s. func s f p) (word_le_bytes 8 v)" using 2 by (simp add: pb_enc_fixed64_def)
    then show ?thesis using writes_on_unique [OF w(1) _ w(2)] 2 by auto
  qed
qed

lemma uniform_basic_field:
  assumes rec: "\<And>fs src. uniform (\<lambda>s. rec s fs src)"
  shows "uniform (\<lambda>s. encode_basic_field env m n rec s f p)"
  unfolding encode_basic_field_def Let_def
  by (intro uniform_bind uniform_if uniform_fail uniform_seq uniform_tag_for_field uniform_nothing;
      (rule uniform_array, rule uniform_encoders [OF rec], assumption, rule fixed_encoders, assumption |
       rule uniform_encoders [OF rec], assumption))

lemma uniform_field:
  assumes "uniform_callbacks env m" "\<And>fs src. uniform (\<lambda>s. rec s fs src)"
  shows "uniform (\<lambda>s. encode_field env m n rec s f p)"
  unfolding encode_field_def
  by (intro uniform_if uniform_fail uniform_basic_field uniform_enc_callback assms)

lemma uniform_extension_loop:
  assumes "uniform_callbacks env m" "\<And>fs src. uniform (\<lambda>s. rec s fs src)"
  shows "uniform (\<lambda>s. extension_encode_loop env m n rec k s ext)"
proof (induction k arbitrary: ext)
  case 0
  then show ?case by (simp add: uniform_none)
next
  case (Suc k)
  have "uniform (\<lambda>s. default_extension_encoder env m n rec et s ext)" for et
    unfolding default_extension_encoder_def Let_def by (intro uniform_if uniform_bind uniform_field assms)
  moreover have "uniform (\<lambda>s. ext_enc_cb env fn m s ext)" for fn
    using assms(1) by (simp add: uniform_callbacks_def)
  ultimately show ?case
    by (simp only: extension_encode_loop.simps)
      (intro uniform_if uniform_nothing uniform_bind uniform_seq Suc.IH)
qed

lemma uniform_encode_loop:
  "(\<And>f p. uniform (\<lambda>s. enc s f p)) \<Longrightarrow> uniform (\<lambda>s. encode_loop k enc s it)"
proof (induction k arbitrary: it)
  case 0
  then show ?case by (simp add: uniform_none)
next
  case (Suc k)
  have "uniform (\<lambda>s. Option.bind (pb_field_iter_next it) (\<lambda>(more, it). if more then encode_loop k enc s it else Some (True, s)))" for it
    using Suc by (intro uniform_bind) (auto intro!: uniform_intros split: prod.splits)
  then show ?case by (cases "cur_field it") (simp_all add: uniform_none uniform_seq [OF Suc.prems])
qed

text \<open>By induction on the nesting depth, the whole message encoder is uniform.\<close>

lemma uniform_encode:
  assumes "uniform_callbacks env m"
  shows "uniform (\<lambda>s. pb_encode env m n s fs src)"
proof (induction n arbitrary: fs src)
  case 0
  then show ?case by (simp add: uniform_none)
next
  case (Suc n)
  have "uniform (\<lambda>s. encode_one env m n (pb_encode env m n) s f p)" for f p
    unfolding encode_one_def encode_extension_field_def
    by (intro uniform_if uniform_bind uniform_extension_loop uniform_field assms Suc.IH)
  from uniform_encode_loop [OF this] show ?case
    by (simp only: pb_encode.simps encode_body_def)
      (rule uniform_bind, auto intro!: uniform_intros split: prod.splits)
qed


section \<open>Properties of whole messages\<close>

lemma encode_success:
  assumes "uniform_callbacks env m"
    "pb_encode env m n (pb_ostream_from_buffer cap) fs src = Some (True, s)"
    "unat cap < 2 ^ 63" "length (os_state s) < 2 ^ 63"
  shows "writes_on fresh (\<lambda>s. pb_encode env m n s fs src) (os_state s)"
    "os_bytes_written s = of_nat (length (os_state s))"
proof -
  let ?s = "pb_ostream_from_buffer cap"
  have p: "plain_stream ?s" "os_callback ?s = OutBuf" "fresh ?s" "os_state ?s = []" "os_bytes_written ?s = 0"
    using assms(3) by (simp_all add: plain_stream_def fresh_def pb_ostream_from_buffer_def)
  obtain bs where bs: "grown ?s bs s"
    "fresh ?s \<Longrightarrow> length bs < 2 ^ 63 \<Longrightarrow> writes_on fresh (\<lambda>s. pb_encode env m n s fs src) bs"
    using uniform_success [OF uniform_encode [OF assms(1)] p(1,2) assms(2)] by metis
  then have "os_state s = bs" "os_bytes_written s = of_nat (length bs)" using p by (simp_all add: grown_def)
  then show "writes_on fresh (\<lambda>s. pb_encode env m n s fs src) (os_state s)"
    "os_bytes_written s = of_nat (length (os_state s))" using bs p assms(4) by simp_all
qed

lemma writes_on_buffer:
  assumes "writes_on fresh f bs" "unat cap < 2 ^ 63" "length bs < 2 ^ 63"
  shows "if length bs \<le> unat cap
    then f (pb_ostream_from_buffer cap) = Some (True, emit (pb_ostream_from_buffer cap) bs)
    else \<exists>s. f (pb_ostream_from_buffer cap) = Some (False, s) \<and> os_errmsg s \<noteq> None \<and>
           length (os_state s) \<le> unat cap \<and> (\<exists>k. os_state s = take k bs)"
proof -
  let ?s = "pb_ostream_from_buffer cap"
  have p: "plain_stream ?s" "fresh ?s" "os_state ?s = []" "os_callback ?s = OutBuf"
    using assms(2) by (simp_all add: plain_stream_def fresh_def pb_ostream_from_buffer_def)
  have r: "room ?s k \<longleftrightarrow> k \<le> unat cap" for k by (simp add: room_def pb_ostream_from_buffer_def)
  show ?thesis
  proof (cases "length bs \<le> unat cap")
    case True
    then show ?thesis using writes_onD_room [OF assms(1) p(1,2)] r by simp
  next
    case False
    then obtain s k e where "f ?s = Some (False, s)" "k \<le> length bs" "k \<le> unat cap"
      "s = emit ?s (take k bs)\<lparr>os_errmsg := Some e\<rparr>"
      using writes_onD_full [OF assms(1) p(1,2)] r by (auto simp: partial_emit_def)
    then show ?thesis using False p(3,4) by (auto simp: emit_def)
  qed
qed

text \<open>C2: One successful encoding of a message fixes what every other encoding of it does: the size that
  \<^verbatim>\<open>pb_get_encoded_size\<close> reports is the number of bytes written; a buffer that holds this many bytes
  receives exactly these bytes; in a smaller one the encoder fails with an error message, without
  writing past the buffer, and with a prefix of the message in it.  Callbacks must write the same
  data each time, as the library demands of them.
\<close>

theorem message_size_exact:
  assumes "uniform_callbacks env m"
    "pb_encode env m n (pb_ostream_from_buffer cap) fs src = Some (True, s)"
    "unat cap < 2 ^ 63" "length (os_state s) < 2 ^ 63" "unat cap' < 2 ^ 63"
  shows "pb_get_encoded_size env m n fs src = Some (Some (of_nat (length (os_state s)))) \<and>
    os_bytes_written s = of_nat (length (os_state s)) \<and>
    (if length (os_state s) \<le> unat cap'
     then \<exists>s'. pb_encode env m n (pb_ostream_from_buffer cap') fs src = Some (True, s') \<and> os_state s' = os_state s
     else \<exists>s'. pb_encode env m n (pb_ostream_from_buffer cap') fs src = Some (False, s') \<and> os_errmsg s' \<noteq> None \<and>
            length (os_state s') \<le> unat cap' \<and> (\<exists>k. os_state s' = take k (os_state s)))"
proof -
  note w = encode_success [OF assms(1-4)]
  have "pb_get_encoded_size env m n fs src = Some (Some (of_nat (length (os_state s))))"
    using sizing_stream [OF w(1)] by (simp add: pb_get_encoded_size_def)
  moreover have "os_state (emit (pb_ostream_from_buffer cap') bs) = bs" for bs
    by (simp add: emit_def) (simp add: pb_ostream_from_buffer_def)
  ultimately show ?thesis using w(2) writes_on_buffer [OF w(1) assms(5,4)] by (auto split: if_splits)
qed

text \<open>C20: The delimited form of a message is its encoding behind its length as a varint, and the
  null-terminated form its encoding with a zero byte after it.
\<close>

theorem delimited_exact:
  assumes "uniform_callbacks env m"
    "pb_encode env m n (pb_ostream_from_buffer cap) fs src = Some (True, s)"
    "unat cap < 2 ^ 63" "length (os_state s) < 2 ^ 63"
    "unat cap' < 2 ^ 63" "length (os_state s) + 10 \<le> unat cap'"
  shows "\<exists>d z. pb_encode_delimited env m n (pb_ostream_from_buffer cap') fs src = Some (True, d) \<and>
    os_state d = uvarint (length (os_state s)) @ os_state s \<and>
    pb_encode_nullterminated env m n (pb_ostream_from_buffer cap') fs src = Some (True, z) \<and>
    os_state z = os_state s @ [0]"
proof -
  note w = encode_success(1) [OF assms(1-4)]
  have "writes_on fresh (\<lambda>s. pb_write env m s (CLocal [0]) 1) [0]"
    using pb_write_local [of "[0]" env m] by (auto intro: writes_on_mono)
  then have z: "writes_on fresh (\<lambda>s. pb_encode_nullterminated env m n s fs src) (os_state s @ [0])"
    unfolding pb_encode_nullterminated_def by (rule writes_on_seq [OF w]) simp
  have d: "writes_on fresh (\<lambda>s. pb_encode_delimited env m n s fs src) (uvarint (length (os_state s)) @ os_state s)"
    unfolding pb_encode_delimited_def by (rule submessage_writes [where rec = "pb_encode env m n", OF w assms(4)])
  have "length (uvarint (length (os_state s))) \<le> 10" using assms(4) by (intro length_uvarint_u64) simp
  then have fit: "length (uvarint (length (os_state s)) @ os_state s) \<le> unat cap'" "length (os_state s @ [0]) \<le> unat cap'"
    using assms(6) by simp_all
  have e: "os_state (emit (pb_ostream_from_buffer cap') bs) = bs" for bs
    by (simp add: emit_def) (simp add: pb_ostream_from_buffer_def)
  show ?thesis
    using writes_on_buffer [OF d assms(5)] writes_on_buffer [OF z assms(5)] fit assms(5) e by auto
qed

definition num_field :: pb_field_t where
  "num_field = \<lparr>fld_tag = 1, fld_type = PB_HTYPE_REQUIRED OR PB_LTYPE_UVARINT, fld_data_offset = 0,
     fld_size_offset = 0, fld_data_size = 4, fld_array_size = 0, fld_ptr = PtrNull\<rparr>"

definition sub_field :: pb_field_t where
  "sub_field = \<lparr>fld_tag = 2, fld_type = PB_HTYPE_REQUIRED OR PB_LTYPE_SUBMESSAGE, fld_data_offset = 0,
     fld_size_offset = 0, fld_data_size = 4, fld_array_size = 0, fld_ptr = PtrFields 1\<rparr>"

definition sample_descs :: "nat \<Rightarrow> pb_field_t list" where
  "sample_descs i = (if i = 0 then [num_field, sub_field, PB_LAST_FIELD] else [num_field, PB_LAST_FIELD])"

definition sample_message :: cmem where
  "sample_message = mem_at 4096 [150, 0, 0, 0, 5, 0, 0, 0]"

lemma sample_loads: "load_word sample_message 4096 4 = Some (150 :: u32)" "load_word sample_message 4100 4 = Some (5 :: u32)"
  by (simp_all add: load_word_def sample_message_def load_mem_at del: load_bytes.simps)

lemma sample_types: "PB_LTYPE (fld_type num_field) = PB_LTYPE_UVARINT" "PB_LTYPE (fld_type sub_field) = PB_LTYPE_SUBMESSAGE"
  "PB_HTYPE (fld_type num_field) = PB_HTYPE_REQUIRED" "PB_HTYPE (fld_type sub_field) = PB_HTYPE_REQUIRED"
  "PB_ATYPE (fld_type num_field) = PB_ATYPE_STATIC" "PB_ATYPE (fld_type sub_field) = PB_ATYPE_STATIC"
  by (simp_all add: num_field_def sub_field_def PB_LTYPE_def PB_HTYPE_def PB_ATYPE_def pb_type_defs)

lemma sample_encoders:
  "PB_ENCODERS env m rec PB_LTYPE_UVARINT = Some (pb_enc_uvarint env m)"
  "PB_ENCODERS env m rec PB_LTYPE_SUBMESSAGE = Some (pb_enc_submessage env m rec)"
  "wire_type_for PB_LTYPE_UVARINT = Some PB_WT_VARINT" "wire_type_for PB_LTYPE_SUBMESSAGE = Some PB_WT_STRING"
  by (simp_all add: PB_ENCODERS_def wire_type_for_def pb_type_defs)

lemma num_encode:
  assumes "load_word m a 4 = Some (v :: u32)" "a \<noteq> 0"
  shows "encode_one env m n rec s num_field a =
    and_then (pb_encode_tag env m s PB_WT_VARINT 1) (\<lambda>s. pb_encode_varint env m s (ucast v))"
proof -
  have f: "fld_data_size num_field = 4" "fld_size_offset num_field = 0" "fld_tag num_field = 1" by (simp_all add: num_field_def)
  show ?thesis
    using assms by (simp add: encode_one_def encode_field_def encode_basic_field_def sample_types sample_encoders implicit_has_of_def
      pb_encode_tag_for_field_def pb_enc_uvarint_def load_unsigned_def f)
      (simp add: pb_type_defs)
qed


lemma sub_encode:
  assumes "a \<noteq> 0"
  shows "encode_one env m n rec s sub_field a =
    and_then (pb_encode_tag env m s PB_WT_STRING 2) (\<lambda>s. pb_encode_submessage env m rec s (descs env 1) a)"
proof -
  have f: "fld_ptr sub_field = PtrFields 1" "fld_size_offset sub_field = 0" "fld_tag sub_field = 2" by (simp_all add: sub_field_def)
  show ?thesis
    using assms by (simp add: encode_one_def encode_field_def encode_basic_field_def sample_types sample_encoders implicit_has_of_def
      pb_encode_tag_for_field_def pb_enc_submessage_def f)
      (simp add: pb_type_defs)
qed

text \<open>The loop over the fields of the two descriptor arrays.\<close>

lemma sample_loop:
  assumes "p \<noteq> 0"
  shows "encode_body env m n rec s [num_field, PB_LAST_FIELD] p =
      and_then (encode_one env m n rec s num_field p) (\<lambda>s. Some (True, s))"
    "encode_body env m n rec s [num_field, sub_field, PB_LAST_FIELD] p =
      and_then (encode_one env m n rec s num_field p)
        (\<lambda>s. and_then (encode_one env m n rec s sub_field (p + 4)) (\<lambda>s. Some (True, s)))"
proof -
  have types: "fld_type num_field = 2" "fld_type sub_field = 8" "fld_type PB_LAST_FIELD = 0"
    by (simp_all add: num_field_def sub_field_def PB_LAST_FIELD_def pb_type_defs)
  have f: "fld_tag num_field = 1" "fld_data_offset num_field = 0" "fld_size_offset num_field = 0" "fld_data_size num_field = 4"
    "fld_tag sub_field = 2" "fld_data_offset sub_field = 0" "fld_size_offset sub_field = 0" "fld_tag PB_LAST_FIELD = 0"
    "fld_data_offset PB_LAST_FIELD = 0" "fld_size_offset PB_LAST_FIELD = 0"
    by (simp_all add: num_field_def sub_field_def PB_LAST_FIELD_def)
  note defs = encode_body_def pb_field_iter_begin_def pb_field_iter_next_def cur_field_def Let_def f types
    in_same_union_def prev_size_of_def PB_HTYPE_def PB_ATYPE_def pb_type_defs offset_ptr_def
  show "encode_body env m n rec s [num_field, PB_LAST_FIELD] p =
      and_then (encode_one env m n rec s num_field p) (\<lambda>s. Some (True, s))"
    using assms by (simp add: defs numeral_2_eq_2)
  show "encode_body env m n rec s [num_field, sub_field, PB_LAST_FIELD] p =
      and_then (encode_one env m n rec s num_field p)
        (\<lambda>s. and_then (encode_one env m n rec s sub_field (p + 4)) (\<lambda>s. Some (True, s)))"
    using assms by (simp add: defs numeral_3_eq_3)
qed

abbreviation sample_env :: pb_env where "sample_env \<equiv> plain_env sample_descs"

lemma sample_codes:
  "uvarint (tag_number PB_WT_VARINT 1) = [8]" "uvarint (tag_number PB_WT_STRING 2) = [18]"
  "uvarint 150 = [150, 1]" "uvarint 5 = [5]" "uvarint 2 = [2]"
  by (simp_all add: tag_number_def wire_type_value_def uvarint_small uvarint_big)

lemma sample_sub_writes: "writes_on fresh (\<lambda>s. pb_encode sample_env sample_message 1 s (sample_descs 1) 4100) [8, 5]"
proof -
  have "pb_encode sample_env sample_message 1 s (sample_descs 1) 4100 =
      and_then (and_then (pb_encode_tag sample_env sample_message s PB_WT_VARINT 1)
        (\<lambda>s. pb_encode_varint sample_env sample_message s 5)) (\<lambda>s. Some (True, s))" for s
    by (simp add: sample_descs_def sample_loop num_encode [OF sample_loads(2)])
  moreover have "writes (\<lambda>s. and_then (and_then (pb_encode_tag sample_env sample_message s PB_WT_VARINT 1)
      (\<lambda>s. pb_encode_varint sample_env sample_message s 5)) (\<lambda>s. Some (True, s))) (([8] @ [5]) @ [])"
    using pb_encode_tag_writes [of PB_WT_VARINT sample_env sample_message 1]
      pb_encode_varint_writes [of sample_env sample_message 5]
    by (intro writes_seq writes_nothing) (simp_all add: sample_codes std_wire_type_def)
  ultimately show ?thesis by (auto intro: writes_on_mono)
qed

lemma sample_writes: "writes_on fresh (\<lambda>s. pb_encode sample_env sample_message 2 s (sample_descs 0) 4096) [8, 150, 1, 18, 2, 8, 5]"
proof -
  let ?env = sample_env and ?m = sample_message
  have two: "(2 :: nat) = Suc 1" by simp
  have "pb_encode ?env ?m 2 s (sample_descs 0) 4096 =
      and_then (and_then (pb_encode_tag ?env ?m s PB_WT_VARINT 1) (\<lambda>s. pb_encode_varint ?env ?m s 150))
        (\<lambda>s. and_then (and_then (pb_encode_tag ?env ?m s PB_WT_STRING 2)
          (\<lambda>s. pb_encode_submessage ?env ?m (pb_encode ?env ?m 1) s (sample_descs 1) 4100)) (\<lambda>s. Some (True, s)))" for s
    unfolding two pb_encode.simps
    by (simp add: sample_descs_def sample_loop num_encode [OF sample_loads(1)] sub_encode plain_env_def)
  moreover have "writes_on fresh (\<lambda>s. and_then (and_then (pb_encode_tag ?env ?m s PB_WT_VARINT 1) (\<lambda>s. pb_encode_varint ?env ?m s 150))
        (\<lambda>s. and_then (and_then (pb_encode_tag ?env ?m s PB_WT_STRING 2)
          (\<lambda>s. pb_encode_submessage ?env ?m (pb_encode ?env ?m 1) s (sample_descs 1) 4100)) (\<lambda>s. Some (True, s))))
      (([8] @ [150, 1]) @ (([18] @ ([2] @ [8, 5])) @ []))"
  proof -
    have t: "writes_on fresh (\<lambda>s. pb_encode_tag ?env ?m s PB_WT_VARINT 1) [8]"
      "writes_on fresh (\<lambda>s. pb_encode_tag ?env ?m s PB_WT_STRING 2) [18]"
      "writes_on fresh (\<lambda>s. pb_encode_varint ?env ?m s 150) [150, 1]"
      using pb_encode_tag_writes [of PB_WT_VARINT ?env ?m 1] pb_encode_tag_writes [of PB_WT_STRING ?env ?m 2]
        pb_encode_varint_writes [of ?env ?m 150]
      by (auto intro: writes_on_mono simp: sample_codes std_wire_type_def)
    have len: "length ([8, 5] :: bytes) = 2" by simp
    have "writes_on fresh (\<lambda>s. pb_encode_submessage ?env ?m (pb_encode ?env ?m 1) s (sample_descs 1) 4100) (uvarint 2 @ [8, 5])"
      using submessage_writes [where rec = "pb_encode ?env ?m 1" and env = ?env and m = ?m, OF sample_sub_writes, unfolded len]
      by simp
    then have sub: "writes_on fresh (\<lambda>s. pb_encode_submessage ?env ?m (pb_encode ?env ?m 1) s (sample_descs 1) 4100) ([2] @ [8, 5])"
      by (simp only: sample_codes)
    have "writes_on fresh (\<lambda>s. Some (True, s)) []" by (rule writes_on_mono [OF writes_nothing]) simp
    then show ?thesis by (intro writes_on_seq t sub fresh_emit)
  qed
  ultimately show ?thesis by simp
qed

lemma sample_callbacks: "uniform_callbacks sample_env sample_message"
  by (simp add: uniform_callbacks_def plain_env_def uniform_none)

lemma sample_encoded:
  assumes "7 \<le> unat cap" "unat cap < 2 ^ 63"
  obtains s where "pb_encode sample_env sample_message 2 (pb_ostream_from_buffer cap) (sample_descs 0) 4096 = Some (True, s)"
    "os_state s = [8, 150, 1, 18, 2, 8, 5]"
proof -
  have "os_state (emit (pb_ostream_from_buffer cap) bs) = bs" for bs
    by (simp add: emit_def) (simp add: pb_ostream_from_buffer_def)
  then show ?thesis using writes_on_buffer [OF sample_writes assms(2)] assms(1) that by auto
qed

lemma message_size_exact_witness:
  "pb_get_encoded_size sample_env sample_message 2 (sample_descs 0) 4096 = Some (Some 7) \<and>
   (\<exists>s. pb_encode sample_env sample_message 2 (pb_ostream_from_buffer 5) (sample_descs 0) 4096 = Some (False, s) \<and>
        length (os_state s) \<le> 5)"
proof -
  obtain s where s: "pb_encode sample_env sample_message 2 (pb_ostream_from_buffer 16) (sample_descs 0) 4096 = Some (True, s)"
    "os_state s = [8, 150, 1, 18, 2, 8, 5]"
    by (rule sample_encoded [of 16]) simp_all
  show ?thesis using message_size_exact [OF sample_callbacks s(1), of 5] s(2) by auto
qed

lemma delimited_exact_witness:
  "\<exists>d. pb_encode_delimited sample_env sample_message 2 (pb_ostream_from_buffer 20) (sample_descs 0) 4096 = Some (True, d) \<and>
     os_state d = [7, 8, 150, 1, 18, 2, 8, 5]"
proof -
  obtain s where s: "pb_encode sample_env sample_message 2 (pb_ostream_from_buffer 16) (sample_descs 0) 4096 = Some (True, s)"
    "os_state s = [8, 150, 1, 18, 2, 8, 5]"
    by (rule sample_encoded [of 16]) simp_all
  show ?thesis using delimited_exact [OF sample_callbacks s(1), of 20] s(2) by (auto simp: uvarint_small)
qed

end
