(* ===== verification/PbDecodeProofs.thy ===== *)
theory PbDecodeProofs
  imports PbDecode PbMessage
begin

text \<open>
  The message decoder: where its iterator stands while a field is decoded, the loop over the fields
  as a state machine with the tags it reads, and the test for missing required fields.
\<close>

section \<open>Where the iterator stands\<close>

text \<open>Two iterators at the same field; the pointer to the count and the local counter may differ.\<close>

definition same_place :: "pb_field_iter_t \<Rightarrow> pb_field_iter_t \<Rightarrow> bool" where
  "same_place a b \<longleftrightarrow> b = a\<lparr>it_pSize := it_pSize b, it_local := it_local b\<rparr>"

lemma same_place_fields:
  "same_place a b \<Longrightarrow> it_start b = it_start a \<and> it_pos b = it_pos a \<and> it_required_field_index b = it_required_field_index a \<and>
     it_dest_struct b = it_dest_struct a \<and> it_pData b = it_pData a \<and> cur_field b = cur_field a"
  by (cases a; cases b) (auto simp: same_place_def cur_field_def)

lemma same_place_refl [simp]: "same_place a a"
  by (simp add: same_place_def)

lemma same_place_trans: "same_place a b \<Longrightarrow> same_place b c \<Longrightarrow> same_place a c"
  by (cases a; cases b; cases c) (simp add: same_place_def)

lemma same_place_sym: "same_place a b \<Longrightarrow> same_place b a"
  by (cases a; cases b) (simp add: same_place_def)

lemma same_place_update [simp]:
  "same_place a (b\<lparr>it_local := l\<rparr>) = same_place a b" "same_place a (b\<lparr>it_pSize := q\<rparr>) = same_place a b"
  by (cases a; cases b; auto simp: same_place_def)+

text \<open>The iterator at field \<open>i\<close> of the message at \<open>p\<close>.\<close>

definition at_field :: "pb_field_t list \<Rightarrow> addr \<Rightarrow> nat \<Rightarrow> pb_field_iter_t \<Rightarrow> bool" where
  "at_field fs p i it \<longleftrightarrow> same_place (iter_at fs p 0 i) it"

lemma at_field_iter_at [simp]: "at_field fs p i (iter_at fs p l i)"
  by (simp add: at_field_def same_place_def iter_at_def)

lemma at_field_fields:
  "at_field fs p i it \<Longrightarrow> it_start it = fs \<and> it_pos it = i \<and> it_required_field_index it = of_nat (required_before fs i)"
  using same_place_fields [of "iter_at fs p 0 i" it] by (simp add: at_field_def)

lemma at_field_cur: "at_field fs p i it \<Longrightarrow> i < length fs \<Longrightarrow> cur_field it = Some (fs ! i)"
  using same_place_fields [of "iter_at fs p 0 i" it] cur_field_iter_at [of i fs p 0] by (simp add: at_field_def)

lemma iter_next_same:
  assumes "same_place a b" "pb_field_iter_next a = Some (r, a')"
  shows "\<exists>b'. pb_field_iter_next b = Some (r, b') \<and> same_place a' b'"
proof -
  obtain q l where b: "b = a\<lparr>it_pSize := q, it_local := l\<rparr>" using assms(1) by (auto simp: same_place_def)
  have begin_same: "pb_field_iter_begin fs d l' = Some (r, a') \<Longrightarrow>
      \<exists>b'. pb_field_iter_begin fs d l'' = Some (r, b') \<and> same_place a' b'" for fs d l' l'' r a'
    by (cases fs) (auto simp: pb_field_iter_begin_def Let_def same_place_def)
  show ?thesis
    using assms(2) begin_same
    by (auto simp: b pb_field_iter_next_def cur_field_def Let_def Option.bind_eq_Some_conv same_place_def split: if_splits) blast+
qed


lemma find_loop_same:
  "same_place a b \<Longrightarrow> find_loop k w start a = Some (r, a') \<Longrightarrow>
     \<exists>b'. find_loop k w start b = Some (r, b') \<and> same_place a' b'"
proof (induction k arbitrary: a b)
  case (Suc k)
  have cur: "cur_field b = cur_field a" using same_place_fields [OF Suc.prems(1)] by simp
  obtain f where f: "cur_field a = Some f" using Suc.prems(2) by (cases "cur_field a") auto
  show ?case
  proof (cases "w f")
    case True
    then show ?thesis using Suc.prems f cur by auto
  next
    case False
    then obtain x c where c: "pb_field_iter_next a = Some (x, c)"
      and r: "(if it_pos c \<noteq> start then find_loop k w start c else Some (False, c)) = Some (r, a')"
      using Suc.prems(2) f by (auto simp: Option.bind_eq_Some_conv)
    obtain d where d: "pb_field_iter_next b = Some (x, d)" "same_place c d"
      using iter_next_same [OF Suc.prems(1) c] by blast
    have "it_pos d = it_pos c" using same_place_fields [OF d(2)] by simp
    then show ?thesis using False f cur d r Suc.IH [OF d(2)] by (cases "it_pos c = start") auto
  qed
qed simp

lemma at_field_next:
  assumes "wf_fields fs" "p \<noteq> 0" "i < n_fields fs" "at_field fs p i it"
  shows "\<exists>it'. pb_field_iter_next it = Some (Suc i < n_fields fs, it') \<and>
    at_field fs p (if Suc i < n_fields fs then Suc i else 0) it'"
proof -
  have "pb_field_iter_next (iter_at fs p 0 i) = Some (Suc i < n_fields fs,
      iter_at fs p 0 (if Suc i < n_fields fs then Suc i else 0))"
    using iter_next_wf [OF assms(1-3), of 0] by simp
  from iter_next_same [OF assms(4) [unfolded at_field_def] this] show ?thesis by (simp add: at_field_def)
qed

lemma at_field_find:
  assumes "wf_fields fs" "p \<noteq> 0" "i < n_fields fs" "at_field fs p i it"
  shows "\<exists>it'. pb_field_iter_find it tag = Some (field_with_tag fs tag i \<noteq> None, it') \<and>
    at_field fs p (case field_with_tag fs tag i of Some j \<Rightarrow> j | None \<Rightarrow> i) it'"
proof -
  have "pb_field_iter_find (iter_at fs p 0 i) tag = Some (field_with_tag fs tag i \<noteq> None,
      iter_at fs p 0 (case field_with_tag fs tag i of Some j \<Rightarrow> j | None \<Rightarrow> i))"
    using iter_find_wf [OF assms(1-3), of 0 tag] by (simp split: option.splits)
  moreover have "it_start it = fs" "it_pos it = i" using at_field_fields [OF assms(4)] by simp_all
  ultimately show ?thesis
    using find_loop_same [OF assms(4) [unfolded at_field_def]] by (simp add: pb_field_iter_find_def at_field_def)
qed

lemma at_field_find_extension:
  assumes "wf_fields fs" "p \<noteq> 0" "i < n_fields fs" "at_field fs p i it"
  shows "\<exists>found it' j. find_extension_field it = Some (found, it') \<and> at_field fs p j it' \<and> j < n_fields fs"
proof -
  let ?P = "\<lambda>f. PB_LTYPE (fld_type f) = PB_LTYPE_EXTENSION"
  have "length (to_visit (n_fields fs) i i) \<le> length fs"
    using length_to_visit [OF assms(3,3)] wf_fields_length [OF assms(1)] by simp
  from find_loop_spec [OF assms(1-3) assms(3) this, of ?P 0]
  obtain found j where "find_loop (length fs) ?P i (iter_at fs p 0 i) = Some (found, iter_at fs p 0 j)" "j < n_fields fs"
    using assms(3) by (auto simp: to_visit_def split: option.splits dest!: find_SomeD)
  moreover have "it_start it = fs" "it_pos it = i" using at_field_fields [OF assms(4)] by simp_all
  ultimately show ?thesis
    using find_loop_same [OF assms(4) [unfolded at_field_def]] by (fastforce simp: find_extension_field_def at_field_def)
qed

section \<open>Decoding a field stays at the field\<close>

text \<open>
  What the generator guarantees of a descriptor array beyond \<open>wf_fields\<close>: there is a field, no two
  fields share a tag, and only optional fields are extension ranges.
\<close>

definition message_fields :: "pb_field_t list \<Rightarrow> bool" where
  "message_fields fs \<longleftrightarrow> wf_fields fs \<and> 0 < n_fields fs \<and> n_fields fs < 2 ^ 31 \<and>
     (\<forall>i < n_fields fs. \<forall>j < n_fields fs. fld_tag (fs ! i) = fld_tag (fs ! j) \<longrightarrow> i = j) \<and>
     (\<forall>i < n_fields fs. PB_LTYPE (fld_type (fs ! i)) = PB_LTYPE_EXTENSION \<longrightarrow>
        PB_HTYPE (fld_type (fs ! i)) = PB_HTYPE_OPTIONAL)"

text \<open>A computation on the decoder's state whose result, if there is one, is at the field of \<open>it\<close>.\<close>

definition stays :: "pb_field_iter_t \<Rightarrow> (bool \<times> field_state) option \<Rightarrow> bool" where
  "stays it e \<longleftrightarrow> (\<forall>ok s m it'. e = Some (ok, s, m, it') \<longrightarrow> same_place it it')"

named_theorems stays_intros \<open>computations that leave the iterator at its field\<close>

lemma stays_basic [stays_intros]:
  "stays it None"
  "same_place it it' \<Longrightarrow> stays it (Some (ok, s, m, it'))"
  "same_place it it' \<Longrightarrow> stays it (is_fail s msg (m, it'))"
  by (simp_all add: stays_def is_fail_def)

lemma stays_if [stays_intros]:
  "(b \<Longrightarrow> stays it e) \<Longrightarrow> (\<not> b \<Longrightarrow> stays it e') \<Longrightarrow> stays it (if b then e else e')"
  by simp

lemma stays_case [stays_intros]:
  "(\<And>a b. x = (a, b) \<Longrightarrow> stays it (f a b)) \<Longrightarrow> stays it (case x of (a, b) \<Rightarrow> f a b)"
  by (cases x) simp

lemma stays_run [stays_intros]: "same_place it0 it \<Longrightarrow> stays it0 (run_decoder func (s, m, it) f d)"
  by (auto simp: run_decoder_def stays_def Option.bind_eq_Some_conv)

lemma stays_bind [stays_intros]:
  "(\<And>x. e = Some x \<Longrightarrow> stays it (f x)) \<Longrightarrow> stays it (Option.bind e f)"
  by (cases e) (simp_all add: stays_basic)

lemma staysD: "stays it e \<Longrightarrow> e = Some (ok, s, m, it') \<Longrightarrow> same_place it it'"
  by (simp add: stays_def)

lemma write_place: "write_psize m it w = Some (m', it') \<Longrightarrow> same_place it it'"
  by (auto simp: write_psize_def split: size_ref.splits)

lemma stays_trans: "same_place it0 it \<Longrightarrow> stays it e \<Longrightarrow> stays it0 e"
  by (auto simp: stays_def intro: same_place_trans)

lemma stays_static_loop: "stays it (static_packed_loop k func f (s, m, it))"
proof (induction k arbitrary: s m it)
  case (Suc k)
  show ?case
    unfolding static_packed_loop.simps
    by (intro stays_intros same_place_refl) (auto dest!: write_place intro: stays_trans [OF _ Suc.IH])
qed (simp add: stays_basic)

lemma stays_static: "stays it (decode_static_field env n rec wt (s, m, it))"
  unfolding decode_static_field_def Let_def
  by (intro stays_intros same_place_refl) (auto simp del: static_packed_loop.simps dest!: write_place staysD [OF stays_static_loop])

lemma stays_pointer_loop:
  "pointer_packed_loop env n k func f a (s, m, it) = Some (ok, msg, s', m', it') \<Longrightarrow> same_place it it'"
proof (induction k arbitrary: a s m it)
  case (Suc k)
  then show ?case
    by (auto simp: Option.bind_eq_Some_conv Let_def split: if_splits dest!: write_place intro: same_place_trans)
qed simp

lemma stays_single: "stays it (decode_pointer_single env n func f (s, m, it))"
  unfolding decode_pointer_single_def Let_def
  by (intro stays_intros same_place_refl) (auto dest!: write_place split: if_splits)

lemma stays_repeated: "stays it (decode_pointer_repeated env n func wt f (s, m, it))"
  unfolding decode_pointer_repeated_def Let_def
  by (intro stays_intros same_place_refl) (auto simp del: pointer_packed_loop.simps dest!: write_place stays_pointer_loop)

lemma stays_pointer: "stays it (decode_pointer_field env n rec wt (s, m, it))"
  unfolding decode_pointer_field_def Let_def
  by (intro stays_intros same_place_refl) (auto intro: stays_single stays_repeated)

lemma stays_callback: "stays it (decode_callback_field env n wt (s, m, it))"
  unfolding decode_callback_field_def Let_def
  by (intro stays_intros same_place_refl) auto

lemma field_with_tag_unique:
  assumes "message_fields fs" "i < n_fields fs" "j < n_fields fs" "PB_LTYPE (fld_type (fs ! j)) \<noteq> PB_LTYPE_EXTENSION"
  shows "field_with_tag fs (fld_tag (fs ! j)) i = Some j"
proof (cases "field_with_tag fs (fld_tag (fs ! j)) i")
  case None
  then show ?thesis using field_with_tag_None [OF None assms(2,3)] assms(4) by simp
next
  case (Some k)
  then show ?thesis using field_with_tag_Some [OF Some assms(2)] assms(1,3) by (auto simp: message_fields_def)
qed

lemma release_union_place:
  assumes fs: "message_fields fs" "p \<noteq> 0" and i: "i < n_fields fs" "PB_LTYPE (fld_type (fs ! i)) \<noteq> PB_LTYPE_EXTENSION"
    and it: "at_field fs p i it" and r: "pb_release_union_field env n (s, m, it) = Some (True, s', m', it')"
  shows "at_field fs p i it'"
proof -
  have wf: "wf_fields fs" using fs(1) by (simp add: message_fields_def)
  have len: "i < length fs" using i(1) wf_fields_length [OF wf] by simp
  have cur: "cur_field it = Some (fs ! i)" by (rule at_field_cur [OF it len])
  have find: "\<exists>it''. pb_field_iter_find a (fld_tag (fs ! i)) = Some (True, it'') \<and> at_field fs p i it''"
    if "at_field fs p j a" "j < n_fields fs" for a j
    using at_field_find [OF wf fs(2) that(2,1), of "fld_tag (fs ! i)"] field_with_tag_unique [OF fs(1) that(2) i] by auto
  show ?thesis
  proof (cases "\<exists>t. read_psize m it = Some t \<and> (t = 0 \<or> t = fld_tag (fs ! i))")
    case True
    then show ?thesis using r it cur by (auto simp: pb_release_union_field_def Let_def split: if_splits)
  next
    case False
    with r cur obtain t where t: "read_psize m it = Some t" "t \<noteq> 0" "t \<noteq> fld_tag (fs ! i)"
      by (cases "read_psize m it") (auto simp: pb_release_union_field_def)
    obtain it1 where it1: "pb_field_iter_find it t = Some (field_with_tag fs t i \<noteq> None, it1)"
      "at_field fs p (case field_with_tag fs t i of Some j \<Rightarrow> j | None \<Rightarrow> i) it1"
      using at_field_find [OF wf fs(2) i(1) it] by blast
    let ?j = "case field_with_tag fs t i of Some j \<Rightarrow> j | None \<Rightarrow> i"
    have "?j < n_fields fs" using field_with_tag_Some(1) [of fs t i] i(1) by (simp split: option.splits)
    then obtain it2 where it2: "pb_field_iter_find it1 (fld_tag (fs ! i)) = Some (True, it2)" "at_field fs p i it2"
      using find [OF it1(2)] by blast
    show ?thesis
      using r t cur it1(1) it2
      by (auto simp: pb_release_union_field_def is_fail_def Option.bind_eq_Some_conv split: if_splits)
  qed
qed

lemma decode_field_place:
  assumes fs: "message_fields fs" "p \<noteq> 0" and i: "i < n_fields fs" "PB_LTYPE (fld_type (fs ! i)) \<noteq> PB_LTYPE_EXTENSION"
    and it: "at_field fs p i it" and r: "decode_field env n rec wt (s, m, it) = Some (True, s', m', it')"
  shows "at_field fs p i it'"
proof -
  have wf: "wf_fields fs" using fs(1) by (simp add: message_fields_def)
  have len: "i < length fs" using i(1) wf_fields_length [OF wf] by simp
  have cur: "cur_field it = Some (fs ! i)" by (rule at_field_cur [OF it len])
  let ?rest = "\<lambda>(s, m, it). do {
       f \<leftarrow> cur_field it;
       if PB_ATYPE (fld_type f) = PB_ATYPE_STATIC then decode_static_field env n rec wt (s, m, it)
       else if PB_ATYPE (fld_type f) = PB_ATYPE_POINTER then decode_pointer_field env n rec wt (s, m, it)
       else if PB_ATYPE (fld_type f) = PB_ATYPE_CALLBACK then decode_callback_field env n wt (s, m, it)
       else is_fail s ''invalid field type'' (m, it)
     }"
  have rest: "stays it1 (?rest (s1, m1, it1))" for s1 m1 it1
    by (simp, intro stays_intros same_place_refl stays_static stays_pointer stays_callback)
  have "and_then (if PB_HTYPE (fld_type (fs ! i)) = PB_HTYPE_ONEOF
       then pb_release_union_field env n (s, m, it) else Some (True, s, m, it)) ?rest = Some (True, s', m', it')"
    using r cur by (simp add: decode_field_def)
  then obtain s1 m1 it1 where u: "(if PB_HTYPE (fld_type (fs ! i)) = PB_HTYPE_ONEOF
       then pb_release_union_field env n (s, m, it) else Some (True, s, m, it)) = Some (True, s1, m1, it1)"
    and r1: "?rest (s1, m1, it1) = Some (True, s', m', it')"
    unfolding and_then_eq_Some by auto
  have it1: "at_field fs p i it1"
    using u it release_union_place [OF fs i it] by (cases "PB_HTYPE (fld_type (fs ! i)) = PB_HTYPE_ONEOF") auto
  have "same_place it1 it'" by (rule staysD [OF rest r1])
  then show ?thesis using it1 same_place_trans by (auto simp: at_field_def)
qed

section \<open>The loop over the fields of a message as a state machine\<close>

text \<open>
  One field after its tag: what the loop does with a tag and a wire type, and the runs of the loop
  with the tags they read.
\<close>

definition handle_field :: "pb_env \<Rightarrow> nat \<Rightarrow> message_decoder \<Rightarrow> u32 \<Rightarrow> pb_wire_type_t \<Rightarrow> decode_locals \<Rightarrow> field_state \<Rightarrow>
    (bool \<times> decode_locals \<times> field_state) option" where
  "handle_field env n rec tag wt dl st = do {
     let (s, m, it) = st;
     (found, it) \<leftarrow> pb_field_iter_find it tag;
     if \<not> found then decode_unknown env n rec tag wt dl (s, m, it)
     else decode_known env n rec wt dl (s, m, it)
   }"

inductive message_run :: "pb_env \<Rightarrow> nat \<Rightarrow> message_decoder \<Rightarrow> decode_locals \<Rightarrow> field_state \<Rightarrow> u32 list \<Rightarrow>
    bool \<Rightarrow> decode_locals \<Rightarrow> field_state \<Rightarrow> bool" for env n rec where
  run_end: "is_bytes_left s = 0 \<Longrightarrow> message_run env n rec dl (s, m, it) [] True dl (s, m, it)"
| run_tag: "is_bytes_left s \<noteq> 0 \<Longrightarrow> pb_decode_tag env s = Some (False, s', wt, tag, eof) \<Longrightarrow>
    message_run env n rec dl (s, m, it) [] eof dl (s', m, it)"
| run_stop: "is_bytes_left s \<noteq> 0 \<Longrightarrow> pb_decode_tag env s = Some (True, s', wt, tag, eof) \<Longrightarrow>
    handle_field env n rec tag wt dl (s', m, it) = Some (False, dl', st') \<Longrightarrow>
    message_run env n rec dl (s, m, it) [tag] False dl' st'"
| run_field: "is_bytes_left s \<noteq> 0 \<Longrightarrow> pb_decode_tag env s = Some (True, s', wt, tag, eof) \<Longrightarrow>
    handle_field env n rec tag wt dl (s', m, it) = Some (True, dl', st') \<Longrightarrow>
    message_run env n rec dl' st' tags ok dl'' st'' \<Longrightarrow>
    message_run env n rec dl (s, m, it) (tag # tags) ok dl'' st''"

lemma decode_loop_run:
  "decode_loop env n rec k dl st = Some (ok, dl', st') \<Longrightarrow> \<exists>tags. message_run env n rec dl st tags ok dl' st'"
proof (induction k arbitrary: dl st)
  case (Suc k)
  obtain s m it where st: "st = (s, m, it)" by (cases st)
  show ?case
  proof (cases "is_bytes_left s = 0")
    case True
    then show ?thesis using Suc.prems by (auto simp: st intro: run_end)
  next
    case left: False
    then obtain ok1 s1 wt tag eof where t: "pb_decode_tag env s = Some (ok1, s1, wt, tag, eof)"
      using Suc.prems by (auto simp: st Option.bind_eq_Some_conv)
    show ?thesis
    proof (cases ok1)
      case False
      then show ?thesis using Suc.prems left t by (auto simp: st intro: run_tag)
    next
      case True
      have r: "do { (ok, dl, s, m, it) \<leftarrow> handle_field env n rec tag wt dl (s1, m, it);
                 if \<not> ok then Some (False, dl, s, m, it) else decode_loop env n rec k dl (s, m, it) } =
               Some (ok, dl', st')"
        using Suc.prems left t True
        by (simp add: st handle_field_def split_def Option.bind_assoc Let_def cong: if_cong)
      then obtain ok2 dl2 s2 m2 it2 where h: "handle_field env n rec tag wt dl (s1, m, it) = Some (ok2, dl2, s2, m2, it2)"
        and r2: "(if \<not> ok2 then Some (False, dl2, s2, m2, it2) else decode_loop env n rec k dl2 (s2, m2, it2)) = Some (ok, dl', st')"
        by (auto simp: Option.bind_eq_Some_conv)
      show ?thesis
      proof (cases ok2)
        case False
        then show ?thesis using r2 h t True left by (auto simp: st intro: run_stop)
      next
        case ok2: True
        then obtain tags where "message_run env n rec dl2 (s2, m2, it2) tags ok dl' st'"
          using Suc.IH [of dl2 "(s2, m2, it2)"] r2 by auto
        then show ?thesis using h t True left ok2 by (auto simp: st intro: run_field)
      qed
    qed
  qed
qed simp


section \<open>Required fields\<close>

definition required_field :: "pb_field_t list \<Rightarrow> nat \<Rightarrow> bool" where
  "required_field fs i \<longleftrightarrow> PB_HTYPE (fld_type (fs ! i)) = PB_HTYPE_REQUIRED"

lemma required_before_count: "required_before fs i = card {j. j < i \<and> required_field fs j}"
proof (induction i)
  case (Suc i)
  have "{j. j < Suc i \<and> required_field fs j} =
      (if required_field fs i then insert i {j. j < i \<and> required_field fs j} else {j. j < i \<and> required_field fs j})"
    by (auto simp: less_Suc_eq)
  then show ?case using Suc by (simp add: required_field_def)
qed simp

lemma required_before_le: "required_before fs i \<le> i"
  by (induction i) auto

lemma required_before_mono: "i \<le> j \<Longrightarrow> required_before fs i \<le> required_before fs j"
  by (induction j) (auto simp: le_Suc_eq)

lemma required_before_less:
  "required_field fs i \<Longrightarrow> i < j \<Longrightarrow> required_before fs i < required_before fs j"
  using required_before_mono [of "Suc i" j fs] by (simp add: required_field_def Suc_le_eq)

lemma required_before_inj:
  "required_field fs i \<Longrightarrow> required_field fs j \<Longrightarrow> required_before fs i = required_before fs j \<Longrightarrow> i = j"
  using required_before_less [of fs i j] required_before_less [of fs j i] by (cases i j rule: linorder_cases) auto

lemma required_before_onto:
  "r < required_before fs n \<Longrightarrow> \<exists>i<n. required_field fs i \<and> required_before fs i = r"
proof (induction n)
  case (Suc n)
  show ?case
  proof (cases "r < required_before fs n")
    case True
    then show ?thesis using Suc.IH less_Suc_eq by blast
  next
    case False
    then show ?thesis using Suc.prems by (auto simp: required_field_def split: if_splits)
  qed
qed simp

text \<open>The set of numbers whose bits are set in the two words of \<open>fields_seen\<close>.\<close>

definition seen_set :: "u32 list \<Rightarrow> nat set" where
  "seen_set ws = {r. r < 64 \<and> bit (ws ! (r div 32)) (r mod 32)}"

lemma track_required_seen:
  assumes "length ws = 2" "at_field fs p i it" "i < n_fields fs" "n_fields fs < 2 ^ 31"
  shows "length (track_required (fs ! i) it ws) = 2"
    "seen_set (track_required (fs ! i) it ws) =
      seen_set ws \<union> {r. r = required_before fs i \<and> required_field fs i \<and> r < 64}"
proof -
  let ?r = "required_before fs i"
  have idx: "it_required_field_index it = of_nat ?r" using at_field_fields [OF assms(2)] by simp
  have r: "?r < 2 ^ 31" using required_before_le [of fs i] assms(3,4) by linarith
  then have u: "unat (of_nat ?r :: u32) = ?r" by (simp add: unat_of_nat)
  have lt: "it_required_field_index it < PB_MAX_REQUIRED_FIELDS \<longleftrightarrow> ?r < 64"
    by (simp add: idx PB_MAX_REQUIRED_FIELDS_def word_less_nat_alt u)
  have w: "unat (drop_bit 5 (it_required_field_index it)) = ?r div 32"
    by (simp add: idx unat_drop_bit u)
  have "it_required_field_index it AND 31 = take_bit 5 (it_required_field_index it)"
    by (simp add: take_bit_eq_mask mask_eq_exp_minus_1)
  then have b: "unat (it_required_field_index it AND 31) = ?r mod 32"
    by (simp only: unat_take_bit) (simp add: idx u)
  show "length (track_required (fs ! i) it ws) = 2"
    using assms(1) by (simp add: track_required_def Let_def)
  show "seen_set (track_required (fs ! i) it ws) =
      seen_set ws \<union> {r. r = ?r \<and> required_field fs i \<and> r < 64}"
  proof (cases "required_field fs i \<and> ?r < 64")
    case False
    then have "track_required (fs ! i) it ws = ws" by (auto simp: track_required_def required_field_def lt)
    then show ?thesis using False by auto
  next
    case True
    then have t: "track_required (fs ! i) it ws = ws[?r div 32 := ws ! (?r div 32) OR push_bit (?r mod 32) 1]"
      by (simp add: track_required_def required_field_def lt w b Let_def)
    have len: "?r div 32 < length ws" using True assms(1) less_mult_imp_div_less [of ?r 2 32] by simp
    have "r \<in> seen_set (ws[?r div 32 := ws ! (?r div 32) OR push_bit (?r mod 32) 1]) \<longleftrightarrow> r \<in> seen_set ws \<or> r = ?r" for r
    proof (cases "r < 64 \<and> r div 32 = ?r div 32")
      case False
      then show ?thesis using True by (auto simp: seen_set_def)
    next
      case same: True
      then have "r = ?r \<longleftrightarrow> r mod 32 = ?r mod 32" by (metis div_mult_mod_eq)
      then show ?thesis using same len by (auto simp: seen_set_def bit_or_iff bit_exp_iff)
    qed
    then show ?thesis using True t by auto
  qed
qed


text \<open>The test at the end: the first \<open>c\<close> required fields have been seen.\<close>

lemma all_ones: "w = drop_bit (32 - k) (- 1) \<longleftrightarrow> (\<forall>b<32. bit w b \<longleftrightarrow> b < k)" if "k \<le> 32" for w :: u32
proof
  assume "w = drop_bit (32 - k) (- 1)"
  then show "\<forall>b<32. bit w b \<longleftrightarrow> b < k" using that by (auto simp: bit_drop_bit_eq bit_mask_iff)
next
  assume "\<forall>b<32. bit w b \<longleftrightarrow> b < k"
  then show "w = drop_bit (32 - k) (- 1)" using that by (intro bit_word_eqI) (auto simp: bit_drop_bit_eq bit_mask_iff)
qed

lemma all_required_exact:
  assumes "seen_set ws \<subseteq> {..<unat c}" "unat c \<le> 64"
  shows "all_required_seen c ws \<longleftrightarrow> {..<unat c} \<subseteq> seen_set ws"
proof -
  let ?q = "unat c div 32" and ?k = "unat c mod 32"
  have q: "unat (drop_bit 5 c) = ?q" by (simp add: unat_drop_bit)
  have k: "unat (c AND 31) = ?k"
  proof -
    have "c AND 31 = take_bit 5 c" by (simp add: take_bit_eq_mask mask_eq_exp_minus_1)
    then show ?thesis by (simp only: unat_take_bit) simp
  qed
  have k32: "unat (32 - (c AND 31)) = 32 - ?k"
    using k by (subst unat_sub) (auto simp: word_le_nat_alt)
  have full: "ws ! i = - 1 \<longleftrightarrow> (\<forall>b<32. bit (ws ! i) b)" for i
    using all_ones [of 32 "ws ! i"] by simp
  have in_seen: "32 * i + b \<in> seen_set ws \<longleftrightarrow> bit (ws ! i) b" if "i < 2" "b < 32" for i b
    using that by (auto simp: seen_set_def)
  have low: "(\<forall>i<?q. ws ! i = - 1) \<longleftrightarrow> {..<32 * ?q} \<subseteq> seen_set ws"
  proof -
    have "?q \<le> 2" using assms(2) by (simp add: div_le_mono [of "unat c" 64 32, simplified])
    show ?thesis
    proof
      assume a: "\<forall>i<?q. ws ! i = - 1"
      show "{..<32 * ?q} \<subseteq> seen_set ws"
      proof
        fix r assume "r \<in> {..<32 * ?q}"
        then have "r div 32 < ?q" by (simp add: less_mult_imp_div_less mult.commute)
        then show "r \<in> seen_set ws"
          using in_seen [of "r div 32" "r mod 32"] a full \<open>?q \<le> 2\<close> by simp
      qed
    next
      assume a: "{..<32 * ?q} \<subseteq> seen_set ws"
      show "\<forall>i<?q. ws ! i = - 1"
      proof (intro allI impI, unfold full, intro allI impI)
        fix i b :: nat assume "i < ?q" "b < 32"
        then have "32 * i + b \<in> {..<32 * ?q}" by simp
        then show "bit (ws ! i) b" using subsetD [OF a, of "32 * i + b"] in_seen [of i b] \<open>i < ?q\<close> \<open>b < 32\<close> \<open>?q \<le> 2\<close> by auto
      qed
    qed
  qed
  have high: "ws ! ?q = drop_bit (32 - ?k) (- 1) \<longleftrightarrow> {32 * ?q..<unat c} \<subseteq> seen_set ws" if "?k \<noteq> 0"
  proof -
    have q2: "?q < 2" using assms(2) that by (cases "unat c = 64") (auto simp: less_mult_imp_div_less)
    have above: "\<not> bit (ws ! ?q) b" if "?k \<le> b" "b < 32" for b
    proof
      assume "bit (ws ! ?q) b"
      then have "32 * ?q + b < unat c" using in_seen [OF q2 that(2)] assms(1) by auto
      then show False using that(1) by (metis add_less_cancel_left mult_div_mod_eq not_le)
    qed
    have "ws ! ?q = drop_bit (32 - ?k) (- 1) \<longleftrightarrow> (\<forall>b<?k. bit (ws ! ?q) b)"
      using all_ones [of ?k "ws ! ?q"] above by (auto simp: not_less)
    also have "\<dots> \<longleftrightarrow> {32 * ?q..<unat c} \<subseteq> seen_set ws"
    proof
      assume a: "\<forall>b<?k. bit (ws ! ?q) b"
      show "{32 * ?q..<unat c} \<subseteq> seen_set ws"
      proof
        fix r assume r: "r \<in> {32 * ?q..<unat c}"
        define x where "x = r - 32 * ?q"
        have x: "r = 32 * ?q + x" "x < ?k" using r mult_div_mod_eq [of 32 "unat c"]
          unfolding x_def atLeastLessThan_iff by linarith+
        moreover have "x < 32" using x(2) mod_less_divisor [of 32 "unat c"] by linarith
        ultimately show "r \<in> seen_set ws" using a in_seen [OF q2, of x] by simp
      qed
    next
      assume a: "{32 * ?q..<unat c} \<subseteq> seen_set ws"
      show "\<forall>b<?k. bit (ws ! ?q) b"
      proof (intro allI impI)
        fix b assume b: "b < ?k"
        then have "32 * ?q + b \<in> {32 * ?q..<unat c}" using mult_div_mod_eq [of 32 "unat c"]
          unfolding atLeastLessThan_iff by linarith
        moreover have "b < 32" using b mod_less_divisor [of 32 "unat c"] by linarith
        ultimately show "bit (ws ! ?q) b" using subsetD [OF a] in_seen [OF q2, of b] by blast
      qed
    qed
    finally show ?thesis .
  qed
  have c: "{..<unat c} = {..<32 * ?q} \<union> {32 * ?q..<unat c}" by auto
  show ?thesis
  proof (cases "?k = 0")
    case True
    then have "{32 * ?q..<unat c} = {}" "c AND 31 = 0"
      using k mult_div_mod_eq [of 32 "unat c"] by (auto simp: word_unat_eq_iff)
    then show ?thesis using low c by (simp add: all_required_seen_def q)
  next
    case False
    then have "c AND 31 \<noteq> 0" using k by auto
    then show ?thesis using low high [OF False] c by (auto simp: all_required_seen_def q k32)
  qed
qed

text \<open>The invariant of the loop after the tags \<open>T\<close>: the required fields with these tags are marked.\<close>

definition required_seen :: "pb_field_t list \<Rightarrow> u32 set \<Rightarrow> nat set" where
  "required_seen fs T =
     {r. r < 64 \<and> (\<exists>i<n_fields fs. required_field fs i \<and> required_before fs i = r \<and> fld_tag (fs ! i) \<in> T)}"

lemma required_seen_insert:
  assumes j: "j < n_fields fs" "fld_tag (fs ! j) = tag"
    and only: "\<And>k. k < n_fields fs \<Longrightarrow> fld_tag (fs ! k) = tag \<Longrightarrow> k = j"
  shows "required_seen fs (insert tag T) =
    required_seen fs T \<union> {r. r = required_before fs j \<and> required_field fs j \<and> r < 64}"
proof -
  have split: "required_seen fs (insert tag T) = required_seen fs T \<union>
      {r. r < 64 \<and> (\<exists>i<n_fields fs. required_field fs i \<and> required_before fs i = r \<and> fld_tag (fs ! i) = tag)}"
    unfolding required_seen_def by blast
  show ?thesis unfolding split using j only by blast
qed

definition loop_state :: "pb_field_t list \<Rightarrow> addr \<Rightarrow> u32 set \<Rightarrow> decode_locals \<Rightarrow> field_state \<Rightarrow> bool" where
  "loop_state fs p T dl st \<longleftrightarrow>
     (\<exists>i<n_fields fs. at_field fs p i (snd (snd st))) \<and>
     length (dl_fields_seen dl) = 2 \<and> seen_set (dl_fields_seen dl) = required_seen fs T"

lemma required_not_extension:
  "message_fields fs \<Longrightarrow> i < n_fields fs \<Longrightarrow> required_field fs i \<Longrightarrow> PB_LTYPE (fld_type (fs ! i)) \<noteq> PB_LTYPE_EXTENSION"
  by (auto simp: message_fields_def required_field_def pb_type_defs)

lemma unknown_state:
  assumes fs: "message_fields fs" "p \<noteq> 0" and i: "i < n_fields fs" "at_field fs p i it"
    and r: "decode_unknown env n rec tag wt dl (s, m, it) = Some (True, dl', s', m', it')"
  shows "\<exists>j<n_fields fs. at_field fs p j it'" "dl_fields_seen dl' = dl_fields_seen dl"
proof -
  have wf: "wf_fields fs" using fs(1) by (simp add: message_fields_def)
  obtain found it1 j where f: "find_extension_field it = Some (found, it1)" "at_field fs p j it1" "j < n_fields fs"
    using at_field_find_extension [OF wf fs(2) i] by blast
  have cur: "cur_field it1 = Some (fs ! j)" using at_field_cur [OF f(2)] f(3) wf_fields_length [OF wf] by simp
  have "it' = it \<or> it' = it1"
    using r f(1) cur unfolding decode_unknown_def
    by (auto simp: Option.bind_eq_Some_conv Let_def split: if_splits)
  then show "\<exists>j<n_fields fs. at_field fs p j it'" using i f by blast
  show "dl_fields_seen dl' = dl_fields_seen dl"
    using r f(1) cur unfolding decode_unknown_def
    by (auto simp: Option.bind_eq_Some_conv Let_def split: if_splits)
qed

lemma known_state:
  assumes fs: "message_fields fs" "p \<noteq> 0" and i: "i < n_fields fs" "PB_LTYPE (fld_type (fs ! i)) \<noteq> PB_LTYPE_EXTENSION"
    "at_field fs p i it" and len: "length (dl_fields_seen dl) = 2"
    and r: "decode_known env n rec wt dl (s, m, it) = Some (True, dl', s', m', it')"
  shows "at_field fs p i it'" "length (dl_fields_seen dl') = 2"
    "seen_set (dl_fields_seen dl') = seen_set (dl_fields_seen dl) \<union>
       {r. r = required_before fs i \<and> required_field fs i \<and> r < 64}"
proof -
  have wf: "wf_fields fs" and small: "n_fields fs < 2 ^ 31" using fs(1) by (simp_all add: message_fields_def)
  have cur: "cur_field it = Some (fs ! i)" using at_field_cur [OF i(3)] i(1) wf_fields_length [OF wf] by simp
  obtain dl1 it1 where t: "track_fixed_count (fs ! i) dl it = Some (dl1, it1)"
    and d: "decode_field env n rec wt (s, m, it1) = Some (True, s', m', it')"
    and dl': "dl' = dl1\<lparr>dl_fields_seen := track_required (fs ! i) it1 (dl_fields_seen dl1)\<rparr>"
    using r cur by (auto simp: decode_known_def is_fail_def Option.bind_eq_Some_conv Let_def split: option.splits)
  have it1: "at_field fs p i it1" "dl_fields_seen dl1 = dl_fields_seen dl"
    using t i(3) by (auto simp: track_fixed_count_def at_field_def split: if_splits)
  show "at_field fs p i it'" by (rule decode_field_place [OF fs i(1,2) it1(1) d])
  show "length (dl_fields_seen dl') = 2"
    "seen_set (dl_fields_seen dl') = seen_set (dl_fields_seen dl) \<union>
       {r. r = required_before fs i \<and> required_field fs i \<and> r < 64}"
    using track_required_seen [OF _ it1(1) i(1) small, of "dl_fields_seen dl1"] len it1(2) by (simp_all add: dl')
qed

lemma handle_state:
  assumes fs: "message_fields fs" "p \<noteq> 0" and inv: "loop_state fs p T dl (s, m, it)"
    and r: "handle_field env n rec tag wt dl (s, m, it) = Some (True, dl', st')"
  shows "loop_state fs p (insert tag T) dl' st'"
proof -
  have wf: "wf_fields fs" using fs(1) by (simp add: message_fields_def)
  obtain i where i: "i < n_fields fs" "at_field fs p i it" and len: "length (dl_fields_seen dl) = 2"
    and seen: "seen_set (dl_fields_seen dl) = required_seen fs T"
    using inv by (auto simp: loop_state_def)
  obtain s' m' it' where st': "st' = (s', m', it')" by (cases st')
  obtain it1 where f: "pb_field_iter_find it tag = Some (field_with_tag fs tag i \<noteq> None, it1)"
    "at_field fs p (case field_with_tag fs tag i of Some j \<Rightarrow> j | None \<Rightarrow> i) it1"
    using at_field_find [OF wf fs(2) i] by blast
  show ?thesis
  proof (cases "field_with_tag fs tag i")
    case None
    then have u: "decode_unknown env n rec tag wt dl (s, m, it1) = Some (True, dl', s', m', it')"
      using r f(1) by (simp add: handle_field_def st')
    have "at_field fs p i it1" using f(2) None by simp
    note state = unknown_state [OF fs i(1) this u]
    have "required_seen fs (insert tag T) = required_seen fs T"
      using field_with_tag_None [OF None i(1)] required_not_extension [OF fs(1)]
      by (auto simp: required_seen_def)
    then show ?thesis using state len seen by (simp add: loop_state_def st')
  next
    case (Some j)
    then have k: "decode_known env n rec wt dl (s, m, it1) = Some (True, dl', s', m', it')"
      using r f(1) by (simp add: handle_field_def st')
    have j: "j < n_fields fs" "fld_tag (fs ! j) = tag" "PB_LTYPE (fld_type (fs ! j)) \<noteq> PB_LTYPE_EXTENSION"
      using field_with_tag_Some [OF Some i(1)] by simp_all
    have "at_field fs p j it1" using f(2) Some by simp
    note state = known_state [OF fs j(1,3) this len k]
    have "k = j" if "k < n_fields fs" "fld_tag (fs ! k) = tag" for k
      using that j fs(1) by (auto simp: message_fields_def)
    then have "required_seen fs (insert tag T) =
        required_seen fs T \<union> {r. r = required_before fs j \<and> required_field fs j \<and> r < 64}"
      using required_seen_insert [OF j(1,2)] by blast
    then show ?thesis using state j(1) seen by (auto simp: loop_state_def st')
  qed
qed

lemma run_state:
  assumes fs: "message_fields fs" "p \<noteq> 0"
  shows "message_run env n rec dl st tags ok dl' st' \<Longrightarrow> loop_state fs p T dl st \<Longrightarrow> ok \<Longrightarrow>
    loop_state fs p (T \<union> set tags) dl' st'"
proof (induction arbitrary: T rule: message_run.induct)
  case (run_end s dl m it)
  then show ?case by simp
next
  case (run_tag s s' wt tag eof dl m it)
  then show ?case by (simp add: loop_state_def)
next
  case (run_stop s s' wt tag eof dl m it dl' st')
  then show ?case by simp
next
  case (run_field s s' wt tag eof dl m it dl' st' tags ok dl'' st'')
  have "loop_state fs p T dl (s', m, it)" using run_field.prems(1) by (simp add: loop_state_def)
  from handle_state [OF fs this run_field.hyps(3)] run_field.IH [of "insert tag T"] run_field.prems(2)
  show ?case by simp
qed

section \<open>The number of required fields\<close>

lemma seek_end_at:
  assumes wf: "wf_fields fs" "p \<noteq> 0"
  shows "i < n_fields fs \<Longrightarrow> at_field fs p i it \<Longrightarrow> n_fields fs - i \<le> k \<Longrightarrow>
    \<exists>it'. seek_end k it = Some (of_nat (required_before fs (n_fields fs - 1)), fld_type (fs ! (n_fields fs - 1)), it') \<and>
      at_field fs p 0 it'"
proof (induction k arbitrary: i it)
  case (Suc k)
  have cur: "cur_field it = Some (fs ! i)" using at_field_cur [OF Suc.prems(2)] Suc.prems(1) wf_fields_length [OF wf(1)] by simp
  obtain it1 where it1: "pb_field_iter_next it = Some (Suc i < n_fields fs, it1)"
    "at_field fs p (if Suc i < n_fields fs then Suc i else 0) it1"
    using at_field_next [OF wf Suc.prems(1,2)] by blast
  show ?case
  proof (cases "Suc i < n_fields fs")
    case True
    then show ?thesis using Suc.IH [of "Suc i" it1] Suc.prems it1 cur by simp
  next
    case False
    then have "i = n_fields fs - 1" using Suc.prems(1) by simp
    then show ?thesis using False it1 cur at_field_fields [OF Suc.prems(2)] by simp
  qed
qed simp

lemma required_count_exact:
  assumes fs: "message_fields fs" "p \<noteq> 0" and i: "i < n_fields fs" "at_field fs p i it"
  shows "\<exists>c. required_count it = Some c \<and> unat c = min 64 (required_before fs (n_fields fs))"
proof -
  have wf: "wf_fields fs" and n: "0 < n_fields fs" "n_fields fs < 2 ^ 31" using fs(1) by (simp_all add: message_fields_def)
  have start: "it_start it = fs" using at_field_fields [OF i(2)] by simp
  have le: "n_fields fs - i \<le> length fs" using wf_fields_length [OF wf] by linarith
  obtain it' where s: "seek_end (length fs) it =
      Some (of_nat (required_before fs (n_fields fs - 1)), fld_type (fs ! (n_fields fs - 1)), it')" "at_field fs p 0 it'"
    using seek_end_at [OF wf fs(2) i le] by blast
  have cur: "cur_field it' = Some (fs ! 0)" using at_field_cur [OF s(2)] wf_fields_length [OF wf] by simp
  have tag: "fld_tag (fs ! 0) \<noteq> 0" using wf_fields_tag [OF wf, of 0] n(1) wf_fields_length [OF wf] by simp
  let ?r = "required_before fs (n_fields fs)"
  have r: "?r = (if required_field fs (n_fields fs - 1) then required_before fs (n_fields fs - 1) + 1
      else required_before fs (n_fields fs - 1))"
    using n(1) by (cases "n_fields fs") (simp_all add: required_field_def)
  have "?r < 2 ^ 31" using required_before_le [of fs "n_fields fs"] n(2) by linarith
  then have u: "unat (of_nat ?r :: u32) = ?r" by (simp add: unat_of_nat)
  define c where "c = (if (of_nat ?r :: u32) > PB_MAX_REQUIRED_FIELDS then PB_MAX_REQUIRED_FIELDS else of_nat ?r)"
  have "required_count it = Some c"
    using s cur tag by (simp add: required_count_def start c_def Let_def r required_field_def add.commute del: seek_end.simps)
  moreover have "unat c = min 64 ?r"
    using u by (auto simp: c_def PB_MAX_REQUIRED_FIELDS_def word_less_nat_alt)
  ultimately show ?thesis by blast
qed

lemma init_state: "0 < n_fields fs \<Longrightarrow> loop_state fs p {} init_locals (s, m, iter_at fs p 0 0)"
proof -
  assume n: "0 < n_fields fs"
  have "seen_set [0, 0] = {}" by (auto simp: seen_set_def less_2_cases_iff nth_Cons' split: if_splits)
  then show ?thesis using n by (auto simp: loop_state_def init_locals_def required_seen_def)
qed

text \<open>The test at the end of \<^verbatim>\<open>pb_decode_noinit\<close>, in terms of the tags read.\<close>

lemma missing_required_iff:
  assumes fs: "message_fields fs" "p \<noteq> 0" and inv: "loop_state fs p T dl (s, m, it)" and req: "required_count it = Some req"
  shows "req > 0 \<and> \<not> all_required_seen req (dl_fields_seen dl) \<longleftrightarrow>
    (\<exists>i<n_fields fs. required_field fs i \<and> required_before fs i < 64 \<and> fld_tag (fs ! i) \<notin> T)"
proof -
  obtain i where i: "i < n_fields fs" "at_field fs p i it" using inv by (auto simp: loop_state_def)
  have seen: "seen_set (dl_fields_seen dl) = required_seen fs T" using inv by (simp add: loop_state_def)
  have c: "unat req = min 64 (required_before fs (n_fields fs))"
    using required_count_exact [OF fs i] req by auto
  have sub: "required_seen fs T \<subseteq> {..<unat req}"
    using required_before_less by (auto simp: required_seen_def c)
  have "all_required_seen req (dl_fields_seen dl) \<longleftrightarrow> {..<unat req} \<subseteq> required_seen fs T"
    using all_required_exact [of "dl_fields_seen dl" req] sub seen c by simp
  also have "\<dots> \<longleftrightarrow> \<not> (\<exists>i<n_fields fs. required_field fs i \<and> required_before fs i < 64 \<and> fld_tag (fs ! i) \<notin> T)"
  proof
    assume a: "{..<unat req} \<subseteq> required_seen fs T"
    show "\<not> (\<exists>i<n_fields fs. required_field fs i \<and> required_before fs i < 64 \<and> fld_tag (fs ! i) \<notin> T)"
    proof clarify
      fix i assume i: "i < n_fields fs" "required_field fs i" "required_before fs i < 64" "fld_tag (fs ! i) \<notin> T"
      have "required_before fs i < unat req" using i required_before_less [OF i(2,1)] c by simp
      then obtain j where "required_field fs j" "required_before fs j = required_before fs i" "fld_tag (fs ! j) \<in> T"
        using a by (auto simp: required_seen_def)
      then show False using required_before_inj [OF _ i(2)] i(4) by auto
    qed
  next
    assume a: "\<not> (\<exists>i<n_fields fs. required_field fs i \<and> required_before fs i < 64 \<and> fld_tag (fs ! i) \<notin> T)"
    show "{..<unat req} \<subseteq> required_seen fs T"
    proof
      fix r assume "r \<in> {..<unat req}"
      then have r: "r < 64" "r < required_before fs (n_fields fs)" using c by auto
      then obtain i where "i < n_fields fs" "required_field fs i" "required_before fs i = r"
        using required_before_onto by blast
      then show "r \<in> required_seen fs T" using a r by (auto simp: required_seen_def)
    qed
  qed
  finally show ?thesis by (cases "req = 0") (auto simp: word_gt_0 all_required_seen_def)
qed

text \<open>
  The result of a run over any input of any message: one that got through all its fields succeeds if a tag
  of each of the first 64 required fields was read, and fails with this error otherwise.  Errors met
  earlier, and a fixed-count array with a wrong number of entries, come first.
\<close>

lemma message_run_result:
  assumes fs: "message_fields fs" "p \<noteq> 0"
    and r: "pb_decode_noinit env (Suc n) (s, m) fs p = Some (ok, s', m')"
  shows "\<exists>tags done dl s1 m1 it.
    message_run env n (pb_decode_noinit env n) init_locals (s, m, iter_at fs p 0 0) tags done dl (s1, m1, it) \<and> m' = m1 \<and>
    (if \<not> done then \<not> ok \<and> s' = s1
     else if fixed_count_wrong dl it then \<not> ok \<and> s' = is_set_error s1 ''wrong size for fixed count field''
     else if \<exists>i<n_fields fs. required_field fs i \<and> required_before fs i < 64 \<and> fld_tag (fs ! i) \<notin> set tags
     then \<not> ok \<and> s' = is_set_error s1 ''missing required field''
     else ok \<and> s' = s1)"
proof -
  let ?rec = "pb_decode_noinit env n"
  have wf: "wf_fields fs" and n: "0 < n_fields fs" using fs(1) by (simp_all add: message_fields_def)
  have start0: "pb_field_iter_begin fs p 0 = Some (True, iter_at fs p 0 0)" using iter_begin_wf [OF wf fs(2)] n by simp
  obtain don dl s1 m1 it where loop: "decode_loop env n ?rec (Suc (unat (is_bytes_left s))) init_locals (s, m, iter_at fs p 0 0) =
      Some (don, dl, s1, m1, it)"
    and rest: "(if \<not> don then Some (False, s1, m1)
     else if fixed_count_wrong dl it then is_fail s1 ''wrong size for fixed count field'' m1
     else do {
       req_field_count \<leftarrow> required_count it;
       if req_field_count > 0 \<and> \<not> all_required_seen req_field_count (dl_fields_seen dl)
       then is_fail s1 ''missing required field'' m1
       else Some (True, s1, m1)
     }) = Some (ok, s', m')"
    using r start0 by (auto simp: noinit_body_def Option.bind_eq_Some_conv)
  obtain tags where run: "message_run env n ?rec init_locals (s, m, iter_at fs p 0 0) tags don dl (s1, m1, it)"
    using decode_loop_run [OF loop] by blast
  have init: "loop_state fs p {} init_locals (s, m, iter_at fs p 0 0)" by (rule init_state [OF n])
  have missing: "req > 0 \<and> \<not> all_required_seen req (dl_fields_seen dl) \<longleftrightarrow>
      (\<exists>i<n_fields fs. required_field fs i \<and> required_before fs i < 64 \<and> fld_tag (fs ! i) \<notin> set tags)"
    if "required_count it = Some req" don for req
    using missing_required_iff [OF fs _ that(1), of "set tags" dl s1 m1] run_state [OF fs run init that(2)] by simp
  show ?thesis
    using run rest missing
    by (intro exI [of _ tags] exI [of _ don] exI [of _ dl] exI [of _ s1] exI [of _ m1] exI [of _ it])
      (auto simp: is_fail_def Option.bind_eq_Some_conv split: if_splits)
qed

lemma sample_fields: "message_fields [num_field, PB_LAST_FIELD]"
proof -
  have "fld_tag num_field = 1" "fld_tag PB_LAST_FIELD = 0" "n_fields [num_field, PB_LAST_FIELD] = 1"
    by (simp_all add: num_field_def PB_LAST_FIELD_def n_fields_def)
  then show ?thesis by (simp add: message_fields_def wf_fields_def sample_types) (simp add: pb_type_defs)
qed

end
