(* ===== verification/PbValue.thy ===== *)
theory PbValue
  imports PbDecodeProofs
begin

text \<open>
  What messages mean: the values of their fields, apart from where the bytes lie, and the wire format
  as a function of the value alone.  A field type is given by an encoder, a decoder, the reading of a
  value from memory and the code of a value; the locale \<open>field_codec\<close> states what they promise each
  other.  The scalar types of the two tables meet the contract, and so does a message of fields that
  meet it; induction on the nesting depth gives the round trip of messages.  Last, messages of which some members are
  on the wire, in any order, and what the decoder says of the required ones.
\<close>

section \<open>Values of fields\<close>

text \<open>
  What a message holds, apart from where its bytes lie: a field is missing, has the bytes of a scalar,
  or is a message of its own.
\<close>

datatype pb_value = Missing | Scalar bytes | Message "pb_value list"

text \<open>The scalar types with the sizes of their C members.\<close>

definition scalar_field :: "pb_field_t \<Rightarrow> bool" where
  "scalar_field f \<longleftrightarrow> (let lt = PB_LTYPE (fld_type f); k = fld_data_size f in
     lt = PB_LTYPE_BOOL \<and> k = 1 \<or>
     (lt = PB_LTYPE_VARINT \<or> lt = PB_LTYPE_UVARINT \<or> lt = PB_LTYPE_SVARINT) \<and> (k = 1 \<or> k = 2 \<or> k = 4 \<or> k = 8) \<or>
     lt = PB_LTYPE_FIXED32 \<and> k = 4 \<or> lt = PB_LTYPE_FIXED64 \<and> k = 8 \<or>
     lt = PB_LTYPE_FIXED_LENGTH_BYTES \<and> k \<noteq> 0)"

text \<open>Any byte but 0 is the truth value true.\<close>

definition scalar_bytes :: "pb_field_t \<Rightarrow> bytes \<Rightarrow> bytes" where
  "scalar_bytes f bs = (if PB_LTYPE (fld_type f) = PB_LTYPE_BOOL then map (\<lambda>b. if b = 0 then 0 else 1) bs else bs)"

definition scalar_value :: "cmem \<Rightarrow> pb_field_t \<Rightarrow> addr \<Rightarrow> pb_value option" where
  "scalar_value m f p =
     (if scalar_field f then map_option (Scalar \<circ> scalar_bytes f) (load_bytes m p (unat (fld_data_size f))) else None)"

text \<open>The bytes of a two's complement number as the 64-bit number of the same value.\<close>

definition signed_value :: "bytes \<Rightarrow> u64" where
  "signed_value bs = signed_take_bit (8 * length bs - 1) (le_word bs)"

definition scalar_code :: "pb_field_t \<Rightarrow> bytes \<Rightarrow> bytes" where
  "scalar_code f bs = (let lt = PB_LTYPE (fld_type f) in
     if lt = PB_LTYPE_BOOL \<or> lt = PB_LTYPE_UVARINT then uvarint (unat (le_word bs :: u64))
     else if lt = PB_LTYPE_VARINT then uvarint (unat (signed_value bs))
     else if lt = PB_LTYPE_SVARINT then uvarint (unat (zigzag (signed_value bs)))
     else if lt = PB_LTYPE_FIXED_LENGTH_BYTES then uvarint (length bs) @ bs
     else bs)"

section \<open>What a decoder may change\<close>

definition changed_within :: "nat set \<Rightarrow> cmem \<Rightarrow> cmem \<Rightarrow> bool" where
  "changed_within A m m' \<longleftrightarrow> dom (cbytes m') = dom (cbytes m) \<and> cblocks m' = cblocks m \<and>
     (\<forall>x. x \<notin> A \<longrightarrow> cbytes m' x = cbytes m x)"

lemma changed_refl [simp]: "changed_within A m m"
  by (simp add: changed_within_def)

lemma changed_trans: "changed_within A m m1 \<Longrightarrow> changed_within B m1 m2 \<Longrightarrow> A \<union> B \<subseteq> C \<Longrightarrow> changed_within C m m2"
  unfolding changed_within_def by (metis UnCI subsetD)

lemma changed_mono: "changed_within A m m' \<Longrightarrow> A \<subseteq> B \<Longrightarrow> changed_within B m m'"
  by (rule changed_trans [OF _ changed_refl]) auto

lemma changed_valid: "changed_within A m m' \<Longrightarrow> valid_range m' p n = valid_range m p n"
  by (simp add: changed_within_def valid_range_def)

lemma changed_load:
  assumes "changed_within A m m'" "A \<inter> {p..<p + n} = {}"
  shows "load_bytes m' p n = load_bytes m p n"
  using assms by (intro load_bytes_cong) (auto simp: changed_within_def)

lemma store_changed:
  assumes "store_bytes m p bs = Some m'"
  shows "changed_within {p..<p + length bs} m m'"
proof -
  have "valid_range m p (length bs)" using assms store_bytes_valid [of m p bs] by auto
  then show ?thesis using store_bytes_effect [OF assms]
    by (auto simp: changed_within_def valid_range_def dom_def)
qed

lemma store_load: "store_bytes m p bs = Some m' \<Longrightarrow> load_bytes m' p (length bs) = Some bs"
proof (induction bs arbitrary: m p)
  case (Cons b bs)
  then have s: "store_bytes (m\<lparr>cbytes := (cbytes m)(p \<mapsto> b)\<rparr>) (Suc p) bs = Some m'" by (simp split: if_splits)
  have "cbytes m' p = Some b" using store_bytes_effect(1) [OF s] by simp
  then show ?case using Cons.IH [OF s] by simp
qed simp

lemma store_bytes_Some: "valid_range m p (length bs) \<Longrightarrow> \<exists>m'. store_bytes m p bs = Some m'"
  using store_bytes_valid [of m p bs] by auto

lemma store_word_bytes:
  "length bs = n \<Longrightarrow> 8 * n \<le> LENGTH('a) \<Longrightarrow> store_word m p n (le_word bs :: 'a::len word) = store_bytes m p bs"
  using word_le_bytes_le_word [of bs, where 'a = 'a] by (simp add: store_word_def)

section \<open>Integers of different widths\<close>

lemma ucast_le_word: "8 * length bs \<le> LENGTH('a) \<Longrightarrow> ucast (le_word bs :: 'a::len word) = (le_word bs :: 'b::len word)"
  by (rule bit_word_eqI) (auto simp: bit_ucast_iff bit_le_word)

lemma bit_signed_value:
  assumes "bs \<noteq> []" "length bs \<le> 8"
  shows "bit (signed_value bs) i \<longleftrightarrow> i < 64 \<and> bit (bs ! (min i (8 * length bs - 1) div 8)) (min i (8 * length bs - 1) mod 8)"
proof -
  have "0 < length bs" using assms(1) by simp
  then have "min i (8 * length bs - 1) < length bs * 8" by linarith
  then have "min i (8 * length bs - 1) div 8 < length bs" by (rule less_mult_imp_div_less)
  moreover have "min i (8 * length bs - 1) < 64" using assms(2) \<open>0 < length bs\<close> by linarith
  ultimately show ?thesis by (auto simp: signed_value_def bit_signed_take_bit_iff bit_le_word min.commute)
qed

lemma scast_le_word:
  assumes "8 * length bs = LENGTH('a)" "length bs \<le> 8"
  shows "scast (le_word bs :: 'a::len word) = signed_value bs"
proof -
  have "bs \<noteq> []" using assms(1) by auto
  have l: "LENGTH('a) - Suc 0 = 8 * length bs - 1" using assms(1) by simp
  show ?thesis
  proof (rule bit_word_eqI)
    fix i assume i: "i < LENGTH(64)"
    have "min i (8 * length bs - 1) < LENGTH('a)" using assms(1) len_gt_0 [where 'a = 'a] by linarith
    moreover from this have "min i (8 * length bs - 1) div 8 < length bs" unfolding assms(1) [symmetric] by (simp add: less_mult_imp_div_less mult.commute)
    ultimately show "bit (scast (le_word bs :: 'a word) :: u64) i = bit (signed_value bs) i"
      using i bit_signed_value [OF \<open>bs \<noteq> []\<close> assms(2), of i]
      by (simp add: bit_signed_iff l bit_le_word min.commute)
  qed
qed

lemma signed_value_8:
  assumes "length bs = 8"
  shows "signed_value bs = le_word bs"
proof (rule bit_word_eqI)
  fix i assume "i < LENGTH(64)"
  moreover have "bs \<noteq> []" using assms by auto
  ultimately show "bit (signed_value bs) i = bit (le_word bs :: u64) i"
    using bit_signed_value [of bs i] assms by (auto simp: bit_le_word less_mult_imp_div_less)
qed

lemma signed_value_bytes:
  assumes "length bs = k" "k \<le> 8"
  shows "word_le_bytes k (signed_value bs) = bs"
proof (rule nth_equalityI)
  show "length (word_le_bytes k (signed_value bs)) = length bs" using assms by simp
  fix i assume "i < length (word_le_bytes k (signed_value bs))"
  then have i: "i < k" "bs \<noteq> []" using assms by auto
  show "word_le_bytes k (signed_value bs) ! i = bs ! i"
  proof (rule bit_word_eqI)
    fix j assume j: "j < LENGTH(8)"
    then have "8 * i + j \<le> 8 * k - 1" "8 * i + j < 64" using i assms by auto
    then have "min (8 * i + j) (8 * length bs - 1) = 8 * i + j" using assms by simp
    then show "bit (word_le_bytes k (signed_value bs) ! i) j = bit (bs ! i) j"
      using i j assms bit_signed_value [OF i(2), of "8 * i + j"]
      by (simp add: nth_word_le_bytes bit_ucast_iff bit_drop_bit_eq)
  qed
qed

lemma narrow_signed:
  assumes "8 * length bs = LENGTH('a)" "length bs \<le> 8"
  shows "ucast (signed_value bs) = (le_word bs :: 'a::len word)"
proof (rule bit_word_eqI)
  fix i assume i: "i < LENGTH('a)"
  have "bs \<noteq> []" using assms(1) by auto
  moreover have "min i (8 * length bs - 1) = i" "i < 64" using i assms by auto
  moreover have "i div 8 < length bs" using i assms(1) by (simp add: less_mult_imp_div_less mult.commute)
  ultimately show "bit (ucast (signed_value bs) :: 'a word) i = bit (le_word bs :: 'a word) i"
    using i bit_signed_value [of bs i] assms by (simp add: bit_ucast_iff bit_le_word)
qed

lemma sign_extend_32:
  assumes "bs \<noteq> []" "length bs \<le> 4"
  shows "scast (ucast (signed_value bs) :: u32) = signed_value bs"
proof (rule bit_word_eqI)
  fix i assume i: "i < LENGTH(64)"
  have m: "min (min i 31) (8 * length bs - 1) = min i (8 * length bs - 1)" using assms(2) by simp
  have "bit (scast (ucast (signed_value bs) :: u32) :: u64) i = bit (signed_value bs) (min i 31)"
    using i by (simp add: bit_signed_iff bit_ucast_iff min.commute min_less_iff_disj)
  also have "\<dots> = bit (signed_value bs) i"
    using bit_signed_value [OF assms(1), of "min i 31"] bit_signed_value [OF assms(1), of i] assms(2) i
    unfolding m by (simp add: min_less_iff_disj)
  finally show "bit (scast (ucast (signed_value bs) :: u32) :: u64) i = bit (signed_value bs) i" .
qed

text \<open>The value of a member as the encoder loads it, and the test of the decoder that it fits.\<close>

lemma small_sizes: "k = 1 \<or> k = 2 \<or> k = 4 \<or> k = (8 :: u32) \<Longrightarrow> unat k \<le> 8 \<and> unat k \<noteq> 0"
  by auto

lemma load_integer:
  assumes k: "k = 1 \<or> k = 2 \<or> k = 4 \<or> k = 8" and bs: "load_bytes m p (unat k) = Some bs"
  shows "load_unsigned m p k = Some (Some (le_word bs))" "load_signed m p k = Some (Some (signed_value bs))"
proof -
  have len: "length bs = unat k" using length_load_bytes [OF bs] .
  show "load_unsigned m p k = Some (Some (le_word bs))"
    using k bs len by (elim disjE) (simp_all add: load_unsigned_def load_word_def ucast_le_word del: load_bytes.simps)
  show "load_signed m p k = Some (Some (signed_value bs))"
    using k bs len by (elim disjE)
      (simp_all add: load_signed_def load_word_def scast_le_word signed_value_8 del: load_bytes.simps)
qed

lemma clamp_integer:
  assumes k: "k = 1 \<or> k = 2 \<or> k = 4 \<or> k = 8" and len: "length bs = unat k"
  shows "clamp_unsigned k (le_word bs) = Some (le_word bs)" "clamp_signed k (signed_value bs) = Some (signed_value bs)"
proof -
  have u: "LENGTH('a) \<le> 64 \<Longrightarrow> ucast (le_word bs :: u64) = (le_word bs :: 'a::len word)" for bs
    by (rule bit_word_eqI) (auto simp: bit_ucast_iff bit_le_word)
  show "clamp_unsigned k (le_word bs) = Some (le_word bs)"
    using k len by (elim disjE) (simp_all add: clamp_unsigned_def u ucast_le_word)
  show "clamp_signed k (signed_value bs) = Some (signed_value bs)"
    using k len by (elim disjE) (simp_all add: clamp_signed_def narrow_signed scast_le_word)
qed

section \<open>The contract of a field type\<close>

text \<open>
  What an encoder, its decoder and the reading of a value from memory promise each other: the encoder
  writes the code of the value it finds; the decoder, on a stream that begins with the code of a value
  that some memory can hold and on a member ready to take one, succeeds, consumes the code, and leaves
  the value in the member and the rest of memory as it was.  Value and readiness depend on the bytes
  of the member only.
\<close>

locale field_codec =
  fixes f :: pb_field_t
    and enc :: "cmem \<Rightarrow> pb_encoder_t"
    and dec :: pb_decoder_t
    and val :: "cmem \<Rightarrow> addr \<Rightarrow> pb_value option"
    and code :: "pb_value \<Rightarrow> bytes"
    and ready :: "cmem \<Rightarrow> addr \<Rightarrow> bool"
  assumes enc_writes: "val m p = Some v \<Longrightarrow> p \<noteq> 0 \<Longrightarrow> length (code v) < 2 ^ 32 \<Longrightarrow>
      writes_on fresh (\<lambda>s. enc m s f p) (code v)"
    and dec_reads: "val m0 p0 = Some v \<Longrightarrow> p \<noteq> 0 \<Longrightarrow> length (code v) < 2 ^ 32 \<Longrightarrow> offers s (code v) \<Longrightarrow> ready m p \<Longrightarrow>
      \<exists>m'. dec (s, m) f p = Some (True, advance s (length (code v)), m') \<and> val m' p = Some v \<and>
        changed_within {p..<p + unat (fld_data_size f)} m m'"
    and val_local: "changed_within A m m' \<Longrightarrow> A \<inter> {p..<p + unat (fld_data_size f)} = {} \<Longrightarrow> val m' p = val m p"
    and ready_local: "changed_within A m m' \<Longrightarrow> A \<inter> {p..<p + unat (fld_data_size f)} = {} \<Longrightarrow> ready m' p = ready m p"
    and not_missing: "val m p = Some v \<Longrightarrow> v \<noteq> Missing"

text \<open>The encoder and the decoder of a field: the entries of the two tables.\<close>

definition table_encode :: "pb_env \<Rightarrow> message_encoder \<Rightarrow> cmem \<Rightarrow> pb_encoder_t" where
  "table_encode env rec m s f p = Option.bind (PB_ENCODERS env m rec (PB_LTYPE (fld_type f))) (\<lambda>e. e s f p)"

definition table_decode :: "pb_env \<Rightarrow> nat \<Rightarrow> message_decoder \<Rightarrow> pb_decoder_t" where
  "table_decode env n rec sm f p = Option.bind (PB_DECODERS env n rec (PB_LTYPE (fld_type f))) (\<lambda>d. d sm f p)"

lemma scalar_cases:
  assumes "scalar_field f"
  obtains "PB_LTYPE (fld_type f) = PB_LTYPE_BOOL" "fld_data_size f = 1"
  | "PB_LTYPE (fld_type f) = PB_LTYPE_VARINT" "fld_data_size f = 1 \<or> fld_data_size f = 2 \<or> fld_data_size f = 4 \<or> fld_data_size f = 8"
  | "PB_LTYPE (fld_type f) = PB_LTYPE_UVARINT" "fld_data_size f = 1 \<or> fld_data_size f = 2 \<or> fld_data_size f = 4 \<or> fld_data_size f = 8"
  | "PB_LTYPE (fld_type f) = PB_LTYPE_SVARINT" "fld_data_size f = 1 \<or> fld_data_size f = 2 \<or> fld_data_size f = 4 \<or> fld_data_size f = 8"
  | "PB_LTYPE (fld_type f) = PB_LTYPE_FIXED32" "fld_data_size f = 4"
  | "PB_LTYPE (fld_type f) = PB_LTYPE_FIXED64" "fld_data_size f = 8"
  | "PB_LTYPE (fld_type f) = PB_LTYPE_FIXED_LENGTH_BYTES" "fld_data_size f \<noteq> 0"
  using assms unfolding scalar_field_def Let_def by blast

lemma scalar_tables:
  "PB_ENCODERS env m rec PB_LTYPE_BOOL = Some (pb_enc_bool env m)" "PB_DECODERS env n rec' PB_LTYPE_BOOL = Some (pb_dec_bool env)"
  "PB_ENCODERS env m rec PB_LTYPE_VARINT = Some (pb_enc_varint env m)" "PB_DECODERS env n rec' PB_LTYPE_VARINT = Some (pb_dec_varint env)"
  "PB_ENCODERS env m rec PB_LTYPE_UVARINT = Some (pb_enc_uvarint env m)" "PB_DECODERS env n rec' PB_LTYPE_UVARINT = Some (pb_dec_uvarint env)"
  "PB_ENCODERS env m rec PB_LTYPE_SVARINT = Some (pb_enc_svarint env m)" "PB_DECODERS env n rec' PB_LTYPE_SVARINT = Some (pb_dec_svarint env)"
  "PB_ENCODERS env m rec PB_LTYPE_FIXED32 = Some (pb_enc_fixed32 env m)" "PB_DECODERS env n rec' PB_LTYPE_FIXED32 = Some (pb_dec_fixed32 env)"
  "PB_ENCODERS env m rec PB_LTYPE_FIXED64 = Some (pb_enc_fixed64 env m)" "PB_DECODERS env n rec' PB_LTYPE_FIXED64 = Some (pb_dec_fixed64 env)"
  "PB_ENCODERS env m rec PB_LTYPE_FIXED_LENGTH_BYTES = Some (pb_enc_fixed_length_bytes env m)"
  "PB_DECODERS env n rec' PB_LTYPE_FIXED_LENGTH_BYTES = Some (pb_dec_fixed_length_bytes env)"
  "PB_ENCODERS env m rec PB_LTYPE_SUBMESSAGE = Some (pb_enc_submessage env m rec)"
  "PB_DECODERS env n rec' PB_LTYPE_SUBMESSAGE = Some (pb_dec_submessage env n rec')"
  by (simp_all add: PB_ENCODERS_def PB_DECODERS_def pb_type_defs)

lemma scalar_codes:
  "PB_LTYPE (fld_type f) = PB_LTYPE_BOOL \<Longrightarrow> scalar_code f bs = uvarint (unat (le_word bs :: u64))"
  "PB_LTYPE (fld_type f) = PB_LTYPE_UVARINT \<Longrightarrow> scalar_code f bs = uvarint (unat (le_word bs :: u64))"
  "PB_LTYPE (fld_type f) = PB_LTYPE_VARINT \<Longrightarrow> scalar_code f bs = uvarint (unat (signed_value bs))"
  "PB_LTYPE (fld_type f) = PB_LTYPE_SVARINT \<Longrightarrow> scalar_code f bs = uvarint (unat (zigzag (signed_value bs)))"
  "PB_LTYPE (fld_type f) = PB_LTYPE_FIXED32 \<Longrightarrow> scalar_code f bs = bs"
  "PB_LTYPE (fld_type f) = PB_LTYPE_FIXED64 \<Longrightarrow> scalar_code f bs = bs"
  "PB_LTYPE (fld_type f) = PB_LTYPE_FIXED_LENGTH_BYTES \<Longrightarrow> scalar_code f bs = uvarint (length bs) @ bs"
  by (simp_all add: scalar_code_def pb_type_defs)

lemma scalar_bytes_id:
  "PB_LTYPE (fld_type f) = PB_LTYPE_VARINT \<Longrightarrow> scalar_bytes f bs = bs"
  "PB_LTYPE (fld_type f) = PB_LTYPE_UVARINT \<Longrightarrow> scalar_bytes f bs = bs"
  "PB_LTYPE (fld_type f) = PB_LTYPE_SVARINT \<Longrightarrow> scalar_bytes f bs = bs"
  "PB_LTYPE (fld_type f) = PB_LTYPE_FIXED32 \<Longrightarrow> scalar_bytes f bs = bs"
  "PB_LTYPE (fld_type f) = PB_LTYPE_FIXED64 \<Longrightarrow> scalar_bytes f bs = bs"
  "PB_LTYPE (fld_type f) = PB_LTYPE_FIXED_LENGTH_BYTES \<Longrightarrow> scalar_bytes f bs = bs"
  by (simp_all add: scalar_bytes_def pb_type_defs)

lemma load_bytes_1: "load_bytes m p 1 = Some bs \<Longrightarrow> \<exists>b. bs = [b] \<and> cbytes m p = Some b"
  by (auto simp: Option.bind_eq_Some_conv)

lemma scalar_writes:
  assumes f: "scalar_field f" and bs: "load_bytes m p (unat (fld_data_size f)) = Some bs" and p: "p \<noteq> 0"
  shows "writes (\<lambda>s. table_encode env rec m s f p) (scalar_code f (scalar_bytes f bs))"
  using f
proof (cases rule: scalar_cases)
  case 1
  then have "load_bytes m p 1 = Some bs" using bs by (simp del: load_bytes.simps)
  then obtain b where b: "bs = [b]" "cbytes m p = Some b" using load_bytes_1 by blast
  have c: "le_word (scalar_bytes f bs) = (if b = 0 then 0 else 1 :: u64)"
    using 1 b by (simp add: scalar_bytes_def)
  have "safe_read_bool m p = Some (b \<noteq> 0)" using b by (simp add: safe_read_bool_def load_word_def)
  then show ?thesis
    using 1 c pb_encode_varint_writes [of env m "if b \<noteq> 0 then 1 else 0"]
    by (cases "b = 0") (simp_all add: table_encode_def scalar_tables scalar_codes pb_enc_bool_def)
next
  case 2
  then show ?thesis
    using load_integer(2) [OF 2(2) bs] pb_encode_varint_writes [of env m "signed_value bs"] scalar_codes(3)
    by (simp add: table_encode_def scalar_tables pb_enc_varint_def scalar_bytes_id)
next
  case 3
  then show ?thesis
    using load_integer(1) [OF 3(2) bs] pb_encode_varint_writes [of env m "le_word bs"] scalar_codes(2)
    by (simp add: table_encode_def scalar_tables pb_enc_uvarint_def scalar_bytes_id)
next
  case 4
  then show ?thesis
    using load_integer(2) [OF 4(2) bs] svarint_codec.enc_writes [OF TrueI, where v = "signed_value bs" and env = env and m = m] scalar_codes(4)
    by (simp add: table_encode_def scalar_tables pb_enc_svarint_def scalar_bytes_id)
next
  case 5
  have len: "length bs = 4" using length_load_bytes [OF bs] 5 by simp
  have "load_word m p 4 = Some (le_word bs :: u32)" using bs 5 by (simp add: load_word_def del: load_bytes.simps)
  from pb_encode_fixed32_writes [OF this, of env] show ?thesis
    using 5 len word_le_bytes_le_word [of bs 4, where 'a = 32] scalar_codes(5) [OF 5(1)]
    by (simp add: table_encode_def scalar_tables pb_enc_fixed32_def scalar_bytes_id)
next
  case 6
  have len: "length bs = 8" using length_load_bytes [OF bs] 6 by simp
  have "load_word m p 8 = Some (le_word bs :: u64)" using bs 6 by (simp add: load_word_def del: load_bytes.simps)
  from pb_encode_fixed64_writes [OF this, of env] show ?thesis
    using 6 len word_le_bytes_le_word [of bs 8, where 'a = 64] scalar_codes(6) [OF 6(1)]
    by (simp add: table_encode_def scalar_tables pb_enc_fixed64_def scalar_bytes_id)
next
  case 7
  have len: "length bs = unat (fld_data_size f)" using length_load_bytes [OF bs] .
  have u: "unat (ucast (fld_data_size f) :: u64) = unat (fld_data_size f)" by (rule ucast_u32_u64)
  show ?thesis
    using pb_encode_string_writes [of m "CMem p" "ucast (fld_data_size f)" bs env] bs len u p 7 scalar_codes(7) [OF 7(1)]
    by (simp add: table_encode_def scalar_tables pb_enc_fixed_length_bytes_def scalar_bytes_id)
qed

lemma scalar_reads:
  assumes f: "scalar_field f" and len: "length bs = unat (fld_data_size f)"
    and bool: "PB_LTYPE (fld_type f) = PB_LTYPE_BOOL \<Longrightarrow> bs = [0] \<or> bs = [1]"
    and off: "offers s (scalar_code f bs)"
  shows "table_decode env n rec (s, m) f p =
    map_option (\<lambda>m'. (True, advance s (length (scalar_code f bs)), m')) (store_bytes m p bs)"
  using f
proof (cases rule: scalar_cases)
  case 1
  have le: "le_word bs = (if bs = [0] then 0 else 1 :: u64)" using bool [OF 1(1)] by auto
  then have "unat (le_word bs :: u64) < 2 ^ 32" by simp
  then have "pb_decode_varint32 env s = Some (True, advance s (length (scalar_code f bs)), of_nat (unat (le_word bs :: u64)))"
    using pb_decode_varint32_uvarint off scalar_codes(1) [OF 1(1)] by simp
  moreover have "word_le_bytes 1 (if bs = [0] then 0 else 1 :: byte) = bs" using bool [OF 1(1)] by (auto simp: word_le_bytes_def)
  ultimately show ?thesis
    using 1 le bool [OF 1(1)] by (auto simp: table_decode_def scalar_tables pb_dec_bool_def store_word_def)
next
  case 2
  note small = small_sizes [OF 2(2)]
  have "pb_decode_varint env s = Some (True, advance s (length (scalar_code f bs)), signed_value bs)"
    using varint_codec.dec_reads [OF TrueI, where v = "signed_value bs" and s = s and env = env] off scalar_codes(3) [OF 2(1)] by simp
  moreover have "store_word m p (unat (fld_data_size f)) (signed_value bs) = store_bytes m p bs"
    using signed_value_bytes [OF len] small by (simp add: store_word_def)
  moreover have "fld_data_size f \<noteq> 8 \<Longrightarrow> scast (ucast (signed_value bs) :: u32) = signed_value bs"
    using 2(2) len by (intro sign_extend_32) auto
  ultimately show ?thesis
    using 2 clamp_integer(2) [OF 2(2) len]
    by (auto simp: table_decode_def scalar_tables pb_dec_varint_def store_clamped_def map_option_case Let_def split: option.splits)
next
  case 3
  note small = small_sizes [OF 3(2)]
  have "pb_decode_varint env s = Some (True, advance s (length (scalar_code f bs)), le_word bs)"
    using varint_codec.dec_reads [OF TrueI, where v = "le_word bs" and s = s and env = env] off scalar_codes(2) [OF 3(1)] by simp
  moreover have "store_word m p (unat (fld_data_size f)) (le_word bs :: u64) = store_bytes m p bs"
    using len small by (intro store_word_bytes) auto
  ultimately show ?thesis
    using 3 clamp_integer(1) [OF 3(2) len]
    by (auto simp: table_decode_def scalar_tables pb_dec_uvarint_def store_clamped_def map_option_case split: option.splits)
next
  case 4
  note small = small_sizes [OF 4(2)]
  have "pb_decode_svarint env s = Some (True, advance s (length (scalar_code f bs)), signed_value bs)"
    using svarint_codec.dec_reads [OF TrueI, where v = "signed_value bs" and s = s and env = env] off scalar_codes(4) [OF 4(1)] by simp
  moreover have "store_word m p (unat (fld_data_size f)) (signed_value bs) = store_bytes m p bs"
    using signed_value_bytes [OF len] small by (simp add: store_word_def)
  ultimately show ?thesis
    using 4 clamp_integer(2) [OF 4(2) len]
    by (auto simp: table_decode_def scalar_tables pb_dec_svarint_def store_clamped_def map_option_case split: option.splits)
next
  case 5
  have l: "length bs = 4" using len 5 by simp
  have "store_word m p 4 (le_word bs :: u32) = store_bytes m p bs" using l by (intro store_word_bytes) auto
  then show ?thesis
    using 5 pb_decode_fixed32_reads [of s bs env m p] l off scalar_codes(5) [OF 5(1)]
    by (auto simp: table_decode_def scalar_tables pb_dec_fixed32_def map_option_case split: option.splits)
next
  case 6
  have l: "length bs = 8" using len 6 by simp
  have "store_word m p 8 (le_word bs :: u64) = store_bytes m p bs" using l by (intro store_word_bytes) auto
  then show ?thesis
    using 6 pb_decode_fixed64_reads [of s bs env m p] l off scalar_codes(6) [OF 6(1)]
    by (auto simp: table_decode_def scalar_tables pb_dec_fixed64_def map_option_case split: option.splits)
next
  case 7
  let ?k = "length (uvarint (length bs))"
  have u: "length bs < 2 ^ 32" using len unat_u32_less [of "fld_data_size f"] by simp
  have off2: "offers s (uvarint (length bs))" "offers (advance s ?k) bs"
    using off scalar_codes(7) [OF 7(1)] offers_append by auto
  have sz: "of_nat (length bs) = fld_data_size f" using len by simp
  have "pb_decode_varint32 env s = Some (True, advance s ?k, fld_data_size f)"
    using pb_decode_varint32_uvarint [OF off2(1) u] sz by simp
  moreover have "pb_read env (advance s ?k) True (ucast (fld_data_size f)) = Some (True, advance s (?k + length bs), bs)"
    using pb_read_offers [OF off2(2), of "ucast (fld_data_size f)" env True] len by (simp add: ucast_u32_u64)
  moreover have "\<not> fld_data_size f > PB_SIZE_MAX" by (simp add: PB_SIZE_MAX_def not_less word_order.extremum)
  ultimately show ?thesis
    using 7 scalar_codes(7) [OF 7(1)]
    by (auto simp: table_decode_def scalar_tables pb_dec_fixed_length_bytes_def read_into_def map_option_case split: option.splits)
qed

lemma writes_fresh: "writes f bs \<Longrightarrow> writes_on fresh f bs"
  by (rule writes_on_mono) auto

interpretation scalar_codec: field_codec f "table_encode env rec" "table_decode env n rec'" "\<lambda>m p. scalar_value m f p"
  "\<lambda>v. case v of Scalar bs \<Rightarrow> scalar_code f bs | _ \<Rightarrow> []" "\<lambda>m p. valid_range m p (unat (fld_data_size f))"
proof
  fix m m0 m' :: cmem and p p0 v A and s :: pb_istream_t
  let ?code = "\<lambda>v. case v of Scalar bs \<Rightarrow> scalar_code f bs | _ \<Rightarrow> []"
  show "v \<noteq> Missing" if "scalar_value m f p = Some v" using that by (auto simp: scalar_value_def split: if_splits)
  show "writes_on fresh (\<lambda>s. table_encode env rec m s f p) (?code v)" if "scalar_value m f p = Some v" "p \<noteq> 0"
    using that by (auto simp: scalar_value_def split: if_splits intro!: writes_fresh scalar_writes)
  show "scalar_value m' f p = scalar_value m f p"
    if "changed_within A m m'" "A \<inter> {p..<p + unat (fld_data_size f)} = {}"
    using changed_load [OF that] by (simp add: scalar_value_def)
  show "valid_range m' p (unat (fld_data_size f)) = valid_range m p (unat (fld_data_size f))"
    if "changed_within A m m'" using changed_valid [OF that] .
  show "\<exists>m'. table_decode env n rec' (s, m) f p = Some (True, advance s (length (?code v)), m') \<and>
      scalar_value m' f p = Some v \<and> changed_within {p..<p + unat (fld_data_size f)} m m'"
    if v: "scalar_value m0 f p0 = Some v" and off: "offers s (?code v)" and valid: "valid_range m p (unat (fld_data_size f))"
  proof -
    obtain bs0 where f: "scalar_field f" and bs0: "load_bytes m0 p0 (unat (fld_data_size f)) = Some bs0"
      and vs: "v = Scalar (scalar_bytes f bs0)"
      using v by (auto simp: scalar_value_def split: if_splits)
    let ?bs = "scalar_bytes f bs0"
    have len: "length ?bs = unat (fld_data_size f)" using length_load_bytes [OF bs0] by (simp add: scalar_bytes_def)
    have bool: "?bs = [0] \<or> ?bs = [1]" if "PB_LTYPE (fld_type f) = PB_LTYPE_BOOL"
    proof -
      have "fld_data_size f = 1" using f that by (auto simp: scalar_field_def Let_def pb_type_defs)
      then have "load_bytes m0 p0 1 = Some bs0" using bs0 by (simp del: load_bytes.simps)
      then obtain b where "bs0 = [b]" using load_bytes_1 by blast
      then show ?thesis using that by (simp add: scalar_bytes_def)
    qed
    obtain m' where m': "store_bytes m p ?bs = Some m'" using store_bytes_Some [of m p ?bs] valid len by auto
    have "scalar_bytes f ?bs = ?bs" by (auto simp: scalar_bytes_def)
    then have "scalar_value m' f p = Some v"
      using f vs store_load [OF m'] len by (simp add: scalar_value_def)
    moreover have "table_decode env n rec' (s, m) f p = Some (True, advance s (length (scalar_code f ?bs)), m')"
      using scalar_reads [OF f len bool] off m' vs by simp
    ultimately show ?thesis using store_changed [OF m'] len vs by auto
  qed
qed

section \<open>Messages of required and optional members\<close>

text \<open>
  Where the members of a message lie in its struct: the bytes of the field, and for an optional field
  its \<open>has_\<close> member.
\<close>

definition has_offset :: "pb_field_t list \<Rightarrow> nat \<Rightarrow> nat" where
  "has_offset fs i = nat (int (field_offset fs i) + sint (fld_size_offset (fs ! i)))"

definition data_cells :: "pb_field_t list \<Rightarrow> nat \<Rightarrow> nat set" where
  "data_cells fs i = {field_offset fs i..<field_offset fs i + unat (fld_data_size (fs ! i))}"

definition is_optional :: "pb_field_t \<Rightarrow> bool" where
  "is_optional f \<longleftrightarrow> PB_HTYPE (fld_type f) = PB_HTYPE_OPTIONAL"

definition cells :: "pb_field_t list \<Rightarrow> nat \<Rightarrow> nat set" where
  "cells fs i = data_cells fs i \<union> (if is_optional (fs ! i) then {has_offset fs i} else {})"

definition plain_field :: "pb_field_t list \<Rightarrow> nat \<Rightarrow> bool" where
  "plain_field fs i \<longleftrightarrow> (let f = fs ! i in
     PB_ATYPE (fld_type f) = PB_ATYPE_STATIC \<and> fld_data_size f \<noteq> 0 \<and> unat (fld_tag f) < 2 ^ 29 \<and>
     (PB_HTYPE (fld_type f) = PB_HTYPE_REQUIRED \<or>
      is_optional f \<and> 0 \<le> int (field_offset fs i) + sint (fld_size_offset f) \<and> has_offset fs i \<notin> data_cells fs i))"

definition plain_fields :: "pb_field_t list \<Rightarrow> nat \<Rightarrow> bool" where
  "plain_fields fs sz \<longleftrightarrow> message_fields fs \<and>
     (\<forall>i<n_fields fs. plain_field fs i \<and> cells fs i \<subseteq> {..<sz} \<and>
        (\<forall>j<n_fields fs. i \<noteq> j \<longrightarrow> cells fs i \<inter> cells fs j = {}))"

text \<open>What a field and a message hold; \<open>val\<close> reads one member.\<close>

definition field_value :: "(cmem \<Rightarrow> pb_field_t \<Rightarrow> addr \<Rightarrow> pb_value option) \<Rightarrow> cmem \<Rightarrow> pb_field_t list \<Rightarrow> addr \<Rightarrow> nat \<Rightarrow> pb_value option" where
  "field_value val m fs p i =
     (if is_optional (fs ! i) then do {
        b \<leftarrow> cbytes m (p + has_offset fs i);
        if b = 0 then Some Missing else val m (fs ! i) (p + field_offset fs i)
      }
      else val m (fs ! i) (p + field_offset fs i))"

definition fields_value :: "(cmem \<Rightarrow> pb_field_t \<Rightarrow> addr \<Rightarrow> pb_value option) \<Rightarrow> cmem \<Rightarrow> pb_field_t list \<Rightarrow> addr \<Rightarrow> pb_value list option" where
  "fields_value val m fs p = those (map (field_value val m fs p) [0..<n_fields fs])"

definition field_ready :: "(cmem \<Rightarrow> pb_field_t \<Rightarrow> addr \<Rightarrow> bool) \<Rightarrow> cmem \<Rightarrow> pb_field_t list \<Rightarrow> addr \<Rightarrow> nat \<Rightarrow> bool" where
  "field_ready ready m fs p i \<longleftrightarrow> ready m (fs ! i) (p + field_offset fs i) \<and>
     (is_optional (fs ! i) \<longrightarrow> cbytes m (p + has_offset fs i) = Some 0)"

definition fields_ready :: "(cmem \<Rightarrow> pb_field_t \<Rightarrow> addr \<Rightarrow> bool) \<Rightarrow> cmem \<Rightarrow> pb_field_t list \<Rightarrow> addr \<Rightarrow> bool" where
  "fields_ready ready m fs p \<longleftrightarrow> (\<forall>i<n_fields fs. field_ready ready m fs p i)"

text \<open>The bytes of a field on the wire: its tag and the code of its value.\<close>

definition tag_code :: "pb_field_t \<Rightarrow> bytes" where
  "tag_code f = uvarint (tag_number (the (wire_type_for (PB_LTYPE (fld_type f)))) (fld_tag f))"

definition field_code :: "(pb_field_t \<Rightarrow> pb_value \<Rightarrow> bytes) \<Rightarrow> pb_field_t \<Rightarrow> pb_value \<Rightarrow> bytes" where
  "field_code code f v = (if v = Missing then [] else tag_code f @ code f v)"

definition fields_code :: "(pb_field_t \<Rightarrow> pb_value \<Rightarrow> bytes) \<Rightarrow> pb_field_t list \<Rightarrow> pb_value list \<Rightarrow> bytes" where
  "fields_code code fs vs = concat (map (\<lambda>(f, v). field_code code f v) (zip fs vs))"

lemma those_Some: "those xs = Some ys \<longleftrightarrow> length xs = length ys \<and> (\<forall>i<length xs. xs ! i = Some (ys ! i))"
proof (induction xs arbitrary: ys)
  case (Cons x xs)
  show ?case
  proof (cases ys)
    case Nil
    then show ?thesis by (cases x) (auto split: option.splits)
  next
    case (Cons y ys')
    then show ?thesis using Cons.IH [of ys']
      by (cases x) (auto simp: All_less_Suc2)
  qed
qed auto

lemma fields_valueD:
  assumes "fields_value val m fs p = Some vs"
  shows "length vs = n_fields fs" "i < n_fields fs \<Longrightarrow> field_value val m fs p i = Some (vs ! i)"
  using assms by (auto simp: fields_value_def those_Some)

lemma fields_valueI:
  "length vs = n_fields fs \<Longrightarrow> (\<And>i. i < n_fields fs \<Longrightarrow> field_value val m fs p i = Some (vs ! i)) \<Longrightarrow> fields_value val m fs p = Some vs"
  by (auto simp: fields_value_def those_Some)

section \<open>Encoding\<close>

lemma plain_fieldD:
  assumes "plain_fields fs sz" "i < n_fields fs"
  shows "plain_field fs i" "cells fs i \<subseteq> {..<sz}" "j < n_fields fs \<Longrightarrow> i \<noteq> j \<Longrightarrow> cells fs i \<inter> cells fs j = {}"
  using assms by (auto simp: plain_fields_def)

lemma plain_htype:
  assumes "plain_field fs i"
  shows "is_optional (fs ! i) \<or> PB_HTYPE (fld_type (fs ! i)) = PB_HTYPE_REQUIRED"
    "PB_HTYPE (fld_type (fs ! i)) \<noteq> PB_HTYPE_ONEOF" "PB_HTYPE (fld_type (fs ! i)) \<noteq> PB_HTYPE_REPEATED"
    "PB_ATYPE (fld_type (fs ! i)) = PB_ATYPE_STATIC"
  using assms by (auto simp: plain_field_def is_optional_def Let_def pb_type_defs)

lemma required_not_optional: "PB_HTYPE (fld_type f) = PB_HTYPE_REQUIRED \<Longrightarrow> \<not> is_optional f"
  by (simp add: is_optional_def pb_type_defs)

lemma plain_psize:
  assumes "plain_field fs i" "is_optional (fs ! i)"
  shows "offset_ptr (p + field_offset fs i) (fld_size_offset (fs ! i)) = p + has_offset fs i"
    "has_offset fs i \<notin> data_cells fs i" "has_offset fs i \<noteq> field_offset fs i" "fld_size_offset (fs ! i) \<noteq> 0"
proof -
  have p: "0 \<le> int (field_offset fs i) + sint (fld_size_offset (fs ! i))" "has_offset fs i \<notin> data_cells fs i"
    "fld_data_size (fs ! i) \<noteq> 0"
    using assms by (auto simp: plain_field_def Let_def is_optional_def pb_type_defs)
  show "offset_ptr (p + field_offset fs i) (fld_size_offset (fs ! i)) = p + has_offset fs i"
    using p(1) by (simp add: offset_ptr_def has_offset_def nat_add_distrib [symmetric] add.assoc)
  show "has_offset fs i \<notin> data_cells fs i" by (rule p(2))
  have "0 < unat (fld_data_size (fs ! i))" using p(3) by (simp add: unat_gt_0)
  then show "has_offset fs i \<noteq> field_offset fs i" using p(2) by (auto simp: data_cells_def)
  then show "fld_size_offset (fs ! i) \<noteq> 0" by (auto simp: has_offset_def)
qed

lemma wire_tables:
  assumes "wire_type_for lt = Some wt"
  shows "\<exists>e. PB_ENCODERS env m rec lt = Some e" "\<exists>d. PB_DECODERS env n rec' lt = Some d"
    "std_wire_type wt" "lt \<noteq> PB_LTYPE_EXTENSION"
  using assms by (auto simp: wire_type_for_def PB_ENCODERS_def PB_DECODERS_def std_wire_type_def pb_type_defs split: if_splits)

lemma tag_writes:
  assumes "wire_type_for (PB_LTYPE (fld_type f)) = Some wt"
  shows "writes_on fresh (\<lambda>s. pb_encode_tag_for_field env m s f) (tag_code f)"
  using pb_encode_tag_writes [OF wire_tables(3) [OF assms], of env m "fld_tag f"] assms
  by (simp add: pb_encode_tag_for_field_def tag_code_def writes_fresh)

lemma plain_encode_one:
  assumes f: "plain_field fs i" "wire_type_for (PB_LTYPE (fld_type (fs ! i))) = Some wt" and p: "p \<noteq> 0"
    and v: "field_value val m fs p i = Some v" and miss: "\<And>w. val m (fs ! i) (p + field_offset fs i) = Some w \<Longrightarrow> w \<noteq> Missing"
  shows "encode_one env m n rec s (fs ! i) (p + field_offset fs i) =
    (if v = Missing then Some (True, s)
     else and_then (pb_encode_tag_for_field env m s (fs ! i)) (\<lambda>s. table_encode env rec m s (fs ! i) (p + field_offset fs i)))"
    "v \<noteq> Missing \<Longrightarrow> val m (fs ! i) (p + field_offset fs i) = Some v"
proof -
  let ?f = "fs ! i" and ?q = "p + field_offset fs i"
  note h = plain_htype [OF f(1)]
  obtain e where e: "PB_ENCODERS env m rec (PB_LTYPE (fld_type ?f)) = Some e" using wire_tables(1) [OF f(2)] by blast
  have basic: "encode_one env m n rec s ?f ?q = encode_basic_field env m n rec s ?f ?q"
    using wire_tables(4) [OF f(2)] h(4) by (simp add: encode_one_def encode_field_def)
  have static: "PB_ATYPE_STATIC \<noteq> PB_ATYPE_POINTER" "PB_HTYPE_OPTIONAL \<noteq> PB_HTYPE_REQUIRED"
    "PB_HTYPE_REQUIRED \<noteq> PB_HTYPE_OPTIONAL" by (simp_all add: pb_type_defs)
  show "v \<noteq> Missing \<Longrightarrow> val m ?f ?q = Some v"
    using v by (auto simp: field_value_def Option.bind_eq_Some_conv split: if_splits)
  show "encode_one env m n rec s ?f ?q =
    (if v = Missing then Some (True, s)
     else and_then (pb_encode_tag_for_field env m s ?f) (\<lambda>s. table_encode env rec m s ?f ?q))"
  proof (cases "is_optional ?f")
    case True
    note ps = plain_psize [OF f(1) True]
    obtain b where b: "cbytes m (p + has_offset fs i) = Some b" "v = Missing \<longleftrightarrow> b = 0"
      using v True miss by (auto simp: field_value_def Option.bind_eq_Some_conv split: if_splits)
    then have "safe_read_bool m (p + has_offset fs i) = Some (v \<noteq> Missing)"
      by (simp add: safe_read_bool_def load_word_def)
    then show ?thesis
      using True ps h(4) e p static unfolding basic
      by (simp add: encode_basic_field_def implicit_has_of_def is_optional_def table_encode_def)
  next
    case False
    then have r: "PB_HTYPE (fld_type ?f) = PB_HTYPE_REQUIRED" using h(1) by simp
    have "v \<noteq> Missing" using v False miss by (auto simp: field_value_def)
    then show ?thesis
      using r h(4) e p static unfolding basic
      by (simp add: encode_basic_field_def implicit_has_of_def table_encode_def)
  qed
qed

lemma encode_loop_writes:
  assumes wf: "wf_fields fs" "p \<noteq> 0" and cs: "length cs = n_fields fs"
    and w: "\<And>i. i < n_fields fs \<Longrightarrow> writes_on fresh (\<lambda>s. enc s (fs ! i) (p + field_offset fs i)) (cs ! i)"
  shows "i < n_fields fs \<Longrightarrow> n_fields fs - i \<le> k \<Longrightarrow>
    writes_on fresh (\<lambda>s. encode_loop k enc s (iter_at fs p l i)) (concat (drop i cs))"
proof (induction k arbitrary: i)
  case (Suc k)
  have cur: "cur_field (iter_at fs p l i) = Some (fs ! i)"
    using Suc.prems(1) wf_fields_length [OF wf(1)] by (intro cur_field_iter_at) simp
  have it1: "pb_field_iter_next (iter_at fs p l i) =
      Some (if Suc i < n_fields fs then (True, iter_at fs p l (Suc i)) else (False, iter_at fs p l 0))"
    by (rule iter_next_wf [OF wf Suc.prems(1)])
  have d: "concat (drop i cs) = cs ! i @ concat (drop (Suc i) cs)"
    using Suc.prems(1) cs by (simp add: Cons_nth_drop_Suc [symmetric])
  have tail: "writes_on fresh (\<lambda>s. if Suc i < n_fields fs then encode_loop k enc s (iter_at fs p l (Suc i)) else Some (True, s))
      (concat (drop (Suc i) cs))"
  proof (cases "Suc i < n_fields fs")
    case True
    then show ?thesis using Suc.IH [of "Suc i"] Suc.prems by simp
  next
    case False
    then show ?thesis using cs by (simp add: writes_fresh [OF writes_nothing])
  qed
  have "(\<lambda>s. encode_loop (Suc k) enc s (iter_at fs p l i)) =
      (\<lambda>s. and_then (enc s (fs ! i) (p + field_offset fs i))
        (\<lambda>s. if Suc i < n_fields fs then encode_loop k enc s (iter_at fs p l (Suc i)) else Some (True, s)))"
    by (rule ext) (simp add: cur it1)
  then show ?case using writes_on_seq [OF w [OF Suc.prems(1)] tail] by (simp add: d)
qed simp

lemma concat_member_length: "x \<in> set xs \<Longrightarrow> length x \<le> length (concat xs)"
  by (induction xs) auto

lemma fields_code_alt:
  "length vs = n_fields fs \<Longrightarrow> wf_fields fs \<Longrightarrow>
     fields_code code fs vs = concat (map (\<lambda>i. field_code code (fs ! i) (vs ! i)) [0..<n_fields fs])"
  unfolding fields_code_def using wf_fields_length [of fs]
  by (intro arg_cong [where f = concat] nth_equalityI) auto

lemma plain_message_writes:
  assumes fs: "plain_fields fs sz" and p: "p \<noteq> 0"
    and wire: "\<And>i. i < n_fields fs \<Longrightarrow> wire_type_for (PB_LTYPE (fld_type (fs ! i))) \<noteq> None"
    and codec: "\<And>i. i < n_fields fs \<Longrightarrow> field_codec (fs ! i) (\<lambda>m. table_encode env (rec m) m) dec
      (\<lambda>m p. val m (fs ! i) p) (code (fs ! i)) (\<lambda>m p. ready m (fs ! i) p)"
    and v: "fields_value val m fs p = Some vs" and len: "length (fields_code code fs vs) < 2 ^ 32"
  shows "writes_on fresh (\<lambda>s. encode_body env m n (rec m) s fs p) (fields_code code fs vs)"
proof -
  have wf: "wf_fields fs" "0 < n_fields fs" using fs by (simp_all add: plain_fields_def message_fields_def)
  note vs = fields_valueD [OF v]
  let ?cs = "map (\<lambda>i. field_code code (fs ! i) (vs ! i)) [0..<n_fields fs]"
  have alt: "fields_code code fs vs = concat ?cs" by (rule fields_code_alt [OF vs(1) wf(1)])
  have one: "writes_on fresh (\<lambda>s. encode_one env m n (rec m) s (fs ! i) (p + field_offset fs i)) (?cs ! i)"
    if i: "i < n_fields fs" for i
  proof -
    obtain wt where wt: "wire_type_for (PB_LTYPE (fld_type (fs ! i))) = Some wt" using wire [OF i] by blast
    have miss: "w \<noteq> Missing" if "val m (fs ! i) (p + field_offset fs i) = Some w" for w
      using field_codec.not_missing [OF codec [OF i]] that by blast
    note e = plain_encode_one [OF plain_fieldD(1) [OF fs i] wt p vs(2) [OF i] miss]
    show ?thesis
    proof (cases "vs ! i = Missing")
      case True
      then show ?thesis using e(1) [of env n "rec m"] i by (simp add: field_code_def writes_fresh [OF writes_nothing])
    next
      case False
      have "length (?cs ! i) \<le> length (concat ?cs)" using i by (intro concat_member_length) auto
      then have "length (code (fs ! i) (vs ! i)) < 2 ^ 32"
        using len i False unfolding alt by (simp add: field_code_def)
      then have "writes_on fresh (\<lambda>s. table_encode env (rec m) m s (fs ! i) (p + field_offset fs i)) (code (fs ! i) (vs ! i))"
        using field_codec.enc_writes [OF codec [OF i], of m "p + field_offset fs i" "vs ! i"] e(2) False p by simp
      from writes_on_seq [OF tag_writes [where env = env and m = m, OF wt] this] show ?thesis
        using e(1) [of env n "rec m"] i False by (simp add: field_code_def)
    qed
  qed
  have "pb_field_iter_begin fs p 0 = Some (True, iter_at fs p 0 0)" using iter_begin_wf [OF wf(1) p] wf(2) by simp
  then show ?thesis
    using encode_loop_writes [OF wf(1) p _ one, of 0 "length fs" 0] wf wf_fields_length [OF wf(1)]
    by (simp add: encode_body_def alt)
qed

section \<open>Decoding\<close>

lemma plain_iter_psize:
  assumes fs: "plain_fields fs sz" and i: "i < n_fields fs"
  shows "field_psize fs p i = offset_ptr (p + field_offset fs i) (fld_size_offset (fs ! i))"
proof (cases i)
  case (Suc j)
  have "\<not> in_same_union (fs ! j) (fs ! i)"
    using plain_htype(2) [OF plain_fieldD(1) [OF fs i]] by (simp add: in_same_union_def)
  then show ?thesis using Suc by simp
qed simp

definition at :: "addr \<Rightarrow> nat set \<Rightarrow> nat set" where
  "at p A = (\<lambda>x. p + x) ` A"

lemma at_data: "at p (data_cells fs i) = {p + field_offset fs i..<p + field_offset fs i + unat (fld_data_size (fs ! i))}"
  using image_add_atLeastLessThan [of p] by (simp add: at_def data_cells_def add.assoc add.commute)

lemma at_disjoint: "at p A \<inter> at p B = at p (A \<inter> B)"
  by (auto simp: at_def)

lemma at_insert [simp]: "at p (insert x A) = insert (p + x) (at p A)" "at p {} = {}" "at p (A \<union> B) = at p A \<union> at p B"
  by (auto simp: at_def)

lemma at_mono: "A \<subseteq> B \<Longrightarrow> at p A \<subseteq> at p B"
  by (auto simp: at_def)

lemma at_mem [simp]: "p + x \<in> at p A \<longleftrightarrow> x \<in> A"
  by (auto simp: at_def)

text \<open>A field's value and readiness depend on its cells only.\<close>

lemma field_value_local:
  assumes codec: "field_codec (fs ! i) enc dec (\<lambda>m p. val m (fs ! i) p) code ready"
    and ch: "changed_within A m m'" "A \<inter> at p (cells fs i) = {}"
  shows "field_value val m' fs p i = field_value val m fs p i"
proof -
  have "A \<inter> {p + field_offset fs i..<p + field_offset fs i + unat (fld_data_size (fs ! i))} = {}"
    using ch(2) unfolding cells_def at_data [symmetric] by auto
  from field_codec.val_local [OF codec ch(1) this]
  have v: "val m' (fs ! i) (p + field_offset fs i) = val m (fs ! i) (p + field_offset fs i)" .
  have "cbytes m' (p + has_offset fs i) = cbytes m (p + has_offset fs i)" if "is_optional (fs ! i)"
    using ch that by (auto simp: changed_within_def cells_def)
  then show ?thesis using v by (simp add: field_value_def cong: if_cong)
qed

lemma field_ready_local:
  assumes codec: "field_codec (fs ! i) enc dec val code (\<lambda>m p. ready m (fs ! i) p)"
    and ch: "changed_within A m m'" "A \<inter> at p (cells fs i) = {}"
  shows "field_ready ready m' fs p i = field_ready ready m fs p i"
proof -
  have "A \<inter> {p + field_offset fs i..<p + field_offset fs i + unat (fld_data_size (fs ! i))} = {}"
    using ch(2) unfolding cells_def at_data [symmetric] by auto
  from field_codec.ready_local [OF codec ch(1) this]
  have v: "ready m' (fs ! i) (p + field_offset fs i) = ready m (fs ! i) (p + field_offset fs i)" .
  have "cbytes m' (p + has_offset fs i) = cbytes m (p + has_offset fs i)" if "is_optional (fs ! i)"
    using ch that by (auto simp: changed_within_def cells_def)
  then show ?thesis using v by (simp add: field_ready_def)
qed

text \<open>Decoding one field that is present.\<close>

lemma plain_decode_known:
  assumes fs: "plain_fields fs sz" and i: "i < n_fields fs" and p: "p \<noteq> 0"
    and wire: "wire_type_for (PB_LTYPE (fld_type (fs ! i))) = Some wt"
    and codec: "field_codec (fs ! i) enc (table_decode env n rec) (\<lambda>m p. val m (fs ! i) p) code (\<lambda>m p. ready m (fs ! i) p)"
    and v: "val m0 (fs ! i) p0 = Some v" and len: "length (code v) < 2 ^ 32" and off: "offers s (code v)"
    and ready: "field_ready ready m fs p i"
  shows "\<exists>dl' m'. decode_known env n rec wt dl (s, m, iter_at fs p l i) =
      Some (True, dl', advance s (length (code v)), m', iter_at fs p l i) \<and>
    dl_fixed_count_field dl' = dl_fixed_count_field dl \<and>
    field_value val m' fs p i = Some v \<and> changed_within (at p (cells fs i)) m m'"
proof -
  let ?f = "fs ! i" and ?q = "p + field_offset fs i" and ?it = "iter_at fs p l i"
  note plain = plain_fieldD(1) [OF fs i]
  note h = plain_htype [OF plain]
  have wf: "wf_fields fs" using fs by (simp add: plain_fields_def message_fields_def)
  have cur: "cur_field ?it = Some ?f" using i wf_fields_length [OF wf] by (intro cur_field_iter_at) simp
  have miss: "v \<noteq> Missing" by (rule field_codec.not_missing [OF codec v])
  obtain d where d: "PB_DECODERS env n rec (PB_LTYPE (fld_type ?f)) = Some d" using wire_tables(2) [OF wire] by blast
  then have td: "d (s, m) ?f ?q = table_decode env n rec (s, m) ?f ?q" for s m by (simp add: table_decode_def)
  have static: "PB_HTYPE_OPTIONAL \<noteq> PB_HTYPE_REQUIRED" "PB_HTYPE_REQUIRED \<noteq> PB_HTYPE_OPTIONAL" by (simp_all add: pb_type_defs)
  have ready': "ready m ?f ?q" using ready by (simp add: field_ready_def)
  have known: "decode_known env n rec wt dl (s, m, ?it) = do {
      (ok, s, m, it) \<leftarrow> decode_static_field env n rec wt (s, m, ?it);
      Some (ok, dl\<lparr>dl_fields_seen := track_required ?f ?it (dl_fields_seen dl)\<rparr>, s, m, it) }"
    using cur h by (simp add: decode_known_def track_fixed_count_def decode_field_def Let_def)
  show ?thesis
  proof (cases "is_optional ?f")
    case False
    then have r: "PB_HTYPE (fld_type ?f) = PB_HTYPE_REQUIRED" using h(1) by simp
    obtain m' where m': "table_decode env n rec (s, m) ?f ?q = Some (True, advance s (length (code v)), m')"
      "val m' ?f ?q = Some v" "changed_within {?q..<?q + unat (fld_data_size ?f)} m m'"
      using field_codec.dec_reads [OF codec v _ len off ready'] p by auto
    have "field_value val m' fs p i = Some v" using False m'(2) by (simp add: field_value_def)
    moreover have "changed_within (at p (cells fs i)) m m'"
      using m'(3) by (rule changed_mono) (simp add: cells_def at_data)
    ultimately show ?thesis
      unfolding known using r cur d td m'(1) by (simp add: decode_static_field_def run_decoder_def Let_def)
  next
    case True
    note ps = plain_psize [OF plain True]
    have psize: "it_pSize ?it = SizeAt (p + has_offset fs i)"
      using plain_iter_psize [OF fs i] ps(1) by simp
    have "valid_range m (p + has_offset fs i) 1" using ready True by (auto simp: field_ready_def valid_range_def)
    then obtain m1 where m1: "store_bytes m (p + has_offset fs i) [1] = Some m1" using store_bytes_Some [of m _ "[1]"] by auto
    have ch1: "changed_within {p + has_offset fs i} m m1" using store_changed [OF m1] by simp
    have "word_le_bytes 1 (1 :: byte) = [1]" by (simp add: word_le_bytes_def)
    then have has: "write_phas m ?it True = Some m1" using psize m1 by (simp add: write_phas_def store_word_def)
    have apart: "{p + has_offset fs i} \<inter> {?q..<?q + unat (fld_data_size ?f)} = {}"
      using ps(2) by (auto simp: data_cells_def)
    have ready1: "ready m1 ?f ?q" using ready' field_codec.ready_local [OF codec ch1 apart] by simp
    obtain m' where m': "table_decode env n rec (s, m1) ?f ?q = Some (True, advance s (length (code v)), m')"
      "val m' ?f ?q = Some v" "changed_within {?q..<?q + unat (fld_data_size ?f)} m1 m'"
      using field_codec.dec_reads [OF codec v _ len off ready1] p by auto
    have "cbytes m' (p + has_offset fs i) = Some 1"
      using store_bytes_effect(1) [OF m1] m'(3) apart by (auto simp: changed_within_def)
    then have "field_value val m' fs p i = Some v" using True m'(2) by (simp add: field_value_def)
    moreover have "changed_within (at p (cells fs i)) m m'"
      using ch1 m'(3) by (rule changed_trans) (use True in \<open>auto simp: cells_def at_data\<close>)
    ultimately show ?thesis
      unfolding known using True cur d td m'(1) ps(3) psize has static
      by (simp add: decode_static_field_def run_decoder_def Let_def is_optional_def)
  qed
qed

definition codecs :: "pb_env \<Rightarrow> nat \<Rightarrow> (cmem \<Rightarrow> message_encoder) \<Rightarrow> message_decoder \<Rightarrow>
    (cmem \<Rightarrow> pb_field_t \<Rightarrow> addr \<Rightarrow> pb_value option) \<Rightarrow> (pb_field_t \<Rightarrow> pb_value \<Rightarrow> bytes) \<Rightarrow>
    (cmem \<Rightarrow> pb_field_t \<Rightarrow> addr \<Rightarrow> bool) \<Rightarrow> pb_field_t list \<Rightarrow> bool" where
  "codecs env n rec rec' val code ready fs \<longleftrightarrow> (\<forall>i<n_fields fs.
     wire_type_for (PB_LTYPE (fld_type (fs ! i))) \<noteq> None \<and>
     field_codec (fs ! i) (\<lambda>m. table_encode env (rec m) m) (table_decode env n rec')
       (\<lambda>m p. val m (fs ! i) p) (code (fs ! i)) (\<lambda>m p. ready m (fs ! i) p))"

lemma codecsD:
  assumes "codecs env n rec rec' val code ready fs" "i < n_fields fs"
  shows "\<exists>wt. wire_type_for (PB_LTYPE (fld_type (fs ! i))) = Some wt"
    "field_codec (fs ! i) (\<lambda>m. table_encode env (rec m) m) (table_decode env n rec')
       (\<lambda>m p. val m (fs ! i) p) (code (fs ! i)) (\<lambda>m p. ready m (fs ! i) p)"
  using assms by (auto simp: codecs_def)

text \<open>A list of values that some memory can hold in the fields of a message.\<close>

definition field_values :: "(cmem \<Rightarrow> pb_field_t \<Rightarrow> addr \<Rightarrow> pb_value option) \<Rightarrow> pb_field_t list \<Rightarrow> pb_value list \<Rightarrow> bool" where
  "field_values val fs vs \<longleftrightarrow> length vs = n_fields fs \<and> (\<forall>i<n_fields fs.
     if vs ! i = Missing then is_optional (fs ! i) else \<exists>m p. val m (fs ! i) p = Some (vs ! i))"

lemma field_values_of:
  assumes c: "codecs env n rec rec' val code ready fs" and v: "fields_value val m fs p = Some vs"
  shows "field_values val fs vs"
  unfolding field_values_def
proof (intro conjI allI impI)
  show "length vs = n_fields fs" by (rule fields_valueD(1) [OF v])
  fix i assume i: "i < n_fields fs"
  note field_codec.not_missing [OF codecsD(2) [OF c i]]
  then show "if vs ! i = Missing then is_optional (fs ! i) else \<exists>m p. val m (fs ! i) p = Some (vs ! i)"
    using fields_valueD(2) [OF v i] by (auto simp: field_value_def Option.bind_eq_Some_conv split: if_splits)
qed

lemma plain_decode_step:
  assumes fs: "plain_fields fs sz" and c: "codecs env n rec rec' val code ready fs" and p: "p \<noteq> 0"
    and i: "i < n_fields fs" "k < n_fields fs" and v: "val m0 (fs ! i) p0 = Some v" and len: "length (code (fs ! i) v) < 2 ^ 32"
    and off: "offers s (field_code code (fs ! i) v)" and ready: "field_ready ready m fs p i"
    and inv: "loop_state fs p T dl (s, m, iter_at fs p 0 k)"
  shows "\<exists>dl' m'. (\<forall>K. decode_loop env n rec' (Suc K) dl (s, m, iter_at fs p 0 k) =
      decode_loop env n rec' K dl' (advance s (length (field_code code (fs ! i) v)), m', iter_at fs p 0 i)) \<and>
    dl_fixed_count_field dl' = dl_fixed_count_field dl \<and>
    loop_state fs p (insert (fld_tag (fs ! i)) T) dl' (advance s (length (field_code code (fs ! i) v)), m', iter_at fs p 0 i) \<and>
    field_value val m' fs p i = Some v \<and> changed_within (at p (cells fs i)) m m'"
proof -
  let ?f = "fs ! i"
  have mf: "message_fields fs" and wf: "wf_fields fs" using fs by (simp_all add: plain_fields_def message_fields_def)
  obtain wt where wt: "wire_type_for (PB_LTYPE (fld_type ?f)) = Some wt" using codecsD(1) [OF c i(1)] by blast
  note codec = codecsD(2) [OF c i(1)]
  have miss: "v \<noteq> Missing" using field_codec.not_missing [OF codec] v by blast
  have fc: "field_code code ?f v = tag_code ?f @ code ?f v" using miss by (simp add: field_code_def)
  let ?t = "length (tag_code ?f)"
  have tc: "tag_code ?f = uvarint (tag_number wt (fld_tag ?f))" by (simp add: tag_code_def wt)
  have off2: "offers s (tag_code ?f)" "offers (advance s ?t) (code ?f v)" using off offers_append by (auto simp: fc)
  have tag: "0 < unat (fld_tag ?f)" "unat (fld_tag ?f) < 2 ^ 29"
    using wf_fields_tag [OF wf, of i] wf_fields_length [OF wf] i plain_fieldD(1) [OF fs i(1)]
    by (auto simp: plain_field_def Let_def unat_gt_0)
  have left: "is_bytes_left s \<noteq> 0" using off2(1) by (auto simp: offers_def tc)
  have t: "pb_decode_tag env s = Some (True, advance s ?t, wt, fld_tag ?f, False)"
    using pb_decode_tag_reads [OF wire_tables(3) [OF wt] tag, of s env] off2(1) by (simp add: tc)
  have find: "pb_field_iter_find (iter_at fs p 0 k) (fld_tag ?f) = Some (True, iter_at fs p 0 i)"
    using iter_find_wf [OF wf p i(2)] field_with_tag_unique [OF mf i(2,1) wire_tables(4) [OF wt]] by simp
  obtain dl' m' where known: "decode_known env n rec' wt dl (advance s ?t, m, iter_at fs p 0 i) =
      Some (True, dl', advance (advance s ?t) (length (code ?f v)), m', iter_at fs p 0 i)"
    and rest: "dl_fixed_count_field dl' = dl_fixed_count_field dl" "field_value val m' fs p i = Some v"
      "changed_within (at p (cells fs i)) m m'"
    using plain_decode_known [where val = val and ready = ready and m = m and code = "code ?f" and ?m0.0 = m0 and ?p0.0 = p0 and l = 0 and dl = dl,
        OF fs i(1) p wt codec v len off2(2) ready] by blast
  let ?s = "advance s (length (field_code code ?f v))"
  have s: "advance (advance s ?t) (length (code ?f v)) = ?s" by (simp add: fc)
  have h: "handle_field env n rec' (fld_tag ?f) wt dl (advance s ?t, m, iter_at fs p 0 k) = Some (True, dl', ?s, m', iter_at fs p 0 i)"
    using find known s by (simp add: handle_field_def)
  have "loop_state fs p T dl (advance s ?t, m, iter_at fs p 0 k)" using inv by (simp add: loop_state_def)
  from handle_state [OF mf p this h] have "loop_state fs p (insert (fld_tag ?f) T) dl' (?s, m', iter_at fs p 0 i)" .
  moreover have "decode_loop env n rec' (Suc K) dl (s, m, iter_at fs p 0 k) = decode_loop env n rec' K dl' (?s, m', iter_at fs p 0 i)" for K
    using left t find known s by simp
  ultimately show ?thesis using rest by blast
qed

lemma plain_decode_loop:
  assumes fs: "plain_fields fs sz" and c: "codecs env n rec rec' val code ready fs" and p: "p \<noteq> 0"
    and vs: "field_values val fs vs"
    and small: "\<And>i. i < n_fields fs \<Longrightarrow> vs ! i \<noteq> Missing \<Longrightarrow> length (code (fs ! i) (vs ! i)) < 2 ^ 32"
  defines "cs \<equiv> map (\<lambda>i. field_code code (fs ! i) (vs ! i)) [0..<n_fields fs]"
  shows "i \<le> n_fields fs \<Longrightarrow> k < n_fields fs \<Longrightarrow> offers s (concat (drop i cs)) \<Longrightarrow>
    unat (is_bytes_left s) = length (concat (drop i cs)) \<Longrightarrow> unat (is_bytes_left s) < K \<Longrightarrow>
    loop_state fs p T dl (s, m, iter_at fs p 0 k) \<Longrightarrow> (\<And>j. i \<le> j \<Longrightarrow> j < n_fields fs \<Longrightarrow> field_ready ready m fs p j) \<Longrightarrow>
    (\<And>j. j < i \<Longrightarrow> field_value val m fs p j = Some (vs ! j) \<and> (vs ! j \<noteq> Missing \<longrightarrow> fld_tag (fs ! j) \<in> T)) \<Longrightarrow>
    \<exists>dl' m' k' T'. decode_loop env n rec' K dl (s, m, iter_at fs p 0 k) =
        Some (True, dl', advance s (length (concat (drop i cs))), m', iter_at fs p 0 k') \<and> k' < n_fields fs \<and>
      dl_fixed_count_field dl' = dl_fixed_count_field dl \<and> loop_state fs p T' dl' (advance s (length (concat (drop i cs))), m', iter_at fs p 0 k') \<and>
      (\<forall>j<n_fields fs. field_value val m' fs p j = Some (vs ! j) \<and> (vs ! j \<noteq> Missing \<longrightarrow> fld_tag (fs ! j) \<in> T')) \<and>
      changed_within (at p (\<Union>j<n_fields fs. cells fs j)) m m'"
proof (induction "n_fields fs - i" arbitrary: i k s K T dl m)
  case 0
  then have i: "i = n_fields fs" by simp
  then have left: "is_bytes_left s = 0" using 0 by (simp add: cs_def unat_eq_0)
  obtain K' where "K = Suc K'" using 0 by (cases K) auto
  then show ?case using 0 left i by (auto simp: cs_def intro!: exI [of _ k] exI [of _ T])
next
  case (Suc d)
  then have i: "i < n_fields fs" by simp
  have csi: "cs ! i = field_code code (fs ! i) (vs ! i)" "i < length cs" using i by (simp_all add: cs_def)
  then have drop: "concat (drop i cs) = field_code code (fs ! i) (vs ! i) @ concat (drop (Suc i) cs)"
    by (simp add: Cons_nth_drop_Suc [symmetric])
  have vi: "if vs ! i = Missing then is_optional (fs ! i) else \<exists>m p. val m (fs ! i) p = Some (vs ! i)"
    using vs i by (simp add: field_values_def)
  show ?case
  proof (cases "vs ! i = Missing")
    case True
    then have d1: "concat (drop i cs) = concat (drop (Suc i) cs)" using drop by (simp add: field_code_def)
    have "field_value val m fs p i = Some Missing"
      using Suc.prems(7) [OF _ i] vi True by (simp add: field_value_def field_ready_def)
    then have "j < Suc i \<Longrightarrow> field_value val m fs p j = Some (vs ! j) \<and> (vs ! j \<noteq> Missing \<longrightarrow> fld_tag (fs ! j) \<in> T)" for j
      using Suc.prems(8) True by (cases "j = i") auto
    then show ?thesis unfolding d1
      using Suc.hyps(2) i Suc.prems(2-7) by (intro Suc.hyps(1)) (auto simp: d1)
  next
    case False
    then obtain m0 p0 where v: "val m0 (fs ! i) p0 = Some (vs ! i)" using vi by auto
    let ?c = "field_code code (fs ! i) (vs ! i)"
    let ?s = "advance s (length ?c)"
    have off: "offers s ?c" "offers ?s (concat (drop (Suc i) cs))" using Suc.prems(3) offers_append by (auto simp: drop)
    obtain K' where K: "K = Suc K'" using Suc.prems(5) by (cases K) auto
    obtain dl1 m1 where step: "\<And>K. decode_loop env n rec' (Suc K) dl (s, m, iter_at fs p 0 k) =
        decode_loop env n rec' K dl1 (?s, m1, iter_at fs p 0 i)"
      and s1: "dl_fixed_count_field dl1 = dl_fixed_count_field dl"
        "loop_state fs p (insert (fld_tag (fs ! i)) T) dl1 (?s, m1, iter_at fs p 0 i)"
        "field_value val m1 fs p i = Some (vs ! i)" "changed_within (at p (cells fs i)) m m1"
      using plain_decode_step [where val = val and code = code and ready = ready and m = m, OF fs c p i Suc.prems(2) v small [OF i False] off(1) Suc.prems(7) [OF order_refl i] Suc.prems(6)] by blast
    have left: "unat (is_bytes_left ?s) = length (concat (drop (Suc i) cs))"
      using offers_left [OF off(1)] Suc.prems(4) by (simp add: drop)
    have "?c \<noteq> []" using False by (simp add: field_code_def tag_code_def)
    then have lt: "unat (is_bytes_left ?s) < K'" using left Suc.prems(4,5) K by (auto simp: drop neq_Nil_conv)
    have apart: "j < n_fields fs \<Longrightarrow> j \<noteq> i \<Longrightarrow> at p (cells fs i) \<inter> at p (cells fs j) = {}" for j
      using plain_fieldD(3) [OF fs i] by (auto simp: at_disjoint)
    have ready1: "field_ready ready m1 fs p j" if "Suc i \<le> j" "j < n_fields fs" for j
      using field_ready_local [where ready = ready, OF codecsD(2) [OF c that(2)] s1(4)] apart [OF that(2)] Suc.prems(7) [of j] that by auto
    have done1: "field_value val m1 fs p j = Some (vs ! j) \<and> (vs ! j \<noteq> Missing \<longrightarrow> fld_tag (fs ! j) \<in> insert (fld_tag (fs ! i)) T)"
      if "j < Suc i" for j
    proof (cases "j = i")
      case True
      then show ?thesis using s1(3) by simp
    next
      case False
      then have j: "j < i" "j < n_fields fs" using that i by auto
      then show ?thesis
        using field_value_local [where val = val, OF codecsD(2) [OF c j(2)] s1(4) apart [OF j(2) False]] Suc.prems(8) [of j] by auto
    qed
    have hyp: "d = n_fields fs - Suc i" "Suc i \<le> n_fields fs" using Suc.hyps(2) i by auto
    obtain dl' m' k' T' where r: "decode_loop env n rec' K' dl1 (?s, m1, iter_at fs p 0 i) =
        Some (True, dl', advance ?s (length (concat (drop (Suc i) cs))), m', iter_at fs p 0 k')" "k' < n_fields fs"
      "dl_fixed_count_field dl' = dl_fixed_count_field dl1"
      "loop_state fs p T' dl' (advance ?s (length (concat (drop (Suc i) cs))), m', iter_at fs p 0 k')"
      "\<forall>j<n_fields fs. field_value val m' fs p j = Some (vs ! j) \<and> (vs ! j \<noteq> Missing \<longrightarrow> fld_tag (fs ! j) \<in> T')"
      "changed_within (at p (\<Union>j<n_fields fs. cells fs j)) m1 m'"
      using Suc.hyps(1) [OF hyp i off(2) left lt s1(2) ready1 done1] by blast
    have "changed_within (at p (\<Union>j<n_fields fs. cells fs j)) m m'"
      using s1(4) r(6) by (rule changed_trans) (use i in \<open>auto simp: at_def\<close>)
    then show ?thesis using step [of K'] K r s1(1)
      by (intro exI [of _ dl'] exI [of _ m'] exI [of _ k'] exI [of _ T']) (simp add: drop)
  qed
qed

lemma plain_message_reads:
  assumes fs: "plain_fields fs sz" and c: "codecs env n rec rec' val code ready fs" and p: "p \<noteq> 0"
    and vs: "field_values val fs vs" and len: "length (fields_code code fs vs) < 2 ^ 32"
    and off: "offers s (fields_code code fs vs)" "unat (is_bytes_left s) = length (fields_code code fs vs)"
    and ready: "fields_ready ready m fs p"
  shows "\<exists>m'. noinit_body env n rec' (s, m) fs p = Some (True, advance s (length (fields_code code fs vs)), m') \<and>
    fields_value val m' fs p = Some vs \<and> changed_within (at p (\<Union>j<n_fields fs. cells fs j)) m m'"
proof -
  have mf: "message_fields fs" and wf: "wf_fields fs" and n: "0 < n_fields fs"
    using fs by (simp_all add: plain_fields_def message_fields_def)
  have lvs: "length vs = n_fields fs" using vs by (simp add: field_values_def)
  let ?cs = "map (\<lambda>i. field_code code (fs ! i) (vs ! i)) [0..<n_fields fs]"
  have alt: "fields_code code fs vs = concat (drop 0 ?cs)" using fields_code_alt [OF lvs wf] by simp
  have small: "length (code (fs ! i) (vs ! i)) < 2 ^ 32" if i: "i < n_fields fs" "vs ! i \<noteq> Missing" for i
  proof -
    have "length (?cs ! i) \<le> length (concat ?cs)" using i by (intro concat_member_length) auto
    then show ?thesis using i len unfolding alt by (simp add: field_code_def)
  qed
  obtain dl' m' k' T' where loop: "decode_loop env n rec' (Suc (unat (is_bytes_left s))) init_locals (s, m, iter_at fs p 0 0) =
      Some (True, dl', advance s (length (concat (drop 0 ?cs))), m', iter_at fs p 0 k')" and k': "k' < n_fields fs"
    and dl': "dl_fixed_count_field dl' = dl_fixed_count_field init_locals"
    and inv: "loop_state fs p T' dl' (advance s (length (concat (drop 0 ?cs))), m', iter_at fs p 0 k')"
    and read: "\<forall>j<n_fields fs. field_value val m' fs p j = Some (vs ! j) \<and> (vs ! j \<noteq> Missing \<longrightarrow> fld_tag (fs ! j) \<in> T')"
    and ch: "changed_within (at p (\<Union>j<n_fields fs. cells fs j)) m m'"
    using plain_decode_loop [where val = val and code = code and ready = ready and m = m and s = s and i = 0 and k = 0 and T = "{}"
        and dl = init_locals and K = "Suc (unat (is_bytes_left s))", OF fs c p vs small _ n _ _ _ init_state [OF n]] off ready
    unfolding alt fields_ready_def by blast
  have "pb_field_iter_begin fs p 0 = Some (True, iter_at fs p 0 0)" using iter_begin_wf [OF wf p] n by simp
  moreover obtain req where req: "required_count (iter_at fs p 0 k') = Some req"
    using required_count_exact [OF mf p k' at_field_iter_at] by blast
  moreover have "\<not> (req > 0 \<and> \<not> all_required_seen req (dl_fields_seen dl'))"
  proof -
    have "fld_tag (fs ! i) \<in> T'" if i: "i < n_fields fs" "required_field fs i" for i
    proof -
      have "\<not> is_optional (fs ! i)" using i(2) required_not_optional by (simp add: required_field_def)
      then have "vs ! i \<noteq> Missing" using vs i(1) by (auto simp: field_values_def)
      then show ?thesis using read i(1) by blast
    qed
    then show ?thesis using missing_required_iff [OF mf p inv req] by blast
  qed
  moreover have "\<not> fixed_count_wrong dl' (iter_at fs p 0 k')" using dl' by (simp add: fixed_count_wrong_def init_locals_def)
  moreover have "fields_value val m' fs p = Some vs" using lvs read by (intro fields_valueI) auto
  ultimately show ?thesis using loop ch unfolding alt by (auto simp: noinit_body_def)
qed

section \<open>Nested messages\<close>

lemma field_codec_code:
  assumes c: "field_codec f enc dec val code ready" and same: "\<And>m p v. val m p = Some v \<Longrightarrow> code' v = code v"
  shows "field_codec f enc dec val code' ready"
proof
  fix m m0 m' :: cmem and p p0 v A and s :: pb_istream_t
  show "v \<noteq> Missing" if "val m p = Some v" using field_codec.not_missing [OF c that] .
  show "writes_on fresh (\<lambda>s. enc m s f p) (code' v)" if "val m p = Some v" "p \<noteq> 0" "length (code' v) < 2 ^ 32"
    using field_codec.enc_writes [OF c that(1,2)] that(3) same [OF that(1)] by simp
  show "val m' p = val m p" if "changed_within A m m'" "A \<inter> {p..<p + unat (fld_data_size f)} = {}"
    using field_codec.val_local [OF c that] .
  show "ready m' p = ready m p" if "changed_within A m m'" "A \<inter> {p..<p + unat (fld_data_size f)} = {}"
    using field_codec.ready_local [OF c that] .
  show "\<exists>m'. dec (s, m) f p = Some (True, advance s (length (code' v)), m') \<and> val m' p = Some v \<and>
      changed_within {p..<p + unat (fld_data_size f)} m m'"
    if "val m0 p0 = Some v" "p \<noteq> 0" "length (code' v) < 2 ^ 32" "offers s (code' v)" "ready m p"
    using field_codec.dec_reads [OF c that(1,2), of s m] that(3-5) same [OF that(1)] by simp
qed

definition sub_fields :: "pb_env \<Rightarrow> pb_field_t \<Rightarrow> pb_field_t list" where
  "sub_fields env f = (case fld_ptr f of PtrFields d \<Rightarrow> descs env d | _ \<Rightarrow> [])"

definition length_prefixed :: "bytes \<Rightarrow> bytes" where
  "length_prefixed bs = uvarint (length bs) @ bs"

lemma plain_cells_within:
  assumes "plain_fields fs sz"
  shows "at p (\<Union>j<n_fields fs. cells fs j) \<subseteq> {p..<p + sz}"
  using plain_fieldD(2) [OF assms] by (fastforce simp: at_def)

lemma submessage_codec:
  assumes f: "PB_LTYPE (fld_type f) = PB_LTYPE_SUBMESSAGE" "fld_ptr f = PtrFields d" "PB_HTYPE (fld_type f) \<noteq> PB_HTYPE_REPEATED"
    and fs: "plain_fields (descs env d) (unat (fld_data_size f))"
    and c: "codecs env n (\<lambda>m. pb_encode env m n) (pb_decode_noinit env n) val code ready (descs env d)"
  shows "field_codec f (\<lambda>m. table_encode env (pb_encode env m (Suc n)) m) (table_decode env (Suc n) (pb_decode_noinit env (Suc n)))
    (\<lambda>m p. map_option Message (fields_value val m (descs env d) p))
    (\<lambda>v. case v of Message vs \<Rightarrow> length_prefixed (fields_code code (descs env d) vs) | _ \<Rightarrow> [])
    (\<lambda>m p. fields_ready ready m (descs env d) p)"
proof
  let ?fs = "descs env d"
  let ?code = "\<lambda>v. case v of Message vs \<Rightarrow> length_prefixed (fields_code code ?fs vs) | _ \<Rightarrow> []"
  fix m m0 m' :: cmem and p p0 v A and s :: pb_istream_t
  show "v \<noteq> Missing" if "map_option Message (fields_value val m ?fs p) = Some v" using that by auto
  show "writes_on fresh (\<lambda>s. table_encode env (pb_encode env m (Suc n)) m s f p) (?code v)"
    if v: "map_option Message (fields_value val m ?fs p) = Some v" and p: "p \<noteq> 0" and len: "length (?code v) < 2 ^ 32"
  proof -
    obtain vs where vs: "fields_value val m ?fs p = Some vs" "v = Message vs" using v by auto
    then have l: "length (fields_code code ?fs vs) < 2 ^ 32" using len by (simp add: length_prefixed_def)
    have "writes_on fresh (\<lambda>s. pb_encode env m (Suc n) s ?fs p) (fields_code code ?fs vs)"
      using plain_message_writes [OF fs p _ codecsD(2) [OF c] vs(1) l, of n] codecsD(1) [OF c] by simp
    from submessage_writes [where rec = "pb_encode env m (Suc n)", OF this] l show ?thesis
      using vs(2) f by (simp add: table_encode_def scalar_tables pb_enc_submessage_def length_prefixed_def)
  qed
  have loc: "at p (cells ?fs i) \<inter> A = {}" if "A \<inter> {p..<p + unat (fld_data_size f)} = {}" "i < n_fields ?fs" for i
    using plain_cells_within [OF fs, of p] that by (auto simp: at_def)
  show "map_option Message (fields_value val m' ?fs p) = map_option Message (fields_value val m ?fs p)"
    if ch: "changed_within A m m'" "A \<inter> {p..<p + unat (fld_data_size f)} = {}"
  proof -
    have "field_value val m' ?fs p i = field_value val m ?fs p i" if i: "i < n_fields ?fs" for i
      using field_value_local [where val = val, OF codecsD(2) [OF c i] ch(1)] loc [OF ch(2) i] by auto
    then have "map (field_value val m' ?fs p) [0..<n_fields ?fs] = map (field_value val m ?fs p) [0..<n_fields ?fs]" by simp
    then show ?thesis unfolding fields_value_def by (simp only:)
  qed
  show "fields_ready ready m' ?fs p = fields_ready ready m ?fs p"
    if ch: "changed_within A m m'" "A \<inter> {p..<p + unat (fld_data_size f)} = {}"
  proof -
    have "field_ready ready m' ?fs p i = field_ready ready m ?fs p i" if i: "i < n_fields ?fs" for i
      using field_ready_local [where ready = ready, OF codecsD(2) [OF c i] ch(1)] loc [OF ch(2) i] by auto
    then show ?thesis unfolding fields_ready_def by simp
  qed
  show "\<exists>m'. table_decode env (Suc n) (pb_decode_noinit env (Suc n)) (s, m) f p = Some (True, advance s (length (?code v)), m') \<and>
      map_option Message (fields_value val m' ?fs p) = Some v \<and> changed_within {p..<p + unat (fld_data_size f)} m m'"
    if v: "map_option Message (fields_value val m0 ?fs p0) = Some v" and p: "p \<noteq> 0" and len: "length (?code v) < 2 ^ 32"
      and off: "offers s (?code v)" and ready: "fields_ready ready m ?fs p"
  proof -
    obtain vs where vs: "fields_value val m0 ?fs p0 = Some vs" "v = Message vs" using v by auto
    let ?bs = "fields_code code ?fs vs"
    let ?k = "length (uvarint (length ?bs))"
    have l: "length ?bs < 2 ^ 32" and off': "offers s (uvarint (length ?bs) @ ?bs)"
      using len off vs(2) by (simp_all add: length_prefixed_def)
    let ?sub = "(advance s ?k)\<lparr>is_bytes_left := of_nat (length ?bs)\<rparr>"
    note make = make_substream_offers [OF off' l, of env]
    have u: "unat (of_nat (length ?bs) :: u64) = length ?bs" using l by (simp add: unat_of_nat)
    have sub: "offers ?sub ?bs" "unat (is_bytes_left ?sub) = length ?bs" using off' u by (auto simp: offers_def advance_def)
    obtain m' where m': "noinit_body env n (pb_decode_noinit env n) (?sub, m) ?fs p = Some (True, advance ?sub (length ?bs), m')"
      "fields_value val m' ?fs p = Some vs" "changed_within (at p (\<Union>j<n_fields ?fs. cells ?fs j)) m m'"
      using plain_message_reads [OF fs c p field_values_of [OF c vs(1)] l sub ready] by blast
    have empty: "is_bytes_left (advance ?sub (length ?bs)) = 0" by (simp add: advance_def)
    have "table_decode env (Suc n) (pb_decode_noinit env (Suc n)) (s, m) f p = Some (True, advance s (length (?code v)), m')"
      using f make m'(1) empty vs(2)
      by (simp add: table_decode_def scalar_tables pb_dec_submessage_def pb_close_string_substream_def length_prefixed_def)
        (simp add: advance_def add.commute)
    moreover have "changed_within {p..<p + unat (fld_data_size f)} m m'"
      using m'(3) plain_cells_within [OF fs] by (rule changed_mono)
    ultimately show ?thesis using m'(2) vs(2) by auto
  qed
qed

text \<open>
  The messages covered, by recursion on the nesting depth: members are scalars, possibly with a default
  value, or messages of this kind in turn.
\<close>

definition scalar_member :: "pb_field_t \<Rightarrow> bool" where
  "scalar_member f \<longleftrightarrow> scalar_field f \<and>
     (case fld_ptr f of PtrNull \<Rightarrow> True | PtrDefault bs \<Rightarrow> unat (fld_data_size f) \<le> length bs | PtrFields _ \<Rightarrow> False)"

definition submessage_member :: "pb_field_t \<Rightarrow> bool" where
  "submessage_member f \<longleftrightarrow> PB_LTYPE (fld_type f) = PB_LTYPE_SUBMESSAGE \<and> (\<exists>d. fld_ptr f = PtrFields d)"

fun plain_message :: "pb_env \<Rightarrow> nat \<Rightarrow> pb_field_t list \<Rightarrow> nat \<Rightarrow> bool" where
  "plain_message env 0 fs sz \<longleftrightarrow> plain_fields fs sz \<and> (\<forall>i<n_fields fs. scalar_member (fs ! i))"
| "plain_message env (Suc n) fs sz \<longleftrightarrow> plain_fields fs sz \<and> (\<forall>i<n_fields fs. scalar_member (fs ! i) \<or>
     submessage_member (fs ! i) \<and> plain_message env n (sub_fields env (fs ! i)) (unat (fld_data_size (fs ! i))))"

fun read_value :: "pb_env \<Rightarrow> nat \<Rightarrow> cmem \<Rightarrow> pb_field_t \<Rightarrow> addr \<Rightarrow> pb_value option" where
  "read_value env 0 m f p = scalar_value m f p"
| "read_value env (Suc n) m f p =
     (if PB_LTYPE (fld_type f) = PB_LTYPE_SUBMESSAGE
      then map_option Message (fields_value (read_value env n) m (sub_fields env f) p)
      else scalar_value m f p)"

fun ready_value :: "pb_env \<Rightarrow> nat \<Rightarrow> cmem \<Rightarrow> pb_field_t \<Rightarrow> addr \<Rightarrow> bool" where
  "ready_value env 0 m f p = valid_range m p (unat (fld_data_size f))"
| "ready_value env (Suc n) m f p =
     (if PB_LTYPE (fld_type f) = PB_LTYPE_SUBMESSAGE then fields_ready (ready_value env n) m (sub_fields env f) p
      else valid_range m p (unat (fld_data_size f)))"

text \<open>The wire format, as a function of the value alone.\<close>

function (sequential) value_code :: "pb_env \<Rightarrow> pb_field_t \<Rightarrow> pb_value \<Rightarrow> bytes" where
  "value_code env f Missing = []"
| "value_code env f (Scalar bs) = scalar_code f bs"
| "value_code env f (Message vs) = length_prefixed (concat (map
     (\<lambda>(g, v). if v = Missing then [] else tag_code g @ value_code env g v) (zip (sub_fields env f) vs)))"
  by pat_completeness auto
termination
  by (relation "measure (\<lambda>(env, f, v). size v)")
    (auto dest!: set_zip_rightD intro: le_imp_less_Suc size_list_estimation')

declare value_code.simps(3) [simp del]

lemma value_code_Message [simp]:
  "value_code env f (Message vs) = length_prefixed (fields_code (value_code env) (sub_fields env f) vs)"
  by (simp add: value_code.simps(3) fields_code_def field_code_def)

definition read_message :: "pb_env \<Rightarrow> nat \<Rightarrow> cmem \<Rightarrow> pb_field_t list \<Rightarrow> addr \<Rightarrow> pb_value list option" where
  "read_message env n m fs p = fields_value (read_value env n) m fs p"

definition message_code :: "pb_env \<Rightarrow> pb_field_t list \<Rightarrow> pb_value list \<Rightarrow> bytes" where
  "message_code env fs vs = fields_code (value_code env) fs vs"

lemma scalar_not_submessage: "scalar_field f \<Longrightarrow> PB_LTYPE (fld_type f) \<noteq> PB_LTYPE_SUBMESSAGE"
  by (auto simp: scalar_field_def Let_def pb_type_defs)

lemma scalar_wire: "scalar_field f \<Longrightarrow> wire_type_for (PB_LTYPE (fld_type f)) \<noteq> None"
  by (auto simp: scalar_field_def Let_def wire_type_for_def)

lemma scalar_read: "scalar_field f \<Longrightarrow> read_value env n m f p = scalar_value m f p"
  "scalar_field f \<Longrightarrow> ready_value env n m f p = valid_range m p (unat (fld_data_size f))"
  using scalar_not_submessage by (cases n; simp)+

lemma scalar_member_codec:
  assumes "scalar_field f"
  shows "field_codec f (\<lambda>m. table_encode env (rec m) m) (table_decode env n rec') (\<lambda>m p. read_value env k m f p)
    (value_code env f) (\<lambda>m p. ready_value env k m f p)"
proof -
  have "field_codec f (table_encode env rec1) (table_decode env n rec') (\<lambda>m p. scalar_value m f p)
    (value_code env f) (\<lambda>m p. valid_range m p (unat (fld_data_size f)))" for rec1
    by (rule field_codec_code [OF scalar_codec.field_codec_axioms]) (auto simp: scalar_value_def split: if_splits)
  note c = this
  show ?thesis
    unfolding scalar_read [OF assms]
    using field_codec.enc_writes [OF c] field_codec.dec_reads [OF c] field_codec.val_local [OF c] field_codec.ready_local [OF c]
      field_codec.not_missing [OF c]
    by unfold_locales blast+
qed

lemma plain_message_fields: "plain_message env n fs sz \<Longrightarrow> plain_fields fs sz"
  by (cases n) auto

lemma plain_codecs:
  "plain_message env n fs sz \<Longrightarrow>
     codecs env n (\<lambda>m. pb_encode env m n) (pb_decode_noinit env n) (read_value env n) (value_code env) (ready_value env n) fs"
proof (induction n arbitrary: fs sz)
  case 0
  then have "i < n_fields fs \<Longrightarrow> scalar_field (fs ! i)" for i by (simp add: scalar_member_def)
  then show ?case unfolding codecs_def by (intro allI impI conjI scalar_wire scalar_member_codec)
next
  case (Suc n)
  show ?case
    unfolding codecs_def
  proof (intro allI impI)
    fix i assume i: "i < n_fields fs"
    let ?f = "fs ! i"
    show "wire_type_for (PB_LTYPE (fld_type ?f)) \<noteq> None \<and>
      field_codec ?f (\<lambda>m. table_encode env (pb_encode env m (Suc n)) m) (table_decode env (Suc n) (pb_decode_noinit env (Suc n)))
        (\<lambda>m p. read_value env (Suc n) m ?f p) (value_code env ?f) (\<lambda>m p. ready_value env (Suc n) m ?f p)"
    proof (cases "scalar_field ?f")
      case True
      show ?thesis by (intro conjI scalar_wire scalar_member_codec True)
    next
      case False
      then have s: "submessage_member ?f" and sub: "plain_message env n (sub_fields env ?f) (unat (fld_data_size ?f))"
        using Suc.prems i by (auto simp: scalar_member_def)
      then obtain d where d: "PB_LTYPE (fld_type ?f) = PB_LTYPE_SUBMESSAGE" "fld_ptr ?f = PtrFields d" "sub_fields env ?f = descs env d"
        by (auto simp: submessage_member_def sub_fields_def)
      have h: "PB_HTYPE (fld_type ?f) \<noteq> PB_HTYPE_REPEATED"
        using Suc.prems i by (intro plain_htype(3)) (auto simp: plain_fields_def)
      have "wire_type_for (PB_LTYPE (fld_type ?f)) \<noteq> None" using d(1) by (simp add: wire_type_for_def)
      moreover have "field_codec ?f (\<lambda>m. table_encode env (pb_encode env m (Suc n)) m) (table_decode env (Suc n) (pb_decode_noinit env (Suc n)))
        (\<lambda>m p. map_option Message (fields_value (read_value env n) m (descs env d) p)) (value_code env ?f)
        (\<lambda>m p. fields_ready (ready_value env n) m (descs env d) p)"
      proof (rule field_codec_code)
        show "field_codec ?f (\<lambda>m. table_encode env (pb_encode env m (Suc n)) m) (table_decode env (Suc n) (pb_decode_noinit env (Suc n)))
          (\<lambda>m p. map_option Message (fields_value (read_value env n) m (descs env d) p))
          (\<lambda>v. case v of Message vs \<Rightarrow> length_prefixed (fields_code (value_code env) (descs env d) vs) | _ \<Rightarrow> [])
          (\<lambda>m p. fields_ready (ready_value env n) m (descs env d) p)"
          using sub unfolding d(3) by (intro submessage_codec [OF d(1,2) h] Suc.IH plain_message_fields)
        show "value_code env ?f v = (case v of Message vs \<Rightarrow> length_prefixed (fields_code (value_code env) (descs env d) vs) | _ \<Rightarrow> [])"
          if "map_option Message (fields_value (read_value env n) m (descs env d) p) = Some v" for m p v
          using that d(3) by auto
      qed
      moreover have "(\<lambda>m p. read_value env (Suc n) m ?f p) = (\<lambda>m p. map_option Message (fields_value (read_value env n) m (descs env d) p))"
        "(\<lambda>m p. ready_value env (Suc n) m ?f p) = (\<lambda>m p. fields_ready (ready_value env n) m (descs env d) p)"
        by (intro ext, simp add: d)+
      ultimately show ?thesis by (simp only: simp_thms)
    qed
  qed
qed

section \<open>Default values\<close>

lemma message_loop_ready:
  assumes wf: "wf_fields fs" "p \<noteq> 0"
    and step: "\<And>i m. i < n_fields fs \<Longrightarrow> dom (cbytes m) = D \<Longrightarrow>
      \<exists>m'. step m (iter_at fs p 0 i) = Some m' \<and> R m' i \<and> changed_within (C i) m m'"
    and keep: "\<And>i j m m'. i < n_fields fs \<Longrightarrow> j < n_fields fs \<Longrightarrow> i \<noteq> j \<Longrightarrow> changed_within (C i) m m' \<Longrightarrow> R m j \<Longrightarrow> R m' j"
  shows "i < n_fields fs \<Longrightarrow> n_fields fs - i \<le> k \<Longrightarrow> dom (cbytes m) = D \<Longrightarrow> (\<And>j. j < i \<Longrightarrow> R m j) \<Longrightarrow>
    \<exists>m'. message_loop k step m (iter_at fs p 0 i) = Some m' \<and> (\<forall>j<n_fields fs. R m' j) \<and>
      changed_within (\<Union>j<n_fields fs. C j) m m'"
proof (induction k arbitrary: i m)
  case (Suc k)
  obtain m1 where m1: "step m (iter_at fs p 0 i) = Some m1" "R m1 i" "changed_within (C i) m m1"
    using step [OF Suc.prems(1,3)] by blast
  have d: "dom (cbytes m1) = D" using m1(3) Suc.prems(3) by (simp add: changed_within_def)
  have r: "R m1 j" if "j < Suc i" for j
    using that m1(2) keep [OF Suc.prems(1) _ _ m1(3), of j] Suc.prems(1,4) by (cases "j = i") auto
  have it1: "pb_field_iter_next (iter_at fs p 0 i) =
      Some (if Suc i < n_fields fs then (True, iter_at fs p 0 (Suc i)) else (False, iter_at fs p 0 0))"
    by (rule iter_next_wf [OF wf Suc.prems(1)])
  show ?case
  proof (cases "Suc i < n_fields fs")
    case True
    have le: "n_fields fs - Suc i \<le> k" using Suc.prems(2) by simp
    obtain m' where m': "message_loop k step m1 (iter_at fs p 0 (Suc i)) = Some m'" "\<forall>j<n_fields fs. R m' j"
      "changed_within (\<Union>j<n_fields fs. C j) m1 m'"
      using Suc.IH [OF True le d r] by blast
    have "changed_within (\<Union>j<n_fields fs. C j) m m'"
      using m1(3) m'(3) by (rule changed_trans) (use Suc.prems(1) in auto)
    then show ?thesis using m1(1) it1 True m' by simp
  next
    case False
    then have "\<forall>j<n_fields fs. R m1 j" using r Suc.prems(1) by auto
    moreover have "changed_within (\<Union>j<n_fields fs. C j) m m1" using m1(3) by (rule changed_mono) (use Suc.prems(1) in auto)
    ultimately show ?thesis using m1(1) it1 False by auto
  qed
qed simp

lemma scalar_defaults:
  assumes f: "scalar_member f" and valid: "valid_range m q (unat (fld_data_size f))"
  shows "\<exists>m'. init_static_data env step m f q = Some m' \<and> valid_range m' q (unat (fld_data_size f)) \<and>
    changed_within {q..<q + unat (fld_data_size f)} m m'"
proof -
  let ?k = "unat (fld_data_size f)"
  obtain bs where bs: "init_static_data env step m f q = store_bytes m q bs" "length bs = ?k"
    using f scalar_not_submessage [of f]
    by (auto simp: scalar_member_def init_static_data_def memset_zero_def split: pb_ptr.splits)
  obtain m' where m': "store_bytes m q bs = Some m'" using store_bytes_Some [of m q bs] valid bs(2) by auto
  then show ?thesis using bs store_changed [OF m'] changed_valid [OF store_changed [OF m']] valid by auto
qed

lemma cells_valid:
  assumes "plain_fields fs sz" "i < n_fields fs" "valid_range m p sz"
  shows "valid_range m (p + field_offset fs i) (unat (fld_data_size (fs ! i)))"
    "is_optional (fs ! i) \<Longrightarrow> valid_range m (p + has_offset fs i) 1"
proof -
  have "at p (cells fs i) \<subseteq> {p..<p + sz}" using plain_cells_within [OF assms(1), of p] assms(2) by (auto simp: at_def)
  then have "at p (cells fs i) \<subseteq> dom (cbytes m)" using assms(3) by (auto simp: valid_range_def)
  then show "valid_range m (p + field_offset fs i) (unat (fld_data_size (fs ! i)))"
    "is_optional (fs ! i) \<Longrightarrow> valid_range m (p + has_offset fs i) 1"
    by (auto simp: cells_def at_data valid_range_def)
qed

text \<open>One field: its \<open>has_\<close> member is cleared, then its data set.\<close>

lemma default_field:
  assumes fs: "plain_fields fs sz" and i: "i < n_fields fs" and p: "p \<noteq> 0" and valid: "valid_range m p sz"
    and ext: "PB_LTYPE (fld_type (fs ! i)) \<noteq> PB_LTYPE_EXTENSION"
    and data: "\<And>m. valid_range m p sz \<Longrightarrow> \<exists>m'. init_static_data env step m (fs ! i) (p + field_offset fs i) = Some m' \<and>
      ready m' (fs ! i) (p + field_offset fs i) \<and>
      changed_within {p + field_offset fs i..<p + field_offset fs i + unat (fld_data_size (fs ! i))} m m'"
  shows "\<exists>m'. set_default_body env n step m (iter_at fs p 0 i) = Some m' \<and> field_ready ready m' fs p i \<and>
    changed_within (at p (cells fs i)) m m'"
proof -
  let ?f = "fs ! i" and ?q = "p + field_offset fs i" and ?it = "iter_at fs p 0 i"
  note plain = plain_fieldD(1) [OF fs i]
  note h = plain_htype [OF plain]
  have wf: "wf_fields fs" using fs by (simp add: plain_fields_def message_fields_def)
  have cur: "cur_field ?it = Some ?f" using i wf_fields_length [OF wf] by (intro cur_field_iter_at) simp
  show ?thesis
  proof (cases "is_optional ?f")
    case False
    then have r: "PB_HTYPE (fld_type ?f) \<noteq> PB_HTYPE_OPTIONAL" by (simp add: is_optional_def)
    obtain m' where m': "init_static_data env step m ?f ?q = Some m'" "ready m' ?f ?q"
      "changed_within {?q..<?q + unat (fld_data_size ?f)} m m'" using data [OF valid] by blast
    have "changed_within (at p (cells fs i)) m m'" using m'(3) by (rule changed_mono) (simp add: cells_def at_data)
    then show ?thesis using cur h ext r m'(1,2) False by (simp add: set_default_body_def field_ready_def)
  next
    case True
    note ps = plain_psize [OF plain True]
    have psize: "it_pSize ?it = SizeAt (p + has_offset fs i)" using plain_iter_psize [OF fs i] ps(1) by simp
    obtain m1 where m1: "store_bytes m (p + has_offset fs i) [0] = Some m1"
      using store_bytes_Some [of m _ "[0]"] cells_valid(2) [OF fs i valid True] by auto
    have ch1: "changed_within {p + has_offset fs i} m m1" using store_changed [OF m1] by simp
    have "word_le_bytes 1 (0 :: byte) = [0]" by (simp add: word_le_bytes_def)
    then have has: "write_phas m ?it False = Some m1" using psize m1 by (simp add: write_phas_def store_word_def)
    have "valid_range m1 p sz" using changed_valid [OF ch1] valid by simp
    then obtain m' where m': "init_static_data env step m1 ?f ?q = Some m'" "ready m' ?f ?q"
      "changed_within {?q..<?q + unat (fld_data_size ?f)} m1 m'" using data by blast
    have "cbytes m' (p + has_offset fs i) = Some 0"
      using store_bytes_effect(1) [OF m1] m'(3) ps(2) by (auto simp: changed_within_def data_cells_def)
    moreover have "changed_within (at p (cells fs i)) m m'"
      using ch1 m'(3) by (rule changed_trans) (use True in \<open>auto simp: cells_def at_data\<close>)
    ultimately show ?thesis
      using cur h(4) ext True ps(3) psize has m'(1,2)
      by (simp add: set_default_body_def field_ready_def is_optional_def)
  qed
qed

lemma default_fields:
  assumes fs: "plain_fields fs sz" and p: "p \<noteq> 0" and valid: "valid_range m p sz"
    and c: "codecs env k rec rec' val code ready fs"
    and data: "\<And>i m. i < n_fields fs \<Longrightarrow> valid_range m p sz \<Longrightarrow>
      \<exists>m'. init_static_data env step m (fs ! i) (p + field_offset fs i) = Some m' \<and> ready m' (fs ! i) (p + field_offset fs i) \<and>
      changed_within {p + field_offset fs i..<p + field_offset fs i + unat (fld_data_size (fs ! i))} m m'"
  shows "\<exists>m'. for_each_field (set_default_body env n step) m fs p = Some m' \<and> fields_ready ready m' fs p \<and>
    changed_within {p..<p + sz} m m'"
proof -
  have wf: "wf_fields fs" "0 < n_fields fs" using fs by (simp_all add: plain_fields_def message_fields_def)
  have one: "\<exists>m'. set_default_body env n step m1 (iter_at fs p 0 i) = Some m' \<and> field_ready ready m' fs p i \<and>
      changed_within (at p (cells fs i)) m1 m'" if "i < n_fields fs" "dom (cbytes m1) = dom (cbytes m)" for i m1
  proof (rule default_field [OF fs that(1) p])
    show "valid_range m1 p sz" using valid that(2) by (simp add: valid_range_def)
    show "PB_LTYPE (fld_type (fs ! i)) \<noteq> PB_LTYPE_EXTENSION"
      using codecsD(1) [OF c that(1)] wire_tables(4) by blast
  qed (rule data [OF that(1)])
  have keep: "field_ready ready m2 fs p j" if "i < n_fields fs" "j < n_fields fs" "i \<noteq> j"
    "changed_within (at p (cells fs i)) m1 m2" "field_ready ready m1 fs p j" for i j m1 m2
  proof -
    have "at p (cells fs i) \<inter> at p (cells fs j) = {}" using plain_fieldD(3) [OF fs that(1-3)] by (simp add: at_disjoint)
    then show ?thesis using field_ready_local [where ready = ready, OF codecsD(2) [OF c that(2)] that(4)] that(5) by simp
  qed
  have "\<exists>m'. message_loop (length fs) (set_default_body env n step) m (iter_at fs p 0 0) = Some m' \<and>
      (\<forall>j<n_fields fs. field_ready ready m' fs p j) \<and> changed_within (\<Union>j<n_fields fs. at p (cells fs j)) m m'"
  proof (rule message_loop_ready [where D = "dom (cbytes m)" and R = "\<lambda>m i. field_ready ready m fs p i", OF wf(1) p one keep wf(2)])
    show "n_fields fs - 0 \<le> length fs" using wf_fields_length [OF wf(1)] by simp
  qed simp_all
  moreover have "(\<Union>j<n_fields fs. at p (cells fs j)) \<subseteq> {p..<p + sz}"
    using plain_cells_within [OF fs, of p] by (auto simp: at_def)
  moreover have "pb_field_iter_begin fs p 0 = Some (True, iter_at fs p 0 0)" using iter_begin_wf [OF wf(1) p] wf(2) by simp
  ultimately show ?thesis by (auto simp: for_each_field_def fields_ready_def intro: changed_mono)
qed

lemma default_message:
  "plain_message env n fs sz \<Longrightarrow> p \<noteq> 0 \<Longrightarrow> valid_range m p sz \<Longrightarrow>
    \<exists>m'. pb_message_set_to_defaults env (Suc n) m fs p = Some m' \<and> fields_ready (ready_value env n) m' fs p \<and>
      changed_within {p..<p + sz} m m'"
proof (induction n arbitrary: fs sz p m)
  case 0
  have step: "pb_field_set_to_default env (Suc 0) = set_default_body env 0 (pb_field_set_to_default env 0)"
    by (rule ext, rule ext) simp
  have "scalar_member (fs ! i)" if "i < n_fields fs" for i using 0 that by simp
  then show ?case
    unfolding pb_message_set_to_defaults_def step
    using 0 cells_valid(1) scalar_defaults
    by (intro default_fields [OF _ _ _ plain_codecs [OF 0(1)]]) auto
next
  case (Suc n)
  have step: "pb_field_set_to_default env (Suc (Suc n)) = set_default_body env (Suc n) (pb_field_set_to_default env (Suc n))"
    by (rule ext, rule ext) simp
  have fs: "plain_fields fs sz" using Suc.prems(1) by simp
  have data: "\<exists>m'. init_static_data env (pb_field_set_to_default env (Suc n)) m (fs ! i) (p + field_offset fs i) = Some m' \<and>
      ready_value env (Suc n) m' (fs ! i) (p + field_offset fs i) \<and>
      changed_within {p + field_offset fs i..<p + field_offset fs i + unat (fld_data_size (fs ! i))} m m'"
    if i: "i < n_fields fs" and valid: "valid_range m p sz" for i m
  proof (cases "scalar_member (fs ! i)")
    case True
    then show ?thesis
      using scalar_defaults [OF True cells_valid(1) [OF fs i valid]] scalar_read(2) [of "fs ! i"]
      by (simp only: scalar_member_def)
  next
    case False
    then obtain d where d: "PB_LTYPE (fld_type (fs ! i)) = PB_LTYPE_SUBMESSAGE" "fld_ptr (fs ! i) = PtrFields d"
      "sub_fields env (fs ! i) = descs env d" "plain_message env n (descs env d) (unat (fld_data_size (fs ! i)))"
      using Suc.prems(1) i by (auto simp: submessage_member_def sub_fields_def)
    then show ?thesis
      using Suc.IH [OF d(4) _ cells_valid(1) [OF fs i valid]] Suc.prems(2)
      by (auto simp: init_static_data_def pb_message_set_to_defaults_def)
  qed
  show ?case
    unfolding pb_message_set_to_defaults_def step
    by (rule default_fields [OF fs Suc.prems(2,3) plain_codecs [OF Suc.prems(1)] data])
qed

section \<open>The round trip of messages\<close>

lemma plain_encodes:
  assumes "plain_message env n fs sz" "p \<noteq> 0" "read_message env n m fs p = Some vs" "length (message_code env fs vs) < 2 ^ 32"
  shows "writes_on fresh (\<lambda>s. pb_encode env m (Suc n) s fs p) (message_code env fs vs)"
  using plain_message_writes [OF plain_message_fields [OF assms(1)] assms(2) _ codecsD(2) [OF plain_codecs [OF assms(1)]], of m vs n]
    codecsD(1) [OF plain_codecs [OF assms(1)]] assms(3,4)
  by (simp add: read_message_def message_code_def)

lemma plain_decodes:
  assumes m: "plain_message env n fs sz" and p: "p \<noteq> 0" "q \<noteq> 0" and v: "read_message env n m0 fs p = Some vs"
    and len: "length (message_code env fs vs) < 2 ^ 32" and valid: "valid_range m q sz"
    and s: "s = pb_istream_from_buffer (message_code env fs vs) (of_nat (length (message_code env fs vs)))"
  shows "\<exists>m'. pb_decode env (Suc n) (s, m) fs q = Some (True, pb_istream_from_buffer [] 0, m') \<and>
    read_message env n m' fs q = Some vs \<and> changed_within {q..<q + sz} m m'"
proof -
  let ?c = "message_code env fs vs"
  note fs = plain_message_fields [OF m] and c = plain_codecs [OF m]
  have u: "unat (of_nat (length ?c) :: u64) = length ?c" using len by (simp add: unat_of_nat)
  have off: "offers s ?c" "unat (is_bytes_left s) = length ?c"
    using u by (simp_all add: s offers_def pb_istream_from_buffer_def)
  obtain m1 where m1: "pb_message_set_to_defaults env (Suc n) m fs q = Some m1" "fields_ready (ready_value env n) m1 fs q"
    "changed_within {q..<q + sz} m m1" using default_message [OF m p(2) valid] by blast
  have vs: "field_values (read_value env n) fs vs"
    using field_values_of [OF c] v by (simp add: read_message_def)
  obtain m' where m': "noinit_body env n (pb_decode_noinit env n) (s, m1) fs q = Some (True, advance s (length ?c), m')"
    "fields_value (read_value env n) m' fs q = Some vs" "changed_within (at q (\<Union>j<n_fields fs. cells fs j)) m1 m'"
    using plain_message_reads [OF fs c p(2) vs len [unfolded message_code_def] off [unfolded message_code_def] m1(2)]
    unfolding message_code_def by blast
  have "changed_within {q..<q + sz} m1 m'" using m'(3) plain_cells_within [OF fs] by (rule changed_mono)
  then have "changed_within {q..<q + sz} m m'" using m1(3) changed_trans by blast
  moreover have "advance s (length ?c) = pb_istream_from_buffer [] 0"
    by (simp add: s advance_def pb_istream_from_buffer_def)
  ultimately show ?thesis
    using m1(1) m'(1,2) by (simp add: pb_decode_def pb_decode_with_def read_message_def)
qed

text \<open>C1: A message survives the wire: what \<^verbatim>\<open>pb_encode\<close> writes for a message of required and optional
  members (integers of all sizes, truth values, fixed-size numbers and byte arrays, and messages of
  this kind nested to any depth) is the code of its value, and \<^verbatim>\<open>pb_decode\<close> into any memory that is
  there succeeds, consumes all of it, leaves a message with the same value, and touches nothing
  outside the struct.
\<close>

theorem message_roundtrip:
  assumes "plain_message env n fs sz" "p \<noteq> 0" "q \<noteq> 0"
    "read_message env n m fs p = Some vs" "length (message_code env fs vs) \<le> unat cap" "unat cap < 2 ^ 32"
    "valid_range m2 q sz"
  shows "\<exists>s m3. pb_encode env m (Suc n) (pb_ostream_from_buffer cap) fs p = Some (True, s) \<and>
    os_state s = message_code env fs vs \<and>
    pb_decode env (Suc n) (pb_istream_from_buffer (os_state s) (os_bytes_written s), m2) fs q =
      Some (True, pb_istream_from_buffer [] 0, m3) \<and>
    read_message env n m3 fs q = Some vs \<and> changed_within {q..<q + sz} m2 m3"
proof -
  let ?c = "message_code env fs vs" and ?s = "pb_ostream_from_buffer cap"
  have len: "length ?c < 2 ^ 32" using assms(5,6) by simp
  have "pb_encode env m (Suc n) ?s fs p = Some (True, emit ?s ?c)"
    using writes_on_buffer [OF plain_encodes [OF assms(1,2,4) len], of cap] assms(5,6) len by simp
  moreover have "os_state (emit ?s ?c) = ?c" "os_bytes_written (emit ?s ?c) = of_nat (length ?c)"
    by (simp_all add: emit_def) (simp_all add: pb_ostream_from_buffer_def)
  ultimately show ?thesis using plain_decodes [OF assms(1-4) len assms(7) refl] by auto
qed

text \<open>A message with a required number, an optional signed number with its \<open>has_\<close> byte four bytes
  before it, and a required submessage.\<close>

definition opt_field :: pb_field_t where
  "opt_field = \<lparr>fld_tag = 3, fld_type = PB_HTYPE_OPTIONAL OR PB_LTYPE_SVARINT, fld_data_offset = 4,
     fld_size_offset = - 4, fld_data_size = 4, fld_array_size = 0, fld_ptr = PtrNull\<rparr>"

definition pair_fields :: "pb_field_t list" where
  "pair_fields = [num_field, opt_field, sub_field, PB_LAST_FIELD]"

definition pair_message :: cmem where
  "pair_message = mem_at 4096 [150, 0, 0, 0, 1, 0, 0, 0, 254, 255, 255, 255, 5, 0, 0, 0]"

lemma pair_types: "PB_LTYPE (fld_type opt_field) = PB_LTYPE_SVARINT" "PB_HTYPE (fld_type opt_field) = PB_HTYPE_OPTIONAL"
  "PB_ATYPE (fld_type opt_field) = PB_ATYPE_STATIC"
  "\<not> is_optional num_field" "is_optional opt_field" "\<not> is_optional sub_field"
  by (simp_all add: is_optional_def sample_types) (simp_all add: opt_field_def PB_LTYPE_def PB_HTYPE_def PB_ATYPE_def pb_type_defs)

lemma member_fields:
  "fld_tag num_field = 1" "fld_data_offset num_field = 0" "fld_size_offset num_field = 0" "fld_data_size num_field = 4" "fld_ptr num_field = PtrNull"
  "fld_tag opt_field = 3" "fld_data_offset opt_field = 4" "fld_size_offset opt_field = - 4" "fld_data_size opt_field = 4" "fld_ptr opt_field = PtrNull"
  "fld_tag sub_field = 2" "fld_data_offset sub_field = 0" "fld_size_offset sub_field = 0" "fld_data_size sub_field = 4" "fld_ptr sub_field = PtrFields 1"
  "fld_tag PB_LAST_FIELD = 0"
  by (simp_all add: num_field_def opt_field_def sub_field_def PB_LAST_FIELD_def)

lemma pair_counts: "n_fields pair_fields = 3" "n_fields [num_field, PB_LAST_FIELD] = 1"
  by (simp_all add: pair_fields_def n_fields_def)

lemma pair_nth: "pair_fields ! 0 = num_field" "pair_fields ! Suc 0 = opt_field" "pair_fields ! 2 = sub_field"
  by (simp_all add: pair_fields_def)

lemma less_3: "i < (3 :: nat) \<longleftrightarrow> i = 0 \<or> i = Suc 0 \<or> i = 2" by auto

lemma pair_steps:
  "\<not> in_same_union num_field opt_field" "\<not> in_same_union opt_field sub_field"
  "prev_size_of num_field = 4" "prev_size_of opt_field = 4"
  by (simp_all add: in_same_union_def prev_size_of_def sample_types pair_types member_fields) (simp_all add: pb_type_defs)

lemma pair_offsets: "field_offset pair_fields 0 = 0" "field_offset pair_fields (Suc 0) = 8" "field_offset pair_fields 2 = 12"
  "has_offset pair_fields (Suc 0) = 4" "field_offset [num_field, PB_LAST_FIELD] 0 = 0"
proof -
  show "field_offset pair_fields 0 = 0" "field_offset [num_field, PB_LAST_FIELD] 0 = 0"
    by (simp_all add: pair_nth member_fields)
  show o1: "field_offset pair_fields (Suc 0) = 8" by (simp add: pair_nth pair_steps member_fields)
  show "field_offset pair_fields 2 = 12"
    using o1 by (simp only: numeral_2_eq_2 field_offset.simps(2) [of _ "Suc 0"])
      (simp add: pair_nth [unfolded numeral_2_eq_2] pair_steps member_fields del: field_offset.simps)
  show "has_offset pair_fields (Suc 0) = 4" unfolding has_offset_def o1 by (simp add: pair_nth member_fields)
qed

lemma pair_cells: "cells pair_fields 0 = {0..<4}" "cells pair_fields (Suc 0) = insert 4 {8..<12}" "cells pair_fields 2 = {12..<16}"
  "cells [num_field, PB_LAST_FIELD] 0 = {0..<4}"
  by (simp_all add: cells_def data_cells_def pair_offsets pair_nth pair_types member_fields del: field_offset.simps)

lemma pair_plain: "plain_message sample_env 1 pair_fields 16"
proof -
  have mf: "message_fields pair_fields"
    using member_fields by (simp add: message_fields_def pair_counts less_3 pair_nth pair_types sample_types wf_fields_def)
      (simp add: pair_fields_def member_fields pb_type_defs)
  have inner: "plain_fields [num_field, PB_LAST_FIELD] 4"
    using sample_fields by (auto simp: plain_fields_def plain_field_def pair_counts pair_cells sample_types member_fields)
  have "plain_fields pair_fields 16"
    using mf by (simp add: plain_fields_def plain_field_def pair_counts less_3 pair_nth pair_cells pair_types sample_types member_fields
        data_cells_def pair_offsets del: field_offset.simps) auto
  moreover have "scalar_member num_field" "scalar_member opt_field"
    by (simp_all add: scalar_member_def scalar_field_def sample_types pair_types member_fields)
  moreover have "submessage_member sub_field" "sub_fields sample_env sub_field = [num_field, PB_LAST_FIELD]"
    by (simp_all add: submessage_member_def sub_fields_def sample_types member_fields plain_env_def sample_descs_def)
  ultimately show ?thesis using inner by (simp add: less_3 pair_counts pair_nth member_fields)
qed

lemma pair_scalars: "scalar_field num_field" "scalar_field opt_field" "sub_fields sample_env sub_field = [num_field, PB_LAST_FIELD]"
  "scalar_bytes num_field = (\<lambda>bs. bs)" "scalar_bytes opt_field = (\<lambda>bs. bs)"
  by (simp_all add: scalar_field_def scalar_bytes_def fun_eq_iff sample_types pair_types member_fields sub_fields_def plain_env_def sample_descs_def)
    (simp_all add: pb_type_defs)

lemma pair_loads: "load_bytes pair_message 4096 4 = Some [150, 0, 0, 0]" "load_bytes pair_message 4104 4 = Some [254, 255, 255, 255]"
  "load_bytes pair_message 4108 4 = Some [5, 0, 0, 0]" "cbytes pair_message 4100 = Some 1"
  by (simp_all add: pair_message_def load_mem_at del: load_bytes.simps) (simp add: mem_at_def)

lemma pair_read: "read_message sample_env 1 pair_message pair_fields 4096 =
    Some [Scalar [150, 0, 0, 0], Scalar [254, 255, 255, 255], Message [Scalar [5, 0, 0, 0]]]"
proof -
  have inner: "fields_value (read_value sample_env 0) pair_message [num_field, PB_LAST_FIELD] 4108 = Some [Scalar [5, 0, 0, 0]]"
    by (rule fields_valueI) (simp_all add: pair_counts field_value_def pair_types pair_offsets scalar_value_def pair_scalars member_fields pair_loads
        del: load_bytes.simps field_offset.simps)
  have different: "PB_LTYPE_UVARINT \<noteq> PB_LTYPE_SUBMESSAGE" "PB_LTYPE_SVARINT \<noteq> PB_LTYPE_SUBMESSAGE" by (simp_all add: pb_type_defs)
  show ?thesis
    unfolding read_message_def
    by (rule fields_valueI) (auto simp: pair_counts less_3 pair_nth field_value_def pair_types pair_offsets scalar_read pair_scalars scalar_value_def
        member_fields pair_loads sample_types inner different simp del: load_bytes.simps field_offset.simps)
qed

lemma pair_tags: "tag_code num_field = [8]" "tag_code opt_field = [24]" "tag_code sub_field = [18]"
  by (simp_all add: tag_code_def sample_types pair_types member_fields wire_type_for_def tag_number_def wire_type_value_def uvarint_small pb_type_defs)

lemma pair_code: "message_code sample_env pair_fields [Scalar [150, 0, 0, 0], Scalar [254, 255, 255, 255], Message [Scalar [5, 0, 0, 0]]] =
    [8, 150, 1, 24, 3, 18, 2, 8, 5]"
proof -
  have z: "zigzag (signed_value [254, 255, 255, 255]) = 3"
    by (simp add: signed_value_def zigzag_def)
  show ?thesis
    by (simp add: message_code_def fields_code_def field_code_def pair_fields_def pair_tags scalar_codes sample_types pair_types z
      uvarint_small uvarint_big length_prefixed_def pair_scalars)
qed

lemma message_roundtrip_witness:
  "\<exists>s m3. pb_encode sample_env pair_message 2 (pb_ostream_from_buffer 64) pair_fields 4096 = Some (True, s) \<and>
    os_state s = [8, 150, 1, 24, 3, 18, 2, 8, 5] \<and>
    pb_decode sample_env 2 (pb_istream_from_buffer (os_state s) (os_bytes_written s), mem_at 8192 (replicate 16 255)) pair_fields 8192 =
      Some (True, pb_istream_from_buffer [] 0, m3) \<and>
    read_message sample_env 1 m3 pair_fields 8192 = read_message sample_env 1 pair_message pair_fields 4096 \<and>
    changed_within {8192..<8192 + 16} (mem_at 8192 (replicate 16 255)) m3"
proof -
  have p: "(4096 :: nat) \<noteq> 0" "(8192 :: nat) \<noteq> 0" by simp_all
  have len: "length (message_code sample_env pair_fields [Scalar [150, 0, 0, 0], Scalar [254, 255, 255, 255], Message [Scalar [5, 0, 0, 0]]]) \<le> unat (64 :: u64)"
    unfolding pair_code by simp
  have valid: "valid_range (mem_at 8192 (replicate 16 255)) 8192 16" by (auto simp: valid_range_def mem_at_def)
  have "unat (64 :: u64) < 2 ^ 32" by simp
  from message_roundtrip [OF pair_plain p pair_read len this valid] show ?thesis
    unfolding pair_code pair_read by (simp only: numeral_2_eq_2 One_nat_def)
qed

section \<open>Releasing a message without pointers\<close>





section \<open>Members in any order\<close>








end
