(* ===== verification/Cbs.thy ===== *)
theory Cbs
  imports Prelude
begin

text \<open>
  BoringSSL, \<^verbatim>\<open>ios/Pods/BoringSSL-GRPC/src/crypto/bytestring/cbs.c\<close> and the readers of \<^verbatim>\<open>unicode.c\<close>: byte
  strings, big-endian integers, length prefixes, and the elements of ASN.1 in DER and BER.  The helpers of
  \<^verbatim>\<open>crypto/mem.c\<close> and \<^verbatim>\<open>crypto/internal.h\<close> they call come first.  \<open>CBS_asn1_oid_to_text\<close> writes through a
  \<open>CBB\<close> and is not part of this theory.
\<close>

section \<open>Byte strings in memory\<close>

text \<open>
  A pointer to constant bytes is represented by the bytes from there to the end of the object; moving
  it further than the end and reading at the end are undefined (\<^term>\<open>None\<close>).  A NULL pointer with
  length 0 is the empty list.  Functions return the value true or false together with what they leave in their arguments;
  an output that a failing function does not write keeps its old value, which is why outputs are
  arguments too.  Local variables that are written before they are read start as 0.
\<close>

record CBS =
  cbs_data :: bytes
  cbs_len :: u64

definition ptr_advance :: "bytes \<Rightarrow> u64 \<Rightarrow> bytes option" where
  "ptr_advance data n = (if unat n \<le> length data then Some (drop (unat n) data) else None)"

definition byte_at :: "bytes \<Rightarrow> nat \<Rightarrow> byte option" where
  "byte_at data i = (if i < length data then Some (data ! i) else None)"

definition OPENSSL_memcpy :: "bytes \<Rightarrow> u64 \<Rightarrow> bytes option" where
  "OPENSSL_memcpy src n = (if unat n \<le> length src then Some (take (unat n) src) else None)"

text \<open>\<open>memchr\<close> reads one byte after the other and stops at the first match: its index, or \<^term>\<open>None\<close>
  for NULL.\<close>

fun memchr_loop :: "nat \<Rightarrow> bytes \<Rightarrow> byte \<Rightarrow> nat \<Rightarrow> nat option option" where
  "memchr_loop 0 s c i = Some None"
| "memchr_loop (Suc n) s c i = do {
     b \<leftarrow> byte_at s i;
     if b = c then Some (Some i) else memchr_loop n s c (Suc i)
   }"

definition OPENSSL_memchr :: "bytes \<Rightarrow> byte \<Rightarrow> u64 \<Rightarrow> nat option option" where
  "OPENSSL_memchr s c n = (if n = 0 then Some None else memchr_loop (unat n) s c 0)"

fun memcmp_loop :: "nat \<Rightarrow> bytes \<Rightarrow> bytes \<Rightarrow> nat \<Rightarrow> byte \<Rightarrow> byte option" where
  "memcmp_loop 0 a b i x = Some x"
| "memcmp_loop (Suc n) a b i x = do {
     p \<leftarrow> byte_at a i;
     q \<leftarrow> byte_at b i;
     memcmp_loop n a b (Suc i) (x OR (p XOR q))
   }"

definition CRYPTO_memcmp :: "bytes \<Rightarrow> bytes \<Rightarrow> u64 \<Rightarrow> byte option" where
  "CRYPTO_memcmp a b len = memcmp_loop (unat len) a b 0 0"

text \<open>
  \<open>OPENSSL_malloc\<close> puts the size in front of every block.  \<open>avail\<close> says for which sizes \<open>malloc\<close>
  succeeds; a copy is the bytes of the new block, \<^term>\<open>None\<close> for NULL.
\<close>

definition OPENSSL_MALLOC_PREFIX :: u64 where "OPENSSL_MALLOC_PREFIX = 8"

definition OPENSSL_malloc :: "(u64 \<Rightarrow> bool) \<Rightarrow> u64 \<Rightarrow> bool" where
  "OPENSSL_malloc avail sz =
     (if sz + OPENSSL_MALLOC_PREFIX < sz then False else avail (sz + OPENSSL_MALLOC_PREFIX))"

definition OPENSSL_memdup :: "(u64 \<Rightarrow> bool) \<Rightarrow> bytes \<Rightarrow> u64 \<Rightarrow> bytes option option" where
  "OPENSSL_memdup avail data sz =
     (if sz = 0 then Some None
      else if \<not> OPENSSL_malloc avail sz then Some None
      else map_option Some (OPENSSL_memcpy data sz))"

fun strnlen_loop :: "nat \<Rightarrow> bytes \<Rightarrow> nat \<Rightarrow> nat option" where
  "strnlen_loop 0 s i = Some i"
| "strnlen_loop (Suc n) s i = do { c \<leftarrow> byte_at s i; if c = 0 then Some i else strnlen_loop n s (Suc i) }"

definition OPENSSL_strnlen :: "bytes \<Rightarrow> u64 \<Rightarrow> u64 option" where
  "OPENSSL_strnlen s len = map_option of_nat (strnlen_loop (unat len) s 0)"

definition OPENSSL_strndup :: "(u64 \<Rightarrow> bool) \<Rightarrow> bytes \<Rightarrow> u64 \<Rightarrow> bytes option option" where
  "OPENSSL_strndup avail str sz = do {
     sz \<leftarrow> OPENSSL_strnlen str sz;
     let alloc_size = sz + 1;
     if alloc_size < sz then Some None
     else if \<not> OPENSSL_malloc avail alloc_size then Some None
     else do { s \<leftarrow> OPENSSL_memcpy str sz; Some (Some (s @ [0])) }
   }"

section \<open>Reading\<close>

definition CBS_init :: "bytes \<Rightarrow> u64 \<Rightarrow> CBS" where
  "CBS_init data len = \<lparr>cbs_data = data, cbs_len = len\<rparr>"

definition cbs_get :: "CBS \<Rightarrow> u64 \<Rightarrow> (bool \<times> CBS \<times> bytes) option" where
  "cbs_get cbs n =
     (if cbs_len cbs < n then Some (False, cbs, [])
      else do {
        data \<leftarrow> ptr_advance (cbs_data cbs) n;
        Some (True, cbs\<lparr>cbs_data := data, cbs_len := cbs_len cbs - n\<rparr>, cbs_data cbs)
      })"

definition CBS_skip :: "CBS \<Rightarrow> u64 \<Rightarrow> (bool \<times> CBS) option" where
  "CBS_skip cbs len = do { (ok, cbs, _) \<leftarrow> cbs_get cbs len; Some (ok, cbs) }"

definition CBS_data :: "CBS \<Rightarrow> bytes" where "CBS_data cbs = cbs_data cbs"

definition CBS_len :: "CBS \<Rightarrow> u64" where "CBS_len cbs = cbs_len cbs"

text \<open>The two outputs of \<open>CBS_stow\<close>: the copy, NULL when there is none, and its length.\<close>

definition CBS_stow :: "(u64 \<Rightarrow> bool) \<Rightarrow> CBS \<Rightarrow> (bool \<times> bytes option \<times> u64) option" where
  "CBS_stow avail cbs =
     (if cbs_len cbs = 0 then Some (True, None, 0)
      else do {
        out_ptr \<leftarrow> OPENSSL_memdup avail (cbs_data cbs) (cbs_len cbs);
        if out_ptr = None then Some (False, None, 0) else Some (True, out_ptr, cbs_len cbs)
      })"

definition CBS_strdup :: "(u64 \<Rightarrow> bool) \<Rightarrow> CBS \<Rightarrow> (bool \<times> bytes option) option" where
  "CBS_strdup avail cbs = do {
     out_ptr \<leftarrow> OPENSSL_strndup avail (cbs_data cbs) (cbs_len cbs);
     Some (out_ptr \<noteq> None, out_ptr)
   }"

definition CBS_contains_zero_byte :: "CBS \<Rightarrow> bool option" where
  "CBS_contains_zero_byte cbs = map_option (\<lambda>p. p \<noteq> None) (OPENSSL_memchr (cbs_data cbs) 0 (cbs_len cbs))"

definition CBS_mem_equal :: "CBS \<Rightarrow> bytes \<Rightarrow> u64 \<Rightarrow> bool option" where
  "CBS_mem_equal cbs data len =
     (if len \<noteq> cbs_len cbs then Some False
      else map_option (\<lambda>x. x = 0) (CRYPTO_memcmp (cbs_data cbs) data len))"

fun get_u_loop :: "nat \<Rightarrow> bytes \<Rightarrow> nat \<Rightarrow> u64 \<Rightarrow> u64 option" where
  "get_u_loop 0 data i result = Some result"
| "get_u_loop (Suc n) data i result = do {
     b \<leftarrow> byte_at data i;
     get_u_loop n data (Suc i) (push_bit 8 result OR ucast b)
   }"

definition cbs_get_u :: "CBS \<Rightarrow> u64 \<Rightarrow> u64 \<Rightarrow> (bool \<times> CBS \<times> u64) option" where
  "cbs_get_u cbs out len = do {
     (ok, cbs, data) \<leftarrow> cbs_get cbs len;
     if \<not> ok then Some (False, cbs, out)
     else do { result \<leftarrow> get_u_loop (unat len) data 0 0; Some (True, cbs, result) }
   }"

definition CBS_get_u8 :: "CBS \<Rightarrow> byte \<Rightarrow> (bool \<times> CBS \<times> byte) option" where
  "CBS_get_u8 cbs out = do {
     (ok, cbs, v) \<leftarrow> cbs_get cbs 1;
     if \<not> ok then Some (False, cbs, out)
     else do { b \<leftarrow> byte_at v 0; Some (True, cbs, b) }
   }"

definition CBS_get_u16 :: "CBS \<Rightarrow> u16 \<Rightarrow> (bool \<times> CBS \<times> u16) option" where
  "CBS_get_u16 cbs out = do {
     (ok, cbs, v) \<leftarrow> cbs_get_u cbs 0 2;
     if \<not> ok then Some (False, cbs, out) else Some (True, cbs, ucast v)
   }"

definition CBS_get_u24 :: "CBS \<Rightarrow> u32 \<Rightarrow> (bool \<times> CBS \<times> u32) option" where
  "CBS_get_u24 cbs out = do {
     (ok, cbs, v) \<leftarrow> cbs_get_u cbs 0 3;
     if \<not> ok then Some (False, cbs, out) else Some (True, cbs, ucast v)
   }"

definition CBS_get_u32 :: "CBS \<Rightarrow> u32 \<Rightarrow> (bool \<times> CBS \<times> u32) option" where
  "CBS_get_u32 cbs out = do {
     (ok, cbs, v) \<leftarrow> cbs_get_u cbs 0 4;
     if \<not> ok then Some (False, cbs, out) else Some (True, cbs, ucast v)
   }"

definition CBS_get_u64 :: "CBS \<Rightarrow> u64 \<Rightarrow> (bool \<times> CBS \<times> u64) option" where
  "CBS_get_u64 cbs out = cbs_get_u cbs out 8"

text \<open>\<open>__builtin_bswap\<close> reverses the bytes of a word.\<close>

definition CRYPTO_bswap2 :: "u16 \<Rightarrow> u16" where "CRYPTO_bswap2 x = le_word (rev (word_le_bytes 2 x))"

definition CRYPTO_bswap4 :: "u32 \<Rightarrow> u32" where "CRYPTO_bswap4 x = le_word (rev (word_le_bytes 4 x))"

definition CRYPTO_bswap8 :: "u64 \<Rightarrow> u64" where "CRYPTO_bswap8 x = le_word (rev (word_le_bytes 8 x))"

definition CBS_get_u16le :: "CBS \<Rightarrow> u16 \<Rightarrow> (bool \<times> CBS \<times> u16) option" where
  "CBS_get_u16le cbs out = do {
     (ok, cbs, out) \<leftarrow> CBS_get_u16 cbs out;
     if \<not> ok then Some (False, cbs, out) else Some (True, cbs, CRYPTO_bswap2 out)
   }"

definition CBS_get_u32le :: "CBS \<Rightarrow> u32 \<Rightarrow> (bool \<times> CBS \<times> u32) option" where
  "CBS_get_u32le cbs out = do {
     (ok, cbs, out) \<leftarrow> CBS_get_u32 cbs out;
     if \<not> ok then Some (False, cbs, out) else Some (True, cbs, CRYPTO_bswap4 out)
   }"

definition CBS_get_u64le :: "CBS \<Rightarrow> u64 \<Rightarrow> (bool \<times> CBS \<times> u64) option" where
  "CBS_get_u64le cbs out = do {
     (ok, cbs, out) \<leftarrow> cbs_get_u cbs out 8;
     if \<not> ok then Some (False, cbs, out) else Some (True, cbs, CRYPTO_bswap8 out)
   }"

definition CBS_get_last_u8 :: "CBS \<Rightarrow> byte \<Rightarrow> (bool \<times> CBS \<times> byte) option" where
  "CBS_get_last_u8 cbs out =
     (if cbs_len cbs = 0 then Some (False, cbs, out)
      else do {
        b \<leftarrow> byte_at (cbs_data cbs) (unat (cbs_len cbs - 1));
        Some (True, cbs\<lparr>cbs_len := cbs_len cbs - 1\<rparr>, b)
      })"

definition CBS_get_bytes :: "CBS \<Rightarrow> CBS \<Rightarrow> u64 \<Rightarrow> (bool \<times> CBS \<times> CBS) option" where
  "CBS_get_bytes cbs out len = do {
     (ok, cbs, v) \<leftarrow> cbs_get cbs len;
     if \<not> ok then Some (False, cbs, out) else Some (True, cbs, CBS_init v len)
   }"

text \<open>The buffer \<open>out\<close> of \<open>CBS_copy_bytes\<close> has room for \<open>len\<close> bytes.\<close>

definition CBS_copy_bytes :: "CBS \<Rightarrow> bytes \<Rightarrow> u64 \<Rightarrow> (bool \<times> CBS \<times> bytes) option" where
  "CBS_copy_bytes cbs out len = do {
     (ok, cbs, v) \<leftarrow> cbs_get cbs len;
     if \<not> ok then Some (False, cbs, out)
     else do { bs \<leftarrow> OPENSSL_memcpy v len; Some (True, cbs, bs @ drop (unat len) out) }
   }"

definition cbs_get_length_prefixed :: "CBS \<Rightarrow> CBS \<Rightarrow> u64 \<Rightarrow> (bool \<times> CBS \<times> CBS) option" where
  "cbs_get_length_prefixed cbs out len_len = do {
     (ok, cbs, len) \<leftarrow> cbs_get_u cbs 0 len_len;
     if \<not> ok then Some (False, cbs, out) else CBS_get_bytes cbs out len
   }"

definition CBS_get_u8_length_prefixed :: "CBS \<Rightarrow> CBS \<Rightarrow> (bool \<times> CBS \<times> CBS) option" where
  "CBS_get_u8_length_prefixed cbs out = cbs_get_length_prefixed cbs out 1"

definition CBS_get_u16_length_prefixed :: "CBS \<Rightarrow> CBS \<Rightarrow> (bool \<times> CBS \<times> CBS) option" where
  "CBS_get_u16_length_prefixed cbs out = cbs_get_length_prefixed cbs out 2"

definition CBS_get_u24_length_prefixed :: "CBS \<Rightarrow> CBS \<Rightarrow> (bool \<times> CBS \<times> CBS) option" where
  "CBS_get_u24_length_prefixed cbs out = cbs_get_length_prefixed cbs out 3"

definition CBS_get_until_first :: "CBS \<Rightarrow> CBS \<Rightarrow> byte \<Rightarrow> (bool \<times> CBS \<times> CBS) option" where
  "CBS_get_until_first cbs out c = do {
     split \<leftarrow> OPENSSL_memchr (CBS_data cbs) c (CBS_len cbs);
     case split of
       None \<Rightarrow> Some (False, cbs, out)
     | Some i \<Rightarrow> CBS_get_bytes cbs out (of_nat i)
   }"

section \<open>Tags and elements\<close>

definition CBS_ASN1_TAG_SHIFT :: nat where "CBS_ASN1_TAG_SHIFT = 24"

definition CBS_ASN1_CONSTRUCTED :: u32 where "CBS_ASN1_CONSTRUCTED = push_bit CBS_ASN1_TAG_SHIFT 0x20"

definition CBS_ASN1_TAG_NUMBER_MASK :: u32 where "CBS_ASN1_TAG_NUMBER_MASK = push_bit (5 + CBS_ASN1_TAG_SHIFT) 1 - 1"

definition CBS_ASN1_BOOLEAN :: u32 where "CBS_ASN1_BOOLEAN = 0x1"

definition CBS_ASN1_INTEGER :: u32 where "CBS_ASN1_INTEGER = 0x2"

definition CBS_ASN1_OCTETSTRING :: u32 where "CBS_ASN1_OCTETSTRING = 0x4"

text \<open>
  \<open>parse_base128_integer\<close>: its loop reads a byte in every round, so one more round than there are bytes
  is enough.
\<close>

fun base128_loop :: "nat \<Rightarrow> CBS \<Rightarrow> u64 \<Rightarrow> u64 \<Rightarrow> (bool \<times> CBS \<times> u64) option" where
  "base128_loop 0 cbs v out = None"
| "base128_loop (Suc n) cbs v out = do {
     (ok, cbs, b) \<leftarrow> CBS_get_u8 cbs 0;
     if \<not> ok then Some (False, cbs, out)
     else if drop_bit (64 - 7) v \<noteq> 0 then Some (False, cbs, out)
     else if v = 0 \<and> b = 0x80 then Some (False, cbs, out)
     else
       let v = push_bit 7 v OR ucast (b AND 0x7f)
       in if b AND 0x80 \<noteq> 0 then base128_loop n cbs v out else Some (True, cbs, v)
   }"

definition parse_base128_integer :: "CBS \<Rightarrow> u64 \<Rightarrow> (bool \<times> CBS \<times> u64) option" where
  "parse_base128_integer cbs out = base128_loop (Suc (unat (cbs_len cbs))) cbs 0 out"

definition parse_asn1_tag :: "CBS \<Rightarrow> u32 \<Rightarrow> (bool \<times> CBS \<times> u32) option" where
  "parse_asn1_tag cbs out = do {
     (ok, cbs, tag_byte) \<leftarrow> CBS_get_u8 cbs 0;
     if \<not> ok then Some (False, cbs, out)
     else do {
       let tag = push_bit CBS_ASN1_TAG_SHIFT (ucast tag_byte AND 0xe0);
       let tag_number = ucast (tag_byte AND 0x1f);
       if tag_number = 0x1f then do {
         (ok, cbs, v) \<leftarrow> parse_base128_integer cbs 0;
         if \<not> ok \<or> v > ucast CBS_ASN1_TAG_NUMBER_MASK \<or> v < 0x1f then Some (False, cbs, out)
         else Some (True, cbs, tag OR ucast v)
       }
       else Some (True, cbs, tag OR tag_number)
     }
   }"

text \<open>The outputs of \<open>cbs_get_any_asn1_element\<close>; a caller that passes NULL for one ignores it here.\<close>

record element_out =
  eo_out :: CBS
  eo_tag :: u32
  eo_header_len :: u64
  eo_ber_found :: bool

definition get_element :: "CBS \<Rightarrow> element_out \<Rightarrow> u64 \<Rightarrow> (bool \<times> CBS \<times> element_out) option" where
  "get_element cbs eo len = do {
     (ok, cbs, out) \<leftarrow> CBS_get_bytes cbs (eo_out eo) len;
     Some (ok, cbs, eo\<lparr>eo_out := out\<rparr>)
   }"

definition long_form_element :: "CBS \<Rightarrow> CBS \<Rightarrow> element_out \<Rightarrow> u64 \<Rightarrow> u64 \<Rightarrow> bool \<Rightarrow> (bool \<times> CBS \<times> element_out) option" where
  "long_form_element cbs header eo header_len num_bytes ber_ok =
     (if ber_ok \<and> eo_tag eo AND CBS_ASN1_CONSTRUCTED \<noteq> 0 \<and> num_bytes = 0
      then get_element cbs (eo\<lparr>eo_header_len := header_len, eo_ber_found := True\<rparr>) header_len
      else if num_bytes = 0 \<or> num_bytes > 4 then Some (False, cbs, eo)
      else do {
        (ok, header, len64) \<leftarrow> cbs_get_u header 0 num_bytes;
        if \<not> ok then Some (False, cbs, eo)
        else if len64 < 128 \<and> \<not> ber_ok then Some (False, cbs, eo)
        else do {
          let eo = (if len64 < 128 then eo\<lparr>eo_ber_found := True\<rparr> else eo);
          if drop_bit (unat ((num_bytes - 1) * 8)) len64 = 0 \<and> \<not> ber_ok then Some (False, cbs, eo)
          else do {
            let eo = (if drop_bit (unat ((num_bytes - 1) * 8)) len64 = 0 then eo\<lparr>eo_ber_found := True\<rparr> else eo);
            let len = len64;
            if len + header_len + num_bytes < len then Some (False, cbs, eo)
            else get_element cbs (eo\<lparr>eo_header_len := header_len + num_bytes\<rparr>) (len + (header_len + num_bytes))
          }
        }
      })"

definition cbs_get_any_asn1_element :: "CBS \<Rightarrow> element_out \<Rightarrow> bool \<Rightarrow> (bool \<times> CBS \<times> element_out) option" where
  "cbs_get_any_asn1_element cbs eo ber_ok = do {
     let eo = (if ber_ok then eo\<lparr>eo_ber_found := False\<rparr> else eo);
     (ok, header, tag) \<leftarrow> parse_asn1_tag cbs 0;
     if \<not> ok then Some (False, cbs, eo)
     else do {
       let eo = eo\<lparr>eo_tag := tag\<rparr>;
       (ok, header, length_byte) \<leftarrow> CBS_get_u8 header 0;
       if \<not> ok then Some (False, cbs, eo)
       else
         let header_len = CBS_len cbs - CBS_len header
         in if length_byte AND 0x80 = 0
            then get_element cbs (eo\<lparr>eo_header_len := header_len\<rparr>) (ucast length_byte + header_len)
            else long_form_element cbs header eo header_len (ucast (length_byte AND 0x7f)) ber_ok
     }
   }"

definition CBS_get_any_asn1_element :: "CBS \<Rightarrow> element_out \<Rightarrow> (bool \<times> CBS \<times> element_out) option" where
  "CBS_get_any_asn1_element cbs eo = cbs_get_any_asn1_element cbs eo False"

definition CBS_get_any_ber_asn1_element :: "CBS \<Rightarrow> element_out \<Rightarrow> (bool \<times> CBS \<times> element_out) option" where
  "CBS_get_any_ber_asn1_element cbs eo = cbs_get_any_asn1_element cbs eo True"

text \<open>The outputs of a function that has only \<open>out\<close> and \<open>out_tag\<close>, and of one that has only \<open>out\<close>.\<close>

definition no_element :: "CBS \<Rightarrow> element_out" where
  "no_element out = \<lparr>eo_out = out, eo_tag = 0, eo_header_len = 0, eo_ber_found = False\<rparr>"

definition CBS_get_any_asn1 :: "CBS \<Rightarrow> CBS \<Rightarrow> u32 \<Rightarrow> (bool \<times> CBS \<times> CBS \<times> u32) option" where
  "CBS_get_any_asn1 cbs out out_tag = do {
     (ok, cbs, eo) \<leftarrow> CBS_get_any_asn1_element cbs ((no_element out)\<lparr>eo_tag := out_tag\<rparr>);
     if \<not> ok then Some (False, cbs, eo_out eo, eo_tag eo)
     else do {
       (ok, out) \<leftarrow> CBS_skip (eo_out eo) (eo_header_len eo);
       Some (ok, cbs, out, eo_tag eo)
     }
   }"

definition cbs_get_asn1 :: "CBS \<Rightarrow> CBS \<Rightarrow> u32 \<Rightarrow> bool \<Rightarrow> (bool \<times> CBS \<times> CBS) option" where
  "cbs_get_asn1 cbs out tag_value skip_header = do {
     (ok, cbs, eo) \<leftarrow> CBS_get_any_asn1_element cbs (no_element out);
     if \<not> ok \<or> eo_tag eo \<noteq> tag_value then Some (False, cbs, eo_out eo)
     else if skip_header then do {
       (ok, out) \<leftarrow> CBS_skip (eo_out eo) (eo_header_len eo);
       Some (ok, cbs, out)
     }
     else Some (True, cbs, eo_out eo)
   }"

definition CBS_get_asn1 :: "CBS \<Rightarrow> CBS \<Rightarrow> u32 \<Rightarrow> (bool \<times> CBS \<times> CBS) option" where
  "CBS_get_asn1 cbs out tag_value = cbs_get_asn1 cbs out tag_value True"

definition CBS_get_asn1_element :: "CBS \<Rightarrow> CBS \<Rightarrow> u32 \<Rightarrow> (bool \<times> CBS \<times> CBS) option" where
  "CBS_get_asn1_element cbs out tag_value = cbs_get_asn1 cbs out tag_value False"

definition CBS_peek_asn1_tag :: "CBS \<Rightarrow> u32 \<Rightarrow> bool option" where
  "CBS_peek_asn1_tag cbs tag_value =
     (if CBS_len cbs < 1 then Some False
      else do {
        (ok, _, actual_tag) \<leftarrow> parse_asn1_tag cbs 0;
        Some (ok \<and> tag_value = actual_tag)
      })"

section \<open>Integers, truth values and bit strings\<close>

definition CBS_is_valid_asn1_integer :: "CBS \<Rightarrow> bool \<Rightarrow> (bool \<times> bool) option" where
  "CBS_is_valid_asn1_integer cbs out_is_negative = do {
     (ok, copy, first_byte) \<leftarrow> CBS_get_u8 cbs 0;
     if \<not> ok then Some (False, out_is_negative)
     else do {
       let out_is_negative = (first_byte AND 0x80 \<noteq> 0);
       (ok, copy, second_byte) \<leftarrow> CBS_get_u8 copy 0;
       if \<not> ok then Some (True, out_is_negative)
       else if first_byte = 0x00 \<and> second_byte AND 0x80 = 0 \<or> first_byte = 0xff \<and> second_byte AND 0x80 \<noteq> 0
       then Some (False, out_is_negative)
       else Some (True, out_is_negative)
     }
   }"

definition CBS_is_unsigned_asn1_integer :: "CBS \<Rightarrow> bool option" where
  "CBS_is_unsigned_asn1_integer cbs = do {
     (ok, is_negative) \<leftarrow> CBS_is_valid_asn1_integer cbs False;
     Some (ok \<and> \<not> is_negative)
   }"

fun uint64_loop :: "nat \<Rightarrow> bytes \<Rightarrow> nat \<Rightarrow> u64 \<Rightarrow> (bool \<times> u64) option" where
  "uint64_loop 0 data i out = Some (True, out)"
| "uint64_loop (Suc n) data i out =
     (if drop_bit 56 out \<noteq> 0 then Some (False, out)
      else do {
        b \<leftarrow> byte_at data i;
        uint64_loop n data (Suc i) (push_bit 8 out OR ucast b)
      })"

definition CBS_get_asn1_uint64 :: "CBS \<Rightarrow> u64 \<Rightarrow> (bool \<times> CBS \<times> u64) option" where
  "CBS_get_asn1_uint64 cbs out = do {
     (ok, cbs, bytes) \<leftarrow> CBS_get_asn1 cbs (CBS_init [] 0) CBS_ASN1_INTEGER;
     if \<not> ok then Some (False, cbs, out)
     else do {
       ok \<leftarrow> CBS_is_unsigned_asn1_integer bytes;
       if \<not> ok then Some (False, cbs, out)
       else do {
         (ok, out) \<leftarrow> uint64_loop (unat (CBS_len bytes)) (CBS_data bytes) 0 0;
         Some (ok, cbs, out)
       }
     }
   }"

text \<open>The loop \<open>u.bytes[i] = data[len - i - 1]\<close>; the union reads the bytes as a little-endian number.\<close>

fun int64_loop :: "nat \<Rightarrow> bytes \<Rightarrow> nat \<Rightarrow> nat \<Rightarrow> bytes \<Rightarrow> bytes option" where
  "int64_loop 0 data len i u = Some u"
| "int64_loop (Suc n) data len i u = do {
     b \<leftarrow> byte_at data (len - i - 1);
     int64_loop n data len (Suc i) (u[i := b])
   }"

definition CBS_get_asn1_int64 :: "CBS \<Rightarrow> u64 \<Rightarrow> (bool \<times> CBS \<times> u64) option" where
  "CBS_get_asn1_int64 cbs out = do {
     (ok, cbs, bytes) \<leftarrow> CBS_get_asn1 cbs (CBS_init [] 0) CBS_ASN1_INTEGER;
     if \<not> ok then Some (False, cbs, out)
     else do {
       (ok, is_negative) \<leftarrow> CBS_is_valid_asn1_integer bytes False;
       if \<not> ok then Some (False, cbs, out)
       else if CBS_len bytes > 8 then Some (False, cbs, out)
       else do {
         let len = unat (CBS_len bytes);
         u \<leftarrow> int64_loop len (CBS_data bytes) len 0 (replicate 8 (if is_negative then 0xff else 0));
         Some (True, cbs, le_word u)
       }
     }
   }"

definition CBS_get_asn1_bool :: "CBS \<Rightarrow> bool \<Rightarrow> (bool \<times> CBS \<times> bool) option" where
  "CBS_get_asn1_bool cbs out = do {
     (ok, cbs, bytes) \<leftarrow> CBS_get_asn1 cbs (CBS_init [] 0) CBS_ASN1_BOOLEAN;
     if \<not> ok \<or> CBS_len bytes \<noteq> 1 then Some (False, cbs, out)
     else do {
       value \<leftarrow> byte_at (CBS_data bytes) 0;
       if value \<noteq> 0 \<and> value \<noteq> 0xff then Some (False, cbs, out) else Some (True, cbs, value \<noteq> 0)
     }
   }"

definition CBS_get_optional_asn1 :: "CBS \<Rightarrow> CBS \<Rightarrow> bool \<Rightarrow> u32 \<Rightarrow> (bool \<times> CBS \<times> CBS \<times> bool) option" where
  "CBS_get_optional_asn1 cbs out out_present tag = do {
     peek \<leftarrow> CBS_peek_asn1_tag cbs tag;
     if peek then do {
       (ok, cbs, out) \<leftarrow> CBS_get_asn1 cbs out tag;
       if \<not> ok then Some (False, cbs, out, out_present) else Some (True, cbs, out, True)
     }
     else Some (True, cbs, out, False)
   }"

definition CBS_get_optional_asn1_octet_string ::
  "CBS \<Rightarrow> CBS \<Rightarrow> bool \<Rightarrow> u32 \<Rightarrow> (bool \<times> CBS \<times> CBS \<times> bool) option" where
  "CBS_get_optional_asn1_octet_string cbs out out_present tag = do {
     (ok, cbs, child, present) \<leftarrow> CBS_get_optional_asn1 cbs (CBS_init [] 0) False tag;
     if \<not> ok then Some (False, cbs, out, out_present)
     else if present then do {
       (ok, child, out) \<leftarrow> CBS_get_asn1 child out CBS_ASN1_OCTETSTRING;
       if \<not> ok \<or> CBS_len child \<noteq> 0 then Some (False, cbs, out, out_present)
       else Some (True, cbs, out, present)
     }
     else Some (True, cbs, CBS_init [] 0, present)
   }"

definition CBS_get_optional_asn1_uint64 :: "CBS \<Rightarrow> u64 \<Rightarrow> u32 \<Rightarrow> u64 \<Rightarrow> (bool \<times> CBS \<times> u64) option" where
  "CBS_get_optional_asn1_uint64 cbs out tag default_value = do {
     (ok, cbs, child, present) \<leftarrow> CBS_get_optional_asn1 cbs (CBS_init [] 0) False tag;
     if \<not> ok then Some (False, cbs, out)
     else if present then do {
       (ok, child, out) \<leftarrow> CBS_get_asn1_uint64 child out;
       Some (ok \<and> CBS_len child = 0, cbs, out)
     }
     else Some (True, cbs, default_value)
   }"

definition CBS_get_optional_asn1_bool :: "CBS \<Rightarrow> bool \<Rightarrow> u32 \<Rightarrow> bool \<Rightarrow> (bool \<times> CBS \<times> bool) option" where
  "CBS_get_optional_asn1_bool cbs out tag default_value = do {
     (ok, cbs, child, present) \<leftarrow> CBS_get_optional_asn1 cbs (CBS_init [] 0) False tag;
     if \<not> ok then Some (False, cbs, out)
     else if present then do {
       (ok, child, child2) \<leftarrow> CBS_get_asn1 child (CBS_init [] 0) CBS_ASN1_BOOLEAN;
       if \<not> ok \<or> CBS_len child2 \<noteq> 1 \<or> CBS_len child \<noteq> 0 then Some (False, cbs, out)
       else do {
         boolean \<leftarrow> byte_at (CBS_data child2) 0;
         if boolean = 0 then Some (True, cbs, False)
         else if boolean = 0xff then Some (True, cbs, True)
         else Some (False, cbs, out)
       }
     }
     else Some (True, cbs, default_value)
   }"

definition CBS_is_valid_asn1_bitstring :: "CBS \<Rightarrow> bool option" where
  "CBS_is_valid_asn1_bitstring cbs = do {
     (ok, cbs', num_unused_bits) \<leftarrow> CBS_get_u8 cbs 0;
     if \<not> ok \<or> num_unused_bits > 7 then Some False
     else if num_unused_bits = 0 then Some True
     else do {
       (ok, _, last_byte) \<leftarrow> CBS_get_last_u8 cbs' 0;
       Some (ok \<and> last_byte AND (push_bit (unat num_unused_bits) 1 - 1) = 0)
     }
   }"

definition CBS_asn1_bitstring_has_bit :: "CBS \<Rightarrow> u32 \<Rightarrow> bool option" where
  "CBS_asn1_bitstring_has_bit cbs bit_index = do {
     valid \<leftarrow> CBS_is_valid_asn1_bitstring cbs;
     if \<not> valid then Some False
     else do {
       let byte_num = drop_bit 3 bit_index + 1;
       let bit_num = 7 - (bit_index AND 7);
       if ucast byte_num < CBS_len cbs then do {
         b \<leftarrow> byte_at (CBS_data cbs) (unat byte_num);
         Some (b AND push_bit (unat bit_num) 1 \<noteq> 0)
       }
       else Some False
     }
   }"

section \<open>Unicode\<close>

definition is_valid_code_point :: "u32 \<Rightarrow> bool" where
  "is_valid_code_point v =
     (if v > 0x10ffff \<or> v AND 0xfffe = 0xfffe \<or> (v \<ge> 0xfdd0 \<and> v \<le> 0xfdef) \<or> (v \<ge> 0xd800 \<and> v \<le> 0xdfff)
      then False else True)"

definition BOTTOM_BITS :: "nat \<Rightarrow> byte" where "BOTTOM_BITS n = push_bit n 1 - 1"

definition TOP_BITS :: "nat \<Rightarrow> byte" where "TOP_BITS n = NOT (BOTTOM_BITS (8 - n))"

fun utf8_rest :: "nat \<Rightarrow> CBS \<Rightarrow> u32 \<Rightarrow> (bool \<times> CBS \<times> u32) option" where
  "utf8_rest 0 cbs v = Some (True, cbs, v)"
| "utf8_rest (Suc n) cbs v = do {
     (ok, cbs, c) \<leftarrow> CBS_get_u8 cbs 0;
     if \<not> ok \<or> c AND TOP_BITS 2 \<noteq> TOP_BITS 1 then Some (False, cbs, v)
     else utf8_rest n cbs (push_bit 6 v OR ucast (c AND BOTTOM_BITS 6))
   }"

definition cbs_get_utf8 :: "CBS \<Rightarrow> u32 \<Rightarrow> (bool \<times> CBS \<times> u32) option" where
  "cbs_get_utf8 cbs out = do {
     (ok, cbs, c) \<leftarrow> CBS_get_u8 cbs 0;
     if \<not> ok then Some (False, cbs, out)
     else if c \<le> 0x7f then Some (True, cbs, ucast c)
     else
       let lead =
         (if c AND TOP_BITS 3 = TOP_BITS 2 then Some (ucast (c AND BOTTOM_BITS 5), 1, 0x80)
          else if c AND TOP_BITS 4 = TOP_BITS 3 then Some (ucast (c AND BOTTOM_BITS 4), 2, 0x800)
          else if c AND TOP_BITS 5 = TOP_BITS 4 then Some (ucast (c AND BOTTOM_BITS 3), 3, 0x10000)
          else None)
       in case lead of
         None \<Rightarrow> Some (False, cbs, out)
       | Some (v, len, lower_bound) \<Rightarrow> do {
           (ok, cbs, v) \<leftarrow> utf8_rest len cbs v;
           if \<not> ok then Some (False, cbs, out)
           else if \<not> is_valid_code_point v \<or> v < lower_bound then Some (False, cbs, out)
           else Some (True, cbs, v)
         }
   }"

definition cbs_get_latin1 :: "CBS \<Rightarrow> u32 \<Rightarrow> (bool \<times> CBS \<times> u32) option" where
  "cbs_get_latin1 cbs out = do {
     (ok, cbs, c) \<leftarrow> CBS_get_u8 cbs 0;
     if \<not> ok then Some (False, cbs, out) else Some (True, cbs, ucast c)
   }"

definition cbs_get_ucs2_be :: "CBS \<Rightarrow> u32 \<Rightarrow> (bool \<times> CBS \<times> u32) option" where
  "cbs_get_ucs2_be cbs out = do {
     (ok, cbs, c) \<leftarrow> CBS_get_u16 cbs 0;
     if \<not> ok \<or> \<not> is_valid_code_point (ucast c) then Some (False, cbs, out) else Some (True, cbs, ucast c)
   }"

definition cbs_get_utf32_be :: "CBS \<Rightarrow> u32 \<Rightarrow> (bool \<times> CBS \<times> u32) option" where
  "cbs_get_utf32_be cbs out = do {
     (ok, cbs, out) \<leftarrow> CBS_get_u32 cbs out;
     Some (ok \<and> is_valid_code_point out, cbs, out)
   }"

end
