(* ===== verification/Cbb.thy ===== *)
theory Cbb
  imports Cbs
begin

text \<open>
  BoringSSL, \<^verbatim>\<open>ios/Pods/BoringSSL-GRPC/src/crypto/bytestring/cbb.c\<close>, with the parts of \<^verbatim>\<open>cbs.c\<close>, \<^verbatim>\<open>unicode.c\<close> and
  \<^verbatim>\<open>asn1_compat.c\<close> that write: a buffer that grows, and builders for length-prefixed data nested in it,
  whose lengths are filled in when they are flushed.
\<close>

section \<open>Buffers\<close>

text \<open>
  Memory is a parameter: \<open>env_avail\<close> says for which sizes \<open>malloc\<close> succeeds, \<open>env_junk\<close> what a new block
  holds.  \<open>bb_buf\<close> is the whole block that \<open>buf\<close> points to, \<open>cap\<close> bytes, and \<^term>\<open>[]\<close> for NULL.
\<close>

record cbb_env =
  env_avail :: "u64 \<Rightarrow> bool"
  env_junk :: "nat \<Rightarrow> byte"

record cbb_buffer_st =
  bb_buf :: bytes
  bb_len :: u64
  bb_cap :: u64
  bb_can_resize :: bool
  bb_error :: bool

text \<open>The bytes of a block of \<open>n\<close> bytes, \<^term>\<open>None\<close> for NULL.\<close>

definition new_block :: "cbb_env \<Rightarrow> u64 \<Rightarrow> bytes option" where
  "new_block env n = (if OPENSSL_malloc (env_avail env) n then Some (map (env_junk env) [0..<unat n]) else None)"

definition OPENSSL_realloc :: "cbb_env \<Rightarrow> bytes \<Rightarrow> u64 \<Rightarrow> bytes option" where
  "OPENSSL_realloc env old new_size = do {
     ret \<leftarrow> new_block env new_size;
     let to_copy = min (length old) (unat new_size);
     Some (take to_copy old @ drop to_copy ret)
   }"

definition buf_store :: "bytes \<Rightarrow> nat \<Rightarrow> bytes \<Rightarrow> bytes option" where
  "buf_store buf i bs =
     (if i + length bs \<le> length buf then Some (take i buf @ bs @ drop (i + length bs) buf) else None)"

text \<open>The result is the success, the buffer, and \<open>*out\<close> as an index into the block.\<close>

definition cbb_buffer_reserve :: "cbb_env \<Rightarrow> cbb_buffer_st \<Rightarrow> u64 \<Rightarrow> bool \<times> cbb_buffer_st \<times> u64" where
  "cbb_buffer_reserve env base len =
     (let newlen = bb_len base + len in
      if newlen < bb_len base then (False, base\<lparr>bb_error := True\<rparr>, 0)
      else if newlen > bb_cap base then
        if \<not> bb_can_resize base then (False, base\<lparr>bb_error := True\<rparr>, 0)
        else
          let newcap = bb_cap base * 2;
              newcap = (if newcap < bb_cap base \<or> newcap < newlen then newlen else newcap)
          in case OPENSSL_realloc env (bb_buf base) newcap of
               None \<Rightarrow> (False, base\<lparr>bb_error := True\<rparr>, 0)
             | Some newbuf \<Rightarrow> (True, base\<lparr>bb_buf := newbuf, bb_cap := newcap\<rparr>, bb_len base)
      else (True, base, bb_len base))"

definition cbb_buffer_add :: "cbb_env \<Rightarrow> cbb_buffer_st \<Rightarrow> u64 \<Rightarrow> bool \<times> cbb_buffer_st \<times> u64" where
  "cbb_buffer_add env base len =
     (let (ok, base, out) = cbb_buffer_reserve env base len in
      if \<not> ok then (False, base, out) else (True, base\<lparr>bb_len := bb_len base + len\<rparr>, out))"

text \<open>The loops that write a number from its last byte to its first; the rest of the number is left over.\<close>

fun store_be_loop :: "nat \<Rightarrow> bytes \<Rightarrow> nat \<Rightarrow> u64 \<Rightarrow> (bytes \<times> u64) option" where
  "store_be_loop 0 buf off v = Some (buf, v)"
| "store_be_loop (Suc i) buf off v = do {
     buf \<leftarrow> buf_store buf (off + i) [ucast v];
     store_be_loop i buf off (drop_bit 8 v)
   }"

definition cbb_buffer_add_u :: "cbb_env \<Rightarrow> cbb_buffer_st \<Rightarrow> u64 \<Rightarrow> u64 \<Rightarrow> (bool \<times> cbb_buffer_st) option" where
  "cbb_buffer_add_u env base v len_len =
     (if len_len = 0 then Some (True, base)
      else
        let (ok, base, out) = cbb_buffer_add env base len_len in
        if \<not> ok then Some (False, base)
        else do {
          (buf, v) \<leftarrow> store_be_loop (unat len_len) (bb_buf base) (unat out) v;
          let base = base\<lparr>bb_buf := buf\<rparr>;
          if v \<noteq> 0 then Some (False, base\<lparr>bb_error := True\<rparr>) else Some (True, base)
        })"

section \<open>The store of builders\<close>

text \<open>
  Builders point to each other and to their buffer, so they live in a store: a \<open>CBB *\<close> is an index of
  \<open>st_cbbs\<close>, a \<open>struct cbb_buffer_st *\<close> one of \<open>st_bases\<close>, where a freed buffer is \<^term>\<open>None\<close>.  A local variable is
  the last builder of the store as long as its function runs.
\<close>

record CBB =
  cbb_base :: "nat option"
  cbb_child :: "nat option"
  cbb_offset :: u64
  cbb_pending_len_len :: byte
  cbb_pending_is_asn1 :: bool
  cbb_is_child :: bool

record cbb_store =
  st_cbbs :: "CBB list"
  st_bases :: "cbb_buffer_st option list"

definition zero_cbb :: CBB where
  "zero_cbb = \<lparr>cbb_base = None, cbb_child = None, cbb_offset = 0, cbb_pending_len_len = 0,
     cbb_pending_is_asn1 = False, cbb_is_child = False\<rparr>"

definition get_cbb :: "cbb_store \<Rightarrow> nat \<Rightarrow> CBB option" where
  "get_cbb st c = (if c < length (st_cbbs st) then Some (st_cbbs st ! c) else None)"

definition set_cbb :: "nat \<Rightarrow> CBB \<Rightarrow> cbb_store \<Rightarrow> cbb_store" where
  "set_cbb c cbb st = st\<lparr>st_cbbs := (st_cbbs st)[c := cbb]\<rparr>"

definition get_base :: "cbb_store \<Rightarrow> nat \<Rightarrow> cbb_buffer_st option" where
  "get_base st b = (if b < length (st_bases st) then st_bases st ! b else None)"

definition set_base :: "nat \<Rightarrow> cbb_buffer_st \<Rightarrow> cbb_store \<Rightarrow> cbb_store" where
  "set_base b base st = st\<lparr>st_bases := (st_bases st)[b := Some base]\<rparr>"

text \<open>\<open>cbb->base\<close> as a pointer and the buffer it points to.\<close>

definition base_of :: "cbb_store \<Rightarrow> nat \<Rightarrow> (nat \<times> cbb_buffer_st) option" where
  "base_of st c = do { cbb \<leftarrow> get_cbb st c; b \<leftarrow> cbb_base cbb; base \<leftarrow> get_base st b; Some (b, base) }"

definition with_cbb :: "(nat \<Rightarrow> cbb_store \<Rightarrow> ('a \<times> cbb_store) option) \<Rightarrow> cbb_store \<Rightarrow> ('a \<times> cbb_store) option" where
  "with_cbb f st = do {
     (r, st') \<leftarrow> f (length (st_cbbs st)) (st\<lparr>st_cbbs := st_cbbs st @ [zero_cbb]\<rparr>);
     Some (r, st'\<lparr>st_cbbs := take (length (st_cbbs st)) (st_cbbs st')\<rparr>)
   }"

definition CBB_zero :: "nat \<Rightarrow> cbb_store \<Rightarrow> cbb_store option" where
  "CBB_zero c st = do { _ \<leftarrow> get_cbb st c; Some (set_cbb c zero_cbb st) }"

text \<open>\<open>cap\<close> is the capacity the caller states, \<open>buf\<close> the block.\<close>

definition cbb_init :: "cbb_env \<Rightarrow> nat \<Rightarrow> bytes \<Rightarrow> u64 \<Rightarrow> bool \<Rightarrow> cbb_store \<Rightarrow> (bool \<times> cbb_store) option" where
  "cbb_init env c buf cap can_resize st = do {
     cbb \<leftarrow> get_cbb st c;
     if \<not> OPENSSL_malloc (env_avail env) 32 then Some (False, st)
     else
       let base = \<lparr>bb_buf = buf, bb_len = 0, bb_cap = cap, bb_can_resize = can_resize, bb_error = False\<rparr>;
           b = length (st_bases st)
       in Some (True, set_cbb c (cbb\<lparr>cbb_base := Some b, cbb_is_child := False\<rparr>)
            (st\<lparr>st_bases := st_bases st @ [Some base]\<rparr>))
   }"

definition CBB_init :: "cbb_env \<Rightarrow> nat \<Rightarrow> u64 \<Rightarrow> cbb_store \<Rightarrow> (bool \<times> cbb_store) option" where
  "CBB_init env c initial_capacity st = do {
     st \<leftarrow> CBB_zero c st;
     let buf = new_block env initial_capacity;
     if initial_capacity > 0 \<and> buf = None then Some (False, st)
     else cbb_init env c (case buf of None \<Rightarrow> [] | Some buf \<Rightarrow> buf) initial_capacity True st
   }"

text \<open>\<open>cbb_init\<close> followed by \<open>can_resize = 0\<close>.\<close>

definition CBB_init_fixed :: "cbb_env \<Rightarrow> nat \<Rightarrow> bytes \<Rightarrow> u64 \<Rightarrow> cbb_store \<Rightarrow> (bool \<times> cbb_store) option" where
  "CBB_init_fixed env c buf len st = do {
     st \<leftarrow> CBB_zero c st;
     cbb_init env c buf len False st
   }"

definition CBB_cleanup :: "nat \<Rightarrow> cbb_store \<Rightarrow> cbb_store option" where
  "CBB_cleanup c st = do {
     cbb \<leftarrow> get_cbb st c;
     if cbb_is_child cbb then Some st
     else case cbb_base cbb of
       None \<Rightarrow> Some st
     | Some b \<Rightarrow> do {
         _ \<leftarrow> get_base st b;
         Some (set_cbb c (cbb\<lparr>cbb_base := None\<rparr>) (st\<lparr>st_bases := (st_bases st)[b := None]\<rparr>))
       }
   }"

section \<open>Flushing\<close>

definition flush_err :: "nat \<Rightarrow> cbb_buffer_st \<Rightarrow> cbb_store \<Rightarrow> (bool \<times> cbb_store) option" where
  "flush_err b base st = Some (False, set_base b (base\<lparr>bb_error := True\<rparr>) st)"

text \<open>How many bytes the length of an ASN.1 element takes, its first byte, and what is left to write.\<close>

definition asn1_length_form :: "u64 \<Rightarrow> byte \<times> byte \<times> u64" where
  "asn1_length_form len =
     (if len > 0xffffff then (5, 0x80 OR 4, len)
      else if len > 0xffff then (4, 0x80 OR 3, len)
      else if len > 0xff then (3, 0x80 OR 2, len)
      else if len > 0x7f then (2, 0x80 OR 1, len)
      else (1, ucast len, 0))"

text \<open>The buffer and the child after the first length byte; \<^term>\<open>False\<close> is \<open>goto err\<close>.\<close>

definition flush_asn1 ::
  "cbb_env \<Rightarrow> cbb_buffer_st \<Rightarrow> CBB \<Rightarrow> u64 \<Rightarrow> u64 \<Rightarrow> (bool \<times> cbb_buffer_st \<times> CBB \<times> u64) option" where
  "flush_asn1 env base child child_start len =
     (if len > 0xfffffffe then Some (False, base, child, len)
      else do {
        let (len_len, initial_length_byte, len) = asn1_length_form len;
        let extra_bytes = ucast (len_len - 1);
        (ok, base) \<leftarrow>
          (if len_len \<noteq> 1 then
             let (ok, base, _) = cbb_buffer_add env base extra_bytes in
             if \<not> ok then Some (False, base)
             else do {
               moved \<leftarrow> OPENSSL_memcpy (drop (unat child_start) (bb_buf base)) len;
               buf \<leftarrow> buf_store (bb_buf base) (unat (child_start + extra_bytes)) moved;
               Some (True, base\<lparr>bb_buf := buf\<rparr>)
             }
           else Some (True, base));
        if \<not> ok then Some (False, base, child, len)
        else do {
          buf \<leftarrow> buf_store (bb_buf base) (unat (cbb_offset child)) [initial_length_byte];
          Some (True, base\<lparr>bb_buf := buf\<rparr>,
            child\<lparr>cbb_offset := cbb_offset child + 1, cbb_pending_len_len := len_len - 1\<rparr>, len)
        }
      })"

text \<open>What \<open>CBB_flush\<close> does after the child was flushed with result \<open>ok\<close>.\<close>

definition flush_child ::
  "cbb_env \<Rightarrow> nat \<Rightarrow> nat \<Rightarrow> nat \<Rightarrow> u64 \<Rightarrow> bool \<Rightarrow> cbb_store \<Rightarrow> (bool \<times> cbb_store) option" where
  "flush_child env c b d child_start ok st = do {
     child \<leftarrow> get_cbb st d;
     base \<leftarrow> get_base st b;
     if \<not> ok \<or> child_start < cbb_offset child \<or> bb_len base < child_start then flush_err b base st
     else do {
       let len = bb_len base - child_start;
       (ok, base, child, len) \<leftarrow>
         (if cbb_pending_is_asn1 child then flush_asn1 env base child child_start len
          else Some (True, base, child, len));
       if \<not> ok then flush_err b base st
       else do {
         (buf, len) \<leftarrow> store_be_loop (unat (cbb_pending_len_len child)) (bb_buf base) (unat (cbb_offset child)) len;
         let base = base\<lparr>bb_buf := buf\<rparr>;
         if len \<noteq> 0 then flush_err b base (set_cbb d child st)
         else do {
           let st = set_cbb d (child\<lparr>cbb_base := None\<rparr>) (set_base b base st);
           cbb \<leftarrow> get_cbb st c;
           Some (True, set_cbb c (cbb\<lparr>cbb_child := None\<rparr>) st)
         }
       }
     }
   }"

partial_function (option) CBB_flush :: "cbb_env \<Rightarrow> nat \<Rightarrow> cbb_store \<Rightarrow> (bool \<times> cbb_store) option" where
  "CBB_flush env c st = do {
     cbb \<leftarrow> get_cbb st c;
     case cbb_base cbb of
       None \<Rightarrow> Some (False, st)
     | Some b \<Rightarrow> do {
         base \<leftarrow> get_base st b;
         if bb_error base then Some (False, st)
         else case cbb_child cbb of
           None \<Rightarrow> Some (True, st)
         | Some d \<Rightarrow> do {
             child \<leftarrow> get_cbb st d;
             if cbb_pending_len_len child = 0 then Some (True, st)
             else do {
               (ok, st') \<leftarrow> CBB_flush env d st;
               flush_child env c b d (cbb_offset child + ucast (cbb_pending_len_len child)) ok st'
             }
           }
       }
   }"

declare CBB_flush.simps [code]

section \<open>Finishing\<close>

text \<open>
  \<open>CBB_finish\<close>: the flags say whether \<open>out_data\<close> and \<open>out_len\<close> are not NULL.  The block goes to the caller, with the
  length of its used part.
\<close>

definition CBB_finish :: "nat \<Rightarrow> bool \<Rightarrow> bool \<Rightarrow> cbb_env \<Rightarrow> cbb_store \<Rightarrow> (bool \<times> bytes \<times> u64 \<times> cbb_store) option" where
  "CBB_finish c want_data want_len env st = do {
     cbb \<leftarrow> get_cbb st c;
     if cbb_is_child cbb then Some (False, [], 0, st)
     else do {
       (ok, st) \<leftarrow> CBB_flush env c st;
       if \<not> ok then Some (False, [], 0, st)
       else do {
         (b, base) \<leftarrow> base_of st c;
         if bb_can_resize base \<and> (\<not> want_data \<or> \<not> want_len) then Some (False, [], 0, st)
         else do {
           st \<leftarrow> CBB_cleanup c (set_base b (base\<lparr>bb_buf := []\<rparr>) st);
           Some (True, if want_data then bb_buf base else [], if want_len then bb_len base else 0, st)
         }
       }
     }
   }"

text \<open>The bytes from the builder's contents to the end of the block, and how many of them count.\<close>

definition CBB_data :: "nat \<Rightarrow> cbb_store \<Rightarrow> bytes option" where
  "CBB_data c st = do {
     cbb \<leftarrow> get_cbb st c;
     (b, base) \<leftarrow> base_of st c;
     ptr_advance (bb_buf base) (cbb_offset cbb + ucast (cbb_pending_len_len cbb))
   }"

definition CBB_len :: "nat \<Rightarrow> cbb_store \<Rightarrow> u64 option" where
  "CBB_len c st = do {
     cbb \<leftarrow> get_cbb st c;
     (b, base) \<leftarrow> base_of st c;
     Some (bb_len base - cbb_offset cbb - ucast (cbb_pending_len_len cbb))
   }"

section \<open>Adding bytes and numbers\<close>

text \<open>Room for \<open>len\<close> bytes, which \<open>k\<close> may fill through the index it gets.\<close>

definition add_space :: "cbb_env \<Rightarrow> nat \<Rightarrow> u64 \<Rightarrow> (bytes \<Rightarrow> nat \<Rightarrow> bytes option) \<Rightarrow> cbb_store \<Rightarrow> (bool \<times> cbb_store) option" where
  "add_space env c len k st = do {
     (b, base) \<leftarrow> base_of st c;
     let (ok, base, out) = cbb_buffer_add env base len;
     if \<not> ok then Some (False, set_base b base st)
     else do {
       buf \<leftarrow> k (bb_buf base) (unat out);
       Some (True, set_base b (base\<lparr>bb_buf := buf\<rparr>) st)
     }
   }"

definition CBB_add_bytes :: "cbb_env \<Rightarrow> nat \<Rightarrow> bytes \<Rightarrow> u64 \<Rightarrow> cbb_store \<Rightarrow> (bool \<times> cbb_store) option" where
  "CBB_add_bytes env c data len st = and_then (CBB_flush env c st)
     (add_space env c len (\<lambda>buf out. do { bs \<leftarrow> OPENSSL_memcpy data len; buf_store buf out bs }))"

definition CBB_add_space :: "cbb_env \<Rightarrow> nat \<Rightarrow> u64 \<Rightarrow> cbb_store \<Rightarrow> (bool \<times> cbb_store) option" where
  "CBB_add_space env c len st = and_then (CBB_flush env c st) (add_space env c len (\<lambda>buf out. Some buf))"

text \<open>\<open>CBB_add_space\<close> with the \<open>memset\<close> on the space it gave.\<close>

definition CBB_add_zeros :: "cbb_env \<Rightarrow> nat \<Rightarrow> u64 \<Rightarrow> cbb_store \<Rightarrow> (bool \<times> cbb_store) option" where
  "CBB_add_zeros env c len st = and_then (CBB_flush env c st)
     (add_space env c len (\<lambda>buf out. buf_store buf out (replicate (unat len) 0)))"

definition CBB_reserve :: "cbb_env \<Rightarrow> nat \<Rightarrow> u64 \<Rightarrow> cbb_store \<Rightarrow> (bool \<times> cbb_store) option" where
  "CBB_reserve env c len st = and_then (CBB_flush env c st) (\<lambda>st. do {
     (b, base) \<leftarrow> base_of st c;
     let (ok, base, out) = cbb_buffer_reserve env base len;
     Some (ok, set_base b base st)
   })"

definition CBB_did_write :: "nat \<Rightarrow> u64 \<Rightarrow> cbb_store \<Rightarrow> (bool \<times> cbb_store) option" where
  "CBB_did_write c len st = do {
     cbb \<leftarrow> get_cbb st c;
     (b, base) \<leftarrow> base_of st c;
     let newlen = bb_len base + len;
     if cbb_child cbb \<noteq> None \<or> newlen < bb_len base \<or> newlen > bb_cap base then Some (False, st)
     else Some (True, set_base b (base\<lparr>bb_len := newlen\<rparr>) st)
   }"

definition add_number :: "cbb_env \<Rightarrow> nat \<Rightarrow> u64 \<Rightarrow> u64 \<Rightarrow> cbb_store \<Rightarrow> (bool \<times> cbb_store) option" where
  "add_number env c v len_len st = and_then (CBB_flush env c st) (\<lambda>st. do {
     (b, base) \<leftarrow> base_of st c;
     (ok, base) \<leftarrow> cbb_buffer_add_u env base v len_len;
     Some (ok, set_base b base st)
   })"

definition CBB_add_u8 :: "cbb_env \<Rightarrow> nat \<Rightarrow> byte \<Rightarrow> cbb_store \<Rightarrow> (bool \<times> cbb_store) option" where
  "CBB_add_u8 env c v = add_number env c (ucast v) 1"

definition CBB_add_u16 :: "cbb_env \<Rightarrow> nat \<Rightarrow> u16 \<Rightarrow> cbb_store \<Rightarrow> (bool \<times> cbb_store) option" where
  "CBB_add_u16 env c v = add_number env c (ucast v) 2"

definition CBB_add_u24 :: "cbb_env \<Rightarrow> nat \<Rightarrow> u32 \<Rightarrow> cbb_store \<Rightarrow> (bool \<times> cbb_store) option" where
  "CBB_add_u24 env c v = add_number env c (ucast v) 3"

definition CBB_add_u32 :: "cbb_env \<Rightarrow> nat \<Rightarrow> u32 \<Rightarrow> cbb_store \<Rightarrow> (bool \<times> cbb_store) option" where
  "CBB_add_u32 env c v = add_number env c (ucast v) 4"

definition CBB_add_u64 :: "cbb_env \<Rightarrow> nat \<Rightarrow> u64 \<Rightarrow> cbb_store \<Rightarrow> (bool \<times> cbb_store) option" where
  "CBB_add_u64 env c v = add_number env c v 8"

definition CBB_add_u16le :: "cbb_env \<Rightarrow> nat \<Rightarrow> u16 \<Rightarrow> cbb_store \<Rightarrow> (bool \<times> cbb_store) option" where
  "CBB_add_u16le env c v = CBB_add_u16 env c (CRYPTO_bswap2 v)"

definition CBB_add_u32le :: "cbb_env \<Rightarrow> nat \<Rightarrow> u32 \<Rightarrow> cbb_store \<Rightarrow> (bool \<times> cbb_store) option" where
  "CBB_add_u32le env c v = CBB_add_u32 env c (CRYPTO_bswap4 v)"

definition CBB_add_u64le :: "cbb_env \<Rightarrow> nat \<Rightarrow> u64 \<Rightarrow> cbb_store \<Rightarrow> (bool \<times> cbb_store) option" where
  "CBB_add_u64le env c v = CBB_add_u64 env c (CRYPTO_bswap8 v)"

section \<open>Children\<close>

text \<open>The builder \<open>d\<close> becomes the child of \<open>c\<close>.\<close>

definition new_child :: "nat \<Rightarrow> nat \<Rightarrow> u64 \<Rightarrow> byte \<Rightarrow> bool \<Rightarrow> cbb_store \<Rightarrow> (bool \<times> cbb_store) option" where
  "new_child c d offset len_len is_asn1 st = do {
     cbb \<leftarrow> get_cbb st c;
     _ \<leftarrow> get_cbb st d;
     let st = set_cbb d (zero_cbb\<lparr>cbb_base := cbb_base cbb, cbb_is_child := True, cbb_offset := offset,
                cbb_pending_len_len := len_len, cbb_pending_is_asn1 := is_asn1\<rparr>) st;
     Some (True, set_cbb c (cbb\<lparr>cbb_child := Some d\<rparr>) st)
   }"

definition cbb_add_length_prefixed :: "cbb_env \<Rightarrow> nat \<Rightarrow> nat \<Rightarrow> byte \<Rightarrow> cbb_store \<Rightarrow> (bool \<times> cbb_store) option" where
  "cbb_add_length_prefixed env c d len_len st = and_then (CBB_flush env c st) (\<lambda>st. do {
     (b, base) \<leftarrow> base_of st c;
     let offset = bb_len base;
     and_then (add_space env c (ucast len_len) (\<lambda>buf out. buf_store buf out (replicate (unat len_len) 0)) st)
       (new_child c d offset len_len False)
   })"

definition CBB_add_u8_length_prefixed :: "cbb_env \<Rightarrow> nat \<Rightarrow> nat \<Rightarrow> cbb_store \<Rightarrow> (bool \<times> cbb_store) option" where
  "CBB_add_u8_length_prefixed env c d = cbb_add_length_prefixed env c d 1"

definition CBB_add_u16_length_prefixed :: "cbb_env \<Rightarrow> nat \<Rightarrow> nat \<Rightarrow> cbb_store \<Rightarrow> (bool \<times> cbb_store) option" where
  "CBB_add_u16_length_prefixed env c d = cbb_add_length_prefixed env c d 2"

definition CBB_add_u24_length_prefixed :: "cbb_env \<Rightarrow> nat \<Rightarrow> nat \<Rightarrow> cbb_store \<Rightarrow> (bool \<times> cbb_store) option" where
  "CBB_add_u24_length_prefixed env c d = cbb_add_length_prefixed env c d 3"

text \<open>The number of groups, and the loop over them from the first to the last.\<close>

function base128_groups :: "u64 \<Rightarrow> nat" where
  "base128_groups copy = (if copy > 0 then Suc (base128_groups (drop_bit 7 copy)) else 0)"
  by pat_completeness auto
termination
proof (relation "measure unat", simp, goal_cases)
  case (1 copy)
  then have "0 < unat copy" by (simp add: word_gt_0 unat_gt_0)
  then show ?case by (simp add: unat_drop_bit)
qed

declare base128_groups.simps [simp del]

fun add_groups :: "cbb_env \<Rightarrow> nat \<Rightarrow> u64 \<Rightarrow> nat \<Rightarrow> cbb_store \<Rightarrow> (bool \<times> cbb_store) option" where
  "add_groups env c v 0 st = Some (True, st)"
| "add_groups env c v (Suc i) st =
     (let byte = ucast (drop_bit (7 * i) v) AND 0x7f;
          byte = (if i \<noteq> 0 then byte OR 0x80 else byte)
      in and_then (CBB_add_u8 env c byte st) (add_groups env c v i))"

definition add_base128_integer :: "cbb_env \<Rightarrow> nat \<Rightarrow> u64 \<Rightarrow> cbb_store \<Rightarrow> (bool \<times> cbb_store) option" where
  "add_base128_integer env c v st =
     (let len_len = base128_groups v; len_len = (if len_len = 0 then 1 else len_len)
      in add_groups env c v len_len st)"

definition CBB_add_asn1 :: "cbb_env \<Rightarrow> nat \<Rightarrow> nat \<Rightarrow> u32 \<Rightarrow> cbb_store \<Rightarrow> (bool \<times> cbb_store) option" where
  "CBB_add_asn1 env c d tag st = and_then (CBB_flush env c st) (\<lambda>st.
     let tag_bits = ucast (drop_bit CBS_ASN1_TAG_SHIFT tag) AND 0xe0;
         tag_number = tag AND CBS_ASN1_TAG_NUMBER_MASK
     in and_then
          (if tag_number \<ge> 0x1f
           then and_then (CBB_add_u8 env c (tag_bits OR 0x1f) st) (add_base128_integer env c (ucast tag_number))
           else CBB_add_u8 env c (tag_bits OR ucast tag_number) st)
          (\<lambda>st. do {
             (b, base) \<leftarrow> base_of st c;
             let offset = bb_len base;
             and_then (CBB_add_u8 env c 0 st) (new_child c d offset 1 True)
           }))"

definition CBB_discard_child :: "nat \<Rightarrow> cbb_store \<Rightarrow> cbb_store option" where
  "CBB_discard_child c st = do {
     cbb \<leftarrow> get_cbb st c;
     case cbb_child cbb of
       None \<Rightarrow> Some st
     | Some d \<Rightarrow> do {
         child \<leftarrow> get_cbb st d;
         (b, base) \<leftarrow> base_of st c;
         let st = set_cbb d (child\<lparr>cbb_base := None\<rparr>) (set_base b (base\<lparr>bb_len := cbb_offset child\<rparr>) st);
         Some (set_cbb c (cbb\<lparr>cbb_child := None\<rparr>) st)
       }
   }"

section \<open>ASN.1 values\<close>

text \<open>The loop over the eight bytes from the most significant one; \<open>started\<close> is returned with the result.\<close>

fun add_uint64_loop :: "cbb_env \<Rightarrow> nat \<Rightarrow> u64 \<Rightarrow> nat \<Rightarrow> bool \<Rightarrow> cbb_store \<Rightarrow> ((bool \<times> bool) \<times> cbb_store) option" where
  "add_uint64_loop env child value 0 started st = Some ((True, started), st)"
| "add_uint64_loop env child value (Suc n) started st =
     (let byte = ucast (drop_bit (8 * n) value) AND 0xff
      in if \<not> started \<and> byte = 0 then add_uint64_loop env child value n started st
         else do {
           (ok, st) \<leftarrow> (if \<not> started \<and> byte AND 0x80 \<noteq> 0 then CBB_add_u8 env child 0 st else Some (True, st));
           if \<not> ok then Some ((False, started), st)
           else do {
             (ok, st) \<leftarrow> CBB_add_u8 env child byte st;
             if \<not> ok then Some ((False, True), st) else add_uint64_loop env child value n True st
           }
         })"

definition CBB_add_asn1_uint64 :: "cbb_env \<Rightarrow> nat \<Rightarrow> u64 \<Rightarrow> cbb_store \<Rightarrow> (bool \<times> cbb_store) option" where
  "CBB_add_asn1_uint64 env c value = with_cbb (\<lambda>child st.
     and_then (CBB_add_asn1 env c child CBS_ASN1_INTEGER st) (\<lambda>st. do {
       ((ok, started), st) \<leftarrow> add_uint64_loop env child value 8 False st;
       if \<not> ok then Some (False, st)
       else and_then (if \<not> started then CBB_add_u8 env child 0 st else Some (True, st)) (CBB_flush env c)
     }))"

text \<open>The union reads the number as eight little-endian bytes.\<close>

fun sign_start :: "bytes \<Rightarrow> nat \<Rightarrow> nat" where
  "sign_start u 0 = 0"
| "sign_start u (Suc s) = (if u ! Suc s = 0xff \<and> u ! s AND 0x80 \<noteq> 0 then sign_start u s else Suc s)"

fun add_rev_bytes :: "cbb_env \<Rightarrow> nat \<Rightarrow> bytes \<Rightarrow> nat \<Rightarrow> cbb_store \<Rightarrow> (bool \<times> cbb_store) option" where
  "add_rev_bytes env child u 0 st = Some (True, st)"
| "add_rev_bytes env child u (Suc i) st = and_then (CBB_add_u8 env child (u ! i) st) (add_rev_bytes env child u i)"

definition CBB_add_asn1_int64 :: "cbb_env \<Rightarrow> nat \<Rightarrow> u64 \<Rightarrow> cbb_store \<Rightarrow> (bool \<times> cbb_store) option" where
  "CBB_add_asn1_int64 env c value =
     (if 0 \<le> sint value then CBB_add_asn1_uint64 env c value
      else
        let u = word_le_bytes 8 value; start = sign_start u 7
        in with_cbb (\<lambda>child st. and_then (CBB_add_asn1 env c child CBS_ASN1_INTEGER st) (\<lambda>st.
             and_then (add_rev_bytes env child u (Suc start) st) (CBB_flush env c))))"

definition CBB_add_asn1_octet_string :: "cbb_env \<Rightarrow> nat \<Rightarrow> bytes \<Rightarrow> u64 \<Rightarrow> cbb_store \<Rightarrow> (bool \<times> cbb_store) option" where
  "CBB_add_asn1_octet_string env c data data_len = with_cbb (\<lambda>child st.
     and_then (CBB_add_asn1 env c child CBS_ASN1_OCTETSTRING st) (\<lambda>st.
       and_then (CBB_add_bytes env child data data_len st) (CBB_flush env c)))"

definition CBB_add_asn1_bool :: "cbb_env \<Rightarrow> nat \<Rightarrow> bool \<Rightarrow> cbb_store \<Rightarrow> (bool \<times> cbb_store) option" where
  "CBB_add_asn1_bool env c value = with_cbb (\<lambda>child st.
     and_then (CBB_add_asn1 env c child CBS_ASN1_BOOLEAN st) (\<lambda>st.
       and_then (CBB_add_u8 env child (if value then 0xff else 0) st) (CBB_flush env c)))"

section \<open>Object identifiers\<close>

text \<open>The text of an object identifier is read as a \<open>CBS\<close>; the loop reads a byte in every round.\<close>

fun dotted_loop :: "nat \<Rightarrow> CBS \<Rightarrow> u64 \<Rightarrow> bool \<Rightarrow> (bool \<times> CBS \<times> u64) option" where
  "dotted_loop 0 cbs out seen_digit = None"
| "dotted_loop (Suc n) cbs out seen_digit = do {
     (ok, cbs, u) \<leftarrow> CBS_get_u8 cbs 0;
     if \<not> ok \<or> u = 0x2E \<and> CBS_len cbs > 0 then Some (seen_digit, cbs, out)
     else if u < 0x30 \<or> u > 0x39 \<or> seen_digit \<and> out = 0 \<or> out > (- 1) div 10 \<or> out * 10 > - 1 - ucast (u - 0x30)
     then Some (False, cbs, out)
     else dotted_loop n cbs (out * 10 + ucast (u - 0x30)) True
   }"

definition parse_dotted_decimal :: "CBS \<Rightarrow> (bool \<times> CBS \<times> u64) option" where
  "parse_dotted_decimal cbs = dotted_loop (Suc (unat (cbs_len cbs))) cbs 0 False"

fun oid_components_loop :: "cbb_env \<Rightarrow> nat \<Rightarrow> nat \<Rightarrow> CBS \<Rightarrow> cbb_store \<Rightarrow> (bool \<times> cbb_store) option" where
  "oid_components_loop env c 0 cbs st = None"
| "oid_components_loop env c (Suc n) cbs st =
     (if CBS_len cbs > 0 then do {
        (ok, cbs, a) \<leftarrow> parse_dotted_decimal cbs;
        if \<not> ok then Some (False, st)
        else and_then (add_base128_integer env c a st) (oid_components_loop env c n cbs)
      }
      else Some (True, st))"

definition CBB_add_asn1_oid_from_text :: "cbb_env \<Rightarrow> nat \<Rightarrow> bytes \<Rightarrow> u64 \<Rightarrow> cbb_store \<Rightarrow> (bool \<times> cbb_store) option" where
  "CBB_add_asn1_oid_from_text env c oid_text len st = and_then (CBB_flush env c st) (\<lambda>st. do {
     let cbs = CBS_init oid_text len;
     (ok, cbs, a) \<leftarrow> parse_dotted_decimal cbs;
     if \<not> ok then Some (False, st)
     else do {
       (ok, cbs, b) \<leftarrow> parse_dotted_decimal cbs;
       if \<not> ok then Some (False, st)
       else if a > 2 \<or> a < 2 \<and> b > 39 \<or> b > - 1 - 80 then Some (False, st)
       else and_then (add_base128_integer env c (40 * a + b) st)
              (oid_components_loop env c (Suc (unat (CBS_len cbs))) cbs)
     }
   })"

text \<open>The digits \<open>printf\<close> gives for \<open>%lu\<close>.\<close>

fun decimal :: "nat \<Rightarrow> bytes" where
  "decimal n = (if n < 10 then [of_nat (48 + n)] else decimal (n div 10) @ [of_nat (48 + n mod 10)])"

declare decimal.simps [simp del]

definition add_decimal :: "cbb_env \<Rightarrow> nat \<Rightarrow> u64 \<Rightarrow> cbb_store \<Rightarrow> (bool \<times> cbb_store) option" where
  "add_decimal env c v = (let buf = decimal (unat v) in CBB_add_bytes env c buf (of_nat (length buf)))"

fun oid_text_loop :: "cbb_env \<Rightarrow> nat \<Rightarrow> nat \<Rightarrow> CBS \<Rightarrow> cbb_store \<Rightarrow> (bool \<times> cbb_store) option" where
  "oid_text_loop env c 0 copy st = None"
| "oid_text_loop env c (Suc n) copy st =
     (if CBS_len copy \<noteq> 0 then do {
        (ok, copy, v) \<leftarrow> parse_base128_integer copy 0;
        if \<not> ok then Some (False, st)
        else and_then (CBB_add_u8 env c 0x2E st) (\<lambda>st.
             and_then (add_decimal env c v st) (oid_text_loop env c n copy))
      }
      else Some (True, st))"

text \<open>The text with its terminator, or NULL.\<close>

definition CBS_asn1_oid_to_text :: "cbb_env \<Rightarrow> CBS \<Rightarrow> cbb_store \<Rightarrow> (bytes option \<times> cbb_store) option" where
  "CBS_asn1_oid_to_text env cbs st = with_cbb (\<lambda>cbb st. do {
     (ok, st) \<leftarrow> and_then (CBB_init env cbb 32 st) (\<lambda>st. do {
        (ok, copy, v) \<leftarrow> parse_base128_integer cbs 0;
        if \<not> ok then Some (False, st)
        else
          and_then
            (if v \<ge> 80 then and_then (CBB_add_bytes env cbb [0x32, 0x2E] 2 st) (add_decimal env cbb (v - 80))
             else and_then (add_decimal env cbb (v div 40) st) (\<lambda>st.
                  and_then (CBB_add_u8 env cbb 0x2E st) (add_decimal env cbb (v mod 40))))
            (\<lambda>st. and_then (oid_text_loop env cbb (Suc (unat (CBS_len copy))) copy st) (CBB_add_u8 env cbb 0))
     });
     (ok, buf, len, st) \<leftarrow> (if ok then CBB_finish cbb True True env st else Some (False, [], 0, st));
     if ok then Some (Some (take (unat len) buf), st)
     else do { st \<leftarrow> CBB_cleanup cbb st; Some (None, st) }
   }) st"

section \<open>Sets\<close>

fun memcmp_sign :: "bytes \<Rightarrow> bytes \<Rightarrow> nat \<Rightarrow> nat \<Rightarrow> int option" where
  "memcmp_sign a b 0 i = Some 0"
| "memcmp_sign a b (Suc n) i = do {
     x \<leftarrow> byte_at a i;
     y \<leftarrow> byte_at b i;
     if x = y then memcmp_sign a b n (Suc i) else Some (int (unat x) - int (unat y))
   }"

definition OPENSSL_memcmp :: "bytes \<Rightarrow> bytes \<Rightarrow> u64 \<Rightarrow> int option" where
  "OPENSSL_memcmp a b n = (if n = 0 then Some 0 else memcmp_sign a b (unat n) 0)"

definition compare_set_of_element :: "CBS \<Rightarrow> CBS \<Rightarrow> int option" where
  "compare_set_of_element a b = do {
     let a_len = CBS_len a;
     let b_len = CBS_len b;
     let min_len = (if a_len < b_len then a_len else b_len);
     ret \<leftarrow> OPENSSL_memcmp (CBS_data a) (CBS_data b) min_len;
     if ret \<noteq> 0 then Some ret
     else if a_len = b_len then Some 0
     else Some (if a_len < b_len then - 1 else 1)
   }"

text \<open>\<open>qsort\<close> by insertion; elements that compare equal have the same bytes, so their order does not matter.\<close>

fun insert_by :: "('a \<Rightarrow> 'a \<Rightarrow> int option) \<Rightarrow> 'a \<Rightarrow> 'a list \<Rightarrow> 'a list option" where
  "insert_by cmp x [] = Some [x]"
| "insert_by cmp x (y # ys) = do {
     r \<leftarrow> cmp x y;
     if r \<le> 0 then Some (x # y # ys) else do { zs \<leftarrow> insert_by cmp x ys; Some (y # zs) }
   }"

fun qsort :: "('a \<Rightarrow> 'a \<Rightarrow> int option) \<Rightarrow> 'a list \<Rightarrow> 'a list option" where
  "qsort cmp [] = Some []"
| "qsort cmp (x # xs) = do { ys \<leftarrow> qsort cmp xs; insert_by cmp x ys }"

text \<open>The two loops over the elements: the first one counts them, the second one collects them.\<close>

fun count_elements :: "nat \<Rightarrow> CBS \<Rightarrow> u64 \<Rightarrow> (bool \<times> u64) option" where
  "count_elements 0 cbs num = None"
| "count_elements (Suc n) cbs num =
     (if CBS_len cbs \<noteq> 0 then do {
        (ok, cbs, _) \<leftarrow> CBS_get_any_asn1_element cbs (no_element (CBS_init [] 0));
        if \<not> ok then Some (False, num) else count_elements n cbs (num + 1)
      }
      else Some (True, num))"

fun collect_elements :: "nat \<Rightarrow> CBS \<Rightarrow> (bool \<times> CBS list) option" where
  "collect_elements 0 cbs = Some (True, [])"
| "collect_elements (Suc n) cbs = do {
     (ok, cbs, eo) \<leftarrow> CBS_get_any_asn1_element cbs (no_element (CBS_init [] 0));
     if \<not> ok then Some (False, [])
     else do { (ok, children) \<leftarrow> collect_elements n cbs; Some (ok, eo_out eo # children) }
   }"

fun add_elements :: "cbb_env \<Rightarrow> nat \<Rightarrow> CBS list \<Rightarrow> cbb_store \<Rightarrow> (bool \<times> cbb_store) option" where
  "add_elements env c [] st = Some (True, st)"
| "add_elements env c (x # xs) st =
     and_then (CBB_add_bytes env c (CBS_data x) (CBS_len x) st) (add_elements env c xs)"

definition CBB_flush_asn1_set_of :: "cbb_env \<Rightarrow> nat \<Rightarrow> cbb_store \<Rightarrow> (bool \<times> cbb_store) option" where
  "CBB_flush_asn1_set_of env c st = and_then (CBB_flush env c st) (\<lambda>st. do {
     data \<leftarrow> CBB_data c st;
     buf_len \<leftarrow> CBB_len c st;
     (ok, num_children) \<leftarrow> count_elements (Suc (unat buf_len)) (CBS_init data buf_len) 0;
     if \<not> ok then Some (False, st)
     else if num_children < 2 then Some (True, st)
     else if num_children > (- 1) div 16 then Some (False, st)
     else do {
       buf \<leftarrow> OPENSSL_memdup (env_avail env) data buf_len;
       if buf = None \<or> \<not> OPENSSL_malloc (env_avail env) (num_children * 16) then Some (False, st)
       else do {
         (ok, children) \<leftarrow> collect_elements (unat num_children) (CBS_init (the buf) buf_len);
         if \<not> ok then Some (False, st)
         else do {
           children \<leftarrow> qsort compare_set_of_element children;
           cbb \<leftarrow> get_cbb st c;
           (b, base) \<leftarrow> base_of st c;
           let st = set_base b (base\<lparr>bb_len := cbb_offset cbb + ucast (cbb_pending_len_len cbb)\<rparr>) st;
           add_elements env c children st
         }
       }
     }
   })"

section \<open>Characters\<close>

definition cbb_get_utf8_len :: "u32 \<Rightarrow> u64" where
  "cbb_get_utf8_len u = (if u \<le> 0x7f then 1 else if u \<le> 0x7ff then 2 else if u \<le> 0xffff then 3 else 4)"

definition cbb_add_utf8 :: "cbb_env \<Rightarrow> nat \<Rightarrow> u32 \<Rightarrow> cbb_store \<Rightarrow> (bool \<times> cbb_store) option" where
  "cbb_add_utf8 env c u st =
     (if \<not> is_valid_code_point u then Some (False, st)
      else if u \<le> 0x7f then CBB_add_u8 env c (ucast u) st
      else if u \<le> 0x7ff then
        and_then (CBB_add_u8 env c (TOP_BITS 2 OR ucast (drop_bit 6 u)) st)
          (CBB_add_u8 env c (TOP_BITS 1 OR ucast u AND BOTTOM_BITS 6))
      else if u \<le> 0xffff then
        and_then (CBB_add_u8 env c (TOP_BITS 3 OR ucast (drop_bit 12 u)) st) (\<lambda>st.
          and_then (CBB_add_u8 env c (TOP_BITS 1 OR ucast (drop_bit 6 u) AND BOTTOM_BITS 6) st)
            (CBB_add_u8 env c (TOP_BITS 1 OR ucast u AND BOTTOM_BITS 6)))
      else if u \<le> 0x10ffff then
        and_then (CBB_add_u8 env c (TOP_BITS 4 OR ucast (drop_bit 18 u)) st) (\<lambda>st.
          and_then (CBB_add_u8 env c (TOP_BITS 1 OR ucast (drop_bit 12 u) AND BOTTOM_BITS 6) st) (\<lambda>st.
            and_then (CBB_add_u8 env c (TOP_BITS 1 OR ucast (drop_bit 6 u) AND BOTTOM_BITS 6) st)
              (CBB_add_u8 env c (TOP_BITS 1 OR ucast u AND BOTTOM_BITS 6))))
      else Some (False, st))"

definition cbb_add_latin1 :: "cbb_env \<Rightarrow> nat \<Rightarrow> u32 \<Rightarrow> cbb_store \<Rightarrow> (bool \<times> cbb_store) option" where
  "cbb_add_latin1 env c u st = (if u \<le> 0xff then CBB_add_u8 env c (ucast u) st else Some (False, st))"

definition cbb_add_ucs2_be :: "cbb_env \<Rightarrow> nat \<Rightarrow> u32 \<Rightarrow> cbb_store \<Rightarrow> (bool \<times> cbb_store) option" where
  "cbb_add_ucs2_be env c u st =
     (if u \<le> 0xffff \<and> is_valid_code_point u then CBB_add_u16 env c (ucast u) st else Some (False, st))"

definition cbb_add_utf32_be :: "cbb_env \<Rightarrow> nat \<Rightarrow> u32 \<Rightarrow> cbb_store \<Rightarrow> (bool \<times> cbb_store) option" where
  "cbb_add_utf32_be env c u st = (if is_valid_code_point u then CBB_add_u32 env c u st else Some (False, st))"

section \<open>Old interfaces\<close>

text \<open>
  \<open>outp\<close> is NULL (\<^term>\<open>None\<close>), a pointer to NULL (\<^term>\<open>Some None\<close>), or a pointer to a place with room for some bytes.
  The result is the return value, what \<open>*outp\<close> is afterwards: the new block, or the bytes written to the
  place and those behind them.
\<close>

definition CBB_finish_i2d ::
  "cbb_env \<Rightarrow> nat \<Rightarrow> bytes option option \<Rightarrow> cbb_store \<Rightarrow> (int \<times> bytes option option \<times> cbb_store) option" where
  "CBB_finish_i2d env c outp st = do {
     (ok, der, der_len, st) \<leftarrow> CBB_finish c True True env st;
     if \<not> ok then do { st \<leftarrow> CBB_cleanup c st; Some (- 1, outp, st) }
     else if der_len > 0x7fffffff then Some (- 1, outp, st)
     else do {
       outp \<leftarrow> (case outp of
           None \<Rightarrow> Some None
         | Some None \<Rightarrow> Some (Some (Some der))
         | Some (Some place) \<Rightarrow> do {
             bs \<leftarrow> OPENSSL_memcpy der der_len;
             place \<leftarrow> buf_store place 0 bs;
             Some (Some (Some place))
           });
       Some (int (unat der_len), outp, st)
     }
   }"

end
