(* ===== verification/Ber.thy ===== *)
theory Ber
  imports Cbb
begin

text \<open>
  BoringSSL, \<^verbatim>\<open>ios/Pods/BoringSSL-GRPC/src/crypto/bytestring/ber.c\<close>: the search for liberties of the basic encoding, and the
  conversion to the distinguished one.
\<close>

section \<open>From the basic to the distinguished encoding\<close>

definition kMaxDepth :: u32 where "kMaxDepth = 2048"

definition is_string_type :: "u32 \<Rightarrow> bool" where
  "is_string_type tag = (let t = tag AND NOT CBS_ASN1_CONSTRUCTED in
     t = CBS_ASN1_OCTETSTRING \<or> t = 0xc \<or> t = 0x12 \<or> t = 0x13 \<or> t = 0x14 \<or> t = 0x15 \<or> t = 0x16 \<or> t = 0x19 \<or>
     t = 0x1a \<or> t = 0x1b \<or> t = 0x1c \<or> t = 0x1e)"

text \<open>
  The parser makes progress in every round, so the length of the input and one more bounds both the
  rounds of the loop and the nesting.  The result is the success and \<open>*ber_found\<close>.
\<close>

fun find_ber_loop :: "nat \<Rightarrow> CBS \<Rightarrow> u32 \<Rightarrow> bool \<Rightarrow> (bool \<times> bool) option" where
  "find_ber_loop 0 inp depth ber_found = None"
| "find_ber_loop (Suc n) inp depth ber_found =
     (if CBS_len inp > 0 then do {
        (ok, inp, eo) \<leftarrow> CBS_get_any_ber_asn1_element inp ((no_element (CBS_init [] 0))\<lparr>eo_ber_found := ber_found\<rparr>);
        if \<not> ok then Some (False, eo_ber_found eo)
        else if eo_ber_found eo then Some (True, True)
        else if eo_tag eo AND CBS_ASN1_CONSTRUCTED \<noteq> 0 then
          if is_string_type (eo_tag eo) then Some (True, True)
          else do {
            (ok, contents) \<leftarrow> CBS_skip (eo_out eo) (eo_header_len eo);
            if \<not> ok then Some (False, False)
            else if depth + 1 > kMaxDepth then Some (False, False)
            else do {
              (ok, ber_found) \<leftarrow> find_ber_loop n contents (depth + 1) False;
              if \<not> ok then Some (False, ber_found) else find_ber_loop n inp depth ber_found
            }
          }
        else find_ber_loop n inp depth (eo_ber_found eo)
      }
      else Some (True, ber_found))"

definition cbs_find_ber :: "CBS \<Rightarrow> bool \<Rightarrow> u32 \<Rightarrow> (bool \<times> bool) option" where
  "cbs_find_ber orig_in ber_found depth =
     (if depth > kMaxDepth then Some (False, ber_found)
      else find_ber_loop (Suc (unat (CBS_len orig_in))) (CBS_init (CBS_data orig_in) (CBS_len orig_in)) depth False)"

definition is_eoc :: "u64 \<Rightarrow> CBS \<Rightarrow> bool option" where
  "is_eoc header_len contents =
     (if header_len = 2 \<and> CBS_len contents = 2
      then map_option (\<lambda>r. r = 0) (OPENSSL_memcmp (CBS_data contents) [0, 0] 2)
      else Some False)"

text \<open>
  The loop of \<open>cbs_convert_ber\<close>.  The result is the return value with what is left of \<open>in\<close>; a round
  gives \<^term>\<open>None\<close> for its return value when the loop goes on.
\<close>

type_synonym converter = "CBS \<Rightarrow> nat \<Rightarrow> u32 \<Rightarrow> bool \<Rightarrow> u32 \<Rightarrow> cbb_store \<Rightarrow> ((bool \<times> CBS) \<times> cbb_store) option"

definition convert_contents ::
  "cbb_env \<Rightarrow> converter \<Rightarrow> CBS \<Rightarrow> element_out \<Rightarrow> nat \<Rightarrow> nat \<Rightarrow> u32 \<Rightarrow> u32 \<Rightarrow> cbb_store \<Rightarrow> ((bool option \<times> CBS) \<times> cbb_store) option" where
  "convert_contents env rec inp eo out out_contents child_string_tag depth st = do {
     let contents = eo_out eo;
     let header_len = eo_header_len eo;
     last_byte \<leftarrow> (if CBS_len contents = header_len \<and> header_len > 0
                  then byte_at (CBS_data contents) (unat (header_len - 1)) else Some 0);
     if CBS_len contents = header_len \<and> header_len > 0 \<and> last_byte = 0x80 then do {
       ((ok, inp), st) \<leftarrow> rec inp out_contents child_string_tag True (depth + 1) st;
       if \<not> ok then Some ((Some False, inp), st)
       else do {
         (ok, st) \<leftarrow> CBB_flush env out st;
         Some ((if ok then None else Some False, inp), st)
       }
     }
     else do {
       (ok, contents) \<leftarrow> CBS_skip contents header_len;
       if \<not> ok then Some ((Some False, inp), st)
       else do {
         (ok, st) \<leftarrow>
           (if eo_tag eo AND CBS_ASN1_CONSTRUCTED \<noteq> 0 then do {
              ((ok, _), st) \<leftarrow> rec contents out_contents child_string_tag False (depth + 1) st;
              Some (ok, st)
            }
            else CBB_add_bytes env out_contents (CBS_data contents) (CBS_len contents) st);
         if \<not> ok then Some ((Some False, inp), st)
         else do {
           (ok, st) \<leftarrow> CBB_flush env out st;
           Some ((if ok then None else Some False, inp), st)
         }
       }
     }
   }"

definition convert_round ::
  "cbb_env \<Rightarrow> converter \<Rightarrow> CBS \<Rightarrow> nat \<Rightarrow> u32 \<Rightarrow> bool \<Rightarrow> u32 \<Rightarrow> nat \<Rightarrow> cbb_store \<Rightarrow> ((bool option \<times> CBS) \<times> cbb_store) option" where
  "convert_round env rec inp out string_tag looking_for_eoc depth storage st = do {
     (ok, inp, eo) \<leftarrow> CBS_get_any_ber_asn1_element inp (no_element (CBS_init [] 0));
     if \<not> ok then Some ((Some False, inp), st)
     else do {
       eoc \<leftarrow> is_eoc (eo_header_len eo) (eo_out eo);
       if eoc then Some ((Some looking_for_eoc, inp), st)
       else if string_tag \<noteq> 0 then
         if eo_tag eo AND NOT CBS_ASN1_CONSTRUCTED \<noteq> string_tag then Some ((Some False, inp), st)
         else convert_contents env rec inp eo out out string_tag depth st
       else do {
         let flat = (eo_tag eo AND CBS_ASN1_CONSTRUCTED \<noteq> 0 \<and> is_string_type (eo_tag eo));
         let out_tag = (if flat then eo_tag eo AND NOT CBS_ASN1_CONSTRUCTED else eo_tag eo);
         (ok, st) \<leftarrow> CBB_add_asn1 env out storage out_tag st;
         if \<not> ok then Some ((Some False, inp), st)
         else convert_contents env rec inp eo out storage (if flat then out_tag else string_tag) depth st
       }
     }
   }"

fun convert_loop :: "cbb_env \<Rightarrow> nat \<Rightarrow> converter" where
  "convert_loop env 0 inp out string_tag looking_for_eoc depth st = None"
| "convert_loop env (Suc n) inp out string_tag looking_for_eoc depth st =
     (if depth > kMaxDepth then Some ((False, inp), st)
      else if CBS_len inp > 0 then do {
        ((r, inp), st) \<leftarrow> with_cbb (convert_round env (convert_loop env n) inp out string_tag looking_for_eoc depth) st;
        case r of
          Some r \<Rightarrow> Some ((r, inp), st)
        | None \<Rightarrow> convert_loop env n inp out string_tag looking_for_eoc depth st
      }
      else Some ((\<not> looking_for_eoc, inp), st))"

definition cbs_convert_ber :: "cbb_env \<Rightarrow> converter" where
  "cbs_convert_ber env inp out string_tag looking_for_eoc depth st =
     convert_loop env (Suc (unat (CBS_len inp))) inp out string_tag looking_for_eoc depth st"

text \<open>
  The results of the last two functions: the success, \<open>in\<close>, \<open>out\<close>, and \<open>*out_storage\<close>, which is \<^term>\<open>None\<close> for NULL.
\<close>

definition CBS_asn1_ber_to_der ::
  "cbb_env \<Rightarrow> CBS \<Rightarrow> CBS \<Rightarrow> bytes option \<Rightarrow> cbb_store \<Rightarrow> ((bool \<times> CBS \<times> CBS \<times> bytes option) \<times> cbb_store) option" where
  "CBS_asn1_ber_to_der env inp out out_storage = with_cbb (\<lambda>cbb st. do {
     (ok, conversion_needed) \<leftarrow> cbs_find_ber inp False 0;
     if \<not> ok then Some ((False, inp, out, out_storage), st)
     else if \<not> conversion_needed then do {
       (ok, inp, eo) \<leftarrow> CBS_get_any_asn1_element inp (no_element out);
       Some ((ok, inp, eo_out eo, if ok then None else out_storage), st)
     }
     else do {
       (ok, st) \<leftarrow> CBB_init env cbb (CBS_len inp) st;
       ((ok, inp), st) \<leftarrow> (if ok then cbs_convert_ber env inp cbb 0 False 0 st else Some ((False, inp), st));
       (ok, der, len, st) \<leftarrow> (if ok then CBB_finish cbb True True env st else Some (False, [], 0, st));
       if \<not> ok then do { st \<leftarrow> CBB_cleanup cbb st; Some ((False, inp, out, out_storage), st) }
       else Some ((True, inp, CBS_init der len, Some der), st)
     }
   })"

text \<open>The loop over the chunks; every round consumes some of \<open>child\<close>.\<close>

fun chunk_loop :: "cbb_env \<Rightarrow> nat \<Rightarrow> nat \<Rightarrow> u32 \<Rightarrow> CBS \<Rightarrow> cbb_store \<Rightarrow> (bool \<times> cbb_store) option" where
  "chunk_loop env 0 result inner_tag child st = None"
| "chunk_loop env (Suc n) result inner_tag child st =
     (if CBS_len child > 0 then do {
        (ok, child, chunk) \<leftarrow> CBS_get_asn1 child (CBS_init [] 0) inner_tag;
        if \<not> ok then Some (False, st)
        else and_then (CBB_add_bytes env result (CBS_data chunk) (CBS_len chunk) st)
               (chunk_loop env n result inner_tag child)
      }
      else Some (True, st))"

definition CBS_get_asn1_implicit_string ::
  "cbb_env \<Rightarrow> CBS \<Rightarrow> CBS \<Rightarrow> bytes option \<Rightarrow> u32 \<Rightarrow> u32 \<Rightarrow> cbb_store \<Rightarrow> ((bool \<times> CBS \<times> CBS \<times> bytes option) \<times> cbb_store) option" where
  "CBS_get_asn1_implicit_string env inp out out_storage outer_tag inner_tag = with_cbb (\<lambda>result st. do {
     peek \<leftarrow> CBS_peek_asn1_tag inp outer_tag;
     if peek then do {
       (ok, inp, out) \<leftarrow> CBS_get_asn1 inp out outer_tag;
       Some ((ok, inp, out, None), st)
     }
     else do {
       (ok, st) \<leftarrow> CBB_init env result (CBS_len inp) st;
       (ok, inp, child) \<leftarrow>
         (if ok then CBS_get_asn1 inp (CBS_init [] 0) (outer_tag OR CBS_ASN1_CONSTRUCTED) else Some (False, inp, CBS_init [] 0));
       (ok, st) \<leftarrow> (if ok then chunk_loop env (Suc (unat (CBS_len child))) result inner_tag child st else Some (False, st));
       (ok, data, len, st) \<leftarrow> (if ok then CBB_finish result True True env st else Some (False, [], 0, st));
       if \<not> ok then do { st \<leftarrow> CBB_cleanup result st; Some ((False, inp, out, out_storage), st) }
       else Some ((True, inp, CBS_init data len, Some data), st)
     }
   })"

end
