(* ===== verification/CbsProofs.thy ===== *)
theory CbsProofs
  imports Cbs
begin

text \<open>
  What the readers of \<^verbatim>\<open>cbs.c\<close> accept: numbers, tags, elements and integers, each against its
  code as a function to bytes.  The locale \<open>cbs_reader\<close> states what a reader and its code promise each other.
\<close>

section \<open>Byte strings as lists\<close>

definition wf_cbs :: "CBS \<Rightarrow> bool" where
  "wf_cbs cbs \<longleftrightarrow> unat (cbs_len cbs) \<le> length (cbs_data cbs)"

definition cbs_bytes :: "CBS \<Rightarrow> bytes" where
  "cbs_bytes cbs = take (unat (cbs_len cbs)) (cbs_data cbs)"

definition cbs_drop :: "nat \<Rightarrow> CBS \<Rightarrow> CBS" where
  "cbs_drop n cbs = \<lparr>cbs_data = drop n (cbs_data cbs), cbs_len = cbs_len cbs - of_nat n\<rparr>"

lemma length_cbs_bytes: "wf_cbs cbs \<Longrightarrow> length (cbs_bytes cbs) = unat (cbs_len cbs)"
  by (simp add: wf_cbs_def cbs_bytes_def)

lemma cbs_bytes_short: "wf_cbs cbs \<Longrightarrow> length (cbs_bytes cbs) < 2 ^ 64"
  using unat_u64_less [of "cbs_len cbs"] by (simp add: length_cbs_bytes)

lemma unat_of_nat_u64: "n < 2 ^ 64 \<Longrightarrow> unat (of_nat n :: u64) = n"
  by (simp add: unat_of_nat take_bit_eq_mod)

lemma unat_sub_of_nat: "n \<le> unat (w :: u64) \<Longrightarrow> unat (w - of_nat n) = unat w - n"
  using unat_u64_less [of w] by (simp add: unat_sub_if' unat_of_nat)

lemma cbs_drop_wf [simp]: "wf_cbs cbs \<Longrightarrow> n \<le> length (cbs_bytes cbs) \<Longrightarrow> wf_cbs (cbs_drop n cbs)"
  by (simp add: length_cbs_bytes) (simp add: wf_cbs_def cbs_drop_def unat_sub_of_nat)

lemma cbs_drop_bytes [simp]:
  "wf_cbs cbs \<Longrightarrow> n \<le> length (cbs_bytes cbs) \<Longrightarrow> cbs_bytes (cbs_drop n cbs) = drop n (cbs_bytes cbs)"
  by (simp add: length_cbs_bytes) (simp add: cbs_bytes_def cbs_drop_def unat_sub_of_nat drop_take)

lemma cbs_drop_drop [simp]: "cbs_drop n (cbs_drop m cbs) = cbs_drop (m + n) cbs"
  by (simp add: cbs_drop_def add.commute)

lemma cbs_drop_0 [simp]: "cbs_drop 0 cbs = cbs"
  by (simp add: cbs_drop_def)

lemma cbs_init_view:
  "wf_cbs cbs \<Longrightarrow> unat n \<le> length (cbs_bytes cbs) \<Longrightarrow>
     wf_cbs (CBS_init (cbs_data cbs) n) \<and> cbs_bytes (CBS_init (cbs_data cbs) n) = take (unat n) (cbs_bytes cbs)"
  by (simp add: length_cbs_bytes) (simp add: wf_cbs_def cbs_bytes_def CBS_init_def)

lemma cbs_get_eq:
  "wf_cbs cbs \<Longrightarrow> cbs_get cbs n =
     (if unat n \<le> length (cbs_bytes cbs) then Some (True, cbs_drop (unat n) cbs, cbs_data cbs)
      else Some (False, cbs, []))"
  by (auto simp: length_cbs_bytes) (auto simp: cbs_get_def ptr_advance_def cbs_drop_def wf_cbs_def word_le_nat_alt word_less_nat_alt)

lemma CBS_get_bytes_eq:
  "wf_cbs cbs \<Longrightarrow> CBS_get_bytes cbs out n =
     (if unat n \<le> length (cbs_bytes cbs) then Some (True, cbs_drop (unat n) cbs, CBS_init (cbs_data cbs) n)
      else Some (False, cbs, out))"
  by (simp add: CBS_get_bytes_def cbs_get_eq)

lemma CBS_skip_eq:
  "wf_cbs cbs \<Longrightarrow> CBS_skip cbs n =
     (if unat n \<le> length (cbs_bytes cbs) then Some (True, cbs_drop (unat n) cbs) else Some (False, cbs))"
  by (simp add: CBS_skip_def cbs_get_eq)

lemma cbs_data_nth: "wf_cbs cbs \<Longrightarrow> i < length (cbs_bytes cbs) \<Longrightarrow> byte_at (cbs_data cbs) i = Some (cbs_bytes cbs ! i)"
  by (simp add: length_cbs_bytes) (simp add: byte_at_def cbs_bytes_def wf_cbs_def)

lemma CBS_get_u8_eq:
  "wf_cbs cbs \<Longrightarrow> CBS_get_u8 cbs out =
     (case cbs_bytes cbs of [] \<Rightarrow> Some (False, cbs, out) | b # _ \<Rightarrow> Some (True, cbs_drop 1 cbs, b))"
  using cbs_data_nth [of cbs 0]
  by (auto simp: CBS_get_u8_def cbs_get_eq Suc_le_eq split: list.split)

section \<open>Readers of codes\<close>

text \<open>
  A reader takes values off the front of a byte string.  Its interface: every valid value is read from its
  code, whatever follows; what a reader accepts is the code of the value it yields; and a reader is
  defined on every byte string.  Then it accepts exactly the strings that begin with a code, and no
  code is the beginning of another one.
\<close>

locale cbs_reader =
  fixes rd :: "CBS \<Rightarrow> (bool \<times> CBS \<times> 'v) option"
    and code :: "'v \<Rightarrow> bytes"
    and valid :: "'v \<Rightarrow> bool"
  assumes reads: "wf_cbs cbs \<Longrightarrow> valid v \<Longrightarrow> cbs_bytes cbs = code v @ rest \<Longrightarrow>
      rd cbs = Some (True, cbs_drop (length (code v)) cbs, v)"
    and accepts: "wf_cbs cbs \<Longrightarrow> rd cbs = Some (True, cbs', v) \<Longrightarrow> valid v \<and> (\<exists>rest. cbs_bytes cbs = code v @ rest)"
    and defined: "wf_cbs cbs \<Longrightarrow> rd cbs \<noteq> None"
begin

lemma exact:
  assumes "wf_cbs cbs"
  shows "rd cbs = Some (True, cbs', v) \<longleftrightarrow>
    valid v \<and> (\<exists>rest. cbs_bytes cbs = code v @ rest) \<and> cbs' = cbs_drop (length (code v)) cbs"
proof
  assume r: "rd cbs = Some (True, cbs', v)"
  then obtain rest where "valid v" "cbs_bytes cbs = code v @ rest" using accepts assms by metis
  then show "valid v \<and> (\<exists>rest. cbs_bytes cbs = code v @ rest) \<and> cbs' = cbs_drop (length (code v)) cbs"
    using reads [of cbs v rest] r assms by simp
qed (use reads assms in metis)

lemma rejects:
  assumes "wf_cbs cbs"
  shows "(\<exists>cbs' v. rd cbs = Some (False, cbs', v)) \<longleftrightarrow> (\<nexists>v rest. valid v \<and> cbs_bytes cbs = code v @ rest)"
proof -
  obtain ok cbs' v where r: "rd cbs = Some (ok, cbs', v)" using defined [OF assms] by auto
  show ?thesis
  proof (cases ok)
    case True
    then have "valid v \<and> (\<exists>rest. cbs_bytes cbs = code v @ rest)" using r exact [OF assms, of cbs' v] by simp
    moreover have "rd cbs \<noteq> Some (False, x)" for x using r True by simp
    ultimately show ?thesis by auto
  next
    case False
    moreover have "\<not> (valid w \<and> cbs_bytes cbs = code w @ rest)" for w rest
      using reads [OF assms, of w rest] r False by auto
    ultimately show ?thesis using r by auto
  qed
qed

lemma reads_view:
  assumes "wf_cbs cbs" "valid v" "cbs_bytes cbs = code v @ rest"
  shows "\<exists>cbs'. rd cbs = Some (True, cbs', v) \<and> wf_cbs cbs' \<and> cbs_bytes cbs' = rest"
  using reads [OF assms] assms by simp

lemma prefix_free:
  assumes "valid v" "valid w" "code v @ xs = code w @ ys" "length (code v @ xs) < 2 ^ 64"
  shows "v = w \<and> xs = ys"
proof -
  define cbs where "cbs = CBS_init (code v @ xs) (of_nat (length (code v @ xs)))"
  have "unat (of_nat (length (code v @ xs)) :: u64) = length (code v @ xs)"
    using assms(4) by (rule unat_of_nat_u64)
  then have "wf_cbs cbs" "cbs_bytes cbs = code v @ xs"
    by (simp_all only: cbs_def wf_cbs_def cbs_bytes_def CBS_init_def CBS.simps take_all order_refl)
  then have "v = w" using reads [of cbs v xs] reads [of cbs w ys] assms(1-3) by simp
  then show ?thesis using assms(3) by simp
qed

end

section \<open>Base 128\<close>

text \<open>The groups of seven bits of a number, the most significant one first and without leading zeros.\<close>

fun base128_more :: "nat \<Rightarrow> bytes" where
  "base128_more n = (if n = 0 then [] else base128_more (n div 128) @ [of_nat (n mod 128 + 128)])"

declare base128_more.simps [simp del]

definition base128 :: "nat \<Rightarrow> bytes" where
  "base128 n = base128_more (n div 128) @ [of_nat (n mod 128)]"

lemma base128_more_0 [simp]: "base128_more 0 = []"
  by (simp add: base128_more.simps)

lemma base128_more_pos: "n \<noteq> 0 \<Longrightarrow> base128_more n = base128_more (n div 128) @ [of_nat (n mod 128 + 128)]"
  by (subst base128_more.simps) simp

lemma base128_not_Nil [simp]: "base128 n \<noteq> []"
  by (simp add: base128_def)

text \<open>One round of the loop.\<close>

lemma unat_group: "unat v < 2 ^ 57 \<Longrightarrow> unat (push_bit 7 v OR ucast (b AND 0x7F) :: u64) = unat v * 128 + unat (b :: byte) mod 128"
proof -
  assume v: "unat v < 2 ^ 57"
  have b: "unat (ucast (b AND 0x7F) :: u64) = unat b mod 128"
    by (simp add: unat_ucast and_7F unat_take_bit)
  show ?thesis using v by (subst unat_push_bit_or) (simp_all add: b)
qed

lemma drop_57: "drop_bit 57 (v :: u64) = 0 \<longleftrightarrow> unat v < 2 ^ 57"
proof -
  have "drop_bit 57 v = 0 \<longleftrightarrow> unat v div 2 ^ 57 = 0" by (simp add: word_unat_eq_iff unat_drop_bit)
  then show ?thesis by (simp add: div_eq_0_iff)
qed

lemma byte_80: "b = 0x80 \<longleftrightarrow> unat (b :: byte) = 128"
  by (simp add: word_unat_eq_iff)

lemma base128_step:
  assumes "wf_cbs cbs" "cbs_bytes cbs = b # rest" "unat v < 2 ^ 57" "unat v \<noteq> 0 \<or> unat b \<noteq> 128"
  shows "base128_loop (Suc n) cbs v out =
    (let v' = of_nat (unat v * 128 + unat b mod 128) in
     if 128 \<le> unat b then base128_loop n (cbs_drop 1 cbs) v' out else Some (True, cbs_drop 1 cbs, v'))"
proof -
  have "push_bit 7 v OR ucast (b AND 0x7F) = (of_nat (unat v * 128 + unat b mod 128) :: u64)"
    by (subst unat_group [symmetric, OF assms(3)]) simp
  moreover have "\<not> (v = 0 \<and> b = 0x80)" using assms(4) by (auto simp: byte_80)
  ultimately show ?thesis using assms(1-3) drop_57 [of v] and_80 [of b]
    by (auto simp: CBS_get_u8_eq Let_def not_less)
qed

lemma base128_loop_more:
  assumes "wf_cbs cbs" "cbs_bytes cbs = base128_more n @ rest" "n < 2 ^ 64"
  shows "base128_loop (length (base128_more n) + k) cbs 0 out =
    base128_loop k (cbs_drop (length (base128_more n)) cbs) (of_nat n) out"
  using assms
proof (induction n arbitrary: rest k rule: base128_more.induct)
  case (1 n)
  show ?case
  proof (cases "n = 0")
    case False
    let ?b = "of_nat (n mod 128 + 128) :: byte" and ?m = "length (base128_more (n div 128))"
    have b: "unat ?b = n mod 128 + 128" by (rule unat_of_nat_byte) simp
    have d: "n div 128 < 2 ^ 57" using 1(4) by (simp add: less_mult_imp_div_less)
    have u: "unat (of_nat (n div 128) :: u64) = n div 128" using d by (simp add: unat_of_nat_u64)
    have bytes: "cbs_bytes cbs = base128_more (n div 128) @ ?b # rest"
      using 1(3) False by (simp add: base128_more_pos)
    have nz: "n div 128 \<noteq> 0 \<or> n mod 128 \<noteq> 0" using False by (metis div_mult_mod_eq mult_0 add_0)
    have "base128_loop (length (base128_more n) + k) cbs 0 out = base128_loop (?m + Suc k) cbs 0 out"
      using False by (simp add: base128_more_pos)
    also have "\<dots> = base128_loop (Suc k) (cbs_drop ?m cbs) (of_nat (n div 128)) out"
      using d by (intro 1(1) [OF False 1(2) bytes]) simp
    also have "\<dots> = base128_loop k (cbs_drop (Suc ?m) cbs) (of_nat n) out"
      using 1(2) bytes d u b nz by (subst base128_step [where b = ?b and rest = rest]) (auto simp: Let_def)
    finally show ?thesis using False by (simp add: base128_more_pos)
  qed simp
qed

lemma base128_reads:
  assumes "wf_cbs cbs" "cbs_bytes cbs = base128 (unat v) @ rest"
  shows "parse_base128_integer cbs out = Some (True, cbs_drop (length (base128 (unat v))) cbs, v)"
proof -
  let ?n = "unat v" and ?b = "of_nat (unat v mod 128) :: byte"
  let ?m = "length (base128_more (?n div 128))"
  have n: "?n < 2 ^ 64" by (rule unat_u64_less)
  have d: "?n div 128 < 2 ^ 57" using n by (simp add: less_mult_imp_div_less)
  have u: "unat (of_nat (?n div 128) :: u64) = ?n div 128" using d by (simp add: unat_of_nat_u64)
  have b: "unat ?b = ?n mod 128" by (rule unat_of_nat_byte) (simp add: less_trans [of _ 128])
  have bytes: "cbs_bytes cbs = base128_more (?n div 128) @ ?b # rest" using assms(2) by (simp add: base128_def)
  then have "?m < unat (cbs_len cbs)" using length_cbs_bytes [OF assms(1)] by simp
  then obtain k where k: "Suc (unat (cbs_len cbs)) = ?m + Suc k" by (metis add_Suc_right less_imp_Suc_add)
  have "parse_base128_integer cbs out = base128_loop (Suc k) (cbs_drop ?m cbs) (of_nat (?n div 128)) out"
    unfolding parse_base128_integer_def k using d by (intro base128_loop_more [OF assms(1) bytes]) simp
  also have "\<dots> = Some (True, cbs_drop (Suc ?m) cbs, of_nat ?n)"
    using assms(1) bytes d u b
    by (subst base128_step [where b = ?b and rest = rest]) (auto simp: Let_def)
  finally show ?thesis by (simp add: base128_def)
qed

lemma base128_loop_accepts:
  "wf_cbs cbs \<Longrightarrow> base128_loop k cbs v out = Some (True, cbs', w) \<Longrightarrow>
     \<exists>code rest. cbs_bytes cbs = code @ rest \<and> base128_more (unat v) @ code = base128 (unat w)"
proof (induction k arbitrary: cbs v)
  case (Suc k)
  then obtain b bs where bytes: "cbs_bytes cbs = b # bs"
    by (cases "cbs_bytes cbs") (auto simp: CBS_get_u8_eq)
  have v: "unat v < 2 ^ 57" and nz: "unat v \<noteq> 0 \<or> unat b \<noteq> 128"
    using Suc.prems bytes drop_57 [of v] by (auto simp: CBS_get_u8_eq byte_80 unsigned_eq_0_iff split: if_splits)
  let ?v = "unat v * 128 + unat b mod 128"
  have lt: "?v < 2 ^ 64" using v by simp
  have w: "(if 128 \<le> unat b then base128_loop k (cbs_drop 1 cbs) (of_nat ?v) out
      else Some (True, cbs_drop 1 cbs, of_nat ?v)) = Some (True, cbs', w)"
    using Suc.prems(2) base128_step [OF Suc.prems(1) bytes v nz, of k out] by (simp add: Let_def)
  show ?case
  proof (cases "128 \<le> unat b")
    case True
    have b: "unat b = unat b mod 128 + 128" using True unat_byte_less [of b] by (auto simp: mod_if)
    then have "?v \<noteq> 0" using nz by auto
    moreover have "(of_nat (unat b mod 128 + 128) :: byte) = b" unfolding b [symmetric] by simp
    ultimately have "base128_more ?v = base128_more (unat v) @ [b]" by (simp add: base128_more_pos [of ?v])
    moreover have "wf_cbs (cbs_drop 1 cbs)" "cbs_bytes (cbs_drop 1 cbs) = bs" using Suc.prems(1) bytes by simp_all
    moreover obtain code rest where "cbs_bytes (cbs_drop 1 cbs) = code @ rest"
      "base128_more (unat (of_nat ?v :: u64)) @ code = base128 (unat w)"
      using Suc.IH [OF calculation(2), of "of_nat ?v"] w True by (auto simp del: One_nat_def of_nat_add of_nat_mult)
    ultimately have "cbs_bytes cbs = (b # code) @ rest" "base128_more (unat v) @ b # code = base128 (unat w)"
      using bytes unfolding unat_of_nat_u64 [OF lt] by simp_all
    then show ?thesis by blast
  next
    case False
    then have b: "unat b mod 128 = unat b" and "w = of_nat ?v" using w by auto
    then have "unat w = ?v" using unat_of_nat_u64 [OF lt] by simp
    then have "base128 (unat w) = base128_more (unat v) @ [b]"
      unfolding base128_def b using False by simp
    moreover have "cbs_bytes cbs = [b] @ bs" using bytes by simp
    ultimately show ?thesis by metis
  qed
qed simp

lemma base128_loop_defined: "wf_cbs cbs \<Longrightarrow> length (cbs_bytes cbs) < k \<Longrightarrow> base128_loop k cbs v out \<noteq> None"
  by (induction k arbitrary: cbs v) (auto simp: CBS_get_u8_eq Let_def split: list.split)

interpretation base128_reader: cbs_reader "\<lambda>cbs. parse_base128_integer cbs out" "\<lambda>v. base128 (unat v)" "\<lambda>_. True"
proof
  fix cbs cbs' v
  assume "wf_cbs cbs" "parse_base128_integer cbs out = Some (True, cbs', v)"
  then show "True \<and> (\<exists>rest. cbs_bytes cbs = base128 (unat v) @ rest)"
    using base128_loop_accepts [of cbs _ 0 out cbs' v] by (auto simp: parse_base128_integer_def simp del: base128_loop.simps)
next
  show "wf_cbs cbs \<Longrightarrow> parse_base128_integer cbs out \<noteq> None" for cbs
    unfolding parse_base128_integer_def by (rule base128_loop_defined) (simp_all add: length_cbs_bytes)
qed (simp add: base128_reads)

section \<open>Big-endian numbers\<close>

definition be_nat :: "bytes \<Rightarrow> nat" where
  "be_nat bs = foldl (\<lambda>n b. n * 256 + unat b) 0 bs"

text \<open>The bytes of a number without leading zeros.\<close>

fun nat_be :: "nat \<Rightarrow> bytes" where
  "nat_be n = (if n = 0 then [] else nat_be (n div 256) @ [of_nat (n mod 256)])"

declare nat_be.simps [simp del]

lemma be_nat_Nil [simp]: "be_nat [] = 0"
  by (simp add: be_nat_def)

lemma be_nat_snoc [simp]: "be_nat (bs @ [b]) = be_nat bs * 256 + unat b"
  by (simp add: be_nat_def)

lemma be_nat_Cons: "be_nat (b # bs) = unat b * 256 ^ length bs + be_nat bs"
  by (induction bs rule: rev_induct) (simp_all add: be_nat_def)

lemma be_nat_less: "be_nat bs < 256 ^ length bs"
proof (induction bs rule: rev_induct)
  case (snoc b bs)
  then show ?case using unat_byte_less [of b] by simp
qed simp

lemma nat_be_0 [simp]: "nat_be 0 = []"
  by (simp add: nat_be.simps)

lemma nat_be_pos: "n \<noteq> 0 \<Longrightarrow> nat_be n = nat_be (n div 256) @ [of_nat (n mod 256)]"
  by (subst nat_be.simps) simp

lemma be_nat_be [simp]: "be_nat (nat_be n) = n"
proof (induction n rule: nat_be.induct)
  case (1 n)
  then show ?case by (cases "n = 0") (simp_all add: nat_be_pos unat_of_nat_byte)
qed

lemma nat_be_hd: "n \<noteq> 0 \<Longrightarrow> nat_be n \<noteq> [] \<and> hd (nat_be n) \<noteq> 0"
proof (induction n rule: nat_be.induct)
  case (1 n)
  show ?case
  proof (cases "n < 256")
    case True
    then have "(of_nat n :: byte) \<noteq> 0" using 1(2) by (simp add: word_unat_eq_iff unat_of_nat_byte)
    then show ?thesis using True 1(2) by (simp add: nat_be_pos)
  next
    case False
    then have "n div 256 \<noteq> 0" by (simp add: div_eq_0_iff)
    then show ?thesis using 1 by (simp add: nat_be_pos [of n])
  qed
qed

lemma nat_be_nat: "bs = [] \<or> hd bs \<noteq> 0 \<Longrightarrow> nat_be (be_nat bs) = bs"
proof (induction bs rule: rev_induct)
  case (snoc b bs)
  have b: "unat b < 256" by (rule unat_byte_less)
  show ?case
  proof (cases "bs = []")
    case True
    then have "unat b \<noteq> 0" using snoc(2) by (simp add: word_unat_eq_iff)
    then show ?thesis using True b by (simp add: nat_be_pos be_nat_def)
  next
    case False
    then have ih: "nat_be (be_nat bs) = bs" using snoc by simp
    then have "be_nat bs \<noteq> 0" using False by (metis nat_be_0)
    then show ?thesis using b ih by (simp add: nat_be_pos [of "be_nat bs * 256 + unat b"])
  qed
qed simp

lemma length_nat_be: "length (nat_be n) \<le> k \<longleftrightarrow> n < 256 ^ k"
proof (induction k arbitrary: n)
  case 0
  then show ?case by (simp add: nat_be.simps)
next
  case (Suc k)
  show ?case
  proof (cases "n = 0")
    case False
    have "n div 256 < 256 ^ k \<longleftrightarrow> n < 256 ^ Suc k" by (simp add: div_less_iff_less_mult mult.commute)
    then show ?thesis using False Suc by (simp add: nat_be_pos)
  qed simp
qed

text \<open>Leading byte and size: the first of \<open>k\<close> bytes is zero when the number is below \<open>256 ^ (k - 1)\<close>.\<close>

lemma be_nat_hd: "bs \<noteq> [] \<Longrightarrow> hd bs \<noteq> 0 \<longleftrightarrow> 256 ^ (length bs - 1) \<le> be_nat bs"
proof -
  assume "bs \<noteq> []"
  then obtain b cs where bs: "bs = b # cs" by (cases bs) auto
  have z: "b = 0 \<longleftrightarrow> unat b = 0" by (simp add: word_unat_eq_iff)
  have "be_nat cs < 256 ^ length cs" by (rule be_nat_less)
  moreover have "unat b \<noteq> 0 \<Longrightarrow> 256 ^ length cs \<le> unat b * 256 ^ length cs" by simp
  ultimately show ?thesis unfolding bs be_nat_Cons list.sel z by (cases "unat b = 0") (auto intro: trans_le_add1)
qed

lemma le_word_Cons_add: "8 \<le> LENGTH('a) \<Longrightarrow> le_word (b # bs) = (le_word bs :: 'a::len word) * 256 + ucast b"
proof -
  assume "8 \<le> LENGTH('a)"
  then have "(256 :: nat) \<le> 2 ^ LENGTH('a)" using power_increasing [of 8 "LENGTH('a)" "2::nat"] by simp
  then have "unat (ucast b :: 'a word) < 2 ^ 8" using unat_byte_less [of b] by (simp add: unat_ucast)
  then show ?thesis
    by (simp only: le_word.simps or.commute [of "ucast b"] push_bit_or_add) (simp add: push_bit_eq_mult)
qed

lemma of_nat_be_nat: "8 \<le> LENGTH('a) \<Longrightarrow> of_nat (be_nat bs) = (le_word (rev bs) :: 'a::len word)"
  by (induction bs rule: rev_induct) (simp_all add: le_word_Cons_add del: le_word.simps(2))

lemma unat_le_word_rev: "length bs \<le> 8 \<Longrightarrow> unat (le_word (rev bs) :: u64) = be_nat bs"
proof -
  assume "length bs \<le> 8"
  then have "(256::nat) ^ length bs \<le> 2 ^ 64" using power_increasing [of "length bs" 8 "256::nat"] by simp
  then have "be_nat bs < 2 ^ 64" using be_nat_less [of bs] by simp
  then show ?thesis using unat_of_nat_u64 [of "be_nat bs"] of_nat_be_nat [where 'a = 64, of bs] by simp
qed

lemma get_u_loop_eq:
  "wf_cbs cbs \<Longrightarrow> i + k \<le> length (cbs_bytes cbs) \<Longrightarrow>
     get_u_loop k (cbs_data cbs) i (le_word (rev (take i (cbs_bytes cbs)))) = Some (le_word (rev (take (i + k) (cbs_bytes cbs))))"
proof (induction k arbitrary: i)
  case (Suc k)
  then have "rev (take (Suc i) (cbs_bytes cbs)) = cbs_bytes cbs ! i # rev (take i (cbs_bytes cbs))"
    by (simp add: take_Suc_conv_app_nth)
  moreover have "byte_at (cbs_data cbs) i = Some (cbs_bytes cbs ! i)" using Suc.prems by (simp add: cbs_data_nth)
  ultimately show ?case using Suc.IH [of "Suc i"] Suc.prems by (simp add: or.commute)
qed simp

lemma cbs_get_u_eq:
  "wf_cbs cbs \<Longrightarrow> cbs_get_u cbs out n =
     (if unat n \<le> length (cbs_bytes cbs)
      then Some (True, cbs_drop (unat n) cbs, le_word (rev (take (unat n) (cbs_bytes cbs))))
      else Some (False, cbs, out))"
  using get_u_loop_eq [of cbs 0 "unat n"] by (simp add: cbs_get_u_def cbs_get_eq)

section \<open>Numbers of fixed width\<close>

lemma fixed_reader:
  assumes rd: "\<And>cbs. wf_cbs cbs \<Longrightarrow> rd cbs =
      (if k \<le> length (cbs_bytes cbs) then Some (True, cbs_drop k cbs, dec (take k (cbs_bytes cbs))) else Some (False, cbs, out))"
    and len: "\<And>v. length (code v) = k"
    and dec: "\<And>v. valid v \<Longrightarrow> dec (code v) = v"
    and code: "\<And>bs. length bs = k \<Longrightarrow> code (dec bs) = bs \<and> valid (dec bs)"
  shows "cbs_reader rd code valid"
proof
  fix cbs v rest
  assume "wf_cbs cbs" "valid v" "cbs_bytes cbs = code v @ rest"
  then show "rd cbs = Some (True, cbs_drop (length (code v)) cbs, v)" using rd len dec by simp
next
  fix cbs cbs' v
  assume "wf_cbs cbs" "rd cbs = Some (True, cbs', v)"
  then have k: "k \<le> length (cbs_bytes cbs)" and v: "v = dec (take k (cbs_bytes cbs))" using rd by (auto split: if_splits)
  then have "code v = take k (cbs_bytes cbs)" "valid v" using code [of "take k (cbs_bytes cbs)"] by simp_all
  then show "valid v \<and> (\<exists>rest. cbs_bytes cbs = code v @ rest)" by (metis append_take_drop_id)
qed (use rd in auto)

lemma ucast_le_word_rev: "LENGTH('b) \<le> LENGTH('a) \<Longrightarrow> (ucast (le_word bs :: 'a::len word) :: 'b::len word) = le_word bs"
  by (rule bit_word_eqI) (auto simp: bit_ucast_iff bit_le_word)

lemma le_word_code: "le_word (word_le_bytes 2 v) = (v :: u16)"
  by (rule le_word_le_bytes) simp

lemma le_word_code3:
  assumes "unat v < 2 ^ 24"
  shows "le_word (word_le_bytes 3 v) = (v :: u32)"
proof (rule bit_word_eqI)
  fix i
  assume "i < LENGTH(32)"
  moreover have "v = take_bit 24 v" using assms by (simp add: word_unat_eq_iff unat_take_bit)
  then have "bit v i \<Longrightarrow> i < 24" by (metis bit_take_bit_iff)
  ultimately show "bit (le_word (word_le_bytes 3 v) :: u32) i = bit v i"
    by (auto simp: bit_le_word nth_word_le_bytes bit_ucast_iff bit_drop_bit_eq less_mult_imp_div_less)
qed

section \<open>Tags\<close>

text \<open>
  A tag in memory: three bits of class and form, 29 bits of tag number.  Its octets have the same three
  bits in front; a number from 31 on follows in base 128.
\<close>

definition tag_octets :: "u32 \<Rightarrow> bytes" where
  "tag_octets tag = (let c = unat tag div 2 ^ 29; k = unat tag mod 2 ^ 29 in
     if k < 31 then [of_nat (c * 32 + k)] else of_nat (c * 32 + 31) # base128 k)"

lemma tag_octets_not_Nil [simp]: "tag_octets tag \<noteq> []"
  by (simp add: tag_octets_def Let_def)

lemma and_E0: "x AND 0xE0 = push_bit 5 (take_bit 3 (drop_bit 5 (x :: u32)))"
proof -
  have e: "(0xE0 :: u32) = push_bit 5 (mask 3)" by (simp add: mask_eq_exp_minus_1 push_bit_eq_mult)
  show ?thesis
    by (subst e, rule bit_word_eqI) (auto simp: bit_and_iff bit_push_bit_iff bit_take_bit_iff bit_mask_iff bit_drop_bit_eq)
qed

lemma unat_and_1F: "unat (b AND 0x1F :: byte) = unat b mod 32"
proof -
  have e: "b AND 0x1F = take_bit 5 b" by (simp add: take_bit_eq_mask mask_eq_exp_minus_1)
  show ?thesis unfolding e by (simp add: unat_take_bit)
qed

lemma tag_word:
  assumes "k < 2 ^ 29"
  shows "push_bit 24 (ucast (b :: byte) AND 0xE0) OR of_nat k = (of_nat (unat b div 32 * 2 ^ 29 + k) :: u32)"
proof (rule word_unat_eq_iff [THEN iffD2])
  let ?c = "take_bit 3 (drop_bit 5 (ucast b)) :: u32"
  have c: "unat ?c = unat b div 32"
    using unat_byte_less [of b] by (simp add: unat_take_bit unat_drop_bit unat_ucast less_mult_imp_div_less)
  have k: "unat (of_nat k :: u32) = k" using assms by (intro unat_of_nat_u32) simp
  have "unat b div 32 < 8" using unat_byte_less [of b] by (simp add: less_mult_imp_div_less)
  then have lt: "unat b div 32 * 2 ^ 29 + k < 2 ^ 32" using assms by simp
  have "unat (push_bit 29 ?c OR of_nat k) = unat b div 32 * 2 ^ 29 + k"
    using lt assms by (subst unat_push_bit_or) (simp_all add: c k)
  then show "unat (push_bit 24 (ucast b AND 0xE0) OR of_nat k :: u32) = unat (of_nat (unat b div 32 * 2 ^ 29 + k) :: u32)"
    using unat_of_nat_u32 [OF lt] by (simp only: and_E0 push_bit_push_bit) simp
qed

lemma parse_asn1_tag_eq:
  assumes "wf_cbs cbs" "cbs_bytes cbs = b # rest"
  shows "parse_asn1_tag cbs out =
    (if unat b mod 32 = 31 then do {
       (ok, cbs, v) \<leftarrow> parse_base128_integer (cbs_drop 1 cbs) 0;
       if ok \<and> unat v < 2 ^ 29 \<and> 31 \<le> unat v then Some (True, cbs, of_nat (unat b div 32 * 2 ^ 29 + unat v))
       else Some (False, cbs, out)
     }
     else Some (True, cbs_drop 1 cbs, of_nat (unat b div 32 * 2 ^ 29 + unat b mod 32)))"
proof -
  have m: "unat (ucast CBS_ASN1_TAG_NUMBER_MASK :: u64) = 2 ^ 29 - 1"
    by (simp add: CBS_ASN1_TAG_NUMBER_MASK_def CBS_ASN1_TAG_SHIFT_def push_bit_eq_mult)
  have i: "ucast (b AND 0x1F) = (0x1F :: u32) \<longleftrightarrow> unat b mod 32 = 31"
    by (simp add: word_unat_eq_iff unat_and_1F)
  have n: "(ucast (b AND 0x1F) :: u32) = of_nat (unat b mod 32)"
    by (rule word_unat_eq_iff [THEN iffD2]) (simp add: unat_and_1F unat_of_nat)
  have v: "(ucast v :: u32) = of_nat (unat v)" for v :: u64
    by (rule word_unat_eq_iff [THEN iffD2]) (simp add: unat_ucast unat_of_nat take_bit_eq_mod)
  have c: "v > ucast CBS_ASN1_TAG_NUMBER_MASK \<longleftrightarrow> \<not> unat v < 2 ^ 29" "v < 0x1F \<longleftrightarrow> \<not> 31 \<le> unat v" for v :: u64
    by (simp_all only: word_less_nat_alt m) auto
  have low: "unat b mod 32 < 2 ^ 29" by (rule less_trans [of _ 32]) simp_all
  have step: "parse_asn1_tag cbs out =
    (if unat b mod 32 = 31 then do {
       (ok, cbs, v) \<leftarrow> parse_base128_integer (cbs_drop 1 cbs) 0;
       if \<not> ok \<or> \<not> unat v < 2 ^ 29 \<or> \<not> 31 \<le> unat v then Some (False, cbs, out)
       else Some (True, cbs, push_bit 24 (ucast b AND 0xE0) OR of_nat (unat v))
     }
     else Some (True, cbs_drop 1 cbs, push_bit 24 (ucast b AND 0xE0) OR of_nat (unat b mod 32)))"
    using assms by (cases "unat b mod 32 = 31")
      (simp_all add: parse_asn1_tag_def CBS_get_u8_eq CBS_ASN1_TAG_SHIFT_def Let_def i [unfolded n] n c v [symmetric] del: push_bit_and cong: if_cong)
  have tv: "push_bit 24 (ucast b AND 0xE0) OR ucast v = (of_nat (unat b div 32 * 2 ^ 29 + unat v) :: u32)"
    if "unat v < 2 ^ 29" for v :: u64
    unfolding v by (rule tag_word) (rule that)
  show ?thesis unfolding step tag_word [OF low]
    by (cases "parse_base128_integer (cbs_drop 1 cbs) 0") (auto simp: tv simp del: push_bit_and of_nat_add of_nat_mult)
qed

lemma tag_split: "unat (tag :: u32) div 2 ^ 29 < 8"
  using unat_u32_less [of tag] by (simp add: less_mult_imp_div_less)

lemma tag_octets_word:
  assumes "c < 8" "k < 2 ^ 29"
  shows "tag_octets (of_nat (c * 2 ^ 29 + k)) = (if k < 31 then [of_nat (c * 32 + k)] else of_nat (c * 32 + 31) # base128 k)"
proof -
  have "unat (of_nat (c * 2 ^ 29 + k) :: u32) = c * 2 ^ 29 + k" using assms by (intro unat_of_nat_u32) simp
  then have "unat (of_nat (c * 2 ^ 29 + k) :: u32) div 2 ^ 29 = c" "unat (of_nat (c * 2 ^ 29 + k) :: u32) mod 2 ^ 29 = k"
    using assms(2) by (simp_all only:) simp_all
  then show ?thesis unfolding tag_octets_def Let_def by presburger
qed

interpretation tag_reader: cbs_reader "\<lambda>cbs. parse_asn1_tag cbs out" tag_octets "\<lambda>_. True"
proof
  fix cbs tag rest
  assume wf: "wf_cbs cbs" and bytes: "cbs_bytes cbs = tag_octets tag @ rest"
  define c k where "c = unat tag div 2 ^ 29" and "k = unat tag mod 2 ^ 29"
  have t: "of_nat (c * 2 ^ 29 + k) = tag" by (simp only: c_def k_def div_mult_mod_eq) simp
  have c: "c < 8" unfolding c_def by (rule tag_split)
  have k: "k < 2 ^ 29" by (simp add: k_def)
  have octets: "tag_octets tag = (if k < 31 then [of_nat (c * 32 + k)] else of_nat (c * 32 + 31) # base128 k)"
    using tag_octets_word [OF c k] unfolding t .
  show "parse_asn1_tag cbs out = Some (True, cbs_drop (length (tag_octets tag)) cbs, tag)"
  proof (cases "k < 31")
    case True
    have "unat (of_nat (c * 32 + k) :: byte) = c * 32 + k" using c True by (intro unat_of_nat_byte) simp
    then show ?thesis using True wf bytes t by (simp add: octets parse_asn1_tag_eq)
  next
    case False
    let ?b = "of_nat (c * 32 + 31) :: byte"
    have b: "unat ?b = c * 32 + 31" using c by (intro unat_of_nat_byte) simp
    have u: "unat (of_nat k :: u64) = k" using k by (intro unat_of_nat_u64) simp
    have "cbs_bytes cbs = ?b # base128 k @ rest" using bytes False by (simp add: octets)
    moreover from this have "parse_base128_integer (cbs_drop 1 cbs) 0 =
        Some (True, cbs_drop (length (base128 k)) (cbs_drop 1 cbs), of_nat k)"
      using base128_reader.reads [of "cbs_drop 1 cbs" "of_nat k" rest] wf u by simp
    ultimately show ?thesis using False wf k b u t
      by (simp add: parse_asn1_tag_eq [OF wf] octets)
  qed
next
  fix cbs cbs' tag
  assume wf: "wf_cbs cbs" and r: "parse_asn1_tag cbs out = Some (True, cbs', tag)"
  then obtain b bs where bytes: "cbs_bytes cbs = b # bs"
    by (cases "cbs_bytes cbs") (auto simp: parse_asn1_tag_def CBS_get_u8_eq)
  define c where "c = unat b div 32"
  have c: "c < 8" using unat_byte_less [of b] by (simp add: c_def less_mult_imp_div_less)
  have b: "of_nat (c * 32 + unat b mod 32) = b" by (simp only: c_def div_mult_mod_eq) simp
  have "\<exists>rest. cbs_bytes cbs = tag_octets tag @ rest"
  proof (cases "unat b mod 32 = 31")
    case False
    then have "unat b mod 32 < 31" "unat b mod 32 < 2 ^ 29"
      using mod_less_divisor [of 32 "unat b"] by (simp_all del: mod_less_divisor)
    moreover have "tag = of_nat (c * 2 ^ 29 + unat b mod 32)" using r False parse_asn1_tag_eq [OF wf bytes] by (simp add: c_def)
    ultimately have "tag_octets tag = [b]" using tag_octets_word [OF c, of "unat b mod 32"] b by simp
    then show ?thesis using bytes by simp
  next
    case True
    then obtain v where v: "parse_base128_integer (cbs_drop 1 cbs) 0 = Some (True, cbs', v)"
      "31 \<le> unat v" "unat v < 2 ^ 29" "tag = of_nat (c * 2 ^ 29 + unat v)"
      using r parse_asn1_tag_eq [OF wf bytes, of out]
      by (auto simp: c_def split: Option.bind_splits if_splits simp del: of_nat_add of_nat_mult)
    obtain rest where "bs = base128 (unat v) @ rest"
      using base128_reader.accepts [OF _ v(1)] wf bytes by auto
    then show ?thesis using bytes b True tag_octets_word [OF c v(3)] v(2,4) by simp
  qed
  then show "True \<and> (\<exists>rest. cbs_bytes cbs = tag_octets tag @ rest)" by simp
next
  fix cbs
  assume wf: "wf_cbs cbs"
  show "parse_asn1_tag cbs out \<noteq> None"
  proof (cases "cbs_bytes cbs")
    case Nil
    then show ?thesis using wf by (simp add: parse_asn1_tag_def CBS_get_u8_eq)
  next
    case (Cons b bs)
    then have "parse_base128_integer (cbs_drop 1 cbs) 0 \<noteq> None" using wf by (intro base128_reader.defined) simp
    then show ?thesis using parse_asn1_tag_eq [OF wf Cons] by auto
  qed
qed

section \<open>Elements\<close>

definition length_octets :: "nat \<Rightarrow> bytes" where
  "length_octets n = (if n < 128 then [of_nat n] else of_nat (128 + length (nat_be n)) # nat_be n)"

text \<open>The distinguished encoding of an element: the tag, the shortest form of the length, the contents.\<close>

definition der_header :: "u32 \<Rightarrow> nat \<Rightarrow> bytes" where
  "der_header tag n = tag_octets tag @ length_octets n"

definition der_element :: "u32 \<Rightarrow> bytes \<Rightarrow> bytes" where
  "der_element tag contents = der_header tag (length contents) @ contents"

definition element_got :: "CBS \<Rightarrow> element_out \<Rightarrow> nat \<Rightarrow> nat \<Rightarrow> (bool \<times> CBS \<times> element_out) option" where
  "element_got cbs eo hl n =
     (if n \<le> length (cbs_bytes cbs)
      then Some (True, cbs_drop n cbs, eo\<lparr>eo_header_len := of_nat hl, eo_out := CBS_init (cbs_data cbs) (of_nat n)\<rparr>)
      else Some (False, cbs, eo\<lparr>eo_header_len := of_nat hl\<rparr>))"

lemma get_element_eq:
  assumes "wf_cbs cbs" "n < 2 ^ 64"
  shows "get_element cbs (eo\<lparr>eo_header_len := of_nat hl\<rparr>) (of_nat n) = element_got cbs eo hl n"
  using assms by (simp add: get_element_def CBS_get_bytes_eq element_got_def unat_of_nat_u64 del: of_nat_add)

lemma CBS_len_drop: "CBS_len cbs - CBS_len (cbs_drop n cbs) = of_nat n"
  by (simp add: CBS_len_def cbs_drop_def)

lemma long_form_eq:
  assumes wf: "wf_cbs header" "wf_cbs cbs" and k: "k < 128" and hl: "hl < 2 ^ 48"
    and eo: "eo_tag eo = tag" and bytes: "cbs_bytes header = bs"
  shows "long_form_element cbs header eo (of_nat hl) (of_nat k) False =
    (if k = 0 \<or> 4 < k \<or> length bs < k \<or> be_nat (take k bs) < 128 \<or> hd bs = 0 then Some (False, cbs, eo)
     else element_got cbs eo (hl + k) (hl + k + be_nat (take k bs)))"
proof -
  have u: "unat (of_nat k :: u64) = k" using k by (intro unat_of_nat_u64) simp
  have cond: "of_nat k = (0 :: u64) \<longleftrightarrow> k = 0" "(4 :: u64) < of_nat k \<longleftrightarrow> 4 < k"
    using u by (simp_all add: word_unat_eq_iff word_less_nat_alt)
  show ?thesis
  proof (cases "k = 0 \<or> 4 < k \<or> length bs < k")
    case True
    then show ?thesis using wf bytes u cond by (auto simp: long_form_element_def cbs_get_u_eq)
  next
    case False
    then have kk: "k \<noteq> 0" "k \<le> 4" "k \<le> length bs" by auto
    define n where "n = be_nat (take k bs)"
    let ?len = "le_word (rev (take k bs)) :: u64"
    have len: "length (take k bs) = k" using kk by simp
    have n: "unat ?len = n" unfolding n_def using kk by (intro unat_le_word_rev) simp
    have "n < 256 ^ k" unfolding n_def using be_nat_less [of "take k bs"] len by simp
    also have "(256::nat) ^ k \<le> 256 ^ 4" using kk by (intro power_increasing) simp_all
    finally have n4: "n < 2 ^ 32" by simp
    have sh: "unat ((of_nat k - 1) * 8 :: u64) = 8 * (k - 1)"
    proof -
      have "(of_nat k - 1) * 8 = (of_nat (8 * (k - 1)) :: u64)" using kk by (simp add: of_nat_diff)
      then show ?thesis by (simp only:) (rule unat_of_nat_u64, use kk in simp)
    qed
    have hd: "hd (take k bs) = hd bs" "take k bs \<noteq> []" using kk by auto
    have "drop_bit (8 * (k - 1)) ?len = 0 \<longleftrightarrow> n < 256 ^ (k - 1)"
      by (simp add: word_unat_eq_iff unat_drop_bit n div_eq_0_iff power_mult)
    also have "\<dots> \<longleftrightarrow> hd bs = 0" using be_nat_hd [OF hd(2)] unfolding len hd(1) n_def by linarith
    finally have sh0: "drop_bit (unat ((of_nat k - 1) * 8 :: u64)) ?len = 0 \<longleftrightarrow> hd bs = 0" unfolding sh .
    have l: "?len < 128 \<longleftrightarrow> n < 128" by (simp add: word_less_nat_alt n)
    have lw: "?len = of_nat n" by (simp flip: n)
    have sum: "?len + of_nat hl + of_nat k = of_nat (hl + k + n)" "?len + (of_nat hl + of_nat k) = of_nat (hl + k + n)"
      unfolding lw by simp_all
    have small: "hl + k + n < 2 ^ 64" using n4 hl kk by simp
    then have wrap: "\<not> (of_nat (hl + k + n) :: u64) < ?len"
      unfolding word_less_nat_alt n unat_of_nat_u64 [OF small] by simp
    have g: "cbs_get_u header 0 (of_nat k) = Some (True, cbs_drop k header, ?len)"
      using wf(1) kk bytes u by (simp add: cbs_get_u_eq)
    have "long_form_element cbs header eo (of_nat hl) (of_nat k) False =
      (if n < 128 \<or> hd bs = 0 then Some (False, cbs, eo)
       else get_element cbs (eo\<lparr>eo_header_len := of_nat (hl + k)\<rparr>) (of_nat (hl + k + n)))"
      using kk wrap unfolding long_form_element_def g cond
      by (simp only: sh0 l sum bind.simps Let_def case_prod_conv) (auto simp: not_less)
    then show ?thesis unfolding get_element_eq [OF wf(2) small] unfolding n_def using kk by simp
  qed
qed

lemma tag_octets_short: "length (tag_octets tag) \<le> 6"
proof -
  have m: "length (base128_more n) \<le> k" if "n < 128 ^ k" for n k
    using that
  proof (induction k arbitrary: n)
    case (Suc k)
    then have "n div 128 < 128 ^ k" by (simp add: less_mult_imp_div_less mult.commute)
    then show ?case using Suc.IH [of "n div 128"] by (cases "n = 0") (simp_all add: base128_more_pos)
  qed simp
  have "unat tag mod 2 ^ 29 < 2 ^ 29" by simp
  then have "unat tag mod 2 ^ 29 div 128 < 128 ^ 4" by (simp add: less_mult_imp_div_less)
  then have "length (base128_more (unat tag mod 2 ^ 29 div 128)) \<le> 4" by (rule m)
  then show ?thesis by (simp add: tag_octets_def base128_def Let_def)
qed

text \<open>What the parser does after a tag.\<close>

lemma element_after_tag:
  assumes wf: "wf_cbs cbs" and bytes: "cbs_bytes cbs = tag_octets tag @ b # bs"
  shows "cbs_get_any_asn1_element cbs eo False =
    (let t = length (tag_octets tag); k = unat b - 128; n = be_nat (take k bs) in
     if unat b < 128 then element_got cbs (eo\<lparr>eo_tag := tag\<rparr>) (t + 1) (t + 1 + unat b)
     else if k = 0 \<or> 4 < k \<or> length bs < k \<or> n < 128 \<or> hd bs = 0 then Some (False, cbs, eo\<lparr>eo_tag := tag\<rparr>)
     else element_got cbs (eo\<lparr>eo_tag := tag\<rparr>) (t + 1 + k) (t + 1 + k + n))"
proof -
  define t where "t = length (tag_octets tag)"
  have t6: "t \<le> 6" unfolding t_def by (rule tag_octets_short)
  let ?h = "cbs_drop (t + 1) cbs"
  have p: "parse_asn1_tag cbs 0 = Some (True, cbs_drop t cbs, tag)"
    unfolding t_def using wf bytes by (intro tag_reader.reads) simp_all
  have tl: "t + 1 \<le> length (cbs_bytes cbs)" using bytes by (simp add: t_def)
  have d: "wf_cbs (cbs_drop t cbs)" "cbs_bytes (cbs_drop t cbs) = b # bs" using wf bytes by (simp_all add: t_def)
  have h: "wf_cbs ?h" "cbs_bytes ?h = bs" using wf bytes tl by (simp_all add: t_def)
  have g: "CBS_get_u8 (cbs_drop t cbs) 0 = Some (True, ?h, b)" using d by (simp add: CBS_get_u8_eq)
  have b7: "(ucast (b AND 0x7F) :: u64) = of_nat (unat b mod 128)"
    by (rule word_unat_eq_iff [THEN iffD2]) (simp add: unat_ucast and_7F unat_take_bit unat_of_nat)
  have bm: "unat b mod 128 = (if unat b < 128 then unat b else unat b - 128)"
    using unat_byte_less [of b] by (simp add: mod_if)
  have step: "cbs_get_any_asn1_element cbs eo False =
    (if unat b < 128 then get_element cbs (eo\<lparr>eo_tag := tag, eo_header_len := of_nat (t + 1)\<rparr>) (of_nat (t + 1 + unat b))
     else long_form_element cbs ?h (eo\<lparr>eo_tag := tag\<rparr>) (of_nat (t + 1)) (of_nat (unat b - 128)) False)"
    unfolding cbs_get_any_asn1_element_def p
    by (simp add: g and_80 CBS_len_drop b7 bm Let_def) (simp add: ac_simps)
  have b: "unat b - 128 < 128" "t + 1 + unat b < 2 ^ 64" using unat_byte_less [of b] t6 by simp_all
  have "t + 1 < 2 ^ 48" using t6 by simp
  then have l: "long_form_element cbs ?h (eo\<lparr>eo_tag := tag\<rparr>) (of_nat (t + 1)) (of_nat (unat b - 128)) False =
    (if unat b - 128 = 0 \<or> 4 < unat b - 128 \<or> length bs < unat b - 128 \<or> be_nat (take (unat b - 128) bs) < 128 \<or> hd bs = 0
     then Some (False, cbs, eo\<lparr>eo_tag := tag\<rparr>)
     else element_got cbs (eo\<lparr>eo_tag := tag\<rparr>) (t + 1 + (unat b - 128)) (t + 1 + (unat b - 128) + be_nat (take (unat b - 128) bs)))"
    using h(2) by (intro long_form_eq [OF h(1) wf b(1)]) simp_all
  show ?thesis unfolding step Let_def t_def [symmetric] get_element_eq [OF wf b(2)] l ..
qed

lemma length_octets_cases:
  assumes "n < 2 ^ 32"
  obtains (short) "n < 128" "length_octets n = [of_nat n]"
  | (long) b where "128 \<le> n" "length_octets n = b # nat_be n" "unat b = 128 + length (nat_be n)"
      "length (nat_be n) \<le> 4" "nat_be n \<noteq> []" "hd (nat_be n) \<noteq> 0"
proof (cases "n < 128")
  case False
  have "n < 256 ^ 4" using assms by simp
  then have k: "length (nat_be n) \<le> 4" by (simp only: length_nat_be)
  show ?thesis
  proof (rule long)
    show "unat (of_nat (128 + length (nat_be n)) :: byte) = 128 + length (nat_be n)"
      using k by (intro unat_of_nat_byte) simp
  qed (use False k nat_be_hd [of n] in \<open>simp_all add: length_octets_def\<close>)
qed (simp add: length_octets_def short)

lemma der_reads:
  assumes wf: "wf_cbs cbs" and c: "length c < 2 ^ 32" and bytes: "cbs_bytes cbs = der_element tag c @ rest"
  shows "cbs_get_any_asn1_element cbs eo False =
    Some (True, cbs_drop (length (der_element tag c)) cbs,
      eo\<lparr>eo_out := CBS_init (cbs_data cbs) (of_nat (length (der_element tag c))), eo_tag := tag,
         eo_header_len := of_nat (length (der_header tag (length c)))\<rparr>)"
proof -
  have fits: "length (der_element tag c) \<le> length (cbs_bytes cbs)" using bytes by simp
  from c show ?thesis
  proof (cases rule: length_octets_cases)
    case short
    have b: "unat (of_nat (length c) :: byte) = length c" using short(1) by (simp add: unat_of_nat_byte)
    have "cbs_bytes cbs = tag_octets tag @ of_nat (length c) # c @ rest"
      using bytes short(2) by (simp add: der_element_def der_header_def)
    from element_after_tag [OF wf this, of eo] show ?thesis
      using short fits unfolding b by (simp add: Let_def element_got_def der_element_def der_header_def add_ac)
  next
    case (long b)
    have "cbs_bytes cbs = tag_octets tag @ b # (nat_be (length c) @ c @ rest)"
      using bytes long(2) by (simp add: der_element_def der_header_def)
    from element_after_tag [OF wf this, of eo] show ?thesis
      using long fits by (simp add: Let_def element_got_def der_element_def der_header_def add_ac not_less)
  qed
qed

lemma element_got_True:
  "element_got cbs eo hl n = Some (True, cbs', eo') \<Longrightarrow> n \<le> length (cbs_bytes cbs)"
  by (auto simp: element_got_def split: if_splits)

lemma der_accepts:
  assumes wf: "wf_cbs cbs" and r: "cbs_get_any_asn1_element cbs eo False = Some (True, cbs', eo')"
  shows "\<exists>tag c rest. length c < 2 ^ 32 \<and> cbs_bytes cbs = der_element tag c @ rest"
proof -
  obtain h tag where p: "parse_asn1_tag cbs 0 = Some (True, h, tag)"
    using r tag_reader.defined [OF wf, of 0] by (auto simp: cbs_get_any_asn1_element_def split: Option.bind_splits if_splits)
  then obtain xs where xs: "cbs_bytes cbs = tag_octets tag @ xs" and h: "h = cbs_drop (length (tag_octets tag)) cbs"
    using tag_reader.exact [OF wf] by metis
  have hx: "wf_cbs h" "cbs_bytes h = xs" using wf xs h by simp_all
  obtain b bs where bs: "xs = b # bs"
    using r hx by (cases xs) (auto simp: cbs_get_any_asn1_element_def p CBS_get_u8_eq)
  define k where "k = unat b - 128"
  define n where "n = be_nat (take k bs)"
  let ?t = "length (tag_octets tag)"
  have bytes: "cbs_bytes cbs = tag_octets tag @ b # bs" using xs bs by simp
  note eq = element_after_tag [OF wf bytes, of eo, unfolded r Let_def k_def [symmetric] n_def [symmetric]]
  show ?thesis
  proof (cases "unat b < 128")
    case True
    have "element_got cbs (eo\<lparr>eo_tag := tag\<rparr>) (?t + 1) (?t + 1 + unat b) = Some (True, cbs', eo')" using eq True by simp
    from element_got_True [OF this] have "unat b \<le> length bs" using bytes by simp
    then have "cbs_bytes cbs = der_element tag (take (unat b) bs) @ drop (unat b) bs"
      using True bytes by (simp add: der_element_def der_header_def length_octets_def)
    moreover have "length (take (unat b) bs) < 2 ^ 32" using True by simp
    ultimately show ?thesis by metis
  next
    case False
    then have k: "k \<noteq> 0" "k \<le> 4" "k \<le> length bs" "128 \<le> n" "hd bs \<noteq> 0"
      and got: "element_got cbs (eo\<lparr>eo_tag := tag\<rparr>) (?t + 1 + k) (?t + 1 + k + n) = Some (True, cbs', eo')"
      using eq by (auto split: if_splits)
    have len: "length (take k bs) = k" using k by simp
    have "take k bs \<noteq> []" "hd (take k bs) = hd bs" using k by auto
    then have be: "nat_be n = take k bs" unfolding n_def using k(5) by (intro nat_be_nat) simp
    have "n < 256 ^ k" unfolding n_def using be_nat_less [of "take k bs"] len by simp
    also have "(256::nat) ^ k \<le> 256 ^ 4" using k(2) by (intro power_increasing) simp_all
    finally have n: "n < 2 ^ 32" by simp
    have b: "of_nat (128 + k) = b" using False by (simp add: k_def)
    have lo: "length_octets n = b # take k bs" using k(4) be len b by (simp add: length_octets_def)
    have "k + n \<le> length bs" using element_got_True [OF got] bytes by simp
    moreover have "bs = take k bs @ take n (drop k bs) @ drop (k + n) bs"
      by (metis append_take_drop_id append.assoc take_add)
    ultimately have "length (take n (drop k bs)) = n"
      "cbs_bytes cbs = tag_octets tag @ b # take k bs @ take n (drop k bs) @ drop (k + n) bs"
      using bytes by simp_all
    then have "cbs_bytes cbs = der_element tag (take n (drop k bs)) @ drop (k + n) bs"
      by (simp add: der_element_def der_header_def lo)
    moreover have "length (take n (drop k bs)) < 2 ^ 32" using n by simp
    ultimately show ?thesis by metis
  qed
qed

lemma der_defined:
  assumes wf: "wf_cbs cbs"
  shows "cbs_get_any_asn1_element cbs eo False \<noteq> None"
proof -
  obtain ok h tag where p: "parse_asn1_tag cbs 0 = Some (ok, h, tag)" using tag_reader.defined [OF wf, of 0] by auto
  show ?thesis
  proof (cases ok)
    case False
    then show ?thesis using p by (simp add: cbs_get_any_asn1_element_def)
  next
    case True
    then obtain xs where xs: "cbs_bytes cbs = tag_octets tag @ xs" and h: "h = cbs_drop (length (tag_octets tag)) cbs"
      using tag_reader.exact [OF wf, of 0 h tag] p by auto
    then have hx: "wf_cbs h" "cbs_bytes h = xs" using wf by simp_all
    show ?thesis
    proof (cases xs)
      case Nil
      then show ?thesis using hx p True by (simp add: cbs_get_any_asn1_element_def CBS_get_u8_eq)
    next
      case (Cons b bs)
      then have "cbs_bytes cbs = tag_octets tag @ b # bs" using xs by simp
      from element_after_tag [OF wf this, of eo] show ?thesis by (simp add: Let_def element_got_def del: not_None_eq)
    qed
  qed
qed

text \<open>The two ways to look at an element: its contents, and the whole of it.\<close>

lemma CBS_get_any_asn1_der:
  assumes wf: "wf_cbs cbs" and c: "length c < 2 ^ 32" and bytes: "cbs_bytes cbs = der_element tag c @ rest"
  obtains view where "CBS_get_any_asn1 cbs out t = Some (True, cbs_drop (length (der_element tag c)) cbs, view, tag)"
    "wf_cbs view" "cbs_bytes view = c"
proof -
  let ?e = "der_element tag c" and ?h = "length (der_header tag (length c))"
  let ?v = "CBS_init (cbs_data cbs) (of_nat (length ?e))"
  have short: "length (cbs_bytes cbs) < 2 ^ 64" using wf by (rule cbs_bytes_short)
  then have e: "unat (of_nat (length ?e) :: u64) = length ?e" using bytes by (intro unat_of_nat_u64) simp
  have hl: "?h \<le> length ?e" by (simp add: der_element_def)
  then have h: "unat (of_nat ?h :: u64) = ?h" using short bytes by (intro unat_of_nat_u64) simp
  have v: "wf_cbs ?v" "cbs_bytes ?v = ?e" using cbs_init_view [OF wf, of "of_nat (length ?e)"] e bytes by simp_all
  have "CBS_get_any_asn1 cbs out t = Some (True, cbs_drop (length ?e) cbs, cbs_drop ?h ?v, tag)"
    using v h hl by (simp add: CBS_get_any_asn1_def CBS_get_any_asn1_element_def der_reads [OF wf c bytes] CBS_skip_eq)
  moreover have "wf_cbs (cbs_drop ?h ?v)" "cbs_bytes (cbs_drop ?h ?v) = c"
    using v hl by (simp_all add: der_element_def)
  ultimately show ?thesis by (rule that)
qed

definition asn1_view :: "(bool \<times> CBS \<times> CBS \<times> u32) option \<Rightarrow> (bool \<times> CBS \<times> u32 \<times> bytes) option" where
  "asn1_view r = map_option (\<lambda>(ok, cbs, out, tag). (ok, cbs, tag, cbs_bytes out)) r"

lemma CBS_get_any_asn1_True:
  assumes "wf_cbs cbs" "CBS_get_any_asn1 cbs out t = Some (True, cbs', v, tag)"
  shows "length (cbs_bytes v) < 2 ^ 32 \<and> (\<exists>rest. cbs_bytes cbs = der_element tag (cbs_bytes v) @ rest)"
proof -
  have "\<exists>cbs' eo'. cbs_get_any_asn1_element cbs ((no_element out)\<lparr>eo_tag := t\<rparr>) False = Some (True, cbs', eo')"
    using assms(2) by (auto simp: CBS_get_any_asn1_def CBS_get_any_asn1_element_def split: Option.bind_splits if_splits)
  then obtain tag' c rest where c: "length c < 2 ^ 32" "cbs_bytes cbs = der_element tag' c @ rest"
    using der_accepts [OF assms(1)] by metis
  then show ?thesis using CBS_get_any_asn1_der [OF assms(1) c, of out t] assms(2) by auto
qed

lemma CBS_get_any_asn1_defined:
  assumes "wf_cbs cbs"
  shows "CBS_get_any_asn1 cbs out t \<noteq> None"
proof (cases "\<exists>tag c rest. length c < 2 ^ 32 \<and> cbs_bytes cbs = der_element tag c @ rest")
  case True
  then obtain tag c rest where c: "length c < 2 ^ 32" "cbs_bytes cbs = der_element tag c @ rest" by metis
  then show ?thesis by (rule CBS_get_any_asn1_der [OF assms, of c tag rest out t]) simp
next
  case False
  obtain ok cbs' eo where r: "cbs_get_any_asn1_element cbs ((no_element out)\<lparr>eo_tag := t\<rparr>) False = Some (ok, cbs', eo)"
    using der_defined [OF assms] by (metis not_None_eq prod_cases3)
  have "\<not> ok"
  proof
    assume ok
    then show False using der_accepts [OF assms] r False by (simp only:) metis
  qed
  with r show ?thesis by (simp add: CBS_get_any_asn1_def CBS_get_any_asn1_element_def)
qed

interpretation asn1_reader: cbs_reader "\<lambda>cbs. asn1_view (CBS_get_any_asn1 cbs out t)"
  "\<lambda>(tag, c). der_element tag c" "\<lambda>(tag, c). length c < 2 ^ 32"
proof
  fix cbs v rest
  assume wf: "wf_cbs cbs" and v: "case v of (tag, c) \<Rightarrow> length c < 2 ^ 32"
    and bytes: "cbs_bytes cbs = (case v of (tag, c) \<Rightarrow> der_element tag c) @ rest"
  obtain tag c where t: "v = (tag, c)" by (cases v)
  obtain w where "CBS_get_any_asn1 cbs out t = Some (True, cbs_drop (length (der_element tag c)) cbs, w, tag)" "cbs_bytes w = c"
    using CBS_get_any_asn1_der [OF wf, of c tag rest out t] v bytes unfolding t by auto
  then show "asn1_view (CBS_get_any_asn1 cbs out t) = Some (True, cbs_drop (length (case v of (tag, c) \<Rightarrow> der_element tag c)) cbs, v)"
    by (simp add: asn1_view_def t)
next
  fix cbs cbs' v
  assume "wf_cbs cbs" "asn1_view (CBS_get_any_asn1 cbs out t) = Some (True, cbs', v)"
  then show "(case v of (tag, c) \<Rightarrow> length c < 2 ^ 32) \<and> (\<exists>rest. cbs_bytes cbs = (case v of (tag, c) \<Rightarrow> der_element tag c) @ rest)"
    using CBS_get_any_asn1_True by (auto simp: asn1_view_def)
qed (use CBS_get_any_asn1_defined in \<open>simp add: asn1_view_def\<close>)

lemma CBS_get_any_asn1_as:
  "CBS_get_any_asn1 cbs out t =
     do { (ok, cbs, eo) \<leftarrow> CBS_get_any_asn1_element cbs ((no_element out)\<lparr>eo_tag := t\<rparr>);
          if \<not> ok then Some (False, cbs, eo_out eo, eo_tag eo)
          else do { (ok, out) \<leftarrow> CBS_skip (eo_out eo) (eo_header_len eo); Some (ok, cbs, out, eo_tag eo) } }"
  by (simp add: CBS_get_any_asn1_def)

text \<open>An element of a given tag: one more test after the element was read.\<close>

lemma CBS_get_asn1_any:
  assumes "wf_cbs cbs"
  shows "CBS_get_asn1 cbs out tag = Some (True, cbs', v) \<longleftrightarrow> CBS_get_any_asn1 cbs out 0 = Some (True, cbs', v, tag)"
    and "CBS_get_asn1 cbs out tag \<noteq> None"
proof -
  have e: "(no_element out)\<lparr>eo_tag := 0\<rparr> = no_element out" by (simp add: no_element_def)
  show "CBS_get_asn1 cbs out tag = Some (True, cbs', v) \<longleftrightarrow> CBS_get_any_asn1 cbs out 0 = Some (True, cbs', v, tag)"
    by (auto simp: CBS_get_asn1_def cbs_get_asn1_def CBS_get_any_asn1_def e split: Option.bind_splits if_splits)
  show "CBS_get_asn1 cbs out tag \<noteq> None"
    using CBS_get_any_asn1_defined [OF assms, of out 0]
    by (auto simp: CBS_get_asn1_def cbs_get_asn1_def CBS_get_any_asn1_def e split: Option.bind_splits if_splits)
qed

definition contents_view :: "(bool \<times> CBS \<times> CBS) option \<Rightarrow> (bool \<times> CBS \<times> bytes) option" where
  "contents_view r = map_option (\<lambda>(ok, cbs, out). (ok, cbs, cbs_bytes out)) r"

lemma CBS_get_asn1_der:
  assumes "wf_cbs cbs" "length c < 2 ^ 32" "cbs_bytes cbs = der_element tag c @ rest"
  obtains view where "CBS_get_asn1 cbs out tag = Some (True, cbs_drop (length (der_element tag c)) cbs, view)"
    "wf_cbs view" "cbs_bytes view = c"
  using CBS_get_any_asn1_der [OF assms, of out 0] CBS_get_asn1_any(1) [OF assms(1)] by metis

lemma CBS_get_asn1_True:
  assumes "wf_cbs cbs" "CBS_get_asn1 cbs out tag = Some (True, cbs', v)"
  shows "length (cbs_bytes v) < 2 ^ 32" "\<exists>rest. cbs_bytes cbs = der_element tag (cbs_bytes v) @ rest"
    "wf_cbs v" "cbs' = cbs_drop (length (der_element tag (cbs_bytes v))) cbs"
proof -
  have r: "CBS_get_any_asn1 cbs out 0 = Some (True, cbs', v, tag)" using assms CBS_get_asn1_any by metis
  then show l: "length (cbs_bytes v) < 2 ^ 32" and ex: "\<exists>rest. cbs_bytes cbs = der_element tag (cbs_bytes v) @ rest"
    using CBS_get_any_asn1_True [OF assms(1)] by auto
  from ex obtain rest where b: "cbs_bytes cbs = der_element tag (cbs_bytes v) @ rest" ..
  show "wf_cbs v" "cbs' = cbs_drop (length (der_element tag (cbs_bytes v))) cbs"
    by (rule CBS_get_any_asn1_der [OF assms(1) l b, of out 0], simp add: r)+
qed

interpretation tagged_reader: cbs_reader "\<lambda>cbs. contents_view (CBS_get_asn1 cbs out tag)" "der_element tag" "\<lambda>c. length c < 2 ^ 32"
proof
  fix cbs c rest
  assume a: "wf_cbs cbs" "length c < 2 ^ 32" "cbs_bytes cbs = der_element tag c @ rest"
  show "contents_view (CBS_get_asn1 cbs out tag) = Some (True, cbs_drop (length (der_element tag c)) cbs, c)"
    by (rule CBS_get_asn1_der [OF a, of out]) (simp add: contents_view_def)
next
  fix cbs cbs' c
  assume "wf_cbs cbs" "contents_view (CBS_get_asn1 cbs out tag) = Some (True, cbs', c)"
  then show "length c < 2 ^ 32 \<and> (\<exists>rest. cbs_bytes cbs = der_element tag c @ rest)"
    using CBS_get_asn1_True [of cbs out tag cbs'] by (auto simp: contents_view_def)
qed (use CBS_get_asn1_any(2) in \<open>simp add: contents_view_def\<close>)

section \<open>Integers\<close>

text \<open>The contents of an INTEGER: two's complement with as few bytes as possible.\<close>

function int_octets :: "int \<Rightarrow> bytes" where
  "int_octets i = (if -128 \<le> i \<and> i < 128 then [of_int i] else int_octets (i div 256) @ [of_int i])"
  by pat_completeness auto
termination by (relation "measure (\<lambda>i. nat \<bar>i\<bar>)") auto

declare int_octets.simps [simp del]

definition be_int :: "bytes \<Rightarrow> int" where
  "be_int bs = (if 128 \<le> unat (hd bs) then int (be_nat bs) - 256 ^ length bs else int (be_nat bs))"

definition minimal_int :: "bytes \<Rightarrow> bool" where
  "minimal_int bs \<longleftrightarrow> bs \<noteq> [] \<and> (2 \<le> length bs \<longrightarrow>
     \<not> (unat (bs ! 0) = 0 \<and> unat (bs ! 1) < 128) \<and> \<not> (unat (bs ! 0) = 255 \<and> 128 \<le> unat (bs ! 1)))"

lemma int_octets_not_Nil [simp]: "int_octets i \<noteq> []"
  by (simp add: int_octets.simps [of i])

lemma be_int_snoc: "bs \<noteq> [] \<Longrightarrow> be_int (bs @ [b]) = be_int bs * 256 + int (unat b)"
  by (simp add: be_int_def)

lemma unat_of_int_byte: "unat (of_int i :: byte) = nat (i mod 256)"
proof -
  have "uint (of_int i :: byte) = i mod 256" by (simp add: uint_word_of_int)
  then show ?thesis by (simp only: unat_eq_nat_uint)
qed

lemma uint_byte_less: "uint (b :: byte) < 256"
  using unsigned_less [where 'a = int and w = b] by simp

lemma unat_uint_iff: "k \<le> unat (b :: byte) \<longleftrightarrow> int k \<le> uint b" "unat b = k \<longleftrightarrow> uint b = int k"
  "unat b < k \<longleftrightarrow> uint b < int k"
proof -
  have e: "uint b = int (unat b)" by simp
  show "k \<le> unat b \<longleftrightarrow> int k \<le> uint b" "unat b = k \<longleftrightarrow> uint b = int k" "unat b < k \<longleftrightarrow> uint b < int k"
    unfolding e by (simp_all only: of_nat_le_iff of_nat_eq_iff of_nat_less_iff)
qed

lemma be_int_octets [simp]: "be_int (int_octets i) = i"
proof (induction i rule: int_octets.induct)
  case (1 i)
  show ?case
  proof (cases "-128 \<le> i \<and> i < 128")
    case True
    then have "i mod 256 = (if i < 0 then i + 256 else i)"
      using mod_pos_pos_trivial [of "i + 256" 256] by (cases "i < 0") simp_all
    then show ?thesis using True by (simp add: int_octets.simps be_int_def be_nat_def unat_of_int_byte le_nat_iff)
  next
    case False
    then have "int_octets i = int_octets (i div 256) @ [of_int i]" by (subst int_octets.simps) simp
    then show ?thesis using 1 False by (simp add: be_int_snoc unat_of_int_byte)
  qed
qed

lemma of_int_unat: "of_int (int (unat b)) = (b :: byte)"
  by simp

lemma minimal_int_snoc:
  "bs \<noteq> [] \<Longrightarrow> minimal_int (bs @ [b]) \<longleftrightarrow> (if length bs = 1
     then \<not> (unat (hd bs) = 0 \<and> unat b < 128) \<and> \<not> (unat (hd bs) = 255 \<and> 128 \<le> unat b) else minimal_int bs)"
  by (cases bs; cases "tl bs") (auto simp: minimal_int_def)

lemma be_int_single: "be_int [b] = (if 128 \<le> unat b then int (unat b) - 256 else int (unat b))"
  by (simp add: be_int_def be_nat_def)

lemma int_octets_be: "minimal_int bs \<Longrightarrow> int_octets (be_int bs) = bs"
proof (induction bs rule: rev_induct)
  case (snoc b bs)
  have b: "unat b < 256" by (rule unat_byte_less)
  show ?case
  proof (cases "bs = []")
    case True
    have "-128 \<le> be_int [b] \<and> be_int [b] < 128" unfolding be_int_single using b by (cases "128 \<le> unat b") (simp_all only: if_True if_False, linarith+)
    moreover have "(of_int (be_int [b]) :: byte) = b" by (simp add: be_int_single)
    ultimately show ?thesis using True by (simp add: int_octets.simps)
  next
    case False
    let ?x = "be_int bs" and ?y = "be_int (bs @ [b])"
    have y: "?y = ?x * 256 + int (unat b)" using False by (rule be_int_snoc)
    have "length bs = 1 \<Longrightarrow> minimal_int bs" using False by (simp add: minimal_int_def)
    then have "minimal_int bs" using snoc(2) False by (cases "length bs = 1") (simp_all add: minimal_int_snoc)
    then have ih: "int_octets ?x = bs" by (rule snoc(1))
    have "\<not> (-128 \<le> ?y \<and> ?y < 128)"
    proof
      assume "-128 \<le> ?y \<and> ?y < 128"
      then consider "?x = 0" "unat b < 128" | "?x = -1" "128 \<le> unat b" using b y by linarith
      then show False
      proof cases
        case 1
        then have "bs = [0]" using ih by (simp add: int_octets.simps)
        then show False using snoc(2) 1 by (simp add: minimal_int_def)
      next
        case 2
        then have "bs = [-1]" using ih by (simp add: int_octets.simps)
        then have "bs = [255]" by simp
        then show False using snoc(2) 2 by (simp add: minimal_int_def)
      qed
    qed
    then have "int_octets ?y = int_octets (?y div 256) @ [of_int ?y]" by (subst int_octets.simps) simp
    moreover have "?y div 256 = ?x" using y uint_byte_less [of b] by (simp add: div_pos_pos_trivial)
    moreover have "?y mod 256 = uint b" using y uint_byte_less [of b] by simp
    then have "(of_int ?y :: byte) = b" unfolding word_unat_eq_iff unat_of_int_byte by (simp only: unat_eq_nat_uint)
    ultimately show ?thesis using ih by simp
  qed
qed (simp add: minimal_int_def)

lemma minimal_int_octets: "minimal_int (int_octets i)"
proof (induction i rule: int_octets.induct)
  case (1 i)
  show ?case
  proof (cases "-128 \<le> i \<and> i < 128")
    case False
    then have e: "int_octets i = int_octets (i div 256) @ [of_int i]" by (subst int_octets.simps) simp
    have m: "minimal_int (int_octets (i div 256))" using 1 False by blast
    show ?thesis
    proof (cases "length (int_octets (i div 256)) = 1")
      case True
      then obtain a where a: "int_octets (i div 256) = [a]" by (metis One_nat_def length_0_conv length_Suc_conv)
      then have "be_int [a] = i div 256" by (metis be_int_octets)
      moreover have "unat (of_int i :: byte) = nat (i mod 256)" by (rule unat_of_int_byte)
      moreover have "i div 256 \<noteq> -1 \<or> i mod 256 < 128" "i div 256 \<noteq> 0 \<or> 128 \<le> i mod 256" using False by presburger+
      ultimately show ?thesis unfolding e a
        by (subst minimal_int_snoc) (auto simp: be_int_single unat_uint_iff uint_word_of_int split: if_splits)
    qed (simp add: e m minimal_int_snoc)
  qed (simp add: int_octets.simps minimal_int_def)
qed

lemma length_int_octets: "length (int_octets i) \<le> Suc k \<longleftrightarrow> - (128 * 256 ^ k) \<le> i \<and> i < 128 * 256 ^ k"
proof (induction k arbitrary: i)
  case 0
  then show ?case by (simp add: int_octets.simps [of i])
next
  case (Suc k)
  show ?case
  proof (cases "-128 \<le> i \<and> i < 128")
    case True
    have "(1::int) \<le> 256 ^ Suc k" by (rule one_le_power) simp
    then have "- (128 * 256 ^ Suc k) \<le> i \<and> i < 128 * 256 ^ Suc k" using True by linarith
    then show ?thesis using True by (simp add: int_octets.simps [of i])
  next
    case False
    then have "int_octets i = int_octets (i div 256) @ [of_int i]" by (subst int_octets.simps) simp
    then have "length (int_octets i) \<le> Suc (Suc k) \<longleftrightarrow> length (int_octets (i div 256)) \<le> Suc k" by simp
    also have "\<dots> \<longleftrightarrow> - (128 * 256 ^ Suc k) \<le> i \<and> i < 128 * 256 ^ Suc k"
      unfolding Suc by (auto simp: div_less_iff_less_mult)
    finally show ?thesis .
  qed
qed

lemma CBS_is_valid_asn1_integer_eq:
  assumes "wf_cbs cbs"
  shows "\<exists>ok. CBS_is_valid_asn1_integer cbs neg = Some (ok, if cbs_bytes cbs = [] then neg else 128 \<le> unat (hd (cbs_bytes cbs))) \<and>
    (ok \<longleftrightarrow> minimal_int (cbs_bytes cbs))"
proof (cases "cbs_bytes cbs")
  case Nil
  then show ?thesis using assms by (intro exI [of _ False]) (simp add: CBS_is_valid_asn1_integer_def CBS_get_u8_eq minimal_int_def)
next
  case (Cons a as)
  have z: "a = 0 \<longleftrightarrow> unat a = 0" "a = 0xFF \<longleftrightarrow> unat a = 255" by (simp_all add: word_unat_eq_iff)
  show ?thesis
  proof (cases as)
    case Nil
    then show ?thesis using assms Cons
      by (intro exI [of _ True]) (simp add: CBS_is_valid_asn1_integer_def CBS_get_u8_eq minimal_int_def and_80 not_less)
  next
    case (Cons b bs)
    then show ?thesis using assms \<open>cbs_bytes cbs = a # as\<close> z
      by (auto simp: CBS_is_valid_asn1_integer_def CBS_get_u8_eq minimal_int_def and_80 not_less Let_def)
  qed
qed

lemma be_int_neg: "bs \<noteq> [] \<Longrightarrow> be_int bs < 0 \<longleftrightarrow> 128 \<le> unat (hd bs)"
proof -
  have "int (be_nat bs) < int (256 ^ length bs)" using be_nat_less [of bs] by (simp only: of_nat_less_iff)
  then show ?thesis by (simp add: be_int_def)
qed

lemma be_int_nonneg: "0 \<le> be_int bs \<Longrightarrow> bs \<noteq> [] \<Longrightarrow> be_int bs = int (be_nat bs)"
  using be_int_neg [of bs] by (simp add: be_int_def split: if_splits)

lemma be_nat_take_le: "be_nat (take i bs) \<le> be_nat bs"
proof (induction bs rule: rev_induct)
  case (snoc b bs)
  then show ?case by (cases "i \<le> length bs") (simp_all add: le_trans [OF snoc])
qed simp

lemma uint64_loop_eq:
  assumes "wf_cbs cbs"
  shows "i + k = length (cbs_bytes cbs) \<Longrightarrow> unat out = be_nat (take i (cbs_bytes cbs)) \<Longrightarrow>
    if be_nat (cbs_bytes cbs) < 2 ^ 64 then uint64_loop k (cbs_data cbs) i out = Some (True, of_nat (be_nat (cbs_bytes cbs)))
    else \<exists>x. uint64_loop k (cbs_data cbs) i out = Some (False, x)"
proof (induction k arbitrary: i out)
  case 0
  then have "unat out = be_nat (cbs_bytes cbs)" by simp
  then show ?case using unat_u64_less [of out] by (simp flip: \<open>unat out = be_nat (cbs_bytes cbs)\<close>)
next
  case (Suc k)
  let ?bs = "cbs_bytes cbs"
  have i: "i < length ?bs" using Suc.prems(1) by simp
  have next_byte: "be_nat (take (Suc i) ?bs) = unat out * 256 + unat (?bs ! i)"
    using i Suc.prems(2) by (simp add: take_Suc_conv_app_nth)
  have d: "drop_bit 56 out = 0 \<longleftrightarrow> unat out < 2 ^ 56"
    by (simp add: word_unat_eq_iff unat_drop_bit div_eq_0_iff)
  show ?case
  proof (cases "unat out < 2 ^ 56")
    case True
    have "unat (ucast (?bs ! i) :: u64) = unat (?bs ! i)" using unat_byte_less [of "?bs ! i"] by (simp add: unat_ucast)
    then have "unat (push_bit 8 out OR ucast (?bs ! i) :: u64) = be_nat (take (Suc i) ?bs)"
      using True unat_byte_less [of "?bs ! i"] next_byte by (subst unat_push_bit_or) simp_all
    then show ?thesis
      using Suc.IH [of "Suc i" "push_bit 8 out OR ucast (?bs ! i)"] Suc.prems(1) True d cbs_data_nth [OF assms i] by simp
  next
    case False
    then have "2 ^ 64 \<le> unat out * 256 + unat (?bs ! i)" by simp
    also have "\<dots> \<le> be_nat ?bs" using be_nat_take_le [of "Suc i" ?bs] next_byte by simp
    finally show ?thesis using False d by simp
  qed
qed

lemma of_nat_le_word_rev: "of_nat (be_nat bs) = (le_word (rev bs) :: u64)"
  by (rule of_nat_be_nat) simp

lemma be_nat_append: "be_nat (xs @ ys) = be_nat xs * 256 ^ length ys + be_nat ys"
  by (induction ys rule: rev_induct) (simp_all add: algebra_simps flip: append_assoc)

lemma be_nat_replicate_0: "be_nat (replicate m 0) = 0"
  by (induction m) (simp_all add: be_nat_Cons)

lemma be_nat_replicate_FF: "be_nat (replicate m 0xFF) + 1 = 256 ^ m"
  by (induction m) (simp_all add: be_nat_Cons)

text \<open>Eight bytes whose upper ones repeat the sign are the number modulo \<open>2 ^ 64\<close>.\<close>

lemma le_word_sign_extended:
  assumes "length bs \<le> 8" "bs \<noteq> []"
  shows "le_word (rev bs @ replicate (8 - length bs) (if 128 \<le> unat (hd bs) then 0xFF else 0)) = (of_int (be_int bs) :: u64)"
proof -
  let ?m = "8 - length bs"
  let ?pad = "replicate ?m (if 128 \<le> unat (hd bs) then 0xFF else 0) :: bytes"
  have "le_word (rev bs @ ?pad) = (of_nat (be_nat (?pad @ bs)) :: u64)"
    by (simp only: of_nat_le_word_rev rev_append rev_replicate)
  also have "\<dots> = of_int (be_int bs)"
  proof (cases "128 \<le> unat (hd bs)")
    case True
    have "(256::int) ^ 8 = 256 ^ ?m * 256 ^ length bs" using assms(1) by (simp flip: power_add)
    moreover have "int (be_nat (replicate ?m 0xFF)) = 256 ^ ?m - 1"
      using arg_cong [OF be_nat_replicate_FF [of ?m], of int] by simp
    moreover have "int (be_nat (?pad @ bs)) = int (be_nat (replicate ?m 0xFF)) * 256 ^ length bs + int (be_nat bs)"
      using True by (simp add: be_nat_append)
    ultimately have "int (be_nat (?pad @ bs)) = be_int bs + 2 ^ 64"
      using True by (simp add: be_int_def left_diff_distrib)
    then have "(of_int (int (be_nat (?pad @ bs))) :: u64) = of_int (be_int bs) + 2 ^ 64" by simp
    also have "(2 :: u64) ^ 64 = 0" by (rule exp_eq_zero_iff [THEN iffD2]) simp
    finally show ?thesis by simp
  qed (simp add: be_nat_append be_nat_replicate_0 be_int_def)
  finally show ?thesis .
qed

lemma int64_loop_eq:
  assumes "wf_cbs cbs" "length (cbs_bytes cbs) \<le> 8"
  shows "i + k = length (cbs_bytes cbs) \<Longrightarrow>
    int64_loop k (cbs_data cbs) (length (cbs_bytes cbs)) i (take i (rev (cbs_bytes cbs)) @ replicate (8 - i) p) =
      Some (rev (cbs_bytes cbs) @ replicate (8 - length (cbs_bytes cbs)) p)"
proof (induction k arbitrary: i)
  case (Suc k)
  let ?bs = "cbs_bytes cbs"
  have i: "i < length ?bs" "length ?bs - i - 1 < length ?bs" using Suc.prems by simp_all
  have "8 - i = Suc (8 - Suc i)" using i assms(2) by simp
  then have "(take i (rev ?bs) @ replicate (8 - i) p)[i := ?bs ! (length ?bs - i - 1)] =
      take i (rev ?bs) @ ?bs ! (length ?bs - i - 1) # replicate (8 - Suc i) p"
    using i(1) by (simp add: list_update_append)
  also have "\<dots> = take (Suc i) (rev ?bs) @ replicate (8 - Suc i) p"
    using i(1) by (simp add: take_Suc_conv_app_nth rev_nth)
  finally show ?case using Suc.IH [of "Suc i"] Suc.prems cbs_data_nth [OF assms(1) i(2)] by simp
qed simp

lemma unsigned_integer_eq:
  "wf_cbs cbs \<Longrightarrow> CBS_is_unsigned_asn1_integer cbs = Some (minimal_int (cbs_bytes cbs) \<and> 0 \<le> be_int (cbs_bytes cbs))"
  using CBS_is_valid_asn1_integer_eq [of cbs False] be_int_neg [of "cbs_bytes cbs"]
  by (auto simp: CBS_is_unsigned_asn1_integer_def minimal_int_def not_le)

lemma be_int_u64: "minimal_int bs \<Longrightarrow> 0 \<le> be_int bs \<Longrightarrow> be_nat bs < 2 ^ 64 \<Longrightarrow> int_octets (uint (of_nat (be_nat bs) :: u64)) = bs"
proof -
  assume m: "minimal_int bs" "0 \<le> be_int bs" and lt: "be_nat bs < 2 ^ 64"
  have "uint (of_nat (be_nat bs) :: u64) = int (unat (of_nat (be_nat bs) :: u64))" by simp
  also have "\<dots> = be_int bs" unfolding unat_of_nat_u64 [OF lt] using be_int_nonneg m by (simp add: minimal_int_def)
  finally show ?thesis using int_octets_be [OF m(1)] by simp
qed

lemma u64_octets:
  fixes v :: u64
  defines "bs \<equiv> int_octets (uint v)"
  shows "minimal_int bs" "0 \<le> be_int bs" "be_nat bs = unat v" "length bs \<le> 9" "bs \<noteq> []"
proof -
  show "minimal_int bs" "0 \<le> be_int bs" "bs \<noteq> []" by (simp_all add: bs_def minimal_int_octets)
  then have "int (be_nat bs) = uint v" using be_int_nonneg [of bs] by (simp add: bs_def)
  then have "be_nat bs = nat (uint v)" by linarith
  then show "be_nat bs = unat v" by (simp only: unat_eq_nat_uint)
  have "uint v < 2 ^ 64" using unsigned_less [where 'a = int and w = v] by simp
  then have "length bs \<le> Suc 8" unfolding bs_def length_int_octets by (auto intro: order_trans [of _ 0])
  then show "length bs \<le> 9" by simp
qed

text \<open>A reader of elements of one tag whose contents are decoded further.\<close>

lemma decoded_reader:
  assumes ok: "\<And>cbs cbs' view v. wf_cbs view \<Longrightarrow> CBS_get_asn1 cbs (CBS_init [] 0) tag = Some (True, cbs', view) \<Longrightarrow>
      cbs_bytes view = c v \<Longrightarrow> rd cbs = Some (True, cbs', v)"
    and bad: "\<And>cbs cbs' view. wf_cbs view \<Longrightarrow> CBS_get_asn1 cbs (CBS_init [] 0) tag = Some (True, cbs', view) \<Longrightarrow>
      (\<And>v. cbs_bytes view \<noteq> c v) \<Longrightarrow> \<exists>x. rd cbs = Some (False, x)"
    and failed: "\<And>cbs x. CBS_get_asn1 cbs (CBS_init [] 0) tag = Some (False, x) \<Longrightarrow> \<exists>y. rd cbs = Some (False, y)"
    and len: "\<And>v. length (c v) < 2 ^ 32"
  shows "cbs_reader rd (\<lambda>v. der_element tag (c v)) (\<lambda>_. True)"
proof
  fix cbs v rest
  assume a: "wf_cbs cbs" "cbs_bytes cbs = der_element tag (c v) @ rest"
  show "rd cbs = Some (True, cbs_drop (length (der_element tag (c v))) cbs, v)"
    by (rule CBS_get_asn1_der [OF a(1) len a(2), of "CBS_init [] 0"]) (rule ok)
next
  fix cbs cbs' v
  assume wf: "wf_cbs cbs" and r: "rd cbs = Some (True, cbs', v)"
  obtain b cbs1 view where g0: "CBS_get_asn1 cbs (CBS_init [] 0) tag = Some (b, cbs1, view)"
    using CBS_get_asn1_any(2) [OF wf, of "CBS_init [] 0" tag] by auto
  then have b using failed [of cbs "(cbs1, view)"] r by (cases b) auto
  then have g: "CBS_get_asn1 cbs (CBS_init [] 0) tag = Some (True, cbs1, view)" using g0 by simp
  note view = CBS_get_asn1_True [OF wf g]
  obtain w where "cbs_bytes view = c w" using bad [OF view(3) g] r by auto
  moreover from this have "v = w" using ok [OF view(3) g] r by simp
  ultimately show "True \<and> (\<exists>rest. cbs_bytes cbs = der_element tag (c v) @ rest)" using view(2) by simp
next
  fix cbs
  assume wf: "wf_cbs cbs"
  obtain b cbs1 view where g: "CBS_get_asn1 cbs (CBS_init [] 0) tag = Some (b, cbs1, view)"
    using CBS_get_asn1_any(2) [OF wf, of "CBS_init [] 0" tag] by auto
  show "rd cbs \<noteq> None"
  proof (cases b)
    case True
    then have g1: "CBS_get_asn1 cbs (CBS_init [] 0) tag = Some (True, cbs1, view)" using g by simp
    then show ?thesis using ok [OF _ g1] bad [OF _ g1] CBS_get_asn1_True(3) [OF wf g1] by (metis option.distinct(1))
  next
    case False
    then show ?thesis using failed g by fastforce
  qed
qed

definition integer_element :: "int \<Rightarrow> bytes" where
  "integer_element i = der_element CBS_ASN1_INTEGER (int_octets i)"

lemma CBS_get_asn1_uint64_eq:
  assumes "wf_cbs view" "CBS_get_asn1 cbs (CBS_init [] 0) CBS_ASN1_INTEGER = Some (True, cbs', view)"
  shows "if minimal_int (cbs_bytes view) \<and> 0 \<le> be_int (cbs_bytes view) \<and> be_nat (cbs_bytes view) < 2 ^ 64
    then CBS_get_asn1_uint64 cbs out = Some (True, cbs', of_nat (be_nat (cbs_bytes view)))
    else \<exists>x. CBS_get_asn1_uint64 cbs out = Some (False, x)"
proof -
  have "CBS_get_asn1_uint64 cbs out = (if minimal_int (cbs_bytes view) \<and> 0 \<le> be_int (cbs_bytes view)
    then do { (ok, out) \<leftarrow> uint64_loop (length (cbs_bytes view)) (cbs_data view) 0 0; Some (ok, cbs', out) }
    else Some (False, cbs', out))"
    using assms(2) unsigned_integer_eq [OF assms(1)] length_cbs_bytes [OF assms(1)]
    by (simp add: CBS_get_asn1_uint64_def CBS_len_def CBS_data_def)
  then show ?thesis using uint64_loop_eq [OF assms(1), of 0 "length (cbs_bytes view)" 0] by (auto split: if_splits)
qed

interpretation uint64_reader: cbs_reader "\<lambda>cbs. CBS_get_asn1_uint64 cbs out" "\<lambda>v. integer_element (uint v)" "\<lambda>_. True"
  unfolding integer_element_def
proof (rule decoded_reader)
  fix cbs cbs' view and v :: u64
  assume g: "wf_cbs view" "CBS_get_asn1 cbs (CBS_init [] 0) CBS_ASN1_INTEGER = Some (True, cbs', view)" "cbs_bytes view = int_octets (uint v)"
  then show "CBS_get_asn1_uint64 cbs out = Some (True, cbs', v)"
    using CBS_get_asn1_uint64_eq [OF g(1,2), of out] u64_octets(1-3) [of v] unat_u64_less [of v] by simp
next
  fix cbs cbs' view
  assume g: "wf_cbs view" "CBS_get_asn1 cbs (CBS_init [] 0) CBS_ASN1_INTEGER = Some (True, cbs', view)"
    "\<And>v :: u64. cbs_bytes view \<noteq> int_octets (uint v)"
  then have "\<not> (minimal_int (cbs_bytes view) \<and> 0 \<le> be_int (cbs_bytes view) \<and> be_nat (cbs_bytes view) < 2 ^ 64)"
    using be_int_u64 [of "cbs_bytes view"] by metis
  then show "\<exists>x. CBS_get_asn1_uint64 cbs out = Some (False, x)" using CBS_get_asn1_uint64_eq [OF g(1,2), of out] by (simp only: if_False)
next
  fix v :: u64
  show "length (int_octets (uint v)) < 2 ^ 32" using u64_octets(4) [of v] by simp
qed (auto simp: CBS_get_asn1_uint64_def)

text \<open>Signed numbers; the result is the 64-bit word of the number.\<close>

lemma i64_octets: "length (int_octets (sint (v :: u64))) \<le> 8"
proof -
  have "- (2 ^ 63) \<le> sint v" "sint v < 2 ^ 63"
    using sint_greater_eq [of v] sint_less [of v] by simp_all
  then have "length (int_octets (sint v)) \<le> Suc 7" unfolding length_int_octets by simp
  then show ?thesis by simp
qed

lemma be_int_i64: "minimal_int bs \<Longrightarrow> length bs \<le> 8 \<Longrightarrow> sint (of_int (be_int bs) :: u64) = be_int bs"
proof -
  assume m: "minimal_int bs" "length bs \<le> 8"
  then have "length (int_octets (be_int bs)) \<le> Suc 7" using int_octets_be by simp
  then have "- (2 ^ 63) \<le> be_int bs" "be_int bs < 2 ^ 63" unfolding length_int_octets by simp_all
  then show ?thesis by (simp add: signed_of_int signed_take_bit_int_eq_self)
qed

lemma CBS_get_asn1_int64_eq:
  assumes "wf_cbs view" "CBS_get_asn1 cbs (CBS_init [] 0) CBS_ASN1_INTEGER = Some (True, cbs', view)"
  shows "CBS_get_asn1_int64 cbs out =
    (if minimal_int (cbs_bytes view) \<and> length (cbs_bytes view) \<le> 8
     then Some (True, cbs', of_int (be_int (cbs_bytes view))) else Some (False, cbs', out))"
proof -
  let ?bs = "cbs_bytes view"
  have n: "unat (cbs_len view) = length ?bs" using length_cbs_bytes [OF assms(1)] by simp
  then have c: "8 < cbs_len view \<longleftrightarrow> \<not> length ?bs \<le> 8" by (simp add: word_less_nat_alt not_le)
  obtain ok where ok: "CBS_is_valid_asn1_integer view False = Some (ok, if ?bs = [] then False else 128 \<le> unat (hd ?bs))"
    "ok \<longleftrightarrow> minimal_int ?bs" using CBS_is_valid_asn1_integer_eq [OF assms(1), of False] by auto
  show ?thesis
  proof (cases "minimal_int ?bs \<and> length ?bs \<le> 8")
    case True
    then have "?bs \<noteq> []" by (simp add: minimal_int_def)
    moreover from this True have "int64_loop (length ?bs) (cbs_data view) (length ?bs) 0 (replicate 8 (if 128 \<le> unat (hd ?bs) then 0xFF else 0)) =
        Some (rev ?bs @ replicate (8 - length ?bs) (if 128 \<le> unat (hd ?bs) then 0xFF else 0))"
      using int64_loop_eq [OF assms(1), of 0 "length ?bs" "if 128 \<le> unat (hd ?bs) then 0xFF else 0"] by simp
    ultimately show ?thesis using True assms(2) ok c le_word_sign_extended [of ?bs]
      by (simp only: CBS_get_asn1_int64_def CBS_len_def CBS_data_def n bind.simps case_prod_conv Let_def if_True if_False simp_thms)
  next
    case False
    then show ?thesis using assms(2) ok c by (auto simp: CBS_get_asn1_int64_def CBS_len_def)
  qed
qed

interpretation int64_reader: cbs_reader "\<lambda>cbs. CBS_get_asn1_int64 cbs out" "\<lambda>v. integer_element (sint v)" "\<lambda>_. True"
  unfolding integer_element_def
proof (rule decoded_reader)
  fix cbs cbs' view and v :: u64
  assume g: "wf_cbs view" "CBS_get_asn1 cbs (CBS_init [] 0) CBS_ASN1_INTEGER = Some (True, cbs', view)" "cbs_bytes view = int_octets (sint v)"
  then show "CBS_get_asn1_int64 cbs out = Some (True, cbs', v)"
    using CBS_get_asn1_int64_eq [OF g(1,2), of out] minimal_int_octets i64_octets [of v] by simp
next
  fix cbs cbs' view
  assume g: "wf_cbs view" "CBS_get_asn1 cbs (CBS_init [] 0) CBS_ASN1_INTEGER = Some (True, cbs', view)"
    "\<And>v :: u64. cbs_bytes view \<noteq> int_octets (sint v)"
  then have "\<not> (minimal_int (cbs_bytes view) \<and> length (cbs_bytes view) \<le> 8)"
    using be_int_i64 [of "cbs_bytes view"] int_octets_be by metis
  then show "\<exists>x. CBS_get_asn1_int64 cbs out = Some (False, x)" using CBS_get_asn1_int64_eq [OF g(1,2), of out] by simp
next
  fix v :: u64
  show "length (int_octets (sint v)) < 2 ^ 32" using i64_octets [of v] by simp
qed (auto simp: CBS_get_asn1_int64_def)

definition bool_octets :: "bool \<Rightarrow> bytes" where
  "bool_octets b = [if b then 0xFF else 0]"

interpretation bool_reader: cbs_reader "\<lambda>cbs. CBS_get_asn1_bool cbs out" "\<lambda>b. der_element CBS_ASN1_BOOLEAN (bool_octets b)" "\<lambda>_. True"
proof (rule decoded_reader)
  fix cbs cbs' view b
  assume g: "wf_cbs view" "CBS_get_asn1 cbs (CBS_init [] 0) CBS_ASN1_BOOLEAN = Some (True, cbs', view)" "cbs_bytes view = bool_octets b"
  have "unat (cbs_len view) = 1" using length_cbs_bytes [OF g(1)] g(3) by (simp add: bool_octets_def)
  then have "cbs_len view = 1" by (simp add: word_unat_eq_iff)
  then show "CBS_get_asn1_bool cbs out = Some (True, cbs', b)"
    using g cbs_data_nth [OF g(1), of 0] by (cases b) (simp_all add: CBS_get_asn1_bool_def CBS_len_def CBS_data_def bool_octets_def)
next
  fix cbs cbs' view
  assume g: "wf_cbs view" "CBS_get_asn1 cbs (CBS_init [] 0) CBS_ASN1_BOOLEAN = Some (True, cbs', view)"
    "\<And>b. cbs_bytes view \<noteq> bool_octets b"
  show "\<exists>x. CBS_get_asn1_bool cbs out = Some (False, x)"
  proof (cases "cbs_len view = 1")
    case True
    then have "length (cbs_bytes view) = 1" using length_cbs_bytes [OF g(1)] by simp
    then obtain b where b: "cbs_bytes view = [b]" by (metis One_nat_def length_0_conv length_Suc_conv)
    then have "b \<noteq> 0" "b \<noteq> 0xFF" using g(3) [of False] g(3) [of True] by (simp_all add: bool_octets_def)
    then show ?thesis using g True b cbs_data_nth [OF g(1), of 0] by (simp add: CBS_get_asn1_bool_def CBS_len_def CBS_data_def)
  qed (use g in \<open>simp add: CBS_get_asn1_bool_def CBS_len_def\<close>)
qed (auto simp: CBS_get_asn1_bool_def bool_octets_def)

section \<open>The basic encoding\<close>

text \<open>The parser of the basic encoding reports whether it took a liberty; if it took none, it was a parser of
  the distinguished encoding.\<close>

lemma get_element_ber: "get_element cbs eo n = Some (ok, cbs', eo') \<Longrightarrow> eo_ber_found eo' = eo_ber_found eo"
  by (auto simp: get_element_def split: Option.bind_splits)

lemma long_form_ber:
  assumes "\<not> eo_ber_found eo"
  shows "(long_form_element cbs header eo hl k True = Some (True, cbs', eo') \<and> \<not> eo_ber_found eo') \<longleftrightarrow>
    long_form_element cbs header eo hl k False = Some (True, cbs', eo')"
  using assms by (auto simp: long_form_element_def Let_def split: Option.bind_splits if_splits dest: get_element_ber)

lemma ber_strict:
  "(cbs_get_any_asn1_element cbs eo True = Some (True, cbs', eo') \<and> \<not> eo_ber_found eo') \<longleftrightarrow>
     cbs_get_any_asn1_element cbs (eo\<lparr>eo_ber_found := False\<rparr>) False = Some (True, cbs', eo')"
proof (cases "parse_asn1_tag cbs 0")
  case None
  then show ?thesis by (simp add: cbs_get_any_asn1_element_def)
next
  case (Some r)
  obtain ok h tag where p: "parse_asn1_tag cbs 0 = Some (ok, h, tag)" using Some by (cases r) auto
  show ?thesis
  proof (cases "CBS_get_u8 h 0")
    case None
    then show ?thesis by (cases ok) (simp_all add: cbs_get_any_asn1_element_def p Let_def)
  next
    case (Some r2)
    obtain ok2 h2 b where g: "CBS_get_u8 h 0 = Some (ok2, h2, b)" using Some by (cases r2) auto
    show ?thesis
      using long_form_ber [of "eo\<lparr>eo_ber_found := False, eo_tag := tag\<rparr>" cbs h2 "CBS_len cbs - CBS_len h2" "ucast (b AND 0x7F)" cbs' eo']
      by (auto simp: cbs_get_any_asn1_element_def p g Let_def dest: get_element_ber)
  qed
qed

section \<open>Numbers of fixed width\<close>

lemma word_le_bytes_rev_take:
  "length bs = k \<Longrightarrow> 8 * k \<le> LENGTH('a) \<Longrightarrow> rev (word_le_bytes k (le_word (rev bs) :: 'a::len word)) = bs"
  by (subst word_le_bytes_le_word) simp_all

lemma u16_reads: "wf_cbs cbs \<Longrightarrow> CBS_get_u16 cbs out =
    (if 2 \<le> length (cbs_bytes cbs) then Some (True, cbs_drop 2 cbs, le_word (rev (take 2 (cbs_bytes cbs)))) else Some (False, cbs, out))"
  by (simp add: CBS_get_u16_def cbs_get_u_eq ucast_le_word_rev)

lemma u24_reads: "wf_cbs cbs \<Longrightarrow> CBS_get_u24 cbs out =
    (if 3 \<le> length (cbs_bytes cbs) then Some (True, cbs_drop 3 cbs, le_word (rev (take 3 (cbs_bytes cbs)))) else Some (False, cbs, out))"
  by (simp add: CBS_get_u24_def cbs_get_u_eq ucast_le_word_rev)

lemma u32_reads: "wf_cbs cbs \<Longrightarrow> CBS_get_u32 cbs out =
    (if 4 \<le> length (cbs_bytes cbs) then Some (True, cbs_drop 4 cbs, le_word (rev (take 4 (cbs_bytes cbs)))) else Some (False, cbs, out))"
  by (simp add: CBS_get_u32_def cbs_get_u_eq ucast_le_word_rev)

lemma u64_reads: "wf_cbs cbs \<Longrightarrow> CBS_get_u64 cbs out =
    (if 8 \<le> length (cbs_bytes cbs) then Some (True, cbs_drop 8 cbs, le_word (rev (take 8 (cbs_bytes cbs)))) else Some (False, cbs, out))"
  by (simp add: CBS_get_u64_def cbs_get_u_eq)

interpretation u16_reader: cbs_reader "\<lambda>cbs. CBS_get_u16 cbs out" "\<lambda>v. rev (word_le_bytes 2 v)" "\<lambda>_. True"
  by (rule fixed_reader [where k = 2 and dec = "\<lambda>bs. le_word (rev bs)", OF u16_reads])
    (simp_all add: le_word_le_bytes word_le_bytes_rev_take)

interpretation u24_reader: cbs_reader "\<lambda>cbs. CBS_get_u24 cbs out" "\<lambda>v. rev (word_le_bytes 3 v)" "\<lambda>v. unat v < 2 ^ 24"
proof (rule fixed_reader [where k = 3 and dec = "\<lambda>bs. le_word (rev bs)", OF u24_reads])
  fix bs :: bytes
  assume l: "length bs = 3"
  have "unat (of_nat (be_nat bs) :: u32) = be_nat bs"
    using be_nat_less [of bs] l by (intro unat_of_nat_u32) simp
  then have "unat (le_word (rev bs) :: u32) = be_nat bs" by (simp add: of_nat_be_nat)
  then show "rev (word_le_bytes 3 (le_word (rev bs) :: u32)) = bs \<and> unat (le_word (rev bs) :: u32) < 2 ^ 24"
    using be_nat_less [of bs] l by (simp add: word_le_bytes_rev_take)
qed (simp_all add: le_word_code3)

interpretation u32_reader: cbs_reader "\<lambda>cbs. CBS_get_u32 cbs out" "\<lambda>v. rev (word_le_bytes 4 v)" "\<lambda>_. True"
  by (rule fixed_reader [where k = 4 and dec = "\<lambda>bs. le_word (rev bs)", OF u32_reads])
    (simp_all add: le_word_le_bytes word_le_bytes_rev_take)

interpretation u64_reader: cbs_reader "\<lambda>cbs. CBS_get_u64 cbs out" "\<lambda>v. rev (word_le_bytes 8 v)" "\<lambda>_. True"
  by (rule fixed_reader [where k = 8 and dec = "\<lambda>bs. le_word (rev bs)", OF u64_reads])
    (simp_all add: le_word_le_bytes word_le_bytes_rev_take)

text \<open>The little-endian readers swap the bytes of the word.\<close>

lemma swapped_word: "length bs = k \<Longrightarrow> 8 * k = LENGTH('a) \<Longrightarrow> le_word (rev (word_le_bytes k (le_word (rev bs) :: 'a::len word))) = (le_word bs :: 'a word)"
  by (simp add: word_le_bytes_rev_take)

interpretation u16le_reader: cbs_reader "\<lambda>cbs. CBS_get_u16le cbs out" "word_le_bytes 2" "\<lambda>_. True"
  by (rule fixed_reader [where k = 2 and dec = le_word and out = out])
    (simp_all add: CBS_get_u16le_def u16_reads CRYPTO_bswap2_def swapped_word le_word_le_bytes word_le_bytes_le_word)

interpretation u32le_reader: cbs_reader "\<lambda>cbs. CBS_get_u32le cbs out" "word_le_bytes 4" "\<lambda>_. True"
  by (rule fixed_reader [where k = 4 and dec = le_word and out = out])
    (simp_all add: CBS_get_u32le_def u32_reads CRYPTO_bswap4_def swapped_word le_word_le_bytes word_le_bytes_le_word)

interpretation u64le_reader: cbs_reader "\<lambda>cbs. CBS_get_u64le cbs out" "word_le_bytes 8" "\<lambda>_. True"
  by (rule fixed_reader [where k = 8 and dec = le_word and out = out])
    (simp_all add: CBS_get_u64le_def cbs_get_u_eq CRYPTO_bswap8_def swapped_word le_word_le_bytes word_le_bytes_le_word)

end
