(* ===== verification/CbbProofs.thy ===== *)
theory CbbProofs
  imports Cbb CbsProofs
begin

text \<open>
  What the builders of \<^verbatim>\<open>cbb.c\<close> write: every operation appends its code to the buffer and changes nothing
  else, or breaks the buffer, which happens only when memory runs out (\<open>appends\<close>); an element built by a child builder
  is its distinguished encoding, and whole trees of elements are read back.
\<close>

section \<open>The buffer\<close>

definition base_ok :: "cbb_buffer_st \<Rightarrow> bool" where
  "base_ok base \<longleftrightarrow> \<not> bb_error base \<and> length (bb_buf base) = unat (bb_cap base) \<and> bb_len base \<le> bb_cap base"

definition content :: "cbb_buffer_st \<Rightarrow> bytes" where
  "content base = take (unat (bb_len base)) (bb_buf base)"

text \<open>When growing cannot fail: memory is available, and the buffer is far from the end of the address space.\<close>

definition ample :: "cbb_env \<Rightarrow> cbb_buffer_st \<Rightarrow> nat \<Rightarrow> bool" where
  "ample env base n \<longleftrightarrow> (\<forall>s. env_avail env s) \<and> bb_can_resize base \<and> unat (bb_cap base) < 2 ^ 62 \<and>
     length (content base) + n < 2 ^ 61"

text \<open>The buffer with more bytes at the end of its contents.\<close>

definition grown :: "cbb_buffer_st \<Rightarrow> bytes \<Rightarrow> cbb_buffer_st \<Rightarrow> bool" where
  "grown base bs base' \<longleftrightarrow> base_ok base' \<and> content base' = content base @ bs \<and> bb_can_resize base' = bb_can_resize base \<and>
     (unat (bb_cap base) < 2 ^ 62 \<longrightarrow> length (content base') < 2 ^ 61 \<longrightarrow> unat (bb_cap base') < 2 ^ 62)"

lemma length_content: "base_ok base \<Longrightarrow> length (content base) = unat (bb_len base)"
  by (simp add: base_ok_def content_def word_le_nat_alt)

lemma content_short: "base_ok base \<Longrightarrow> length (content base) < 2 ^ 64"
  using unat_u64_less [of "bb_len base"] by (simp add: length_content)

lemma ample_less: "ample env base n \<Longrightarrow> m \<le> n \<Longrightarrow> ample env base m"
  by (auto simp: ample_def)

lemma grown_ample: "grown base bs base' \<Longrightarrow> ample env base (length bs + n) \<Longrightarrow> ample env base' n"
  by (auto simp: grown_def ample_def)

lemma grown_trans: "grown base xs base1 \<Longrightarrow> grown base1 ys base2 \<Longrightarrow> grown base (xs @ ys) base2"
  by (auto simp: grown_def)

lemma grown_refl: "base_ok base \<Longrightarrow> grown base [] base"
  by (simp add: grown_def)

definition roomy :: "cbb_buffer_st \<Rightarrow> nat \<Rightarrow> cbb_buffer_st \<Rightarrow> bool" where
  "roomy base n base' \<longleftrightarrow> base_ok base' \<and> content base' = content base \<and> bb_len base' = bb_len base \<and>
     bb_can_resize base' = bb_can_resize base \<and> unat (bb_len base) + n \<le> unat (bb_cap base') \<and>
     (unat (bb_cap base) < 2 ^ 62 \<longrightarrow> length (content base) + n < 2 ^ 61 \<longrightarrow> unat (bb_cap base') < 2 ^ 62)"

lemma new_block_length: "new_block env n = Some bs \<Longrightarrow> length bs = unat n"
  by (auto simp: new_block_def split: if_splits)

lemma new_block_avail: "(\<And>s. env_avail env s) \<Longrightarrow> unat n < 2 ^ 63 \<Longrightarrow> new_block env n \<noteq> None"
proof -
  assume a: "\<And>s. env_avail env s" "unat n < 2 ^ 63"
  have "unat (n + 8) = unat n + 8" using a(2) by (simp add: unat_word_ariths)
  then have "\<not> n + 8 < n" by (simp add: word_less_nat_alt)
  then show ?thesis using a(1) by (simp add: new_block_def OPENSSL_malloc_def OPENSSL_MALLOC_PREFIX_def)
qed

lemma realloc_spec:
  assumes "length old \<le> unat n"
  shows "OPENSSL_realloc env old n = map_option (\<lambda>ret. old @ drop (length old) ret) (new_block env n)"
  using assms by (cases "new_block env n") (simp_all add: OPENSSL_realloc_def Let_def min_absorb1)

lemma reserve_spec:
  assumes ok: "base_ok base"
  obtains (failed) base' out where "cbb_buffer_reserve env base len = (False, base', out)" "bb_error base'" "\<not> ample env base (unat len)"
  | (reserved) base' where "cbb_buffer_reserve env base len = (True, base', bb_len base)" "roomy base (unat len) base'"
proof (cases "bb_len base + len < bb_len base")
  case True
  have "2 ^ 64 \<le> unat (bb_len base) + unat len"
  proof (rule ccontr)
    assume "\<not> 2 ^ 64 \<le> unat (bb_len base) + unat len"
    then have "unat (bb_len base + len) = unat (bb_len base) + unat len" by (simp add: unat_word_ariths)
    then show False using True by (simp add: word_less_nat_alt)
  qed
  then have "\<not> ample env base (unat len)" by (simp add: ample_def length_content [OF ok])
  then show ?thesis using True by (intro failed [of "base\<lparr>bb_error := True\<rparr>" 0]) (simp_all add: cbb_buffer_reserve_def Let_def)
next
  case False
  have sum: "unat (bb_len base + len) = unat (bb_len base) + unat len"
    using False unat_plus_if_size [of "bb_len base" len] unat_u64_less [of len] by (auto simp: word_less_nat_alt word_size split: if_splits)
  have cap: "unat (bb_len base) \<le> unat (bb_cap base)" using ok by (simp add: base_ok_def word_le_nat_alt)
  show ?thesis
  proof (cases "bb_cap base < bb_len base + len")
    case fits: False
    then have "roomy base (unat len) base"
      using ok sum by (simp add: roomy_def word_less_nat_alt not_less)
    then show ?thesis using fits False by (intro reserved) (simp_all add: cbb_buffer_reserve_def Let_def)
  next
    case grow: True
    define newcap where "newcap = (if bb_cap base * 2 < bb_cap base \<or> bb_cap base * 2 < bb_len base + len then bb_len base + len else bb_cap base * 2)"
    have g: "unat (bb_cap base) < unat (bb_len base) + unat len" using grow sum by (simp add: word_less_nat_alt)
    have nc: "unat (bb_len base) + unat len \<le> unat newcap" using sum by (auto simp: newcap_def word_less_nat_alt)
    have small: "unat newcap < 2 ^ 62" if "unat (bb_len base) + unat len < 2 ^ 61"
    proof -
      have "unat (bb_cap base * 2) = unat (bb_cap base) * 2" using g that by (simp add: unat_word_ariths)
      then show ?thesis using g that sum by (auto simp: newcap_def)
    qed
    have len: "length (bb_buf base) \<le> unat newcap" using ok g nc by (simp add: base_ok_def)
    show ?thesis
    proof (cases "\<not> bb_can_resize base \<or> new_block env newcap = None")
      case True
      have "\<not> ample env base (unat len)"
      proof
        assume a: "ample env base (unat len)"
        then have "unat newcap < 2 ^ 62" by (intro small) (simp add: ample_def length_content [OF ok])
        then show False using True a new_block_avail [of env newcap] by (simp add: ample_def)
      qed
      moreover have "OPENSSL_realloc env (bb_buf base) newcap = None" if "bb_can_resize base"
        using True that by (simp add: realloc_spec [OF len])
      then have "cbb_buffer_reserve env base len = (False, base\<lparr>bb_error := True\<rparr>, 0)"
        using False grow by (cases "bb_can_resize base") (simp_all add: cbb_buffer_reserve_def Let_def newcap_def [symmetric])
      ultimately show ?thesis by (intro failed [of "base\<lparr>bb_error := True\<rparr>" 0]) simp_all
    next
      case alloc: False
      then obtain ret where ret: "new_block env newcap = Some ret" by auto
      let ?b = "base\<lparr>bb_buf := bb_buf base @ drop (length (bb_buf base)) ret, bb_cap := newcap\<rparr>"
      have "length (bb_buf base @ drop (length (bb_buf base)) ret) = unat newcap" using len new_block_length [OF ret] by simp
      moreover have "content ?b = content base" using ok cap by (simp add: content_def base_ok_def)
      moreover have "bb_len base \<le> newcap" using nc by (simp add: word_le_nat_alt)
      ultimately have "roomy base (unat len) ?b"
        using ok nc small by (simp add: roomy_def base_ok_def length_content [OF ok])
      then show ?thesis using alloc False grow ret
        by (intro reserved [of ?b]) (simp_all add: cbb_buffer_reserve_def Let_def newcap_def [symmetric] realloc_spec [OF len])
    qed
  qed
qed

text \<open>Room added at the end and filled.\<close>

lemma buf_store_content:
  assumes "base_ok base" "unat (bb_len base) + length bs \<le> unat (bb_cap base)" "unat n = length bs"
  shows "\<exists>buf. buf_store (bb_buf base) (unat (bb_len base)) bs = Some buf \<and> base_ok (base\<lparr>bb_len := bb_len base + n, bb_buf := buf\<rparr>) \<and>
    content (base\<lparr>bb_len := bb_len base + n, bb_buf := buf\<rparr>) = content base @ bs"
proof -
  have l: "length (bb_buf base) = unat (bb_cap base)" "\<not> bb_error base" using assms(1) by (simp_all add: base_ok_def)
  have sum: "unat (bb_len base + n) = unat (bb_len base) + length bs"
    using assms(2,3) unat_u64_less [of "bb_cap base"] by (simp add: unat_word_ariths)
  let ?buf = "take (unat (bb_len base)) (bb_buf base) @ bs @ drop (unat (bb_len base) + length bs) (bb_buf base)"
  have "buf_store (bb_buf base) (unat (bb_len base)) bs = Some ?buf" using assms(2) l by (simp add: buf_store_def)
  moreover have "base_ok (base\<lparr>bb_len := bb_len base + n, bb_buf := ?buf\<rparr>)"
    using assms(2) l sum by (simp add: base_ok_def word_le_nat_alt)
  moreover have "content (base\<lparr>bb_len := bb_len base + n, bb_buf := ?buf\<rparr>) = content base @ bs"
    using assms(2) l sum by (simp add: content_def)
  ultimately show ?thesis by blast
qed

lemma add_spec:
  assumes ok: "base_ok base" and n: "unat n = length bs"
  obtains (failed) base' out where "cbb_buffer_add env base n = (False, base', out)" "bb_error base'" "\<not> ample env base (length bs)"
  | (added) base' buf where "cbb_buffer_add env base n = (True, base', bb_len base)"
      "buf_store (bb_buf base') (unat (bb_len base)) bs = Some buf" "grown base bs (base'\<lparr>bb_buf := buf\<rparr>)"
      "length (bb_buf base') = length (bb_buf (base'\<lparr>bb_buf := buf\<rparr>))"
proof (cases rule: reserve_spec [OF ok, of env n])
  case (1 base' out)
  then show ?thesis using n by (intro failed) (simp_all add: cbb_buffer_add_def)
next
  case (2 base')
  then have r: "base_ok base'" "content base' = content base" "bb_len base' = bb_len base"
    "unat (bb_len base') + length bs \<le> unat (bb_cap base')" by (simp_all add: roomy_def n)
  obtain buf where buf: "buf_store (bb_buf base') (unat (bb_len base')) bs = Some buf"
    "base_ok (base'\<lparr>bb_len := bb_len base' + n, bb_buf := buf\<rparr>)"
    "content (base'\<lparr>bb_len := bb_len base' + n, bb_buf := buf\<rparr>) = content base' @ bs"
    using buf_store_content [OF r(1) r(4) n] by blast
  let ?b = "base'\<lparr>bb_len := bb_len base' + n\<rparr>"
  have g: "grown base bs (?b\<lparr>bb_buf := buf\<rparr>)" using buf(2,3) 2(2) r(2) by (auto simp: grown_def roomy_def n)
  have l: "length (bb_buf base') = length buf" using buf(1) by (auto simp: buf_store_def split: if_splits)
  show ?thesis
    by (rule added [of ?b buf]) (use buf(1) r(3) g l 2(1) in \<open>simp_all add: cbb_buffer_add_def\<close>)
qed

section \<open>Operations that append\<close>

text \<open>A builder without a child, and the buffer it writes to.\<close>

definition idle :: "cbb_store \<Rightarrow> nat \<Rightarrow> nat \<Rightarrow> cbb_buffer_st \<Rightarrow> bool" where
  "idle st c b base \<longleftrightarrow> (\<exists>cbb. get_cbb st c = Some cbb \<and> cbb_base cbb = Some b \<and> cbb_child cbb = None) \<and>
     get_base st b = Some base \<and> base_ok base"

definition cbb_key :: "CBB \<Rightarrow> nat option \<times> bool" where
  "cbb_key cbb = (cbb_base cbb, cbb_is_child cbb)"

text \<open>The store after a failure: the buffer is in its error state, and the builders still point to it.\<close>

definition broken :: "nat \<Rightarrow> cbb_store \<Rightarrow> cbb_store \<Rightarrow> bool" where
  "broken b st st' \<longleftrightarrow> (\<exists>base' cs. st' = (set_base b base' st)\<lparr>st_cbbs := cs\<rparr> \<and> bb_error base' \<and>
     map cbb_key cs = map cbb_key (st_cbbs st))"

text \<open>
  An operation appends \<open>bs\<close> through the builder \<open>c\<close> when it does so and changes nothing else, or breaks the buffer;
  the latter only where memory is not ample.
\<close>

definition appended :: "cbb_env \<Rightarrow> nat \<Rightarrow> bytes \<Rightarrow> cbb_store \<Rightarrow> cbb_buffer_st \<Rightarrow> (bool \<times> cbb_store) option \<Rightarrow> bool" where
  "appended env b bs st base r \<longleftrightarrow>
     (\<exists>base'. r = Some (True, set_base b base' st) \<and> grown base bs base') \<or>
     (\<exists>st'. r = Some (False, st') \<and> broken b st st' \<and> \<not> ample env base (length bs))"

definition appends :: "cbb_env \<Rightarrow> (cbb_store \<Rightarrow> (bool \<times> cbb_store) option) \<Rightarrow> nat \<Rightarrow> nat \<Rightarrow> bytes \<Rightarrow> bool" where
  "appends env f c b bs \<longleftrightarrow> (\<forall>st base. idle st c b base \<longrightarrow> appended env b bs st base (f st))"

lemma get_base_set [simp]: "get_base st b = Some base \<Longrightarrow> get_base (set_base b base' st) b = Some base'"
  by (auto simp: get_base_def set_base_def split: if_splits)

lemma get_cbb_set_base [simp]: "get_cbb (set_base b base' st) c = get_cbb st c"
  by (simp add: get_cbb_def set_base_def)

lemma set_base_twice [simp]: "set_base b base2 (set_base b base1 st) = set_base b base2 st"
  by (simp add: set_base_def)

lemma set_base_same: "get_base st b = Some base \<Longrightarrow> set_base b base st = st"
  by (cases st) (auto simp: get_base_def set_base_def list_update_same_conv split: if_splits)

lemma idle_base: "idle st c b base \<Longrightarrow> get_base st b = Some base \<and> base_ok base"
  by (simp add: idle_def)

lemma idle_set_base: "idle st c b base \<Longrightarrow> base_ok base' \<Longrightarrow> idle (set_base b base' st) c b base'"
  by (auto simp: idle_def)

lemma idle_base_of: "idle st c b base \<Longrightarrow> base_of st c = Some (b, base)"
  by (auto simp: idle_def base_of_def)

lemma broken_set_base: "broken b (set_base b base1 st) st' \<Longrightarrow> broken b st st'"
proof -
  assume "broken b (set_base b base1 st) st'"
  then obtain base' cs where "st' = (set_base b base' (set_base b base1 st))\<lparr>st_cbbs := cs\<rparr>" "bb_error base'"
    "map cbb_key cs = map cbb_key (st_cbbs (set_base b base1 st))" unfolding broken_def by blast
  then have "st' = (set_base b base' st)\<lparr>st_cbbs := cs\<rparr> \<and> bb_error base' \<and> map cbb_key cs = map cbb_key (st_cbbs st)"
    by (simp add: set_base_def)
  then show ?thesis unfolding broken_def by blast
qed

lemma broken_error: "bb_error base' \<Longrightarrow> broken b st (set_base b base' st)"
  unfolding broken_def by (intro exI [of _ base'] exI [of _ "st_cbbs st"]) (simp add: set_base_def)

lemma appended_True: "grown base bs base' \<Longrightarrow> appended env b bs st base (Some (True, set_base b base' st))"
  unfolding appended_def by blast

lemma appended_False: "broken b st st' \<Longrightarrow> \<not> ample env base (length bs) \<Longrightarrow> appended env b bs st base (Some (False, st'))"
  unfolding appended_def by blast

lemma appended_cases:
  assumes "appended env b bs st base r"
  obtains (ok) base' where "r = Some (True, set_base b base' st)" "grown base bs base'"
  | (failed) st' where "r = Some (False, st')" "broken b st st'" "\<not> ample env base (length bs)"
  using assms unfolding appended_def by blast

lemma appended_and_then:
  assumes "idle st c b base" "appended env b xs st base r"
    and "\<And>base'. grown base xs base' \<Longrightarrow> appended env b ys (set_base b base' st) base' (g (set_base b base' st))"
  shows "appended env b (xs @ ys) st base (and_then r g)"
  using assms(2)
proof (cases rule: appended_cases)
  case (ok base1)
  from assms(3) [OF ok(2)] show ?thesis
  proof (cases rule: appended_cases)
    case (ok base2)
    then show ?thesis using \<open>r = _\<close> grown_trans [OF \<open>grown base xs base1\<close>] by (auto intro: appended_True)
  next
    case (failed st')
    have "\<not> ample env base (length (xs @ ys))" using failed(3) grown_ample [OF \<open>grown base xs base1\<close>, of env "length ys"] by auto
    then show ?thesis using failed(1) broken_set_base [OF failed(2)] ok(1) by (simp add: appended_False)
  qed
next
  case (failed st')
  then have "\<not> ample env base (length (xs @ ys))" using ample_less [of env base "length (xs @ ys)" "length xs"] by auto
  then show ?thesis using failed by (simp add: appended_False)
qed

lemma appends_and_then:
  "appends env f c b xs \<Longrightarrow> appends env g c b ys \<Longrightarrow> appends env (\<lambda>st. and_then (f st) g) c b (xs @ ys)"
  unfolding appends_def
proof (intro allI impI)
  fix st base
  assume f: "\<forall>st base. idle st c b base \<longrightarrow> appended env b xs st base (f st)"
    and g: "\<forall>st base. idle st c b base \<longrightarrow> appended env b ys st base (g st)" and i: "idle st c b base"
  show "appended env b (xs @ ys) st base (and_then (f st) g)"
  proof (rule appended_and_then [OF i])
    show "appended env b xs st base (f st)" using f i by blast
    fix base'
    assume "grown base xs base'"
    then have "idle (set_base b base' st) c b base'" using i by (intro idle_set_base) (simp_all add: grown_def)
    then show "appended env b ys (set_base b base' st) base' (g (set_base b base' st))" using g by blast
  qed
qed

lemma appends_nothing: "appends env (\<lambda>st. Some (True, st)) c b []"
  unfolding appends_def
proof (intro allI impI)
  fix st base
  assume "idle st c b base"
  then show "appended env b [] st base (Some (True, st))"
    using appended_True [OF grown_refl, of base env b st] by (simp add: idle_def set_base_same)
qed

lemma flush_idle: "idle st c b base \<Longrightarrow> CBB_flush env c st = Some (True, st)"
  by (subst CBB_flush.simps) (auto simp: idle_def base_ok_def)

lemma appends_flush: "appends env g c b ys \<Longrightarrow> appends env (\<lambda>st. and_then (CBB_flush env c st) g) c b ys"
  unfolding appends_def by (simp add: flush_idle)

lemma add_space_appended:
  assumes i: "idle st c b base" and n: "unat n = length bs" and k: "\<And>buf out. k buf out = buf_store buf out bs"
  shows "appended env b bs st base (add_space env c n k st)"
proof (cases rule: add_spec [OF conjunct2 [OF idle_base [OF i]] n, of env])
  case (1 base' out)
  then show ?thesis using idle_base_of [OF i] broken_error by (simp add: add_space_def Let_def appended_False)
next
  case (2 base' buf)
  then show ?thesis using idle_base_of [OF i] k appended_True [OF 2(3), of env b st] by (simp add: add_space_def Let_def)
qed

lemma appends_bytes:
  assumes "unat len \<le> length data"
  shows "appends env (CBB_add_bytes env c data len) c b (take (unat len) data)"
proof -
  have "OPENSSL_memcpy data len = Some (take (unat len) data)" using assms by (simp add: OPENSSL_memcpy_def)
  then show ?thesis unfolding CBB_add_bytes_def
    by (intro appends_flush) (auto simp: appends_def assms intro: add_space_appended)
qed

lemma appends_zeros: "appends env (CBB_add_zeros env c len) c b (replicate (unat len) 0)"
  unfolding CBB_add_zeros_def by (intro appends_flush) (auto simp: appends_def intro: add_space_appended)

lemma buf_store_snoc:
  "buf_store buf off (xs @ [x]) = do { buf \<leftarrow> buf_store buf (off + length xs) [x]; buf_store buf off xs }"
  by (auto simp: buf_store_def min_def)

lemma rev_word_le_bytes_Suc: "rev (word_le_bytes (Suc n) (v :: u64)) = rev (word_le_bytes n (drop_bit 8 v)) @ [ucast v]"
proof -
  have "word_le_bytes (Suc n) v = ucast v # word_le_bytes n (drop_bit 8 v)"
    by (simp add: word_le_bytes_def map_upt_Suc del: upt_Suc) (simp add: add.commute)
  then show ?thesis by simp
qed

lemma store_be_loop_eq:
  "off \<le> length buf \<Longrightarrow> store_be_loop n buf off v = map_option (\<lambda>buf. (buf, drop_bit (8 * n) v)) (buf_store buf off (rev (word_le_bytes n v)))"
proof (induction n arbitrary: buf v)
  case 0
  then show ?case by (simp add: buf_store_def word_le_bytes_def)
next
  case (Suc n)
  have "drop_bit (8 * n) (drop_bit 8 v) = drop_bit (8 * Suc n) v" by (simp add: add.commute)
  moreover have "off \<le> length buf1" if "buf_store buf (off + n) [ucast v] = Some buf1" for buf1
    using that by (auto simp: buf_store_def split: if_splits)
  ultimately show ?case using Suc
    by (simp only: store_be_loop.simps rev_word_le_bytes_Suc buf_store_snoc)
      (cases "buf_store buf (off + n) [ucast v]", simp_all)
qed

lemma appends_number:
  assumes "unat k = n" "n \<noteq> 0" "drop_bit (8 * n) v = 0"
  shows "appends env (add_number env c v k) c b (rev (word_le_bytes n v))"
  unfolding add_number_def appends_def
proof (intro allI impI)
  fix st base
  assume i: "idle st c b base"
  have k: "k \<noteq> 0" "unat k = length (rev (word_le_bytes n v))" using assms(1,2) by auto
  have base: "base_ok base" using idle_base [OF i] by simp
  show "appended env b (rev (word_le_bytes n v)) st base (and_then (CBB_flush env c st) (\<lambda>st. do {
       (b, base) \<leftarrow> base_of st c;
       (ok, base) \<leftarrow> cbb_buffer_add_u env base v k;
       Some (ok, set_base b base st)
     }))"
  proof (cases rule: add_spec [OF base k(2), of env])
    case (1 base' out)
    then show ?thesis using k(1) by (simp add: flush_idle [OF i] idle_base_of [OF i] cbb_buffer_add_u_def appended_False broken_error)
  next
    case (2 base' buf)
    moreover have "unat (bb_len base) \<le> length (bb_buf base')" using 2(2) by (auto simp: buf_store_def split: if_splits)
    ultimately show ?thesis using k(1) assms
      by (simp add: flush_idle [OF i] idle_base_of [OF i] cbb_buffer_add_u_def store_be_loop_eq appended_True)
  qed
qed

lemma appends_u8: "appends env (CBB_add_u8 env c v) c b [v]"
proof -
  have "drop_bit 8 (ucast v :: u64) = 0" using unat_byte_less [of v] by (simp add: word_unat_eq_iff unat_drop_bit unat_ucast)
  moreover have "rev (word_le_bytes 1 (ucast v :: u64)) = [v]"
    using unat_byte_less [of v] by (simp add: word_le_bytes_def word_unat_eq_iff unat_ucast)
  ultimately show ?thesis unfolding CBB_add_u8_def using appends_number [of 1 1 "ucast v" env c b] by simp
qed

lemmas appends_intros = appends_and_then appends_flush appends_bytes appends_zeros appends_u8

section \<open>Tags\<close>

definition group_byte :: "nat \<Rightarrow> nat \<Rightarrow> byte" where
  "group_byte n j = of_nat (n div 128 ^ j mod 128 + (if j \<noteq> 0 then 128 else 0))"

lemma group_byte_eq:
  "(let byte = ucast (drop_bit (7 * j) (v :: u64)) AND 0x7f in if j \<noteq> 0 then byte OR 0x80 else byte) = group_byte (unat v) j"
proof -
  let ?g = "unat v div 128 ^ j mod 128"
  let ?b = "ucast (drop_bit (7 * j) v) AND 0x7F :: byte"
  have "unat ?b = ?g"
    by (simp add: and_7F unat_take_bit unat_ucast unat_drop_bit power_mult mod_mod_cancel)
  then have b: "?b = of_nat ?g" by (metis of_nat_unat unsigned_of_nat word_unat_eq_iff unat_of_nat_byte unat_byte_less)
  have "unat (of_nat ?g :: byte) < 2 ^ 7" by (simp add: unat_of_nat_byte less_trans [of _ 128])
  then have "push_bit 7 1 OR of_nat ?g = push_bit 7 1 + (of_nat ?g :: byte)" by (rule push_bit_or_add)
  then have "(of_nat ?g OR 0x80 :: byte) = of_nat (?g + 128)" by (simp add: or.commute flip: w80)
  then show ?thesis unfolding b by (simp add: group_byte_def)
qed

lemma appends_groups: "appends env (add_groups env c v i) c b (map (group_byte (unat v)) (rev [0..<i]))"
proof (induction i)
  case 0
  then show ?case using appends_nothing [of env c b] by (simp add: appends_def)
next
  case (Suc i)
  have "add_groups env c v (Suc i) = (\<lambda>st. and_then (CBB_add_u8 env c (group_byte (unat v) i) st) (add_groups env c v i))"
    unfolding add_groups.simps group_byte_eq [symmetric] by (simp add: Let_def fun_eq_iff)
  then show ?case using appends_and_then [OF appends_u8 Suc] by simp
qed

fun group_count :: "nat \<Rightarrow> nat" where
  "group_count n = (if n = 0 then 0 else Suc (group_count (n div 128)))"

declare group_count.simps [simp del]

lemma base128_groups_count: "base128_groups v = group_count (unat v)"
proof (induction v rule: base128_groups.induct)
  case (1 v)
  show ?case
  proof (cases "v = 0")
    case False
    then have "unat v \<noteq> 0" by (simp add: word_unat_eq_iff)
    then show ?thesis using 1 False by (simp add: base128_groups.simps [of v] group_count.simps [of "unat v"] unat_drop_bit word_gt_0)
  qed (simp add: base128_groups.simps group_count.simps)
qed

lemma base128_more_groups: "base128_more n = map (\<lambda>j. of_nat (n div 128 ^ j mod 128 + 128)) (rev [0..<group_count n])"
proof (induction n rule: group_count.induct)
  case (1 n)
  show ?case
  proof (cases "n = 0")
    case False
    have r: "rev [0..<Suc k] = map Suc (rev [0..<k]) @ [0]" for k
      by (simp add: map_Suc_upt rev_map upt_conv_Cons flip: rev_map del: upt_Suc)
    have gc: "group_count n = Suc (group_count (n div 128))" using False by (simp add: group_count.simps [of n])
    show ?thesis
      unfolding base128_more_pos [OF False] 1 [OF False] gc r by (simp add: div_mult2_eq)
  qed (simp add: group_count.simps)
qed

lemma base128_map: "base128 n = map (group_byte n) (rev [0..<if n = 0 then 1 else group_count n])"
proof -
  have r: "rev [0..<Suc k] = map Suc (rev [0..<k]) @ [0]" for k
    by (simp add: map_Suc_upt rev_map upt_conv_Cons flip: rev_map del: upt_Suc)
  have "base128 n = map (group_byte n) (rev [0..<Suc (group_count (n div 128))])"
    unfolding base128_def base128_more_groups r by (simp add: group_byte_def div_mult2_eq)
  moreover have "Suc (group_count (n div 128)) = (if n = 0 then 1 else group_count n)"
    by (simp add: group_count.simps [of n] group_count.simps [of 0])
  ultimately show ?thesis by simp
qed

lemma appends_base128: "appends env (add_base128_integer env c v) c b (base128 (unat v))"
proof -
  have "add_base128_integer env c v = add_groups env c v (if unat v = 0 then 1 else group_count (unat v))"
    unfolding add_base128_integer_def base128_groups_count Let_def
    by (rule ext) (simp add: group_count.simps [of "unat v"])
  then show ?thesis unfolding base128_map by (simp only: appends_groups)
qed

lemma and_E0_byte: "x AND 0xE0 = push_bit 5 (drop_bit 5 (x :: byte))"
proof -
  have e: "(0xE0 :: byte) = push_bit 5 (mask 3)" by (simp add: mask_eq_exp_minus_1 push_bit_eq_mult)
  show ?thesis
    by (subst e, rule bit_word_eqI) (auto simp: bit_and_iff bit_push_bit_iff bit_mask_iff bit_drop_bit_eq)
qed

lemma tag_byte:
  assumes "n < 32"
  shows "(ucast (drop_bit 24 tag) AND 0xE0) OR of_nat n = (of_nat (unat (tag :: u32) div 2 ^ 29 * 32 + n) :: byte)"
proof (rule word_unat_eq_iff [THEN iffD2])
  have t: "unat tag div 2 ^ 29 < 8" by (rule tag_split)
  have n: "unat (of_nat n :: byte) = n" using assms by (simp add: unat_of_nat_byte)
  have d: "unat (drop_bit 5 (ucast (drop_bit 24 tag)) :: byte) = unat tag div 2 ^ 29"
    using unat_u32_less [of tag] by (simp add: unat_drop_bit unat_ucast div_mult2_eq [symmetric] less_mult_imp_div_less)
  have "unat ((ucast (drop_bit 24 tag) AND 0xE0) OR of_nat n :: byte) = unat tag div 2 ^ 29 * 32 + n"
    unfolding and_E0_byte using assms t by (subst unat_push_bit_or) (simp_all add: n d)
  also have "\<dots> = unat (of_nat (unat tag div 2 ^ 29 * 32 + n) :: byte)"
    using assms t by (intro unat_of_nat_byte [symmetric]) simp
  finally show "unat ((ucast (drop_bit 24 tag) AND 0xE0) OR of_nat n :: byte) = unat (of_nat (unat tag div 2 ^ 29 * 32 + n) :: byte)" .
qed

lemma tag_number_unat: "unat (tag AND CBS_ASN1_TAG_NUMBER_MASK) = unat tag mod 2 ^ 29"
proof -
  have m: "CBS_ASN1_TAG_NUMBER_MASK = mask 29"
    by (simp add: CBS_ASN1_TAG_NUMBER_MASK_def CBS_ASN1_TAG_SHIFT_def push_bit_eq_mult mask_eq_exp_minus_1)
  show ?thesis unfolding m take_bit_eq_mask [symmetric] by (rule unat_take_bit)
qed

lemma appends_tag:
  "appends env (\<lambda>st.
     let tag_bits = ucast (drop_bit CBS_ASN1_TAG_SHIFT tag) AND 0xe0;
         tag_number = tag AND CBS_ASN1_TAG_NUMBER_MASK
     in if tag_number \<ge> 0x1f
        then and_then (CBB_add_u8 env c (tag_bits OR 0x1f) st) (add_base128_integer env c (ucast tag_number))
        else CBB_add_u8 env c (tag_bits OR ucast tag_number) st) c b (tag_octets tag)"
proof -
  let ?n = "tag AND CBS_ASN1_TAG_NUMBER_MASK"
  have u: "unat ?n = unat tag mod 2 ^ 29" by (rule tag_number_unat)
  have c: "?n \<ge> 0x1f \<longleftrightarrow> \<not> unat tag mod 2 ^ 29 < 31" by (simp add: word_le_nat_alt u not_less)
  have low: "ucast ?n = (of_nat (unat tag mod 2 ^ 29) :: byte)"
    by (simp add: word_unat_eq_iff unat_ucast unat_of_nat take_bit_eq_mod u)
  have high: "unat (ucast ?n :: u64) = unat tag mod 2 ^ 29" by (simp add: unat_ucast_u32 u)
  have b31: "(ucast (drop_bit 24 tag) AND 0xE0) OR 0x1F = (of_nat (unat tag div 2 ^ 29 * 32 + 31) :: byte)"
    using tag_byte [of 31 tag] by simp
  show ?thesis
  proof (cases "unat tag mod 2 ^ 29 < 31")
    case True
    then show ?thesis using tag_byte [of "unat tag mod 2 ^ 29" tag] appends_u8 [of env c _ b]
      unfolding Let_def c tag_octets_def low CBS_ASN1_TAG_SHIFT_def by simp
  next
    case False
    then show ?thesis using appends_and_then [OF appends_u8 appends_base128 [of env c "ucast ?n" b]] high
      unfolding Let_def c tag_octets_def b31 CBS_ASN1_TAG_SHIFT_def by simp
  qed
qed

section \<open>Elements\<close>

text \<open>The length form of the builder is the one of the distinguished encoding.\<close>

lemma nat_be_word: "m < 2 ^ 64 \<Longrightarrow> rev (word_le_bytes (length (nat_be m)) (of_nat m :: u64)) = nat_be m"
proof -
  assume "m < 2 ^ 64"
  then have "m < 256 ^ 8" by simp
  then have "length (nat_be m) \<le> 8" by (simp only: length_nat_be)
  moreover have "of_nat m = (le_word (rev (nat_be m)) :: u64)" using of_nat_le_word_rev [of "nat_be m"] by simp
  ultimately show ?thesis by (simp add: word_le_bytes_rev_take)
qed

lemma nat_be_form:
  assumes "256 ^ j \<le> m" "m < 256 ^ Suc j" "j < 4" "128 \<le> m"
  shows "length_octets m = of_nat (128 + Suc j) # rev (word_le_bytes (Suc j) (of_nat m :: u64))"
    "drop_bit (8 * Suc j) (of_nat m :: u64) = 0"
proof -
  have "length (nat_be m) \<le> Suc j" "\<not> length (nat_be m) \<le> j" unfolding length_nat_be using assms by simp_all
  then have l: "length (nat_be m) = Suc j" by simp
  have "(256::nat) ^ Suc j \<le> 256 ^ 4" using assms(3) by (intro power_increasing) simp_all
  then have m: "m < 2 ^ 64" using assms(2) by simp
  show "length_octets m = of_nat (128 + Suc j) # rev (word_le_bytes (Suc j) (of_nat m :: u64))"
    using nat_be_word [OF m] assms(4) l by (simp add: length_octets_def)
  have "(2::nat) ^ (8 * Suc j) = 256 ^ Suc j" by (simp only: power_mult) simp
  then show "drop_bit (8 * Suc j) (of_nat m :: u64) = 0"
    using assms(2) by (simp only: word_unat_eq_iff unat_drop_bit unat_of_nat_u64 [OF m]) (simp add: div_eq_0_iff)
qed

lemma asn1_length_form_der:
  assumes "m \<le> 0xfffffffe"
  obtains k first rest where "asn1_length_form (of_nat m) = (of_nat (Suc k), first, rest)" "k \<le> 4"
    "length_octets m = first # rev (word_le_bytes k rest)" "drop_bit (8 * k) rest = 0" "k \<noteq> 0 \<Longrightarrow> rest = of_nat m"
proof -
  have u: "unat (of_nat m :: u64) = m" using assms by (intro unat_of_nat_u64) simp
  have gt: "of_nat m > (0xffffff :: u64) \<longleftrightarrow> 0xffffff < m" "of_nat m > (0xffff :: u64) \<longleftrightarrow> 0xffff < m"
    "of_nat m > (0xff :: u64) \<longleftrightarrow> 0xff < m" "of_nat m > (0x7f :: u64) \<longleftrightarrow> 0x7f < m"
    by (simp_all add: word_less_nat_alt u)
  note d = asn1_length_form_def gt
  have or: "(0x80 OR 4 :: byte) = 132" "(0x80 OR 3 :: byte) = 131" "(0x80 OR 2 :: byte) = 130" "(0x80 OR 1 :: byte) = 129"
    by simp_all
  consider "0xffffff < m" | "0xffff < m" "m \<le> 0xffffff" | "0xff < m" "m \<le> 0xffff" | "0x7f < m" "m \<le> 0xff" | "m \<le> 0x7f"
    by linarith
  then show ?thesis
  proof cases
    case 1
    then show ?thesis using nat_be_form [of 3 m] assms by (intro that [of 4]) (simp_all add: d or)
  next
    case 2
    then show ?thesis using nat_be_form [of 2 m] by (intro that [of 3]) (simp_all add: d or)
  next
    case 3
    then show ?thesis using nat_be_form [of 1 m] by (intro that [of 2]) (simp_all add: d or numeral_2_eq_2)
  next
    case 4
    then show ?thesis using nat_be_form [of 0 m] by (intro that [of 1]) (simp_all add: d or)
  next
    case 5
    have "(ucast (of_nat m :: u64) :: byte) = of_nat m" using 5 by (simp add: word_unat_eq_iff unat_ucast u unat_of_nat_byte)
    then show ?thesis using 5 by (intro that [of 0]) (simp_all add: d length_octets_def word_le_bytes_def)
  qed
qed

text \<open>Making room for a longer length and writing it.\<close>

lemma buf_store_mid: "length xs = n \<Longrightarrow> length ys = length zs \<Longrightarrow> buf_store (xs @ ys @ rest) n zs = Some (xs @ zs @ rest)"
  by (simp add: buf_store_def)

lemma make_room:
  assumes "take (n + 1 + length bs) buf = pre @ x # bs" "length pre = n" "n + 1 + length bs + length rs \<le> length buf"
  shows "\<exists>buf1 buf2 buf3. take (length bs) (drop (n + 1) buf) = bs \<and>
    buf_store buf (n + 1 + length rs) bs = Some buf1 \<and> buf_store buf1 n [f] = Some buf2 \<and>
    buf_store buf2 (n + 1) rs = Some buf3 \<and> length buf3 = length buf \<and> length buf2 = length buf \<and>
    take (n + 1 + length rs + length bs) buf3 = pre @ f # rs @ bs"
proof -
  define tl where "tl = drop (n + 1 + length bs) buf"
  have buf: "buf = pre @ x # bs @ tl" unfolding tl_def by (metis append_take_drop_id assms(1) append.assoc append_Cons)
  have tl: "length rs \<le> length tl" using assms(3) buf assms(2) by simp
  let ?e = "length rs"
  define mid where "mid = take ?e (bs @ tl)"
  have mid: "length mid = ?e" using tl by (simp add: mid_def)
  define rest where "rest = drop (?e + length bs) (bs @ tl)"
  have split: "bs @ tl = mid @ take (length bs) (drop ?e (bs @ tl)) @ rest"
    unfolding mid_def rest_def by (metis append_take_drop_id drop_drop add.commute)
  have l: "length (take (length bs) (drop ?e (bs @ tl))) = length bs" using tl by simp
  have 1: "buf_store buf (n + 1 + ?e) bs = Some (pre @ x # mid @ bs @ rest)"
    using buf_store_mid [of "pre @ x # mid" "n + 1 + ?e" _ bs rest, OF _ l] mid assms(2) split unfolding buf by simp
  have 2: "buf_store (pre @ x # mid @ bs @ rest) n [f] = Some (pre @ f # mid @ bs @ rest)"
    using buf_store_mid [of pre n "[x]" "[f]"] assms(2) by simp
  have 3: "buf_store (pre @ f # mid @ bs @ rest) (n + 1) rs = Some (pre @ f # rs @ bs @ rest)"
    using buf_store_mid [of "pre @ [f]" "n + 1" mid rs] assms(2) mid by simp
  have "length (bs @ tl) = ?e + length bs + length rest" using arg_cong [OF split, of length] l mid by simp
  then show ?thesis using 1 2 3 assms(2) mid unfolding buf by (intro exI [of _ "pre @ x # mid @ bs @ rest"] exI [of _ "pre @ f # mid @ bs @ rest"] exI [of _ "pre @ f # rs @ bs @ rest"]) simp
qed

text \<open>A child builder for an element whose length byte is at \<open>n\<close>.\<close>

definition opened :: "nat \<Rightarrow> nat \<Rightarrow> CBB" where
  "opened b n = zero_cbb\<lparr>cbb_base := Some b, cbb_is_child := True, cbb_offset := of_nat n,
     cbb_pending_len_len := 1, cbb_pending_is_asn1 := True\<rparr>"

text \<open>The buffer after the length \<open>m\<close> of the last element was filled in.\<close>

definition closed :: "cbb_buffer_st \<Rightarrow> bytes \<Rightarrow> cbb_buffer_st \<Rightarrow> bool" where
  "closed base bs base' \<longleftrightarrow> base_ok base' \<and> content base' = bs \<and> bb_can_resize base' = bb_can_resize base \<and>
     (unat (bb_cap base) < 2 ^ 62 \<longrightarrow> length (content base') < 2 ^ 61 \<longrightarrow> unat (bb_cap base') < 2 ^ 62)"

lemma flush_asn1_spec:
  assumes ok: "base_ok base" and c: "content base = pre @ x # bs" and n: "length pre = n" and m: "length bs \<le> 0xfffffffe"
  shows "(\<exists>base1 child len buf. flush_asn1 env base (opened b n) (of_nat (n + 1)) (of_nat (length bs)) = Some (True, base1, child, len) \<and>
      store_be_loop (unat (cbb_pending_len_len child)) (bb_buf base1) (unat (cbb_offset child)) len = Some (buf, 0) \<and>
      closed base (pre @ length_octets (length bs) @ bs) (base1\<lparr>bb_buf := buf\<rparr>)) \<or>
    (\<exists>base1 child len. flush_asn1 env base (opened b n) (of_nat (n + 1)) (of_nat (length bs)) = Some (False, base1, child, len) \<and>
      \<not> ample env base (length (length_octets (length bs)) - 1))"
proof -
  let ?m = "length bs"
  obtain k first rest where form: "asn1_length_form (of_nat ?m) = (of_nat (Suc k), first, rest)" and k: "k \<le> 4"
    and lo: "length_octets ?m = first # rev (word_le_bytes k rest)" and rest: "drop_bit (8 * k) rest = 0" "k \<noteq> 0 \<Longrightarrow> rest = of_nat ?m"
    using asn1_length_form_der [OF m] by metis
  have len: "unat (bb_len base) = n + 1 + ?m" using length_content [OF ok] c n by simp
  then have short: "n + 1 + ?m < 2 ^ 64" using unat_u64_less [of "bb_len base"] by simp
  have u: "unat (of_nat ?m :: u64) = ?m" "unat (of_nat n :: u64) = n" "unat (of_nat (n + 1) :: u64) = n + 1"
    using short by (intro unat_of_nat_u64, simp)+
  have le: "\<not> of_nat ?m > (0xfffffffe :: u64)" using m by (simp add: word_less_nat_alt u)
  have ke: "(of_nat (Suc k) :: byte) - 1 = of_nat k" by simp
  have ku: "unat (of_nat k :: byte) = k" "(ucast (of_nat k :: byte) :: u64) = of_nat k" "unat (of_nat k :: u64) = k"
    using k by (simp_all add: unat_of_nat_byte ucast_of_nat_small unat_of_nat_u64)
  have k1: "(of_nat (Suc k) :: byte) \<noteq> 1 \<longleftrightarrow> k \<noteq> 0"
    using k unat_of_nat_byte [of "Suc k"] by (auto simp: word_unat_eq_iff)
  have rs: "length (rev (word_le_bytes k rest)) = k" by simp
  have off: "cbb_offset (opened b n) = of_nat n" by (simp add: opened_def)
  have sum1: "(of_nat n :: u64) + 1 = of_nat (n + 1)" by simp
  \<comment> \<open>what follows once there is room in \<open>base1\<close>\<close>
  have finish: "\<exists>buf1 buf2 buf3. OPENSSL_memcpy (drop (n + 1) (bb_buf base1)) (of_nat ?m) = Some bs \<and>
      buf_store (bb_buf base1) (n + 1 + k) bs = Some buf1 \<and> buf_store buf1 n [first] = Some buf2 \<and>
      store_be_loop k buf2 (n + 1) rest = Some (buf3, 0) \<and> closed base (pre @ length_octets ?m @ bs) (base1\<lparr>bb_buf := buf3\<rparr>)"
    if r: "\<not> bb_error base1" "length (bb_buf base1) = unat (bb_cap base1)" "unat (bb_len base1) = n + 1 + ?m + k"
      "bb_len base1 \<le> bb_cap base1" "take (n + 1 + ?m) (bb_buf base1) = pre @ x # bs" "bb_can_resize base1 = bb_can_resize base"
      "unat (bb_cap base) < 2 ^ 62 \<longrightarrow> n + 1 + ?m + k < 2 ^ 61 \<longrightarrow> unat (bb_cap base1) < 2 ^ 62" for base1
  proof -
    have room: "n + 1 + ?m + length (rev (word_le_bytes k rest)) \<le> length (bb_buf base1)"
      using r(2-4) rs by (simp add: word_le_nat_alt)
    obtain buf1 buf2 buf3 where s: "take ?m (drop (n + 1) (bb_buf base1)) = bs" "buf_store (bb_buf base1) (n + 1 + k) bs = Some buf1"
      "buf_store buf1 n [first] = Some buf2" "buf_store buf2 (n + 1) (rev (word_le_bytes k rest)) = Some buf3"
      "length buf3 = length (bb_buf base1)" "length buf2 = length (bb_buf base1)" "take (n + 1 + k + ?m) buf3 = pre @ first # rev (word_le_bytes k rest) @ bs"
      using make_room [OF r(5) n room, of first] rs by auto
    have "OPENSSL_memcpy (drop (n + 1) (bb_buf base1)) (of_nat ?m) = Some bs"
      using s(1) room by (simp add: OPENSSL_memcpy_def u)
    moreover have "store_be_loop k buf2 (n + 1) rest = Some (buf3, 0)"
      using s(4,6) room by (subst store_be_loop_eq) (simp_all add: rest)
    moreover have "closed base (pre @ length_octets ?m @ bs) (base1\<lparr>bb_buf := buf3\<rparr>)"
      using r s(5,7) lo n by (simp add: closed_def base_ok_def content_def add_ac)
    ultimately show ?thesis using s(2,3) by blast
  qed
  show ?thesis
  proof (cases "k = 0")
    case True
    have "take (n + 1 + ?m) (bb_buf base) = pre @ x # bs" using c len by (simp add: content_def)
    then obtain buf1 buf2 buf3 where s: "buf_store (bb_buf base) (n + 1 + k) bs = Some buf1" "buf_store buf1 n [first] = Some buf2"
      "store_be_loop k buf2 (n + 1) rest = Some (buf3, 0)" "closed base (pre @ length_octets ?m @ bs) (base\<lparr>bb_buf := buf3\<rparr>)"
      "OPENSSL_memcpy (drop (n + 1) (bb_buf base)) (of_nat ?m) = Some bs"
      using finish [of base] ok len True by (auto simp: base_ok_def)
    have "bs = take ?m (drop (n + 1) (bb_buf base))" using s(5) by (auto simp: OPENSSL_memcpy_def u split: if_splits)
    then have "buf1 = bb_buf base"
      using s(1) True by (auto simp: buf_store_def split: if_splits) (metis append_take_drop_id drop_drop add.commute add.left_commute plus_1_eq_Suc)
    then show ?thesis using True s form le off sum1 u
      by (simp add: flush_asn1_def k1 ke ku opened_def)
  next
    case False
    have uS: "unat (of_nat (Suc n) :: u64) = Suc n" using u(3) by (simp del: of_nat_Suc of_nat_add)
    have restm: "rest = of_nat ?m" using rest(2) False by simp
    have stepped: "flush_asn1 env base (opened b n) (of_nat (n + 1)) (of_nat ?m) = (case cbb_buffer_add env base (of_nat k) of
        (ok, base1, _) \<Rightarrow> if \<not> ok then Some (False, base1, opened b n, of_nat ?m)
        else do {
          moved \<leftarrow> OPENSSL_memcpy (drop (n + 1) (bb_buf base1)) (of_nat ?m);
          buf \<leftarrow> buf_store (bb_buf base1) (unat (of_nat (n + 1) + of_nat k :: u64)) moved;
          buf \<leftarrow> buf_store buf n [first];
          Some (True, base1\<lparr>bb_buf := buf\<rparr>, (opened b n)\<lparr>cbb_offset := of_nat (n + 1), cbb_pending_len_len := of_nat k\<rparr>, of_nat ?m)
        })"
      using False form le restm
      by (simp add: flush_asn1_def k1 ke ku off u uS sum1 Let_def split: prod.split del: of_nat_Suc of_nat_add)
    show ?thesis
    proof (cases rule: reserve_spec [OF ok, of env "of_nat k"])
      case (1 base' out)
      then have "\<not> ample env base (length (length_octets ?m) - 1)" using lo rs ku by simp
      moreover have "flush_asn1 env base (opened b n) (of_nat (n + 1)) (of_nat ?m) = Some (False, base', opened b n, of_nat ?m)"
        unfolding stepped cbb_buffer_add_def 1(1) by simp
      ultimately show ?thesis by blast
    next
      case (2 base1)
      let ?b = "base1\<lparr>bb_len := bb_len base1 + of_nat k\<rparr>"
      have r: "base_ok base1" "content base1 = content base" "bb_len base1 = bb_len base" "bb_can_resize base1 = bb_can_resize base"
        "n + 1 + ?m + k \<le> unat (bb_cap base1)"
        "unat (bb_cap base) < 2 ^ 62 \<longrightarrow> n + 1 + ?m + k < 2 ^ 61 \<longrightarrow> unat (bb_cap base1) < 2 ^ 62"
        using 2(2) len c n ku by (simp_all add: roomy_def)
      have l: "unat (bb_len base1 + of_nat k) = n + 1 + ?m + k"
        using r(3,5) len ku unat_u64_less [of "bb_cap base1"] by (simp add: unat_word_ariths)
      have idx: "unat (of_nat (n + 1) + of_nat k :: u64) = n + 1 + k"
      proof -
        have "n + 1 + k < 2 ^ 64" using r(5) unat_u64_less [of "bb_cap base1"] by simp
        then show ?thesis by (simp only: unat_of_nat_u64 flip: of_nat_add)
      qed
      have "take (n + 1 + ?m) (bb_buf ?b) = pre @ x # bs" using r(2,3) c len by (simp add: content_def)
      then obtain buf1 buf2 buf3 where s: "OPENSSL_memcpy (drop (n + 1) (bb_buf ?b)) (of_nat ?m) = Some bs" "buf_store (bb_buf ?b) (n + 1 + k) bs = Some buf1"
        "buf_store buf1 n [first] = Some buf2" "store_be_loop k buf2 (n + 1) rest = Some (buf3, 0)"
        "closed base (pre @ length_octets ?m @ bs) (?b\<lparr>bb_buf := buf3\<rparr>)"
        using finish [of ?b] r l by (auto simp: base_ok_def word_le_nat_alt)
      have "flush_asn1 env base (opened b n) (of_nat (n + 1)) (of_nat ?m) = Some (True, ?b\<lparr>bb_buf := buf2\<rparr>,
          (opened b n)\<lparr>cbb_offset := of_nat (n + 1), cbb_pending_len_len := of_nat k\<rparr>, of_nat ?m)"
        unfolding stepped cbb_buffer_add_def 2(1) idx using s(1-3) by simp
      moreover have "store_be_loop (unat (of_nat k :: byte)) buf2 (unat (of_nat (n + 1) :: u64)) (of_nat ?m) = Some (buf3, 0)"
        using s(4) unfolding ku u restm .
      ultimately show ?thesis using s(5)
        by (intro disjI1 exI [of _ "?b\<lparr>bb_buf := buf2\<rparr>"] exI [of _ buf3] exI [of _ "of_nat ?m"]
          exI [of _ "(opened b n)\<lparr>cbb_offset := of_nat (n + 1), cbb_pending_len_len := of_nat k\<rparr>"] conjI)
          (simp_all del: of_nat_add of_nat_Suc)
    qed
  qed
qed

text \<open>Flushing a builder whose child is idle.\<close>

lemma get_cbb_set [simp]: "c < length (st_cbbs st) \<Longrightarrow> get_cbb (set_cbb c cbb st) c = Some cbb"
  "c \<noteq> d \<Longrightarrow> get_cbb (set_cbb c cbb st) d = get_cbb st d"
  by (auto simp: get_cbb_def set_cbb_def)

lemma get_base_set_cbb [simp]: "get_base (set_cbb c cbb st) b = get_base st b"
  by (simp add: get_base_def set_cbb_def)

lemma flush_element:
  assumes c: "get_cbb st c = Some cbb" "cbb_base cbb = Some b" "cbb_child cbb = Some d" and cd: "c \<noteq> d"
    and d: "get_cbb st d = Some (opened b n)"
    and base: "get_base st b = Some base" "base_ok base" "content base = pre @ x # bs" "length pre = n"
    and m: "length bs \<le> 0xfffffffe"
  shows "(\<exists>base' dead. CBB_flush env c st = Some (True, set_cbb c (cbb\<lparr>cbb_child := None\<rparr>) (set_cbb d dead (set_base b base' st))) \<and>
      closed base (pre @ length_octets (length bs) @ bs) base') \<or>
    (\<exists>base'. CBB_flush env c st = Some (False, set_base b base' st) \<and> bb_error base' \<and>
      \<not> ample env base (length (length_octets (length bs)) - 1))"
proof -
  have len: "unat (bb_len base) = n + 1 + length bs" using length_content [OF base(2)] base(3,4) by simp
  then have short: "n + 1 + length bs < 2 ^ 64" using unat_u64_less [of "bb_len base"] by simp
  have "idle st d b base" using d base by (simp add: idle_def opened_def zero_cbb_def)
  then have sub: "CBB_flush env d st = Some (True, st)" by (rule flush_idle)
  have start: "cbb_offset (opened b n) + ucast (cbb_pending_len_len (opened b n)) = of_nat (n + 1)"
    by (simp add: opened_def)
  have u: "unat (of_nat n :: u64) = n" "unat (of_nat (n + 1) :: u64) = n + 1"
    using short by (intro unat_of_nat_u64, simp)+
  have cond: "\<not> of_nat (n + 1) < cbb_offset (opened b n)" "\<not> bb_len base < of_nat (n + 1)"
    unfolding word_less_nat_alt u len by (simp_all add: opened_def u)
  have diff: "bb_len base - of_nat (n + 1) = of_nat (length bs)"
  proof -
    have "bb_len base = of_nat (n + 1 + length bs)" using len by (metis of_nat_unat ucast_id)
    then show ?thesis by simp
  qed
  have dl: "d < length (st_cbbs st)" "c < length (st_cbbs st)" using d c(1) by (auto simp: get_cbb_def split: if_splits)
  have err: "\<not> bb_error base" using base(2) by (simp add: base_ok_def)
  have step: "CBB_flush env c st = flush_child env c b d (of_nat (n + 1)) True st"
    by (subst CBB_flush.simps) (simp add: c d base(1) err sub start, simp add: opened_def)
  show ?thesis using flush_asn1_spec [OF base(2-4) m, of env b]
  proof (elim disjE exE conjE)
    fix base1 child len' buf
    assume f: "flush_asn1 env base (opened b n) (of_nat (n + 1)) (of_nat (length bs)) = Some (True, base1, child, len')"
      and s: "store_be_loop (unat (cbb_pending_len_len child)) (bb_buf base1) (unat (cbb_offset child)) len' = Some (buf, 0)"
      and cl: "closed base (pre @ length_octets (length bs) @ bs) (base1\<lparr>bb_buf := buf\<rparr>)"
    have "CBB_flush env c st = Some (True, set_cbb c (cbb\<lparr>cbb_child := None\<rparr>)
        (set_cbb d (child\<lparr>cbb_base := None\<rparr>) (set_base b (base1\<lparr>bb_buf := buf\<rparr>) st)))"
      unfolding step flush_child_def d base(1) Let_def bind.simps diff
      using cond f s cd c(1) dl by (simp add: opened_def Let_def del: of_nat_add of_nat_Suc)
    then show ?thesis using cl by blast
  next
    fix base1 child len'
    assume f: "flush_asn1 env base (opened b n) (of_nat (n + 1)) (of_nat (length bs)) = Some (False, base1, child, len')"
      and a: "\<not> ample env base (length (length_octets (length bs)) - 1)"
    have "CBB_flush env c st = Some (False, set_base b (base1\<lparr>bb_error := True\<rparr>) st)"
      unfolding step flush_child_def d base(1) Let_def bind.simps diff
      using cond f by (simp add: opened_def Let_def flush_err_def del: of_nat_add of_nat_Suc)
    moreover have "bb_error (base1\<lparr>bb_error := True\<rparr>)" by simp
    ultimately show ?thesis using a by blast
  qed
qed

text \<open>A store with one more builder, whose buffer \<open>b\<close> may have changed.\<close>

definition pushed :: "nat \<Rightarrow> cbb_store \<Rightarrow> cbb_store \<Rightarrow> bool" where
  "pushed b st st' \<longleftrightarrow> (\<exists>base. st_bases st' = (st_bases st)[b := Some base]) \<and>
     map cbb_key (take (length (st_cbbs st)) (st_cbbs st')) = map cbb_key (st_cbbs st)"

lemma broken_pop:
  assumes p: "pushed b st st1" and br: "broken b st1 st'"
  shows "broken b st (st'\<lparr>st_cbbs := take (length (st_cbbs st)) (st_cbbs st')\<rparr>)"
proof -
  obtain base' cs where st': "st' = (set_base b base' st1)\<lparr>st_cbbs := cs\<rparr>" and e: "bb_error base'"
    and k: "map cbb_key cs = map cbb_key (st_cbbs st1)"
    using br unfolding broken_def by blast
  obtain base1 where b1: "st_bases st1 = (st_bases st)[b := Some base1]"
    and k1: "map cbb_key (take (length (st_cbbs st)) (st_cbbs st1)) = map cbb_key (st_cbbs st)"
    using p unfolding pushed_def by blast
  have "st'\<lparr>st_cbbs := take (length (st_cbbs st)) (st_cbbs st')\<rparr> = (set_base b base' st)\<lparr>st_cbbs := take (length (st_cbbs st)) cs\<rparr>"
    by (simp add: st' set_base_def b1)
  moreover have "map cbb_key (take (length (st_cbbs st)) cs) = map cbb_key (st_cbbs st)"
    using k k1 by (metis take_map)
  ultimately show ?thesis using e unfolding broken_def by blast
qed

definition add_element :: "cbb_env \<Rightarrow> nat \<Rightarrow> u32 \<Rightarrow> (nat \<Rightarrow> cbb_store \<Rightarrow> (bool \<times> cbb_store) option) \<Rightarrow> cbb_store \<Rightarrow> (bool \<times> cbb_store) option" where
  "add_element env c tag f = with_cbb (\<lambda>d st.
     and_then (CBB_add_asn1 env c d tag st) (\<lambda>st. and_then (f d st) (CBB_flush env c)))"

lemma length_octets_not_Nil [simp]: "length_octets n \<noteq> []"
  by (simp add: length_octets_def)

lemma CBB_add_asn1_spec:
  fixes tag :: u32
  assumes i: "idle st c b base" and d: "get_cbb st d = Some dead" "c \<noteq> d" and cbb: "get_cbb st c = Some cbb"
  defines "n \<equiv> length (content base) + length (tag_octets tag)"
  shows "(\<exists>base'. CBB_add_asn1 env c d tag st = Some (True, set_cbb c (cbb\<lparr>cbb_child := Some d\<rparr>) (set_cbb d (opened b n) (set_base b base' st))) \<and>
      grown base (tag_octets tag @ [0]) base') \<or>
    (\<exists>st'. CBB_add_asn1 env c d tag st = Some (False, st') \<and> broken b st st' \<and> \<not> ample env base (length (tag_octets tag) + 1))"
proof -
  let ?tag = "\<lambda>st. let tag_bits = ucast (drop_bit CBS_ASN1_TAG_SHIFT tag) AND 0xe0;
         tag_number = tag AND CBS_ASN1_TAG_NUMBER_MASK
     in if tag_number \<ge> 0x1f
        then and_then (CBB_add_u8 env c (tag_bits OR 0x1f) st) (add_base128_integer env c (ucast tag_number))
        else CBB_add_u8 env c (tag_bits OR ucast tag_number) st"
  let ?k = "\<lambda>st. do { (b, base) \<leftarrow> base_of st c; and_then (CBB_add_u8 env c 0 st) (new_child c d (bb_len base) 1 True) }"
  have step: "CBB_add_asn1 env c d tag st = and_then (?tag st) ?k"
    by (simp add: CBB_add_asn1_def flush_idle [OF i] Let_def)
  have bc: "cbb_base cbb = Some b" "cbb_child cbb = None" using i cbb by (auto simp: idle_def)
  have cl: "c < length (st_cbbs st)" "d < length (st_cbbs st)" using cbb d(1) by (auto simp: get_cbb_def split: if_splits)
  have "appended env b (tag_octets tag) st base (?tag st)" using appends_tag i unfolding appends_def by blast
  then show ?thesis
  proof (cases rule: appended_cases)
    case (failed st')
    then have "\<not> ample env base (length (tag_octets tag) + 1)" using ample_less by fastforce
    then show ?thesis using failed unfolding step by simp
  next
    case (ok base1)
    let ?st1 = "set_base b base1 st"
    have i1: "idle ?st1 c b base1" using i ok(2) by (intro idle_set_base) (simp_all add: grown_def)
    then have ok1: "base_ok base1" by (simp add: idle_def)
    have len: "bb_len base1 = of_nat n"
    proof -
      have "unat (bb_len base1) = n" using ok(2) length_content [OF ok1] by (simp add: grown_def n_def)
      then show ?thesis by (metis of_nat_unat ucast_id)
    qed
    have k: "CBB_add_asn1 env c d tag st = and_then (CBB_add_u8 env c 0 ?st1) (new_child c d (of_nat n) 1 True)"
      unfolding step ok(1) by (simp add: idle_base_of [OF i1] len)
    have "appended env b [0] ?st1 base1 (CBB_add_u8 env c 0 ?st1)" using appends_u8 i1 unfolding appends_def by blast
    then show ?thesis
    proof (cases rule: appended_cases)
      case (failed st')
      then have "\<not> ample env base (length (tag_octets tag) + 1)" using grown_ample [OF ok(2), of env 1] by auto
      then show ?thesis using failed broken_set_base [OF failed(2)] unfolding k by simp
    next
      case ok2: (ok base2)
      have "grown base (tag_octets tag @ [0]) base2" using grown_trans [OF ok(2) ok2(2)] .
      moreover have "CBB_add_asn1 env c d tag st = Some (True, set_cbb c (cbb\<lparr>cbb_child := Some d\<rparr>) (set_cbb d (opened b n) (set_base b base2 st)))"
        unfolding k using ok2(1) cbb d(1) bc by (simp add: new_child_def opened_def Let_def)
      ultimately show ?thesis by blast
    qed
  qed
qed

lemma set_cbb_length [simp]: "length (st_cbbs (set_cbb c cbb st)) = length (st_cbbs st)"
  "length (st_cbbs (set_base b base st)) = length (st_cbbs st)"
  by (simp_all add: set_cbb_def set_base_def)

lemma appends_element:
  assumes f: "\<And>d. appends env (f d) d b bs" and m: "length bs \<le> 0xfffffffe"
  shows "appends env (add_element env c tag f) c b (der_element tag bs)"
  unfolding appends_def
proof (intro allI impI)
  fix st base
  assume i: "idle st c b base"
  let ?d = "length (st_cbbs st)" and ?all = "length (der_element tag bs)"
  define st1 where "st1 = st\<lparr>st_cbbs := st_cbbs st @ [zero_cbb]\<rparr>"
  obtain cbb where cbb: "get_cbb st c = Some cbb" "cbb_base cbb = Some b" "cbb_child cbb = None" using i by (auto simp: idle_def)
  have cd: "c < ?d" "c \<noteq> ?d" "st_cbbs st ! c = cbb" using cbb(1) by (auto simp: get_cbb_def split: if_splits)
  have base: "get_base st b = Some base" "base_ok base" using i by (simp_all add: idle_def)
  have c1: "get_cbb st1 c = Some cbb" "get_cbb st1 ?d = Some zero_cbb"
    using cd by (simp_all add: st1_def get_cbb_def nth_append)
  have "get_base st1 b = get_base st b" by (simp add: st1_def get_base_def)
  then have i1: "idle st1 c b base" using c1 cbb base by (simp add: idle_def)
  have all: "?all = length (tag_octets tag) + length (length_octets (length bs)) + length bs"
    by (simp add: der_element_def der_header_def)
  have lo: "1 \<le> length (length_octets (length bs))" using length_octets_not_Nil [of "length bs"] by (cases "length_octets (length bs)") auto
  let ?pop = "\<lambda>st'. st'\<lparr>st_cbbs := take ?d (st_cbbs st')\<rparr>"
  let ?run = "and_then (CBB_add_asn1 env c ?d tag st1) (\<lambda>st. and_then (f ?d st) (CBB_flush env c))"
  have run: "add_element env c tag f st = do { (r, st') \<leftarrow> ?run; Some (r, ?pop st') }"
    by (simp add: add_element_def with_cbb_def st1_def)
  have fails: "appended env b (der_element tag bs) st base (add_element env c tag f st)"
    if "?run = Some (False, st')" "pushed b st st2" "broken b st2 st'" "\<not> ample env base ?all" for st2 st'
    using that broken_pop [of b st st2 st'] unfolding run by (simp add: appended_False)
  have push1: "pushed b st st1"
  proof -
    have "(st_bases st)[b := Some base] = st_bases st" using base(1) by (auto simp: get_base_def list_update_same_conv split: if_splits)
    then have "st_bases st1 = (st_bases st)[b := Some base]" by (simp add: st1_def)
    then show ?thesis unfolding pushed_def by (auto simp: st1_def)
  qed
  let ?n = "length (content base) + length (tag_octets tag)"
  show "appended env b (der_element tag bs) st base (add_element env c tag f st)"
    using CBB_add_asn1_spec [OF i1 c1(2) cd(2) c1(1), of env tag]
  proof (elim disjE exE conjE)
    fix st'
    assume "CBB_add_asn1 env c ?d tag st1 = Some (False, st')" "broken b st1 st'" "\<not> ample env base (length (tag_octets tag) + 1)"
    then show ?thesis using fails [OF _ push1] ample_less [of env base ?all "length (tag_octets tag) + 1"] lo all by auto
  next
    fix base1
    assume add: "CBB_add_asn1 env c ?d tag st1 = Some (True, set_cbb c (cbb\<lparr>cbb_child := Some ?d\<rparr>) (set_cbb ?d (opened b ?n) (set_base b base1 st1)))"
      and g1: "grown base (tag_octets tag @ [0]) base1"
    define st2 where "st2 = set_cbb c (cbb\<lparr>cbb_child := Some ?d\<rparr>) (set_cbb ?d (opened b ?n) (set_base b base1 st1))"
    have l1: "length (st_cbbs st1) = Suc ?d" by (simp add: st1_def)
    have b1: "get_base st1 b = Some base" using i1 by (simp add: idle_def)
    have c2: "get_cbb st2 c = Some (cbb\<lparr>cbb_child := Some ?d\<rparr>)" "get_cbb st2 ?d = Some (opened b ?n)" "get_base st2 b = Some base1"
      using cd l1 b1 by (simp_all add: st2_def)
    have i2: "idle st2 ?d b base1" using c2 g1 by (simp add: idle_def opened_def zero_cbb_def grown_def)
    have push2: "pushed b st (set_base b base2 st2)" for base2
      using cd cbb(1) by (auto simp: pushed_def st2_def st1_def set_cbb_def set_base_def list_update_append take_map map_update cbb_key_def
          get_cbb_def list_eq_iff_nth_eq nth_list_update)
    have push2': "pushed b st st2" using push2 [of base1] by (simp add: set_base_same [OF c2(3)])
    have "appended env b bs st2 base1 (f ?d st2)" using f [of ?d] i2 unfolding appends_def by blast
    then show ?thesis
    proof (cases rule: appended_cases)
      case (failed st')
      have "\<not> ample env base ?all"
      proof
        assume "ample env base ?all"
        then have "ample env base (length (tag_octets tag @ [0]) + length bs)" by (rule ample_less) (use lo all in simp)
        then show False using grown_ample [OF g1] failed(3) by blast
      qed
      then show ?thesis using failed add by (intro fails [OF _ push2' failed(2)]) (simp_all add: st2_def)
    next
      case (ok base2)
      let ?st3 = "set_base b base2 st2"
      have content2: "content base2 = (content base @ tag_octets tag) @ 0 # bs" using g1 ok(2) by (simp add: grown_def)
      have ok2: "base_ok base2" using ok(2) by (simp add: grown_def)
      have c3: "get_cbb ?st3 c = Some (cbb\<lparr>cbb_child := Some ?d\<rparr>)" "get_cbb ?st3 ?d = Some (opened b ?n)" "get_base ?st3 b = Some base2"
        using c2 by simp_all
      have run3: "?run = CBB_flush env c ?st3" using add ok(1) by (simp add: st2_def)
      have a2: "\<not> ample env base ?all" if "\<not> ample env base2 (length (length_octets (length bs)) - 1)"
      proof
        assume "ample env base ?all"
        then have "ample env base (length ((tag_octets tag @ [0]) @ bs) + (length (length_octets (length bs)) - 1))"
          by (rule ample_less) (use lo all in simp)
        then show False using grown_ample [OF grown_trans [OF g1 ok(2)]] that by blast
      qed
      have p: "cbb_base (cbb\<lparr>cbb_child := Some ?d\<rparr>) = Some b" "cbb_child (cbb\<lparr>cbb_child := Some ?d\<rparr>) = Some ?d"
        "length (content base @ tag_octets tag) = ?n" using cbb(2) by simp_all
      show ?thesis
        using flush_element [OF c3(1) p(1,2) cd(2) c3(2,3) ok2 content2 p(3) m, of env]
      proof (elim disjE exE conjE)
        fix base'
        assume "CBB_flush env c ?st3 = Some (False, set_base b base' ?st3)" "bb_error base'"
          "\<not> ample env base2 (length (length_octets (length bs)) - 1)"
        then show ?thesis using fails [OF _ push2 broken_error] run3 a2 by simp
      next
        fix base' dead'
        assume fl: "CBB_flush env c ?st3 = Some (True, set_cbb c ((cbb\<lparr>cbb_child := Some ?d\<rparr>)\<lparr>cbb_child := None\<rparr>) (set_cbb ?d dead' (set_base b base' ?st3)))"
          and cl: "closed base2 ((content base @ tag_octets tag) @ length_octets (length bs) @ bs) base'"
        have "cbb\<lparr>cbb_child := None\<rparr> = cbb" using cbb(3) by simp
        then have "?pop (set_cbb c ((cbb\<lparr>cbb_child := Some ?d\<rparr>)\<lparr>cbb_child := None\<rparr>) (set_cbb ?d dead' (set_base b base' ?st3))) = set_base b base' st"
          using cd by (simp add: st2_def st1_def set_cbb_def set_base_def list_update_append list_update_same_conv)
        then have "add_element env c tag f st = Some (True, set_base b base' st)" using fl run3 by (simp add: run)
        moreover have "grown base (der_element tag bs) base'"
          using cl g1 ok(2) lo by (auto simp: closed_def grown_def der_element_def der_header_def)
        ultimately show ?thesis by (simp add: appended_True)
      qed
    qed
  qed
qed

section \<open>Trees of elements\<close>

datatype der_tree = Primitive u32 bytes | Constructed u32 "der_tree list"

fun der_bytes :: "der_tree \<Rightarrow> bytes" where
  "der_bytes (Primitive tag c) = der_element tag c"
| "der_bytes (Constructed tag ts) = der_element tag (concat (map der_bytes ts))"

text \<open>The form bit of a tag tells the two kinds apart, and a builder takes at most 4294967294 bytes of contents.\<close>

fun wf_tree :: "der_tree \<Rightarrow> bool" where
  "wf_tree (Primitive tag c) \<longleftrightarrow> tag AND CBS_ASN1_CONSTRUCTED = 0 \<and> length c \<le> 0xfffffffe"
| "wf_tree (Constructed tag ts) \<longleftrightarrow> tag AND CBS_ASN1_CONSTRUCTED \<noteq> 0 \<and> list_all wf_tree ts \<and>
     length (concat (map der_bytes ts)) \<le> 0xfffffffe"

text \<open>Clients of the two interfaces: a writer of trees, and a reader that takes elements until the end.\<close>

fun write_tree :: "cbb_env \<Rightarrow> der_tree \<Rightarrow> nat \<Rightarrow> cbb_store \<Rightarrow> (bool \<times> cbb_store) option"
  and write_trees :: "cbb_env \<Rightarrow> der_tree list \<Rightarrow> nat \<Rightarrow> cbb_store \<Rightarrow> (bool \<times> cbb_store) option" where
  "write_tree env (Primitive tag data) c = add_element env c tag (\<lambda>d. CBB_add_bytes env d data (of_nat (length data)))"
| "write_tree env (Constructed tag ts) c = add_element env c tag (write_trees env ts)"
| "write_trees env [] c = (\<lambda>st. Some (True, st))"
| "write_trees env (t # ts) c = (\<lambda>st. and_then (write_tree env t c st) (write_trees env ts c))"

fun read_trees :: "nat \<Rightarrow> CBS \<Rightarrow> der_tree list option option" where
  "read_trees 0 cbs = None"
| "read_trees (Suc n) cbs =
     (if CBS_len cbs = 0 then Some (Some [])
      else do {
        (ok, cbs, contents, tag) \<leftarrow> CBS_get_any_asn1 cbs (CBS_init [] 0) 0;
        if \<not> ok then Some None
        else do {
          t \<leftarrow> (if tag AND CBS_ASN1_CONSTRUCTED \<noteq> 0
               then do { kids \<leftarrow> read_trees n contents; Some (map_option (Constructed tag) kids) }
               else Some (Some (Primitive tag (take (unat (CBS_len contents)) (CBS_data contents)))));
          ts \<leftarrow> read_trees n cbs;
          Some (case (t, ts) of (Some t, Some ts) \<Rightarrow> Some (t # ts) | _ \<Rightarrow> None)
        }
      })"

lemma appends_tree:
  "wf_tree t \<Longrightarrow> appends env (write_tree env t c) c b (der_bytes t)"
  "list_all wf_tree ts \<Longrightarrow> appends env (write_trees env ts c) c b (concat (map der_bytes ts))"
proof (induction env t c and env ts c rule: write_tree_write_trees.induct)
  case (1 env tag data c)
  have u: "unat (of_nat (length data) :: u64) = length data" using 1 by (intro unat_of_nat_u64) simp
  have "appends env (CBB_add_bytes env d data (of_nat (length data))) d b data" for d
    using appends_bytes [of "of_nat (length data)" data env d b] u by simp
  then show ?case using 1 by (simp add: appends_element)
next
  case (2 env tag ts c)
  then show ?case by (simp add: appends_element)
next
  case (3 env c)
  then show ?case using appends_nothing [of env c b] by simp
next
  case (4 env t ts c)
  then show ?case using appends_and_then by simp
qed

lemma der_element_length: "length (der_element tag c) \<ge> length c + 2"
proof -
  have "1 \<le> length (tag_octets tag)" using tag_octets_not_Nil [of tag] by (cases "tag_octets tag") auto
  moreover have "1 \<le> length (length_octets (length c))"
    using length_octets_not_Nil [of "length c"] by (cases "length_octets (length c)") auto
  ultimately show ?thesis by (simp add: der_element_def der_header_def)
qed

lemma CBS_len_0: "wf_cbs cbs \<Longrightarrow> CBS_len cbs = 0 \<longleftrightarrow> cbs_bytes cbs = []"
  using length_cbs_bytes [of cbs] by (auto simp: CBS_len_def word_unat_eq_iff)

lemma cbs_take: "take (unat (CBS_len cbs)) (CBS_data cbs) = cbs_bytes cbs"
  by (simp add: CBS_len_def CBS_data_def cbs_bytes_def)

lemma read_trees_der:
  "wf_cbs cbs \<Longrightarrow> list_all wf_tree ts \<Longrightarrow> cbs_bytes cbs = concat (map der_bytes ts) \<Longrightarrow> length (cbs_bytes cbs) < n \<Longrightarrow>
     read_trees n cbs = Some (Some ts)"
proof (induction n arbitrary: cbs ts)
  case (Suc n)
  show ?case
  proof (cases ts)
    case Nil
    then show ?thesis using Suc.prems by (simp add: CBS_len_0)
  next
    case (Cons t us)
    obtain tag c where t: "der_bytes t = der_element tag c" "length c < 2 ^ 32"
      using Suc.prems(2) Cons by (cases t) auto
    have bytes: "cbs_bytes cbs = der_element tag c @ concat (map der_bytes us)" using Suc.prems(3) Cons t by simp
    obtain view where v: "CBS_get_any_asn1 cbs (CBS_init [] 0) 0 = Some (True, cbs_drop (length (der_element tag c)) cbs, view, tag)"
      "wf_cbs view" "cbs_bytes view = c"
      using CBS_get_any_asn1_der [OF Suc.prems(1) t(2) bytes] by metis
    let ?rest = "cbs_drop (length (der_element tag c)) cbs"
    have shorter: "length c < n" "length (concat (map der_bytes us)) < n"
      using Suc.prems(4) der_element_length [of c tag] unfolding bytes by simp_all
    have rest: "read_trees n ?rest = Some (Some us)"
      using Suc.IH [of ?rest us] Suc.prems(1,2) Cons bytes shorter by simp
    have "CBS_len cbs \<noteq> 0" using Suc.prems(1) bytes der_element_length [of c tag] by (auto simp: CBS_len_0)
    have small: "length (der_element tag c) < 2 ^ 64"
      using length_cbs_bytes [OF Suc.prems(1)] unat_u64_less [of "cbs_len cbs"] bytes by simp
    from \<open>CBS_len cbs \<noteq> 0\<close> have prim: "tag AND CBS_ASN1_CONSTRUCTED = 0 \<Longrightarrow> read_trees (Suc n) cbs = Some (Some (Primitive tag c # us))"
      and cons: "\<And>ks. tag AND CBS_ASN1_CONSTRUCTED \<noteq> 0 \<Longrightarrow> read_trees n view = Some (Some ks) \<Longrightarrow>
        read_trees (Suc n) cbs = Some (Some (Constructed tag ks # us))"
      using v rest cbs_take [of view] by simp_all
    show ?thesis
    proof (cases t)
      case (Primitive tag' c')
      then have "tag' = tag \<and> c' = c"
        using asn1_reader.prefix_free [of "(tag', c')" "(tag, c)" "[]" "[]"] t Suc.prems(2) Cons small by auto
      then show ?thesis using prim Cons Primitive Suc.prems(2) by simp
    next
      case (Constructed tag' ks)
      then have tc: "tag' = tag \<and> concat (map der_bytes ks) = c"
        using asn1_reader.prefix_free [of "(tag', concat (map der_bytes ks))" "(tag, c)" "[]" "[]"] t Suc.prems(2) Cons small by auto
      then have "read_trees n view = Some (Some ks)"
        using Suc.IH [of view ks] v Suc.prems(2) Cons Constructed shorter by simp
      then show ?thesis using cons Cons Constructed Suc.prems(2) tc by simp
    qed
  qed
qed simp

text \<open>A client that creates a builder, writes to it and hands over the bytes, and cleans up on failure.\<close>

definition build :: "cbb_env \<Rightarrow> nat \<Rightarrow> u64 \<Rightarrow> (cbb_store \<Rightarrow> (bool \<times> cbb_store) option) \<Rightarrow> cbb_store \<Rightarrow> (bytes option \<times> cbb_store) option" where
  "build env c cap write st = do {
     (ok, st) \<leftarrow> CBB_init env c cap st;
     (ok, st) \<leftarrow> (if ok then write st else Some (False, st));
     (ok, der, len, st) \<leftarrow> (if ok then CBB_finish c True True env st else Some (False, [], 0, st));
     if ok then Some (Some (take (unat len) der), st)
     else do { st \<leftarrow> CBB_cleanup c st; Some (None, st) }
   }"

lemma CBB_init_spec:
  assumes c: "c < length (st_cbbs st)"
  obtains (failed) "CBB_init env c cap st = Some (False, set_cbb c zero_cbb st)"
      "\<not> ((\<forall>s. env_avail env s) \<and> unat cap < 2 ^ 62)"
  | (made) st' base where "CBB_init env c cap st = Some (True, st')" "idle st' c (length (st_bases st)) base"
      "get_cbb st' c = Some (zero_cbb\<lparr>cbb_base := Some (length (st_bases st))\<rparr>)"
      "length (st_cbbs st') = length (st_cbbs st)" "take (length (st_bases st)) (st_bases st') = st_bases st"
      "bb_cap base = cap" "content base = []" "bb_can_resize base"
proof (cases "(cap > 0 \<and> new_block env cap = None) \<or> \<not> OPENSSL_malloc (env_avail env) 32")
  case True
  have "CBB_init env c cap st = Some (False, set_cbb c zero_cbb st)"
    using True c by (auto simp: CBB_init_def CBB_zero_def cbb_init_def get_cbb_def set_cbb_def Let_def)
  moreover have "\<not> ((\<forall>s. env_avail env s) \<and> unat cap < 2 ^ 62)"
    using True new_block_avail [of env cap] by (auto simp: OPENSSL_malloc_def OPENSSL_MALLOC_PREFIX_def)
  ultimately show ?thesis by (rule failed)
next
  case False
  define blk where "blk = (case new_block env cap of None \<Rightarrow> [] | Some buf \<Rightarrow> buf)"
  have blk: "length blk = unat cap"
    using False by (cases "new_block env cap") (auto simp: blk_def new_block_length word_less_nat_alt)
  let ?base = "\<lparr>bb_buf = blk, bb_len = 0, bb_cap = cap, bb_can_resize = True, bb_error = False\<rparr>"
  let ?b = "length (st_bases st)"
  let ?cbb = "zero_cbb\<lparr>cbb_base := Some ?b\<rparr>"
  let ?st = "set_cbb c ?cbb (st\<lparr>st_bases := st_bases st @ [Some ?base]\<rparr>)"
  have "CBB_init env c cap st = Some (True, ?st)"
    using False c by (auto simp: CBB_init_def CBB_zero_def cbb_init_def get_cbb_def set_cbb_def Let_def blk_def zero_cbb_def)
  moreover have "get_cbb ?st c = Some ?cbb" "get_base ?st ?b = Some ?base"
    using c by (simp_all add: get_cbb_def set_cbb_def get_base_def)
  moreover have "idle ?st c ?b ?base" using calculation(2,3) blk by (simp add: idle_def base_ok_def zero_cbb_def)
  ultimately show ?thesis by (intro made [of ?st ?base]) (simp_all add: set_cbb_def content_def)
qed

lemma CBB_finish_idle:
  assumes i: "idle st c b base" and k: "get_cbb st c = Some cbb" "\<not> cbb_is_child cbb"
  shows "\<exists>der st'. CBB_finish c True True env st = Some (True, der, bb_len base, st') \<and> take (unat (bb_len base)) der = content base"
proof -
  have g: "get_base st b = Some base" "cbb_base cbb = Some b" using i k by (auto simp: idle_def)
  have "b < length (st_bases st)" using g by (auto simp: get_base_def split: if_splits)
  then show ?thesis using i k g
    by (simp add: CBB_finish_def flush_idle idle_base_of CBB_cleanup_def content_def)
qed

lemma CBB_cleanup_returns:
  assumes "get_cbb st c = Some cbb" "\<And>b. cbb_base cbb = Some b \<Longrightarrow> get_base st b \<noteq> None"
  shows "\<exists>st'. CBB_cleanup c st = Some st'"
  using assms by (cases "cbb_base cbb") (auto simp: CBB_cleanup_def)

lemma broken_cleanup:
  assumes i: "idle st c b base" and br: "broken b st st'"
  shows "\<exists>st''. CBB_cleanup c st' = Some st''"
proof -
  obtain cbb where k: "get_cbb st c = Some cbb" "cbb_base cbb = Some b" using i by (auto simp: idle_def)
  obtain base' cs where st': "st' = (set_base b base' st)\<lparr>st_cbbs := cs\<rparr>" "map cbb_key cs = map cbb_key (st_cbbs st)"
    using br unfolding broken_def by blast
  have c: "c < length (st_cbbs st)" "st_cbbs st ! c = cbb" using k by (auto simp: get_cbb_def split: if_splits)
  have l: "length cs = length (st_cbbs st)" using st'(2) by (metis length_map)
  then have "cbb_key (cs ! c) = cbb_key cbb" using st'(2) c by (metis nth_map)
  then have "cbb_base (cs ! c) = Some b" using k by (simp add: cbb_key_def)
  moreover have "get_base st' b = Some base'" using i st'(1) by (auto simp: idle_def get_base_def set_base_def split: if_splits)
  moreover have "get_cbb st' c = Some (cs ! c)" using st'(1) c l by (simp add: get_cbb_def)
  ultimately show ?thesis by (intro CBB_cleanup_returns) auto
qed

lemma build_spec:
  assumes w: "\<And>b. appends env write c b bs" and c: "c < length (st_cbbs st)"
  obtains (failed) st' where "build env c cap write st = Some (None, st')"
      "\<not> ((\<forall>s. env_avail env s) \<and> unat cap < 2 ^ 62 \<and> length bs < 2 ^ 61)"
  | (built) st' where "build env c cap write st = Some (Some bs, st')"
      "length bs < 2 ^ 64"
proof (cases rule: CBB_init_spec [OF c, of env cap])
  case 1
  have "\<exists>st'. CBB_cleanup c (set_cbb c zero_cbb st) = Some st'"
    using c by (intro CBB_cleanup_returns [of _ _ zero_cbb]) (simp_all add: zero_cbb_def)
  then obtain st' where "build env c cap write st = Some (None, st')" using 1(1) by (auto simp: build_def)
  then show ?thesis using 1(2) by (intro failed) auto
next
  case (2 st' base)
  let ?b = "length (st_bases st)"
  have "appended env ?b bs st' base (write st')"
    using w [of ?b] 2(2) unfolding appends_def by blast
  then show ?thesis
  proof (cases rule: appended_cases)
    case (ok base')
    have i: "idle (set_base ?b base' st') c ?b base'" using 2(2) ok(2) by (intro idle_set_base) (simp_all add: grown_def)
    have k: "get_cbb (set_base ?b base' st') c = Some (zero_cbb\<lparr>cbb_base := Some ?b\<rparr>)" using 2(3) by simp
    have cont: "content base' = bs" using ok(2) 2 by (simp add: grown_def)
    moreover have "length bs < 2 ^ 64" using content_short [of base'] ok(2) cont by (simp add: grown_def)
    moreover obtain der st2 where "CBB_finish c True True env (set_base ?b base' st') = Some (True, der, bb_len base', st2)"
      "take (unat (bb_len base')) der = content base'"
      using CBB_finish_idle [OF i k, of env] by (auto simp: zero_cbb_def)
    ultimately show ?thesis using 2(1) ok(1) by (intro built [of st2]) (simp_all add: build_def)
  next
    case (failed st2)
    obtain st3 where "CBB_cleanup c st2 = Some st3" using broken_cleanup [OF 2(2) failed(2)] by blast
    then have "build env c cap write st = Some (None, st3)" using 2(1) failed(1) by (simp add: build_def)
    moreover have "\<not> ((\<forall>s. env_avail env s) \<and> unat cap < 2 ^ 62 \<and> length bs < 2 ^ 61)"
      using failed(3) 2(6-8) by (simp add: ample_def)
    ultimately show ?thesis by (rule that(1))
  qed
qed

text \<open>C6: building the distinguished encoding of any forest of ASN.1 elements, one child builder for each element, never
  runs into undefined behaviour, and fails only when memory runs out (or sizes come near the end of the address space);
  otherwise \<open>CBB_finish\<close> hands over exactly the encoding, tags and lengths in their shortest form however long the
  contents turn out to be, and reading elements with \<open>CBS_get_any_asn1\<close> until the end gives back the forest.\<close>

theorem der_tree_roundtrip:
  assumes "list_all wf_tree ts" "c < length (st_cbbs st)"
  shows "\<exists>out st'. build env c cap (write_trees env ts c) st = Some (out, st') \<and>
    (case out of
       None \<Rightarrow> \<not> ((\<forall>s. env_avail env s) \<and> unat cap < 2 ^ 62 \<and> length (concat (map der_bytes ts)) < 2 ^ 61)
     | Some der \<Rightarrow> der = concat (map der_bytes ts) \<and>
         read_trees (Suc (length der)) (CBS_init der (of_nat (length der))) = Some (Some ts))"
proof (cases rule: build_spec [OF appends_tree(2) [OF assms(1)] assms(2), of env cap])
  case (2 st')
  let ?der = "concat (map der_bytes ts)"
  have u: "unat (of_nat (length ?der) :: u64) = length ?der" using 2(2) by (intro unat_of_nat_u64) simp
  let ?cbs = "CBS_init ?der (of_nat (length ?der))"
  have "wf_cbs ?cbs" "cbs_bytes ?cbs = ?der" using u by (simp_all add: wf_cbs_def cbs_bytes_def CBS_init_def)
  then have "read_trees (Suc (length ?der)) ?cbs = Some (Some ts)" by (intro read_trees_der assms(1)) simp_all
  then show ?thesis using 2(1) by simp
qed simp

theorem der_tree_roundtrip_witness:
  "let env = \<lparr>env_avail = \<lambda>s. True, env_junk = \<lambda>i. 7\<rparr> in
    \<exists>st'. build env 0 1 (write_trees env [Constructed 0x20000010 [Primitive 2 [5]]] 0)
      \<lparr>st_cbbs = [zero_cbb], st_bases = []\<rparr> = Some (Some [0x30, 3, 2, 1, 5], st')"
proof -
  have w: "list_all wf_tree [Constructed 0x20000010 [Primitive 2 [5]]]"
    and e: "concat (map der_bytes [Constructed 0x20000010 [Primitive 2 [5]]]) = [0x30, 3, 2, 1, 5]"
    by (simp_all add: der_element_def tag_octets_def length_octets_def der_header_def CBS_ASN1_CONSTRUCTED_def CBS_ASN1_TAG_SHIFT_def)
  show ?thesis
    using der_tree_roundtrip [OF w, of 0 "\<lparr>st_cbbs = [zero_cbb], st_bases = []\<rparr>" "\<lparr>env_avail = \<lambda>s. True, env_junk = \<lambda>i. 7\<rparr>" 1]
    unfolding e Let_def by (auto split: option.splits)
qed

end
