(* ===== verification/CbbValues.thy ===== *)
theory CbbValues
  imports CbbProofs
begin

text \<open>
  The ASN.1 values \<^verbatim>\<open>cbb.c\<close> writes: integers of either sign in the shortest two's complement octets, booleans and
  octet strings, each by the contract \<open>appends\<close> of CbbProofs, and what the strict readers of \<^verbatim>\<open>cbs.c\<close> make of them.
\<close>

section \<open>ASN.1 values\<close>

lemma be_nat_le_bytes: "n \<le> 8 \<Longrightarrow> unat v < 2 ^ (8 * n) \<Longrightarrow> be_nat (rev (word_le_bytes n (v :: u64))) = unat v"
proof (induction n arbitrary: v)
  case (Suc n)
  have d: "unat (drop_bit 8 v) = unat v div 256" by (simp add: unat_drop_bit)
  have "unat (drop_bit 8 v) < 2 ^ (8 * n)" using Suc.prems(2) unfolding d by (simp add: div_less_iff_less_mult mult.commute power_add)
  then have "be_nat (rev (word_le_bytes n (drop_bit 8 v))) = unat v div 256" using Suc d by simp
  moreover have "unat (ucast v :: byte) = unat v mod 256" by (simp add: unat_ucast)
  ultimately show ?case by (simp add: rev_word_le_bytes_Suc)
qed (simp add: word_le_bytes_def)

lemma rev_word_le_bytes_hd: "rev (word_le_bytes (Suc n) v) = ucast (drop_bit (8 * n) v) # rev (word_le_bytes n v)"
  by (simp add: word_le_bytes_def)

lemma byte_mask: "ucast v AND 0xff = (ucast v :: byte)"
proof -
  have "(0xff :: byte) = - 1" by simp
  then show ?thesis by (simp only: and.right_neutral)
qed

lemma appends_step: "appends env f c b xs \<Longrightarrow> appends env g c b ys \<Longrightarrow> zs = xs @ ys \<Longrightarrow> appends env (\<lambda>st. and_then (f st) g) c b zs"
  by (simp add: appends_and_then)

lemma appends_if: "appends env (\<lambda>st. if x then f st else Some (True, st)) c b (if x then bs else [])"
  if "appends env f c b bs"
  using that appends_nothing by simp

lemma uint64_started:
  "n \<le> 8 \<Longrightarrow> \<exists>f. (\<forall>st. add_uint64_loop env child v n True st = map_option (\<lambda>(ok, st). ((ok, True), st)) (f st)) \<and>
     appends env f child b (rev (word_le_bytes n v))"
proof (induction n)
  case 0
  then show ?case using appends_nothing [of env child b] by (intro exI [of _ "\<lambda>st. Some (True, st)"]) (simp add: word_le_bytes_def)
next
  case (Suc n)
  then obtain f where f: "\<And>st. add_uint64_loop env child v n True st = map_option (\<lambda>(ok, st). ((ok, True), st)) (f st)"
    "appends env f child b (rev (word_le_bytes n v))" by auto
  let ?g = "\<lambda>st. and_then (CBB_add_u8 env child (ucast (drop_bit (8 * n) v)) st) f"
  have "add_uint64_loop env child v (Suc n) True st = map_option (\<lambda>(ok, st). ((ok, True), st)) (?g st)" for st
    by (cases "CBB_add_u8 env child (ucast (drop_bit (8 * n) v)) st") (auto simp: f(1) byte_mask Let_def)
  moreover have "appends env ?g child b (rev (word_le_bytes (Suc n) v))"
    by (rule appends_step [OF appends_u8 f(2)]) (simp add: rev_word_le_bytes_hd)
  ultimately show ?case by (intro exI [of _ ?g]) blast
qed

definition uint64_contents :: "cbb_env \<Rightarrow> nat \<Rightarrow> u64 \<Rightarrow> nat \<Rightarrow> cbb_store \<Rightarrow> (bool \<times> cbb_store) option" where
  "uint64_contents env child v n st = do {
     ((ok, started), st) \<leftarrow> add_uint64_loop env child v n False st;
     if \<not> ok then Some (False, st) else if \<not> started then CBB_add_u8 env child 0 st else Some (True, st)
   }"

lemma minimal_int_octets_be: "minimal_int bs \<Longrightarrow> be_int bs = i \<Longrightarrow> int_octets i = bs"
  using int_octets_be by blast

lemma be_int_small: "unat x < 128 \<Longrightarrow> be_int (x # bs) = int (be_nat (x # bs))"
  by (simp add: be_int_def)

lemma appends_uint64_contents:
  "n \<le> 8 \<Longrightarrow> unat v < 2 ^ (8 * n) \<Longrightarrow> appends env (uint64_contents env child v n) child b (int_octets (uint v))"
proof (induction n)
  case 0
  then have "v = 0" by (simp add: word_unat_eq_iff)
  then show ?case using appends_u8 [of env child 0 b] by (simp add: uint64_contents_def int_octets.simps)
next
  case (Suc n)
  let ?x = "ucast (drop_bit (8 * n) v) :: byte"
  have d: "unat (drop_bit (8 * n) v) = unat v div 2 ^ (8 * n)" by (simp add: unat_drop_bit)
  have "unat v div 2 ^ (8 * n) < 256" using Suc.prems(2) by (simp add: div_less_iff_less_mult power_add)
  then have x: "unat ?x = unat v div 2 ^ (8 * n)" using d by (simp add: unat_ucast)
  show ?case
  proof (cases "?x = 0")
    case True
    then have "unat v < 2 ^ (8 * n)" using x by (simp add: word_unat_eq_iff div_eq_0_iff)
    moreover have "uint64_contents env child v (Suc n) = uint64_contents env child v n"
      using True by (simp add: uint64_contents_def fun_eq_iff byte_mask Let_def)
    ultimately show ?thesis using Suc by simp
  next
    case False
    obtain f where f: "\<And>st. add_uint64_loop env child v n True st = map_option (\<lambda>(ok, st). ((ok, True), st)) (f st)"
      "appends env f child b (rev (word_le_bytes n v))" using uint64_started [of n env child v b] Suc.prems by auto
    let ?bs = "rev (word_le_bytes (Suc n) v)" and ?s = "?x AND 0x80 \<noteq> 0"
    let ?g = "\<lambda>st. and_then ((\<lambda>st. if ?s then CBB_add_u8 env child 0 st else Some (True, st)) st)
      (\<lambda>st. and_then (CBB_add_u8 env child ?x st) f)"
    have "uint64_contents env child v (Suc n) st = ?g st" for st
      using False by (auto simp: uint64_contents_def byte_mask Let_def f(1) and_then_def split: Option.bind_splits)
    moreover have "appends env ?g child b ((if ?s then [0] else []) @ ?bs)"
      by (rule appends_step [OF appends_if [OF appends_u8] appends_step [OF appends_u8 f(2) refl]]) (simp add: rev_word_le_bytes_hd)
    moreover have "int_octets (uint v) = (if ?s then [0] else []) @ ?bs"
    proof (rule minimal_int_octets_be)
      have n: "be_nat ?bs = unat v" using Suc.prems by (intro be_nat_le_bytes) simp_all
      have hd: "?bs = ?x # rev (word_le_bytes n v)" by (rule rev_word_le_bytes_hd)
      have s: "?s \<longleftrightarrow> 128 \<le> unat ?x" using and_80 [of ?x] by (simp add: not_less [symmetric])
      show "minimal_int ((if ?s then [0] else []) @ ?bs)"
        using False unfolding s hd by (auto simp: minimal_int_def not_le word_unat_eq_iff)
      show "be_int ((if ?s then [0] else []) @ ?bs) = uint v"
        using n unfolding s hd by (auto simp: be_int_small be_nat_Cons not_le)
    qed
    ultimately show ?thesis by (simp add: fun_eq_iff)
  qed
qed

lemma and_then_assoc: "and_then (and_then x f) g = and_then x (\<lambda>st. and_then (f st) g)"
  by (cases x) (auto simp: and_then_def)

lemma int_octets_u64: "length (int_octets (uint (v :: u64))) \<le> 9" "length (int_octets (sint v)) \<le> 9"
  using u64_octets(4) [of v] i64_octets [of v] by simp_all

lemma appends_asn1_uint64: "appends env (CBB_add_asn1_uint64 env c v) c b (integer_element (uint v))"
proof -
  have "CBB_add_asn1_uint64 env c v = add_element env c CBS_ASN1_INTEGER (\<lambda>d. uint64_contents env d v 8)"
    unfolding CBB_add_asn1_uint64_def add_element_def uint64_contents_def
    by (intro ext arg_cong2 [where f = with_cbb] refl ext arg_cong2 [where f = and_then]) 
      (auto simp: and_then_def split: Option.bind_splits)
  moreover have "unat v < 2 ^ (8 * 8)" using unat_u64_less [of v] by simp
  ultimately show ?thesis unfolding integer_element_def using int_octets_u64(1) [of v]
    by (simp, intro appends_element appends_uint64_contents) simp_all
qed

lemma appends_rev_bytes: "appends env (add_rev_bytes env child u n) child b (rev (take n u))" if "n \<le> length u"
  using that
proof (induction n)
  case 0
  then show ?case using appends_nothing [of env child b] by simp
next
  case (Suc n)
  then have "rev (take (Suc n) u) = u ! n # rev (take n u)" by (simp add: take_Suc_conv_app_nth)
  then show ?case using appends_and_then [OF appends_u8 Suc.IH, of "u ! n"] Suc.prems by simp
qed

lemma be_int_drop_FF: "128 \<le> unat x \<Longrightarrow> be_int (0xFF # x # bs) = be_int (x # bs)"
proof -
  have "unat (0xFF :: byte) = 255" by simp
  then show "128 \<le> unat x \<Longrightarrow> ?thesis" by (simp only: be_int_def be_nat_Cons list.sel) (simp add: algebra_simps)
qed

lemma rev_take_Suc: "n < length u \<Longrightarrow> rev (take (Suc n) u) = u ! n # rev (take n u)"
  by (simp add: take_Suc_conv_app_nth)

lemma sign_start_spec:
  "s < length u \<Longrightarrow> 128 \<le> unat (u ! s) \<Longrightarrow> sign_start u s \<le> s \<and> minimal_int (rev (take (Suc (sign_start u s)) u)) \<and>
     be_int (rev (take (Suc (sign_start u s)) u)) = be_int (rev (take (Suc s) u))"
proof (induction s)
  case 0
  then show ?case by (simp add: rev_take_Suc minimal_int_def)
next
  case (Suc s)
  then have l: "s < length u" by simp
  have r: "rev (take (Suc (Suc s)) u) = u ! Suc s # u ! s # rev (take s u)" using Suc.prems l by (simp add: rev_take_Suc del: take_Suc)
  show ?case
  proof (cases "u ! Suc s = 0xFF \<and> 128 \<le> unat (u ! s)")
    case True
    then have "be_int (rev (take (Suc (Suc s)) u)) = be_int (rev (take (Suc s) u))"
      unfolding r using l by (simp add: rev_take_Suc be_int_drop_FF)
    then show ?thesis using Suc.IH [OF l] True by (simp add: and_80 le_SucI)
  next
    case False
    then have "sign_start u (Suc s) = Suc s" by (auto simp: and_80)
    moreover have "minimal_int (rev (take (Suc (Suc s)) u))"
      unfolding r using Suc.prems(2) False by (auto simp: minimal_int_def word_unat_eq_iff)
    ultimately show ?thesis by simp
  qed
qed

lemma word_le_bytes_Nil: "word_le_bytes n v = [] \<longleftrightarrow> n = 0"
  by (simp add: word_le_bytes_def)

lemma be_int_range: "length bs = 8 \<Longrightarrow> - (2 ^ 63) \<le> be_int bs \<and> be_int bs < 2 ^ 63"
proof -
  assume l: "length bs = 8"
  obtain x xs where bs: "bs = x # xs" using l by (cases bs) auto
  obtain h t where ht: "unat x = h" "be_nat xs = t" by blast
  have "length xs = 7" using l bs by simp
  then have "be_nat bs = h * 256 ^ 7 + t" by (simp add: bs be_nat_Cons ht)
  moreover have "t < 256 ^ 7" using be_nat_less [of xs] \<open>length xs = 7\<close> ht by simp
  moreover have "h < 256" using unat_byte_less [of x] ht by simp
  ultimately show ?thesis using l bs by (simp add: be_int_def ht)
qed

lemma be_int_bytes: "be_int (rev (word_le_bytes 8 v)) = sint (v :: u64)"
proof -
  let ?bs = "rev (word_le_bytes 8 v)"
  have l: "length ?bs = Suc 7" by simp
  have n: "be_nat ?bs = unat v" using unat_u64_less [of v] by (intro be_nat_le_bytes) simp_all
  have v: "of_int (be_int ?bs) = v" using le_word_sign_extended [of ?bs] by (simp add: le_word_le_bytes word_le_bytes_Nil)
  have "- (2 ^ 63) \<le> be_int ?bs \<and> be_int ?bs < 2 ^ 63" by (rule be_int_range) simp
  then have "sint (of_int (be_int ?bs) :: u64) = be_int ?bs" by (simp add: signed_of_int signed_take_bit_int_eq_self)
  then show ?thesis by (simp only: v)
qed

lemma appends_asn1_int64: "appends env (CBB_add_asn1_int64 env c v) c b (integer_element (sint v))"
proof (cases "0 \<le> sint v")
  case True
  have "word_le_bytes 8 v \<noteq> []" by (simp add: word_le_bytes_Nil)
  moreover have "be_nat (rev (word_le_bytes 8 v)) = unat v" using unat_u64_less [of v] by (intro be_nat_le_bytes) simp_all
  ultimately have "sint v = uint v" using be_int_nonneg [of "rev (word_le_bytes 8 v)"] True by (simp add: be_int_bytes)
  then show ?thesis using True appends_asn1_uint64 [of env c v b] by (simp add: CBB_add_asn1_int64_def)
next
  case False
  let ?u = "word_le_bytes 8 v"
  let ?s = "sign_start ?u 7"
  have "hd (rev ?u) = ?u ! 7" by (simp add: hd_rev last_conv_nth word_le_bytes_Nil)
  then have "128 \<le> unat (?u ! 7)" using False be_int_bytes [of v] be_int_neg [of "rev ?u"] by (simp add: word_le_bytes_Nil)
  then have s: "?s \<le> 7" "minimal_int (rev (take (Suc ?s) ?u))" "be_int (rev (take (Suc ?s) ?u)) = sint v"
    using sign_start_spec [of 7 ?u] be_int_bytes [of v] by simp_all
  have "CBB_add_asn1_int64 env c v = add_element env c CBS_ASN1_INTEGER (\<lambda>d. add_rev_bytes env d ?u (Suc ?s))"
    using False by (simp add: CBB_add_asn1_int64_def add_element_def fun_eq_iff Let_def)
  then show ?thesis unfolding integer_element_def minimal_int_octets_be [OF s(2,3)]
    using s(1) by (simp only:, intro appends_element appends_rev_bytes) simp_all
qed

lemma appends_asn1_octet_string:
  assumes "unat len \<le> length data" "unat len \<le> 0xfffffffe"
  shows "appends env (CBB_add_asn1_octet_string env c data len) c b (der_element CBS_ASN1_OCTETSTRING (take (unat len) data))"
proof -
  have "CBB_add_asn1_octet_string env c data len = add_element env c CBS_ASN1_OCTETSTRING (\<lambda>d. CBB_add_bytes env d data len)"
    by (simp add: CBB_add_asn1_octet_string_def add_element_def fun_eq_iff)
  then show ?thesis using assms by (simp only:, intro appends_element appends_bytes) simp_all
qed

lemma appends_asn1_bool: "appends env (CBB_add_asn1_bool env c v) c b (der_element CBS_ASN1_BOOLEAN (bool_octets v))"
proof -
  have "CBB_add_asn1_bool env c v = add_element env c CBS_ASN1_BOOLEAN (\<lambda>d. CBB_add_u8 env d (if v then 0xff else 0))"
    by (simp add: CBB_add_asn1_bool_def add_element_def fun_eq_iff)
  moreover have "bool_octets v = [if v then 0xff else 0]" by (simp add: bool_octets_def)
  ultimately show ?thesis by (simp only:, intro appends_element appends_u8) simp_all
qed

text \<open>A writer and a reader of one value of each kind.\<close>

definition write_values :: "cbb_env \<Rightarrow> nat \<Rightarrow> u64 \<Rightarrow> u64 \<Rightarrow> bool \<Rightarrow> bytes \<Rightarrow> cbb_store \<Rightarrow> (bool \<times> cbb_store) option" where
  "write_values env c i u x data st =
     and_then (CBB_add_asn1_int64 env c i st) (\<lambda>st. and_then (CBB_add_asn1_uint64 env c u st) (\<lambda>st.
       and_then (CBB_add_asn1_bool env c x st) (CBB_add_asn1_octet_string env c data (of_nat (length data)))))"

definition read_values :: "CBS \<Rightarrow> (u64 \<times> u64 \<times> bool \<times> bytes) option option" where
  "read_values cbs = do {
     (ok, cbs, i) \<leftarrow> CBS_get_asn1_int64 cbs 0;
     if \<not> ok then Some None else do {
     (ok, cbs, u) \<leftarrow> CBS_get_asn1_uint64 cbs 0;
     if \<not> ok then Some None else do {
     (ok, cbs, x) \<leftarrow> CBS_get_asn1_bool cbs False;
     if \<not> ok then Some None else do {
     (ok, cbs, data) \<leftarrow> CBS_get_asn1 cbs (CBS_init [] 0) CBS_ASN1_OCTETSTRING;
     Some (if ok \<and> CBS_len cbs = 0 then Some (i, u, x, take (unat (CBS_len data)) (CBS_data data)) else None)
     }}}}"

definition value_bytes :: "u64 \<Rightarrow> u64 \<Rightarrow> bool \<Rightarrow> bytes \<Rightarrow> bytes" where
  "value_bytes i u x data = integer_element (sint i) @ integer_element (uint u) @
     der_element CBS_ASN1_BOOLEAN (bool_octets x) @ der_element CBS_ASN1_OCTETSTRING data"

lemma appends_values:
  assumes "length data \<le> 0xfffffffe"
  shows "appends env (write_values env c i u x data) c b (value_bytes i u x data)"
proof -
  have n: "unat (of_nat (length data) :: u64) = length data" using assms by (intro unat_of_nat_u64) simp
  have "appends env (CBB_add_asn1_octet_string env c data (of_nat (length data))) c b (der_element CBS_ASN1_OCTETSTRING data)"
    using appends_asn1_octet_string [of "of_nat (length data)" data env c b] assms n by simp
  then show ?thesis unfolding value_bytes_def write_values_def [abs_def]
    by (intro appends_and_then appends_asn1_int64 appends_asn1_uint64 appends_asn1_bool)
qed

lemma read_values_bytes:
  assumes wf: "wf_cbs cbs" and bytes: "cbs_bytes cbs = value_bytes i u x data" and l: "length data < 2 ^ 32"
  shows "read_values cbs = Some (Some (i, u, x, data))"
proof -
  let ?e1 = "integer_element (sint i)" and ?e2 = "integer_element (uint u)"
    and ?e3 = "der_element CBS_ASN1_BOOLEAN (bool_octets x)" and ?e4 = "der_element CBS_ASN1_OCTETSTRING data"
  define cbs1 where "cbs1 = cbs_drop (length ?e1) cbs"
  define cbs2 where "cbs2 = cbs_drop (length ?e2) cbs1"
  define cbs3 where "cbs3 = cbs_drop (length ?e3) cbs2"
  define cbs4 where "cbs4 = cbs_drop (length ?e4) cbs3"
  have b0: "cbs_bytes cbs = ?e1 @ ?e2 @ ?e3 @ ?e4" using bytes by (simp add: value_bytes_def)
  have 1: "wf_cbs cbs1" "cbs_bytes cbs1 = ?e2 @ ?e3 @ ?e4" using wf b0 by (simp_all add: cbs1_def)
  have 2: "wf_cbs cbs2" "cbs_bytes cbs2 = ?e3 @ ?e4" using 1 by (simp_all add: cbs2_def)
  have 3: "wf_cbs cbs3" "cbs_bytes cbs3 = ?e4 @ []" using 2 by (simp_all add: cbs3_def)
  have 4: "wf_cbs cbs4" "cbs_bytes cbs4 = []" using 3 by (simp_all add: cbs4_def)
  have r1: "CBS_get_asn1_int64 cbs 0 = Some (True, cbs1, i)" unfolding cbs1_def by (rule int64_reader.reads [OF wf _ b0]) simp
  have r2: "CBS_get_asn1_uint64 cbs1 0 = Some (True, cbs2, u)" unfolding cbs2_def by (rule uint64_reader.reads [OF 1(1) _ 1(2)]) simp
  have r3: "CBS_get_asn1_bool cbs2 False = Some (True, cbs3, x)" unfolding cbs3_def by (rule bool_reader.reads [OF 2(1) _ 2(2)]) simp
  obtain w where r4: "CBS_get_asn1 cbs3 (CBS_init [] 0) CBS_ASN1_OCTETSTRING = Some (True, cbs4, w)" "cbs_bytes w = data"
    using CBS_get_asn1_der [OF 3(1) l 3(2), of "CBS_init [] 0"] unfolding cbs4_def by metis
  have "CBS_len cbs4 = 0" using 4 by (simp add: CBS_len_0)
  then show ?thesis using r4 cbs_take [of w] by (simp add: read_values_def r1 r2 r3)
qed

lemma der_element_small: "length c < 2 ^ 32 \<Longrightarrow> length (der_element tag c) \<le> length c + 11"
proof -
  assume "length c < 2 ^ 32"
  then have "length c < 256 ^ 4" by simp
  then have "length (nat_be (length c)) \<le> 4" unfolding length_nat_be .
  then show ?thesis using tag_octets_short [of tag] by (simp add: der_element_def der_header_def length_octets_def)
qed

lemma value_bytes_small: "length data \<le> 0xfffffffe \<Longrightarrow> length (value_bytes i u x data) < 2 ^ 61"
proof -
  assume "length data \<le> 0xfffffffe"
  moreover have "length (int_octets (sint i)) \<le> 9" "length (int_octets (uint u)) \<le> 9" "length (bool_octets x) = 1"
    by (simp_all only: int_octets_u64) (simp add: bool_octets_def)
  ultimately show ?thesis
    using der_element_small [of "int_octets (sint i)" CBS_ASN1_INTEGER] der_element_small [of "int_octets (uint u)" CBS_ASN1_INTEGER]
      der_element_small [of "bool_octets x" CBS_ASN1_BOOLEAN] der_element_small [of data CBS_ASN1_OCTETSTRING]
    by (simp add: value_bytes_def integer_element_def)
qed

text \<open>C15: an \<open>int64_t\<close>, a \<open>uint64_t\<close>, a \<open>bool\<close> and a string of bytes, written one after the other as ASN.1 values and read
  back with the strict readers, come back unchanged, for every number of the two types: the writers produce the shortest
  two's complement octets, which are the only ones the readers take.  Writing never runs into undefined behaviour and fails only
  when memory runs out.\<close>

theorem asn1_values_roundtrip:
  assumes "length data \<le> 0xfffffffe" "c < length (st_cbbs st)"
  shows "\<exists>out st'. build env c cap (write_values env c i u x data) st = Some (out, st') \<and>
    (case out of
       None \<Rightarrow> \<not> ((\<forall>s. env_avail env s) \<and> unat cap < 2 ^ 62)
     | Some der \<Rightarrow> read_values (CBS_init der (of_nat (length der))) = Some (Some (i, u, x, data)))"
proof (cases rule: build_spec [OF appends_values [OF assms(1)] assms(2), of env cap i u x])
  case (1 st')
  have "length (value_bytes i u x data) < 2 ^ 61" by (rule value_bytes_small [OF assms(1)])
  then show ?thesis using 1 by auto
next
  case (2 st')
  let ?der = "value_bytes i u x data"
  have u: "unat (of_nat (length ?der) :: u64) = length ?der" using 2(2) by (intro unat_of_nat_u64) simp
  let ?cbs = "CBS_init ?der (of_nat (length ?der))"
  have "wf_cbs ?cbs" "cbs_bytes ?cbs = ?der" using u by (simp_all add: wf_cbs_def cbs_bytes_def CBS_init_def)
  then have "read_values ?cbs = Some (Some (i, u, x, data))" using assms(1) by (intro read_values_bytes) simp_all
  then show ?thesis using 2(1) by simp
qed

theorem asn1_values_roundtrip_witness:
  "let env = \<lparr>env_avail = \<lambda>s. True, env_junk = \<lambda>i. 7\<rparr> in
    \<exists>der st'. build env 0 0 (write_values env 0 (- 129) (2 ^ 63) True [1, 2]) \<lparr>st_cbbs = [zero_cbb], st_bases = []\<rparr> = Some (Some der, st') \<and>
      read_values (CBS_init der (of_nat (length der))) = Some (Some (- 129, 2 ^ 63, True, [1, 2]))"
  using asn1_values_roundtrip [of "[1, 2]" 0 "\<lparr>st_cbbs = [zero_cbb], st_bases = []\<rparr>" "\<lparr>env_avail = \<lambda>s. True, env_junk = \<lambda>i. 7\<rparr>" 0 "- 129" "2 ^ 63" True]
  unfolding Let_def by (auto split: option.splits)

end
