(* ===== verification/BerProofs.thy ===== *)
theory BerProofs
  imports Ber CbbValues
begin

text \<open>
  The basic encoding of \<^verbatim>\<open>ber.c\<close>: what the parser makes of headers that are not distinguished, trees of elements with lengths of
  any form and strings in fragments, the conversion of such trees to the distinguished encoding, and the search that
  decides whether a conversion is needed.
\<close>

section \<open>The basic encoding\<close>

text \<open>The octets of a length: its short form, or \<open>k\<close> octets with leading zeros as need be.\<close>

definition length_form :: "nat \<Rightarrow> nat \<Rightarrow> bytes" where
  "length_form k n = (if k = 0 then [of_nat n] else of_nat (128 + k) # rev (word_le_bytes k (of_nat n :: u64)))"

definition length_ok :: "nat \<Rightarrow> nat \<Rightarrow> bool" where
  "length_ok k n \<longleftrightarrow> (if k = 0 then n < 128 else k \<le> 4 \<and> n < 256 ^ k)"

lemma length_ok_32: "length_ok k n \<Longrightarrow> n < 2 ^ 32"
proof -
  assume a: "length_ok k n"
  then have k: "k \<le> 4" by (simp add: length_ok_def split: if_splits)
  have "n < 256 ^ k \<or> n < 128" using a by (auto simp: length_ok_def split: if_splits)
  moreover have "(256::nat) ^ k \<le> 256 ^ 4" using k by (intro power_increasing) simp_all
  ultimately show ?thesis by auto
qed

lemma length_length_form: "length_ok k n \<Longrightarrow> length (length_form k n) = Suc k"
  by (simp add: length_form_def)

text \<open>The element an element parser found: its tag, its header and its extent in the input.\<close>

definition found :: "CBS \<Rightarrow> u32 \<Rightarrow> nat \<Rightarrow> nat \<Rightarrow> (bool \<times> CBS \<times> element_out) option \<Rightarrow> bool" where
  "found cbs tag hl n r \<longleftrightarrow> (\<exists>eo. r = Some (True, cbs_drop (hl + n) cbs, eo) \<and> eo_tag eo = tag \<and>
     eo_header_len eo = of_nat hl \<and> eo_out eo = CBS_init (cbs_data cbs) (of_nat (hl + n)))"

lemma found_got: "m = hl + n \<Longrightarrow> m \<le> length (cbs_bytes cbs) \<Longrightarrow> eo_tag eo = tag \<Longrightarrow> found cbs tag hl n (element_got cbs eo hl m)"
  by (simp add: found_def element_got_def)

lemma long_form_True:
  assumes wf: "wf_cbs header" "wf_cbs cbs" and k: "1 \<le> k" "k \<le> 4" and hl: "hl < 2 ^ 48"
    and bytes: "cbs_bytes header = nb @ bs" "length nb = k"
  shows "\<exists>f. long_form_element cbs header eo (of_nat hl) (of_nat k) True =
    element_got cbs (eo\<lparr>eo_ber_found := f\<rparr>) (hl + k) (hl + k + be_nat nb)"
proof -
  have u: "unat (of_nat k :: u64) = k" using k by (intro unat_of_nat_u64) simp
  have cond: "of_nat k \<noteq> (0 :: u64)" "\<not> (4 :: u64) < of_nat k"
    using u k by (simp_all add: word_unat_eq_iff word_less_nat_alt)
  let ?n = "be_nat nb" and ?len = "le_word (rev nb) :: u64"
  have n: "unat ?len = ?n" using k bytes(2) by (intro unat_le_word_rev) simp
  have "?n < 256 ^ k" using be_nat_less [of nb] bytes(2) by simp
  also have "(256::nat) ^ k \<le> 256 ^ 4" using k by (intro power_increasing) simp_all
  finally have n4: "?n < 2 ^ 32" by simp
  have lw: "?len = of_nat ?n" by (simp flip: n)
  have sum: "?len + of_nat hl + of_nat k = of_nat (hl + k + ?n)" "?len + of_nat (hl + k) = of_nat (hl + k + ?n)"
    "(of_nat hl + of_nat k :: u64) = of_nat (hl + k)"
    unfolding lw by simp_all
  have small: "hl + k + ?n < 2 ^ 64" using n4 hl k by simp
  then have wrap: "\<not> (of_nat (hl + k + ?n) :: u64) < ?len"
    unfolding word_less_nat_alt n unat_of_nat_u64 [OF small] by simp
  have g: "cbs_get_u header 0 (of_nat k) = Some (True, cbs_drop k header, ?len)"
    using wf(1) k bytes u by (simp add: cbs_get_u_eq)
  define z where "z \<longleftrightarrow> drop_bit (unat ((of_nat k - 1) * 8 :: u64)) ?len = 0"
  have "\<exists>f. (if z then (if ?len < 128 then eo\<lparr>eo_ber_found := True\<rparr> else eo)\<lparr>eo_ber_found := True\<rparr> else (if ?len < 128 then eo\<lparr>eo_ber_found := True\<rparr> else eo)) = eo\<lparr>eo_ber_found := f\<rparr>"
    by (cases eo) auto
  then obtain f where f: "(if z then (if ?len < 128 then eo\<lparr>eo_ber_found := True\<rparr> else eo)\<lparr>eo_ber_found := True\<rparr> else (if ?len < 128 then eo\<lparr>eo_ber_found := True\<rparr> else eo)) = eo\<lparr>eo_ber_found := f\<rparr>" ..
  have "long_form_element cbs header eo (of_nat hl) (of_nat k) True =
    get_element cbs ((if z then (if ?len < 128 then eo\<lparr>eo_ber_found := True\<rparr> else eo)\<lparr>eo_ber_found := True\<rparr> else (if ?len < 128 then eo\<lparr>eo_ber_found := True\<rparr> else eo))
      \<lparr>eo_header_len := of_nat (hl + k)\<rparr>) (of_nat (hl + k + ?n))"
    using cond wrap unfolding long_form_element_def g z_def
    by (simp only: sum bind.simps Let_def case_prod_conv) (auto simp del: of_nat_add)
  also have "\<dots> = element_got cbs (if z then (if ?len < 128 then eo\<lparr>eo_ber_found := True\<rparr> else eo)\<lparr>eo_ber_found := True\<rparr> else (if ?len < 128 then eo\<lparr>eo_ber_found := True\<rparr> else eo)) (hl + k) (hl + k + ?n)"
    by (rule get_element_eq [OF wf(2) small])
  finally show ?thesis unfolding f by (rule exI)
qed

text \<open>The parser after a tag, when it takes the basic encoding.\<close>

lemma ber_after_tag:
  assumes wf: "wf_cbs cbs" and bytes: "cbs_bytes cbs = tag_octets tag @ b # bs"
  defines "t \<equiv> length (tag_octets tag)"
  shows "t \<le> 6" "wf_cbs (cbs_drop (t + 1) cbs)" "cbs_bytes (cbs_drop (t + 1) cbs) = bs"
    "cbs_get_any_asn1_element cbs eo True =
      (if unat b < 128 then element_got cbs (eo\<lparr>eo_ber_found := False, eo_tag := tag\<rparr>) (t + 1) (t + 1 + unat b)
       else long_form_element cbs (cbs_drop (t + 1) cbs) (eo\<lparr>eo_ber_found := False, eo_tag := tag\<rparr>) (of_nat (t + 1)) (of_nat (unat b - 128)) True)"
proof -
  show t6: "t \<le> 6" unfolding t_def by (rule tag_octets_short)
  let ?h = "cbs_drop (t + 1) cbs"
  have p: "parse_asn1_tag cbs 0 = Some (True, cbs_drop t cbs, tag)"
    unfolding t_def using wf bytes by (intro tag_reader.reads) simp_all
  have tl: "t + 1 \<le> length (cbs_bytes cbs)" using bytes by (simp add: t_def)
  have d: "wf_cbs (cbs_drop t cbs)" "cbs_bytes (cbs_drop t cbs) = b # bs" using wf bytes by (simp_all add: t_def)
  show h: "wf_cbs ?h" "cbs_bytes ?h = bs" using wf bytes tl by (simp_all add: t_def)
  have g: "CBS_get_u8 (cbs_drop t cbs) 0 = Some (True, ?h, b)" using d by (simp add: CBS_get_u8_eq)
  have b7: "(ucast (b AND 0x7F) :: u64) = of_nat (unat b mod 128)"
    by (rule word_unat_eq_iff [THEN iffD2]) (simp add: unat_ucast and_7F unat_take_bit unat_of_nat)
  have bm: "unat b mod 128 = (if unat b < 128 then unat b else unat b - 128)"
    using unat_byte_less [of b] by (simp add: mod_if)
  have step: "cbs_get_any_asn1_element cbs eo True =
    (if unat b < 128 then get_element cbs (eo\<lparr>eo_ber_found := False, eo_tag := tag, eo_header_len := of_nat (t + 1)\<rparr>) (of_nat (t + 1 + unat b))
     else long_form_element cbs ?h (eo\<lparr>eo_ber_found := False, eo_tag := tag\<rparr>) (of_nat (t + 1)) (of_nat (unat b - 128)) True)"
    unfolding cbs_get_any_asn1_element_def p
    by (simp add: g and_80 CBS_len_drop b7 bm Let_def) (simp add: ac_simps)
  have b: "t + 1 + unat b < 2 ^ 64" using unat_byte_less [of b] t6 by simp
  show "cbs_get_any_asn1_element cbs eo True =
      (if unat b < 128 then element_got cbs (eo\<lparr>eo_ber_found := False, eo_tag := tag\<rparr>) (t + 1) (t + 1 + unat b)
       else long_form_element cbs ?h (eo\<lparr>eo_ber_found := False, eo_tag := tag\<rparr>) (of_nat (t + 1)) (of_nat (unat b - 128)) True)"
    unfolding step get_element_eq [OF wf b] ..
qed

lemma ber_definite:
  assumes wf: "wf_cbs cbs" and ok: "length_ok k (length c)"
    and bytes: "cbs_bytes cbs = (tag_octets tag @ length_form k (length c)) @ c @ rest"
  shows "found cbs tag (length (tag_octets tag @ length_form k (length c))) (length c) (cbs_get_any_asn1_element cbs eo True)"
proof -
  let ?t = "length (tag_octets tag)"
  have fits: "?t + Suc k + length c \<le> length (cbs_bytes cbs)" unfolding bytes using length_length_form [OF ok] by simp
  show ?thesis
  proof (cases "k = 0")
    case True
    then have n: "length c < 128" using ok by (simp add: length_ok_def)
    then have "unat (of_nat (length c) :: byte) = length c" by (intro unat_of_nat_byte) simp
    moreover have b: "cbs_bytes cbs = tag_octets tag @ of_nat (length c) # c @ rest" using bytes True by (simp add: length_form_def)
    ultimately show ?thesis using ber_after_tag(4) [OF wf b, of eo] n True fits length_length_form [OF ok]
      by (simp add: found_got)
  next
    case False
    then have k: "1 \<le> k" "k \<le> 4" "length c < 256 ^ k" using ok by (auto simp: length_ok_def)
    let ?nb = "rev (word_le_bytes k (of_nat (length c) :: u64))"
    have c32: "length c < 2 ^ 32" by (rule length_ok_32 [OF ok])
    then have u: "unat (of_nat (length c) :: u64) = length c" by (intro unat_of_nat_u64) simp
    have "length c < 2 ^ (8 * k)" using k(3) by (simp add: power_mult)
    then have n: "be_nat ?nb = length c" using be_nat_le_bytes [of k "of_nat (length c)"] k u by simp
    have b: "cbs_bytes cbs = tag_octets tag @ of_nat (128 + k) # ?nb @ c @ rest" using bytes False by (simp add: length_form_def)
    have "unat (of_nat (128 + k) :: byte) = 128 + k" using k by (intro unat_of_nat_byte) simp
    then have "cbs_get_any_asn1_element cbs eo True =
      long_form_element cbs (cbs_drop (?t + 1) cbs) (eo\<lparr>eo_ber_found := False, eo_tag := tag\<rparr>) (of_nat (?t + 1)) (of_nat k) True"
      using ber_after_tag(4) [OF wf b, of eo] by simp
    moreover have "\<exists>f. long_form_element cbs (cbs_drop (?t + 1) cbs) (eo\<lparr>eo_ber_found := False, eo_tag := tag\<rparr>) (of_nat (?t + 1)) (of_nat k) True =
      element_got cbs ((eo\<lparr>eo_ber_found := False, eo_tag := tag\<rparr>)\<lparr>eo_ber_found := f\<rparr>) (?t + 1 + k) (?t + 1 + k + be_nat ?nb)"
      using ber_after_tag(1-3) [OF wf b] k by (intro long_form_True [OF _ wf]) simp_all
    ultimately show ?thesis using fits length_length_form [OF ok] by (auto simp: n found_got)
  qed
qed

lemma ber_indefinite:
  assumes wf: "wf_cbs cbs" and tag: "tag AND CBS_ASN1_CONSTRUCTED \<noteq> 0" and bytes: "cbs_bytes cbs = tag_octets tag @ 0x80 # rest"
  shows "found cbs tag (Suc (length (tag_octets tag))) 0 (cbs_get_any_asn1_element cbs eo True)"
proof -
  let ?t = "length (tag_octets tag)"
  have "unat (0x80 :: byte) = 128" by simp
  then have "cbs_get_any_asn1_element cbs eo True =
      get_element cbs (eo\<lparr>eo_tag := tag, eo_header_len := of_nat (?t + 1), eo_ber_found := True\<rparr>) (of_nat (?t + 1 + 0))"
    using ber_after_tag(4) [OF wf bytes, of eo] tag by (simp add: long_form_element_def)
  also have "eo\<lparr>eo_tag := tag, eo_header_len := of_nat (?t + 1), eo_ber_found := True\<rparr> =
      (eo\<lparr>eo_tag := tag, eo_ber_found := True\<rparr>)\<lparr>eo_header_len := of_nat (?t + 1)\<rparr>" by simp
  also have "get_element cbs \<dots> (of_nat (?t + 1 + 0)) = element_got cbs (eo\<lparr>eo_tag := tag, eo_ber_found := True\<rparr>) (?t + 1) (?t + 1 + 0)"
    using tag_octets_short [of tag] by (intro get_element_eq [OF wf]) simp
  finally show ?thesis using bytes by (simp add: found_got)
qed

section \<open>Rounds of the conversion\<close>

text \<open>Whether a loop succeeds, whether a round goes on, and where either leaves the input.\<close>

definition ok_of :: "((bool \<times> CBS) \<times> cbb_store) option \<Rightarrow> (bool \<times> cbb_store) option" where
  "ok_of r = map_option (\<lambda>((ok, _), st). (ok, st)) r"

definition going :: "((bool option \<times> CBS) \<times> cbb_store) option \<Rightarrow> (bool \<times> cbb_store) option" where
  "going r = map_option (\<lambda>((ok, _), st). (ok = None, st)) r"

definition ends_at :: "(cbb_store \<Rightarrow> ((bool \<times> CBS) \<times> cbb_store) option) \<Rightarrow> CBS \<Rightarrow> bool" where
  "ends_at f cbs \<longleftrightarrow> (\<forall>st x st'. f st = Some ((True, x), st') \<longrightarrow> x = cbs)"

definition goes_to :: "(cbb_store \<Rightarrow> ((bool option \<times> CBS) \<times> cbb_store) option) \<Rightarrow> CBS \<Rightarrow> bool" where
  "goes_to f cbs \<longleftrightarrow> (\<forall>st r x st'. f st = Some ((r, x), st') \<longrightarrow> r = None \<and> x = cbs \<or> r = Some False)"

lemma going_with_cbb: "going (with_cbb f st) = with_cbb (\<lambda>c st. going (f c st)) st"
  by (cases "f (length (st_cbbs st)) (st\<lparr>st_cbbs := st_cbbs st @ [zero_cbb]\<rparr>)") (auto simp: with_cbb_def going_def)

lemma goes_to_with_cbb: "(\<And>c. goes_to (f c) cbs) \<Longrightarrow> goes_to (with_cbb f) cbs"
  unfolding goes_to_def with_cbb_def
proof (intro allI impI)
  fix st r x st'
  assume f: "\<And>c. \<forall>st r x st'. f c st = Some ((r, x), st') \<longrightarrow> r = None \<and> x = cbs \<or> r = Some False"
    and "do { (r, st') \<leftarrow> f (length (st_cbbs st)) (st\<lparr>st_cbbs := st_cbbs st @ [zero_cbb]\<rparr>);
        Some (r, st'\<lparr>st_cbbs := take (length (st_cbbs st)) (st_cbbs st')\<rparr>) } = Some ((r, x), st')"
  then obtain st1 where "f (length (st_cbbs st)) (st\<lparr>st_cbbs := st_cbbs st @ [zero_cbb]\<rparr>) = Some ((r, x), st1)"
    by (auto split: Option.bind_splits)
  then show "r = None \<and> x = cbs \<or> r = Some False" using f by blast
qed

text \<open>A local builder that is not used changes nothing.\<close>

lemma appends_scratch:
  assumes f: "appends env f c b bs"
  shows "appends env (with_cbb (\<lambda>_. f)) c b bs"
  unfolding appends_def
proof (intro allI impI)
  fix st base
  assume i: "idle st c b base"
  let ?st = "st\<lparr>st_cbbs := st_cbbs st @ [zero_cbb]\<rparr>"
  have "idle ?st c b base" using i by (auto simp: idle_def get_cbb_def get_base_def nth_append split: if_splits)
  then have "appended env b bs ?st base (f ?st)" using f unfolding appends_def by blast
  then show "appended env b bs st base (with_cbb (\<lambda>_. f) st)"
  proof (cases rule: appended_cases)
    case (ok base')
    then have "with_cbb (\<lambda>_. f) st = Some (True, set_base b base' st)" by (simp add: with_cbb_def set_base_def)
    then show ?thesis using ok(2) by (simp add: appended_True)
  next
    case (failed st')
    have "st_bases st ! b = Some base" using i by (auto simp: idle_def get_base_def split: if_splits)
    then have "st_bases st = (st_bases st)[b := Some base]" by (metis list_update_id)
    then have "\<exists>base. st_bases st = (st_bases st)[b := Some base]" ..
    then have "pushed b st ?st" by (simp add: pushed_def)
    then have "broken b st (st'\<lparr>st_cbbs := take (length (st_cbbs st)) (st_cbbs st')\<rparr>)" using failed(2) by (rule broken_pop)
    then show ?thesis using failed(1,3) by (simp add: with_cbb_def appended_False)
  qed
qed

text \<open>The element a round works on.\<close>

lemma found_parts:
  assumes wf: "wf_cbs cbs" and hl: "0 < hl" "hl + n \<le> length (cbs_bytes cbs)"
  defines "out \<equiv> CBS_init (cbs_data cbs) (of_nat (hl + n))"
  shows "CBS_len out = of_nat hl \<longleftrightarrow> n = 0" "(of_nat hl :: u64) > 0"
    "byte_at (CBS_data out) (unat (of_nat hl - 1 :: u64)) = Some (cbs_bytes cbs ! (hl - 1))"
    "\<exists>view. CBS_skip out (of_nat hl) = Some (True, view) \<and> wf_cbs view \<and> cbs_bytes view = take n (drop hl (cbs_bytes cbs))"
proof -
  have s: "length (cbs_bytes cbs) < 2 ^ 64" by (rule cbs_bytes_short [OF wf])
  have u: "unat (of_nat hl :: u64) = hl" "unat (of_nat (hl + n) :: u64) = hl + n"
    using hl s by (simp_all only: unat_of_nat_u64)
  show "CBS_len out = of_nat hl \<longleftrightarrow> n = 0" using u by (simp add: out_def CBS_len_def CBS_init_def word_unat_eq_iff del: of_nat_add)
  show "(of_nat hl :: u64) > 0" using u(1) hl(1) by (simp add: word_less_nat_alt)
  have "unat (of_nat hl - 1 :: u64) = hl - 1" using u(1) hl(1) by (simp add: unat_sub_if' )
  then show "byte_at (CBS_data out) (unat (of_nat hl - 1 :: u64)) = Some (cbs_bytes cbs ! (hl - 1))"
    using cbs_data_nth [OF wf, of "hl - 1"] hl by (simp add: out_def CBS_data_def CBS_init_def)
  have o: "wf_cbs out" "cbs_bytes out = take (hl + n) (cbs_bytes cbs)"
    using cbs_init_view [OF wf, of "of_nat (hl + n)"] hl(2) u(2) by (simp_all add: out_def del: of_nat_add)
  have "hl \<le> length (cbs_bytes out)" using o hl(2) by simp
  then show "\<exists>view. CBS_skip out (of_nat hl) = Some (True, view) \<and> wf_cbs view \<and> cbs_bytes view = take n (drop hl (cbs_bytes cbs))"
    using o u(1) by (intro exI [of _ "cbs_drop hl out"]) (simp add: CBS_skip_eq take_drop add.commute)
qed

lemma memcmp_zeros:
  assumes "byte_at d 0 = Some x" "byte_at d 1 = Some y"
  shows "\<exists>r. OPENSSL_memcmp d [0, 0] 2 = Some r \<and> (r = 0 \<longleftrightarrow> x = 0 \<and> y = 0)"
proof -
  have "unat (2 :: u64) = 2" by simp
  then have u: "unat (2 :: u64) = Suc (Suc 0)" by (rule trans) (rule numeral_2_eq_2)
  have z: "byte_at [0, 0] 0 = Some 0" "byte_at [0, 0] 1 = Some 0" by (simp_all add: byte_at_def)
  have "OPENSSL_memcmp d [0, 0] 2 = (if x = 0 then if y = 0 then Some 0 else Some (int (unat y)) else Some (int (unat x)))"
    unfolding OPENSSL_memcmp_def u using assms z by simp
  then show ?thesis by (cases "x = 0"; cases "y = 0") (simp_all add: word_uint_eq_iff)
qed

lemma found_eoc:
  assumes wf: "wf_cbs cbs" and hl: "hl + n \<le> length (cbs_bytes cbs)"
  shows "is_eoc (of_nat hl) (CBS_init (cbs_data cbs) (of_nat (hl + n))) =
    Some (hl = 2 \<and> n = 0 \<and> cbs_bytes cbs ! 0 = 0 \<and> cbs_bytes cbs ! 1 = 0)"
proof -
  have s: "length (cbs_bytes cbs) < 2 ^ 64" by (rule cbs_bytes_short [OF wf])
  have u: "unat (of_nat hl :: u64) = hl" "unat (of_nat (hl + n) :: u64) = hl + n"
    using hl s by (simp_all only: unat_of_nat_u64)
  have c: "of_nat hl = (2 :: u64) \<longleftrightarrow> hl = 2" "of_nat (hl + n) = (2 :: u64) \<longleftrightarrow> hl + n = 2"
    unfolding word_unat_eq_iff u by simp_all
  show ?thesis
  proof (cases "hl = 2 \<and> n = 0")
    case True
    then have "cbs_bytes cbs \<noteq> []" using hl by auto
    then have "byte_at (cbs_data cbs) 0 = Some (cbs_bytes cbs ! 0)" "byte_at (cbs_data cbs) 1 = Some (cbs_bytes cbs ! 1)"
      using cbs_data_nth [OF wf, of 0] cbs_data_nth [OF wf, of 1] hl True by simp_all
    from memcmp_zeros [OF this] show ?thesis using True by (auto simp: is_eoc_def CBS_len_def CBS_data_def CBS_init_def)
  next
    case False
    then show ?thesis using c by (auto simp: is_eoc_def CBS_len_def CBS_init_def simp del: of_nat_add)
  qed
qed

lemma contents_indefinite:
  assumes wf: "wf_cbs cbs" and hl: "0 < hl" "hl \<le> length (cbs_bytes cbs)" "cbs_bytes cbs ! (hl - 1) = 0x80"
    and eo: "eo_header_len eo = of_nat hl" "eo_out eo = CBS_init (cbs_data cbs) (of_nat hl)"
  shows "going (convert_contents env rec inp eo out oc cs d st) = and_then (ok_of (rec inp oc cs True (d + 1) st)) (CBB_flush env out)"
    "(\<And>oc. ends_at (rec inp oc cs True (d + 1)) inp2) \<Longrightarrow> goes_to (convert_contents env rec inp eo out oc cs d) inp2"
proof -
  have p: "CBS_len (eo_out eo) = eo_header_len eo" "eo_header_len eo > 0"
    "byte_at (CBS_data (eo_out eo)) (unat (eo_header_len eo - 1)) = Some 0x80"
    using found_parts(1-3) [OF wf hl(1), of 0] hl(2,3) by (simp_all add: eo)
  have run: "convert_contents env rec inp eo out oc cs d st = do {
      ((ok, inp), st) \<leftarrow> rec inp oc cs True (d + 1) st;
      if \<not> ok then Some ((Some False, inp), st)
      else do { (ok, st) \<leftarrow> CBB_flush env out st; Some ((if ok then None else Some False, inp), st) } }" for st
    using p by (simp add: convert_contents_def Let_def)
  show "going (convert_contents env rec inp eo out oc cs d st) = and_then (ok_of (rec inp oc cs True (d + 1) st)) (CBB_flush env out)"
    unfolding run by (auto simp: going_def ok_of_def and_then_def split: Option.bind_splits)
  assume e: "\<And>oc. ends_at (rec inp oc cs True (d + 1)) inp2"
  show "goes_to (convert_contents env rec inp eo out oc cs d) inp2"
    unfolding goes_to_def run using e [of oc] by (auto simp: ends_at_def split: Option.bind_splits if_splits)
qed

lemma contents_definite:
  assumes wf: "wf_cbs cbs" and hl: "0 < hl" "hl + n \<le> length (cbs_bytes cbs)" "n = 0 \<longrightarrow> cbs_bytes cbs ! (hl - 1) \<noteq> 0x80"
    and eo: "eo_header_len eo = of_nat hl" "eo_out eo = CBS_init (cbs_data cbs) (of_nat (hl + n))"
  shows "\<exists>view. wf_cbs view \<and> cbs_bytes view = take n (drop hl (cbs_bytes cbs)) \<and>
    (\<forall>oc st. going (convert_contents env rec inp eo out oc cs d st) =
      and_then (if eo_tag eo AND CBS_ASN1_CONSTRUCTED \<noteq> 0 then ok_of (rec view oc cs False (d + 1) st)
                else CBB_add_bytes env oc (CBS_data view) (CBS_len view) st) (CBB_flush env out)) \<and>
    (\<forall>oc. goes_to (convert_contents env rec inp eo out oc cs d) inp)"
proof -
  obtain view where v: "CBS_skip (eo_out eo) (eo_header_len eo) = Some (True, view)" "wf_cbs view"
    "cbs_bytes view = take n (drop hl (cbs_bytes cbs))"
    using found_parts(4) [OF wf hl(1,2)] by (auto simp: eo)
  have p: "CBS_len (eo_out eo) = eo_header_len eo \<longleftrightarrow> n = 0" "eo_header_len eo > 0"
    "byte_at (CBS_data (eo_out eo)) (unat (eo_header_len eo - 1)) = Some (cbs_bytes cbs ! (hl - 1))"
    using found_parts(1-3) [OF wf hl(1,2)] by (simp_all only: eo)
  have run: "convert_contents env rec inp eo out oc cs d st = do {
      (ok, st) \<leftarrow> (if eo_tag eo AND CBS_ASN1_CONSTRUCTED \<noteq> 0 then do {
          ((ok, _), st) \<leftarrow> rec view oc cs False (d + 1) st; Some (ok, st) }
        else CBB_add_bytes env oc (CBS_data view) (CBS_len view) st);
      if \<not> ok then Some ((Some False, inp), st)
      else do { (ok, st) \<leftarrow> CBB_flush env out st; Some ((if ok then None else Some False, inp), st) } }" for oc st
    using p hl(3) v(1) by (cases "n = 0") (simp_all add: convert_contents_def Let_def)
  have "going (convert_contents env rec inp eo out oc cs d st) =
      and_then (if eo_tag eo AND CBS_ASN1_CONSTRUCTED \<noteq> 0 then ok_of (rec view oc cs False (d + 1) st)
                else CBB_add_bytes env oc (CBS_data view) (CBS_len view) st) (CBB_flush env out)" for oc st
    unfolding run by (auto simp: going_def ok_of_def and_then_def split: Option.bind_splits)
  moreover have "goes_to (convert_contents env rec inp eo out oc cs d) inp" for oc
    unfolding goes_to_def run by (auto split: Option.bind_splits if_splits)
  ultimately show ?thesis using v(2,3) by blast
qed

lemma string_tag_nonzero: "is_string_type tag \<Longrightarrow> tag AND NOT CBS_ASN1_CONSTRUCTED \<noteq> 0"
  by (auto simp: is_string_type_def Let_def CBS_ASN1_OCTETSTRING_def)

lemma appends_flushed:
  assumes "appends env f c b bs"
  shows "appends env (\<lambda>st. and_then (f st) (CBB_flush env c)) c b bs"
proof -
  have "appends env (CBB_flush env c) c b []"
    using appends_flush [OF appends_nothing, of env c b] unfolding appends_def by (simp add: flush_idle)
  then show ?thesis by (rule appends_step [OF assms]) simp
qed

text \<open>A round in a string adds the contents, any other round adds an element.\<close>

lemma round_appends:
  assumes get: "CBS_get_any_ber_asn1_element inp (no_element (CBS_init [] 0)) = Some (True, inp1, eo)"
    and eoc: "is_eoc (eo_header_len eo) (eo_out eo) = Some False"
    and cc: "\<And>oc st. going (convert_contents env rec inp1 eo out oc cs d st) = and_then (g oc st) (CBB_flush env out)"
    and goes: "\<And>oc. goes_to (convert_contents env rec inp1 eo out oc cs d) inp2"
    and cs: "cs = (if s \<noteq> 0 then s else if eo_tag eo AND CBS_ASN1_CONSTRUCTED \<noteq> 0 \<and> is_string_type (eo_tag eo)
                   then eo_tag eo AND NOT CBS_ASN1_CONSTRUCTED else 0)"
    and s: "s \<noteq> 0 \<Longrightarrow> eo_tag eo AND NOT CBS_ASN1_CONSTRUCTED = s"
    and g: "\<And>oc. appends env (g oc) oc b bs"
    and m: "s = 0 \<Longrightarrow> length bs \<le> 0xfffffffe"
  shows "appends env (\<lambda>st. going (with_cbb (convert_round env rec inp out s e d) st)) out b
      (if s \<noteq> 0 then bs else der_element (if cs \<noteq> 0 then cs else eo_tag eo) bs)"
    "goes_to (with_cbb (convert_round env rec inp out s e d)) inp2"
proof -
  let ?R = "convert_round env rec inp out s e d"
  have "appends env (\<lambda>st. going (with_cbb ?R st)) out b (if s \<noteq> 0 then bs else der_element (if cs \<noteq> 0 then cs else eo_tag eo) bs) \<and>
    goes_to (with_cbb ?R) inp2"
  proof (cases "s = 0")
    case False
    then have r: "?R c st = convert_contents env rec inp1 eo out out s d st" for c st
      using s by (simp add: convert_round_def get eoc)
    have "appends env (\<lambda>st. and_then (g out st) (CBB_flush env out)) out b bs" by (rule appends_flushed [OF g])
    then have "appends env (with_cbb (\<lambda>_ st. and_then (g out st) (CBB_flush env out))) out b bs" by (rule appends_scratch)
    moreover have "going (with_cbb ?R st) = with_cbb (\<lambda>_ st. and_then (g out st) (CBB_flush env out)) st" for st
      using cc [of out] False cs by (simp add: going_with_cbb r)
    moreover have "goes_to (with_cbb ?R) inp2"
      using goes [of out] False cs by (intro goes_to_with_cbb) (simp add: r goes_to_def)
    ultimately show ?thesis using False by simp
  next
    case True
    let ?tag = "if cs \<noteq> 0 then cs else eo_tag eo"
    have r: "?R c st = do { (ok, st) \<leftarrow> CBB_add_asn1 env out c ?tag st;
        if \<not> ok then Some ((Some False, inp1), st) else convert_contents env rec inp1 eo out c cs d st }" for c st
    proof (cases "eo_tag eo AND CBS_ASN1_CONSTRUCTED \<noteq> 0 \<and> is_string_type (eo_tag eo)")
      case flat: True
      then have "cs = eo_tag eo AND NOT CBS_ASN1_CONSTRUCTED" "cs \<noteq> 0" using True cs string_tag_nonzero by simp_all
      then show ?thesis using True flat by (simp add: convert_round_def get eoc Let_def cong: if_cong)
    next
      case False
      then have "cs = 0" using True cs by auto
      then show ?thesis using True False by (auto simp: convert_round_def get eoc Let_def cong: if_cong)
    qed
    have "going (?R c st) = and_then (CBB_add_asn1 env out c ?tag st) (\<lambda>st. and_then (g c st) (CBB_flush env out))" for c st
      unfolding r using cc [of c]
      by (cases "CBB_add_asn1 env out c ?tag st") (auto simp: and_then_def going_def)
    then have "going (with_cbb ?R st) = add_element env out ?tag g st" for st
      by (simp add: going_with_cbb add_element_def)
    moreover have "appends env (add_element env out ?tag g) out b (der_element ?tag bs)"
      by (rule appends_element [OF g m [OF True]])
    moreover have "goes_to (?R c) inp2" for c
      using goes [of c] unfolding goes_to_def r by (auto split: Option.bind_splits if_splits)
    then have "goes_to (with_cbb ?R) inp2" by (rule goes_to_with_cbb)
    ultimately show ?thesis using True by simp
  qed
  then show "appends env (\<lambda>st. going (with_cbb ?R st)) out b (if s \<noteq> 0 then bs else der_element (if cs \<noteq> 0 then cs else eo_tag eo) bs)"
    "goes_to (with_cbb ?R) inp2" by simp_all
qed

section \<open>Trees in the basic encoding\<close>

text \<open>
  A length is given by the number of its extra octets, or is indefinite; the fragments of a string
  may be strings of fragments again.
\<close>

datatype ber_tree = Fixed u32 nat bytes | Nested u32 "nat option" "ber_tree list"

fun ber_bytes :: "ber_tree \<Rightarrow> bytes" where
  "ber_bytes (Fixed tag k c) = (tag_octets tag @ length_form k (length c)) @ c"
| "ber_bytes (Nested tag (Some k) ts) =
     (tag_octets tag @ length_form k (length (concat (map ber_bytes ts)))) @ concat (map ber_bytes ts)"
| "ber_bytes (Nested tag None ts) = tag_octets tag @ 0x80 # concat (map ber_bytes ts) @ [0, 0]"

fun string_contents :: "ber_tree \<Rightarrow> bytes" where
  "string_contents (Fixed tag k c) = c"
| "string_contents (Nested tag l ts) = concat (map string_contents ts)"

fun to_der :: "ber_tree \<Rightarrow> der_tree" where
  "to_der (Fixed tag k c) = Primitive tag c"
| "to_der (Nested tag l ts) =
     (if is_string_type tag then Primitive (tag AND NOT CBS_ASN1_CONSTRUCTED) (concat (map string_contents ts))
      else Constructed tag (map to_der ts))"

text \<open>The tag that the fragments of a string must have, for the parts of an element in a string of tag \<open>s\<close>; 0 is no string.\<close>

definition fragment_tag :: "u32 \<Rightarrow> u32 \<Rightarrow> u32" where
  "fragment_tag s tag = (if s \<noteq> 0 then s
     else if tag AND CBS_ASN1_CONSTRUCTED \<noteq> 0 \<and> is_string_type tag then tag AND NOT CBS_ASN1_CONSTRUCTED else 0)"

text \<open>The form bits and lengths are right, no element looks like an end of contents, and fragments have the tag of their string.\<close>

fun wf_ber :: "u32 \<Rightarrow> ber_tree \<Rightarrow> bool" where
  "wf_ber s (Fixed tag k c) \<longleftrightarrow> tag \<noteq> 0 \<and> tag AND CBS_ASN1_CONSTRUCTED = 0 \<and> length_ok k (length c) \<and> (s \<noteq> 0 \<longrightarrow> tag = s)"
| "wf_ber s (Nested tag l ts) \<longleftrightarrow> tag AND CBS_ASN1_CONSTRUCTED \<noteq> 0 \<and>
     (case l of Some k \<Rightarrow> length_ok k (length (concat (map ber_bytes ts))) | None \<Rightarrow> True) \<and>
     (s \<noteq> 0 \<longrightarrow> tag AND NOT CBS_ASN1_CONSTRUCTED = s) \<and> list_all (wf_ber (fragment_tag s tag)) ts"

text \<open>Nesting no deeper than \<open>n\<close>.\<close>

fun within :: "nat \<Rightarrow> ber_tree \<Rightarrow> bool" where
  "within n (Fixed tag k c) = True"
| "within n (Nested tag l ts) = (case n of 0 \<Rightarrow> False | Suc m \<Rightarrow> list_all (within m) ts)"

definition out_bytes :: "u32 \<Rightarrow> ber_tree \<Rightarrow> bytes" where
  "out_bytes s t = (if s \<noteq> 0 then string_contents t else der_bytes (to_der t))"

definition kids_bytes :: "u32 \<Rightarrow> ber_tree list \<Rightarrow> bytes" where
  "kids_bytes s ts = concat (map (out_bytes s) ts)"

lemma fragment_tag_0: "tag AND CBS_ASN1_CONSTRUCTED \<noteq> 0 \<Longrightarrow> fragment_tag s tag = 0 \<longleftrightarrow> s = 0 \<and> \<not> is_string_type tag"
  using string_tag_nonzero [of tag] by (auto simp: fragment_tag_def)

lemma kids_string: "s \<noteq> 0 \<Longrightarrow> kids_bytes s ts = concat (map string_contents ts)"
  by (simp add: kids_bytes_def out_bytes_def cong: map_cong)

lemma kids_der: "kids_bytes 0 ts = concat (map der_bytes (map to_der ts))"
  by (simp add: kids_bytes_def out_bytes_def comp_def cong: map_cong)

lemma nested_out:
  assumes tag: "tag AND CBS_ASN1_CONSTRUCTED \<noteq> 0"
  shows "out_bytes s (Nested tag l ts) = (if s \<noteq> 0 then kids_bytes (fragment_tag s tag) ts else der_element (if (fragment_tag s tag) \<noteq> 0 then (fragment_tag s tag) else tag) (kids_bytes (fragment_tag s tag) ts))"
    "s = 0 \<Longrightarrow> wf_tree (to_der (Nested tag l ts)) \<Longrightarrow> length (kids_bytes (fragment_tag s tag) ts) \<le> 0xfffffffe"
    "fragment_tag s tag = 0 \<Longrightarrow> wf_tree (to_der (Nested tag l ts)) \<Longrightarrow> list_all (\<lambda>t. wf_tree (to_der t)) ts"
proof -
  let ?cs = "fragment_tag s tag"
  show "out_bytes s (Nested tag l ts) = (if s \<noteq> 0 then kids_bytes ?cs ts else der_element (if ?cs \<noteq> 0 then ?cs else tag) (kids_bytes ?cs ts))"
  proof (cases "?cs = 0")
    case True
    then show ?thesis using fragment_tag_0 [OF tag, of s] unfolding True
      by (simp add: kids_der out_bytes_def comp_def)
  next
    case False
    then show ?thesis using fragment_tag_0 [OF tag, of s] tag
      by (auto simp: kids_string out_bytes_def fragment_tag_def)
  qed
  assume w: "wf_tree (to_der (Nested tag l ts))"
  show "s = 0 \<Longrightarrow> length (kids_bytes ?cs ts) \<le> 0xfffffffe"
    using w fragment_tag_0 [OF tag, of s] kids_string [of ?cs ts]
    by (cases "is_string_type tag") (auto simp: kids_der comp_def)
  show "?cs = 0 \<Longrightarrow> list_all (\<lambda>t. wf_tree (to_der t)) ts"
    using w fragment_tag_0 [OF tag, of s] by (simp add: list_all_iff)
qed

text \<open>What a loop with fuel \<open>n\<close> does with the trees in front of it, and the end of contents where it looks for one.\<close>

definition converts :: "cbb_env \<Rightarrow> nat \<Rightarrow> nat \<Rightarrow> bool" where
  "converts env b n \<longleftrightarrow> (\<forall>inp ts s e d m rest out.
     wf_cbs inp \<longrightarrow> cbs_bytes inp = concat (map ber_bytes ts) @ (if e then [0, 0] @ rest else []) \<longrightarrow>
     list_all (wf_ber s) ts \<longrightarrow> (s = 0 \<longrightarrow> list_all (\<lambda>t. wf_tree (to_der t)) ts) \<longrightarrow>
     list_all (within m) ts \<longrightarrow> unat d + m \<le> 2048 \<longrightarrow> length (cbs_bytes inp) < n \<longrightarrow>
     appends env (\<lambda>st. ok_of (convert_loop env n inp out s e d st)) out b (kids_bytes s ts) \<and>
     ends_at (convert_loop env n inp out s e d) (cbs_drop (length (concat (map ber_bytes ts)) + (if e then 2 else 0)) inp))"

lemma depth_Suc: "unat (d :: u32) + Suc m \<le> 2048 \<Longrightarrow> unat (d + 1) + m \<le> 2048"
  by (simp add: unat_word_ariths)

lemma kids_convert:
  assumes conv: "converts env b n" and wf: "wf_ber s (Nested tag l ts)" "s = 0 \<longrightarrow> wf_tree (to_der (Nested tag l ts))"
    and deep: "within m (Nested tag l ts)" "unat d + m \<le> 2048"
    and inp: "wf_cbs inp" "cbs_bytes inp = concat (map ber_bytes ts) @ (if e then [0, 0] @ rest else [])" "length (cbs_bytes inp) < n"
  shows "appends env (\<lambda>st. ok_of (convert_loop env n inp out (fragment_tag s tag) e (d + 1) st)) out b (kids_bytes (fragment_tag s tag) ts)"
    "ends_at (convert_loop env n inp out (fragment_tag s tag) e (d + 1)) (cbs_drop (length (concat (map ber_bytes ts)) + (if e then 2 else 0)) inp)"
proof -
  let ?cs = "fragment_tag s tag"
  have tag: "tag AND CBS_ASN1_CONSTRUCTED \<noteq> 0" and w: "list_all (wf_ber ?cs) ts" using wf(1) by simp_all
  obtain j where j: "m = Suc j" "list_all (within j) ts" using deep(1) by (auto split: nat.splits)
  have d: "unat (d + 1) + j \<le> 2048" using deep(2) j(1) by (intro depth_Suc) simp
  have "?cs = 0 \<longrightarrow> list_all (\<lambda>t. wf_tree (to_der t)) ts"
    using nested_out(3) [OF tag, of s l ts] wf(2) fragment_tag_0 [OF tag, of s] by blast
  then show "appends env (\<lambda>st. ok_of (convert_loop env n inp out ?cs e (d + 1) st)) out b (kids_bytes ?cs ts)"
    "ends_at (convert_loop env n inp out ?cs e (d + 1)) (cbs_drop (length (concat (map ber_bytes ts)) + (if e then 2 else 0)) inp)"
    using conv w inp j(2) d unfolding converts_def by blast+
qed

lemma tag_octets_zero: "tag_octets tag = [0] \<Longrightarrow> tag = 0"
  using tag_reader.prefix_free [of tag "[]" 0 "[]"] by (simp add: tag_octets_def)

lemma length_form_last: "length_ok k 0 \<Longrightarrow> last (length_form k 0) = 0"
  by (auto simp: length_form_def word_le_bytes_def last_rev hd_map)

lemma length_form_not_Nil [simp]: "length_form k n \<noteq> []"
  by (simp add: length_form_def)

text \<open>The round for a tree, by the three forms of its header.\<close>

lemma found_round:
  assumes wf: "wf_cbs inp" and f: "found inp tag hl n (CBS_get_any_ber_asn1_element inp (no_element (CBS_init [] 0)))"
    and hl: "hl + n \<le> length (cbs_bytes inp)" and eoc: "\<not> (hl = 2 \<and> n = 0 \<and> cbs_bytes inp ! 0 = 0 \<and> cbs_bytes inp ! 1 = 0)"
  obtains eo where "CBS_get_any_ber_asn1_element inp (no_element (CBS_init [] 0)) = Some (True, cbs_drop (hl + n) inp, eo)"
    "eo_tag eo = tag" "eo_header_len eo = of_nat hl" "eo_out eo = CBS_init (cbs_data inp) (of_nat (hl + n))"
    "is_eoc (eo_header_len eo) (eo_out eo) = Some False"
proof -
  obtain eo where eo: "CBS_get_any_ber_asn1_element inp (no_element (CBS_init [] 0)) = Some (True, cbs_drop (hl + n) inp, eo)"
    "eo_tag eo = tag" "eo_header_len eo = of_nat hl" "eo_out eo = CBS_init (cbs_data inp) (of_nat (hl + n))"
    using f unfolding found_def by blast
  moreover have "is_eoc (eo_header_len eo) (eo_out eo) = Some False" unfolding eo(3,4) found_eoc [OF wf hl] using eoc by simp
  ultimately show ?thesis by (rule that)
qed

lemma header_not_eoc:
  assumes "tag \<noteq> 0 \<or> b \<noteq> 0" "bs = tag_octets tag @ b # xs" "length (tag_octets tag) = 1"
  shows "\<not> (bs ! 0 = 0 \<and> bs ! 1 = 0)"
proof
  assume z: "bs ! 0 = 0 \<and> bs ! 1 = 0"
  obtain x where x: "tag_octets tag = [x]" using assms(3) by (auto simp: length_Suc_conv)
  then have "x = 0" "b = 0" using z assms(2) by simp_all
  then show False using x tag_octets_zero assms(1) by blast
qed

lemma constructed_not_0: "tag AND CBS_ASN1_CONSTRUCTED \<noteq> 0 \<Longrightarrow> tag \<noteq> 0"
  by auto

lemma length_form_Cons: "\<exists>x xs. length_form k n = x # xs"
  by (cases "length_form k n") (use length_form_not_Nil [of k n] in simp_all)

lemma definite_round:
  assumes wf: "wf_cbs inp" and ok: "length_ok k (length c)" "tag \<noteq> 0"
    and bytes: "cbs_bytes inp = (tag_octets tag @ length_form k (length c)) @ c @ rest"
  shows "\<exists>eo view. CBS_get_any_ber_asn1_element inp (no_element (CBS_init [] 0)) =
      Some (True, cbs_drop (length (tag_octets tag @ length_form k (length c)) + length c) inp, eo) \<and> eo_tag eo = tag \<and>
    is_eoc (eo_header_len eo) (eo_out eo) = Some False \<and> wf_cbs view \<and> cbs_bytes view = c \<and>
    (\<forall>oc st. going (convert_contents env rec inp1 eo out oc cs d st) =
      and_then (if tag AND CBS_ASN1_CONSTRUCTED \<noteq> 0 then ok_of (rec view oc cs False (d + 1) st)
                else CBB_add_bytes env oc (CBS_data view) (CBS_len view) st) (CBB_flush env out)) \<and>
    (\<forall>oc. goes_to (convert_contents env rec inp1 eo out oc cs d) inp1)"
proof -
  let ?h = "tag_octets tag @ length_form k (length c)"
  obtain x xs where lf: "length_form k (length c) = x # xs" using length_form_Cons by blast
  have hl: "0 < length ?h" "length ?h + length c \<le> length (cbs_bytes inp)" using bytes by simp_all
  have f: "found inp tag (length ?h) (length c) (CBS_get_any_ber_asn1_element inp (no_element (CBS_init [] 0)))"
    unfolding CBS_get_any_ber_asn1_element_def by (rule ber_definite [OF wf ok(1) bytes])
  have "\<not> (length ?h = 2 \<and> length c = 0 \<and> cbs_bytes inp ! 0 = 0 \<and> cbs_bytes inp ! 1 = 0)"
  proof
    assume a: "length ?h = 2 \<and> length c = 0 \<and> cbs_bytes inp ! 0 = 0 \<and> cbs_bytes inp ! 1 = 0"
    then have "length (tag_octets tag) = 1" using tag_octets_not_Nil [of tag] lf by (cases "tag_octets tag") simp_all
    moreover have "cbs_bytes inp = tag_octets tag @ x # xs @ c @ rest" using bytes lf by simp
    ultimately show False using header_not_eoc ok(2) a by blast
  qed
  then obtain eo where eo: "CBS_get_any_ber_asn1_element inp (no_element (CBS_init [] 0)) = Some (True, cbs_drop (length ?h + length c) inp, eo)"
    "eo_tag eo = tag" "eo_header_len eo = of_nat (length ?h)" "eo_out eo = CBS_init (cbs_data inp) (of_nat (length ?h + length c))"
    "is_eoc (eo_header_len eo) (eo_out eo) = Some False"
    using found_round [OF wf f hl(2)] by blast
  have "length c = 0 \<longrightarrow> cbs_bytes inp ! (length ?h - 1) \<noteq> 0x80"
  proof
    assume c: "length c = 0"
    have "cbs_bytes inp ! (length ?h - 1) = ?h ! (length ?h - 1)"
      using hl(1) unfolding bytes by (subst nth_append) simp
    also have "\<dots> = last ?h" using hl(1) by (intro last_conv_nth [symmetric]) auto
    also have "\<dots> = last (length_form k 0)" using c by simp
    also have "\<dots> = 0" using ok(1) c by (intro length_form_last) simp
    finally show "cbs_bytes inp ! (length ?h - 1) \<noteq> 0x80" by simp
  qed
  from contents_definite [OF wf hl this eo(3,4), of env rec inp1 out cs d] obtain view where
    v: "wf_cbs view" "cbs_bytes view = take (length c) (drop (length ?h) (cbs_bytes inp))"
    "\<forall>oc st. going (convert_contents env rec inp1 eo out oc cs d st) =
      and_then (if tag AND CBS_ASN1_CONSTRUCTED \<noteq> 0 then ok_of (rec view oc cs False (d + 1) st)
                else CBB_add_bytes env oc (CBS_data view) (CBS_len view) st) (CBB_flush env out)"
    "\<forall>oc. goes_to (convert_contents env rec inp1 eo out oc cs d) inp1"
    unfolding eo(2) by blast
  have "cbs_bytes view = c" using v(2) bytes by simp
  then show ?thesis using eo(1,2,5) v(1,3,4) by blast
qed

lemma and_not_0: "x AND y = 0 \<Longrightarrow> x AND NOT y = (x :: 'a::len word)"
proof (rule bit_word_eqI)
  fix i
  assume "x AND y = 0" and i: "i < LENGTH('a)"
  then have "\<not> bit (x AND y) i" by simp
  then show "bit (x AND NOT y) i = bit x i" using i by (auto simp: bit_and_iff bit_not_iff)
qed

lemma tree_round:
  assumes conv: "converts env b n" and t: "wf_ber s t" "s = 0 \<longrightarrow> wf_tree (to_der t)" "within m t" "unat d + m \<le> 2048"
    and inp: "wf_cbs inp" "cbs_bytes inp = ber_bytes t @ rest" "length (cbs_bytes inp) < Suc n"
  shows "appends env (\<lambda>st. going (with_cbb (convert_round env (convert_loop env n) inp out s e d) st)) out b (out_bytes s t)"
    "goes_to (with_cbb (convert_round env (convert_loop env n) inp out s e d)) (cbs_drop (length (ber_bytes t)) inp)"
proof -
  let ?R = "with_cbb (convert_round env (convert_loop env n) inp out s e d)"
  have "appends env (\<lambda>st. going (?R st)) out b (out_bytes s t) \<and> goes_to ?R (cbs_drop (length (ber_bytes t)) inp)"
  proof (cases t)
    case (Fixed tag k c)
    have tag: "tag AND NOT CBS_ASN1_CONSTRUCTED = tag"
    proof -
      have "tag AND CBS_ASN1_CONSTRUCTED = 0" using t(1) Fixed by simp
      then show ?thesis by (rule and_not_0)
    qed
    have bytes: "cbs_bytes inp = (tag_octets tag @ length_form k (length c)) @ c @ rest" using inp(2) Fixed by simp
    have lt: "length_ok k (length c)" "tag \<noteq> 0" and tc: "tag AND CBS_ASN1_CONSTRUCTED = 0" using t(1) Fixed by simp_all
    have bl: "length (tag_octets tag @ length_form k (length c)) + length c = length (ber_bytes t)" using Fixed by simp
    obtain eo view where r: "CBS_get_any_ber_asn1_element inp (no_element (CBS_init [] 0)) = Some (True, cbs_drop (length (ber_bytes t)) inp, eo)"
      "eo_tag eo = tag" "is_eoc (eo_header_len eo) (eo_out eo) = Some False" "wf_cbs view" "cbs_bytes view = c"
      "\<And>oc st. going (convert_contents env (convert_loop env n) (cbs_drop (length (ber_bytes t)) inp) eo out oc s d st) =
        and_then (CBB_add_bytes env oc (CBS_data view) (CBS_len view) st) (CBB_flush env out)"
      "\<And>oc. goes_to (convert_contents env (convert_loop env n) (cbs_drop (length (ber_bytes t)) inp) eo out oc s d) (cbs_drop (length (ber_bytes t)) inp)"
      using definite_round [OF inp(1) lt bytes, of env "convert_loop env n" "cbs_drop (length (ber_bytes t)) inp" out s d] tc unfolding bl by auto
    have "unat (CBS_len view) \<le> length (CBS_data view)" using r(4) by (simp add: wf_cbs_def CBS_len_def CBS_data_def)
    then have g: "appends env (CBB_add_bytes env oc (CBS_data view) (CBS_len view)) oc b c" for oc
      using appends_bytes [of "CBS_len view" "CBS_data view" env oc b] r(5) by (simp add: cbs_take)
    have m: "s = 0 \<Longrightarrow> length c \<le> 0xfffffffe" using t(2) Fixed by simp
    have o: "out_bytes s t = (if s \<noteq> 0 then c else der_element (if s \<noteq> 0 then s else eo_tag eo) c)" using Fixed r(2) by (simp add: out_bytes_def)
    have f: "s = (if s \<noteq> 0 then s else if eo_tag eo AND CBS_ASN1_CONSTRUCTED \<noteq> 0 \<and> is_string_type (eo_tag eo) then eo_tag eo AND NOT CBS_ASN1_CONSTRUCTED else 0)"
      using tc r(2) by simp
    have st: "s \<noteq> 0 \<Longrightarrow> eo_tag eo AND NOT CBS_ASN1_CONSTRUCTED = s" using tag t(1) Fixed r(2) by simp
    show ?thesis using round_appends [OF r(1,3,6,7) f st g m] unfolding o by blast
  next
    case (Nested tag l ts)
    let ?cs = "fragment_tag s tag" and ?kids = "concat (map ber_bytes ts)"
    have tag: "tag AND CBS_ASN1_CONSTRUCTED \<noteq> 0" and st: "s \<noteq> 0 \<Longrightarrow> tag AND NOT CBS_ASN1_CONSTRUCTED = s" using t(1) Nested by simp_all
    note kc = kids_convert [OF conv, of s tag l ts m d] 
    note o = nested_out(1) [OF tag, of s l ts]
    have m: "s = 0 \<Longrightarrow> length (kids_bytes ?cs ts) \<le> 0xfffffffe" using nested_out(2) [OF tag, of s l ts] t(2) Nested by simp
    show ?thesis
    proof (cases l)
      case (Some k)
      let ?inp1 = "cbs_drop (length (ber_bytes t)) inp"
      have bytes: "cbs_bytes inp = (tag_octets tag @ length_form k (length ?kids)) @ ?kids @ rest" using inp(2) Nested Some by simp
      have lt: "length_ok k (length ?kids)" "tag \<noteq> 0" using t(1) Nested Some constructed_not_0 [OF tag] by simp_all
      have bl: "length (tag_octets tag @ length_form k (length ?kids)) + length ?kids = length (ber_bytes t)" using Nested Some by simp
      obtain eo view where r: "CBS_get_any_ber_asn1_element inp (no_element (CBS_init [] 0)) = Some (True, ?inp1, eo)"
        "eo_tag eo = tag" "is_eoc (eo_header_len eo) (eo_out eo) = Some False" "wf_cbs view" "cbs_bytes view = ?kids"
        "\<And>oc st. going (convert_contents env (convert_loop env n) ?inp1 eo out oc ?cs d st) =
          and_then (ok_of (convert_loop env n view oc ?cs False (d + 1) st)) (CBB_flush env out)"
        "\<And>oc. goes_to (convert_contents env (convert_loop env n) ?inp1 eo out oc ?cs d) ?inp1"
        using definite_round [OF inp(1) lt bytes, of env "convert_loop env n" ?inp1 out ?cs d] tag unfolding bl by auto
      have short: "length (cbs_bytes view) < n" using inp(3) length_form_not_Nil [of k "length ?kids"] tag_octets_not_Nil [of tag] r(5)
        unfolding bytes by (cases "tag_octets tag") simp_all
      have g: "appends env (\<lambda>st. ok_of (convert_loop env n view oc ?cs False (d + 1) st)) oc b (kids_bytes ?cs ts)" for oc
        using kc(1) [of view False] t Nested r(4,5) short by simp
      have f: "?cs = (if s \<noteq> 0 then s else if eo_tag eo AND CBS_ASN1_CONSTRUCTED \<noteq> 0 \<and> is_string_type (eo_tag eo) then eo_tag eo AND NOT CBS_ASN1_CONSTRUCTED else 0)"
        using r(2) by (simp add: fragment_tag_def)
      have st': "s \<noteq> 0 \<Longrightarrow> eo_tag eo AND NOT CBS_ASN1_CONSTRUCTED = s" using st r(2) by simp
      have o': "out_bytes s t = (if s \<noteq> 0 then kids_bytes ?cs ts else der_element (if ?cs \<noteq> 0 then ?cs else eo_tag eo) (kids_bytes ?cs ts))"
        unfolding Nested r(2) by (rule o)
      show ?thesis using round_appends [OF r(1,3,6,7) f st' g m] unfolding o' by blast
    next
      case None
      let ?h = "Suc (length (tag_octets tag))"
      let ?inp0 = "cbs_drop ?h inp" and ?inp1 = "cbs_drop (length (ber_bytes t)) inp"
      have bytes: "cbs_bytes inp = tag_octets tag @ 0x80 # ?kids @ [0, 0] @ rest" using inp(2) Nested None by simp
      have hl: "0 < ?h" "?h \<le> length (cbs_bytes inp)" "?h + 0 \<le> length (cbs_bytes inp)" "cbs_bytes inp ! (?h - 1) = 0x80" using bytes by simp_all
      have fd: "found inp tag ?h 0 (CBS_get_any_ber_asn1_element inp (no_element (CBS_init [] 0)))"
        unfolding CBS_get_any_ber_asn1_element_def by (rule ber_indefinite [OF inp(1) tag bytes])
      have "\<not> (?h = 2 \<and> 0 = (0::nat) \<and> cbs_bytes inp ! 0 = 0 \<and> cbs_bytes inp ! 1 = 0)"
        using header_not_eoc [OF _ bytes] constructed_not_0 [OF tag] by auto
      then obtain eo where eo: "CBS_get_any_ber_asn1_element inp (no_element (CBS_init [] 0)) = Some (True, ?inp0, eo)"
        "eo_tag eo = tag" "eo_header_len eo = of_nat ?h" "eo_out eo = CBS_init (cbs_data inp) (of_nat ?h)"
        "is_eoc (eo_header_len eo) (eo_out eo) = Some False"
        using found_round [OF inp(1) fd hl(3)] by auto
      have i0: "wf_cbs ?inp0" "cbs_bytes ?inp0 = ?kids @ [0, 0] @ rest" using inp(1) hl(2) bytes by simp_all
      have i0': "cbs_bytes ?inp0 = ?kids @ (if True then [0, 0] @ rest else [])" using i0(2) by simp
      have short: "length (cbs_bytes ?inp0) < n" using inp(3) i0(2) unfolding bytes by simp
      have eq: "cbs_drop (length ?kids + (if True then 2 else 0)) ?inp0 = ?inp1" using Nested None by (simp add: add.commute)
      have k: "wf_ber s (Nested tag l ts)" "s = 0 \<longrightarrow> wf_tree (to_der (Nested tag l ts))" "within m (Nested tag l ts)" using t Nested by simp_all
      have g: "appends env (\<lambda>st. ok_of (convert_loop env n ?inp0 oc ?cs True (d + 1) st)) oc b (kids_bytes ?cs ts)" for oc
        by (rule kc(1) [OF k t(4) i0(1) i0' short])
      have e: "ends_at (convert_loop env n ?inp0 oc ?cs True (d + 1)) ?inp1" for oc
        using kc(2) [OF k t(4) i0(1) i0' short, of oc] unfolding eq .
      have f: "?cs = (if s \<noteq> 0 then s else if eo_tag eo AND CBS_ASN1_CONSTRUCTED \<noteq> 0 \<and> is_string_type (eo_tag eo) then eo_tag eo AND NOT CBS_ASN1_CONSTRUCTED else 0)"
        using eo(2) by (simp add: fragment_tag_def)
      have st': "s \<noteq> 0 \<Longrightarrow> eo_tag eo AND NOT CBS_ASN1_CONSTRUCTED = s" using st eo(2) by simp
      have o': "out_bytes s t = (if s \<noteq> 0 then kids_bytes ?cs ts else der_element (if ?cs \<noteq> 0 then ?cs else eo_tag eo) (kids_bytes ?cs ts))"
        unfolding Nested eo(2) by (rule o)
      have go: "going (convert_contents env (convert_loop env n) ?inp0 eo out oc ?cs d st) =
          and_then (ok_of (convert_loop env n ?inp0 oc ?cs True (d + 1) st)) (CBB_flush env out)" for oc st
        by (rule contents_indefinite(1) [OF inp(1) hl(1,2,4) eo(3,4)])
      have to: "goes_to (convert_contents env (convert_loop env n) ?inp0 eo out oc ?cs d) ?inp1" for oc
        by (rule contents_indefinite(2) [OF inp(1) hl(1,2,4) eo(3,4)]) (rule e)
      show ?thesis
        using round_appends [OF eo(1,5) go to f st' g m]
        unfolding o' by blast
    qed
  qed
  then show "appends env (\<lambda>st. going (?R st)) out b (out_bytes s t)" "goes_to ?R (cbs_drop (length (ber_bytes t)) inp)" by simp_all
qed

lemma loop_step:
  assumes goes: "goes_to R inp1"
    and run: "\<And>st. f st = do { ((r, inp), st) \<leftarrow> R st; case r of Some r \<Rightarrow> Some ((r, inp), st) | None \<Rightarrow> g inp st }"
  shows "ok_of (f st) = and_then (going (R st)) (\<lambda>st. ok_of (g inp1 st))" "ends_at (g inp1) inp2 \<Longrightarrow> ends_at f inp2"
proof -
  have cases: "R st = None \<or> (\<exists>st'. R st = Some ((None, inp1), st')) \<or> (\<exists>x st'. R st = Some ((Some False, x), st'))" for st
  proof (cases "R st")
    case (Some y)
    obtain r x st' where "R st = Some ((r, x), st')" using Some by (cases y) auto
    then show ?thesis using goes unfolding goes_to_def by blast
  qed simp
  show "ok_of (f st) = and_then (going (R st)) (\<lambda>st. ok_of (g inp1 st))"
    using cases [of st] by (elim disjE exE) (simp_all add: run ok_of_def going_def)
  show "ends_at f inp2" if g: "ends_at (g inp1) inp2"
    unfolding ends_at_def
  proof (intro allI impI)
    fix st x st'
    assume "f st = Some ((True, x), st')"
    then show "x = inp2" using cases [of st] g by (elim disjE exE) (auto simp: run ends_at_def)
  qed
qed

lemma eoc_round:
  assumes wf: "wf_cbs inp" and bytes: "cbs_bytes inp = [0, 0] @ rest"
  shows "with_cbb (convert_round env rec inp out s e d) st = Some ((Some e, cbs_drop 2 inp), st)"
proof -
  have z: "tag_octets 0 = [0]" "length_form 0 0 = [0]" by (simp_all add: tag_octets_def length_form_def)
  have "found inp 0 (length (tag_octets 0 @ length_form 0 (length ([] :: bytes)))) (length ([] :: bytes)) (cbs_get_any_asn1_element inp (no_element (CBS_init [] 0)) True)"
    by (rule ber_definite [OF wf]) (simp_all add: length_ok_def z bytes)
  moreover have "length (tag_octets 0 @ length_form 0 (length ([] :: bytes))) = 2" "length ([] :: bytes) = 0" by (simp_all add: z)
  ultimately have "found inp 0 2 0 (CBS_get_any_ber_asn1_element inp (no_element (CBS_init [] 0)))"
    unfolding CBS_get_any_ber_asn1_element_def by (simp only:)
  then obtain eo where eo: "CBS_get_any_ber_asn1_element inp (no_element (CBS_init [] 0)) = Some (True, cbs_drop 2 inp, eo)"
    "eo_header_len eo = of_nat 2" "eo_out eo = CBS_init (cbs_data inp) (of_nat (2 + 0))"
    unfolding found_def add_0_right by blast
  have "is_eoc (eo_header_len eo) (eo_out eo) = Some True"
    unfolding eo(2,3) by (subst found_eoc [OF wf]) (simp_all add: bytes)
  then show ?thesis by (simp add: with_cbb_def convert_round_def eo(1))
qed

lemma loop_converts: "converts env b n"
proof (induction n)
  case 0
  then show ?case by (simp add: converts_def)
next
  case (Suc n)
  show ?case unfolding converts_def
  proof (intro allI impI)
    fix inp ts s e m rest out and d :: u32
    assume inp: "wf_cbs inp" "cbs_bytes inp = concat (map ber_bytes ts) @ (if e then [0, 0] @ rest else [])"
      and ts: "list_all (wf_ber s) ts" "s = 0 \<longrightarrow> list_all (\<lambda>t. wf_tree (to_der t)) ts" "list_all (within m) ts" "unat d + m \<le> 2048"
      and short: "length (cbs_bytes inp) < Suc n"
    have d: "\<not> d > kMaxDepth" using ts(4) by (simp add: kMaxDepth_def word_less_nat_alt)
    let ?R = "with_cbb (convert_round env (convert_loop env n) inp out s e d)"
    have run: "convert_loop env (Suc n) inp out s e d st = do { ((r, inp), st) \<leftarrow> ?R st;
        case r of Some r \<Rightarrow> Some ((r, inp), st) | None \<Rightarrow> convert_loop env n inp out s e d st }" if "cbs_bytes inp \<noteq> []" for st
      using d that CBS_len_0 [OF inp(1)] by (simp add: word_neq_0_conv)
    let ?stop = "cbs_drop (length (concat (map ber_bytes ts)) + (if e then 2 else 0)) inp"
    show "appends env (\<lambda>st. ok_of (convert_loop env (Suc n) inp out s e d st)) out b (kids_bytes s ts) \<and>
      ends_at (convert_loop env (Suc n) inp out s e d) ?stop"
    proof (cases ts)
      case Nil
      have "convert_loop env (Suc n) inp out s e d st = Some ((True, ?stop), st)" for st
      proof (cases e)
        case True
        then have b: "cbs_bytes inp = [0, 0] @ rest" using inp(2) Nil by simp
        show ?thesis using run True Nil b eoc_round [OF inp(1) b] by (simp add: numeral_2_eq_2)
      next
        case False
        then show ?thesis using inp Nil d CBS_len_0 [OF inp(1)] by simp
      qed
      then show ?thesis using Nil appends_nothing [of env out b] by (simp add: ok_of_def ends_at_def kids_bytes_def)
    next
      case (Cons t us)
      let ?inp1 = "cbs_drop (length (ber_bytes t)) inp" and ?rest = "concat (map ber_bytes us) @ (if e then [0, 0] @ rest else [])"
      have b: "cbs_bytes inp = ber_bytes t @ ?rest" using inp(2) Cons by simp
      have "ber_bytes t \<noteq> []" using tag_octets_not_Nil by (cases t rule: ber_bytes.cases) simp_all
      then have pos: "cbs_bytes inp \<noteq> []" "0 < length (ber_bytes t)" using b by simp_all
      have i1: "wf_cbs ?inp1" "cbs_bytes ?inp1 = ?rest" using inp(1) b by simp_all
      have sh: "length (cbs_bytes ?inp1) < n" using short pos(2) unfolding i1(2) b length_append by linarith
      have t: "wf_ber s t" "s = 0 \<longrightarrow> wf_tree (to_der t)" "within m t" using ts Cons by simp_all
      have us: "list_all (wf_ber s) us" "s = 0 \<longrightarrow> list_all (\<lambda>t. wf_tree (to_der t)) us" "list_all (within m) us" using ts Cons by simp_all
      note r = tree_round [OF Suc.IH t ts(4) inp(1) b short, of out e]
      have ih: "appends env (\<lambda>st. ok_of (convert_loop env n ?inp1 out s e d st)) out b (kids_bytes s us)"
        "ends_at (convert_loop env n ?inp1 out s e d) (cbs_drop (length (concat (map ber_bytes us)) + (if e then 2 else 0)) ?inp1)"
        using Suc.IH i1 us ts(4) sh unfolding converts_def by blast+
      note step = loop_step [OF r(2) run [OF pos(1)]]
      have "appends env (\<lambda>st. and_then (going (?R st)) (\<lambda>st. ok_of (convert_loop env n ?inp1 out s e d st))) out b (out_bytes s t @ kids_bytes s us)"
        by (rule appends_and_then [OF r(1) ih(1)])
      moreover have "kids_bytes s ts = out_bytes s t @ kids_bytes s us" using Cons by (simp add: kids_bytes_def)
      moreover have "cbs_drop (length (concat (map ber_bytes us)) + (if e then 2 else 0)) ?inp1 = ?stop" using Cons by (simp add: add.assoc)
      ultimately have "appends env (\<lambda>st. ok_of (convert_loop env (Suc n) inp out s e d st)) out b (kids_bytes s ts)"
        and "ends_at (convert_loop env n ?inp1 out s e d) ?stop"
        using ih(2) by (simp_all only: step(1))
      then show ?thesis using step(2) by blast
    qed
  qed
qed

lemma convertsD:
  assumes "converts env b n" "wf_cbs inp" "cbs_bytes inp = concat (map ber_bytes ts) @ (if e then [0, 0] @ rest else [])"
    and "list_all (wf_ber s) ts" "s = 0 \<longrightarrow> list_all (\<lambda>t. wf_tree (to_der t)) ts" "list_all (within m) ts"
    and "unat d + m \<le> 2048" "length (cbs_bytes inp) < n"
  shows "appends env (\<lambda>st. ok_of (convert_loop env n inp out s e d st)) out b (kids_bytes s ts)"
    "ends_at (convert_loop env n inp out s e d) (cbs_drop (length (concat (map ber_bytes ts)) + (if e then 2 else 0)) inp)"
  using assms unfolding converts_def by blast+

lemma cbs_convert_ber_appends:
  assumes "wf_cbs inp" "cbs_bytes inp = concat (map ber_bytes ts)"
    and "list_all (wf_ber 0) ts" "list_all (\<lambda>t. wf_tree (to_der t)) ts" "list_all (within 2048) ts"
  shows "appends env (\<lambda>st. ok_of (cbs_convert_ber env inp out 0 False 0 st)) out b (concat (map der_bytes (map to_der ts)))"
    "ends_at (cbs_convert_ber env inp out 0 False 0) (cbs_drop (length (cbs_bytes inp)) inp)"
proof -
  have n: "unat (CBS_len inp) = length (cbs_bytes inp)" using length_cbs_bytes [OF assms(1)] by (simp add: CBS_len_def)
  have z: "unat (0 :: u32) + 2048 \<le> 2048" by simp
  have "cbs_bytes inp = concat (map ber_bytes ts) @ (if False then [0, 0] @ [] else [])" using assms(2) by simp
  note c = convertsD [OF loop_converts assms(1) this assms(3) impI [OF assms(4)] assms(5) z]
  have "length (cbs_bytes inp) < Suc (unat (CBS_len inp))" using n by simp
  from c [OF this] show "appends env (\<lambda>st. ok_of (cbs_convert_ber env inp out 0 False 0 st)) out b (concat (map der_bytes (map to_der ts)))"
    "ends_at (cbs_convert_ber env inp out 0 False 0) (cbs_drop (length (cbs_bytes inp)) inp)"
    unfolding cbs_convert_ber_def kids_der assms(2) by simp_all
qed

section \<open>The search for liberties\<close>

definition minimal_length :: "nat \<Rightarrow> nat \<Rightarrow> bool" where
  "minimal_length k n \<longleftrightarrow> k = 0 \<or> 128 \<le> n \<and> 256 ^ (k - 1) \<le> n"

lemma minimal_length_octets:
  assumes "length_ok k n" "minimal_length k n"
  shows "length_form k n = length_octets n"
proof (cases "k = 0")
  case True
  then show ?thesis using assms(1) by (simp add: length_form_def length_octets_def length_ok_def)
next
  case False
  then have n: "n < 256 ^ k" "\<not> n < 256 ^ (k - 1)" "128 \<le> n" using assms by (auto simp: length_ok_def minimal_length_def)
  then have "length (nat_be n) \<le> k" "\<not> length (nat_be n) \<le> k - 1" unfolding length_nat_be by simp_all
  then have l: "length (nat_be n) = k" using False by simp
  have "n < 2 ^ 64" using length_ok_32 [OF assms(1)] by simp
  from nat_be_word [OF this] show ?thesis using n(3) False l by (simp add: length_form_def length_octets_def)
qed

text \<open>The parser notes a liberty exactly where the length is not minimal or not definite.\<close>

lemma definite_found:
  assumes wf: "wf_cbs cbs" and ok: "length_ok k (length c)"
    and bytes: "cbs_bytes cbs = (tag_octets tag @ length_form k (length c)) @ c @ rest"
    and got: "cbs_get_any_asn1_element cbs eo True = Some (True, cbs', eo')"
  shows "eo_ber_found eo' \<longleftrightarrow> \<not> minimal_length k (length c)"
proof -
  let ?e = "eo\<lparr>eo_ber_found := False\<rparr>"
  have "minimal_length k (length c) \<longleftrightarrow> (\<exists>x e. cbs_get_any_asn1_element cbs ?e False = Some (True, x, e))"
  proof (cases "minimal_length k (length c)")
    case True
    have "cbs_bytes cbs = der_element tag c @ rest"
      using bytes minimal_length_octets [OF ok True] by (simp add: der_element_def der_header_def)
    then show ?thesis using der_reads [OF wf length_ok_32 [OF ok], of tag rest ?e] True by auto
  next
    case False
    then have k: "1 \<le> k" "k \<le> 4" "length c < 256 ^ k" "length c < 128 \<or> length c < 256 ^ (k - 1)"
      using ok by (auto simp: length_ok_def minimal_length_def split: if_splits)
    let ?nb = "rev (word_le_bytes k (of_nat (length c) :: u64))"
    have u: "unat (of_nat (length c) :: u64) = length c" using length_ok_32 [OF ok] by (intro unat_of_nat_u64) simp
    have "length c < 2 ^ (8 * k)" using k(3) by (simp add: power_mult)
    then have n: "be_nat ?nb = length c" using be_nat_le_bytes [of k "of_nat (length c)"] k u by simp
    have nb: "?nb \<noteq> []" "length ?nb = k" using k(1) by (simp_all add: word_le_bytes_Nil)
    have hd: "hd ?nb = 0 \<longleftrightarrow> length c < 256 ^ (k - 1)" using be_nat_hd [OF nb(1)] unfolding nb(2) n by linarith
    have b: "cbs_bytes cbs = tag_octets tag @ of_nat (128 + k) # ?nb @ c @ rest" using bytes k(1) by (simp add: length_form_def)
    have b128: "unat (of_nat (128 + k) :: byte) = 128 + k" using k by (intro unat_of_nat_byte) simp
    have "hd (?nb @ c @ rest) = hd ?nb" "take k (?nb @ c @ rest) = ?nb" using nb by simp_all
    then have "\<exists>e. cbs_get_any_asn1_element cbs ?e False = Some (False, cbs, e)"
      using element_after_tag [OF wf b, of ?e] k(4) n hd unfolding b128 by (simp add: Let_def)
    then show ?thesis using False by auto
  qed
  moreover have "(\<exists>x e. cbs_get_any_asn1_element cbs ?e False = Some (True, x, e)) \<longleftrightarrow> \<not> eo_ber_found eo'"
  proof
    assume "\<exists>x e. cbs_get_any_asn1_element cbs ?e False = Some (True, x, e)"
    then obtain x e where "cbs_get_any_asn1_element cbs eo True = Some (True, x, e) \<and> \<not> eo_ber_found e"
      unfolding ber_strict [symmetric] by blast
    then show "\<not> eo_ber_found eo'" using got by simp
  next
    assume "\<not> eo_ber_found eo'"
    then have "cbs_get_any_asn1_element cbs ?e False = Some (True, cbs', eo')" unfolding ber_strict [symmetric] using got by simp
    then show "\<exists>x e. cbs_get_any_asn1_element cbs ?e False = Some (True, x, e)" by blast
  qed
  ultimately show ?thesis by blast
qed

lemma indefinite_found:
  assumes "wf_cbs cbs" "cbs_bytes cbs = tag_octets tag @ 0x80 # rest"
    and "cbs_get_any_asn1_element cbs eo True = Some (True, cbs', eo')"
  shows "eo_ber_found eo'"
proof -
  have "unat (0x80 :: byte) = 128" by simp
  then have "\<exists>x. cbs_get_any_asn1_element cbs (eo\<lparr>eo_ber_found := False\<rparr>) False = Some (False, x)"
    using element_after_tag [OF assms(1,2), of "eo\<lparr>eo_ber_found := False\<rparr>"] by (simp add: Let_def)
  then show ?thesis using ber_strict [of cbs eo cbs' eo'] assms(3) by auto
qed

text \<open>Elements whose own header is not distinguished.\<close>

fun liberty :: "ber_tree \<Rightarrow> bool" where
  "liberty (Fixed tag k c) \<longleftrightarrow> \<not> minimal_length k (length c)"
| "liberty (Nested tag l ts) \<longleftrightarrow> is_string_type tag \<or>
     (case l of Some k \<Rightarrow> \<not> minimal_length k (length (concat (map ber_bytes ts))) | None \<Rightarrow> True)"

text \<open>What the search reports: the liberties of the elements side by side, and those inside of the last one only.\<close>

fun reported :: "ber_tree list \<Rightarrow> bool" where
  "reported [] = False"
| "reported [Fixed tag k c] = liberty (Fixed tag k c)"
| "reported [Nested tag l us] = (liberty (Nested tag l us) \<or> reported us)"
| "reported (t # u # us) = (liberty t \<or> reported (u # us))"

text \<open>The element of a tree with a definite length, as the parser delivers it.\<close>

lemma definite_element:
  assumes wf: "wf_cbs inp" and ok: "length_ok k (length c)"
    and bytes: "cbs_bytes inp = (tag_octets tag @ length_form k (length c)) @ c @ rest"
  obtains eo' view where "CBS_get_any_ber_asn1_element inp eo =
      Some (True, cbs_drop (length (tag_octets tag @ length_form k (length c)) + length c) inp, eo')"
    "eo_tag eo' = tag" "eo_ber_found eo' \<longleftrightarrow> \<not> minimal_length k (length c)"
    "CBS_skip (eo_out eo') (eo_header_len eo') = Some (True, view)" "wf_cbs view" "cbs_bytes view = c"
proof -
  let ?h = "tag_octets tag @ length_form k (length c)"
  have hl: "0 < length ?h" "length ?h + length c \<le> length (cbs_bytes inp)" using bytes by simp_all
  obtain eo' where eo: "cbs_get_any_asn1_element inp eo True = Some (True, cbs_drop (length ?h + length c) inp, eo')"
    "eo_tag eo' = tag" "eo_header_len eo' = of_nat (length ?h)" "eo_out eo' = CBS_init (cbs_data inp) (of_nat (length ?h + length c))"
    using ber_definite [OF wf ok bytes, of eo] unfolding found_def by blast
  obtain view where v: "CBS_skip (eo_out eo') (eo_header_len eo') = Some (True, view)" "wf_cbs view"
    "cbs_bytes view = take (length c) (drop (length ?h) (cbs_bytes inp))"
    using found_parts(4) [OF wf hl] unfolding eo(3,4) by blast
  have "cbs_bytes view = c" using v(3) bytes by simp
  moreover have "eo_ber_found eo' \<longleftrightarrow> \<not> minimal_length k (length c)" by (rule definite_found [OF wf ok bytes eo(1)])
  ultimately show ?thesis using that [of eo' view] eo v by (simp add: CBS_get_any_ber_asn1_element_def)
qed

lemma reported_Cons: "reported (t # us) \<longleftrightarrow> liberty t \<or> (if us = [] then (case t of Nested tag l vs \<Rightarrow> reported vs | _ \<Rightarrow> False) else reported us)"
  by (cases us; cases t) simp_all

lemma ber_bytes_not_Nil: "ber_bytes t \<noteq> []"
  using tag_octets_not_Nil by (cases t rule: ber_bytes.cases) simp_all

lemma find_ber_loop_eq:
  "wf_cbs inp \<Longrightarrow> cbs_bytes inp = concat (map ber_bytes ts) \<Longrightarrow> list_all (wf_ber s) ts \<Longrightarrow> list_all (within m) ts \<Longrightarrow>
     unat d + m \<le> 2048 \<Longrightarrow> length (cbs_bytes inp) < n \<Longrightarrow>
     find_ber_loop n inp d f = Some (True, if ts = [] then f else reported ts)"
proof (induction n arbitrary: inp ts s m d f)
  case (Suc n)
  show ?case
  proof (cases ts)
    case Nil
    then have "CBS_len inp = 0" using Suc.prems(1,2) CBS_len_0 [of inp] by simp
    then show ?thesis using Nil by simp
  next
    case (Cons t us)
    let ?eo = "(no_element (CBS_init [] 0))\<lparr>eo_ber_found := f\<rparr>" and ?inp1 = "cbs_drop (length (ber_bytes t)) inp"
    have b: "cbs_bytes inp = ber_bytes t @ concat (map ber_bytes us)" using Suc.prems(2) Cons by simp
    have pos: "CBS_len inp > 0" using Suc.prems(1) b ber_bytes_not_Nil [of t] CBS_len_0 [of inp] by (simp add: word_neq_0_conv)
    have i1: "wf_cbs ?inp1" "cbs_bytes ?inp1 = concat (map ber_bytes us)" using Suc.prems(1) b by simp_all
    have sh: "length (cbs_bytes ?inp1) < n"
      using Suc.prems(6) i1(2) b ber_bytes_not_Nil [of t] by (cases "ber_bytes t") simp_all
    have t: "wf_ber s t" "within m t" and us: "list_all (wf_ber s) us" "list_all (within m) us" using Suc.prems(3,4) Cons by simp_all
    have ih: "find_ber_loop n ?inp1 d g = Some (True, if us = [] then g else reported us)" for g
      by (rule Suc.IH [OF i1 us Suc.prems(5) sh])
    show ?thesis
    proof (cases t)
      case (Fixed tag k c)
      have bytes: "cbs_bytes inp = (tag_octets tag @ length_form k (length c)) @ c @ concat (map ber_bytes us)" using b Fixed by simp
      have ok: "length_ok k (length c)" and tag: "tag AND CBS_ASN1_CONSTRUCTED = 0" using t(1) Fixed by simp_all
      have bl: "length (tag_octets tag @ length_form k (length c)) + length c = length (ber_bytes t)" using Fixed by simp
      obtain eo' view where e: "CBS_get_any_ber_asn1_element inp ?eo = Some (True, ?inp1, eo')" "eo_tag eo' = tag"
        "eo_ber_found eo' \<longleftrightarrow> \<not> minimal_length k (length c)"
        using definite_element [OF Suc.prems(1) ok bytes, of ?eo] unfolding bl by metis
      show ?thesis using pos e tag ih [of False] Cons Fixed
        by (cases "minimal_length k (length c)") (simp_all add: reported_Cons)
    next
      case (Nested tag l vs)
      have tag: "tag AND CBS_ASN1_CONSTRUCTED \<noteq> 0" using t(1) Nested by simp
      show ?thesis
      proof (cases l)
        case None
        have bytes: "cbs_bytes inp = tag_octets tag @ 0x80 # concat (map ber_bytes vs) @ [0, 0] @ concat (map ber_bytes us)"
          using b Nested None by simp
        obtain inp' eo' where e: "CBS_get_any_ber_asn1_element inp ?eo = Some (True, inp', eo')"
          using ber_indefinite [OF Suc.prems(1) tag bytes, of ?eo] unfolding found_def CBS_get_any_ber_asn1_element_def by blast
        then have "eo_ber_found eo'" using indefinite_found [OF Suc.prems(1) bytes, of ?eo inp' eo'] unfolding CBS_get_any_ber_asn1_element_def by blast
        then show ?thesis using pos e Cons Nested None by (simp add: reported_Cons)
      next
        case (Some k)
        let ?kids = "concat (map ber_bytes vs)"
        have bytes: "cbs_bytes inp = (tag_octets tag @ length_form k (length ?kids)) @ ?kids @ concat (map ber_bytes us)" using b Nested Some by simp
        have ok: "length_ok k (length ?kids)" using t(1) Nested Some by simp
        have bl: "length (tag_octets tag @ length_form k (length ?kids)) + length ?kids = length (ber_bytes t)" using Nested Some by simp
        obtain eo' view where e: "CBS_get_any_ber_asn1_element inp ?eo = Some (True, ?inp1, eo')" "eo_tag eo' = tag"
          "eo_ber_found eo' \<longleftrightarrow> \<not> minimal_length k (length ?kids)" "CBS_skip (eo_out eo') (eo_header_len eo') = Some (True, view)"
          "wf_cbs view" "cbs_bytes view = ?kids"
          using definite_element [OF Suc.prems(1) ok bytes, of ?eo] unfolding bl by metis
        obtain j where j: "m = Suc j" "list_all (within j) vs" using t(2) Nested by (auto split: nat.splits)
        have d: "unat (d + 1) + j \<le> 2048" using Suc.prems(5) j(1) by (intro depth_Suc) simp
        then have "\<not> d + 1 > kMaxDepth" by (simp add: kMaxDepth_def word_less_nat_alt)
        moreover have "length (cbs_bytes view) < n"
          using Suc.prems(6) e(6) tag_octets_not_Nil [of tag] unfolding bytes by (cases "tag_octets tag") simp_all
        then have "find_ber_loop n view (d + 1) False = Some (True, reported vs)"
          using Suc.IH [OF e(5,6) _ j(2) d, of "fragment_tag s tag" False] t(1) Nested by (cases vs) simp_all
        ultimately show ?thesis using pos e tag ih [of "reported vs"] Cons Nested Some
          by (cases "minimal_length k (length ?kids)"; cases "is_string_type tag") (simp_all add: reported_Cons)
      qed
    qed
  qed
qed simp

lemma cbs_find_ber_eq:
  assumes "wf_cbs inp" "cbs_bytes inp = concat (map ber_bytes ts)" "list_all (wf_ber s) ts" "list_all (within 2048) ts"
  shows "cbs_find_ber inp f 0 = Some (True, reported ts)"
proof -
  have n: "unat (CBS_len inp) = length (cbs_bytes inp)" using length_cbs_bytes [OF assms(1)] by (simp add: CBS_len_def)
  have i: "CBS_init (CBS_data inp) (CBS_len inp) = inp" by (simp add: CBS_init_def CBS_data_def CBS_len_def)
  have "find_ber_loop (Suc (unat (CBS_len inp))) inp 0 False = Some (True, if ts = [] then False else reported ts)"
    by (rule find_ber_loop_eq [OF assms]) (simp_all add: n)
  then show ?thesis unfolding cbs_find_ber_def i by (cases "ts = []") (simp_all add: kMaxDepth_def)
qed

text \<open>Without liberties the basic encoding is the distinguished one.\<close>

fun strict :: "ber_tree \<Rightarrow> bool" where
  "strict (Fixed tag k c) \<longleftrightarrow> \<not> liberty (Fixed tag k c)"
| "strict (Nested tag l ts) \<longleftrightarrow> \<not> liberty (Nested tag l ts) \<and> list_all strict ts"

lemma strict_bytes: "wf_ber s t \<Longrightarrow> strict t \<Longrightarrow> ber_bytes t = der_bytes (to_der t)"
proof (induction t arbitrary: s)
  case (Fixed tag k c)
  then show ?case using minimal_length_octets [of k "length c"] by (simp add: der_element_def der_header_def)
next
  case (Nested tag l ts)
  then obtain k where k: "l = Some k" "minimal_length k (length (concat (map ber_bytes ts)))" "\<not> is_string_type tag"
    by (cases l) simp_all
  have "map ber_bytes ts = map (der_bytes \<circ> to_der) ts"
    using Nested by (auto simp: list_all_iff)
  then have "concat (map ber_bytes ts) = concat (map der_bytes (map to_der ts))" by (simp only: map_map)
  moreover have "length_ok k (length (concat (map ber_bytes ts)))" using Nested.prems(1) k(1) by simp
  ultimately show ?case using k minimal_length_octets [of k "length (concat (map ber_bytes ts))"]
    by (simp add: der_element_def der_header_def)
qed

lemma strict_liberty: "strict t \<Longrightarrow> \<not> liberty t"
  by (cases t) simp_all

lemma strict_unreported: "list_all strict ts \<Longrightarrow> \<not> reported ts"
  by (induction ts rule: reported.induct) (simp_all add: strict_liberty)

text \<open>An indefinite length inside of an element that another one follows: the search overlooks it.\<close>

definition overlooked :: ber_tree where
  "overlooked = Nested 0x20000010 (Some 0) [Nested 0x20000010 (Some 0) [Nested 0x20000010 None []], Fixed 2 0 [5]]"

lemma overlooked_ber: "wf_ber 0 overlooked" "wf_tree (to_der overlooked)" "within 2048 overlooked" "\<not> reported [overlooked]"
  "ber_bytes overlooked = [0x30, 0x09, 0x30, 0x04, 0x30, 0x80, 0, 0, 0x02, 0x01, 0x05]"
  "der_bytes (to_der overlooked) = [0x30, 0x07, 0x30, 0x02, 0x30, 0x00, 0x02, 0x01, 0x05]"
  by (simp_all add: overlooked_def CBS_ASN1_CONSTRUCTED_def CBS_ASN1_TAG_SHIFT_def length_ok_def length_form_def tag_octets_def
      is_string_type_def fragment_tag_def CBS_ASN1_OCTETSTRING_def der_element_def der_header_def length_octets_def minimal_length_def)

text \<open>The conversion, from the search to the finished buffer.\<close>

lemma ber_to_der_convert:
  assumes inp: "wf_cbs inp" "cbs_bytes inp = concat (map ber_bytes ts)"
    and ts: "list_all (wf_ber 0) ts" "list_all (\<lambda>t. wf_tree (to_der t)) ts" "list_all (within 2048) ts" "reported ts"
  shows "\<exists>ok inp' out' storage' st'. CBS_asn1_ber_to_der env inp out storage st = Some ((ok, inp', out', storage'), st') \<and>
    (if ok then cbs_bytes inp' = [] \<and> cbs_bytes out' = concat (map der_bytes (map to_der ts)) \<and> storage' \<noteq> None
     else \<not> ((\<forall>s. env_avail env s) \<and> length (cbs_bytes inp) < 2 ^ 62 \<and> length (concat (map der_bytes (map to_der ts))) < 2 ^ 61))"
proof -
  let ?st = "st\<lparr>st_cbbs := st_cbbs st @ [zero_cbb]\<rparr>" and ?c = "length (st_cbbs st)" and ?bs = "concat (map der_bytes (map to_der ts))"
  let ?stop = "cbs_drop (length (cbs_bytes inp)) inp"
  have n: "unat (CBS_len inp) = length (cbs_bytes inp)" using length_cbs_bytes [OF inp(1)] by (simp add: CBS_len_def)
  have c: "?c < length (st_cbbs ?st)" by simp
  have e: "cbs_bytes ?stop = []" using inp(1) by simp
  show ?thesis
  proof (cases rule: CBB_init_spec [OF c, of env "CBS_len inp"])
    case 1
    have "\<exists>st'. CBB_cleanup ?c (set_cbb ?c zero_cbb ?st) = Some st'"
      using c by (intro CBB_cleanup_returns [of _ _ zero_cbb]) (simp_all add: zero_cbb_def)
    then obtain st' where "CBS_asn1_ber_to_der env inp out storage st = Some ((False, inp, out, storage), st')"
      using 1(1) by (auto simp: CBS_asn1_ber_to_der_def with_cbb_def cbs_find_ber_eq [OF inp ts(1,3)] ts(4))
    moreover have "\<not> ((\<forall>s. env_avail env s) \<and> length (cbs_bytes inp) < 2 ^ 62 \<and> length ?bs < 2 ^ 61)"
      using 1(2) n by auto
    ultimately show ?thesis by (intro exI [of _ False]) simp
  next
    case (2 st1 base)
    let ?b = "length (st_bases ?st)"
    note conv = cbs_convert_ber_appends [OF inp ts(1-3)]
    have "appended env ?b ?bs st1 base (ok_of (cbs_convert_ber env inp ?c 0 False 0 st1))"
      using conv(1) [of env ?c ?b] 2(2) unfolding appends_def by blast
    then show ?thesis
    proof (cases rule: appended_cases)
      case (ok base')
      let ?st2 = "set_base ?b base' st1"
      obtain x where x: "cbs_convert_ber env inp ?c 0 False 0 st1 = Some ((True, x), ?st2)"
        using ok(1) by (auto simp: ok_of_def)
      then have "x = ?stop" using conv(2) [of env ?c] unfolding ends_at_def by blast
      have i: "idle ?st2 ?c ?b base'" using 2(2) ok(2) by (intro idle_set_base) (simp_all add: grown_def)
      have k: "get_cbb ?st2 ?c = Some (zero_cbb\<lparr>cbb_base := Some ?b\<rparr>)" using 2(3) by simp
      obtain der st3 where f: "CBB_finish ?c True True env ?st2 = Some (True, der, bb_len base', st3)"
        "take (unat (bb_len base')) der = content base'"
        using CBB_finish_idle [OF i k, of env] by (auto simp: zero_cbb_def)
      have "cbs_bytes (CBS_init der (bb_len base')) = ?bs"
        using f(2) ok(2) 2(7) by (simp add: cbs_bytes_def CBS_init_def grown_def)
      then show ?thesis using 2(1) x \<open>x = ?stop\<close> f(1) e
        by (intro exI [of _ True]) (simp add: CBS_asn1_ber_to_der_def with_cbb_def cbs_find_ber_eq [OF inp ts(1,3)] ts(4))
    next
      case (failed st2)
      obtain x where x: "cbs_convert_ber env inp ?c 0 False 0 st1 = Some ((False, x), st2)"
        using failed(1) by (auto simp: ok_of_def)
      obtain st3 where "CBB_cleanup ?c st2 = Some st3" using broken_cleanup [OF 2(2) failed(2)] by blast
      moreover have "\<not> ((\<forall>s. env_avail env s) \<and> length (cbs_bytes inp) < 2 ^ 62 \<and> length ?bs < 2 ^ 61)"
        using failed(3) 2(6-8) n by (simp add: ample_def)
      ultimately show ?thesis using 2(1) x
        by (intro exI [of _ False]) (simp add: CBS_asn1_ber_to_der_def with_cbb_def cbs_find_ber_eq [OF inp ts(1,3)] ts(4))
    qed
  qed
qed

lemma ber_to_der_keep:
  assumes inp: "wf_cbs inp" "cbs_bytes inp = ber_bytes t" and t: "wf_ber 0 t" "within 2048 t" "\<not> reported [t]"
  shows "\<exists>out' st'. CBS_asn1_ber_to_der env inp out storage st = Some ((True, cbs_drop (length (cbs_bytes inp)) inp, out', None), st') \<and>
    cbs_bytes out' = ber_bytes t"
proof -
  have lib: "\<not> liberty t" using t(3) by (simp add: reported_Cons)
  have "\<exists>tag c. length c < 2 ^ 32 \<and> ber_bytes t = der_element tag c"
  proof (cases t)
    case (Fixed tag k c)
    then show ?thesis using t(1) lib minimal_length_octets [of k "length c"] length_ok_32 [of k "length c"]
      by (intro exI [of _ tag] exI [of _ c]) (simp add: der_element_def der_header_def)
  next
    case (Nested tag l ts)
    then obtain k where k: "l = Some k" "minimal_length k (length (concat (map ber_bytes ts)))" using lib by (cases l) simp_all
    then show ?thesis using t(1) Nested minimal_length_octets [of k "length (concat (map ber_bytes ts))"]
        length_ok_32 [of k "length (concat (map ber_bytes ts))"]
      by (intro exI [of _ tag] exI [of _ "concat (map ber_bytes ts)"]) (simp add: der_element_def der_header_def)
  qed
  then obtain tag c where c: "length c < 2 ^ 32" "ber_bytes t = der_element tag c" by blast
  let ?n = "length (cbs_bytes inp)"
  have b: "cbs_bytes inp = der_element tag c @ []" using inp(2) c(2) by simp
  obtain eo where eo: "CBS_get_any_asn1_element inp (no_element out) = Some (True, cbs_drop ?n inp, eo)"
    "eo_out eo = CBS_init (cbs_data inp) (of_nat ?n)"
    using der_reads [OF inp(1) c(1) b, of "no_element out"] b by (simp add: CBS_get_any_asn1_element_def)
  have u: "unat (of_nat ?n :: u64) = ?n" using cbs_bytes_short [OF inp(1)] by (intro unat_of_nat_u64)
  have "cbs_bytes (eo_out eo) = ber_bytes t" using cbs_init_view [OF inp(1), of "of_nat ?n"] u inp(2) by (simp add: eo(2))
  moreover have "cbs_bytes inp = concat (map ber_bytes [t])" "list_all (wf_ber 0) [t]" "list_all (within 2048) [t]" using inp(2) t by simp_all
  note search = cbs_find_ber_eq [OF inp(1) this, of False]
  ultimately show ?thesis using eo(1) t(3) by (simp add: CBS_asn1_ber_to_der_def with_cbb_def search)
qed

lemma wf_tree_small: "wf_tree t \<Longrightarrow> length (der_bytes t) < 2 ^ 61"
proof (cases t)
  case (Primitive tag c)
  then show "wf_tree t \<Longrightarrow> ?thesis" using der_element_small [of c tag] by simp
next
  case (Constructed tag ts)
  then show "wf_tree t \<Longrightarrow> ?thesis" using der_element_small [of "concat (map der_bytes ts)" tag] by simp
qed

lemma ber_overlooked:
  "\<exists>out' st'. CBS_asn1_ber_to_der env (CBS_init (ber_bytes overlooked) 11) out storage st =
      Some ((True, CBS_init [] 0, out', None), st') \<and> cbs_bytes out' = ber_bytes overlooked \<and> ber_bytes overlooked \<noteq> der_bytes (to_der overlooked)"
proof -
  have i: "wf_cbs (CBS_init (ber_bytes overlooked) 11)" "cbs_bytes (CBS_init (ber_bytes overlooked) 11) = ber_bytes overlooked"
    by (simp_all add: wf_cbs_def cbs_bytes_def CBS_init_def overlooked_ber(5))
  have "cbs_drop (length (cbs_bytes (CBS_init (ber_bytes overlooked) 11))) (CBS_init (ber_bytes overlooked) 11) = CBS_init [] 0"
    unfolding i(2) by (simp add: overlooked_ber(5) cbs_drop_def CBS_init_def)
  then show ?thesis using ber_to_der_keep [OF i overlooked_ber(1,3,4), of env out storage st]
    by (simp add: overlooked_ber(5,6))
qed

text \<open>C7: what \<open>CBS_asn1_ber_to_der\<close> makes of an element in the basic encoding, with lengths of any form, indefinite or not, and
  strings in fragments, however nested up to the limit of 2048 levels.  It is never undefined.  Where its search reports
  a liberty, the result is the distinguished encoding of the same value, each string in one piece, unless memory runs out;
  otherwise the element is returned as it stands.  An element without liberties is never reported, and it is its own
  distinguished encoding; but the search reports liberties inside of an element only if no other element
  follows it.\<close>

theorem ber_to_der_exact:
  assumes "wf_cbs inp" "cbs_bytes inp = ber_bytes t" "wf_ber 0 t" "wf_tree (to_der t)" "within 2048 t"
  shows "\<exists>ok inp' out' storage' st'. CBS_asn1_ber_to_der env inp out storage st = Some ((ok, inp', out', storage'), st') \<and>
    (if reported [t]
     then if ok then cbs_bytes inp' = [] \<and> cbs_bytes out' = der_bytes (to_der t) \<and> storage' \<noteq> None
          else \<not> ((\<forall>s. env_avail env s) \<and> length (ber_bytes t) < 2 ^ 62)
     else ok \<and> cbs_bytes inp' = [] \<and> cbs_bytes out' = ber_bytes t \<and> storage' = None) \<and>
    (strict t \<longrightarrow> \<not> reported [t] \<and> ber_bytes t = der_bytes (to_der t))"
proof -
  have s: "strict t \<longrightarrow> \<not> reported [t] \<and> ber_bytes t = der_bytes (to_der t)"
    using strict_bytes [OF assms(3)] strict_unreported [of "[t]"] by simp
  show ?thesis
  proof (cases "reported [t]")
    case True
    have "cbs_bytes inp = concat (map ber_bytes [t])" "list_all (wf_ber 0) [t]" "list_all (\<lambda>t. wf_tree (to_der t)) [t]" "list_all (within 2048) [t]"
      using assms(2-5) by simp_all
    from ber_to_der_convert [OF assms(1) this True, of env out storage st] obtain ok inp' out' storage' st'
      where "CBS_asn1_ber_to_der env inp out storage st = Some ((ok, inp', out', storage'), st')"
        "if ok then cbs_bytes inp' = [] \<and> cbs_bytes out' = concat (map der_bytes (map to_der [t])) \<and> storage' \<noteq> None
         else \<not> ((\<forall>s. env_avail env s) \<and> length (cbs_bytes inp) < 2 ^ 62 \<and> length (concat (map der_bytes (map to_der [t]))) < 2 ^ 61)"
      by blast
    then show ?thesis using s True wf_tree_small [OF assms(4)] assms(2)
      by - (rule exI [of _ ok], rule exI [of _ inp'], rule exI [of _ out'], rule exI [of _ storage'], rule exI [of _ st'], cases ok, auto)
  next
    case False
    then show ?thesis using ber_to_der_keep [OF assms(1,2,3,5) False, of env out storage st] s assms(1) by auto
  qed
qed

definition fragments :: ber_tree where
  "fragments = Nested 0x20000004 None [Fixed 4 1 [5], Nested 0x20000004 (Some 0) [Fixed 4 0 [6]]]"

theorem ber_to_der_exact_witness:
  "let env = \<lparr>env_avail = \<lambda>s. True, env_junk = \<lambda>i. 7\<rparr>; inp = CBS_init [0x24, 0x80, 4, 0x81, 1, 5, 0x24, 3, 4, 1, 6, 0, 0] 13 in
    \<exists>inp' out' storage' st'. CBS_asn1_ber_to_der env inp (CBS_init [] 0) None \<lparr>st_cbbs = [], st_bases = []\<rparr> =
      Some ((True, inp', out', storage'), st') \<and> cbs_bytes out' = [4, 2, 5, 6]"
proof -
  have w: "word_le_bytes (Suc 0) (1 :: u64) = [1]" by (simp add: word_le_bytes_def)
  have f: "wf_ber 0 fragments" "wf_tree (to_der fragments)" "within 2048 fragments" "reported [fragments]"
    "ber_bytes fragments = [0x24, 0x80, 4, 0x81, 1, 5, 0x24, 3, 4, 1, 6, 0, 0]" "der_bytes (to_der fragments) = [4, 2, 5, 6]"
    by (simp_all add: fragments_def CBS_ASN1_CONSTRUCTED_def CBS_ASN1_TAG_SHIFT_def length_ok_def length_form_def tag_octets_def
        is_string_type_def fragment_tag_def CBS_ASN1_OCTETSTRING_def der_element_def der_header_def length_octets_def minimal_length_def w)
  have i: "wf_cbs (CBS_init (ber_bytes fragments) 13)" "cbs_bytes (CBS_init (ber_bytes fragments) 13) = ber_bytes fragments"
    by (simp_all add: wf_cbs_def cbs_bytes_def CBS_init_def f(5))
  show ?thesis
    using ber_to_der_exact [OF i f(1-3), of "\<lparr>env_avail = \<lambda>s. True, env_junk = \<lambda>i. 7\<rparr>" "CBS_init [] 0" None "\<lparr>st_cbbs = [], st_bases = []\<rparr>"]
    unfolding f(5,6) Let_def using f(4) by (auto split: if_splits)
qed

section \<open>The types of the parser\<close>

text \<open>Strings are parts of the input, a header is part of its element, and a failure consumes nothing.\<close>

definition typed :: "CBS \<Rightarrow> bool \<times> CBS \<times> element_out \<Rightarrow> bool" where
  "typed cbs r \<longleftrightarrow> (case r of (ok, cbs', eo) \<Rightarrow>
     if ok then wf_cbs cbs' \<and> wf_cbs (eo_out eo) \<and> cbs_bytes cbs = cbs_bytes (eo_out eo) @ cbs_bytes cbs' \<and>
       0 < unat (eo_header_len eo) \<and> unat (eo_header_len eo) \<le> length (cbs_bytes (eo_out eo))
     else cbs' = cbs)"

lemma typed_False [simp]: "typed cbs (False, cbs, eo)"
  by (simp add: typed_def)

lemma element_got_typed:
  assumes wf: "wf_cbs cbs" and hl: "0 < hl" "hl \<le> n"
  shows "\<exists>r. element_got cbs eo hl n = Some r \<and> typed cbs r"
proof (cases "n \<le> length (cbs_bytes cbs)")
  case True
  have s: "length (cbs_bytes cbs) < 2 ^ 64" by (rule cbs_bytes_short [OF wf])
  have u: "unat (of_nat n :: u64) = n" "unat (of_nat hl :: u64) = hl" using True hl s by (simp_all only: unat_of_nat_u64)
  have o: "wf_cbs (CBS_init (cbs_data cbs) (of_nat n))" "cbs_bytes (CBS_init (cbs_data cbs) (of_nat n)) = take n (cbs_bytes cbs)"
    using cbs_init_view [OF wf, of "of_nat n"] True u by simp_all
  show ?thesis using True wf hl o u by (simp add: element_got_def typed_def)
qed (simp add: element_got_def)

lemma long_form_typed:
  assumes wf: "wf_cbs cbs" "wf_cbs h" and k: "k < 128" and hl: "0 < hl" "hl < 2 ^ 48"
  shows "\<exists>r. long_form_element cbs h eo (of_nat hl) (of_nat k) True = Some r \<and> typed cbs r"
proof -
  have u: "unat (of_nat k :: u64) = k" using k by (intro unat_of_nat_u64) simp
  have c: "of_nat k = (0 :: u64) \<longleftrightarrow> k = 0" "of_nat k > (4 :: u64) \<longleftrightarrow> 4 < k" using u by (simp_all add: word_unat_eq_iff word_less_nat_alt)
  consider "k = 0" | "4 < k" | "1 \<le> k" "k \<le> 4" "length (cbs_bytes h) < k" | "1 \<le> k" "k \<le> 4" "k \<le> length (cbs_bytes h)" by linarith
  then show ?thesis
  proof cases
    case 1
    have e: "eo\<lparr>eo_header_len := of_nat hl, eo_ber_found := True\<rparr> = eo\<lparr>eo_ber_found := True, eo_header_len := of_nat hl\<rparr>" by simp
    have "hl < 2 ^ 64" using hl(2) by simp
    from get_element_eq [OF wf(1) this, where eo = "eo\<lparr>eo_ber_found := True\<rparr>" and hl = hl] show ?thesis
      using element_got_typed [OF wf(1) hl(1), of hl "eo\<lparr>eo_ber_found := True\<rparr>"] 1
      by (cases "eo_tag eo AND CBS_ASN1_CONSTRUCTED = 0") (simp_all add: long_form_element_def e)
  next
    case 2
    then show ?thesis using c by (simp add: long_form_element_def)
  next
    case 3
    then show ?thesis using c u cbs_get_u_eq [OF wf(2)] by (simp add: long_form_element_def)
  next
    case 4
    have b: "cbs_bytes h = take k (cbs_bytes h) @ drop k (cbs_bytes h)" "length (take k (cbs_bytes h)) = k" using 4 by simp_all
    obtain f where "long_form_element cbs h eo (of_nat hl) (of_nat k) True =
        element_got cbs (eo\<lparr>eo_ber_found := f\<rparr>) (hl + k) (hl + k + be_nat (take k (cbs_bytes h)))"
      using long_form_True [OF wf(2,1) 4(1,2) hl(2) b] by blast
    then show ?thesis using element_got_typed [OF wf(1), of "hl + k"] hl(1) by simp
  qed
qed

lemma after_tag_typed:
  assumes wf: "wf_cbs cbs" and b: "cbs_bytes cbs = tag_octets tag @ b # bs"
  shows "\<exists>r. cbs_get_any_asn1_element cbs eo ber_ok = Some r \<and> typed cbs r"
proof (cases ber_ok)
  case True
  note a = ber_after_tag [OF wf b]
  have k: "unat b - 128 < 128" using unat_byte_less [of b] by simp
  have h: "length (tag_octets tag) + 1 < 2 ^ 48" using a(1) by simp
  show ?thesis
  proof (cases "unat b < 128")
    case small: True
    then show ?thesis using True a(4) [of eo] element_got_typed [OF wf, of "length (tag_octets tag) + 1"] by simp
  next
    case False
    then show ?thesis using True a(4) [of eo] long_form_typed [OF wf a(2) k _ h] by simp
  qed
next
  case False
  then show ?thesis using element_after_tag [OF wf b, of eo] element_got_typed [OF wf]
    by (cases "unat b < 128") (simp_all add: Let_def ex_bool_eq)
qed

text \<open>C16: the parser of ASN.1 elements keeps the types of its results, for whatever bytes, strict or not: from a well-formed byte
  string it always returns (so it reads nothing outside); when it accepts, the element and the rest are well-formed
  byte strings that make up the input, and the header length it reports is positive and inside of the element, which
  is what its callers rely on when they skip the header; when it refuses, the input stays where it was.\<close>

theorem element_parser_typed:
  assumes "wf_cbs cbs"
  shows "\<exists>ok cbs' eo'. cbs_get_any_asn1_element cbs eo ber_ok = Some (ok, cbs', eo') \<and>
    (if ok then wf_cbs cbs' \<and> wf_cbs (eo_out eo') \<and> cbs_bytes cbs = cbs_bytes (eo_out eo') @ cbs_bytes cbs' \<and>
       0 < unat (eo_header_len eo') \<and> unat (eo_header_len eo') \<le> length (cbs_bytes (eo_out eo'))
     else cbs' = cbs)"
proof -
  obtain ok h tag where p: "parse_asn1_tag cbs 0 = Some (ok, h, tag)" using tag_reader.defined [OF assms, of 0] by auto
  have "\<exists>r. cbs_get_any_asn1_element cbs eo ber_ok = Some r \<and> typed cbs r"
  proof (cases ok)
    case False
    then show ?thesis by (simp add: cbs_get_any_asn1_element_def p Let_def)
  next
    case True
    then obtain rest where r: "cbs_bytes cbs = tag_octets tag @ rest" "h = cbs_drop (length (tag_octets tag)) cbs"
      using p tag_reader.exact [OF assms, of 0 h tag] by auto
    show ?thesis
    proof (cases rest)
      case Nil
      have "wf_cbs h" "cbs_bytes h = []" using r Nil assms by simp_all
      then show ?thesis using True by (simp add: cbs_get_any_asn1_element_def p Let_def CBS_get_u8_eq)
    next
      case (Cons b bs)
      then show ?thesis using after_tag_typed [OF assms] r(1) by simp
    qed
  qed
  then show ?thesis by (auto simp: typed_def)
qed

theorem element_parser_typed_witness:
  "\<exists>ok cbs' eo'. cbs_get_any_asn1_element (CBS_init [0x30, 0x84, 0xFF, 0xFF, 0xFF, 0xFF] 6) (no_element (CBS_init [] 0)) True = Some (ok, cbs', eo')"
proof -
  have w: "wf_cbs (CBS_init [0x30, 0x84, 0xFF, 0xFF, 0xFF, 0xFF] 6)" by (simp add: wf_cbs_def CBS_init_def)
  show ?thesis using element_parser_typed [OF w, of "no_element (CBS_init [] 0)" True] by blast
qed

end
