(* ===== verification/Lhash.thy ===== *)
theory Lhash
  imports Cbs
begin

text \<open>
  BoringSSL, \<^verbatim>\<open>ios/Pods/BoringSSL-GRPC/src/crypto/lhash/lhash.c\<close>: the hash table, chains of items that are linked by
  pointers, and its resizing.  The items live in a heap of their own: an \<open>LHASH_ITEM *\<close> is an index of
  \<open>lh_items\<close>, where a freed item is \<^term>\<open>None\<close>, and NULL is \<^term>\<open>None\<close> as a pointer.  The elements are pointers of the
  caller (0 is NULL); the hash and the comparison the table was made with, behind the helpers that
  call them, are the parameters \<open>hash_of\<close> and \<open>compare\<close> of the operations.
\<close>

section \<open>The table\<close>

definition kMinNumBuckets :: u64 where "kMinNumBuckets = 16"

definition kMaxAverageChainLength :: u64 where "kMaxAverageChainLength = 2"

definition kMinAverageChainLength :: u64 where "kMinAverageChainLength = 1"

record LHASH_ITEM =
  item_data :: addr
  item_next :: "nat option"
  item_hash :: u32

record LHASH =
  lh_num_items :: u64
  lh_buckets :: "nat option list"
  lh_num_buckets :: u64
  lh_callback_depth :: u32
  lh_items :: "LHASH_ITEM option list"

definition get_item :: "LHASH_ITEM option list \<Rightarrow> nat \<Rightarrow> LHASH_ITEM option" where
  "get_item items i = (if i < length items then items ! i else None)"

text \<open>The sizes are those of \<open>_LHASH\<close> and of an array of pointers.\<close>

definition OPENSSL_lh_new :: "(u64 \<Rightarrow> bool) \<Rightarrow> LHASH option" where
  "OPENSSL_lh_new avail =
     (if \<not> OPENSSL_malloc avail 48 then None
      else if \<not> OPENSSL_malloc avail (8 * kMinNumBuckets) then None
      else Some \<lparr>lh_num_items = 0, lh_buckets = replicate (unat kMinNumBuckets) None,
             lh_num_buckets = kMinNumBuckets, lh_callback_depth = 0, lh_items = []\<rparr>)"

text \<open>Freeing gives the heap of the items that are left.\<close>

partial_function (option) free_chain :: "nat option \<Rightarrow> LHASH_ITEM option list \<Rightarrow> LHASH_ITEM option list option" where
  "free_chain n items = (case n of
       None \<Rightarrow> Some items
     | Some i \<Rightarrow> do { item \<leftarrow> get_item items i; free_chain (item_next item) (items[i := None]) })"

declare free_chain.simps [code]

definition get_bucket :: "nat option list \<Rightarrow> nat \<Rightarrow> nat option option" where
  "get_bucket buckets b = (if b < length buckets then Some (buckets ! b) else None)"

fun free_buckets :: "nat \<Rightarrow> nat \<Rightarrow> nat option list \<Rightarrow> LHASH_ITEM option list \<Rightarrow> LHASH_ITEM option list option" where
  "free_buckets 0 i buckets items = Some items"
| "free_buckets (Suc n) i buckets items = do {
     p \<leftarrow> get_bucket buckets i;
     items \<leftarrow> free_chain p items;
     free_buckets n (Suc i) buckets items
   }"

definition OPENSSL_lh_free :: "LHASH option \<Rightarrow> LHASH_ITEM option list option" where
  "OPENSSL_lh_free lh = (case lh of
       None \<Rightarrow> Some []
     | Some lh \<Rightarrow> free_buckets (unat (lh_num_buckets lh)) 0 (lh_buckets lh) (lh_items lh))"

definition OPENSSL_lh_num_items :: "LHASH \<Rightarrow> u64" where
  "OPENSSL_lh_num_items lh = lh_num_items lh"

section \<open>Search\<close>

text \<open>An \<open>LHASH_ITEM **\<close> points to an element of the array or to the \<open>next\<close> member of an item.\<close>

datatype link = Bucket nat | Next nat

definition read_link :: "LHASH \<Rightarrow> link \<Rightarrow> nat option option" where
  "read_link lh l = (case l of
       Bucket b \<Rightarrow> get_bucket (lh_buckets lh) b
     | Next i \<Rightarrow> map_option item_next (get_item (lh_items lh) i))"

definition write_link :: "LHASH \<Rightarrow> link \<Rightarrow> nat option \<Rightarrow> LHASH option" where
  "write_link lh l p = (case l of
       Bucket b \<Rightarrow> if b < length (lh_buckets lh) then Some (lh\<lparr>lh_buckets := (lh_buckets lh)[b := p]\<rparr>) else None
     | Next i \<Rightarrow> do {
         item \<leftarrow> get_item (lh_items lh) i;
         Some (lh\<lparr>lh_items := (lh_items lh)[i := Some (item\<lparr>item_next := p\<rparr>)]\<rparr>)
       })"

partial_function (option) find_link :: "(addr \<Rightarrow> bool) \<Rightarrow> LHASH \<Rightarrow> link \<Rightarrow> link option" where
  "find_link equal lh ret = do {
     cur \<leftarrow> read_link lh ret;
     case cur of
       None \<Rightarrow> Some ret
     | Some i \<Rightarrow> do {
         item \<leftarrow> get_item (lh_items lh) i;
         if equal (item_data item) then Some ret else find_link equal lh (Next i)
       }
   }"

declare find_link.simps [code]

definition bucket_of :: "u32 \<Rightarrow> u64 \<Rightarrow> nat option" where
  "bucket_of hash num_buckets = (if num_buckets = 0 then None else Some (unat (ucast hash mod num_buckets)))"

definition get_next_ptr_and_hash :: "LHASH \<Rightarrow> addr \<Rightarrow> (addr \<Rightarrow> u32) \<Rightarrow> (addr \<Rightarrow> addr \<Rightarrow> int) \<Rightarrow> (link \<times> u32) option" where
  "get_next_ptr_and_hash lh data hash_of compare = do {
     let hash = hash_of data;
     b \<leftarrow> bucket_of hash (lh_num_buckets lh);
     ret \<leftarrow> find_link (\<lambda>e. compare e data = 0) lh (Bucket b);
     Some (ret, hash)
   }"

definition get_next_ptr_by_key :: "LHASH \<Rightarrow> 'k \<Rightarrow> u32 \<Rightarrow> ('k \<Rightarrow> addr \<Rightarrow> int) \<Rightarrow> link option" where
  "get_next_ptr_by_key lh key key_hash cmp_key = do {
     b \<leftarrow> bucket_of key_hash (lh_num_buckets lh);
     find_link (\<lambda>e. cmp_key key e = 0) lh (Bucket b)
   }"

text \<open>\<open>*next_ptr == NULL ? NULL : (*next_ptr)->data\<close>\<close>

definition link_data :: "LHASH \<Rightarrow> link \<Rightarrow> addr option" where
  "link_data lh next_ptr = do {
     p \<leftarrow> read_link lh next_ptr;
     case p of None \<Rightarrow> Some 0 | Some i \<Rightarrow> map_option item_data (get_item (lh_items lh) i)
   }"

definition OPENSSL_lh_retrieve :: "LHASH \<Rightarrow> addr \<Rightarrow> (addr \<Rightarrow> u32) \<Rightarrow> (addr \<Rightarrow> addr \<Rightarrow> int) \<Rightarrow> addr option" where
  "OPENSSL_lh_retrieve lh data hash_of compare = do {
     (next_ptr, hash) \<leftarrow> get_next_ptr_and_hash lh data hash_of compare;
     link_data lh next_ptr
   }"

definition OPENSSL_lh_retrieve_key :: "LHASH \<Rightarrow> 'k \<Rightarrow> u32 \<Rightarrow> ('k \<Rightarrow> addr \<Rightarrow> int) \<Rightarrow> addr option" where
  "OPENSSL_lh_retrieve_key lh key key_hash cmp_key = do {
     next_ptr \<leftarrow> get_next_ptr_by_key lh key key_hash cmp_key;
     link_data lh next_ptr
   }"

section \<open>Resizing\<close>

text \<open>The inner loop of \<open>lh_rebucket\<close> moves the items of a chain to the front of their new chains.\<close>

partial_function (option) move_chain ::
  "u64 \<Rightarrow> nat option \<Rightarrow> LHASH_ITEM option list \<Rightarrow> nat option list \<Rightarrow> (LHASH_ITEM option list \<times> nat option list) option" where
  "move_chain new_num_buckets cur items new_buckets = (case cur of
       None \<Rightarrow> Some (items, new_buckets)
     | Some i \<Rightarrow> do {
         item \<leftarrow> get_item items i;
         new_bucket \<leftarrow> bucket_of (item_hash item) new_num_buckets;
         p \<leftarrow> get_bucket new_buckets new_bucket;
         move_chain new_num_buckets (item_next item)
           (items[i := Some (item\<lparr>item_next := p\<rparr>)]) (new_buckets[new_bucket := Some i])
       })"

declare move_chain.simps [code]

fun move_buckets ::
  "u64 \<Rightarrow> nat \<Rightarrow> nat \<Rightarrow> nat option list \<Rightarrow> LHASH_ITEM option list \<Rightarrow> nat option list \<Rightarrow>
     (LHASH_ITEM option list \<times> nat option list) option" where
  "move_buckets new_num_buckets 0 i buckets items new_buckets = Some (items, new_buckets)"
| "move_buckets new_num_buckets (Suc n) i buckets items new_buckets = do {
     p \<leftarrow> get_bucket buckets i;
     (items, new_buckets) \<leftarrow> move_chain new_num_buckets p items new_buckets;
     move_buckets new_num_buckets n (Suc i) buckets items new_buckets
   }"

definition lh_rebucket :: "(u64 \<Rightarrow> bool) \<Rightarrow> LHASH \<Rightarrow> u64 \<Rightarrow> LHASH option" where
  "lh_rebucket avail lh new_num_buckets =
     (let alloc_size = 8 * new_num_buckets in
      if alloc_size div 8 \<noteq> new_num_buckets then Some lh
      else if \<not> OPENSSL_malloc avail alloc_size then Some lh
      else do {
        (items, new_buckets) \<leftarrow> move_buckets new_num_buckets (unat (lh_num_buckets lh)) 0 (lh_buckets lh) (lh_items lh)
          (replicate (unat new_num_buckets) None);
        Some (lh\<lparr>lh_items := items, lh_num_buckets := new_num_buckets, lh_buckets := new_buckets\<rparr>)
      })"

definition lh_maybe_resize :: "(u64 \<Rightarrow> bool) \<Rightarrow> LHASH \<Rightarrow> LHASH option" where
  "lh_maybe_resize avail lh =
     (if lh_callback_depth lh > 0 then Some lh
      else if lh_num_buckets lh = 0 then None
      else
        let avg_chain_length = lh_num_items lh div lh_num_buckets lh in
        if avg_chain_length > kMaxAverageChainLength then
          let new_num_buckets = lh_num_buckets lh * 2 in
          if new_num_buckets > lh_num_buckets lh then lh_rebucket avail lh new_num_buckets else Some lh
        else if avg_chain_length < kMinAverageChainLength \<and> lh_num_buckets lh > kMinNumBuckets then
          let new_num_buckets = lh_num_buckets lh div 2 in
          lh_rebucket avail lh (if new_num_buckets < kMinNumBuckets then kMinNumBuckets else new_num_buckets)
        else Some lh)"

section \<open>Operations\<close>

text \<open>The result of \<open>OPENSSL_lh_insert\<close> is its return value, \<open>*old_data\<close> and the table; 24 is the size of an item.\<close>

definition OPENSSL_lh_insert ::
  "(u64 \<Rightarrow> bool) \<Rightarrow> LHASH \<Rightarrow> addr \<Rightarrow> (addr \<Rightarrow> u32) \<Rightarrow> (addr \<Rightarrow> addr \<Rightarrow> int) \<Rightarrow> (bool \<times> addr \<times> LHASH) option" where
  "OPENSSL_lh_insert avail lh data hash_of compare = do {
     (next_ptr, hash) \<leftarrow> get_next_ptr_and_hash lh data hash_of compare;
     p \<leftarrow> read_link lh next_ptr;
     case p of
       Some i \<Rightarrow> do {
         item \<leftarrow> get_item (lh_items lh) i;
         Some (True, item_data item, lh\<lparr>lh_items := (lh_items lh)[i := Some (item\<lparr>item_data := data\<rparr>)]\<rparr>)
       }
     | None \<Rightarrow>
         if \<not> OPENSSL_malloc avail 24 then Some (False, 0, lh)
         else do {
           let i = length (lh_items lh);
           let item = \<lparr>item_data = data, item_next = None, item_hash = hash\<rparr>;
           lh \<leftarrow> write_link (lh\<lparr>lh_items := lh_items lh @ [Some item]\<rparr>) next_ptr (Some i);
           lh \<leftarrow> lh_maybe_resize avail (lh\<lparr>lh_num_items := lh_num_items lh + 1\<rparr>);
           Some (True, 0, lh)
         }
   }"

definition OPENSSL_lh_delete ::
  "(u64 \<Rightarrow> bool) \<Rightarrow> LHASH \<Rightarrow> addr \<Rightarrow> (addr \<Rightarrow> u32) \<Rightarrow> (addr \<Rightarrow> addr \<Rightarrow> int) \<Rightarrow> (addr \<times> LHASH) option" where
  "OPENSSL_lh_delete avail lh data hash_of compare = do {
     (next_ptr, hash) \<leftarrow> get_next_ptr_and_hash lh data hash_of compare;
     p \<leftarrow> read_link lh next_ptr;
     case p of
       None \<Rightarrow> Some (0, lh)
     | Some i \<Rightarrow> do {
         item \<leftarrow> get_item (lh_items lh) i;
         lh \<leftarrow> write_link lh next_ptr (item_next item);
         let lh = lh\<lparr>lh_items := (lh_items lh)[i := None], lh_num_items := lh_num_items lh - 1\<rparr>;
         lh \<leftarrow> lh_maybe_resize avail lh;
         Some (item_data item, lh)
       }
   }"

section \<open>Iteration\<close>

text \<open>
  The callback works on the table and on what \<open>arg\<close> points to; \<open>next\<close> is read before it is called.
\<close>

type_synonym 's lh_func = "addr \<Rightarrow> LHASH \<times> 's \<Rightarrow> (LHASH \<times> 's) option"

partial_function (option) doall_chain :: "'s lh_func \<Rightarrow> nat option \<Rightarrow> LHASH \<times> 's \<Rightarrow> (LHASH \<times> 's) option" where
  "doall_chain func cur st = (case cur of
       None \<Rightarrow> Some st
     | Some i \<Rightarrow> do {
         item \<leftarrow> get_item (lh_items (fst st)) i;
         st \<leftarrow> func (item_data item) st;
         doall_chain func (item_next item) st
       })"

declare doall_chain.simps [code]

partial_function (option) doall_buckets :: "'s lh_func \<Rightarrow> u64 \<Rightarrow> LHASH \<times> 's \<Rightarrow> (LHASH \<times> 's) option" where
  "doall_buckets func i st =
     (if i < lh_num_buckets (fst st) then do {
        cur \<leftarrow> get_bucket (lh_buckets (fst st)) (unat i);
        st \<leftarrow> doall_chain func cur st;
        doall_buckets func (i + 1) st
      }
      else Some st)"

declare doall_buckets.simps [code]

definition OPENSSL_lh_doall_arg :: "(u64 \<Rightarrow> bool) \<Rightarrow> LHASH option \<Rightarrow> 's lh_func \<Rightarrow> 's \<Rightarrow> (LHASH option \<times> 's) option" where
  "OPENSSL_lh_doall_arg avail lh func arg = (case lh of
       None \<Rightarrow> Some (None, arg)
     | Some lh \<Rightarrow> do {
         let lh = (if lh_callback_depth lh < 0xffffffff then lh\<lparr>lh_callback_depth := lh_callback_depth lh + 1\<rparr> else lh);
         (lh, arg) \<leftarrow> doall_buckets func 0 (lh, arg);
         let lh = (if lh_callback_depth lh < 0xffffffff then lh\<lparr>lh_callback_depth := lh_callback_depth lh - 1\<rparr> else lh);
         lh \<leftarrow> lh_maybe_resize avail lh;
         Some (Some lh, arg)
       })"

end
