(* ===== verification/LhashProofs.thy ===== *)
theory LhashProofs
  imports Lhash
begin

text \<open>
  The hash table of BoringSSL refines a map: the chains of the items in the heap, their layout over
  the buckets, which every operation and every resizing keeps, the map that the items represent, and
  the results of sequences of operations and of iterations.
\<close>

section \<open>Chains\<close>

text \<open>The items that a pointer leads to.\<close>

fun chain :: "LHASH_ITEM option list \<Rightarrow> nat option \<Rightarrow> nat list \<Rightarrow> bool" where
  "chain h p [] \<longleftrightarrow> p = None"
| "chain h p (i # is) \<longleftrightarrow> p = Some i \<and> (\<exists>it. get_item h i = Some it \<and> chain h (item_next it) is)"

text \<open>What an item holds, apart from its link.\<close>

definition content_of :: "LHASH_ITEM option list \<Rightarrow> nat \<Rightarrow> (addr \<times> u32) option" where
  "content_of h i = map_option (\<lambda>it. (item_data it, item_hash it)) (get_item h i)"

lemma get_item_update: "i < length h \<Longrightarrow> get_item (h[i := x]) j = (if i = j then x else get_item h j)"
  by (simp add: get_item_def)

lemma get_item_append: "get_item (h @ [x]) j = (if j = length h then x else get_item h j)"
  by (simp add: get_item_def nth_append)

lemma get_item_length: "get_item h i = Some it \<Longrightarrow> i < length h"
  by (simp add: get_item_def split: if_splits)

lemma content_of_update:
  assumes "get_item h i = Some it"
  shows "content_of (h[i := Some (it\<lparr>item_next := p\<rparr>)]) = content_of h"
proof
  show "content_of (h[i := Some (it\<lparr>item_next := p\<rparr>)]) j = content_of h j" for j
    using assms get_item_length [OF assms] by (cases "i = j") (simp_all add: content_of_def get_item_update)
qed

lemma chain_cong: "(\<And>i. i \<in> set is \<Longrightarrow> get_item h' i = get_item h i) \<Longrightarrow> chain h' p is = chain h p is"
  by (induction "is" arbitrary: p) auto

lemma chain_live: "chain h p is \<Longrightarrow> i \<in> set is \<Longrightarrow> get_item h i \<noteq> None"
  by (induction "is" arbitrary: p) auto

text \<open>The pointer that points behind a part of a chain.\<close>

definition link_after :: "nat \<Rightarrow> nat list \<Rightarrow> link" where
  "link_after b xs = (if xs = [] then Bucket b else Next (last xs))"

lemma read_link_after:
  assumes "b < length (lh_buckets lh)"
  shows "chain (lh_items lh) (lh_buckets lh ! b) (xs @ ys) \<Longrightarrow>
    read_link lh (link_after b xs) = Some (case ys of [] \<Rightarrow> None | j # _ \<Rightarrow> Some j)"
proof (induction xs rule: rev_induct)
  case Nil
  then show ?case using assms by (cases ys) (simp_all add: link_after_def read_link_def get_bucket_def)
next
  case (snoc x xs)
  have tail: "chain h p (xs @ x # ys) \<Longrightarrow> \<exists>it. get_item h x = Some it \<and> chain h (item_next it) ys" for h p
    by (induction xs arbitrary: p) auto
  obtain it where "get_item (lh_items lh) x = Some it" "chain (lh_items lh) (item_next it) ys"
    using tail [of "lh_items lh" "lh_buckets lh ! b"] snoc.prems by auto
  then show ?case by (cases ys) (simp_all add: link_after_def read_link_def)
qed

lemma find_link_chain:
  assumes "b < length (lh_buckets lh)" "chain (lh_items lh) (lh_buckets lh ! b) (xs @ ys)"
    and eq: "\<And>i it. i \<in> set ys \<Longrightarrow> get_item (lh_items lh) i = Some it \<Longrightarrow> equal (item_data it) = match i"
  shows "find_link equal lh (link_after b xs) = Some (link_after b (xs @ takeWhile (\<lambda>i. \<not> match i) ys))"
  using assms(2) eq
proof (induction ys arbitrary: xs)
  case Nil
  then show ?case using read_link_after [OF assms(1) Nil.prems(1)] by (subst find_link.simps) simp
next
  case (Cons i ys)
  have "get_item (lh_items lh) i \<noteq> None" using chain_live [OF Cons.prems(1), of i] by simp
  then obtain it where it: "get_item (lh_items lh) i = Some it" by blast
  have m: "equal (item_data it) = match i" using Cons.prems(2) [of i it] it by simp
  have n: "Next i = link_after b (xs @ [i])" by (simp add: link_after_def)
  have "find_link equal lh (Next i) = Some (link_after b ((xs @ [i]) @ takeWhile (\<lambda>i. \<not> match i) ys))"
    unfolding n by (rule Cons.IH) (use Cons.prems in auto)
  then show ?case using read_link_after [OF assms(1) Cons.prems(1)] it m by (subst find_link.simps) simp
qed

text \<open>Writing through such a pointer replaces the rest of the chain.\<close>

lemma write_link_after:
  assumes b: "b < length (lh_buckets lh)" and c: "chain (lh_items lh) (lh_buckets lh ! b) (xs @ zs)" and d: "distinct xs"
    and q: "chain (lh_items lh) q ws" "set xs \<inter> set ws = {}"
  obtains lh' where "write_link lh (link_after b xs) q = Some lh'" "chain (lh_items lh') (lh_buckets lh' ! b) (xs @ ws)"
    "\<And>c. c \<noteq> b \<Longrightarrow> lh_buckets lh' ! c = lh_buckets lh ! c" "length (lh_buckets lh') = length (lh_buckets lh)"
    "\<And>i. i \<notin> set xs \<Longrightarrow> get_item (lh_items lh') i = get_item (lh_items lh) i" "content_of (lh_items lh') = content_of (lh_items lh)"
    "length (lh_items lh') = length (lh_items lh)" "lh_num_buckets lh' = lh_num_buckets lh" "lh_num_items lh' = lh_num_items lh"
    "lh_callback_depth lh' = lh_callback_depth lh"
proof (cases xs rule: rev_cases)
  case Nil
  then show ?thesis using assms that [of "lh\<lparr>lh_buckets := (lh_buckets lh)[b := q]\<rparr>"]
    by (simp add: link_after_def write_link_def)
next
  case (snoc us x)
  obtain it where it: "get_item (lh_items lh) x = Some it" using chain_live [OF c, of x] snoc by auto
  have l: "x < length (lh_items lh)" by (rule get_item_length [OF it])
  let ?h = "(lh_items lh)[x := Some (it\<lparr>item_next := q\<rparr>)]"
  have ws: "chain ?h q ws" using q snoc l by (subst chain_cong) (auto simp: get_item_update)
  have "chain (lh_items lh) p (us @ x # zs) \<Longrightarrow> x \<notin> set us \<Longrightarrow> chain ?h p (us @ x # ws)" for p
    by (induction us arbitrary: p) (use l ws in \<open>auto simp: get_item_update\<close>)
  then have "chain ?h (lh_buckets lh ! b) (xs @ ws)" using c d snoc by simp
  moreover have "content_of ?h = content_of (lh_items lh)" by (rule content_of_update [OF it])
  ultimately show ?thesis using snoc it l b that [of "lh\<lparr>lh_items := ?h\<rparr>"]
    by (simp add: link_after_def write_link_def get_item_update)
qed

section \<open>The layout of a table\<close>

text \<open>An item belongs to the bucket of its hash.\<close>

definition placed :: "(nat \<Rightarrow> (addr \<times> u32) option) \<Rightarrow> u64 \<Rightarrow> nat \<Rightarrow> nat \<Rightarrow> bool" where
  "placed c nb b i \<longleftrightarrow> (\<exists>d k. c i = Some (d, k) \<and> bucket_of k nb = Some b)"

text \<open>Every bucket chains just the items of a set that belong to it.\<close>

definition lay_out :: "nat set \<Rightarrow> u64 \<Rightarrow> LHASH_ITEM option list \<Rightarrow> nat option list \<Rightarrow> bool" where
  "lay_out M nb h bs \<longleftrightarrow> length bs = unat nb \<and>
     (\<forall>b < length bs. \<exists>xs. chain h (bs ! b) xs \<and> distinct xs \<and> set xs = {i \<in> M. placed (content_of h) nb b i})"

lemma bucket_of_less: "bucket_of k nb = Some b \<Longrightarrow> b < unat nb"
  by (auto simp: bucket_of_def unat_mod_distrib unat_gt_0 split: if_splits)

lemma bucket_of_some: "nb \<noteq> 0 \<Longrightarrow> \<exists>b. bucket_of k nb = Some b"
  by (simp add: bucket_of_def)

lemma placed_live: "placed (content_of h) nb b i \<Longrightarrow> \<exists>it. get_item h i = Some it"
  by (auto simp: placed_def content_of_def)

lemma placed_once: "placed c nb b i \<Longrightarrow> placed c nb b' i \<Longrightarrow> b = b'"
  by (auto simp: placed_def)

lemma lay_outD:
  assumes "lay_out M nb h bs" "b < length bs"
  obtains xs where "chain h (bs ! b) xs" "distinct xs" "set xs = {i \<in> M. placed (content_of h) nb b i}"
  using assms by (auto simp: lay_out_def)

text \<open>Changing one bucket.\<close>

lemma lay_out_update:
  assumes "lay_out M nb h bs" and b: "b < length bs" "length bs' = length bs"
    and b': "chain h' (bs' ! b) xs" "distinct xs" "set xs = {i \<in> M'. placed (content_of h') nb b i}"
    and rest: "\<And>c. c \<noteq> b \<Longrightarrow> bs' ! c = bs ! c"
      "\<And>c i. c \<noteq> b \<Longrightarrow> i \<in> M \<Longrightarrow> placed (content_of h) nb c i \<Longrightarrow> get_item h' i = get_item h i"
      "\<And>c i. c \<noteq> b \<Longrightarrow> (i \<in> M' \<and> placed (content_of h') nb c i) = (i \<in> M \<and> placed (content_of h) nb c i)"
  shows "lay_out M' nb h' bs'"
  unfolding lay_out_def
proof (intro conjI allI impI)
  show "length bs' = unat nb" using assms(1,3) by (simp add: lay_out_def)
  fix c assume c: "c < length bs'"
  show "\<exists>xs. chain h' (bs' ! c) xs \<and> distinct xs \<and> set xs = {i \<in> M'. placed (content_of h') nb c i}"
  proof (cases "c = b")
    case True
    then show ?thesis using b' by auto
  next
    case False
    obtain ys where ys: "chain h (bs ! c) ys" "distinct ys" "set ys = {i \<in> M. placed (content_of h) nb c i}"
      by (rule lay_outD [OF assms(1), of c]) (use c b in auto)
    have "chain h' (bs ! c) ys = chain h (bs ! c) ys"
      by (rule chain_cong) (use ys(3) rest(2) [OF False] in auto)
    then show ?thesis using ys rest(1) [OF False] rest(3) [OF False] by (intro exI [of _ ys]) auto
  qed
qed

section \<open>Moving items\<close>

lemma move_chain_lays_out:
  assumes "nb \<noteq> 0"
  shows "chain h p is \<Longrightarrow> distinct is \<Longrightarrow> set is \<inter> M = {} \<Longrightarrow> lay_out M nb h bs \<Longrightarrow>
    \<exists>h' bs'. move_chain nb p h bs = Some (h', bs') \<and> lay_out (M \<union> set is) nb h' bs' \<and> content_of h' = content_of h \<and>
      (\<forall>j. j \<notin> set is \<longrightarrow> get_item h' j = get_item h j)"
proof (induction "is" arbitrary: p h bs M)
  case Nil
  then show ?case by (subst move_chain.simps) simp
next
  case (Cons i "is")
  obtain it where it: "get_item h i = Some it" and p: "p = Some i" and c: "chain h (item_next it) is"
    using Cons.prems(1) by auto
  obtain b where b: "bucket_of (item_hash it) nb = Some b" using bucket_of_some [OF assms] by blast
  have lb: "b < length bs" using bucket_of_less [OF b] Cons.prems(4) by (simp add: lay_out_def)
  have li: "i < length h" by (rule get_item_length [OF it])
  let ?h = "h[i := Some (it\<lparr>item_next := bs ! b\<rparr>)]"
  let ?bs = "bs[b := Some i]"
  have ch: "content_of ?h = content_of h" by (rule content_of_update [OF it])
  have pi: "placed (content_of h) nb b i" using it b by (simp add: placed_def content_of_def)
  obtain xs where xs: "chain h (bs ! b) xs" "distinct xs" "set xs = {j \<in> M. placed (content_of h) nb b j}"
    by (rule lay_outD [OF Cons.prems(4) lb])
  have x: "chain ?h (bs ! b) xs"
    using xs(1,3) Cons.prems(3) li by (subst chain_cong) (auto simp: get_item_update)
  have lo: "lay_out (insert i M) nb ?h ?bs"
  proof (rule lay_out_update [OF Cons.prems(4) lb, of _ _ "i # xs"])
    show "chain ?h (?bs ! b) (i # xs)" using x lb li by (simp add: get_item_update)
    show "distinct (i # xs)" using xs(2,3) Cons.prems(3) by auto
    show "set (i # xs) = {j \<in> insert i M. placed (content_of ?h) nb b j}" using xs(3) pi unfolding ch by auto
    fix c j assume cb: "c \<noteq> b"
    show "(j \<in> insert i M \<and> placed (content_of ?h) nb c j) = (j \<in> M \<and> placed (content_of h) nb c j)"
      unfolding ch using placed_once [OF pi] cb by auto
    show "get_item ?h j = get_item h j" if "j \<in> M"
      using that Cons.prems(3) li by (auto simp: get_item_update)
  qed (use lb in auto)
  have c': "chain ?h (item_next it) is"
    using c Cons.prems(2) li by (subst chain_cong) (auto simp: get_item_update)
  have "\<exists>h' bs'. move_chain nb (item_next it) ?h ?bs = Some (h', bs') \<and> lay_out (insert i M \<union> set is) nb h' bs' \<and>
      content_of h' = content_of ?h \<and> (\<forall>j. j \<notin> set is \<longrightarrow> get_item h' j = get_item ?h j)"
    by (rule Cons.IH [OF c' _ _ lo]) (use Cons.prems(2,3) in auto)
  then obtain h' bs' where m: "move_chain nb (item_next it) ?h ?bs = Some (h', bs')" "lay_out (insert i M \<union> set is) nb h' bs'"
    "content_of h' = content_of ?h" "\<forall>j. j \<notin> set is \<longrightarrow> get_item h' j = get_item ?h j"
    by blast
  have "move_chain nb p h bs = Some (h', bs')"
    unfolding p using it b lb m(1) by (subst move_chain.simps) (simp add: get_bucket_def)
  moreover have "\<forall>j. j \<notin> set (i # is) \<longrightarrow> get_item h' j = get_item h j" using m(4) li by (simp add: get_item_update)
  ultimately show ?case using m(2,3) ch by (intro exI [of _ h'], intro exI [of _ bs']) simp
qed

lemma move_buckets_lays_out:
  assumes "nb' \<noteq> 0"
  shows "i + n = length bs \<Longrightarrow> lay_out M nb' h bs' \<Longrightarrow>
    (\<forall>b. i \<le> b \<and> b < length bs \<longrightarrow> (\<exists>xs. chain h (bs ! b) xs \<and> distinct xs \<and> set xs = {j. placed (content_of h) nb b j})) \<Longrightarrow>
    M = {j. \<exists>b < i. placed (content_of h) nb b j} \<Longrightarrow>
    \<exists>h' bs2. move_buckets nb' n i bs h bs' = Some (h', bs2) \<and>
      lay_out {j. \<exists>b < length bs. placed (content_of h) nb b j} nb' h' bs2 \<and> content_of h' = content_of h"
proof (induction n arbitrary: i h bs' M)
  case 0
  then show ?case by simp
next
  case (Suc n)
  have l: "i < length bs" using Suc.prems(1) by simp
  obtain xs where xs: "chain h (bs ! i) xs" "distinct xs" "set xs = {j. placed (content_of h) nb i j}"
    using Suc.prems(3) l by blast
  have "set xs \<inter> M = {}" unfolding xs(3) Suc.prems(4) using placed_once by fastforce
  then obtain h1 bs1 where m: "move_chain nb' (bs ! i) h bs' = Some (h1, bs1)" "lay_out (M \<union> set xs) nb' h1 bs1"
    "content_of h1 = content_of h" "\<forall>j. j \<notin> set xs \<longrightarrow> get_item h1 j = get_item h j"
    using move_chain_lays_out [OF assms xs(1,2) _ Suc.prems(2)] by blast
  have "\<exists>ys. chain h1 (bs ! b) ys \<and> distinct ys \<and> set ys = {j. placed (content_of h1) nb b j}"
    if b: "Suc i \<le> b" "b < length bs" for b
  proof -
    obtain ys where ys: "chain h (bs ! b) ys" "distinct ys" "set ys = {j. placed (content_of h) nb b j}"
      using Suc.prems(3) b by (meson Suc_leD)
    have "chain h1 (bs ! b) ys = chain h (bs ! b) ys"
      by (rule chain_cong) (use ys(3) xs(3) m(4) b(1) placed_once [of "content_of h" nb b _ i] in fastforce)
    then show ?thesis using ys m(3) by (intro exI [of _ ys]) simp
  qed
  then have r: "\<forall>b. Suc i \<le> b \<and> b < length bs \<longrightarrow> (\<exists>ys. chain h1 (bs ! b) ys \<and> distinct ys \<and> set ys = {j. placed (content_of h1) nb b j})"
    by blast
  have s: "M \<union> set xs = {j. \<exists>b < Suc i. placed (content_of h1) nb b j}"
    unfolding xs(3) Suc.prems(4) m(3) by (auto simp: less_Suc_eq)
  have "\<exists>h' bs2. move_buckets nb' n (Suc i) bs h1 bs1 = Some (h', bs2) \<and>
      lay_out {j. \<exists>b < length bs. placed (content_of h1) nb b j} nb' h' bs2 \<and> content_of h' = content_of h1"
    by (rule Suc.IH [OF _ m(2) r s]) (use Suc.prems(1) in simp)
  then show ?case using m(1,3) l by (simp add: get_bucket_def)
qed

lemma rebucket_keeps:
  assumes lo: "lay_out UNIV (lh_num_buckets lh) (lh_items lh) (lh_buckets lh)" and nb: "lh_num_buckets lh \<noteq> 0" "nb' \<noteq> 0"
  shows "\<exists>h bs n. lh_rebucket avail lh nb' = Some (lh\<lparr>lh_items := h, lh_num_buckets := n, lh_buckets := bs\<rparr>) \<and>
    lay_out UNIV n h bs \<and> content_of h = content_of (lh_items lh) \<and> (n = lh_num_buckets lh \<or> n = nb')"
proof (cases "8 * nb' div 8 \<noteq> nb' \<or> \<not> OPENSSL_malloc avail (8 * nb')")
  case True
  have "lh = lh\<lparr>lh_items := lh_items lh, lh_num_buckets := lh_num_buckets lh, lh_buckets := lh_buckets lh\<rparr>" by simp
  moreover have "lh_rebucket avail lh nb' = Some lh" using True by (auto simp: lh_rebucket_def Let_def)
  ultimately show ?thesis using lo by metis
next
  case False
  let ?c = "content_of (lh_items lh)" and ?bs = "lh_buckets lh"
  have len: "length ?bs = unat (lh_num_buckets lh)" using lo by (simp add: lay_out_def)
  have start: "lay_out {} nb' (lh_items lh) (replicate (unat nb') None)"
    by (auto simp: lay_out_def intro!: exI [of _ "[]"])
  have old: "\<forall>b. 0 \<le> b \<and> b < length ?bs \<longrightarrow> (\<exists>xs. chain (lh_items lh) (?bs ! b) xs \<and> distinct xs \<and>
      set xs = {j. placed ?c (lh_num_buckets lh) b j})"
    using lo by (simp add: lay_out_def)
  obtain h bs where m: "move_buckets nb' (unat (lh_num_buckets lh)) 0 ?bs (lh_items lh) (replicate (unat nb') None) = Some (h, bs)"
    "lay_out {j. \<exists>b < length ?bs. placed ?c (lh_num_buckets lh) b j} nb' h bs" "content_of h = ?c"
    using move_buckets_lays_out [OF nb(2) _ start old] len by auto
  have "placed ?c nb' b j \<Longrightarrow> \<exists>b < length ?bs. placed ?c (lh_num_buckets lh) b j" for b j
    using bucket_of_some [OF nb(1)] bucket_of_less unfolding len placed_def by blast
  then have "lay_out UNIV nb' h bs" using m(2) unfolding lay_out_def m(3) by (simp add: conj_commute cong: conj_cong)
  then show ?thesis using m(1,3) False by (auto simp: lh_rebucket_def Let_def)
qed

lemma resize_keeps:
  assumes lo: "lay_out UNIV (lh_num_buckets lh) (lh_items lh) (lh_buckets lh)" and nb: "16 \<le> lh_num_buckets lh"
  shows "\<exists>h bs n. lh_maybe_resize avail lh = Some (lh\<lparr>lh_items := h, lh_num_buckets := n, lh_buckets := bs\<rparr>) \<and>
    lay_out UNIV n h bs \<and> content_of h = content_of (lh_items lh) \<and> 16 \<le> n"
proof -
  have nz: "lh_num_buckets lh \<noteq> 0" using nb by auto
  have same: "\<exists>h bs n. Some lh = Some (lh\<lparr>lh_items := h, lh_num_buckets := n, lh_buckets := bs\<rparr>) \<and>
      lay_out UNIV n h bs \<and> content_of h = content_of (lh_items lh) \<and> 16 \<le> n"
    by (rule exI [of _ "lh_items lh"], rule exI [of _ "lh_buckets lh"], rule exI [of _ "lh_num_buckets lh"]) (simp add: lo nb)
  have step: "\<exists>h bs n. lh_rebucket avail lh nb' = Some (lh\<lparr>lh_items := h, lh_num_buckets := n, lh_buckets := bs\<rparr>) \<and>
      lay_out UNIV n h bs \<and> content_of h = content_of (lh_items lh) \<and> 16 \<le> n" if "16 \<le> nb'" for nb'
  proof -
    have "nb' \<noteq> 0" using that by auto
    then show ?thesis using rebucket_keeps [OF lo nz, of nb' avail] that nb by metis
  qed
  have up: "16 \<le> lh_num_buckets lh * 2" if "lh_num_buckets lh < lh_num_buckets lh * 2"
    using that nb by (meson less_imp_le order_trans)
  show ?thesis
    unfolding lh_maybe_resize_def Let_def kMinNumBuckets_def using nz same step up
    by (auto simp: not_less split: if_splits)
qed

section \<open>The map a table represents\<close>

text \<open>What the comparison and the hash have to be like.\<close>

definition lhash_functions :: "(addr \<Rightarrow> u32) \<Rightarrow> (addr \<Rightarrow> addr \<Rightarrow> int) \<Rightarrow> bool" where
  "lhash_functions hash_of compare \<longleftrightarrow> (\<forall>a. compare a a = 0) \<and> (\<forall>a b. compare a b = 0 \<longrightarrow> compare b a = 0) \<and>
     (\<forall>a b c. compare a b = 0 \<longrightarrow> compare b c = 0 \<longrightarrow> compare a c = 0) \<and> (\<forall>a b. compare a b = 0 \<longrightarrow> hash_of a = hash_of b)"

text \<open>An element is mapped to the element that is stored and equal to it.\<close>

definition stores :: "(addr \<Rightarrow> u32) \<Rightarrow> (addr \<Rightarrow> addr \<Rightarrow> int) \<Rightarrow> (nat \<Rightarrow> (addr \<times> u32) option) \<Rightarrow> (addr \<Rightarrow> addr option) \<Rightarrow> bool" where
  "stores hash_of compare c m \<longleftrightarrow> (\<forall>i d k. c i = Some (d, k) \<longrightarrow> k = hash_of d) \<and>
     (\<forall>i j d k d' k'. c i = Some (d, k) \<longrightarrow> c j = Some (d', k') \<longrightarrow> compare d d' = 0 \<longrightarrow> i = j) \<and>
     (\<forall>d e. m d = Some e \<longleftrightarrow> (\<exists>i k. c i = Some (e, k) \<and> compare e d = 0))"

definition table_ok :: "(addr \<Rightarrow> u32) \<Rightarrow> (addr \<Rightarrow> addr \<Rightarrow> int) \<Rightarrow> LHASH \<Rightarrow> (addr \<Rightarrow> addr option) \<Rightarrow> bool" where
  "table_ok hash_of compare lh m \<longleftrightarrow> 16 \<le> lh_num_buckets lh \<and> lay_out UNIV (lh_num_buckets lh) (lh_items lh) (lh_buckets lh) \<and>
     stores hash_of compare (content_of (lh_items lh)) m \<and> lh_num_items lh = of_nat (card (dom (content_of (lh_items lh))))"

lemma table_okI:
  assumes "16 \<le> lh_num_buckets lh" "lay_out UNIV (lh_num_buckets lh) (lh_items lh) (lh_buckets lh)"
    "stores hash_of compare (content_of (lh_items lh)) m" "lh_num_items lh = of_nat (card (dom (content_of (lh_items lh))))"
  shows "table_ok hash_of compare lh m"
  using assms by (simp add: table_ok_def)

lemma resize_ok:
  assumes "table_ok hash_of compare lh m"
  obtains lh' where "lh_maybe_resize avail lh = Some lh'" "table_ok hash_of compare lh' m" "lh_callback_depth lh' = lh_callback_depth lh"
    "content_of (lh_items lh') = content_of (lh_items lh)"
proof -
  have "lay_out UNIV (lh_num_buckets lh) (lh_items lh) (lh_buckets lh)" "16 \<le> lh_num_buckets lh"
    using assms by (simp_all add: table_ok_def)
  then obtain h bs n where r: "lh_maybe_resize avail lh = Some (lh\<lparr>lh_items := h, lh_num_buckets := n, lh_buckets := bs\<rparr>)"
    "lay_out UNIV n h bs" "content_of h = content_of (lh_items lh)" "16 \<le> n"
    using resize_keeps by blast
  show thesis by (rule that [OF r(1)]) (use r assms in \<open>simp_all add: table_ok_def\<close>)
qed

lemma table_ok_new: "OPENSSL_lh_new avail = Some lh \<Longrightarrow> table_ok hash_of compare lh Map.empty"
  by (auto simp: OPENSSL_lh_new_def table_ok_def lay_out_def stores_def kMinNumBuckets_def content_of_def get_item_def
      placed_def dom_def nth_Cons' intro!: exI [of _ "[]"] split: if_splits)

section \<open>Searching\<close>

lemma search:
  assumes ok: "table_ok hash_of compare lh m" and fns: "lhash_functions hash_of compare"
  obtains b xs ys where "get_next_ptr_and_hash lh d hash_of compare = Some (link_after b xs, hash_of d)"
    "bucket_of (hash_of d) (lh_num_buckets lh) = Some b" "b < length (lh_buckets lh)"
    "chain (lh_items lh) (lh_buckets lh ! b) (xs @ ys)" "distinct (xs @ ys)"
    "set (xs @ ys) = {i. placed (content_of (lh_items lh)) (lh_num_buckets lh) b i}"
    "read_link lh (link_after b xs) = Some (case ys of [] \<Rightarrow> None | j # _ \<Rightarrow> Some j)"
    "case ys of [] \<Rightarrow> m d = None | i # _ \<Rightarrow> \<exists>it. get_item (lh_items lh) i = Some it \<and> m d = Some (item_data it) \<and> compare (item_data it) d = 0"
proof -
  let ?c = "content_of (lh_items lh)" and ?nb = "lh_num_buckets lh"
  let ?eq = "\<lambda>i. \<exists>e k. ?c i = Some (e, k) \<and> compare e d = 0"
  have st: "stores hash_of compare ?c m" and lo: "lay_out UNIV ?nb (lh_items lh) (lh_buckets lh)" and nz: "?nb \<noteq> 0"
    using ok by (auto simp: table_ok_def)
  obtain b where b: "bucket_of (hash_of d) ?nb = Some b" using bucket_of_some [OF nz] by blast
  have lb: "b < length (lh_buckets lh)" using bucket_of_less [OF b] lo by (simp add: lay_out_def)
  obtain zs where zs: "chain (lh_items lh) (lh_buckets lh ! b) zs" "distinct zs" "set zs = {i. placed ?c ?nb b i}"
    using lay_outD [OF lo lb] by auto
  define xs where "xs = takeWhile (\<lambda>i. \<not> ?eq i) zs"
  define ys where "ys = dropWhile (\<lambda>i. \<not> ?eq i) zs"
  have split: "zs = xs @ ys" by (simp add: xs_def ys_def)
  have "find_link (\<lambda>e. compare e d = 0) lh (link_after b []) = Some (link_after b ([] @ xs))"
    unfolding xs_def by (rule find_link_chain [OF lb]) (use zs(1) in \<open>auto simp: content_of_def\<close>)
  then have g: "get_next_ptr_and_hash lh d hash_of compare = Some (link_after b xs, hash_of d)"
    using b by (simp add: get_next_ptr_and_hash_def link_after_def)
  have here: "i \<in> set zs" if "?eq i" for i
  proof -
    obtain e k where ek: "?c i = Some (e, k)" "compare e d = 0" using \<open>?eq i\<close> by blast
    then have "k = hash_of d" using st fns by (metis lhash_functions_def stores_def)
    then show ?thesis using ek(1) b unfolding zs(3) placed_def by blast
  qed
  have r: "case ys of [] \<Rightarrow> m d = None
    | i # _ \<Rightarrow> \<exists>it. get_item (lh_items lh) i = Some it \<and> m d = Some (item_data it) \<and> compare (item_data it) d = 0"
  proof (cases ys)
    case Nil
    then have "\<forall>i\<in>set zs. \<not> ?eq i" by (simp add: ys_def dropWhile_eq_Nil_conv)
    then have "\<not> ?eq i" for i using here by blast
    then have "m d \<noteq> Some e" for e using st unfolding stores_def by blast
    then have "m d = None" by (cases "m d") auto
    then show ?thesis using Nil by simp
  next
    case (Cons i vs)
    then have "?eq i" using hd_dropWhile [of "\<lambda>i. \<not> ?eq i" zs] unfolding ys_def by fastforce
    then obtain e k where ek: "?c i = Some (e, k)" "compare e d = 0" by blast
    then obtain it where it: "get_item (lh_items lh) i = Some it" "item_data it = e" by (auto simp: content_of_def)
    have "m d = Some e" using st ek unfolding stores_def by blast
    then show ?thesis using Cons it ek(2) by auto
  qed
  show thesis
    by (rule that [OF g b lb _ _ _ read_link_after [OF lb] r]) (use zs in \<open>simp_all add: split\<close>)
qed

lemma retrieve_ok:
  assumes "table_ok hash_of compare lh m" "lhash_functions hash_of compare"
  shows "OPENSSL_lh_retrieve lh d hash_of compare = Some (case m d of None \<Rightarrow> 0 | Some e \<Rightarrow> e)"
proof -
  obtain b xs ys where "get_next_ptr_and_hash lh d hash_of compare = Some (link_after b xs, hash_of d)"
    "read_link lh (link_after b xs) = Some (case ys of [] \<Rightarrow> None | j # _ \<Rightarrow> Some j)"
    "case ys of [] \<Rightarrow> m d = None | i # _ \<Rightarrow> \<exists>it. get_item (lh_items lh) i = Some it \<and> m d = Some (item_data it) \<and> compare (item_data it) d = 0"
    by (rule search [OF assms])
  then show ?thesis by (cases ys) (auto simp: OPENSSL_lh_retrieve_def link_data_def)
qed

section \<open>The contents of a table\<close>

lemma stores_map:
  "stores hash_of compare c m \<Longrightarrow> m d = Some e \<longleftrightarrow> (\<exists>i k. c i = Some (e, k) \<and> compare e d = 0)"
  by (simp add: stores_def)

lemma stores_hash: "stores hash_of compare c m \<Longrightarrow> c i = Some (d, k) \<Longrightarrow> k = hash_of d"
  by (simp add: stores_def)

lemma stores_once:
  "stores hash_of compare c m \<Longrightarrow> c i = Some (d, k) \<Longrightarrow> c j = Some (d', k') \<Longrightarrow> compare d d' = 0 \<Longrightarrow> i = j"
  unfolding stores_def by blast

lemma functions_same:
  assumes "lhash_functions hash_of compare" "compare a b = 0"
  shows "compare b a = 0" "compare a x = 0 \<longleftrightarrow> compare b x = 0" "compare x a = 0 \<longleftrightarrow> compare x b = 0" "hash_of a = hash_of b"
  using assms unfolding lhash_functions_def by blast+

lemma stores_equal:
  assumes "stores hash_of compare c m" "lhash_functions hash_of compare" "c i = Some (e, k)" "compare e x = 0"
    "c j = Some (e', k')" "compare e' x = 0"
  shows "j = i"
  by (rule stores_once [OF assms(1,5,3)]) (use functions_same(1,2) [OF assms(2,6)] functions_same(1) [OF assms(2,4)] in blast)

lemma update_elsewhere:
  assumes "\<And>k. y = Some (e, k) \<Longrightarrow> compare e x \<noteq> 0" "\<And>k. c i = Some (e, k) \<Longrightarrow> compare e x \<noteq> 0"
  shows "(\<exists>j k. (c(i := y)) j = Some (e, k) \<and> compare e x = 0) = (\<exists>j k. c j = Some (e, k) \<and> compare e x = 0)"
proof -
  have "((c(i := y)) j = Some (e, k) \<and> compare e x = 0) = (c j = Some (e, k) \<and> compare e x = 0)" for j k
    using assms by (cases "j = i") auto
  then show ?thesis by simp
qed

lemma stores_replace:
  assumes st: "stores hash_of compare c m" and fns: "lhash_functions hash_of compare" and i: "c i = Some (e, k)" "compare e d = 0"
  shows "stores hash_of compare (c(i \<mapsto> (d, k))) (\<lambda>x. if compare d x = 0 then Some d else m x)"
proof -
  note u = functions_same [OF fns i(2)]
  show ?thesis
    unfolding stores_def
  proof (intro conjI allI impI)
    show "k' = hash_of d'" if "(c(i \<mapsto> (d, k))) j = Some (d', k')" for j d' k'
      using that stores_hash [OF st] i(1) u(4) by (auto split: if_splits)
    show "j = j'" if j: "(c(i \<mapsto> (d, k))) j = Some (d1, k1)" and j': "(c(i \<mapsto> (d, k))) j' = Some (d2, k2)" and e: "compare d1 d2 = 0"
      for j j' d1 k1 d2 k2
    proof (cases "j = i"; cases "j' = i")
      assume "j = i" "j' \<noteq> i"
      then show ?thesis using j j' e u(2) stores_once [OF st i(1), of j' d2 k2] by auto
    next
      assume "j \<noteq> i" "j' = i"
      then show ?thesis using j j' e u(3) stores_once [OF st _ i(1), of j d1 k1] by auto
    next
      assume "j \<noteq> i" "j' \<noteq> i"
      then show ?thesis using j j' e stores_once [OF st] by auto
    qed simp
    fix x e'
    show "((if compare d x = 0 then Some d else m x) = Some e') = (\<exists>j k'. (c(i \<mapsto> (d, k))) j = Some (e', k') \<and> compare e' x = 0)"
    proof (cases "compare d x = 0")
      case True
      have "j = i" if "c j = Some (d', k')" "compare d' x = 0" for j d' k'
        by (rule stores_equal [OF st fns i(1) _ that]) (use True u(2) in simp)
      then show ?thesis using True by (auto split: if_splits)
    next
      case False
      then show ?thesis using i(1) u(2) by (subst update_elsewhere) (auto simp: stores_map [OF st])
    qed
  qed
qed

lemma stores_insert:
  assumes st: "stores hash_of compare c m" and fns: "lhash_functions hash_of compare" and i: "c i = None" "m d = None"
  shows "stores hash_of compare (c(i \<mapsto> (d, hash_of d))) (\<lambda>x. if compare d x = 0 then Some d else m x)"
proof -
  have no: "compare d' d \<noteq> 0" "compare d d' \<noteq> 0" if c: "c j = Some (d', k')" for j d' k'
  proof -
    show "compare d' d \<noteq> 0" using stores_map [OF st, of d d'] c i(2) by auto
    then show "compare d d' \<noteq> 0" using functions_same(1) [OF fns, of d d'] by blast
  qed
  show ?thesis
    unfolding stores_def
  proof (intro conjI allI impI)
    show "k' = hash_of d'" if "(c(i \<mapsto> (d, hash_of d))) j = Some (d', k')" for j d' k'
      using that stores_hash [OF st] by (auto split: if_splits)
    show "j = j'" if "(c(i \<mapsto> (d, hash_of d))) j = Some (d1, k1)" "(c(i \<mapsto> (d, hash_of d))) j' = Some (d2, k2)" "compare d1 d2 = 0"
      for j j' d1 k1 d2 k2
      using that no stores_once [OF st] by (auto split: if_splits)
    fix x e'
    show "((if compare d x = 0 then Some d else m x) = Some e') =
        (\<exists>j k'. (c(i \<mapsto> (d, hash_of d))) j = Some (e', k') \<and> compare e' x = 0)"
    proof (cases "compare d x = 0")
      case True
      have "compare d' x \<noteq> 0" if "c j = Some (d', k')" for j d' k'
        using no(1) [OF that] functions_same(3) [OF fns True, of d'] by blast
      then show ?thesis using True by (auto split: if_splits)
    next
      case False
      then show ?thesis using i(1) by (subst update_elsewhere) (auto simp: stores_map [OF st])
    qed
  qed
qed

lemma stores_delete:
  assumes st: "stores hash_of compare c m" and fns: "lhash_functions hash_of compare" and i: "c i = Some (e, k)" "compare e d = 0"
  shows "stores hash_of compare (c(i := None)) (\<lambda>x. if compare d x = 0 then None else m x)"
proof -
  note u = functions_same [OF fns i(2)]
  show ?thesis
    unfolding stores_def
  proof (intro conjI allI impI)
    show "k' = hash_of d'" if "(c(i := None)) j = Some (d', k')" for j d' k'
      using that stores_hash [OF st] by (auto split: if_splits)
    show "j = j'" if "(c(i := None)) j = Some (d1, k1)" "(c(i := None)) j' = Some (d2, k2)" "compare d1 d2 = 0" for j j' d1 k1 d2 k2
      using that stores_once [OF st] by (auto split: if_splits)
    fix x e'
    show "((if compare d x = 0 then None else m x) = Some e') = (\<exists>j k'. (c(i := None)) j = Some (e', k') \<and> compare e' x = 0)"
    proof (cases "compare d x = 0")
      case True
      have "j = i" if "c j = Some (d', k')" "compare d' x = 0" for j d' k'
        by (rule stores_equal [OF st fns i(1) _ that]) (use True u(2) in simp)
      then show ?thesis using True by (auto split: if_splits)
    next
      case False
      then show ?thesis using i(1) u(2) by (subst update_elsewhere) (auto simp: stores_map [OF st])
    qed
  qed
qed

section \<open>Operations\<close>

lemma content_of_get: "get_item h i = Some it \<Longrightarrow> content_of h i = Some (item_data it, item_hash it)"
  by (simp add: content_of_def)

lemma chain_through:
  "chain h p (xs @ i # ys) \<Longrightarrow> get_item h i = Some it \<Longrightarrow> chain h (item_next it) ys"
  by (induction xs arbitrary: p) auto

lemma content_finite: "finite (dom (content_of h))"
  by (rule finite_subset [of _ "{..< length h}"]) (auto simp: content_of_def get_item_def split: if_splits)

lemma chain_new_data:
  assumes "get_item h i = Some it"
  shows "chain (h[i := Some (it\<lparr>item_data := d\<rparr>)]) p xs = chain h p xs"
proof (induction xs arbitrary: p)
  case (Cons j js)
  show ?case
    unfolding chain.simps Cons.IH using assms get_item_length [OF assms] by (cases "i = j") (auto simp: get_item_update)
qed simp

lemma insert_found:
  assumes ok: "table_ok hash_of compare lh m" and fns: "lhash_functions hash_of compare"
    and it: "get_item (lh_items lh) i = Some it" "compare (item_data it) d = 0"
  shows "table_ok hash_of compare (lh\<lparr>lh_items := (lh_items lh)[i := Some (it\<lparr>item_data := d\<rparr>)]\<rparr>)
    (\<lambda>x. if compare d x = 0 then Some d else m x)"
proof (rule table_okI)
  let ?h = "(lh_items lh)[i := Some (it\<lparr>item_data := d\<rparr>)]" and ?lh = "lh\<lparr>lh_items := (lh_items lh)[i := Some (it\<lparr>item_data := d\<rparr>)]\<rparr>"
  let ?c = "content_of (lh_items lh)"
  have l: "i < length (lh_items lh)" by (rule get_item_length [OF it(1)])
  have ci: "?c i = Some (item_data it, item_hash it)" by (rule content_of_get [OF it(1)])
  have c: "content_of ?h = ?c(i \<mapsto> (d, item_hash it))"
    using l by (auto simp: fun_eq_iff content_of_def get_item_update)
  have p: "placed (content_of ?h) nb b j = placed ?c nb b j" for nb b j
    unfolding c using ci by (cases "j = i") (auto simp: placed_def)
  show "16 \<le> lh_num_buckets ?lh" using ok by (simp add: table_ok_def)
  show "lay_out UNIV (lh_num_buckets ?lh) (lh_items ?lh) (lh_buckets ?lh)"
    using ok by (simp add: table_ok_def lay_out_def p chain_new_data [OF it(1)])
  show "stores hash_of compare (content_of (lh_items ?lh)) (\<lambda>x. if compare d x = 0 then Some d else m x)"
    using stores_replace [of hash_of compare ?c m i "item_data it" "item_hash it" d] fns ci it(2) ok by (simp add: table_ok_def c)
  show "lh_num_items ?lh = of_nat (card (dom (content_of (lh_items ?lh))))"
    using ok insert_absorb [OF domI, of ?c i, OF ci] by (simp add: table_ok_def c)
qed

lemma insert_missing:
  assumes ok: "table_ok hash_of compare lh m" and fns: "lhash_functions hash_of compare" and m: "m d = None"
    and b: "bucket_of (hash_of d) (lh_num_buckets lh) = Some b" "b < length (lh_buckets lh)"
    and xs: "chain (lh_items lh) (lh_buckets lh ! b) xs" "distinct xs"
      "set xs = {i. placed (content_of (lh_items lh)) (lh_num_buckets lh) b i}"
  shows "\<exists>lh'. write_link (lh\<lparr>lh_items := lh_items lh @ [Some \<lparr>item_data = d, item_next = None, item_hash = hash_of d\<rparr>]\<rparr>)
      (link_after b xs) (Some (length (lh_items lh))) = Some lh' \<and> lh_num_items lh' = lh_num_items lh \<and>
    lh_callback_depth lh' = lh_callback_depth lh \<and>
    table_ok hash_of compare (lh'\<lparr>lh_num_items := lh_num_items lh + 1\<rparr>) (\<lambda>x. if compare d x = 0 then Some d else m x)"
proof -
  let ?i = "length (lh_items lh)" and ?c = "content_of (lh_items lh)" and ?nb = "lh_num_buckets lh"
  let ?h = "lh_items lh @ [Some \<lparr>item_data = d, item_next = None, item_hash = hash_of d\<rparr>]"
  let ?lh = "lh\<lparr>lh_items := ?h\<rparr>"
  have ci: "?c ?i = None" by (simp add: content_of_def get_item_def)
  have c: "content_of ?h = ?c(?i \<mapsto> (d, hash_of d))" using ci by (auto simp: fun_eq_iff content_of_def get_item_append)
  have new: "?i \<notin> set xs" using ci unfolding xs(3) placed_def by auto
  have old: "chain ?h p ys = chain (lh_items lh) p ys" if "?i \<notin> set ys" for p ys
    by (rule chain_cong) (use that in \<open>auto simp: get_item_append\<close>)
  obtain lh' where w: "write_link ?lh (link_after b xs) (Some ?i) = Some lh'" "chain (lh_items lh') (lh_buckets lh' ! b) (xs @ [?i])"
    "\<And>c. c \<noteq> b \<Longrightarrow> lh_buckets lh' ! c = lh_buckets ?lh ! c" "length (lh_buckets lh') = length (lh_buckets ?lh)"
    "\<And>i. i \<notin> set xs \<Longrightarrow> get_item (lh_items lh') i = get_item (lh_items ?lh) i" "content_of (lh_items lh') = content_of (lh_items ?lh)"
    "length (lh_items lh') = length (lh_items ?lh)" "lh_num_buckets lh' = lh_num_buckets ?lh" "lh_num_items lh' = lh_num_items ?lh"
    "lh_callback_depth lh' = lh_callback_depth ?lh"
  proof (rule write_link_after [of b ?lh xs "[]" "Some ?i" "[?i]"])
    show "chain (lh_items ?lh) (Some ?i) [?i]" by (simp add: get_item_append)
  qed (use b(2) xs new in \<open>simp_all add: old\<close>)
  note c' = w(6) [simplified, unfolded c]
  have pi: "placed (content_of (lh_items lh')) ?nb b ?i" using b(1) by (simp add: c' placed_def)
  have ps: "placed (content_of (lh_items lh')) nb c j = placed ?c nb c j" if "j \<noteq> ?i" for nb c j
    using that by (simp add: c' placed_def)
  have lo: "lay_out UNIV ?nb (lh_items lh) (lh_buckets lh)" and st: "stores hash_of compare ?c m"
    and n: "lh_num_items lh = of_nat (card (dom ?c))" using ok by (simp_all add: table_ok_def)
  have lo': "lay_out UNIV ?nb (lh_items lh') (lh_buckets lh')"
  proof (rule lay_out_update [OF lo b(2) _ w(2)])
    show "set (xs @ [?i]) = {j \<in> UNIV. placed (content_of (lh_items lh')) ?nb b j}" 
    proof -
      have "placed (content_of (lh_items lh')) ?nb b j = (j = ?i \<or> j \<in> set xs)" for j
        using pi ps [of j] new xs(3) by (cases "j = ?i") auto
      then show ?thesis by auto
    qed
    fix c j assume cb: "c \<noteq> b"
    have "\<not> placed ?c ?nb c ?i" using ci by (simp add: placed_def)
    then show "(j \<in> UNIV \<and> placed (content_of (lh_items lh')) ?nb c j) = (j \<in> UNIV \<and> placed ?c ?nb c j)"
      using placed_once [OF pi] cb ps by (cases "j = ?i") auto
    show "get_item (lh_items lh') j = get_item (lh_items lh) j" if "placed ?c ?nb c j"
      using that cb w(5) [of j] xs(3) placed_once [OF that, of b] ci
      by (cases "j = ?i") (auto simp: placed_def get_item_append)
  qed (use w(3,4) xs(2) new in auto)
  have "table_ok hash_of compare (lh'\<lparr>lh_num_items := lh_num_items lh + 1\<rparr>) (\<lambda>x. if compare d x = 0 then Some d else m x)"
  proof (rule table_okI)
    show "stores hash_of compare (content_of (lh_items (lh'\<lparr>lh_num_items := lh_num_items lh + 1\<rparr>)))
        (\<lambda>x. if compare d x = 0 then Some d else m x)"
      using stores_insert [OF st fns ci m] by (simp add: c')
    have "?i \<notin> dom ?c" using ci by auto
    then show "lh_num_items (lh'\<lparr>lh_num_items := lh_num_items lh + 1\<rparr>) =
        of_nat (card (dom (content_of (lh_items (lh'\<lparr>lh_num_items := lh_num_items lh + 1\<rparr>)))))"
      using n content_finite [of "lh_items lh"] by (simp add: c')
  qed (use lo' w(8) ok in \<open>simp_all add: table_ok_def\<close>)
  then show ?thesis using w(1,9,10) by auto
qed

lemma insert_ok:
  assumes ok: "table_ok hash_of compare lh m" and fns: "lhash_functions hash_of compare"
  shows "\<exists>lh'. OPENSSL_lh_insert avail lh d hash_of compare =
      Some (m d \<noteq> None \<or> OPENSSL_malloc avail 24, case m d of None \<Rightarrow> 0 | Some e \<Rightarrow> e, lh') \<and>
    lh_callback_depth lh' = lh_callback_depth lh \<and>
    table_ok hash_of compare lh' (if m d \<noteq> None \<or> OPENSSL_malloc avail 24 then \<lambda>x. if compare d x = 0 then Some d else m x else m)"
proof -
  obtain b xs ys where s: "get_next_ptr_and_hash lh d hash_of compare = Some (link_after b xs, hash_of d)"
    "bucket_of (hash_of d) (lh_num_buckets lh) = Some b" "b < length (lh_buckets lh)"
    "chain (lh_items lh) (lh_buckets lh ! b) (xs @ ys)" "distinct (xs @ ys)"
    "set (xs @ ys) = {i. placed (content_of (lh_items lh)) (lh_num_buckets lh) b i}"
    "read_link lh (link_after b xs) = Some (case ys of [] \<Rightarrow> None | j # _ \<Rightarrow> Some j)"
    "case ys of [] \<Rightarrow> m d = None | i # _ \<Rightarrow> \<exists>it. get_item (lh_items lh) i = Some it \<and> m d = Some (item_data it) \<and> compare (item_data it) d = 0"
    by (rule search [OF ok fns])
  show ?thesis
  proof (cases ys)
    case (Cons i vs)
    then obtain it where it: "get_item (lh_items lh) i = Some it" "m d = Some (item_data it)" "compare (item_data it) d = 0"
      using s(8) by auto
    then show ?thesis using s(1,7) Cons insert_found [OF ok fns it(1,3)] by (auto simp: OPENSSL_lh_insert_def)
  next
    case Nil
    show ?thesis
    proof (cases "OPENSSL_malloc avail 24")
      case False
      then show ?thesis using s(1,7,8) Nil ok by (simp add: OPENSSL_lh_insert_def)
    next
      case True
      obtain lh1 where w: "write_link (lh\<lparr>lh_items := lh_items lh @ [Some \<lparr>item_data = d, item_next = None, item_hash = hash_of d\<rparr>]\<rparr>)
          (link_after b xs) (Some (length (lh_items lh))) = Some lh1" "lh_num_items lh1 = lh_num_items lh"
        "lh_callback_depth lh1 = lh_callback_depth lh"
        "table_ok hash_of compare (lh1\<lparr>lh_num_items := lh_num_items lh + 1\<rparr>) (\<lambda>x. if compare d x = 0 then Some d else m x)"
        using insert_missing [OF ok fns _ s(2,3)] s(4-8) Nil by auto
      obtain lh2 where "lh_maybe_resize avail (lh1\<lparr>lh_num_items := lh_num_items lh + 1\<rparr>) = Some lh2"
        "table_ok hash_of compare lh2 (\<lambda>x. if compare d x = 0 then Some d else m x)" "lh_callback_depth lh2 = lh_callback_depth lh"
        by (rule resize_ok [OF w(4), of avail]) (simp add: w(3))
      then show ?thesis using s(1,7,8) Nil True w(1,2) by (auto simp: OPENSSL_lh_insert_def Let_def)
    qed
  qed
qed

lemma delete_ok:
  assumes ok: "table_ok hash_of compare lh m" and fns: "lhash_functions hash_of compare"
  shows "\<exists>lh'. OPENSSL_lh_delete avail lh d hash_of compare = Some (case m d of None \<Rightarrow> 0 | Some e \<Rightarrow> e, lh') \<and>
    lh_callback_depth lh' = lh_callback_depth lh \<and> table_ok hash_of compare lh' (\<lambda>x. if compare d x = 0 then None else m x)"
proof -
  let ?c = "content_of (lh_items lh)" and ?nb = "lh_num_buckets lh"
  have lo: "lay_out UNIV ?nb (lh_items lh) (lh_buckets lh)" and st: "stores hash_of compare ?c m"
    and n: "lh_num_items lh = of_nat (card (dom ?c))" using ok by (simp_all add: table_ok_def)
  obtain b xs ys where s: "get_next_ptr_and_hash lh d hash_of compare = Some (link_after b xs, hash_of d)"
    "bucket_of (hash_of d) (lh_num_buckets lh) = Some b" "b < length (lh_buckets lh)"
    "chain (lh_items lh) (lh_buckets lh ! b) (xs @ ys)" "distinct (xs @ ys)"
    "set (xs @ ys) = {i. placed ?c ?nb b i}"
    "read_link lh (link_after b xs) = Some (case ys of [] \<Rightarrow> None | j # _ \<Rightarrow> Some j)"
    "case ys of [] \<Rightarrow> m d = None | i # _ \<Rightarrow> \<exists>it. get_item (lh_items lh) i = Some it \<and> m d = Some (item_data it) \<and> compare (item_data it) d = 0"
    by (rule search [OF ok fns])
  show ?thesis
  proof (cases ys)
    case Nil
    have "(\<lambda>x. if compare d x = 0 then None else m x) = m"
    proof
      fix x
      have "m x = None" if x: "compare d x = 0"
      proof (rule ccontr)
        assume "m x \<noteq> None"
        then obtain e where "m x = Some e" by blast
        then have "m d = Some e" using stores_map [OF st] functions_same(3) [OF fns x] by blast
        then show False using s(8) Nil by simp
      qed
      then show "(if compare d x = 0 then None else m x) = m x" by simp
    qed
    then show ?thesis using s(1,7,8) Nil ok by (auto simp: OPENSSL_lh_delete_def)
  next
    case (Cons i vs)
    then obtain it where it: "get_item (lh_items lh) i = Some it" "m d = Some (item_data it)" "compare (item_data it) d = 0"
      using s(8) by auto
    note ci = content_of_get [OF it(1)]
    have i: "i \<notin> set xs" "i \<notin> set vs" "set xs \<inter> set vs = {}" "distinct xs" "distinct vs" "placed ?c ?nb b i"
      using s(5,6) Cons by auto
    obtain lh1 where w: "write_link lh (link_after b xs) (item_next it) = Some lh1" "chain (lh_items lh1) (lh_buckets lh1 ! b) (xs @ vs)"
      "\<And>c. c \<noteq> b \<Longrightarrow> lh_buckets lh1 ! c = lh_buckets lh ! c" "length (lh_buckets lh1) = length (lh_buckets lh)"
      "\<And>i. i \<notin> set xs \<Longrightarrow> get_item (lh_items lh1) i = get_item (lh_items lh) i" "content_of (lh_items lh1) = ?c"
      "length (lh_items lh1) = length (lh_items lh)" "lh_num_buckets lh1 = ?nb" "lh_num_items lh1 = lh_num_items lh"
      "lh_callback_depth lh1 = lh_callback_depth lh"
      by (rule write_link_after [OF s(3) s(4) i(4) chain_through [OF _ it(1)] i(3)]) (use s(4) Cons in auto)
    let ?h = "(lh_items lh1)[i := None]"
    have l: "i < length (lh_items lh1)" using get_item_length [OF it(1)] w(7) by simp
    have c: "content_of ?h = ?c(i := None)"
      using w(6) l by (auto simp: fun_eq_iff content_of_def get_item_update)
    have p: "placed (content_of ?h) nb c j = (j \<noteq> i \<and> placed ?c nb c j)" for nb c j by (simp add: c placed_def)
    let ?lh = "lh1\<lparr>lh_items := ?h, lh_num_items := lh_num_items lh - 1\<rparr>"
    have lo': "lay_out UNIV ?nb ?h (lh_buckets lh1)"
    proof (rule lay_out_update [OF lo s(3), of _ _ "xs @ vs"])
      show "chain ?h (lh_buckets lh1 ! b) (xs @ vs)"
        using w(2) i(1,2) l by (subst chain_cong) (auto simp: get_item_update)
      show "set (xs @ vs) = {j \<in> UNIV. placed (content_of ?h) ?nb b j}" using s(6) Cons i(1,2) by (auto simp: p)
      fix c j assume cb: "c \<noteq> b"
      show "(j \<in> UNIV \<and> placed (content_of ?h) ?nb c j) = (j \<in> UNIV \<and> placed ?c ?nb c j)"
        using placed_once [OF i(6)] cb by (auto simp: p)
      show "get_item ?h j = get_item (lh_items lh) j" if "placed ?c ?nb c j"
        using that cb w(5) [of j] s(6) placed_once [OF that, of b] i(6) l by (auto simp: get_item_update)
    qed (use w(3,4) i in auto)
    have "table_ok hash_of compare ?lh (\<lambda>x. if compare d x = 0 then None else m x)"
    proof (rule table_okI)
      show "stores hash_of compare (content_of (lh_items ?lh)) (\<lambda>x. if compare d x = 0 then None else m x)"
        using stores_delete [OF st fns ci it(3)] by (simp add: c)
      have "i \<in> dom ?c" using ci by auto
      then have "card (dom ?c) = Suc (card (dom ?c - {i}))" using content_finite by (metis card_Suc_Diff1)
      then show "lh_num_items ?lh = of_nat (card (dom (content_of (lh_items ?lh))))" using n by (simp add: c)
    qed (use lo' w(8) ok in \<open>simp_all add: table_ok_def\<close>)
    then obtain lh2 where "lh_maybe_resize avail ?lh = Some lh2"
      "table_ok hash_of compare lh2 (\<lambda>x. if compare d x = 0 then None else m x)" "lh_callback_depth lh2 = lh_callback_depth lh"
      by (rule resize_ok [of _ _ _ _ avail]) (simp add: w(10))
    then show ?thesis using s(1,7) Cons it(1,2) w(1,9) by (auto simp: OPENSSL_lh_delete_def Let_def)
  qed
qed

section \<open>Freeing a table\<close>

lemma free_chain_frees:
  "chain h p is \<Longrightarrow> distinct is \<Longrightarrow>
    \<exists>h'. free_chain p h = Some h' \<and> (\<forall>j. get_item h' j = (if j \<in> set is then None else get_item h j))"
proof (induction "is" arbitrary: p h)
  case Nil
  then show ?case by (subst free_chain.simps) simp
next
  case (Cons i "is")
  obtain it where it: "get_item h i = Some it" and p: "p = Some i" and c: "chain h (item_next it) is"
    using Cons.prems(1) by auto
  have li: "i < length h" by (rule get_item_length [OF it])
  have c': "chain (h[i := None]) (item_next it) is"
    using c Cons.prems(2) li by (subst chain_cong) (auto simp: get_item_update)
  obtain h' where "free_chain (item_next it) (h[i := None]) = Some h'"
    "\<forall>j. get_item h' j = (if j \<in> set is then None else get_item (h[i := None]) j)"
    using Cons.IH [OF c'] Cons.prems(2) by auto
  then show ?case unfolding p using it li by (subst free_chain.simps) (simp add: get_item_update)
qed

lemma from_Suc: "(\<exists>b. i \<le> b \<and> b < n \<and> P b) = (i < n \<and> P i \<or> (\<exists>b. Suc i \<le> b \<and> b < n \<and> P b))" for i :: nat
  by (metis Suc_leD Suc_leI le_neq_implies_less order_refl)

lemma free_buckets_frees:
  "i + n = length bs \<Longrightarrow>
    (\<forall>b. i \<le> b \<and> b < length bs \<longrightarrow> (\<exists>xs. chain h (bs ! b) xs \<and> distinct xs \<and> set xs = {j. placed c nb b j})) \<Longrightarrow>
    \<exists>h'. free_buckets n i bs h = Some h' \<and>
      (\<forall>j. get_item h' j = (if \<exists>b. i \<le> b \<and> b < length bs \<and> placed c nb b j then None else get_item h j))"
proof (induction n arbitrary: i h)
  case 0
  then show ?case by (auto simp del: split_paired_Ex)
next
  case (Suc n)
  have l: "i < length bs" using Suc.prems(1) by simp
  obtain xs where xs: "chain h (bs ! i) xs" "distinct xs" "set xs = {j. placed c nb i j}"
    using Suc.prems(2) l by blast
  obtain h1 where f: "free_chain (bs ! i) h = Some h1" "\<forall>j. get_item h1 j = (if j \<in> set xs then None else get_item h j)"
    using free_chain_frees [OF xs(1,2)] by blast
  have "\<exists>ys. chain h1 (bs ! b) ys \<and> distinct ys \<and> set ys = {j. placed c nb b j}" if b: "Suc i \<le> b" "b < length bs" for b
  proof -
    obtain ys where ys: "chain h (bs ! b) ys" "distinct ys" "set ys = {j. placed c nb b j}"
      using Suc.prems(2) b by (meson Suc_leD)
    have "chain h1 (bs ! b) ys = chain h (bs ! b) ys"
      by (rule chain_cong) (use ys(3) xs(3) f(2) b(1) placed_once [of c nb b _ i] in fastforce)
    then show ?thesis using ys by (intro exI [of _ ys]) simp
  qed
  then obtain h' where h': "free_buckets n (Suc i) bs h1 = Some h'"
    "\<forall>j. get_item h' j = (if \<exists>b. Suc i \<le> b \<and> b < length bs \<and> placed c nb b j then None else get_item h1 j)"
    using Suc.IH [of "Suc i" h1] Suc.prems(1) by auto
  have "get_item h' j = (if \<exists>b. i \<le> b \<and> b < length bs \<and> placed c nb b j then None else get_item h j)" for j
  proof -
    have "(\<exists>b. i \<le> b \<and> b < length bs \<and> placed c nb b j) = (placed c nb i j \<or> (\<exists>b. Suc i \<le> b \<and> b < length bs \<and> placed c nb b j))"
      using l by (simp add: from_Suc [of i])
    then show ?thesis using h'(2) f(2) xs(3) by auto
  qed
  then show ?case using f(1) h'(1) l by (simp add: get_bucket_def)
qed

lemma free_ok:
  assumes ok: "table_ok hash_of compare lh m"
  shows "\<exists>h. OPENSSL_lh_free (Some lh) = Some h \<and> (\<forall>i. get_item h i = None)"
proof -
  let ?c = "content_of (lh_items lh)" and ?nb = "lh_num_buckets lh"
  have lo: "lay_out UNIV ?nb (lh_items lh) (lh_buckets lh)" and nz: "?nb \<noteq> 0" using ok by (auto simp: table_ok_def)
  have len: "length (lh_buckets lh) = unat ?nb" using lo by (simp add: lay_out_def)
  obtain h where h: "free_buckets (unat ?nb) 0 (lh_buckets lh) (lh_items lh) = Some h"
    "\<forall>j. get_item h j = (if \<exists>b. 0 \<le> b \<and> b < length (lh_buckets lh) \<and> placed ?c ?nb b j then None else get_item (lh_items lh) j)"
    using free_buckets_frees [of 0 "unat ?nb" "lh_buckets lh" "lh_items lh" ?c ?nb] lo len by (auto simp: lay_out_def)
  have "get_item h j = None" for j
  proof (cases "get_item (lh_items lh) j")
    case None
    then show ?thesis using h(2) by simp
  next
    case (Some it)
    obtain b where b: "bucket_of (item_hash it) ?nb = Some b" using bucket_of_some [OF nz] by blast
    then have "placed ?c ?nb b j" "b < length (lh_buckets lh)"
      using content_of_get [OF Some] bucket_of_less [OF b] len by (auto simp: placed_def)
    then show ?thesis using h(2) by auto
  qed
  then show ?thesis using h(1) by (simp add: OPENSSL_lh_free_def)
qed

section \<open>Sequences of operations\<close>

text \<open>The table against a map from elements to the equal element that is stored.  A result is the
  return value of the call and the element it gives.\<close>

datatype lh_op = Insert "u64 \<Rightarrow> bool" addr | Delete "u64 \<Rightarrow> bool" addr | Retrieve addr

definition lh_step :: "(addr \<Rightarrow> u32) \<Rightarrow> (addr \<Rightarrow> addr \<Rightarrow> int) \<Rightarrow> lh_op \<Rightarrow> LHASH \<Rightarrow> ((bool \<times> addr) \<times> LHASH) option" where
  "lh_step hash_of compare operation lh = (case operation of
       Insert avail d \<Rightarrow> map_option (\<lambda>(ok, old, lh). ((ok, old), lh)) (OPENSSL_lh_insert avail lh d hash_of compare)
     | Delete avail d \<Rightarrow> map_option (\<lambda>(e, lh). ((e \<noteq> 0, e), lh)) (OPENSSL_lh_delete avail lh d hash_of compare)
     | Retrieve d \<Rightarrow> map_option (\<lambda>e. ((e \<noteq> 0, e), lh)) (OPENSSL_lh_retrieve lh d hash_of compare))"

fun lh_run :: "(addr \<Rightarrow> u32) \<Rightarrow> (addr \<Rightarrow> addr \<Rightarrow> int) \<Rightarrow> lh_op list \<Rightarrow> LHASH \<Rightarrow> ((bool \<times> addr) list \<times> LHASH) option" where
  "lh_run hash_of compare [] lh = Some ([], lh)"
| "lh_run hash_of compare (operation # rest) lh = do {
     (r, lh) \<leftarrow> lh_step hash_of compare operation lh;
     (rs, lh) \<leftarrow> lh_run hash_of compare rest lh;
     Some (r # rs, lh)
   }"

definition stored :: "(addr \<Rightarrow> addr option) \<Rightarrow> addr \<Rightarrow> addr" where
  "stored m d = (case m d of None \<Rightarrow> 0 | Some e \<Rightarrow> e)"

definition map_step :: "(addr \<Rightarrow> addr \<Rightarrow> int) \<Rightarrow> lh_op \<Rightarrow> (addr \<Rightarrow> addr option) \<Rightarrow> (bool \<times> addr) \<times> (addr \<Rightarrow> addr option)" where
  "map_step compare operation m = (case operation of
       Insert avail d \<Rightarrow>
         if m d = None \<and> \<not> OPENSSL_malloc avail 24 then ((False, 0), m)
         else ((True, stored m d), \<lambda>x. if compare d x = 0 then Some d else m x)
     | Delete avail d \<Rightarrow> ((stored m d \<noteq> 0, stored m d), \<lambda>x. if compare d x = 0 then None else m x)
     | Retrieve d \<Rightarrow> ((stored m d \<noteq> 0, stored m d), m))"

fun map_run :: "(addr \<Rightarrow> addr \<Rightarrow> int) \<Rightarrow> lh_op list \<Rightarrow> (addr \<Rightarrow> addr option) \<Rightarrow> (bool \<times> addr) list \<times> (addr \<Rightarrow> addr option)" where
  "map_run compare [] m = ([], m)"
| "map_run compare (operation # rest) m =
     (let (r, m) = map_step compare operation m; (rs, m) = map_run compare rest m in (r # rs, m))"

lemma step_ok:
  assumes ok: "table_ok hash_of compare lh m" and fns: "lhash_functions hash_of compare"
  shows "\<exists>lh'. lh_step hash_of compare operation lh = Some (fst (map_step compare operation m), lh') \<and>
    lh_callback_depth lh' = lh_callback_depth lh \<and> table_ok hash_of compare lh' (snd (map_step compare operation m))"
proof (cases operation)
  case (Insert avail d)
  then show ?thesis using insert_ok [OF ok fns, of avail d]
    by (cases "m d") (auto simp: lh_step_def map_step_def stored_def split: if_splits)
next
  case (Delete avail d)
  then show ?thesis using delete_ok [OF ok fns, of avail d] by (auto simp: lh_step_def map_step_def stored_def)
next
  case (Retrieve d)
  then show ?thesis using retrieve_ok [OF ok fns, of d] ok by (auto simp: lh_step_def map_step_def stored_def)
qed

lemma run_ok:
  assumes "lhash_functions hash_of compare"
  shows "table_ok hash_of compare lh m \<Longrightarrow>
    \<exists>lh'. lh_run hash_of compare ops lh = Some (fst (map_run compare ops m), lh') \<and>
      lh_callback_depth lh' = lh_callback_depth lh \<and> table_ok hash_of compare lh' (snd (map_run compare ops m))"
proof (induction ops arbitrary: lh m)
  case (Cons operation rest)
  obtain lh1 where s: "lh_step hash_of compare operation lh = Some (fst (map_step compare operation m), lh1)"
    "lh_callback_depth lh1 = lh_callback_depth lh" "table_ok hash_of compare lh1 (snd (map_step compare operation m))"
    using step_ok [OF Cons.prems assms] by blast
  then show ?case using s(2) Cons.IH [OF s(3)] by (auto simp: Let_def split_beta)
qed auto

section \<open>Iteration\<close>

lemma doall_chain_folds:
  "chain (lh_items lh) p is \<Longrightarrow>
    doall_chain (\<lambda>d (t, s). Some (t, g d s)) p (lh, s) = Some (lh, fold g (map (\<lambda>i. fst (the (content_of (lh_items lh) i))) is) s)"
proof (induction "is" arbitrary: p s)
  case Nil
  then show ?case by (subst doall_chain.simps) simp
next
  case (Cons i "is")
  then obtain it where it: "get_item (lh_items lh) i = Some it" "p = Some i" "chain (lh_items lh) (item_next it) is" by auto
  then show ?case using Cons.IH [OF it(3)] by (subst doall_chain.simps) (simp add: content_of_get)
qed

lemma doall_buckets_folds:
  assumes lo: "lay_out UNIV (lh_num_buckets lh) (lh_items lh) (lh_buckets lh)"
  shows "\<exists>js. doall_buckets (\<lambda>d (t, s). Some (t, g d s)) i (lh, s) =
      Some (lh, fold g (map (\<lambda>j. fst (the (content_of (lh_items lh) j))) js) s) \<and> distinct js \<and>
    set js = {j. \<exists>b. unat i \<le> b \<and> b < length (lh_buckets lh) \<and> placed (content_of (lh_items lh)) (lh_num_buckets lh) b j}"
proof (induction "unat (lh_num_buckets lh) - unat i" arbitrary: i s rule: less_induct)
  case less
  have len: "length (lh_buckets lh) = unat (lh_num_buckets lh)" using lo by (simp add: lay_out_def)
  show ?case
  proof (cases "i < lh_num_buckets lh")
    case False
    then have "unat (lh_num_buckets lh) \<le> unat i" by (simp add: not_less word_le_nat_alt)
    then show ?thesis using False len by (subst doall_buckets.simps) (auto intro!: exI [of _ "[]"])
  next
    case True
    then have l: "unat i < length (lh_buckets lh)" by (simp add: len word_less_nat_alt)
    have u: "unat (i + 1) = Suc (unat i)"
      using True unsigned_less [of "lh_num_buckets lh", where ?'a = nat] by (simp add: unat_word_ariths word_less_nat_alt)
    obtain xs where xs: "chain (lh_items lh) (lh_buckets lh ! unat i) xs" "distinct xs"
      "set xs = {j \<in> UNIV. placed (content_of (lh_items lh)) (lh_num_buckets lh) (unat i) j}"
      by (rule lay_outD [OF lo l])
    let ?s = "fold g (map (\<lambda>j. fst (the (content_of (lh_items lh) j))) xs) s"
    have dec: "unat (lh_num_buckets lh) - unat (i + 1) < unat (lh_num_buckets lh) - unat i" using l len u by simp
    obtain js where js: "doall_buckets (\<lambda>d (t, s). Some (t, g d s)) (i + 1) (lh, ?s) =
        Some (lh, fold g (map (\<lambda>j. fst (the (content_of (lh_items lh) j))) js) ?s)" "distinct js"
      "set js = {j. \<exists>b. unat (i + 1) \<le> b \<and> b < length (lh_buckets lh) \<and> placed (content_of (lh_items lh)) (lh_num_buckets lh) b j}"
      using less [OF dec, of ?s] by blast
    have "set xs \<inter> set js = {}" unfolding xs(3) js(3) u using placed_once by fastforce
    moreover have "set (xs @ js) = {j. \<exists>b. unat i \<le> b \<and> b < length (lh_buckets lh) \<and> placed (content_of (lh_items lh)) (lh_num_buckets lh) b j}"
      unfolding set_append xs(3) js(3) u from_Suc [of "unat i"] using l by auto
    ultimately show ?thesis using True l doall_chain_folds [OF xs(1), of g s] js(1,2) xs(2)
      by (subst doall_buckets.simps, intro exI [of _ "xs @ js"]) (simp add: get_bucket_def)
  qed
qed

lemma stored_elements:
  assumes fns: "lhash_functions hash_of compare" and st: "stores hash_of compare c m"
  shows "bij_betw (\<lambda>i. fst (the (c i))) (dom c) (ran m)"
proof -
  have refl: "compare e e = 0" for e using fns by (simp add: lhash_functions_def)
  have r: "e \<in> ran m \<longleftrightarrow> (\<exists>i k. c i = Some (e, k))" for e
  proof
    assume "e \<in> ran m"
    then obtain x where "m x = Some e" by (auto simp: ran_def)
    then show "\<exists>i k. c i = Some (e, k)" using stores_map [OF st, of x e] by blast
  next
    assume "\<exists>i k. c i = Some (e, k)"
    then have "m e = Some e" using stores_map [OF st, of e e] refl by blast
    then show "e \<in> ran m" by (rule ranI)
  qed
  show ?thesis
  proof (rule bij_betwI')
    fix i j assume ij: "i \<in> dom c" "j \<in> dom c"
    then obtain d k d' k' where c: "c i = Some (d, k)" "c j = Some (d', k')" by auto
    then show "(fst (the (c i)) = fst (the (c j))) = (i = j)"
      using stores_once [OF st c] refl by auto
    show "fst (the (c i)) \<in> ran m" using c(1) r by auto
  next
    fix e assume "e \<in> ran m"
    then show "\<exists>i\<in>dom c. e = fst (the (c i))" using r by force
  qed
qed

text \<open>C8: a hash table refines a map: every sequence of insertions, deletions and retrievals gives the results the map
  gives, with its number of elements, whichever allocations fail (without its item an insertion fails and changes nothing, and a
  resizing that fails is not noticed), whatever the chains and the resizing do; and freeing the table frees every item.\<close>

lemma lhash_refines_map:
  assumes "lhash_functions hash_of compare" "OPENSSL_lh_new avail = Some lh"
  shows "\<exists>lh' h. lh_run hash_of compare ops lh = Some (fst (map_run compare ops Map.empty), lh') \<and>
    OPENSSL_lh_num_items lh' = of_nat (card (ran (snd (map_run compare ops Map.empty)))) \<and>
    OPENSSL_lh_free (Some lh') = Some h \<and> (\<forall>i. get_item h i = None)"
proof -
  obtain lh' where r: "lh_run hash_of compare ops lh = Some (fst (map_run compare ops Map.empty), lh')"
    "table_ok hash_of compare lh' (snd (map_run compare ops Map.empty))"
    using run_ok [OF assms(1) table_ok_new [OF assms(2)]] by blast
  have "OPENSSL_lh_num_items lh' = of_nat (card (ran (snd (map_run compare ops Map.empty))))"
    using r(2) bij_betw_same_card [OF stored_elements [OF assms(1), of "content_of (lh_items lh')" "snd (map_run compare ops Map.empty)"]]
    by (simp add: table_ok_def OPENSSL_lh_num_items_def)
  then show ?thesis using r free_ok [OF r(2)] by blast
qed

lemma doall_ok:
  assumes ok: "table_ok hash_of compare lh m" and fns: "lhash_functions hash_of compare" and z: "lh_callback_depth lh = 0"
  shows "\<exists>lh' ds. OPENSSL_lh_doall_arg avail (Some lh) (\<lambda>d (t, s). Some (t, g d s)) s = Some (Some lh', fold g ds s) \<and>
    distinct ds \<and> set ds = ran m \<and> lh_callback_depth lh' = 0 \<and> table_ok hash_of compare lh' m"
proof -
  let ?c = "content_of (lh_items lh)" and ?dat = "\<lambda>j. fst (the (content_of (lh_items lh) j))" and ?lh = "lh\<lparr>lh_callback_depth := 1\<rparr>"
  have lo: "lay_out UNIV (lh_num_buckets lh) (lh_items lh) (lh_buckets lh)" and st: "stores hash_of compare ?c m"
    and nz: "lh_num_buckets lh \<noteq> 0" using ok by (auto simp: table_ok_def)
  obtain js where js: "doall_buckets (\<lambda>d (t, s). Some (t, g d s)) 0 (?lh, s) = Some (?lh, fold g (map ?dat js) s)" "distinct js"
    "set js = {j. \<exists>b. b < length (lh_buckets lh) \<and> placed ?c (lh_num_buckets lh) b j}"
    using doall_buckets_folds [of ?lh g 0 s] lo by auto
  have "set js = dom ?c"
  proof
    show "set js \<subseteq> dom ?c" unfolding js(3) placed_def by auto
    show "dom ?c \<subseteq> set js"
    proof
      fix j assume "j \<in> dom ?c"
      then obtain d k where "?c j = Some (d, k)" by auto
      moreover obtain b where "bucket_of k (lh_num_buckets lh) = Some b" using bucket_of_some [OF nz] by blast
      ultimately show "j \<in> set js"
        unfolding js(3) using lo bucket_of_less [of k _ b] by (auto simp: placed_def lay_out_def)
    qed
  qed
  then have ds: "distinct (map ?dat js)" "set (map ?dat js) = ran m"
    using stored_elements [OF fns st] js(2) by (auto simp: bij_betw_def distinct_map)
  have "table_ok hash_of compare (?lh\<lparr>lh_callback_depth := 0\<rparr>) m" using ok by (simp add: table_ok_def)
  then obtain lh' where r: "lh_maybe_resize avail (?lh\<lparr>lh_callback_depth := 0\<rparr>) = Some lh'" "table_ok hash_of compare lh' m"
    "lh_callback_depth lh' = 0"
    by (rule resize_ok [of _ _ _ _ avail]) simp
  have "OPENSSL_lh_doall_arg avail (Some lh) (\<lambda>d (t, s). Some (t, g d s)) s = Some (Some lh', fold g (map ?dat js) s)"
    using js(1) r(1) z by (simp add: OPENSSL_lh_doall_arg_def Let_def)
  then show ?thesis using ds r(2,3) by blast
qed

text \<open>C17: iterating over a hash table calls the function once for each element that the operations before have left in it,
  whatever the resizing did, and leaves the table as it was for the operations that follow.\<close>

lemma lhash_doall_visits_each_once:
  assumes "lhash_functions hash_of compare" "OPENSSL_lh_new avail = Some lh"
  shows "\<exists>rs lh1 lh2 ds. lh_run hash_of compare ops lh = Some (rs, lh1) \<and>
    OPENSSL_lh_doall_arg avail' (Some lh1) (\<lambda>d (t, s). Some (t, g d s)) s = Some (Some lh2, fold g ds s) \<and>
    distinct ds \<and> set ds = ran (snd (map_run compare ops Map.empty)) \<and> lh_callback_depth lh2 = 0 \<and>
    map_option fst (lh_run hash_of compare ops' lh2) = Some (fst (map_run compare ops' (snd (map_run compare ops Map.empty))))"
proof -
  have z: "lh_callback_depth lh = 0" using assms(2) by (auto simp: OPENSSL_lh_new_def split: if_splits)
  obtain lh1 where r: "lh_run hash_of compare ops lh = Some (fst (map_run compare ops Map.empty), lh1)"
    "lh_callback_depth lh1 = lh_callback_depth lh" "table_ok hash_of compare lh1 (snd (map_run compare ops Map.empty))"
    using run_ok [OF assms(1) table_ok_new [OF assms(2)], of ops] by blast
  obtain lh2 ds where d: "OPENSSL_lh_doall_arg avail' (Some lh1) (\<lambda>d (t, s). Some (t, g d s)) s = Some (Some lh2, fold g ds s)"
    "distinct ds" "set ds = ran (snd (map_run compare ops Map.empty))" "lh_callback_depth lh2 = 0"
    "table_ok hash_of compare lh2 (snd (map_run compare ops Map.empty))"
    using doall_ok [OF r(3) assms(1) r(2) [unfolded z], of avail' g s] by blast
  have e: "map_option fst (lh_run hash_of compare ops' lh2) = Some (fst (map_run compare ops' (snd (map_run compare ops Map.empty))))"
    using run_ok [OF assms(1) d(5), of ops'] by auto
  show ?thesis
    by (rule exI, rule exI, rule exI, rule exI, intro conjI, rule r(1), rule d(1), rule d(2), rule d(3), rule d(4), rule e)
qed

lemma lhash_doall_visits_each_once_witness:
  "\<exists>lh. OPENSSL_lh_new (\<lambda>_. True) = Some lh \<and>
    (\<exists>rs lh1 lh2 ds. lh_run of_nat (\<lambda>a b. if a = b then 0 else 1) [Insert (\<lambda>_. True) 5, Insert (\<lambda>_. True) 21] lh = Some (rs, lh1) \<and>
      OPENSSL_lh_doall_arg (\<lambda>_. True) (Some lh1) (\<lambda>d (t, s). Some (t, d # s)) [] = Some (Some lh2, fold (#) ds []) \<and>
      distinct ds \<and> set ds = {5, 21} \<and> lh_callback_depth lh2 = 0)"
proof -
  have n: "\<exists>lh. OPENSSL_lh_new (\<lambda>_. True) = Some lh"
    by (simp add: OPENSSL_lh_new_def OPENSSL_malloc_def OPENSSL_MALLOC_PREFIX_def kMinNumBuckets_def)
  then obtain lh where lh: "OPENSSL_lh_new (\<lambda>_. True) = Some lh" by blast
  have f: "lhash_functions of_nat (\<lambda>a b. if a = b then 0 else 1)" by (simp add: lhash_functions_def)
  have m: "ran (snd (map_run (\<lambda>a b. if a = b then 0 else 1) [Insert (\<lambda>_. True) 5, Insert (\<lambda>_. True) 21] Map.empty)) = {5, 21}"
    by (auto simp: ran_def map_step_def OPENSSL_malloc_def OPENSSL_MALLOC_PREFIX_def split: if_splits)
  show ?thesis
    using lhash_doall_visits_each_once [OF f lh, of "[Insert (\<lambda>_. True) 5, Insert (\<lambda>_. True) 21]" "\<lambda>_. True" "(#)" "[]" "[]"] lh
    unfolding m by blast
qed

lemma lhash_refines_map_witness:
  "\<exists>lh lh' h. OPENSSL_lh_new (\<lambda>_. True) = Some lh \<and>
    lh_run of_nat (\<lambda>a b. if a = b then 0 else 1)
      [Insert (\<lambda>_. True) 5, Insert (\<lambda>_. True) 21, Insert (\<lambda>_. False) 7, Delete (\<lambda>_. True) 5, Retrieve 5, Retrieve 21] lh =
      Some ([(True, 0), (True, 0), (False, 0), (True, 5), (False, 0), (True, 21)], lh') \<and>
    OPENSSL_lh_num_items lh' = 1 \<and> OPENSSL_lh_free (Some lh') = Some h \<and> get_item h 0 = None"
proof -
  let ?ops = "[Insert (\<lambda>_. True) 5, Insert (\<lambda>_. True) 21, Insert (\<lambda>_. False) 7, Delete (\<lambda>_. True) 5, Retrieve 5, Retrieve 21]"
  obtain lh where lh: "OPENSSL_lh_new (\<lambda>_. True) = Some lh"
    by (simp add: OPENSSL_lh_new_def OPENSSL_malloc_def OPENSSL_MALLOC_PREFIX_def kMinNumBuckets_def)
  have f: "lhash_functions of_nat (\<lambda>a b. if a = b then 0 else 1)" by (simp add: lhash_functions_def)
  have r: "fst (map_run (\<lambda>a b. if a = b then 0 else 1) ?ops Map.empty) =
      [(True, 0), (True, 0), (False, 0), (True, 5), (False, 0), (True, 21)]"
    and m: "ran (snd (map_run (\<lambda>a b. if a = b then 0 else 1) ?ops Map.empty)) = {21}"
    by (auto simp: ran_def map_step_def stored_def OPENSSL_malloc_def OPENSSL_MALLOC_PREFIX_def split: if_splits)
  show ?thesis using lhash_refines_map [OF f lh, of ?ops] lh unfolding r m by auto
qed

end
