(* ===== verification/ConstTime.thy ===== *)
theory ConstTime
  imports Prelude
begin

text \<open>
  BoringSSL, \<^verbatim>\<open>ios/Pods/BoringSSL-GRPC/src/crypto/internal.h\<close>: the branch-free comparisons and
  selections on machine words.  \<open>crypto_word_t\<close> is \<open>uint64_t\<close> (\<^verbatim>\<open>OPENSSL_64_BIT\<close>); the inline
  assembly of \<open>value_barrier_w\<close> returns its argument.
\<close>

type_synonym crypto_word_t = u64

definition CONSTTIME_TRUE_W :: crypto_word_t where "CONSTTIME_TRUE_W = NOT 0"
definition CONSTTIME_FALSE_W :: crypto_word_t where "CONSTTIME_FALSE_W = 0"
definition CONSTTIME_TRUE_8 :: byte where "CONSTTIME_TRUE_8 = 0xFF"
definition CONSTTIME_FALSE_8 :: byte where "CONSTTIME_FALSE_8 = 0"

definition value_barrier_w :: "crypto_word_t \<Rightarrow> crypto_word_t" where
  "value_barrier_w a = a"

definition constant_time_msb_w :: "crypto_word_t \<Rightarrow> crypto_word_t" where
  "constant_time_msb_w a = 0 - drop_bit (8 * 8 - 1) a"

definition constant_time_lt_w :: "crypto_word_t \<Rightarrow> crypto_word_t \<Rightarrow> crypto_word_t" where
  "constant_time_lt_w a b = constant_time_msb_w (a XOR ((a XOR b) OR ((a - b) XOR a)))"

definition constant_time_lt_8 :: "crypto_word_t \<Rightarrow> crypto_word_t \<Rightarrow> byte" where
  "constant_time_lt_8 a b = ucast (constant_time_lt_w a b)"

definition constant_time_ge_w :: "crypto_word_t \<Rightarrow> crypto_word_t \<Rightarrow> crypto_word_t" where
  "constant_time_ge_w a b = NOT (constant_time_lt_w a b)"

definition constant_time_ge_8 :: "crypto_word_t \<Rightarrow> crypto_word_t \<Rightarrow> byte" where
  "constant_time_ge_8 a b = ucast (constant_time_ge_w a b)"

definition constant_time_is_zero_w :: "crypto_word_t \<Rightarrow> crypto_word_t" where
  "constant_time_is_zero_w a = constant_time_msb_w (NOT a AND (a - 1))"

definition constant_time_is_zero_8 :: "crypto_word_t \<Rightarrow> byte" where
  "constant_time_is_zero_8 a = ucast (constant_time_is_zero_w a)"

definition constant_time_eq_w :: "crypto_word_t \<Rightarrow> crypto_word_t \<Rightarrow> crypto_word_t" where
  "constant_time_eq_w a b = constant_time_is_zero_w (a XOR b)"

definition constant_time_eq_8 :: "crypto_word_t \<Rightarrow> crypto_word_t \<Rightarrow> byte" where
  "constant_time_eq_8 a b = ucast (constant_time_eq_w a b)"

definition constant_time_eq_int :: "u32 \<Rightarrow> u32 \<Rightarrow> crypto_word_t" where
  "constant_time_eq_int a b = constant_time_eq_w (scast a) (scast b)"

definition constant_time_eq_int_8 :: "u32 \<Rightarrow> u32 \<Rightarrow> byte" where
  "constant_time_eq_int_8 a b = constant_time_eq_8 (scast a) (scast b)"

definition constant_time_select_w ::
  "crypto_word_t \<Rightarrow> crypto_word_t \<Rightarrow> crypto_word_t \<Rightarrow> crypto_word_t" where
  "constant_time_select_w msk a b =
     (value_barrier_w msk AND a) OR (value_barrier_w (NOT msk) AND b)"

definition constant_time_select_8 :: "byte \<Rightarrow> byte \<Rightarrow> byte \<Rightarrow> byte" where
  "constant_time_select_8 msk a b = ucast (constant_time_select_w (ucast msk) (ucast a) (ucast b))"

definition constant_time_select_int :: "crypto_word_t \<Rightarrow> u32 \<Rightarrow> u32 \<Rightarrow> u32" where
  "constant_time_select_int msk a b = ucast (constant_time_select_w msk (scast a) (scast b))"

section \<open>What they compute\<close>

lemma bit_63: "bit (w :: u64) 63 \<longleftrightarrow> 2 ^ 63 \<le> unat w"
proof -
  have "bit w 63 \<longleftrightarrow> odd (unat w div 2 ^ 63)"
    using bit_iff_odd [of "unat w" 63] bit_unsigned_iff [of w 63, where 'a = nat] by simp
  moreover have "unat w div 2 ^ 63 < 2" using unat_u64_less [of w] by simp
  ultimately show ?thesis
    by (cases "2 ^ 63 \<le> unat w") (auto simp: div_greater_zero_iff odd_iff_mod_2_eq_one less_2_cases_iff)
qed

lemma constant_time_msb_w: "constant_time_msb_w a = (if bit a 63 then CONSTTIME_TRUE_W else 0)"
proof -
  have "drop_bit 63 a = (if bit a 63 then 1 else 0)"
  proof (rule bit_word_eqI)
    show "bit (drop_bit 63 a) n = bit (if bit a 63 then 1 else 0 :: u64) n" for n
      using bit_imp_le_length [of a "63 + n"] by (cases "n = 0") (auto simp: bit_drop_bit_eq bit_1_iff)
  qed
  then show ?thesis by (simp add: constant_time_msb_w_def CONSTTIME_TRUE_W_def)
qed

lemma msb_minus:
  assumes "bit (a :: u64) 63 = bit b 63"
  shows "bit (a - b) 63 \<longleftrightarrow> a < b"
proof (cases "b \<le> a")
  case True
  then have "unat (a - b) = unat a - unat b" by (simp add: unat_sub)
  then show ?thesis
    using True assms unat_u64_less [of a] unat_u64_less [of b]
    by (auto simp: bit_63 word_le_nat_alt word_less_nat_alt)
next
  case False
  then have "unat (a - b) = 2 ^ 64 + unat a - unat b"
    by (simp add: unat_sub_if' word_le_nat_alt)
  then show ?thesis
    using False assms unat_u64_less [of a] unat_u64_less [of b]
    by (auto simp: bit_63 word_le_nat_alt word_less_nat_alt)
qed

lemma constant_time_lt_w:
  "constant_time_lt_w a b = (if a < b then CONSTTIME_TRUE_W else CONSTTIME_FALSE_W)"
proof (cases "bit a 63 = bit b 63")
  case True
  then show ?thesis
    using msb_minus [OF True]
    by (auto simp: constant_time_lt_w_def constant_time_msb_w bit_xor_iff bit_or_iff CONSTTIME_FALSE_W_def)
next
  case False
  then have "bit b 63 \<longleftrightarrow> a < b" by (auto simp: bit_63 word_less_nat_alt)
  then show ?thesis using False
    by (auto simp: constant_time_lt_w_def constant_time_msb_w bit_xor_iff bit_or_iff CONSTTIME_FALSE_W_def)
qed

lemma constant_time_is_zero_w:
  "constant_time_is_zero_w a = (if a = 0 then CONSTTIME_TRUE_W else CONSTTIME_FALSE_W)"
proof -
  have "\<not> bit a 63 \<and> bit (a - 1) 63 \<longleftrightarrow> a = 0"
  proof (cases "a = 0")
    case True
    have "bit (- 1 :: u64) 63" by simp
    then show ?thesis using True by simp
  next
    case False
    then have "unat (a - 1) = unat a - 1" by (simp add: unat_minus_one)
    then show ?thesis using False by (auto simp: bit_63)
  qed
  then show ?thesis
    by (auto simp: constant_time_is_zero_w_def constant_time_msb_w bit_and_iff bit_not_iff
        CONSTTIME_FALSE_W_def)
qed

lemma constant_time_eq_w:
  "constant_time_eq_w a b = (if a = b then CONSTTIME_TRUE_W else CONSTTIME_FALSE_W)"
proof -
  have "a XOR b = 0 \<longleftrightarrow> a = b" by (auto simp: bit_eq_iff bit_xor_iff)
  then show ?thesis by (simp add: constant_time_eq_w_def constant_time_is_zero_w)
qed

lemma constant_time_select_w:
  "constant_time_select_w CONSTTIME_TRUE_W a b = a" "constant_time_select_w CONSTTIME_FALSE_W a b = b"
  by (simp_all add: constant_time_select_w_def value_barrier_w_def CONSTTIME_TRUE_W_def
      CONSTTIME_FALSE_W_def)

lemma bit_TRUE_8: "bit CONSTTIME_TRUE_8 n \<longleftrightarrow> n < 8"
proof -
  have "CONSTTIME_TRUE_8 = mask 8" by (simp add: CONSTTIME_TRUE_8_def mask_eq_exp_minus_1)
  from arg_cong [OF this, of "\<lambda>w. bit w n"] show ?thesis by (simp add: bit_mask_iff)
qed

lemma ucast_TRUE_W [simp]:
  "ucast CONSTTIME_TRUE_W = CONSTTIME_TRUE_8" "ucast CONSTTIME_FALSE_W = CONSTTIME_FALSE_8"
proof -
  show "ucast CONSTTIME_TRUE_W = CONSTTIME_TRUE_8"
    by (rule bit_word_eqI) (simp add: bit_TRUE_8 bit_ucast_iff CONSTTIME_TRUE_W_def)
qed (simp add: CONSTTIME_FALSE_W_def CONSTTIME_FALSE_8_def)

lemma constant_time_eq_8:
  "constant_time_eq_8 a b = (if a = b then CONSTTIME_TRUE_8 else CONSTTIME_FALSE_8)"
  by (simp add: constant_time_eq_8_def constant_time_eq_w)

lemma constant_time_select_8:
  "constant_time_select_8 CONSTTIME_TRUE_8 a b = a" "constant_time_select_8 CONSTTIME_FALSE_8 a b = b"
proof -
  show "constant_time_select_8 CONSTTIME_TRUE_8 a b = a"
    by (rule bit_word_eqI)
      (auto simp: constant_time_select_8_def constant_time_select_w_def value_barrier_w_def
        bit_TRUE_8 bit_ucast_iff bit_or_iff bit_and_iff bit_not_iff)
  show "constant_time_select_8 CONSTTIME_FALSE_8 a b = b"
    by (rule bit_word_eqI)
      (auto simp: constant_time_select_8_def constant_time_select_w_def value_barrier_w_def
        CONSTTIME_FALSE_8_def bit_ucast_iff bit_or_iff bit_and_iff bit_not_iff)
qed

text \<open>C39: The branch-free comparisons of BoringSSL are comparisons: for all 64-bit words the mask is
  all ones exactly when the relation holds and zero otherwise, also where \<open>a - b\<close> wraps around, and
  selecting with such a mask returns the first or the second argument.\<close>

theorem constant_time_masks:
  "constant_time_lt_w a b = (if a < b then CONSTTIME_TRUE_W else CONSTTIME_FALSE_W) \<and>
   constant_time_ge_w a b = (if a \<ge> b then CONSTTIME_TRUE_W else CONSTTIME_FALSE_W) \<and>
   constant_time_eq_w a b = (if a = b then CONSTTIME_TRUE_W else CONSTTIME_FALSE_W) \<and>
   constant_time_eq_int x y = (if x = y then CONSTTIME_TRUE_W else CONSTTIME_FALSE_W) \<and>
   constant_time_select_w (constant_time_lt_w a b) c d = (if a < b then c else d) \<and>
   constant_time_select_int (constant_time_lt_w a b) x y = (if a < b then x else y)"
proof (intro conjI)
  show "constant_time_ge_w a b = (if a \<ge> b then CONSTTIME_TRUE_W else CONSTTIME_FALSE_W)"
    by (auto simp: constant_time_ge_w_def constant_time_lt_w CONSTTIME_TRUE_W_def CONSTTIME_FALSE_W_def)
  have "scast (scast z :: u64) = z" for z :: u32
    by (rule scast_up_scast_id) (simp add: is_up)
  moreover have "ucast (w :: u64) = (scast w :: u32)" for w
    by (rule fun_cong [OF down_cast_same]) (simp add: is_down)
  ultimately have down: "ucast (scast z :: u64) = z" for z :: u32 by simp
  then have inj: "scast x = (scast y :: u64) \<longleftrightarrow> x = y"
    using down [of x] down [of y] by metis
  then show "constant_time_eq_int x y = (if x = y then CONSTTIME_TRUE_W else CONSTTIME_FALSE_W)"
    by (simp add: constant_time_eq_int_def constant_time_eq_w)
  show "constant_time_select_int (constant_time_lt_w a b) x y = (if a < b then x else y)"
    by (simp add: constant_time_select_int_def constant_time_lt_w constant_time_select_w down)
qed (simp_all add: constant_time_lt_w constant_time_eq_w constant_time_select_w)

end
