(* ===== verification/Base64.thy ===== *)
theory Base64
  imports ConstTime
begin

text \<open>
  BoringSSL, \<^verbatim>\<open>ios/Pods/BoringSSL-GRPC/src/crypto/base64/base64.c\<close>: one-shot and streaming
  base64, with the alphabet conversions done in constant time.

  Arrays that a function reads are lists, their length the length argument of the source.  What a
  function writes through \<open>out\<close> is the list of the bytes it has written when it returns, from
  \<open>out[0]\<close> on.  \<^term>\<open>None\<close> stands for a failed \<open>assert\<close> or an access outside an array.
\<close>

section \<open>The alphabet\<close>

definition constant_time_lt_args_8 :: "byte \<Rightarrow> byte \<Rightarrow> byte" where
  "constant_time_lt_args_8 a b =
     (let aw = ucast a :: crypto_word_t; bw = ucast b in ucast (constant_time_msb_w (aw - bw)))"

definition constant_time_in_range_8 :: "byte \<Rightarrow> byte \<Rightarrow> byte \<Rightarrow> byte" where
  "constant_time_in_range_8 a mn mx = constant_time_lt_args_8 (a - mn) (mx - mn + 1)"

definition conv_bin2ascii :: "byte \<Rightarrow> byte" where
  "conv_bin2ascii a =
     (let a = a AND 0x3F;
          ret = constant_time_select_8 (constant_time_eq_8 (ucast a) 62) 0x2B 0x2F;
          ret = constant_time_select_8 (constant_time_lt_args_8 a 62) (a - 52 + 0x30) ret;
          ret = constant_time_select_8 (constant_time_lt_args_8 a 52) (a - 26 + 0x61) ret
      in constant_time_select_8 (constant_time_lt_args_8 a 26) (a + 0x41) ret)"

definition base64_ascii_to_bin :: "byte \<Rightarrow> byte" where
  "base64_ascii_to_bin a =
     (let is_upper = constant_time_in_range_8 a 0x41 0x5A;
          is_lower = constant_time_in_range_8 a 0x61 0x7A;
          is_digit = constant_time_in_range_8 a 0x30 0x39;
          is_plus = constant_time_eq_8 (ucast a) 0x2B;
          is_slash = constant_time_eq_8 (ucast a) 0x2F;
          is_equals = constant_time_eq_8 (ucast a) 0x3D;
          ret = 0;
          ret = ret OR (is_upper AND (a - 0x41));
          ret = ret OR (is_lower AND (a - 0x61 + 26));
          ret = ret OR (is_digit AND (a - 0x30 + 52));
          ret = ret OR (is_plus AND 62);
          ret = ret OR (is_slash AND 63);
          is_valid = is_upper OR is_lower OR is_digit OR is_plus OR is_slash OR is_equals
      in ret OR NOT is_valid)"

section \<open>Encoding\<close>

text \<open>The result is the success flag with \<open>*out_len\<close>.\<close>

definition EVP_EncodedLength :: "u64 \<Rightarrow> u64 option" where
  "EVP_EncodedLength len =
     (if len + 2 < len then None
      else
        let len = (len + 2) div 3 in
        if drop_bit 2 (push_bit 2 len) \<noteq> len then None
        else
          let len = push_bit 2 len in
          if len + 1 < len then None else Some (len + 1))"

record EVP_ENCODE_CTX =
  data_used :: u32
  ctx_data :: bytes
  eof_seen :: bool
  error_encountered :: bool

definition zero_ctx :: EVP_ENCODE_CTX where
  "zero_ctx = \<lparr>data_used = 0, ctx_data = replicate 48 0, eof_seen = False,
     error_encountered = False\<rparr>"

definition EVP_EncodeInit :: "EVP_ENCODE_CTX \<Rightarrow> EVP_ENCODE_CTX" where
  "EVP_EncodeInit ctx = zero_ctx"

text \<open>The four characters of three bytes.\<close>

definition encode_three :: "u32 \<Rightarrow> bytes" where
  "encode_three l = [conv_bin2ascii (ucast (drop_bit 18 l)), conv_bin2ascii (ucast (drop_bit 12 l)),
     conv_bin2ascii (ucast (drop_bit 6 l)), conv_bin2ascii (ucast l)]"

text \<open>The loop \<open>while (remaining)\<close>: what it writes to \<open>dst\<close>, and \<open>ret\<close>.\<close>

fun encode_block_loop :: "bytes \<Rightarrow> u64 \<Rightarrow> bytes \<times> u64" where
  "encode_block_loop [] ret = ([], ret)"
| "encode_block_loop [a] ret =
     (let l = push_bit 16 (ucast a) :: u32 in
      ([conv_bin2ascii (ucast (drop_bit 18 l)), conv_bin2ascii (ucast (drop_bit 12 l)), 0x3D, 0x3D],
       ret + 4))"
| "encode_block_loop [a, b] ret =
     (let l = push_bit 16 (ucast a) OR push_bit 8 (ucast b) :: u32 in
      ([conv_bin2ascii (ucast (drop_bit 18 l)), conv_bin2ascii (ucast (drop_bit 12 l)),
        conv_bin2ascii (ucast (drop_bit 6 l)), 0x3D], ret + 4))"
| "encode_block_loop (a # b # c # src) ret =
     (let l = push_bit 16 (ucast a) OR push_bit 8 (ucast b) OR ucast c :: u32;
          (dst, ret) = encode_block_loop src (ret + 4)
      in (encode_three l @ dst, ret))"

definition EVP_EncodeBlock :: "bytes \<Rightarrow> bytes \<times> u64" where
  "EVP_EncodeBlock src = (let (dst, ret) = encode_block_loop src 0 in (dst @ [0], ret))"

text \<open>
  \<open>memcpy(&ctx->data[ctx->data_used], in, n)\<close>; the callers check that it stays inside \<open>data\<close>.
\<close>

definition fill_data :: "EVP_ENCODE_CTX \<Rightarrow> bytes \<Rightarrow> bytes" where
  "fill_data ctx inp =
     take (unat (data_used ctx)) (ctx_data ctx) @ inp @
     drop (unat (data_used ctx) + length inp) (ctx_data ctx)"

text \<open>One line of output: \<open>EVP_EncodeBlock\<close> and the newline that overwrites its NUL.\<close>

definition encode_line :: "bytes \<Rightarrow> bytes \<times> u64" where
  "encode_line src = (let (dst, encoded) = EVP_EncodeBlock src in (butlast dst @ [0x0A], encoded))"

text \<open>
  The loop over whole lines: the input left, the lines, and \<open>total\<close> (here \<open>tot\<close>), \<^term>\<open>None\<close> when it overflows
  and the function returns early.
\<close>

function encode_lines :: "bytes \<Rightarrow> bytes \<Rightarrow> u64 \<Rightarrow> bytes \<times> bytes \<times> u64 option" where
  "encode_lines inp out tot =
     (if 48 \<le> length inp then
        let (line, encoded) = encode_line (take 48 inp) in
        if tot + encoded + 1 < tot then (drop 48 inp, out @ line, None)
        else encode_lines (drop 48 inp) (out @ line) (tot + (encoded + 1))
      else (inp, out, Some tot))"
  by pat_completeness auto
termination by (relation "measure (\<lambda>(inp, _). length inp)") auto

declare encode_lines.simps [simp del]

definition INT_MAX :: u64 where "INT_MAX = 0x7FFFFFFF"

text \<open>\<open>*out = '\0'\<close> follows the last line.\<close>

definition with_nul :: "bytes \<Rightarrow> bytes" where
  "with_nul out = (if out = [] then [] else out @ [0])"

text \<open>The new context, the bytes written and \<open>*out_len\<close>.\<close>

definition EVP_EncodeUpdate ::
  "EVP_ENCODE_CTX \<Rightarrow> bytes \<Rightarrow> (EVP_ENCODE_CTX \<times> bytes \<times> int) option" where
  "EVP_EncodeUpdate ctx inp =
     (if inp = [] then Some (ctx, [], 0)
      else if data_used ctx \<ge> 48 then None
      else if 48 - unat (data_used ctx) > length inp then
        Some (ctx\<lparr>ctx_data := fill_data ctx inp, data_used := data_used ctx + of_nat (length inp)\<rparr>,
              [], 0)
      else
        let todo = 48 - unat (data_used ctx);
            (ctx, inp, out, tot) =
              (if data_used ctx \<noteq> 0 then
                 let full = fill_data ctx (take todo inp); (line, encoded) = encode_line full
                 in (ctx\<lparr>ctx_data := full, data_used := 0\<rparr>, drop todo inp, line, encoded + 1)
               else (ctx, inp, [], 0));
            (inp, out, tot) = encode_lines inp out tot
        in (case tot of
              None \<Rightarrow> Some (ctx, with_nul out, 0)
            | Some tot \<Rightarrow>
                Some (ctx\<lparr>ctx_data := (if inp \<noteq> [] then inp @ drop (length inp) (ctx_data ctx)
                                      else ctx_data ctx), data_used := of_nat (length inp)\<rparr>,
                      with_nul out, if tot > INT_MAX then 0 else uint tot)))"

definition EVP_EncodeFinal :: "EVP_ENCODE_CTX \<Rightarrow> EVP_ENCODE_CTX \<times> bytes \<times> int" where
  "EVP_EncodeFinal ctx =
     (if data_used ctx = 0 then (ctx, [], 0)
      else
        let (line, encoded) = encode_line (take (unat (data_used ctx)) (ctx_data ctx))
        in (ctx\<lparr>data_used := 0\<rparr>, with_nul line, uint (encoded + 1)))"

section \<open>Decoding\<close>

definition EVP_DecodedLength :: "u64 \<Rightarrow> u64 option" where
  "EVP_DecodedLength len = (if len mod 4 \<noteq> 0 then None else Some ((len div 4) * 3))"

definition EVP_DecodeInit :: "EVP_ENCODE_CTX \<Rightarrow> EVP_ENCODE_CTX" where
  "EVP_DecodeInit ctx = zero_ctx"

text \<open>The bytes written, \<^term>\<open>None\<close> when it returns zero.\<close>

definition base64_decode_quad :: "byte \<Rightarrow> byte \<Rightarrow> byte \<Rightarrow> byte \<Rightarrow> bytes option" where
  "base64_decode_quad in0 in1 in2 in3 =
     (let a = base64_ascii_to_bin in0; b = base64_ascii_to_bin in1;
          c = base64_ascii_to_bin in2; d = base64_ascii_to_bin in3 in
      if a = 0xFF \<or> b = 0xFF \<or> c = 0xFF \<or> d = 0xFF then None
      else
        let v = push_bit 18 (ucast a) OR push_bit 12 (ucast b) OR push_bit 6 (ucast c) OR ucast d :: u32;
            padding_pattern = push_bit 3 (of_bool (in0 = 0x3D)) OR push_bit 2 (of_bool (in1 = 0x3D)) OR
              push_bit 1 (of_bool (in2 = 0x3D)) OR of_bool (in3 = 0x3D) :: u32 in
        if padding_pattern = 0
        then Some [ucast (drop_bit 16 v), ucast (drop_bit 8 v), ucast v]
        else if padding_pattern = 1 then Some [ucast (drop_bit 16 v), ucast (drop_bit 8 v)]
        else if padding_pattern = 3 then Some [ucast (drop_bit 16 v)]
        else None)"

definition is_space :: "byte \<Rightarrow> bool" where
  "is_space c \<longleftrightarrow> c = 0x20 \<or> c = 0x09 \<or> c = 0x0D \<or> c = 0x0A"

text \<open>The loop of \<open>EVP_DecodeUpdate\<close>; false is the return of -1 from inside it.\<close>

fun decode_update_loop ::
  "EVP_ENCODE_CTX \<Rightarrow> bytes \<Rightarrow> bytes \<Rightarrow> (bool \<times> EVP_ENCODE_CTX \<times> bytes) option" where
  "decode_update_loop ctx [] out = Some (True, ctx, out)"
| "decode_update_loop ctx (c # inp) out =
     (if is_space c then decode_update_loop ctx inp out
      else if eof_seen ctx then Some (False, ctx\<lparr>error_encountered := True\<rparr>, out)
      else if unat (data_used ctx) \<ge> length (ctx_data ctx) then None
      else
        let ctx = ctx\<lparr>ctx_data := (ctx_data ctx)[unat (data_used ctx) := c],
                      data_used := data_used ctx + 1\<rparr> in
        if data_used ctx = 4 then
          (case base64_decode_quad (ctx_data ctx ! 0) (ctx_data ctx ! 1) (ctx_data ctx ! 2)
                  (ctx_data ctx ! 3) of
             None \<Rightarrow> Some (False, ctx\<lparr>error_encountered := True\<rparr>, out)
           | Some bs \<Rightarrow>
               decode_update_loop
                 (ctx\<lparr>data_used := 0, eof_seen := length bs < 3 \<or> eof_seen ctx\<rparr>) inp (out @ bs))
        else decode_update_loop ctx inp out)"

text \<open>The return value, the context, \<open>*out_len\<close>, the bytes written.\<close>

definition EVP_DecodeUpdate ::
  "EVP_ENCODE_CTX \<Rightarrow> bytes \<Rightarrow> (int \<times> EVP_ENCODE_CTX \<times> int \<times> bytes) option" where
  "EVP_DecodeUpdate ctx inp =
     (if error_encountered ctx then Some (- 1, ctx, 0, [])
      else do {
        (ok, ctx, out) \<leftarrow> decode_update_loop ctx inp [];
        if \<not> ok then Some (- 1, ctx, 0, out)
        else
          let bytes_out = of_nat (length out) :: u64 in
          if bytes_out > INT_MAX then Some (- 1, ctx\<lparr>error_encountered := True\<rparr>, 0, out)
          else Some (if eof_seen ctx then 0 else 1, ctx, uint bytes_out, out)
      })"

definition EVP_DecodeFinal :: "EVP_ENCODE_CTX \<Rightarrow> int" where
  "EVP_DecodeFinal ctx = (if error_encountered ctx \<or> data_used ctx \<noteq> 0 then - 1 else 1)"

text \<open>The loop of \<open>EVP_DecodeBase64\<close>; \<open>i \<noteq> in_len - 4\<close> says that input is left.\<close>

fun decode_quads :: "bytes \<Rightarrow> bytes \<Rightarrow> (bool \<times> bytes) option" where
  "decode_quads [] out = Some (True, out)"
| "decode_quads (a # b # c # d # inp) out =
     (case base64_decode_quad a b c d of
        None \<Rightarrow> Some (False, out)
      | Some bs \<Rightarrow>
          if length bs \<noteq> 3 \<and> inp \<noteq> [] then Some (False, out @ bs)
          else decode_quads inp (out @ bs))"
| "decode_quads _ out = None"

text \<open>The return value, \<open>*out_len\<close>, the bytes written.\<close>

definition EVP_DecodeBase64 :: "u64 \<Rightarrow> bytes \<Rightarrow> (bool \<times> u64 \<times> bytes) option" where
  "EVP_DecodeBase64 max_out inp =
     (let in_len = of_nat (length inp) :: u64 in
      if in_len mod 4 \<noteq> 0 then Some (False, 0, [])
      else case EVP_DecodedLength in_len of
        None \<Rightarrow> Some (False, 0, [])
      | Some max_len \<Rightarrow>
          if max_out < max_len then Some (False, 0, [])
          else do {
            (ok, out) \<leftarrow> decode_quads inp [];
            Some (if ok then (True, of_nat (length out), out) else (False, 0, out))
          })"

definition trim_left :: "bytes \<Rightarrow> bytes" where
  "trim_left src = dropWhile (\<lambda>c. c = 0x20 \<or> c = 0x09) src"

definition trim_right :: "bytes \<Rightarrow> bytes" where
  "trim_right src = rev (dropWhile is_space (rev src))"

text \<open>\<open>while (dst_len % 3 != 0) dst[dst_len++] = '\0'\<close>; at most two rounds.\<close>

fun pad_loop :: "nat \<Rightarrow> bytes \<Rightarrow> bytes" where
  "pad_loop 0 dst = dst"
| "pad_loop (Suc k) dst = (if length dst mod 3 \<noteq> 0 then pad_loop k (dst @ [0]) else dst)"

text \<open>The return value and the bytes written.\<close>

definition EVP_DecodeBlock :: "bytes \<Rightarrow> (int \<times> bytes) option" where
  "EVP_DecodeBlock src =
     (let src = trim_right (trim_left src) in
      case EVP_DecodedLength (of_nat (length src)) of
        None \<Rightarrow> Some (- 1, [])
      | Some dst_len \<Rightarrow>
          if dst_len > INT_MAX then Some (- 1, [])
          else do {
            (ok, dst_len, dst) \<leftarrow> EVP_DecodeBase64 dst_len src;
            if \<not> ok then Some (- 1, dst)
            else let dst = pad_loop 2 dst in Some (int (length dst), dst)
          })"

end
