(* ===== verification/Base64Proofs.thy ===== *)
theory Base64Proofs
  imports Base64
begin

text \<open>
  What \<^verbatim>\<open>base64.c\<close> computes: the alphabet conversions, the encoder and the decoder against
  reference functions on numbers (\<open>b64_encode\<close>, \<open>quad_spec\<close>), the round trips, and the streaming
  interfaces against the one-shot ones.
\<close>

section \<open>The alphabet as numbers\<close>

definition b64_char :: "nat \<Rightarrow> byte" where
  "b64_char n = (if n < 26 then of_nat (65 + n) else if n < 52 then of_nat (71 + n)
     else if n < 62 then of_nat (n - 4) else if n = 62 then 43 else 47)"

lemma constant_time_lt_args_8: "constant_time_lt_args_8 a b = (if a < b then CONSTTIME_TRUE_8 else CONSTTIME_FALSE_8)"
proof -
  have u: "unat (ucast x :: u64) = unat x" for x :: byte
    using unat_byte_less [of x] by (simp add: unat_ucast)
  then have "\<not> bit (ucast x :: u64) 63" for x :: byte
    using unat_byte_less [of x] by (simp add: bit_63)
  then have "bit (ucast a - ucast b :: u64) 63 \<longleftrightarrow> (ucast a :: u64) < ucast b"
    by (intro msb_minus) simp
  also have "\<dots> \<longleftrightarrow> a < b" by (simp add: word_less_nat_alt u)
  finally show ?thesis
    by (simp add: constant_time_lt_args_8_def constant_time_msb_w CONSTTIME_FALSE_8_def Let_def)
qed

lemma constant_time_in_range_8:
  assumes "mn \<le> mx" "unat mx - unat mn < 255"
  shows "constant_time_in_range_8 a mn mx =
    (if mn \<le> a \<and> a \<le> mx then CONSTTIME_TRUE_8 else CONSTTIME_FALSE_8)"
proof -
  have w: "unat (mx - mn + 1) = unat mx - unat mn + 1"
    using assms by (simp add: unat_word_ariths unat_sub word_le_nat_alt)
  have "a - mn < mx - mn + 1 \<longleftrightarrow> mn \<le> a \<and> a \<le> mx"
  proof (cases "mn \<le> a")
    case True
    then have "unat (a - mn) = unat a - unat mn" by (simp add: unat_sub)
    then show ?thesis using True assms w by (auto simp: word_less_nat_alt word_le_nat_alt)
  next
    case False
    then have "unat (a - mn) = 256 + unat a - unat mn" by (simp add: unat_sub_if' word_le_nat_alt)
    then show ?thesis
      using False assms w unat_byte_less [of mx] by (auto simp: word_less_nat_alt word_le_nat_alt)
  qed
  then show ?thesis by (simp add: constant_time_in_range_8_def constant_time_lt_args_8)
qed

lemma and_3F: "unat (a AND (0x3F :: byte)) = unat a mod 64"
  using unat_take_bit [of 6 a] by (simp add: take_bit_eq_mask mask_eq_exp_minus_1)

lemma of_nat_diff_word: "k \<le> n \<Longrightarrow> of_nat n - of_nat k = (of_nat (n - k) :: 'a::len word)"
  by simp

lemma conv_bin2ascii: "conv_bin2ascii a = b64_char (unat a mod 64)"
proof -
  define n where "n = unat a mod 64"
  have n: "n < 64" by (simp add: n_def)
  have a: "a AND 0x3F = of_nat n"
    using and_3F [of a] n by (intro word_unat_eq_iff [THEN iffD2]) (simp add: unat_of_nat n_def)
  have lt: "(of_nat n :: byte) < k \<longleftrightarrow> n < unat k" for k
    using n by (simp add: word_less_nat_alt unat_of_nat)
  have eq: "ucast (of_nat n :: byte) = (62 :: u64) \<longleftrightarrow> n = 62"
  proof -
    have "unat (ucast (of_nat n :: byte) :: u64) = n" using n by (simp add: unat_ucast unat_of_nat)
    then show ?thesis by (auto simp: word_unat_eq_iff)
  qed
  have "conv_bin2ascii a = (if n < 26 then of_nat n + 0x41 else if n < 52 then of_nat n - 26 + 0x61
     else if n < 62 then of_nat n - 52 + 0x30 else if n = 62 then 0x2B else 0x2F)"
    by (simp add: conv_bin2ascii_def a Let_def constant_time_eq_8 constant_time_lt_args_8
        constant_time_select_8 lt eq)
  also have "\<dots> = b64_char n"
  proof (cases "n < 26")
    case True then show ?thesis by (simp add: b64_char_def)
  next
    case False
    then show ?thesis using n by (auto simp: b64_char_def of_nat_diff)
  qed
  finally show ?thesis by (simp add: n_def)
qed

lemma TRUE_8_and [simp]: "CONSTTIME_TRUE_8 AND x = x" "CONSTTIME_FALSE_8 AND x = 0"
  "NOT CONSTTIME_TRUE_8 = 0" "NOT CONSTTIME_FALSE_8 = CONSTTIME_TRUE_8"
  by (auto simp: CONSTTIME_FALSE_8_def bit_eq_iff bit_and_iff bit_TRUE_8 bit_not_iff
      dest: bit_imp_le_length)

lemma TRUE_8_or [simp]: "CONSTTIME_TRUE_8 OR x = CONSTTIME_TRUE_8" "CONSTTIME_FALSE_8 OR x = x"
  "x OR CONSTTIME_TRUE_8 = CONSTTIME_TRUE_8" "x OR CONSTTIME_FALSE_8 = x"
  by (auto simp: CONSTTIME_FALSE_8_def bit_eq_iff bit_or_iff bit_TRUE_8 dest: bit_imp_le_length)

definition b64_value :: "byte \<Rightarrow> nat option" where
  "b64_value a =
     (let n = unat a in
      if 65 \<le> n \<and> n \<le> 90 then Some (n - 65) else if 97 \<le> n \<and> n \<le> 122 then Some (n - 71)
      else if 48 \<le> n \<and> n \<le> 57 then Some (n + 4) else if n = 43 then Some 62
      else if n = 47 then Some 63 else None)"

lemma ucast_byte_eq: "ucast (a :: byte) = (ucast b :: u64) \<longleftrightarrow> a = b"
proof -
  have "unat (ucast x :: u64) = unat x" for x :: byte
    using unat_byte_less [of x] by (simp add: unat_ucast)
  then show ?thesis by (metis word_unat_eq_iff)
qed

lemma base64_ascii_to_bin:
  "base64_ascii_to_bin a =
     (case b64_value a of Some n \<Rightarrow> of_nat n | None \<Rightarrow> if a = 0x3D then 0 else 0xFF)"
proof -
  have e: "constant_time_eq_8 (ucast a) 43 = (if unat a = 43 then CONSTTIME_TRUE_8 else CONSTTIME_FALSE_8)"
      "constant_time_eq_8 (ucast a) 47 = (if unat a = 47 then CONSTTIME_TRUE_8 else CONSTTIME_FALSE_8)"
      "constant_time_eq_8 (ucast a) 61 = (if unat a = 61 then CONSTTIME_TRUE_8 else CONSTTIME_FALSE_8)"
    using ucast_byte_eq [of a 43] ucast_byte_eq [of a 47] ucast_byte_eq [of a 61]
    by (simp_all add: constant_time_eq_8 word_unat_eq_iff [of a])
  have r: "constant_time_in_range_8 a 0x41 0x5A = (if 65 \<le> unat a \<and> unat a \<le> 90 then CONSTTIME_TRUE_8 else CONSTTIME_FALSE_8)"
      "constant_time_in_range_8 a 0x61 0x7A = (if 97 \<le> unat a \<and> unat a \<le> 122 then CONSTTIME_TRUE_8 else CONSTTIME_FALSE_8)"
      "constant_time_in_range_8 a 0x30 0x39 = (if 48 \<le> unat a \<and> unat a \<le> 57 then CONSTTIME_TRUE_8 else CONSTTIME_FALSE_8)"
    by (simp_all add: constant_time_in_range_8 word_le_nat_alt)
  have sub: "of_nat (unat a - k) = a - of_nat k" if "k \<le> unat a" for k
    using that by (simp add: of_nat_diff)
  have eq: "a = 61 \<longleftrightarrow> unat a = 61" by (simp add: word_unat_eq_iff)
  have T: "0xFF = CONSTTIME_TRUE_8" by (simp add: CONSTTIME_TRUE_8_def)
  consider "65 \<le> unat a \<and> unat a \<le> 90" | "97 \<le> unat a \<and> unat a \<le> 122"
    | "48 \<le> unat a \<and> unat a \<le> 57" | "unat a = 43" | "unat a = 47" | "unat a = 61"
    | "\<not> (65 \<le> unat a \<and> unat a \<le> 90)" "\<not> (97 \<le> unat a \<and> unat a \<le> 122)"
      "\<not> (48 \<le> unat a \<and> unat a \<le> 57)" "unat a \<noteq> 43" "unat a \<noteq> 47" "unat a \<noteq> 61"
    by blast
  then show ?thesis
    by cases (auto simp: base64_ascii_to_bin_def Let_def b64_value_def r e sub eq T)
qed

lemma unat_b64_char:
  "unat (b64_char n) = (if n < 26 then 65 + n else if n < 52 then 71 + n
     else if n < 62 then n - 4 else if n = 62 then 43 else 47)"
proof -
  have u: "k < 256 \<Longrightarrow> unat (of_nat k :: byte) = k" for k by (simp add: unat_of_nat)
  show ?thesis
    using u [of "65 + n"] u [of "71 + n"] u [of "n - 4"]
    by (auto simp: b64_char_def simp del: of_nat_add of_nat_diff)
qed

lemma b64_value_char: "n < 64 \<Longrightarrow> b64_value (b64_char n) = Some n"
  by (auto simp: b64_value_def Let_def unat_b64_char)

lemma b64_value_Some: "b64_value a = Some n \<longleftrightarrow> n < 64 \<and> a = b64_char n"
proof
  assume a: "b64_value a = Some n"
  then have "n < 64" by (auto simp: b64_value_def Let_def split: if_splits)
  moreover have "unat a = unat (b64_char n)"
    using a by (auto simp: b64_value_def unat_b64_char Let_def split: if_splits)
  ultimately show "n < 64 \<and> a = b64_char n" by (simp add: word_unat_eq_iff)
qed (simp add: b64_value_char)

lemma b64_char_not_pad: "b64_char n \<noteq> 0x3D"
  using unat_b64_char [of n] by (auto split: if_splits)

lemma bin_char [simp]: "n < 64 \<Longrightarrow> base64_ascii_to_bin (b64_char n) = of_nat n"
  by (simp add: base64_ascii_to_bin b64_value_char)

lemma bin_pad [simp]: "base64_ascii_to_bin 0x3D = 0"
  by (simp add: base64_ascii_to_bin b64_value_def)

lemma bin_invalid: "base64_ascii_to_bin a = 0xFF \<longleftrightarrow> b64_value a = None \<and> a \<noteq> 0x3D"
proof -
  have "(of_nat n :: byte) \<noteq> 0xFF" if "n < 64" for n
    using that by (auto simp: word_unat_eq_iff unat_of_nat)
  then show ?thesis by (auto simp: base64_ascii_to_bin b64_value_Some split: option.splits)
qed

section \<open>Encoding as arithmetic\<close>

definition num3 :: "byte \<Rightarrow> byte \<Rightarrow> byte \<Rightarrow> nat" where
  "num3 a b c = unat a * 2 ^ 16 + (unat b * 2 ^ 8 + unat c)"

lemma num3_less: "num3 a b c < 2 ^ 24"
  using unat_byte_less [of a] unat_byte_less [of b] unat_byte_less [of c] by (simp add: num3_def)

lemma unat_three:
  "unat (push_bit 16 (ucast a) OR push_bit 8 (ucast b) OR ucast c :: u32) = num3 a b c"
proof -
  have i: "unat (push_bit 8 (ucast b) OR ucast c :: u32) = unat b * 2 ^ 8 + unat c"
    using unat_byte_less [of b] unat_byte_less [of c]
    by (subst unat_push_bit_or) (simp_all add: unat_ucast_byte)
  show ?thesis
    using unat_byte_less [of a] unat_byte_less [of b] unat_byte_less [of c]
    by (subst unat_push_bit_or) (simp_all add: unat_ucast_byte i num3_def)
qed

definition b64_group :: "nat \<Rightarrow> bytes" where
  "b64_group n = map b64_char [n div 2 ^ 18 mod 64, n div 2 ^ 12 mod 64, n div 2 ^ 6 mod 64, n mod 64]"

lemma conv_bin2ascii_drop:
  "conv_bin2ascii (ucast (drop_bit k (l :: u32))) = b64_char (unat l div 2 ^ k mod 64)"
proof -
  have "unat l div 2 ^ k mod 256 mod 64 = unat l div 2 ^ k mod 64"
    by (rule mod_mod_cancel) simp
  then show ?thesis
    by (simp add: conv_bin2ascii unat_ucast unat_drop_bit)
qed

lemma conv_bin2ascii_low: "conv_bin2ascii (ucast (l :: u32)) = b64_char (unat l mod 64)"
  using conv_bin2ascii_drop [of 0 l] by simp

text \<open>The reference encoder: groups of three bytes as 24-bit numbers, the last group padded.\<close>

fun b64_encode :: "bytes \<Rightarrow> bytes" where
  "b64_encode [] = []"
| "b64_encode [a] = take 2 (b64_group (num3 a 0 0)) @ [0x3D, 0x3D]"
| "b64_encode [a, b] = take 3 (b64_group (num3 a b 0)) @ [0x3D]"
| "b64_encode (a # b # c # src) = b64_group (num3 a b c) @ b64_encode src"

lemma encode_three: "encode_three l = b64_group (unat l)"
  unfolding encode_three_def conv_bin2ascii_drop by (simp add: b64_group_def conv_bin2ascii_low)

lemma length_b64_encode: "length (b64_encode src) = 4 * ((length src + 2) div 3)"
proof (induction src rule: b64_encode.induct)
  case (4 a b c src)
  have "(length (a # b # c # src) + 2) div 3 = (length src + 2) div 3 + 1"
    using div_add_self2 [of 3 "length src + 2"] by simp
  then show ?case using 4 by (simp add: b64_group_def)
qed (simp_all add: b64_group_def)

lemma encode_block_loop:
  "encode_block_loop src ret = (b64_encode src, ret + of_nat (length (b64_encode src)))"
proof (induction src ret rule: encode_block_loop.induct)
  case (1 ret)
  then show ?case by simp
next
  case (2 a ret)
  have "unat (push_bit 16 (ucast a) :: u32) = num3 a 0 0" using unat_three [of a 0 0] by simp
  then show ?case by (simp add: Let_def conv_bin2ascii_drop b64_group_def)
next
  case (3 a b ret)
  have "unat (push_bit 16 (ucast a) OR push_bit 8 (ucast b) :: u32) = num3 a b 0"
    using unat_three [of a b 0] by simp
  then show ?case by (simp add: Let_def conv_bin2ascii_drop b64_group_def)
next
  case (4 a b c src ret)
  then show ?case
    by (simp add: Let_def encode_three unat_three del: push_bit_or) (simp add: b64_group_def)
qed

lemma EVP_EncodeBlock: "EVP_EncodeBlock src = (b64_encode src @ [0], of_nat (length (b64_encode src)))"
  by (simp add: EVP_EncodeBlock_def encode_block_loop)

section \<open>Decoding as arithmetic\<close>

definition bytes3 :: "nat \<Rightarrow> bytes" where
  "bytes3 n = [of_nat (n div 2 ^ 16), of_nat (n div 2 ^ 8), of_nat n]"

lemma num4_less: "a < 64 \<Longrightarrow> b < 64 \<Longrightarrow> c < 64 \<Longrightarrow> d < 64 \<Longrightarrow> num4 a b c d < 2 ^ 24"
  by (simp add: num4_def)

lemma div_64: "(n::nat) div 2 ^ 12 = n div 2 ^ 6 div 2 ^ 6" "n div 2 ^ 18 = n div 2 ^ 6 div 2 ^ 6 div 2 ^ 6"
  by (simp_all add: div_mult2_eq [symmetric])

lemma num4_digits:
  assumes "n < 2 ^ 24"
  shows "num4 (n div 2 ^ 18 mod 64) (n div 2 ^ 12 mod 64) (n div 2 ^ 6 mod 64) (n mod 64) = n"
proof -
  define q1 where "q1 = n div 2 ^ 6"
  define q2 where "q2 = q1 div 2 ^ 6"
  define q3 where "q3 = q2 div 2 ^ 6"
  have "n = q1 * 64 + n mod 64" "q1 = q2 * 64 + q1 mod 64" "q2 = q3 * 64 + q2 mod 64"
    by (simp_all add: q1_def q2_def q3_def)
  moreover have "q3 < 64" using assms by (simp add: q1_def q2_def q3_def)
  ultimately show ?thesis
    unfolding num4_def div_64 q1_def [symmetric] q2_def [symmetric] q3_def [symmetric] by simp
qed

lemma digits_num4:
  assumes "a < 64" "b < 64" "c < 64" "d < 64"
  shows "num4 a b c d div 2 ^ 18 mod 64 = a" "num4 a b c d div 2 ^ 12 mod 64 = b"
    "num4 a b c d div 2 ^ 6 mod 64 = c" "num4 a b c d mod 64 = d"
proof -
  have n: "num4 a b c d = ((a * 64 + b) * 64 + c) * 64 + d" by (simp add: num4_def)
  have s: "(x * 64 + y) div 2 ^ 6 = x" "(x * 64 + y) mod 64 = y" if "y < 64" for x y :: nat
    using that by simp_all
  show "num4 a b c d mod 64 = d" unfolding n by (rule s(2) [OF assms(4)])
  show "num4 a b c d div 2 ^ 6 mod 64 = c" unfolding n s(1) [OF assms(4)] by (rule s(2) [OF assms(3)])
  show "num4 a b c d div 2 ^ 12 mod 64 = b"
    unfolding n div_64 s(1) [OF assms(4)] s(1) [OF assms(3)] by (rule s(2) [OF assms(2)])
  show "num4 a b c d div 2 ^ 18 mod 64 = a"
    unfolding n div_64 s(1) [OF assms(4)] s(1) [OF assms(3)] s(1) [OF assms(2)] using assms(1) by simp
qed

lemma ucast_drop_bit_byte: "ucast (drop_bit k (l :: u32)) = (of_nat (unat l div 2 ^ k) :: byte)"
  by (rule word_unat_eq_iff [THEN iffD2]) (simp add: unat_ucast unat_drop_bit unat_of_nat)

lemma ucast_low_byte: "ucast (l :: u32) = (of_nat (unat l) :: byte)"
  using ucast_drop_bit_byte [of 0 l] by simp

definition quad_spec :: "byte \<Rightarrow> byte \<Rightarrow> byte \<Rightarrow> byte \<Rightarrow> bytes option" where
  "quad_spec i j k l =
     (case (b64_value i, b64_value j, b64_value k, b64_value l) of
        (Some a, Some b, Some c, Some d) \<Rightarrow> Some (bytes3 (num4 a b c d))
      | (Some a, Some b, Some c, None) \<Rightarrow> if l = 0x3D then Some (take 2 (bytes3 (num4 a b c 0))) else None
      | (Some a, Some b, None, None) \<Rightarrow>
          if k = 0x3D \<and> l = 0x3D then Some (take 1 (bytes3 (num4 a b 0 0))) else None
      | _ \<Rightarrow> None)"

text \<open>The digits a quad contributes, zero for padding.\<close>

definition digit :: "byte \<Rightarrow> nat" where
  "digit a = (case b64_value a of Some n \<Rightarrow> n | None \<Rightarrow> 0)"

lemma digit_less: "digit a < 64"
  by (cases "b64_value a") (auto simp: digit_def dest: b64_value_Some [THEN iffD1])

lemma bin_digit: "b64_value a \<noteq> None \<or> a = 0x3D \<Longrightarrow> base64_ascii_to_bin a = of_nat (digit a)"
  by (cases "b64_value a") (auto simp: digit_def base64_ascii_to_bin)

lemma b64_value_pad [simp]: "b64_value 0x3D = None"
  by (simp add: b64_value_def)

definition valid_char :: "byte \<Rightarrow> bool" where
  "valid_char a \<longleftrightarrow> b64_value a \<noteq> None \<or> a = 0x3D"

lemma bin_invalid': "base64_ascii_to_bin a = 0xFF \<longleftrightarrow> \<not> valid_char a"
  by (simp add: bin_invalid valid_char_def)

lemma decode_quad_invalid:
  "\<not> (valid_char i \<and> valid_char j \<and> valid_char k \<and> valid_char l) \<Longrightarrow> base64_decode_quad i j k l = None"
  unfolding base64_decode_quad_def Let_def bin_invalid'
  by (simp only: de_Morgan_conj) (simp only: if_True simp_thms)

lemma quad_spec_invalid:
  "\<not> (valid_char i \<and> valid_char j \<and> valid_char k \<and> valid_char l) \<Longrightarrow> quad_spec i j k l = None"
  by (auto simp: quad_spec_def valid_char_def split: option.splits)

lemma padding_pattern:
  "push_bit 3 (of_bool p) OR push_bit 2 (of_bool q) OR push_bit 1 (of_bool r) OR of_bool t =
     (of_nat (8 * of_bool p + 4 * of_bool q + 2 * of_bool r + of_bool t) :: u32)"
  by (cases p; cases q; cases r; cases t) simp_all

lemma decode_quad_valid:
  assumes "valid_char i" "valid_char j" "valid_char k" "valid_char l"
  shows "base64_decode_quad i j k l =
    (let bs = bytes3 (num4 (digit i) (digit j) (digit k) (digit l)) in
     if i = 0x3D \<or> j = 0x3D \<or> (k = 0x3D \<and> l \<noteq> 0x3D) then None
     else if k = 0x3D then Some (take 1 bs) else if l = 0x3D then Some (take 2 bs) else Some bs)"
proof -
  have no: "base64_ascii_to_bin x \<noteq> 0xFF" if "valid_char x" for x
    using that by (simp add: bin_invalid')
  define v :: u32 where "v = push_bit 18 (of_nat (digit i)) OR push_bit 12 (of_nat (digit j)) OR
    push_bit 6 (of_nat (digit k)) OR of_nat (digit l)"
  have v: "unat v = num4 (digit i) (digit j) (digit k) (digit l)"
    unfolding v_def by (rule unat_four) (rule digit_less)+
  have u: "ucast (base64_ascii_to_bin x) = (of_nat (digit x) :: u32)" if "valid_char x" for x
    using bin_digit [of x] that digit_less [of x] by (simp add: ucast_of_nat_byte valid_char_def)
  define p where "p = (8 * of_bool (i = 0x3D) + 4 * of_bool (j = 0x3D) + 2 * of_bool (k = 0x3D) +
    of_bool (l = 0x3D) :: nat)"
  have "p < 16" by (simp add: p_def of_bool_def)
  then have p: "(of_nat p :: u32) = 0 \<longleftrightarrow> p = 0" "(of_nat p :: u32) = 1 \<longleftrightarrow> p = 1"
      "(of_nat p :: u32) = 3 \<longleftrightarrow> p = 3"
    by (auto simp: word_unat_eq_iff unat_of_nat)
  have "base64_decode_quad i j k l =
      (if (of_nat p :: u32) = 0 then Some [ucast (drop_bit 16 v), ucast (drop_bit 8 v), ucast v]
       else if (of_nat p :: u32) = 1 then Some [ucast (drop_bit 16 v), ucast (drop_bit 8 v)]
       else if (of_nat p :: u32) = 3 then Some [ucast (drop_bit 16 v)] else None)"
    unfolding base64_decode_quad_def Let_def u [OF assms(1)] u [OF assms(2)] u [OF assms(3)]
      u [OF assms(4)] padding_pattern v_def [symmetric] p_def [symmetric]
    using no [OF assms(1)] no [OF assms(2)] no [OF assms(3)] no [OF assms(4)]
    by (simp only: simp_thms if_False)
  also have "\<dots> = (if p = 0 then Some (bytes3 (unat v)) else if p = 1 then Some (take 2 (bytes3 (unat v)))
      else if p = 3 then Some (take 1 (bytes3 (unat v))) else None)"
    unfolding p ucast_drop_bit_byte unfolding ucast_low_byte by (simp add: bytes3_def)
  finally show ?thesis
    unfolding v by (simp add: p_def of_bool_def Let_def)
qed

lemma base64_decode_quad: "base64_decode_quad i j k l = quad_spec i j k l"
proof (cases "valid_char i \<and> valid_char j \<and> valid_char k \<and> valid_char l")
  case False
  then show ?thesis using decode_quad_invalid quad_spec_invalid by metis
next
  case True
  have digit: "digit x = n" if "b64_value x = Some n" for x n using that by (simp add: digit_def)
  have pad: "b64_value x = None \<longleftrightarrow> x = 0x3D" if "valid_char x" for x
    using that by (auto simp: valid_char_def)
  have d0: "digit 0x3D = 0" by (simp add: digit_def)
  show ?thesis
    using True decode_quad_valid [of i j k l] pad [of i] pad [of j] pad [of k] pad [of l]
    by (auto simp: quad_spec_def Let_def d0 digit split: option.splits)
qed

section \<open>One-shot decoding\<close>

lemma bytes3_num3: "bytes3 (num3 a b c) = [a, b, c]"
proof -
  have n: "num3 a b c = (unat a * 256 + unat b) * 256 + unat c" by (simp add: num3_def)
  have s: "(x * 256 + unat (y :: byte)) div 2 ^ 8 = x" for x y
    using unat_byte_less [of y] by simp
  have d: "k div 2 ^ 16 = k div 2 ^ 8 div 2 ^ 8" for k :: nat by (simp add: div_mult2_eq [symmetric])
  have m: "(of_nat (x * 256 + unat (y :: byte)) :: byte) = y" for x y
    by (rule word_unat_eq_iff [THEN iffD2]) (use unat_byte_less [of y] in \<open>simp add: unat_of_nat del: of_nat_add\<close>)
  show ?thesis
    unfolding bytes3_def d unfolding n s by (simp only: m) simp
qed

lemma quad_group:
  assumes "n < 2 ^ 24"
  shows "b64_group n = [i, j, k, l] \<Longrightarrow> quad_spec i j k l = Some (bytes3 n)"
  using num4_digits [OF assms] by (auto simp: b64_group_def quad_spec_def b64_value_char)

lemma quad_group2:
  assumes "n < 2 ^ 24" "n mod 64 = 0"
  shows "take 3 (b64_group n) = [i, j, k] \<Longrightarrow> quad_spec i j k 0x3D = Some (take 2 (bytes3 n))"
  using num4_digits [OF assms(1)] assms(2) by (auto simp: b64_group_def quad_spec_def b64_value_char)

lemma quad_group1:
  assumes "n < 2 ^ 24" "n mod 2 ^ 12 = 0"
  shows "take 2 (b64_group n) = [i, j] \<Longrightarrow> quad_spec i j 0x3D 0x3D = Some (take 1 (bytes3 n))"
proof -
  have "n mod 64 = 0" using assms(2) mod_mod_cancel [of 64 "2 ^ 12" n] by simp
  moreover have "n div 64 mod 64 = 0" using assms(2) by (simp add: mod_mult2_eq [of n 64 64, simplified])
  ultimately show "take 2 (b64_group n) = [i, j] \<Longrightarrow> quad_spec i j 0x3D 0x3D = Some (take 1 (bytes3 n))"
    using num4_digits [OF assms(1)] by (auto simp: b64_group_def quad_spec_def b64_value_char)
qed

lemma decode_quads_encode: "decode_quads (b64_encode src) out = Some (True, out @ src)"
proof (induction src arbitrary: out rule: b64_encode.induct)
  case 1
  then show ?case by simp
next
  case (2 a)
  have "num3 a 0 0 mod 2 ^ 12 = 0" by (simp add: num3_def)
  then show ?case
    using quad_group1 [OF num3_less] bytes3_num3 [of a 0 0]
    by (simp add: base64_decode_quad b64_group_def)
next
  case (3 a b)
  have "num3 a b 0 mod 64 = 0" by (simp add: num3_def mod_add_eq [symmetric])
  then show ?case
    using quad_group2 [OF num3_less] bytes3_num3 [of a b 0]
    by (simp add: base64_decode_quad b64_group_def)
next
  case (4 a b c src)
  then show ?case
    using quad_group [OF num3_less [of a b c]] bytes3_num3 [of a b c]
    by (simp add: base64_decode_quad b64_group_def)
qed

text \<open>Re-encoding what was decoded gives the input back, up to the unused bits before padding.\<close>

lemma unat_of_nat_mod: "unat (of_nat n :: byte) = n mod 256"
  by (simp add: unat_of_nat)

lemma num3_bytes3:
  assumes "n < 2 ^ 24" "bytes3 n = [x, y, z]"
  shows "num3 x y z = n" "num3 x y 0 = n - n mod 2 ^ 8" "num3 x 0 0 = n - n mod 2 ^ 16"
proof -
  define q where "q = n div 256"
  define p where "p = q div 256"
  have n: "n = q * 256 + n mod 256" "q = p * 256 + q mod 256" by (simp_all add: q_def p_def)
  have p: "p < 256" using assms(1) by (simp add: p_def q_def)
  have u: "unat x = p mod 256" "unat y = q mod 256" "unat z = n mod 256"
    using assms(2) by (auto simp: bytes3_def unat_of_nat_mod p_def q_def div_mult2_eq [symmetric])
  then show 1: "num3 x y z = n" using n p by (simp add: num3_def)
  show "num3 x y 0 = n - n mod 2 ^ 8" using 1 u unfolding num3_def by simp linarith
  have "n mod 2 ^ 16 = (q mod 256) * 256 + n mod 256"
    using mod_mult2_eq [of n 256 256] by (simp add: q_def)
  then show "num3 x 0 0 = n - n mod 2 ^ 16" using 1 u unfolding num3_def by simp linarith
qed

lemma group_num4:
  "a < 64 \<Longrightarrow> b < 64 \<Longrightarrow> c < 64 \<Longrightarrow> d < 64 \<Longrightarrow>
     b64_group (num4 a b c d) = [b64_char a, b64_char b, b64_char c, b64_char d]"
  unfolding b64_group_def digits_num4 by simp

lemma div_minus_mod: "(n - n mod (2 ^ k :: nat)) div 2 ^ (k + j) = n div 2 ^ (k + j)"
proof -
  have "n - n mod 2 ^ k = n div 2 ^ k * 2 ^ k" by (simp add: minus_mod_eq_div_mult)
  then have "(n - n mod 2 ^ k) div 2 ^ k = n div 2 ^ k" by simp
  then show ?thesis by (simp add: power_add div_mult2_eq)
qed

lemma quad_spec_length:
  assumes "quad_spec i j k l = Some bs"
  shows "bs \<noteq> [] \<and> length bs \<le> 3 \<and> (length bs = 3 \<longleftrightarrow> l \<noteq> 0x3D)"
  using assms b64_value_pad by (auto simp: quad_spec_def bytes3_def split: option.splits if_splits)

lemma quad_spec_encode:
  assumes "quad_spec i j k l = Some bs"
  shows "length (b64_encode bs) = 4 \<and> b64_encode bs ! 0 = i \<and>
    (length bs = 3 \<longrightarrow> b64_encode bs = [i, j, k, l]) \<and>
    (length bs = 2 \<longrightarrow> b64_encode bs ! 1 = j \<and> b64_encode bs ! 3 = l)"
proof -
  obtain a b where ab: "b64_value i = Some a" "b64_value j = Some b" "a < 64" "b < 64"
      "i = b64_char a" "j = b64_char b"
    using assms by (auto simp: quad_spec_def b64_value_Some split: option.splits)
  have enc: ?thesis if cd: "c < 64" "d < 64"
    and bs: "(bs = bytes3 (num4 a b c d) \<and> k = b64_char c \<and> l = b64_char d) \<or>
      (bs = take 2 (bytes3 (num4 a b c d)) \<and> l = 0x3D) \<or> bs = take 1 (bytes3 (num4 a b c d))" for c d
  proof -
    obtain x y z where xyz: "bytes3 (num4 a b c d) = [x, y, z]" by (simp add: bytes3_def)
    note lt = num4_less [OF ab(3,4) cd]
    note num = num3_bytes3 [OF lt xyz]
    note dig = digits_num4 [OF ab(3,4) cd]
    have d2: "num3 x y 0 div 2 ^ 18 mod 64 = a" "num3 x y 0 div 2 ^ 12 mod 64 = b"
      using div_minus_mod [of "num4 a b c d" 8 10] div_minus_mod [of "num4 a b c d" 8 4] dig
      unfolding num by simp_all
    have d1: "num3 x 0 0 div 2 ^ 18 mod 64 = a"
      using div_minus_mod [of "num4 a b c d" 16 2] dig unfolding num by simp
    have e3: "b64_encode [x, y, z] = [i, j, b64_char c, b64_char d]"
      using num(1) group_num4 [OF ab(3,4) cd] ab(5,6) by simp
    have e2: "b64_encode [x, y] = [i, j, b64_char (num3 x y 0 div 2 ^ 6 mod 64), 0x3D]"
      using d2 ab(5,6) by (simp only: b64_encode.simps b64_group_def) simp
    have e1: "b64_encode [x] = [i, b64_char (num3 x 0 0 div 2 ^ 12 mod 64), 0x3D, 0x3D]"
      using d1 ab(5) by (simp only: b64_encode.simps b64_group_def) simp
    show ?thesis
      using bs unfolding xyz
    proof (elim disjE conjE)
      assume "bs = [x, y, z]" "k = b64_char c" "l = b64_char d"
      then show ?thesis by (simp only: e3) simp
    next
      assume "bs = take 2 [x, y, z]" "l = 0x3D"
      then have "bs = [x, y]" "l = 0x3D" by simp_all
      then show ?thesis by (simp only: e2) simp
    next
      assume "bs = take 1 [x, y, z]"
      then have "bs = [x]" by simp
      then show ?thesis by (simp only: e1) simp
    qed
  qed
  show ?thesis
  proof (cases "b64_value k")
    case None
    then show ?thesis using assms ab enc [of 0 0] by (auto simp: quad_spec_def split: option.splits if_splits)
  next
    case (Some c)
    then have c: "c < 64" "k = b64_char c" by (auto simp: b64_value_Some)
    show ?thesis
    proof (cases "b64_value l")
      case None
      then show ?thesis using assms ab Some c enc [of c 0] by (auto simp: quad_spec_def split: if_splits)
    next
      case d: (Some d)
      then have "d < 64" "l = b64_char d" by (auto simp: b64_value_Some)
      then show ?thesis using assms ab Some c d enc [of c d] by (auto simp: quad_spec_def)
    qed
  qed
qed

lemma b64_encode_append3: "length as = 3 \<Longrightarrow> b64_encode (as @ bs) = b64_encode as @ b64_encode bs"
  by (auto simp: length_Suc_conv numeral_3_eq_3)

lemma b64_encode_eq_Nil [simp]: "b64_encode src = [] \<longleftrightarrow> src = []"
  by (cases src rule: b64_encode.cases) (auto simp: b64_group_def)

lemma decode_quads_total: "length inp mod 4 = 0 \<Longrightarrow> \<exists>ok res. decode_quads inp out = Some (ok, res)"
  by (induction inp out rule: decode_quads.induct) (auto split: option.splits)

lemma decode_quads_bound:
  "decode_quads inp out = Some (ok, res) \<Longrightarrow> length res \<le> length out + 3 * (length inp div 4)"
proof (induction inp out rule: decode_quads.induct)
  case (2 a b c d inp out)
  have "length (a # b # c # d # inp) div 4 = length inp div 4 + 1" by simp
  then show ?case
    using 2 quad_spec_length [of a b c d]
    by (fastforce simp: base64_decode_quad split: option.splits if_splits)
qed auto

lemma decode_quads_reencode:
  assumes "decode_quads inp out = Some (True, res)"
  shows "\<exists>src. res = out @ src \<and> length (b64_encode src) = length inp \<and>
    take (length inp - 3) (b64_encode src) = take (length inp - 3) inp \<and>
    (inp \<noteq> [] \<and> last inp \<noteq> 0x3D \<longrightarrow> b64_encode src = inp)"
  using assms
proof (induction inp out rule: decode_quads.induct)
  case (1 out)
  then show ?case by simp
next
  case (2 a b c d inp out)
  then obtain bs where bs: "quad_spec a b c d = Some bs"
    and more: "length bs \<noteq> 3 \<longrightarrow> inp = []" "decode_quads inp (out @ bs) = Some (True, res)"
    by (auto simp: base64_decode_quad split: option.splits if_splits)
  obtain src where src: "res = out @ bs @ src" "length (b64_encode src) = length inp"
      "take (length inp - 3) (b64_encode src) = take (length inp - 3) inp"
      "inp \<noteq> [] \<and> last inp \<noteq> 0x3D \<longrightarrow> b64_encode src = inp"
    using "2.IH" [of bs] bs more by (auto simp: base64_decode_quad)
  show ?case
  proof (cases "length bs = 3")
    case True
    then have e: "b64_encode (bs @ src) = [a, b, c, d] @ b64_encode src"
      using quad_spec_encode [OF bs] b64_encode_append3 by simp
    have "take (length (a # b # c # d # inp) - 3) (b64_encode (bs @ src)) =
        take (length (a # b # c # d # inp) - 3) (a # b # c # d # inp)"
    proof (cases "length inp \<ge> 3")
      case True
      then obtain k where "length inp = k + 3" by (metis le_add_diff_inverse2)
      then show ?thesis using e src(3) by (simp add: numeral_eq_Suc)
    next
      case False
      moreover have "length inp = 4 * ((length src + 2) div 3)" using src(2) length_b64_encode [of src] by simp
      ultimately have "length inp = 0" by (cases "(length src + 2) div 3") simp_all
      then have "inp = []" by simp
      then show ?thesis using e src by simp
    qed
    then show ?thesis using True e src quad_spec_length [OF bs]
      by (intro exI [of _ "bs @ src"]) auto
  next
    case False
    then have inp: "inp = []" "src = []"
      using more src by (auto simp: length_b64_encode elim: decode_quads.elims)
    then show ?thesis
      using quad_spec_encode [OF bs] quad_spec_length [OF bs] False src
      by (intro exI [of _ bs]) (auto simp: take_Suc_conv_app_nth)
  qed
qed auto

section \<open>Streaming encoder\<close>

text \<open>The bytes a context holds back, the whole lines of a text and what is left of it.\<close>

definition pending :: "EVP_ENCODE_CTX \<Rightarrow> bytes" where
  "pending ctx = take (unat (data_used ctx)) (ctx_data ctx)"

definition wf_ctx :: "EVP_ENCODE_CTX \<Rightarrow> bool" where
  "wf_ctx ctx \<longleftrightarrow> data_used ctx < 48 \<and> length (ctx_data ctx) = 48"

function b64_lines :: "bytes \<Rightarrow> bytes" where
  "b64_lines bs = (if 48 \<le> length bs then b64_encode (take 48 bs) @ 0x0A # b64_lines (drop 48 bs) else [])"
  by pat_completeness auto
termination by (relation "measure length") auto

declare b64_lines.simps [simp del]

definition last_line :: "bytes \<Rightarrow> bytes" where
  "last_line bs = drop (48 * (length bs div 48)) bs"

lemma b64_lines_short [simp]: "length bs < 48 \<Longrightarrow> b64_lines bs = []"
  by (subst b64_lines.simps) simp

lemma b64_lines_long: "48 \<le> length bs \<Longrightarrow> b64_lines bs = b64_encode (take 48 bs) @ 0x0A # b64_lines (drop 48 bs)"
  by (subst b64_lines.simps) simp

lemma last_line_short [simp]: "length bs < 48 \<Longrightarrow> last_line bs = bs"
  by (simp add: last_line_def)

lemma last_line_long: "48 \<le> length bs \<Longrightarrow> last_line bs = last_line (drop 48 bs)"
proof -
  assume "48 \<le> length bs"
  then have "length bs div 48 = (length bs - 48) div 48 + 1" by (simp add: le_div_geq)
  then show ?thesis by (simp add: last_line_def add.commute)
qed

lemma length_last_line: "length (last_line bs) < 48"
proof -
  have "length bs = 48 * (length bs div 48) + length bs mod 48" by simp
  then have "length (last_line bs) = length bs mod 48" unfolding last_line_def length_drop by linarith
  then show ?thesis by simp
qed

lemma length_b64_lines: "length (b64_lines bs) = 65 * (length bs div 48)"
proof (induction bs rule: b64_lines.induct)
  case (1 bs)
  show ?case
  proof (cases "48 \<le> length bs")
    case True
    then have "length bs div 48 = (length bs - 48) div 48 + 1" by (simp add: le_div_geq)
    then show ?thesis using 1 True by (simp add: b64_lines_long length_b64_encode)
  qed simp
qed

lemma encode_line: "encode_line src = (b64_encode src @ [0x0A], of_nat (length (b64_encode src)))"
  by (simp add: encode_line_def EVP_EncodeBlock)

lemma encode_lines:
  assumes "unat tot + length (b64_lines inp) < 2 ^ 64"
  shows "encode_lines inp out tot =
    (last_line inp, out @ b64_lines inp, Some (tot + of_nat (length (b64_lines inp))))"
  using assms
proof (induction inp out tot rule: encode_lines.induct)
  case (1 inp out tot)
  show ?case
  proof (cases "48 \<le> length inp")
    case False
    then show ?thesis by (subst encode_lines.simps) simp
  next
    case True
    let ?line = "b64_encode (take 48 inp)"
    have len: "length ?line = 64" using True by (simp add: length_b64_encode)
    have room: "unat tot + 65 + length (b64_lines (drop 48 inp)) < 2 ^ 64"
      using "1.prems" True len by (simp add: b64_lines_long)
    then have u: "unat (tot + 65) = unat tot + 65" by (simp add: unat_word_ariths)
    then have le: "\<not> tot + 65 < tot" by (simp add: word_less_nat_alt)
    have "encode_lines (drop 48 inp) (out @ ?line @ [0x0A]) (tot + 65) =
        (last_line (drop 48 inp), (out @ ?line @ [0x0A]) @ b64_lines (drop 48 inp),
         Some (tot + 65 + of_nat (length (b64_lines (drop 48 inp)))))"
      using "1.IH" [of "(?line @ [0x0A], 64)" "?line @ [0x0A]" 64] True room u le len
      by (simp add: encode_line add.commute)
    then show ?thesis
      using True le len
      by (subst encode_lines.simps)
        (simp add: encode_line b64_lines_long last_line_long [of inp] add.assoc)
  qed
qed

lemma fill_data: "wf_ctx ctx \<Longrightarrow> unat (data_used ctx) + length inp \<le> 48 \<Longrightarrow>
   length (fill_data ctx inp) = 48 \<and> take (unat (data_used ctx) + length inp) (fill_data ctx inp) = pending ctx @ inp"
  by (auto simp: fill_data_def pending_def wf_ctx_def word_less_nat_alt)

lemma length_pending: "wf_ctx ctx \<Longrightarrow> length (pending ctx) = unat (data_used ctx)"
  by (simp add: pending_def wf_ctx_def word_less_nat_alt)

lemma encode_update:
  assumes wf: "wf_ctx ctx" and len: "length inp < 2 ^ 30"
  shows "\<exists>ctx'. EVP_EncodeUpdate ctx inp =
      Some (ctx', with_nul (b64_lines (pending ctx @ inp)), int (length (b64_lines (pending ctx @ inp)))) \<and>
    wf_ctx ctx' \<and> pending ctx' = last_line (pending ctx @ inp)"
proof (cases "inp = []")
  case True
  have "length (pending ctx) < 48" using wf length_pending by (simp add: wf_ctx_def word_less_nat_alt)
  then show ?thesis using True wf by (simp add: EVP_EncodeUpdate_def with_nul_def)
next
  case ne: False
  let ?u = "unat (data_used ctx)"
  have u: "?u < 48" "\<not> 48 \<le> data_used ctx" using wf by (simp_all add: wf_ctx_def word_less_nat_alt word_le_nat_alt)
  show ?thesis
  proof (cases "48 - ?u > length inp")
    case True
    let ?ctx = "ctx\<lparr>ctx_data := fill_data ctx inp, data_used := data_used ctx + of_nat (length inp)\<rparr>"
    have l: "?u + length inp < 48" using True by simp
    then have un: "unat (data_used ctx + of_nat (length inp)) = ?u + length inp"
      by (simp add: unat_word_ariths unat_of_nat)
    then have "wf_ctx ?ctx" "pending ?ctx = pending ctx @ inp"
      using fill_data [OF wf, of inp] l by (simp_all add: wf_ctx_def pending_def word_less_nat_alt)
    moreover have "length (pending ctx @ inp) < 48" using l length_pending [OF wf] by simp
    ultimately show ?thesis using True ne u by (simp add: EVP_EncodeUpdate_def with_nul_def)
  next
    case False
    let ?todo = "48 - ?u"
    define full where "full = fill_data ctx (take ?todo inp)"
    define ctx1 where "ctx1 = (if data_used ctx \<noteq> 0 then ctx\<lparr>ctx_data := full, data_used := 0\<rparr> else ctx)"
    define inp1 where "inp1 = (if data_used ctx \<noteq> 0 then drop ?todo inp else inp)"
    define out1 where "out1 = (if data_used ctx \<noteq> 0 then b64_encode full @ [0x0A] else [])"
    have wf1: "wf_ctx ctx1" "data_used ctx1 = 0"
      using wf fill_data [OF wf, of "take ?todo inp"] u
      by (auto simp: ctx1_def full_def wf_ctx_def)
    have lt: "length (take ?todo inp) = ?todo" "?u + ?todo = 48" using False u by simp_all
    then have "full = pending ctx @ take ?todo inp"
      using fill_data [OF wf, of "take ?todo inp"] unfolding full_def lt by auto
    then have "data_used ctx \<noteq> 0 \<longrightarrow> full = take 48 (pending ctx @ inp)"
      using u length_pending [OF wf] by simp
    moreover have p0: "data_used ctx = 0 \<longrightarrow> pending ctx = []" by (simp add: pending_def)
    moreover have big: "48 \<le> length (pending ctx @ inp)" using False length_pending [OF wf] by simp
    ultimately have lines: "out1 @ b64_lines inp1 = b64_lines (pending ctx @ inp)"
        "last_line inp1 = last_line (pending ctx @ inp)"
      using length_pending [OF wf] last_line_long [OF big] u
      by (auto simp: out1_def inp1_def b64_lines_long)
    have lb: "length (b64_lines (pending ctx @ inp)) < 2 ^ 31 - 1"
      using len u length_pending [OF wf] by (simp add: length_b64_lines)
    then have tot: "unat (of_nat (length out1) :: u64) + length (b64_lines inp1) < 2 ^ 64"
      using lines(1) [symmetric] by (simp add: unat_of_nat)
    have el: "encode_lines inp1 out1 (of_nat (length out1)) =
        (last_line inp1, out1 @ b64_lines inp1, Some (of_nat (length (b64_lines (pending ctx @ inp)))))"
      using encode_lines [OF tot, of out1] lines(1) [symmetric] by simp
    define ctx' where "ctx' = ctx1\<lparr>ctx_data := (if last_line inp1 \<noteq> [] then last_line inp1 @
        drop (length (last_line inp1)) (ctx_data ctx1) else ctx_data ctx1),
        data_used := of_nat (length (last_line inp1))\<rparr>"
    have small: "\<not> INT_MAX < of_nat (length (b64_lines (pending ctx @ inp)))"
        "uint (of_nat (length (b64_lines (pending ctx @ inp))) :: u64) = int (length (b64_lines (pending ctx @ inp)))"
      using lb by (simp_all add: INT_MAX_def word_less_nat_alt unat_of_nat uint_nat)
    have "EVP_EncodeUpdate ctx inp = Some (ctx', with_nul (b64_lines (pending ctx @ inp)),
        int (length (b64_lines (pending ctx @ inp))))"
      using ne u False el lines(1) small
      by (auto simp: EVP_EncodeUpdate_def Let_def encode_line ctx'_def ctx1_def inp1_def out1_def full_def
          add.commute)
    moreover have "unat (of_nat (length (last_line inp1)) :: u32) = length (last_line inp1)"
      using length_last_line [of inp1] by (simp add: unat_of_nat)
    then have "wf_ctx ctx' \<and> pending ctx' = last_line inp1"
      using wf1 length_last_line [of inp1]
      by (auto simp: ctx'_def wf_ctx_def pending_def word_less_nat_alt)
    ultimately show ?thesis using lines(2) by auto
  qed
qed

section \<open>Feeding a stream in pieces\<close>

fun feed :: "('s \<Rightarrow> 'a list \<Rightarrow> ('s \<times> 'b list) option) \<Rightarrow> 's \<Rightarrow> 'a list list \<Rightarrow> ('s \<times> 'b list) option" where
  "feed step s [] = Some (s, [])"
| "feed step s (c # cs) = do { (s, out) \<leftarrow> step s c; (s, outs) \<leftarrow> feed step s cs; Some (s, out @ outs) }"

text \<open>
  An update function of a streaming interface, with what its state means for the rest of the stream
  (\<open>view\<close>) and a reference function on that meaning.  The laws: the function computes the reference
  function, and the reference function does not see how its input is cut.
\<close>

locale chunked_stream =
  fixes step :: "'s \<Rightarrow> 'a list \<Rightarrow> ('s \<times> 'b list) option"
    and view :: "'s \<Rightarrow> 'v"
    and ref :: "'v \<Rightarrow> 'a list \<Rightarrow> ('v \<times> 'b list) option"
    and inv :: "'s \<Rightarrow> bool"
    and fits :: "'a list \<Rightarrow> bool"
  assumes refines: "inv s \<Longrightarrow> fits xs \<Longrightarrow>
      (case step s xs of None \<Rightarrow> ref (view s) xs = None
       | Some (s', out) \<Rightarrow> ref (view s) xs = Some (view s', out) \<and> inv s')"
    and ref_Nil: "inv s \<Longrightarrow> ref (view s) [] = Some (view s, [])"
    and ref_append: "ref v (xs @ ys) =
      do { (v, out) \<leftarrow> ref v xs; (v, outs) \<leftarrow> ref v ys; Some (v, out @ outs) }"
begin

lemma feed_refines:
  "inv s \<Longrightarrow> \<forall>c \<in> set cs. fits c \<Longrightarrow>
     (case feed step s cs of None \<Rightarrow> ref (view s) (concat cs) = None
      | Some (s', out) \<Rightarrow> ref (view s) (concat cs) = Some (view s', out) \<and> inv s')"
proof (induction cs arbitrary: s)
  case Nil
  then show ?case by (simp add: ref_Nil)
next
  case (Cons c cs)
  show ?case
  proof (cases "step s c")
    case None
    then show ?thesis using refines [of s c] Cons.prems by (simp add: ref_append)
  next
    case (Some r)
    obtain s' out where r: "r = (s', out)" by (cases r)
    then have "ref (view s) c = Some (view s', out)" "inv s'"
      using Some refines [of s c] Cons.prems by auto
    then show ?thesis
      using Some r Cons.IH [of s'] Cons.prems by (auto simp: ref_append split: option.splits)
  qed
qed

text \<open>Any two ways to cut a stream give the same output and equivalent states.\<close>

lemma cut_irrelevant:
  assumes "inv s" "\<forall>c \<in> set cs. fits c" "\<forall>c \<in> set ds. fits c" "concat cs = concat ds"
  shows "map_option (\<lambda>(s, out). (view s, out)) (feed step s cs) =
    map_option (\<lambda>(s, out). (view s, out)) (feed step s ds)"
  using feed_refines [OF assms(1,2)] feed_refines [OF assms(1,3)] assms(4)
  by (auto split: option.splits)

end

text \<open>The bytes \<open>EVP_EncodeUpdate\<close> reports with \<open>*out_len\<close>.\<close>

definition encode_step :: "EVP_ENCODE_CTX \<Rightarrow> bytes \<Rightarrow> (EVP_ENCODE_CTX \<times> bytes) option" where
  "encode_step ctx inp = map_option (\<lambda>(ctx, out, n). (ctx, take (nat n) out)) (EVP_EncodeUpdate ctx inp)"

lemma b64_lines_append:
  "b64_lines (xs @ ys) = b64_lines xs @ b64_lines (last_line xs @ ys) \<and>
   last_line (xs @ ys) = last_line (last_line xs @ ys)"
proof (induction xs rule: b64_lines.induct)
  case (1 xs)
  show ?case
  proof (cases "48 \<le> length xs")
    case True
    then have "b64_lines (xs @ ys) = b64_encode (take 48 xs) @ 0x0A # b64_lines (drop 48 xs @ ys)"
        "last_line (xs @ ys) = last_line (drop 48 xs @ ys)"
      using b64_lines_long [of "xs @ ys"] last_line_long [of "xs @ ys"] by simp_all
    then show ?thesis using 1 True b64_lines_long [of xs] last_line_long [of xs] by simp
  qed simp
qed

interpretation encoder: chunked_stream
  encode_step pending "\<lambda>v xs. Some (last_line (v @ xs), b64_lines (v @ xs))"
  "wf_ctx" "\<lambda>xs. length xs < 2 ^ 30"
proof
  fix s :: EVP_ENCODE_CTX and xs :: bytes
  assume "wf_ctx s" "length xs < 2 ^ 30"
  then obtain s' where "EVP_EncodeUpdate s xs =
      Some (s', with_nul (b64_lines (pending s @ xs)), int (length (b64_lines (pending s @ xs))))"
      "wf_ctx s'" "pending s' = last_line (pending s @ xs)"
    using encode_update by blast
  then show "case encode_step s xs of None \<Rightarrow> Some (last_line (pending s @ xs), b64_lines (pending s @ xs)) = None
       | Some (s', out) \<Rightarrow> Some (last_line (pending s @ xs), b64_lines (pending s @ xs)) = Some (pending s', out) \<and> wf_ctx s'"
    by (simp add: encode_step_def with_nul_def)
next
  show "Some (last_line (pending s @ []), b64_lines (pending s @ [])) = Some (pending s, [])" if "wf_ctx s" for s
    using that length_pending [OF that] by (simp add: wf_ctx_def word_less_nat_alt)
next
  show "Some (last_line (v @ xs @ ys), b64_lines (v @ xs @ ys)) =
    do { (v, out) \<leftarrow> Some (last_line (v @ xs), b64_lines (v @ xs));
         (v, outs) \<leftarrow> Some (last_line (v @ ys), b64_lines (v @ ys)); Some (v, out @ outs) }" for v xs ys
    using b64_lines_append [of "v @ xs" ys] by simp
qed

text \<open>The whole encoding of a text, as PEM has it: lines of 64 characters, the last one shorter.\<close>

definition b64_text :: "bytes \<Rightarrow> bytes" where
  "b64_text bs = b64_lines bs @ (if last_line bs = [] then [] else b64_encode (last_line bs) @ [0x0A])"

lemma encode_final:
  assumes "wf_ctx ctx"
  shows "\<exists>ctx' n. EVP_EncodeFinal ctx =
    (ctx', with_nul (if pending ctx = [] then [] else b64_encode (pending ctx) @ [0x0A]), n) \<and>
    n = int (length (if pending ctx = [] then [] else b64_encode (pending ctx) @ [0x0A])) \<and>
    wf_ctx ctx' \<and> pending ctx' = []"
proof (cases "data_used ctx = 0")
  case True
  then show ?thesis using assms by (simp add: EVP_EncodeFinal_def pending_def with_nul_def)
next
  case False
  have u: "unat (data_used ctx) < 48" using assms by (simp add: wf_ctx_def word_less_nat_alt)
  have ne: "pending ctx \<noteq> []"
    using False length_pending [OF assms] by (auto simp: unat_eq_zero)
  have "(unat (data_used ctx) + 2) div 3 \<le> 49 div 3" using u by (intro div_le_mono) simp
  then have "length (b64_encode (pending ctx)) < 65"
    using length_pending [OF assms] by (simp add: length_b64_encode)
  then have "uint (of_nat (length (b64_encode (pending ctx))) + 1 :: u64) = int (length (b64_encode (pending ctx))) + 1"
    by (simp add: uint_nat unat_word_ariths unat_of_nat)
  then show ?thesis
    using False ne assms
    by (simp add: EVP_EncodeFinal_def encode_line pending_def [symmetric] Let_def wf_ctx_def)
      (simp add: pending_def)
qed

section \<open>Streaming decoder\<close>

text \<open>
  The reference: a pair of the characters held back and whether padding has been seen.
\<close>

fun b64_scan :: "bytes \<times> bool \<Rightarrow> bytes \<Rightarrow> ((bytes \<times> bool) \<times> bytes) option" where
  "b64_scan v [] = Some (v, [])"
| "b64_scan (p, eof) (c # cs) =
     (if is_space c then b64_scan (p, eof) cs
      else if eof then None
      else if length p = 3 then do {
        bs \<leftarrow> quad_spec (p ! 0) (p ! 1) (p ! 2) c;
        (v, out) \<leftarrow> b64_scan ([], length bs < 3) cs;
        Some (v, bs @ out)
      }
      else b64_scan (p @ [c], False) cs)"

lemma b64_scan_append:
  "b64_scan v (xs @ ys) =
     do { (v, out) \<leftarrow> b64_scan v xs; (v, outs) \<leftarrow> b64_scan v ys; Some (v, out @ outs) }"
proof (induction v xs rule: b64_scan.induct)
  case (1 v)
  show ?case by (cases "b64_scan v ys") auto
next
  case (2 p eof c cs)
  then show ?case
    by (cases "quad_spec (p ! 0) (p ! 1) (p ! 2) c")
      (auto split: Option.bind_splits if_splits)
qed

definition wf_dec :: "EVP_ENCODE_CTX \<Rightarrow> bool" where
  "wf_dec ctx \<longleftrightarrow> data_used ctx < 4 \<and> length (ctx_data ctx) = 48 \<and> \<not> error_encountered ctx"

definition dec_view :: "EVP_ENCODE_CTX \<Rightarrow> bytes \<times> bool" where
  "dec_view ctx = (pending ctx, eof_seen ctx)"

lemma decode_update_loop:
  assumes "wf_dec ctx"
  shows "\<exists>ok ctx' new. decode_update_loop ctx inp out = Some (ok, ctx', out @ new) \<and>
    (if ok then b64_scan (dec_view ctx) inp = Some (dec_view ctx', new) \<and> wf_dec ctx'
     else b64_scan (dec_view ctx) inp = None \<and> error_encountered ctx') \<and>
    length new \<le> 3 * ((unat (data_used ctx) + length inp) div 4)"
  using assms
proof (induction inp arbitrary: ctx out)
  case Nil
  then show ?case by (auto intro!: exI [of _ True])
next
  case (Cons c inp)
  let ?u = "unat (data_used ctx)"
  have wf: "data_used ctx < 4" "length (ctx_data ctx) = 48" "\<not> error_encountered ctx"
    using Cons.prems by (simp_all add: wf_dec_def)
  have u: "?u < 4" "\<not> 48 \<le> ?u" using wf by (simp_all add: word_less_nat_alt)
  have lp: "length (pending ctx) = ?u" using wf u by (simp add: pending_def)
  show ?case
  proof (cases "is_space c \<or> eof_seen ctx")
    case True
    show ?thesis
    proof (cases "is_space c")
      case sp: True
      have "(?u + length inp) div 4 \<le> (?u + length (c # inp)) div 4" by (rule div_le_mono) simp
      then have le: "3 * ((?u + length inp) div 4) \<le> 3 * ((?u + length (c # inp)) div 4)" by simp
      have eq: "decode_update_loop ctx (c # inp) out = decode_update_loop ctx inp out"
          "b64_scan (dec_view ctx) (c # inp) = b64_scan (dec_view ctx) inp"
        using sp by (simp_all add: dec_view_def)
      from Cons.IH [OF Cons.prems, of out] show ?thesis
        unfolding eq using le by (meson le_trans)
    next
      case False
      then show ?thesis using True by (auto simp: dec_view_def)
    qed
  next
    case False
    define ctx1 where "ctx1 = ctx\<lparr>ctx_data := (ctx_data ctx)[?u := c], data_used := data_used ctx + 1\<rparr>"
    have u1: "unat (data_used ctx1) = ?u + 1"
      using u by (simp add: ctx1_def unat_word_ariths)
    have p1: "take (?u + 1) (ctx_data ctx1) = pending ctx @ [c]"
      using wf u by (simp add: ctx1_def pending_def take_Suc_conv_app_nth)
    have un: "decode_update_loop ctx (c # inp) out =
        (if data_used ctx1 = 4 then
          (case base64_decode_quad (ctx_data ctx1 ! 0) (ctx_data ctx1 ! 1) (ctx_data ctx1 ! 2)
                  (ctx_data ctx1 ! 3) of
             None \<Rightarrow> Some (False, ctx1\<lparr>error_encountered := True\<rparr>, out)
           | Some bs \<Rightarrow>
               decode_update_loop
                 (ctx1\<lparr>data_used := 0, eof_seen := length bs < 3 \<or> eof_seen ctx1\<rparr>) inp (out @ bs))
        else decode_update_loop ctx1 inp out)"
      using False u wf
      by (simp only: decode_update_loop.simps Let_def ctx1_def [symmetric]) simp
    show ?thesis
    proof (cases "?u = 3")
      case True
      then have four: "data_used ctx1 = 4" using u1 by (simp add: word_unat_eq_iff)
      have p4: "take 4 (ctx_data ctx1) = pending ctx @ [c]" using p1 True by simp
      have "ctx_data ctx1 ! k = (pending ctx @ [c]) ! k" if "k < 4" for k
        using that by (simp flip: p4)
      then have data: "ctx_data ctx1 ! 0 = pending ctx ! 0" "ctx_data ctx1 ! 1 = pending ctx ! 1"
          "ctx_data ctx1 ! 2 = pending ctx ! 2" "ctx_data ctx1 ! 3 = c"
        using lp True by (simp_all add: nth_append)
      show ?thesis
      proof (cases "quad_spec (pending ctx ! 0) (pending ctx ! 1) (pending ctx ! 2) c")
        case None
        then show ?thesis using un four data False lp True
          by (auto simp: dec_view_def base64_decode_quad)
      next
        case (Some bs)
        define ctx2 where "ctx2 = ctx1\<lparr>data_used := 0, eof_seen := length bs < 3 \<or> eof_seen ctx1\<rparr>"
        have ctx2: "wf_dec ctx2" "dec_view ctx2 = ([], length bs < 3)" "unat (data_used ctx2) = 0"
          using wf False by (simp_all add: ctx2_def ctx1_def wf_dec_def dec_view_def pending_def)
        obtain ok ctx' new where IH: "decode_update_loop ctx2 inp (out @ bs) = Some (ok, ctx', (out @ bs) @ new)"
            "if ok then b64_scan (dec_view ctx2) inp = Some (dec_view ctx', new) \<and> wf_dec ctx'
             else b64_scan (dec_view ctx2) inp = None \<and> error_encountered ctx'"
            "length new \<le> 3 * ((unat (data_used ctx2) + length inp) div 4)"
          using Cons.IH [OF ctx2(1), of "out @ bs"] by blast
        have "length (bs @ new) \<le> 3 * ((?u + length (c # inp)) div 4)"
          using IH(3) ctx2(3) True quad_spec_length [OF Some] div_add_self1 [of 4 "length inp"] by simp
        moreover have "decode_update_loop ctx (c # inp) out = Some (ok, ctx', out @ bs @ new)"
          using un four data Some IH(1) by (simp add: base64_decode_quad ctx2_def)
        moreover have "b64_scan (dec_view ctx) (c # inp) =
            do { (v, out) \<leftarrow> b64_scan (dec_view ctx2) inp; Some (v, bs @ out) }"
          using False lp True Some ctx2(2) by (simp add: dec_view_def)
        ultimately show ?thesis using IH(2)
          by (intro exI [of _ ok] exI [of _ ctx'] exI [of _ "bs @ new"]) (auto split: if_splits)
      qed
    next
      case nf: False
      have nfour: "data_used ctx1 \<noteq> 4" using nf u u1 by (auto simp: word_unat_eq_iff)
      have ctx1: "wf_dec ctx1" "dec_view ctx1 = (pending ctx @ [c], False)"
        using wf False u nf u1 p1 by (auto simp: wf_dec_def dec_view_def pending_def ctx1_def word_less_nat_alt)
      have e: "b64_scan (dec_view ctx) (c # inp) = b64_scan (dec_view ctx1) inp"
          "decode_update_loop ctx (c # inp) out = decode_update_loop ctx1 inp out"
          "?u + length (c # inp) = unat (data_used ctx1) + length inp"
        using False lp nf ctx1(2) nfour u1 by (simp add: dec_view_def, simp only: un if_False, simp)
      show ?thesis unfolding e by (rule Cons.IH [OF ctx1(1)])
    qed
  qed
qed

text \<open>The bytes \<open>EVP_DecodeUpdate\<close> reports with \<open>*out_len\<close>; nothing after an error.\<close>

definition decode_step :: "EVP_ENCODE_CTX \<Rightarrow> bytes \<Rightarrow> (EVP_ENCODE_CTX \<times> bytes) option" where
  "decode_step ctx inp = do {
     (ret, ctx, n, out) \<leftarrow> EVP_DecodeUpdate ctx inp;
     if ret < 0 then None else Some (ctx, take (nat n) out)
   }"

lemma decode_update:
  assumes wf: "wf_dec ctx" and len: "length inp < 2 ^ 31 - 4"
  shows "\<exists>ret ctx' n out. EVP_DecodeUpdate ctx inp = Some (ret, ctx', n, out) \<and>
    (case b64_scan (dec_view ctx) inp of
       None \<Rightarrow> ret = - 1 \<and> n = 0 \<and> error_encountered ctx'
     | Some (v, res) \<Rightarrow> ret = (if snd v then 0 else 1) \<and> dec_view ctx' = v \<and> wf_dec ctx' \<and>
         n = int (length res) \<and> out = res)"
proof -
  obtain ok ctx' new where l: "decode_update_loop ctx inp [] = Some (ok, ctx', new)"
      "if ok then b64_scan (dec_view ctx) inp = Some (dec_view ctx', new) \<and> wf_dec ctx'
       else b64_scan (dec_view ctx) inp = None \<and> error_encountered ctx'"
      "length new \<le> 3 * ((unat (data_used ctx) + length inp) div 4)"
    using decode_update_loop [OF wf, of inp "[]"] by auto
  have "unat (data_used ctx) < 4" using wf by (simp add: wf_dec_def word_less_nat_alt)
  then have "length new < 2 ^ 31" using l(3) len by simp
  then have n: "\<not> INT_MAX < (of_nat (length new) :: u64)" "uint (of_nat (length new) :: u64) = int (length new)"
    by (simp_all add: INT_MAX_def word_less_nat_alt unat_of_nat uint_nat)
  have "\<not> error_encountered ctx" using wf by (simp add: wf_dec_def)
  then show ?thesis
    using l(1,2) n by (cases ok) (auto simp: EVP_DecodeUpdate_def dec_view_def)
qed

interpretation decoder: chunked_stream
  decode_step dec_view b64_scan wf_dec "\<lambda>xs. length xs < 2 ^ 31 - 4"
proof
  fix s :: EVP_ENCODE_CTX and xs :: bytes
  assume "wf_dec s" "length xs < 2 ^ 31 - 4"
  from decode_update [OF this]
  show "case decode_step s xs of None \<Rightarrow> b64_scan (dec_view s) xs = None
       | Some (s', out) \<Rightarrow> b64_scan (dec_view s) xs = Some (dec_view s', out) \<and> wf_dec s'"
    by (cases "b64_scan (dec_view s) xs") (auto simp: decode_step_def split: if_splits)
next
  show "b64_scan (dec_view s) [] = Some (dec_view s, [])" for s by (simp add: dec_view_def)
next
  show "b64_scan v (xs @ ys) =
    do { (v, out) \<leftarrow> b64_scan v xs; (v, outs) \<leftarrow> b64_scan v ys; Some (v, out @ outs) }" for v xs ys
    by (rule b64_scan_append)
qed

text \<open>Scanning a text and decoding it in one shot.\<close>

lemma b64_scan_filter: "b64_scan v inp = b64_scan v (filter (\<lambda>c. \<not> is_space c) inp)"
  by (induction v inp rule: b64_scan.induct) (auto split: Option.bind_splits)

lemma b64_scan_eof: "\<forall>c \<in> set inp. \<not> is_space c \<Longrightarrow> b64_scan (p, True) inp = (if inp = [] then Some ((p, True), []) else None)"
  by (cases inp) auto

lemma scan_four:
  assumes "\<not> is_space a" "\<not> is_space b" "\<not> is_space c" "\<not> is_space d"
  shows "b64_scan ([], False) (a # b # c # d # inp) = do {
    bs \<leftarrow> quad_spec a b c d;
    (v, out) \<leftarrow> b64_scan ([], length bs < 3) inp;
    Some (v, bs @ out) }"
  using assms by simp

lemma scan_quads:
  assumes "\<forall>c \<in> set inp. \<not> is_space c" "length inp mod 4 = 0"
  shows "map_option snd (b64_scan ([], False) inp) =
    (case decode_quads inp out of Some (True, res) \<Rightarrow> Some (drop (length out) res) | _ \<Rightarrow> None)"
  using assms
proof (induction inp out rule: decode_quads.induct)
  case (1 out)
  then show ?case by simp
next
  case (2 a b c d inp out)
  have ns: "\<forall>c \<in> set inp. \<not> is_space c" "length inp mod 4 = 0" using 2 by (auto simp: mod_add_self1)
  show ?case
  proof (cases "quad_spec a b c d")
    case None
    then show ?thesis using "2.prems" by (simp add: base64_decode_quad)
  next
    case (Some bs)
    show ?thesis
    proof (cases "length bs = 3")
      case False
      then have "length bs < 3" using quad_spec_length [OF Some] by simp
      then show ?thesis
        using "2.prems" Some False b64_scan_eof [OF ns(1)]
        by (auto simp: base64_decode_quad scan_four)
    next
      case True
      then have IH: "map_option snd (b64_scan ([], False) inp) =
          (case decode_quads inp (out @ bs) of Some (True, res) \<Rightarrow> Some (drop (length (out @ bs)) res) | _ \<Rightarrow> None)"
        using "2.IH" [of bs] Some ns by (simp add: base64_decode_quad)
      have pre: "decode_quads inp (out @ bs) = Some (True, res) \<Longrightarrow> \<exists>src. res = out @ bs @ src" for res
        using decode_quads_reencode by fastforce
      show ?thesis
        using "2.prems" Some True IH pre
        by (auto simp: base64_decode_quad scan_four split: option.splits bool.splits Option.bind_splits)
    qed
  qed
qed auto

section \<open>Properties\<close>

lemma of_nat_len_div: "n < 2 ^ 64 \<Longrightarrow> unat (of_nat n div 4 * 3 :: u64) = n div 4 * 3 \<and> unat (of_nat n mod 4 :: u64) = n mod 4"
  by (simp add: unat_word_ariths unat_div unat_mod unat_of_nat)

lemma EVP_DecodeBase64_unfold:
  assumes "length inp < 2 ^ 64"
  shows "EVP_DecodeBase64 max_out inp =
    (if length inp mod 4 \<noteq> 0 \<or> unat max_out < length inp div 4 * 3 then Some (False, 0, [])
     else do {
       (ok, out) \<leftarrow> decode_quads inp [];
       Some (if ok then (True, of_nat (length out), out) else (False, 0, out)) })"
  using of_nat_len_div [OF assms]
  by (auto simp: EVP_DecodeBase64_def EVP_DecodedLength_def Let_def unat_eq_zero [symmetric] word_less_nat_alt)

lemma block_roundtrip:
  assumes len: "length src < 2 ^ 62" and room: "length src + 2 \<le> unat max_out"
  shows "EVP_DecodeBase64 max_out (b64_encode src) = Some (True, of_nat (length src), src)"
proof -
  let ?e = "b64_encode src"
  have l: "length ?e = 4 * ((length src + 2) div 3)" by (rule length_b64_encode)
  then have e: "length ?e < 2 ^ 64" "length ?e mod 4 = 0" using len by simp_all
  moreover have "length ?e div 4 * 3 \<le> unat max_out"
    using l room div_times_less_eq_dividend [of "length src + 2" 3] by simp
  ultimately show ?thesis
    using decode_quads_encode [of src "[]"] by (simp add: EVP_DecodeBase64_unfold)
qed

text \<open>C11: One-shot base64 round trip: \<^verbatim>\<open>EVP_EncodeBlock\<close> writes the encoding and a NUL and returns
  its length, and \<^verbatim>\<open>EVP_DecodeBase64\<close> on the encoding returns success and exactly the original
  bytes, given an output buffer of two bytes more than the data.\<close>

theorem base64_roundtrip:
  assumes len: "length src < 2 ^ 62" and room: "length src + 2 \<le> unat max_out"
  shows "\<exists>enc ret. EVP_EncodeBlock src = (enc @ [0], ret) \<and> unat ret = length enc \<and>
    EVP_DecodeBase64 max_out enc = Some (True, of_nat (length src), src)"
proof -
  have "length (b64_encode src) < 2 ^ 64" using len by (simp add: length_b64_encode)
  then have "unat (of_nat (length (b64_encode src)) :: u64) = length (b64_encode src)"
    by (simp add: unat_of_nat)
  then show ?thesis using block_roundtrip [OF assms] by (simp add: EVP_EncodeBlock)
qed

lemma base64_roundtrip_witness:
  "\<exists>enc ret. EVP_EncodeBlock [0x4D, 0x61] = (enc @ [0], ret) \<and> unat ret = length enc \<and>
    EVP_DecodeBase64 4 enc = Some (True, of_nat (length [0x4D, 0x61 :: byte]), [0x4D, 0x61])"
  by (rule base64_roundtrip) simp_all

text \<open>What a text denotes: quads of digits, of which only the last may be padded.\<close>

fun b64_decode :: "bytes \<Rightarrow> bytes option" where
  "b64_decode [] = Some []"
| "b64_decode (a # b # c # d # inp) =
     (case quad_spec a b c d of
        None \<Rightarrow> None
      | Some bs \<Rightarrow>
          if inp = [] then Some bs
          else if length bs = 3 then map_option ((@) bs) (b64_decode inp) else None)"
| "b64_decode _ = None"

lemma decode_quads_value:
  "length inp mod 4 = 0 \<Longrightarrow> (case b64_decode inp of
      None \<Rightarrow> \<exists>res. decode_quads inp out = Some (False, res)
    | Some bs \<Rightarrow> decode_quads inp out = Some (True, out @ bs))"
proof (induction inp arbitrary: out rule: b64_decode.induct)
  case (2 a b c d inp)
  show ?case
  proof (cases "quad_spec a b c d")
    case None
    then show ?thesis by (simp add: base64_decode_quad)
  next
    case (Some bs)
    show ?thesis
    proof (cases "inp = []")
      case True
      then show ?thesis using Some by (simp add: base64_decode_quad)
    next
      case False
      have "length inp mod 4 = 0" using "2.prems" by (simp add: mod_add_self1)
      then show ?thesis
        using "2.IH" [of bs "out @ bs"] Some False by (auto simp: base64_decode_quad split: option.splits)
    qed
  qed
qed auto

lemma b64_decode_length: "b64_decode inp = Some bs \<Longrightarrow> length inp mod 4 = 0"
  by (induction inp arbitrary: bs rule: b64_decode.induct) (auto split: option.splits if_splits simp: mod_add_self1)

text \<open>C25: \<^verbatim>\<open>EVP_DecodeBase64\<close> is exact: on every input and every buffer size it returns and writes no more than
  \<^verbatim>\<open>max_out\<close> bytes; it succeeds exactly on the texts that denote bytes (quads of base64 digits, the last of which may end in
  \<^verbatim>\<open>=\<close> or \<^verbatim>\<open>==\<close>) when the buffer has three bytes for every quad, and yields the bytes denoted.  Encoding them again gives a
  text of the length of the input that agrees with it except possibly in the last three characters, and
  everywhere when the input has no padding.\<close>

theorem base64_decode_sound:
  assumes "length inp < 2 ^ 64"
  shows "\<exists>ok n out. EVP_DecodeBase64 max_out inp = Some (ok, n, out) \<and> length out \<le> unat max_out \<and>
    (ok \<longleftrightarrow> b64_decode inp \<noteq> None \<and> length inp div 4 * 3 \<le> unat max_out) \<and>
    (if ok then b64_decode inp = Some out \<and> unat n = length out \<and> length (b64_encode out) = length inp \<and>
         take (length inp - 3) (b64_encode out) = take (length inp - 3) inp \<and>
         (inp \<noteq> [] \<and> last inp \<noteq> 0x3D \<longrightarrow> b64_encode out = inp)
     else n = 0)"
proof (cases "length inp mod 4 \<noteq> 0 \<or> unat max_out < length inp div 4 * 3")
  case True
  then have "b64_decode inp = None \<or> \<not> length inp div 4 * 3 \<le> unat max_out"
    using b64_decode_length [of inp] by (cases "b64_decode inp") auto
  then show ?thesis using True
    unfolding EVP_DecodeBase64_unfold [OF assms] by (intro exI [of _ False]) auto
next
  case False
  then obtain ok out where d: "decode_quads inp [] = Some (ok, out)"
    using decode_quads_total by blast
  have b: "length out \<le> unat max_out" using decode_quads_bound [OF d] False by (simp add: mult.commute)
  moreover have "unat (of_nat (length out) :: u64) = length out"
    using b unat_u64_less [of max_out] by (simp add: unat_of_nat)
  moreover have "ok \<longleftrightarrow> b64_decode inp \<noteq> None" "ok \<Longrightarrow> b64_decode inp = Some out"
    using decode_quads_value [of inp "[]"] False d by (auto split: option.splits)
  ultimately show ?thesis
    using False d decode_quads_reencode [of inp "[]" out]
    by (cases ok) (auto simp: EVP_DecodeBase64_unfold [OF assms])
qed

lemma base64_decode_sound_witness:
  "EVP_DecodeBase64 3 [0x54, 0x57, 0x45, 0x3D] = Some (True, 2, [0x4D, 0x61]) \<and>
   (\<exists>out. EVP_DecodeBase64 3 [0x54, 0x3D, 0x3D, 0x3D] = Some (False, 0, out))"
proof -
  have s: "b64_decode [0x54, 0x57, 0x45, 0x3D] = Some [0x4D, 0x61]" "b64_decode [0x54, 0x3D, 0x3D, 0x3D] = None"
    by (simp_all add: quad_spec_def b64_value_def num4_def bytes3_def)
  have l: "length [0x54, 0x57, 0x45, 0x3D :: byte] < 2 ^ 64" "length [0x54, 0x3D, 0x3D, 0x3D :: byte] < 2 ^ 64" by simp_all
  obtain ok n out where r: "EVP_DecodeBase64 3 [0x54, 0x57, 0x45, 0x3D] = Some (ok, n, out)" "ok" "unat n = length out" "Some [0x4D, 0x61] = Some out"
    using base64_decode_sound [OF l(1), of 3] unfolding s by auto
  have "n = 2" using r(3,4) by (auto simp: word_unat_eq_iff)
  moreover have "\<exists>out. EVP_DecodeBase64 3 [0x54, 0x3D, 0x3D, 0x3D] = Some (False, 0, out)"
    using base64_decode_sound [OF l(2), of 3] unfolding s by auto
  ultimately show ?thesis using r by simp
qed

lemma drop_push_2: "drop_bit 2 (push_bit 2 (w :: u64)) = w \<longleftrightarrow> unat w < 2 ^ 62"
proof -
  have "drop_bit 2 (push_bit 2 w) = take_bit 62 w"
    by (rule bit_word_eqI) (auto simp: bit_drop_bit_eq bit_push_bit_iff bit_take_bit_iff)
  moreover have "take_bit 62 w = w \<longleftrightarrow> unat w < 2 ^ 62"
    by (auto simp: word_unat_eq_iff unat_take_bit mod_less_divisor intro: mod_less)
  ultimately show ?thesis by simp
qed


text \<open>\<^verbatim>\<open>EVP_EncodedLength\<close> is exact: it returns the number of bytes \<^verbatim>\<open>EVP_EncodeBlock\<close> writes for
  data of that length, its NUL included, and refuses exactly the lengths for which that number does
  not fit in 64 bits.\<close>

theorem encoded_length_exact:
  "EVP_EncodedLength len =
    (if 4 * ((unat len + 2) div 3) + 1 < 2 ^ 64
     then Some (of_nat (4 * ((unat len + 2) div 3) + 1)) else None) \<and>
   length (fst (EVP_EncodeBlock src)) = 4 * ((length src + 2) div 3) + 1"
proof (rule conjI)
  show "length (fst (EVP_EncodeBlock src)) = 4 * ((length src + 2) div 3) + 1"
    by (simp add: EVP_EncodeBlock length_b64_encode)
  define q where "q = (unat len + 2) div 3"
  show "EVP_EncodedLength len =
    (if 4 * ((unat len + 2) div 3) + 1 < 2 ^ 64
     then Some (of_nat (4 * ((unat len + 2) div 3) + 1)) else None)"
  proof (cases "unat len + 2 < 2 ^ 64")
    case False
    then have "unat (len + 2) < unat len"
      using unat_u64_less [of len] by (simp add: unat_word_ariths mod_if)
    then have "EVP_EncodedLength len = None" by (simp add: EVP_EncodedLength_def word_less_nat_alt)
    moreover have "(2 ^ 64) div 3 \<le> q" unfolding q_def using False by (intro div_le_mono) simp
    ultimately show ?thesis unfolding q_def [symmetric] by simp
  next
    case True
    then have u2: "unat (len + 2) = unat len + 2" by (simp add: unat_word_ariths)
    have uq: "unat ((len + 2) div 3) = q" by (simp add: unat_div u2 q_def)
    have no: "\<not> len + 2 < len" using u2 by (simp add: word_less_nat_alt)
    show ?thesis
    proof (cases "q < 2 ^ 62")
      case False
      then show ?thesis
        using no drop_push_2 [of "(len + 2) div 3"] uq
        unfolding q_def [symmetric] by (simp add: EVP_EncodedLength_def Let_def)
    next
      case True
      have "push_bit 2 ((len + 2) div 3) = of_nat (4 * q)"
        by (simp add: push_bit_eq_mult flip: uq)
      moreover have "unat (of_nat (4 * q) :: u64) = 4 * q" "unat (of_nat (4 * q) + 1 :: u64) = 4 * q + 1"
        using True by (simp_all add: unat_word_ariths unat_of_nat)
      ultimately show ?thesis
        using no True drop_push_2 [of "(len + 2) div 3"] uq
        unfolding q_def [symmetric] by (simp add: EVP_EncodedLength_def Let_def word_less_nat_alt)
    qed
  qed
qed

lemma stream_encoding:
  assumes "\<forall>c \<in> set cs. length c < 2 ^ 30"
  shows "\<exists>ctx out ctx' fin n. feed encode_step (EVP_EncodeInit ctx0) cs = Some (ctx, out) \<and>
    EVP_EncodeFinal ctx = (ctx', fin, n) \<and> out @ take (nat n) fin = b64_text (concat cs) \<and>
    pending ctx' = []"
proof -
  have i: "wf_ctx (EVP_EncodeInit ctx0)" "pending (EVP_EncodeInit ctx0) = []"
    by (simp_all add: EVP_EncodeInit_def zero_ctx_def wf_ctx_def pending_def)
  from encoder.feed_refines [OF i(1) assms] obtain ctx where
    f: "feed encode_step (EVP_EncodeInit ctx0) cs = Some (ctx, b64_lines (concat cs))" "wf_ctx ctx"
      "pending ctx = last_line (concat cs)"
    by (auto simp: i split: option.splits)
  define tail where "tail = (if pending ctx = [] then [] else b64_encode (pending ctx) @ [0x0A])"
  from encode_final [OF f(2)] obtain ctx' where
    "EVP_EncodeFinal ctx = (ctx', with_nul tail, int (length tail))" "pending ctx' = []"
    unfolding tail_def by blast
  moreover have "take (nat (int (length tail))) (with_nul tail) = tail" by (simp add: with_nul_def)
  moreover have "b64_lines (concat cs) @ tail = b64_text (concat cs)"
    using f(3) by (simp add: b64_text_def tail_def)
  ultimately show ?thesis using f(1) by metis
qed

text \<open>C24: The streaming encoder does not depend on how its input is cut: whatever the pieces (each
  below 1 GiB) handed to \<^verbatim>\<open>EVP_EncodeUpdate\<close> after \<^verbatim>\<open>EVP_EncodeInit\<close>, the bytes reported by the
  calls and by \<^verbatim>\<open>EVP_EncodeFinal\<close> together are the encoding of the whole input in lines of 64
  characters, and no call fails its assertion.\<close>

theorem encode_stream:
  assumes "\<forall>c \<in> set cs. length c < 2 ^ 30"
  shows "\<exists>ctx out ctx' fin n. feed encode_step (EVP_EncodeInit ctx0) cs = Some (ctx, out) \<and>
    EVP_EncodeFinal ctx = (ctx', fin, n) \<and> out @ take (nat n) fin = b64_text (concat cs) \<and>
    pending ctx' = []"
  using assms by (rule stream_encoding)

lemma encode_stream_witness:
  "\<exists>ctx out ctx' fin n. feed encode_step (EVP_EncodeInit zero_ctx) [replicate 50 1, [], [2]] = Some (ctx, out) \<and>
    EVP_EncodeFinal ctx = (ctx', fin, n) \<and>
    out @ take (nat n) fin = b64_text (concat [replicate 50 1, [], [2]]) \<and> pending ctx' = []"
  by (rule encode_stream) simp

lemma length_scan:
  "b64_scan (p, eof) inp = Some ((q, e), out) \<Longrightarrow> length p < 4 \<Longrightarrow> (eof \<Longrightarrow> p = []) \<Longrightarrow>
     length q = (length p + length (filter (\<lambda>c. \<not> is_space c) inp)) mod 4"
proof (induction "(p, eof)" inp arbitrary: p eof out rule: b64_scan.induct)
  case (1 p eof)
  then show ?case by simp
next
  case (2 p eof c cs)
  show ?case
  proof (cases "is_space c")
    case True
    then show ?thesis using 2 by simp
  next
    case ns: False
    show ?thesis
    proof (cases "length p = 3")
      case True
      then obtain bs o2 where "quad_spec (p ! 0) (p ! 1) (p ! 2) c = Some bs"
          "b64_scan ([], length bs < 3) cs = Some ((q, e), o2)"
        using "2.prems" ns by (auto split: Option.bind_splits if_splits)
      then show ?thesis using "2.hyps"(2) [of bs] ns True "2.prems" 
        by (auto simp: mod_Suc_eq split: if_splits)
    next
      case False
      then show ?thesis using "2.hyps"(3) ns "2.prems" by (auto split: if_splits)
    qed
  qed
qed

lemma decode_init: "wf_dec (EVP_DecodeInit ctx0)" "dec_view (EVP_DecodeInit ctx0) = ([], False)"
  by (simp_all add: EVP_DecodeInit_def zero_ctx_def wf_dec_def dec_view_def pending_def)

lemma decode_final: "wf_dec ctx \<Longrightarrow> EVP_DecodeFinal ctx = (if pending ctx = [] then 1 else - 1)"
proof -
  assume wf: "wf_dec ctx"
  then have "length (pending ctx) = unat (data_used ctx)"
    by (simp add: pending_def wf_dec_def word_less_nat_alt)
  then have "pending ctx = [] \<longleftrightarrow> data_used ctx = 0" by (auto simp: unat_eq_zero)
  then show ?thesis using wf by (simp add: EVP_DecodeFinal_def wf_dec_def)
qed

lemma stream_decoding:
  assumes small: "\<forall>c \<in> set cs. length c < 2 ^ 31 - 4"
    and tx: "tx = filter (\<lambda>c. \<not> is_space c) (concat cs)" "length tx < 2 ^ 64"
    and room: "length tx \<le> unat max_out"
  shows "(\<exists>ctx. feed decode_step (EVP_DecodeInit ctx0) cs = Some (ctx, out) \<and> EVP_DecodeFinal ctx = 1) \<longleftrightarrow>
    EVP_DecodeBase64 max_out tx = Some (True, of_nat (length out), out)"
proof -
  have sc: "b64_scan ([], False) (concat cs) = b64_scan ([], False) tx"
    using b64_scan_filter tx(1) by simp
  have ns: "\<forall>c \<in> set tx. \<not> is_space c" "filter (\<lambda>c. \<not> is_space c) tx = tx" using tx(1) by auto
  have ln: "length (fst v) = length tx mod 4" if "b64_scan ([], False) tx = Some (v, out)" for v
    using that length_scan [of "[]" False tx "fst v" "snd v" out] ns(2) by simp
  have "(\<exists>ctx. feed decode_step (EVP_DecodeInit ctx0) cs = Some (ctx, out) \<and> EVP_DecodeFinal ctx = 1) \<longleftrightarrow>
      (\<exists>v. b64_scan ([], False) tx = Some (v, out) \<and> fst v = [])"
  proof (cases "feed decode_step (EVP_DecodeInit ctx0) cs")
    case None
    then show ?thesis
      using decoder.feed_refines [OF decode_init(1) small, of ctx0] by (simp add: decode_init sc)
  next
    case (Some r)
    obtain ctx o1 where r: "r = (ctx, o1)" by (cases r)
    then have "b64_scan ([], False) tx = Some (dec_view ctx, o1)" "wf_dec ctx"
      using Some decoder.feed_refines [OF decode_init(1) small, of ctx0] by (simp_all add: decode_init sc)
    then show ?thesis using Some r decode_final [of ctx] by (auto simp: dec_view_def)
  qed
  also have "\<dots> \<longleftrightarrow> length tx mod 4 = 0 \<and> map_option snd (b64_scan ([], False) tx) = Some out"
    using ln by fastforce
  also have "\<dots> \<longleftrightarrow> length tx mod 4 = 0 \<and> decode_quads tx [] = Some (True, out)"
    using scan_quads [OF ns(1), of "[]"] by (auto split: option.splits bool.splits)
  also have "\<dots> \<longleftrightarrow> EVP_DecodeBase64 max_out tx = Some (True, of_nat (length out), out)"
  proof -
    have "length tx div 4 * 3 \<le> length tx" using div_times_less_eq_dividend [of "length tx" 4] by linarith
    then have "\<not> unat max_out < length tx div 4 * 3" using room by simp
    then show ?thesis
      by (auto simp: EVP_DecodeBase64_unfold [OF tx(2)] split: Option.bind_splits)
  qed
  finally show ?thesis .
qed



text \<open>The whole encoded text decodes to the data.\<close>

lemma b64_char_not_space: "\<not> is_space (b64_char n)"
  using unat_b64_char [of n] by (auto simp: is_space_def split: if_splits)

lemma pad_not_space: "\<not> is_space 0x3D"
  by (simp add: is_space_def)

lemma b64_encode_no_space: "\<forall>c \<in> set (b64_encode bs). \<not> is_space c"
  supply sp = pad_not_space
proof (induction bs rule: b64_encode.induct)
  case (4 a b c src)
  then show ?case by (auto simp: b64_group_def b64_char_not_space)
next
  case (2 a)
  then show ?case using sp by (auto simp: b64_group_def b64_char_not_space)
next
  case (3 a b)
  then show ?case using sp by (auto simp: b64_group_def b64_char_not_space)
qed simp

lemma b64_encode_append: "length as mod 3 = 0 \<Longrightarrow> b64_encode (as @ bs) = b64_encode as @ b64_encode bs"
proof (induction as rule: b64_encode.induct)
  case (4 a b c src)
  have "length (a # b # c # src) mod 3 = length src mod 3"
    using mod_add_self1 [of 3 "length src"] by simp
  then show ?case using 4 by simp
qed auto

lemma b64_text_filter: "filter (\<lambda>c. \<not> is_space c) (b64_text bs) = b64_encode bs"
proof -
  have keep: "filter (\<lambda>c. \<not> is_space c) (b64_encode xs) = b64_encode xs" for xs
    using b64_encode_no_space [of xs] by (simp add: filter_id_conv)
  have sp: "is_space 0x0A" by (simp add: is_space_def)
  have "filter (\<lambda>c. \<not> is_space c) (b64_lines bs) @ b64_encode (last_line bs) = b64_encode bs"
  proof (induction bs rule: b64_lines.induct)
    case (1 bs)
    show ?case
    proof (cases "48 \<le> length bs")
      case True
      have "b64_encode (take 48 bs @ drop 48 bs) = b64_encode (take 48 bs) @ b64_encode (drop 48 bs)"
        using True by (intro b64_encode_append) simp
      then show ?thesis using 1 True keep sp by (simp add: b64_lines_long last_line_long)
    qed simp
  qed
  then show ?thesis using keep sp by (auto simp: b64_text_def)
qed

text \<open>C22: Streaming round trip: what \<^verbatim>\<open>EVP_EncodeUpdate\<close> and \<^verbatim>\<open>EVP_EncodeFinal\<close> produce for data fed
  in any pieces, cut again in any way and fed to \<^verbatim>\<open>EVP_DecodeUpdate\<close>, decodes to the data, and
  \<^verbatim>\<open>EVP_DecodeFinal\<close> accepts it.\<close>

theorem stream_roundtrip:
  assumes enc: "\<forall>c \<in> set cs. length c < 2 ^ 30" and total: "length (concat cs) < 2 ^ 61"
    and dec: "\<forall>d \<in> set ds. length d < 2 ^ 31 - 4"
    and f: "feed encode_step (EVP_EncodeInit ctx0) cs = Some (ctx, out)"
    and e: "EVP_EncodeFinal ctx = (ctx', fin, n)" and cut: "concat ds = out @ take (nat n) fin"
  shows "\<exists>ctx''. feed decode_step (EVP_DecodeInit ctx1) ds = Some (ctx'', concat cs) \<and>
    EVP_DecodeFinal ctx'' = 1"
proof -
  have "concat ds = b64_text (concat cs)" using stream_encoding [OF enc, of ctx0] f e cut by auto
  then have tx: "b64_encode (concat cs) = filter (\<lambda>c. \<not> is_space c) (concat ds)"
    by (simp add: b64_text_filter)
  have l: "length (b64_encode (concat cs)) < 2 ^ 63"
    using total by (simp add: length_b64_encode)
  have "length (b64_encode (concat cs)) \<le> unat (0x8000000000000000 :: u64)" using l by simp
  moreover have "EVP_DecodeBase64 0x8000000000000000 (b64_encode (concat cs)) =
      Some (True, of_nat (length (concat cs)), concat cs)"
    using total by (intro block_roundtrip) simp_all
  ultimately show ?thesis using stream_decoding [OF dec tx, of "0x8000000000000000" ctx1 "concat cs"] l by simp
qed

lemma stream_roundtrip_witness:
  "\<exists>ctx out ctx' fin n ctx''.
     feed encode_step (EVP_EncodeInit zero_ctx) [[0x4D], [0x61]] = Some (ctx, out) \<and>
     EVP_EncodeFinal ctx = (ctx', fin, n) \<and>
     feed decode_step (EVP_DecodeInit zero_ctx) [[], out @ take (nat n) fin] = Some (ctx'', [0x4D, 0x61]) \<and>
     EVP_DecodeFinal ctx'' = 1"
proof -
  obtain ctx out ctx' fin n where s: "feed encode_step (EVP_EncodeInit zero_ctx) [[0x4D], [0x61]] = Some (ctx, out)"
      "EVP_EncodeFinal ctx = (ctx', fin, n)" "out @ take (nat n) fin = b64_text (concat [[0x4D], [0x61]])"
    using stream_encoding [of "[[0x4D], [0x61]]" zero_ctx] by auto
  have "length (b64_text (concat [[0x4D], [0x61]])) = 5"
    using length_b64_encode [of "[0x4D, 0x61]"] by (simp add: b64_text_def del: b64_encode.simps)
  then have "\<forall>d \<in> set [[], out @ take (nat n) fin]. length d < 2 ^ 31 - 4" unfolding s(3) by simp
  from stream_roundtrip [OF _ _ this s(1,2), of zero_ctx] show ?thesis using s(1,2) by auto
qed

section \<open>\<open>EVP_DecodeBlock\<close>\<close>

lemma pad_loop_2: "pad_loop 2 dst = dst @ replicate ((3 - length dst mod 3) mod 3) 0"
proof -
  have "length dst mod 3 = 0 \<or> length dst mod 3 = 1 \<or> length dst mod 3 = 2" by auto
  then show ?thesis by (auto simp: numeral_2_eq_2 mod_Suc)
qed

lemma trim_encode:
  assumes "\<forall>c \<in> set pre. c = 0x20 \<or> c = 0x09" "\<forall>c \<in> set post. is_space c"
  shows "trim_right (trim_left (pre @ b64_encode x @ post)) = b64_encode x"
proof -
  have l: "trim_left (pre @ ys) = trim_left ys" for ys
    using assms(1) by (simp add: trim_left_def dropWhile_append2)
  have r: "trim_right (ys @ post) = trim_right ys" for ys
  proof -
    have "dropWhile is_space (rev post @ rev ys) = dropWhile is_space (rev ys)"
      by (rule dropWhile_append2) (use assms(2) in auto)
    then show ?thesis by (simp add: trim_right_def)
  qed
  show ?thesis
  proof (cases x)
    case Nil
    have "set (trim_left post) \<subseteq> set post" by (auto simp: trim_left_def dest: set_dropWhileD)
    then have "trim_right (trim_left post) = []"
      using assms(2) by (auto simp: trim_right_def)
    then show ?thesis using Nil l by simp
  next
    case (Cons a as)
    then have ne: "b64_encode x \<noteq> []" by simp
    have ns: "\<not> is_space (hd (b64_encode x))" "\<not> is_space (last (b64_encode x))"
      using b64_encode_no_space [of x] ne by simp_all
    have "\<not> (hd (b64_encode x) = 0x20 \<or> hd (b64_encode x) = 0x09)" using ns(1) by (auto simp: is_space_def)
    then have "trim_left (b64_encode x @ post) = b64_encode x @ post"
      using ne by (cases "b64_encode x") (auto simp: trim_left_def)
    moreover have "trim_right (b64_encode x) = b64_encode x"
      using ns(2) ne by (cases "b64_encode x" rule: rev_cases) (auto simp: trim_right_def)
    ultimately show ?thesis using l r by simp
  qed
qed

text \<open>C38: \<^verbatim>\<open>EVP_DecodeBlock\<close> on an encoding with spaces and tabs before it and any whitespace behind
  it writes the data, fills it with zero bytes up to a multiple of three, and returns that multiple.\<close>

theorem decode_block:
  assumes pre: "\<forall>c \<in> set pre. c = 0x20 \<or> c = 0x09" and post: "\<forall>c \<in> set post. is_space c"
    and len: "length x < 2 ^ 30"
  shows "EVP_DecodeBlock (pre @ b64_encode x @ post) =
    Some (int (3 * ((length x + 2) div 3)), x @ replicate ((3 - length x mod 3) mod 3) 0)"
proof -
  let ?e = "b64_encode x"
  have l: "length ?e = 4 * ((length x + 2) div 3)" by (rule length_b64_encode)
  have q: "(length x + 2) div 3 < 2 ^ 29" using len by simp
  define d :: u64 where "d = of_nat (length ?e) div 4 * 3"
  have u: "unat d = (length x + 2) div 3 * 3"
    using of_nat_len_div [of "length ?e"] l q unfolding d_def by simp
  have "EVP_DecodedLength (of_nat (length ?e)) = Some d"
    using of_nat_len_div [of "length ?e"] l q
    by (simp add: EVP_DecodedLength_def unat_eq_zero [symmetric] d_def)
  moreover have "\<not> INT_MAX < d"
    using u q by (simp add: INT_MAX_def word_less_nat_alt)
  moreover have "EVP_DecodeBase64 d ?e = Some (True, of_nat (length x), x)"
    using l q u decode_quads_encode [of x "[]"] by (simp add: EVP_DecodeBase64_unfold)
  ultimately have "EVP_DecodeBlock (pre @ ?e @ post) = Some (int (length (pad_loop 2 x)), pad_loop 2 x)"
    unfolding EVP_DecodeBlock_def trim_encode [OF pre post] Let_def by simp
  moreover have "length (pad_loop 2 x) = length x + (3 - length x mod 3) mod 3"
    by (simp only: pad_loop_2 length_append length_replicate)
  moreover have "n + (3 - n mod 3) mod 3 = 3 * ((n + 2) div 3)" for n :: nat
  proof -
    have "\<exists>k. n = 3 * k \<or> n = 3 * k + 1 \<or> n = 3 * k + 2" by presburger
    then show ?thesis by (auto simp: mod_Suc)
  qed
  ultimately show ?thesis by (simp only: pad_loop_2)
qed

lemma decode_block_witness:
  "EVP_DecodeBlock ([0x20] @ b64_encode [0x4D, 0x61] @ [0x0D, 0x0A]) =
    Some (int (3 * ((length [0x4D, 0x61 :: byte] + 2) div 3)),
      [0x4D, 0x61] @ replicate ((3 - length [0x4D, 0x61 :: byte] mod 3) mod 3) 0)"
  by (rule decode_block) (simp_all add: is_space_def)

text \<open>The documentation of \<^verbatim>\<open>EVP_DecodeBlock\<close> says it strips leading whitespace and trailing
  whitespace and minuses.  The code strips leading spaces and tabs only, and no minuses: a text with
  a newline before it or a minus behind it is refused, while the text alone decodes.\<close>

lemma decode_block_strips_less:
  "EVP_DecodeBlock [0x54, 0x57, 0x46, 0x75] = Some (3, [0x4D, 0x61, 0x6E]) \<and>
   EVP_DecodeBlock [0x20, 0x54, 0x57, 0x46, 0x75, 0x0A] = Some (3, [0x4D, 0x61, 0x6E]) \<and>
   EVP_DecodeBlock [0x0A, 0x54, 0x57, 0x46, 0x75] = Some (- 1, []) \<and>
   EVP_DecodeBlock [0x54, 0x57, 0x46, 0x75, 0x2D] = Some (- 1, [])"
  by (simp add: EVP_DecodeBlock_def trim_left_def trim_right_def is_space_def EVP_DecodedLength_def
      EVP_DecodeBase64_def Let_def base64_decode_quad quad_spec_def b64_value_def bytes3_def num4_def
      INT_MAX_def pad_loop_2)

end
