(* ===== verification/Inet.thy ===== *)
theory Inet
  imports Prelude
begin

text \<open>
  libuv, \<^verbatim>\<open>ios/Pods/Libuv-gRPC/src/inet.c\<close> and \<^verbatim>\<open>strscpy.c\<close>: IPv4 and IPv6 addresses to text and
  back.  A C string is the list of its bytes without the NUL.  The error codes are the negated
  \<^verbatim>\<open>errno\<close> values of iOS.
\<close>

definition UV_E2BIG :: int where "UV_E2BIG = - 7"
definition UV_EINVAL :: int where "UV_EINVAL = - 22"
definition UV_ENOSPC :: int where "UV_ENOSPC = - 28"
definition UV_EAFNOSUPPORT :: int where "UV_EAFNOSUPPORT = - 47"

datatype address_family = AF_INET | AF_INET6 | AF_OTHER int

section \<open>\<open>uv__strscpy\<close>\<close>

definition SSIZE_MAX :: nat where "SSIZE_MAX = 2 ^ 63 - 1"

text \<open>The loop: \<open>i\<close> bytes are copied, \<open>n\<close> more fit; the return value and the bytes written.\<close>

fun strscpy_loop :: "bytes \<Rightarrow> nat \<Rightarrow> bytes \<Rightarrow> int \<times> bytes" where
  "strscpy_loop s 0 d = (if d = [] then (0, []) else (UV_E2BIG, d[length d - 1 := 0]))"
| "strscpy_loop [] (Suc n) d = (if length d > SSIZE_MAX then UV_E2BIG else int (length d), d @ [0])"
| "strscpy_loop (c # s) (Suc n) d = strscpy_loop s n (d @ [c])"

definition uv__strscpy :: "bytes \<Rightarrow> nat \<Rightarrow> int \<times> bytes" where
  "uv__strscpy s n = strscpy_loop s n []"

section \<open>Address to text\<close>

text \<open>\<open>printf\<close> of an unsigned number in the given base, with lower-case letters.\<close>

definition digit_char :: "nat \<Rightarrow> byte" where
  "digit_char d = (if d < 10 then of_nat (48 + d) else of_nat (87 + d))"

function print_base :: "nat \<Rightarrow> nat \<Rightarrow> bytes" where
  "print_base b n =
     (if n < b \<or> b < 2 then [digit_char n] else print_base b (n div b) @ [digit_char (n mod b)])"
  by pat_completeness auto
termination by (relation "measure snd") auto

declare print_base.simps [simp del]

definition UV__INET_ADDRSTRLEN :: nat where "UV__INET_ADDRSTRLEN = 16"
definition UV__INET6_ADDRSTRLEN :: nat where "UV__INET6_ADDRSTRLEN = 46"

text \<open>The return value and the bytes written to \<open>dst\<close>; \<open>snprintf\<close> cuts the text at the array.\<close>

definition inet_ntop4 :: "bytes \<Rightarrow> nat \<Rightarrow> int \<times> bytes" where
  "inet_ntop4 src sz =
     (let full = print_base 10 (unat (src ! 0)) @ [0x2E] @ print_base 10 (unat (src ! 1)) @ [0x2E] @
            print_base 10 (unat (src ! 2)) @ [0x2E] @ print_base 10 (unat (src ! 3));
          l = length full; tmp = take (UV__INET_ADDRSTRLEN - 1) full in
      if l = 0 \<or> l \<ge> sz then (UV_ENOSPC, [])
      else (0, snd (uv__strscpy tmp sz)))"

definition ntop6_words :: "bytes \<Rightarrow> u32 list" where
  "ntop6_words src =
     fold (\<lambda>i words. words[i div 2 := words ! (i div 2) OR
         push_bit (8 * (1 - i mod 2)) (ucast (src ! i))]) [0..<16] (replicate 8 0)"

text \<open>The runs \<open>best\<close> and \<open>cur\<close>, each a base (-1 is none) and a length.\<close>

type_synonym run = "int \<times> int"

definition better :: "run \<Rightarrow> run \<Rightarrow> run" where
  "better best cur = (if fst best = - 1 \<or> snd cur > snd best then cur else best)"

definition run_step :: "u32 list \<Rightarrow> nat \<Rightarrow> run \<times> run \<Rightarrow> run \<times> run" where
  "run_step words i s =
     (let (best, cur) = s in
      if words ! i = 0 then
        (if fst cur = - 1 then (best, (int i, 1)) else (best, (fst cur, snd cur + 1)))
      else if fst cur \<noteq> - 1 then (better best cur, (- 1, snd cur))
      else (best, cur))"

definition best_run :: "u32 list \<Rightarrow> run" where
  "best_run words =
     (let (best, cur) = fold (run_step words) [0..<8] ((- 1, 0), (- 1, 0));
          best = (if fst cur \<noteq> - 1 then better best cur else best)
      in if fst best \<noteq> - 1 \<and> snd best < 2 then (- 1, snd best) else best)"

text \<open>The test for an encapsulated IPv4 address.\<close>

definition ntop6_v4 :: "u32 list \<Rightarrow> run \<Rightarrow> nat \<Rightarrow> bool" where
  "ntop6_v4 words best i \<longleftrightarrow>
     i = 6 \<and> fst best = 0 \<and> (snd best = 6 \<or> (snd best = 7 \<and> words ! 7 \<noteq> 1) \<or>
       (snd best = 5 \<and> words ! 5 = 0xFFFF))"

text \<open>
  The formatting loop from word \<open>i\<close> on, with \<open>tmp\<close> the text so far: an error code or the text.
\<close>

function ntop6_loop :: "bytes \<Rightarrow> u32 list \<Rightarrow> run \<Rightarrow> nat \<Rightarrow> bytes \<Rightarrow> int + bytes" where
  "ntop6_loop src words best i tmp =
     (if i \<ge> 8 then Inr tmp
      else if fst best \<noteq> - 1 \<and> int i \<ge> fst best \<and> int i < fst best + snd best then
        ntop6_loop src words best (i + 1) (if int i = fst best then tmp @ [0x3A] else tmp)
      else
        let tmp = (if i \<noteq> 0 then tmp @ [0x3A] else tmp) in
        if ntop6_v4 words best i then
          let (err, t) = inet_ntop4 (drop 12 src) (UV__INET6_ADDRSTRLEN - length tmp) in
          if err \<noteq> 0 then Inl err else Inr (tmp @ takeWhile (\<lambda>c. c \<noteq> 0) t)
        else ntop6_loop src words best (i + 1) (tmp @ print_base 16 (unat (words ! i))))"
  by pat_completeness auto
termination by (relation "measure (\<lambda>(src, words, best, i, tmp). 8 - i)") auto

declare ntop6_loop.simps [simp del]

text \<open>\<^term>\<open>None\<close> is a write past the end of \<open>tmp\<close>.\<close>

definition inet_ntop6 :: "bytes \<Rightarrow> nat \<Rightarrow> (int \<times> bytes) option" where
  "inet_ntop6 src sz =
     (let words = ntop6_words src; best = best_run words in
      case ntop6_loop src words best 0 [] of
        Inl err \<Rightarrow> Some (err, [])
      | Inr tmp \<Rightarrow>
          let tmp = (if fst best \<noteq> - 1 \<and> fst best + snd best = 8 then tmp @ [0x3A] else tmp) in
          if length tmp + 1 > UV__INET6_ADDRSTRLEN then None
          else
            let (r, dst) = uv__strscpy tmp sz
            in Some (if r = UV_E2BIG then UV_ENOSPC else 0, dst))"

definition uv_inet_ntop :: "address_family \<Rightarrow> bytes \<Rightarrow> nat \<Rightarrow> (int \<times> bytes) option" where
  "uv_inet_ntop af src sz =
     (case af of
        AF_INET \<Rightarrow> Some (inet_ntop4 src sz)
      | AF_INET6 \<Rightarrow> inet_ntop6 src sz
      | AF_OTHER _ \<Rightarrow> Some (UV_EAFNOSUPPORT, []))"

section \<open>Text to address\<close>

text \<open>\<open>strchr\<close> in a digit string: the index, for characters other than NUL.\<close>

definition dec_value :: "byte \<Rightarrow> nat option" where
  "dec_value ch = (if 48 \<le> unat ch \<and> unat ch \<le> 57 then Some (unat ch - 48) else None)"

definition hex_value :: "byte \<Rightarrow> nat option" where
  "hex_value ch =
     (if 48 \<le> unat ch \<and> unat ch \<le> 57 then Some (unat ch - 48)
      else if 97 \<le> unat ch \<and> unat ch \<le> 102 then Some (unat ch - 87)
      else if 65 \<le> unat ch \<and> unat ch \<le> 70 then Some (unat ch - 55) else None)"

text \<open>
  The loop of \<open>inet_pton4\<close>.  \<open>tmp\<close> is the part of the array up to and including \<open>*tp\<close>; the result
  \<^term>\<open>None\<close> is \<open>UV_EINVAL\<close>.
\<close>

fun pton4_loop :: "bytes \<Rightarrow> bool \<Rightarrow> nat \<Rightarrow> bytes \<Rightarrow> bytes option" where
  "pton4_loop [] saw_digit octets tmp = (if octets < 4 then None else Some tmp)"
| "pton4_loop (ch # src) saw_digit octets tmp =
     (case dec_value ch of
        Some d \<Rightarrow>
          let nw = unat (last tmp) * 10 + d in
          if saw_digit \<and> last tmp = 0 then None
          else if nw > 255 then None
          else
            let tmp = butlast tmp @ [of_nat nw] in
            if \<not> saw_digit then
              if octets + 1 > 4 then None else pton4_loop src True (octets + 1) tmp
            else pton4_loop src saw_digit octets tmp
      | None \<Rightarrow>
          if ch = 0x2E \<and> saw_digit then
            if octets = 4 then None else pton4_loop src False octets (tmp @ [0])
          else None)"

definition inet_pton4 :: "bytes \<Rightarrow> bytes option" where
  "inet_pton4 src = pton4_loop src False 0 [0]"

text \<open>
  The loop of \<open>inet_pton6\<close>.  \<open>out\<close> is the array up to \<open>tp\<close>, \<open>colonp\<close> an index into it; the rest
  of the array is zero.
\<close>

definition val_bytes :: "u32 \<Rightarrow> bytes" where
  "val_bytes val = [ucast (drop_bit 8 val) AND 0xFF, ucast val AND 0xFF]"

fun pton6_loop ::
  "bytes \<Rightarrow> bytes \<Rightarrow> bytes \<Rightarrow> nat option \<Rightarrow> nat \<Rightarrow> u32 \<Rightarrow> (bytes \<times> nat option \<times> nat \<times> u32) option" where
  "pton6_loop [] curtok out colonp seen_xdigits val = Some (out, colonp, seen_xdigits, val)"
| "pton6_loop (ch # src) curtok out colonp seen_xdigits val =
     (case hex_value ch of
        Some d \<Rightarrow>
          if seen_xdigits + 1 > 4 then None
          else pton6_loop src curtok out colonp (seen_xdigits + 1) (push_bit 4 val OR of_nat d)
      | None \<Rightarrow>
          if ch = 0x3A then
            if seen_xdigits = 0 then
              if colonp \<noteq> None then None
              else pton6_loop src src out (Some (length out)) seen_xdigits val
            else if src = [] then None
            else if length out + 2 > 16 then None
            else pton6_loop src src (out @ val_bytes val) colonp 0 0
          else if ch = 0x2E \<and> length out + 4 \<le> 16 then
            (case inet_pton4 curtok of
               Some v4 \<Rightarrow> Some (out @ v4, colonp, 0, val)
             | None \<Rightarrow> None)
          else None)"

text \<open>Shifting the bytes from \<open>c\<close> to \<open>tp\<close> to the end of the array, by hand.\<close>

definition shift_tail :: "bytes \<Rightarrow> nat \<Rightarrow> nat \<Rightarrow> bytes" where
  "shift_tail tmp c tp =
     fold (\<lambda>i t. t[16 - i := t ! (tp - i), tp - i := 0]) [1..<tp - c + 1] tmp"

definition inet_pton6 :: "bytes \<Rightarrow> bytes option" where
  "inet_pton6 src = do {
     src \<leftarrow> (case src of
        [] \<Rightarrow> Some src
      | ch # rest \<Rightarrow>
          if ch = 0x3A then (if rest \<noteq> [] \<and> hd rest = 0x3A then Some rest else None) else Some src);
     (out, colonp, seen_xdigits, val) \<leftarrow> pton6_loop src src [] None 0 0;
     out \<leftarrow> (if seen_xdigits \<noteq> 0 then
              if length out + 2 > 16 then None else Some (out @ val_bytes val)
            else Some out);
     let tp = length out;
     let tmp = out @ replicate (16 - length out) 0;
     (case colonp of
        None \<Rightarrow> if tp \<noteq> 16 then None else Some tmp
      | Some c \<Rightarrow> if tp = 16 then None else Some (shift_tail tmp c tp))
   }"

text \<open>
  \<open>src\<close> is \<^term>\<open>None\<close> for NULL, \<open>dst\<close> says whether \<open>dst\<close> is not NULL.  For IPv6 a zone after
  \<open>%\<close> is cut off.  The return value and the bytes written.
\<close>

definition uv_inet_pton :: "address_family \<Rightarrow> bytes option \<Rightarrow> bool \<Rightarrow> int \<times> bytes" where
  "uv_inet_pton af src dst =
     (case src of
        None \<Rightarrow> (UV_EINVAL, [])
      | Some src \<Rightarrow>
          if \<not> dst then (UV_EINVAL, [])
          else case af of
            AF_INET \<Rightarrow> (case inet_pton4 src of None \<Rightarrow> (UV_EINVAL, []) | Some b \<Rightarrow> (0, b))
          | AF_INET6 \<Rightarrow>
              let s = takeWhile (\<lambda>c. c \<noteq> 0x25) src in
              if 0x25 \<in> set src \<and> length s > UV__INET6_ADDRSTRLEN - 1 then (UV_EINVAL, [])
              else (case inet_pton6 s of None \<Rightarrow> (UV_EINVAL, []) | Some b \<Rightarrow> (0, b))
          | AF_OTHER _ \<Rightarrow> (UV_EAFNOSUPPORT, []))"

end
