(* ===== verification/InetProofs.thy ===== *)
theory InetProofs
  imports Inet
begin

text \<open>
  The correctness of the address printers and parsers of \<^verbatim>\<open>Libuv-gRPC/src/inet.c\<close>: what
  \<open>uv__strscpy\<close> writes, the text \<open>dotted\<close> and \<open>ipv6_text\<close> that the printers produce, and that the
  parsers read it back.
\<close>

section \<open>Copying and printing\<close>

lemma strscpy_loop_fits:
  "length s < n \<Longrightarrow> length d + length s \<le> SSIZE_MAX \<Longrightarrow>
     strscpy_loop s n d = (int (length d + length s), d @ s @ [0])"
proof (induction s n d rule: strscpy_loop.induct)
  case (3 c s n d)
  then show ?case by simp
qed auto

lemma strscpy_loop_cut:
  "n \<le> length s \<Longrightarrow> strscpy_loop s n d =
     (if d = [] \<and> n = 0 then (0, []) else (UV_E2BIG, (d @ take n s)[length d + n - 1 := 0]))"
  by (induction s n d rule: strscpy_loop.induct) auto

lemma uv__strscpy_fits: "length s < n \<Longrightarrow> length s \<le> SSIZE_MAX \<Longrightarrow> uv__strscpy s n = (int (length s), s @ [0])"
  using strscpy_loop_fits [of s n "[]"] by (simp add: uv__strscpy_def)

lemma uv__strscpy_cut:
  "n \<le> length s \<Longrightarrow> uv__strscpy s n =
     (if n = 0 then (0, []) else (UV_E2BIG, take (n - 1) s @ [0]))"
proof (cases n)
  case (Suc m)
  assume "n \<le> length s"
  then have "(take n s)[m := 0] = take m s @ [0]"
    using Suc list_update_length [of "take m s" "s ! m" "[]" 0]
    by (simp add: take_Suc_conv_app_nth min_def)
  then show ?thesis
    using strscpy_loop_cut [of n s "[]"] Suc \<open>n \<le> length s\<close> by (simp add: uv__strscpy_def)
qed (simp add: uv__strscpy_def)

lemma print_base_small: "n < b \<Longrightarrow> print_base b n = [digit_char n]"
  by (subst print_base.simps) simp

lemma print_base_big: "2 \<le> b \<Longrightarrow> b \<le> n \<Longrightarrow> print_base b n = print_base b (n div b) @ [digit_char (n mod b)]"
  by (subst print_base.simps) simp

lemma length_print_base:
  "2 \<le> b \<Longrightarrow> n < b ^ k \<Longrightarrow> 0 < k \<Longrightarrow> length (print_base b n) \<le> k"
proof (induction k arbitrary: n)
  case (Suc k)
  show ?case
  proof (cases "n < b")
    case False
    then have "0 < k" using Suc.prems by (cases k) auto
    moreover have "n div b < b ^ k" using Suc.prems False by (simp add: div_less_iff_less_mult mult.commute)
    ultimately show ?thesis using Suc.IH [of "n div b"] Suc.prems False by (simp add: print_base_big)
  qed (simp add: print_base_small)
qed simp

lemma print_base_not_Nil [simp]: "print_base b n \<noteq> []"
  by (subst print_base.simps) simp

lemma unat_digit_char: "d < 16 \<Longrightarrow> unat (digit_char d) = (if d < 10 then 48 + d else 87 + d)"
  using unat_of_nat_byte [of "48 + d"] unat_of_nat_byte [of "87 + d"]
  by (simp add: digit_char_def del: of_nat_add)

lemma dec_value_digit: "d < 10 \<Longrightarrow> dec_value (digit_char d) = Some d"
  by (simp add: dec_value_def unat_digit_char)

lemma hex_value_digit: "d < 16 \<Longrightarrow> hex_value (digit_char d) = Some d"
  by (simp add: hex_value_def unat_digit_char)

lemma print_base_chars:
  "2 \<le> b \<Longrightarrow> b \<le> 16 \<Longrightarrow> \<forall>c \<in> set (print_base b n). \<exists>d < b. c = digit_char d"
proof (induction n rule: less_induct)
  case (less n)
  show ?case
  proof (cases "n < b")
    case False
    then show ?thesis using less.prems less.IH [of "n div b"] by (auto simp: print_base_big intro!: exI [of _ "n mod b"])
  qed (auto simp: print_base_small)
qed

section \<open>IPv4\<close>

definition dotted :: "bytes \<Rightarrow> bytes" where
  "dotted src = print_base 10 (unat (src ! 0)) @ [0x2E] @ print_base 10 (unat (src ! 1)) @ [0x2E] @
     print_base 10 (unat (src ! 2)) @ [0x2E] @ print_base 10 (unat (src ! 3))"

lemma pton4_digits:
  "n < 256 \<Longrightarrow> k < 4 \<Longrightarrow>
     pton4_loop (print_base 10 n @ rest) False k (tmp @ [0]) = pton4_loop rest True (k + 1) (tmp @ [of_nat n])"
proof (induction n arbitrary: rest rule: less_induct)
  case (less n)
  show ?case
  proof (cases "n < 10")
    case True
    then show ?thesis using less.prems by (simp add: print_base_small dec_value_digit Let_def)
  next
    case False
    then have q: "0 < n div 10" "n div 10 < n" by (simp_all add: div_greater_zero_iff)
    have u: "unat (of_nat (n div 10) :: byte) = n div 10"
      using less.prems(1) by (intro unat_of_nat_byte) linarith
    then have nz: "(of_nat (n div 10) :: byte) \<noteq> 0" using q by (metis unat_0 less_irrefl)
    have "n div 10 * 10 + n mod 10 = n" by simp
    then show ?thesis
      using less.prems less.IH [OF q(2)] False nz u
      by (simp add: print_base_big dec_value_digit Let_def)
  qed
qed

lemma pton4_dot: "k < 4 \<Longrightarrow> pton4_loop (0x2E # rest) True k tmp = pton4_loop rest False k (tmp @ [0])"
  by (simp add: dec_value_def)

lemma inet_pton4_dotted:
  assumes "length src = 4"
  shows "inet_pton4 (dotted src) = Some src"
proof -
  obtain a b c d where src: "src = [a, b, c, d]"
    using assms by (auto simp: length_Suc_conv numeral_eq_Suc)
  let ?p = "\<lambda>b :: byte. print_base 10 (unat b)"
  have step: "k < 4 \<Longrightarrow> pton4_loop (?p x @ rest) False k (tmp @ [0]) = pton4_loop rest True (k + 1) (tmp @ [x])"
    for k x tmp rest using pton4_digits [OF unat_byte_less, of k x rest tmp] by simp
  have "inet_pton4 (dotted src) = pton4_loop (?p a @ 0x2E # ?p b @ 0x2E # ?p c @ 0x2E # ?p d) False 0 ([] @ [0])"
    by (simp add: inet_pton4_def dotted_def src numeral_2_eq_2 numeral_3_eq_3)
  also have "\<dots> = pton4_loop (?p b @ 0x2E # ?p c @ 0x2E # ?p d) False 1 ([a] @ [0])"
    by (subst step) (simp_all add: pton4_dot del: pton4_loop.simps)
  also have "\<dots> = pton4_loop (?p c @ 0x2E # ?p d) False 2 ([a, b] @ [0])"
    by (subst step) (simp_all add: pton4_dot numeral_2_eq_2 numeral_3_eq_3 del: pton4_loop.simps)
  also have "\<dots> = pton4_loop (?p d @ []) False 3 ([a, b, c] @ [0])"
    by (subst step) (simp_all add: pton4_dot numeral_2_eq_2 numeral_3_eq_3 del: pton4_loop.simps)
  also have "\<dots> = Some [a, b, c, d]"
    by (subst step) simp_all
  finally show ?thesis by (simp add: src)
qed

lemma length_dotted: "7 \<le> length (dotted src) \<and> length (dotted src) \<le> 15"
proof -
  have l: "length (print_base 10 (unat (b :: byte))) \<le> 3" for b
    using unat_byte_less [of b] by (intro length_print_base) simp_all
  have g: "1 \<le> length (print_base 10 (unat (b :: byte)))" for b
    using print_base_not_Nil [of 10 "unat b"] by (cases "print_base 10 (unat b)") simp_all
  show ?thesis
    using l [of "src ! 0"] l [of "src ! 1"] l [of "src ! 2"] l [of "src ! 3"]
      g [of "src ! 0"] g [of "src ! 1"] g [of "src ! 2"] g [of "src ! 3"]
    by (simp add: dotted_def)
qed

lemma inet_ntop4: "inet_ntop4 src sz = (if sz \<le> length (dotted src) then (UV_ENOSPC, []) else (0, dotted src @ [0]))"
proof -
  have l: "length (dotted src) \<noteq> 0" "take 15 (dotted src) = dotted src" "length (dotted src) \<le> SSIZE_MAX"
    using length_dotted [of src] by (auto simp: SSIZE_MAX_def)
  have "inet_ntop4 src sz = (let full = dotted src; l = length full; tmp = take (16 - 1) full in
      if l = 0 \<or> l \<ge> sz then (UV_ENOSPC, []) else (0, snd (uv__strscpy tmp sz)))"
    unfolding inet_ntop4_def dotted_def UV__INET_ADDRSTRLEN_def by (rule refl)
  then show ?thesis
    using l uv__strscpy_fits [of "dotted src" sz] by (simp add: Let_def del: length_0_conv)
qed

section \<open>IPv6: parsing\<close>

definition hex :: "u32 \<Rightarrow> bytes" where "hex w = print_base 16 (unat w)"

definition short :: "u32 \<Rightarrow> bool" where "short w \<longleftrightarrow> unat w < 2 ^ 16"

fun groups :: "u32 list \<Rightarrow> bytes" where
  "groups [] = []"
| "groups [w] = hex w"
| "groups (w # ws) = hex w @ 0x3A # groups ws"

definition word_bytes :: "u32 list \<Rightarrow> bytes" where
  "word_bytes ws = concat (map val_bytes ws)"

lemma word_bytes_simps [simp]: "word_bytes [] = []" "word_bytes (w # ws) = val_bytes w @ word_bytes ws"
  "word_bytes (us @ ws) = word_bytes us @ word_bytes ws"
  by (simp_all add: word_bytes_def)

lemma length_val_bytes [simp]: "length (val_bytes w) = 2"
  by (simp add: val_bytes_def)

lemma length_word_bytes [simp]: "length (word_bytes ws) = 2 * length ws"
  by (induction ws) simp_all

lemma length_hex: "short w \<Longrightarrow> length (hex w) \<le> 4"
  unfolding hex_def short_def by (rule length_print_base) simp_all

lemma hex_not_Nil [simp]: "hex w \<noteq> []"
  by (simp add: hex_def)

lemma push_4_or: "q < 2 ^ 12 \<Longrightarrow> d < 16 \<Longrightarrow> push_bit 4 (of_nat q) OR of_nat d = (of_nat (q * 16 + d) :: u32)"
proof -
  assume a: "q < 2 ^ 12" "d < 16"
  define x y :: u32 where "x = of_nat q" and "y = of_nat d"
  have u: "unat x = q" "unat y = d" unfolding x_def y_def using a by (simp_all add: unat_of_nat)
  have "unat (push_bit 4 x OR y) = q * 2 ^ 4 + d"
    using a u by (subst unat_push_bit_or) simp_all
  moreover have "unat (of_nat (q * 16 + d) :: u32) = q * 16 + d"
    using a by (simp only: unat_of_nat) simp
  ultimately have "unat (push_bit 4 x OR y) = unat (of_nat (q * 16 + d) :: u32)" by simp
  then show ?thesis unfolding x_def y_def by (rule unsigned_word_eqI)
qed

lemma pton6_digits:
  "n < 2 ^ 16 \<Longrightarrow>
     pton6_loop (print_base 16 n @ rest) cur out cp 0 0 =
     pton6_loop rest cur out cp (length (print_base 16 n)) (of_nat n)"
proof (induction n arbitrary: rest rule: less_induct)
  case (less n)
  show ?case
  proof (cases "n < 16")
    case True
    then show ?thesis by (simp add: print_base_small hex_value_digit)
  next
    case False
    have q: "n div 16 < n" "n div 16 < 2 ^ 12" using False less.prems by simp_all
    have "length (print_base 16 (n div 16)) \<le> 3" using q by (intro length_print_base) simp_all
    moreover have "push_bit 4 (of_nat (n div 16)) OR of_nat (n mod 16) = (of_nat n :: u32)"
      using push_4_or [OF q(2), of "n mod 16"] by simp
    ultimately show ?thesis
      using less.IH [OF q(1)] less.prems False by (simp add: print_base_big hex_value_digit)
  qed
qed

lemma pton6_hex:
  "short w \<Longrightarrow> pton6_loop (hex w @ rest) cur out cp 0 0 = pton6_loop rest cur out cp (length (hex w)) w"
  using pton6_digits [of "unat w" rest] by (simp add: hex_def short_def)

lemma pton6_group:
  assumes "short w" "rest \<noteq> []" "length out + 2 \<le> 16"
  shows "pton6_loop (hex w @ 0x3A # rest) cur out cp 0 0 = pton6_loop rest rest (out @ val_bytes w) cp 0 0"
proof -
  obtain n where "length (hex w) = Suc n" by (cases "hex w") auto
  with assms show ?thesis by (simp add: pton6_hex hex_value_def)
qed

text \<open>A list of groups that something follows, and one at the end of the text.\<close>

lemma pton6_prefix:
  "\<forall>w \<in> set ws. short w \<Longrightarrow> ws \<noteq> [] \<Longrightarrow> rest \<noteq> [] \<Longrightarrow> length out + 2 * length ws \<le> 16 \<Longrightarrow>
     pton6_loop (groups ws @ 0x3A # rest) cur out cp 0 0 =
     pton6_loop rest rest (out @ word_bytes ws) cp 0 0"
proof (induction ws arbitrary: cur out rule: groups.induct)
  case (2 w)
  then show ?case by (simp add: pton6_group)
next
  case (3 w v ws)
  then have "length (out @ val_bytes w) + 2 * length (v # ws) \<le> 16" by simp
  then show ?case using 3 by (simp add: pton6_group)
qed simp

definition flush6 :: "(bytes \<times> nat option \<times> nat \<times> u32) option \<Rightarrow> (bytes \<times> nat option) option" where
  "flush6 r = do {
     (out, cp, seen, val) \<leftarrow> r;
     if seen \<noteq> 0 then if length out + 2 > 16 then None else Some (out @ val_bytes val, cp)
     else Some (out, cp)
   }"

lemma pton6_groups:
  "\<forall>w \<in> set ws. short w \<Longrightarrow> length out + 2 * length ws \<le> 16 \<Longrightarrow>
     flush6 (pton6_loop (groups ws) cur out cp 0 0) = Some (out @ word_bytes ws, cp)"
proof (induction ws arbitrary: cur out rule: groups.induct)
  case 1
  then show ?case by (simp add: flush6_def)
next
  case (2 w)
  obtain n where "length (hex w) = Suc n" by (cases "hex w") auto
  then show ?case using 2 pton6_hex [of w "[]"] by (simp add: flush6_def)
next
  case (3 w v ws)
  have ne: "groups (v # ws) \<noteq> []" by (cases ws) simp_all
  have "length (out @ val_bytes w) + 2 * length (v # ws) \<le> 16" using 3 by simp
  then show ?case using 3 ne by (simp add: pton6_group)
qed

section \<open>IPv6: the shift\<close>

lemma shift_tail:
  assumes "c \<le> length out" "length out < 16"
  shows "shift_tail (out @ replicate (16 - length out) 0) c (length out) =
    take c out @ replicate (16 - length out) 0 @ drop c out"
proof -
  let ?tp = "length out" and ?n = "length out - c"
  let ?f = "\<lambda>i t. t[16 - i := t ! (?tp - i), ?tp - i := 0 :: byte]"
  have inv: "k \<le> ?n \<Longrightarrow> length (fold ?f [1..<k + 1] (out @ replicate (16 - ?tp) 0)) = 16 \<and>
      (\<forall>j < 16. fold ?f [1..<k + 1] (out @ replicate (16 - ?tp) 0) ! j =
        (if 16 - k \<le> j then out ! (j - (16 - ?tp)) else if ?tp - k \<le> j then 0 else out ! j))" for k
  proof (induction k)
    case 0
    then show ?case using assms by (auto simp: nth_append)
  next
    case (Suc k)
    let ?t = "fold ?f [1..<k + 1] (out @ replicate (16 - ?tp) 0)"
    have IH: "length ?t = 16" "\<And>j. j < 16 \<Longrightarrow> ?t ! j =
        (if 16 - k \<le> j then out ! (j - (16 - ?tp)) else if ?tp - k \<le> j then 0 else out ! j)"
      using Suc by auto
    have k: "Suc k \<le> ?tp" "?tp - Suc k < 16" using Suc.prems assms by auto
    have last: "?t ! (?tp - Suc k) = out ! (?tp - Suc k)"
      using IH(2) [of "?tp - Suc k"] k assms by auto
    have idx: "16 - Suc k - (16 - ?tp) = ?tp - Suc k" using k assms by auto
    have "fold ?f [1..<Suc k + 1] (out @ replicate (16 - ?tp) 0) =
        ?t[16 - Suc k := out ! (?tp - Suc k), ?tp - Suc k := 0]"
      using last by simp
    moreover have "?t[16 - Suc k := out ! (?tp - Suc k), ?tp - Suc k := 0] ! j =
        (if 16 - Suc k \<le> j then out ! (j - (16 - ?tp)) else if ?tp - Suc k \<le> j then 0 else out ! j)"
      if "j < 16" for j
    proof -
      consider "16 - k \<le> j" | "j = 16 - Suc k" | "?tp - Suc k < j" "j < 16 - Suc k" | "j = ?tp - Suc k" | "j < ?tp - Suc k"
        by linarith
      then show ?thesis
        using that IH k assms idx by cases (auto simp: nth_list_update)
    qed
    ultimately show ?case using IH(1) by simp
  qed
  show ?thesis unfolding shift_tail_def
  proof (rule nth_equalityI)
    show "length (fold ?f [1..<?tp - c + 1] (out @ replicate (16 - ?tp) 0)) =
        length (take c out @ replicate (16 - ?tp) 0 @ drop c out)"
      using inv [of ?n] assms by simp
    fix j assume "j < length (fold ?f [1..<?tp - c + 1] (out @ replicate (16 - ?tp) 0))"
    then have j: "j < 16" using inv [of ?n] by simp
    then show "fold ?f [1..<?tp - c + 1] (out @ replicate (16 - ?tp) 0) ! j =
        (take c out @ replicate (16 - ?tp) 0 @ drop c out) ! j"
    proof -
      have e: "fold ?f [1..<?tp - c + 1] (out @ replicate (16 - ?tp) 0) ! j =
          (if 16 - ?n \<le> j then out ! (j - (16 - ?tp)) else if ?tp - ?n \<le> j then 0 else out ! j)"
        using inv [of ?n] j by simp
      consider "j < c" | "c \<le> j" "j < 16 - ?n" | "16 - ?n \<le> j" by linarith
      then show ?thesis unfolding e
      proof cases
        case 3
        then have "\<not> j < c" "\<not> j - c < 16 - ?tp" "j - c - (16 - ?tp) + c = j - (16 - ?tp)"
          using assms by linarith+
        then show "(if 16 - ?n \<le> j then out ! (j - (16 - ?tp)) else if ?tp - ?n \<le> j then 0 else out ! j) =
            (take c out @ replicate (16 - ?tp) 0 @ drop c out) ! j"
          using 3 assms j by (simp add: nth_append add.commute)
      qed (use assms j in \<open>auto simp: nth_append\<close>)
    qed
  qed
qed

section \<open>IPv4: only the dotted form is accepted\<close>

definition dot_each :: "bytes \<Rightarrow> bytes" where
  "dot_each bs = concat (map (\<lambda>b. print_base 10 (unat b) @ [0x2E]) bs)"

lemma dec_value_char: "dec_value ch = Some d \<Longrightarrow> d < 10 \<and> ch = digit_char d"
proof -
  assume a: "dec_value ch = Some d"
  then have d: "48 \<le> unat ch" "d < 10" "unat ch = 48 + d"
    by (auto simp: dec_value_def split: if_splits)
  then have "ch = of_nat (48 + d)"
    by (metis of_nat_unat ucast_id)
  with d show ?thesis by (simp add: digit_char_def)
qed

lemma pton4_loop_sound:
  assumes "pton4_loop src saw octets tmp = Some b" "tmp \<noteq> []" "length tmp \<le> 4"
    "octets = (if saw then length tmp else length tmp - 1)" "\<not> saw \<longrightarrow> last tmp = 0"
  shows "length b = 4 \<and>
    dot_each (butlast tmp) @ (if saw then print_base 10 (unat (last tmp)) else []) @ src =
    dot_each (butlast b) @ print_base 10 (unat (last b))"
  using assms
proof (induction src saw octets tmp rule: pton4_loop.induct)
  case (1 saw octets tmp)
  then show ?case by (auto split: if_splits)
next
  case (2 ch src saw octets tmp)
  show ?case
  proof (cases "dec_value ch")
    case None
    then have c: "ch = 0x2E" "saw" "octets \<noteq> 4" and
      r: "pton4_loop src False octets (tmp @ [0]) = Some b"
      using 2(4) by (auto split: if_splits)
    have "tmp = butlast tmp @ [last tmp]" using 2(5) by simp
    then have "dot_each tmp = dot_each (butlast tmp) @ print_base 10 (unat (last tmp)) @ [0x2E]"
      by (metis (no_types, lifting) dot_each_def concat_append map_append list.simps(8,9) concat.simps append_Nil2)
    then show ?thesis using 2(1) [OF None] 2(5-) c r by simp
  next
    case (Some d)
    define nw where "nw = unat (last tmp) * 10 + d"
    let ?tmp = "butlast tmp @ [of_nat nw]"
    have d: "d < 10" "ch = digit_char d" using dec_value_char [OF Some] by auto
    have c: "\<not> (saw \<and> last tmp = 0)" "nw \<le> 255" and
      r: "pton4_loop src True (if saw then octets else octets + 1) ?tmp = Some b"
      using 2(4) Some by (auto simp: nw_def Let_def split: if_splits)
    have p: "print_base 10 nw = (if saw then print_base 10 (unat (last tmp)) else []) @ [ch]"
    proof (cases saw)
      case True
      then have "unat (last tmp) \<noteq> 0" using c by (simp add: unat_eq_0)
      then have "print_base 10 nw = print_base 10 (nw div 10) @ [digit_char (nw mod 10)]"
        by (intro print_base_big) (auto simp: nw_def)
      then show ?thesis using True d by (simp add: nw_def)
    next
      case False
      then show ?thesis using 2(8) d by (simp add: nw_def print_base_small)
    qed
    have "length b = 4 \<and> dot_each (butlast ?tmp) @ print_base 10 (unat (last ?tmp)) @ src =
        dot_each (butlast b) @ print_base 10 (unat (last b))"
    proof (cases saw)
      case True
      then show ?thesis
        using 2(3) [OF Some refl, folded nw_def, OF _ _ refl] c r 2(5-) by simp
    next
      case False
      then show ?thesis
        using 2(2) [OF Some refl, folded nw_def, OF _ _ refl] c r 2(5-) by (auto split: if_splits)
    qed
    moreover have "unat (last ?tmp) = nw" using c by (simp add: unat_of_nat_byte)
    ultimately show ?thesis using p by (auto split: if_splits)
  qed
qed

lemma inet_pton4_sound: "inet_pton4 src = Some b \<Longrightarrow> length b = 4 \<and> src = dotted b"
proof -
  assume "inet_pton4 src = Some b"
  then have l: "length b = 4" and s: "src = dot_each (butlast b) @ print_base 10 (unat (last b))"
    using pton4_loop_sound [of src False 0 "[0]" b] by (auto simp: inet_pton4_def dot_each_def)
  obtain w x y z where "b = [w, x, y, z]" using l by (auto simp: length_Suc_conv numeral_eq_Suc)
  then show ?thesis using s by (simp add: dotted_def dot_each_def numeral_2_eq_2 numeral_3_eq_3)
qed

section \<open>IPv6: the words\<close>

lemma ntop6_words_step:
  "n \<le> 8 \<Longrightarrow> length src = 16 \<Longrightarrow>
   fold (\<lambda>i words. words[i div 2 := words ! (i div 2) OR push_bit (8 * (1 - i mod 2)) (ucast (src ! i))])
     [0..<2 * n] (replicate 8 0) =
   map (\<lambda>k. push_bit 8 (ucast (src ! (2 * k))) OR ucast (src ! (2 * k + 1))) [0..<n] @ replicate (8 - n) (0 :: u32)"
proof (induction n)
  case (Suc n)
  have u: "[0..<2 * Suc n] = [0..<2 * n] @ [2 * n, 2 * n + 1]" by simp
  have r: "replicate (8 - n) (0 :: u32) = 0 # replicate (8 - Suc n) 0"
    using Suc.prems by (simp add: Suc_diff_Suc flip: replicate_Suc)
  let ?m = "map (\<lambda>k. push_bit 8 (ucast (src ! (2 * k))) OR ucast (src ! (2 * k + 1))) [0..<n] :: u32 list"
  have m: "length ?m = n" by simp
  have e: "Suc (2 * n) mod 2 = 1" "Suc (2 * n) div 2 = n" by presburger+
  show ?case unfolding u using Suc list_update_length [of ?m] m
    by (simp add: r e nth_append list_update_append)
qed simp

lemma ntop6_words_eq:
  "length src = 16 \<Longrightarrow> ntop6_words src =
     map (\<lambda>k. push_bit 8 (ucast (src ! (2 * k))) OR ucast (src ! (2 * k + 1))) [0..<8]"
  using ntop6_words_step [of 8 src] by (simp add: ntop6_words_def)

lemma val_bytes_pair: "val_bytes (push_bit 8 (ucast x) OR ucast y) = [x, y]"
proof -
  define a b :: u32 where "a = ucast x" and "b = ucast y"
  have u: "unat a = unat x" "unat b = unat y" "unat x < 256" "unat y < 256"
    unfolding a_def b_def by (simp_all add: unat_byte_less)
  then have w: "unat (push_bit 8 a OR b) = unat x * 2 ^ 8 + unat y"
    by (subst unat_push_bit_or) simp_all
  have "(0xFF :: byte) = - 1" by simp
  then have m: "v AND 0xFF = v" for v :: byte by (metis and.right_neutral)
  define c where "c = push_bit 8 a OR b"
  have c: "unat c = unat x * 2 ^ 8 + unat y" unfolding c_def by (rule w)
  have "unat (ucast (drop_bit 8 c) :: byte) = unat x"
    using u by (simp add: unat_ucast unat_drop_bit c)
  then have "ucast (drop_bit 8 (push_bit 8 a OR b)) = x"
    unfolding c_def by (rule unsigned_word_eqI)
  moreover have "unat (ucast c :: byte) = unat y" using u by (simp add: unat_ucast c)
  then have "ucast (push_bit 8 a OR b) = y" unfolding c_def by (rule unsigned_word_eqI)
  ultimately show ?thesis unfolding val_bytes_def a_def b_def by (simp add: m)
qed

lemma word_bytes_ntop6: "length src = 16 \<Longrightarrow> word_bytes (ntop6_words src) = src"
proof -
  assume l: "length src = 16"
  have "word_bytes (map (\<lambda>k. push_bit 8 (ucast (src ! (2 * k))) OR ucast (src ! (2 * k + 1))) [0..<n]) = take (2 * n) src"
    if "n \<le> 8" for n
    using that
  proof (induction n)
    case (Suc n)
    then show ?case using l by (simp add: val_bytes_pair take_Suc_conv_app_nth)
  qed simp
  from this [of 8] show ?thesis using l by (simp add: ntop6_words_eq)
qed

lemma short_ntop6: "length src = 16 \<Longrightarrow> w \<in> set (ntop6_words src) \<Longrightarrow> short w"
proof -
  assume "length src = 16" "w \<in> set (ntop6_words src)"
  then obtain x y :: byte where w: "w = push_bit 8 (ucast x) OR ucast y" by (auto simp: ntop6_words_eq)
  have "unat (push_bit 8 (ucast x) OR (ucast y :: u32)) = unat x * 2 ^ 8 + unat y"
    using unat_byte_less [of x] unat_byte_less [of y] by (subst unat_push_bit_or) simp_all
  then show ?thesis using unat_byte_less [of x] unat_byte_less [of y] by (simp add: short_def w)
qed

lemma length_ntop6_words [simp]: "length src = 16 \<Longrightarrow> length (ntop6_words src) = 8"
  by (simp add: ntop6_words_eq)

section \<open>IPv6: the run of zero words\<close>

definition zeros :: "u32 list \<Rightarrow> nat \<Rightarrow> nat \<Rightarrow> bool" where
  "zeros ws j m \<longleftrightarrow> (\<forall>k. j \<le> k \<and> k < j + m \<longrightarrow> ws ! k = 0)"

text \<open>\<open>best\<close> is the longest run, and the first of that length, among the first \<open>e\<close> words.\<close>

definition longest_run :: "u32 list \<Rightarrow> nat \<Rightarrow> nat \<Rightarrow> nat \<Rightarrow> bool" where
  "longest_run ws e b l \<longleftrightarrow> 1 \<le> l \<and> b + l \<le> e \<and> zeros ws b l \<and>
     (\<forall>j m. 1 \<le> m \<longrightarrow> j + m \<le> e \<longrightarrow> zeros ws j m \<longrightarrow> m < l \<or> m = l \<and> b \<le> j)"

definition best_upto :: "u32 list \<Rightarrow> nat \<Rightarrow> run \<Rightarrow> bool" where
  "best_upto ws e best \<longleftrightarrow>
     (fst best = - 1 \<and> (\<forall>k < e. ws ! k \<noteq> 0)) \<or> (\<exists>b l. best = (int b, int l) \<and> longest_run ws e b l)"

definition starts_run :: "u32 list \<Rightarrow> nat \<Rightarrow> nat \<Rightarrow> bool" where
  "starts_run ws e i \<longleftrightarrow> e < i \<and> zeros ws e (i - e) \<and> (e = 0 \<or> ws ! (e - 1) \<noteq> 0)"

lemma zerosD: "zeros ws j m \<Longrightarrow> j \<le> k \<Longrightarrow> k < j + m \<Longrightarrow> ws ! k = 0"
  by (simp add: zeros_def)

lemma best_uptoI: "longest_run ws e b l \<Longrightarrow> best_upto ws e (int b, int l)"
  by (auto simp: best_upto_def)

lemma longest_runD:
  "longest_run ws e b l \<Longrightarrow> 1 \<le> m \<Longrightarrow> j + m \<le> e \<Longrightarrow> zeros ws j m \<Longrightarrow> m < l \<or> m = l \<and> b \<le> j"
  by (simp add: longest_run_def)

lemma best_upto_nonzero: "best_upto ws i best \<Longrightarrow> ws ! i \<noteq> 0 \<Longrightarrow> best_upto ws (Suc i) best"
proof -
  assume a: "best_upto ws i best" "ws ! i \<noteq> 0"
  have "m < l \<or> m = l \<and> b \<le> j" if "longest_run ws i b l" "1 \<le> m" "j + m \<le> Suc i" "zeros ws j m" for b l j m
  proof -
    have "j + m \<noteq> Suc i" using a(2) zerosD [OF that(4), of i] that(2) by linarith
    then show ?thesis using that by (simp add: longest_run_def)
  qed
  then have "longest_run ws i b l \<Longrightarrow> longest_run ws (Suc i) b l" for b l
    by (simp add: longest_run_def)
  with a show ?thesis by (auto simp: best_upto_def less_Suc_eq)
qed

lemma best_upto_better:
  assumes "best_upto ws e best" "starts_run ws e i"
  shows "best_upto ws i (better best (int e, int (i - e)))"
proof -
  have r: "e < i" "zeros ws e (i - e)" using assms(2) by (auto simp: starts_run_def)
  have split: "j + m \<le> e \<or> e \<le> j" if "1 \<le> m" "zeros ws j m" for j m
  proof (rule ccontr)
    assume "\<not> ?thesis"
    then have "ws ! (e - 1) = 0" "e \<noteq> 0" using zerosD [OF that(2), of "e - 1"] by auto
    then show False using assms(2) by (simp add: starts_run_def)
  qed
  show ?thesis
  proof (cases "fst best = - 1")
    case True
    then have nz: "\<forall>k < e. ws ! k \<noteq> 0" using assms(1) by (auto simp: best_upto_def)
    have "m < i - e \<or> m = i - e \<and> e \<le> j" if "1 \<le> m" "j + m \<le> i" "zeros ws j m" for j m
    proof -
      have "\<not> j < e" using nz zerosD [OF that(3), of j] that(1) by auto
      then show ?thesis using that by linarith
    qed
    then have "longest_run ws i e (i - e)" using r by (auto simp: longest_run_def)
    then show ?thesis using True best_uptoI by (simp add: better_def)
  next
    case False
    then obtain b l where b: "best = (int b, int l)" "longest_run ws e b l"
      using assms(1) by (auto simp: best_upto_def)
    then have l: "1 \<le> l" "b + l \<le> e" "zeros ws b l"
      and o: "\<And>j m. 1 \<le> m \<Longrightarrow> j + m \<le> e \<Longrightarrow> zeros ws j m \<Longrightarrow> m < l \<or> m = l \<and> b \<le> j"
      by (auto simp: longest_run_def)
    show ?thesis
    proof (cases "l < i - e")
      case True
      have "m < i - e \<or> m = i - e \<and> e \<le> j" if "1 \<le> m" "j + m \<le> i" "zeros ws j m" for j m
        using split [OF that(1,3)] o [OF that(1) _ that(3)] that True by linarith
      then have "longest_run ws i e (i - e)" using r by (auto simp: longest_run_def)
      then show ?thesis using True b r best_uptoI [of ws i e "i - e"] by (auto simp: better_def)
    next
      case le: False
      have "m < l \<or> m = l \<and> b \<le> j" if "1 \<le> m" "j + m \<le> i" "zeros ws j m" for j m
        using split [OF that(1,3)] o [OF that(1) _ that(3)] that le l by linarith
      then have "longest_run ws i b l" using r l by (auto simp: longest_run_def)
      then show ?thesis using le b r best_uptoI [of ws i b l] by (auto simp: better_def)
    qed
  qed
qed

definition run_inv :: "u32 list \<Rightarrow> nat \<Rightarrow> run \<times> run \<Rightarrow> bool" where
  "run_inv ws i s \<longleftrightarrow>
     (fst (snd s) = - 1 \<and> best_upto ws i (fst s) \<and> (i = 0 \<or> ws ! (i - 1) \<noteq> 0)) \<or>
     (\<exists>e. snd s = (int e, int (i - e)) \<and> best_upto ws e (fst s) \<and> starts_run ws e i)"

lemma run_inv_step: "run_inv ws i s \<Longrightarrow> run_inv ws (Suc i) (run_step ws i s)"
proof -
  assume a: "run_inv ws i s"
  obtain best cb cl where s: "s = (best, cb, cl)" by (cases s) auto
  consider (none) "cb = - 1" "best_upto ws i best" "i = 0 \<or> ws ! (i - 1) \<noteq> 0"
    | (run) e where "cb = int e" "cl = int (i - e)" "best_upto ws e best" "starts_run ws e i"
    using a by (auto simp: run_inv_def s)
  then show ?thesis
  proof cases
    case none
    then show ?thesis using best_upto_nonzero [of ws i best]
      by (auto simp: run_inv_def s run_step_def starts_run_def zeros_def less_Suc_eq_le)
  next
    case run
    then have "e < i" by (simp add: starts_run_def)
    moreover have "ws ! i = 0 \<Longrightarrow> starts_run ws e (Suc i)"
      using run by (auto simp: starts_run_def zeros_def less_Suc_eq Suc_diff_le)
    ultimately show ?thesis
      using run best_upto_better [OF run(3,4)] best_upto_nonzero
      by (auto simp: run_inv_def s run_step_def)
  qed
qed

lemma run_inv_fold: "run_inv ws n (fold (run_step ws) [0..<n] ((- 1, 0), (- 1, 0)))"
proof (induction n)
  case (Suc n)
  then show ?case using run_inv_step by simp
qed (simp add: run_inv_def best_upto_def)

lemma best_run_cases:
  obtains (none) "fst (best_run ws) = - 1" "\<not> (\<exists>j. j + 2 \<le> 8 \<and> zeros ws j 2)"
  | (run) b l where "best_run ws = (int b, int l)" "2 \<le> l" "longest_run ws 8 b l"
proof -
  obtain best cur where s: "fold (run_step ws) [0..<8] ((- 1, 0), (- 1, 0)) = (best, cur)"
    by (cases "fold (run_step ws) [0..<8] ((- 1, 0), (- 1, 0))") auto
  define r where "r = (if fst cur \<noteq> - 1 then better best cur else best)"
  have i: "run_inv ws 8 (best, cur)" using run_inv_fold [of ws 8] by (simp only: s)
  have r: "best_upto ws 8 r"
    using i best_upto_better [of ws _ best 8] by (auto simp: run_inv_def r_def)
  have e: "best_run ws = (if fst r \<noteq> - 1 \<and> snd r < 2 then (- 1, snd r) else r)"
    unfolding best_run_def s Let_def r_def by simp
  consider (a) "fst r = - 1" "\<forall>k < 8. ws ! k \<noteq> 0" | (b) b l where "r = (int b, int l)" "longest_run ws 8 b l"
    using r by (auto simp: best_upto_def)
  then show ?thesis
  proof cases
    case a
    have "\<not> zeros ws j 2" if "j + 2 \<le> 8" for j using a(2) zerosD [of ws j 2 j] that by auto
    then show ?thesis using a e by (intro none) auto
  next
    case b
    show ?thesis
    proof (cases "2 \<le> l")
      case True
      then show ?thesis using b e by (intro run) auto
    next
      case False
      have "\<not> zeros ws j 2" if "j + 2 \<le> 8" for j
      proof
        assume "zeros ws j 2"
        then have "2 < l \<or> 2 = l \<and> b \<le> j" using longest_runD [OF b(2), of 2 j] that by simp
        then show False using False by simp
      qed
      then show ?thesis using b e False by (intro none) auto
    qed
  qed
qed

section \<open>IPv6: printing\<close>

definition tail_groups :: "u32 list \<Rightarrow> bytes" where
  "tail_groups ws = concat (map (\<lambda>w. 0x3A # hex w) ws)"

lemma tail_groups_simps [simp]: "tail_groups [] = []" "tail_groups (w # ws) = 0x3A # hex w @ tail_groups ws"
  by (simp_all add: tail_groups_def)

lemma groups_Cons: "groups (w # ws) = hex w @ tail_groups ws"
proof (induction ws arbitrary: w)
  case (Cons v ws)
  then show ?case by simp
qed simp

lemma tail_groups_eq: "tail_groups ws = (if ws = [] then [] else 0x3A # groups ws)"
  by (cases ws) (simp_all add: groups_Cons)

lemma ntop6_loop_tail:
  "length ws = 8 \<Longrightarrow> fst best = - 1 \<or> fst best + snd best \<le> int i \<Longrightarrow> \<forall>j \<ge> i. \<not> ntop6_v4 ws best j \<Longrightarrow> 0 < i \<Longrightarrow>
     ntop6_loop src ws best i tmp = Inr (tmp @ tail_groups (drop i ws))"
proof (induction "8 - i" arbitrary: i tmp)
  case 0
  then show ?case by (subst ntop6_loop.simps) simp
next
  case (Suc k)
  then have i: "i < 8" "drop i ws = ws ! i # drop (Suc i) ws" by (simp_all add: Cons_nth_drop_Suc)
  have v: "\<not> ntop6_v4 ws best i" using Suc.prems by blast
  have "ntop6_loop src ws best (i + 1) (tmp @ 0x3A # hex (ws ! i)) =
      Inr ((tmp @ 0x3A # hex (ws ! i)) @ tail_groups (drop (i + 1) ws))"
    using Suc.prems Suc.hyps(2) by (intro Suc.hyps(1)) auto
  then show ?case using i v Suc.prems by (subst ntop6_loop.simps) (auto simp: hex_def Let_def)
qed

lemma ntop6_loop_before:
  "length ws = 8 \<Longrightarrow> best = (int b, l) \<Longrightarrow> b < 8 \<Longrightarrow> 0 < i \<Longrightarrow> i \<le> b \<Longrightarrow>
     ntop6_loop src ws best i tmp = ntop6_loop src ws best b (tmp @ tail_groups (take (b - i) (drop i ws)))"
proof (induction "b - i" arbitrary: i tmp)
  case (Suc k)
  then have i: "i < 8" "i < b" by auto
  then have t: "take (b - i) (drop i ws) = ws ! i # take (b - Suc i) (drop (Suc i) ws)"
    using Suc.prems(1) by (simp add: take_Cons' flip: Cons_nth_drop_Suc)
  have v: "\<not> ntop6_v4 ws best i" using i Suc.prems by (auto simp: ntop6_v4_def)
  have "ntop6_loop src ws best i tmp = ntop6_loop src ws best (i + 1) (tmp @ 0x3A # hex (ws ! i))"
    using i v Suc.prems by (subst ntop6_loop.simps) (auto simp: hex_def Let_def)
  also have "\<dots> = ntop6_loop src ws best b
      ((tmp @ 0x3A # hex (ws ! i)) @ tail_groups (take (b - (i + 1)) (drop (i + 1) ws)))"
    using Suc.prems Suc.hyps(2) i by (intro Suc.hyps(1)) auto
  finally show ?case by (simp add: t)
qed simp

lemma ntop6_loop_upto:
  assumes "length ws = 8" "best = (int b, l)" "b < 8"
  shows "ntop6_loop src ws best 0 [] = ntop6_loop src ws best b (groups (take b ws))"
proof (cases "b = 0")
  case False
  have "\<not> ntop6_v4 ws best 0" by (simp add: ntop6_v4_def)
  then have "ntop6_loop src ws best 0 [] = ntop6_loop src ws best 1 (hex (ws ! 0))"
    using False assms by (subst ntop6_loop.simps) (simp add: hex_def Let_def)
  also have "\<dots> = ntop6_loop src ws best b (hex (ws ! 0) @ tail_groups (take (b - 1) (drop 1 ws)))"
    using False assms by (intro ntop6_loop_before) auto
  also have "hex (ws ! 0) @ tail_groups (take (b - 1) (drop 1 ws)) = groups (take b ws)"
  proof -
    obtain w vs where w: "ws = w # vs" using assms(1) by (cases ws) auto
    obtain c where c: "b = Suc c" using False by (cases b) auto
    show ?thesis by (simp add: w c groups_Cons)
  qed
  finally show ?thesis .
qed simp

lemma ntop6_loop_inside:
  "best = (int b, int l) \<Longrightarrow> b + l \<le> 8 \<Longrightarrow> b < i \<Longrightarrow> i \<le> b + l \<Longrightarrow>
     ntop6_loop src ws best i tmp = ntop6_loop src ws best (b + l) tmp"
proof (induction "b + l - i" arbitrary: i)
  case (Suc k)
  then have "i < 8" "b < i" "i < b + l" by linarith+
  then have "ntop6_loop src ws best i tmp = ntop6_loop src ws best (i + 1) tmp"
    by (subst ntop6_loop.simps) (simp add: Suc.prems(1))
  also have "\<dots> = ntop6_loop src ws best (b + l) tmp"
    using Suc.prems Suc.hyps(2) by (intro Suc.hyps(1)) auto
  finally show ?case .
qed simp

lemma ntop6_loop_run:
  assumes "length ws = 8" "best = (int b, int l)" "1 \<le> l" "b + l \<le> 8"
  shows "ntop6_loop src ws best 0 [] = ntop6_loop src ws best (b + l) (groups (take b ws) @ [0x3A])"
proof -
  have "ntop6_loop src ws best b (groups (take b ws)) = ntop6_loop src ws best (b + 1) (groups (take b ws) @ [0x3A])"
    using assms by (subst ntop6_loop.simps) auto
  then show ?thesis
    using ntop6_loop_upto [of ws best b "int l"] ntop6_loop_inside [of best b l "b + 1"] assms by simp
qed

text \<open>The text of an address, following RFC 5952.\<close>

definition ipv6_text :: "bytes \<Rightarrow> bytes" where
  "ipv6_text src =
     (let ws = ntop6_words src; b = nat (fst (best_run ws)); l = nat (snd (best_run ws)) in
      if fst (best_run ws) = - 1 then groups ws
      else if b = 0 \<and> l = 6 then [0x3A, 0x3A] @ dotted (drop 12 src)
      else if b = 0 \<and> l = 5 \<and> ws ! 5 = 0xFFFF then
        [0x3A, 0x3A] @ hex (ws ! 5) @ 0x3A # dotted (drop 12 src)
      else groups (take b ws) @ [0x3A, 0x3A] @ groups (drop (b + l) ws))"

lemma print10_chars: "c \<in> set (print_base 10 n) \<Longrightarrow> \<exists>d < 10. c = digit_char d"
  using print_base_chars [of 10 n] by auto

lemma dotted_chars: "c \<in> set (dotted q) \<Longrightarrow> 46 \<le> unat c \<and> unat c \<le> 57"
  by (auto simp: dotted_def unat_digit_char dest!: print10_chars)

lemma hex_chars: "c \<in> set (hex w) \<Longrightarrow> \<exists>d < 16. c = digit_char d"
  using print_base_chars [of 16 "unat w"] by (auto simp: hex_def)

lemma groups_chars: "c \<in> set (groups ws) \<Longrightarrow> 48 \<le> unat c \<and> unat c \<le> 102"
  by (induction ws rule: groups.induct) (auto simp: unat_digit_char dest!: hex_chars)

lemma ipv6_text_chars: "c \<in> set (ipv6_text src) \<Longrightarrow> 46 \<le> unat c \<and> unat c \<le> 102"
  by (auto simp: ipv6_text_def Let_def unat_digit_char split: if_splits
      dest!: groups_chars dotted_chars hex_chars)

lemma ntop4_in_ntop6:
  "n \<le> 16 \<Longrightarrow> inet_ntop4 q (UV__INET6_ADDRSTRLEN - n) = (0, dotted q @ [0])"
proof -
  assume "n \<le> 16"
  then have "\<not> 46 - n \<le> length (dotted q)" using length_dotted [of q] by linarith
  then show ?thesis by (simp add: inet_ntop4 UV__INET6_ADDRSTRLEN_def)
qed

lemma takeWhile_dotted: "takeWhile (\<lambda>c. c \<noteq> 0) (dotted q @ [0]) = dotted q"
proof -
  have "c \<noteq> 0" if "c \<in> set (dotted q)" for c using dotted_chars [OF that] by auto
  then show ?thesis by (simp add: takeWhile_append2)
qed

lemma ntop6_loop_v4:
  "ntop6_v4 ws best 6 \<Longrightarrow> \<not> (fst best \<noteq> - 1 \<and> 6 < fst best + snd best) \<Longrightarrow> length tmp < 16 \<Longrightarrow>
     ntop6_loop src ws best 6 tmp = Inr (tmp @ 0x3A # dotted (drop 12 src))"
  by (subst ntop6_loop.simps) (auto simp: ntop4_in_ntop6 takeWhile_dotted Let_def)

lemma ntop6_loop_text:
  assumes "length src = 16"
  defines "best \<equiv> best_run (ntop6_words src)"
  shows "\<exists>tmp. ntop6_loop src (ntop6_words src) best 0 [] = Inr tmp \<and>
    ipv6_text src = (if fst best \<noteq> - 1 \<and> fst best + snd best = 8 then tmp @ [0x3A] else tmp)"
proof -
  let ?ws = "ntop6_words src"
  have l8: "length ?ws = 8" using assms by simp
  show ?thesis
  proof (cases rule: best_run_cases [of ?ws, case_names none run])
    case none
    then have nv: "\<not> ntop6_v4 ?ws best i" for i by (simp add: ntop6_v4_def best_def)
    have "ntop6_loop src ?ws best 0 [] = ntop6_loop src ?ws best 1 (hex (?ws ! 0))"
      using none nv by (subst ntop6_loop.simps) (simp add: hex_def Let_def best_def)
    also have "\<dots> = Inr (hex (?ws ! 0) @ tail_groups (drop 1 ?ws))"
      using none nv l8 by (intro ntop6_loop_tail) (auto simp: best_def)
    also have "hex (?ws ! 0) @ tail_groups (drop 1 ?ws) = groups ?ws"
      using l8 by (cases ?ws) (auto simp: groups_Cons)
    finally show ?thesis using none by (auto simp: ipv6_text_def Let_def best_def)
  next
    case (run b l)
    then have best: "best = (int b, int l)" and bl: "b + l \<le> 8" "1 \<le> l"
      by (auto simp: best_def longest_run_def)
    note start = ntop6_loop_run [OF l8 best bl(2,1), of src]
    have form: "ipv6_text src =
        (if b = 0 \<and> l = 6 then [0x3A, 0x3A] @ dotted (drop 12 src)
         else if b = 0 \<and> l = 5 \<and> ?ws ! 5 = 0xFFFF then
           [0x3A, 0x3A] @ hex (?ws ! 5) @ 0x3A # dotted (drop 12 src)
         else groups (take b ?ws) @ [0x3A, 0x3A] @ groups (drop (b + l) ?ws))"
      using best by (simp add: ipv6_text_def Let_def best_def)
    consider (v4) "b = 0" "l = 6" | (mapped) "b = 0" "l = 5" "?ws ! 5 = 0xFFFF"
      | (plain) "\<forall>j \<ge> b + l. \<not> ntop6_v4 ?ws best j" "\<not> (b = 0 \<and> l = 6)" "\<not> (b = 0 \<and> l = 5 \<and> ?ws ! 5 = 0xFFFF)"
      by (auto simp: ntop6_v4_def best)
    then show ?thesis
    proof cases
      case v4
      then have "ntop6_loop src ?ws best 6 [0x3A] = Inr ([0x3A] @ 0x3A # dotted (drop 12 src))"
        by (intro ntop6_loop_v4) (auto simp: ntop6_v4_def best)
      then show ?thesis using v4 start form best by simp
    next
      case mapped
      have h: "length (hex (?ws ! 5)) \<le> 4"
        using short_ntop6 [OF assms(1)] l8 by (intro length_hex) simp
      have "ntop6_loop src ?ws best 5 [0x3A] = ntop6_loop src ?ws best 6 ([0x3A] @ 0x3A # hex (?ws ! 5))"
        using mapped by (subst ntop6_loop.simps) (simp add: ntop6_v4_def best hex_def Let_def)
      moreover have "ntop6_loop src ?ws best 6 ([0x3A] @ 0x3A # hex (?ws ! 5)) =
          Inr (([0x3A] @ 0x3A # hex (?ws ! 5)) @ 0x3A # dotted (drop 12 src))"
        using mapped h by (intro ntop6_loop_v4) (auto simp: ntop6_v4_def best)
      ultimately show ?thesis using mapped start form best by simp
    next
      case plain
      have "ntop6_loop src ?ws best (b + l) (groups (take b ?ws) @ [0x3A]) =
          Inr ((groups (take b ?ws) @ [0x3A]) @ tail_groups (drop (b + l) ?ws))"
        using l8 plain bl by (intro ntop6_loop_tail) (auto simp: best)
      moreover have "int b + int l = 8 \<longleftrightarrow> drop (b + l) ?ws = []" using bl l8 by auto
      ultimately show ?thesis using plain start form best by (auto simp: tail_groups_eq)
    qed
  qed
qed

lemma length_groups: "\<forall>w \<in> set ws. short w \<Longrightarrow> length (groups ws) \<le> 5 * length ws"
proof (induction ws rule: groups.induct)
  case (2 w)
  then show ?case using length_hex [of w] by simp
next
  case (3 w v ws)
  then show ?case using length_hex [of w] by simp
qed simp

lemma length_ipv6_text:
  assumes "length src = 16"
  shows "length (ipv6_text src) \<le> 45"
proof -
  let ?ws = "ntop6_words src"
  have l8: "length ?ws = 8" and sh: "\<forall>w \<in> set ?ws. short w" using assms short_ntop6 by auto
  have d: "length (dotted (drop 12 src)) \<le> 15" using length_dotted by blast
  have h: "length (hex (?ws ! 5)) \<le> 4" using sh l8 by (intro length_hex) simp
  have g: "length (groups ?ws) \<le> 40" using length_groups [OF sh] l8 by simp
  have t: "length (groups (take n ?ws)) \<le> 5 * n" for n
    using length_groups [of "take n ?ws"] sh by (force dest: in_set_takeD)
  have r: "length (groups (drop n ?ws)) \<le> 5 * (8 - n)" for n
    using length_groups [of "drop n ?ws"] sh l8 by (force dest: in_set_dropD)
  show ?thesis
  proof (cases rule: best_run_cases [of ?ws, case_names none run])
    case none
    then show ?thesis using g by (simp add: ipv6_text_def)
  next
    case (run b l)
    then have "b + l \<le> 8" by (simp add: longest_run_def)
    then show ?thesis
      using run d h t [of b] r [of "b + l"] by (auto simp: ipv6_text_def Let_def)
  qed
qed

lemma inet_ntop6_text:
  assumes "length src = 16"
  shows "inet_ntop6 src sz = Some
    (if sz = 0 then (0, [])
     else if sz \<le> length (ipv6_text src) then (UV_ENOSPC, take (sz - 1) (ipv6_text src) @ [0])
     else (0, ipv6_text src @ [0]))"
proof -
  let ?b = "best_run (ntop6_words src)"
  obtain tmp where t: "ntop6_loop src (ntop6_words src) ?b 0 [] = Inr tmp"
    "ipv6_text src = (if fst ?b \<noteq> - 1 \<and> fst ?b + snd ?b = 8 then tmp @ [0x3A] else tmp)"
    using ntop6_loop_text [OF assms] by blast
  have l: "length (ipv6_text src) \<le> 45" using length_ipv6_text [OF assms] .
  have "inet_ntop6 src sz =
      (let (r, dst) = uv__strscpy (ipv6_text src) sz in Some (if r = UV_E2BIG then UV_ENOSPC else 0, dst))"
    using l unfolding inet_ntop6_def Let_def t(1) by (simp add: t(2) [symmetric] UV__INET6_ADDRSTRLEN_def)
  then show ?thesis
    using l uv__strscpy_cut [of sz "ipv6_text src"] uv__strscpy_fits [of "ipv6_text src" sz]
    by (cases "sz \<le> length (ipv6_text src)") (auto simp: SSIZE_MAX_def UV_E2BIG_def)
qed

section \<open>IPv6: reading back\<close>

lemma pton6_decimal:
  "\<forall>c \<in> set ds. hex_value c \<noteq> None \<Longrightarrow> seen + length ds \<le> 4 \<Longrightarrow>
     \<exists>v. pton6_loop (ds @ rest) cur out cp seen val = pton6_loop rest cur out cp (seen + length ds) v"
proof (induction ds arbitrary: seen val)
  case (Cons c ds)
  then obtain d where "hex_value c = Some d" by auto
  then show ?case using Cons.IH [of "seen + 1" "push_bit 4 val OR of_nat d"] Cons.prems by auto
qed auto

lemma pton6_dotted:
  assumes "length q = 4" "length out \<le> 12"
  shows "flush6 (pton6_loop (dotted q) (dotted q) out cp 0 0) = Some (out @ q, cp)"
proof -
  let ?ds = "print_base 10 (unat (q ! 0))"
  obtain rest where d: "dotted q = ?ds @ 0x2E # rest" by (simp add: dotted_def)
  have "length ?ds \<le> 3"
    using unat_byte_less [of "q ! 0"] by (intro length_print_base) simp_all
  moreover have "\<forall>c \<in> set ?ds. hex_value c \<noteq> None"
    by (auto dest!: print10_chars simp: hex_value_digit)
  ultimately have "\<exists>v. pton6_loop (?ds @ 0x2E # rest) (dotted q) out cp 0 0 =
      pton6_loop (0x2E # rest) (dotted q) out cp (0 + length ?ds) v"
    by (intro pton6_decimal) auto
  then obtain v where
    "pton6_loop (dotted q) (dotted q) out cp 0 0 = pton6_loop (0x2E # rest) (dotted q) out cp (length ?ds) v"
    by (auto simp: d)
  then show ?thesis
    using assms inet_pton4_dotted [OF assms(1)] by (simp add: flush6_def hex_value_def)
qed

text \<open>What the code does after the loop and the flush of the last group.\<close>

lemma inet_pton6_end:
  assumes "(if src = [] \<or> hd src \<noteq> 0x3A then s = src else src = 0x3A # s \<and> s \<noteq> [] \<and> hd s = 0x3A)"
    and "flush6 (pton6_loop s s [] None 0 0) = Some (out, cp)"
  shows "inet_pton6 src =
    (case cp of None \<Rightarrow> if length out \<noteq> 16 then None else Some (out @ replicate (16 - length out) 0)
     | Some c \<Rightarrow> if length out = 16 then None
         else Some (shift_tail (out @ replicate (16 - length out) 0) c (length out)))"
proof -
  have s: "(case src of [] \<Rightarrow> Some src
      | ch # rest \<Rightarrow> if ch = 0x3A then (if rest \<noteq> [] \<and> hd rest = 0x3A then Some rest else None) else Some src) = Some s"
    using assms(1) by (cases src) (auto split: if_splits)
  obtain o1 cp1 seen val where r: "pton6_loop s s [] None 0 0 = Some (o1, cp1, seen, val)"
    using assms(2) by (cases "pton6_loop s s [] None 0 0") (auto simp: flush6_def)
  have "cp1 = cp" "(if seen \<noteq> 0 then if length o1 + 2 > 16 then None else Some (o1 @ val_bytes val) else Some o1) = Some out"
    using assms(2) r by (auto simp: flush6_def split: if_splits)
  then show ?thesis by (simp add: inet_pton6_def s r Let_def split: option.split)
qed

lemma inet_pton6_gap:
  assumes "(if src = [] \<or> hd src \<noteq> 0x3A then s = src else src = 0x3A # s \<and> s \<noteq> [] \<and> hd s = 0x3A)"
    and "flush6 (pton6_loop s s [] None 0 0) = Some (pre @ suf, Some (length pre))"
    and "length (pre @ suf) < 16"
  shows "inet_pton6 src = Some (pre @ replicate (16 - length (pre @ suf)) 0 @ suf)"
  using inet_pton6_end [OF assms(1,2)] shift_tail [of "length pre" "pre @ suf"] assms(3)
  by simp

lemma hd_hex: "hd (hex w) \<noteq> 0x3A"
proof -
  have "hd (hex w) \<in> set (hex w)" by (intro hd_in_set) simp
  then obtain d where "d < 16" "hd (hex w) = digit_char d" using hex_chars by blast
  moreover have "unat (digit_char d) \<noteq> 58" using \<open>d < 16\<close> by (simp add: unat_digit_char)
  ultimately show ?thesis by auto
qed

lemma groups_hd: "ws \<noteq> [] \<Longrightarrow> groups ws \<noteq> [] \<and> hd (groups ws @ rest) \<noteq> 0x3A"
  using hd_hex by (cases ws) (auto simp: groups_Cons hd_append)

lemma hex_value_colon: "hex_value 0x3A = None"
  by (simp add: hex_value_def)

lemma pton6_double_colon:
  "pton6_loop (0x3A # rest) cur out None 0 0 = pton6_loop rest rest out (Some (length out)) 0 0"
  by (simp add: hex_value_colon)

lemma inet_pton6_groups:
  assumes "length ws = 8" "\<forall>w \<in> set ws. short w"
  shows "inet_pton6 (groups ws) = Some (word_bytes ws)"
proof -
  have "ws \<noteq> []" using assms by auto
  then have "groups ws \<noteq> []" "hd (groups ws) \<noteq> 0x3A" using groups_hd [of ws "[]"] by auto
  then show ?thesis
    using inet_pton6_end [of "groups ws" "groups ws" "word_bytes ws" None]
      pton6_groups [of ws "[]" "groups ws" None] assms by simp
qed

lemma inet_pton6_compressed:
  assumes "\<forall>w \<in> set us. short w" "\<forall>w \<in> set vs. short w" "length us + length vs \<le> 7"
  shows "inet_pton6 (groups us @ [0x3A, 0x3A] @ groups vs) =
    Some (word_bytes us @ replicate (16 - 2 * (length us + length vs)) 0 @ word_bytes vs)"
proof (cases "us = []")
  case True
  have "flush6 (pton6_loop (0x3A # groups vs) (0x3A # groups vs) [] None 0 0) = Some (word_bytes vs, Some 0)"
    using pton6_groups [of vs "[]" "groups vs" "Some 0"] assms by (simp only: pton6_double_colon) simp
  then show ?thesis
    using inet_pton6_gap [of "0x3A # 0x3A # groups vs" "0x3A # groups vs" "[]" "word_bytes vs"] True assms
    by simp
next
  case False
  let ?s = "groups us @ 0x3A # 0x3A # groups vs"
  have "flush6 (pton6_loop ?s ?s [] None 0 0) = Some (word_bytes us @ word_bytes vs, Some (length (word_bytes us)))"
    using pton6_prefix [OF assms(1) False, of "0x3A # groups vs" "[]" ?s None] assms
      pton6_groups [OF assms(2), of "word_bytes us" "groups vs" "Some (2 * length us)"]
    by (simp add: hex_value_colon)
  then show ?thesis
    using inet_pton6_gap [of ?s ?s "word_bytes us" "word_bytes vs"] groups_hd [OF False, of "[]"]
      groups_hd [OF False, of "0x3A # 0x3A # groups vs"] assms
    by (simp add: algebra_simps)
qed

lemma word_bytes_zeros: "\<forall>w \<in> set ws. w = 0 \<Longrightarrow> word_bytes ws = replicate (2 * length ws) 0"
proof (induction ws)
  case (Cons w ws)
  have "val_bytes 0 = [0, 0]" by (simp add: val_bytes_def)
  with Cons show ?case by simp
qed simp

lemma word_bytes_split:
  assumes "length src = 16" "longest_run (ntop6_words src) 8 b l"
  shows "src = word_bytes (take b (ntop6_words src)) @ replicate (2 * l) 0 @
      word_bytes (drop (b + l) (ntop6_words src))"
proof -
  let ?ws = "ntop6_words src"
  have bl: "b + l \<le> length ?ws" "zeros ?ws b l" using assms by (auto simp: longest_run_def)
  have "\<forall>w \<in> set (take l (drop b ?ws)). w = 0"
    using bl by (auto simp: in_set_conv_nth zeros_def)
  then have "word_bytes (take l (drop b ?ws)) = replicate (2 * l) 0"
    using bl by (subst word_bytes_zeros) (auto simp: min_def)
  moreover have "?ws = take b ?ws @ take l (drop b ?ws) @ drop (b + l) ?ws"
    using append_take_drop_id [of b ?ws] append_take_drop_id [of l "drop b ?ws"]
    by (simp add: add.commute)
  then have "word_bytes ?ws = word_bytes (take b ?ws) @ word_bytes (take l (drop b ?ws)) @ word_bytes (drop (b + l) ?ws)"
    by (metis word_bytes_simps(3))
  ultimately show ?thesis using word_bytes_ntop6 [OF assms(1)] by simp
qed

lemma inet_pton6_text:
  assumes "length src = 16"
  shows "inet_pton6 (ipv6_text src) = Some src"
proof -
  let ?ws = "ntop6_words src"
  have l8: "length ?ws = 8" and sh: "\<forall>w \<in> set ?ws. short w" using assms short_ntop6 by auto
  have w: "word_bytes ?ws = src" using word_bytes_ntop6 [OF assms] .
  have q: "length (drop 12 src) = 4" using assms by simp
  show ?thesis
  proof (cases rule: best_run_cases [of ?ws, case_names none run])
    case none
    then show ?thesis using inet_pton6_groups [OF l8 sh] w by (simp add: ipv6_text_def)
  next
    case (run b l)
    note src = word_bytes_split [OF assms run(3)]
    have bl: "b + l \<le> 8" using run by (simp add: longest_run_def)
    have drop12: "word_bytes (drop 6 ?ws) = drop 12 src"
    proof -
      have "word_bytes (take 6 ?ws) @ word_bytes (drop 6 ?ws) = src"
        using w by (metis append_take_drop_id word_bytes_simps(3))
      moreover have "length (word_bytes (take 6 ?ws)) = 12" using l8 by simp
      ultimately show ?thesis by (metis append_eq_conv_conj)
    qed
    consider (v4) "b = 0" "l = 6" | (mapped) "b = 0" "l = 5" "?ws ! 5 = 0xFFFF"
      | (plain) "ipv6_text src = groups (take b ?ws) @ [0x3A, 0x3A] @ groups (drop (b + l) ?ws)"
    proof -
      have "ipv6_text src =
        (if b = 0 \<and> l = 6 then [0x3A, 0x3A] @ dotted (drop 12 src)
         else if b = 0 \<and> l = 5 \<and> ?ws ! 5 = 0xFFFF then
           [0x3A, 0x3A] @ hex (?ws ! 5) @ 0x3A # dotted (drop 12 src)
         else groups (take b ?ws) @ [0x3A, 0x3A] @ groups (drop (b + l) ?ws))"
        using run by (simp add: ipv6_text_def Let_def)
      then show ?thesis using that by metis
    qed
    then show ?thesis
    proof cases
      case v4
      let ?d = "dotted (drop 12 src)"
      have "flush6 (pton6_loop (0x3A # ?d) (0x3A # ?d) [] None 0 0) = Some (drop 12 src, Some 0)"
        using pton6_dotted [OF q, of "[]"] by (simp only: pton6_double_colon) simp
      then have "inet_pton6 (0x3A # 0x3A # ?d) = Some (replicate 12 0 @ drop 12 src)"
        using inet_pton6_gap [of "0x3A # 0x3A # ?d" "0x3A # ?d" "[]" "drop 12 src"] q by simp
      moreover have "ipv6_text src = 0x3A # 0x3A # ?d" using run v4 by (simp add: ipv6_text_def)
      moreover have "src = replicate 12 0 @ drop 12 src" using src v4 drop12 by simp
      ultimately show ?thesis by simp
    next
      case mapped
      let ?d = "dotted (drop 12 src)" and ?w = "?ws ! 5"
      let ?s = "hex ?w @ 0x3A # ?d"
      have ne: "?d \<noteq> []" using length_dotted [of "drop 12 src"] by auto
      have "pton6_loop (0x3A # ?s) (0x3A # ?s) [] None 0 0 = pton6_loop ?s ?s [] (Some 0) 0 0"
        by (simp only: pton6_double_colon) simp
      also have "\<dots> = pton6_loop ?d ?d (val_bytes ?w) (Some 0) 0 0"
        using pton6_group [of ?w ?d "[]"] sh l8 ne by simp
      finally have "flush6 (pton6_loop (0x3A # ?s) (0x3A # ?s) [] None 0 0) =
          Some (val_bytes ?w @ drop 12 src, Some 0)"
        using pton6_dotted [OF q, of "val_bytes ?w"] by simp
      then have "inet_pton6 (0x3A # 0x3A # ?s) = Some (replicate 10 0 @ val_bytes ?w @ drop 12 src)"
        using inet_pton6_gap [of "0x3A # 0x3A # ?s" "0x3A # ?s" "[]" "val_bytes ?w @ drop 12 src"] q by simp
      moreover have "ipv6_text src = 0x3A # 0x3A # ?s" using run mapped by (simp add: ipv6_text_def)
      moreover have "drop 5 ?ws = ?w # drop 6 ?ws" using l8 Cons_nth_drop_Suc [of 5 ?ws] by simp
      then have "src = replicate 10 0 @ val_bytes ?w @ drop 12 src" using src mapped drop12 by simp
      ultimately show ?thesis by simp
    next
      case plain
      let ?us = "take b ?ws" and ?vs = "drop (b + l) ?ws"
      have n: "16 - 2 * (length ?us + length ?vs) = 2 * l" using bl l8 by simp
      have m: "length ?us + length ?vs \<le> 7" using bl l8 run by simp
      have u: "\<forall>w \<in> set ?us. short w" "\<forall>w \<in> set ?vs. short w"
        using sh by (auto dest: in_set_takeD in_set_dropD)
      show ?thesis
        unfolding plain inet_pton6_compressed [OF u m] n src [symmetric] by (rule refl)
    qed
  qed
qed

section \<open>Properties\<close>

text \<open>C35: the IPv4 parser accepts exactly the dotted form that the printer writes (four decimal
  numbers below 256 without leading zeros), and yields its four bytes.\<close>

theorem pton4_exact:
  "uv_inet_pton AF_INET (Some s) True = (0, b) \<longleftrightarrow> length b = 4 \<and> s = dotted b"
  using inet_pton4_sound [of s b] inet_pton4_dotted [of b]
  by (auto simp: uv_inet_pton_def UV_EINVAL_def split: option.splits)

text \<open>C12: every IPv6 address survives printing (in a buffer of 46 bytes or more) and parsing.\<close>

theorem ipv6_roundtrip:
  assumes "length addr = 16" "46 \<le> n"
  shows "\<exists>s. uv_inet_ntop AF_INET6 addr n = Some (0, s @ [0]) \<and> 0 \<notin> set s \<and> length s < 46 \<and>
    uv_inet_pton AF_INET6 (Some s) True = (0, addr)"
proof -
  let ?s = "ipv6_text addr"
  have c: "x \<notin> set ?s" if "unat x < 46" for x using ipv6_text_chars [of x addr] that by auto
  have "0 \<notin> set ?s" "0x25 \<notin> set ?s" by (rule c; simp)+
  moreover have "takeWhile (\<lambda>c. c \<noteq> 0x25) ?s = ?s" 
    unfolding takeWhile_eq_all_conv using \<open>0x25 \<notin> set ?s\<close> by blast
  moreover have "length ?s \<le> 45" using length_ipv6_text [OF assms(1)] .
  ultimately show ?thesis
    using assms inet_ntop6_text [OF assms(1), of n] inet_pton6_text [OF assms(1)]
    by (intro exI [of _ ?s]) (simp add: uv_inet_ntop_def uv_inet_pton_def del: takeWhile_eq_all_conv)
qed

lemma ipv6_roundtrip_witness:
  "\<exists>s. uv_inet_ntop AF_INET6 (replicate 15 0 @ [1]) 46 = Some (0, s @ [0]) \<and> 0 \<notin> set s \<and> length s < 46 \<and>
    uv_inet_pton AF_INET6 (Some s) True = (0, replicate 15 0 @ [1])"
  by (rule ipv6_roundtrip) simp_all

text \<open>C36: the search of the address printer finds the longest run of at least two zero words, and
  the first one of that length (RFC 5952), or says that there is none.\<close>

theorem best_run_longest:
  "(fst (best_run ws) = - 1 \<and> (\<forall>j \<le> 6. ws ! j \<noteq> 0 \<or> ws ! Suc j \<noteq> 0)) \<or>
   (\<exists>b l. best_run ws = (int b, int l) \<and> 2 \<le> l \<and> longest_run ws 8 b l)"
proof (cases rule: best_run_cases [of ws, case_names none run])
  case none
  have "ws ! j \<noteq> 0 \<or> ws ! Suc j \<noteq> 0" if "j \<le> 6" for j
  proof (rule ccontr)
    assume "\<not> ?thesis"
    then have "zeros ws j 2" unfolding zeros_def
      by (metis add_2_eq_Suc' le_less_Suc_eq not_le less_Suc_eq_le)
    then show False using none(2) that by auto
  qed
  with none(1) show ?thesis by blast
next
  case (run b l)
  then show ?thesis by blast
qed

lemma best_run_longest_witness:
  "best_run [1, 0, 0, 2, 0, 0, 0, 3] = (4, 3) \<and> longest_run [1, 0, 0, 2, 0, 0, 0, 3] 8 4 3"
proof -
  have "best_run [1, 0, 0, 2, 0, 0, 0, 3] = (4, 3)" by code_simp
  then show ?thesis using best_run_longest [of "[1, 0, 0, 2, 0, 0, 0, 3]"] by auto
qed

text \<open>C33: neither printer writes past the caller's buffer or past its own array.  The text and its NUL are written
  when they fit.  Otherwise the call reports \<open>UV_ENOSPC\<close>, the IPv4 printer having written nothing and the IPv6 printer as much
  of the text as fits before a NUL; but with a buffer of size 0 the IPv6 printer, which has nowhere to
  put the NUL, reports success.\<close>

theorem ntop_bounds:
  assumes "af = AF_INET \<and> length addr = 4 \<and> s = dotted addr \<or>
    af = AF_INET6 \<and> length addr = 16 \<and> s = ipv6_text addr"
  shows "\<exists>r out. uv_inet_ntop af addr n = Some (r, out) \<and> length out \<le> n \<and>
    (if length s < n then r = 0 \<and> out = s @ [0]
     else if af = AF_INET then r = UV_ENOSPC \<and> out = []
     else if n = 0 then r = 0 \<and> out = []
     else r = UV_ENOSPC \<and> out = take (n - 1) s @ [0])"
  using assms
proof (elim disjE conjE)
  assume "af = AF_INET" "s = dotted addr"
  then show ?thesis by (simp add: uv_inet_ntop_def inet_ntop4)
next
  assume "af = AF_INET6" "length addr = 16" "s = ipv6_text addr"
  then show ?thesis by (auto simp: uv_inet_ntop_def inet_ntop6_text)
qed

lemma ntop_bounds_witness:
  "uv_inet_ntop AF_INET [127, 0, 0, 1] 9 = Some (UV_ENOSPC, []) \<and>
    uv_inet_ntop AF_INET [127, 0, 0, 1] 10 = Some (0, [0x31, 0x32, 0x37, 0x2E, 0x30, 0x2E, 0x30, 0x2E, 0x31, 0]) \<and>
    uv_inet_ntop AF_INET6 (replicate 15 0 @ [1]) 0 = Some (0, [])"
proof -
  have d: "dotted [127, 0, 0, 1] = [0x31, 0x32, 0x37, 0x2E, 0x30, 0x2E, 0x30, 0x2E, 0x31]" by code_simp
  show ?thesis
    using ntop_bounds [of AF_INET "[127, 0, 0, 1]" "dotted [127, 0, 0, 1]" 9]
      ntop_bounds [of AF_INET "[127, 0, 0, 1]" "dotted [127, 0, 0, 1]" 10]
      ntop_bounds [of AF_INET6 "replicate 15 0 @ [1]" "ipv6_text (replicate 15 0 @ [1])" 0]
    unfolding d by auto
qed

end
