(* ===== verification/Idna.thy ===== *)
theory Idna
  imports Inet
begin

text \<open>
  libuv, \<^verbatim>\<open>ios/Pods/Libuv-gRPC/src/idna.c\<close>: host names in UTF-8 to their ASCII form (Punycode).

  The pointers \<open>s\<close>, \<open>p\<close>, \<open>se\<close>, \<open>pe\<close> are indices into the object \<open>mem\<close> that holds the name; a read outside
  \<open>mem\<close> is \<^term>\<open>None\<close>.  \<open>unsigned\<close> is 32 bits.  The output is the list of the bytes written so far,
  and \<open>cap\<close> the space \<open>de - ds\<close> of the buffer.
\<close>

section \<open>UTF-8\<close>

definition read_at :: "bytes \<Rightarrow> nat \<Rightarrow> u32 option" where
  "read_at mem p = (if p < length mem then Some (ucast (mem ! p)) else None)"

text \<open>The checks after the switch, with the bits of the code point in \<open>a\<close>, \<open>b\<close>, \<open>c\<close>, \<open>d\<close>.\<close>

definition utf8_finish :: "u32 \<Rightarrow> u32 \<Rightarrow> u32 \<Rightarrow> u32 \<Rightarrow> u32 \<Rightarrow> u32" where
  "utf8_finish mn a b c d =
     (if 0x80 \<noteq> 0xC0 AND (b XOR c XOR d) then - 1
      else
        let b = b AND 63; c = c AND 63; d = d AND 63;
            a = push_bit 18 a OR push_bit 12 b OR push_bit 6 c OR d in
        if a < mn then - 1
        else if a > 0x10FFFF then - 1
        else if a \<ge> 0xD800 \<and> a \<le> 0xDFFF then - 1
        else a)"

text \<open>The code point, or -1, and the advanced pointer.\<close>

definition uv__utf8_decode1_slow :: "bytes \<Rightarrow> nat \<Rightarrow> nat \<Rightarrow> u32 \<Rightarrow> (u32 \<times> nat) option" where
  "uv__utf8_decode1_slow mem p pe a =
     (if a > 0xF7 then Some (- 1, p)
      else
        let n = int p - int pe in
        if n \<noteq> 1 \<and> n \<noteq> 2 \<and> a > 0xEF then do {
          b \<leftarrow> read_at mem p;
          c \<leftarrow> read_at mem (p + 1);
          d \<leftarrow> read_at mem (p + 2);
          Some (utf8_finish 0x10000 (a AND 7) b c d, p + 3)
        }
        else if n \<noteq> 1 \<and> a > 0xDF then do {
          c \<leftarrow> read_at mem p;
          d \<leftarrow> read_at mem (p + 1);
          Some (utf8_finish 0x800 0 (0x80 OR (a AND 15)) c d, p + 2)
        }
        else if a > 0xBF then do {
          d \<leftarrow> read_at mem p;
          Some (utf8_finish 0x80 0 0x80 (0x80 OR (a AND 31)) d, p + 1)
        }
        else Some (- 1, p))"

definition uv__utf8_decode1 :: "bytes \<Rightarrow> nat \<Rightarrow> nat \<Rightarrow> (u32 \<times> nat) option" where
  "uv__utf8_decode1 mem p pe = do {
     a \<leftarrow> read_at mem p;
     if a < 128 then Some (a, p + 1) else uv__utf8_decode1_slow mem (p + 1) pe a
   }"

lemma decode1_advances: "uv__utf8_decode1 mem p pe = Some (c, p') \<Longrightarrow> p < p'"
  by (auto simp: uv__utf8_decode1_def uv__utf8_decode1_slow_def read_at_def Let_def
      split: if_splits bind_splits)

text \<open>
  The macro \<open>foreach_codepoint\<close>: its body returns whether the loop is left early, and its state.
\<close>

function foreach_codepoint ::
  "bytes \<Rightarrow> nat \<Rightarrow> (u32 \<Rightarrow> 's \<Rightarrow> bool \<times> 's) \<Rightarrow> nat \<Rightarrow> 's \<Rightarrow> 's option" where
  "foreach_codepoint mem pe body p st =
     (if p \<le> pe then
        (case uv__utf8_decode1 mem p pe of
           None \<Rightarrow> None
         | Some (c, p') \<Rightarrow>
             if p' \<le> pe then
               (case body c st of (brk, st') \<Rightarrow>
                  if brk then Some st' else foreach_codepoint mem pe body p' st')
             else Some st)
      else Some st)"
  by pat_completeness auto
termination
  by (relation "measure (\<lambda>(mem, pe, body, p, st). pe + 1 - p)") (auto dest!: decode1_advances)

declare foreach_codepoint.simps [simp del]

section \<open>Punycode\<close>

definition alphabet :: bytes where
  "alphabet = map of_nat ([97..<123] @ [48..<58])"

text \<open>\<open>if (*d < de) *(*d)++ = c\<close>\<close>

definition put :: "nat \<Rightarrow> byte \<Rightarrow> bytes \<Rightarrow> bytes" where
  "put cap c out = (if length out < cap then out @ [c] else out)"

text \<open>The first pass: \<open>h\<close> ASCII and \<open>todo\<close> other code points, or an invalid one.\<close>

definition count_body :: "u32 \<Rightarrow> bool \<times> u32 \<times> u32 \<Rightarrow> bool \<times> bool \<times> u32 \<times> u32" where
  "count_body c s =
     (let (bad, h, todo) = s in
      if c < 128 then (False, bad, h + 1, todo)
      else if c = - 1 then (True, True, h, todo)
      else (False, bad, h, todo + 1))"

text \<open>The second pass copies the ASCII characters; \<open>x\<close> counts them.\<close>

definition copy_body :: "nat \<Rightarrow> u32 \<Rightarrow> u32 \<Rightarrow> u32 \<times> bytes \<Rightarrow> bool \<times> u32 \<times> bytes" where
  "copy_body cap h c s =
     (let (x, out) = s in
      if c > 127 then (False, x, out)
      else let out = put cap (ucast c) out; x = x + 1 in (x = h, x, out))"

text \<open>The smallest code point from \<open>n\<close> on.\<close>

definition min_body :: "u32 \<Rightarrow> u32 \<Rightarrow> u32 \<Rightarrow> bool \<times> u32" where
  "min_body n c m = (False, if c \<ge> n \<and> c < m then c else m)"

text \<open>The threshold \<open>t\<close> of a digit, and the loop over the digits of \<open>q\<close>.\<close>

definition threshold :: "u32 \<Rightarrow> u32 \<Rightarrow> u32" where
  "threshold k bias =
     (let t = 1; t = (if k > bias then k - bias else t) in if t > 26 then 26 else t)"

lemma threshold_bounds: "1 \<le> unat (threshold k bias) \<and> unat (threshold k bias) \<le> 26"
proof -
  have "1 \<le> unat (k - bias)" if "k > bias"
    using that by (simp add: word_less_nat_alt unat_sub_if')
  then show ?thesis
    by (auto simp: threshold_def Let_def word_less_nat_alt not_less)
qed

function digits_loop :: "nat \<Rightarrow> u32 \<Rightarrow> u32 \<Rightarrow> u32 \<Rightarrow> bytes \<Rightarrow> bytes" where
  "digits_loop cap bias k q out =
     (let t = threshold k bias in
      if q < t then put cap (alphabet ! unat q) out
      else
        let x = q - t; y = 36 - t; t' = t + x mod y in
        digits_loop cap bias (k + 36) (x div y) (put cap (alphabet ! unat t') out))"
  by pat_completeness auto
termination
proof (relation "measure (\<lambda>(cap, bias, k, q, out). unat q)", goal_cases)
  case (2 cap bias k q out t x y t')
  define tn where "tn = unat (threshold k bias)"
  have tn: "1 \<le> tn" "tn \<le> 26" using threshold_bounds [of k bias] by (auto simp: tn_def)
  have "tn \<le> unat q" using 2 by (simp add: tn_def word_less_nat_alt)
  moreover have "unat (36 - threshold k bias) = 36 - tn"
    using tn by (simp add: tn_def unat_sub_if')
  moreover have "unat (q - threshold k bias) = unat q - tn"
    using \<open>tn \<le> unat q\<close> by (simp add: tn_def unat_sub_if')
  ultimately have "unat (x div y) = (unat q - tn) div (36 - tn)"
    using 2 by (simp add: unat_div_distrib)
  also have "\<dots> \<le> unat q - tn" by (rule div_le_dividend)
  finally have "unat (x div y) < unat q" using tn \<open>tn \<le> unat q\<close> by linarith
  then show ?case by simp
qed simp

declare digits_loop.simps [simp del]

text \<open>\<open>for (bias = 0; delta > 35 * 26 / 2; bias += 36) delta /= 35\<close>\<close>

function bias_loop :: "u32 \<Rightarrow> u32 \<Rightarrow> u32 \<times> u32" where
  "bias_loop bias delta = (if delta > 455 then bias_loop (bias + 36) (delta div 35) else (bias, delta))"
  by pat_completeness auto
termination
proof (relation "measure (\<lambda>(bias, delta). unat delta)", goal_cases)
  case (2 bias delta)
  then have "unat (delta div 35) < unat delta"
    by (simp add: unat_div_distrib word_less_nat_alt)
  then show ?case by simp
qed simp

declare bias_loop.simps [simp del]

text \<open>The locals of the third pass that one code point changes; \<open>err\<close> is the overflow return.\<close>

record puny_state =
  err_p :: bool
  h_p :: u32
  bias_p :: u32
  delta_p :: u32
  todo_p :: u32
  first_p :: bool
  dst_p :: bytes

definition puny_body :: "nat \<Rightarrow> u32 \<Rightarrow> u32 \<Rightarrow> puny_state \<Rightarrow> bool \<times> puny_state" where
  "puny_body cap n c st =
     (let st = (if c < n then st\<lparr>delta_p := delta_p st + 1\<rparr> else st) in
      if c < n \<and> delta_p st = 0 then (True, st\<lparr>err_p := True\<rparr>)
      else if c \<noteq> n then (False, st)
      else
        let out = digits_loop cap (bias_p st) 36 (delta_p st) (dst_p st);
            dl = delta_p st div 2;
            dl = (if first_p st then dl div 350 else dl);
            hh = h_p st + 1;
            dl = dl + dl div hh;
            (bs, dl) = bias_loop 0 dl;
            bs = bs + 36 * dl div (dl + 38)
        in (False, st\<lparr>dst_p := out, first_p := False, h_p := hh, bias_p := bs, delta_p := 0,
                      todo_p := todo_p st - 1\<rparr>))"

text \<open>
  The loop \<open>while (todo > 0)\<close>.  Every round that finds a code point lowers \<open>todo\<close>; the fuel is the
  number of rounds.  The counters \<open>h\<close> and \<open>todo\<close> do not wrap around for a name of less than 4 GB, so \<open>h + 1\<close>
  is not zero where it divides.  The result is the return value and the output.
\<close>

fun puny_loop :: "nat \<Rightarrow> bytes \<Rightarrow> nat \<Rightarrow> nat \<Rightarrow> nat \<Rightarrow> u32 \<Rightarrow> puny_state \<Rightarrow> (int \<times> bytes) option" where
  "puny_loop fuel mem ss se cap n st =
     (if todo_p st = 0 then Some (0, dst_p st)
      else
        (case fuel of
           0 \<Rightarrow> None
         | Suc fuel \<Rightarrow> do {
             m \<leftarrow> foreach_codepoint mem se (min_body n) ss (- 1);
             let x = m - n;
             let y = h_p st + 1;
             if x > NOT (delta_p st) div y then Some (UV_E2BIG, dst_p st)
             else do {
               st \<leftarrow> foreach_codepoint mem se (puny_body cap m) ss (st\<lparr>delta_p := delta_p st + x * y\<rparr>);
               if err_p st then Some (UV_E2BIG, dst_p st)
               else puny_loop fuel mem ss se cap (m + 1) (st\<lparr>delta_p := delta_p st + 1\<rparr>)
             }
           }))"

declare puny_loop.simps [simp del]

text \<open>The return value and the output, which starts with what \<open>*d\<close> has passed already.\<close>

definition uv__idna_toascii_label ::
  "bytes \<Rightarrow> nat \<Rightarrow> nat \<Rightarrow> nat \<Rightarrow> bytes \<Rightarrow> (int \<times> bytes) option" where
  "uv__idna_toascii_label mem s se cap out = do {
     (bad, h, todo) \<leftarrow> foreach_codepoint mem se count_body s (False, 0, 0);
     if bad then Some (UV_EINVAL, out)
     else do {
       let out = (if todo > 0 then put cap 0x2D (put cap 0x2D (put cap 0x6E (put cap 0x78 out))) else out);
       (x, out) \<leftarrow> foreach_codepoint mem se (copy_body cap h) s (0, out);
       if todo = 0 then Some (sint h, out)
       else do {
         let out = (if h > 0 then put cap 0x2D out else out);
         puny_loop (unat todo) mem s se cap 128
           \<lparr>err_p = False, h_p = h, bias_p = 72, delta_p = 0, todo_p = todo, first_p = True, dst_p = out\<rparr>
       }
     }
   }"

definition is_dot :: "u32 \<Rightarrow> bool" where
  "is_dot c \<longleftrightarrow> c = 0x2E \<or> c = 0x3002 \<or> c = 0xFF0E \<or> c = 0xFF61"

text \<open>
  The loop over the labels, from \<open>si\<close>, with \<open>s\<close> the start of the current one.  The result is an error
  code or zero, \<open>s\<close> and the output.
\<close>

function toascii_loop ::
  "bytes \<Rightarrow> nat \<Rightarrow> nat \<Rightarrow> nat \<Rightarrow> nat \<Rightarrow> bytes \<Rightarrow> (int \<times> nat \<times> bytes) option" where
  "toascii_loop mem se cap s si out =
     (if si < se then
        (case uv__utf8_decode1 mem si se of
           None \<Rightarrow> None
         | Some (c, si') \<Rightarrow>
             if \<not> is_dot c then toascii_loop mem se cap s si' out
             else
               (case uv__idna_toascii_label mem s si cap out of
                  None \<Rightarrow> None
                | Some (rc, out') \<Rightarrow>
                    if rc < 0 then Some (rc, s, out')
                    else toascii_loop mem se cap si' si' (put cap 0x2E out')))
      else Some (0, s, out))"
  by pat_completeness auto
termination
  by (relation "measure (\<lambda>(mem, se, cap, s, si, out). se - si)") (auto dest!: decode1_advances)

declare toascii_loop.simps [simp del]

text \<open>The return value and the bytes written.\<close>

definition uv__idna_toascii :: "bytes \<Rightarrow> nat \<Rightarrow> nat \<Rightarrow> nat \<Rightarrow> (int \<times> bytes) option" where
  "uv__idna_toascii mem s se cap = do {
     (rc, s, out) \<leftarrow> toascii_loop mem se cap s s [];
     if rc < 0 then Some (rc, out)
     else do {
       (rc, out) \<leftarrow> (if s < se then uv__idna_toascii_label mem s se cap out else Some (0, out));
       if rc < 0 then Some (rc, out)
       else let out = put cap 0 out in Some (int (length out), out)
     }
   }"

end
