(* ===== verification/IdnaProofs.thy ===== *)
theory IdnaProofs
  imports Idna
begin

text \<open>
  The correctness of \<^verbatim>\<open>Libuv-gRPC/src/idna.c\<close>: the UTF-8 decoder against the encoding of scalar
  values, the Punycode encoder against the decoder of RFC 3492, and the bounds of the output.
\<close>

section \<open>UTF-8\<close>

definition scalar :: "nat \<Rightarrow> bool" where
  "scalar v \<longleftrightarrow> v \<le> 0x10FFFF \<and> \<not> (0xD800 \<le> v \<and> v \<le> 0xDFFF)"

text \<open>The encoding of a scalar value (RFC 3629).\<close>

definition utf8_encode :: "nat \<Rightarrow> bytes" where
  "utf8_encode v = map of_nat
     (if v < 0x80 then [v]
      else if v < 0x800 then [0xC0 + v div 64, 0x80 + v mod 64]
      else if v < 0x10000 then [0xE0 + v div 64 div 64, 0x80 + v div 64 mod 64, 0x80 + v mod 64]
      else [0xF0 + v div 64 div 64 div 64, 0x80 + v div 64 div 64 mod 64, 0x80 + v div 64 mod 64,
            0x80 + v mod 64])"

text \<open>Masks of continuation and lead bytes, checked for every value of the six payload bits.\<close>

lemma cont_table:
  "list_all (\<lambda>y. 0xC0 AND (of_nat (128 + y) :: u32) = 0x80 \<and> (of_nat (128 + y) :: u32) AND 63 = of_nat y \<and>
     (0x80 OR of_nat y :: u32) = of_nat (128 + y)) [0..<64]"
  by code_simp

lemma cont_bytes:
  assumes "y < 64"
  shows "0xC0 AND (of_nat (128 + y) :: u32) = 0x80" "(of_nat (128 + y) :: u32) AND 63 = of_nat y"
    "(0x80 OR of_nat y :: u32) = of_nat (128 + y)"
  using cont_table assms unfolding list_all_iff by (auto simp del: of_nat_add)

lemma lead_table:
  "list_all (\<lambda>x. (of_nat (192 + x) :: u32) AND 31 = of_nat x) [0..<32] \<and>
   list_all (\<lambda>x. (of_nat (224 + x) :: u32) AND 15 = of_nat x) [0..<16] \<and>
   list_all (\<lambda>x. (of_nat (240 + x) :: u32) AND 7 = of_nat x) [0..<8]"
  by code_simp

lemma lead_bytes:
  "x < 32 \<Longrightarrow> (of_nat (192 + x) :: u32) AND 31 = of_nat x"
  "x < 16 \<Longrightarrow> (of_nat (224 + x) :: u32) AND 15 = of_nat x"
  "x < 8 \<Longrightarrow> (of_nat (240 + x) :: u32) AND 7 = of_nat x"
  using lead_table unfolding list_all_iff by (auto simp del: of_nat_add)

lemma utf8_finish_value:
  assumes "a < 64" "b < 64" "c < 64" "d < 64" "mn < 2 ^ 32"
  shows "utf8_finish (of_nat mn) (of_nat a) (of_nat (128 + b)) (of_nat (128 + c)) (of_nat (128 + d)) =
    (if mn \<le> num4 a b c d \<and> scalar (num4 a b c d) then of_nat (num4 a b c d) else - 1)"
proof -
  define v where "v = push_bit 18 (of_nat a) OR push_bit 12 (of_nat b) OR push_bit 6 (of_nat c) OR (of_nat d :: u32)"
  have u: "unat v = num4 a b c d" unfolding v_def by (rule unat_four) (fact assms)+
  then have v: "v = of_nat (num4 a b c d)" by (metis of_nat_unat ucast_id)
  have x: "0xC0 AND (of_nat (128 + b) XOR of_nat (128 + c) XOR of_nat (128 + d)) = (0x80 :: u32)"
    using assms by (simp add: bit.conj_xor_distrib cont_bytes del: of_nat_add)
  have "unat (of_nat mn :: u32) = mn" using assms(5) by (simp add: unat_of_nat)
  then show ?thesis
    unfolding utf8_finish_def x
    using assms u
    by (auto simp: Let_def cont_bytes scalar_def word_less_nat_alt word_le_nat_alt v simp flip: v_def
        simp del: of_nat_add)
qed

lemma read_at_drop: "read_at mem (p + k) = (if k < length (drop p mem) then Some (ucast (drop p mem ! k)) else None)"
  by (simp add: read_at_def less_diff_conv add.commute)

text \<open>A well-formed encoding before \<open>pe\<close> is decoded to its scalar value.\<close>

lemma decode1_encoded:
  assumes "scalar v" "drop p mem = utf8_encode v @ rest" "p < pe"
  shows "uv__utf8_decode1 mem p pe = Some (of_nat v, p + length (utf8_encode v))"
proof -
  have rd: "read_at mem (p + k) = (if k < length (utf8_encode v @ rest) then Some (ucast ((utf8_encode v @ rest) ! k)) else None)" for k
    using read_at_drop [of mem p k] by (simp add: assms(2))
  have "p + 1 + 1 = p + 2" "p + 1 + 2 = p + 3" by simp_all
  with rd [of 0] rd [of 1] rd [of 2] rd [of 3]
  have rd: "read_at mem p = (if 0 < length (utf8_encode v @ rest) then Some (ucast ((utf8_encode v @ rest) ! 0)) else None)"
    "read_at mem (p + 1) = (if 1 < length (utf8_encode v @ rest) then Some (ucast ((utf8_encode v @ rest) ! 1)) else None)"
    "read_at mem (p + 1 + 1) = (if 2 < length (utf8_encode v @ rest) then Some (ucast ((utf8_encode v @ rest) ! 2)) else None)"
    "read_at mem (p + 1 + 2) = (if 3 < length (utf8_encode v @ rest) then Some (ucast ((utf8_encode v @ rest) ! 3)) else None)"
    by (simp_all only: add_0_right)
  have n: "\<not> (int (p + 1) - int pe = 1)" "\<not> (int (p + 1) - int pe = 2)" using assms(3) by auto
  have le: "v \<le> 0x10FFFF" using assms(1) by (simp add: scalar_def)
  consider (1) "v < 0x80" | (2) "0x80 \<le> v" "v < 0x800" | (3) "0x800 \<le> v" "v < 0x10000" | (4) "0x10000 \<le> v" by linarith
  then show ?thesis
  proof cases
    case 1
    then have e: "utf8_encode v = [of_nat v]" by (simp add: utf8_encode_def)
    have u: "(ucast (of_nat v :: byte) :: u32) = of_nat v" "(of_nat v :: u32) < 128"
      using 1 by (simp_all add: ucast_of_nat_byte word_less_nat_alt unat_of_nat)
    show ?thesis using rd by (simp add: uv__utf8_decode1_def e u)
  next
    case 2
    define x y where "x = v div 64" and "y = v mod 64"
    have b: "x < 32" "y < 64" and v: "num4 0 0 x y = v" using 2 by (auto simp: x_def y_def num4_def)
    have e: "utf8_encode v = [of_nat (192 + x), of_nat (128 + y)]"
      using 2 by (simp add: utf8_encode_def x_def y_def)
    have u: "(ucast (of_nat (192 + x) :: byte) :: u32) = of_nat (192 + x)"
      "(ucast (of_nat (128 + y) :: byte) :: u32) = of_nat (128 + y)"
      by (rule ucast_of_nat_byte; use b in linarith)+
    have w: "unat (of_nat (192 + x) :: u32) = 192 + x" using b by (simp only: unat_of_nat) simp
    have f: "utf8_finish 0x80 0 0x80 (of_nat (128 + x)) (of_nat (128 + y)) = of_nat v"
      using utf8_finish_value [of 0 0 x y 128] b 2 assms(1) by (simp add: v)
    show ?thesis
      using rd n b unfolding uv__utf8_decode1_def uv__utf8_decode1_slow_def e
      by (simp add: u w Let_def word_less_nat_alt lead_bytes cont_bytes f del: of_nat_add)
  next
    case 3
    define w x y where "w = v div 64 div 64" and "x = v div 64 mod 64" and "y = v mod 64"
    have b: "w < 16" "x < 64" "y < 64" using 3 by (auto simp: w_def x_def y_def)
    have "w * 64 + x = v div 64" "v div 64 * 64 + y = v" by (simp_all add: w_def x_def y_def)
    then have v: "num4 0 w x y = v" by (simp add: num4_def)
    have e: "utf8_encode v = [of_nat (224 + w), of_nat (128 + x), of_nat (128 + y)]"
      using 3 by (simp add: utf8_encode_def w_def x_def y_def)
    have u: "(ucast (of_nat (224 + w) :: byte) :: u32) = of_nat (224 + w)"
      "(ucast (of_nat (128 + x) :: byte) :: u32) = of_nat (128 + x)"
      "(ucast (of_nat (128 + y) :: byte) :: u32) = of_nat (128 + y)"
      by (rule ucast_of_nat_byte; use b in linarith)+
    have l: "unat (of_nat (224 + w) :: u32) = 224 + w" using b by (simp only: unat_of_nat) simp
    have f: "utf8_finish 0x800 0 (of_nat (128 + w)) (of_nat (128 + x)) (of_nat (128 + y)) = of_nat v"
      using utf8_finish_value [of 0 w x y 2048] b 3 assms(1) by (simp add: v)
    show ?thesis
      using rd n b unfolding uv__utf8_decode1_def uv__utf8_decode1_slow_def e
      by (simp add: u l Let_def word_less_nat_alt lead_bytes cont_bytes f del: of_nat_add)
  next
    case 4
    define z w x y where "z = v div 64 div 64 div 64" and "w = v div 64 div 64 mod 64" and "x = v div 64 mod 64" and "y = v mod 64"
    have b: "z < 5" "w < 64" "x < 64" "y < 64" using 4 le by (auto simp: z_def w_def x_def y_def)
    have "z * 64 + w = v div 64 div 64" "v div 64 div 64 * 64 + x = v div 64" "v div 64 * 64 + y = v"
      by (simp_all add: z_def w_def x_def y_def)
    then have v: "num4 z w x y = v" by (simp add: num4_def)
    have e: "utf8_encode v = [of_nat (240 + z), of_nat (128 + w), of_nat (128 + x), of_nat (128 + y)]"
      using 4 by (simp add: utf8_encode_def z_def w_def x_def y_def)
    have u: "(ucast (of_nat (240 + z) :: byte) :: u32) = of_nat (240 + z)"
      "(ucast (of_nat (128 + w) :: byte) :: u32) = of_nat (128 + w)"
      "(ucast (of_nat (128 + x) :: byte) :: u32) = of_nat (128 + x)"
      "(ucast (of_nat (128 + y) :: byte) :: u32) = of_nat (128 + y)"
      by (rule ucast_of_nat_byte; use b in linarith)+
    have l: "unat (of_nat (240 + z) :: u32) = 240 + z" using b by (simp only: unat_of_nat) simp
    have f: "utf8_finish 0x10000 (of_nat z) (of_nat (128 + w)) (of_nat (128 + x)) (of_nat (128 + y)) = of_nat v"
      using utf8_finish_value [of z w x y 65536] b 4 assms(1) by (simp add: v)
    show ?thesis
      using rd n b unfolding uv__utf8_decode1_def uv__utf8_decode1_slow_def e
      by (simp add: u l Let_def word_less_nat_alt lead_bytes f del: of_nat_add)
  qed
qed

text \<open>What the decoder returns is -1 or a scalar value, whatever the bytes.\<close>

lemma utf8_finish_scalar: "utf8_finish mn a b c d = - 1 \<or> scalar (unat (utf8_finish mn a b c d))"
  by (auto simp: utf8_finish_def Let_def scalar_def word_le_nat_alt word_less_nat_alt not_less)

lemma decode1_scalar:
  assumes "uv__utf8_decode1 mem p pe = Some (c, p')"
  shows "c = - 1 \<or> scalar (unat c)"
proof -
  have "c = - 1 \<or> unat c < 128 \<or> (\<exists>mn w x y z. c = utf8_finish mn w x y z)"
    using assms by (auto simp: uv__utf8_decode1_def uv__utf8_decode1_slow_def Let_def word_less_nat_alt
        split: if_splits bind_splits; blast)
  then show ?thesis
  proof (elim disjE exE)
    assume "unat c < 128"
    then show ?thesis by (simp add: scalar_def)
  qed (use utf8_finish_scalar in auto)
qed

section \<open>The code points of a label\<close>

text \<open>What \<open>foreach_codepoint\<close> visits when its body never leaves the loop.\<close>

function codepoints :: "bytes \<Rightarrow> nat \<Rightarrow> nat \<Rightarrow> u32 list option" where
  "codepoints mem pe p =
     (if p \<le> pe then
        (case uv__utf8_decode1 mem p pe of
           None \<Rightarrow> None
         | Some (c, p') \<Rightarrow> if p' \<le> pe then map_option ((#) c) (codepoints mem pe p') else Some [])
      else Some [])"
  by pat_completeness auto
termination
  by (relation "measure (\<lambda>(mem, pe, p). pe + 1 - p)") (auto dest!: decode1_advances)

declare codepoints.simps [simp del]

fun visit :: "(u32 \<Rightarrow> 's \<Rightarrow> bool \<times> 's) \<Rightarrow> u32 list \<Rightarrow> 's \<Rightarrow> 's" where
  "visit body [] st = st"
| "visit body (c # cs) st = (case body c st of (brk, st') \<Rightarrow> if brk then st' else visit body cs st')"

lemma foreach_visit: "codepoints mem pe p = Some cs \<Longrightarrow> foreach_codepoint mem pe body p st = Some (visit body cs st)"
proof (induction mem pe p arbitrary: cs st rule: codepoints.induct)
  case (1 mem pe p)
  show ?case
  proof (cases "p \<le> pe")
    case True
    obtain c p' where d: "uv__utf8_decode1 mem p pe = Some (c, p')"
      using 1(2) True by (subst (asm) codepoints.simps) (auto split: option.splits)
    show ?thesis
    proof (cases "p' \<le> pe")
      case le: True
      then obtain cs' where cs': "codepoints mem pe p' = Some cs'" "cs = c # cs'"
        using 1(2) True d by (subst (asm) codepoints.simps) auto
      then show ?thesis
        using 1(1) [OF True d refl le cs'(1)] True d le
        by (subst foreach_codepoint.simps) (auto split: prod.split)
    next
      case False
      then have "cs = []" using 1(2) True d by (subst (asm) codepoints.simps) simp
      then show ?thesis using True d False by (subst foreach_codepoint.simps) simp
    qed
  next
    case False
    then have "cs = []" using 1(2) by (subst (asm) codepoints.simps) simp
    then show ?thesis using False by (subst foreach_codepoint.simps) simp
  qed
qed

lemma length_codepoints: "codepoints mem pe p = Some cs \<Longrightarrow> length cs \<le> pe - p"
proof (induction mem pe p arbitrary: cs rule: codepoints.induct)
  case (1 mem pe p)
  then show ?case
    by (subst (asm) (2) codepoints.simps) (fastforce split: if_splits option.splits dest: decode1_advances)
qed

lemma codepoints_scalar: "codepoints mem pe p = Some cs \<Longrightarrow> c \<in> set cs \<Longrightarrow> c = - 1 \<or> scalar (unat c)"
proof (induction mem pe p arbitrary: cs rule: codepoints.induct)
  case (1 mem pe p)
  then show ?case
    by (subst (asm) (2) codepoints.simps) (auto split: if_splits option.splits; blast dest: decode1_scalar)
qed

text \<open>The encodings of scalar values, with any readable byte below 128 after them.\<close>

lemma codepoints_encoded:
  assumes "\<forall>v \<in> set vs. scalar v" "drop p mem = concat (map utf8_encode vs) @ b # rest" "b < 128"
  shows "codepoints mem (p + length (concat (map utf8_encode vs))) p = Some (map of_nat vs)"
  using assms(1,2)
proof (induction vs arbitrary: p)
  case Nil
  then have d: "drop p mem = b # rest" by simp
  then have "p < length mem" by (metis drop_eq_Nil list.distinct(1) not_le)
  then have "mem ! p = b" "p < length mem" using d by (simp_all add: Cons_nth_drop_Suc [symmetric])
  then have "unat (mem ! p) < 128" "p < length mem" using assms(3) by (simp_all add: word_less_nat_alt)
  then have "uv__utf8_decode1 mem p p = Some (ucast (mem ! p), p + 1)"
    by (simp add: uv__utf8_decode1_def read_at_def word_less_nat_alt)
  then show ?case by (subst codepoints.simps) simp
next
  case (Cons v vs)
  let ?l = "length (utf8_encode v)" and ?n = "length (concat (map utf8_encode vs))"
  have l: "0 < ?l" by (simp add: utf8_encode_def)
  define pe where "pe = p + (?l + ?n)"
  have pe: "p \<le> pe" "p + ?l \<le> pe" "p < pe" using l by (auto simp: pe_def)
  have d: "uv__utf8_decode1 mem p pe = Some (of_nat v, p + ?l)"
    using Cons.prems l pe by (intro decode1_encoded) auto
  have "drop (p + ?l) mem = drop ?l (drop p mem)" by (simp add: add.commute)
  also have "\<dots> = concat (map utf8_encode vs) @ b # rest" unfolding Cons.prems(2) by simp
  finally have "codepoints mem (p + ?l + ?n) (p + ?l) = Some (map of_nat vs)"
    using Cons by (intro Cons.IH) auto
  then have "codepoints mem pe (p + ?l) = Some (map of_nat vs)" by (simp only: pe_def add.assoc)
  then have "codepoints mem pe p = Some (of_nat v # map of_nat vs)"
    using pe d by (subst codepoints.simps) simp
  then show ?case by (simp add: pe_def)
qed

section \<open>Cutting the output\<close>

lemma put_take: "put cap c (take cap t) = take cap (t @ [c])"
  by (cases "length t < cap") (auto simp: put_def)

lemma length_put: "length out \<le> cap \<Longrightarrow> length (put cap c out) \<le> cap"
  by (simp add: put_def)

section \<open>The first two passes\<close>

lemma visit_count:
  "- 1 \<notin> set cs \<Longrightarrow> visit count_body cs (False, h, t) =
     (False, h + of_nat (length (filter (\<lambda>c. c < 128) cs)), t + of_nat (length (filter (\<lambda>c. c \<ge> 128) cs)))"
  by (induction cs arbitrary: h t) (auto simp: count_body_def not_less not_le)

lemma visit_count_bad: "- 1 \<in> set cs \<Longrightarrow> fst (visit count_body cs (b, h, t)) = True"
  by (induction cs arbitrary: b h t) (auto simp: count_body_def split: if_splits)

lemma visit_copy:
  "x + of_nat (length (filter (\<lambda>c. c < 128) cs)) = h \<Longrightarrow> unat x + length (filter (\<lambda>c. c < 128) cs) < 2 ^ 32 \<Longrightarrow>
     visit (copy_body cap h) cs (x, take cap out) =
     (h, take cap (out @ map ucast (filter (\<lambda>c. c < 128) cs)))"
proof (induction cs arbitrary: x out)
  case (Cons c cs)
  show ?case
  proof (cases "c < 128")
    case True
    let ?n = "length (filter (\<lambda>c. c < 128) cs)"
    have h: "x + 1 + of_nat ?n = h" using Cons.prems(1) True by (simp add: algebra_simps)
    have x: "unat (x + 1) = unat x + 1" using Cons.prems(2) True by (simp add: unat_word_ariths)
    have stop: "x + 1 = h \<longleftrightarrow> ?n = 0"
    proof
      assume "x + 1 = h"
      then have "(of_nat ?n :: u32) = 0" using h by simp
      then have "unat (of_nat ?n :: u32) = 0" by simp
      then show "?n = 0" using Cons.prems(2) True by (simp add: unat_of_nat)
    qed (use h in simp)
    have "\<not> c > 127" using True by (simp add: word_less_nat_alt)
    then show ?thesis
      using Cons.IH [OF h, of "out @ [ucast c]"] Cons.prems True x stop
      by (auto simp: copy_body_def put_take Let_def h filter_empty_conv)
  next
    case False
    then have "c > 127" by (simp add: word_less_nat_alt)
    then show ?thesis using Cons False by (simp add: copy_body_def)
  qed
qed simp

section \<open>The reference decoder (RFC 3492)\<close>

definition limit26 :: "nat \<Rightarrow> nat \<Rightarrow> nat" where
  "limit26 k b = min 26 (if k > b then k - b else 1)"

definition digit36 :: "byte \<Rightarrow> nat option" where
  "digit36 c =
     (if 97 \<le> unat c \<and> unat c \<le> 122 then Some (unat c - 97)
      else if 48 \<le> unat c \<and> unat c \<le> 57 then Some (unat c - 22) else None)"

text \<open>One generalized variable-length integer.\<close>

fun decode_int :: "nat \<Rightarrow> nat \<Rightarrow> nat \<Rightarrow> nat \<Rightarrow> bytes \<Rightarrow> (nat \<times> bytes) option" where
  "decode_int b k w acc [] = None"
| "decode_int b k w acc (c # cs) =
     (case digit36 c of
        None \<Rightarrow> None
      | Some d \<Rightarrow>
          if d < limit26 k b then Some (acc + d * w, cs)
          else decode_int b (k + 36) (w * (36 - limit26 k b)) (acc + d * w) cs)"

lemma decode_int_shortens: "decode_int b k w acc cs = Some (d, rest) \<Longrightarrow> length rest < length cs"
  by (induction b k w acc cs rule: decode_int.induct) (fastforce split: option.splits if_splits)+

function adapt_loop :: "nat \<Rightarrow> nat \<Rightarrow> nat" where
  "adapt_loop b d = (if d > 455 then adapt_loop (b + 36) (d div 35) else b + 36 * d div (d + 38))"
  by pat_completeness auto
termination by (relation "measure snd") auto

declare adapt_loop.simps [simp del]

definition adapt :: "nat \<Rightarrow> nat \<Rightarrow> bool \<Rightarrow> nat" where
  "adapt d n frst = (let d = d div (if frst then 700 else 2) in adapt_loop 0 (d + d div n))"

text \<open>Each integer says how far to move and where to insert the next code point.\<close>

function puny_decode :: "nat \<Rightarrow> nat \<Rightarrow> nat \<Rightarrow> bool \<Rightarrow> nat list \<Rightarrow> bytes \<Rightarrow> nat list option" where
  "puny_decode n i b frst out cs =
     (if cs = [] then Some out
      else
        (case decode_int b 36 1 0 cs of
           None \<Rightarrow> None
         | Some (d, rest) \<Rightarrow>
             let len = length out + 1; pos = (i + d) mod len; n' = n + (i + d) div len in
             puny_decode n' (pos + 1) (adapt d len frst) False (take pos out @ n' # drop pos out) rest))"
  by pat_completeness auto
termination
  by (relation "measure (\<lambda>(n, i, b, frst, out, cs). length cs)") (auto dest: decode_int_shortens)

declare puny_decode.simps [simp del]

section \<open>The integers the encoder writes\<close>

lemma limit26_bounds: "1 \<le> limit26 k b \<and> limit26 k b \<le> 26"
  by (auto simp: limit26_def)

lemma unat_threshold: "unat (threshold k b) = limit26 (unat k) (unat b)"
  by (auto simp: threshold_def limit26_def Let_def word_less_nat_alt unat_sub_if' min_def)

lemma alphabet_digit: "d < 36 \<Longrightarrow> digit36 (alphabet ! d) = Some d"
proof -
  have "list_all (\<lambda>d. digit36 (alphabet ! d) = Some d) [0..<36]" by code_simp
  then show "d < 36 \<Longrightarrow> ?thesis" by (simp add: list_all_iff)
qed

lemma vli_step: "0 < t \<Longrightarrow> t \<le> q \<Longrightarrow> (q - t) div (36 - t) < (q :: nat)"
  by (metis diff_less div_le_dividend le_less_trans le_trans less_le_trans)

function vli :: "nat \<Rightarrow> nat \<Rightarrow> nat \<Rightarrow> bytes" where
  "vli b k q =
     (let t = limit26 k b in
      if q < t then [alphabet ! q]
      else alphabet ! (t + (q - t) mod (36 - t)) # vli b (k + 36) ((q - t) div (36 - t)))"
  by pat_completeness auto
termination
  using limit26_bounds
  by (relation "measure (\<lambda>(b, k, q). q)") (auto simp: not_less Suc_le_eq intro!: vli_step)

declare vli.simps [simp del]

lemma decode_vli: "decode_int b k w acc (vli b k q @ rest) = Some (acc + q * w, rest)"
proof (induction b k q arbitrary: w acc rule: vli.induct)
  case (1 b k q)
  define t where "t = limit26 k b"
  have t: "1 \<le> t" "t \<le> 26" using limit26_bounds by (auto simp: t_def)
  show ?case
  proof (cases "q < t")
    case True
    then have "vli b k q = [alphabet ! q]" by (subst vli.simps) (simp add: t_def)
    then show ?thesis using True t alphabet_digit [of q] by (simp add: t_def)
  next
    case False
    define r q' where "r = (q - t) mod (36 - t)" and "q' = (q - t) div (36 - t)"
    have r: "r < 36 - t" using t by (simp add: r_def)
    have q: "q = t + r + (36 - t) * q'" using False by (simp add: r_def q'_def)
    have v: "vli b k q = alphabet ! (t + r) # vli b (k + 36) q'"
      using False by (subst vli.simps) (simp add: t_def r_def q'_def Let_def)
    have "decode_int b (k + 36) (w * (36 - t)) (acc + (t + r) * w) (vli b (k + 36) q' @ rest) =
        Some (acc + (t + r) * w + q' * (w * (36 - t)), rest)"
      using 1 [OF t_def] False by (simp add: q'_def)
    moreover have "acc + (t + r) * w + q' * (w * (36 - t)) = acc + q * w"
      by (subst q) (simp add: algebra_simps)
    ultimately show ?thesis
      using r t by (simp add: v alphabet_digit t_def [symmetric])
  qed
qed

lemma vli_not_Nil [simp]: "vli b k q \<noteq> []"
  by (subst vli.simps) (simp add: Let_def)

lemma digits_loop_vli:
  "unat q < 10 ^ r \<Longrightarrow> unat k + 36 * r < 2 ^ 32 \<Longrightarrow>
     digits_loop cap b k q (take cap out) = take cap (out @ vli (unat b) (unat k) (unat q))"
proof (induction r arbitrary: q k out)
  case 0
  then have "q = 0" by (simp add: unat_eq_0)
  moreover have "0 < threshold k b" using threshold_bounds [of k b] by (auto simp: word_less_nat_alt)
  ultimately show ?case
    using limit26_bounds [of "unat k" "unat b"]
    by (subst digits_loop.simps, subst vli.simps) (simp add: put_take Let_def)
next
  case (Suc r)
  define t where "t = threshold k b"
  have t: "unat t = limit26 (unat k) (unat b)" "1 \<le> unat t" "unat t \<le> 26"
    using threshold_bounds [of k b] by (auto simp: t_def unat_threshold)
  show ?case
  proof (cases "q < t")
    case True
    then show ?thesis
      using t(1) by (subst digits_loop.simps, subst vli.simps)
        (simp add: put_take Let_def t_def [symmetric] word_less_nat_alt)
  next
    case False
    then have le: "unat t \<le> unat q" by (simp add: word_less_nat_alt)
    have y: "unat (36 - t) = 36 - unat t" using t by (simp add: unat_sub_if')
    have x: "unat (q - t) = unat q - unat t" using le by (simp add: unat_sub_if')
    have d: "unat ((q - t) div (36 - t)) = (unat q - unat t) div (36 - unat t)"
      by (simp add: unat_div_distrib x y)
    have m: "unat ((q - t) mod (36 - t)) = (unat q - unat t) mod (36 - unat t)"
      by (simp add: unat_mod_distrib x y)
    have "(unat q - unat t) mod (36 - unat t) < 36 - unat t" using t by simp
    then have "unat t + (unat q - unat t) mod (36 - unat t) < 36" using t(3) by linarith
    then have "unat t + (unat q - unat t) mod (36 - unat t) < 2 ^ LENGTH(32)" by (rule less_trans) simp
    then have tm: "unat (t + (q - t) mod (36 - t)) = unat t + (unat q - unat t) mod (36 - unat t)"
      unfolding unat_word_ariths(1) m by (rule mod_less)
    have k: "unat (k + 36) = unat k + 36" using Suc.prems by (simp add: unat_word_ariths)
    have "(unat q - unat t) div (36 - unat t) \<le> (unat q - unat t) div 10"
      using t(3) by (intro div_le_mono2) simp_all
    also have "\<dots> \<le> unat q div 10" by (intro div_le_mono) simp
    also have "\<dots> < 10 ^ r" using Suc.prems(1) by (simp add: div_less_iff_less_mult mult.commute)
    finally have "unat ((q - t) div (36 - t)) < 10 ^ r" by (simp only: d)
    then have "digits_loop cap b (k + 36) ((q - t) div (36 - t)) (take cap (out @ [alphabet ! unat (t + (q - t) mod (36 - t))])) =
        take cap ((out @ [alphabet ! unat (t + (q - t) mod (36 - t))]) @
          vli (unat b) (unat (k + 36)) (unat ((q - t) div (36 - t))))"
      using Suc.prems(2) k by (intro Suc.IH) auto
    then show ?thesis
      using False t(1) le
      by (subst digits_loop.simps, subst vli.simps) (simp add: put_take Let_def t_def [symmetric] d tm k)
  qed
qed

lemma digits_loop_text:
  "digits_loop cap b 36 q (take cap out) = take cap (out @ vli (unat b) 36 (unat q))"
proof -
  have "unat q < 10 ^ 10" using unat_u32_less [of q] by simp
  then show ?thesis using digits_loop_vli [of q 10 36 cap b out] by simp
qed

lemma bias_loop_adapt:
  "unat d < 35 ^ r \<Longrightarrow> unat b + 36 * r + 36 < 2 ^ 32 \<Longrightarrow> bias_loop b d = (b', d') \<Longrightarrow>
     unat (b' + 36 * d' div (d' + 38)) = adapt_loop (unat b) (unat d)"
proof (induction r arbitrary: b d)
  case 0
  then have "d = 0" by (simp add: unat_eq_0)
  with 0 show ?case by (subst adapt_loop.simps) (simp add: bias_loop.simps [of b])
next
  case (Suc r)
  show ?case
  proof (cases "d > 455")
    case True
    then have "unat d > 455" by (simp add: word_less_nat_alt)
    moreover have "unat (d div 35) = unat d div 35" by (simp add: unat_div_distrib)
    moreover have "unat (b + 36) = unat b + 36" using Suc.prems(2) by (simp add: unat_word_ariths)
    moreover have "bias_loop (b + 36) (d div 35) = (b', d')"
      using Suc.prems(3) True by (subst (asm) bias_loop.simps) simp
    moreover have "unat d div 35 < 35 ^ r" using Suc.prems(1) by (simp add: div_less_iff_less_mult mult.commute)
    ultimately show ?thesis
      using Suc.IH [of "d div 35" "b + 36"] Suc.prems(2) by (subst adapt_loop.simps) simp
  next
    case False
    then have u: "unat d \<le> 455" by (simp add: word_less_nat_alt)
    have "b' = b" "d' = d" using Suc.prems(3) False by (subst (asm) bias_loop.simps; simp)+
    moreover have m: "unat (36 * d) = 36 * unat d" "unat (d + 38) = unat d + 38"
      using u by (simp_all add: unat_word_ariths)
    moreover have q: "unat (36 * d div (d + 38)) = 36 * unat d div (unat d + 38)"
      by (simp add: unat_div_distrib m)
    moreover have "36 * unat d div (unat d + 38) \<le> 36" by (intro less_Suc_eq_le [THEN iffD1] div_less_iff_less_mult [THEN iffD2]) auto
    then have "unat (b + 36 * d div (d + 38)) = unat b + 36 * unat d div (unat d + 38)"
      using Suc.prems(2) by (simp only: unat_word_ariths(1) q) simp
    moreover have "adapt_loop (unat b) (unat d) = unat b + 36 * unat d div (unat d + 38)"
      using u by (subst adapt_loop.simps) simp
    ultimately show ?thesis by simp
  qed
qed

section \<open>The encoder keeps the decoder in step\<close>

text \<open>
  The code points the decoder has when the encoder is at position \<open>p\<close> of its round for \<open>m\<close>: those
  below \<open>m\<close>, and those equal to \<open>m\<close> that stand before \<open>p\<close>.
\<close>

definition seen :: "nat list \<Rightarrow> nat \<Rightarrow> nat \<Rightarrow> nat list" where
  "seen ns m p = filter (\<lambda>c. c \<le> m) (take p ns) @ filter (\<lambda>c. c < m) (drop p ns)"

lemma seen_0: "seen ns m 0 = filter (\<lambda>c. c < m) ns"
  by (simp add: seen_def)

lemma seen_all: "seen ns m (length ns) = filter (\<lambda>c. c < Suc m) ns"
  by (simp add: seen_def less_Suc_eq_le)

lemma seen_skip: "p < length ns \<Longrightarrow> ns ! p \<noteq> m \<Longrightarrow> seen ns m (Suc p) = seen ns m p"
  by (auto simp: seen_def take_Suc_conv_app_nth Cons_nth_drop_Suc [symmetric])

lemma seen_insert:
  assumes "p < length ns" "ns ! p = m"
  defines "j \<equiv> length (filter (\<lambda>c. c \<le> m) (take p ns))"
  shows "seen ns m (Suc p) = take j (seen ns m p) @ m # drop j (seen ns m p)"
  using assms(1,2) by (simp add: seen_def j_def take_Suc_conv_app_nth Cons_nth_drop_Suc [symmetric])

lemma length_seen: "length (seen ns m p) \<le> length ns"
proof -
  have "length (seen ns m p) \<le> length (take p ns) + length (drop p ns)"
    unfolding seen_def length_append by (intro add_mono length_filter_le)
  then show ?thesis by simp
qed

lemma length_seen_less: "p < length ns \<Longrightarrow> ns ! p = m \<Longrightarrow> length (seen ns m p) < length ns"
  using seen_insert [of p ns m] length_seen [of ns m "Suc p"] by simp

lemma puny_decode_vli:
  "puny_decode n i b frst out (vli b 36 d @ rest) =
     (let len = length out + 1; pos = (i + d) mod len; n' = n + (i + d) div len in
      puny_decode n' (pos + 1) (adapt d len frst) False (take pos out @ n' # drop pos out) rest)"
  by (subst puny_decode.simps) (simp add: decode_vli)

definition decoded :: "nat list \<Rightarrow> nat \<Rightarrow> bytes \<Rightarrow> puny_state \<Rightarrow> nat list \<Rightarrow> nat \<Rightarrow> nat \<Rightarrow> bool" where
  "decoded ns cap out0 st out n i \<longleftrightarrow>
     (\<exists>e. dst_p st = take cap (out0 @ e) \<and> (\<forall>c \<in> set e. c \<in> set alphabet) \<and>
        (\<forall>rest. puny_decode 128 0 72 True (filter (\<lambda>c. c < 128) ns) (e @ rest) =
           puny_decode n i (unat (bias_p st)) (first_p st) out rest))"

definition puny_inv :: "nat list \<Rightarrow> nat \<Rightarrow> bytes \<Rightarrow> nat \<Rightarrow> nat \<Rightarrow> puny_state \<Rightarrow> bool" where
  "puny_inv ns cap out0 m p st \<longleftrightarrow> \<not> err_p st \<and>
     (\<exists>n i. decoded ns cap out0 st (seen ns m p) n i \<and> n \<le> m \<and>
        unat (h_p st) = length (seen ns m p) \<and>
        unat (todo_p st) = length ns - length (seen ns m p) \<and>
        unat (delta_p st) + i = (m - n) * (length (seen ns m p) + 1) + length (filter (\<lambda>c. c \<le> m) (take p ns))) \<and>
     (m \<in> set (take p ns) \<longrightarrow> unat (delta_p st) \<le> p)"

lemma puny_invI:
  assumes "\<not> err_p st" "decoded ns cap out0 st (seen ns m p) n i" "n \<le> m"
    "unat (h_p st) = length (seen ns m p)" "unat (todo_p st) = length ns - length (seen ns m p)"
    "unat (delta_p st) + i = (m - n) * (length (seen ns m p) + 1) + length (filter (\<lambda>c. c \<le> m) (take p ns))"
    "m \<in> set (take p ns) \<Longrightarrow> unat (delta_p st) \<le> p"
  shows "puny_inv ns cap out0 m p st"
  using assms unfolding puny_inv_def by blast

text \<open>Labels short enough that no counter can overflow.\<close>

definition small_label :: "nat list \<Rightarrow> bool" where
  "small_label ns \<longleftrightarrow> length ns \<le> 3800 \<and> (\<forall>c \<in> set ns. scalar c)"

lemma vli_chars: "c \<in> set (vli b k q) \<Longrightarrow> c \<in> set alphabet"
proof (induction b k q rule: vli.induct)
  case (1 b k q)
  have l: "length alphabet = 36" by (simp add: alphabet_def)
  have "limit26 k b + (q - limit26 k b) mod (36 - limit26 k b) < 36"
    using limit26_bounds [of k b] mod_less_divisor [of "36 - limit26 k b" "q - limit26 k b"] by linarith
  then show ?case
    using 1 limit26_bounds [of k b] l
    by (subst (asm) vli.simps) (auto simp: Let_def split: if_splits)
qed

lemma adapt_word:
  assumes "unat hh = n" "0 < n" "bias_loop 0 (dl + dl div hh) = (b', d')"
    "dl = (if frst then d div 2 div 350 else d div 2)"
  shows "unat (b' + 36 * d' div (d' + 38)) = adapt (unat d) n frst"
proof -
  have dl: "unat dl = unat d div (if frst then 700 else 2)"
    using assms(4) by (simp add: unat_div_distrib div_mult2_eq [symmetric])
  have "unat dl < 2 ^ 31" using unat_u32_less [of d] by (auto simp: dl less_mult_imp_div_less)
  moreover have "unat dl div n \<le> unat dl" by (rule div_le_dividend)
  ultimately have "unat dl + unat dl div n < 2 ^ 31 + 2 ^ 31" by linarith
  then have "unat dl + unat dl div n < 2 ^ LENGTH(32)" by simp
  moreover have "unat (dl div hh) = unat dl div n" by (simp add: unat_div_distrib assms(1))
  ultimately have s: "unat (dl + dl div hh) = unat dl + unat dl div n"
    by (simp only: unat_word_ariths(1) mod_less)
  have "unat (dl + dl div hh) < 35 ^ 7" using unat_u32_less [of "dl + dl div hh"] by simp
  then have "unat (b' + 36 * d' div (d' + 38)) = adapt_loop (unat (0 :: u32)) (unat (dl + dl div hh))"
    by (rule bias_loop_adapt) (use assms(3) in auto)
  then show ?thesis by (simp add: adapt_def s dl Let_def)
qed

lemma puny_inv_step:
  assumes "puny_inv ns cap out0 (unat m) p st" "ns = map unat cs" "small_label ns" "p < length cs" "scalar (unat m)"
  shows "\<exists>st'. puny_body cap m (cs ! p) st = (False, st') \<and> puny_inv ns cap out0 (unat m) (Suc p) st'"
proof -
  let ?m = "unat m" and ?s = "seen ns (unat m) p" and ?j = "length (filter (\<lambda>c. c \<le> unat m) (take p ns))"
  obtain n i where d: "decoded ns cap out0 st ?s n i" and n: "n \<le> ?m" and h: "unat (h_p st) = length ?s"
    and td: "unat (todo_p st) = length ns - length ?s"
    and dl: "unat (delta_p st) + i = (?m - n) * (length ?s + 1) + ?j"
    and ne: "\<not> err_p st" and late: "?m \<in> set (take p ns) \<longrightarrow> unat (delta_p st) \<le> p"
    using assms(1) by (auto simp: puny_inv_def)
  have l: "length ns = length cs" "p < length ns" "length ns \<le> 3800" and c: "ns ! p = unat (cs ! p)"
    using assms(2-4) by (auto simp: small_label_def)
  have m: "?m \<le> 0x10FFFF" using assms(5) by (simp add: scalar_def)
  have "?j \<le> p" using length_filter_le [of _ "take p ns"] by (rule order_trans) simp
  moreover have "(?m - n) * (length ?s + 1) \<le> 0x10FFFF * 3801"
    using length_seen [of ns ?m p] l m by (intro mult_mono) auto
  ultimately have "unat (delta_p st) + i \<le> 0x10FFFF * 3801 + 3800" unfolding dl using l by linarith
  then have small: "unat (delta_p st) < 2 ^ 32 - 1" by simp
  have tk: "take (Suc p) ns = take p ns @ [ns ! p]" using l by (simp add: take_Suc_conv_app_nth)
  consider (gt) "?m < ns ! p" | (lt) "ns ! p < ?m" | (eq) "ns ! p = ?m" by linarith
  then show ?thesis
  proof cases
    case gt
    then have "\<not> cs ! p < m" "cs ! p \<noteq> m" using c by (auto simp: word_less_nat_alt)
    then have "puny_body cap m (cs ! p) st = (False, st)" by (simp add: puny_body_def)
    moreover have "puny_inv ns cap out0 ?m (Suc p) st"
    proof (rule puny_invI [where n = n and i = i])
      show "unat (delta_p st) + i = (?m - n) * (length (seen ns ?m (Suc p)) + 1) +
          length (filter (\<lambda>c. c \<le> ?m) (take (Suc p) ns))"
        using dl gt l by (simp add: seen_skip tk del: mult_Suc_right)
    qed (use d n h td ne late gt l in \<open>auto simp: seen_skip tk\<close>)
    ultimately show ?thesis by blast
  next
    case lt
    let ?st = "st\<lparr>delta_p := delta_p st + 1\<rparr>"
    have u: "unat (delta_p st + 1) = unat (delta_p st) + 1" using small by (simp add: unat_word_ariths)
    then have "delta_p st + 1 \<noteq> 0" by (metis Suc_eq_plus1 nat.distinct(1) unat_0)
    moreover have "cs ! p < m" "cs ! p \<noteq> m" using c lt by (auto simp: word_less_nat_alt)
    ultimately have "puny_body cap m (cs ! p) st = (False, ?st)" by (simp add: puny_body_def)
    moreover have "puny_inv ns cap out0 ?m (Suc p) ?st"
    proof (rule puny_invI [where n = n and i = i])
      show "unat (delta_p ?st) + i = (?m - n) * (length (seen ns ?m (Suc p)) + 1) +
          length (filter (\<lambda>c. c \<le> ?m) (take (Suc p) ns))"
        using dl lt l by (simp add: seen_skip tk u del: mult_Suc_right)
      show "decoded ns cap out0 ?st (seen ns ?m (Suc p)) n i"
        using d lt l by (simp add: decoded_def seen_skip)
    qed (use n h td ne late lt l u in \<open>auto simp: seen_skip tk\<close>)
    ultimately show ?thesis by blast
  next
    case eq
    then have cm: "cs ! p = m" using c by (simp add: word_unat_eq_iff)
    define dd where "dd = (if first_p st then delta_p st div 2 div 350 else delta_p st div 2)"
    define hh where "hh = h_p st + 1"
    obtain b' d' where bl: "bias_loop 0 (dd + dd div hh) = (b', d')" by fastforce
    define st' where "st' = st\<lparr>dst_p := digits_loop cap (bias_p st) 36 (delta_p st) (dst_p st), first_p := False,
        h_p := hh, bias_p := b' + 36 * d' div (d' + 38), delta_p := 0, todo_p := todo_p st - 1\<rparr>"
    have body: "puny_body cap m (cs ! p) st = (False, st')"
      using bl unfolding puny_body_def cm st'_def by (simp add: dd_def hh_def Let_def)
    have sl: "length ?s < length ns" by (rule length_seen_less [OF l(2) eq])
    have hu: "unat hh = length ?s + 1" using h sl l by (simp add: hh_def unat_word_ariths)
    have bias: "unat (b' + 36 * d' div (d' + 38)) = adapt (unat (delta_p st)) (length ?s + 1) (first_p st)"
      by (rule adapt_word [OF hu _ bl]) (simp_all add: dd_def)
    have jl: "?j \<le> length ?s" by (simp add: seen_def)
    have ins: "seen ns ?m (Suc p) = take ?j ?s @ ?m # drop ?j ?s" by (rule seen_insert [OF l(2) eq])
    have pos: "(i + unat (delta_p st)) mod (length ?s + 1) = ?j" "n + (i + unat (delta_p st)) div (length ?s + 1) = ?m"
    proof -
      have e: "i + unat (delta_p st) = ?j + (?m - n) * (length ?s + 1)" using dl by simp
      show "(i + unat (delta_p st)) mod (length ?s + 1) = ?j"
        unfolding e mod_mult_self1 using jl by simp
      have "(i + unat (delta_p st)) div (length ?s + 1) = ?m - n"
        unfolding e using jl by (subst div_mult_self1) auto
      then show "n + (i + unat (delta_p st)) div (length ?s + 1) = ?m" using n by simp
    qed
    obtain e where e: "dst_p st = take cap (out0 @ e)" "\<forall>c \<in> set e. c \<in> set alphabet"
      "\<And>rest. puny_decode 128 0 72 True (filter (\<lambda>c. c < 128) ns) (e @ rest) =
           puny_decode n i (unat (bias_p st)) (first_p st) ?s rest"
      using d by (auto simp: decoded_def)
    have "decoded ns cap out0 st' (seen ns ?m (Suc p)) ?m (?j + 1)"
      unfolding decoded_def
    proof (intro exI [of _ "e @ vli (unat (bias_p st)) 36 (unat (delta_p st))"] conjI allI)
      show "dst_p st' = take cap (out0 @ e @ vli (unat (bias_p st)) 36 (unat (delta_p st)))"
        using digits_loop_text [of cap "bias_p st" "delta_p st" "out0 @ e"] by (simp add: st'_def e(1))
      show "\<forall>c \<in> set (e @ vli (unat (bias_p st)) 36 (unat (delta_p st))). c \<in> set alphabet"
        using e(2) vli_chars by auto
      fix rest
      show "puny_decode 128 0 72 True (filter (\<lambda>c. c < 128) ns) ((e @ vli (unat (bias_p st)) 36 (unat (delta_p st))) @ rest) =
          puny_decode ?m (?j + 1) (unat (bias_p st')) (first_p st') (seen ns ?m (Suc p)) rest"
        unfolding append_assoc e(3) puny_decode_vli Let_def pos ins by (simp add: st'_def bias)
    qed
    moreover have "unat (h_p st') = length (seen ns ?m (Suc p))" using hu jl by (simp add: st'_def ins)
    moreover have "unat (todo_p st') = length ns - length (seen ns ?m (Suc p))"
    proof -
      have "unat (todo_p st - 1) = unat (todo_p st) - 1" using td sl by (simp add: unat_sub_if')
      then show ?thesis using td jl by (simp add: st'_def ins)
    qed
    moreover have "length (filter (\<lambda>c. c \<le> ?m) (take (Suc p) ns)) = ?j + 1" by (simp add: tk eq)
    moreover have "delta_p st' = 0" "\<not> err_p st'" using ne by (simp_all add: st'_def)
    ultimately have "puny_inv ns cap out0 ?m (Suc p) st'"
      by (intro puny_invI [where n = ?m and i = "?j + 1"]) auto
    with body show ?thesis by blast
  qed
qed

lemma puny_inv_visit:
  assumes "ns = map unat cs" "small_label ns" "scalar (unat m)"
  shows "p \<le> length cs \<Longrightarrow> puny_inv ns cap out0 (unat m) p st \<Longrightarrow>
    puny_inv ns cap out0 (unat m) (length ns) (visit (puny_body cap m) (drop p cs) st)"
proof (induction "length cs - p" arbitrary: p st)
  case 0
  then show ?case using assms(1) by simp
next
  case (Suc k)
  then have p: "p < length cs" "drop p cs = cs ! p # drop (Suc p) cs" by (simp_all add: Cons_nth_drop_Suc)
  obtain st' where "puny_body cap m (cs ! p) st = (False, st')" "puny_inv ns cap out0 (unat m) (Suc p) st'"
    using puny_inv_step [OF Suc.prems(2) assms(1,2) p(1) assms(3)] by blast
  then show ?case using Suc.hyps(1) [of "Suc p" st'] Suc.hyps(2) p by simp
qed

section \<open>The rounds\<close>

lemma visit_min:
  "visit (min_body n) cs acc \<le> acc \<and> (\<forall>c \<in> set cs. n \<le> c \<longrightarrow> visit (min_body n) cs acc \<le> c) \<and>
   (visit (min_body n) cs acc = acc \<or> visit (min_body n) cs acc \<in> set cs \<and> n \<le> visit (min_body n) cs acc)"
proof (induction cs arbitrary: acc)
  case (Cons c cs)
  define acc' where "acc' = (if c \<ge> n \<and> c < acc then c else acc)"
  have e: "visit (min_body n) (c # cs) acc = visit (min_body n) cs acc'"
    by (simp add: min_body_def acc'_def)
  have a: "acc' \<le> acc" "n \<le> c \<Longrightarrow> acc' \<le> c" "acc' = acc \<or> acc' = c \<and> n \<le> acc'"
    by (auto simp: acc'_def)
  show ?case unfolding e using Cons.IH [of acc'] a by (auto intro: order_trans)
qed simp

definition loop_inv :: "nat list \<Rightarrow> nat \<Rightarrow> bytes \<Rightarrow> nat \<Rightarrow> puny_state \<Rightarrow> bool" where
  "loop_inv ns cap out0 nc st \<longleftrightarrow> \<not> err_p st \<and>
     (\<exists>n i. decoded ns cap out0 st (filter (\<lambda>c. c < nc) ns) n i \<and> n \<le> nc \<and>
        unat (h_p st) = length (filter (\<lambda>c. c < nc) ns) \<and>
        unat (todo_p st) = length ns - length (filter (\<lambda>c. c < nc) ns) \<and>
        unat (delta_p st) + i = (nc - n) * (length (filter (\<lambda>c. c < nc) ns) + 1))"

lemma puny_round:
  assumes inv: "loop_inv ns cap out0 (unat nc) st" and ns: "ns = map unat cs" and small: "small_label ns"
    and cp: "codepoints mem se ss = Some cs" and todo: "todo_p st \<noteq> 0"
  shows "\<exists>nc' st'. loop_inv ns cap out0 (unat nc') st' \<and> unat (todo_p st') < unat (todo_p st) \<and>
    puny_loop (Suc fuel) mem ss se cap nc st = puny_loop fuel mem ss se cap nc' st'"
proof -
  let ?F = "\<lambda>k. filter (\<lambda>c. c < k) ns"
  obtain n i where d: "decoded ns cap out0 st (?F (unat nc)) n i" and n: "n \<le> unat nc"
    and h: "unat (h_p st) = length (?F (unat nc))" and td: "unat (todo_p st) = length ns - length (?F (unat nc))"
    and dl: "unat (delta_p st) + i = (unat nc - n) * (length (?F (unat nc)) + 1)" and ne: "\<not> err_p st"
    using inv by (auto simp: loop_inv_def)
  define m where "m = visit (min_body nc) cs (- 1)"
  have sc: "scalar (unat c)" if "c \<in> set cs" for c using small that by (auto simp: small_label_def ns)
  have len: "length ns \<le> 3800" using small by (simp add: small_label_def)
  have "unat (todo_p st) \<noteq> 0" using todo by (simp add: unat_eq_0)
  then have "?F (unat nc) \<noteq> ns" using td by auto
  then obtain c where c: "c \<in> set cs" "nc \<le> c"
    by (auto simp: ns filter_id_conv word_le_nat_alt not_less)
  have "unat c \<le> 0x10FFFF" using sc [OF c(1)] by (simp add: scalar_def)
  moreover have "unat (- 1 :: u32) = 0xFFFFFFFF"
    by (simp add: unsigned_minus_1_eq_mask mask_eq_exp_minus_1)
  ultimately have "c < - 1" by (simp only: word_less_nat_alt)
  then have m: "m \<in> set cs" "nc \<le> m" "\<And>c. c \<in> set cs \<Longrightarrow> nc \<le> c \<Longrightarrow> m \<le> c"
    using visit_min [of nc cs "- 1"] c unfolding m_def [symmetric] by (auto simp: not_less)
  have ms: "scalar (unat m)" and mle: "unat m \<le> 0x10FFFF" "unat nc \<le> unat m"
    using sc [OF m(1)] m(2) by (auto simp: scalar_def word_le_nat_alt)
  have "c < unat nc \<longleftrightarrow> c < unat m" if "c \<in> set ns" for c
    using m(3) that mle(2) by (fastforce simp: ns word_le_nat_alt not_le)
  then have F: "?F (unat m) = ?F (unat nc)" by (intro filter_cong) auto
  let ?l = "length (?F (unat nc))"
  have "?l \<le> length ns" by (rule length_filter_le)
  then have l: "?l \<le> 3800" using len by (rule order_trans)
  have prod: "(unat m - unat nc) * (?l + 1) \<le> 0x10FFFF * 3801"
    using l len mle by (intro mult_mono) auto
  have step: "(unat nc - n) * (?l + 1) + (unat m - unat nc) * (?l + 1) = (unat m - n) * (?l + 1)"
    using n mle(2) by (simp only: add_mult_distrib [symmetric]) simp
  have "(unat m - n) * (?l + 1) \<le> 0x10FFFF * 3801" using l len mle by (intro mult_mono) auto
  then have bound: "unat (delta_p st) + (unat m - unat nc) * (?l + 1) \<le> 0x10FFFF * 3801"
    using dl step by linarith
  have x: "unat (m - nc) = unat m - unat nc" using mle(2) by (simp add: unat_sub_if')
  have y: "unat (h_p st + 1) = ?l + 1" using h l len by (simp add: unat_word_ariths)
  have xy: "unat ((m - nc) * (h_p st + 1)) = (unat m - unat nc) * (?l + 1)"
    unfolding unat_word_ariths(2) x y by (rule mod_less, rule le_less_trans [OF prod]) simp
  have s: "unat (delta_p st + (m - nc) * (h_p st + 1)) = unat (delta_p st) + (unat m - unat nc) * (?l + 1)"
    unfolding unat_word_ariths(1) xy by (rule mod_less, rule le_less_trans [OF bound]) simp
  have no: "\<not> m - nc > NOT (delta_p st) div (h_p st + 1)"
  proof -
    have "unat (NOT (delta_p st)) = 2 ^ 32 - 1 - unat (delta_p st)"
    proof -
      have "NOT (delta_p st) = - 1 - delta_p st" by (simp add: not_eq_complement)
      also have "unat \<dots> = unat (- 1 :: u32) - unat (delta_p st)" by (rule unat_sub) simp
      finally show ?thesis by (simp add: unsigned_minus_1_eq_mask mask_eq_exp_minus_1)
    qed
    then have "(unat m - unat nc) * (?l + 1) \<le> unat (NOT (delta_p st))" using bound by simp
    then have "unat m - unat nc \<le> unat (NOT (delta_p st)) div (?l + 1)"
      by (simp add: less_eq_div_iff_mult_less_eq)
    then show ?thesis by (simp add: word_less_nat_alt unat_div_distrib x y not_less)
  qed
  let ?st = "st\<lparr>delta_p := delta_p st + (m - nc) * (h_p st + 1)\<rparr>"
  have "puny_inv ns cap out0 (unat m) 0 ?st"
  proof (rule puny_invI [where n = n and i = i])
    show "unat (delta_p ?st) + i = (unat m - n) * (length (seen ns (unat m) 0) + 1) +
        length (filter (\<lambda>c. c \<le> unat m) (take 0 ns))"
      using s dl step by (simp add: seen_0 F del: mult_Suc_right)
    show "decoded ns cap out0 ?st (seen ns (unat m) 0) n i" using d by (simp add: decoded_def seen_0 F)
  qed (use n mle(2) h td ne in \<open>auto simp: seen_0 F\<close>)
  then have inv': "puny_inv ns cap out0 (unat m) (length ns) (visit (puny_body cap m) cs ?st)"
    using puny_inv_visit [OF ns small ms, of 0 cap out0 ?st] by simp
  define st1 where "st1 = visit (puny_body cap m) cs ?st"
  obtain n' i' where d': "decoded ns cap out0 st1 (?F (Suc (unat m))) n' i'" and n': "n' \<le> unat m"
    and h': "unat (h_p st1) = length (?F (Suc (unat m)))"
    and td': "unat (todo_p st1) = length ns - length (?F (Suc (unat m)))"
    and dl': "unat (delta_p st1) + i' = (unat m - n') * (length (?F (Suc (unat m))) + 1) +
        length (filter (\<lambda>c. c \<le> unat m) ns)" and ne': "\<not> err_p st1"
    and late: "unat m \<in> set ns \<longrightarrow> unat (delta_p st1) \<le> length ns"
    using inv' unfolding st1_def [symmetric] puny_inv_def by (auto simp: seen_all)
  have mn: "unat m \<in> set ns" using m(1) by (simp add: ns)
  have d1: "unat (delta_p st1 + 1) = unat (delta_p st1) + 1"
    using late mn len by (simp add: unat_word_ariths)
  have m1: "unat (m + 1) = Suc (unat m)" using mle(1) by (simp add: unat_word_ariths)
  have "loop_inv ns cap out0 (unat (m + 1)) (st1\<lparr>delta_p := delta_p st1 + 1\<rparr>)"
    unfolding loop_inv_def m1
  proof (intro conjI exI)
    show "decoded ns cap out0 (st1\<lparr>delta_p := delta_p st1 + 1\<rparr>) (?F (Suc (unat m))) n' i'"
      using d' by (simp add: decoded_def)
    show "unat (delta_p (st1\<lparr>delta_p := delta_p st1 + 1\<rparr>)) + i' =
        (Suc (unat m) - n') * (length (?F (Suc (unat m))) + 1)"
    proof -
      have "Suc (unat m) - n' = (unat m - n') + 1" using n' by simp
      then show ?thesis using dl' d1 by (simp add: less_Suc_eq_le add_mult_distrib)
    qed
  qed (use h' td' ne' n' in auto)
  moreover have "unat (todo_p (st1\<lparr>delta_p := delta_p st1 + 1\<rparr>)) < unat (todo_p st)"
  proof -
    obtain us vs where "ns = us @ unat m # vs" using mn by (meson split_list)
    then have "length (?F (unat m)) < length (?F (Suc (unat m)))"
    proof -
      have "length (filter (\<lambda>c. c < k) us) \<le> length (filter (\<lambda>c. c < Suc k) us)" for k and us :: "nat list"
        by (induction us) auto
      then show ?thesis using \<open>ns = us @ unat m # vs\<close>
        by (simp add: add_mono le_imp_less_Suc)
    qed
    moreover have "length (?F (Suc (unat m))) \<le> length ns" by (rule length_filter_le)
    ultimately have "length ns - length (?F (Suc (unat m))) < length ns - length (?F (unat m))"
      by linarith
    then show ?thesis using td td' F by simp
  qed
  moreover have "puny_loop (Suc fuel) mem ss se cap nc st =
      puny_loop fuel mem ss se cap (m + 1) (st1\<lparr>delta_p := delta_p st1 + 1\<rparr>)"
    using todo no ne'
    by (subst puny_loop.simps) (simp add: foreach_visit [OF cp] st1_def m_def Let_def)
  ultimately show ?thesis by blast
qed

lemma puny_done:
  assumes "loop_inv ns cap out0 (unat nc) st" "todo_p st = 0"
  shows "\<exists>e. puny_loop fuel mem ss se cap nc st = Some (0, take cap (out0 @ e)) \<and>
      (\<forall>c \<in> set e. c \<in> set alphabet) \<and> puny_decode 128 0 72 True (filter (\<lambda>c. c < 128) ns) e = Some ns"
proof -
  let ?F = "filter (\<lambda>c. c < unat nc) ns"
  obtain n i where d: "decoded ns cap out0 st ?F n i" and "unat (todo_p st) = length ns - length ?F"
    using assms(1) by (auto simp: loop_inv_def)
  then have "length ns \<le> length ?F" using assms(2) by simp
  then have F: "?F = ns" by (metis filter_id_conv le_antisym length_filter_le length_filter_less not_less_iff_gr_or_eq)
  obtain e where e: "dst_p st = take cap (out0 @ e)" "\<forall>c \<in> set e. c \<in> set alphabet"
    "\<And>rest. puny_decode 128 0 72 True (filter (\<lambda>c. c < 128) ns) (e @ rest) =
      puny_decode n i (unat (bias_p st)) (first_p st) ns rest"
    using d unfolding F by (auto simp: decoded_def)
  have "puny_decode 128 0 72 True (filter (\<lambda>c. c < 128) ns) e = Some ns"
    using e(3) [of "[]"] by (simp add: puny_decode.simps [of n])
  moreover have "puny_loop fuel mem ss se cap nc st = Some (0, dst_p st)"
    using assms(2) by (subst puny_loop.simps) simp
  ultimately show ?thesis using e(1,2) by auto
qed

lemma puny_loop_correct:
  assumes "ns = map unat cs" "small_label ns" "codepoints mem se ss = Some cs"
  shows "loop_inv ns cap out0 (unat nc) st \<Longrightarrow> unat (todo_p st) \<le> fuel \<Longrightarrow>
    \<exists>e. puny_loop fuel mem ss se cap nc st = Some (0, take cap (out0 @ e)) \<and>
      (\<forall>c \<in> set e. c \<in> set alphabet) \<and> puny_decode 128 0 72 True (filter (\<lambda>c. c < 128) ns) e = Some ns"
proof (induction fuel arbitrary: nc st)
  case (Suc fuel)
  show ?case
  proof (cases "todo_p st = 0")
    case True
    then show ?thesis using puny_done Suc.prems by blast
  next
    case False
    then obtain nc' st' where "loop_inv ns cap out0 (unat nc') st'" "unat (todo_p st') < unat (todo_p st)"
      "puny_loop (Suc fuel) mem ss se cap nc st = puny_loop fuel mem ss se cap nc' st'"
      using puny_round [OF Suc.prems(1) assms] by blast
    then show ?thesis using Suc.IH [of nc' st'] Suc.prems(2) by auto
  qed
qed (use puny_done in \<open>auto simp: unat_eq_0\<close>)

section \<open>Labels\<close>

text \<open>
  The reference reading of an ASCII label: after \<open>xn--\<close>, the characters up to the last hyphen are
  literal and the rest are the integers.
\<close>

definition ace_prefix :: bytes where
  "ace_prefix = [0x78, 0x6E, 0x2D, 0x2D]"

definition ace_decode :: "bytes \<Rightarrow> nat list option" where
  "ace_decode t =
     (if take 4 t = ace_prefix then
        let u = rev (drop 4 t); e = rev (takeWhile (\<lambda>c. c \<noteq> 0x2D) u);
            literal = rev (drop 1 (dropWhile (\<lambda>c. c \<noteq> 0x2D) u)) in
        puny_decode 128 0 72 True (map unat literal) e
      else Some (map unat t))"

lemma hyphen_not_digit: "c \<in> set alphabet \<Longrightarrow> c \<noteq> 0x2D"
proof -
  have "0x2D \<notin> set alphabet" by code_simp
  then show "c \<in> set alphabet \<Longrightarrow> ?thesis" by auto
qed

lemma ace_decode_text:
  assumes "\<forall>c \<in> set e. c \<in> set alphabet"
  shows "ace_decode (ace_prefix @ bs @ (if bs = [] then [] else [0x2D]) @ e) =
    puny_decode 128 0 72 True (map unat bs) e"
proof -
  have ne: "\<forall>c \<in> set (rev e). c \<noteq> 0x2D" using assms hyphen_not_digit by auto
  have tw: "takeWhile (\<lambda>c. c \<noteq> 0x2D) (rev e @ 0x2D # rev bs) = rev e"
    "dropWhile (\<lambda>c. c \<noteq> 0x2D) (rev e @ 0x2D # rev bs) = 0x2D # rev bs"
    "takeWhile (\<lambda>c. c \<noteq> 0x2D) (rev e) = rev e" "dropWhile (\<lambda>c. c \<noteq> 0x2D) (rev e) = []"
    using ne by (simp_all add: takeWhile_append dropWhile_append)
  show ?thesis by (simp add: ace_decode_def ace_prefix_def Let_def tw)
qed

text \<open>What the encoder makes of the code points \<open>ns\<close> of a label: ASCII text that decodes to them.\<close>

definition ace_label :: "nat list \<Rightarrow> bytes \<Rightarrow> bool" where
  "ace_label ns t \<longleftrightarrow> (\<forall>c \<in> set t. c < 128) \<and>
     (if \<forall>c \<in> set ns. c < 128 then t = map of_nat ns
      else take 4 t = ace_prefix \<and> ace_decode t = Some ns)"

lemma label_correct:
  assumes cp: "codepoints mem se s = Some cs" and small: "small_label (map unat cs)"
  shows "\<exists>t rc. uv__idna_toascii_label mem s se cap (take cap out) = Some (rc, take cap (out @ t)) \<and>
    0 \<le> rc \<and> ace_label (map unat cs) t"
proof -
  let ?B = "filter (\<lambda>c. c < 128) cs" and ?N = "filter (\<lambda>c. c \<ge> 128) cs"
  have len: "length cs \<le> 3800" and sc: "\<forall>c \<in> set cs. scalar (unat c)" using small by (auto simp: small_label_def)
  have "- 1 \<notin> set cs"
  proof
    assume "- 1 \<in> set cs"
    then have "scalar (unat (- 1 :: u32))" using sc by blast
    then show False by (simp add: scalar_def unsigned_minus_1_eq_mask mask_eq_exp_minus_1)
  qed
  then have c1: "foreach_codepoint mem se count_body s (False, 0, 0) =
      Some (False, of_nat (length ?B), of_nat (length ?N))"
    by (simp add: foreach_visit [OF cp] visit_count)
  have lB: "length ?B \<le> length cs" "length ?N \<le> length cs" by (rule length_filter_le)+
  have "length ?B \<le> 3800" by (rule order_trans [OF lB(1) len])
  moreover have "length ?N \<le> 3800" by (rule order_trans [OF lB(2) len])
  ultimately have b32: "length ?B < 2 ^ 32" "length ?N < 2 ^ 32" by simp_all
  then have uB: "unat (of_nat (length ?B) :: u32) = length ?B" and uN: "unat (of_nat (length ?N) :: u32) = length ?N"
    by (simp_all only: unat_of_nat_u32)
  have N: "(0 :: u32) < of_nat (length ?N) \<longleftrightarrow> ?N \<noteq> []" "(of_nat (length ?N) :: u32) = 0 \<longleftrightarrow> ?N = []"
    using uN by (auto simp: word_less_nat_alt simp flip: unat_eq_0)
  have B: "(0 :: u32) < of_nat (length ?B) \<longleftrightarrow> ?B \<noteq> []" using uB by (auto simp: word_less_nat_alt)
  have copy: "foreach_codepoint mem se (copy_body cap (of_nat (length ?B))) s (0, take cap o1) =
      Some (of_nat (length ?B), take cap (o1 @ map ucast ?B))" for o1
    using visit_copy [of 0 cs "of_nat (length ?B)" cap o1] b32 by (simp add: foreach_visit [OF cp])
  have ub: "unat (ucast c :: byte) = unat c" if "c < 128" for c :: u32
    using that by (simp add: unat_ucast word_less_nat_alt)
  have ascii: "c < 128" if a: "c \<in> set (map ucast ?B :: bytes)" for c
  proof -
    obtain d :: u32 where "c = ucast d" "d < 128" using a by auto
    then show ?thesis using ub [of d] by (simp add: word_less_nat_alt)
  qed
  have basic: "map unat (map ucast ?B :: bytes) = filter (\<lambda>c. c < 128) (map unat cs)"
  proof -
    have "map unat (map ucast ?B :: bytes) = map unat ?B" using ub by simp
    also have "\<dots> = filter (\<lambda>c. c < 128) (map unat cs)" by (simp add: filter_map comp_def word_less_nat_alt)
    finally show ?thesis .
  qed
  show ?thesis
  proof (cases "?N = []")
    case True
    then have all: "\<forall>c \<in> set cs. c < 128" by (auto simp: filter_empty_conv not_le)
    have "map ucast ?B = (map of_nat (map unat cs) :: bytes)"
    proof -
      have "?B = cs" using all by simp
      moreover have "ucast c = (of_nat (unat c) :: byte)" if "c \<in> set cs" for c
        using that all ub [of c] by (metis of_nat_unat ucast_id)
      ultimately show ?thesis by simp
    qed
    moreover have "\<forall>c \<in> set (map unat cs). c < 128" using all by (auto simp: word_less_nat_alt)
    moreover have "0 \<le> sint (of_nat (length ?B) :: u32)"
    proof -
      have "sint (of_nat (length ?B) :: u32) = int (length ?B)"
      proof -
        have "sint (of_nat n :: u32) = int n" if "n \<le> 3800" for n
          using that by (simp add: signed_of_nat signed_take_bit_int_eq_self)
        then show ?thesis using order_trans [OF lB(1) len] by blast
      qed
      then show ?thesis by simp
    qed
    moreover have "uv__idna_toascii_label mem s se cap (take cap out) =
        Some (sint (of_nat (length ?B) :: u32), take cap (out @ map ucast ?B))"
      using True by (simp add: uv__idna_toascii_label_def c1 copy)
    ultimately show ?thesis using ascii by (auto simp: ace_label_def)
  next
    case False
    define o2 where "o2 = out @ ace_prefix @ map ucast ?B @ (if ?B = [] then [] else [0x2D])"
    define st where "st = \<lparr>err_p = False, h_p = of_nat (length ?B), bias_p = 72, delta_p = 0,
      todo_p = of_nat (length ?N), first_p = True, dst_p = take cap o2\<rparr>"
    have pre: "put cap 0x2D (put cap 0x2D (put cap 0x6E (put cap 0x78 (take cap out)))) = take cap (out @ ace_prefix)"
      by (simp only: put_take ace_prefix_def append_assoc append_Cons append_Nil)
    have o2: "(if ?B = [] then take cap ((out @ ace_prefix) @ map ucast ?B)
        else put cap 0x2D (take cap ((out @ ace_prefix) @ map ucast ?B))) = take cap o2"
      by (simp only: o2_def put_take append_assoc append_Nil2 split: if_split) simp
    have "loop_inv (map unat cs) cap o2 (unat (128 :: u32)) st"
      unfolding loop_inv_def
    proof (intro conjI exI)
      have f: "filter (\<lambda>c. c < unat (128 :: u32)) (map unat cs) = map unat ?B"
        by (simp add: filter_map comp_def word_less_nat_alt)
      show "decoded (map unat cs) cap o2 st (filter (\<lambda>c. c < unat (128 :: u32)) (map unat cs)) 128 0"
        unfolding decoded_def by (intro exI [of _ "[]"]) (simp add: st_def)
      show "unat (h_p st) = length (filter (\<lambda>c. c < unat (128 :: u32)) (map unat cs))"
        unfolding f using uB by (simp add: st_def)
      have "length cs = length ?B + length ?N"
        using sum_length_filter_compl [of "\<lambda>c. c < 128" cs] by (simp add: not_less)
      then show "unat (todo_p st) = length (map unat cs) - length (filter (\<lambda>c. c < unat (128 :: u32)) (map unat cs))"
        unfolding f using uN by (simp add: st_def)
    qed (simp_all add: st_def)
    then obtain e where e: "puny_loop (unat (of_nat (length ?N) :: u32)) mem s se cap 128 st = Some (0, take cap (o2 @ e))"
      "\<forall>c \<in> set e. c \<in> set alphabet" "puny_decode 128 0 72 True (filter (\<lambda>c. c < 128) (map unat cs)) e = Some (map unat cs)"
      using puny_loop_correct [OF refl small cp, of cap o2 128 st "unat (of_nat (length ?N) :: u32)"]
      by (auto simp: st_def)
    define t where "t = ace_prefix @ map ucast ?B @ (if (map ucast ?B :: bytes) = [] then [] else [0x2D]) @ e"
    have dec: "ace_decode t = Some (map unat cs)"
      using ace_decode_text [OF e(2), of "map ucast ?B"] e(3) basic by (simp only: t_def)
    have "c < 128" if "c \<in> set alphabet" for c
    proof -
      have "list_all (\<lambda>c. c < 128) alphabet" by code_simp
      then show ?thesis using that by (simp add: list_all_iff)
    qed
    then have t128: "\<forall>c \<in> set t. c < 128"
      using e(2) ascii by (auto simp: t_def ace_prefix_def)
    have nb: "\<not> (\<forall>c \<in> set (map unat cs). c < 128)"
      using False by (auto simp: filter_empty_conv word_le_nat_alt not_less)
    have "take 4 t = ace_prefix" by (simp add: t_def ace_prefix_def)
    then have "ace_label (map unat cs) t"
      unfolding ace_label_def if_not_P [OF nb] using dec t128 by blast
    moreover have "uv__idna_toascii_label mem s se cap (take cap out) = Some (0, take cap (out @ t))"
    proof -
      have ot: "o2 @ e = out @ t" by (simp add: o2_def t_def)
      show ?thesis
        using False e(1) copy [of "out @ ace_prefix"]
        unfolding uv__idna_toascii_label_def c1 bind.bind_lunit prod.case Let_def N(1) not_False_eq_True if_True pre
        by (cases "?B = []")
          (simp_all add: N B copy put_take ot [symmetric] st_def o2_def del: take_append map_append)
    qed
    ultimately show ?thesis by force
  qed
qed

section \<open>Host names\<close>

fun join_dots :: "bytes list \<Rightarrow> bytes" where
  "join_dots [] = []"
| "join_dots [t] = t"
| "join_dots (t # ts) = t @ 0x2E # join_dots ts"

definition host_text :: "nat list list \<Rightarrow> bytes" where
  "host_text vss = join_dots (map (\<lambda>vs. concat (map utf8_encode vs)) vss)"

definition plain_label :: "nat list \<Rightarrow> bool" where
  "plain_label vs \<longleftrightarrow> small_label vs \<and> (\<forall>v \<in> set vs. v \<notin> {0x2E, 0x3002, 0xFF0E, 0xFF61})"

lemma is_dot_of_nat: "scalar v \<Longrightarrow> is_dot (of_nat v) \<longleftrightarrow> v \<in> {0x2E, 0x3002, 0xFF0E, 0xFF61}"
proof -
  assume "scalar v"
  then have "unat (of_nat v :: u32) = v" by (intro unat_of_nat_u32) (simp add: scalar_def)
  then show ?thesis by (simp add: is_dot_def word_unat_eq_iff)
qed

lemma toascii_scan:
  "\<forall>v \<in> set vs. scalar v \<and> v \<notin> {0x2E, 0x3002, 0xFF0E, 0xFF61} \<Longrightarrow>
     drop si mem = concat (map utf8_encode vs) @ rest \<Longrightarrow> si + length (concat (map utf8_encode vs)) \<le> se \<Longrightarrow>
     toascii_loop mem se cap s si out = toascii_loop mem se cap s (si + length (concat (map utf8_encode vs))) out"
proof (induction vs arbitrary: si)
  case (Cons v vs)
  let ?l = "length (utf8_encode v)"
  have l: "0 < ?l" by (simp add: utf8_encode_def)
  moreover have "length (concat (map utf8_encode (v # vs))) = ?l + length (concat (map utf8_encode vs))" by simp
  ultimately have si: "si < se" using Cons.prems(3) by linarith
  have v: "scalar v" "\<not> is_dot (of_nat v)" using Cons.prems(1) is_dot_of_nat by auto
  have d: "uv__utf8_decode1 mem si se = Some (of_nat v, si + ?l)"
    using Cons.prems(2) si v(1) by (intro decode1_encoded) auto
  have "drop (si + ?l) mem = drop ?l (drop si mem)" by (simp add: add.commute)
  also have "\<dots> = concat (map utf8_encode vs) @ rest" unfolding Cons.prems(2) by simp
  finally have "toascii_loop mem se cap s (si + ?l) out =
      toascii_loop mem se cap s (si + ?l + length (concat (map utf8_encode vs))) out"
    using Cons.prems by (intro Cons.IH) auto
  moreover have "toascii_loop mem se cap s si out = toascii_loop mem se cap s (si + ?l) out"
    using si d v by (subst toascii_loop.simps) simp
  ultimately show ?case by (simp add: add.assoc)
qed simp

lemma utf8_encode_not_Nil [simp]: "utf8_encode v \<noteq> []"
  by (simp add: utf8_encode_def)

text \<open>What \<open>uv__idna_toascii\<close> does with the result of its loop.\<close>

definition host_end :: "bytes \<Rightarrow> nat \<Rightarrow> nat \<Rightarrow> (int \<times> nat \<times> bytes) option \<Rightarrow> (int \<times> bytes) option" where
  "host_end mem se cap r = do {
     (rc, s, out) \<leftarrow> r;
     if rc < 0 then Some (rc, out)
     else do {
       (rc, out) \<leftarrow> (if s < se then uv__idna_toascii_label mem s se cap out else Some (0, out));
       if rc < 0 then Some (rc, out)
       else let out = put cap 0 out in Some (int (length out), out)
     }
   }"

lemma toascii_host_end: "uv__idna_toascii mem s se cap = host_end mem se cap (toascii_loop mem se cap s s [])"
  by (simp add: uv__idna_toascii_def host_end_def)

lemma label_of_encoded:
  assumes "plain_label vs" "drop s mem = concat (map utf8_encode vs) @ b # rest" "b < 128"
  shows "\<exists>t rc. uv__idna_toascii_label mem s (s + length (concat (map utf8_encode vs))) cap (take cap out) =
      Some (rc, take cap (out @ t)) \<and> 0 \<le> rc \<and> ace_label vs t"
proof -
  have sc: "\<forall>v \<in> set vs. scalar v" using assms(1) by (simp add: plain_label_def small_label_def)
  have "unat (of_nat v :: u32) = v" if "v \<in> set vs" for v
    using sc that by (intro unat_of_nat_u32) (auto simp: scalar_def)
  then have u: "map unat (map of_nat vs :: u32 list) = vs" by (simp add: map_idI)
  have "codepoints mem (s + length (concat (map utf8_encode vs))) s = Some (map of_nat vs)"
    using codepoints_encoded [OF sc assms(2,3)] .
  then show ?thesis
    using label_correct [of mem "s + length (concat (map utf8_encode vs))" s "map of_nat vs" cap out] assms(1)
    unfolding u by (simp add: plain_label_def)
qed

lemma host_loop:
  "vss \<noteq> [] \<Longrightarrow> \<forall>vs \<in> set vss. plain_label vs \<Longrightarrow> drop s mem = host_text vss @ 0 # rest \<Longrightarrow>
     se = s + length (host_text vss) \<Longrightarrow>
     \<exists>ts. list_all2 ace_label vss ts \<and>
       host_end mem se cap (toascii_loop mem se cap s s (take cap out)) =
         Some (int (length (take cap (out @ join_dots ts @ [0]))), take cap (out @ join_dots ts @ [0]))"
proof (induction vss arbitrary: s out rule: list_nonempty_induct)
  case (single vs)
  let ?e = "concat (map utf8_encode vs)"
  have d: "drop s mem = ?e @ 0 # rest" and se: "se = s + length ?e"
    using single.prems by (simp_all add: host_text_def)
  have pl: "plain_label vs" using single.prems by simp
  obtain t rc where t: "uv__idna_toascii_label mem s se cap (take cap out) = Some (rc, take cap (out @ t))"
    "0 \<le> rc" "ace_label vs t"
    using label_of_encoded [OF pl d, of cap out] by (auto simp: se)
  have "toascii_loop mem se cap s s (take cap out) = toascii_loop mem se cap s se (take cap out)"
    unfolding se using toascii_scan [of vs s mem _ "s + length ?e" cap s] pl d
    by (simp add: plain_label_def small_label_def)
  also have "\<dots> = Some (0, s, take cap out)" by (subst toascii_loop.simps) simp
  finally have loop: "toascii_loop mem se cap s s (take cap out) = Some (0, s, take cap out)" .
  show ?case
  proof (cases "s < se")
    case True
    then have "host_end mem se cap (toascii_loop mem se cap s s (take cap out)) =
        Some (int (length (take cap (out @ t @ [0]))), take cap (out @ t @ [0]))"
      unfolding host_end_def loop using t by (simp add: put_take Let_def del: take_append)
    then show ?thesis using t(3) by (intro exI [of _ "[t]"]) simp
  next
    case False
    then have "?e = []" using se by simp
    then have "vs = []" by (cases vs) simp_all
    then have "ace_label vs []" by (simp add: ace_label_def)
    moreover have "host_end mem se cap (toascii_loop mem se cap s s (take cap out)) =
        Some (int (length (take cap (out @ [0]))), take cap (out @ [0]))"
      unfolding host_end_def loop using False by (simp add: put_take Let_def del: take_append)
    ultimately show ?thesis by (intro exI [of _ "[[]]"]) simp
  qed
next
  case (cons vs vss)
  let ?e = "concat (map utf8_encode vs)"
  let ?p = "s + length ?e"
  have ht: "host_text (vs # vss) = ?e @ 0x2E # host_text vss" 
    using cons.hyps by (cases vss) (simp_all add: host_text_def)
  have d: "drop s mem = ?e @ 0x2E # host_text vss @ 0 # rest" using cons.prems(2) by (simp add: ht)
  have pl: "plain_label vs" using cons.prems by simp
  have se: "se = ?p + 1 + length (host_text vss)" using cons.prems(3) by (simp add: ht)
  have "(0x2E :: byte) < 128" by simp
  then obtain t rc where t: "uv__idna_toascii_label mem s ?p cap (take cap out) = Some (rc, take cap (out @ t))"
    "0 \<le> rc" "ace_label vs t"
    using label_of_encoded [OF pl d] by blast
  have "drop ?p mem = drop (length ?e) (drop s mem)" by (simp add: add.commute)
  then have dp: "drop ?p mem = 0x2E # host_text vss @ 0 # rest" unfolding d by simp
  then have "?p < length mem" by (metis drop_eq_Nil list.distinct(1) not_le)
  moreover have "mem ! ?p = 0x2E" using dp \<open>?p < length mem\<close> by (simp add: Cons_nth_drop_Suc [symmetric])
  ultimately have dot: "uv__utf8_decode1 mem ?p se = Some (0x2E, ?p + 1)"
    by (simp add: uv__utf8_decode1_def read_at_def)
  have dq: "drop (?p + 1) mem = host_text vss @ 0 # rest"
  proof -
    have "drop (?p + 1) mem = drop 1 (drop ?p mem)" by simp
    then show ?thesis unfolding dp by simp
  qed
  have "toascii_loop mem se cap s s (take cap out) = toascii_loop mem se cap s ?p (take cap out)"
    using toascii_scan [of vs s mem _ se cap s] pl d se by (simp add: plain_label_def small_label_def)
  also have "\<dots> = toascii_loop mem se cap (?p + 1) (?p + 1) (take cap (out @ t @ [0x2E]))"
    using se dot t by (subst toascii_loop.simps) (simp add: is_dot_def put_take del: take_append)
  finally have loop: "toascii_loop mem se cap s s (take cap out) =
      toascii_loop mem se cap (?p + 1) (?p + 1) (take cap (out @ t @ [0x2E]))" .
  obtain ts where ts: "list_all2 ace_label vss ts"
    "host_end mem se cap (toascii_loop mem se cap (?p + 1) (?p + 1) (take cap (out @ t @ [0x2E]))) =
      Some (int (length (take cap ((out @ t @ [0x2E]) @ join_dots ts @ [0]))), take cap ((out @ t @ [0x2E]) @ join_dots ts @ [0]))"
    using cons.IH [of "?p + 1" "out @ t @ [0x2E]"] cons.prems(1) dq se by auto
  have "ts \<noteq> []" using ts(1) cons.hyps by auto
  then have "join_dots (t # ts) = t @ 0x2E # join_dots ts" by (cases ts) simp_all
  then show ?case using ts t(3) unfolding loop by (intro exI [of _ "t # ts"]) simp
qed

section \<open>Bounds\<close>

lemma foreach_inv:
  "(\<And>c st. P st \<Longrightarrow> P (snd (body c st))) \<Longrightarrow>
     foreach_codepoint mem pe body p st = Some st' \<Longrightarrow> P st \<Longrightarrow> P st'"
proof (induction mem pe body p st rule: foreach_codepoint.induct)
  case hyp: (1 mem pe body p st)
  show ?case
  proof (cases "p \<le> pe")
    case True
    then obtain c p' where d: "uv__utf8_decode1 mem p pe = Some (c, p')"
      using hyp.prems(2) by (subst (asm) foreach_codepoint.simps) (auto split: option.splits)
    obtain brk st1 where b: "body c st = (brk, st1)" by fastforce
    have P1: "P st1" using hyp.prems(1) [OF hyp.prems(3), of c] by (simp add: b)
    show ?thesis
    proof (cases "p' \<le> pe \<and> brk = False")
      case go: True
      then have f: "foreach_codepoint mem pe body p' st1 = Some st'"
        using hyp.prems(2) True d b by (subst (asm) foreach_codepoint.simps) simp
      have "p' \<le> pe" "\<not> brk" using go by auto
      then show ?thesis using hyp.IH [OF True d refl _ b [symmetric] _ hyp.prems(1) f P1] by blast
    next
      case False
      then have "st' = st1 \<or> st' = st"
        using hyp.prems(2) True d b by (subst (asm) foreach_codepoint.simps) (auto split: if_splits)
      then show ?thesis using P1 hyp.prems(3) by auto
    qed
  next
    case False
    then show ?thesis using hyp.prems(2,3) by (subst (asm) foreach_codepoint.simps) simp
  qed
qed

lemma length_digits_loop: "length out \<le> cap \<Longrightarrow> length (digits_loop cap b k q out) \<le> cap"
proof (induction cap b k q out rule: digits_loop.induct)
  case (1 cap b k q out)
  show ?case
  proof (cases "q < threshold k b")
    case True
    then show ?thesis using 1(2) by (subst digits_loop.simps) (simp add: length_put)
  next
    case False
    then show ?thesis
      using 1(1) [OF refl False refl refl refl] 1(2) by (subst digits_loop.simps) (simp add: length_put Let_def)
  qed
qed

lemma puny_body_bound: "length (dst_p st) \<le> cap \<Longrightarrow> length (dst_p (snd (puny_body cap n c st))) \<le> cap"
  by (simp add: puny_body_def Let_def length_digits_loop split: prod.split)

lemma copy_body_bound: "length (snd s) \<le> cap \<Longrightarrow> length (snd (snd (copy_body cap k c s))) \<le> cap"
  by (cases s) (simp add: copy_body_def Let_def length_put)

lemma puny_loop_bound:
  "length (dst_p st) \<le> cap \<Longrightarrow> puny_loop fuel mem ss se cap n st = Some (rc, out) \<Longrightarrow> rc \<le> 0 \<and> length out \<le> cap"
proof (induction fuel arbitrary: n st)
  case 0
  then show ?case by (subst (asm) puny_loop.simps) (auto split: if_splits)
next
  case (Suc fuel)
  show ?case
  proof (cases "todo_p st = 0")
    case True
    then show ?thesis using Suc.prems by (subst (asm) puny_loop.simps) simp
  next
    case False
    then obtain m where m: "foreach_codepoint mem se (min_body n) ss (- 1) = Some m"
      using Suc.prems(2) by (subst (asm) puny_loop.simps) (auto split: bind_splits)
    let ?st = "st\<lparr>delta_p := delta_p st + (m - n) * (h_p st + 1)\<rparr>"
    show ?thesis
    proof (cases "m - n > NOT (delta_p st) div (h_p st + 1)")
      case True
      then show ?thesis using Suc.prems False m
        by (subst (asm) puny_loop.simps) (simp add: Let_def UV_E2BIG_def)
    next
      case no: False
      then obtain st' where f: "foreach_codepoint mem se (puny_body cap m) ss ?st = Some st'"
        using Suc.prems(2) False m by (subst (asm) puny_loop.simps) (auto simp: Let_def split: bind_splits)
      then have l: "length (dst_p st') \<le> cap"
        using foreach_inv [of "\<lambda>st. length (dst_p st) \<le> cap" "puny_body cap m"] puny_body_bound Suc.prems(1)
        by simp
      show ?thesis
        using Suc.prems(2) False no m f l Suc.IH [of "st'\<lparr>delta_p := delta_p st' + 1\<rparr>" "m + 1"]
        by (subst (asm) puny_loop.simps) (auto simp: Let_def UV_E2BIG_def split: if_splits)
    qed
  qed
qed

lemma label_bound:
  assumes "length out \<le> cap" "uv__idna_toascii_label mem s se cap out = Some (rc, out')"
  shows "length out' \<le> cap"
proof -
  obtain bad n t where c: "foreach_codepoint mem se count_body s (False, 0, 0) = Some (bad, n, t)"
    using assms(2) by (auto simp: uv__idna_toascii_label_def split: bind_splits)
  define o1 where "o1 = (if t > 0 then put cap 0x2D (put cap 0x2D (put cap 0x6E (put cap 0x78 out))) else out)"
  have o1: "length o1 \<le> cap" using assms(1) by (simp add: o1_def length_put)
  show ?thesis
  proof (cases bad)
    case True
    then show ?thesis using assms c by (simp add: uv__idna_toascii_label_def)
  next
    case False
    then obtain x o2 where o2: "foreach_codepoint mem se (copy_body cap n) s (0, o1) = Some (x, o2)"
      using assms(2) c by (auto simp: uv__idna_toascii_label_def o1_def Let_def split: bind_splits)
    then have l2: "length o2 \<le> cap"
      using foreach_inv [of "\<lambda>s. length (snd s) \<le> cap" "copy_body cap n" mem se s "(0, o1)" "(x, o2)"]
        copy_body_bound o1 by simp
    define o3 where "o3 = (if n > 0 then put cap 0x2D o2 else o2)"
    have l3: "length o3 \<le> cap" using l2 by (simp add: o3_def length_put)
    have "t = 0 \<and> out' = o2 \<or> puny_loop (unat t) mem s se cap 128
        \<lparr>err_p = False, h_p = n, bias_p = 72, delta_p = 0, todo_p = t, first_p = True, dst_p = o3\<rparr> = Some (rc, out')"
      using assms(2) False c o2
      by (simp add: uv__idna_toascii_label_def o1_def [symmetric] o3_def Let_def split: if_splits)
    then show ?thesis
    proof
      assume "puny_loop (unat t) mem s se cap 128
        \<lparr>err_p = False, h_p = n, bias_p = 72, delta_p = 0, todo_p = t, first_p = True, dst_p = o3\<rparr> = Some (rc, out')"
      from puny_loop_bound [OF _ this] l3 show ?thesis by simp
    qed (use l2 in simp)
  qed
qed

lemma toascii_loop_bound:
  "length out \<le> cap \<Longrightarrow> toascii_loop mem se cap s si out = Some (rc, s', out') \<Longrightarrow> rc \<le> 0 \<and> length out' \<le> cap"
proof (induction mem se cap s si out rule: toascii_loop.induct)
  case hyp: (1 mem se cap s si out)
  show ?case
  proof (cases "si < se")
    case True
    then obtain c si' where d: "uv__utf8_decode1 mem si se = Some (c, si')"
      using hyp.prems(2) by (subst (asm) toascii_loop.simps) (auto split: option.splits)
    show ?thesis
    proof (cases "is_dot c")
      case dot: True
      then obtain rc1 o1 where l: "uv__idna_toascii_label mem s si cap out = Some (rc1, o1)"
        using hyp.prems(2) True d by (subst (asm) toascii_loop.simps) (auto split: option.splits)
      have b: "length o1 \<le> cap" using label_bound [OF hyp.prems(1) l] .
      show ?thesis
      proof (cases "rc1 < 0")
        case True
        then show ?thesis using hyp.prems(2) \<open>si < se\<close> d dot l b by (subst (asm) toascii_loop.simps) simp
      next
        case False
        have "toascii_loop mem se cap si' si' (put cap 0x2E o1) = Some (rc, s', out')"
          using hyp.prems(2) True d dot l False by (subst (asm) toascii_loop.simps) simp
        then show ?thesis
          using hyp.IH(2) [OF True d refl _ l refl False] dot length_put [OF b] by simp
      qed
    next
      case False
      then have "toascii_loop mem se cap s si' out = Some (rc, s', out')"
        using hyp.prems(2) True d by (subst (asm) toascii_loop.simps) simp
      then show ?thesis using hyp.IH(1) [OF True d refl False hyp.prems(1)] by simp
    qed
  next
    case False
    then show ?thesis using hyp.prems by (subst (asm) toascii_loop.simps) simp
  qed
qed

section \<open>The conversion returns\<close>

text \<open>With three more bytes behind the end of the name the decoder reads nothing that is not there.\<close>

lemma decode1_total: "p \<le> pe \<Longrightarrow> pe + 3 < length mem \<Longrightarrow> \<exists>c p'. uv__utf8_decode1 mem p pe = Some (c, p')"
  by (auto simp: uv__utf8_decode1_def uv__utf8_decode1_slow_def read_at_def Let_def)

lemma codepoints_total: "pe + 3 < length mem \<Longrightarrow> \<exists>cs. codepoints mem pe p = Some cs"
proof (induction mem pe p rule: codepoints.induct)
  case (1 mem pe p)
  show ?case
  proof (cases "p \<le> pe")
    case True
    obtain c p' where d: "uv__utf8_decode1 mem p pe = Some (c, p')" using decode1_total [OF True 1(2)] by blast
    then show ?thesis using 1(1) [OF True d refl] 1(2) True by (subst codepoints.simps) auto
  qed (subst codepoints.simps, simp)
qed

lemma visit_puny_todo:
  "\<not> err_p st \<Longrightarrow> \<not> err_p (visit (puny_body cap m) cs st) \<Longrightarrow>
     todo_p (visit (puny_body cap m) cs st) = todo_p st - of_nat (length (filter (\<lambda>c. c = m) cs))"
proof (induction cs arbitrary: st)
  case (Cons c cs)
  obtain brk st1 where b: "puny_body cap m c st = (brk, st1)" by fastforce
  have st1: "if brk then err_p st1 else \<not> err_p st1 \<and> todo_p st1 = (if c = m then todo_p st - 1 else todo_p st)"
    using b Cons.prems(1) by (auto simp: puny_body_def Let_def split: if_splits prod.splits)
  then show ?case using Cons.prems(2) Cons.IH [of st1] b by (cases brk) (auto simp: algebra_simps)
qed simp

lemma word_next:
  assumes "m < (- 1 :: u32)"
  shows "m + 1 \<le> c \<longleftrightarrow> m < c"
proof -
  have top: "unat (- 1 :: u32) = 4294967295" by (simp add: unsigned_minus_1_eq_mask mask_eq_exp_minus_1)
  have "unat m < 4294967295" using assms unfolding word_less_nat_alt top .
  then have "unat (m + 1) = unat m + 1" by (simp add: unat_word_ariths)
  then show ?thesis by (simp add: word_less_nat_alt word_le_nat_alt Suc_le_eq)
qed

lemma filter_next:
  assumes "\<forall>c \<in> set cs. n \<le> c \<longrightarrow> m \<le> c" "n \<le> m" "m < (- 1 :: u32)"
  shows "length (filter (\<lambda>c. m + 1 \<le> c) cs) + length (filter (\<lambda>c. c = m) cs) = length (filter (\<lambda>c. n \<le> c) cs)"
  using assms(1,2) unfolding word_next [OF assms(3)] by (induction cs) auto

text \<open>Every round of the main loop finds a code point of the label, so that as many rounds as there are
  code points left to write are enough.\<close>

lemma puny_loop_total:
  assumes cs: "codepoints mem se ss = Some cs" "- 1 \<notin> set cs" "length cs < 2 ^ 32"
  shows "\<not> err_p st \<Longrightarrow> unat (todo_p st) = length (filter (\<lambda>c. n \<le> c) cs) \<Longrightarrow> unat (todo_p st) \<le> fuel \<Longrightarrow>
    \<exists>rc out. puny_loop fuel mem ss se cap n st = Some (rc, out) \<and> (rc = 0 \<or> rc = UV_E2BIG)"
proof (induction fuel arbitrary: n st)
  case 0
  then show ?case by (subst puny_loop.simps) (simp add: unat_eq_zero)
next
  case (Suc fuel)
  show ?case
  proof (cases "todo_p st = 0")
    case True
    then show ?thesis by (subst puny_loop.simps) simp
  next
    case False
    define m where "m = visit (min_body n) cs (- 1)"
    have f1: "foreach_codepoint mem se (min_body n) ss (- 1) = Some m"
      unfolding m_def by (rule foreach_visit [OF cs(1)])
    let ?st = "st\<lparr>delta_p := delta_p st + (m - n) * (h_p st + 1)\<rparr>"
    define st1 where "st1 = visit (puny_body cap m) cs ?st"
    have f2: "foreach_codepoint mem se (puny_body cap m) ss ?st = Some st1"
      unfolding st1_def by (rule foreach_visit [OF cs(1)])
    show ?thesis
    proof (cases "m - n > NOT (delta_p st) div (h_p st + 1) \<or> err_p st1")
      case True
      then show ?thesis using False f1 f2 by (subst puny_loop.simps) (auto simp: Let_def)
    next
      case go: False
      have "filter (\<lambda>c. n \<le> c) cs \<noteq> []" using Suc.prems(2) False by (auto simp: unat_eq_zero)
      then obtain c where c: "c \<in> set cs" "n \<le> c" by (auto simp: filter_empty_conv)
      have "m \<le> c" using visit_min [of n cs "- 1"] c by (auto simp: m_def)
      moreover have "c < - 1" using c(1) cs(2) word_n1_ge [of c] by (metis le_less)
      ultimately have m: "m < - 1" by simp
      then have mem: "m \<in> set cs" "n \<le> m" "\<forall>c \<in> set cs. n \<le> c \<longrightarrow> m \<le> c"
        using visit_min [of n cs "- 1"] by (auto simp: m_def [symmetric])
      let ?k = "length (filter (\<lambda>c. c = m) cs)"
      have split: "length (filter (\<lambda>c. m + 1 \<le> c) cs) + ?k = unat (todo_p st)"
        using filter_next [OF mem(3,2) m] Suc.prems(2) by simp
      have "filter (\<lambda>c. c = m) cs \<noteq> []" using mem(1) by (auto simp: filter_empty_conv)
      then have k: "0 < ?k" by simp
      have "todo_p st1 = todo_p st - of_nat ?k"
        using visit_puny_todo [of ?st cap m cs] Suc.prems(1) go by (simp add: st1_def)
      moreover have "unat (of_nat ?k :: u32) = ?k"
        using split unat_u32_less [of "todo_p st"] by (simp add: unat_of_nat)
      ultimately have t: "unat (todo_p st1) = length (filter (\<lambda>c. m + 1 \<le> c) cs)"
        using split by (simp add: unat_sub word_le_nat_alt)
      have le: "unat (todo_p st1) \<le> fuel" using t split k Suc.prems(3) by linarith
      have "\<exists>rc out. puny_loop fuel mem ss se cap (m + 1) (st1\<lparr>delta_p := delta_p st1 + 1\<rparr>) = Some (rc, out) \<and> (rc = 0 \<or> rc = UV_E2BIG)"
        by (rule Suc.IH) (use go t le in simp_all)
      then show ?thesis using False f1 f2 go by (subst puny_loop.simps) (simp add: Let_def)
    qed
  qed
qed

lemma count_bound:
  assumes "codepoints mem se ss = Some cs" "se < 2 ^ 31"
  shows "length (filter P cs) < 2 ^ 31" "length cs < 2 ^ 31"
proof -
  show "length cs < 2 ^ 31" using length_codepoints [OF assms(1)] assms(2) by linarith
  then show "length (filter P cs) < 2 ^ 31" using length_filter_le [of P cs] by linarith
qed

lemma label_total:
  assumes se: "se + 3 < length mem" "se < 2 ^ 31"
  shows "\<exists>rc out'. uv__idna_toascii_label mem s se cap out = Some (rc, out') \<and> (0 \<le> rc \<or> rc = UV_EINVAL \<or> rc = UV_E2BIG)"
proof -
  obtain cs where cs: "codepoints mem se s = Some cs" using codepoints_total [OF se(1)] by blast
  note small = count_bound [OF cs se(2)]
  note f1 = foreach_visit [OF cs, of count_body "(False, 0, 0)"]
  show ?thesis
  proof (cases "- 1 \<in> set cs")
    case True
    then have "fst (visit count_body cs (False, 0, 0))" using visit_count_bad by blast
    then obtain h t where "visit count_body cs (False, 0, 0) = (True, h, t)" by (metis (full_types) prod.collapse)
    then show ?thesis using f1 by (simp add: uv__idna_toascii_label_def)
  next
    case False
    let ?h = "of_nat (length (filter (\<lambda>c. c < 128) cs)) :: u32" and ?t = "of_nat (length (filter (\<lambda>c. c \<ge> 128) cs)) :: u32"
    have c: "visit count_body cs (False, 0, 0) = (False, ?h, ?t)" using visit_count [OF False, of 0 0] by simp
    define o1 where "o1 = (if ?t > 0 then put cap 0x2D (put cap 0x2D (put cap 0x6E (put cap 0x78 out))) else out)"
    obtain x o2 where o2: "visit (copy_body cap ?h) cs (0, o1) = (x, o2)" by fastforce
    have f2: "foreach_codepoint mem se (copy_body cap ?h) s (0, o1) = Some (x, o2)"
      using foreach_visit [OF cs, of "copy_body cap ?h" "(0, o1)"] o2 by simp
    show ?thesis
    proof (cases "?t = 0")
      case True
      have "0 \<le> sint (of_nat n :: u32)" if "n < 2 ^ 31" for n
        using that by (simp add: signed_of_nat signed_take_bit_int_eq_self)
      then have "0 \<le> sint ?h" using small(1) by blast
      moreover have "o1 = out" using True by (simp add: o1_def)
      ultimately show ?thesis using True f1 c f2 by (simp add: uv__idna_toascii_label_def Let_def)
    next
      case False
      let ?st = "\<lparr>err_p = False, h_p = ?h, bias_p = 72, delta_p = 0, todo_p = ?t, first_p = True,
        dst_p = if ?h > 0 then put cap 0x2D o2 else o2\<rparr>"
      have t: "unat ?t = length (filter (\<lambda>c. 128 \<le> c) cs)" using small(1) [of "\<lambda>c. 128 \<le> c"] by (simp add: unat_of_nat)
      have "\<exists>rc out'. puny_loop (unat ?t) mem s se cap 128 ?st = Some (rc, out') \<and> (rc = 0 \<or> rc = UV_E2BIG)"
        by (rule puny_loop_total [OF cs \<open>- 1 \<notin> set cs\<close>]) (use small(2) t in simp_all)
      then show ?thesis using False f1 c f2 by (auto simp: uv__idna_toascii_label_def o1_def [symmetric] Let_def)
    qed
  qed
qed

lemma toascii_loop_total:
  assumes "se + 3 < length mem" "se < 2 ^ 31"
  shows "\<exists>rc s' out'. toascii_loop mem se cap s si out = Some (rc, s', out') \<and> (rc = 0 \<or> rc = UV_EINVAL \<or> rc = UV_E2BIG)"
  using assms
proof (induction mem se cap s si out rule: toascii_loop.induct)
  case hyp: (1 mem se cap s si out)
  show ?case
  proof (cases "si < se")
    case True
    then obtain c si' where d: "uv__utf8_decode1 mem si se = Some (c, si')" using decode1_total [of si se mem] hyp.prems by auto
    show ?thesis
    proof (cases "is_dot c")
      case False
      then show ?thesis using hyp.IH(1) [OF True d refl False hyp.prems] True d by (subst toascii_loop.simps) simp
    next
      case dot: True
      obtain rc o1 where l: "uv__idna_toascii_label mem s si cap out = Some (rc, o1)" "0 \<le> rc \<or> rc = UV_EINVAL \<or> rc = UV_E2BIG"
        using label_total [of si mem s cap out] True hyp.prems by auto
      show ?thesis
      proof (cases "rc < 0")
        case True
        then show ?thesis using \<open>si < se\<close> d dot l by (subst toascii_loop.simps) auto
      next
        case False
        then show ?thesis using hyp.IH(2) [OF True d refl _ l(1) refl False hyp.prems] True d dot l
          by (subst toascii_loop.simps) auto
      qed
    qed
  qed (subst toascii_loop.simps, simp)
qed

section \<open>Properties\<close>

text \<open>C37: every Unicode scalar value whose UTF-8 encoding stands before the end of the input is decoded
  to itself, and exactly its bytes are consumed.\<close>

theorem utf8_decode_encoded:
  assumes "scalar v" "drop p mem = utf8_encode v @ rest" "p < pe"
  shows "uv__utf8_decode1 mem p pe = Some (of_nat v, p + length (utf8_encode v))"
  using assms by (rule decode1_encoded)

lemma utf8_decode_encoded_witness:
  "uv__utf8_decode1 (utf8_encode 0x20AC @ [0]) 0 3 = Some (of_nat 0x20AC, 0 + length (utf8_encode 0x20AC))"
  by (rule utf8_decode_encoded) (auto simp: scalar_def)

text \<open>C5: a host name of labels of Unicode scalar values in UTF-8, each of at most 3800 code points, is
  converted without error for every buffer size: the output is the text of ASCII labels, cut at the
  buffer, in which an ASCII label stands unchanged and any other label is \<open>xn--\<close> and the Punycode
  text that the RFC 3492 decoder turns back into the label's code points.\<close>

theorem idna_toascii_decodes:
  assumes "hosts \<noteq> []" "\<forall>vs \<in> set hosts. plain_label vs"
  shows "\<exists>ts. list_all2 ace_label hosts ts \<and>
    uv__idna_toascii (host_text hosts @ 0 # rest) 0 (length (host_text hosts)) cap =
      Some (int (length (take cap (join_dots ts @ [0]))), take cap (join_dots ts @ [0]))"
  using host_loop [OF assms, of 0 "host_text hosts @ 0 # rest" rest "length (host_text hosts)" cap "[]"]
  by (simp add: toascii_host_end)

lemma idna_toascii_decodes_witness:
  "\<exists>ts. list_all2 ace_label [[0x62, 0xFC, 0x63, 0x68, 0x65, 0x72], [0x64, 0x65]] ts \<and>
    uv__idna_toascii (host_text [[0x62, 0xFC, 0x63, 0x68, 0x65, 0x72], [0x64, 0x65]] @ 0 # []) 0
        (length (host_text [[0x62, 0xFC, 0x63, 0x68, 0x65, 0x72], [0x64, 0x65]])) 256 =
      Some (int (length (take 256 (join_dots ts @ [0]))), take 256 (join_dots ts @ [0]))"
  by (rule idna_toascii_decodes) (simp_all add: plain_label_def small_label_def scalar_def)

text \<open>C34: whatever the bytes of a name of less than 2 GB, if its terminator and three more bytes behind it can be read, the
  conversion returns; it writes no more than the buffer holds, and its result is the number of
  bytes written, or says that the name is no UTF-8 or that its Punycode form overflows.  (The bytes behind the terminator are
  needed: see \<open>utf8_reads_past_end\<close>.)\<close>

theorem idna_toascii_bounds:
  assumes "se + 3 < length mem" "se < 2 ^ 31"
  shows "\<exists>r out. uv__idna_toascii mem s se cap = Some (r, out) \<and> length out \<le> cap \<and>
    (r = int (length out) \<or> r = UV_EINVAL \<or> r = UV_E2BIG)"
proof -
  obtain rc s' o1 where l: "toascii_loop mem se cap s s [] = Some (rc, s', o1)" "rc = 0 \<or> rc = UV_EINVAL \<or> rc = UV_E2BIG"
    using toascii_loop_total [OF assms] by blast
  have b: "length o1 \<le> cap" using toascii_loop_bound [OF _ l(1)] by simp
  have neg: "UV_EINVAL < 0" "UV_E2BIG < 0" by (simp_all add: UV_EINVAL_def UV_E2BIG_def)
  show ?thesis
  proof (cases "rc < 0 \<or> \<not> s' < se")
    case True
    then show ?thesis using l b neg by (auto simp: uv__idna_toascii_def Let_def length_put)
  next
    case False
    obtain rc2 o2 where l2: "uv__idna_toascii_label mem s' se cap o1 = Some (rc2, o2)" "0 \<le> rc2 \<or> rc2 = UV_EINVAL \<or> rc2 = UV_E2BIG"
      using label_total [OF assms] by blast
    then have "length o2 \<le> cap" using label_bound [OF b] by blast
    then show ?thesis using l(1) False l2 neg by (auto simp: uv__idna_toascii_def Let_def length_put)
  qed
qed

lemma idna_toascii_bounds_witness:
  "uv__idna_toascii [0x61, 0x2E, 0x62, 0, 0, 0, 0] 0 3 2 = Some (2, [0x61, 0x2E]) \<and>
   (\<exists>r out. uv__idna_toascii [0xF0, 0, 0, 0, 0] 0 1 256 = Some (r, out) \<and> length out \<le> 256 \<and>
      (r = int (length out) \<or> r = UV_EINVAL \<or> r = UV_E2BIG))"
proof -
  have "uv__idna_toascii [0x61, 0x2E, 0x62, 0, 0, 0, 0] 0 3 2 = Some (2, [0x61, 0x2E])" by code_simp
  then show ?thesis using idna_toascii_bounds [of 1 "[0xF0, 0, 0, 0, 0]" 0 256] by simp
qed

text \<open>Two faults of the decoder: a lead byte at the end of a NUL-terminated name makes it read past
  the terminator, and bytes that are no UTF-8 are accepted.\<close>

lemma utf8_reads_past_end: "uv__idna_toascii [0xF0, 0] 0 1 256 = None"
  by code_simp

lemma utf8_accepts_invalid: "uv__utf8_decode1 [0xE1, 0x41, 0x41, 0] 0 3 = Some (0x1041, 3)"
  by code_simp

end
