(* ===== verification/DwarfData.thy ===== *)
theory DwarfData
  imports Prelude
begin

text \<open>
  Firebase Crashlytics, \<^verbatim>\<open>Crashlytics/Unwind/Dwarf/FIRCLSDataParsing.c\<close>, \<^verbatim>\<open>Helpers/FIRCLSThreadState.c\<close>
  and the register accessors of \<^verbatim>\<open>Unwind/FIRCLSUnwind_arm.c\<close>, on a 64-bit ARM device.

  A \<open>const void*\<close> cursor is a 64-bit word.  Memory is read in two ways: through a pointer, where an
  unmapped address is \<^term>\<open>None\<close> (the process faults), and through \<open>FIRCLSReadMemory\<close>, which asks the
  kernel (\<open>vm_read_overwrite\<close>) and reports failure.  Pointers to the C objects of the caller
  (machine, registers, records) are valid, so their NULL checks do not appear.  Pointer arithmetic
  that leaves the address space, and signed arithmetic that overflows, are undefined: \<^term>\<open>None\<close>.
\<close>

type_synonym cursor = u64

definition ptr_add :: "u64 \<Rightarrow> nat \<Rightarrow> u64 option" where
  "ptr_add p n = (if unat p + n < 2 ^ 64 then Some (p + of_nat n) else None)"

definition add_signed :: "u64 \<Rightarrow> u64 \<Rightarrow> u64 option" where
  "add_signed a b =
     (let s = sint a + sint b in if - (2 ^ 63) \<le> s \<and> s < 2 ^ 63 then Some (a + b) else None)"

definition FIRCLSIsValidPointer :: "u64 \<Rightarrow> bool" where
  "FIRCLSIsValidPointer x \<longleftrightarrow> x \<ge> 4096"

text \<open>The kernel copies the bytes when all of them are mapped; the inner option is its success.\<close>

definition FIRCLSReadMemory :: "cmem \<Rightarrow> u64 \<Rightarrow> nat \<Rightarrow> bytes option" where
  "FIRCLSReadMemory cm src len =
     (if \<not> FIRCLSIsValidPointer src then None else load_bytes cm (unat src) len)"

section \<open>Fixed-size values\<close>

definition FIRCLSParseUint8AndAdvance :: "cmem \<Rightarrow> cursor \<Rightarrow> (byte \<times> cursor) option" where
  "FIRCLSParseUint8AndAdvance cm cursor =
     do { tmp \<leftarrow> load_word cm (unat cursor) 1; cursor \<leftarrow> ptr_add cursor 1; Some (tmp, cursor) }"

definition FIRCLSParseUint16AndAdvance :: "cmem \<Rightarrow> cursor \<Rightarrow> (u16 \<times> cursor) option" where
  "FIRCLSParseUint16AndAdvance cm cursor =
     do { tmp \<leftarrow> load_word cm (unat cursor) 2; cursor \<leftarrow> ptr_add cursor 2; Some (tmp, cursor) }"

definition FIRCLSParseInt16AndAdvance :: "cmem \<Rightarrow> cursor \<Rightarrow> (u16 \<times> cursor) option" where
  "FIRCLSParseInt16AndAdvance cm cursor =
     do { tmp \<leftarrow> load_word cm (unat cursor) 2; cursor \<leftarrow> ptr_add cursor 2; Some (tmp, cursor) }"

definition FIRCLSParseUint32AndAdvance :: "cmem \<Rightarrow> cursor \<Rightarrow> (u32 \<times> cursor) option" where
  "FIRCLSParseUint32AndAdvance cm cursor =
     do { tmp \<leftarrow> load_word cm (unat cursor) 4; cursor \<leftarrow> ptr_add cursor 4; Some (tmp, cursor) }"

definition FIRCLSParseInt32AndAdvance :: "cmem \<Rightarrow> cursor \<Rightarrow> (u32 \<times> cursor) option" where
  "FIRCLSParseInt32AndAdvance cm cursor =
     do { tmp \<leftarrow> load_word cm (unat cursor) 4; cursor \<leftarrow> ptr_add cursor 4; Some (tmp, cursor) }"

definition FIRCLSParseUint64AndAdvance :: "cmem \<Rightarrow> cursor \<Rightarrow> (u64 \<times> cursor) option" where
  "FIRCLSParseUint64AndAdvance cm cursor =
     do { tmp \<leftarrow> load_word cm (unat cursor) 8; cursor \<leftarrow> ptr_add cursor 8; Some (tmp, cursor) }"

definition FIRCLSParseInt64AndAdvance :: "cmem \<Rightarrow> cursor \<Rightarrow> (u64 \<times> cursor) option" where
  "FIRCLSParseInt64AndAdvance cm cursor =
     do { tmp \<leftarrow> load_word cm (unat cursor) 8; cursor \<leftarrow> ptr_add cursor 8; Some (tmp, cursor) }"

definition FIRCLSParsePointerAndAdvance :: "cmem \<Rightarrow> cursor \<Rightarrow> (u64 \<times> cursor) option" where
  "FIRCLSParsePointerAndAdvance cm cursor =
     do { tmp \<leftarrow> load_word cm (unat cursor) 8; cursor \<leftarrow> ptr_add cursor 8; Some (tmp, cursor) }"

section \<open>LEB128\<close>

text \<open>
  The payload of a byte is shifted in type \<open>int\<close>: a shift count of 32 or more, or a result that does
  not fit, is undefined behaviour.
\<close>

definition shift_int :: "nat \<Rightarrow> nat \<Rightarrow> u64 option" where
  "shift_int v shift = (if shift < 32 \<and> v * 2 ^ shift < 2 ^ 31 then Some (of_nat (v * 2 ^ shift)) else None)"

text \<open>The loop over at most \<open>n\<close> bytes.\<close>

fun uleb_loop :: "cmem \<Rightarrow> nat \<Rightarrow> nat \<Rightarrow> u64 \<Rightarrow> cursor \<Rightarrow> (u64 \<times> cursor) option" where
  "uleb_loop cm 0 shift result cursor = Some (result, cursor)"
| "uleb_loop cm (Suc n) shift result cursor = do {
     (byte, cursor) \<leftarrow> FIRCLSParseUint8AndAdvance cm cursor;
     v \<leftarrow> shift_int (unat (0x7F AND byte)) shift;
     let result = result OR v;
     if 0x80 AND byte = 0 then Some (result, cursor)
     else uleb_loop cm n (shift + 7) result cursor
   }"

definition FIRCLSParseULEB128AndAdvance :: "cmem \<Rightarrow> cursor \<Rightarrow> (u64 \<times> cursor) option" where
  "FIRCLSParseULEB128AndAdvance cm cursor = uleb_loop cm 8 0 0 cursor"

text \<open>The signed loop also yields the shift and the last byte.\<close>

fun leb_loop ::
  "cmem \<Rightarrow> nat \<Rightarrow> nat \<Rightarrow> u64 \<Rightarrow> byte \<Rightarrow> cursor \<Rightarrow> (u64 \<times> nat \<times> byte \<times> cursor) option" where
  "leb_loop cm 0 shift result byte cursor = Some (result, shift, byte, cursor)"
| "leb_loop cm (Suc n) shift result b cursor = do {
     (byte, cursor) \<leftarrow> FIRCLSParseUint8AndAdvance cm cursor;
     v \<leftarrow> shift_int (unat (0x7F AND byte)) shift;
     let result = result OR v;
     let shift = shift + 7;
     if 0x80 AND byte = 0 then Some (result, shift, byte, cursor)
     else leb_loop cm n shift result byte cursor
   }"

text \<open>\<open>-(1 << shift)\<close> is an \<open>int\<close> too, and is sign-extended to 64 bits.\<close>

definition FIRCLSParseLEB128AndAdvance :: "cmem \<Rightarrow> cursor \<Rightarrow> (u64 \<times> cursor) option" where
  "FIRCLSParseLEB128AndAdvance cm cursor = do {
     (result, shift, byte, cursor) \<leftarrow> leb_loop cm 8 0 0 0 cursor;
     if shift < 64 \<and> 0x40 AND byte \<noteq> 0
     then do { one \<leftarrow> shift_int 1 shift; Some (result OR (- one), cursor) }
     else Some (result, cursor)
   }"

section \<open>Strings, lengths and encoded addresses\<close>

text \<open>\<open>strlen\<close>; the address space ends at \<open>2 ^ 64\<close>.\<close>

function c_strlen :: "cmem \<Rightarrow> nat \<Rightarrow> nat option" where
  "c_strlen cm a =
     (if a \<ge> 2 ^ 64 then None
      else case cbytes cm a of
        None \<Rightarrow> None
      | Some b \<Rightarrow> if b = 0 then Some 0 else map_option Suc (c_strlen cm (a + 1)))"
  by pat_completeness auto
termination by (relation "measure (\<lambda>(cm, a). 2 ^ 64 - a)") auto

declare c_strlen.simps [simp del]

text \<open>The result is the address of the string.\<close>

definition FIRCLSParseStringAndAdvance :: "cmem \<Rightarrow> cursor \<Rightarrow> (u64 \<times> cursor) option" where
  "FIRCLSParseStringAndAdvance cm cursor = do {
     len \<leftarrow> c_strlen cm (unat cursor);
     after \<leftarrow> ptr_add cursor (len + 1);
     Some (cursor, after)
   }"

definition DWARF_EXTENDED_LENGTH_FLAG :: u64 where "DWARF_EXTENDED_LENGTH_FLAG = 0xFFFFFFFF"

definition FIRCLSParseRecordLengthAndAdvance :: "cmem \<Rightarrow> cursor \<Rightarrow> (u64 \<times> cursor) option" where
  "FIRCLSParseRecordLengthAndAdvance cm cursor = do {
     (length, cursor) \<leftarrow> FIRCLSParseUint32AndAdvance cm cursor;
     if ucast length = DWARF_EXTENDED_LENGTH_FLAG then FIRCLSParseUint64AndAdvance cm cursor
     else Some (ucast length, cursor)
   }"

definition CLS_INVALID_ADDRESS :: u64 where "CLS_INVALID_ADDRESS = 0xFFFFFFFFFFFFFFFF"
definition DW_EH_PE_omit :: byte where "DW_EH_PE_omit = 0xFF"
definition DW_EH_PE_VALUE_MASK :: byte where "DW_EH_PE_VALUE_MASK = 0x0F"
definition DW_EH_PE_RELATIVE_OFFSET_MASK :: byte where "DW_EH_PE_RELATIVE_OFFSET_MASK = 0x70"
definition DW_EH_PE_absptr :: byte where "DW_EH_PE_absptr = 0x00"
definition DW_EH_PE_pcrel :: byte where "DW_EH_PE_pcrel = 0x10"
definition DW_EH_PE_indirect :: byte where "DW_EH_PE_indirect = 0x80"

text \<open>
  The first switch: the value by the low four bits of the encoding.  The inner option is the default
  case, an unhandled encoding.
\<close>

definition parse_encoded_value :: "cmem \<Rightarrow> cursor \<Rightarrow> byte \<Rightarrow> (u64 option \<times> cursor) option" where
  "parse_encoded_value cm cursor kind =
     (if kind = 0x00 then
        do { (a, cursor) \<leftarrow> FIRCLSParsePointerAndAdvance cm cursor; Some (Some a, cursor) }
      else if kind = 0x01 then
        do { (a, cursor) \<leftarrow> FIRCLSParseULEB128AndAdvance cm cursor; Some (Some a, cursor) }
      else if kind = 0x02 then
        do { (a, cursor) \<leftarrow> FIRCLSParseUint16AndAdvance cm cursor; Some (Some (ucast a), cursor) }
      else if kind = 0x03 then
        do { (a, cursor) \<leftarrow> FIRCLSParseUint32AndAdvance cm cursor; Some (Some (ucast a), cursor) }
      else if kind = 0x04 then
        do { (a, cursor) \<leftarrow> FIRCLSParseUint64AndAdvance cm cursor; Some (Some a, cursor) }
      else if kind = 0x09 then
        do { (a, cursor) \<leftarrow> FIRCLSParseLEB128AndAdvance cm cursor; Some (Some a, cursor) }
      else if kind = 0x0A then
        do { (a, cursor) \<leftarrow> FIRCLSParseInt16AndAdvance cm cursor; Some (Some (scast a), cursor) }
      else if kind = 0x0B then
        do { (a, cursor) \<leftarrow> FIRCLSParseInt32AndAdvance cm cursor; Some (Some (scast a), cursor) }
      else if kind = 0x0C then
        do { (a, cursor) \<leftarrow> FIRCLSParseInt64AndAdvance cm cursor; Some (Some a, cursor) }
      else Some (None, cursor))"

definition FIRCLSParseAddressWithEncodingAndAdvance ::
  "cmem \<Rightarrow> cursor \<Rightarrow> byte \<Rightarrow> (u64 \<times> cursor) option" where
  "FIRCLSParseAddressWithEncodingAndAdvance cm cursor encoding =
     (if encoding = DW_EH_PE_omit then Some (0, cursor)
      else if cursor = 0 then Some (CLS_INVALID_ADDRESS, cursor)
      else do {
        let inputAddr = cursor;
        (addr, cursor) \<leftarrow> parse_encoded_value cm cursor (encoding AND DW_EH_PE_VALUE_MASK);
        (case addr of
           None \<Rightarrow> Some (CLS_INVALID_ADDRESS, cursor)
         | Some addr \<Rightarrow>
             let relative = encoding AND DW_EH_PE_RELATIVE_OFFSET_MASK in
             if relative \<noteq> DW_EH_PE_absptr \<and> relative \<noteq> DW_EH_PE_pcrel
             then Some (CLS_INVALID_ADDRESS, cursor)
             else do {
               addr \<leftarrow> (if relative = DW_EH_PE_pcrel then add_signed addr inputAddr else Some addr);
               if encoding AND DW_EH_PE_indirect \<noteq> 0 then
                 (if addr = 0 then Some (CLS_INVALID_ADDRESS, cursor)
                  else do { addr \<leftarrow> load_word cm (unat addr) 8; Some (addr, cursor) })
               else Some (addr, cursor)
             })
      })"

section \<open>Registers\<close>

text \<open>
  The general registers of \<open>_STRUCT_MCONTEXT64\<close>.  The getters of the fp, lr, sp and pc keep the low
  36 bits; the system's macros themselves return what the setters stored.
\<close>

record FIRCLSThreadContext =
  ss_x :: "u64 list"
  ss_fp :: u64
  ss_lr :: u64
  ss_sp :: u64
  ss_pc :: u64

definition CLS_PTRAUTH_STRIP :: "u64 \<Rightarrow> u64" where
  "CLS_PTRAUTH_STRIP p = p AND 0x0000000FFFFFFFFF"

definition FIRCLSThreadContextGetPC :: "FIRCLSThreadContext \<Rightarrow> u64" where
  "FIRCLSThreadContextGetPC r = CLS_PTRAUTH_STRIP (ss_pc r)"
definition FIRCLSThreadContextGetStackPointer :: "FIRCLSThreadContext \<Rightarrow> u64" where
  "FIRCLSThreadContextGetStackPointer r = CLS_PTRAUTH_STRIP (ss_sp r)"
definition FIRCLSThreadContextGetLinkRegister :: "FIRCLSThreadContext \<Rightarrow> u64" where
  "FIRCLSThreadContextGetLinkRegister r = CLS_PTRAUTH_STRIP (ss_lr r)"
definition FIRCLSThreadContextGetFramePointer :: "FIRCLSThreadContext \<Rightarrow> u64" where
  "FIRCLSThreadContextGetFramePointer r = CLS_PTRAUTH_STRIP (ss_fp r)"

definition FIRCLSThreadContextSetStackPointer :: "FIRCLSThreadContext \<Rightarrow> u64 \<Rightarrow> FIRCLSThreadContext" where
  "FIRCLSThreadContextSetStackPointer r v = r\<lparr>ss_sp := v\<rparr>"
definition FIRCLSThreadContextSetLinkRegister :: "FIRCLSThreadContext \<Rightarrow> u64 \<Rightarrow> FIRCLSThreadContext" where
  "FIRCLSThreadContextSetLinkRegister r v = r\<lparr>ss_lr := v\<rparr>"
definition FIRCLSThreadContextSetPC :: "FIRCLSThreadContext \<Rightarrow> u64 \<Rightarrow> FIRCLSThreadContext" where
  "FIRCLSThreadContextSetPC r v = r\<lparr>ss_pc := v\<rparr>"
definition FIRCLSThreadContextSetFramePointer :: "FIRCLSThreadContext \<Rightarrow> u64 \<Rightarrow> FIRCLSThreadContext" where
  "FIRCLSThreadContextSetFramePointer r v = r\<lparr>ss_fp := v\<rparr>"

definition CLS_DWARF_REG_FP :: u64 where "CLS_DWARF_REG_FP = 29"
definition CLS_DWARF_REG_RETURN :: u64 where "CLS_DWARF_REG_RETURN = 30"
definition CLS_DWARF_REG_SP :: u64 where "CLS_DWARF_REG_SP = 31"
definition CLS_DWARF_MAX_REGISTER_NUM :: u64 where "CLS_DWARF_MAX_REGISTER_NUM = 31"
definition CLS_DWARF_INVALID_REGISTER_NUM :: u64 where "CLS_DWARF_INVALID_REGISTER_NUM = 32"

definition FIRCLSDwarfUnwindGetRegisterValue :: "FIRCLSThreadContext \<Rightarrow> u64 \<Rightarrow> u64" where
  "FIRCLSDwarfUnwindGetRegisterValue r num =
     (if num \<le> 28 then ss_x r ! unat num
      else if num = CLS_DWARF_REG_FP then FIRCLSThreadContextGetFramePointer r
      else if num = CLS_DWARF_REG_RETURN then FIRCLSThreadContextGetLinkRegister r
      else if num = CLS_DWARF_REG_SP then FIRCLSThreadContextGetStackPointer r
      else 0)"

text \<open>\<^term>\<open>None\<close> is the return of false.\<close>

definition FIRCLSDwarfUnwindSetRegisterValue ::
  "FIRCLSThreadContext \<Rightarrow> u64 \<Rightarrow> u64 \<Rightarrow> FIRCLSThreadContext option" where
  "FIRCLSDwarfUnwindSetRegisterValue r num v =
     (if num \<le> 28 then Some (r\<lparr>ss_x := (ss_x r)[unat num := v]\<rparr>)
      else if num = CLS_DWARF_REG_FP then Some (FIRCLSThreadContextSetFramePointer r v)
      else if num = CLS_DWARF_REG_SP then Some (FIRCLSThreadContextSetStackPointer r v)
      else if num = CLS_DWARF_REG_RETURN then
        Some (FIRCLSThreadContextSetPC (FIRCLSThreadContextSetLinkRegister r v) v)
      else None)"

end
