(* ===== verification/DwarfMachine.thy ===== *)
theory DwarfMachine
  imports DwarfData
begin

text \<open>
  \<^verbatim>\<open>Crashlytics/Unwind/Dwarf/FIRCLSDwarfExpressionMachine.c\<close>: the stack machine for DWARF location
  expressions.  The stack is a buffer of 100 words with a pointer into it, which an overflow or an
  underflow sets to NULL.

  An operation of the machine yields its return value and the changed machine; the outer
  \<^term>\<open>None\<close> is a fault.
\<close>

section \<open>The stack\<close>

definition CLS_DWARF_EXPRESSION_STACK_SIZE :: nat where "CLS_DWARF_EXPRESSION_STACK_SIZE = 100"

text \<open>The pointer is the index of the slot it points to, NULL is \<^term>\<open>None\<close>.\<close>

record FIRCLSDwarfExpressionStack =
  st_buffer :: "u64 list"
  st_pointer :: "nat option"

definition FIRCLSDwarfExpressionStackInit :: FIRCLSDwarfExpressionStack where
  "FIRCLSDwarfExpressionStackInit =
     \<lparr>st_buffer = replicate CLS_DWARF_EXPRESSION_STACK_SIZE 0, st_pointer = Some 0\<rparr>"

definition FIRCLSDwarfExpressionStackIsValid :: "FIRCLSDwarfExpressionStack \<Rightarrow> bool" where
  "FIRCLSDwarfExpressionStackIsValid s =
     (case st_pointer s of None \<Rightarrow> False | Some p \<Rightarrow> p \<le> CLS_DWARF_EXPRESSION_STACK_SIZE)"

definition FIRCLSDwarfExpressionStackPush ::
  "FIRCLSDwarfExpressionStack \<Rightarrow> u64 \<Rightarrow> bool \<times> FIRCLSDwarfExpressionStack" where
  "FIRCLSDwarfExpressionStackPush s v =
     (if \<not> FIRCLSDwarfExpressionStackIsValid s then (False, s)
      else let p = the (st_pointer s) in
        if p = CLS_DWARF_EXPRESSION_STACK_SIZE then (False, s\<lparr>st_pointer := None\<rparr>)
        else (True, s\<lparr>st_buffer := (st_buffer s)[p := v], st_pointer := Some (p + 1)\<rparr>))"

definition FIRCLSDwarfExpressionStackPeek ::
  "FIRCLSDwarfExpressionStack \<Rightarrow> u64 \<times> FIRCLSDwarfExpressionStack" where
  "FIRCLSDwarfExpressionStackPeek s =
     (if \<not> FIRCLSDwarfExpressionStackIsValid s then (0, s)
      else let p = the (st_pointer s) in
        if p = 0 then (0, s\<lparr>st_pointer := None\<rparr>)
        else (st_buffer s ! (p - 1), s))"

definition FIRCLSDwarfExpressionStackPop ::
  "FIRCLSDwarfExpressionStack \<Rightarrow> u64 \<times> FIRCLSDwarfExpressionStack" where
  "FIRCLSDwarfExpressionStackPop s =
     (if \<not> FIRCLSDwarfExpressionStackIsValid s then (0, s)
      else let p = the (st_pointer s) in
        if p = 0 then (0, s\<lparr>st_pointer := None\<rparr>)
        else (st_buffer s ! (p - 1), s\<lparr>st_pointer := Some (p - 1)\<rparr>))"

section \<open>The machine\<close>

record FIRCLSDwarfExpressionMachine =
  m_stack :: FIRCLSDwarfExpressionStack
  m_dataCursor :: cursor
  m_endAddress :: u64
  m_registers :: FIRCLSThreadContext

text \<open>
  The \<open>memset\<close> leaves a NULL stack pointer and NULL cursors; the machine is not used when the result
  is false.
\<close>

definition FIRCLSDwarfExpressionMachineInit ::
  "cursor \<Rightarrow> FIRCLSThreadContext \<Rightarrow> u64 \<Rightarrow> bool \<times> FIRCLSDwarfExpressionMachine" where
  "FIRCLSDwarfExpressionMachineInit cursor registers stackValue =
     (let zeroed = \<lparr>m_stack = \<lparr>st_buffer = replicate CLS_DWARF_EXPRESSION_STACK_SIZE 0, st_pointer = None\<rparr>,
                    m_dataCursor = 0, m_endAddress = 0, m_registers = registers\<rparr> in
      if \<not> FIRCLSIsValidPointer cursor then (False, zeroed)
      else
        let (ok, st) = FIRCLSDwarfExpressionStackPush FIRCLSDwarfExpressionStackInit stackValue in
        (ok, zeroed\<lparr>m_dataCursor := cursor, m_registers := registers, m_stack := st\<rparr>))"

definition FIRCLSDwarfExpressionMachinePrepareForExecution ::
  "cmem \<Rightarrow> FIRCLSDwarfExpressionMachine \<Rightarrow> (bool \<times> FIRCLSDwarfExpressionMachine) option" where
  "FIRCLSDwarfExpressionMachinePrepareForExecution cm m = do {
     (expressionLength, cursor) \<leftarrow> FIRCLSParseULEB128AndAdvance cm (m_dataCursor m);
     let m = m\<lparr>m_dataCursor := cursor\<rparr>;
     if expressionLength = 0 then Some (False, m)
     else do {
       endAddress \<leftarrow> ptr_add cursor (unat expressionLength);
       Some (True, m\<lparr>m_endAddress := endAddress\<rparr>)
     }
   }"

definition FIRCLSDwarfExpressionMachineIsFinished :: "FIRCLSDwarfExpressionMachine \<Rightarrow> bool" where
  "FIRCLSDwarfExpressionMachineIsFinished m =
     (if \<not> FIRCLSIsValidPointer (m_endAddress m) \<or> \<not> FIRCLSIsValidPointer (m_dataCursor m) then True
      else if \<not> FIRCLSDwarfExpressionStackIsValid (m_stack m) then True
      else m_dataCursor m \<ge> m_endAddress m)"

text \<open>The return value, the \<open>*result\<close> where it is written, and the machine.\<close>

definition FIRCLSDwarfExpressionMachineGetResult ::
  "FIRCLSDwarfExpressionMachine \<Rightarrow> bool \<times> u64 option \<times> FIRCLSDwarfExpressionMachine" where
  "FIRCLSDwarfExpressionMachineGetResult m =
     (if m_dataCursor m \<noteq> m_endAddress m then (False, None, m)
      else let (result, st) = FIRCLSDwarfExpressionStackPeek (m_stack m) in
        (FIRCLSDwarfExpressionStackIsValid st, Some result, m\<lparr>m_stack := st\<rparr>))"

definition FIRCLSDwarfExpressionMachineStackPop ::
  "FIRCLSDwarfExpressionMachine \<Rightarrow> u64 \<times> FIRCLSDwarfExpressionMachine" where
  "FIRCLSDwarfExpressionMachineStackPop m =
     (let (v, st) = FIRCLSDwarfExpressionStackPop (m_stack m) in (v, m\<lparr>m_stack := st\<rparr>))"

definition FIRCLSDwarfExpressionMachineStackPush ::
  "FIRCLSDwarfExpressionMachine \<Rightarrow> u64 \<Rightarrow> bool \<times> FIRCLSDwarfExpressionMachine" where
  "FIRCLSDwarfExpressionMachineStackPush m v =
     (let (ok, st) = FIRCLSDwarfExpressionStackPush (m_stack m) v in (ok, m\<lparr>m_stack := st\<rparr>))"

section \<open>The opcodes\<close>

definition DW_OP_deref :: byte where "DW_OP_deref = 0x06"
definition DW_OP_dup :: byte where "DW_OP_dup = 0x12"
definition DW_OP_swap :: byte where "DW_OP_swap = 0x16"
definition DW_OP_and :: byte where "DW_OP_and = 0x1A"
definition DW_OP_plus :: byte where "DW_OP_plus = 0x22"
definition DW_OP_plus_uconst :: byte where "DW_OP_plus_uconst = 0x23"
definition DW_OP_ne :: byte where "DW_OP_ne = 0x2E"
definition DW_OP_lit0 :: byte where "DW_OP_lit0 = 0x30"
definition DW_OP_lit31 :: byte where "DW_OP_lit31 = 0x4F"
definition DW_OP_breg0 :: byte where "DW_OP_breg0 = 0x70"
definition DW_OP_breg31 :: byte where "DW_OP_breg31 = 0x8F"
definition DW_OP_deref_size :: byte where "DW_OP_deref_size = 0x94"

definition FIRCLSDwarfExpressionMachineExecute_bregN ::
  "cmem \<Rightarrow> FIRCLSDwarfExpressionMachine \<Rightarrow> byte \<Rightarrow> (bool \<times> FIRCLSDwarfExpressionMachine) option" where
  "FIRCLSDwarfExpressionMachineExecute_bregN cm m opcode =
     (let regNum = opcode - DW_OP_breg0 in
      if ucast regNum > CLS_DWARF_MAX_REGISTER_NUM then Some (False, m)
      else do {
        (offset, cursor) \<leftarrow> FIRCLSParseLEB128AndAdvance cm (m_dataCursor m);
        let m = m\<lparr>m_dataCursor := cursor\<rparr>;
        let value = FIRCLSDwarfUnwindGetRegisterValue (m_registers m) (ucast regNum) + offset;
        Some (FIRCLSDwarfExpressionMachineStackPush m value)
      })"

definition FIRCLSDwarfExpressionMachineExecute_deref ::
  "cmem \<Rightarrow> FIRCLSDwarfExpressionMachine \<Rightarrow> (bool \<times> FIRCLSDwarfExpressionMachine) option" where
  "FIRCLSDwarfExpressionMachineExecute_deref cm m =
     (let (value, m) = FIRCLSDwarfExpressionMachineStackPop m in
      case FIRCLSReadMemory cm value 8 of
        None \<Rightarrow> Some (False, m)
      | Some bs \<Rightarrow> Some (FIRCLSDwarfExpressionMachineStackPush m (le_word bs)))"

definition FIRCLSDwarfExpressionMachineExecute_plus_uconst ::
  "cmem \<Rightarrow> FIRCLSDwarfExpressionMachine \<Rightarrow> (bool \<times> FIRCLSDwarfExpressionMachine) option" where
  "FIRCLSDwarfExpressionMachineExecute_plus_uconst cm m = do {
     let (value, m) = FIRCLSDwarfExpressionMachineStackPop m;
     (u, cursor) \<leftarrow> FIRCLSParseULEB128AndAdvance cm (m_dataCursor m);
     let m = m\<lparr>m_dataCursor := cursor\<rparr>;
     Some (FIRCLSDwarfExpressionMachineStackPush m (value + u))
   }"

definition FIRCLSDwarfExpressionMachineExecute_and ::
  "FIRCLSDwarfExpressionMachine \<Rightarrow> bool \<times> FIRCLSDwarfExpressionMachine" where
  "FIRCLSDwarfExpressionMachineExecute_and m =
     (let (value, m) = FIRCLSDwarfExpressionMachineStackPop m;
          (value2, m) = FIRCLSDwarfExpressionMachineStackPop m in
      FIRCLSDwarfExpressionMachineStackPush m (value AND value2))"

text \<open>The addition is one of signed integers.\<close>

definition FIRCLSDwarfExpressionMachineExecute_plus ::
  "FIRCLSDwarfExpressionMachine \<Rightarrow> (bool \<times> FIRCLSDwarfExpressionMachine) option" where
  "FIRCLSDwarfExpressionMachineExecute_plus m =
     (let (value, m) = FIRCLSDwarfExpressionMachineStackPop m;
          (value2, m) = FIRCLSDwarfExpressionMachineStackPop m in
      do { v \<leftarrow> add_signed value value2; Some (FIRCLSDwarfExpressionMachineStackPush m v) })"

definition FIRCLSDwarfExpressionMachineExecute_dup ::
  "FIRCLSDwarfExpressionMachine \<Rightarrow> bool \<times> FIRCLSDwarfExpressionMachine" where
  "FIRCLSDwarfExpressionMachineExecute_dup m =
     (let (value, st) = FIRCLSDwarfExpressionStackPeek (m_stack m) in
      FIRCLSDwarfExpressionMachineStackPush (m\<lparr>m_stack := st\<rparr>) value)"

definition FIRCLSDwarfExpressionMachineExecute_swap ::
  "FIRCLSDwarfExpressionMachine \<Rightarrow> bool \<times> FIRCLSDwarfExpressionMachine" where
  "FIRCLSDwarfExpressionMachineExecute_swap m =
     (let (valueA, m) = FIRCLSDwarfExpressionMachineStackPop m;
          (valueB, m) = FIRCLSDwarfExpressionMachineStackPop m;
          (ok, m) = FIRCLSDwarfExpressionMachineStackPush m valueA in
      if \<not> ok then (False, m) else FIRCLSDwarfExpressionMachineStackPush m valueB)"

text \<open>The popped address is read through the pointer, not by \<open>FIRCLSReadMemory\<close>.\<close>

definition FIRCLSDwarfExpressionMachineExecute_deref_size ::
  "cmem \<Rightarrow> FIRCLSDwarfExpressionMachine \<Rightarrow> (bool \<times> FIRCLSDwarfExpressionMachine) option" where
  "FIRCLSDwarfExpressionMachineExecute_deref_size cm m = do {
     let (address, m) = FIRCLSDwarfExpressionMachineStackPop m;
     (readSize, cursor) \<leftarrow> FIRCLSParseUint8AndAdvance cm (m_dataCursor m);
     let m = m\<lparr>m_dataCursor := cursor\<rparr>;
     if readSize = 1 then
       do { (v, _) \<leftarrow> FIRCLSParseUint8AndAdvance cm address;
            Some (FIRCLSDwarfExpressionMachineStackPush m (ucast v)) }
     else if readSize = 2 then
       do { (v, _) \<leftarrow> FIRCLSParseUint16AndAdvance cm address;
            Some (FIRCLSDwarfExpressionMachineStackPush m (ucast v)) }
     else if readSize = 4 then
       do { (v, _) \<leftarrow> FIRCLSParseUint32AndAdvance cm address;
            Some (FIRCLSDwarfExpressionMachineStackPush m (ucast v)) }
     else if readSize = 8 then
       do { (v, _) \<leftarrow> FIRCLSParseUint64AndAdvance cm address;
            Some (FIRCLSDwarfExpressionMachineStackPush m v) }
     else Some (False, m)
   }"

definition FIRCLSDwarfExpressionMachineExecute_ne ::
  "FIRCLSDwarfExpressionMachine \<Rightarrow> bool \<times> FIRCLSDwarfExpressionMachine" where
  "FIRCLSDwarfExpressionMachineExecute_ne m =
     (let (value, m) = FIRCLSDwarfExpressionMachineStackPop m;
          (value2, m) = FIRCLSDwarfExpressionMachineStackPop m in
      FIRCLSDwarfExpressionMachineStackPush m (if value \<noteq> value2 then 1 else 0))"

definition FIRCLSDwarfExpressionMachineExecute_litN ::
  "FIRCLSDwarfExpressionMachine \<Rightarrow> byte \<Rightarrow> bool \<times> FIRCLSDwarfExpressionMachine" where
  "FIRCLSDwarfExpressionMachineExecute_litN m opcode =
     FIRCLSDwarfExpressionMachineStackPush m (ucast (opcode - DW_OP_lit0))"

text \<open>The switch of the interpreter.\<close>

definition execute_opcode ::
  "cmem \<Rightarrow> byte \<Rightarrow> FIRCLSDwarfExpressionMachine \<Rightarrow> (bool \<times> FIRCLSDwarfExpressionMachine) option" where
  "execute_opcode cm opcode m =
     (if opcode = DW_OP_deref then FIRCLSDwarfExpressionMachineExecute_deref cm m
      else if opcode = DW_OP_dup then Some (FIRCLSDwarfExpressionMachineExecute_dup m)
      else if opcode = DW_OP_and then Some (FIRCLSDwarfExpressionMachineExecute_and m)
      else if opcode = DW_OP_plus then FIRCLSDwarfExpressionMachineExecute_plus m
      else if opcode = DW_OP_swap then Some (FIRCLSDwarfExpressionMachineExecute_swap m)
      else if opcode = DW_OP_plus_uconst then FIRCLSDwarfExpressionMachineExecute_plus_uconst cm m
      else if opcode = DW_OP_ne then Some (FIRCLSDwarfExpressionMachineExecute_ne m)
      else if DW_OP_lit0 \<le> opcode \<and> opcode \<le> DW_OP_lit31 then
        Some (FIRCLSDwarfExpressionMachineExecute_litN m opcode)
      else if DW_OP_breg0 \<le> opcode \<and> opcode \<le> DW_OP_breg31 then
        FIRCLSDwarfExpressionMachineExecute_bregN cm m opcode
      else if opcode = DW_OP_deref_size then FIRCLSDwarfExpressionMachineExecute_deref_size cm m
      else Some (False, m))"

definition FIRCLSDwarfExpressionMachineExecuteNextOpcode ::
  "cmem \<Rightarrow> FIRCLSDwarfExpressionMachine \<Rightarrow> (bool \<times> FIRCLSDwarfExpressionMachine) option" where
  "FIRCLSDwarfExpressionMachineExecuteNextOpcode cm m = do {
     (opcode, cursor) \<leftarrow> FIRCLSParseUint8AndAdvance cm (m_dataCursor m);
     execute_opcode cm opcode (m\<lparr>m_dataCursor := cursor\<rparr>)
   }"

section \<open>The cursor advances\<close>

named_theorems fixed_parse
lemmas [fixed_parse] = FIRCLSParseUint8AndAdvance_def FIRCLSParseUint16AndAdvance_def FIRCLSParseUint32AndAdvance_def
  FIRCLSParseUint64AndAdvance_def

lemma ptr_add_unat: "ptr_add p n = Some q \<Longrightarrow> unat q = unat p + n"
  by (auto simp: ptr_add_def unat_word_ariths unat_of_nat split: if_splits)

lemma parse8_unat: "FIRCLSParseUint8AndAdvance cm c = Some (v, c') \<Longrightarrow> unat c' = unat c + 1"
  by (auto simp: FIRCLSParseUint8AndAdvance_def Option.bind_eq_Some_conv dest: ptr_add_unat)

lemma uleb_loop_unat: "uleb_loop cm n shift result c = Some (v, c') \<Longrightarrow> unat c \<le> unat c'"
  by (induction cm n shift result c rule: uleb_loop.induct)
     (fastforce simp: Option.bind_eq_Some_conv Let_def split: if_splits dest!: parse8_unat dest: Suc_leD)+

lemma leb_loop_unat: "leb_loop cm n shift result b c = Some (v, s, b', c') \<Longrightarrow> unat c \<le> unat c'"
  by (induction cm n shift result b c rule: leb_loop.induct)
     (fastforce simp: Option.bind_eq_Some_conv Let_def split: if_splits dest!: parse8_unat dest: Suc_leD)+

lemma uleb_unat: "FIRCLSParseULEB128AndAdvance cm c = Some (v, c') \<Longrightarrow> unat c \<le> unat c'"
  by (auto simp: FIRCLSParseULEB128AndAdvance_def dest: uleb_loop_unat)

lemma leb_unat: "FIRCLSParseLEB128AndAdvance cm c = Some (v, c') \<Longrightarrow> unat c \<le> unat c'"
  by (auto simp: FIRCLSParseLEB128AndAdvance_def Option.bind_eq_Some_conv split: if_splits dest!: leb_loop_unat)

lemma machine_pop_cursor:
  "FIRCLSDwarfExpressionMachineStackPop m = (v, m') \<Longrightarrow>
     m_dataCursor m' = m_dataCursor m \<and> m_endAddress m' = m_endAddress m \<and> m_registers m' = m_registers m"
  by (auto simp: FIRCLSDwarfExpressionMachineStackPop_def split: prod.splits)

lemma machine_push_cursor:
  "FIRCLSDwarfExpressionMachineStackPush m v = (ok, m') \<Longrightarrow>
     m_dataCursor m' = m_dataCursor m \<and> m_endAddress m' = m_endAddress m \<and> m_registers m' = m_registers m"
  by (auto simp: FIRCLSDwarfExpressionMachineStackPush_def split: prod.splits)


lemma execute_opcode_cursor:
  assumes "execute_opcode cm opcode m = Some (ok, m')"
  shows "unat (m_dataCursor m) \<le> unat (m_dataCursor m') \<and> m_endAddress m' = m_endAddress m \<and>
         m_registers m' = m_registers m"
  using assms
  by (auto simp: execute_opcode_def FIRCLSDwarfExpressionMachineExecute_deref_def
      FIRCLSDwarfExpressionMachineExecute_dup_def FIRCLSDwarfExpressionMachineExecute_and_def
      FIRCLSDwarfExpressionMachineExecute_plus_def FIRCLSDwarfExpressionMachineExecute_swap_def
      FIRCLSDwarfExpressionMachineExecute_plus_uconst_def FIRCLSDwarfExpressionMachineExecute_ne_def
      FIRCLSDwarfExpressionMachineExecute_litN_def FIRCLSDwarfExpressionMachineExecute_bregN_def
      FIRCLSDwarfExpressionMachineExecute_deref_size_def Option.bind_eq_Some_conv Let_def
      split: if_splits prod.splits option.splits
      dest!: machine_pop_cursor machine_push_cursor uleb_unat leb_unat parse8_unat)

lemma execute_next_cursor:
  assumes "FIRCLSDwarfExpressionMachineExecuteNextOpcode cm m = Some (ok, m')"
  shows "unat (m_dataCursor m) < unat (m_dataCursor m') \<and> m_endAddress m' = m_endAddress m \<and>
         m_registers m' = m_registers m"
  using assms
  by (auto simp: FIRCLSDwarfExpressionMachineExecuteNextOpcode_def Option.bind_eq_Some_conv
      dest!: execute_opcode_cursor parse8_unat)

section \<open>Running the machine\<close>

text \<open>The \<open>while\<close> loop of \<open>FIRCLSDwarfEvalulateExpression\<close>; false is the early return.\<close>

function machine_loop ::
  "cmem \<Rightarrow> FIRCLSDwarfExpressionMachine \<Rightarrow> (bool \<times> FIRCLSDwarfExpressionMachine) option" where
  "machine_loop cm m =
     (if FIRCLSDwarfExpressionMachineIsFinished m then Some (True, m)
      else case FIRCLSDwarfExpressionMachineExecuteNextOpcode cm m of
        None \<Rightarrow> None
      | Some (ok, m') \<Rightarrow> if ok then machine_loop cm m' else Some (False, m'))"
  by pat_completeness auto
termination
proof (relation "measure (\<lambda>(cm, m). 2 ^ 64 - unat (m_dataCursor m))", simp, goal_cases)
  case hyp: (1 cm m p ok m')
  then have "unat (m_dataCursor m) < unat (m_dataCursor m')"
    using execute_next_cursor by auto
  moreover have "unat (m_dataCursor m') < 2 ^ 64" by (rule order_less_le_trans [OF unsigned_less]) simp
  ultimately show ?case by simp
qed

declare machine_loop.simps [simp del]

text \<open>The return value, and \<open>*result\<close> where it is written.\<close>

definition FIRCLSDwarfEvalulateExpression ::
  "cmem \<Rightarrow> cursor \<Rightarrow> FIRCLSThreadContext \<Rightarrow> u64 \<Rightarrow> (bool \<times> u64 option) option" where
  "FIRCLSDwarfEvalulateExpression cm cursor registers stackValue =
     (if \<not> FIRCLSIsValidPointer cursor then Some (False, None)
      else
        let (ok, m) = FIRCLSDwarfExpressionMachineInit cursor registers stackValue in
        if \<not> ok then Some (False, None)
        else do {
          (ok, m) \<leftarrow> FIRCLSDwarfExpressionMachinePrepareForExecution cm m;
          if \<not> ok then Some (False, None)
          else do {
            (ok, m) \<leftarrow> machine_loop cm m;
            if \<not> ok then Some (False, None)
            else let (ok, result, _) = FIRCLSDwarfExpressionMachineGetResult m in Some (ok, result)
          }
        })"

end
