(* ===== verification/DwarfUnwind.thy ===== *)
theory DwarfUnwind
  imports DwarfMachine
begin

text \<open>
  \<^verbatim>\<open>Crashlytics/Unwind/Dwarf/FIRCLSDwarfUnwind.c\<close>: the CIE and FDE records of an \<open>__eh_frame\<close> section,
  the interpreter of the call frame instructions and the computation of the caller's registers.

  The functions that fill a record yield their return value and the record; the outer
  \<^term>\<open>None\<close> is a fault.  The arguments that the code checks for NULL are the addresses in the
  crashed process (\<open>ptr\<close>, \<open>ehFrame\<close>); the records themselves are locals of the callers.
\<close>

section \<open>Records\<close>

record DWARFInstructions =
  ins_length :: u32
  ins_data :: u64

record DWARFCIERecord =
  cie_length :: u64
  cie_version :: byte
  cie_ehData :: u64
  cie_augmentation :: u64
  cie_pointerEncoding :: byte
  cie_lsdaEncoding :: byte
  cie_personalityEncoding :: byte
  cie_personalityFunction :: u64
  cie_codeAlignFactor :: u64
  cie_dataAlignFactor :: u64
  cie_returnAddressRegister :: u64
  cie_signalFrame :: bool
  cie_instructions :: DWARFInstructions

record DWARFFDERecord =
  fde_length :: u64
  fde_cieOffset :: u64
  fde_startAddress :: u64
  fde_rangeSize :: u64
  fde_instructions :: DWARFInstructions

record FIRCLSDwarfCFIRecord =
  cfi_cie :: DWARFCIERecord
  cfi_fde :: DWARFFDERecord

text \<open>What \<open>memset\<close> to zero leaves.\<close>

definition zero_instructions :: DWARFInstructions where
  "zero_instructions = \<lparr>ins_length = 0, ins_data = 0\<rparr>"

definition zero_cie :: DWARFCIERecord where
  "zero_cie = \<lparr>cie_length = 0, cie_version = 0, cie_ehData = 0, cie_augmentation = 0,
     cie_pointerEncoding = 0, cie_lsdaEncoding = 0, cie_personalityEncoding = 0,
     cie_personalityFunction = 0, cie_codeAlignFactor = 0, cie_dataAlignFactor = 0,
     cie_returnAddressRegister = 0, cie_signalFrame = False, cie_instructions = zero_instructions\<rparr>"

definition ptr_sub :: "u64 \<Rightarrow> nat \<Rightarrow> u64 option" where
  "ptr_sub p n = (if n \<le> unat p then Some (p - of_nat n) else None)"

section \<open>Record parsing\<close>

definition DWARF_CIE_ID_CIE_FLAG :: u32 where "DWARF_CIE_ID_CIE_FLAG = 0"

text \<open>One entry of the augmentation string; the boolean is false at the early returns.\<close>

definition augmentation_entry ::
  "cmem \<Rightarrow> byte \<Rightarrow> DWARFCIERecord \<Rightarrow> cursor \<Rightarrow> (bool \<times> DWARFCIERecord \<times> cursor) option" where
  "augmentation_entry cm c r ptr =
     (if c = 0x4C then do {
        (b, ptr) \<leftarrow> FIRCLSParseUint8AndAdvance cm ptr;
        Some (True, r\<lparr>cie_lsdaEncoding := b\<rparr>, ptr) }
      else if c = 0x52 then do {
        (b, ptr) \<leftarrow> FIRCLSParseUint8AndAdvance cm ptr;
        Some (True, r\<lparr>cie_pointerEncoding := b\<rparr>, ptr) }
      else if c = 0x50 then do {
        (b, ptr) \<leftarrow> FIRCLSParseUint8AndAdvance cm ptr;
        (f, ptr) \<leftarrow> FIRCLSParseAddressWithEncodingAndAdvance cm ptr b;
        Some (f \<noteq> CLS_INVALID_ADDRESS, r\<lparr>cie_personalityEncoding := b, cie_personalityFunction := f\<rparr>, ptr) }
      else if c = 0x53 then Some (True, r\<lparr>cie_signalFrame := True\<rparr>, ptr)
      else Some (False, r, ptr))"

text \<open>The loop over the rest of the string, \<open>n\<close> characters from the index \<open>i\<close>.\<close>

fun augmentation_loop ::
  "cmem \<Rightarrow> nat \<Rightarrow> nat \<Rightarrow> u64 \<Rightarrow> DWARFCIERecord \<Rightarrow> cursor \<Rightarrow> (bool \<times> DWARFCIERecord \<times> cursor) option" where
  "augmentation_loop cm 0 i ending r ptr = Some (True, r, ptr)"
| "augmentation_loop cm (Suc n) i ending r ptr = do {
     c \<leftarrow> load_word cm (unat (cie_augmentation r) + i) 1;
     (ok, r, ptr) \<leftarrow> augmentation_entry cm c r ptr;
     if \<not> ok then Some (False, r, ptr)
     else if ptr > ending then Some (False, r, ptr)
     else augmentation_loop cm n (i + 1) ending r ptr
   }"

definition FIRCLSDwarfParseAndProcessAugmentation ::
  "cmem \<Rightarrow> DWARFCIERecord \<Rightarrow> cursor \<Rightarrow> (bool \<times> DWARFCIERecord \<times> cursor) option" where
  "FIRCLSDwarfParseAndProcessAugmentation cm r ptr =
     (if cie_augmentation r = 0 then Some (False, r, ptr)
      else do {
        c \<leftarrow> (load_word cm (unat (cie_augmentation r)) 1 :: byte option);
        if c = 0 then Some (True, r, ptr)
        else if c \<noteq> 0x7A then Some (False, r, ptr)
        else do {
          stringLength \<leftarrow> c_strlen cm (unat (cie_augmentation r));
          (dataLength, ptr) \<leftarrow> FIRCLSParseULEB128AndAdvance cm ptr;
          ending \<leftarrow> ptr_add ptr (unat dataLength);
          augmentation_loop cm (stringLength - 1) 1 ending r ptr
        }
      })"

definition FIRCLSDwarfParseCIERecord ::
  "cmem \<Rightarrow> DWARFCIERecord \<Rightarrow> u64 \<Rightarrow> (bool \<times> DWARFCIERecord) option" where
  "FIRCLSDwarfParseCIERecord cm cie ptr =
     (if ptr = 0 then Some (False, cie)
      else do {
        (len, ptr) \<leftarrow> FIRCLSParseRecordLengthAndAdvance cm ptr;
        let cie = zero_cie\<lparr>cie_length := len\<rparr>;
        if len = 0 then Some (False, cie)
        else do {
          endAddress \<leftarrow> ptr_add ptr (unat len);
          (_, ptr) \<leftarrow> FIRCLSParseUint32AndAdvance cm ptr;
          (version, ptr) \<leftarrow> FIRCLSParseUint8AndAdvance cm ptr;
          (augmentation, ptr) \<leftarrow> FIRCLSParseStringAndAdvance cm ptr;
          (codeAlign, ptr) \<leftarrow> FIRCLSParseULEB128AndAdvance cm ptr;
          (dataAlign, ptr) \<leftarrow> FIRCLSParseLEB128AndAdvance cm ptr;
          let cie = cie\<lparr>cie_version := version, cie_pointerEncoding := DW_EH_PE_absptr,
                        cie_lsdaEncoding := DW_EH_PE_absptr, cie_augmentation := augmentation,
                        cie_codeAlignFactor := codeAlign, cie_dataAlignFactor := dataAlign\<rparr>;
          if version \<noteq> 1 \<and> version \<noteq> 3 then Some (False, cie)
          else do {
            (reg, ptr) \<leftarrow> (if version = 1
                           then do { (b, ptr) \<leftarrow> FIRCLSParseUint8AndAdvance cm ptr; Some (ucast b, ptr) }
                           else FIRCLSParseULEB128AndAdvance cm ptr);
            let cie = cie\<lparr>cie_returnAddressRegister := reg\<rparr>;
            (ok, cie, ptr) \<leftarrow> FIRCLSDwarfParseAndProcessAugmentation cm cie ptr;
            if \<not> ok then Some (False, cie)
            else Some (True, cie\<lparr>cie_instructions := \<lparr>ins_length = ucast (endAddress - ptr), ins_data = ptr\<rparr>\<rparr>)
          }
        }
      })"

definition FIRCLSDwarfCIEIsValid :: "DWARFCIERecord \<Rightarrow> bool" where
  "FIRCLSDwarfCIEIsValid cie =
     (if cie_length cie = 0 then False
      else if cie_version cie \<noteq> 1 \<and> cie_version cie \<noteq> 3 then False
      else True)"

definition FIRCLSDwarfCIEHasAugmentationData :: "cmem \<Rightarrow> DWARFCIERecord \<Rightarrow> bool option" where
  "FIRCLSDwarfCIEHasAugmentationData cm cie =
     (if cie_augmentation cie = 0 then Some False
      else do {
        c \<leftarrow> (load_word cm (unat (cie_augmentation cie)) 1 :: byte option);
        Some (c = 0x7A)
      })"

text \<open>The part of \<open>FIRCLSDwarfParseFDERecord\<close> after the CIE: addresses, augmentation, instructions.\<close>

definition parse_fde_body ::
  "cmem \<Rightarrow> DWARFCIERecord \<Rightarrow> u64 \<Rightarrow> DWARFFDERecord \<Rightarrow> cursor \<Rightarrow> (bool \<times> DWARFFDERecord) option" where
  "parse_fde_body cm cie endAddress fde ptr = do {
     (start, ptr) \<leftarrow> FIRCLSParseAddressWithEncodingAndAdvance cm ptr (cie_pointerEncoding cie);
     let fde = fde\<lparr>fde_startAddress := start\<rparr>;
     if start = CLS_INVALID_ADDRESS then Some (False, fde)
     else do {
       (range, ptr) \<leftarrow> FIRCLSParseAddressWithEncodingAndAdvance cm ptr
                         (cie_pointerEncoding cie AND DW_EH_PE_VALUE_MASK);
       let fde = fde\<lparr>fde_rangeSize := range\<rparr>;
       if range = CLS_INVALID_ADDRESS then Some (False, fde)
       else do {
         aug \<leftarrow> FIRCLSDwarfCIEHasAugmentationData cm cie;
         ptr \<leftarrow> (if aug then do { (n, ptr) \<leftarrow> FIRCLSParseULEB128AndAdvance cm ptr; ptr_add ptr (unat n) }
                 else Some ptr);
         Some (True, fde\<lparr>fde_instructions := \<lparr>ins_length = ucast (endAddress - ptr), ins_data = ptr\<rparr>\<rparr>)
       }
     }
   }"

definition FIRCLSDwarfParseFDERecord ::
  "cmem \<Rightarrow> DWARFFDERecord \<Rightarrow> bool \<Rightarrow> DWARFCIERecord \<Rightarrow> u64 \<Rightarrow>
     (bool \<times> DWARFFDERecord \<times> DWARFCIERecord) option" where
  "FIRCLSDwarfParseFDERecord cm fde parseCIE cie ptr =
     (if ptr = 0 then Some (False, fde, cie)
      else do {
        (len, ptr) \<leftarrow> FIRCLSParseRecordLengthAndAdvance cm ptr;
        let fde = fde\<lparr>fde_length := len\<rparr>;
        if len = 0 then Some (False, fde, cie)
        else do {
          endAddress \<leftarrow> ptr_add ptr (unat len);
          (off, ptr) \<leftarrow> FIRCLSParseUint32AndAdvance cm ptr;
          let fde = fde\<lparr>fde_cieOffset := ucast off\<rparr>;
          if off = 0 then Some (False, fde, cie)
          else do {
            (ok, cie) \<leftarrow> (if parseCIE then do {
                            ciePointer \<leftarrow> ptr_sub ptr (unat off + 4);
                            FIRCLSDwarfParseCIERecord cm cie ciePointer }
                          else Some (True, cie));
            if \<not> ok then Some (False, fde, cie)
            else if \<not> FIRCLSDwarfCIEIsValid cie then Some (False, fde, cie)
            else do {
              (ok, fde) \<leftarrow> parse_fde_body cm cie endAddress fde ptr;
              Some (ok, fde, cie)
            }
          }
        }
      })"

definition FIRCLSDwarfParseCFIFromFDERecord ::
  "cmem \<Rightarrow> FIRCLSDwarfCFIRecord \<Rightarrow> u64 \<Rightarrow> (bool \<times> FIRCLSDwarfCFIRecord) option" where
  "FIRCLSDwarfParseCFIFromFDERecord cm r ptr =
     (if ptr = 0 then Some (False, r)
      else do {
        (ok, fde, cie) \<leftarrow> FIRCLSDwarfParseFDERecord cm (cfi_fde r) True (cfi_cie r) ptr;
        Some (ok, r\<lparr>cfi_fde := fde, cfi_cie := cie\<rparr>)
      })"

definition FIRCLSDwarfParseCFIFromFDERecordOffset ::
  "cmem \<Rightarrow> FIRCLSDwarfCFIRecord \<Rightarrow> u64 \<Rightarrow> u64 \<Rightarrow> (bool \<times> FIRCLSDwarfCFIRecord) option" where
  "FIRCLSDwarfParseCFIFromFDERecordOffset cm r ehFrame fdeOffset =
     (if ehFrame = 0 \<or> fdeOffset = 0 then Some (False, r)
      else do {
        ptr \<leftarrow> ptr_add ehFrame (unat fdeOffset);
        FIRCLSDwarfParseCFIFromFDERecord cm r ptr
      })"

section \<open>Call frame instructions\<close>

datatype FIRCLSDwarfRegisterLocation =
    FIRCLSDwarfRegisterUnused
  | FIRCLSDwarfRegisterInCFA
  | FIRCLSDwarfRegisterOffsetFromCFA
  | FIRCLSDwarfRegisterInRegister
  | FIRCLSDwarfRegisterAtExpression
  | FIRCLSDwarfRegisterIsExpression

record FIRCLSDwarfRegister =
  reg_location :: FIRCLSDwarfRegisterLocation
  reg_value :: u64

record FIRCLSDwarfState =
  dw_cfaRegister :: u64
  dw_cfaRegisterOffset :: u64
  dw_cfaExpression :: u64
  dw_spArgSize :: u32
  dw_registers :: "FIRCLSDwarfRegister list"

definition zero_state :: FIRCLSDwarfState where
  "zero_state = \<lparr>dw_cfaRegister = 0, dw_cfaRegisterOffset = 0, dw_cfaExpression = 0, dw_spArgSize = 0,
     dw_registers = replicate (unat CLS_DWARF_MAX_REGISTER_NUM + 1)
       \<lparr>reg_location = FIRCLSDwarfRegisterUnused, reg_value = 0\<rparr>\<rparr>"

text \<open>Writing outside the array \<open>registers\<close> is undefined.\<close>

definition set_register ::
  "FIRCLSDwarfState \<Rightarrow> u64 \<Rightarrow> FIRCLSDwarfRegisterLocation \<Rightarrow> u64 \<Rightarrow> FIRCLSDwarfState option" where
  "set_register s n loc v =
     (if unat n < length (dw_registers s)
      then Some (s\<lparr>dw_registers := (dw_registers s)[unat n := \<lparr>reg_location = loc, reg_value = v\<rparr>]\<rparr>)
      else None)"

definition mul_signed :: "u64 \<Rightarrow> u64 \<Rightarrow> u64 option" where
  "mul_signed a b =
     (let p = sint a * sint b in if - (2 ^ 63) \<le> p \<and> p < 2 ^ 63 then Some (a * b) else None)"

text \<open>The instructions that move the code offset: return value, cursor and offset.\<close>

definition FIRCLSDwarfParseAndExecute_set_loc ::
  "cmem \<Rightarrow> cursor \<Rightarrow> DWARFCIERecord \<Rightarrow> (bool \<times> cursor \<times> u64) option" where
  "FIRCLSDwarfParseAndExecute_set_loc cm cursor cie = do {
     (operand, cursor) \<leftarrow> FIRCLSParseAddressWithEncodingAndAdvance cm cursor (cie_pointerEncoding cie);
     Some (True, cursor, operand)
   }"

definition FIRCLSDwarfParseAndExecute_advance_loc1 ::
  "cmem \<Rightarrow> cursor \<Rightarrow> DWARFCIERecord \<Rightarrow> u64 \<Rightarrow> (bool \<times> cursor \<times> u64) option" where
  "FIRCLSDwarfParseAndExecute_advance_loc1 cm cursor cie codeOffset = do {
     (v, cursor) \<leftarrow> FIRCLSParseUint8AndAdvance cm cursor;
     codeOffset \<leftarrow> add_signed codeOffset (ucast v * cie_codeAlignFactor cie);
     Some (True, cursor, codeOffset)
   }"

definition FIRCLSDwarfParseAndExecute_advance_loc2 ::
  "cmem \<Rightarrow> cursor \<Rightarrow> DWARFCIERecord \<Rightarrow> u64 \<Rightarrow> (bool \<times> cursor \<times> u64) option" where
  "FIRCLSDwarfParseAndExecute_advance_loc2 cm cursor cie codeOffset = do {
     (v, cursor) \<leftarrow> FIRCLSParseUint16AndAdvance cm cursor;
     codeOffset \<leftarrow> add_signed codeOffset (ucast v * cie_codeAlignFactor cie);
     Some (True, cursor, codeOffset)
   }"

definition FIRCLSDwarfParseAndExecute_advance_loc4 ::
  "cmem \<Rightarrow> cursor \<Rightarrow> DWARFCIERecord \<Rightarrow> u64 \<Rightarrow> (bool \<times> cursor \<times> u64) option" where
  "FIRCLSDwarfParseAndExecute_advance_loc4 cm cursor cie codeOffset = do {
     (v, cursor) \<leftarrow> FIRCLSParseUint32AndAdvance cm cursor;
     codeOffset \<leftarrow> add_signed codeOffset (ucast v * cie_codeAlignFactor cie);
     Some (True, cursor, codeOffset)
   }"

text \<open>The assignment is the code's: this instruction does not add to the offset.\<close>

definition FIRCLSDwarfParseAndExecute_advance_loc ::
  "DWARFCIERecord \<Rightarrow> byte \<Rightarrow> u64 option" where
  "FIRCLSDwarfParseAndExecute_advance_loc cie delta = mul_signed (ucast delta) (cie_codeAlignFactor cie)"

text \<open>The instructions that change the register rules: return value, cursor and state.\<close>

definition FIRCLSDwarfParseAndExecute_def_cfa ::
  "cmem \<Rightarrow> cursor \<Rightarrow> FIRCLSDwarfState \<Rightarrow> (bool \<times> cursor \<times> FIRCLSDwarfState) option" where
  "FIRCLSDwarfParseAndExecute_def_cfa cm cursor s = do {
     (regNum, cursor) \<leftarrow> FIRCLSParseULEB128AndAdvance cm cursor;
     if regNum > CLS_DWARF_MAX_REGISTER_NUM then Some (False, cursor, s)
     else do {
       (offset, cursor) \<leftarrow> FIRCLSParseULEB128AndAdvance cm cursor;
       Some (True, cursor, s\<lparr>dw_cfaRegister := regNum, dw_cfaRegisterOffset := offset\<rparr>)
     }
   }"

definition FIRCLSDwarfParseAndExecute_def_cfa_register ::
  "cmem \<Rightarrow> cursor \<Rightarrow> FIRCLSDwarfState \<Rightarrow> (bool \<times> cursor \<times> FIRCLSDwarfState) option" where
  "FIRCLSDwarfParseAndExecute_def_cfa_register cm cursor s = do {
     (regNum, cursor) \<leftarrow> FIRCLSParseULEB128AndAdvance cm cursor;
     if regNum > CLS_DWARF_MAX_REGISTER_NUM then Some (False, cursor, s)
     else Some (True, cursor, s\<lparr>dw_cfaRegister := regNum\<rparr>)
   }"

definition FIRCLSDwarfParseAndExecute_def_cfa_offset ::
  "cmem \<Rightarrow> cursor \<Rightarrow> FIRCLSDwarfState \<Rightarrow> (bool \<times> cursor \<times> FIRCLSDwarfState) option" where
  "FIRCLSDwarfParseAndExecute_def_cfa_offset cm cursor s = do {
     (offset, cursor) \<leftarrow> FIRCLSParseULEB128AndAdvance cm cursor;
     Some (True, cursor, s\<lparr>dw_cfaRegisterOffset := offset\<rparr>)
   }"

definition FIRCLSDwarfParseAndExecute_same_value ::
  "cmem \<Rightarrow> cursor \<Rightarrow> FIRCLSDwarfState \<Rightarrow> (bool \<times> cursor \<times> FIRCLSDwarfState) option" where
  "FIRCLSDwarfParseAndExecute_same_value cm cursor s = do {
     (regNum, cursor) \<leftarrow> FIRCLSParseULEB128AndAdvance cm cursor;
     if regNum > CLS_DWARF_MAX_REGISTER_NUM then Some (False, cursor, s)
     else do {
       s \<leftarrow> set_register s regNum FIRCLSDwarfRegisterUnused (reg_value (dw_registers s ! unat regNum));
       Some (True, cursor, s)
     }
   }"

definition FIRCLSDwarfParseAndExecute_register ::
  "cmem \<Rightarrow> cursor \<Rightarrow> FIRCLSDwarfState \<Rightarrow> (bool \<times> cursor \<times> FIRCLSDwarfState) option" where
  "FIRCLSDwarfParseAndExecute_register cm cursor s = do {
     (regNum, cursor) \<leftarrow> FIRCLSParseULEB128AndAdvance cm cursor;
     if regNum > CLS_DWARF_MAX_REGISTER_NUM then Some (False, cursor, s)
     else do {
       (regValue, cursor) \<leftarrow> FIRCLSParseULEB128AndAdvance cm cursor;
       if regValue > CLS_DWARF_MAX_REGISTER_NUM then Some (False, cursor, s)
       else do {
         s \<leftarrow> set_register s regNum FIRCLSDwarfRegisterInRegister regValue;
         Some (True, cursor, s)
       }
     }
   }"

definition FIRCLSDwarfParseAndExecute_expression ::
  "cmem \<Rightarrow> cursor \<Rightarrow> FIRCLSDwarfState \<Rightarrow> (bool \<times> cursor \<times> FIRCLSDwarfState) option" where
  "FIRCLSDwarfParseAndExecute_expression cm cursor s = do {
     (regNum, cursor) \<leftarrow> FIRCLSParseULEB128AndAdvance cm cursor;
     if regNum > CLS_DWARF_MAX_REGISTER_NUM then Some (False, cursor, s)
     else do {
       s \<leftarrow> set_register s regNum FIRCLSDwarfRegisterAtExpression cursor;
       (len, cursor) \<leftarrow> FIRCLSParseULEB128AndAdvance cm cursor;
       cursor \<leftarrow> ptr_add cursor (unat len);
       Some (True, cursor, s)
     }
   }"

definition FIRCLSDwarfParseAndExecute_val_expression ::
  "cmem \<Rightarrow> cursor \<Rightarrow> FIRCLSDwarfState \<Rightarrow> (bool \<times> cursor \<times> FIRCLSDwarfState) option" where
  "FIRCLSDwarfParseAndExecute_val_expression cm cursor s = do {
     (regNum, cursor) \<leftarrow> FIRCLSParseULEB128AndAdvance cm cursor;
     if regNum > CLS_DWARF_MAX_REGISTER_NUM then Some (False, cursor, s)
     else do {
       s \<leftarrow> set_register s regNum FIRCLSDwarfRegisterIsExpression cursor;
       (len, cursor) \<leftarrow> FIRCLSParseULEB128AndAdvance cm cursor;
       cursor \<leftarrow> ptr_add cursor (unat len);
       Some (True, cursor, s)
     }
   }"

definition FIRCLSDwarfParseAndExecute_def_cfa_expression ::
  "cmem \<Rightarrow> cursor \<Rightarrow> FIRCLSDwarfState \<Rightarrow> (bool \<times> cursor \<times> FIRCLSDwarfState) option" where
  "FIRCLSDwarfParseAndExecute_def_cfa_expression cm cursor s = do {
     let s = s\<lparr>dw_cfaRegister := CLS_DWARF_INVALID_REGISTER_NUM, dw_cfaExpression := cursor\<rparr>;
     (len, cursor) \<leftarrow> FIRCLSParseULEB128AndAdvance cm cursor;
     cursor \<leftarrow> ptr_add cursor (unat len);
     Some (True, cursor, s)
   }"

definition FIRCLSDwarfParseAndExecute_offset ::
  "cmem \<Rightarrow> cursor \<Rightarrow> DWARFCIERecord \<Rightarrow> FIRCLSDwarfState \<Rightarrow> byte \<Rightarrow>
     (bool \<times> cursor \<times> FIRCLSDwarfState) option" where
  "FIRCLSDwarfParseAndExecute_offset cm cursor cie s regNum =
     (if ucast regNum > CLS_DWARF_MAX_REGISTER_NUM then Some (False, cursor, s)
      else do {
        (u, cursor) \<leftarrow> FIRCLSParseULEB128AndAdvance cm cursor;
        let offset = u * cie_dataAlignFactor cie;
        s \<leftarrow> set_register s (ucast regNum) FIRCLSDwarfRegisterInCFA offset;
        Some (True, cursor, s)
      })"

definition DW_CFA_OPCODE_MASK :: byte where "DW_CFA_OPCODE_MASK = 0xC0"
definition DW_CFA_OPERAND_MASK :: byte where "DW_CFA_OPERAND_MASK = 0x3F"
definition DW_CFA_offset :: byte where "DW_CFA_offset = 0x80"
definition DW_CFA_advance_loc :: byte where "DW_CFA_advance_loc = 0x40"

definition FIRCLSDwarfParseAndExecuteInstructionWithOperand ::
  "cmem \<Rightarrow> cursor \<Rightarrow> byte \<Rightarrow> DWARFCIERecord \<Rightarrow> FIRCLSDwarfState \<Rightarrow> u64 \<Rightarrow>
     (bool \<times> cursor \<times> u64 \<times> FIRCLSDwarfState) option" where
  "FIRCLSDwarfParseAndExecuteInstructionWithOperand cm cursor instruction cie s codeOffset =
     (let operand = instruction AND DW_CFA_OPERAND_MASK in
      if instruction AND DW_CFA_OPCODE_MASK = DW_CFA_offset then do {
        (ok, cursor, s) \<leftarrow> FIRCLSDwarfParseAndExecute_offset cm cursor cie s operand;
        Some (ok, cursor, codeOffset, s) }
      else if instruction AND DW_CFA_OPCODE_MASK = DW_CFA_advance_loc then do {
        codeOffset \<leftarrow> FIRCLSDwarfParseAndExecute_advance_loc cie operand;
        Some (True, cursor, codeOffset, s) }
      else Some (False, cursor, codeOffset, s))"

text \<open>The switch of the loop body; the unimplemented instructions return false.\<close>

definition unimplemented_cfa :: "byte \<Rightarrow> bool" where
  "unimplemented_cfa i \<longleftrightarrow>
     i \<in> {0x05, 0x06, 0x07, 0x0A, 0x0B, 0x11, 0x12, 0x13, 0x14, 0x15, 0x2D, 0x2E, 0x2F}"

definition execute_instruction ::
  "cmem \<Rightarrow> DWARFCIERecord \<Rightarrow> byte \<Rightarrow> cursor \<Rightarrow> u64 \<Rightarrow> FIRCLSDwarfState \<Rightarrow>
     (bool \<times> cursor \<times> u64 \<times> FIRCLSDwarfState) option" where
  "execute_instruction cm cie instruction cursor codeOffset s =
     (let with_offset = map_option (\<lambda>(ok, cursor, codeOffset). (ok, cursor, codeOffset, s));
          with_state = map_option (\<lambda>(ok, cursor, s). (ok, cursor, codeOffset, s)) in
      if instruction = 0x00 then Some (True, cursor, codeOffset, s)
      else if instruction = 0x01 then with_offset (FIRCLSDwarfParseAndExecute_set_loc cm cursor cie)
      else if instruction = 0x02 then
        with_offset (FIRCLSDwarfParseAndExecute_advance_loc1 cm cursor cie codeOffset)
      else if instruction = 0x03 then
        with_offset (FIRCLSDwarfParseAndExecute_advance_loc2 cm cursor cie codeOffset)
      else if instruction = 0x04 then
        with_offset (FIRCLSDwarfParseAndExecute_advance_loc4 cm cursor cie codeOffset)
      else if instruction = 0x0C then with_state (FIRCLSDwarfParseAndExecute_def_cfa cm cursor s)
      else if instruction = 0x0D then with_state (FIRCLSDwarfParseAndExecute_def_cfa_register cm cursor s)
      else if instruction = 0x0E then with_state (FIRCLSDwarfParseAndExecute_def_cfa_offset cm cursor s)
      else if instruction = 0x08 then with_state (FIRCLSDwarfParseAndExecute_same_value cm cursor s)
      else if instruction = 0x09 then with_state (FIRCLSDwarfParseAndExecute_register cm cursor s)
      else if instruction = 0x0F then with_state (FIRCLSDwarfParseAndExecute_def_cfa_expression cm cursor s)
      else if instruction = 0x10 then with_state (FIRCLSDwarfParseAndExecute_expression cm cursor s)
      else if instruction = 0x16 then with_state (FIRCLSDwarfParseAndExecute_val_expression cm cursor s)
      else if unimplemented_cfa instruction then Some (False, cursor, codeOffset, s)
      else FIRCLSDwarfParseAndExecuteInstructionWithOperand cm cursor instruction cie s codeOffset)"

lemma parse_word_unat:
  "FIRCLSParseUint16AndAdvance cm c = Some (v, c') \<Longrightarrow> unat c \<le> unat c'"
  "FIRCLSParseUint32AndAdvance cm c = Some (w, c') \<Longrightarrow> unat c \<le> unat c'"
  "FIRCLSParseUint64AndAdvance cm c = Some (x, c') \<Longrightarrow> unat c \<le> unat c'"
  "FIRCLSParseInt16AndAdvance cm c = Some (v, c') \<Longrightarrow> unat c \<le> unat c'"
  "FIRCLSParseInt32AndAdvance cm c = Some (w, c') \<Longrightarrow> unat c \<le> unat c'"
  "FIRCLSParseInt64AndAdvance cm c = Some (x, c') \<Longrightarrow> unat c \<le> unat c'"
  "FIRCLSParsePointerAndAdvance cm c = Some (x, c') \<Longrightarrow> unat c \<le> unat c'"
  by (auto simp: FIRCLSParseUint16AndAdvance_def FIRCLSParseUint32AndAdvance_def
      FIRCLSParseUint64AndAdvance_def FIRCLSParseInt16AndAdvance_def FIRCLSParseInt32AndAdvance_def
      FIRCLSParseInt64AndAdvance_def FIRCLSParsePointerAndAdvance_def Option.bind_eq_Some_conv
      dest!: ptr_add_unat)

lemma parse_encoded_value_unat:
  "parse_encoded_value cm c k = Some (v, c') \<Longrightarrow> unat c \<le> unat c'"
  by (auto simp: parse_encoded_value_def Option.bind_eq_Some_conv split: if_splits
      dest: parse_word_unat uleb_unat leb_unat)

lemma parse_address_unat:
  assumes "FIRCLSParseAddressWithEncodingAndAdvance cm c e = Some (v, c')"
  shows "unat c \<le> unat c'"
proof (cases "e = DW_EH_PE_omit \<or> c = 0")
  case True
  then show ?thesis using assms by (auto simp: FIRCLSParseAddressWithEncodingAndAdvance_def split: if_splits)
next
  case False
  then obtain a where a: "parse_encoded_value cm c (e AND DW_EH_PE_VALUE_MASK) = Some (a, c')"
    using assms unfolding FIRCLSParseAddressWithEncodingAndAdvance_def Let_def
    by (cases "parse_encoded_value cm c (e AND DW_EH_PE_VALUE_MASK)")
       (auto split: option.splits if_splits simp: Option.bind_eq_Some_conv)
  then show ?thesis by (rule parse_encoded_value_unat)
qed

lemma ptr_add_le: "ptr_add p n = Some q \<Longrightarrow> unat p \<le> unat q"
  by (auto dest: ptr_add_unat)

lemma instruction_cursor :
  "FIRCLSDwarfParseAndExecute_set_loc cm c cie = Some (ok, c', v) \<Longrightarrow> unat c \<le> unat c'"
  "FIRCLSDwarfParseAndExecute_advance_loc1 cm c cie off = Some (ok, c', v) \<Longrightarrow> unat c \<le> unat c'"
  "FIRCLSDwarfParseAndExecute_advance_loc2 cm c cie off = Some (ok, c', v) \<Longrightarrow> unat c \<le> unat c'"
  "FIRCLSDwarfParseAndExecute_advance_loc4 cm c cie off = Some (ok, c', v) \<Longrightarrow> unat c \<le> unat c'"
  "FIRCLSDwarfParseAndExecute_def_cfa cm c s = Some (ok, c', v') \<Longrightarrow> unat c \<le> unat c'"
  "FIRCLSDwarfParseAndExecute_def_cfa_register cm c s = Some (ok, c', v') \<Longrightarrow> unat c \<le> unat c'"
  "FIRCLSDwarfParseAndExecute_def_cfa_offset cm c s = Some (ok, c', v') \<Longrightarrow> unat c \<le> unat c'"
  "FIRCLSDwarfParseAndExecute_same_value cm c s = Some (ok, c', v') \<Longrightarrow> unat c \<le> unat c'"
  "FIRCLSDwarfParseAndExecute_register cm c s = Some (ok, c', v') \<Longrightarrow> unat c \<le> unat c'"
  "FIRCLSDwarfParseAndExecute_expression cm c s = Some (ok, c', v') \<Longrightarrow> unat c \<le> unat c'"
  "FIRCLSDwarfParseAndExecute_val_expression cm c s = Some (ok, c', v') \<Longrightarrow> unat c \<le> unat c'"
  "FIRCLSDwarfParseAndExecute_def_cfa_expression cm c s = Some (ok, c', v') \<Longrightarrow> unat c \<le> unat c'"
  "FIRCLSDwarfParseAndExecute_offset cm c cie s n = Some (ok, c', v') \<Longrightarrow> unat c \<le> unat c'"
  by (auto simp: FIRCLSDwarfParseAndExecute_set_loc_def FIRCLSDwarfParseAndExecute_advance_loc1_def FIRCLSDwarfParseAndExecute_advance_loc2_def FIRCLSDwarfParseAndExecute_advance_loc4_def FIRCLSDwarfParseAndExecute_def_cfa_def FIRCLSDwarfParseAndExecute_def_cfa_register_def FIRCLSDwarfParseAndExecute_def_cfa_offset_def FIRCLSDwarfParseAndExecute_same_value_def FIRCLSDwarfParseAndExecute_register_def FIRCLSDwarfParseAndExecute_expression_def FIRCLSDwarfParseAndExecute_val_expression_def FIRCLSDwarfParseAndExecute_def_cfa_expression_def FIRCLSDwarfParseAndExecute_offset_def
      Option.bind_eq_Some_conv Let_def split: if_splits
      dest!: parse8_unat parse_word_unat uleb_unat parse_address_unat ptr_add_le)

lemma operand_instruction_cursor:
  "FIRCLSDwarfParseAndExecuteInstructionWithOperand cm c i cie s off = Some (ok, c', off', s') \<Longrightarrow>
     unat c \<le> unat c'"
  by (auto simp: FIRCLSDwarfParseAndExecuteInstructionWithOperand_def Option.bind_eq_Some_conv Let_def
      split: if_splits dest: instruction_cursor)

lemma execute_instruction_cursor:
  "execute_instruction cm cie i c off s = Some (ok, c', off', s') \<Longrightarrow> unat c \<le> unat c'"
  unfolding execute_instruction_def Let_def
  by (auto split: if_splits dest: instruction_cursor operand_instruction_cursor)

text \<open>The \<open>while\<close> loop; its result is the return value and the state.\<close>

function enumerate_loop ::
  "cmem \<Rightarrow> DWARFCIERecord \<Rightarrow> u64 \<Rightarrow> u64 \<Rightarrow> cursor \<Rightarrow> u64 \<Rightarrow> FIRCLSDwarfState \<Rightarrow>
     (bool \<times> FIRCLSDwarfState) option" where
  "enumerate_loop cm cie endAddress pcOffset cursor codeOffset s =
     (if cursor < endAddress \<and> sint codeOffset < sint pcOffset then
        case FIRCLSParseUint8AndAdvance cm cursor of
          None \<Rightarrow> None
        | Some (instruction, cursor1) \<Rightarrow>
            (case execute_instruction cm cie instruction cursor1 codeOffset s of
               None \<Rightarrow> None
             | Some (ok, cursor2, codeOffset, s) \<Rightarrow>
                 if ok then enumerate_loop cm cie endAddress pcOffset cursor2 codeOffset s
                 else Some (False, s))
      else Some (True, s))"
  by pat_completeness auto
termination
proof (relation "measure (\<lambda>(cm, cie, e, pc, cursor, off, s). 2 ^ 64 - unat cursor)", simp, goal_cases)
  case hyp: (1 cm cie e pc cursor off s p instruction cursor1 q ok r cursor2 t off' s')
  from hyp have "unat cursor1 = unat cursor + 1" by (intro parse8_unat [of cm _ instruction]) simp
  moreover from hyp have "unat cursor1 \<le> unat cursor2"
    by (intro execute_instruction_cursor [of cm cie instruction _ off s ok _ off' s']) auto
  ultimately have "unat cursor < unat cursor2" by simp
  moreover have "unat cursor2 < 2 ^ 64" by (rule order_less_le_trans [OF unsigned_less]) simp
  ultimately show ?case by simp
qed

declare enumerate_loop.simps [simp del]

definition FIRCLSDwarfInstructionsEnumerate ::
  "cmem \<Rightarrow> DWARFInstructions \<Rightarrow> DWARFCIERecord \<Rightarrow> FIRCLSDwarfState \<Rightarrow> u64 \<Rightarrow>
     (bool \<times> FIRCLSDwarfState) option" where
  "FIRCLSDwarfInstructionsEnumerate cm ins cie s pcOffset = do {
     endAddress \<leftarrow> ptr_add (ins_data ins) (unat (ins_length ins));
     enumerate_loop cm cie endAddress pcOffset (ins_data ins) 0 s
   }"

section \<open>Registers of the caller\<close>

definition FIRCLSDwarfCompareRegisters :: "FIRCLSThreadContext \<Rightarrow> FIRCLSThreadContext \<Rightarrow> u64 \<Rightarrow> bool" where
  "FIRCLSDwarfCompareRegisters a b n =
     (FIRCLSDwarfUnwindGetRegisterValue a n = FIRCLSDwarfUnwindGetRegisterValue b n)"

text \<open>The inner option is the success, with \<open>*cfa\<close>.\<close>

definition FIRCLSDwarfGetCFA ::
  "cmem \<Rightarrow> FIRCLSDwarfState \<Rightarrow> FIRCLSThreadContext \<Rightarrow> u64 option option" where
  "FIRCLSDwarfGetCFA cm s registers =
     (if dw_cfaExpression s \<noteq> 0 then do {
        (ok, result) \<leftarrow> FIRCLSDwarfEvalulateExpression cm (dw_cfaExpression s) registers 0;
        Some (if ok then result else None)
      }
      else Some (Some (FIRCLSDwarfUnwindGetRegisterValue registers (dw_cfaRegister s)
                       + dw_cfaRegisterOffset s)))"

definition FIRCLSDwarfGetSavedRegister ::
  "cmem \<Rightarrow> FIRCLSThreadContext \<Rightarrow> u64 \<Rightarrow> FIRCLSDwarfRegister \<Rightarrow> u64 option" where
  "FIRCLSDwarfGetSavedRegister cm registers cfaRegister r =
     (case reg_location r of
        FIRCLSDwarfRegisterInCFA \<Rightarrow>
          (case FIRCLSReadMemory cm (cfaRegister + reg_value r) 8 of
             None \<Rightarrow> Some 0
           | Some bs \<Rightarrow> Some (le_word bs))
      | FIRCLSDwarfRegisterInRegister \<Rightarrow> Some (FIRCLSDwarfUnwindGetRegisterValue registers (reg_value r))
      | FIRCLSDwarfRegisterOffsetFromCFA \<Rightarrow> Some 0
      | FIRCLSDwarfRegisterAtExpression \<Rightarrow> do {
          (ok, result) \<leftarrow> FIRCLSDwarfEvalulateExpression cm (reg_value r) registers cfaRegister;
          if \<not> ok then Some 0
          else
            (case FIRCLSReadMemory cm (the result) 8 of
               None \<Rightarrow> Some 0
             | Some bs \<Rightarrow> Some (le_word bs))
        }
      | FIRCLSDwarfRegisterIsExpression \<Rightarrow> do {
          (ok, result) \<leftarrow> FIRCLSDwarfEvalulateExpression cm (reg_value r) registers cfaRegister;
          if \<not> ok then Some 0 else Some (the result)
        }
      | FIRCLSDwarfRegisterUnused \<Rightarrow> Some 0)"

text \<open>The loop over the register rules, from the register \<open>i\<close>; the inner option is its early return.\<close>

fun assign_loop ::
  "cmem \<Rightarrow> FIRCLSThreadContext \<Rightarrow> u64 \<Rightarrow> nat \<Rightarrow> FIRCLSDwarfRegister list \<Rightarrow> FIRCLSThreadContext \<Rightarrow>
     FIRCLSThreadContext option option" where
  "assign_loop cm registers cfa i [] new = Some (Some new)"
| "assign_loop cm registers cfa i (r # rs) new =
     (if reg_location r = FIRCLSDwarfRegisterUnused then assign_loop cm registers cfa (i + 1) rs new
      else do {
        v \<leftarrow> FIRCLSDwarfGetSavedRegister cm registers cfa r;
        (case FIRCLSDwarfUnwindSetRegisterValue new (of_nat i) v of
           None \<Rightarrow> Some None
         | Some new \<Rightarrow> assign_loop cm registers cfa (i + 1) rs new)
      })"

text \<open>The inner option is the success, with the new \<open>*outputRegisters\<close>.\<close>

definition FIRCLSDwarfUnwindAssignRegisters ::
  "cmem \<Rightarrow> FIRCLSDwarfState \<Rightarrow> FIRCLSThreadContext \<Rightarrow> u64 \<Rightarrow> FIRCLSThreadContext option option" where
  "FIRCLSDwarfUnwindAssignRegisters cm s registers cfa = do {
     new \<leftarrow> assign_loop cm registers cfa 0 (dw_registers s) registers;
     (case new of
        None \<Rightarrow> Some None
      | Some new \<Rightarrow>
          (case FIRCLSDwarfUnwindSetRegisterValue new CLS_DWARF_REG_SP cfa of
             None \<Rightarrow> Some None
           | Some new \<Rightarrow>
               if FIRCLSDwarfCompareRegisters registers new CLS_DWARF_REG_SP then Some None
               else if FIRCLSDwarfCompareRegisters registers new CLS_DWARF_REG_RETURN then Some None
               else Some (Some new)))
   }"

definition INTPTR_MAX :: u64 where "INTPTR_MAX = 0x7FFFFFFFFFFFFFFF"

definition FIRCLSDwarfUnwindComputeRegisters ::
  "cmem \<Rightarrow> FIRCLSDwarfCFIRecord \<Rightarrow> FIRCLSThreadContext \<Rightarrow> (bool \<times> FIRCLSThreadContext) option" where
  "FIRCLSDwarfUnwindComputeRegisters cm r registers = do {
     (ok, s) \<leftarrow> FIRCLSDwarfInstructionsEnumerate cm (cie_instructions (cfi_cie r)) (cfi_cie r)
                  zero_state INTPTR_MAX;
     if \<not> ok then Some (False, registers)
     else do {
       let pcOffset = FIRCLSThreadContextGetPC registers - fde_startAddress (cfi_fde r);
       if sint pcOffset < 0 then Some (False, registers)
       else do {
         (ok, s) \<leftarrow> FIRCLSDwarfInstructionsEnumerate cm (fde_instructions (cfi_fde r)) (cfi_cie r)
                      s pcOffset;
         if \<not> ok then Some (False, registers)
         else do {
           cfa \<leftarrow> FIRCLSDwarfGetCFA cm s registers;
           (case cfa of
              None \<Rightarrow> Some (False, registers)
            | Some cfa \<Rightarrow> do {
                new \<leftarrow> FIRCLSDwarfUnwindAssignRegisters cm s registers cfa;
                Some (case new of None \<Rightarrow> (False, registers) | Some new \<Rightarrow> (True, new))
              })
         }
       }
     }
   }"

end
