(* ===== verification/DwarfDataProofs.thy ===== *)
theory DwarfDataProofs
  imports DwarfUnwind
begin

text \<open>
  What the parsers of \<^verbatim>\<open>FIRCLSDataParsing.c\<close> read: the two LEB128 codes, and the interface \<open>cursor_codec\<close>
  between a parser and the code of the values it reads, on which the proofs about the expression
  machine and the call frame instructions rest.
\<close>

section \<open>Bytes in memory\<close>

definition bytes_at :: "cmem \<Rightarrow> cursor \<Rightarrow> bytes \<Rightarrow> bool" where
  "bytes_at cm c bs \<longleftrightarrow> unat c + length bs < 2 ^ 64 \<and> load_bytes cm (unat c) (length bs) = Some bs"

definition after :: "cursor \<Rightarrow> nat \<Rightarrow> cursor" where "after c n = c + of_nat n"

lemma after_0 [simp]: "after c 0 = c" by (simp add: after_def)

lemma after_after [simp]: "after (after c m) n = after c (m + n)"
  by (simp add: after_def add.assoc)

lemma unat_after: "unat c + n < 2 ^ 64 \<Longrightarrow> unat (after c n) = unat c + n"
  by (simp add: after_def unat_word_ariths unat_of_nat)

lemma ptr_add_after: "unat c + n < 2 ^ 64 \<Longrightarrow> ptr_add c n = Some (after c n)"
  by (simp add: ptr_add_def after_def)

lemma load_bytes_append:
  "load_bytes cm a (m + n) = do { xs \<leftarrow> load_bytes cm a m; ys \<leftarrow> load_bytes cm (a + m) n; Some (xs @ ys) }"
  by (induction m arbitrary: a) (auto simp: Option.bind_assoc split: Option.bind_splits)

lemma bytes_at_append:
  "bytes_at cm c (xs @ ys) \<longleftrightarrow> bytes_at cm c xs \<and> bytes_at cm (after c (length xs)) ys"
proof (cases "unat c + length (xs @ ys) < 2 ^ 64")
  case True
  then have u: "unat (after c (length xs)) = unat c + length xs" by (intro unat_after) simp
  have "load_bytes cm (unat c) (length xs + length ys) = Some (xs @ ys) \<longleftrightarrow>
    load_bytes cm (unat c) (length xs) = Some xs \<and> load_bytes cm (unat c + length xs) (length ys) = Some ys"
    by (auto simp: load_bytes_append Option.bind_eq_Some_conv dest: load_bytes_length)
  then show ?thesis using True u by (auto simp: bytes_at_def)
next
  case False
  then have "\<not> (unat (after c (length xs)) + length ys < 2 ^ 64)" if "unat c + length xs < 2 ^ 64"
    using unat_after [OF that] by simp
  then show ?thesis using False by (auto simp: bytes_at_def)
qed

lemma bytes_at_Cons: "bytes_at cm c (x # ys) \<longleftrightarrow> bytes_at cm c [x] \<and> bytes_at cm (after c 1) ys"
  using bytes_at_append [of cm c "[x]" ys] by simp

lemma load_word_at:
  "bytes_at cm c bs \<Longrightarrow> load_word cm (unat c) (length bs) = Some (le_word bs)"
  by (simp add: load_word_def bytes_at_def)

lemma le_word_1 [simp]: "le_word [b] = (ucast b :: 'a::len word)" by simp

lemma parse8_at: "bytes_at cm c [b] \<Longrightarrow> FIRCLSParseUint8AndAdvance cm c = Some (b, after c 1)"
  using load_word_at [of cm c "[b]", where 'a = 8] ptr_add_after [of c 1]
  by (simp add: FIRCLSParseUint8AndAdvance_def bytes_at_def)

section \<open>LEB128\<close>

lemma shift_int_Some: "v * 2 ^ s < 2 ^ 31 \<Longrightarrow> s < 32 \<Longrightarrow> shift_int v s = Some (push_bit s (of_nat v))"
  by (simp add: shift_int_def push_bit_eq_mult mult.commute)

lemma uleb_loop_reads:
  "bytes_at cm c (uvarint n) \<Longrightarrow> n * 2 ^ (7 * i) < 2 ^ 31 \<Longrightarrow> 7 * i < 31 \<Longrightarrow> length (uvarint n) \<le> k \<Longrightarrow>
     uleb_loop cm k (7 * i) acc c =
       Some (acc OR push_bit (7 * i) (of_nat n), after c (length (uvarint n)))"
proof (induction n arbitrary: c i acc k rule: uvarint.induct)
  case hyp: (1 n)
  then obtain k' where k: "k = Suc k'" by (cases k) auto
  show ?case
  proof (cases "n < 128")
    case True
    then have b: "bytes_at cm c [of_nat n]" using hyp(2) by (simp add: uvarint_small)
    have "shift_int n (7 * i) = Some (push_bit (7 * i) (of_nat n))"
      using hyp(3,4) by (intro shift_int_Some) auto
    then show ?thesis
      using True last_and_7F [of n] last_and_80 [of n] unat_of_nat_byte [of n]
      by (simp add: k parse8_at [OF b] uvarint_small and.commute)
  next
    case False
    let ?b = "of_nat (n mod 128 + 128) :: byte"
    have bs: "bytes_at cm c [?b]" "bytes_at cm (after c 1) (uvarint (n div 128))"
      using hyp(2) False bytes_at_Cons [of cm c ?b "uvarint (n div 128)"] by (simp_all add: uvarint_big)
    have left: "n div 128 * 2 ^ (7 * Suc i) < 2 ^ 31" "7 * Suc i < 31"
      using groups_left [of n i 31] False hyp(3) by simp_all
    have "n mod 128 * 2 ^ (7 * i) \<le> n * 2 ^ (7 * i)" by simp
    then have "shift_int (n mod 128) (7 * i) = Some (push_bit (7 * i) (of_nat (n mod 128)))"
      using hyp(3,4) by (intro shift_int_Some) linarith+
    moreover have "unat (of_nat (n mod 128) :: byte) = n mod 128"
      by (rule unat_of_nat_byte) (simp add: less_trans [OF mod_less_divisor])
    ultimately have "uleb_loop cm k (7 * i) acc c =
        uleb_loop cm k' (7 * Suc i) (acc OR push_bit (7 * i) (of_nat (n mod 128))) (after c 1)"
      using group_and_7F [of n] group_and_80 [of n]
      by (simp add: k parse8_at [OF bs(1)] and.commute add.commute del: of_nat_add)
    also have "\<dots> = Some ((acc OR push_bit (7 * i) (of_nat (n mod 128))) OR push_bit (7 * Suc i) (of_nat (n div 128)),
        after (after c 1) (length (uvarint (n div 128))))"
    proof (rule hyp(1) [OF False bs(2) left])
      show "length (uvarint (n div 128)) \<le> k'" using False hyp(5) k uvarint_big [of n] by simp
    qed
    also have "\<dots> = Some (acc OR push_bit (7 * i) (of_nat n), after c (length (uvarint n)))"
      using False word_groups [of "7 * i" n, where 'a = 64]
      by (simp add: uvarint_big or.assoc add.commute)
    finally show ?thesis .
  qed
qed

lemma uleb_reads:
  assumes "bytes_at cm c (uvarint n)" "n < 2 ^ 31"
  shows "FIRCLSParseULEB128AndAdvance cm c = Some (of_nat n, after c (length (uvarint n)))"
proof -
  have "length (uvarint n) \<le> 8" using assms(2) by (simp add: length_uvarint)
  then show ?thesis
    using uleb_loop_reads [of cm c n 0 8 0] assms by (simp add: FIRCLSParseULEB128AndAdvance_def)
qed

text \<open>The signed code: groups of seven bits of the two's complement, the last one with the sign.\<close>

function sleb :: "int \<Rightarrow> bytes" where
  "sleb i = (if -64 \<le> i \<and> i < 64 then [of_nat (nat (i mod 128))]
             else of_nat (nat (i mod 128) + 128) # sleb (i div 128))"
  by pat_completeness auto
termination
proof (relation "measure (\<lambda>i. nat \<bar>i\<bar>)", simp, goal_cases)
  case (1 i)
  then have "\<bar>i div 128\<bar> < \<bar>i\<bar>" by linarith
  then show ?case by simp
qed

declare sleb.simps [simp del]

lemma sleb_small: "-64 \<le> i \<Longrightarrow> i < 64 \<Longrightarrow> sleb i = [of_nat (nat (i mod 128))]"
  by (simp add: sleb.simps)

lemma sleb_big: "\<not> (-64 \<le> i \<and> i < 64) \<Longrightarrow> sleb i = of_nat (nat (i mod 128) + 128) # sleb (i div 128)"
  by (subst sleb.simps) (simp only: if_False)

lemma length_sleb: "- (2 ^ (7 * k + 6)) \<le> i \<Longrightarrow> i < 2 ^ (7 * k + 6) \<Longrightarrow> length (sleb i) \<le> k + 1"
proof (induction k arbitrary: i)
  case 0
  then show ?case by (simp add: sleb_small)
next
  case (Suc k)
  show ?case
  proof (cases "-64 \<le> i \<and> i < 64")
    case True
    then show ?thesis by (simp add: sleb_small)
  next
    case False
    have e: "(2::int) ^ (7 * Suc k + 6) = 128 * 2 ^ (7 * k + 6)" by (simp add: power_add)
    then have "- (2 ^ (7 * k + 6)) \<le> i div 128" "i div 128 < 2 ^ (7 * k + 6)"
      using Suc.prems by linarith+
    then show ?thesis using Suc.IH False by (simp add: sleb_big)
  qed
qed

lemma byte_and_40: "n < 128 \<Longrightarrow> 0x40 AND of_nat n = (0 :: byte) \<longleftrightarrow> n < 64"
proof -
  have "list_all (\<lambda>n. (0x40 AND of_nat n = (0 :: byte)) = (n < 64)) [0..<128]" by code_simp
  then show "n < 128 \<Longrightarrow> ?thesis" by (simp add: list_all_iff)
qed

lemma mod_groups: "i mod 2 ^ (7 + k) = i mod 128 + 128 * (i div 128 mod 2 ^ k)" for i :: int
  using mod_mult2_eq' [of i 128 "2 ^ k"] by (simp add: power_add)

lemma leb_loop_reads:
  "bytes_at cm c (sleb i) \<Longrightarrow> 7 * (j + length (sleb i)) \<le> 28 \<Longrightarrow> length (sleb i) \<le> k \<Longrightarrow>
     \<exists>b'. leb_loop cm k (7 * j) acc b c =
         Some (acc OR push_bit (7 * j) (of_int (i mod 2 ^ (7 * length (sleb i)))),
               7 * (j + length (sleb i)), b', after c (length (sleb i))) \<and>
       (0x40 AND b' \<noteq> 0 \<longleftrightarrow> i < 0) \<and> - (2 ^ (7 * length (sleb i) - 1)) \<le> i \<and> i < 2 ^ (7 * length (sleb i) - 1)"
proof (induction i arbitrary: c j acc b k rule: sleb.induct)
  case hyp: (1 i)
  let ?n = "nat (i mod 128)"
  have n: "?n < 128" "of_nat ?n = (of_int (i mod 128) :: u64)" by simp_all
  have un: "unat (of_nat ?n :: byte) = ?n" using n(1) by (intro unat_of_nat_byte) simp
  from hyp(3) have "7 * j \<le> 21" by (cases "sleb i") (auto simp: sleb.simps [of i] split: if_splits)
  then have "(2::nat) ^ (7 * j) \<le> 2 ^ 21" by (intro power_increasing) simp_all
  then have sh: "shift_int ?n (7 * j) = Some (push_bit (7 * j) (of_nat ?n))"
    using n(1) mult_less_le_imp_less [of ?n 128 "2 ^ (7 * j)" "2 ^ 21"] \<open>7 * j \<le> 21\<close>
    by (intro shift_int_Some) auto
  from hyp(4) obtain k' where k: "k = Suc k'" by (cases k) (auto simp: sleb.simps [of i] split: if_splits)
  show ?case
  proof (cases "-64 \<le> i \<and> i < 64")
    case True
    then have b: "bytes_at cm c [of_nat ?n]" using hyp(2) by (simp add: sleb_small)
    have "?n < 64 \<longleftrightarrow> \<not> i < 0" using True by (simp add: nat_less_iff) presburger
    then have "0x40 AND (of_nat ?n :: byte) \<noteq> 0 \<longleftrightarrow> i < 0" using byte_and_40 [OF n(1)] by simp
    then show ?thesis
      using True last_and_7F [OF n(1)] last_and_80 [OF n(1)] un sh n(2)
      by (simp add: k parse8_at [OF b] sleb_small and.commute del: of_nat_nat)
  next
    case False
    let ?b = "of_nat (?n + 128) :: byte" and ?len = "length (sleb (i div 128))"
    have bs: "bytes_at cm c [?b]" "bytes_at cm (after c 1) (sleb (i div 128))"
      using hyp(2) bytes_at_Cons [of cm c ?b "sleb (i div 128)"] by (simp_all add: sleb_big [OF False] del: of_nat_add)
    have g: "0x7F AND ?b = of_nat ?n" "0x80 AND ?b \<noteq> 0"
      using group_and_7F [of ?n] group_and_80 [of ?n] n(1) by (simp_all add: and.commute del: of_nat_add)
    have l: "length (sleb i) = Suc ?len" by (simp add: sleb_big [OF False])
    have step: "leb_loop cm k (7 * j) acc b c =
        leb_loop cm k' (7 * Suc j) (acc OR push_bit (7 * j) (of_nat ?n)) ?b (after c 1)"
      using g un sh by (simp add: k parse8_at [OF bs(1)] add.commute del: of_nat_add of_nat_nat)
    obtain b' where b': "leb_loop cm k' (7 * Suc j) (acc OR push_bit (7 * j) (of_nat ?n)) ?b (after c 1) =
         Some ((acc OR push_bit (7 * j) (of_nat ?n)) OR push_bit (7 * Suc j) (of_int (i div 128 mod 2 ^ (7 * ?len))),
               7 * (Suc j + ?len), b', after (after c 1) ?len)"
       "0x40 AND b' \<noteq> 0 \<longleftrightarrow> i div 128 < 0" "- (2 ^ (7 * ?len - 1)) \<le> i div 128" "i div 128 < 2 ^ (7 * ?len - 1)"
      using hyp(1) [OF False bs(2), of "Suc j" k' "acc OR push_bit (7 * j) (of_nat ?n)" ?b] hyp(3,4) l k by fastforce
    let ?m = "nat (i mod 2 ^ (7 * length (sleb i)))"
    have m: "int ?m = i mod 128 + 128 * (i div 128 mod 2 ^ (7 * ?len))"
      using mod_groups [of i "7 * ?len"] by (simp add: l)
    then have "int (?m mod 128) = i mod 128" "int (?m div 128) = i div 128 mod 2 ^ (7 * ?len)"
      by (simp_all add: zmod_int zdiv_int)
    then have e: "(of_nat (?m mod 128) :: u64) = of_nat ?n"
      "(of_nat (?m div 128) :: u64) = of_int (i div 128 mod 2 ^ (7 * ?len))"
      "(of_nat ?m :: u64) = of_int (i mod 2 ^ (7 * length (sleb i)))"
      using m n(2) by (simp_all only: n(2)) (metis of_int_of_nat_eq nat_0_le pos_mod_sign zero_less_numeral zero_less_power)+
    have w: "push_bit (7 * j) (of_nat ?n) OR push_bit (7 * Suc j) (of_int (i div 128 mod 2 ^ (7 * ?len))) =
        (push_bit (7 * j) (of_int (i mod 2 ^ (7 * length (sleb i)))) :: u64)"
    proof -
      have "7 * Suc j = 7 * j + 7" by simp
      then show ?thesis
        by (simp only: e [symmetric] word_groups)
    qed
    have p: "(2::int) ^ (7 * length (sleb i) - 1) = 128 * 2 ^ (7 * ?len - 1)" if "0 < ?len"
      using that by (cases ?len) (simp_all add: l power_add)
    have "0 < ?len" by (simp add: sleb.simps [of "i div 128"])
    from p [OF this] have bounds: "- (2 ^ (7 * length (sleb i) - 1)) \<le> i" "i < 2 ^ (7 * length (sleb i) - 1)"
      using b'(3,4) by linarith+
    have s: "i div 128 < 0 \<longleftrightarrow> i < 0" by linarith
    have "leb_loop cm k (7 * j) acc b c =
        Some (acc OR push_bit (7 * j) (of_int (i mod 2 ^ (7 * length (sleb i)))),
              7 * (j + length (sleb i)), b', after c (length (sleb i)))"
      unfolding step b'(1) or.assoc w by (simp add: l)
    then show ?thesis using b'(2) bounds s by blast
  qed
qed

lemma sign_extend:
  assumes "- (2 ^ k) \<le> i" "i < 0" "k < 64"
  shows "(of_int (i mod 2 ^ k) :: u64) OR - push_bit k 1 = of_int i"
proof -
  have m: "i mod 2 ^ k = i + 2 ^ k"
    using assms mod_pos_pos_trivial [of "i + 2 ^ k" "2 ^ k"] by simp
  have p: "push_bit k (- 1) = - push_bit k (1 :: u64)" by (simp add: push_bit_eq_mult)
  have "of_int (i + 2 ^ k) = (of_nat (nat (i + 2 ^ k)) :: u64)" using assms by simp
  moreover have k: "nat (i + 2 ^ k) < 2 ^ k" using assms by (simp add: nat_less_iff)
  moreover have "(2::nat) ^ k < 2 ^ 64" using assms(3) by (intro power_strict_increasing) auto
  ultimately have u: "unat (of_int (i + 2 ^ k) :: u64) < 2 ^ k"
    using less_trans [OF k] by (simp only: unat_of_nat) simp
  have "of_int (i + 2 ^ k) OR - push_bit k 1 = push_bit k (- 1) OR (of_int (i + 2 ^ k) :: u64)"
    by (simp only: p or.commute)
  also have "\<dots> = push_bit k (- 1) + of_int (i + 2 ^ k)" by (rule push_bit_or_add [OF u])
  also have "\<dots> = of_int i" by (simp add: push_bit_eq_mult)
  finally show ?thesis by (simp only: m)
qed

lemma leb_reads:
  assumes at: "bytes_at cm c (sleb i)" and i: "- (2 ^ 27) \<le> i" "i < 2 ^ 27"
  shows "FIRCLSParseLEB128AndAdvance cm c = Some (of_int i, after c (length (sleb i)))"
proof -
  let ?l = "length (sleb i)"
  have l: "?l \<le> 4" using length_sleb [of 3 i] i by simp
  obtain b' where b': "leb_loop cm 8 0 0 0 c = Some (of_int (i mod 2 ^ (7 * ?l)), 7 * ?l, b', after c ?l)"
    "0x40 AND b' \<noteq> 0 \<longleftrightarrow> i < 0" "- (2 ^ (7 * ?l - 1)) \<le> i" "i < 2 ^ (7 * ?l - 1)"
    using leb_loop_reads [OF at, of 0 8 0 0] l by auto
  have le: "(2::int) ^ (7 * ?l - 1) \<le> 2 ^ (7 * ?l)" by (rule power_increasing) auto
  have s: "7 * ?l < 64" "7 * ?l < 31" using l by simp_all
  show ?thesis
  proof (cases "i < 0")
    case True
    have "(2::nat) ^ (7 * ?l) < 2 ^ 31" using s by (intro power_strict_increasing) auto
    then have "shift_int 1 (7 * ?l) = Some (push_bit (7 * ?l) 1)"
      using shift_int_Some [of 1 "7 * ?l"] s by simp
    moreover have "- (2 ^ (7 * ?l)) \<le> i" using b'(3) le by linarith
    ultimately show ?thesis
      using b'(1,2) True s sign_extend [of "7 * ?l" i]
      by (simp add: FIRCLSParseLEB128AndAdvance_def del: of_int_add)
  next
    case False
    then have "i mod 2 ^ (7 * ?l) = i" using b'(4) le by (intro mod_pos_pos_trivial) linarith+
    then show ?thesis using b'(1,2) False by (simp add: FIRCLSParseLEB128AndAdvance_def)
  qed
qed

text \<open>A memory with one object.\<close>

lemma bytes_at_mem_at: "base + length bs < 2 ^ 64 \<Longrightarrow> bytes_at (mem_at base bs) (of_nat base) bs"
  using load_mem_at [of base base "length bs" bs] by (simp add: bytes_at_def unat_of_nat)

section \<open>Parsers and codes\<close>

text \<open>
  What the interpreters of expressions and of call frame instructions ask of the data parsers: the
  code of a value is read back and the cursor moves past it.
\<close>

locale cursor_codec =
  fixes parse :: "cmem \<Rightarrow> cursor \<Rightarrow> ('v \<times> cursor) option"
    and code :: "'v \<Rightarrow> bytes"
    and valid :: "'v \<Rightarrow> bool"
  assumes reads: "valid v \<Longrightarrow> bytes_at cm c (code v) \<Longrightarrow> parse cm c = Some (v, after c (length (code v)))"
    and code_not_Nil: "valid v \<Longrightarrow> code v \<noteq> []"
begin

text \<open>Two values in a row.\<close>

lemma reads_two:
  assumes "valid v" "valid w" "bytes_at cm c (code v @ code w @ rest)"
  shows "do { (x, c) \<leftarrow> parse cm c; (y, c) \<leftarrow> parse cm c; Some (x, y, c) } =
    Some (v, w, after c (length (code v @ code w)))"
  using assms by (simp add: reads bytes_at_append)

text \<open>The code of one value is not a proper prefix of the code of another.\<close>

lemma prefix_free:
  assumes "valid v" "valid w" "code v @ xs = code w @ ys" "length (code v @ xs) < 2 ^ 64"
  shows "v = w \<and> xs = ys"
proof -
  define cm where "cm = mem_at 0 (code v @ xs)"
  have at: "bytes_at cm 0 (code v @ xs)" using bytes_at_mem_at [of 0] assms(4) by (simp add: cm_def)
  then have "bytes_at cm 0 (code w @ ys)" using assms(3) by simp
  then have "parse cm 0 = Some (w, after 0 (length (code w)))" by (intro reads assms) (simp add: bytes_at_append)
  moreover have "parse cm 0 = Some (v, after 0 (length (code v)))"
    using at by (intro reads assms) (simp add: bytes_at_append)
  ultimately have "v = w" by simp
  then show ?thesis using assms(3) by simp
qed

end

interpretation uint8: cursor_codec FIRCLSParseUint8AndAdvance "\<lambda>b. [b]" "\<lambda>_. True"
  by unfold_locales (simp_all add: parse8_at)

interpretation uleb: cursor_codec FIRCLSParseULEB128AndAdvance "\<lambda>v. uvarint (unat v)" "\<lambda>v. unat v < 2 ^ 31"
  by unfold_locales (simp_all add: uleb_reads)

interpretation leb: cursor_codec FIRCLSParseLEB128AndAdvance "\<lambda>v. sleb (sint v)"
  "\<lambda>v. - (2 ^ 27) \<le> sint v \<and> sint v < 2 ^ 27"
proof
  fix v :: u64 and cm c
  assume "- (2 ^ 27) \<le> sint v \<and> sint v < 2 ^ 27" "bytes_at cm c (sleb (sint v))"
  then show "FIRCLSParseLEB128AndAdvance cm c = Some (v, after c (length (sleb (sint v))))"
    using leb_reads [of cm c "sint v"] by simp
next
  show "sleb (sint v) \<noteq> []" for v :: u64 by (simp add: sleb.simps)
qed

end
