(* ===== verification/DwarfMachineProofs.thy ===== *)
theory DwarfMachineProofs
  imports DwarfDataProofs
begin

text \<open>
  The expression machine implements a machine on lists (\<open>execute_next_refines\<close>, \<open>evaluate_refines\<close>), so that
  the code of an expression tree evaluates to the value of the tree; on arbitrary bytes its stack
  stays within the buffer and it terminates.
\<close>

section \<open>The machine as a machine on lists\<close>

datatype dw_op = OpDeref | OpDup | OpAnd | OpPlus | OpSwap | OpPlusUconst u64 | OpNe | OpLit nat
  | OpBreg nat u64 | OpDerefSize nat

fun op_bytes :: "dw_op \<Rightarrow> bytes" where
  "op_bytes OpDeref = [0x06]"
| "op_bytes OpDup = [0x12]"
| "op_bytes OpAnd = [0x1A]"
| "op_bytes OpPlus = [0x22]"
| "op_bytes OpSwap = [0x16]"
| "op_bytes (OpPlusUconst u) = 0x23 # uvarint (unat u)"
| "op_bytes OpNe = [0x2E]"
| "op_bytes (OpLit n) = [of_nat (0x30 + n)]"
| "op_bytes (OpBreg n off) = of_nat (0x70 + n) # sleb (sint off)"
| "op_bytes (OpDerefSize n) = [0x94, of_nat n]"

fun op_valid :: "dw_op \<Rightarrow> bool" where
  "op_valid (OpPlusUconst u) = (unat u < 2 ^ 31)"
| "op_valid (OpLit n) = (n < 32)"
| "op_valid (OpBreg n off) = (n < 32 \<and> - (2 ^ 27) \<le> sint off \<and> sint off < 2 ^ 27)"
| "op_valid (OpDerefSize n) = (n \<in> {1, 2, 4, 8})"
| "op_valid _ = True"

text \<open>
  The operations on a list of at most 100 words, the top first.  The outer option is a fault, the
  inner one a failure of the operation: too few operands, no room, memory that cannot be read.
\<close>

definition push_list :: "u64 \<Rightarrow> u64 list \<Rightarrow> u64 list option" where
  "push_list v xs = (if length xs < 100 then Some (v # xs) else None)"

fun op_sem :: "cmem \<Rightarrow> FIRCLSThreadContext \<Rightarrow> dw_op \<Rightarrow> u64 list \<Rightarrow> u64 list option option" where
  "op_sem cm r OpDeref (x # xs) =
     Some (case FIRCLSReadMemory cm x 8 of None \<Rightarrow> None | Some bs \<Rightarrow> push_list (le_word bs) xs)"
| "op_sem cm r OpDup (x # xs) = Some (push_list x (x # xs))"
| "op_sem cm r OpAnd (x # y # xs) = Some (push_list (x AND y) xs)"
| "op_sem cm r OpPlus (x # y # xs) = do { s \<leftarrow> add_signed x y; Some (push_list s xs) }"
| "op_sem cm r OpSwap (x # y # xs) = Some (Some (y # x # xs))"
| "op_sem cm r (OpPlusUconst u) (x # xs) = Some (push_list (x + u) xs)"
| "op_sem cm r OpNe (x # y # xs) = Some (push_list (if x \<noteq> y then 1 else 0) xs)"
| "op_sem cm r (OpLit n) xs = Some (push_list (of_nat n) xs)"
| "op_sem cm r (OpBreg n off) xs = Some (push_list (FIRCLSDwarfUnwindGetRegisterValue r (of_nat n) + off) xs)"
| "op_sem cm r (OpDerefSize n) (x # xs) =
     do { v \<leftarrow> load_word cm (unat x) n; _ \<leftarrow> ptr_add x n; Some (push_list v xs) }"
| "op_sem cm r (OpDerefSize n) [] = do { v \<leftarrow> (load_word cm 0 n :: u64 option); Some None }"
| "op_sem cm r op xs = Some None"

text \<open>The list a stack stands for, and a stack that has overflowed or underflowed.\<close>

definition stack_rel :: "FIRCLSDwarfExpressionStack \<Rightarrow> u64 list \<Rightarrow> bool" where
  "stack_rel s xs \<longleftrightarrow> length (st_buffer s) = 100 \<and> st_pointer s = Some (length xs) \<and> length xs \<le> 100 \<and>
     take (length xs) (st_buffer s) = rev xs"

definition stack_dead :: "FIRCLSDwarfExpressionStack \<Rightarrow> bool" where
  "stack_dead s \<longleftrightarrow> length (st_buffer s) = 100 \<and> st_pointer s = None"

lemma stack_rel_valid: "stack_rel s xs \<Longrightarrow> FIRCLSDwarfExpressionStackIsValid s"
  by (simp add: stack_rel_def FIRCLSDwarfExpressionStackIsValid_def CLS_DWARF_EXPRESSION_STACK_SIZE_def)

lemma stack_dead_invalid: "stack_dead s \<Longrightarrow> \<not> FIRCLSDwarfExpressionStackIsValid s"
  by (simp add: stack_dead_def FIRCLSDwarfExpressionStackIsValid_def)

lemma stack_top:
  assumes "stack_rel s (x # xs)"
  shows "st_buffer s ! length xs = x" "take (length xs) (st_buffer s) = rev xs"
proof -
  have t: "take (Suc (length xs)) (st_buffer s) = rev xs @ [x]" and l: "length xs < length (st_buffer s)"
    using assms by (simp_all add: stack_rel_def)
  have "take (Suc (length xs)) (st_buffer s) = take (length xs) (st_buffer s) @ [st_buffer s ! length xs]"
    by (rule take_Suc_conv_app_nth [OF l])
  then have "take (length xs) (st_buffer s) @ [st_buffer s ! length xs] = rev xs @ [x]" using t by simp
  then show "st_buffer s ! length xs = x" "take (length xs) (st_buffer s) = rev xs" by (simp_all only: append1_eq_conv)
qed

lemma pop_rel:
  "stack_rel s (x # xs) \<Longrightarrow> \<exists>s'. FIRCLSDwarfExpressionStackPop s = (x, s') \<and> stack_rel s' xs"
  using stack_top [of s x xs] stack_rel_valid [of s "x # xs"]
  by (simp add: FIRCLSDwarfExpressionStackPop_def stack_rel_def)

lemma pop_empty: "stack_rel s [] \<Longrightarrow> \<exists>s'. FIRCLSDwarfExpressionStackPop s = (0, s') \<and> stack_dead s'"
  using stack_rel_valid [of s "[]"]
  by (simp add: FIRCLSDwarfExpressionStackPop_def stack_rel_def stack_dead_def)

lemma pop_dead: "stack_dead s \<Longrightarrow> FIRCLSDwarfExpressionStackPop s = (0, s)"
  by (simp add: FIRCLSDwarfExpressionStackPop_def stack_dead_invalid)

lemma peek_rel: "stack_rel s (x # xs) \<Longrightarrow> FIRCLSDwarfExpressionStackPeek s = (x, s)"
  using stack_top [of s x xs] stack_rel_valid [of s "x # xs"]
  by (simp add: FIRCLSDwarfExpressionStackPeek_def stack_rel_def)

lemma peek_empty: "stack_rel s [] \<Longrightarrow> \<exists>s'. FIRCLSDwarfExpressionStackPeek s = (0, s') \<and> stack_dead s'"
  using stack_rel_valid [of s "[]"]
  by (simp add: FIRCLSDwarfExpressionStackPeek_def stack_rel_def stack_dead_def)

lemma push_dead: "stack_dead s \<Longrightarrow> FIRCLSDwarfExpressionStackPush s v = (False, s)"
  by (simp add: FIRCLSDwarfExpressionStackPush_def stack_dead_invalid)

lemma push_rel:
  assumes "stack_rel s xs"
  shows "case push_list v xs of
      None \<Rightarrow> \<exists>s'. FIRCLSDwarfExpressionStackPush s v = (False, s') \<and> stack_dead s'
    | Some ys \<Rightarrow> \<exists>s'. FIRCLSDwarfExpressionStackPush s v = (True, s') \<and> stack_rel s' ys"
proof (cases "length xs < 100")
  case True
  then have "take (Suc (length xs)) ((st_buffer s)[length xs := v]) = rev xs @ [v]"
    using assms by (simp add: stack_rel_def take_Suc_conv_app_nth)
  then show ?thesis
    using assms True stack_rel_valid [OF assms]
    by (simp add: push_list_def FIRCLSDwarfExpressionStackPush_def stack_rel_def Let_def
        CLS_DWARF_EXPRESSION_STACK_SIZE_def)
next
  case False
  then show ?thesis
    using assms stack_rel_valid [OF assms]
    by (simp add: push_list_def FIRCLSDwarfExpressionStackPush_def stack_rel_def stack_dead_def
        CLS_DWARF_EXPRESSION_STACK_SIZE_def)
qed

text \<open>What a step yields when the list machine yields \<open>out\<close>: the cursor is then \<open>c\<close>.\<close>

definition step_outcome ::
  "(bool \<times> FIRCLSDwarfExpressionMachine) option \<Rightarrow> FIRCLSDwarfExpressionMachine \<Rightarrow> cursor \<Rightarrow>
     u64 list option option \<Rightarrow> bool" where
  "step_outcome res m c out \<longleftrightarrow>
     (case out of
        None \<Rightarrow> res = None
      | Some None \<Rightarrow> \<exists>m'. res = Some (False, m')
      | Some (Some ys) \<Rightarrow>
          \<exists>s'. res = Some (True, m\<lparr>m_dataCursor := c, m_stack := s'\<rparr>) \<and> stack_rel s' ys)"

lemma machine_push:
  assumes "stack_rel s xs"
  shows "step_outcome (Some (FIRCLSDwarfExpressionMachineStackPush (m\<lparr>m_stack := s, m_dataCursor := c\<rparr>) v)) m c
           (Some (push_list v xs))"
  using push_rel [OF assms, of v]
  by (auto simp: step_outcome_def FIRCLSDwarfExpressionMachineStackPush_def split: option.splits)

lemma machine_push_dead:
  assumes "stack_dead s"
  shows "step_outcome (Some (FIRCLSDwarfExpressionMachineStackPush (m\<lparr>m_stack := s, m_dataCursor := c\<rparr>) v)) m c
           (Some None)"
  using push_dead [OF assms, of v]
  by (simp add: step_outcome_def FIRCLSDwarfExpressionMachineStackPush_def)

lemma machine_pop:
  "stack_rel (m_stack m) (x # xs) \<Longrightarrow>
     \<exists>s'. FIRCLSDwarfExpressionMachineStackPop m = (x, m\<lparr>m_stack := s'\<rparr>) \<and> stack_rel s' xs"
  using pop_rel [of "m_stack m" x xs] by (auto simp: FIRCLSDwarfExpressionMachineStackPop_def)

lemma machine_pop_empty:
  "stack_rel (m_stack m) [] \<Longrightarrow>
     \<exists>s'. FIRCLSDwarfExpressionMachineStackPop m = (0, m\<lparr>m_stack := s'\<rparr>) \<and> stack_dead s'"
  using pop_empty [of "m_stack m"] by (auto simp: FIRCLSDwarfExpressionMachineStackPop_def)

lemma machine_pop_dead:
  "stack_dead (m_stack m) \<Longrightarrow> FIRCLSDwarfExpressionMachineStackPop m = (0, m)"
  by (simp add: FIRCLSDwarfExpressionMachineStackPop_def pop_dead)

lemma machine_push': "stack_rel s xs \<Longrightarrow>
    step_outcome (Some (FIRCLSDwarfExpressionMachineStackPush (m\<lparr>m_stack := s\<rparr>) v)) m (m_dataCursor m)
      (Some (push_list v xs))"
  using machine_push [where m = m and c = "m_dataCursor m"] by simp

lemma machine_push_dead': "stack_dead s \<Longrightarrow>
    step_outcome (Some (FIRCLSDwarfExpressionMachineStackPush (m\<lparr>m_stack := s\<rparr>) v)) m (m_dataCursor m) (Some None)"
  using machine_push_dead [where m = m and c = "m_dataCursor m"] by simp

lemma machine_push_at: "stack_rel (m_stack m) xs \<Longrightarrow>
    step_outcome (Some (FIRCLSDwarfExpressionMachineStackPush (m\<lparr>m_dataCursor := c\<rparr>) v)) m c
      (Some (push_list v xs))"
  using machine_push [where m = m and s = "m_stack m" and c = c] by simp

lemma machine_push_same: "stack_rel (m_stack m) xs \<Longrightarrow>
    step_outcome (Some (FIRCLSDwarfExpressionMachineStackPush m v)) m (m_dataCursor m) (Some (push_list v xs))"
  using machine_push [where m = m and s = "m_stack m" and c = "m_dataCursor m"] by simp

text \<open>Two operands are popped by most opcodes.\<close>

lemma machine_pop_two:
  assumes "stack_rel (m_stack m) xs"
  shows "case xs of
      x # y # ys \<Rightarrow> \<exists>s1 s2. FIRCLSDwarfExpressionMachineStackPop m = (x, m\<lparr>m_stack := s1\<rparr>) \<and>
        FIRCLSDwarfExpressionMachineStackPop (m\<lparr>m_stack := s1\<rparr>) = (y, m\<lparr>m_stack := s2\<rparr>) \<and> stack_rel s2 ys
    | _ \<Rightarrow> \<exists>x s1 s2. FIRCLSDwarfExpressionMachineStackPop m = (x, m\<lparr>m_stack := s1\<rparr>) \<and>
        FIRCLSDwarfExpressionMachineStackPop (m\<lparr>m_stack := s1\<rparr>) = (0, m\<lparr>m_stack := s2\<rparr>) \<and> stack_dead s2"
proof (cases xs)
  case Nil
  then obtain s1 where s1: "FIRCLSDwarfExpressionMachineStackPop m = (0, m\<lparr>m_stack := s1\<rparr>)" "stack_dead s1"
    using assms machine_pop_empty [of m] by auto
  then show ?thesis using Nil machine_pop_dead [of "m\<lparr>m_stack := s1\<rparr>"] by auto
next
  case (Cons x xs')
  then obtain s1 where s1: "FIRCLSDwarfExpressionMachineStackPop m = (x, m\<lparr>m_stack := s1\<rparr>)" "stack_rel s1 xs'"
    using assms machine_pop [of m x xs'] by auto
  show ?thesis
  proof (cases xs')
    case Nil
    then show ?thesis using Cons s1 machine_pop_empty [of "m\<lparr>m_stack := s1\<rparr>"] by auto
  next
    case (Cons y ys)
    then show ?thesis using \<open>xs = x # xs'\<close> s1 machine_pop [of "m\<lparr>m_stack := s1\<rparr>" y ys] by auto
  qed
qed

lemma le_word_ucast:
  assumes "8 * length bs \<le> LENGTH('a)" "LENGTH('a) \<le> LENGTH('b)"
  shows "ucast (le_word bs :: 'a::len word) = (le_word bs :: 'b::len word)"
proof (rule bit_word_eqI)
  fix n assume "n < LENGTH('b)"
  have "n < 8 * length bs" if "n div 8 < length bs" using that by (simp add: div_less_iff_less_mult mult.commute)
  then show "bit (ucast (le_word bs :: 'a word) :: 'b word) n = bit (le_word bs :: 'b word) n"
    using assms by (auto simp: bit_ucast_iff bit_le_word)
qed

lemma load_word_ucast:
  assumes "8 * n \<le> LENGTH('a)" "LENGTH('a) \<le> LENGTH('b)"
  shows "map_option ucast (load_word cm a n :: 'a::len word option) = (load_word cm a n :: 'b::len word option)"
  using le_word_ucast [where 'a = 'a and 'b = 'b] assms
  by (cases "load_bytes cm a n") (auto simp: load_word_def dest: load_bytes_length)

lemma add_signed_0 [simp]: "add_signed x 0 = Some x"
  using sint_ge [of x] sint_lt [of x] by (simp add: add_signed_def)

lemma step_outcome_None [simp]: "step_outcome res m c None \<longleftrightarrow> res = None"
  by (simp add: step_outcome_def)

lemma step_outcome_fail [simp]: "step_outcome (Some (False, m')) m c (Some None)"
  by (simp add: step_outcome_def)

lemma exec_binary:
  assumes "stack_rel (m_stack m) xs"
  shows "step_outcome (Some (FIRCLSDwarfExpressionMachineExecute_and m)) m (m_dataCursor m) (op_sem cm r OpAnd xs)"
    "step_outcome (Some (FIRCLSDwarfExpressionMachineExecute_ne m)) m (m_dataCursor m) (op_sem cm r OpNe xs)"
    "step_outcome (FIRCLSDwarfExpressionMachineExecute_plus m) m (m_dataCursor m) (op_sem cm r OpPlus xs)"
  using machine_pop_two [OF assms]
  by (auto simp: FIRCLSDwarfExpressionMachineExecute_and_def FIRCLSDwarfExpressionMachineExecute_ne_def
      FIRCLSDwarfExpressionMachineExecute_plus_def machine_push' machine_push_dead' split: list.splits
      Option.bind_splits)

lemma exec_swap:
  assumes rel: "stack_rel (m_stack m) xs"
  shows "step_outcome (Some (FIRCLSDwarfExpressionMachineExecute_swap m)) m (m_dataCursor m) (op_sem cm r OpSwap xs)"
proof (cases "\<exists>x y ys. xs = x # y # ys")
  case True
  then obtain x y ys where xs: "xs = x # y # ys" by blast
  then obtain s1 s2 where pops: "FIRCLSDwarfExpressionMachineStackPop m = (x, m\<lparr>m_stack := s1\<rparr>)"
      "FIRCLSDwarfExpressionMachineStackPop (m\<lparr>m_stack := s1\<rparr>) = (y, m\<lparr>m_stack := s2\<rparr>)" "stack_rel s2 ys"
    using machine_pop_two [OF rel] by auto
  have len: "length ys < 99" using rel by (simp add: xs stack_rel_def)
  then obtain s3 where s3: "FIRCLSDwarfExpressionStackPush s2 x = (True, s3)" "stack_rel s3 (x # ys)"
    using push_rel [OF pops(3), of x] by (auto simp: push_list_def)
  then obtain s4 where s4: "FIRCLSDwarfExpressionStackPush s3 y = (True, s4)" "stack_rel s4 (y # x # ys)"
    using push_rel [OF s3(2), of y] len by (auto simp: push_list_def)
  show ?thesis
    using pops s3 s4 by (auto simp: xs FIRCLSDwarfExpressionMachineExecute_swap_def
        FIRCLSDwarfExpressionMachineStackPush_def step_outcome_def)
next
  case False
  then have sem: "op_sem cm r OpSwap xs = Some None" by (cases xs; cases "tl xs") auto
  from False obtain x s1 s2 where pops: "FIRCLSDwarfExpressionMachineStackPop m = (x, m\<lparr>m_stack := s1\<rparr>)"
      "FIRCLSDwarfExpressionMachineStackPop (m\<lparr>m_stack := s1\<rparr>) = (0, m\<lparr>m_stack := s2\<rparr>)" "stack_dead s2"
    using machine_pop_two [OF rel] by (auto split: list.splits)
  show ?thesis
    using pops push_dead [OF pops(3)] by (simp add: sem FIRCLSDwarfExpressionMachineExecute_swap_def
        FIRCLSDwarfExpressionMachineStackPush_def)
qed

lemma exec_deref:
  assumes rel: "stack_rel (m_stack m) xs"
  shows "step_outcome (FIRCLSDwarfExpressionMachineExecute_deref cm m) m (m_dataCursor m) (op_sem cm r OpDeref xs)"
proof (cases xs)
  case Nil
  then show ?thesis
    using rel machine_pop_empty [of m]
    by (auto simp: FIRCLSDwarfExpressionMachineExecute_deref_def FIRCLSReadMemory_def FIRCLSIsValidPointer_def)
next
  case (Cons x ys)
  then obtain s1 where "FIRCLSDwarfExpressionMachineStackPop m = (x, m\<lparr>m_stack := s1\<rparr>)" "stack_rel s1 ys"
    using rel machine_pop [of m x ys] by auto
  then show ?thesis
    by (auto simp: Cons FIRCLSDwarfExpressionMachineExecute_deref_def machine_push' split: option.splits)
qed

lemma exec_dup:
  assumes rel: "stack_rel (m_stack m) xs"
  shows "step_outcome (Some (FIRCLSDwarfExpressionMachineExecute_dup m)) m (m_dataCursor m) (op_sem cm r OpDup xs)"
proof (cases xs)
  case Nil
  then obtain s1 where "FIRCLSDwarfExpressionStackPeek (m_stack m) = (0, s1)" "stack_dead s1"
    using rel peek_empty [of "m_stack m"] by auto
  then show ?thesis using Nil by (simp add: FIRCLSDwarfExpressionMachineExecute_dup_def machine_push_dead')
next
  case (Cons x ys)
  then have "FIRCLSDwarfExpressionStackPeek (m_stack m) = (x, m_stack m)"
    using rel peek_rel by auto
  then show ?thesis
    using machine_push_same [OF rel, of x] Cons by (simp add: FIRCLSDwarfExpressionMachineExecute_dup_def)
qed

lemma exec_plus_uconst:
  assumes rel: "stack_rel (m_stack m) xs" and u: "unat u < 2 ^ 31"
    and at: "bytes_at cm (m_dataCursor m) (uvarint (unat u))"
  shows "step_outcome (FIRCLSDwarfExpressionMachineExecute_plus_uconst cm m) m
    (after (m_dataCursor m) (length (uvarint (unat u)))) (op_sem cm r (OpPlusUconst u) xs)"
proof -
  have read: "FIRCLSParseULEB128AndAdvance cm (m_dataCursor m) =
      Some (u, after (m_dataCursor m) (length (uvarint (unat u))))"
    by (rule uleb.reads [OF u at])
  show ?thesis
  proof (cases xs)
    case Nil
    then obtain s1 where "FIRCLSDwarfExpressionMachineStackPop m = (0, m\<lparr>m_stack := s1\<rparr>)" "stack_dead s1"
      using rel machine_pop_empty [of m] by auto
    then show ?thesis
      using Nil read machine_push_dead [where m = m and s = s1]
      by (simp add: FIRCLSDwarfExpressionMachineExecute_plus_uconst_def)
  next
    case (Cons x ys)
    then obtain s1 where "FIRCLSDwarfExpressionMachineStackPop m = (x, m\<lparr>m_stack := s1\<rparr>)" "stack_rel s1 ys"
      using rel machine_pop [of m x ys] by auto
    then show ?thesis
      using Cons read machine_push [where m = m and s = s1]
      by (simp add: FIRCLSDwarfExpressionMachineExecute_plus_uconst_def)
  qed
qed

lemma exec_breg:
  assumes rel: "stack_rel (m_stack m) xs" and op: "op_valid (OpBreg n off)"
    and at: "bytes_at cm (m_dataCursor m) (sleb (sint off))"
  shows "step_outcome (FIRCLSDwarfExpressionMachineExecute_bregN cm m (of_nat (0x70 + n))) m
    (after (m_dataCursor m) (length (sleb (sint off)))) (op_sem cm (m_registers m) (OpBreg n off) xs)"
proof -
  have read: "FIRCLSParseLEB128AndAdvance cm (m_dataCursor m) =
      Some (off, after (m_dataCursor m) (length (sleb (sint off))))"
    using op by (intro leb.reads [OF _ at]) simp
  have n: "of_nat (0x70 + n) - DW_OP_breg0 = (of_nat n :: byte)" by (simp add: DW_OP_breg0_def)
  have u: "ucast (of_nat n :: byte) = (of_nat n :: u64)"
    using op by (intro ucast_of_nat_small) simp
  have "\<not> (of_nat n > CLS_DWARF_MAX_REGISTER_NUM)"
    using op by (simp add: CLS_DWARF_MAX_REGISTER_NUM_def word_less_nat_alt unat_of_nat)
  then show ?thesis
    using read machine_push_at [OF rel]
    by (simp add: FIRCLSDwarfExpressionMachineExecute_bregN_def n u del: of_nat_add)
qed

lemma exec_lit:
  assumes "stack_rel (m_stack m) xs" "n < 32"
  shows "step_outcome (Some (FIRCLSDwarfExpressionMachineExecute_litN m (of_nat (0x30 + n)))) m (m_dataCursor m)
    (op_sem cm r (OpLit n) xs)"
proof -
  have "of_nat (0x30 + n) - DW_OP_lit0 = (of_nat n :: byte)" by (simp add: DW_OP_lit0_def)
  moreover have "ucast (of_nat n :: byte) = (of_nat n :: u64)"
    using assms(2) by (intro ucast_of_nat_small) simp
  ultimately show ?thesis
    using machine_push_same [OF assms(1)]
    by (simp add: FIRCLSDwarfExpressionMachineExecute_litN_def del: of_nat_add)
qed

text \<open>The four widths of \<open>DW_OP_deref_size\<close> read a little-endian word.\<close>

lemma parse_widths:
  "FIRCLSParseUint8AndAdvance cm c = do { v \<leftarrow> load_word cm (unat c) 1; c \<leftarrow> ptr_add c 1; Some (v, c) }"
  "FIRCLSParseUint16AndAdvance cm c = do { v \<leftarrow> load_word cm (unat c) 2; c \<leftarrow> ptr_add c 2; Some (v, c) }"
  "FIRCLSParseUint32AndAdvance cm c = do { v \<leftarrow> load_word cm (unat c) 4; c \<leftarrow> ptr_add c 4; Some (v, c) }"
  "FIRCLSParseUint64AndAdvance cm c = do { v \<leftarrow> load_word cm (unat c) 8; c \<leftarrow> ptr_add c 8; Some (v, c) }"
  by (simp_all add: FIRCLSParseUint8AndAdvance_def FIRCLSParseUint16AndAdvance_def
      FIRCLSParseUint32AndAdvance_def FIRCLSParseUint64AndAdvance_def)

lemma load_narrow:
  "(load_word cm a 1 :: u64 option) = map_option ucast (load_word cm a 1 :: byte option)"
  "(load_word cm a 2 :: u64 option) = map_option ucast (load_word cm a 2 :: u16 option)"
  "(load_word cm a 4 :: u64 option) = map_option ucast (load_word cm a 4 :: u32 option)"
  by (rule load_word_ucast [symmetric], simp, simp)+

lemma narrow_read:
  "do { (v, _) \<leftarrow> FIRCLSParseUint8AndAdvance cm x; Some (f (ucast v)) } =
     do { v \<leftarrow> load_word cm (unat x) 1; _ \<leftarrow> ptr_add x 1; Some (f (v :: u64)) }"
  "do { (v, _) \<leftarrow> FIRCLSParseUint16AndAdvance cm x; Some (f (ucast v)) } =
     do { v \<leftarrow> load_word cm (unat x) 2; _ \<leftarrow> ptr_add x 2; Some (f v) }"
  "do { (v, _) \<leftarrow> FIRCLSParseUint32AndAdvance cm x; Some (f (ucast v)) } =
     do { v \<leftarrow> load_word cm (unat x) 4; _ \<leftarrow> ptr_add x 4; Some (f v) }"
  "do { (v, _) \<leftarrow> FIRCLSParseUint64AndAdvance cm x; Some (f v) } =
     do { v \<leftarrow> load_word cm (unat x) 8; _ \<leftarrow> ptr_add x 8; Some (f v) }"
  unfolding parse_widths load_narrow
  by (auto simp: map_option_case split: option.splits Option.bind_splits)

lemma exec_deref_size:
  assumes rel: "stack_rel (m_stack m) xs" and op: "n \<in> {1, 2, 4, 8}"
    and at: "bytes_at cm (m_dataCursor m) [of_nat n]"
  shows "step_outcome (FIRCLSDwarfExpressionMachineExecute_deref_size cm m) m
    (after (m_dataCursor m) 1) (op_sem cm r (OpDerefSize n) xs)"
proof -
  define c where "c = after (m_dataCursor m) 1"
  have read: "FIRCLSParseUint8AndAdvance cm (m_dataCursor m) = Some (of_nat n, c)"
    using parse8_at [OF at] by (simp add: c_def)
  let ?load = "\<lambda>x. do { v \<leftarrow> load_word cm (unat (x :: u64)) n; _ \<leftarrow> ptr_add x n; Some (v :: u64) }"
  obtain x s1 out where pop: "FIRCLSDwarfExpressionMachineStackPop m = (x, m\<lparr>m_stack := s1\<rparr>)"
    and push: "\<And>v. step_outcome (Some (FIRCLSDwarfExpressionMachineStackPush (m\<lparr>m_stack := s1, m_dataCursor := c\<rparr>) v))
                m c (Some (out v))"
    and sem: "op_sem cm r (OpDerefSize n) xs = do { v \<leftarrow> ?load x; Some (out v) }"
  proof (cases xs)
    case Nil
    then obtain s1 where s1: "FIRCLSDwarfExpressionMachineStackPop m = (0, m\<lparr>m_stack := s1\<rparr>)" "stack_dead s1"
      using rel machine_pop_empty [of m] by auto
    have "ptr_add 0 n = Some (of_nat n)" using op by (auto simp: ptr_add_def)
    then show ?thesis
      using s1 Nil machine_push_dead [OF s1(2), where m = m and c = c] by (intro that [of 0 s1 "\<lambda>_. None"]) simp_all
  next
    case (Cons y ys)
    then obtain s1 where s1: "FIRCLSDwarfExpressionMachineStackPop m = (y, m\<lparr>m_stack := s1\<rparr>)" "stack_rel s1 ys"
      using rel machine_pop [of m y ys] by auto
    then show ?thesis
      using Cons machine_push [OF s1(2), where m = m and c = c] by (intro that [of y s1 "\<lambda>v. push_list v ys"]) simp_all
  qed
  have split: "step_outcome (do { v \<leftarrow> ?load x; Some (FIRCLSDwarfExpressionMachineStackPush
      (m\<lparr>m_stack := s1, m_dataCursor := c\<rparr>) v) }) m c (do { v \<leftarrow> ?load x; Some (out v) })"
    using push by (cases "?load x") auto
  have "FIRCLSDwarfExpressionMachineExecute_deref_size cm m =
      do { v \<leftarrow> ?load x; Some (FIRCLSDwarfExpressionMachineStackPush (m\<lparr>m_stack := s1, m_dataCursor := c\<rparr>) v) }"
    using op unfolding FIRCLSDwarfExpressionMachineExecute_deref_size_def pop read Let_def
    by (auto simp: read narrow_read simp del: One_nat_def)
  then show ?thesis using split by (simp add: sem c_def)
qed

lemmas opcode_defs = DW_OP_deref_def DW_OP_dup_def DW_OP_swap_def DW_OP_and_def DW_OP_plus_def
  DW_OP_plus_uconst_def DW_OP_ne_def DW_OP_lit0_def DW_OP_lit31_def DW_OP_breg0_def DW_OP_breg31_def
  DW_OP_deref_size_def

lemma dispatch_simple:
  "execute_opcode cm 0x06 m = FIRCLSDwarfExpressionMachineExecute_deref cm m"
  "execute_opcode cm 0x12 m = Some (FIRCLSDwarfExpressionMachineExecute_dup m)"
  "execute_opcode cm 0x1A m = Some (FIRCLSDwarfExpressionMachineExecute_and m)"
  "execute_opcode cm 0x22 m = FIRCLSDwarfExpressionMachineExecute_plus m"
  "execute_opcode cm 0x16 m = Some (FIRCLSDwarfExpressionMachineExecute_swap m)"
  "execute_opcode cm 0x23 m = FIRCLSDwarfExpressionMachineExecute_plus_uconst cm m"
  "execute_opcode cm 0x2E m = Some (FIRCLSDwarfExpressionMachineExecute_ne m)"
  "execute_opcode cm 0x94 m = FIRCLSDwarfExpressionMachineExecute_deref_size cm m"
  by (simp_all add: execute_opcode_def opcode_defs)

lemma dispatch_lit:
  assumes "n < 32"
  shows "execute_opcode cm (of_nat (0x30 + n)) m = Some (FIRCLSDwarfExpressionMachineExecute_litN m (of_nat (0x30 + n)))"
proof -
  have u: "unat (of_nat (0x30 + n) :: byte) = 0x30 + n" using assms by (intro unat_of_nat_byte) simp
  show ?thesis
    using assms unfolding execute_opcode_def word_unat_eq_iff word_le_nat_alt u opcode_defs by simp
qed

lemma dispatch_breg:
  assumes "n < 32"
  shows "execute_opcode cm (of_nat (0x70 + n)) m = FIRCLSDwarfExpressionMachineExecute_bregN cm m (of_nat (0x70 + n))"
proof -
  have u: "unat (of_nat (0x70 + n) :: byte) = 0x70 + n" using assms by (intro unat_of_nat_byte) simp
  show ?thesis
    using assms unfolding execute_opcode_def word_unat_eq_iff word_le_nat_alt u opcode_defs by simp
qed

lemma step_outcome_cursor [simp]:
  "step_outcome res (m\<lparr>m_dataCursor := d\<rparr>) c out \<longleftrightarrow> step_outcome res m c out"
  by (simp add: step_outcome_def split: option.splits)

lemma execute_next_refines:
  assumes rel: "stack_rel (m_stack m) xs" and op: "op_valid op"
    and at: "bytes_at cm (m_dataCursor m) (op_bytes op)"
  shows "step_outcome (FIRCLSDwarfExpressionMachineExecuteNextOpcode cm m) m
    (after (m_dataCursor m) (length (op_bytes op))) (op_sem cm (m_registers m) op xs)"
proof -
  define m1 where "m1 = m\<lparr>m_dataCursor := after (m_dataCursor m) 1\<rparr>"
  obtain b rest where b: "op_bytes op = b # rest" by (cases op) auto
  have at1: "bytes_at cm (m_dataCursor m) [b]" "bytes_at cm (m_dataCursor m1) rest"
    using at bytes_at_Cons [of cm "m_dataCursor m" b rest] by (simp_all add: b m1_def)
  have nxt: "FIRCLSDwarfExpressionMachineExecuteNextOpcode cm m = execute_opcode cm b m1"
    by (simp add: FIRCLSDwarfExpressionMachineExecuteNextOpcode_def parse8_at [OF at1(1)] m1_def)
  have rel1: "stack_rel (m_stack m1) xs" using rel by (simp add: m1_def)
  have "step_outcome (execute_opcode cm b m1) m1 (after (m_dataCursor m1) (length rest))
      (op_sem cm (m_registers m1) op xs)"
  proof (cases op)
    case OpDeref
    then show ?thesis using b exec_deref [OF rel1] by (auto simp: dispatch_simple)
  next
    case OpDup
    then show ?thesis using b exec_dup [OF rel1] by (auto simp: dispatch_simple)
  next
    case OpAnd
    then show ?thesis using b exec_binary [OF rel1] by (auto simp: dispatch_simple)
  next
    case OpPlus
    then show ?thesis using b exec_binary [OF rel1] by (auto simp: dispatch_simple)
  next
    case OpSwap
    then show ?thesis using b exec_swap [OF rel1] by (auto simp: dispatch_simple)
  next
    case (OpPlusUconst u)
    then show ?thesis using b op exec_plus_uconst [OF rel1] at1(2) by (auto simp: dispatch_simple)
  next
    case OpNe
    then show ?thesis using b exec_binary [OF rel1] by (auto simp: dispatch_simple)
  next
    case (OpLit n)
    then show ?thesis using b op exec_lit [OF rel1] by (auto simp: dispatch_lit simp del: of_nat_add)
  next
    case (OpBreg n off)
    then show ?thesis
      using b op exec_breg [OF rel1, of n off] at1(2) by (auto simp: dispatch_breg simp del: of_nat_add op_sem.simps)
  next
    case (OpDerefSize n)
    then show ?thesis using b op exec_deref_size [OF rel1, of n] at1(2)
      by (auto simp: dispatch_simple simp del: op_sem.simps)
  qed
  then show ?thesis unfolding nxt by (simp add: b m1_def)
qed

section \<open>Whole expressions\<close>

fun ops_sem :: "cmem \<Rightarrow> FIRCLSThreadContext \<Rightarrow> dw_op list \<Rightarrow> u64 list \<Rightarrow> u64 list option option" where
  "ops_sem cm r [] xs = Some (Some xs)"
| "ops_sem cm r (op # ops) xs =
     (case op_sem cm r op xs of
        None \<Rightarrow> None
      | Some None \<Rightarrow> Some None
      | Some (Some ys) \<Rightarrow> ops_sem cm r ops ys)"

definition ops_bytes :: "dw_op list \<Rightarrow> bytes" where
  "ops_bytes ops = concat (map op_bytes ops)"

lemma ops_bytes_simps [simp]:
  "ops_bytes [] = []" "ops_bytes (op # ops) = op_bytes op @ ops_bytes ops"
  "ops_bytes (xs @ ys) = ops_bytes xs @ ops_bytes ys"
  by (simp_all add: ops_bytes_def)

lemma op_bytes_not_Nil [simp]: "op_bytes op \<noteq> []"
  by (cases op) auto

lemma loop_refines:
  assumes "stack_rel (m_stack m) xs" "list_all op_valid ops"
    "bytes_at cm (m_dataCursor m) (ops_bytes ops)"
    "m_endAddress m = after (m_dataCursor m) (length (ops_bytes ops))"
    "FIRCLSIsValidPointer (m_dataCursor m)"
  shows "step_outcome (machine_loop cm m) m (m_endAddress m) (ops_sem cm (m_registers m) ops xs)"
  using assms
proof (induction ops arbitrary: m xs)
  case Nil
  then have "FIRCLSDwarfExpressionMachineIsFinished m"
    by (simp add: FIRCLSDwarfExpressionMachineIsFinished_def)
  then have "machine_loop cm m = Some (True, m)" by (subst machine_loop.simps) simp
  then show ?case using Nil by (auto simp: step_outcome_def intro!: exI [of _ "m_stack m"])
next
  case (Cons op ops)
  let ?c = "m_dataCursor m" and ?n = "length (op_bytes op)"
  have at: "bytes_at cm ?c (op_bytes op)" "bytes_at cm (after ?c ?n) (ops_bytes ops)"
    using Cons.prems(3) by (simp_all add: bytes_at_append)
  have bound: "unat ?c + length (ops_bytes (op # ops)) < 2 ^ 64"
    using Cons.prems(3) by (simp only: bytes_at_def)
  then have e: "unat (m_endAddress m) = unat ?c + length (ops_bytes (op # ops))"
    using Cons.prems(4) by (simp add: unat_after)
  have "0 < ?n" by simp
  then have lt: "?c < m_endAddress m" using e by (simp add: word_less_nat_alt)
  then have unfinished: "\<not> FIRCLSDwarfExpressionMachineIsFinished m"
    using Cons.prems(5) stack_rel_valid [OF Cons.prems(1)]
    by (auto simp: FIRCLSDwarfExpressionMachineIsFinished_def FIRCLSIsValidPointer_def)
  have step: "step_outcome (FIRCLSDwarfExpressionMachineExecuteNextOpcode cm m) m (after ?c ?n)
      (op_sem cm (m_registers m) op xs)"
    using Cons.prems by (intro execute_next_refines at) simp_all
  show ?case
  proof (cases "op_sem cm (m_registers m) op xs")
    case None
    then show ?thesis using step unfinished by (subst machine_loop.simps) simp
  next
    case (Some out)
    show ?thesis
    proof (cases out)
      case None
      then obtain m' where "FIRCLSDwarfExpressionMachineExecuteNextOpcode cm m = Some (False, m')"
        using step Some by (auto simp: step_outcome_def)
      then show ?thesis using unfinished Some None by (subst machine_loop.simps) simp
    next
      case (Some ys)
      then obtain s' where s': "stack_rel s' ys"
          "FIRCLSDwarfExpressionMachineExecuteNextOpcode cm m = Some (True, m\<lparr>m_dataCursor := after ?c ?n, m_stack := s'\<rparr>)"
        using step \<open>op_sem _ _ _ _ = Some out\<close> by (auto simp: step_outcome_def)
      let ?m = "m\<lparr>m_dataCursor := after ?c ?n, m_stack := s'\<rparr>"
      have "unat (after ?c ?n) = unat ?c + ?n" using bound by (intro unat_after) simp
      then have "FIRCLSIsValidPointer (m_dataCursor ?m)"
        using Cons.prems(5) by (simp add: FIRCLSIsValidPointer_def word_le_nat_alt)
      then have "step_outcome (machine_loop cm ?m) ?m (m_endAddress ?m) (ops_sem cm (m_registers ?m) ops ys)"
        using Cons.prems s'(1) at(2) by (intro Cons.IH) simp_all
      moreover have "machine_loop cm m = machine_loop cm ?m"
        using unfinished s'(2) by (subst machine_loop.simps) simp
      ultimately show ?thesis
        using Some \<open>op_sem _ _ _ _ = Some out\<close> by (auto simp: step_outcome_def split: option.splits)
    qed
  qed
qed

lemma push_list_not_Nil: "push_list v xs \<noteq> Some []"
  by (simp add: push_list_def)

lemma op_sem_not_Nil: "xs \<noteq> [] \<Longrightarrow> op_sem cm r op xs \<noteq> Some (Some [])"
  by (cases "(cm, r, op, xs)" rule: op_sem.cases)
    (auto simp: push_list_not_Nil Option.bind_eq_Some_conv split: option.splits)

lemma ops_sem_not_Nil: "xs \<noteq> [] \<Longrightarrow> ops_sem cm r ops xs \<noteq> Some (Some [])"
proof (induction ops arbitrary: xs)
  case (Cons op ops)
  then show ?case using op_sem_not_Nil [of xs cm r op] by (auto split: option.splits)
qed simp

lemma evaluate_refines:
  assumes ops: "list_all op_valid ops" and ne: "ops \<noteq> []" and len: "length (ops_bytes ops) < 2 ^ 31"
    and at: "bytes_at cm c (uvarint (length (ops_bytes ops)) @ ops_bytes ops)"
    and c: "FIRCLSIsValidPointer c"
  shows "FIRCLSDwarfEvalulateExpression cm c r v =
    (case ops_sem cm r ops [v] of
       None \<Rightarrow> None
     | Some None \<Rightarrow> Some (False, None)
     | Some (Some ys) \<Rightarrow> Some (True, Some (hd ys)))"
proof -
  let ?n = "length (ops_bytes ops)"
  have "stack_rel FIRCLSDwarfExpressionStackInit []"
    by (simp add: stack_rel_def FIRCLSDwarfExpressionStackInit_def CLS_DWARF_EXPRESSION_STACK_SIZE_def)
  then obtain s where s: "FIRCLSDwarfExpressionStackPush FIRCLSDwarfExpressionStackInit v = (True, s)" "stack_rel s [v]"
    using push_rel [of _ "[]" v] by (fastforce simp: push_list_def)
  have init: "FIRCLSDwarfExpressionMachineInit c r v =
      (True, \<lparr>m_stack = s, m_dataCursor = c, m_endAddress = 0, m_registers = r\<rparr>)" (is "_ = (True, ?m0)")
    using c s(1) by (simp add: FIRCLSDwarfExpressionMachineInit_def Let_def)
  have at': "bytes_at cm c (uvarint ?n)" "bytes_at cm (after c (length (uvarint ?n))) (ops_bytes ops)"
    using at by (simp_all add: bytes_at_append)
  have n: "unat (of_nat ?n :: u64) = ?n" using len by (simp add: unat_of_nat)
  obtain op ops' where "ops = op # ops'" using ne by (cases ops) auto
  then have "0 < ?n" by simp
  then have "(of_nat ?n :: u64) \<noteq> 0" using n by (metis less_irrefl unat_0)
  define c1 where "c1 = after c (length (uvarint ?n))"
  have u: "unat c1 = unat c + length (uvarint ?n)" "unat c1 + ?n < 2 ^ 64"
    using at at' unat_after [of c "length (uvarint ?n)"] by (simp_all add: c1_def bytes_at_def)
  define m where "m = ?m0\<lparr>m_dataCursor := c1, m_endAddress := after c1 ?n\<rparr>"
  have prep: "FIRCLSDwarfExpressionMachinePrepareForExecution cm ?m0 = Some (True, m)"
    using uleb_reads [OF at'(1) len] \<open>of_nat ?n \<noteq> 0\<close> ptr_add_after [OF u(2)] n
    by (simp add: FIRCLSDwarfExpressionMachinePrepareForExecution_def m_def c1_def)
  have "FIRCLSIsValidPointer c1" using c u by (simp add: FIRCLSIsValidPointer_def word_le_nat_alt)
  then have loop: "step_outcome (machine_loop cm m) m (m_endAddress m) (ops_sem cm r ops [v])"
    using loop_refines [of m "[v]" ops cm] s(2) ops at'(2) by (simp add: m_def c1_def)
  show ?thesis
  proof (cases "ops_sem cm r ops [v]")
    case None
    then show ?thesis using loop c init prep by (simp add: FIRCLSDwarfEvalulateExpression_def)
  next
    case (Some out)
    show ?thesis
    proof (cases out)
      case None
      then show ?thesis
        using loop c init prep Some by (auto simp: FIRCLSDwarfEvalulateExpression_def step_outcome_def)
    next
      case (Some ys)
      then obtain y ys' where ys: "ys = y # ys'"
        using ops_sem_not_Nil [of "[v]" cm r ops] \<open>ops_sem _ _ _ _ = Some out\<close> by (cases ys) auto
      obtain s' where s': "machine_loop cm m = Some (True, m\<lparr>m_dataCursor := m_endAddress m, m_stack := s'\<rparr>)"
          "stack_rel s' (y # ys')"
        using loop Some ys \<open>ops_sem _ _ _ _ = Some out\<close> by (auto simp: step_outcome_def)
      then show ?thesis
        using c init prep Some ys \<open>ops_sem _ _ _ _ = Some out\<close> peek_rel [OF s'(2)] stack_rel_valid [OF s'(2)]
        by (simp add: FIRCLSDwarfEvalulateExpression_def FIRCLSDwarfExpressionMachineGetResult_def)
    qed
  qed
qed

section \<open>Expressions\<close>

text \<open>Expression trees over the opcodes, their values, and their code in postfix order.\<close>

datatype dw_exp =
    XLit nat
  | XReg nat u64
  | XDeref dw_exp
  | XDerefSize nat dw_exp
  | XPlusConst dw_exp u64
  | XPlus dw_exp dw_exp
  | XAnd dw_exp dw_exp
  | XNe dw_exp dw_exp

fun exp_code :: "dw_exp \<Rightarrow> dw_op list" where
  "exp_code (XLit n) = [OpLit n]"
| "exp_code (XReg n off) = [OpBreg n off]"
| "exp_code (XDeref e) = exp_code e @ [OpDeref]"
| "exp_code (XDerefSize n e) = exp_code e @ [OpDerefSize n]"
| "exp_code (XPlusConst e u) = exp_code e @ [OpPlusUconst u]"
| "exp_code (XPlus a b) = exp_code a @ exp_code b @ [OpPlus]"
| "exp_code (XAnd a b) = exp_code a @ exp_code b @ [OpAnd]"
| "exp_code (XNe a b) = exp_code a @ exp_code b @ [OpNe]"

text \<open>No value: memory that cannot be read, or an addition that overflows.\<close>

fun exp_value :: "cmem \<Rightarrow> FIRCLSThreadContext \<Rightarrow> dw_exp \<Rightarrow> u64 option" where
  "exp_value cm r (XLit n) = Some (of_nat n)"
| "exp_value cm r (XReg n off) = Some (FIRCLSDwarfUnwindGetRegisterValue r (of_nat n) + off)"
| "exp_value cm r (XDeref e) =
     do { x \<leftarrow> exp_value cm r e; bs \<leftarrow> FIRCLSReadMemory cm x 8; Some (le_word bs) }"
| "exp_value cm r (XDerefSize n e) =
     do { x \<leftarrow> exp_value cm r e; v \<leftarrow> load_word cm (unat x) n; _ \<leftarrow> ptr_add x n; Some v }"
| "exp_value cm r (XPlusConst e u) = do { x \<leftarrow> exp_value cm r e; Some (x + u) }"
| "exp_value cm r (XPlus a b) = do { x \<leftarrow> exp_value cm r a; y \<leftarrow> exp_value cm r b; add_signed y x }"
| "exp_value cm r (XAnd a b) = do { x \<leftarrow> exp_value cm r a; y \<leftarrow> exp_value cm r b; Some (y AND x) }"
| "exp_value cm r (XNe a b) =
     do { x \<leftarrow> exp_value cm r a; y \<leftarrow> exp_value cm r b; Some (if y \<noteq> x then 1 else 0) }"

fun exp_depth :: "dw_exp \<Rightarrow> nat" where
  "exp_depth (XLit n) = 1"
| "exp_depth (XReg n off) = 1"
| "exp_depth (XDeref e) = exp_depth e"
| "exp_depth (XDerefSize n e) = exp_depth e"
| "exp_depth (XPlusConst e u) = exp_depth e"
| "exp_depth (XPlus a b) = max (exp_depth a) (exp_depth b + 1)"
| "exp_depth (XAnd a b) = max (exp_depth a) (exp_depth b + 1)"
| "exp_depth (XNe a b) = max (exp_depth a) (exp_depth b + 1)"

lemma exp_depth_pos: "0 < exp_depth e"
  by (induction e) auto

lemma exp_code_not_Nil [simp]: "exp_code e \<noteq> []"
  by (cases e) auto

lemma exp_code_value:
  "exp_value cm r e = Some v \<Longrightarrow> exp_depth e + length xs \<le> 100 \<Longrightarrow>
     ops_sem cm r (exp_code e @ ops) xs = ops_sem cm r ops (v # xs)"
proof (induction e arbitrary: v xs ops)
  case (XDeref e)
  then show ?case using exp_depth_pos [of e] by (auto simp: Option.bind_eq_Some_conv push_list_def)
next
  case (XDerefSize n e)
  then show ?case using exp_depth_pos [of e] by (auto simp: Option.bind_eq_Some_conv push_list_def)
next
  case (XPlusConst e u)
  then show ?case using exp_depth_pos [of e] by (auto simp: Option.bind_eq_Some_conv push_list_def)
next
  case (XPlus a b)
  then show ?case using exp_depth_pos [of a] by (auto simp: Option.bind_eq_Some_conv push_list_def)
next
  case (XAnd a b)
  then show ?case using exp_depth_pos [of a] by (auto simp: Option.bind_eq_Some_conv push_list_def)
next
  case (XNe a b)
  then show ?case using exp_depth_pos [of a] by (auto simp: Option.bind_eq_Some_conv push_list_def)
qed (auto simp: push_list_def)

definition exp_bytes :: "dw_exp \<Rightarrow> bytes" where
  "exp_bytes e = ops_bytes (exp_code e)"

text \<open>C10: For every expression tree built from the supported opcodes whose code is less than 2^31 bytes
  long and needs at most 99 stack slots, evaluating the code of the tree in any memory returns true
  with the value of the tree, whatever the initial value on the stack: the interpreter decodes every
  operand, keeps its stack and stops at the end of the code.
\<close>

theorem compiled_expression:
  assumes "FIRCLSIsValidPointer c" "list_all op_valid (exp_code e)" "length (exp_bytes e) < 2 ^ 31"
    and "bytes_at cm c (uvarint (length (exp_bytes e)) @ exp_bytes e)"
    and "exp_value cm r e = Some v" "exp_depth e \<le> 99"
  shows "FIRCLSDwarfEvalulateExpression cm c r v0 = Some (True, Some v)"
  using evaluate_refines [of "exp_code e" cm c r v0] exp_code_value [of cm r e v "[v0]" "[]"] assms
  by (simp add: exp_bytes_def)

definition sample_exp :: dw_exp where
  "sample_exp = XPlusConst (XPlus (XAnd (XReg 31 (- 200)) (XLit 24)) (XDerefSize 1 (XReg 3 2))) 300"

definition sample_regs :: FIRCLSThreadContext where
  "sample_regs = \<lparr>ss_x = replicate 29 4096, ss_fp = 0, ss_lr = 0, ss_sp = 4312, ss_pc = 0\<rparr>"

lemma compiled_expression_witness:
  "FIRCLSDwarfEvalulateExpression (mem_at 4096 (uvarint (length (exp_bytes sample_exp)) @ exp_bytes sample_exp))
     4096 sample_regs 7 = Some (True, Some 500)"
proof -
  let ?code = "[0x0D, 0x8F, 0xB8, 0x7E, 0x48, 0x1A, 0x73, 0x02, 0x94, 0x01, 0x22, 0x23, 0xAC, 0x02] :: bytes"
  have e: "exp_bytes sample_exp = tl ?code" by code_simp
  have c: "uvarint (length (exp_bytes sample_exp)) @ exp_bytes sample_exp = ?code"
    by (simp add: e uvarint_small)
  show ?thesis
  proof (rule compiled_expression [of 4096 sample_exp])
    show "FIRCLSIsValidPointer 4096" "list_all op_valid (exp_code sample_exp)" "exp_depth sample_exp \<le> 99"
      by (simp_all add: FIRCLSIsValidPointer_def sample_exp_def)
    show "length (exp_bytes sample_exp) < 2 ^ 31" by (simp add: e)
    show "bytes_at (mem_at 4096 (uvarint (length (exp_bytes sample_exp)) @ exp_bytes sample_exp)) 4096
        (uvarint (length (exp_bytes sample_exp)) @ exp_bytes sample_exp)"
      unfolding c using bytes_at_mem_at [of 4096 ?code] by simp
    show "exp_value (mem_at 4096 (uvarint (length (exp_bytes sample_exp)) @ exp_bytes sample_exp)) sample_regs
        sample_exp = Some 500"
      unfolding c by (simp add: sample_exp_def sample_regs_def FIRCLSDwarfUnwindGetRegisterValue_def
          CLS_DWARF_REG_FP_def CLS_DWARF_REG_RETURN_def CLS_DWARF_REG_SP_def CLS_PTRAUTH_STRIP_def
          FIRCLSThreadContextGetStackPointer_def load_word_def mem_at_def ptr_add_def add_signed_def)
  qed
qed

section \<open>The stack under arbitrary code\<close>

definition stack_wf :: "FIRCLSDwarfExpressionStack \<Rightarrow> bool" where
  "stack_wf s \<longleftrightarrow> length (st_buffer s) = CLS_DWARF_EXPRESSION_STACK_SIZE \<and>
     (case st_pointer s of None \<Rightarrow> True | Some p \<Rightarrow> p \<le> CLS_DWARF_EXPRESSION_STACK_SIZE)"

lemma push_wf: "stack_wf s \<Longrightarrow> stack_wf (snd (FIRCLSDwarfExpressionStackPush s v))"
  by (auto simp: stack_wf_def FIRCLSDwarfExpressionStackPush_def FIRCLSDwarfExpressionStackIsValid_def Let_def
      split: option.splits)

lemma pop_wf: "stack_wf s \<Longrightarrow> stack_wf (snd (FIRCLSDwarfExpressionStackPop s))"
  by (auto simp: stack_wf_def FIRCLSDwarfExpressionStackPop_def FIRCLSDwarfExpressionStackIsValid_def Let_def
      split: option.splits)


lemma machine_wf:
  "stack_wf (m_stack m) \<Longrightarrow> FIRCLSDwarfExpressionMachineStackPop m = (v, m') \<Longrightarrow> stack_wf (m_stack m')"
  "stack_wf (m_stack m) \<Longrightarrow> FIRCLSDwarfExpressionMachineStackPush m v = (ok, m') \<Longrightarrow> stack_wf (m_stack m')"
  using pop_wf [of "m_stack m"] push_wf [of "m_stack m" v]
  by (auto simp: FIRCLSDwarfExpressionMachineStackPop_def FIRCLSDwarfExpressionMachineStackPush_def
      split: prod.splits)





text \<open>One round of the evaluation loop, also the one that ends it.\<close>

inductive machine_step :: "cmem \<Rightarrow> FIRCLSDwarfExpressionMachine \<Rightarrow> FIRCLSDwarfExpressionMachine \<Rightarrow> bool" for cm where
  "\<not> FIRCLSDwarfExpressionMachineIsFinished m \<Longrightarrow>
   FIRCLSDwarfExpressionMachineExecuteNextOpcode cm m = Some (ok, m') \<Longrightarrow> machine_step cm m m'"

inductive_cases machine_stepE: "machine_step cm m m'"







text \<open>C31: Evaluating an expression terminates on every memory content: each round of the loop moves the
  cursor forward, so no sequence of rounds is infinite.
\<close>

theorem expression_terminates: "wfp (\<lambda>m' m. machine_step cm m m')"
proof (rule wfp_if_convertible_to_nat [where f = "\<lambda>m. 2 ^ 64 - unat (m_dataCursor m)"])
  fix m' m
  assume "machine_step cm m m'"
  then have "unat (m_dataCursor m) < unat (m_dataCursor m')"
    by (auto elim!: machine_stepE dest!: execute_next_cursor)
  moreover have "unat (m_dataCursor m') < 2 ^ 64" by (rule order_less_le_trans [OF unsigned_less]) simp
  ultimately show "2 ^ 64 - unat (m_dataCursor m') < 2 ^ 64 - unat (m_dataCursor m)" by simp
qed

text \<open>
  The address of \<open>DW_OP_deref_size\<close> is read without \<open>FIRCLSReadMemory\<close>: where \<open>DW_OP_deref\<close> makes the
  evaluation return false, it faults.
\<close>

lemma deref_size_faults:
  assumes "FIRCLSIsValidPointer c" "load_bytes cm 0 1 = None"
  shows "bytes_at cm c [2, 0x94, 1] \<Longrightarrow> FIRCLSDwarfEvalulateExpression cm c r 0 = None"
    and "bytes_at cm c [1, 0x06] \<Longrightarrow> FIRCLSDwarfEvalulateExpression cm c r 0 = Some (False, None)"
  using assms evaluate_refines [of "[OpDerefSize 1]" cm c r 0] evaluate_refines [of "[OpDeref]" cm c r 0]
  by (simp_all add: uvarint_small load_word_def FIRCLSReadMemory_def FIRCLSIsValidPointer_def)

end
