(* ===== verification/CompactUnwind.thy ===== *)
theory CompactUnwind
  imports DwarfUnwind
begin

text \<open>
  \<^verbatim>\<open>Crashlytics/Unwind/Compact/FIRCLSCompactUnwind.c\<close> and the frame computations of
  \<^verbatim>\<open>Unwind/FIRCLSUnwind_arm.c\<close>: the two-level lookup in the \<open>__unwind_info\<close> section of an image and
  the change of the registers that the encoding found asks for.

  The layout of the section and the macros on its entries are Apple's \<open>mach-o/compact_unwind_encoding.h\<close>,
  which is not part of the repository: they are the parameter \<open>compact_format\<close>.
\<close>

section \<open>The section's format\<close>

text \<open>The fields of the header that the code reads.\<close>

record unwind_info_section_header =
  uh_version :: u32
  uh_commonEncodingsArraySectionOffset :: u32
  uh_commonEncodingsArrayCount :: u32
  uh_indexSectionOffset :: u32
  uh_indexCount :: u32

record unwind_info_section_header_index_entry =
  ui_functionOffset :: u32
  ui_secondLevelPagesSectionOffset :: u32

record unwind_info_compressed_second_level_page_header =
  up_entryPageOffset :: u16
  up_entryCount :: u16
  up_encodingsPageOffset :: u16

record compact_format =
  cf_header_size :: nat
  cf_header :: "bytes \<Rightarrow> unwind_info_section_header"
  cf_index_size :: nat
  cf_index :: "bytes \<Rightarrow> unwind_info_section_header_index_entry"
  cf_page_size :: nat
  cf_page :: "bytes \<Rightarrow> unwind_info_compressed_second_level_page_header"
  UNWIND_INFO_COMPRESSED_ENTRY_FUNC_OFFSET :: "u32 \<Rightarrow> u32"
  UNWIND_INFO_COMPRESSED_ENTRY_ENCODING_INDEX :: "u32 \<Rightarrow> u32"
  UNWIND_SECTION_VERSION :: u32
  UNWIND_SECOND_LEVEL_REGULAR :: u32
  UNWIND_SECOND_LEVEL_COMPRESSED :: u32
  UNWIND_ARM64_MODE_MASK :: u32
  UNWIND_ARM64_MODE_FRAMELESS :: u32
  UNWIND_ARM64_MODE_DWARF :: u32
  UNWIND_ARM64_MODE_FRAME :: u32
  UNWIND_ARM64_DWARF_SECTION_OFFSET :: u32

section \<open>Contexts\<close>

record FIRCLSCompactUnwindContext =
  cu_unwindInfo :: u64
  cu_ehFrame :: u64
  cu_loadAddress :: u64
  cu_unwindHeader :: unwind_info_section_header
  cu_indexHeader :: unwind_info_section_header_index_entry
  cu_firstLevelNextFunctionOffset :: u32

record FIRCLSCompactUnwindResult =
  cr_encoding :: u32
  cr_functionStart :: u64
  cr_functionEnd :: u64
  cr_lsda :: u64
  cr_personality :: u64

definition zero_context :: FIRCLSCompactUnwindContext where
  "zero_context = \<lparr>cu_unwindInfo = 0, cu_ehFrame = 0, cu_loadAddress = 0,
     cu_unwindHeader = \<lparr>uh_version = 0, uh_commonEncodingsArraySectionOffset = 0,
       uh_commonEncodingsArrayCount = 0, uh_indexSectionOffset = 0, uh_indexCount = 0\<rparr>,
     cu_indexHeader = \<lparr>ui_functionOffset = 0, ui_secondLevelPagesSectionOffset = 0\<rparr>,
     cu_firstLevelNextFunctionOffset = 0\<rparr>"

definition zero_result :: FIRCLSCompactUnwindResult where
  "zero_result = \<lparr>cr_encoding = 0, cr_functionStart = 0, cr_functionEnd = 0, cr_lsda = 0, cr_personality = 0\<rparr>"

definition FIRCLSCompactUnwindInit ::
  "compact_format \<Rightarrow> cmem \<Rightarrow> FIRCLSCompactUnwindContext \<Rightarrow> u64 \<Rightarrow> u64 \<Rightarrow> u64 \<Rightarrow>
     bool \<times> FIRCLSCompactUnwindContext" where
  "FIRCLSCompactUnwindInit cf cm ctx unwindInfo ehFrame loadAddress =
     (if \<not> FIRCLSIsValidPointer unwindInfo then (False, ctx)
      else if \<not> FIRCLSIsValidPointer loadAddress then (False, ctx)
      else
        case FIRCLSReadMemory cm unwindInfo (cf_header_size cf) of
          None \<Rightarrow> (False, zero_context)
        | Some bs \<Rightarrow>
            let ctx = zero_context\<lparr>cu_unwindHeader := cf_header cf bs\<rparr> in
            if uh_version (cu_unwindHeader ctx) \<noteq> UNWIND_SECTION_VERSION cf then (False, ctx)
            else (True, ctx\<lparr>cu_unwindInfo := unwindInfo, cu_ehFrame := ehFrame,
                            cu_loadAddress := loadAddress\<rparr>))"

definition FIRCLSCompactUnwindGetIndexData :: "FIRCLSCompactUnwindContext \<Rightarrow> u64" where
  "FIRCLSCompactUnwindGetIndexData ctx =
     cu_unwindInfo ctx + ucast (uh_indexSectionOffset (cu_unwindHeader ctx))"

definition FIRCLSCompactUnwindGetCommonEncodings :: "FIRCLSCompactUnwindContext \<Rightarrow> u64" where
  "FIRCLSCompactUnwindGetCommonEncodings ctx =
     cu_unwindInfo ctx + ucast (uh_commonEncodingsArraySectionOffset (cu_unwindHeader ctx))"

definition FIRCLSCompactUnwindGetSecondLevelData :: "FIRCLSCompactUnwindContext \<Rightarrow> u64" where
  "FIRCLSCompactUnwindGetSecondLevelData ctx =
     cu_unwindInfo ctx + ucast (ui_secondLevelPagesSectionOffset (cu_indexHeader ctx))"

definition FIRCLSCompactUnwindGetIndexFunctionOffset :: "FIRCLSCompactUnwindContext \<Rightarrow> u64" where
  "FIRCLSCompactUnwindGetIndexFunctionOffset ctx =
     cu_loadAddress ctx + ucast (ui_functionOffset (cu_indexHeader ctx))"

definition FIRCLSCompactUnwindGetTargetAddress :: "FIRCLSCompactUnwindContext \<Rightarrow> u64 \<Rightarrow> u64" where
  "FIRCLSCompactUnwindGetTargetAddress ctx pc =
     (let offset = FIRCLSCompactUnwindGetIndexFunctionOffset ctx in
      if pc \<le> offset then 0 else pc - offset)"

section \<open>Lookup\<close>

text \<open>The entry of an array of structures, and of an array of 32-bit words.\<close>

definition index_entry ::
  "compact_format \<Rightarrow> cmem \<Rightarrow> u64 \<Rightarrow> nat \<Rightarrow> unwind_info_section_header_index_entry option" where
  "index_entry cf cm base i =
     map_option (cf_index cf) (load_bytes cm (unat base + i * cf_index_size cf) (cf_index_size cf))"

definition word_entry :: "cmem \<Rightarrow> u64 \<Rightarrow> nat \<Rightarrow> u32 option" where
  "word_entry cm base i = load_word cm (unat base + i * 4) 4"

text \<open>The loop over the first level, \<open>n\<close> more entries from \<open>i\<close>.\<close>

fun first_level_loop ::
  "compact_format \<Rightarrow> cmem \<Rightarrow> u64 \<Rightarrow> u64 \<Rightarrow> nat \<Rightarrow> nat \<Rightarrow> FIRCLSCompactUnwindContext \<Rightarrow>
     (bool \<times> FIRCLSCompactUnwindContext) option" where
  "first_level_loop cf cm base address 0 i ctx = Some (False, ctx)"
| "first_level_loop cf cm base address (Suc n) i ctx = do {
     e \<leftarrow> index_entry cf cm base i;
     e' \<leftarrow> index_entry cf cm base (i + 1);
     if address \<ge> ucast (ui_functionOffset e) \<and> address < ucast (ui_functionOffset e')
     then Some (True, ctx\<lparr>cu_firstLevelNextFunctionOffset := ui_functionOffset e', cu_indexHeader := e\<rparr>)
     else first_level_loop cf cm base address n (i + 1) ctx
   }"

definition FIRCLSCompactUnwindLookupFirstLevel ::
  "compact_format \<Rightarrow> cmem \<Rightarrow> FIRCLSCompactUnwindContext \<Rightarrow> u64 \<Rightarrow>
     (bool \<times> FIRCLSCompactUnwindContext) option" where
  "FIRCLSCompactUnwindLookupFirstLevel cf cm ctx address =
     (let indexCount = uh_indexCount (cu_unwindHeader ctx) in
      if indexCount < 2 then Some (False, ctx)
      else if address < cu_loadAddress ctx then Some (False, ctx)
      else if FIRCLSCompactUnwindGetIndexData ctx = 0 then Some (False, ctx)
      else first_level_loop cf cm (FIRCLSCompactUnwindGetIndexData ctx) (address - cu_loadAddress ctx)
             (unat (indexCount - 1)) 0 ctx)"

definition FIRCLSCompactUnwindGetSecondLevelPageKind ::
  "cmem \<Rightarrow> FIRCLSCompactUnwindContext \<Rightarrow> u32 option" where
  "FIRCLSCompactUnwindGetSecondLevelPageKind cm ctx =
     load_word cm (unat (FIRCLSCompactUnwindGetSecondLevelData ctx)) 4"

definition FIRCLSCompactUnwindLookupSecondLevelRegular :: "bool" where
  "FIRCLSCompactUnwindLookupSecondLevelRegular = False"

text \<open>
  The loop of the binary search between \<open>index\<close> and \<open>high\<close>; its result is the return value with
  \<open>*index\<close>.  Indices stay below \<open>2 ^ 17\<close>, so that their 32 bits do not matter.
\<close>

function bsearch_loop ::
  "compact_format \<Rightarrow> cmem \<Rightarrow> u64 \<Rightarrow> nat \<Rightarrow> u64 \<Rightarrow> nat \<Rightarrow> nat \<Rightarrow> (bool \<times> nat) option" where
  "bsearch_loop cf cm entryArray entryCount address i high =
     (if \<not> i < high then Some (i < entryCount, i)
      else
        let mid = (i + high) div 2 in
        case word_entry cm entryArray mid of
          None \<Rightarrow> None
        | Some e \<Rightarrow>
            if ucast (UNWIND_INFO_COMPRESSED_ENTRY_FUNC_OFFSET cf e) > address then
              (if high = mid then Some (False, i)
               else bsearch_loop cf cm entryArray entryCount address i mid)
            else if mid = entryCount - 1 then Some (False, mid)
            else
              case word_entry cm entryArray (mid + 1) of
                None \<Rightarrow> None
              | Some e' \<Rightarrow>
                  if ucast (UNWIND_INFO_COMPRESSED_ENTRY_FUNC_OFFSET cf e') > address
                  then Some (mid < entryCount, mid)
                  else bsearch_loop cf cm entryArray entryCount address (mid + 1) high)"
  by pat_completeness auto
termination by (relation "measure (\<lambda>(cf, cm, a, n, x, i, high). high - i)") auto

declare bsearch_loop.simps [simp del]

definition FIRCLSCompactUnwindBinarySearchSecondLevel ::
  "compact_format \<Rightarrow> cmem \<Rightarrow> u64 \<Rightarrow> u16 \<Rightarrow> u64 \<Rightarrow> (bool \<times> nat) option" where
  "FIRCLSCompactUnwindBinarySearchSecondLevel cf cm address entryCount entryArray =
     (if entryArray = 0 then Some (False, 0)
      else if entryCount = 0 then Some (False, 0)
      else if address = 0 then Some (False, 0)
      else bsearch_loop cf cm entryArray (unat entryCount) address 0 (unat entryCount))"

text \<open>
  The encoding of an entry: from the common array, or from the page's own.  The encodings array of
  the page is reached by pointer arithmetic on 32-bit words.
\<close>

definition entry_encoding ::
  "compact_format \<Rightarrow> cmem \<Rightarrow> FIRCLSCompactUnwindContext \<Rightarrow> u64 \<Rightarrow>
     unwind_info_compressed_second_level_page_header \<Rightarrow> u32 \<Rightarrow> u32 option" where
  "entry_encoding cf cm ctx ptr hdr entry =
     (let encodingIndex = UNWIND_INFO_COMPRESSED_ENTRY_ENCODING_INDEX cf entry;
          commonCount = uh_commonEncodingsArrayCount (cu_unwindHeader ctx) in
      if encodingIndex < commonCount
      then word_entry cm (FIRCLSCompactUnwindGetCommonEncodings ctx) (unat encodingIndex)
      else do {
        encodings \<leftarrow> ptr_add ptr (unat (up_encodingsPageOffset hdr));
        word_entry cm encodings (unat (encodingIndex - commonCount))
      })"

definition function_end ::
  "compact_format \<Rightarrow> cmem \<Rightarrow> FIRCLSCompactUnwindContext \<Rightarrow> u64 \<Rightarrow> u16 \<Rightarrow> nat \<Rightarrow> u64 option" where
  "function_end cf cm ctx entryArray entryCount i =
     (if i < unat entryCount - 1 then do {
        e \<leftarrow> word_entry cm entryArray (i + 1);
        Some (cu_loadAddress ctx +
              ucast (UNWIND_INFO_COMPRESSED_ENTRY_FUNC_OFFSET cf e + ui_functionOffset (cu_indexHeader ctx)))
      }
      else Some (cu_loadAddress ctx + ucast (cu_firstLevelNextFunctionOffset ctx)))"

definition FIRCLSCompactUnwindLookupSecondLevelCompressed ::
  "compact_format \<Rightarrow> cmem \<Rightarrow> FIRCLSCompactUnwindContext \<Rightarrow> u64 \<Rightarrow> FIRCLSCompactUnwindResult \<Rightarrow>
     (bool \<times> FIRCLSCompactUnwindResult) option" where
  "FIRCLSCompactUnwindLookupSecondLevelCompressed cf cm ctx pc result =
     (let ptr = FIRCLSCompactUnwindGetSecondLevelData ctx in
      if ptr = 0 then Some (False, result)
      else do {
        hdr \<leftarrow> map_option (cf_page cf) (load_bytes cm (unat ptr) (cf_page_size cf));
        let targetAddress = FIRCLSCompactUnwindGetTargetAddress ctx pc;
        entryArray \<leftarrow> ptr_add ptr (unat (up_entryPageOffset hdr));
        (found, i) \<leftarrow> FIRCLSCompactUnwindBinarySearchSecondLevel cf cm targetAddress (up_entryCount hdr)
                        entryArray;
        if \<not> found then Some (False, zero_result)
        else do {
          entry \<leftarrow> word_entry cm entryArray i;
          let functionStart = ucast (UNWIND_INFO_COMPRESSED_ENTRY_FUNC_OFFSET cf entry) +
                              FIRCLSCompactUnwindGetIndexFunctionOffset ctx;
          functionEnd \<leftarrow> function_end cf cm ctx entryArray (up_entryCount hdr) i;
          let result = zero_result\<lparr>cr_functionStart := functionStart, cr_functionEnd := functionEnd\<rparr>;
          if pc < functionStart \<or> pc \<ge> functionEnd then Some (False, result)
          else do {
            encoding \<leftarrow> entry_encoding cf cm ctx ptr hdr entry;
            Some (encoding \<noteq> 0, result\<lparr>cr_encoding := encoding\<rparr>)
          }
        }
      })"

definition FIRCLSCompactUnwindLookupSecondLevel ::
  "compact_format \<Rightarrow> cmem \<Rightarrow> FIRCLSCompactUnwindContext \<Rightarrow> u64 \<Rightarrow> FIRCLSCompactUnwindResult \<Rightarrow>
     (bool \<times> FIRCLSCompactUnwindResult) option" where
  "FIRCLSCompactUnwindLookupSecondLevel cf cm ctx pc result = do {
     kind \<leftarrow> FIRCLSCompactUnwindGetSecondLevelPageKind cm ctx;
     if kind = UNWIND_SECOND_LEVEL_REGULAR cf
     then Some (FIRCLSCompactUnwindLookupSecondLevelRegular, result)
     else if kind = UNWIND_SECOND_LEVEL_COMPRESSED cf
     then FIRCLSCompactUnwindLookupSecondLevelCompressed cf cm ctx pc result
     else Some (False, result)
   }"

text \<open>The context keeps what the first level found.\<close>

definition FIRCLSCompactUnwindLookup ::
  "compact_format \<Rightarrow> cmem \<Rightarrow> FIRCLSCompactUnwindContext \<Rightarrow> u64 \<Rightarrow> FIRCLSCompactUnwindResult \<Rightarrow>
     (bool \<times> FIRCLSCompactUnwindContext \<times> FIRCLSCompactUnwindResult) option" where
  "FIRCLSCompactUnwindLookup cf cm ctx pc result = do {
     (found, ctx) \<leftarrow> FIRCLSCompactUnwindLookupFirstLevel cf cm ctx pc;
     if \<not> found then Some (False, ctx, result)
     else do {
       (ok, result) \<leftarrow> FIRCLSCompactUnwindLookupSecondLevel cf cm ctx pc result;
       Some (ok, ctx, result)
     }
   }"

section \<open>The caller's registers\<close>

definition FIRCLSUnwindWithLRRegister :: "FIRCLSThreadContext \<Rightarrow> bool \<times> FIRCLSThreadContext" where
  "FIRCLSUnwindWithLRRegister r =
     (let value = FIRCLSThreadContextGetLinkRegister r in
      if \<not> FIRCLSIsValidPointer value then (False, r)
      else (True, FIRCLSThreadContextSetPC r value))"

definition FIRCLSUnwindStackPointerFromFramePointer :: "u64 \<Rightarrow> u64" where
  "FIRCLSUnwindStackPointerFromFramePointer framePtr = framePtr + 2 * 8"

definition FIRCLSUnwindWithFramePointer ::
  "cmem \<Rightarrow> FIRCLSThreadContext \<Rightarrow> bool \<Rightarrow> bool \<times> FIRCLSThreadContext" where
  "FIRCLSUnwindWithFramePointer cm r allowScanning =
     (if allowScanning \<and> fst (FIRCLSUnwindWithLRRegister r) then FIRCLSUnwindWithLRRegister r
      else
        let framePointer = FIRCLSThreadContextGetFramePointer r in
        case FIRCLSReadMemory cm framePointer 16 of
          None \<Rightarrow> (False, r)
        | Some bs \<Rightarrow>
            let r = FIRCLSThreadContextSetPC r (le_word (drop 8 bs));
                r = FIRCLSThreadContextSetFramePointer r (le_word (take 8 bs)) in
            (True, FIRCLSThreadContextSetStackPointer r
                     (FIRCLSUnwindStackPointerFromFramePointer framePointer)))"

text \<open>The record is an uninitialised local, filled by the parser before anything reads it.\<close>

definition fresh_record :: FIRCLSDwarfCFIRecord where
  "fresh_record = \<lparr>cfi_cie = zero_cie,
     cfi_fde = \<lparr>fde_length = 0, fde_cieOffset = 0, fde_startAddress = 0, fde_rangeSize = 0,
                fde_instructions = zero_instructions\<rparr>\<rparr>"

definition FIRCLSCompactUnwindDwarfFrame ::
  "cmem \<Rightarrow> FIRCLSCompactUnwindContext \<Rightarrow> u64 \<Rightarrow> FIRCLSThreadContext \<Rightarrow> (bool \<times> FIRCLSThreadContext) option" where
  "FIRCLSCompactUnwindDwarfFrame cm ctx dwarfOffset registers = do {
     (ok, r) \<leftarrow> FIRCLSDwarfParseCFIFromFDERecordOffset cm fresh_record (cu_ehFrame ctx) dwarfOffset;
     if \<not> ok then Some (False, registers)
     else FIRCLSDwarfUnwindComputeRegisters cm r registers
   }"

definition FIRCLSCompactUnwindComputeRegisters ::
  "compact_format \<Rightarrow> cmem \<Rightarrow> FIRCLSCompactUnwindContext \<Rightarrow> FIRCLSCompactUnwindResult \<Rightarrow>
     FIRCLSThreadContext \<Rightarrow> (bool \<times> FIRCLSThreadContext) option" where
  "FIRCLSCompactUnwindComputeRegisters cf cm ctx result registers =
     (let mode = cr_encoding result AND UNWIND_ARM64_MODE_MASK cf in
      if mode = UNWIND_ARM64_MODE_FRAMELESS cf then Some (FIRCLSUnwindWithLRRegister registers)
      else if mode = UNWIND_ARM64_MODE_DWARF cf then
        FIRCLSCompactUnwindDwarfFrame cm ctx
          (ucast (cr_encoding result AND UNWIND_ARM64_DWARF_SECTION_OFFSET cf)) registers
      else if mode = UNWIND_ARM64_MODE_FRAME cf then Some (FIRCLSUnwindWithFramePointer cm registers False)
      else Some (False, registers))"

definition FIRCLSCompactUnwindLookupAndCompute ::
  "compact_format \<Rightarrow> cmem \<Rightarrow> FIRCLSCompactUnwindContext \<Rightarrow> FIRCLSThreadContext \<Rightarrow>
     (bool \<times> FIRCLSCompactUnwindContext \<times> FIRCLSThreadContext) option" where
  "FIRCLSCompactUnwindLookupAndCompute cf cm ctx registers =
     (let pc = FIRCLSThreadContextGetPC registers in
      if pc < cu_loadAddress ctx then Some (False, ctx, registers)
      else do {
        (ok, ctx, result) \<leftarrow> FIRCLSCompactUnwindLookup cf cm ctx pc zero_result;
        if \<not> ok then Some (False, ctx, registers)
        else do {
          (ok, registers) \<leftarrow> FIRCLSCompactUnwindComputeRegisters cf cm ctx result registers;
          Some (ok, ctx, registers)
        }
      })"

end
