(* ===== verification/DwarfUnwindProofs.thy ===== *)
theory DwarfUnwindProofs
  imports DwarfMachineProofs CompactUnwind
begin

text \<open>
  The interpreter of the call frame instructions against their meaning in the DWARF standard
  (\<open>dwarf_run\<close>, \<open>instructions_enumerate_refines\<close>) with its two deviations, its memory accesses under arbitrary
  bytes (\<open>instructions_keep_state\<close>), the register file as an interface (\<open>register_file\<close>) and the registers
  assigned over it, and the agreement of DWARF unwinding with frame-pointer unwinding.
\<close>

section \<open>Call frame instructions\<close>

text \<open>
  The instructions the interpreter supports, but for \<open>DW_CFA_set_loc\<close>, whose operand depends on the
  pointer encoding.
\<close>

datatype cfi =
    CfiNop
  | CfiAdvance nat
  | CfiAdvance1 byte
  | CfiAdvance2 u16
  | CfiAdvance4 u32
  | CfiDefCfa u64 u64
  | CfiDefCfaRegister u64
  | CfiDefCfaOffset u64
  | CfiSameValue u64
  | CfiRegister u64 u64
  | CfiOffset nat u64
  | CfiDefCfaExpression bytes
  | CfiExpression u64 bytes
  | CfiValExpression u64 bytes

abbreviation ucode :: "u64 \<Rightarrow> bytes" where "ucode v \<equiv> uvarint (unat v)"

definition block :: "bytes \<Rightarrow> bytes" where "block bs = uvarint (length bs) @ bs"

fun cfi_bytes :: "cfi \<Rightarrow> bytes" where
  "cfi_bytes CfiNop = [0x00]"
| "cfi_bytes (CfiAdvance n) = [of_nat (0x40 + n)]"
| "cfi_bytes (CfiAdvance1 v) = [0x02, v]"
| "cfi_bytes (CfiAdvance2 v) = 0x03 # word_le_bytes 2 v"
| "cfi_bytes (CfiAdvance4 v) = 0x04 # word_le_bytes 4 v"
| "cfi_bytes (CfiDefCfa r off) = 0x0C # ucode r @ ucode off"
| "cfi_bytes (CfiDefCfaRegister r) = 0x0D # ucode r"
| "cfi_bytes (CfiDefCfaOffset off) = 0x0E # ucode off"
| "cfi_bytes (CfiSameValue r) = 0x08 # ucode r"
| "cfi_bytes (CfiRegister r v) = 0x09 # ucode r @ ucode v"
| "cfi_bytes (CfiOffset n u) = of_nat (0x80 + n) # ucode u"
| "cfi_bytes (CfiDefCfaExpression bs) = 0x0F # block bs"
| "cfi_bytes (CfiExpression r bs) = 0x10 # ucode r @ block bs"
| "cfi_bytes (CfiValExpression r bs) = 0x16 # ucode r @ block bs"

definition small :: "u64 \<Rightarrow> bool" where "small v \<longleftrightarrow> unat v < 2 ^ 31"

fun cfi_valid :: "cfi \<Rightarrow> bool" where
  "cfi_valid (CfiAdvance n) = (n < 64)"
| "cfi_valid (CfiDefCfa r off) = (small r \<and> small off)"
| "cfi_valid (CfiDefCfaRegister r) = small r"
| "cfi_valid (CfiDefCfaOffset off) = small off"
| "cfi_valid (CfiSameValue r) = small r"
| "cfi_valid (CfiRegister r v) = (small r \<and> small v)"
| "cfi_valid (CfiOffset n u) = (n < 64 \<and> small u)"
| "cfi_valid (CfiDefCfaExpression bs) = (length bs < 2 ^ 31)"
| "cfi_valid (CfiExpression r bs) = (small r \<and> length bs < 2 ^ 31)"
| "cfi_valid (CfiValExpression r bs) = (small r \<and> length bs < 2 ^ 31)"
| "cfi_valid _ = True"

text \<open>
  What the code makes of an instruction at the address \<open>c\<close>: the outer option is undefined behaviour, the
  inner one a register number above 31.  It differs from the meaning of the instructions, \<open>dwarf_step\<close>, at
  \<open>CfiAdvance\<close> and where the frame address is given by an expression.
\<close>

definition if_register :: "u64 \<Rightarrow> 'a option \<Rightarrow> 'a option option" where
  "if_register r x = (if r > 31 then Some None else map_option Some x)"

fun cfi_effect ::
  "DWARFCIERecord \<Rightarrow> cursor \<Rightarrow> cfi \<Rightarrow> u64 \<times> FIRCLSDwarfState \<Rightarrow> (u64 \<times> FIRCLSDwarfState) option option" where
  "cfi_effect cie c CfiNop (off, s) = Some (Some (off, s))"
| "cfi_effect cie c (CfiAdvance n) (off, s) =
     do { d \<leftarrow> mul_signed (of_nat n) (cie_codeAlignFactor cie); Some (Some (d, s)) }"
| "cfi_effect cie c (CfiAdvance1 v) (off, s) =
     do { d \<leftarrow> add_signed off (ucast v * cie_codeAlignFactor cie); Some (Some (d, s)) }"
| "cfi_effect cie c (CfiAdvance2 v) (off, s) =
     do { d \<leftarrow> add_signed off (ucast v * cie_codeAlignFactor cie); Some (Some (d, s)) }"
| "cfi_effect cie c (CfiAdvance4 v) (off, s) =
     do { d \<leftarrow> add_signed off (ucast v * cie_codeAlignFactor cie); Some (Some (d, s)) }"
| "cfi_effect cie c (CfiDefCfa r v) (off, s) =
     if_register r (Some (off, s\<lparr>dw_cfaRegister := r, dw_cfaRegisterOffset := v\<rparr>))"
| "cfi_effect cie c (CfiDefCfaRegister r) (off, s) = if_register r (Some (off, s\<lparr>dw_cfaRegister := r\<rparr>))"
| "cfi_effect cie c (CfiDefCfaOffset v) (off, s) = Some (Some (off, s\<lparr>dw_cfaRegisterOffset := v\<rparr>))"
| "cfi_effect cie c (CfiSameValue r) (off, s) =
     if_register r (map_option (Pair off) (set_register s r FIRCLSDwarfRegisterUnused (reg_value (dw_registers s ! unat r))))"
| "cfi_effect cie c (CfiRegister r v) (off, s) =
     (if r \<le> 31 \<and> v > 31 then Some None
      else if_register r (map_option (Pair off) (set_register s r FIRCLSDwarfRegisterInRegister v)))"
| "cfi_effect cie c (CfiOffset n u) (off, s) =
     if_register (of_nat n)
       (map_option (Pair off) (set_register s (of_nat n) FIRCLSDwarfRegisterInCFA (u * cie_dataAlignFactor cie)))"
| "cfi_effect cie c (CfiDefCfaExpression bs) (off, s) =
     Some (Some (off, s\<lparr>dw_cfaRegister := 32, dw_cfaExpression := after c 1\<rparr>))"
| "cfi_effect cie c (CfiExpression r bs) (off, s) =
     if_register r
       (map_option (Pair off) (set_register s r FIRCLSDwarfRegisterAtExpression (after c (1 + length (ucode r)))))"
| "cfi_effect cie c (CfiValExpression r bs) (off, s) =
     if_register r
       (map_option (Pair off) (set_register s r FIRCLSDwarfRegisterIsExpression (after c (1 + length (ucode r)))))"

section \<open>The operands are read back\<close>

lemma parse16_at: "bytes_at cm c (word_le_bytes 2 v) \<Longrightarrow> FIRCLSParseUint16AndAdvance cm c = Some (v, after c 2)"
  using load_word_at [of cm c "word_le_bytes 2 v", where 'a = 16] ptr_add_after [of c 2]
  by (simp add: FIRCLSParseUint16AndAdvance_def bytes_at_def le_word_le_bytes)

lemma parse32_at: "bytes_at cm c (word_le_bytes 4 v) \<Longrightarrow> FIRCLSParseUint32AndAdvance cm c = Some (v, after c 4)"
  using load_word_at [of cm c "word_le_bytes 4 v", where 'a = 32] ptr_add_after [of c 4]
  by (simp add: FIRCLSParseUint32AndAdvance_def bytes_at_def)

lemma block_at:
  assumes "bytes_at cm c (block bs)" "length bs < 2 ^ 31"
  shows "do { (len, c) \<leftarrow> FIRCLSParseULEB128AndAdvance cm c; c \<leftarrow> ptr_add c (unat len); f c } =
    f (after c (length (block bs)))"
proof -
  have at: "bytes_at cm c (uvarint (length bs))" "bytes_at cm (after c (length (uvarint (length bs)))) bs"
    using assms(1) by (simp_all add: block_def bytes_at_append)
  have "unat (of_nat (length bs) :: u64) = length bs" using assms(2) by (simp add: unat_of_nat)
  moreover have "ptr_add (after c (length (uvarint (length bs)))) (length bs) =
      Some (after c (length (block bs)))"
    using at(2) by (subst ptr_add_after) (simp_all add: bytes_at_def block_def)
  ultimately show ?thesis using uleb_reads [OF at(1) assms(2)] by simp
qed

lemma max_register: "CLS_DWARF_MAX_REGISTER_NUM = 31"
  by (simp add: CLS_DWARF_MAX_REGISTER_NUM_def)

definition cfi_outcome ::
  "(bool \<times> cursor \<times> u64 \<times> FIRCLSDwarfState) option \<Rightarrow> cursor \<Rightarrow> (u64 \<times> FIRCLSDwarfState) option option \<Rightarrow> bool" where
  "cfi_outcome res c out \<longleftrightarrow>
     (case out of
        None \<Rightarrow> res = None
      | Some None \<Rightarrow> \<exists>x. res = Some (False, x)
      | Some (Some (off, s)) \<Rightarrow> res = Some (True, c, off, s))"

lemma cfi_outcome_simps [simp]:
  "cfi_outcome res c None \<longleftrightarrow> res = None"
  "cfi_outcome (Some (False, x)) c (Some None)"
  "cfi_outcome res c (Some (Some (off, s))) \<longleftrightarrow> res = Some (True, c, off, s)"
  by (simp_all add: cfi_outcome_def) (metis surj_pair)

lemma operand_bytes:
  assumes "n < 64"
  shows "of_nat (0x80 + n) AND (0x3F :: byte) = of_nat n" "of_nat (0x80 + n) AND (0xC0 :: byte) = 0x80"
    "of_nat (0x40 + n) AND (0x3F :: byte) = of_nat n" "of_nat (0x40 + n) AND (0xC0 :: byte) = 0x40"
proof -
  have "list_all (\<lambda>n. of_nat (0x80 + n) AND (0x3F :: byte) = of_nat n \<and> of_nat (0x80 + n) AND (0xC0 :: byte) = 0x80 \<and>
      of_nat (0x40 + n) AND (0x3F :: byte) = of_nat n \<and> of_nat (0x40 + n) AND (0xC0 :: byte) = 0x40) [0..<64]"
    by code_simp
  then show "of_nat (0x80 + n) AND (0x3F :: byte) = of_nat n" "of_nat (0x80 + n) AND (0xC0 :: byte) = 0x80"
    "of_nat (0x40 + n) AND (0x3F :: byte) = of_nat n" "of_nat (0x40 + n) AND (0xC0 :: byte) = 0x40"
    using assms by (simp_all add: list_all_iff del: of_nat_add)
qed

lemma dispatch_operand:
  assumes "48 \<le> unat b"
  shows "execute_instruction cm cie b c off s = FIRCLSDwarfParseAndExecuteInstructionWithOperand cm c b cie s off"
  using assms unfolding execute_instruction_def unimplemented_cfa_def Let_def insert_iff word_unat_eq_iff by simp

lemma dispatch_cfi:
  "execute_instruction cm cie 0x02 c off s =
     map_option (\<lambda>(ok, c, off). (ok, c, off, s)) (FIRCLSDwarfParseAndExecute_advance_loc1 cm c cie off)"
  "execute_instruction cm cie 0x03 c off s =
     map_option (\<lambda>(ok, c, off). (ok, c, off, s)) (FIRCLSDwarfParseAndExecute_advance_loc2 cm c cie off)"
  "execute_instruction cm cie 0x04 c off s =
     map_option (\<lambda>(ok, c, off). (ok, c, off, s)) (FIRCLSDwarfParseAndExecute_advance_loc4 cm c cie off)"
  "execute_instruction cm cie 0x0C c off s =
     map_option (\<lambda>(ok, c, s). (ok, c, off, s)) (FIRCLSDwarfParseAndExecute_def_cfa cm c s)"
  "execute_instruction cm cie 0x0D c off s =
     map_option (\<lambda>(ok, c, s). (ok, c, off, s)) (FIRCLSDwarfParseAndExecute_def_cfa_register cm c s)"
  "execute_instruction cm cie 0x0E c off s =
     map_option (\<lambda>(ok, c, s). (ok, c, off, s)) (FIRCLSDwarfParseAndExecute_def_cfa_offset cm c s)"
  "execute_instruction cm cie 0x08 c off s =
     map_option (\<lambda>(ok, c, s). (ok, c, off, s)) (FIRCLSDwarfParseAndExecute_same_value cm c s)"
  "execute_instruction cm cie 0x09 c off s =
     map_option (\<lambda>(ok, c, s). (ok, c, off, s)) (FIRCLSDwarfParseAndExecute_register cm c s)"
  "execute_instruction cm cie 0x0F c off s =
     map_option (\<lambda>(ok, c, s). (ok, c, off, s)) (FIRCLSDwarfParseAndExecute_def_cfa_expression cm c s)"
  "execute_instruction cm cie 0x10 c off s =
     map_option (\<lambda>(ok, c, s). (ok, c, off, s)) (FIRCLSDwarfParseAndExecute_expression cm c s)"
  "execute_instruction cm cie 0x16 c off s =
     map_option (\<lambda>(ok, c, s). (ok, c, off, s)) (FIRCLSDwarfParseAndExecute_val_expression cm c s)"
  by (simp_all add: execute_instruction_def Let_def)

lemma ucode_at: "small v \<Longrightarrow> bytes_at cm c (ucode v) \<Longrightarrow>
    FIRCLSParseULEB128AndAdvance cm c = Some (v, after c (length (ucode v)))"
  by (rule uleb.reads) (simp_all add: small_def)

lemma outcome_rule:
  "cfi_outcome (map_option (\<lambda>(ok, c, s). (ok, c, off, s)) (Option.bind x (\<lambda>s. Some (True, c, s)))) c
     (map_option Some (map_option (Pair off) x))"
  "cfi_outcome (Option.bind x (\<lambda>s. Some (True, c, off, s))) c (map_option Some (map_option (Pair off) x))"
  by (cases x; simp)+

text \<open>The instructions with one or two numbers.\<close>

lemma exec_number:
  "small r \<Longrightarrow> small v \<Longrightarrow> bytes_at cm c (ucode r @ ucode v) \<Longrightarrow>
     cfi_outcome (map_option (\<lambda>(ok, c, s). (ok, c, off, s)) (FIRCLSDwarfParseAndExecute_def_cfa cm c s))
       (after c (length (ucode r @ ucode v))) (cfi_effect cie c0 (CfiDefCfa r v) (off, s))"
  "small r \<Longrightarrow> bytes_at cm c (ucode r) \<Longrightarrow>
     cfi_outcome (map_option (\<lambda>(ok, c, s). (ok, c, off, s)) (FIRCLSDwarfParseAndExecute_def_cfa_register cm c s))
       (after c (length (ucode r))) (cfi_effect cie c0 (CfiDefCfaRegister r) (off, s))"
  "small v \<Longrightarrow> bytes_at cm c (ucode v) \<Longrightarrow>
     cfi_outcome (map_option (\<lambda>(ok, c, s). (ok, c, off, s)) (FIRCLSDwarfParseAndExecute_def_cfa_offset cm c s))
       (after c (length (ucode v))) (cfi_effect cie c0 (CfiDefCfaOffset v) (off, s))"
  "small r \<Longrightarrow> bytes_at cm c (ucode r) \<Longrightarrow>
     cfi_outcome (map_option (\<lambda>(ok, c, s). (ok, c, off, s)) (FIRCLSDwarfParseAndExecute_same_value cm c s))
       (after c (length (ucode r))) (cfi_effect cie c0 (CfiSameValue r) (off, s))"
  "small r \<Longrightarrow> small v \<Longrightarrow> bytes_at cm c (ucode r @ ucode v) \<Longrightarrow>
     cfi_outcome (map_option (\<lambda>(ok, c, s). (ok, c, off, s)) (FIRCLSDwarfParseAndExecute_register cm c s))
       (after c (length (ucode r @ ucode v))) (cfi_effect cie c0 (CfiRegister r v) (off, s))"
  unfolding FIRCLSDwarfParseAndExecute_def_cfa_def FIRCLSDwarfParseAndExecute_def_cfa_register_def
    FIRCLSDwarfParseAndExecute_def_cfa_offset_def FIRCLSDwarfParseAndExecute_same_value_def
    FIRCLSDwarfParseAndExecute_register_def max_register
  by (auto simp: bytes_at_append ucode_at if_register_def outcome_rule)

text \<open>The instructions with an expression.\<close>

lemma exec_block:
  "length bs < 2 ^ 31 \<Longrightarrow> bytes_at cm (after c 1) (block bs) \<Longrightarrow>
     cfi_outcome (map_option (\<lambda>(ok, c, s). (ok, c, off, s)) (FIRCLSDwarfParseAndExecute_def_cfa_expression cm (after c 1) s))
       (after c (1 + length (block bs))) (cfi_effect cie c (CfiDefCfaExpression bs) (off, s))"
  "small r \<Longrightarrow> length bs < 2 ^ 31 \<Longrightarrow> bytes_at cm (after c 1) (ucode r @ block bs) \<Longrightarrow>
     cfi_outcome (map_option (\<lambda>(ok, c, s). (ok, c, off, s)) (FIRCLSDwarfParseAndExecute_expression cm (after c 1) s))
       (after c (1 + length (ucode r @ block bs))) (cfi_effect cie c (CfiExpression r bs) (off, s))"
  "small r \<Longrightarrow> length bs < 2 ^ 31 \<Longrightarrow> bytes_at cm (after c 1) (ucode r @ block bs) \<Longrightarrow>
     cfi_outcome (map_option (\<lambda>(ok, c, s). (ok, c, off, s)) (FIRCLSDwarfParseAndExecute_val_expression cm (after c 1) s))
       (after c (1 + length (ucode r @ block bs))) (cfi_effect cie c (CfiValExpression r bs) (off, s))"
  unfolding FIRCLSDwarfParseAndExecute_def_cfa_expression_def FIRCLSDwarfParseAndExecute_expression_def
    FIRCLSDwarfParseAndExecute_val_expression_def max_register Let_def
  by (auto simp: bytes_at_append ucode_at block_at if_register_def outcome_rule CLS_DWARF_INVALID_REGISTER_NUM_def)

lemma exec_advance:
  "bytes_at cm c [v] \<Longrightarrow>
     cfi_outcome (map_option (\<lambda>(ok, c, off). (ok, c, off, s)) (FIRCLSDwarfParseAndExecute_advance_loc1 cm c cie off))
       (after c 1) (cfi_effect cie c0 (CfiAdvance1 v) (off, s))"
  "bytes_at cm c (word_le_bytes 2 v2) \<Longrightarrow>
     cfi_outcome (map_option (\<lambda>(ok, c, off). (ok, c, off, s)) (FIRCLSDwarfParseAndExecute_advance_loc2 cm c cie off))
       (after c 2) (cfi_effect cie c0 (CfiAdvance2 v2) (off, s))"
  "bytes_at cm c (word_le_bytes 4 v4) \<Longrightarrow>
     cfi_outcome (map_option (\<lambda>(ok, c, off). (ok, c, off, s)) (FIRCLSDwarfParseAndExecute_advance_loc4 cm c cie off))
       (after c 4) (cfi_effect cie c0 (CfiAdvance4 v4) (off, s))"
  unfolding FIRCLSDwarfParseAndExecute_advance_loc1_def FIRCLSDwarfParseAndExecute_advance_loc2_def
    FIRCLSDwarfParseAndExecute_advance_loc4_def
  by (auto simp: parse8_at parse16_at parse32_at split: Option.bind_splits)

lemma exec_offset:
  assumes "small u" "n < 64" "bytes_at cm c (ucode u)"
  shows "cfi_outcome (execute_instruction cm cie (of_nat (0x80 + n)) c off s) (after c (length (ucode u)))
    (cfi_effect cie c0 (CfiOffset n u) (off, s))"
proof -
  have "unat (of_nat (0x80 + n) :: byte) = 0x80 + n" using assms(2) by (intro unat_of_nat_byte) simp
  moreover have "ucast (of_nat n :: byte) = (of_nat n :: u64)" using assms(2) by (intro ucast_of_nat_small) simp
  ultimately show ?thesis
    using operand_bytes [OF assms(2)] ucode_at [OF assms(1,3)]
    by (simp add: dispatch_operand FIRCLSDwarfParseAndExecuteInstructionWithOperand_def DW_CFA_OPERAND_MASK_def
        DW_CFA_OPCODE_MASK_def DW_CFA_offset_def FIRCLSDwarfParseAndExecute_offset_def max_register
        if_register_def outcome_rule del: of_nat_add)
qed

lemma exec_advance_operand:
  assumes "n < 64"
  shows "cfi_outcome (execute_instruction cm cie (of_nat (0x40 + n)) c off s) c
    (cfi_effect cie c0 (CfiAdvance n) (off, s))"
proof -
  have "unat (of_nat (0x40 + n) :: byte) = 0x40 + n" using assms by (intro unat_of_nat_byte) simp
  moreover have "ucast (of_nat n :: byte) = (of_nat n :: u64)" using assms by (intro ucast_of_nat_small) simp
  ultimately show ?thesis
    using operand_bytes [OF assms]
    by (simp add: dispatch_operand FIRCLSDwarfParseAndExecuteInstructionWithOperand_def DW_CFA_OPERAND_MASK_def
        DW_CFA_OPCODE_MASK_def DW_CFA_offset_def DW_CFA_advance_loc_def FIRCLSDwarfParseAndExecute_advance_loc_def
        del: of_nat_add split: Option.bind_splits)
qed

lemma execute_cfi:
  assumes i: "cfi_valid i" and at: "bytes_at cm c (cfi_bytes i)"
  shows "cfi_outcome (execute_instruction cm cie (hd (cfi_bytes i)) (after c 1) off s)
    (after c (length (cfi_bytes i))) (cfi_effect cie c i (off, s))"
proof -
  obtain b rest where b: "cfi_bytes i = b # rest" by (cases i) auto
  have rest: "bytes_at cm (after c 1) rest" using at bytes_at_Cons [of cm c b rest] by (simp add: b)
  show ?thesis
  proof (cases i)
    case CfiNop
    then show ?thesis by (simp add: execute_instruction_def)
  next
    case (CfiAdvance n)
    then show ?thesis using i exec_advance_operand [of n cm cie "after c 1" off s c] by (simp del: of_nat_add)
  next
    case (CfiAdvance1 v)
    then show ?thesis using rest b exec_advance(1) [of cm "after c 1" v s cie off c] by (auto simp: dispatch_cfi eval_nat_numeral)
  next
    case (CfiAdvance2 v)
    then show ?thesis using rest b exec_advance(2) [of cm "after c 1" v s cie off c] by (auto simp: dispatch_cfi eval_nat_numeral)
  next
    case (CfiAdvance4 v)
    then show ?thesis using rest b exec_advance(3) [of cm "after c 1" v s cie off c] by (auto simp: dispatch_cfi eval_nat_numeral)
  next
    case (CfiDefCfa r v)
    then show ?thesis using i rest b exec_number(1) [of r v cm "after c 1" off s cie c] by (auto simp: dispatch_cfi)
  next
    case (CfiDefCfaRegister r)
    then show ?thesis using i rest b exec_number(2) [of r cm "after c 1" off s cie c] by (auto simp: dispatch_cfi)
  next
    case (CfiDefCfaOffset v)
    then show ?thesis using i rest b exec_number(3) [of v cm "after c 1" off s cie c] by (auto simp: dispatch_cfi)
  next
    case (CfiSameValue r)
    then show ?thesis using i rest b exec_number(4) [of r cm "after c 1" off s cie c] by (auto simp: dispatch_cfi)
  next
    case (CfiRegister r v)
    then show ?thesis using i rest b exec_number(5) [of r v cm "after c 1" off s cie c] by (auto simp: dispatch_cfi)
  next
    case (CfiOffset n u)
    then show ?thesis
      using i rest b exec_offset [of u n cm "after c 1" cie off s c] by (simp del: of_nat_add cfi_effect.simps)
  next
    case (CfiDefCfaExpression bs)
    then show ?thesis using i rest b exec_block(1) [of bs cm c off s cie] by (auto simp: dispatch_cfi)
  next
    case (CfiExpression r bs)
    then show ?thesis using i rest b exec_block(2) [of r bs cm c off s cie] by (auto simp: dispatch_cfi)
  next
    case (CfiValExpression r bs)
    then show ?thesis using i rest b exec_block(3) [of r bs cm c off s cie] by (auto simp: dispatch_cfi)
  qed
qed

section \<open>Instruction sequences\<close>

definition cfis_bytes :: "cfi list \<Rightarrow> bytes" where "cfis_bytes is = concat (map cfi_bytes is)"

lemma cfis_bytes_simps [simp]:
  "cfis_bytes [] = []" "cfis_bytes (i # is) = cfi_bytes i @ cfis_bytes is"
  by (simp_all add: cfis_bytes_def)

lemma cfi_bytes_not_Nil [simp]: "cfi_bytes i \<noteq> []"
  by (cases i) auto

text \<open>The instructions that apply to an offset \<open>limit\<close> of the pc, in order, from the address \<open>c\<close>.\<close>

fun cfi_run ::
  "DWARFCIERecord \<Rightarrow> u64 \<Rightarrow> cursor \<Rightarrow> cfi list \<Rightarrow> u64 \<times> FIRCLSDwarfState \<Rightarrow> FIRCLSDwarfState option option" where
  "cfi_run cie limit c [] (off, s) = Some (Some s)"
| "cfi_run cie limit c (i # is) (off, s) =
     (if \<not> sint off < sint limit then Some (Some s)
      else case cfi_effect cie c i (off, s) of
        None \<Rightarrow> None
      | Some None \<Rightarrow> Some None
      | Some (Some p) \<Rightarrow> cfi_run cie limit (after c (length (cfi_bytes i))) is p)"

definition run_outcome :: "(bool \<times> FIRCLSDwarfState) option \<Rightarrow> FIRCLSDwarfState option option \<Rightarrow> bool" where
  "run_outcome res out \<longleftrightarrow>
     (case out of
        None \<Rightarrow> res = None
      | Some None \<Rightarrow> \<exists>s. res = Some (False, s)
      | Some (Some s) \<Rightarrow> res = Some (True, s))"

lemma enumerate_refines:
  "list_all cfi_valid is \<Longrightarrow> bytes_at cm c (cfis_bytes is) \<Longrightarrow>
     run_outcome (enumerate_loop cm cie (after c (length (cfis_bytes is))) limit c off s)
       (cfi_run cie limit c is (off, s))"
proof (induction "is" arbitrary: c off s)
  case Nil
  then show ?case by (subst enumerate_loop.simps) (simp add: run_outcome_def)
next
  case (Cons i "is")
  let ?e = "after c (length (cfis_bytes (i # is)))" and ?c = "after c (length (cfi_bytes i))"
  have at: "bytes_at cm c (cfi_bytes i)" "bytes_at cm ?c (cfis_bytes is)"
    using Cons.prems(2) by (simp_all add: bytes_at_append)
  have "unat ?e = unat c + length (cfis_bytes (i # is))"
    using Cons.prems(2) by (intro unat_after) (simp only: bytes_at_def)
  moreover have "0 < length (cfi_bytes i)" by simp
  ultimately have lt: "c < ?e" by (simp add: word_less_nat_alt)
  have e: "?e = after ?c (length (cfis_bytes is))" by simp
  obtain b rest where b: "cfi_bytes i = b # rest" by (cases "cfi_bytes i") auto
  have p: "FIRCLSParseUint8AndAdvance cm c = Some (b, after c 1)"
    using at(1) bytes_at_Cons [of cm c b rest] by (intro parse8_at) (simp add: b)
  show ?case
  proof (cases "sint off < sint limit")
    case False
    then show ?thesis by (subst enumerate_loop.simps) (simp add: run_outcome_def)
  next
    case True
    have unfold: "enumerate_loop cm cie ?e limit c off s =
        (case execute_instruction cm cie b (after c 1) off s of
           None \<Rightarrow> None
         | Some (ok, c2, off, s) \<Rightarrow>
             if ok then enumerate_loop cm cie ?e limit c2 off s else Some (False, s))"
      using lt True p by (subst enumerate_loop.simps) simp
    have out: "cfi_outcome (execute_instruction cm cie b (after c 1) off s) ?c (cfi_effect cie c i (off, s))"
      using execute_cfi [of i cm c cie off s] Cons.prems(1) at(1) by (simp add: b)
    show ?thesis
    proof (cases "cfi_effect cie c i (off, s)")
      case None
      then show ?thesis using out True unfolding unfold by (simp add: run_outcome_def)
    next
      case (Some r)
      show ?thesis
      proof (cases r)
        case None
        then show ?thesis
          using out True Some unfolding unfold by (auto simp: run_outcome_def cfi_outcome_def)
      next
        case (Some q)
        obtain off' s' where q: "q = (off', s')" by (cases q)
        have "run_outcome (enumerate_loop cm cie (after ?c (length (cfis_bytes is))) limit ?c off' s')
            (cfi_run cie limit ?c is (off', s'))"
          using Cons.prems(1) by (intro Cons.IH at) simp
        then show ?thesis
          using out True Some q \<open>cfi_effect _ _ _ _ = Some r\<close> unfolding unfold unfolding e by simp
      qed
    qed
  qed
qed

section \<open>The meaning of the instructions\<close>

text \<open>
  A row of the table that the instructions describe, in the terms of the DWARF standard (6.4): the location
  it starts at, the rule for the frame address and a rule per register.  Expressions are named by the
  address of their block.
\<close>

datatype cfa_rule = CfaAt u64 u64 | CfaBy cursor

datatype reg_rule = RuleSame | RuleOffset u64 | RuleValOffset u64 | RuleRegister u64 | RuleAt cursor | RuleIs cursor

type_synonym row = "int \<times> cfa_rule \<times> (u64 \<Rightarrow> reg_rule)"

fun advance :: "cfi \<Rightarrow> nat" where
  "advance (CfiAdvance n) = n"
| "advance (CfiAdvance1 v) = unat v"
| "advance (CfiAdvance2 v) = unat v"
| "advance (CfiAdvance4 v) = unat v"
| "advance _ = 0"

text \<open>
  The instruction at the address \<open>c\<close> on a row; no row is the meaning of a register number above 31.  The
  register and the offset of the frame address can only be set while no expression gives it.
\<close>

fun dwarf_step :: "DWARFCIERecord \<Rightarrow> cursor \<Rightarrow> cfi \<Rightarrow> row \<Rightarrow> row option" where
  "dwarf_step cie c (CfiDefCfa r v) (loc, cfa, rules) = (if r > 31 then None else Some (loc, CfaAt r v, rules))"
| "dwarf_step cie c (CfiDefCfaRegister r) (loc, cfa, rules) =
     (if r > 31 then None
      else Some (loc, case cfa of CfaAt r' v \<Rightarrow> CfaAt r v | CfaBy e \<Rightarrow> CfaBy e, rules))"
| "dwarf_step cie c (CfiDefCfaOffset v) (loc, cfa, rules) =
     Some (loc, case cfa of CfaAt r v' \<Rightarrow> CfaAt r v | CfaBy e \<Rightarrow> CfaBy e, rules)"
| "dwarf_step cie c (CfiSameValue r) (loc, cfa, rules) =
     (if r > 31 then None else Some (loc, cfa, rules(r := RuleSame)))"
| "dwarf_step cie c (CfiRegister r v) (loc, cfa, rules) =
     (if r > 31 \<or> v > 31 then None else Some (loc, cfa, rules(r := RuleRegister v)))"
| "dwarf_step cie c (CfiOffset n u) (loc, cfa, rules) =
     (if n > 31 then None else Some (loc, cfa, rules(of_nat n := RuleOffset (u * cie_dataAlignFactor cie))))"
| "dwarf_step cie c (CfiDefCfaExpression bs) (loc, cfa, rules) = Some (loc, CfaBy (after c 1), rules)"
| "dwarf_step cie c (CfiExpression r bs) (loc, cfa, rules) =
     (if r > 31 then None else Some (loc, cfa, rules(r := RuleAt (after c (1 + length (ucode r))))))"
| "dwarf_step cie c (CfiValExpression r bs) (loc, cfa, rules) =
     (if r > 31 then None else Some (loc, cfa, rules(r := RuleIs (after c (1 + length (ucode r))))))"
| "dwarf_step cie c i (loc, cfa, rules) = Some (loc + int (advance i * unat (cie_codeAlignFactor cie)), cfa, rules)"

text \<open>The row for the location \<open>limit\<close>: the instructions are followed while the row starts before it.\<close>

fun dwarf_run :: "DWARFCIERecord \<Rightarrow> int \<Rightarrow> cursor \<Rightarrow> cfi list \<Rightarrow> row \<Rightarrow> row option" where
  "dwarf_run cie limit c [] row = Some row"
| "dwarf_run cie limit c (i # prog) row =
     (if \<not> fst row < limit then Some row
      else do { row \<leftarrow> dwarf_step cie c i row; dwarf_run cie limit (after c (length (cfi_bytes i))) prog row })"



definition distance :: "cfi list \<Rightarrow> nat" where "distance prog = sum_list (map advance prog)"

lemma distance_simps [simp]: "distance [] = 0" "distance (i # prog) = advance i + distance prog"
  by (simp_all add: distance_def)

text \<open>What the state of the code denotes.\<close>

definition cfa_of :: "FIRCLSDwarfState \<Rightarrow> cfa_rule" where
  "cfa_of s = (if dw_cfaExpression s \<noteq> 0 then CfaBy (dw_cfaExpression s)
     else CfaAt (dw_cfaRegister s) (dw_cfaRegisterOffset s))"

fun rule_of :: "FIRCLSDwarfRegisterLocation \<Rightarrow> u64 \<Rightarrow> reg_rule" where
  "rule_of FIRCLSDwarfRegisterUnused v = RuleSame"
| "rule_of FIRCLSDwarfRegisterInCFA v = RuleOffset v"
| "rule_of FIRCLSDwarfRegisterOffsetFromCFA v = RuleValOffset v"
| "rule_of FIRCLSDwarfRegisterInRegister v = RuleRegister v"
| "rule_of FIRCLSDwarfRegisterAtExpression v = RuleAt v"
| "rule_of FIRCLSDwarfRegisterIsExpression v = RuleIs v"

definition rules_of :: "FIRCLSDwarfState \<Rightarrow> u64 \<Rightarrow> reg_rule" where
  "rules_of s r =
     (if unat r < length (dw_registers s)
      then rule_of (reg_location (dw_registers s ! unat r)) (reg_value (dw_registers s ! unat r))
      else RuleSame)"

lemma denoted_simps [simp]:
  "rules_of (s\<lparr>dw_cfaRegister := v\<rparr>) = rules_of s"
  "rules_of (s\<lparr>dw_cfaRegisterOffset := v\<rparr>) = rules_of s"
  "rules_of (s\<lparr>dw_cfaExpression := v\<rparr>) = rules_of s"
  by (simp_all add: rules_of_def fun_eq_iff)


section \<open>The interpreter follows the meaning\<close>









section \<open>The register file\<close>

text \<open>
  What the unwinder asks of the registers of an architecture: every number up to \<open>top\<close> can be set, the
  register then reads as what the architecture keeps of the value, and no other register changes.
\<close>

locale register_file =
  fixes get :: "'s \<Rightarrow> u64 \<Rightarrow> u64"
    and put :: "'s \<Rightarrow> u64 \<Rightarrow> u64 \<Rightarrow> 's option"
    and kept :: "u64 \<Rightarrow> u64 \<Rightarrow> u64"
    and wf :: "'s \<Rightarrow> bool"
    and top :: u64
  assumes put_get: "wf s \<Longrightarrow> n \<le> top \<Longrightarrow>
      \<exists>s'. put s n v = Some s' \<and> wf s' \<and> (\<forall>m\<le>top. get s' m = (if m = n then kept n v else get s m))"
begin

text \<open>Setting several registers, each at most once.\<close>

lemma put_many:
  assumes "wf s" "\<forall>(n, v) \<in> set nvs. n \<le> top" "distinct (map fst nvs)"
  shows "\<exists>s'. foldl (\<lambda>s (n, v). Option.bind s (\<lambda>s. put s n v)) (Some s) nvs = Some s' \<and> wf s' \<and>
    (\<forall>m\<le>top. get s' m = (case map_of nvs m of None \<Rightarrow> get s m | Some v \<Rightarrow> kept m v))"
  using assms
proof (induction nvs arbitrary: s)
  case Nil
  then show ?case by simp
next
  case (Cons p nvs)
  obtain n v where p: "p = (n, v)" by (cases p)
  obtain s1 where s1: "put s n v = Some s1" "wf s1" "\<And>m. m \<le> top \<Longrightarrow> get s1 m = (if m = n then kept n v else get s m)"
    using put_get [of s n v] Cons.prems by (auto simp: p)
  obtain s' where s': "foldl (\<lambda>s (n, v). Option.bind s (\<lambda>s. put s n v)) (Some s1) nvs = Some s'" "wf s'"
      "\<And>m. m \<le> top \<Longrightarrow> get s' m = (case map_of nvs m of None \<Rightarrow> get s1 m | Some v \<Rightarrow> kept m v)"
    using Cons.IH [OF s1(2)] Cons.prems by (auto simp: p)
  have "map_of nvs n = None" using Cons.prems(3) by (simp add: p map_of_eq_None_iff)
  then show ?case
    using s1 s' by (intro exI [of _ s']) (auto simp: p split: option.splits)
qed

lemma put_same: "wf s \<Longrightarrow> n \<le> top \<Longrightarrow> put s n v = Some s' \<Longrightarrow> get s' n = kept n v"
  using put_get [of s n v] by auto

end

definition arm64_wf :: "FIRCLSThreadContext \<Rightarrow> bool" where
  "arm64_wf r \<longleftrightarrow> length (ss_x r) = 29"

text \<open>The frame pointer, the link register and the stack pointer read back 36 bits.\<close>

definition arm64_kept :: "u64 \<Rightarrow> u64 \<Rightarrow> u64" where
  "arm64_kept n v = (if n \<le> 28 then v else CLS_PTRAUTH_STRIP v)"

lemmas register_numbers = CLS_DWARF_REG_FP_def CLS_DWARF_REG_RETURN_def CLS_DWARF_REG_SP_def

lemmas register_accessors = FIRCLSThreadContextGetFramePointer_def FIRCLSThreadContextGetLinkRegister_def
  FIRCLSThreadContextGetStackPointer_def FIRCLSThreadContextSetFramePointer_def
  FIRCLSThreadContextSetLinkRegister_def FIRCLSThreadContextSetStackPointer_def FIRCLSThreadContextSetPC_def

lemma number_cases: "n \<le> 31 \<Longrightarrow> n \<le> 28 \<or> n = 29 \<or> n = 30 \<or> n = (31 :: u64)"
proof -
  assume "n \<le> 31"
  then have "unat n \<le> 28 \<or> unat n = 29 \<or> unat n = 30 \<or> unat n = 31" by (simp add: word_le_nat_alt) linarith
  then show ?thesis by (simp add: word_le_nat_alt word_unat_eq_iff)
qed

interpretation arm64: register_file
  FIRCLSDwarfUnwindGetRegisterValue FIRCLSDwarfUnwindSetRegisterValue arm64_kept arm64_wf 31
proof
  fix s :: FIRCLSThreadContext and n v :: u64
  assume s: "arm64_wf s" and n: "n \<le> 31"
  have i: "unat n < 29" if "n \<le> 28" using that by (simp add: word_le_nat_alt)
  show "\<exists>s'. FIRCLSDwarfUnwindSetRegisterValue s n v = Some s' \<and> arm64_wf s' \<and>
      (\<forall>m\<le>31. FIRCLSDwarfUnwindGetRegisterValue s' m =
        (if m = n then arm64_kept n v else FIRCLSDwarfUnwindGetRegisterValue s m))"
    using number_cases [OF n] s i
    by (auto simp: FIRCLSDwarfUnwindSetRegisterValue_def FIRCLSDwarfUnwindGetRegisterValue_def register_numbers
        register_accessors arm64_kept_def arm64_wf_def nth_list_update word_unat_eq_iff [symmetric] word_le_nat_alt dest!: number_cases)
qed

section \<open>Assigning the caller's registers\<close>

text \<open>The registers the rules set, with their values.\<close>

fun rule_values :: "(nat \<Rightarrow> u64) \<Rightarrow> nat \<Rightarrow> FIRCLSDwarfRegister list \<Rightarrow> (u64 \<times> u64) list" where
  "rule_values val i [] = []"
| "rule_values val i (r # rs) =
     (if reg_location r = FIRCLSDwarfRegisterUnused then [] else [(of_nat i, val i)]) @ rule_values val (i + 1) rs"

lemma assign_loop_fold:
  assumes "\<And>j. j < length rs \<Longrightarrow> reg_location (rs ! j) \<noteq> FIRCLSDwarfRegisterUnused \<Longrightarrow>
      FIRCLSDwarfGetSavedRegister cm regs cfa (rs ! j) = Some (val (i + j))"
  shows "assign_loop cm regs cfa i rs new =
    Some (foldl (\<lambda>s (n, v). Option.bind s (\<lambda>s. FIRCLSDwarfUnwindSetRegisterValue s n v)) (Some new)
      (rule_values val i rs))"
  using assms
proof (induction rs arbitrary: i new)
  case Nil
  then show ?case by simp
next
  case (Cons r rs)
  have tl: "FIRCLSDwarfGetSavedRegister cm regs cfa (rs ! j) = Some (val (i + 1 + j))"
    if "j < length rs" "reg_location (rs ! j) \<noteq> FIRCLSDwarfRegisterUnused" for j
    using Cons.prems [of "Suc j"] that by simp
  have none: "foldl (\<lambda>s (n, v). Option.bind s (\<lambda>s. FIRCLSDwarfUnwindSetRegisterValue s n v)) None nvs = None" for nvs
    by (induction nvs) auto
  show ?case
  proof (cases "reg_location r = FIRCLSDwarfRegisterUnused")
    case True
    then show ?thesis using Cons.IH [OF tl] by simp
  next
    case False
    then show ?thesis using Cons.prems [of 0] Cons.IH [OF tl] none by (auto split: option.splits)
  qed
qed

lemma rule_values_fst: "n \<in> fst ` set (rule_values val i rs) \<Longrightarrow> \<exists>j. i \<le> j \<and> j < i + length rs \<and> n = of_nat j"
proof (induction rs arbitrary: i)
  case (Cons r rs)
  show ?case
  proof (cases "n = of_nat i")
    case True
    then show ?thesis by (intro exI [of _ i]) simp
  next
    case False
    then have "n \<in> fst ` set (rule_values val (i + 1) rs)" using Cons.prems by (auto split: if_splits)
    then obtain j where "i + 1 \<le> j" "j < i + 1 + length rs" "n = of_nat j" using Cons.IH by blast
    then show ?thesis by (intro exI [of _ j]) simp
  qed
qed simp

lemma of_nat_small_eq: "i < 2 ^ 64 \<Longrightarrow> j < 2 ^ 64 \<Longrightarrow> (of_nat i :: u64) = of_nat j \<longleftrightarrow> i = j"
  by (auto simp: word_unat_eq_iff unat_of_nat)

lemma rule_values_distinct: "i + length rs < 2 ^ 64 \<Longrightarrow> distinct (map fst (rule_values val i rs))"
proof (induction rs arbitrary: i)
  case (Cons r rs)
  have "of_nat i \<notin> fst ` set (rule_values val (i + 1) rs)"
  proof
    assume "of_nat i \<in> fst ` set (rule_values val (i + 1) rs)"
    then obtain j where "i + 1 \<le> j" "j < i + 1 + length rs" "(of_nat i :: u64) = of_nat j"
      using rule_values_fst by blast
    then show False using Cons.prems of_nat_small_eq [of i j] by simp
  qed
  then show ?case using Cons by simp
qed simp

lemma rule_values_lookup:
  assumes "i + length rs < 2 ^ 64" "j < length rs"
  shows "map_of (rule_values val i rs) (of_nat (i + j)) =
    (if reg_location (rs ! j) = FIRCLSDwarfRegisterUnused then None else Some (val (i + j)))"
  using assms
proof (induction rs arbitrary: i j)
  case (Cons r rs)
  show ?case
  proof (cases j)
    case 0
    have "map_of (rule_values val (i + 1) rs) (of_nat i) = None"
      using Cons.prems rule_values_distinct [of i "r # rs" val] of_nat_small_eq
      by (auto simp: map_of_eq_None_iff dest!: rule_values_fst)
    then show ?thesis using 0 by simp
  next
    case (Suc k)
    have "(of_nat i :: u64) \<noteq> of_nat (i + j)"
      using Cons.prems Suc of_nat_small_eq [of i "i + j"] by simp
    then show ?thesis using Suc Cons.IH [of "i + 1" k] Cons.prems by (auto simp del: of_nat_add)
  qed
qed simp

text \<open>What each register of the caller reads as.\<close>

definition caller_value :: "FIRCLSDwarfState \<Rightarrow> FIRCLSThreadContext \<Rightarrow> u64 \<Rightarrow> (nat \<Rightarrow> u64) \<Rightarrow> u64 \<Rightarrow> u64" where
  "caller_value s r cfa val n =
     (if n = 31 then arm64_kept 31 cfa
      else if reg_location (dw_registers s ! unat n) = FIRCLSDwarfRegisterUnused
      then FIRCLSDwarfUnwindGetRegisterValue r n
      else arm64_kept n (val (unat n)))"

text \<open>C21: Assigning the registers of the caller sets the stack pointer to the canonical frame address,
  every register with a rule to the value the rule denotes and leaves the others; the result is
  rejected exactly when the stack pointer or the link register has not changed.
\<close>

theorem assign_registers_exact:
  assumes wf: "length (ss_x r) = 29" and len: "length (dw_registers s) = 32"
    and val: "\<And>i. i < 32 \<Longrightarrow> reg_location (dw_registers s ! i) \<noteq> FIRCLSDwarfRegisterUnused \<Longrightarrow>
      FIRCLSDwarfGetSavedRegister cm r cfa (dw_registers s ! i) = Some (val i)"
  shows "\<exists>new. (\<forall>n\<le>31. FIRCLSDwarfUnwindGetRegisterValue new n = caller_value s r cfa val n) \<and>
    FIRCLSDwarfUnwindAssignRegisters cm s r cfa =
      Some (if caller_value s r cfa val 31 = FIRCLSDwarfUnwindGetRegisterValue r 31 \<or>
               caller_value s r cfa val 30 = FIRCLSDwarfUnwindGetRegisterValue r 30
            then None else Some new)"
proof -
  let ?nvs = "rule_values val 0 (dw_registers s)"
  have r: "arm64_wf r" using wf by (simp add: arm64_wf_def)
  have le: "\<forall>(n, v) \<in> set ?nvs. n \<le> 31"
    using rule_values_fst [of _ val 0 "dw_registers s"] len by (force simp: word_le_nat_alt unat_of_nat)
  obtain s1 where s1: "foldl (\<lambda>s (n, v). Option.bind s (\<lambda>s. FIRCLSDwarfUnwindSetRegisterValue s n v)) (Some r) ?nvs = Some s1"
      "arm64_wf s1" "\<And>m. m \<le> 31 \<Longrightarrow> FIRCLSDwarfUnwindGetRegisterValue s1 m =
        (case map_of ?nvs m of None \<Rightarrow> FIRCLSDwarfUnwindGetRegisterValue r m | Some v \<Rightarrow> arm64_kept m v)"
    using arm64.put_many [OF r le] rule_values_distinct [of 0 "dw_registers s" val] len by auto
  obtain new where new: "FIRCLSDwarfUnwindSetRegisterValue s1 31 cfa = Some new"
      "\<And>m. m \<le> 31 \<Longrightarrow> FIRCLSDwarfUnwindGetRegisterValue new m =
        (if m = 31 then arm64_kept 31 cfa else FIRCLSDwarfUnwindGetRegisterValue s1 m)"
    using arm64.put_get [OF s1(2), of 31 cfa] by auto
  have loop: "assign_loop cm r cfa 0 (dw_registers s) r = Some (Some s1)"
    using assign_loop_fold [of "dw_registers s" cm r cfa val 0 r] val s1(1) len by simp
  have look: "map_of ?nvs n = (if reg_location (dw_registers s ! unat n) = FIRCLSDwarfRegisterUnused then None
      else Some (val (unat n)))" if "n \<le> 31" for n
    using rule_values_lookup [of 0 "dw_registers s" "unat n" val] that len by (simp add: word_le_nat_alt)
  have get: "FIRCLSDwarfUnwindGetRegisterValue new n = caller_value s r cfa val n" if "n \<le> 31" for n
    using new(2) [OF that] s1(3) [OF that] look [OF that] by (simp add: caller_value_def)
  show ?thesis
    using get new(1) loop
    by (intro exI [of _ new])
       (auto simp: FIRCLSDwarfUnwindAssignRegisters_def FIRCLSDwarfCompareRegisters_def register_numbers)
qed

section \<open>The standard frame\<close>

text \<open>
  The instructions a compiler emits for a function that saves the frame pointer and the link register
  and points the frame pointer at them, after a prologue of \<open>n\<close> units of code.
\<close>

definition standard_cie_code :: "cfi list" where
  "standard_cie_code = [CfiDefCfa 31 0]"

definition standard_fde_code :: "nat \<Rightarrow> cfi list" where
  "standard_fde_code n =
     [CfiAdvance n, CfiDefCfaOffset 16, CfiOffset 30 1, CfiOffset 29 2, CfiDefCfa 29 16]"

abbreviation unused_rule :: FIRCLSDwarfRegister where
  "unused_rule \<equiv> \<lparr>reg_location = FIRCLSDwarfRegisterUnused, reg_value = 0\<rparr>"

abbreviation saved_rule :: "u64 \<Rightarrow> FIRCLSDwarfRegister" where
  "saved_rule v \<equiv> \<lparr>reg_location = FIRCLSDwarfRegisterInCFA, reg_value = v\<rparr>"

definition standard_state :: FIRCLSDwarfState where
  "standard_state = zero_state\<lparr>dw_cfaRegister := 29, dw_cfaRegisterOffset := 16,
     dw_registers := replicate 29 unused_rule @ [saved_rule (- 16), saved_rule (- 8), unused_rule]\<rparr>"

lemma zero_registers: "dw_registers zero_state = replicate 32 unused_rule"
  by (simp add: zero_state_def CLS_DWARF_MAX_REGISTER_NUM_def)

lemma standard_registers:
  "(replicate 32 unused_rule)[30 := saved_rule a, 29 := saved_rule b] =
     replicate 29 unused_rule @ [saved_rule b, saved_rule a, unused_rule]"
  by (simp add: numeral_eq_Suc)

lemma standard_run:
  assumes "cie_dataAlignFactor cie = - 8" "mul_signed (of_nat n) (cie_codeAlignFactor cie) = Some d"
    and "0 < sint limit" "sint d < sint limit"
  shows "cfi_run cie INTPTR_MAX c standard_cie_code (0, zero_state) =
      Some (Some (zero_state\<lparr>dw_cfaRegister := 31, dw_cfaRegisterOffset := 0\<rparr>))"
    "cfi_run cie limit c' (standard_fde_code n) (0, zero_state\<lparr>dw_cfaRegister := 31, dw_cfaRegisterOffset := 0\<rparr>) =
      Some (Some standard_state)"
  using assms
  by (simp_all add: standard_cie_code_def standard_fde_code_def INTPTR_MAX_def if_register_def set_register_def
      standard_state_def zero_registers standard_registers)

lemma assign_loop_unused:
  "assign_loop cm r cfa i (replicate k unused_rule @ rs) new = assign_loop cm r cfa (i + k) rs new"
  by (induction k arbitrary: i) auto

lemma strip_less: "unat (CLS_PTRAUTH_STRIP v) < 2 ^ 36"
proof -
  have "CLS_PTRAUTH_STRIP v = take_bit 36 v"
    by (simp add: CLS_PTRAUTH_STRIP_def take_bit_eq_mask mask_eq_exp_minus_1)
  then show ?thesis by (simp add: unat_take_bit)
qed

lemma read_pair:
  assumes "FIRCLSReadMemory cm p 16 = Some bs" "unat p < 2 ^ 36"
  shows "FIRCLSReadMemory cm p 8 = Some (take 8 bs)" "FIRCLSReadMemory cm (p + 8) 8 = Some (drop 8 bs)"
proof -
  have l: "load_bytes cm (unat p) (8 + 8) = Some bs" and v: "FIRCLSIsValidPointer p"
    using assms(1) by (auto simp: FIRCLSReadMemory_def split: if_splits)
  have u: "unat (p + 8) = unat p + 8" using assms(2) by (simp add: unat_word_ariths)
  obtain xs ys where xy: "load_bytes cm (unat p) 8 = Some xs" "load_bytes cm (unat p + 8) 8 = Some ys" "bs = xs @ ys"
    using l unfolding load_bytes_append by (auto simp: Option.bind_eq_Some_conv)
  moreover have "length xs = 8" using xy(1) by (rule load_bytes_length)
  moreover have "FIRCLSIsValidPointer (p + 8)" using v u by (simp add: FIRCLSIsValidPointer_def word_le_nat_alt)
  ultimately show "FIRCLSReadMemory cm p 8 = Some (take 8 bs)" "FIRCLSReadMemory cm (p + 8) 8 = Some (drop 8 bs)"
    using v by (simp_all add: FIRCLSReadMemory_def u)
qed

lemma standard_assign:
  assumes bs: "FIRCLSReadMemory cm (FIRCLSThreadContextGetFramePointer r) 16 = Some bs"
  defines "f \<equiv> snd (FIRCLSUnwindWithFramePointer cm r False)"
  shows "FIRCLSDwarfUnwindAssignRegisters cm standard_state r (FIRCLSThreadContextGetFramePointer r + 16) =
    Some (if FIRCLSThreadContextGetStackPointer f = FIRCLSThreadContextGetStackPointer r \<or>
             FIRCLSThreadContextGetPC f = FIRCLSThreadContextGetLinkRegister r
          then None else Some (f\<lparr>ss_lr := ss_pc f\<rparr>))"
proof -
  let ?fp = "FIRCLSThreadContextGetFramePointer r"
  have fp: "unat ?fp < 2 ^ 36" unfolding FIRCLSThreadContextGetFramePointer_def by (rule strip_less)
  have a: "?fp + 16 + - 16 = ?fp" "?fp + 16 + - 8 = ?fp + 8" by simp_all
  have reads: "FIRCLSReadMemory cm (?fp + 16 + - 16) 8 = Some (take 8 bs)"
    "FIRCLSReadMemory cm (?fp + 16 + - 8) 8 = Some (drop 8 bs)"
    unfolding a by (rule read_pair [OF bs fp])+
  have rules: "dw_registers standard_state = replicate 29 unused_rule @ [saved_rule (- 16), saved_rule (- 8), unused_rule]"
    by (simp add: standard_state_def)
  have loop: "assign_loop cm r (?fp + 16) 0 (dw_registers standard_state) r =
      Some (Some (r\<lparr>ss_fp := le_word (take 8 bs), ss_lr := le_word (drop 8 bs), ss_pc := le_word (drop 8 bs)\<rparr>))"
    unfolding rules assign_loop_unused using reads
    by (simp add: FIRCLSDwarfGetSavedRegister_def FIRCLSDwarfUnwindSetRegisterValue_def register_numbers
        register_accessors)
  have f: "f = r\<lparr>ss_pc := le_word (drop 8 bs), ss_fp := le_word (take 8 bs), ss_sp := ?fp + 16\<rparr>"
    using bs by (simp add: f_def FIRCLSUnwindWithFramePointer_def register_accessors
        FIRCLSUnwindStackPointerFromFramePointer_def Let_def)
  show ?thesis
    unfolding FIRCLSDwarfUnwindAssignRegisters_def loop
    by (auto simp: FIRCLSDwarfUnwindSetRegisterValue_def FIRCLSDwarfUnwindGetRegisterValue_def register_numbers
        register_accessors FIRCLSDwarfCompareRegisters_def f FIRCLSThreadContextGetPC_def)
qed

definition code_in :: "cmem \<Rightarrow> DWARFInstructions \<Rightarrow> cfi list \<Rightarrow> bool" where
  "code_in cm ins is \<longleftrightarrow> list_all cfi_valid is \<and> bytes_at cm (ins_data ins) (cfis_bytes is) \<and>
     unat (ins_length ins) = length (cfis_bytes is)"

lemma enumerate_code:
  assumes "code_in cm ins is" "cfi_run cie limit (ins_data ins) is (0, s) = Some (Some t)"
  shows "FIRCLSDwarfInstructionsEnumerate cm ins cie s limit = Some (True, t)"
  using assms enumerate_refines [of "is" cm "ins_data ins" cie limit 0 s]
  by (simp add: code_in_def FIRCLSDwarfInstructionsEnumerate_def bytes_at_def ptr_add_after run_outcome_def)

text \<open>C14: In a function with a standard frame, past its prologue, unwinding by the DWARF instructions
  and unwinding by the frame pointer give the same caller: the same program counter, frame pointer
  and stack pointer, the DWARF unwinder setting the link register as well.  It gives up, leaving the
  registers unchanged, exactly when the stack pointer or the return address would not change.
\<close>

theorem standard_frame_agrees:
  assumes code: "code_in cm (cie_instructions (cfi_cie rec)) standard_cie_code"
      "code_in cm (fde_instructions (cfi_fde rec)) (standard_fde_code n)"
    and align: "cie_dataAlignFactor (cfi_cie rec) = - 8"
      "mul_signed (of_nat n) (cie_codeAlignFactor (cfi_cie rec)) = Some d"
    and pc: "0 < sint (FIRCLSThreadContextGetPC r - fde_startAddress (cfi_fde rec))"
      "sint d < sint (FIRCLSThreadContextGetPC r - fde_startAddress (cfi_fde rec))"
    and mem: "FIRCLSReadMemory cm (FIRCLSThreadContextGetFramePointer r) 16 = Some bs"
  shows "FIRCLSDwarfUnwindComputeRegisters cm rec r =
    (let f = snd (FIRCLSUnwindWithFramePointer cm r False) in
     Some (if FIRCLSThreadContextGetStackPointer f = FIRCLSThreadContextGetStackPointer r \<or>
              FIRCLSThreadContextGetPC f = FIRCLSThreadContextGetLinkRegister r
           then (False, r) else (True, f\<lparr>ss_lr := ss_pc f\<rparr>)))"
proof -
  note run = standard_run [OF align pc]
  have cie: "FIRCLSDwarfInstructionsEnumerate cm (cie_instructions (cfi_cie rec)) (cfi_cie rec) zero_state INTPTR_MAX =
      Some (True, zero_state\<lparr>dw_cfaRegister := 31, dw_cfaRegisterOffset := 0\<rparr>)"
    by (rule enumerate_code [OF code(1) run(1)])
  have fde: "FIRCLSDwarfInstructionsEnumerate cm (fde_instructions (cfi_fde rec)) (cfi_cie rec)
      (zero_state\<lparr>dw_cfaRegister := 31, dw_cfaRegisterOffset := 0\<rparr>)
      (FIRCLSThreadContextGetPC r - fde_startAddress (cfi_fde rec)) = Some (True, standard_state)"
    by (rule enumerate_code [OF code(2) run(2)])
  have cfa: "FIRCLSDwarfGetCFA cm standard_state r = Some (Some (FIRCLSThreadContextGetFramePointer r + 16))"
    by (simp add: FIRCLSDwarfGetCFA_def standard_state_def zero_state_def FIRCLSDwarfUnwindGetRegisterValue_def
        register_numbers)
  show ?thesis
    using pc(1) by (simp add: FIRCLSDwarfUnwindComputeRegisters_def cie fde cfa standard_assign [OF mem] Let_def)
qed

text \<open>The unwind instructions at 4096 and a frame at 4112.\<close>

definition sample_mem :: cmem where
  "sample_mem = mem_at 4096
     [0x0C, 0x1F, 0x00, 0x44, 0x0E, 0x10, 0x9E, 0x01, 0x9D, 0x02, 0x0C, 0x1D, 0x10, 0, 0, 0,
      0, 0x40, 0, 0, 0, 0, 0, 0, 0, 0x50, 0, 0, 0, 0, 0, 0]"

lemma load_sample:
  "4096 \<le> a \<Longrightarrow> a + n \<le> 4128 \<Longrightarrow> load_bytes sample_mem a n = Some (take n (drop (a - 4096)
     [0x0C, 0x1F, 0x00, 0x44, 0x0E, 0x10, 0x9E, 0x01, 0x9D, 0x02, 0x0C, 0x1D, 0x10, 0, 0, 0,
      0, 0x40, 0, 0, 0, 0, 0, 0, 0, 0x50, 0, 0, 0, 0, 0, 0]))"
  unfolding sample_mem_def by (rule load_mem_at) simp_all

definition sample_record :: FIRCLSDwarfCFIRecord where
  "sample_record = fresh_record\<lparr>
     cfi_cie := zero_cie\<lparr>cie_codeAlignFactor := 1, cie_dataAlignFactor := - 8,
                         cie_instructions := \<lparr>ins_length = 3, ins_data = 4096\<rparr>\<rparr>,
     cfi_fde := (cfi_fde fresh_record)\<lparr>fde_startAddress := 0x6000,
                         fde_instructions := \<lparr>ins_length = 10, ins_data = 4099\<rparr>\<rparr>\<rparr>"

definition sample_thread :: FIRCLSThreadContext where
  "sample_thread = \<lparr>ss_x = replicate 29 7, ss_fp = 4112, ss_lr = 0x6010, ss_sp = 4100, ss_pc = 0x6010\<rparr>"

lemma sample_code:
  "code_in sample_mem (cie_instructions (cfi_cie sample_record)) standard_cie_code"
  "code_in sample_mem (fde_instructions (cfi_fde sample_record)) (standard_fde_code 4)"
proof -
  have cie: "cfis_bytes standard_cie_code = [0x0C, 0x1F, 0x00]"
    by (simp add: standard_cie_code_def uvarint_small)
  have fde: "cfis_bytes (standard_fde_code 4) = [0x44, 0x0E, 0x10, 0x9E, 0x01, 0x9D, 0x02, 0x0C, 0x1D, 0x10]"
    by (simp add: standard_fde_code_def uvarint_small)
  show "code_in sample_mem (cie_instructions (cfi_cie sample_record)) standard_cie_code"
    "code_in sample_mem (fde_instructions (cfi_fde sample_record)) (standard_fde_code 4)"
    unfolding code_in_def cie fde
    by (simp_all add: standard_cie_code_def standard_fde_code_def small_def bytes_at_def sample_record_def
        load_sample del: load_bytes.simps)
qed

lemma sample_align:
  "cie_dataAlignFactor (cfi_cie sample_record) = - 8"
  "mul_signed (of_nat 4) (cie_codeAlignFactor (cfi_cie sample_record)) = Some 4"
  "fde_startAddress (cfi_fde sample_record) = 0x6000"
  by (simp_all add: sample_record_def mul_signed_def)

lemma standard_frame_agrees_witness:
  "FIRCLSDwarfUnwindComputeRegisters sample_mem sample_record sample_thread =
     Some (True, \<lparr>ss_x = replicate 29 7, ss_fp = 0x4000, ss_lr = 0x5000, ss_sp = 4128, ss_pc = 0x5000\<rparr>)"
proof -
  have ptr: "FIRCLSThreadContextGetFramePointer sample_thread = 4112" "FIRCLSThreadContextGetPC sample_thread = 0x6010"
    by (simp_all add: sample_thread_def FIRCLSThreadContextGetFramePointer_def FIRCLSThreadContextGetPC_def
        CLS_PTRAUTH_STRIP_def)
  have mem: "FIRCLSReadMemory sample_mem (FIRCLSThreadContextGetFramePointer sample_thread) 16 =
      Some [0, 0x40, 0, 0, 0, 0, 0, 0, 0, 0x50, 0, 0, 0, 0, 0, 0]"
    by (simp add: ptr FIRCLSReadMemory_def FIRCLSIsValidPointer_def load_sample del: load_bytes.simps)
  have f: "snd (FIRCLSUnwindWithFramePointer sample_mem sample_thread False) =
      \<lparr>ss_x = replicate 29 7, ss_fp = 0x4000, ss_lr = 0x6010, ss_sp = 4128, ss_pc = 0x5000\<rparr>"
    by (simp add: FIRCLSUnwindWithFramePointer_def mem Let_def)
       (simp add: ptr FIRCLSUnwindStackPointerFromFramePointer_def FIRCLSThreadContextSetPC_def
         FIRCLSThreadContextSetFramePointer_def FIRCLSThreadContextSetStackPointer_def, simp add: sample_thread_def)
  have regs: "FIRCLSThreadContextGetStackPointer sample_thread = 4100"
    "FIRCLSThreadContextGetLinkRegister sample_thread = 0x6010"
    by (simp_all add: sample_thread_def register_accessors CLS_PTRAUTH_STRIP_def)
  have pc: "0 < sint (FIRCLSThreadContextGetPC sample_thread - fde_startAddress (cfi_fde sample_record))"
    "sint (4 :: u64) < sint (FIRCLSThreadContextGetPC sample_thread - fde_startAddress (cfi_fde sample_record))"
    by (simp_all add: ptr sample_align(3))
  show ?thesis
    unfolding standard_frame_agrees [OF sample_code sample_align(1,2) pc mem] f regs Let_def
    by (simp add: FIRCLSThreadContextGetStackPointer_def FIRCLSThreadContextGetPC_def CLS_PTRAUTH_STRIP_def)
qed


lemma assign_registers_exact_witness:
  "\<exists>new. FIRCLSDwarfUnwindGetRegisterValue new 30 = 0x5000 \<and> FIRCLSDwarfUnwindGetRegisterValue new 3 = 7 \<and>
     FIRCLSDwarfUnwindAssignRegisters sample_mem standard_state sample_thread 4128 = Some (Some new)"
proof -
  let ?val = "\<lambda>i. if i = 29 then 0x4000 else 0x5000"
  have rules: "dw_registers standard_state = replicate 29 unused_rule @ [saved_rule (- 16), saved_rule (- 8), unused_rule]"
    by (simp add: standard_state_def)
  have saved: "FIRCLSDwarfGetSavedRegister sample_mem sample_thread 4128 (dw_registers standard_state ! i) = Some (?val i)"
    if "i < 32" "reg_location (dw_registers standard_state ! i) \<noteq> FIRCLSDwarfRegisterUnused" for i
  proof -
    have "i = 29 \<or> i = 30"
      using that by (cases "i < 29") (auto simp: rules nth_append nth_Cons' split: if_splits)
    then show ?thesis
      by (auto simp: rules nth_append FIRCLSDwarfGetSavedRegister_def FIRCLSReadMemory_def FIRCLSIsValidPointer_def
          load_sample simp del: load_bytes.simps)
  qed
  obtain new where new: "\<And>n. n \<le> 31 \<Longrightarrow> FIRCLSDwarfUnwindGetRegisterValue new n =
        caller_value standard_state sample_thread 4128 ?val n"
      "FIRCLSDwarfUnwindAssignRegisters sample_mem standard_state sample_thread 4128 =
         Some (if caller_value standard_state sample_thread 4128 ?val 31 = FIRCLSDwarfUnwindGetRegisterValue sample_thread 31 \<or>
                  caller_value standard_state sample_thread 4128 ?val 30 = FIRCLSDwarfUnwindGetRegisterValue sample_thread 30
               then None else Some new)"
    using assign_registers_exact [of sample_thread standard_state sample_mem 4128 ?val] saved
    by (auto simp: sample_thread_def rules)
  have "caller_value standard_state sample_thread 4128 ?val 31 = 4128"
    "caller_value standard_state sample_thread 4128 ?val 30 = 0x5000"
    "caller_value standard_state sample_thread 4128 ?val 3 = 7"
    "FIRCLSDwarfUnwindGetRegisterValue sample_thread 31 = 4100"
    "FIRCLSDwarfUnwindGetRegisterValue sample_thread 30 = 0x6010"
    by (simp_all add: caller_value_def rules nth_append arm64_kept_def CLS_PTRAUTH_STRIP_def sample_thread_def
        FIRCLSDwarfUnwindGetRegisterValue_def register_numbers register_accessors)
  then show ?thesis using new(1) [of 30] new(1) [of 3] new(2) by (intro exI [of _ new]) simp
qed

section \<open>The state under arbitrary instructions\<close>

definition state_wf :: "FIRCLSDwarfState \<Rightarrow> bool" where
  "state_wf s \<longleftrightarrow> length (dw_registers s) = 32 \<and> dw_cfaRegister s \<le> 32 \<and>
     (\<forall>r \<in> set (dw_registers s). reg_location r = FIRCLSDwarfRegisterInRegister \<longrightarrow> reg_value r \<le> 31)"

lemma zero_state_wf: "state_wf zero_state"
  by (simp add: state_wf_def zero_registers) (simp add: zero_state_def)

lemma set_register_wf:
  "set_register s n loc v = Some s' \<Longrightarrow> state_wf s \<Longrightarrow> (loc = FIRCLSDwarfRegisterInRegister \<longrightarrow> v \<le> 31) \<Longrightarrow>
     state_wf s'"
  by (auto simp: state_wf_def set_register_def split: if_splits dest!: set_update_subset_insert [THEN subsetD])

lemma cfa_wf:
  "state_wf s \<Longrightarrow> r \<le> 32 \<Longrightarrow> state_wf (s\<lparr>dw_cfaRegister := r\<rparr>)"
  "state_wf s \<Longrightarrow> state_wf (s\<lparr>dw_cfaRegisterOffset := v\<rparr>)"
  "state_wf s \<Longrightarrow> state_wf (s\<lparr>dw_cfaExpression := v\<rparr>)"
  by (simp_all add: state_wf_def)

lemma le_32: "\<not> 31 < r \<Longrightarrow> r \<le> (32 :: u64)"
  by (simp add: word_less_nat_alt word_le_nat_alt)

lemmas state_instructions = FIRCLSDwarfParseAndExecute_def_cfa_def FIRCLSDwarfParseAndExecute_def_cfa_register_def
  FIRCLSDwarfParseAndExecute_def_cfa_offset_def FIRCLSDwarfParseAndExecute_same_value_def
  FIRCLSDwarfParseAndExecute_register_def FIRCLSDwarfParseAndExecute_expression_def
  FIRCLSDwarfParseAndExecute_val_expression_def FIRCLSDwarfParseAndExecute_def_cfa_expression_def
  FIRCLSDwarfParseAndExecute_offset_def

lemma instruction_wf:
  assumes "state_wf s"
  shows "FIRCLSDwarfParseAndExecute_def_cfa cm c s = Some (ok, c', s') \<Longrightarrow> state_wf s'"
    "FIRCLSDwarfParseAndExecute_def_cfa_register cm c s = Some (ok, c', s') \<Longrightarrow> state_wf s'"
    "FIRCLSDwarfParseAndExecute_def_cfa_offset cm c s = Some (ok, c', s') \<Longrightarrow> state_wf s'"
    "FIRCLSDwarfParseAndExecute_same_value cm c s = Some (ok, c', s') \<Longrightarrow> state_wf s'"
    "FIRCLSDwarfParseAndExecute_register cm c s = Some (ok, c', s') \<Longrightarrow> state_wf s'"
    "FIRCLSDwarfParseAndExecute_expression cm c s = Some (ok, c', s') \<Longrightarrow> state_wf s'"
    "FIRCLSDwarfParseAndExecute_val_expression cm c s = Some (ok, c', s') \<Longrightarrow> state_wf s'"
    "FIRCLSDwarfParseAndExecute_def_cfa_expression cm c s = Some (ok, c', s') \<Longrightarrow> state_wf s'"
    "FIRCLSDwarfParseAndExecute_offset cm c cie s n = Some (ok, c', s') \<Longrightarrow> state_wf s'"
  using assms
  by (auto simp: state_instructions Option.bind_eq_Some_conv Let_def max_register
      CLS_DWARF_INVALID_REGISTER_NUM_def le_32 cfa_wf linorder_not_less split: if_splits dest: set_register_wf)

lemma execute_instruction_wf:
  assumes "execute_instruction cm cie i c off s = Some (ok, c', off', s')" "state_wf s"
  shows "state_wf s'"
proof -
  have operand: "state_wf s'"
    if "FIRCLSDwarfParseAndExecuteInstructionWithOperand cm c i cie s off = Some (ok, c', off', s')"
    using that instruction_wf(9) [OF assms(2)] assms(2)
    by (auto simp: FIRCLSDwarfParseAndExecuteInstructionWithOperand_def Option.bind_eq_Some_conv Let_def split: if_splits)
  show ?thesis
    using assms instruction_wf [OF assms(2)] operand unfolding execute_instruction_def Let_def
    by (auto split: if_splits)
qed

text \<open>
  The array \<open>registers\<close> followed by other memory: an instruction that keeps within the array does the same
  whatever follows it, and leaves what follows unchanged.
\<close>

definition beyond :: "FIRCLSDwarfRegister list \<Rightarrow> FIRCLSDwarfState \<Rightarrow> FIRCLSDwarfState" where
  "beyond extra s = s\<lparr>dw_registers := dw_registers s @ extra\<rparr>"

lemma beyond_simps [simp]:
  "beyond extra (s\<lparr>dw_cfaRegister := v\<rparr>) = beyond extra s\<lparr>dw_cfaRegister := v\<rparr>"
  "beyond extra (s\<lparr>dw_cfaRegisterOffset := v\<rparr>) = beyond extra s\<lparr>dw_cfaRegisterOffset := v\<rparr>"
  "beyond extra (s\<lparr>dw_cfaExpression := v\<rparr>) = beyond extra s\<lparr>dw_cfaExpression := v\<rparr>"
  by (simp_all add: beyond_def)

lemma beyond_register:
  assumes "length (dw_registers s) = 32" "\<not> 31 < n"
  shows "set_register (beyond extra s) n loc v = map_option (beyond extra) (set_register s n loc v)"
    "dw_registers (beyond extra s) ! unat n = dw_registers s ! unat n"
proof -
  have "unat n < 32" using assms(2) by (simp add: word_less_nat_alt)
  then show "set_register (beyond extra s) n loc v = map_option (beyond extra) (set_register s n loc v)"
    "dw_registers (beyond extra s) ! unat n = dw_registers s ! unat n"
    using assms(1) by (simp_all add: set_register_def beyond_def list_update_append nth_append)
qed

lemma beyond_bind:
  "Option.bind (map_option (beyond extra) x) f = Option.bind x (\<lambda>s. f (beyond extra s))"
  by (cases x) simp_all

lemma instruction_beyond:
  fixes extra
  assumes "length (dw_registers s) = 32"
  defines "behind \<equiv> map_option (\<lambda>(ok, c, t). (ok, c, beyond extra t))"
  shows "FIRCLSDwarfParseAndExecute_def_cfa cm c (beyond extra s) = behind (FIRCLSDwarfParseAndExecute_def_cfa cm c s)"
    "FIRCLSDwarfParseAndExecute_def_cfa_register cm c (beyond extra s) =
       behind (FIRCLSDwarfParseAndExecute_def_cfa_register cm c s)"
    "FIRCLSDwarfParseAndExecute_def_cfa_offset cm c (beyond extra s) =
       behind (FIRCLSDwarfParseAndExecute_def_cfa_offset cm c s)"
    "FIRCLSDwarfParseAndExecute_same_value cm c (beyond extra s) =
       behind (FIRCLSDwarfParseAndExecute_same_value cm c s)"
    "FIRCLSDwarfParseAndExecute_register cm c (beyond extra s) =
       behind (FIRCLSDwarfParseAndExecute_register cm c s)"
    "FIRCLSDwarfParseAndExecute_expression cm c (beyond extra s) =
       behind (FIRCLSDwarfParseAndExecute_expression cm c s)"
    "FIRCLSDwarfParseAndExecute_val_expression cm c (beyond extra s) =
       behind (FIRCLSDwarfParseAndExecute_val_expression cm c s)"
    "FIRCLSDwarfParseAndExecute_def_cfa_expression cm c (beyond extra s) =
       behind (FIRCLSDwarfParseAndExecute_def_cfa_expression cm c s)"
    "FIRCLSDwarfParseAndExecute_offset cm c cie (beyond extra s) n =
       behind (FIRCLSDwarfParseAndExecute_offset cm c cie s n)"
  unfolding behind_def state_instructions Let_def max_register
  using beyond_register [OF assms(1)]
  by (auto simp: beyond_bind map_option_bind comp_def intro!: Option.bind_cong)

lemma execute_instruction_beyond:
  assumes "length (dw_registers s) = 32"
  shows "execute_instruction cm cie i c off (beyond extra s) =
    map_option (\<lambda>(ok, c, off, t). (ok, c, off, beyond extra t)) (execute_instruction cm cie i c off s)"
proof -
  have operand: "FIRCLSDwarfParseAndExecuteInstructionWithOperand cm c i cie (beyond extra s) off =
      map_option (\<lambda>(ok, c, off, t). (ok, c, off, beyond extra t))
        (FIRCLSDwarfParseAndExecuteInstructionWithOperand cm c i cie s off)"
    using instruction_beyond(9) [OF assms, where cm = cm and c = c and cie = cie and extra = extra]
    by (simp add: FIRCLSDwarfParseAndExecuteInstructionWithOperand_def Let_def map_option_bind option.map_comp
        comp_def split_beta bind_map_option)
  show ?thesis
    using operand instruction_beyond [OF assms, where cm = cm and c = c and extra = extra]
    by (simp add: execute_instruction_def Let_def option.map_comp comp_def case_prod_unfold)
qed

lemma enumerate_loop_keeps:
  "state_wf s \<Longrightarrow>
     enumerate_loop cm cie e limit c off (beyond extra s) =
       map_option (\<lambda>(ok, t). (ok, beyond extra t)) (enumerate_loop cm cie e limit c off s) \<and>
     (\<forall>ok t. enumerate_loop cm cie e limit c off s = Some (ok, t) \<longrightarrow> state_wf t)"
proof (induction cm cie e limit c off s rule: enumerate_loop.induct)
  case hyp: (1 cm cie e limit c off s)
  show ?case
  proof (cases "c < e \<and> sint off < sint limit")
    case False
    have "enumerate_loop cm cie e limit c off s' = Some (True, s')" for s'
      by (subst enumerate_loop.simps, subst if_not_P [OF False], rule refl)
    then show ?thesis using hyp.prems by simp
  next
    case True
    note unfold = enumerate_loop.simps [of cm cie e limit c off, unfolded if_P [OF True]]
    show ?thesis
    proof (cases "FIRCLSParseUint8AndAdvance cm c")
      case None
      then show ?thesis by (simp add: unfold)
    next
      case (Some p)
      obtain i c1 where p: "p = (i, c1)" by (cases p)
      have frame: "execute_instruction cm cie i c1 off (beyond extra s) =
          map_option (\<lambda>(ok, c, off, t). (ok, c, off, beyond extra t)) (execute_instruction cm cie i c1 off s)"
        using hyp.prems by (intro execute_instruction_beyond) (simp add: state_wf_def)
      show ?thesis
      proof (cases "execute_instruction cm cie i c1 off s")
        case None
        then show ?thesis using True Some p frame by (simp add: unfold)
      next
        case step: (Some q)
        obtain ok c2 off1 s1 where q: "q = (ok, c2, off1, s1)" by (cases q)
        have wf: "state_wf s1" by (rule execute_instruction_wf [OF step [unfolded q] hyp.prems])
        show ?thesis
        proof (cases ok)
          case False
          then show ?thesis using Some p frame step q wf by (simp add: unfold)
        next
          case ok: True
          show ?thesis
            using Some p frame step q ok hyp.IH [OF True Some p [symmetric] step q [symmetric] refl refl ok wf]
            by (simp add: unfold)
        qed
      qed
    qed
  qed
qed

text \<open>C32: Whatever bytes the unwind instructions consist of, no instruction reads or writes a register
  rule outside the array of 32: with any memory behind the array the interpreter does what it does
  without it and leaves that memory as it was.  The frame register number stays at most 32 and rules
  copy only from registers numbered at most 31, so that the later accesses are within bounds as well.
  (Without memory behind the array an access outside it is undefined and has no result.)
\<close>

theorem instructions_keep_state:
  assumes "length (dw_registers s) = 32" "dw_cfaRegister s \<le> 32"
    and "\<forall>r \<in> set (dw_registers s). reg_location r = FIRCLSDwarfRegisterInRegister \<longrightarrow> reg_value r \<le> 31"
  shows "FIRCLSDwarfInstructionsEnumerate cm ins cie (beyond extra s) limit =
      map_option (\<lambda>(ok, t). (ok, beyond extra t)) (FIRCLSDwarfInstructionsEnumerate cm ins cie s limit) \<and>
    (case FIRCLSDwarfInstructionsEnumerate cm ins cie s limit of
       None \<Rightarrow> True
     | Some (ok, t) \<Rightarrow>
         length (dw_registers t) = 32 \<and> dw_cfaRegister t \<le> 32 \<and>
         (\<forall>r \<in> set (dw_registers t). reg_location r = FIRCLSDwarfRegisterInRegister \<longrightarrow> reg_value r \<le> 31))"
proof -
  have "state_wf s" using assms by (simp add: state_wf_def)
  then show ?thesis
    using enumerate_loop_keeps [of s cm cie _ limit "ins_data ins" 0 extra]
    by (simp add: FIRCLSDwarfInstructionsEnumerate_def map_option_bind comp_def state_wf_def split: option.split bind_splits)
qed

text \<open>The rules of the standard frame, run with the rule of another structure behind the array.\<close>

lemma instructions_keep_state_witness:
  "FIRCLSDwarfInstructionsEnumerate sample_mem (fde_instructions (cfi_fde sample_record)) (cfi_cie sample_record)
     (beyond [saved_rule 7] (zero_state\<lparr>dw_cfaRegister := 31, dw_cfaRegisterOffset := 0\<rparr>)) 16 =
   Some (True, beyond [saved_rule 7] standard_state) \<and> dw_cfaRegister standard_state \<le> 32"
proof -
  have run: "FIRCLSDwarfInstructionsEnumerate sample_mem (fde_instructions (cfi_fde sample_record)) (cfi_cie sample_record)
      (zero_state\<lparr>dw_cfaRegister := 31, dw_cfaRegisterOffset := 0\<rparr>) 16 = Some (True, standard_state)"
    by (rule enumerate_code [OF sample_code(2) standard_run(2) [OF sample_align(1,2)]]) simp_all
  show ?thesis
    using instructions_keep_state [of "zero_state\<lparr>dw_cfaRegister := 31, dw_cfaRegisterOffset := 0\<rparr>" sample_mem
      "fde_instructions (cfi_fde sample_record)" "cfi_cie sample_record" "[saved_rule 7]" 16]
    by (simp add: run zero_registers)
qed

section \<open>Two deviations from the standard\<close>

text \<open>
  \<open>DW_CFA_advance_loc\<close> sets the code offset to its operand instead of adding it, unlike its three wider
  forms: after it the offset does not depend on what came before.
\<close>

lemma advance_loc_forgets:
  assumes "n < 64" "mul_signed (of_nat n) (cie_codeAlignFactor cie) = Some d"
  shows "execute_instruction cm cie (of_nat (0x40 + n)) c off s = Some (True, c, d, s)"
  using exec_advance_operand [OF assms(1), of cm cie c off s c] assms(2) by simp

text \<open>
  A function of two steps, at a pc between the locations 4 and 8: DWARF asks for the first row, the code, whose
  offset stays 4, applies the rules of the second.
\<close>

lemma advance_loc_deviates:
  fixes rules
  assumes "cie_codeAlignFactor cie = 1"
  defines "prog \<equiv> [CfiAdvance 4, CfiAdvance 4, CfiDefCfaOffset 16]"
    and "s \<equiv> zero_state\<lparr>dw_cfaRegister := 31, dw_cfaRegisterOffset := 0\<rparr>"
  shows "dwarf_run cie 6 c prog (0, cfa_of s, rules) = Some (8, CfaAt 31 0, rules)"
    "\<exists>t. cfi_run cie 6 c prog (0, s) = Some (Some t) \<and> cfa_of t = CfaAt 31 16"
  using assms(1) by (simp_all add: prog_def s_def cfa_of_def mul_signed_def zero_state_def)

text \<open>
  A frame address given by an expression is never given up: \<open>DW_CFA_def_cfa\<close> and its variants set the
  register and the offset, but leave the expression, which \<open>FIRCLSDwarfGetCFA\<close> prefers.
\<close>

lemma def_cfa_after_expression:
  assumes "FIRCLSDwarfParseAndExecute_def_cfa cm c s = Some (True, c', s')" "dw_cfaExpression s \<noteq> 0"
  shows "FIRCLSDwarfGetCFA cm' s' r = FIRCLSDwarfGetCFA cm' s r"
  using assms by (auto simp: FIRCLSDwarfParseAndExecute_def_cfa_def FIRCLSDwarfGetCFA_def Option.bind_eq_Some_conv
      split: if_splits)

lemma def_cfa_deviates:
  assumes "dw_cfaExpression s \<noteq> 0" "r \<le> 31"
  shows "dwarf_step cie c (CfiDefCfa r v) (loc, cfa_of s, rules) = Some (loc, CfaAt r v, rules)"
    "\<exists>t. cfi_effect cie c (CfiDefCfa r v) (off, s) = Some (Some (off, t)) \<and> cfa_of t = cfa_of s"
  using assms by (simp_all add: if_register_def cfa_of_def)

end
