(* ===== verification/Unwind.thy ===== *)
theory Unwind
  imports CompactUnwind
begin

text \<open>
  \<^verbatim>\<open>Crashlytics/Unwind/FIRCLSUnwind.c\<close> and its client, the stack trace loop of
  \<^verbatim>\<open>Components/FIRCLSProcess.c\<close>: from one frame of a thread to the next, by compact unwind
  information where the image of the pc has any, else by the frame pointer.  The images are those of
  \<^verbatim>\<open>Components/FIRCLSBinaryImage.m\<close>: a table of 1024 nodes.
\<close>

section \<open>Binary images\<close>

record FIRCLSBinaryImageRuntimeNode =
  img_baseAddress :: u64
  img_size :: u64
  img_ehFrame :: u64
  img_unwindInfo :: u64

text \<open>The first node that contains the address; the context is initialised and the table present.\<close>

definition FIRCLSBinaryImageSafeFindImageForAddress ::
  "FIRCLSBinaryImageRuntimeNode list \<Rightarrow> u64 \<Rightarrow> FIRCLSBinaryImageRuntimeNode option" where
  "FIRCLSBinaryImageSafeFindImageForAddress nodes address =
     (if address = 0 then None
      else List.find (\<lambda>n. address \<ge> img_baseAddress n \<and> address < img_baseAddress n + img_size n) nodes)"

definition FIRCLSBinaryImageSafeHasUnwindInfo :: "FIRCLSBinaryImageRuntimeNode \<Rightarrow> bool" where
  "FIRCLSBinaryImageSafeHasUnwindInfo n = FIRCLSIsValidPointer (img_unwindInfo n)"

section \<open>Frames\<close>

record FIRCLSUnwindContext =
  uw_registers :: FIRCLSThreadContext
  uw_frameCount :: u32
  uw_compactUnwindState :: FIRCLSCompactUnwindContext
  uw_lastFramePC :: u64
  uw_repeatCount :: u32

definition FIRCLSUnwindMaxFrames :: u32 where "FIRCLSUnwindMaxFrames = 100000"
definition FIRCLSUnwindInfiniteRecursionCountThreshold :: u32 where
  "FIRCLSUnwindInfiniteRecursionCountThreshold = 10"

definition FIRCLSUnwindInit :: "FIRCLSThreadContext \<Rightarrow> FIRCLSUnwindContext" where
  "FIRCLSUnwindInit threadContext =
     \<lparr>uw_registers = threadContext, uw_frameCount = 0, uw_compactUnwindState = zero_context,
      uw_lastFramePC = 0, uw_repeatCount = 0\<rparr>"

definition FIRCLSUnwindGetPC :: "FIRCLSUnwindContext \<Rightarrow> u64" where
  "FIRCLSUnwindGetPC u = FIRCLSThreadContextGetPC (uw_registers u)"
definition FIRCLSUnwindGetStackPointer :: "FIRCLSUnwindContext \<Rightarrow> u64" where
  "FIRCLSUnwindGetStackPointer u = FIRCLSThreadContextGetStackPointer (uw_registers u)"
definition FIRCLSUnwindGetFramePointer :: "FIRCLSUnwindContext \<Rightarrow> u64" where
  "FIRCLSUnwindGetFramePointer u = FIRCLSThreadContextGetFramePointer (uw_registers u)"
definition FIRCLSUnwindGetFrameRepeatCount :: "FIRCLSUnwindContext \<Rightarrow> u32" where
  "FIRCLSUnwindGetFrameRepeatCount u = uw_repeatCount u"

definition FIRCLSUnwindContextHasValidPCAndSP :: "FIRCLSUnwindContext \<Rightarrow> bool" where
  "FIRCLSUnwindContextHasValidPCAndSP u =
     (FIRCLSIsValidPointer (FIRCLSUnwindGetPC u) \<and> FIRCLSIsValidPointer (FIRCLSUnwindGetStackPointer u))"

text \<open>What the process being recorded consists of: its memory, its images, the section format.\<close>

record unwind_env =
  env_mem :: cmem
  env_nodes :: "FIRCLSBinaryImageRuntimeNode list"
  env_format :: compact_format

definition FIRCLSUnwindWithCompactUnwindInfo ::
  "unwind_env \<Rightarrow> FIRCLSUnwindContext \<Rightarrow> (bool \<times> FIRCLSUnwindContext) option" where
  "FIRCLSUnwindWithCompactUnwindInfo env u =
     (case FIRCLSBinaryImageSafeFindImageForAddress (env_nodes env) (FIRCLSUnwindGetPC u) of
        None \<Rightarrow> Some (False, u)
      | Some img \<Rightarrow>
          if \<not> FIRCLSBinaryImageSafeHasUnwindInfo img then Some (False, u)
          else
            let (ok, c) = FIRCLSCompactUnwindInit (env_format env) (env_mem env) (uw_compactUnwindState u)
                            (img_unwindInfo img) (img_ehFrame img) (img_baseAddress img) in
            if \<not> ok then Some (False, u\<lparr>uw_compactUnwindState := c\<rparr>)
            else do {
              (ok, c, r) \<leftarrow> FIRCLSCompactUnwindLookupAndCompute (env_format env) (env_mem env) c
                              (uw_registers u);
              Some (ok, u\<lparr>uw_compactUnwindState := c, uw_registers := r\<rparr>)
            })"

definition FIRCLSUnwindNextFrameUsingAllStrategies ::
  "unwind_env \<Rightarrow> FIRCLSUnwindContext \<Rightarrow> (bool \<times> FIRCLSUnwindContext) option" where
  "FIRCLSUnwindNextFrameUsingAllStrategies env u =
     (if uw_frameCount u \<ge> FIRCLSUnwindMaxFrames then Some (False, u)
      else
        let pc = FIRCLSUnwindGetPC u;
            pc = (if uw_frameCount u > 0 then pc - 1 else pc);
            u = (if uw_frameCount u > 0
                 then u\<lparr>uw_registers := FIRCLSThreadContextSetPC (uw_registers u) pc\<rparr> else u) in
        if \<not> FIRCLSIsValidPointer pc then Some (False, u)
        else if uw_frameCount u = 0 then Some (True, u)
        else do {
          (ok, u) \<leftarrow> FIRCLSUnwindWithCompactUnwindInfo env u;
          if ok then Some (True, u)
          else if FIRCLSUnwindGetFramePointer u = 0
          then Some (True, u\<lparr>uw_registers := FIRCLSThreadContextSetPC (uw_registers u) 0\<rparr>)
          else
            let (ok, r) = FIRCLSUnwindWithFramePointer (env_mem env) (uw_registers u) (uw_frameCount u = 1) in
            Some (ok, u\<lparr>uw_registers := r\<rparr>)
        })"

definition FIRCLSUnwindNextFrame ::
  "unwind_env \<Rightarrow> FIRCLSUnwindContext \<Rightarrow> (bool \<times> FIRCLSUnwindContext) option" where
  "FIRCLSUnwindNextFrame env u =
     (if \<not> FIRCLSUnwindContextHasValidPCAndSP u then Some (False, u)
      else do {
        (ok, u) \<leftarrow> FIRCLSUnwindNextFrameUsingAllStrategies env u;
        if \<not> ok then Some (False, u)
        else
          let pc = FIRCLSUnwindGetPC u; sp = FIRCLSUnwindGetStackPointer u in
          if \<not> FIRCLSIsValidPointer pc then Some (False, u)
          else if \<not> FIRCLSIsValidPointer sp then Some (False, u)
          else Some (True, u\<lparr>uw_repeatCount := (if uw_lastFramePC u = pc then uw_repeatCount u + 1 else 0),
                            uw_frameCount := uw_frameCount u + 1, uw_lastFramePC := pc\<rparr>)
      })"

section \<open>The stack trace of a thread\<close>

text \<open>
  The locals of \<open>FIRCLSProcessRecordThread\<close> and the entries it writes.  One round of the loop: the
  frame's pc is written, counted as a repetition, or starts the suppression.
\<close>

record trace_state =
  tr_repeatedPCCount :: u32
  tr_repeatedPC :: u64
  tr_written :: "u64 list"

definition record_frame :: "u64 \<Rightarrow> u32 \<Rightarrow> trace_state \<Rightarrow> trace_state" where
  "record_frame pc frameCount t =
     (if tr_repeatedPC t = pc \<and> tr_repeatedPC t \<noteq> 0 then t\<lparr>tr_repeatedPCCount := frameCount\<rparr>
      else if frameCount \<ge> FIRCLSUnwindInfiniteRecursionCountThreshold \<and> tr_repeatedPC t = 0
      then t\<lparr>tr_repeatedPC := pc\<rparr>
      else t\<lparr>tr_written := tr_written t @ [pc]\<rparr>)"

text \<open>The strategies change the registers only; the counters are those of the caller.\<close>

definition same_counters :: "FIRCLSUnwindContext \<Rightarrow> FIRCLSUnwindContext \<Rightarrow> bool" where
  "same_counters u u' \<longleftrightarrow> uw_frameCount u' = uw_frameCount u \<and> uw_lastFramePC u' = uw_lastFramePC u \<and>
     uw_repeatCount u' = uw_repeatCount u"

lemma compact_counters:
  "FIRCLSUnwindWithCompactUnwindInfo env u = Some (ok, u') \<Longrightarrow> same_counters u u'"
  unfolding FIRCLSUnwindWithCompactUnwindInfo_def same_counters_def
  by (auto simp: Option.bind_eq_Some_conv split: if_splits option.splits prod.splits)

lemma strategies_counters:
  assumes "FIRCLSUnwindNextFrameUsingAllStrategies env u = Some (ok, u')"
  shows "same_counters u u'" "ok \<Longrightarrow> uw_frameCount u < FIRCLSUnwindMaxFrames"
proof -
  show "same_counters u u'"
    using assms unfolding FIRCLSUnwindNextFrameUsingAllStrategies_def Let_def
    by (auto simp: Option.bind_eq_Some_conv same_counters_def split: if_splits prod.splits
        dest!: compact_counters [unfolded same_counters_def])
  show "uw_frameCount u < FIRCLSUnwindMaxFrames" if ok
    using assms that unfolding FIRCLSUnwindNextFrameUsingAllStrategies_def by (simp split: if_splits)
qed

lemma next_frame_count:
  assumes "FIRCLSUnwindNextFrame env u = Some (True, u')"
  shows "uw_frameCount u < FIRCLSUnwindMaxFrames" "uw_frameCount u' = uw_frameCount u + 1"
    "uw_lastFramePC u' = FIRCLSUnwindGetPC u'" "FIRCLSIsValidPointer (FIRCLSUnwindGetPC u')"
    "FIRCLSIsValidPointer (FIRCLSUnwindGetStackPointer u')"
    "uw_repeatCount u' = (if uw_lastFramePC u = FIRCLSUnwindGetPC u' then uw_repeatCount u + 1 else 0)"
proof -
  from assms obtain v where v: "FIRCLSUnwindNextFrameUsingAllStrategies env u = Some (True, v)"
    and pc: "FIRCLSIsValidPointer (FIRCLSUnwindGetPC v)" "FIRCLSIsValidPointer (FIRCLSUnwindGetStackPointer v)"
    and u': "u' = v\<lparr>uw_repeatCount := (if uw_lastFramePC v = FIRCLSUnwindGetPC v then uw_repeatCount v + 1 else 0),
                     uw_frameCount := uw_frameCount v + 1, uw_lastFramePC := FIRCLSUnwindGetPC v\<rparr>"
    unfolding FIRCLSUnwindNextFrame_def Let_def by (auto simp: Option.bind_eq_Some_conv split: if_splits)
  have c: "same_counters u v" by (rule strategies_counters(1) [OF v])
  show "uw_frameCount u < FIRCLSUnwindMaxFrames" using strategies_counters(2) [OF v] by simp
  show "uw_frameCount u' = uw_frameCount u + 1" "uw_lastFramePC u' = FIRCLSUnwindGetPC u'"
    "FIRCLSIsValidPointer (FIRCLSUnwindGetPC u')" "FIRCLSIsValidPointer (FIRCLSUnwindGetStackPointer u')"
    "uw_repeatCount u' = (if uw_lastFramePC u = FIRCLSUnwindGetPC u' then uw_repeatCount u + 1 else 0)"
    using c pc by (simp_all add: u' same_counters_def FIRCLSUnwindGetPC_def FIRCLSUnwindGetStackPointer_def)
qed

function trace_loop ::
  "unwind_env \<Rightarrow> FIRCLSUnwindContext \<Rightarrow> trace_state \<Rightarrow> (FIRCLSUnwindContext \<times> trace_state) option" where
  "trace_loop env u t =
     (case FIRCLSUnwindNextFrame env u of
        None \<Rightarrow> None
      | Some (ok, u') \<Rightarrow>
          if \<not> ok then Some (u', t)
          else trace_loop env u'
                 (record_frame (FIRCLSUnwindGetPC u') (FIRCLSUnwindGetFrameRepeatCount u') t))"
  by pat_completeness auto
termination
proof (relation "measure (\<lambda>(env, u, t). unat FIRCLSUnwindMaxFrames - unat (uw_frameCount u))", simp, goal_cases)
  case hyp: (1 env u t p ok u')
  then have n: "FIRCLSUnwindNextFrame env u = Some (True, u')" by simp
  have "unat (uw_frameCount u) < unat FIRCLSUnwindMaxFrames"
    using next_frame_count(1) [OF n] by (simp add: word_less_nat_alt)
  moreover from this have "unat (uw_frameCount u') = unat (uw_frameCount u) + 1"
    by (simp add: next_frame_count(2) [OF n] FIRCLSUnwindMaxFrames_def unat_word_ariths)
  ultimately show ?case by simp
qed

declare trace_loop.simps [simp del]

text \<open>The entries of the array and, when a recursion was found, its pc and count.\<close>

definition record_stacktrace ::
  "unwind_env \<Rightarrow> FIRCLSThreadContext \<Rightarrow> (u64 list \<times> (u64 \<times> u32) option) option" where
  "record_stacktrace env threadContext = do {
     (_, t) \<leftarrow> trace_loop env (FIRCLSUnwindInit threadContext)
                 \<lparr>tr_repeatedPCCount = 0, tr_repeatedPC = 0, tr_written = []\<rparr>;
     Some (tr_written t, if tr_repeatedPC t \<noteq> 0 then Some (tr_repeatedPC t, tr_repeatedPCCount t) else None)
   }"

end
