(* ===== verification/CompactProofs.thy ===== *)
theory CompactProofs
  imports DwarfUnwindProofs Unwind
begin

text \<open>
  The lookup in the unwind tables: the binary search of a page is exact, and with the rest of the
  tables in order the lookup finds the function of a pc; and the walk over the frames of a thread.
\<close>

section \<open>Binary search\<close>

text \<open>The function offsets of the entries of a page.\<close>

definition page_offsets :: "compact_format \<Rightarrow> cmem \<Rightarrow> u64 \<Rightarrow> nat \<Rightarrow> u64 list \<Rightarrow> bool" where
  "page_offsets cf cm a n fs \<longleftrightarrow> length fs = n \<and>
     (\<forall>i<n. \<exists>e. word_entry cm a i = Some e \<and> ucast (UNWIND_INFO_COMPRESSED_ENTRY_FUNC_OFFSET cf e) = fs ! i)"

text \<open>The entry that covers an address: the last one that starts at or before it, but not the last of all.\<close>

definition covering :: "u64 list \<Rightarrow> u64 \<Rightarrow> nat \<Rightarrow> bool" where
  "covering fs x i \<longleftrightarrow> i + 1 < length fs \<and> fs ! i \<le> x \<and> x < fs ! (i + 1)"

lemma bsearch_step:
  assumes "page_offsets cf cm a n fs" "i < high" "high \<le> n"
  shows "bsearch_loop cf cm a n x i high =
    (let mid = (i + high) div 2 in
     if fs ! mid > x then bsearch_loop cf cm a n x i mid
     else if mid = n - 1 then Some (False, mid)
     else if fs ! (mid + 1) > x then Some (True, mid)
     else bsearch_loop cf cm a n x (mid + 1) high)"
proof -
  let ?mid = "(i + high) div 2"
  have m: "?mid < high" "?mid < n" using assms(2,3) by auto
  obtain e where e: "word_entry cm a ?mid = Some e" "ucast (UNWIND_INFO_COMPRESSED_ENTRY_FUNC_OFFSET cf e) = fs ! ?mid"
    using assms(1) m by (auto simp: page_offsets_def)
  have e': "?mid \<noteq> n - 1 \<Longrightarrow> \<exists>e'. word_entry cm a (?mid + 1) = Some e' \<and>
      ucast (UNWIND_INFO_COMPRESSED_ENTRY_FUNC_OFFSET cf e') = fs ! (?mid + 1)"
    using assms(1) m by (auto simp: page_offsets_def)
  show ?thesis
  proof (cases "?mid = n - 1")
    case True
    then show ?thesis using e m assms(2) by (subst bsearch_loop.simps) (simp add: Let_def)
  next
    case False
    then show ?thesis using e e' m assms(2) by (subst bsearch_loop.simps) (auto simp: Let_def)
  qed
qed

text \<open>
  With sorted offsets the loop keeps the covering entry, if there is one, between its two indices:
  everything before \<open>i\<close> starts too early to cover, everything from \<open>high\<close> on starts after the address.
\<close>

lemma bsearch_exact:
  assumes "page_offsets cf cm a n fs" "sorted fs" "i \<le> high" "high \<le> n" "0 < n"
    "\<forall>k<i. k + 1 < n \<and> fs ! (k + 1) \<le> x" "\<forall>k<n. high \<le> k \<longrightarrow> x < fs ! k"
  shows "\<exists>ok k. bsearch_loop cf cm a n x i high = Some (ok, k) \<and>
    (ok \<longrightarrow> k < n \<and> (covering fs x k \<or> k = 0 \<and> x < fs ! 0)) \<and>
    (\<not> ok \<longrightarrow> fs ! (n - 1) \<le> x)"
  using assms(3-7)
proof (induction "high - i" arbitrary: i high rule: less_induct)
  case less
  have len: "length fs = n" using assms(1) by (simp add: page_offsets_def)
  show ?case
  proof (cases "i < high")
    case False
    then have eq: "i = high" using less.prems(1) by simp
    have "i = 0"
    proof (rule ccontr)
      assume "i \<noteq> 0"
      then obtain k where k: "i = Suc k" by (cases i) auto
      then have "k + 1 < n" "fs ! (k + 1) \<le> x" using less.prems(4) by simp_all
      then show False using less.prems(5) eq k by auto
    qed
    moreover have "x < fs ! 0" using less.prems(3,5) eq \<open>i = 0\<close> by simp
    ultimately show ?thesis using False less.prems(3) by (subst bsearch_loop.simps) auto
  next
    case True
    define mid where "mid = (i + high) div 2"
    have m: "i \<le> mid" "mid < high" "mid < n" using True less.prems(2) by (auto simp: mid_def)
    note step = bsearch_step [OF assms(1) True less.prems(2), of x, folded mid_def, unfolded Let_def]
    consider "x < fs ! mid" | "fs ! mid \<le> x" "mid = n - 1" | "fs ! mid \<le> x" "mid + 1 < n" "x < fs ! (mid + 1)"
      | "fs ! mid \<le> x" "mid + 1 < n" "fs ! (mid + 1) \<le> x"
      using m by fastforce
    then show ?thesis
    proof cases
      case 1
      have "x < fs ! k" if "k < n" "mid \<le> k" for k
        using sorted_nth_mono [OF assms(2) that(2)] that(1) len 1 by (simp add: less_le_trans)
      then show ?thesis
        using 1 m less.prems less.hyps [of mid i] by (simp add: step)
    next
      case 2
      then show ?thesis by (auto simp: step not_less)
    next
      case 3
      then have "covering fs x mid" by (simp add: covering_def len)
      moreover have "bsearch_loop cf cm a n x i high = Some (True, mid)" using 3 by (subst step) auto
      ultimately show ?thesis using m by blast
    next
      case 4
      have "k + 1 < n \<and> fs ! (k + 1) \<le> x" if "k < mid + 1" for k
        using sorted_nth_mono [OF assms(2), of "k + 1" "mid + 1"] that 4 len by auto
      then have "\<exists>ok k. bsearch_loop cf cm a n x (mid + 1) high = Some (ok, k) \<and>
          (ok \<longrightarrow> k < n \<and> (covering fs x k \<or> k = 0 \<and> x < fs ! 0)) \<and> (\<not> ok \<longrightarrow> fs ! (n - 1) \<le> x)"
        using m less.prems by (intro less.hyps) auto
      moreover have "bsearch_loop cf cm a n x i high = bsearch_loop cf cm a n x (mid + 1) high"
        using 4 by (subst step) auto
      ultimately show ?thesis by (simp only:)
    qed
  qed
qed

lemma covering_unique: "sorted fs \<Longrightarrow> covering fs x i \<Longrightarrow> covering fs x j \<Longrightarrow> i = j"
proof (rule ccontr)
  assume s: "sorted fs" and c: "covering fs x i" "covering fs x j" and "i \<noteq> j"
  then consider "i + 1 \<le> j" | "j + 1 \<le> i" by linarith
  then show False
    using sorted_nth_mono [OF s, of "i + 1" j] sorted_nth_mono [OF s, of "j + 1" i] c
    by cases (auto simp: covering_def)
qed

lemma search_page:
  assumes "page_offsets cf cm a (unat n) fs" "sorted fs" "a \<noteq> 0" "n \<noteq> 0" "x \<noteq> 0"
  shows "\<exists>ok k. FIRCLSCompactUnwindBinarySearchSecondLevel cf cm x n a = Some (ok, k) \<and>
    (covering fs x i \<longrightarrow> ok \<and> k = i) \<and>
    (x < fs ! 0 \<longrightarrow> ok \<and> k = 0) \<and>
    (ok \<longleftrightarrow> x < fs ! (unat n - 1)) \<and> (ok \<longrightarrow> k < unat n)"
proof -
  have n: "0 < unat n" using assms(4) by (simp add: unat_gt_0)
  have len: "length fs = unat n" using assms(1) by (simp add: page_offsets_def)
  obtain ok k where r: "bsearch_loop cf cm a (unat n) x 0 (unat n) = Some (ok, k)"
    and ok: "ok \<Longrightarrow> k < unat n \<and> (covering fs x k \<or> k = 0 \<and> x < fs ! 0)" "\<not> ok \<Longrightarrow> fs ! (unat n - 1) \<le> x"
    using bsearch_exact [OF assms(1,2), of 0 "unat n" x] n by auto
  have last: "fs ! j \<le> fs ! (unat n - 1)" if "j < unat n" for j
    using that len by (intro sorted_nth_mono [OF assms(2)]) simp_all
  have okiff: "ok \<longleftrightarrow> x < fs ! (unat n - 1)"
  proof
    assume ok
    then show "x < fs ! (unat n - 1)"
      using ok(1) last [of "k + 1"] last [of 0] n len by (auto simp: covering_def intro: less_le_trans)
  qed (use ok(2) in fastforce)
  have cov: "ok \<and> k = i" if c: "covering fs x i"
  proof -
    have "x < fs ! (unat n - 1)" using c last [of "i + 1"] len by (auto simp: covering_def intro: less_le_trans)
    then have "ok" using okiff by simp
    have "fs ! 0 \<le> fs ! i" using c len by (intro sorted_nth_mono [OF assms(2)]) (auto simp: covering_def)
    then have "\<not> x < fs ! 0" using c by (auto simp: covering_def)
    then show ?thesis using ok(1) \<open>ok\<close> covering_unique [OF assms(2) c] by auto
  qed
  have first: "ok \<and> k = 0" if x: "x < fs ! 0"
  proof -
    have "ok" using okiff x last [of 0] n by (auto intro: less_le_trans)
    have "\<not> covering fs x k \<or> k = 0"
      using x sorted_nth_mono [OF assms(2), of 0 k] by (auto simp: covering_def)
    then show ?thesis using ok(1) \<open>ok\<close> by auto
  qed
  show ?thesis
    using r okiff cov first ok(1) assms(3-5)
    by (intro exI [of _ ok] exI [of _ k]) (auto simp: FIRCLSCompactUnwindBinarySearchSecondLevel_def)
qed


section \<open>Both levels\<close>

text \<open>
  The tables of an image as lists: the entries \<open>ixs\<close> of the first level, and the function offsets \<open>fs\<close>
  with the entries \<open>es\<close> of a compressed second-level page.
\<close>

definition first_level :: "compact_format \<Rightarrow> cmem \<Rightarrow> FIRCLSCompactUnwindContext \<Rightarrow>
    unwind_info_section_header_index_entry list \<Rightarrow> bool" where
  "first_level cf cm ctx ixs \<longleftrightarrow>
     2 \<le> length ixs \<and> length ixs = unat (uh_indexCount (cu_unwindHeader ctx)) \<and>
     FIRCLSCompactUnwindGetIndexData ctx \<noteq> 0 \<and>
     (\<forall>i<length ixs. index_entry cf cm (FIRCLSCompactUnwindGetIndexData ctx) i = Some (ixs ! i))"

abbreviation index_offsets :: "unwind_info_section_header_index_entry list \<Rightarrow> u64 list" where
  "index_offsets ixs \<equiv> map (\<lambda>e. ucast (ui_functionOffset e)) ixs"

definition compressed_page :: "compact_format \<Rightarrow> cmem \<Rightarrow> u64 \<Rightarrow>
    unwind_info_compressed_second_level_page_header \<Rightarrow> u32 list \<Rightarrow> bool" where
  "compressed_page cf cm ptr hdr es \<longleftrightarrow>
     ptr \<noteq> 0 \<and> load_word cm (unat ptr) 4 = Some (UNWIND_SECOND_LEVEL_COMPRESSED cf) \<and>
     UNWIND_SECOND_LEVEL_REGULAR cf \<noteq> UNWIND_SECOND_LEVEL_COMPRESSED cf \<and>
     map_option (cf_page cf) (load_bytes cm (unat ptr) (cf_page_size cf)) = Some hdr \<and>
     unat ptr + unat (up_entryPageOffset hdr) < 2 ^ 64 \<and>
     length es = unat (up_entryCount hdr) \<and> es \<noteq> [] \<and>
     (\<forall>i<length es. word_entry cm (ptr + ucast (up_entryPageOffset hdr)) i = Some (es ! i))"

abbreviation page_functions :: "compact_format \<Rightarrow> u32 list \<Rightarrow> u64 list" where
  "page_functions cf es \<equiv> map (\<lambda>e. ucast (UNWIND_INFO_COMPRESSED_ENTRY_FUNC_OFFSET cf e)) es"

lemma first_level_finds:
  assumes "\<forall>i<length ixs. index_entry cf cm base i = Some (ixs ! i)" "sorted (index_offsets ixs)"
    "covering (index_offsets ixs) x j" "i \<le> j" "n + i + 1 = length ixs"
  shows "first_level_loop cf cm base x n i ctx = Some (True,
    ctx\<lparr>cu_firstLevelNextFunctionOffset := ui_functionOffset (ixs ! (j + 1)), cu_indexHeader := ixs ! j\<rparr>)"
proof -
  have cov: "Suc j < length ixs" "ucast (ui_functionOffset (ixs ! j)) \<le> x" "x < ucast (ui_functionOffset (ixs ! Suc j))"
    using assms(3) by (auto simp: covering_def nth_map)
  show ?thesis using assms(4,5)
proof (induction n arbitrary: i)
  case 0
  then show ?case using assms(3) by (simp add: covering_def)
next
  case (Suc n)
  have e: "index_entry cf cm base i = Some (ixs ! i)" "index_entry cf cm base (i + 1) = Some (ixs ! (i + 1))"
    using assms(1) Suc.prems by auto
  show ?case
  proof (cases "i = j")
    case True
    then show ?thesis using e cov by simp
  next
    case False
    then have "index_offsets ixs ! (i + 1) \<le> index_offsets ixs ! j"
      using Suc.prems assms(3) by (intro sorted_nth_mono [OF assms(2)]) (auto simp: covering_def)
    then have "\<not> x < ucast (ui_functionOffset (ixs ! (i + 1)))"
      using cov Suc.prems False by (auto simp: not_less intro: order_trans)
    then show ?thesis using e Suc.IH [of "i + 1"] Suc.prems False by simp
  qed
qed
qed

lemma first_level_covering:
  assumes "first_level cf cm ctx ixs" "sorted (index_offsets ixs)" "cu_loadAddress ctx \<le> pc"
    "covering (index_offsets ixs) (pc - cu_loadAddress ctx) j"
  shows "FIRCLSCompactUnwindLookupFirstLevel cf cm ctx pc = Some (True,
    ctx\<lparr>cu_firstLevelNextFunctionOffset := ui_functionOffset (ixs ! (j + 1)), cu_indexHeader := ixs ! j\<rparr>)"
proof -
  let ?c = "uh_indexCount (cu_unwindHeader ctx)"
  have c: "2 \<le> unat ?c" using assms(1) by (simp add: first_level_def)
  then have "\<not> ?c < 2" by (simp add: word_less_nat_alt)
  moreover have "unat (?c - 1) = unat ?c - 1"
    using c by (subst unat_sub) (auto simp: word_le_nat_alt)
  moreover have "unat ?c - 1 + 0 + 1 = length ixs" using c assms(1) by (simp add: first_level_def)
  ultimately show ?thesis
    using first_level_finds [of ixs cf cm "FIRCLSCompactUnwindGetIndexData ctx" "pc - cu_loadAddress ctx" j 0 "unat ?c - 1" ctx]
      assms unfolding first_level_def FIRCLSCompactUnwindLookupFirstLevel_def Let_def by (simp add: not_less)
qed

lemma page_offsets_compressed:
  "compressed_page cf cm ptr hdr es \<Longrightarrow>
     page_offsets cf cm (ptr + ucast (up_entryPageOffset hdr)) (unat (up_entryCount hdr)) (page_functions cf es)"
  by (simp add: compressed_page_def page_offsets_def)

lemma compressed_entry_array:
  assumes "compressed_page cf cm ptr hdr es"
  shows "ptr_add ptr (unat (up_entryPageOffset hdr)) = Some (ptr + ucast (up_entryPageOffset hdr))"
    "ptr + ucast (up_entryPageOffset hdr) \<noteq> 0"
proof -
  have lt: "unat ptr + unat (up_entryPageOffset hdr) < 2 ^ 64" and nz: "ptr \<noteq> 0"
    using assms by (simp_all add: compressed_page_def)
  show "ptr_add ptr (unat (up_entryPageOffset hdr)) = Some (ptr + ucast (up_entryPageOffset hdr))"
    using lt by (simp add: ptr_add_def)
  have "unat (ptr + ucast (up_entryPageOffset hdr)) = unat ptr + unat (up_entryPageOffset hdr)"
    using lt by (subst unat_plus_simple [THEN iffD1]) (simp_all add: word_le_nat_alt unat_word_ariths unat_ucast)
  then show "ptr + ucast (up_entryPageOffset hdr) \<noteq> 0"
    using nz by (metis add_is_0 unat_0 unat_eq_0)
qed

lemma bsearch_array:
  assumes "page_offsets cf cm a (unat n) fs" "sorted fs" "a \<noteq> 0" "n \<noteq> 0" "x \<noteq> 0"
  shows "covering fs x i \<Longrightarrow> FIRCLSCompactUnwindBinarySearchSecondLevel cf cm x n a = Some (True, i)"
    "fs ! (unat n - 1) \<le> x \<Longrightarrow> \<exists>k. FIRCLSCompactUnwindBinarySearchSecondLevel cf cm x n a = Some (False, k)"
proof -
  have len: "length fs = unat n" "0 < unat n" using assms(1,4) by (simp_all add: page_offsets_def unat_gt_0)
  show "FIRCLSCompactUnwindBinarySearchSecondLevel cf cm x n a = Some (True, i)" if "covering fs x i"
    using search_page [OF assms, of i] that by auto
  show "\<exists>k. FIRCLSCompactUnwindBinarySearchSecondLevel cf cm x n a = Some (False, k)" if "fs ! (unat n - 1) \<le> x"
  proof -
    have "\<not> x < fs ! (unat n - 1)" using that by (simp add: not_less)
    moreover obtain ok k where "FIRCLSCompactUnwindBinarySearchSecondLevel cf cm x n a = Some (ok, k)"
        "ok \<longleftrightarrow> x < fs ! (unat n - 1)"
      using search_page [OF assms] by blast
    ultimately show ?thesis by auto
  qed
qed

lemma page_finds:
  assumes page: "compressed_page cf cm (FIRCLSCompactUnwindGetSecondLevelData ctx) hdr es"
    and sorted: "sorted (page_functions cf es)"
    and t: "FIRCLSCompactUnwindGetTargetAddress ctx pc = t" "t \<noteq> 0"
  shows "covering (page_functions cf es) t k \<Longrightarrow>
    FIRCLSCompactUnwindLookupSecondLevel cf cm ctx pc r =
      (let start = ucast (UNWIND_INFO_COMPRESSED_ENTRY_FUNC_OFFSET cf (es ! k)) + FIRCLSCompactUnwindGetIndexFunctionOffset ctx;
           end' = cu_loadAddress ctx + ucast (UNWIND_INFO_COMPRESSED_ENTRY_FUNC_OFFSET cf (es ! (k + 1)) + ui_functionOffset (cu_indexHeader ctx));
           r = zero_result\<lparr>cr_functionStart := start, cr_functionEnd := end'\<rparr> in
       if pc < start \<or> pc \<ge> end' then Some (False, r)
       else do { e \<leftarrow> entry_encoding cf cm ctx (FIRCLSCompactUnwindGetSecondLevelData ctx) hdr (es ! k);
                 Some (e \<noteq> 0, r\<lparr>cr_encoding := e\<rparr>) })"
    "last (page_functions cf es) \<le> t \<Longrightarrow>
      FIRCLSCompactUnwindLookupSecondLevel cf cm ctx pc r = Some (False, zero_result)"
proof -
  let ?ptr = "FIRCLSCompactUnwindGetSecondLevelData ctx"
  let ?a = "?ptr + ucast (up_entryPageOffset hdr)"
  note offs = page_offsets_compressed [OF page]
  have n: "length es = unat (up_entryCount hdr)" "es \<noteq> []" "up_entryCount hdr \<noteq> 0"
    using page by (auto simp: compressed_page_def)
  note search = bsearch_array [OF offs sorted compressed_entry_array(2) [OF page] n(3) t(2)]
  have second: "FIRCLSCompactUnwindLookupSecondLevel cf cm ctx pc r = do {
      (found, i) \<leftarrow> FIRCLSCompactUnwindBinarySearchSecondLevel cf cm t (up_entryCount hdr) ?a;
      if \<not> found then Some (False, zero_result)
      else do {
        entry \<leftarrow> word_entry cm ?a i;
        let functionStart = ucast (UNWIND_INFO_COMPRESSED_ENTRY_FUNC_OFFSET cf entry) +
                            FIRCLSCompactUnwindGetIndexFunctionOffset ctx;
        functionEnd \<leftarrow> function_end cf cm ctx ?a (up_entryCount hdr) i;
        let result = zero_result\<lparr>cr_functionStart := functionStart, cr_functionEnd := functionEnd\<rparr>;
        if pc < functionStart \<or> pc \<ge> functionEnd then Some (False, result)
        else do {
          encoding \<leftarrow> entry_encoding cf cm ctx ?ptr hdr entry;
          Some (encoding \<noteq> 0, result\<lparr>cr_encoding := encoding\<rparr>)
        }
      }}"
    using page t compressed_entry_array(1) [OF page]
    by (auto simp: FIRCLSCompactUnwindLookupSecondLevel_def FIRCLSCompactUnwindGetSecondLevelPageKind_def
        FIRCLSCompactUnwindLookupSecondLevelCompressed_def compressed_page_def Let_def)
  {
    assume c: "covering (page_functions cf es) t k"
    then have k: "k < length es" "k + 1 < length es" by (auto simp: covering_def)
    have e: "word_entry cm ?a k = Some (es ! k)" "word_entry cm ?a (k + 1) = Some (es ! (k + 1))"
      using page k by (auto simp: compressed_page_def)
    then have "function_end cf cm ctx ?a (up_entryCount hdr) k = Some (cu_loadAddress ctx +
        ucast (UNWIND_INFO_COMPRESSED_ENTRY_FUNC_OFFSET cf (es ! (k + 1)) + ui_functionOffset (cu_indexHeader ctx)))"
      using k n(1) less_diff_conv [of k "unat (up_entryCount hdr)" 1] by (simp add: function_end_def)
    then show "FIRCLSCompactUnwindLookupSecondLevel cf cm ctx pc r =
      (let start = ucast (UNWIND_INFO_COMPRESSED_ENTRY_FUNC_OFFSET cf (es ! k)) + FIRCLSCompactUnwindGetIndexFunctionOffset ctx;
           end' = cu_loadAddress ctx + ucast (UNWIND_INFO_COMPRESSED_ENTRY_FUNC_OFFSET cf (es ! (k + 1)) + ui_functionOffset (cu_indexHeader ctx));
           r = zero_result\<lparr>cr_functionStart := start, cr_functionEnd := end'\<rparr> in
       if pc < start \<or> pc \<ge> end' then Some (False, r)
       else do { e \<leftarrow> entry_encoding cf cm ctx ?ptr hdr (es ! k);
                 Some (e \<noteq> 0, r\<lparr>cr_encoding := e\<rparr>) })"
      unfolding second search(1) [OF c] using e by (simp add: Let_def)
  next
    assume "last (page_functions cf es) \<le> t"
    then have "page_functions cf es ! (unat (up_entryCount hdr) - 1) \<le> t"
      using n by (simp add: last_conv_nth)
    then show "FIRCLSCompactUnwindLookupSecondLevel cf cm ctx pc r = Some (False, zero_result)"
      using search(2) by (auto simp: second)
  }
qed




text \<open>C29: Whatever bytes the tables consist of, a successful lookup has found a function that contains the
  pc, with a nonzero encoding, under the first-level entry that covers the pc.
\<close>

theorem compact_lookup_sound:
  assumes "FIRCLSCompactUnwindLookup cf cm ctx pc r0 = Some (True, ctx', r)"
  shows "cr_functionStart r \<le> pc \<and> pc < cr_functionEnd r \<and> cr_encoding r \<noteq> 0 \<and>
    cu_loadAddress ctx \<le> pc \<and>
    pc - cu_loadAddress ctx < ucast (cu_firstLevelNextFunctionOffset ctx') \<and>
    ucast (ui_functionOffset (cu_indexHeader ctx')) \<le> pc - cu_loadAddress ctx"
proof -
  from assms obtain v where first: "FIRCLSCompactUnwindLookupFirstLevel cf cm ctx pc = Some (True, ctx')"
    and second: "FIRCLSCompactUnwindLookupSecondLevel cf cm ctx' pc r0 = Some (True, r)"
    by (auto simp: FIRCLSCompactUnwindLookup_def Option.bind_eq_Some_conv split: if_splits)
  have loop: "first_level_loop cf cm base x n i c = Some (True, c') \<Longrightarrow>
      x < ucast (cu_firstLevelNextFunctionOffset c') \<and> ucast (ui_functionOffset (cu_indexHeader c')) \<le> x"
    for base x n i c c'
    by (induction n arbitrary: i) (auto simp: Option.bind_eq_Some_conv split: if_splits)
  have "cu_loadAddress ctx \<le> pc \<and>
    pc - cu_loadAddress ctx < ucast (cu_firstLevelNextFunctionOffset ctx') \<and>
    ucast (ui_functionOffset (cu_indexHeader ctx')) \<le> pc - cu_loadAddress ctx"
    using first loop by (auto simp: FIRCLSCompactUnwindLookupFirstLevel_def Let_def split: if_splits)
  moreover have "cr_functionStart r \<le> pc \<and> pc < cr_functionEnd r \<and> cr_encoding r \<noteq> 0"
    using second
    by (auto simp: FIRCLSCompactUnwindLookupSecondLevel_def FIRCLSCompactUnwindLookupSecondLevelCompressed_def
        FIRCLSCompactUnwindLookupSecondLevelRegular_def
        Let_def Option.bind_eq_Some_conv split: if_splits)
  ultimately show ?thesis by simp
qed

text \<open>
  A section in the documented layout: seven words of header, twelve bytes per index entry, a page
  header of a word and four halfwords, an entry's encoding index in its high byte.
\<close>

definition sample_format :: compact_format where
  "sample_format = \<lparr>
     cf_header_size = 28,
     cf_header = (\<lambda>bs. \<lparr>uh_version = le_word (take 4 bs),
       uh_commonEncodingsArraySectionOffset = le_word (take 4 (drop 4 bs)),
       uh_commonEncodingsArrayCount = le_word (take 4 (drop 8 bs)),
       uh_indexSectionOffset = le_word (take 4 (drop 20 bs)), uh_indexCount = le_word (take 4 (drop 24 bs))\<rparr>),
     cf_index_size = 12,
     cf_index = (\<lambda>bs. \<lparr>ui_functionOffset = le_word (take 4 bs),
       ui_secondLevelPagesSectionOffset = le_word (take 4 (drop 4 bs))\<rparr>),
     cf_page_size = 12,
     cf_page = (\<lambda>bs. \<lparr>up_entryPageOffset = le_word (take 2 (drop 4 bs)), up_entryCount = le_word (take 2 (drop 6 bs)),
       up_encodingsPageOffset = le_word (take 2 (drop 8 bs))\<rparr>),
     UNWIND_INFO_COMPRESSED_ENTRY_FUNC_OFFSET = (\<lambda>e. e AND 0xFFFFFF),
     UNWIND_INFO_COMPRESSED_ENTRY_ENCODING_INDEX = (\<lambda>e. drop_bit 24 e AND 0xFF),
     UNWIND_SECTION_VERSION = 1, UNWIND_SECOND_LEVEL_REGULAR = 2, UNWIND_SECOND_LEVEL_COMPRESSED = 3,
     UNWIND_ARM64_MODE_MASK = 0x0F000000, UNWIND_ARM64_MODE_FRAMELESS = 0x02000000,
     UNWIND_ARM64_MODE_DWARF = 0x03000000, UNWIND_ARM64_MODE_FRAME = 0x04000000,
     UNWIND_ARM64_DWARF_SECTION_OFFSET = 0xFFFFFF\<rparr>"

text \<open>One common encoding (a frame), two index entries, and a page with functions at 0, 64 and 128.\<close>

definition sample_section :: bytes where
  "sample_section =
     [1, 0, 0, 0, 28, 0, 0, 0, 1, 0, 0, 0, 28, 0, 0, 0, 0, 0, 0, 0, 32, 0, 0, 0, 2, 0, 0, 0,
      0, 0, 0, 4,
      0, 16, 0, 0, 56, 0, 0, 0, 0, 0, 0, 0,
      0, 32, 0, 0, 0, 0, 0, 0, 0, 0, 0, 0,
      3, 0, 0, 0, 12, 0, 3, 0, 24, 0, 0, 0,
      0, 0, 0, 0, 64, 0, 0, 0, 128, 0, 0, 0]"

definition section_mem :: cmem where "section_mem = mem_at 8192 sample_section"

lemma load_section:
  "8192 \<le> a \<Longrightarrow> a + n \<le> 8272 \<Longrightarrow> load_bytes section_mem a n = Some (take n (drop (a - 8192) sample_section))"
  unfolding section_mem_def by (rule load_mem_at) (simp_all add: sample_section_def)

lemma section_bytes:
  "le_word (take 4 (drop 56 sample_section)) = (3 :: u32)"
  "le_word (take 4 (drop 68 sample_section)) = (0 :: u32)"
  "le_word (take 4 (drop 72 sample_section)) = (64 :: u32)"
  "le_word (take 4 (drop 76 sample_section)) = (128 :: u32)"
  "le_word (take 4 (drop 28 sample_section)) = (0x4000000 :: u32)"
  by (simp_all add: sample_section_def)

definition sample_context :: FIRCLSCompactUnwindContext where
  "sample_context = zero_context\<lparr>cu_unwindInfo := 8192, cu_loadAddress := 0x10000,
     cu_unwindHeader := \<lparr>uh_version = 1, uh_commonEncodingsArraySectionOffset = 28,
       uh_commonEncodingsArrayCount = 1, uh_indexSectionOffset = 32, uh_indexCount = 2\<rparr>\<rparr>"

definition sample_index :: "unwind_info_section_header_index_entry list" where
  "sample_index = [\<lparr>ui_functionOffset = 0x1000, ui_secondLevelPagesSectionOffset = 56\<rparr>,
                   \<lparr>ui_functionOffset = 0x2000, ui_secondLevelPagesSectionOffset = 0\<rparr>]"

lemma sample_first_level: "first_level sample_format section_mem sample_context sample_index"
proof -
  have base: "FIRCLSCompactUnwindGetIndexData sample_context = 8224"
    by (simp add: sample_context_def FIRCLSCompactUnwindGetIndexData_def)
  have "index_entry sample_format section_mem 8224 0 = Some (sample_index ! 0)"
    by (simp add: index_entry_def load_section sample_format_def del: load_bytes.simps)
      (simp add: sample_section_def sample_index_def)
  moreover have "index_entry sample_format section_mem 8224 1 = Some (sample_index ! 1)"
    by (simp add: index_entry_def load_section sample_format_def del: load_bytes.simps)
      (simp add: sample_section_def sample_index_def)
  ultimately have "index_entry sample_format section_mem 8224 i = Some (sample_index ! i)" if "i < 2" for i
    using that by (cases "i = 0") (auto simp: less_2_cases_iff)
  then show ?thesis
    by (simp add: first_level_def base) (simp add: sample_index_def sample_context_def)
qed

definition sample_page :: unwind_info_compressed_second_level_page_header where
  "sample_page = \<lparr>up_entryPageOffset = 12, up_entryCount = 3, up_encodingsPageOffset = 24\<rparr>"

lemma sample_compressed_page: "compressed_page sample_format section_mem 8248 sample_page [0, 64, 128]"
proof -
  have "word_entry section_mem 8260 i = Some ([0, 64, 128] ! i)" if "i < 3" for i
    using that by (auto simp: less_Suc_eq numeral_3_eq_3 word_entry_def load_word_def load_section section_bytes
      simp del: load_bytes.simps)
  then show ?thesis
    by (simp add: compressed_page_def sample_page_def load_word_def load_section section_bytes sample_format_def
        del: load_bytes.simps) (simp add: sample_section_def)
qed



definition sample_found :: FIRCLSCompactUnwindContext where
  "sample_found = sample_context\<lparr>cu_firstLevelNextFunctionOffset := 0x2000,
     cu_indexHeader := \<lparr>ui_functionOffset = 0x1000, ui_secondLevelPagesSectionOffset = 56\<rparr>\<rparr>"


lemma sample_lookup:
  "\<exists>r. FIRCLSCompactUnwindLookup sample_format section_mem sample_context 0x11050 zero_result =
     Some (True, sample_found, r)"
proof -
  have offs: "index_offsets sample_index = [0x1000, 0x2000]" by (simp add: sample_index_def)
  have l: "cu_loadAddress sample_context = 0x10000" by (simp add: sample_context_def)
  have "FIRCLSCompactUnwindLookupFirstLevel sample_format section_mem sample_context 0x11050 = Some (True, sample_found)"
    using first_level_covering [OF sample_first_level, of "0x11050" 0]
    by (simp add: offs l covering_def) (simp add: sample_found_def sample_index_def)
  moreover have "FIRCLSCompactUnwindGetSecondLevelData sample_found = 8248"
    "FIRCLSCompactUnwindGetTargetAddress sample_found 0x11050 = 0x50"
    "FIRCLSCompactUnwindGetIndexFunctionOffset sample_found = 0x11000"
    by (simp_all add: sample_found_def sample_context_def FIRCLSCompactUnwindGetSecondLevelData_def Let_def
        FIRCLSCompactUnwindGetTargetAddress_def FIRCLSCompactUnwindGetIndexFunctionOffset_def)
  moreover have "entry_encoding sample_format section_mem sample_found 8248 sample_page 64 = Some 0x4000000"
    by (simp add: entry_encoding_def sample_format_def sample_found_def sample_context_def
        FIRCLSCompactUnwindGetCommonEncodings_def word_entry_def load_word_def load_section section_bytes
        del: load_bytes.simps)
  ultimately show ?thesis
    using page_finds(1) [of sample_format section_mem sample_found sample_page "[0, 64, 128]" "0x11050" "0x50" 1]
      sample_compressed_page
    by (simp add: FIRCLSCompactUnwindLookup_def covering_def)
       (simp add: sample_format_def sample_found_def sample_context_def)
qed

lemma compact_lookup_sound_witness:
  "\<exists>ctx' r. FIRCLSCompactUnwindLookup sample_format section_mem sample_context 0x11050 zero_result = Some (True, ctx', r) \<and>
     cr_functionStart r \<le> 0x11050 \<and> 0x11050 < cr_functionEnd r"
proof -
  obtain ctx' r where found: "FIRCLSCompactUnwindLookup sample_format section_mem sample_context 0x11050 zero_result = Some (True, ctx', r)"
    using sample_lookup by blast
  show ?thesis using found compact_lookup_sound [OF found] by blast
qed

end
