(* ===== verification/TraceProofs.thy ===== *)
theory TraceProofs
  imports CompactProofs
begin

text \<open>
  The walk over the frames of a thread and the report made of it: what the loop of
  \<open>FIRCLSProcessRecordThread\<close> writes is a function of the pcs the walk passes through, and without
  unwind tables these are the return addresses of the chain of frame records.
\<close>

section \<open>The walk over the frames\<close>

text \<open>The contexts a walk passes through, and the one it stops with.\<close>

inductive walk :: "unwind_env \<Rightarrow> FIRCLSUnwindContext \<Rightarrow> FIRCLSUnwindContext list \<Rightarrow> FIRCLSUnwindContext \<Rightarrow> bool" where
  stop: "FIRCLSUnwindNextFrame env u = Some (False, w) \<Longrightarrow> walk env u [] w"
| frame: "FIRCLSUnwindNextFrame env u = Some (True, v) \<Longrightarrow> walk env v vs w \<Longrightarrow> walk env u (v # vs) w"

inductive_simps walk_Nil: "walk env u [] w"
inductive_simps walk_Cons: "walk env u (v # vs) w"

definition record_frames :: "FIRCLSUnwindContext list \<Rightarrow> trace_state \<Rightarrow> trace_state" where
  "record_frames vs t = fold (\<lambda>v. record_frame (FIRCLSUnwindGetPC v) (FIRCLSUnwindGetFrameRepeatCount v)) vs t"

lemma trace_loop_walk:
  "trace_loop env u t = Some (w, t') \<longleftrightarrow> (\<exists>vs. walk env u vs w \<and> t' = record_frames vs t)"
proof (induction env u t rule: trace_loop.induct)
  case hyp: (1 env u t)
  show ?case
  proof (cases "FIRCLSUnwindNextFrame env u")
    case None
    then show ?thesis by (subst trace_loop.simps) (auto elim: walk.cases)
  next
    case (Some r)
    obtain ok v where r: "r = (ok, v)" by (cases r)
    show ?thesis
    proof (cases ok)
      case False
      have "walk env u vs w \<longleftrightarrow> vs = [] \<and> w = v" for vs
        using Some r False by (cases vs) (auto simp: walk_Nil walk_Cons)
      then show ?thesis using Some r False by (subst trace_loop.simps) (auto simp: record_frames_def)
    next
      case True
      have "walk env u vs w \<longleftrightarrow> (\<exists>vs'. vs = v # vs' \<and> walk env v vs' w)" for vs
        using Some r True by (cases vs) (auto simp: walk_Nil walk_Cons)
      then show ?thesis
        using Some r True hyp [OF Some, of ok v] by (subst trace_loop.simps) (auto simp: record_frames_def)
    qed
  qed
qed

text \<open>The numbers of repetitions, counted from the pc of the frame before.\<close>

fun repetitions :: "u64 \<Rightarrow> nat \<Rightarrow> u64 list \<Rightarrow> nat list" where
  "repetitions q n [] = []"
| "repetitions q n (p # ps) =
     (let n' = if p = q then n + 1 else 0 in n' # repetitions p n' ps)"

lemma length_repetitions [simp]: "length (repetitions p n ps) = length ps"
  by (induction ps arbitrary: p n) (simp_all add: Let_def)

lemma walk_frames:
  assumes "walk env u vs w" "unat (uw_frameCount u) \<le> 100000" "unat (uw_repeatCount u) \<le> unat (uw_frameCount u)"
  shows "length vs + unat (uw_frameCount u) \<le> 100000"
    "\<forall>v \<in> set vs. FIRCLSIsValidPointer (FIRCLSUnwindGetPC v)"
    "map (unat \<circ> FIRCLSUnwindGetFrameRepeatCount) vs =
       repetitions (uw_lastFramePC u) (unat (uw_repeatCount u)) (map FIRCLSUnwindGetPC vs)"
  using assms
proof (induction rule: walk.induct)
  case (stop env u w)
  case 1 then show ?case using stop by simp
  case 2 show ?case by simp
  case 3 show ?case by simp
next
  case (frame env u v vs w)
  note n = next_frame_count [OF frame.hyps(1)]
  have lt: "unat (uw_frameCount u) < 100000"
    using n(1) by (simp add: word_less_nat_alt FIRCLSUnwindMaxFrames_def)
  have c: "unat (uw_frameCount v) = unat (uw_frameCount u) + 1"
    using lt by (simp add: n(2) unat_word_ariths)
  have r: "unat (uw_repeatCount v) =
      (if FIRCLSUnwindGetPC v = uw_lastFramePC u then unat (uw_repeatCount u) + 1 else 0)"
    if "unat (uw_repeatCount u) \<le> unat (uw_frameCount u)"
    using lt that by (auto simp: n(6) unat_word_ariths)
  case 1
  then show ?case using frame.IH(1) c r lt by (auto split: if_splits)
  case 2
  then show ?case using frame.IH(2) c r n(4) lt by (auto split: if_splits)
  case 3
  then show ?case using frame.IH(3) c r n(3) lt by (auto split: if_splits simp add: Let_def FIRCLSUnwindGetFrameRepeatCount_def)
qed

text \<open>
  What the loop keeps of the frames: all of them until a pc has repeated ten times in a row; from then
  on that pc is left out, also where it occurs again, and the count is that of its latest occurrence.
\<close>

definition kept_frames :: "(u64 \<times> nat) list \<Rightarrow> u64 list \<times> (u64 \<times> nat) option" where
  "kept_frames fs =
     (case dropWhile (\<lambda>(p, n). n < 10) fs of
        [] \<Rightarrow> (map fst fs, None)
      | (p, n) # rest \<Rightarrow>
          (map fst (takeWhile (\<lambda>(p, n). n < 10) fs) @ filter (\<lambda>q. q \<noteq> p) (map fst rest),
           Some (p, last (0 # map snd (filter (\<lambda>(q, n). q = p) rest)))))"

lemma record_suppressed:
  assumes "tr_repeatedPC t = p" "p \<noteq> 0"
  shows "fold (\<lambda>(q, n). record_frame q (of_nat n)) fs t =
    t\<lparr>tr_repeatedPCCount := last (tr_repeatedPCCount t # map (of_nat \<circ> snd) (filter (\<lambda>(q, n). q = p) fs)),
      tr_written := tr_written t @ filter (\<lambda>q. q \<noteq> p) (map fst fs)\<rparr>"
  using assms
proof (induction fs arbitrary: t)
  case (Cons f fs)
  obtain q n where f: "f = (q, n)" by (cases f)
  show ?case
  proof (cases "q = p")
    case True
    then have "record_frame q (of_nat n) t = t\<lparr>tr_repeatedPCCount := of_nat n\<rparr>"
      using Cons.prems by (simp add: record_frame_def)
    then show ?thesis using Cons.prems Cons.IH [of "t\<lparr>tr_repeatedPCCount := of_nat n\<rparr>"] True by (simp add: f)
  next
    case False
    then have "record_frame q (of_nat n) t = t\<lparr>tr_written := tr_written t @ [q]\<rparr>"
      using Cons.prems by (auto simp: record_frame_def)
    then show ?thesis
      using Cons.prems Cons.IH [of "t\<lparr>tr_written := tr_written t @ [q]\<rparr>"] False by (simp add: f)
  qed
qed simp

lemma threshold_reached:
  "n \<le> 100000 \<Longrightarrow> FIRCLSUnwindInfiniteRecursionCountThreshold \<le> (of_nat n :: u32) \<longleftrightarrow> 10 \<le> n"
  by (simp add: FIRCLSUnwindInfiniteRecursionCountThreshold_def word_le_nat_alt unat_of_nat)

lemma record_unsuppressed:
  assumes "tr_repeatedPC t = 0" "\<forall>(p, n) \<in> set fs. n < 10"
  shows "fold (\<lambda>(q, n). record_frame q (of_nat n)) fs t = t\<lparr>tr_written := tr_written t @ map fst fs\<rparr>"
  using assms
proof (induction fs arbitrary: t)
  case (Cons f fs)
  obtain q n where f: "f = (q, n)" by (cases f)
  have "n < 10" using Cons.prems(2) f by auto
  then have "record_frame q (of_nat n) t = t\<lparr>tr_written := tr_written t @ [q]\<rparr>"
    using Cons.prems threshold_reached [of n] by (auto simp: record_frame_def)
  then show ?case using Cons.prems Cons.IH [of "t\<lparr>tr_written := tr_written t @ [q]\<rparr>"] by (auto simp: f)
qed simp

lemma record_kept:
  assumes "\<forall>(p, n) \<in> set fs. p \<noteq> 0 \<and> n \<le> 100000"
  defines "t \<equiv> fold (\<lambda>(q, n). record_frame q (of_nat n)) fs
    \<lparr>tr_repeatedPCCount = 0, tr_repeatedPC = 0, tr_written = []\<rparr>"
  shows "(tr_written t, if tr_repeatedPC t \<noteq> 0 then Some (tr_repeatedPC t, tr_repeatedPCCount t) else None) =
    (fst (kept_frames fs), map_option (map_prod id of_nat) (snd (kept_frames fs)))"
proof -
  let ?small = "\<lambda>(p, n). n < (10 :: nat)"
  let ?t0 = "\<lparr>tr_repeatedPCCount = 0, tr_repeatedPC = 0, tr_written = []\<rparr>"
  let ?t1 = "?t0\<lparr>tr_written := map fst (takeWhile ?small fs)\<rparr>"
  have fs: "fs = takeWhile ?small fs @ dropWhile ?small fs" by simp
  have 1: "fold (\<lambda>(q, n). record_frame q (of_nat n)) (takeWhile ?small fs) ?t0 = ?t1"
    by (subst record_unsuppressed) (auto dest!: set_takeWhileD)
  have t: "t = fold (\<lambda>(q, n). record_frame q (of_nat n)) (dropWhile ?small fs) ?t1"
    unfolding t_def by (subst fs, subst fold_append) (simp only: 1 comp_apply)
  show ?thesis
  proof (cases "dropWhile ?small fs")
    case Nil
    have tw: "takeWhile ?small fs = fs" using Nil by (metis fs append_Nil2)
    show ?thesis unfolding t kept_frames_def Nil tw by simp
  next
    case (Cons f rest)
    obtain p n where f: "f = (p, n)" by (cases f)
    have "(p, n) \<in> set (takeWhile ?small fs @ dropWhile ?small fs)" unfolding Cons f by simp
    then have "(p, n) \<in> set fs" by (simp only: takeWhile_dropWhile_id)
    then have pn: "p \<noteq> 0" "n \<le> 100000" using assms(1) by auto
    have "10 \<le> n" using hd_dropWhile [of ?small fs] Cons f by auto
    then have "record_frame p (of_nat n) ?t1 = ?t1\<lparr>tr_repeatedPC := p\<rparr>"
      using pn threshold_reached [of n] by (auto simp: record_frame_def)
    then have "t = ?t1\<lparr>tr_repeatedPC := p,
        tr_repeatedPCCount := last (0 # map (of_nat \<circ> snd) (filter (\<lambda>(q, n). q = p) rest)),
        tr_written := map fst (takeWhile ?small fs) @ filter (\<lambda>q. q \<noteq> p) (map fst rest)\<rparr>"
      using record_suppressed [of "?t1\<lparr>tr_repeatedPC := p\<rparr>" p rest] pn by (simp add: t Cons f)
    moreover have "last (0 # map (of_nat \<circ> snd) xs) = (of_nat (last (0 # map snd xs)) :: u32)" for xs :: "(u64 \<times> nat) list"
      by (simp add: last_map)
    ultimately show ?thesis using pn unfolding kept_frames_def Cons f by simp
  qed
qed


lemma repetitions_le: "n \<in> set (repetitions q m ps) \<Longrightarrow> n \<le> m + length ps"
  by (induction ps arbitrary: q m) (auto simp: Let_def split: if_splits, force+)

text \<open>The report of a thread in terms of the pcs of the frames that its walk passes through.\<close>

definition report_of :: "u64 list \<Rightarrow> u64 list \<times> (u64 \<times> u32) option" where
  "report_of qs = (let kept = kept_frames (zip qs (repetitions 0 0 qs)) in
     (fst kept, map_option (map_prod id of_nat) (snd kept)))"

lemma record_walk:
  assumes w: "walk env (FIRCLSUnwindInit thread) vs w"
  shows "record_stacktrace env thread = Some (report_of (map FIRCLSUnwindGetPC vs))"
    "length vs \<le> 100000" "\<forall>v \<in> set vs. FIRCLSIsValidPointer (FIRCLSUnwindGetPC v)"
proof -
  let ?qs = "map FIRCLSUnwindGetPC vs"
  let ?ns = "repetitions 0 0 ?qs"
  let ?t = "\<lparr>tr_repeatedPCCount = 0, tr_repeatedPC = 0, tr_written = []\<rparr>"
  have u: "uw_frameCount (FIRCLSUnwindInit thread) = 0" "uw_repeatCount (FIRCLSUnwindInit thread) = 0"
    "uw_lastFramePC (FIRCLSUnwindInit thread) = 0"
    by (simp_all add: FIRCLSUnwindInit_def)
  note frames = walk_frames [OF w, unfolded u, simplified]
  show "length vs \<le> 100000" "\<forall>v \<in> set vs. FIRCLSIsValidPointer (FIRCLSUnwindGetPC v)" using frames(1,2) by simp_all
  have ok: "\<forall>(p, n) \<in> set (zip ?qs ?ns). p \<noteq> 0 \<and> n \<le> 100000"
  proof clarify
    fix p n
    assume pn: "(p, n) \<in> set (zip ?qs ?ns)"
    have "4096 \<le> p" using frames(2) set_zip_leftD [OF pn] by (auto simp: FIRCLSIsValidPointer_def)
    moreover have "n \<le> 100000" using repetitions_le [OF set_zip_rightD [OF pn]] frames(1) by simp
    ultimately show "p \<noteq> 0 \<and> n \<le> 100000" by auto
  qed
  have counts: "map (\<lambda>v. (FIRCLSUnwindGetPC v, FIRCLSUnwindGetFrameRepeatCount v)) vs =
      map (map_prod id of_nat) (zip ?qs ?ns)"
    by (simp flip: frames(3) add: zip_map_map zip_same_conv_map map_prod_def)
  have "record_frames vs ?t =
      fold (\<lambda>(q, n). record_frame q n) (map (\<lambda>v. (FIRCLSUnwindGetPC v, FIRCLSUnwindGetFrameRepeatCount v)) vs) ?t"
    by (simp add: record_frames_def fold_map comp_def)
  also have "\<dots> = fold (\<lambda>(q, n). record_frame q (of_nat n)) (zip ?qs ?ns) ?t"
    by (simp add: counts fold_map comp_def map_prod_def split_def)
  finally have r: "record_frames vs ?t = fold (\<lambda>(q, n). record_frame q (of_nat n)) (zip ?qs ?ns) ?t" .
  have "trace_loop env (FIRCLSUnwindInit thread) ?t = Some (w, record_frames vs ?t)"
    using w by (auto simp: trace_loop_walk)
  then show "record_stacktrace env thread = Some (report_of ?qs)"
    using record_kept [OF ok] by (simp add: record_stacktrace_def r report_of_def Let_def)
qed

lemma record_stacktrace_obtains:
  assumes "record_stacktrace env thread = Some x"
  obtains vs w where "walk env (FIRCLSUnwindInit thread) vs w"
  using assms by (auto simp: record_stacktrace_def Option.bind_eq_Some_conv trace_loop_walk)

text \<open>
  A chain of frame records: each holds the frame pointer of the caller and the return address, as
  the registers give them after pointer authentication bits are stripped.
\<close>

fun frame_chain :: "cmem \<Rightarrow> u64 \<Rightarrow> u64 list \<Rightarrow> bool" where
  "frame_chain cm fp [] \<longleftrightarrow> fp = 0"
| "frame_chain cm fp (r # rs) \<longleftrightarrow> 4097 \<le> r \<and> FIRCLSIsValidPointer (CLS_PTRAUTH_STRIP (fp + 16)) \<and>
     (case FIRCLSReadMemory cm fp 16 of
        None \<Rightarrow> False
      | Some bs \<Rightarrow> CLS_PTRAUTH_STRIP (le_word (drop 8 bs)) = r \<and>
                   frame_chain cm (CLS_PTRAUTH_STRIP (le_word (take 8 bs))) rs)"

definition plain_images :: "unwind_env \<Rightarrow> bool" where
  "plain_images env \<longleftrightarrow> (\<forall>n \<in> set (env_nodes env). \<not> FIRCLSBinaryImageSafeHasUnwindInfo n)"

lemma no_compact:
  assumes "plain_images env"
  shows "FIRCLSUnwindWithCompactUnwindInfo env u = Some (False, u)"
proof -
  have "\<not> FIRCLSBinaryImageSafeHasUnwindInfo n"
    if "FIRCLSBinaryImageSafeFindImageForAddress (env_nodes env) pc = Some n" for n pc
    using that assms by (auto simp: FIRCLSBinaryImageSafeFindImageForAddress_def plain_images_def split: if_splits
        dest!: find_SomeD)
  then show ?thesis by (auto simp: FIRCLSUnwindWithCompactUnwindInfo_def split: option.splits)
qed

text \<open>A frame that the walk can leave: more frames may follow and its registers are valid.\<close>

definition inner_frame :: "FIRCLSUnwindContext \<Rightarrow> bool" where
  "inner_frame u \<longleftrightarrow> 0 < uw_frameCount u \<and> uw_frameCount u < FIRCLSUnwindMaxFrames \<and>
     4097 \<le> FIRCLSUnwindGetPC u \<and> FIRCLSIsValidPointer (FIRCLSUnwindGetStackPointer u)"

lemma next_frame_plain:
  assumes "plain_images env" "inner_frame u"
  defines "r \<equiv> FIRCLSThreadContextSetPC (uw_registers u) (FIRCLSUnwindGetPC u - 1)"
  shows "FIRCLSUnwindNextFrame env u =
    (let (ok, r') = (if FIRCLSUnwindGetFramePointer u = 0 then (True, FIRCLSThreadContextSetPC r 0)
                     else FIRCLSUnwindWithFramePointer (env_mem env) r (uw_frameCount u = 1)) in
     if ok \<and> FIRCLSIsValidPointer (FIRCLSThreadContextGetPC r') \<and>
        FIRCLSIsValidPointer (FIRCLSThreadContextGetStackPointer r')
     then Some (True, u\<lparr>uw_registers := r',
       uw_repeatCount := (if uw_lastFramePC u = FIRCLSThreadContextGetPC r' then uw_repeatCount u + 1 else 0),
       uw_frameCount := uw_frameCount u + 1, uw_lastFramePC := FIRCLSThreadContextGetPC r'\<rparr>)
     else Some (False, u\<lparr>uw_registers := r'\<rparr>))"
proof -
  let ?p = "if FIRCLSUnwindGetFramePointer u = 0 then (True, FIRCLSThreadContextSetPC r 0)
                     else FIRCLSUnwindWithFramePointer (env_mem env) r (uw_frameCount u = 1)"
  have pc: "FIRCLSIsValidPointer (FIRCLSUnwindGetPC u - 1)" "FIRCLSIsValidPointer (FIRCLSUnwindGetPC u)"
    using assms(2) by (auto simp: inner_frame_def FIRCLSIsValidPointer_def word_le_nat_alt unat_sub)
  have count: "0 < uw_frameCount u" "uw_frameCount u \<noteq> 0" "\<not> FIRCLSUnwindMaxFrames \<le> uw_frameCount u"
    using assms(2) by (auto simp: inner_frame_def)
  have fp: "FIRCLSUnwindGetFramePointer (u\<lparr>uw_registers := r\<rparr>) = FIRCLSUnwindGetFramePointer u"
    by (simp add: r_def FIRCLSUnwindGetFramePointer_def FIRCLSThreadContextGetFramePointer_def FIRCLSThreadContextSetPC_def)
  have "FIRCLSUnwindNextFrameUsingAllStrategies env u = Some (fst ?p, u\<lparr>uw_registers := snd ?p\<rparr>)"
    unfolding FIRCLSUnwindNextFrameUsingAllStrategies_def Let_def
    by (simp add: count pc(1) no_compact [OF assms(1)] r_def [symmetric] fp split_def)
  moreover have "FIRCLSUnwindContextHasValidPCAndSP u"
    using assms(2) pc(2) by (simp add: FIRCLSUnwindContextHasValidPCAndSP_def inner_frame_def)
  ultimately show ?thesis
    unfolding FIRCLSUnwindNextFrame_def Let_def
    by (simp add: split_def FIRCLSUnwindGetPC_def FIRCLSUnwindGetStackPointer_def)
qed


lemma strip_strip [simp]: "CLS_PTRAUTH_STRIP (CLS_PTRAUTH_STRIP p) = CLS_PTRAUTH_STRIP p"
  by (simp add: CLS_PTRAUTH_STRIP_def and.assoc)

lemma valid_4097: "4097 \<le> p \<Longrightarrow> FIRCLSIsValidPointer p"
  using order_trans [of 4096 4097 p] by (simp add: FIRCLSIsValidPointer_def)

text \<open>A step along a frame record, and the step to the caller's pc that the link register gives.\<close>

lemma chain_step:
  assumes "frame_chain cm fp (p # ps)" "FIRCLSThreadContextGetFramePointer r = fp"
    "\<not> (scan \<and> FIRCLSIsValidPointer (FIRCLSThreadContextGetLinkRegister r))"
  obtains r' where "FIRCLSUnwindWithFramePointer cm r scan = (True, r')" "FIRCLSThreadContextGetPC r' = p"
    "FIRCLSIsValidPointer (FIRCLSThreadContextGetStackPointer r')"
    "frame_chain cm (FIRCLSThreadContextGetFramePointer r') ps" "fp \<noteq> 0"
proof -
  obtain bs where bs: "FIRCLSReadMemory cm fp 16 = Some bs" and p: "CLS_PTRAUTH_STRIP (le_word (drop 8 bs)) = p"
    and sp: "FIRCLSIsValidPointer (CLS_PTRAUTH_STRIP (fp + 16))"
    and ps: "frame_chain cm (CLS_PTRAUTH_STRIP (le_word (take 8 bs))) ps"
    using assms(1) by (auto split: option.splits)
  define r' where "r' = FIRCLSThreadContextSetStackPointer (FIRCLSThreadContextSetFramePointer
    (FIRCLSThreadContextSetPC r (le_word (drop 8 bs))) (le_word (take 8 bs))) (fp + 16)"
  have "fp \<noteq> 0" using bs by (auto simp: FIRCLSReadMemory_def FIRCLSIsValidPointer_def)
  moreover have "FIRCLSUnwindWithFramePointer cm r scan = (True, r')"
    using assms(2,3) bs by (auto simp: FIRCLSUnwindWithFramePointer_def FIRCLSUnwindWithLRRegister_def Let_def r'_def
        FIRCLSUnwindStackPointerFromFramePointer_def)
  ultimately show ?thesis
    using that p sp ps by (auto simp: r'_def register_accessors FIRCLSThreadContextGetPC_def FIRCLSThreadContextSetPC_def
        FIRCLSThreadContextSetFramePointer_def FIRCLSThreadContextSetStackPointer_def)
qed

lemma chain_walk_end:
  assumes "plain_images env" "inner_frame u" "FIRCLSUnwindGetFramePointer u = 0"
  shows "\<exists>w. walk env u [] w"
  using assms(2-) by (simp add: next_frame_plain [OF assms(1)] walk_Nil FIRCLSThreadContextGetPC_def
      FIRCLSThreadContextSetPC_def CLS_PTRAUTH_STRIP_def FIRCLSIsValidPointer_def)

lemma chain_walk:
  assumes "plain_images env" "inner_frame u" "frame_chain (env_mem env) (FIRCLSUnwindGetFramePointer u) ps"
    "uw_frameCount u = 1 \<longrightarrow> \<not> FIRCLSIsValidPointer (FIRCLSThreadContextGetLinkRegister (uw_registers u))"
    "unat (uw_frameCount u) + length ps < 100000"
  shows "\<exists>vs w. walk env u vs w \<and> map FIRCLSUnwindGetPC vs = ps"
  using assms(2-)
proof (induction ps arbitrary: u)
  case Nil
  then show ?case using chain_walk_end [OF assms(1)] by auto
next
  case (Cons p ps)
  define r where "r = FIRCLSThreadContextSetPC (uw_registers u) (FIRCLSUnwindGetPC u - 1)"
  have regs: "FIRCLSThreadContextGetFramePointer r = FIRCLSUnwindGetFramePointer u"
    "FIRCLSThreadContextGetLinkRegister r = FIRCLSThreadContextGetLinkRegister (uw_registers u)"
    by (simp_all add: r_def register_accessors FIRCLSThreadContextSetPC_def FIRCLSUnwindGetFramePointer_def)
  obtain r' where r': "FIRCLSUnwindWithFramePointer (env_mem env) r (uw_frameCount u = 1) = (True, r')"
      "FIRCLSThreadContextGetPC r' = p" "FIRCLSIsValidPointer (FIRCLSThreadContextGetStackPointer r')"
      "frame_chain (env_mem env) (FIRCLSThreadContextGetFramePointer r') ps" "FIRCLSUnwindGetFramePointer u \<noteq> 0"
    using chain_step [OF Cons.prems(2) regs(1), of "uw_frameCount u = 1"] Cons.prems(3) regs(2) by metis
  define v where "v = u\<lparr>uw_registers := r',
     uw_repeatCount := (if uw_lastFramePC u = p then uw_repeatCount u + 1 else 0),
     uw_frameCount := uw_frameCount u + 1, uw_lastFramePC := p\<rparr>"
  have p: "4097 \<le> p" "FIRCLSIsValidPointer p"
    using Cons.prems(2) by (auto intro: valid_4097)
  have next_v: "FIRCLSUnwindNextFrame env u = Some (True, v)"
    using r' p by (simp add: next_frame_plain [OF assms(1) Cons.prems(1)] r_def [symmetric] v_def)
  have c: "unat (uw_frameCount v) = unat (uw_frameCount u) + 1"
    using Cons.prems(4) by (simp add: v_def unat_word_ariths)
  moreover have "0 < unat (uw_frameCount u)" using Cons.prems(1) by (simp add: inner_frame_def word_less_nat_alt)
  ultimately have "inner_frame v" "uw_frameCount v \<noteq> 1" "unat (uw_frameCount v) + length ps < 100000"
    using r'(2,3) p Cons.prems(4)
    by (auto simp: inner_frame_def word_less_nat_alt FIRCLSUnwindMaxFrames_def)
      (simp_all add: v_def FIRCLSUnwindGetPC_def FIRCLSUnwindGetStackPointer_def)
  moreover have "frame_chain (env_mem env) (FIRCLSUnwindGetFramePointer v) ps"
    using r'(4) by (simp add: v_def FIRCLSUnwindGetFramePointer_def)
  ultimately obtain vs w where "walk env v vs w" "map FIRCLSUnwindGetPC vs = ps"
    using Cons.IH [of v] by auto
  moreover have "FIRCLSUnwindGetPC v = p" using r'(2) by (simp add: v_def FIRCLSUnwindGetPC_def)
  ultimately show ?case using walk.frame [OF next_v] by (intro exI [of _ "v # vs"] exI [of _ w]) simp
qed


text \<open>The first frame is the thread's own pc, and the second its link register when that is valid.\<close>

lemma first_frame:
  assumes "FIRCLSIsValidPointer (FIRCLSThreadContextGetPC thread)"
    "FIRCLSIsValidPointer (FIRCLSThreadContextGetStackPointer thread)"
  shows "FIRCLSUnwindNextFrame env (FIRCLSUnwindInit thread) =
    Some (True, (FIRCLSUnwindInit thread)\<lparr>uw_frameCount := 1, uw_lastFramePC := FIRCLSThreadContextGetPC thread\<rparr>)"
proof -
  have "FIRCLSThreadContextGetPC thread \<noteq> 0" using assms(1) by (auto simp: FIRCLSIsValidPointer_def)
  then show ?thesis
    using assms by (simp add: FIRCLSUnwindNextFrame_def FIRCLSUnwindNextFrameUsingAllStrategies_def
      FIRCLSUnwindContextHasValidPCAndSP_def FIRCLSUnwindInit_def FIRCLSUnwindMaxFrames_def Let_def
      FIRCLSUnwindGetPC_def FIRCLSUnwindGetStackPointer_def)
qed

lemma link_frame:
  assumes "plain_images env" "inner_frame u" "uw_frameCount u = 1" "FIRCLSUnwindGetFramePointer u \<noteq> 0"
    "FIRCLSIsValidPointer (FIRCLSThreadContextGetLinkRegister (uw_registers u))"
  obtains v where "FIRCLSUnwindNextFrame env u = Some (True, v)" "uw_frameCount v = 2"
    "FIRCLSUnwindGetPC v = FIRCLSThreadContextGetLinkRegister (uw_registers u)"
    "FIRCLSUnwindGetFramePointer v = FIRCLSUnwindGetFramePointer u"
    "FIRCLSUnwindGetStackPointer v = FIRCLSUnwindGetStackPointer u"
proof -
  define r where "r = FIRCLSThreadContextSetPC (uw_registers u) (FIRCLSUnwindGetPC u - 1)"
  let ?lr = "FIRCLSThreadContextGetLinkRegister (uw_registers u)"
  let ?r' = "FIRCLSThreadContextSetPC r ?lr"
  have strip: "CLS_PTRAUTH_STRIP ?lr = ?lr"
    by (simp add: FIRCLSThreadContextGetLinkRegister_def)
  have regs: "FIRCLSThreadContextGetPC ?r' = ?lr" "FIRCLSThreadContextGetFramePointer ?r' = FIRCLSUnwindGetFramePointer u"
    "FIRCLSThreadContextGetStackPointer ?r' = FIRCLSUnwindGetStackPointer u"
    by (simp_all add: r_def FIRCLSThreadContextGetPC_def FIRCLSThreadContextSetPC_def register_accessors strip
        FIRCLSUnwindGetFramePointer_def FIRCLSUnwindGetStackPointer_def)
  have "FIRCLSUnwindWithFramePointer (env_mem env) r True = (True, ?r')"
    using assms(5) by (simp add: FIRCLSUnwindWithFramePointer_def FIRCLSUnwindWithLRRegister_def r_def Let_def
        FIRCLSThreadContextGetLinkRegister_def FIRCLSThreadContextSetPC_def)
  then have "FIRCLSUnwindNextFrame env u = Some (True, u\<lparr>uw_registers := ?r',
       uw_repeatCount := (if uw_lastFramePC u = ?lr then uw_repeatCount u + 1 else 0),
       uw_frameCount := uw_frameCount u + 1, uw_lastFramePC := ?lr\<rparr>)"
    using assms(2,4,5) regs by (simp add: next_frame_plain [OF assms(1,2)] r_def [symmetric] assms(3) inner_frame_def)
  then show ?thesis
    using assms(3) regs by (intro that) (assumption, simp_all add: FIRCLSUnwindGetPC_def
      FIRCLSUnwindGetFramePointer_def FIRCLSUnwindGetStackPointer_def)
qed

lemma plain_walk:
  assumes "plain_images env" "4097 \<le> FIRCLSThreadContextGetPC thread"
    "FIRCLSIsValidPointer (FIRCLSThreadContextGetStackPointer thread)"
    "FIRCLSThreadContextGetLinkRegister thread \<noteq> 4096" "length rs < 99990"
    "frame_chain (env_mem env) (FIRCLSThreadContextGetFramePointer thread) rs"
  shows "\<exists>vs w. walk env (FIRCLSUnwindInit thread) vs w \<and> map FIRCLSUnwindGetPC vs = FIRCLSThreadContextGetPC thread #
    (let lr = FIRCLSThreadContextGetLinkRegister thread in if rs \<noteq> [] \<and> FIRCLSIsValidPointer lr then lr # rs else rs)"
proof -
  let ?lr = "FIRCLSThreadContextGetLinkRegister thread"
  define u where "u = (FIRCLSUnwindInit thread)\<lparr>uw_frameCount := 1, uw_lastFramePC := FIRCLSThreadContextGetPC thread\<rparr>"
  have u: "uw_registers u = thread" "uw_frameCount u = 1" "FIRCLSUnwindGetPC u = FIRCLSThreadContextGetPC thread"
    "FIRCLSUnwindGetFramePointer u = FIRCLSThreadContextGetFramePointer thread"
    "FIRCLSUnwindGetStackPointer u = FIRCLSThreadContextGetStackPointer thread"
    by (simp_all add: u_def FIRCLSUnwindInit_def FIRCLSUnwindGetPC_def FIRCLSUnwindGetFramePointer_def
        FIRCLSUnwindGetStackPointer_def)
  have inner: "inner_frame u"
    using assms(2,3) by (simp add: inner_frame_def u FIRCLSUnwindMaxFrames_def)
  have first: "FIRCLSUnwindNextFrame env (FIRCLSUnwindInit thread) = Some (True, u)"
    unfolding u_def by (rule first_frame [OF valid_4097 [OF assms(2)] assms(3)])
  have "\<exists>vs w. walk env u vs w \<and> map FIRCLSUnwindGetPC vs = (if rs \<noteq> [] \<and> FIRCLSIsValidPointer ?lr then ?lr # rs else rs)"
  proof (cases "rs \<noteq> [] \<and> FIRCLSIsValidPointer ?lr")
    case False
    then show ?thesis using chain_walk [OF assms(1) inner, of rs] chain_walk_end [OF assms(1) inner] assms(5,6) u by auto
  next
    case True
    then have lr: "4097 \<le> ?lr" using assms(4) by (auto simp: FIRCLSIsValidPointer_def word_le_nat_alt word_unat_eq_iff)
    have fp: "FIRCLSUnwindGetFramePointer u \<noteq> 0"
      using assms(6) True by (cases rs) (auto simp: u FIRCLSReadMemory_def FIRCLSIsValidPointer_def split: option.splits if_splits)
    obtain v where v: "FIRCLSUnwindNextFrame env u = Some (True, v)" "uw_frameCount v = 2"
      "FIRCLSUnwindGetPC v = ?lr" "FIRCLSUnwindGetFramePointer v = FIRCLSUnwindGetFramePointer u"
      "FIRCLSUnwindGetStackPointer v = FIRCLSUnwindGetStackPointer u"
      using link_frame [OF assms(1) inner u(2) fp] True u by auto
    have "inner_frame v" using lr assms(3) by (simp add: inner_frame_def v u FIRCLSUnwindMaxFrames_def)
    then obtain vs w where "walk env v vs w" "map FIRCLSUnwindGetPC vs = rs"
      using chain_walk [OF assms(1), of v rs] assms(5,6) v u by auto
    then show ?thesis using True v walk.frame [OF v(1)] by (intro exI [of _ "v # vs"] exI [of _ w]) simp
  qed
  then obtain vs w where "walk env u vs w" "map FIRCLSUnwindGetPC vs = (if rs \<noteq> [] \<and> FIRCLSIsValidPointer ?lr then ?lr # rs else rs)"
    by blast
  then show ?thesis
    using walk.frame [OF first] u(3) by (intro exI [of _ "u # vs"] exI [of _ w]) (simp add: Let_def)
qed

text \<open>C13: Without unwind tables, a thread whose frame pointer heads a chain of frame records is reported
  with its own pc, then its link register if it is valid, then the return addresses of the chain in
  order.  With a frame pointer of zero only the pc is reported: the link register is then not used.
\<close>

theorem frame_pointer_trace:
  assumes "plain_images env" "4097 \<le> FIRCLSThreadContextGetPC thread"
    "FIRCLSIsValidPointer (FIRCLSThreadContextGetStackPointer thread)"
    "FIRCLSThreadContextGetLinkRegister thread \<noteq> 4096" "length rs < 99990"
    "frame_chain (env_mem env) (FIRCLSThreadContextGetFramePointer thread) rs"
  shows "record_stacktrace env thread = Some (report_of (FIRCLSThreadContextGetPC thread #
    (let lr = FIRCLSThreadContextGetLinkRegister thread in if rs \<noteq> [] \<and> FIRCLSIsValidPointer lr then lr # rs else rs)))"
  using plain_walk [OF assms] record_walk(1) by metis

text \<open>C9: The report of a thread is determined by the frames of its walk: there are at most 100000, all
  with a valid pc, and all are written until a pc has repeated ten times in a row.  From then on this pc
  is left out wherever it occurs, and the count reported is the one of its latest occurrence.
\<close>

theorem stack_trace_exact:
  assumes "record_stacktrace env thread = Some (pcs, rep)"
  shows "\<exists>vs w. let qs = map FIRCLSUnwindGetPC vs; kept = kept_frames (zip qs (repetitions 0 0 qs)) in
    walk env (FIRCLSUnwindInit thread) vs w \<and> length vs \<le> 100000 \<and>
    (\<forall>q \<in> set qs. FIRCLSIsValidPointer q) \<and>
    pcs = fst kept \<and> rep = map_option (map_prod id of_nat) (snd kept)"
proof -
  obtain vs w where w: "walk env (FIRCLSUnwindInit thread) vs w"
    using record_stacktrace_obtains [OF assms] .
  show ?thesis
    using w record_walk [OF w] assms by (intro exI [of _ vs] exI [of _ w]) (auto simp: report_of_def Let_def)
qed

lemma kept_frames_head: "fst (kept_frames ((p, 0) # fs)) \<noteq> [] \<and> hd (fst (kept_frames ((p, 0) # fs))) = p"
  by (auto simp: kept_frames_def split: list.split)

text \<open>C40: The recording of a thread with a valid pc and stack pointer makes progress whatever its memory and
  images hold: if it does not fault, the first entry it writes is the pc the thread stopped at.
\<close>

theorem stack_trace_starts_at_pc:
  assumes "FIRCLSIsValidPointer (FIRCLSThreadContextGetPC thread)"
    "FIRCLSIsValidPointer (FIRCLSThreadContextGetStackPointer thread)"
    "record_stacktrace env thread = Some (pcs, rep)"
  shows "pcs \<noteq> [] \<and> hd pcs = FIRCLSThreadContextGetPC thread"
proof -
  let ?pc = "FIRCLSThreadContextGetPC thread"
  obtain vs w where w: "walk env (FIRCLSUnwindInit thread) vs w"
    using record_stacktrace_obtains [OF assms(3)] .
  from w first_frame [OF assms(1,2), of env] obtain v vs' where vs: "vs = v # vs'" and v: "FIRCLSUnwindGetPC v = ?pc"
    by (cases rule: walk.cases) (auto simp: FIRCLSUnwindGetPC_def FIRCLSUnwindInit_def)
  have "?pc \<noteq> 0" using assms(1) by (auto simp: FIRCLSIsValidPointer_def)
  then show ?thesis
    using record_walk(1) [OF w] assms(3) kept_frames_head
    by (simp add: vs v report_of_def Let_def)
qed

definition chain_mem :: cmem where
  "chain_mem = mem_at 4096
     [16, 16, 0, 0, 0, 0, 0, 0, 0, 0x50, 0, 0, 0, 0, 0, 0,
      0, 0, 0, 0, 0, 0, 0, 0, 0, 0x60, 0, 0, 0, 0, 0, 0]"

definition chain_env :: unwind_env where
  "chain_env = \<lparr>env_mem = chain_mem, env_nodes = [], env_format = sample_format\<rparr>"

definition chain_thread :: FIRCLSThreadContext where
  "chain_thread = \<lparr>ss_x = replicate 29 0, ss_fp = 4096, ss_lr = 0x7000, ss_sp = 4096, ss_pc = 0x8000\<rparr>"

lemma chain_registers:
  "FIRCLSThreadContextGetPC chain_thread = 0x8000" "FIRCLSThreadContextGetStackPointer chain_thread = 4096"
  "FIRCLSThreadContextGetLinkRegister chain_thread = 0x7000" "FIRCLSThreadContextGetFramePointer chain_thread = 4096"
  by (simp_all add: chain_thread_def FIRCLSThreadContextGetPC_def register_accessors CLS_PTRAUTH_STRIP_def)

lemma chain_of_two: "frame_chain chain_mem 4096 [0x5000, 0x6000]"
proof -
  have "load_bytes chain_mem 4096 16 = Some [16, 16, 0, 0, 0, 0, 0, 0, 0, 0x50, 0, 0, 0, 0, 0, 0]"
    "load_bytes chain_mem 4112 16 = Some [0, 0, 0, 0, 0, 0, 0, 0, 0, 0x60, 0, 0, 0, 0, 0, 0]"
    unfolding chain_mem_def by (subst load_mem_at; simp)+
  then show ?thesis
    by (simp add: FIRCLSReadMemory_def FIRCLSIsValidPointer_def CLS_PTRAUTH_STRIP_def del: load_bytes.simps)
qed

lemma chain_report: "report_of [0x8000, 0x7000, 0x5000, 0x6000] = ([0x8000, 0x7000, 0x5000, 0x6000], None)"
  by (simp add: report_of_def kept_frames_def Let_def)

lemma frame_pointer_trace_witness:
  "record_stacktrace chain_env chain_thread = Some ([0x8000, 0x7000, 0x5000, 0x6000], None)"
  using frame_pointer_trace [of chain_env chain_thread "[0x5000, 0x6000]"] chain_of_two
  by (simp add: chain_registers chain_env_def plain_images_def FIRCLSIsValidPointer_def Let_def chain_report)


lemma chain_recorded: "\<exists>pcs rep. record_stacktrace chain_env chain_thread = Some (pcs, rep)"
proof -
  obtain vs w where "walk chain_env (FIRCLSUnwindInit chain_thread) vs w"
    using plain_walk [of chain_env chain_thread "[0x5000, 0x6000]"] chain_of_two
    by (auto simp: chain_registers chain_env_def plain_images_def FIRCLSIsValidPointer_def)
  then show ?thesis using record_walk(1) by (metis surj_pair)
qed

lemma stack_trace_exact_witness:
  "\<exists>pcs rep vs w. record_stacktrace chain_env chain_thread = Some (pcs, rep) \<and>
     walk chain_env (FIRCLSUnwindInit chain_thread) vs w \<and> length vs \<le> 100000"
proof -
  obtain pcs rep where r: "record_stacktrace chain_env chain_thread = Some (pcs, rep)" using chain_recorded by blast
  show ?thesis using r stack_trace_exact [OF r] by (auto simp: Let_def)
qed

lemma stack_trace_starts_at_pc_witness:
  "\<exists>pcs rep. record_stacktrace chain_env chain_thread = Some (pcs, rep) \<and> hd pcs = 0x8000"
proof -
  obtain pcs rep where r: "record_stacktrace chain_env chain_thread = Some (pcs, rep)" using chain_recorded by blast
  have v: "FIRCLSIsValidPointer (FIRCLSThreadContextGetPC chain_thread)"
    "FIRCLSIsValidPointer (FIRCLSThreadContextGetStackPointer chain_thread)"
    by (simp_all add: chain_registers FIRCLSIsValidPointer_def)
  show ?thesis using r stack_trace_starts_at_pc [OF v r] chain_registers by auto
qed

text \<open>
  The repeated pc is never forgotten: after a recursion of \<open>p\<close> has been suppressed, a later single
  frame of \<open>p\<close> is dropped from the report, and sets the count back to 0.
\<close>

lemma later_frame_dropped:
  "p \<noteq> 0 \<Longrightarrow> p \<noteq> q \<Longrightarrow> report_of (replicate 12 p @ [q, p]) = (replicate 10 p @ [q], Some (p, 0))"
  by (simp add: report_of_def kept_frames_def Let_def eval_nat_numeral)

end
