(* ===== verification/Spec2Isabelle.thy ===== *)
theory Spec2Isabelle
  imports PbValue BerProofs LhashProofs Base64Proofs InetProofs IdnaProofs CompactProofs TraceProofs
begin

text \<open>
  The application is written in Dart; the C code of the repository is what its iOS build links,
  under \<^verbatim>\<open>ios/Pods\<close>.  This development models the parts of that code that carry logic of their own
  and handle data from outside: the protobuf runtime that encodes the telemetry events, the text
  encodings and address parsers beneath the network stack, and the stack unwinder of the crash
  reporter, which runs inside a crashed process and must not fail there itself.

  \<^bold>\<open>Conventions.\<close>  Integers have their C width (\<^typ>\<open>byte\<close>, \<^typ>\<open>u16\<close>, \<^typ>\<open>u32\<close>, \<^typ>\<open>u64\<close>); arithmetic
  wraps where the C code's does.  The target is a 64-bit little-endian ARM process, so \<^verbatim>\<open>size_t\<close> is
  \<^typ>\<open>u64\<close>.  Every function that reads through a pointer returns an option: \<^term>\<open>None\<close> stands for
  undefined behaviour (a read or write outside an object, a call through NULL, a shift of an \<^verbatim>\<open>int\<close>
  that overflows) and, where a function takes fuel, for fuel that ran out.  Errors that the C code
  reports are values: the boolean or the code it returns, beside the state it leaves behind.  A theorem
  with a result \<open>Some x\<close> therefore says three things: the code returns, it touches only memory it owns,
  and the result is right.

  \<^bold>\<open>nanopb\<close> (\<^verbatim>\<open>ios/Pods/nanopb\<close>).  \<open>PbTypes\<close> has the data of \<^verbatim>\<open>pb.h\<close>: field descriptors, the iterator, both
  streams; the memory of the process is the byte-addressed \<^typ>\<open>cmem\<close> of \<open>Prelude\<close> with its malloc heap.
  \<open>PbIter\<close> is \<^verbatim>\<open>pb_common.c\<close>.  \<open>PbOut\<close> and \<open>PbEncode\<close> are \<^verbatim>\<open>pb_encode.c\<close>: output streams and single values,
  then fields, arrays, submessages, extensions and whole messages.  \<open>PbIn\<close>, \<open>PbMem\<close> and \<open>PbDecode\<close> are
  \<^verbatim>\<open>pb_decode.c\<close>: input streams and single values, allocation, default values and release, then fields
  and whole messages.  What is outside the library is a parameter (\<^typ>\<open>pb_env\<close>): the table of
  the generated descriptors, the callbacks of the user, the choice of the addresses by malloc.
    \<open>PbWire\<close> states the wire format as functions from numbers to bytes; the contract \<open>writes\<close> of an encoder
  (the exact bytes if there is room, else an error and a part of them) and the locale \<open>wire_codec\<close> of
  the values that are read back carry the theorems on varints, zigzag numbers, tags and skipping.
  \<open>PbMessage\<close> lifts the contract to all of \<^verbatim>\<open>pb_encode\<close>, so that the size \<^verbatim>\<open>pb_get_encoded_size\<close> predicts is the
  size that is written, and to the delimited forms.  \<open>PbDecodeProofs\<close> makes the loop of the decoder a
  state machine (\<open>message_run\<close>) and says what a run leaves and reports.  \<open>PbValue\<close>
  composes both directions through the locale \<open>field_codec\<close>, which the scalar types interpret and
  which passes from the fields of a submessage to the submessage: for messages of static required and optional members, nested to any depth, the
  decoder puts back the value the encoder wrote, and on an input that holds only some of the members, in any order, it reports
  a missing required member exactly.

  \<^bold>\<open>BoringSSL\<close> (\<^verbatim>\<open>ios/Pods/BoringSSL-GRPC\<close>).  \<open>ConstTime\<close> is the branch-free part of \<^verbatim>\<open>crypto/internal.h\<close>, proved
  equal to the comparisons it stands for.  \<open>Base64\<close> is \<^verbatim>\<open>crypto/base64/base64.c\<close>; \<open>Base64Proofs\<close> compares it with
  a reference encoder and a reference scan, and proves through the locale \<open>chunked_stream\<close> that the
  streaming encoder and decoder do not depend on how their input is cut into chunks.
    The byte strings of \<^verbatim>\<open>crypto/bytestring\<close> are the lowest layer of every X.509 and TLS parser.  \<open>Cbs\<close> is \<^verbatim>\<open>cbs.c\<close> with the
  readers of \<^verbatim>\<open>unicode.c\<close>; a \<^typ>\<open>CBS\<close> is the memory from its pointer on, with a length.  \<open>CbsProofs\<close> states the
  distinguished encoding as functions to bytes and shows, through the locale \<open>cbs_reader\<close>, which every reader
  interprets, that a reader accepts exactly the strings that begin with a code.  \<open>Cbb\<close> is \<^verbatim>\<open>cbb.c\<close>, the writers of \<^verbatim>\<open>unicode.c\<close> and
  \<^verbatim>\<open>asn1_compat.c\<close>: builders point to their buffer and to a pending child, so they live in a store (\<^typ>\<open>cbb_store\<close>), and what
  malloc grants is a parameter (\<^typ>\<open>cbb_env\<close>).  \<open>CbbProofs\<close> has the contract \<open>appends\<close> of everything that writes (it appends
  its code and changes nothing else, or breaks the buffer because memory ran out), from which the elements with their
  backpatched lengths and whole trees of elements follow; \<open>CbbValues\<close> adds integers, booleans and strings.  \<open>Ber\<close> is
  \<^verbatim>\<open>ber.c\<close>; \<open>BerProofs\<close> describes the basic encoding by trees with a form for every length, shows what the conversion
  makes of them, what the search for liberties reports, and what it overlooks.
    The hash table, \<^verbatim>\<open>crypto/lhash/lhash.c\<close>, is \<open>Lhash\<close>: its items live in a heap, and the pointers to pointers of the search are
  values of the datatype \<open>link\<close>.  \<open>LhashProofs\<close> shows that every bucket chains the items of its hashes (\<open>lay_out\<close>), which every
  operation and every resizing keeps, so that the table refines a map (\<open>table_ok\<close>) and no item leaks.

  \<^bold>\<open>libuv\<close> (\<^verbatim>\<open>ios/Pods/Libuv-gRPC\<close>).  \<open>Inet\<close> is \<^verbatim>\<open>inet.c\<close> and \<^verbatim>\<open>strscpy.c\<close>, \<open>InetProofs\<close> its printers and parsers:
  bounds, the grammar of IPv4 addresses, the round trip of IPv6 addresses.  \<open>Idna\<close> is \<^verbatim>\<open>idna.c\<close>,
  \<open>IdnaProofs\<close> its UTF-8 decoder and Punycode encoder, against a decoder of Punycode written for the
  purpose.

  \<^bold>\<open>Crashlytics\<close> (\<^verbatim>\<open>ios/Pods/FirebaseCrashlytics/Crashlytics/Crashlytics\<close>).  \<open>DwarfData\<close> is
  \<^verbatim>\<open>FIRCLSDataParsing.c\<close> with the ARM64 register file, \<open>DwarfMachine\<close> the stack machine of
  \<^verbatim>\<open>FIRCLSDwarfExpressionMachine.c\<close>, \<open>DwarfUnwind\<close> the interpreter of call frame instructions,
  \<open>CompactUnwind\<close> the tables of \<^verbatim>\<open>FIRCLSCompactUnwind.c\<close>, and \<open>Unwind\<close> the choice between them
  with the loop of \<^verbatim>\<open>FIRCLSProcessRecordThread\<close> that writes the stack trace.  The theories ending in
  \<open>Proofs\<close> show: the LEB128 parsers against their codes (locale \<open>cursor_codec\<close>); the expression machine
  refines a machine on lists, keeps its stack in bounds and ends on every input; the interpreter
  computes the row of the table that DWARF prescribes (\<open>dwarf_run\<close>) wherever the code follows the standard, and never
  leaves the array of register rules; its two deviations from the standard, at a repeated \<^verbatim>\<open>DW_CFA_advance_loc\<close> and at a
  \<^verbatim>\<open>DW_CFA_def_cfa\<close> after an expression, are lemmas; the registers of the caller are those the rules denote (locale
  \<open>register_file\<close>); the search of the tables ends and finds the right function; the trace that is
  written is a function of the pcs of the walk (\<open>walk\<close>, an inductive relation of \<open>TraceProofs\<close>).

  \<^bold>\<open>Bounds and fuel.\<close>  Loops over an input recurse on what is left of it, or on a measure (\<open>termination\<close>
  proofs), and then need no fuel.  Fuel is used in five places.  The nesting of messages (\<open>pb_encode\<close>,
  \<open>pb_decode\<close>, \<open>pb_release\<close> and the loops of \<^verbatim>\<open>pb_decode.c\<close> that call callbacks): the theorems hold for every fuel
  above the depth of the descriptors, or say that the given fuel was enough.  Punycode: the code
  points still to be written, which fall in every round (\<open>idna_toascii_bounds\<close> proves that this suffices for every name).  The loops over a byte string: its length and one more, since a
  round, and a level of nesting, takes at least one byte; the theorems on them never assume that this is enough.
  \<^verbatim>\<open>CBB_flush\<close> follows the chain of children and is a \<open>partial_function\<close>; that builders return is part of their contract.
  So do the loops along the chains of a hash table, which end by the theorems on it.  The search of a page and of the registers is bounded by their number.  That the evaluation
  of DWARF expressions ends is a theorem.  The theorems on messages
  assume outputs below \<open>2 ^ 63\<close> bytes, more than the address space of a process holds.  The \<^verbatim>\<open>int\<close> that
  holds a length in \<^verbatim>\<open>uv_inet_pton\<close> is a natural number here: its truncation for strings of 2 GB is not modelled.

  \<^bold>\<open>Not modelled.\<close>  The rest of BoringSSL (arithmetic, ciphers, X.509, TLS): generated tables, C++, and
  far more code than a development of this size can follow.  The rest of libuv and of the Crashlytics
  components: event loops, files, signals, Mach exceptions, Objective-C, all of it system calls; the unwinder
  for x86 serves the simulator only.  upb, the protobuf runtime of gRPC, with its arenas and
  \<^verbatim>\<open>setjmp\<close>.  gRPC, Firestore, leveldb and abseil, which are C++.  The generated descriptors of nanopb are
  data, the parameter of the model.  Of the modelled files, functions that only print under \<^verbatim>\<open>DEBUG\<close> are left out.
\<close>

end
